(* ===== verification/MemH_Prelude.thy ===== *)
theory MemH_Prelude
  imports Main "HOL-Library.Word"
begin

unbundle bit_operations_syntax

text \<open>
  Shared vocabulary of the development: machine integers, faults as values and their
  sequencing, \<open>std::map\<close> as an ordered association list behind a locale, and the
  list operations of the C++ containers (\<open>std::list::insert\<close>, \<open>erase\<close>,
  \<open>std::copy\<close>, range construction of a vector).
\<close>

section \<open>Machine integers\<close>

type_synonym u8 = "8 word"
type_synonym u32 = "32 word"
type_synonym u64 = "64 word"
type_synonym Addr = "64 word"


lemma unat_u64_lt: "unat (x :: u64) < 18446744073709551616"
  using unsigned_less [of x, where ?'a = nat] by simp

lemma word_less_Suc_unat: "i < (n :: u64) \<Longrightarrow> unat (i + 1) = Suc (unat i)"
  using unat_u64_lt [of n] unat_add_lem [of i 1] by (simp add: word_less_nat_alt)

lemma unat_add_u64:
  "unat (a :: u64) + unat b < 18446744073709551616 \<Longrightarrow> unat (a + b) = unat a + unat b"
  using unat_add_lem [of a b] by simp

lemma unat_mult_u64:
  "unat (a :: u64) * unat b < 18446744073709551616 \<Longrightarrow> unat (a * b) = unat a * unat b"
  using unat_mult_lem [of a b] by simp

lemma unat_diff_u64: "(b :: u64) \<le> a \<Longrightarrow> unat (a - b) = unat a - unat b"
  by (rule unat_sub)

lemma unat_max: "unat (max a b :: u64) = max (unat a) (unat b)"
  by (auto simp: max_def word_le_nat_alt)

lemma unat_min: "unat (min a b :: u64) = min (unat a) (unat b)"
  by (auto simp: min_def word_le_nat_alt)

lemma unat_ucast_u32: "unat (ucast (x :: u32) :: u64) = unat x"
proof -
  have "unat x < 2 ^ 32" using unsigned_less [of x, where ?'a = nat] by simp
  then show ?thesis by (simp add: unsigned_ucast_eq take_bit_nat_eq_self)
qed

lemma ucast_down_up: "(ucast (ucast (x :: u32) :: u64) :: u32) = x"
  by (rule bit_word_eqI) (simp add: bit_ucast_iff)

lemma scast_u32_small:
  assumes "unat (x :: u32) < 2147483648" shows "(scast x :: u64) = ucast x"
proof (rule bit_eqI)
  fix n assume "possible_bit TYPE(64 word) n"
  have t: "take_bit 31 (unat x) = unat x" using assms by (intro take_bit_nat_eq_self) simp
  have "\<not> bit x k" if "31 \<le> k" for k
  proof -
    have "\<not> bit (unat x) k" using that by (metis bit_take_bit_iff not_le t)
    then show ?thesis by (simp add: bit_unsigned_iff)
  qed
  then show "bit (scast x :: u64) n = bit (ucast x :: u64) n"
    by (cases "n < 31") (auto simp: bit_signed_iff bit_unsigned_iff min_def)
qed

section \<open>Faults and results\<close>

text \<open>
  \<open>Fatal\<close> is a call of \<open>Output::fatal\<close>, which ends the simulation; the tag names the
  method that made it. The other faults are undefined behaviour of the C++ that a checked
  run would trap: a null pointer, an iterator or index out of range, a division by zero, a
  downcast of an object of another class.
\<close>

datatype fault = Fatal string | NullDeref | OutOfRange | DivByZero | BadCast

type_synonym 'a res = "fault + 'a"

definition bindE :: "'a res \<Rightarrow> ('a \<Rightarrow> 'b res) \<Rightarrow> 'b res" where
  "bindE m f = (case m of Inl e \<Rightarrow> Inl e | Inr x \<Rightarrow> f x)"

definition okE :: "('a \<Rightarrow> bool) \<Rightarrow> 'a res \<Rightarrow> bool" where
  "okE P m = (case m of Inl _ \<Rightarrow> True | Inr x \<Rightarrow> P x)"

lemma bindE_Inr [simp]: "bindE (Inr x) f = f x"
  by (simp add: bindE_def)

lemma bindE_Inl [simp]: "bindE (Inl e) f = Inl e"
  by (simp add: bindE_def)

lemma bindE_eq_Inr_iff: "bindE m f = Inr y \<longleftrightarrow> (\<exists>x. m = Inr x \<and> f x = Inr y)"
  by (cases m) auto

lemma bindE_eq_Inl_iff:
  "bindE m f = Inl e \<longleftrightarrow> m = Inl e \<or> (\<exists>x. m = Inr x \<and> f x = Inl e)"
  by (cases m) auto

lemma bindE_assoc: "bindE (bindE m f) g = bindE m (\<lambda>x. bindE (f x) g)"
  by (cases m) auto

lemma okE_Inr [simp]: "okE P (Inr x) = P x"
  by (simp add: okE_def)

lemma okE_Inl [simp]: "okE P (Inl e)"
  by (simp add: okE_def)

lemma okE_iff: "okE P m \<longleftrightarrow> (\<forall>x. m = Inr x \<longrightarrow> P x)"
  by (cases m) auto

lemma okE_D: "okE P m \<Longrightarrow> m = Inr x \<Longrightarrow> P x"
  by simp

lemma okE_mono: "okE P m \<Longrightarrow> (\<And>x. P x \<Longrightarrow> Q x) \<Longrightarrow> okE Q m"
  by (cases m) auto

lemma okE_True [simp]: "okE (\<lambda>_. True) m"
  by (cases m) auto

text \<open>The rule the invariant proofs of the handlers are built from.\<close>

lemma okE_bind: "okE P m \<Longrightarrow> (\<And>x. m = Inr x \<Longrightarrow> P x \<Longrightarrow> okE Q (f x)) \<Longrightarrow> okE Q (bindE m f)"
  by (cases m) auto

lemma okE_if: "(b \<Longrightarrow> okE P m) \<Longrightarrow> (\<not> b \<Longrightarrow> okE P n) \<Longrightarrow> okE P (if b then m else n)"
  by simp

lemma okE_conj: "okE P m \<Longrightarrow> okE Q m \<Longrightarrow> okE (\<lambda>x. P x \<and> Q x) m"
  by (cases m) auto

text \<open>Running an operation that may fault \<open>n\<close> times.\<close>

primrec iter_res :: "nat \<Rightarrow> ('s \<Rightarrow> 's res) \<Rightarrow> 's \<Rightarrow> 's res" where
  "iter_res 0 f s = Inr s"
| "iter_res (Suc n) f s = bindE (f s) (iter_res n f)"

section \<open>The operations of std::list and std::vector\<close>

text \<open>\<open>insert_at n x xs\<close> is \<open>xs.insert(next(xs.begin(), n), x)\<close>.\<close>

definition insert_at :: "nat \<Rightarrow> 'a \<Rightarrow> 'a list \<Rightarrow> 'a list" where
  "insert_at n x xs = take n xs @ x # drop n xs"

definition erase_at :: "nat \<Rightarrow> 'a list \<Rightarrow> 'a list" where
  "erase_at n xs = take n xs @ drop (Suc n) xs"

text \<open>
  \<open>vec_slice d off len\<close> is the range \<open>[d.begin()+off, d.begin()+off+len)\<close>;
  \<open>vec_copy src off dst\<close> is \<open>std::copy(src.begin(), src.end(), dst.begin()+off)\<close>.
  Both leave the vector in the C++ when the range does not fit.
\<close>

definition vec_slice :: "'a list \<Rightarrow> nat \<Rightarrow> nat \<Rightarrow> 'a list res" where
  "vec_slice d off len =
     (if off + len \<le> length d then Inr (take len (drop off d)) else Inl OutOfRange)"

definition vec_copy :: "'a list \<Rightarrow> nat \<Rightarrow> 'a list \<Rightarrow> 'a list res" where
  "vec_copy src off dst =
     (if off + length src \<le> length dst
      then Inr (take off dst @ src @ drop (off + length src) dst) else Inl OutOfRange)"

lemma length_insert_at [simp]: "length (insert_at n x xs) = Suc (length xs)"
  by (simp add: insert_at_def)

lemma length_erase_at [simp]: "n < length xs \<Longrightarrow> length (erase_at n xs) = length xs - 1"
  by (simp add: erase_at_def)

lemma insert_at_0 [simp]: "insert_at 0 x xs = x # xs"
  by (simp add: insert_at_def)

lemma insert_at_nth: "n \<le> length xs \<Longrightarrow> insert_at n x xs ! n = x"
  by (simp add: insert_at_def nth_append)

lemma erase_at_0 [simp]: "erase_at 0 xs = tl xs"
  by (cases xs) (simp_all add: erase_at_def)

lemma erase_insert_at [simp]: "n \<le> length xs \<Longrightarrow> erase_at n (insert_at n x xs) = xs"
  by (simp add: insert_at_def erase_at_def)

lemma filter_erase_at:
  assumes "n < length xs"
  shows "length (filter P (erase_at n xs)) + (if P (xs ! n) then 1 else 0) = length (filter P xs)"
proof -
  have "length (filter P xs) = length (filter P (take n xs @ xs ! n # drop (Suc n) xs))"
    using assms by (simp add: id_take_nth_drop [symmetric])
  then show ?thesis by (simp add: erase_at_def)
qed

lemma filter_insert_at:
  "length (filter P (insert_at n x xs)) = length (filter P xs) + (if P x then 1 else 0)"
proof -
  have "length (filter P xs) = length (filter P (take n xs @ drop n xs))" by simp
  then show ?thesis by (simp only: insert_at_def filter_append) simp
qed

lemma vec_copy_length: "vec_copy src off dst = Inr d \<Longrightarrow> length d = length dst"
  by (auto simp: vec_copy_def split: if_splits)

text \<open>Bytes written are the bytes read back.\<close>

lemma vec_slice_copy:
  "vec_copy src off dst = Inr d \<Longrightarrow> vec_slice d off (length src) = Inr src"
  by (auto simp: vec_copy_def vec_slice_def split: if_splits)

text \<open>A read that does not overlap the write sees the old bytes.\<close>

lemma vec_slice_copy_disjoint:
  assumes "vec_copy src off dst = Inr d" and "o' + n \<le> off \<or> off + length src \<le> o'"
  shows "vec_slice d o' n = vec_slice dst o' n"
proof -
  from assms(1) have le: "off + length src \<le> length dst"
    and d: "d = take off dst @ src @ drop (off + length src) dst"
    by (auto simp: vec_copy_def split: if_splits)
  from assms(2) show ?thesis
  proof
    assume "o' + n \<le> off"
    then have "take n (drop o' (take off dst)) = take n (drop o' dst)"
      by (simp add: drop_take)
    with \<open>o' + n \<le> off\<close> show ?thesis using le by (simp add: vec_slice_def d)
  next
    assume "off + length src \<le> o'"
    then have "drop o' d = drop o' dst" using le by (simp add: d)
    then show ?thesis using le by (simp add: vec_slice_def d)
  qed
qed

section \<open>std::map as an ordered association list\<close>

text \<open>
  The keys are kept in increasing order, which is the order the C++ iterates them in.
  The client operations are \<open>find\<close>, assignment through an iterator or \<open>insert\<close> of a new
  key, and \<open>erase\<close>.
\<close>

type_synonym ('k, 'v) stdmap = "('k \<times> 'v) list"

fun map_set :: "'k::linorder \<Rightarrow> 'v \<Rightarrow> ('k, 'v) stdmap \<Rightarrow> ('k, 'v) stdmap" where
  "map_set k v [] = [(k, v)]"
| "map_set k v ((a, b) # ps) =
     (if k < a then (k, v) # (a, b) # ps
      else if k = a then (k, v) # ps else (a, b) # map_set k v ps)"

fun map_erase :: "'k \<Rightarrow> ('k, 'v) stdmap \<Rightarrow> ('k, 'v) stdmap" where
  "map_erase k [] = []"
| "map_erase k ((a, b) # ps) = (if k = a then ps else (a, b) # map_erase k ps)"

abbreviation map_find :: "('k, 'v) stdmap \<Rightarrow> 'k \<Rightarrow> 'v option" where
  "map_find \<equiv> map_of"

abbreviation key_sorted :: "('k::linorder, 'v) stdmap \<Rightarrow> bool" where
  "key_sorted m \<equiv> sorted_wrt (<) (map fst m)"

text \<open>The interface every client of a \<open>std::map\<close> relies on.\<close>

locale std_map =
  fixes mempty :: 'm
    and mset :: "'k \<Rightarrow> 'v \<Rightarrow> 'm \<Rightarrow> 'm"
    and merase :: "'k \<Rightarrow> 'm \<Rightarrow> 'm"
    and mfind :: "'m \<Rightarrow> 'k \<Rightarrow> 'v option"
    and minv :: "'m \<Rightarrow> bool"
  assumes find_empty: "mfind mempty k = None"
    and find_set: "minv m \<Longrightarrow> mfind (mset k v m) = (mfind m)(k \<mapsto> v)"
    and find_erase: "minv m \<Longrightarrow> mfind (merase k m) = (mfind m)(k := None)"
    and inv_empty: "minv mempty"
    and inv_set: "minv m \<Longrightarrow> minv (mset k v m)"
    and inv_erase: "minv m \<Longrightarrow> minv (merase k m)"
begin

lemma find_set_same: "minv m \<Longrightarrow> mfind (mset k v m) k = Some v"
  by (simp add: find_set)

lemma find_set_other: "minv m \<Longrightarrow> k' \<noteq> k \<Longrightarrow> mfind (mset k v m) k' = mfind m k'"
  by (simp add: find_set)

lemma find_erase_set: "minv m \<Longrightarrow> mfind m k = None \<Longrightarrow> mfind (merase k (mset k v m)) = mfind m"
  by (simp add: find_set find_erase inv_set fun_upd_idem)

lemma dom_set: "minv m \<Longrightarrow> dom (mfind (mset k v m)) = insert k (dom (mfind m))"
  by (simp add: find_set)

lemma dom_erase: "minv m \<Longrightarrow> dom (mfind (merase k m)) = dom (mfind m) - {k}"
  by (simp add: find_erase)

end

lemma map_find_set [simp]: "map_find (map_set k v m) = (map_find m)(k \<mapsto> v)"
  by (induction k v m rule: map_set.induct) auto

lemma map_find_erase: "key_sorted m \<Longrightarrow> map_find (map_erase k m) = (map_find m)(k := None)"
proof (induction k m rule: map_erase.induct)
  case (1 k)
  then show ?case by simp
next
  case (2 k a b ps)
  show ?case
  proof (cases "k = a")
    case True
    with 2 have "map_find ps a = None" by (auto simp: map_of_eq_None_iff)
    with True show ?thesis by (auto simp: fun_eq_iff)
  next
    case False
    with 2 show ?thesis by auto
  qed
qed

lemma fst_set_map_set: "fst ` set (map_set k v m) = insert k (fst ` set m)"
  by (induction k v m rule: map_set.induct) auto

lemma fst_set_map_erase: "fst ` set (map_erase k m) \<subseteq> fst ` set m"
  by (induction k m rule: map_erase.induct) auto

lemma key_sorted_map_set: "key_sorted m \<Longrightarrow> key_sorted (map_set k v m)"
proof (induction k v m rule: map_set.induct)
  case (1 k v)
  then show ?case by simp
next
  case (2 k v a b ps)
  have keys: "x \<in> fst ` set (map_set k v ps) \<longleftrightarrow> x = k \<or> x \<in> fst ` set ps" for x
    by (simp add: fst_set_map_set)
  consider "k < a" | "k = a" | "a < k" by fastforce
  then show ?case
  proof cases
    case 1
    with 2 show ?thesis by auto
  next
    case c2: 2
    with 2 show ?thesis by simp
  next
    case 3
    with 2 have "key_sorted (map_set k v ps)" by simp
    moreover have "\<forall>x \<in> fst ` set (map_set k v ps). a < x"
      using 2 3 by (auto simp: fst_set_map_set)
    ultimately show ?thesis using 3 by (auto simp: image_iff)
  qed
qed

lemma key_sorted_map_erase: "key_sorted m \<Longrightarrow> key_sorted (map_erase k m)"
proof (induction k m rule: map_erase.induct)
  case (1 k)
  then show ?case by simp
next
  case (2 k a b ps)
  then show ?case using fst_set_map_erase [of k ps] by (force simp: subset_iff)
qed

interpretation sm: std_map "[]" map_set map_erase map_find "key_sorted"
  by unfold_locales
    (simp_all add: map_find_erase key_sorted_map_set key_sorted_map_erase)

lemmas stdmap_simps = map_find_set map_find_erase key_sorted_map_set key_sorted_map_erase
  sm.find_set_same sm.find_erase_set

end
