(* ===== verification/MemH_Types.thy ===== *)
theory MemH_Types
  imports MemH_Prelude
begin

text \<open>
  \<^verbatim>\<open>memHierarchy/memTypes.h\<close>: the command table (\<open>X_CMDS\<close>), the coherence
  states (\<open>STATE_TYPES\<close>) and the address regions with interleaving (\<open>MemRegion\<close>),
  whose intersection decides how memory is partitioned between components.
  A state name \<open>X\<close> of the source is the constructor \<open>stX\<close>.
\<close>

section \<open>Commands\<close>

datatype CommandClass = CC_Request | CC_Data | CC_Ack | CC_ForwardRequest
datatype BasicCommandClass = BC_Request | BC_Response
datatype MemEventType = MT_Cache | MT_Move | MT_Custom

datatype Command =
    NULLCMD | GetS | GetX | GetSX | Write | FlushLine | FlushLineInv | FlushAll | GetSResp
    | GetXResp | WriteResp | FlushLineResp | FlushAllResp | PutS | PutM | PutE | PutX | Inv
    | ForceInv | Fetch | FetchInv | FetchInvX | FetchResp | FetchXResp | NACK | AckInv
    | AckPut | Put | Get | AckMove | CustomReq | CustomResp | CustomAck | Evict | LAST_CMD

text \<open>
  One row of \<open>X_CMDS\<close>: response, basic class, class, routed by address, writeback, type.
  \<open>LAST_CMD\<close> is the enumerator after the table; the arrays have no entry for it.
\<close>

primrec cmd_row ::
  "Command \<Rightarrow> Command \<times> BasicCommandClass \<times> CommandClass \<times> bool \<times> bool \<times> MemEventType" where
  "cmd_row NULLCMD = (NULLCMD, BC_Request, CC_Request, True, False, MT_Cache)"
| "cmd_row GetS = (GetSResp, BC_Request, CC_Request, True, False, MT_Cache)"
| "cmd_row GetX = (GetXResp, BC_Request, CC_Request, True, False, MT_Cache)"
| "cmd_row GetSX = (GetSResp, BC_Request, CC_Request, True, False, MT_Cache)"
| "cmd_row Write = (WriteResp, BC_Request, CC_Request, True, False, MT_Cache)"
| "cmd_row FlushLine = (FlushLineResp, BC_Request, CC_Request, True, False, MT_Cache)"
| "cmd_row FlushLineInv = (FlushLineResp, BC_Request, CC_Request, True, False, MT_Cache)"
| "cmd_row FlushAll = (FlushAllResp, BC_Request, CC_Request, True, False, MT_Cache)"
| "cmd_row GetSResp = (NULLCMD, BC_Response, CC_Data, False, False, MT_Cache)"
| "cmd_row GetXResp = (NULLCMD, BC_Response, CC_Data, False, False, MT_Cache)"
| "cmd_row WriteResp = (NULLCMD, BC_Response, CC_Ack, False, False, MT_Cache)"
| "cmd_row FlushLineResp = (NULLCMD, BC_Response, CC_Ack, False, False, MT_Cache)"
| "cmd_row FlushAllResp = (NULLCMD, BC_Response, CC_Ack, False, False, MT_Cache)"
| "cmd_row PutS = (AckPut, BC_Request, CC_Request, True, True, MT_Cache)"
| "cmd_row PutM = (AckPut, BC_Request, CC_Request, True, True, MT_Cache)"
| "cmd_row PutE = (AckPut, BC_Request, CC_Request, True, True, MT_Cache)"
| "cmd_row PutX = (AckPut, BC_Request, CC_Request, True, True, MT_Cache)"
| "cmd_row Inv = (AckInv, BC_Request, CC_ForwardRequest, False, False, MT_Cache)"
| "cmd_row ForceInv = (AckInv, BC_Request, CC_ForwardRequest, False, False, MT_Cache)"
| "cmd_row Fetch = (FetchResp, BC_Request, CC_ForwardRequest, False, False, MT_Cache)"
| "cmd_row FetchInv = (FetchResp, BC_Request, CC_ForwardRequest, False, False, MT_Cache)"
| "cmd_row FetchInvX = (FetchXResp, BC_Request, CC_ForwardRequest, False, False, MT_Cache)"
| "cmd_row FetchResp = (NULLCMD, BC_Response, CC_Data, True, False, MT_Cache)"
| "cmd_row FetchXResp = (NULLCMD, BC_Response, CC_Data, True, False, MT_Cache)"
| "cmd_row NACK = (NULLCMD, BC_Response, CC_Ack, True, False, MT_Cache)"
| "cmd_row AckInv = (NULLCMD, BC_Response, CC_Ack, True, False, MT_Cache)"
| "cmd_row AckPut = (NULLCMD, BC_Response, CC_Ack, False, False, MT_Cache)"
| "cmd_row Put = (AckMove, BC_Request, CC_Request, True, False, MT_Move)"
| "cmd_row Get = (AckMove, BC_Request, CC_Request, True, False, MT_Move)"
| "cmd_row AckMove = (NULLCMD, BC_Response, CC_Ack, False, False, MT_Move)"
| "cmd_row CustomReq = (CustomResp, BC_Request, CC_Request, True, False, MT_Custom)"
| "cmd_row CustomResp = (NULLCMD, BC_Response, CC_Data, False, False, MT_Custom)"
| "cmd_row CustomAck = (NULLCMD, BC_Response, CC_Ack, False, False, MT_Custom)"
| "cmd_row Evict = (NULLCMD, BC_Request, CC_Request, False, False, MT_Cache)"
| "cmd_row LAST_CMD = (LAST_CMD, BC_Request, CC_Request, False, False, MT_Custom)"

definition CommandResponse :: "Command \<Rightarrow> Command" where
  "CommandResponse c = fst (cmd_row c)"

definition BasicCommandClassArr :: "Command \<Rightarrow> BasicCommandClass" where
  "BasicCommandClassArr c = fst (snd (cmd_row c))"

definition CommandClassArr :: "Command \<Rightarrow> CommandClass" where
  "CommandClassArr c = fst (snd (snd (cmd_row c)))"

definition CommandRouteByAddress :: "Command \<Rightarrow> bool" where
  "CommandRouteByAddress c = fst (snd (snd (snd (cmd_row c))))"

definition CommandWriteback :: "Command \<Rightarrow> bool" where
  "CommandWriteback c = fst (snd (snd (snd (snd (cmd_row c)))))"

definition MemEventTypeArr :: "Command \<Rightarrow> MemEventType" where
  "MemEventTypeArr c = snd (snd (snd (snd (snd (cmd_row c)))))"

lemmas command_arrays = CommandResponse_def BasicCommandClassArr_def CommandClassArr_def
  CommandRouteByAddress_def CommandWriteback_def MemEventTypeArr_def

section \<open>Coherence states\<close>

datatype State =
    stNP | stI | stS | stE | stO | stM | stIS | stIM | stSM | stOM | stI_d | stS_d | stM_d
    | stM_Inv | stM_InvX | stE_Inv | stE_InvX | stS_D | stE_D | stM_D | stSM_D | stSB_D
    | stS_Inv | stSM_Inv | stSD_Inv | stMI | stEI | stSI | stM_B | stE_B | stS_B | stI_B
    | stSB_Inv | stIA | stSA | stEA | stMA | stNULLST

primrec NextState :: "State \<Rightarrow> State" where
  "NextState stNP = stNP"
| "NextState stI = stI"
| "NextState stS = stS"
| "NextState stE = stE"
| "NextState stO = stO"
| "NextState stM = stM"
| "NextState stIS = stS"
| "NextState stIM = stM"
| "NextState stSM = stM"
| "NextState stOM = stM"
| "NextState stI_d = stI"
| "NextState stS_d = stS"
| "NextState stM_d = stM"
| "NextState stM_Inv = stM"
| "NextState stM_InvX = stM"
| "NextState stE_Inv = stE"
| "NextState stE_InvX = stE"
| "NextState stS_D = stS"
| "NextState stE_D = stE"
| "NextState stM_D = stM"
| "NextState stSM_D = stSM"
| "NextState stSB_D = stS_B"
| "NextState stS_Inv = stS"
| "NextState stSM_Inv = stSM"
| "NextState stSD_Inv = stIS"
| "NextState stMI = stI"
| "NextState stEI = stI"
| "NextState stSI = stI"
| "NextState stM_B = stM"
| "NextState stE_B = stE"
| "NextState stS_B = stS"
| "NextState stI_B = stI"
| "NextState stSB_Inv = stS_B"
| "NextState stIA = stI"
| "NextState stSA = stS"
| "NextState stEA = stE"
| "NextState stMA = stM"
| "NextState stNULLST = stNULLST"

datatype MemEventStatus = OK | Stall | Reject

section \<open>Address regions\<close>

record MemRegion =
  mr_start :: Addr
  mr_end :: Addr
  interleaveSize :: Addr
  interleaveStep :: Addr

definition REGION_MAX :: Addr where
  "REGION_MAX = - 1"

definition setDefault :: MemRegion where
  "setDefault = \<lparr>mr_start = 0, mr_end = REGION_MAX, interleaveSize = 0, interleaveStep = 0\<rparr>"

definition setEmpty :: MemRegion where
  "setEmpty = \<lparr>mr_start = 0, mr_end = 0, interleaveSize = 0, interleaveStep = 0\<rparr>"

text \<open>\<open>contains\<close> divides by \<open>interleaveStep\<close>, which traps when the step is zero.\<close>

definition contains :: "MemRegion \<Rightarrow> Addr \<Rightarrow> bool res" where
  "contains r addr =
     (if mr_start r \<le> addr \<and> addr \<le> mr_end r
      then if interleaveSize r = 0 then Inr True
           else if interleaveStep r = 0 then Inl DivByZero
           else Inr ((addr - mr_start r) mod interleaveStep r < interleaveSize r)
      else Inr False)"

function mr_gcd :: "u64 \<Rightarrow> u64 \<Rightarrow> u64" where
  "mr_gcd a b = (if b = 0 then a else mr_gcd b (a mod b))"
  by pat_completeness auto
termination
  by (relation "measure (\<lambda>(a, b). unat b)")
    (auto simp: unat_mod unat_gt_0 intro!: mod_less_divisor)

declare mr_gcd.simps [simp del]

text \<open>\<open>operator<\<close>, and insertion into a \<open>std::set\<close> ordered by it.\<close>

definition mr_less :: "MemRegion \<Rightarrow> MemRegion \<Rightarrow> bool" where
  "mr_less r q =
     (if mr_start r \<noteq> mr_start q then mr_start r < mr_start q
      else if mr_end r \<noteq> mr_end q then mr_end r < mr_end q
      else interleaveSize r * interleaveStep q < interleaveStep r * interleaveSize q)"

fun set_insert :: "('a \<Rightarrow> 'a \<Rightarrow> bool) \<Rightarrow> 'a \<Rightarrow> 'a list \<Rightarrow> 'a list" where
  "set_insert lt x [] = [x]"
| "set_insert lt x (y # ys) =
     (if lt x y then x # y # ys else if lt y x then y # set_insert lt x ys else y # ys)"

text \<open>The least common multiple of the two steps, as both methods compute it.\<close>

definition step_lcm :: "MemRegion \<Rightarrow> MemRegion \<Rightarrow> u64" where
  "step_lcm r q =
     (if interleaveStep r = interleaveStep q then interleaveStep r
      else if interleaveStep r > interleaveStep q
      then (interleaveStep r div mr_gcd (interleaveStep r) (interleaveStep q)) * interleaveStep q
      else (interleaveStep r div mr_gcd (interleaveStep q) (interleaveStep r)) * interleaveStep q)"

text \<open>
  The scan of one period: \<open>i\<close>, \<open>region_start\<close>, \<open>region_size\<close> and \<open>regions\<close> are the
  variables of the loop; \<open>period\<close> is \<open>lcm\<close> and \<open>e\<close> the end of both regions.
\<close>

definition run_region :: "Addr \<Rightarrow> Addr \<Rightarrow> u64 \<Rightarrow> u64 \<Rightarrow> MemRegion" where
  "run_region rstart e rsize period =
     \<lparr>mr_start = rstart, mr_end = e, interleaveSize = rsize, interleaveStep = period\<rparr>"

function intersect_loop ::
  "MemRegion \<Rightarrow> MemRegion \<Rightarrow> u64 \<Rightarrow> Addr \<Rightarrow> Addr \<Rightarrow> Addr \<Rightarrow> Addr \<Rightarrow> u64 \<Rightarrow> MemRegion list
   \<Rightarrow> MemRegion list res" where
  "intersect_loop r q period e check_end i region_start region_size regions =
     (if i < check_end
      then bindE (contains r i) (\<lambda>c1.
           bindE (if c1 then contains q i else Inr False) (\<lambda>in_region.
             if in_region
             then intersect_loop r q period e check_end (i + 1)
                    (if region_size = 0 then i else region_start) (region_size + 1) regions
             else if region_size \<noteq> 0
             then intersect_loop r q period e check_end (i + 1) region_start 0
                    (set_insert mr_less (run_region region_start e region_size period) regions)
             else intersect_loop r q period e check_end (i + 1) region_start region_size regions))
      else Inr (if region_size \<noteq> 0
                then set_insert mr_less (run_region region_start e region_size period) regions
                else regions))"
  by pat_completeness auto

termination
  by (relation "measure (\<lambda>(r, q, p, e, ce, i, rs, sz, regs). unat ce - unat i)")
    (auto simp: word_less_Suc_unat word_less_nat_alt)

declare intersect_loop.simps [simp del]

definition intersect :: "MemRegion \<Rightarrow> MemRegion \<Rightarrow> MemRegion list res" where
  "intersect r q =
     (if mr_end q < mr_start r \<or> mr_end r < mr_start q then Inr []
      else if r = q then Inr [r]
      else if interleaveSize r = 0 \<and> interleaveStep q = 0
      then Inr [run_region (max (mr_start r) (mr_start q)) (min (mr_end r) (mr_end q)) 0 0]
      else let check_start = max (mr_start r) (mr_start q);
               check_end = check_start + step_lcm r q
           in intersect_loop r q (step_lcm r q) (min (mr_end r) (mr_end q)) check_end
                check_start check_start 0 [])"

function doesIntersect_loop :: "MemRegion \<Rightarrow> MemRegion \<Rightarrow> Addr \<Rightarrow> Addr \<Rightarrow> bool res" where
  "doesIntersect_loop r q check_end i =
     (if i < check_end
      then bindE (contains r i) (\<lambda>c1.
           bindE (if c1 then contains q i else Inr False) (\<lambda>c2.
             if c2 then Inr True else doesIntersect_loop r q check_end (i + 1)))
      else Inr False)"
  by pat_completeness auto
termination
  by (relation "measure (\<lambda>(r, q, ce, i). unat ce - unat i)")
    (auto simp: word_less_Suc_unat word_less_nat_alt)

declare doesIntersect_loop.simps [simp del]

definition doesIntersect :: "MemRegion \<Rightarrow> MemRegion \<Rightarrow> bool res" where
  "doesIntersect r q =
     (if mr_end q < mr_start r \<or> mr_end r < mr_start q then Inr False
      else if r = q then Inr True
      else if interleaveSize r = 0 \<and> interleaveStep q = 0 then Inr True
      else let check_start = max (mr_start r) (mr_start q)
           in doesIntersect_loop r q (check_start + step_lcm r q) check_start)"

section \<open>The common divisor and the common period\<close>

lemma unat_mr_gcd: "unat (mr_gcd a b) = gcd (unat a) (unat b)"
proof (induction a b rule: mr_gcd.induct)
  case (1 a b)
  show ?case
  proof (cases "b = 0")
    case True
    then show ?thesis by (simp add: mr_gcd.simps)
  next
    case False
    with 1 show ?thesis
      by (simp add: mr_gcd.simps [of a b] unat_mod gcd_red_nat [symmetric] gcd.commute)
  qed
qed

section \<open>What an interleaved region contains\<close>

text \<open>Membership at the level of natural numbers, where no subtraction wraps.\<close>

definition mr_wf :: "MemRegion \<Rightarrow> bool" where
  "mr_wf r \<longleftrightarrow> interleaveSize r \<noteq> 0 \<and> interleaveStep r \<noteq> 0"

definition in_reg :: "MemRegion \<Rightarrow> nat \<Rightarrow> bool" where
  "in_reg r x \<longleftrightarrow> unat (mr_start r) \<le> x \<and> x \<le> unat (mr_end r) \<and>
     (x - unat (mr_start r)) mod unat (interleaveStep r) < unat (interleaveSize r)"

lemma contains_in_reg: "mr_wf r \<Longrightarrow> contains r x = Inr (in_reg r (unat x))"
  by (auto simp: contains_def in_reg_def mr_wf_def word_le_nat_alt word_less_nat_alt unat_mod unat_diff_u64)

lemma unat_step_lcm:
  assumes "mr_wf r" "mr_wf q"
    and "lcm (unat (interleaveStep r)) (unat (interleaveStep q)) < 18446744073709551616"
  shows "unat (step_lcm r q) = lcm (unat (interleaveStep r)) (unat (interleaveStep q))"
proof -
  let ?a = "unat (interleaveStep r)" and ?b = "unat (interleaveStep q)"
  have l: "lcm ?a ?b = ?a div gcd ?a ?b * ?b"
    by (metis dvd_div_mult gcd_dvd1 lcm_nat_def)
  then show ?thesis using assms(3)
    by (auto simp: step_lcm_def unat_mult_u64 unat_div unat_mr_gcd gcd.commute [of ?b ?a])
qed

text \<open>One run found by the scan, and what a list of runs covers inside the scanned period.\<close>

definition run_ok :: "nat \<Rightarrow> nat \<Rightarrow> Addr \<Rightarrow> u64 \<Rightarrow> MemRegion \<Rightarrow> bool" where
  "run_ok s hi e period R \<longleftrightarrow> mr_end R = e \<and> interleaveStep R = period \<and> interleaveSize R \<noteq> 0
     \<and> s \<le> unat (mr_start R) \<and> unat (mr_start R) + unat (interleaveSize R) \<le> hi"

definition run_cover :: "MemRegion list \<Rightarrow> nat \<Rightarrow> bool" where
  "run_cover regs y \<longleftrightarrow> (\<exists>R\<in>set regs. unat (mr_start R) \<le> y
     \<and> y < unat (mr_start R) + unat (interleaveSize R))"

lemma set_insert_greater:
  "\<forall>y\<in>set ys. lt y x \<and> \<not> lt x y \<Longrightarrow> set_insert lt x ys = ys @ [x]"
  by (induction ys) auto

lemma run_ok_mono: "run_ok s hi e p R \<Longrightarrow> hi \<le> hi' \<Longrightarrow> run_ok s hi' e p R"
  by (auto simp: run_ok_def)

lemma run_ok_Suc: "run_ok s hi e p R \<Longrightarrow> run_ok s (Suc hi) e p R"
  by (auto simp: run_ok_def)

lemma set_insert_run:
  assumes "\<forall>R\<in>set regs. run_ok s (unat rstart) e p R"
  shows "set_insert mr_less (run_region rstart e rsize p) regs = regs @ [run_region rstart e rsize p]"
proof (rule set_insert_greater, rule ballI)
  fix R assume "R \<in> set regs"
  with assms have "run_ok s (unat rstart) e p R" by blast
  then have "mr_start R < rstart"
    by (auto simp: run_ok_def word_less_nat_alt unat_gt_0 intro: ccontr)
      (metis add_le_same_cancel1 le_neq_implies_less less_le_trans linorder_not_less trans_le_add1 unat_eq_zero le_zero_eq)
  then show "mr_less R (run_region rstart e rsize p) \<and> \<not> mr_less (run_region rstart e rsize p) R"
    by (auto simp: mr_less_def run_region_def)
qed

text \<open>The loop invariant of the scan, and its postcondition.\<close>

definition scan_inv :: "nat \<Rightarrow> Addr \<Rightarrow> u64 \<Rightarrow> nat \<Rightarrow> Addr \<Rightarrow> u64 \<Rightarrow> MemRegion list \<Rightarrow> bool" where
  "scan_inv s e p i rstart rsize regs \<longleftrightarrow> s \<le> i
     \<and> (rsize = 0 \<or> s \<le> unat rstart \<and> unat rstart + unat rsize = i)
     \<and> (\<forall>R\<in>set regs. run_ok s (if rsize = 0 then i else unat rstart) e p R)"

definition scan_cover :: "MemRegion \<Rightarrow> MemRegion \<Rightarrow> nat \<Rightarrow> nat \<Rightarrow> Addr \<Rightarrow> u64 \<Rightarrow> MemRegion list
    \<Rightarrow> nat \<Rightarrow> bool" where
  "scan_cover r q ce i rstart rsize regs y \<longleftrightarrow> run_cover regs y
     \<or> (rsize \<noteq> 0 \<and> unat rstart \<le> y \<and> y < unat rstart + unat rsize)
     \<or> (i \<le> y \<and> y < ce \<and> in_reg r y \<and> in_reg q y)"

lemma run_cover_append:
  "run_cover (regs @ [run_region rstart e rsize p]) y \<longleftrightarrow>
     run_cover regs y \<or> unat rstart \<le> y \<and> y < unat rstart + unat rsize"
  by (auto simp: run_cover_def run_region_def)

lemma scan_size_Suc:
  assumes "scan_inv s e p (unat i) rstart rsize regs" and "i < (ce :: u64)"
  shows "unat (rsize + 1) = Suc (unat rsize)" and "rsize + 1 \<noteq> 0"
proof -
  have "unat rsize \<le> unat i" using assms(1) by (auto simp: scan_inv_def)
  then have "rsize < ce" using assms(2) by (simp add: word_less_nat_alt)
  then show "unat (rsize + 1) = Suc (unat rsize)" by (rule word_less_Suc_unat)
  then show "rsize + 1 \<noteq> 0" by force
qed

lemma scan_inv_hit:
  assumes "scan_inv s e p (unat i) rstart rsize regs" and "i < (ce :: u64)"
  shows "scan_inv s e p (unat (i + 1)) (if rsize = 0 then i else rstart) (rsize + 1) regs"
  using assms scan_size_Suc [OF assms] by (auto simp: scan_inv_def word_less_Suc_unat [OF assms(2)])

lemma scan_inv_flush:
  assumes "scan_inv s e p (unat i) rstart rsize regs" and "i < (ce :: u64)" and "rsize \<noteq> 0"
  shows "scan_inv s e p (unat (i + 1)) rstart 0 (regs @ [run_region rstart e rsize p])"
proof -
  have "run_ok s (Suc (unat i)) e p (run_region rstart e rsize p)"
    using assms by (auto simp: scan_inv_def run_ok_def run_region_def)
  moreover have "run_ok s (Suc (unat i)) e p R" if "R \<in> set regs" for R
    using assms that by (auto simp: scan_inv_def run_ok_def)
  ultimately show ?thesis using assms by (auto simp: scan_inv_def word_less_Suc_unat [OF assms(2)])
qed

lemma scan_inv_skip:
  assumes "scan_inv s e p (unat i) rstart 0 regs" and "i < (ce :: u64)"
  shows "scan_inv s e p (unat (i + 1)) rstart 0 regs"
  using assms by (auto simp: scan_inv_def word_less_Suc_unat [OF assms(2)] intro: run_ok_Suc)

lemma scan_cover_hit:
  assumes "scan_inv s e p (unat i) rstart rsize regs" and "i < (ce :: u64)"
    and "in_reg r (unat i)" "in_reg q (unat i)"
  shows "scan_cover r q (unat ce) (unat (i + 1)) (if rsize = 0 then i else rstart) (rsize + 1) regs y
    = scan_cover r q (unat ce) (unat i) rstart rsize regs y"
  using assms scan_size_Suc [OF assms(1,2)]
  by (cases "y = unat i") (auto simp: scan_cover_def scan_inv_def word_less_Suc_unat [OF assms(2)] word_less_nat_alt)

lemma scan_cover_flush:
  assumes "i < (ce :: u64)" and "rsize \<noteq> 0" and "\<not> (in_reg r (unat i) \<and> in_reg q (unat i))"
  shows "scan_cover r q (unat ce) (unat (i + 1)) rstart 0 (regs @ [run_region rstart e rsize p]) y
    = scan_cover r q (unat ce) (unat i) rstart rsize regs y"
  using assms
  by (cases "y = unat i") (auto simp: scan_cover_def run_cover_append word_less_Suc_unat [OF assms(1)])

lemma scan_cover_skip:
  assumes "i < (ce :: u64)" and "\<not> (in_reg r (unat i) \<and> in_reg q (unat i))"
  shows "scan_cover r q (unat ce) (unat (i + 1)) rstart 0 regs y
    = scan_cover r q (unat ce) (unat i) rstart 0 regs y"
  using assms by (cases "y = unat i") (auto simp: scan_cover_def word_less_Suc_unat [OF assms(1)])

lemma scan_done:
  assumes "scan_inv s e p i rstart rsize regs"
  shows "\<forall>R\<in>set (if rsize = 0 then regs else regs @ [run_region rstart e rsize p]). run_ok s i e p R"
    and "run_cover (if rsize = 0 then regs else regs @ [run_region rstart e rsize p]) y
      = scan_cover r q i i rstart rsize regs y"
proof -
  have "\<forall>R\<in>set regs. run_ok s i e p R"
    using assms by (fastforce simp: scan_inv_def elim: run_ok_mono split: if_splits)
  moreover have "rsize \<noteq> 0 \<Longrightarrow> run_ok s i e p (run_region rstart e rsize p)"
    using assms by (auto simp: scan_inv_def run_ok_def run_region_def)
  ultimately show "\<forall>R\<in>set (if rsize = 0 then regs else regs @ [run_region rstart e rsize p]).
      run_ok s i e p R" by auto
  show "run_cover (if rsize = 0 then regs else regs @ [run_region rstart e rsize p]) y
      = scan_cover r q i i rstart rsize regs y"
    by (auto simp: scan_cover_def run_cover_append)
qed

lemma intersect_loop_cover:
  assumes "mr_wf r" "mr_wf q" and "unat i \<le> unat ce"
    and "scan_inv s e p (unat i) rstart rsize regs"
  shows "\<exists>regs'. intersect_loop r q p e ce i rstart rsize regs = Inr regs' \<and>
     (\<forall>R\<in>set regs'. run_ok s (unat ce) e p R) \<and>
     (\<forall>y. run_cover regs' y = scan_cover r q (unat ce) (unat i) rstart rsize regs y)"
  using assms
proof (induction r q p e ce i rstart rsize regs rule: intersect_loop.induct)
  case (1 r q p e ce i rstart rsize regs)
  note unfold = intersect_loop.simps [of r q p e ce i rstart rsize regs]
  have both: "bindE (contains r i) (\<lambda>c1. bindE (if c1 then contains q i else Inr False) f)
      = f (in_reg r (unat i) \<and> in_reg q (unat i))" for f :: "bool \<Rightarrow> MemRegion list res"
    using "1.prems"(1,2) by (simp add: contains_in_reg)
  have app: "rsize \<noteq> 0 \<Longrightarrow> set_insert mr_less (run_region rstart e rsize p) regs
      = regs @ [run_region rstart e rsize p]"
    using "1.prems"(4) by (intro set_insert_run [of _ s]) (simp add: scan_inv_def)
  have le: "i < ce \<Longrightarrow> unat (i + 1) \<le> unat ce"
    by (simp add: word_less_Suc_unat word_less_nat_alt)
  consider "\<not> i < ce" | "i < ce" "in_reg r (unat i) \<and> in_reg q (unat i)"
    | "i < ce" "\<not> (in_reg r (unat i) \<and> in_reg q (unat i))" "rsize \<noteq> 0"
    | "i < ce" "\<not> (in_reg r (unat i) \<and> in_reg q (unat i))" "rsize = 0" by blast
  then show ?case
  proof cases
    case 1
    then have eq: "unat ce = unat i" using "1.prems"(3) by (simp add: word_less_nat_alt)
    have "intersect_loop r q p e ce i rstart rsize regs =
        Inr (if rsize = 0 then regs else regs @ [run_region rstart e rsize p])"
      using 1 app by (simp add: unfold)
    then show ?thesis unfolding eq by (simp add: scan_done [OF "1.prems"(4)])
  next
    case 2
    then have st: "intersect_loop r q p e ce i rstart rsize regs = intersect_loop r q p e ce (i + 1)
        (if rsize = 0 then i else rstart) (rsize + 1) regs"
      by (simp add: unfold both)
    show ?thesis unfolding st
      using "1.IH"(1) [OF 2 "1.prems"(1,2) le [OF 2(1)] scan_inv_hit [OF "1.prems"(4) 2(1)]]
        scan_cover_hit [OF "1.prems"(4) 2(1)] 2(2) by simp
  next
    case 3
    then have st: "intersect_loop r q p e ce i rstart rsize regs = intersect_loop r q p e ce (i + 1)
        rstart 0 (regs @ [run_region rstart e rsize p])"
      by (auto simp: unfold both app)
    show ?thesis unfolding st
      using "1.IH"(2) [OF 3 "1.prems"(1,2) le [OF 3(1)]] scan_inv_flush [OF "1.prems"(4) 3(1,3)]
      by (simp add: app [OF 3(3)] scan_cover_flush [OF 3(1,3,2)])
  next
    case 4
    then have st: "intersect_loop r q p e ce i rstart rsize regs = intersect_loop r q p e ce (i + 1)
        rstart rsize regs"
      by (subst unfold) (auto simp: both)
    show ?thesis unfolding st
      using "1.IH"(3) [OF 4(1,2) _ "1.prems"(1,2) le [OF 4(1)]] scan_inv_skip [OF _ 4(1)]
        "1.prems"(4) 4(3) by (simp add: scan_cover_skip [OF 4(1,2)])
  qed
qed

text \<open>Both regions repeat with the common period, and so does what they share.\<close>

lemma in_reg_shift:
  assumes "unat (mr_start r) \<le> s" "s \<le> y" "y \<le> unat (mr_end r)" "unat (interleaveStep r) dvd l"
  shows "in_reg r (s + (y - s) mod l) \<longleftrightarrow> in_reg r y"
proof -
  let ?a = "unat (mr_start r)" and ?t = "unat (interleaveStep r)"
  have "(s + (y - s) mod l - ?a) mod ?t = ((s - ?a) + (y - s) mod l) mod ?t"
    using assms(1) by simp
  also have "\<dots> = ((s - ?a) + (y - s)) mod ?t"
    using assms(4) by (metis mod_add_right_eq mod_mod_cancel)
  also have "\<dots> = (y - ?a) mod ?t" using assms(1,2) by simp
  finally have "(s + (y - s) mod l - ?a) mod ?t = (y - ?a) mod ?t" .
  moreover have "s + (y - s) mod l \<le> y" using assms(2) by (metis add_left_mono le_add_diff_inverse mod_less_eq_dividend)
  ultimately show ?thesis using assms(1-3) by (auto simp: in_reg_def)
qed

lemma run_in_reg:
  assumes "run_ok s (s + l) e p R" "l = unat p" "0 < l" "s \<le> y"
  shows "in_reg R y \<longleftrightarrow> y \<le> unat e \<and> unat (mr_start R) \<le> s + (y - s) mod l \<and>
     s + (y - s) mod l < unat (mr_start R) + unat (interleaveSize R)"
proof -
  obtain d where d: "unat (mr_start R) = s + d"
    using assms(1) by (auto simp: run_ok_def le_iff_add)
  obtain k where k: "y = s + k" using assms(4) by (auto simp: le_iff_add)
  have dl: "d + unat (interleaveSize R) \<le> l" using assms(1) by (simp add: run_ok_def d)
  have "d \<le> k \<and> (k - d) mod l < unat (interleaveSize R) \<longleftrightarrow>
      d \<le> k mod l \<and> k mod l < d + unat (interleaveSize R)"
  proof
    assume a: "d \<le> k \<and> (k - d) mod l < unat (interleaveSize R)"
    then have "k mod l = (d + (k - d) mod l) mod l" by (simp add: mod_add_right_eq)
    also have "\<dots> = d + (k - d) mod l" using a dl by simp
    finally show "d \<le> k mod l \<and> k mod l < d + unat (interleaveSize R)" using a by simp
  next
    assume a: "d \<le> k mod l \<and> k mod l < d + unat (interleaveSize R)"
    then have "d \<le> k" by (meson le_trans mod_less_eq_dividend)
    moreover have "(k - d) mod l = (k mod l - d) mod l"
    proof -
      have "k - d = (k mod l - d) + k div l * l" using a div_mult_mod_eq [of k l] by linarith
      then show ?thesis by (simp only: mod_mult_self1)
    qed
    moreover have "(k mod l - d) mod l = k mod l - d" using a dl by (intro mod_less) linarith
    ultimately show "d \<le> k \<and> (k - d) mod l < unat (interleaveSize R)"
      using a by linarith
  qed
  then show ?thesis using assms(1,2) by (auto simp: in_reg_def run_ok_def d k)
qed

definition reg_shared :: "MemRegion \<Rightarrow> MemRegion \<Rightarrow> Addr \<Rightarrow> bool" where
  "reg_shared r q x \<longleftrightarrow> contains r x = Inr True \<and> contains q x = Inr True"

text \<open>
  The cases the methods treat: two regions without interleaving, or two interleaved ones
  whose common period, counted from the later start, stays below \<open>2^64\<close>.
\<close>

definition mr_plain :: "MemRegion \<Rightarrow> bool" where
  "mr_plain r \<longleftrightarrow> interleaveSize r = 0 \<and> interleaveStep r = 0"

definition scannable :: "MemRegion \<Rightarrow> MemRegion \<Rightarrow> bool" where
  "scannable r q \<longleftrightarrow> mr_wf r \<and> mr_wf q \<and>
     unat (max (mr_start r) (mr_start q))
       + lcm (unat (interleaveStep r)) (unat (interleaveStep q)) < 18446744073709551616"

lemma scannable_period:
  assumes "scannable r q"
  defines "l \<equiv> lcm (unat (interleaveStep r)) (unat (interleaveStep q))"
  shows "unat (step_lcm r q) = l" "0 < l"
    "unat (max (mr_start r) (mr_start q) + step_lcm r q) = unat (max (mr_start r) (mr_start q)) + l"
proof -
  show u: "unat (step_lcm r q) = l"
    using assms by (auto simp: scannable_def intro: unat_step_lcm)
  show "0 < l" using assms by (auto simp: scannable_def mr_wf_def lcm_pos_nat unat_gt_0)
  show "unat (max (mr_start r) (mr_start q) + step_lcm r q) = unat (max (mr_start r) (mr_start q)) + l"
    using assms u by (subst unat_add_u64) (auto simp: scannable_def)
qed

lemma intersect_scan:
  assumes sc: "scannable r q"
    and ov: "\<not> mr_end q < mr_start r" "\<not> mr_end r < mr_start q" and "r \<noteq> q"
  shows "\<exists>regs. intersect r q = Inr regs \<and> (\<forall>R\<in>set regs. mr_wf R) \<and>
     (\<forall>y. (\<exists>R\<in>set regs. in_reg R y) \<longleftrightarrow> in_reg r y \<and> in_reg q y)"
proof -
  let ?s = "max (mr_start r) (mr_start q)" and ?e = "min (mr_end r) (mr_end q)"
  define l where "l = lcm (unat (interleaveStep r)) (unat (interleaveStep q))"
  note per = scannable_period [OF sc, folded l_def]
  have wf: "mr_wf r" "mr_wf q" using sc by (auto simp: scannable_def)
  have "intersect r q = intersect_loop r q (step_lcm r q) ?e (?s + step_lcm r q) ?s ?s 0 []"
    using assms wf by (auto simp: intersect_def mr_wf_def Let_def)
  moreover have "\<exists>regs. intersect_loop r q (step_lcm r q) ?e (?s + step_lcm r q) ?s ?s 0 [] = Inr regs \<and>
     (\<forall>R\<in>set regs. run_ok (unat ?s) (unat (?s + step_lcm r q)) ?e (step_lcm r q) R) \<and>
     (\<forall>y. run_cover regs y = scan_cover r q (unat (?s + step_lcm r q)) (unat ?s) ?s 0 [] y)"
    by (rule intersect_loop_cover) (auto simp: wf per scan_inv_def)
  ultimately obtain regs where res: "intersect r q = Inr regs"
    and run: "\<forall>R\<in>set regs. run_ok (unat ?s) (unat ?s + l) ?e (step_lcm r q) R"
    and cov: "\<And>y. run_cover regs y \<longleftrightarrow>
        unat ?s \<le> y \<and> y < unat ?s + l \<and> in_reg r y \<and> in_reg q y"
    by (auto simp: per scan_cover_def run_cover_def)
  have "(\<exists>R\<in>set regs. in_reg R y) \<longleftrightarrow> in_reg r y \<and> in_reg q y" for y
  proof (cases "unat ?s \<le> y")
    case False
    then have "\<not> (in_reg r y \<and> in_reg q y)" by (auto simp: in_reg_def unat_max)
    moreover have "\<not> in_reg R y" if "R \<in> set regs" for R
      using run that False by (auto simp: in_reg_def run_ok_def)
    ultimately show ?thesis by blast
  next
    case True
    let ?y = "unat ?s + (y - unat ?s) mod l"
    have "(\<exists>R\<in>set regs. in_reg R y) \<longleftrightarrow> y \<le> unat ?e \<and> run_cover regs ?y"
      using run run_in_reg [OF _ per(1) [symmetric] per(2) True] unfolding run_cover_def by blast
    also have "\<dots> \<longleftrightarrow> y \<le> unat ?e \<and> in_reg r ?y \<and> in_reg q ?y"
      using per(2) by (simp add: cov)
    also have "\<dots> \<longleftrightarrow> in_reg r y \<and> in_reg q y"
      using True in_reg_shift [of r "unat ?s" y l] in_reg_shift [of q "unat ?s" y l]
      by (auto simp: unat_max unat_min l_def in_reg_def)
    finally show ?thesis .
  qed
  moreover have "\<forall>R\<in>set regs. mr_wf R"
    using run per(1,2) by (auto simp: mr_wf_def run_ok_def)
  ultimately show ?thesis using res by blast
qed

lemma contains_plain:
  "mr_plain r \<Longrightarrow> contains r x = Inr (mr_start r \<le> x \<and> x \<le> mr_end r)"
  by (simp add: contains_def mr_plain_def)

lemma contains_wf_bounds: "mr_wf r \<Longrightarrow> contains r x = Inr True \<Longrightarrow> mr_start r \<le> x \<and> x \<le> mr_end r"
  by (auto simp: contains_def split: if_splits)

text \<open>
  C34 \<open>MemRegion::intersect\<close> is exact: for two plain regions, and for two interleaved regions
  whose common period fits in 64 bits, it returns a set of regions, and an address lies in
  one of them exactly when it lies in both arguments. A plain with an interleaved region is
  left out; \<open>intersect_mixed\<close> shows what the code does with those.
\<close>

theorem intersect_correct:
  assumes "mr_plain r \<and> mr_plain q \<or> scannable r q"
  shows "\<exists>regs. intersect r q = Inr regs \<and>
     (\<forall>x. (\<exists>R\<in>set regs. contains R x = Inr True) \<longleftrightarrow> reg_shared r q x)"
proof -
  consider "mr_end q < mr_start r \<or> mr_end r < mr_start q" | "r = q" "\<not> (mr_end q < mr_start r \<or> mr_end r < mr_start q)"
    | "r \<noteq> q" "\<not> (mr_end q < mr_start r \<or> mr_end r < mr_start q)" by blast
  then show ?thesis
  proof cases
    case 1
    then have "\<not> reg_shared r q x" for x
      using assms by (auto simp: reg_shared_def contains_def split: if_splits)
    with 1 show ?thesis by (simp add: intersect_def)
  next
    case 2
    then show ?thesis by (simp add: intersect_def reg_shared_def)
  next
    case 3
    show ?thesis
    proof (cases "mr_plain r \<and> mr_plain q")
      case True
      with 3 show ?thesis
        by (auto simp: intersect_def mr_plain_def run_region_def reg_shared_def contains_def)
    next
      case False
      with assms have sc: "scannable r q" by blast
      then have wf: "mr_wf r" "mr_wf q" by (auto simp: scannable_def)
      from intersect_scan [OF sc] 3 obtain regs where "intersect r q = Inr regs"
        "\<forall>R\<in>set regs. mr_wf R" "\<And>y. (\<exists>R\<in>set regs. in_reg R y) \<longleftrightarrow> in_reg r y \<and> in_reg q y"
        by auto
      with wf show ?thesis by (auto simp: reg_shared_def contains_in_reg)
    qed
  qed
qed

lemma doesIntersect_loop_iff:
  assumes "mr_wf r" "mr_wf q" 
  shows "doesIntersect_loop r q ce i =
    Inr (\<exists>y. unat i \<le> y \<and> y < unat ce \<and> in_reg r y \<and> in_reg q y)"
  using assms
proof (induction r q ce i rule: doesIntersect_loop.induct)
  case (1 r q ce i)
  show ?case
  proof (cases "i < ce")
    case False
    then show ?thesis by (auto simp: doesIntersect_loop.simps [of r q ce i] word_less_nat_alt)
  next
    case True
    have "(\<exists>y. unat i \<le> y \<and> y < unat ce \<and> in_reg r y \<and> in_reg q y) \<longleftrightarrow>
       in_reg r (unat i) \<and> in_reg q (unat i)
       \<or> (\<exists>y. Suc (unat i) \<le> y \<and> y < unat ce \<and> in_reg r y \<and> in_reg q y)"
      using True by (metis Suc_leD le_eq_less_or_eq less_eq_Suc_le word_less_nat_alt)
    then show ?thesis
      using True 1 by (simp add: doesIntersect_loop.simps [of r q ce i] contains_in_reg
          word_less_Suc_unat [OF True])
  qed
qed

lemma reg_shared_wf:
  assumes "mr_wf r" "mr_wf q"
  shows "(\<exists>x. reg_shared r q x) \<longleftrightarrow> (\<exists>y. in_reg r y \<and> in_reg q y)"
proof
  assume "\<exists>y. in_reg r y \<and> in_reg q y"
  then obtain y where y: "in_reg r y" "in_reg q y" by blast
  then have "y < 18446744073709551616" using unat_u64_lt [of "mr_end r"] by (auto simp: in_reg_def)
  then have "unat (of_nat y :: u64) = y" by (simp add: unat_of_nat)
  with y assms have "reg_shared r q (of_nat y)" by (simp add: reg_shared_def contains_in_reg)
  then show "\<exists>x. reg_shared r q x" by blast
qed (use assms in \<open>auto simp: reg_shared_def contains_in_reg\<close>)

lemma doesIntersect_scan:
  assumes sc: "scannable r q"
    and ov: "\<not> mr_end q < mr_start r" "\<not> mr_end r < mr_start q" and "r \<noteq> q"
  shows "doesIntersect r q = Inr (\<exists>y. in_reg r y \<and> in_reg q y)"
proof -
  let ?s = "max (mr_start r) (mr_start q)"
  define l where "l = lcm (unat (interleaveStep r)) (unat (interleaveStep q))"
  note per = scannable_period [OF sc, folded l_def]
  have wf: "mr_wf r" "mr_wf q" using sc by (auto simp: scannable_def)
  have "doesIntersect r q = doesIntersect_loop r q (?s + step_lcm r q) ?s"
    using assms wf by (auto simp: doesIntersect_def mr_wf_def Let_def)
  also have "\<dots> = Inr (\<exists>y. unat ?s \<le> y \<and> y < unat ?s + l \<and> in_reg r y \<and> in_reg q y)"
    by (simp add: doesIntersect_loop_iff wf per)
  also have "(\<exists>y. unat ?s \<le> y \<and> y < unat ?s + l \<and> in_reg r y \<and> in_reg q y)
      \<longleftrightarrow> (\<exists>y. in_reg r y \<and> in_reg q y)"
  proof
    assume "\<exists>y. in_reg r y \<and> in_reg q y"
    then obtain y where y: "in_reg r y" "in_reg q y" by blast
    then have le: "unat ?s \<le> y" by (auto simp: in_reg_def unat_max)
    let ?y = "unat ?s + (y - unat ?s) mod l"
    have "in_reg r ?y" "in_reg q ?y"
      using y le by (subst in_reg_shift; auto simp: in_reg_def unat_max l_def)+
    then show "\<exists>y. unat ?s \<le> y \<and> y < unat ?s + l \<and> in_reg r y \<and> in_reg q y"
      using per(2) by (intro exI [of _ ?y]) simp
  qed blast
  finally show ?thesis .
qed

text \<open>
  \<open>MemRegion::doesIntersect\<close> decides, for non-empty regions in the same cases, whether
  some address lies in both.
\<close>

theorem doesIntersect_correct:
  assumes "mr_plain r \<and> mr_plain q \<or> scannable r q"
    and "mr_start r \<le> mr_end r" "mr_start q \<le> mr_end q"
  shows "doesIntersect r q = Inr (\<exists>x. reg_shared r q x)"
proof -
  consider "mr_end q < mr_start r \<or> mr_end r < mr_start q" | "r = q" "\<not> (mr_end q < mr_start r \<or> mr_end r < mr_start q)"
    | "r \<noteq> q" "\<not> (mr_end q < mr_start r \<or> mr_end r < mr_start q)" by blast
  then show ?thesis
  proof cases
    case 1
    then have "\<not> reg_shared r q x" for x
      using assms by (auto simp: reg_shared_def contains_def split: if_splits)
    with 1 show ?thesis by (simp add: doesIntersect_def)
  next
    case 2
    then have "reg_shared r q (mr_start r)"
      using assms by (auto simp: reg_shared_def contains_def scannable_def mr_wf_def mr_plain_def
          word_gt_0)
    with 2 show ?thesis by (auto simp: doesIntersect_def)
  next
    case 3
    show ?thesis
    proof (cases "mr_plain r \<and> mr_plain q")
      case True
      with 3 assms have "reg_shared r q (max (mr_start r) (mr_start q))"
        by (auto simp: reg_shared_def contains_plain)
      with 3 True show ?thesis by (auto simp: doesIntersect_def mr_plain_def)
    next
      case False
      with assms have sc: "scannable r q" by blast
      then show ?thesis using 3 doesIntersect_scan [OF sc]
        by (simp add: reg_shared_wf scannable_def)
    qed
  qed
qed

text \<open>
  A plain region and an interleaved one: the guard of both methods tests the size of the
  first and the step of the second, so the scan runs over a period of length zero, and the
  regions are reported disjoint although their address ranges meet.
\<close>

theorem intersect_mixed:
  assumes "mr_plain r" and "mr_wf q" and "mr_start r \<le> mr_end q" and "mr_start q \<le> mr_end r"
  shows "intersect r q = Inr [] \<and> doesIntersect r q = Inr False"
proof -
  have "step_lcm r q = 0"
    using assms by (auto simp: mr_plain_def mr_wf_def step_lcm_def)
  then show ?thesis using assms
    by (auto simp: intersect_def doesIntersect_def mr_plain_def mr_wf_def Let_def
        intersect_loop.simps doesIntersect_loop.simps)
qed

section \<open>Concrete regions\<close>

text \<open>Two interleavings of a 4 KiB range, and the range itself.\<close>

definition reg_a :: MemRegion where
  "reg_a = \<lparr>mr_start = 0, mr_end = 4095, interleaveSize = 64, interleaveStep = 128\<rparr>"

definition reg_b :: MemRegion where
  "reg_b = \<lparr>mr_start = 32, mr_end = 4095, interleaveSize = 64, interleaveStep = 192\<rparr>"

definition reg_c :: MemRegion where
  "reg_c = \<lparr>mr_start = 0, mr_end = 4095, interleaveSize = 0, interleaveStep = 0\<rparr>"

lemmas reg_defs = reg_a_def reg_b_def reg_c_def

lemma scannable_ab: "scannable reg_a reg_b"
  by (simp add: scannable_def mr_wf_def reg_defs lcm_nat_def gcd_non_0_nat)

theorem intersect_correct_witness:
  "(\<exists>regs. intersect reg_a reg_b = Inr regs \<and>
     (\<forall>x. (\<exists>R\<in>set regs. contains R x = Inr True) \<longleftrightarrow> reg_shared reg_a reg_b x))
   \<and> reg_shared reg_a reg_b 32 \<and> \<not> reg_shared reg_a reg_b 64"
  using intersect_correct [of reg_a reg_b] scannable_ab
  by (simp add: reg_shared_def contains_def reg_defs)

theorem doesIntersect_correct_witness: "doesIntersect reg_a reg_b = Inr True"
proof -
  have "reg_shared reg_a reg_b 32" by (simp add: reg_shared_def contains_def reg_defs)
  moreover have "mr_start reg_a \<le> mr_end reg_a" "mr_start reg_b \<le> mr_end reg_b"
    by (simp_all add: reg_defs)
  ultimately show ?thesis
    using doesIntersect_correct [of reg_a reg_b] scannable_ab by auto
qed

theorem intersect_mixed_witness:
  "intersect reg_c reg_a = Inr [] \<and> doesIntersect reg_c reg_a = Inr False \<and> reg_shared reg_c reg_a 0"
proof -
  have "mr_plain reg_c" "mr_wf reg_a" "mr_start reg_c \<le> mr_end reg_a" "mr_start reg_a \<le> mr_end reg_c"
    by (simp_all add: mr_plain_def mr_wf_def reg_defs)
  moreover have "reg_shared reg_c reg_a 0" by (simp add: reg_shared_def contains_def reg_defs)
  ultimately show ?thesis using intersect_mixed [of reg_c reg_a] by blast
qed

end
