(* ===== verification/MemH_Event.thy ===== *)
theory MemH_Event
  imports MemH_Types "HOL-Library.Product_Lexorder"
begin

unbundle bit_operations_syntax

text \<open>
  \<^verbatim>\<open>memHierarchy/memEventBase.h\<close> and \<^verbatim>\<open>memHierarchy/memEvent.h\<close>: the
  events the components exchange. A \<open>MemEvent *\<close> is the record of the object with its
  address in \<open>evPtr\<close>; two pointers are equal when their \<open>evPtr\<close> are. A copy made by
  \<open>new MemEvent(*ev)\<close> keeps every field, \<open>eventID\<close> included, and has a new address.
  \<open>NACKedEvent\<close> holds the refused event without a refused event of its own, since only
  requests are refused.
  \<open>generateUniqueId\<close> and \<open>NO_ID\<close> belong to the simulator core and are arguments.
\<close>

section \<open>Data\<close>

type_synonym id_type = "u64 \<times> int"

record MemEvt =
  evPtr :: nat
  eventID :: id_type
  responseToID :: id_type
  ev_src :: string
  ev_dst :: string
  rqstr :: string
  tid :: u32
  cmd :: Command
  ev_flags :: u32
  memFlags :: u32
  ev_size :: u32
  ev_addr :: Addr
  baseAddr :: Addr
  addrGlobal :: bool
  retries :: int
  payload :: "u8 list"
  prefetch :: bool
  ev_dirty :: bool
  isEvict :: bool
  instPtr :: Addr
  vAddr :: Addr

record MemEvent = MemEvt +
  NACKedEvent :: "MemEvt option"

definition F_LOCKED :: u32 where "F_LOCKED = 0x00000001"
definition F_NONCACHEABLE :: u32 where "F_NONCACHEABLE = 0x00000010"
definition F_LLSC :: u32 where "F_LLSC = 0x00000100"
definition F_FAIL :: u32 where "F_FAIL = 0x00001000"
definition F_NORESPONSE :: u32 where "F_NORESPONSE = 0x00010000"

lemmas flag_defs = F_LOCKED_def F_NONCACHEABLE_def F_LLSC_def F_FAIL_def F_NORESPONSE_def

definition NONE :: string where "NONE = ''None''"

section \<open>Construction\<close>

text \<open>
  The constructor \<open>MemEvent(src, addr, baseAddr, cmd)\<close>: \<open>setDefaults\<close> of the base class,
  then \<open>initialize\<close>, then the arguments. \<open>p\<close> is the new object's address, \<open>eid\<close> what
  \<open>generateUniqueId\<close> returned and \<open>noid\<close> is \<open>NO_ID\<close>.
\<close>

definition newMemEvent ::
  "nat \<Rightarrow> id_type \<Rightarrow> id_type \<Rightarrow> string \<Rightarrow> Addr \<Rightarrow> Addr \<Rightarrow> Command \<Rightarrow> MemEvent" where
  "newMemEvent p eid noid source adr bAddr c =
     \<lparr>evPtr = p, eventID = eid, responseToID = noid, ev_src = source, ev_dst = NONE,
      rqstr = NONE, tid = 0, cmd = c, ev_flags = 0, memFlags = 0, ev_size = 0,
      ev_addr = adr, baseAddr = bAddr, addrGlobal = True, retries = 0, payload = [],
      prefetch = False, ev_dirty = False, isEvict = False, instPtr = 0, vAddr = 0,
      NACKedEvent = None\<rparr>"

definition copyEvent :: "nat \<Rightarrow> MemEvent \<Rightarrow> MemEvent" where
  "copyEvent p ev = ev\<lparr>evPtr := p\<rparr>"

text \<open>\<open>me->setResponse(event)\<close> reads its own command and everything else from \<open>event\<close>.\<close>

definition setResponse :: "MemEvent \<Rightarrow> MemEvent \<Rightarrow> MemEvent" where
  "setResponse event me = me\<lparr>responseToID := eventID event, cmd := CommandResponse (cmd me),
     ev_dst := ev_src event, ev_src := ev_dst event, rqstr := rqstr event, tid := tid event,
     ev_flags := ev_flags event, memFlags := memFlags event\<rparr>"

definition makeResponse :: "nat \<Rightarrow> MemEvent \<Rightarrow> MemEvent" where
  "makeResponse p ev = (setResponse ev (copyEvent p ev))
     \<lparr>prefetch := prefetch ev, instPtr := instPtr ev, vAddr := vAddr ev\<rparr>"

definition makeNACKResponse :: "nat \<Rightarrow> MemEvent \<Rightarrow> MemEvent \<Rightarrow> MemEvent" where
  "makeNACKResponse p nacked ev = (setResponse ev (copyEvent p ev))
     \<lparr>NACKedEvent := Some (MemEvt.truncate nacked), cmd := NACK, instPtr := instPtr ev,
      vAddr := vAddr ev\<rparr>"

text \<open>\<open>getNACKedEvent\<close>, the refused event as an event again.\<close>

definition getNACKedEvent :: "MemEvent \<Rightarrow> MemEvent option" where
  "getNACKedEvent ev = map_option (\<lambda>b. MemEvt.extend b (MemEvent.fields None)) (NACKedEvent ev)"

definition copyMetadata :: "MemEvent \<Rightarrow> MemEvent \<Rightarrow> MemEvent" where
  "copyMetadata ev me = me\<lparr>rqstr := rqstr ev, tid := tid ev, ev_flags := ev_flags ev,
     memFlags := memFlags ev, vAddr := vAddr ev, instPtr := instPtr ev\<rparr>"

section \<open>Flags and payload\<close>

definition setFlag :: "u32 \<Rightarrow> MemEvent \<Rightarrow> MemEvent" where
  "setFlag f ev = ev\<lparr>ev_flags := ev_flags ev OR f\<rparr>"

definition clearFlag :: "u32 \<Rightarrow> MemEvent \<Rightarrow> MemEvent" where
  "clearFlag f ev = ev\<lparr>ev_flags := ev_flags ev AND NOT f\<rparr>"

definition queryFlag :: "u32 \<Rightarrow> MemEvent \<Rightarrow> bool" where
  "queryFlag f ev \<longleftrightarrow> ev_flags ev AND f \<noteq> 0"

definition isLoadLink :: "MemEvent \<Rightarrow> bool" where
  "isLoadLink ev \<longleftrightarrow> cmd ev = GetS \<and> queryFlag F_LLSC ev"

definition isStoreConditional :: "MemEvent \<Rightarrow> bool" where
  "isStoreConditional ev \<longleftrightarrow> (cmd ev = GetX \<or> cmd ev = Write) \<and> queryFlag F_LLSC ev"

definition setFail :: "MemEvent \<Rightarrow> MemEvent" where
  "setFail ev = setFlag F_FAIL ev"

definition setSuccess :: "bool \<Rightarrow> MemEvent \<Rightarrow> MemEvent" where
  "setSuccess b ev = (if b then clearFlag F_FAIL ev else setFlag F_FAIL ev)"

definition success :: "MemEvent \<Rightarrow> bool" where
  "success ev \<longleftrightarrow> \<not> queryFlag F_FAIL ev"

text \<open>\<open>getPayload\<close> first lengthens a payload shorter than \<open>size_\<close> with zero bytes.\<close>

definition resizePayload :: "MemEvent \<Rightarrow> MemEvent" where
  "resizePayload ev =
     (if length (payload ev) < unat (ev_size ev)
      then ev\<lparr>payload := payload ev @ replicate (unat (ev_size ev) - length (payload ev)) 0\<rparr>
      else ev)"

definition getPayload :: "MemEvent \<Rightarrow> u8 list" where
  "getPayload ev = payload (resizePayload ev)"

definition setPayload :: "u8 list \<Rightarrow> MemEvent \<Rightarrow> MemEvent" where
  "setPayload d ev = ev\<lparr>ev_size := of_nat (length d), payload := d\<rparr>"

definition setZeroPayload :: "u32 \<Rightarrow> MemEvent \<Rightarrow> MemEvent" where
  "setZeroPayload n ev = ev\<lparr>ev_size := n, payload := replicate (unat n) 0\<rparr>"

definition isDataRequest :: "MemEvent \<Rightarrow> bool" where
  "isDataRequest ev \<longleftrightarrow> CommandClassArr (cmd ev) = CC_Request"

definition isResponse :: "MemEvent \<Rightarrow> bool" where
  "isResponse ev \<longleftrightarrow> BasicCommandClassArr (cmd ev) = BC_Response"

definition isWriteback :: "MemEvent \<Rightarrow> bool" where
  "isWriteback ev \<longleftrightarrow> CommandWriteback (cmd ev)"

definition isRoutedByAddress :: "MemEvent \<Rightarrow> bool" where
  "isRoutedByAddress ev \<longleftrightarrow> CommandRouteByAddress (cmd ev)"

section \<open>Properties\<close>

lemmas makeResponse_simps = makeResponse_def setResponse_def copyEvent_def

lemma makeResponse_sel [simp]:
  "eventID (makeResponse p ev) = eventID ev" "evPtr (makeResponse p ev) = p"
  "cmd (makeResponse p ev) = CommandResponse (cmd ev)"
  "baseAddr (makeResponse p ev) = baseAddr ev" "ev_addr (makeResponse p ev) = ev_addr ev"
  "ev_dst (makeResponse p ev) = ev_src ev" "ev_src (makeResponse p ev) = ev_dst ev"
  "payload (makeResponse p ev) = payload ev" "ev_flags (makeResponse p ev) = ev_flags ev"
  "ev_dirty (makeResponse p ev) = ev_dirty ev" "rqstr (makeResponse p ev) = rqstr ev"
  "responseToID (makeResponse p ev) = eventID ev" "ev_size (makeResponse p ev) = ev_size ev"
  by (simp_all add: makeResponse_simps)

lemma newMemEvent_sel [simp]:
  "cmd (newMemEvent p e n s a b c) = c" "baseAddr (newMemEvent p e n s a b c) = b"
  "ev_addr (newMemEvent p e n s a b c) = a" "payload (newMemEvent p e n s a b c) = []"
  "ev_src (newMemEvent p e n s a b c) = s" "evPtr (newMemEvent p e n s a b c) = p"
  "eventID (newMemEvent p e n s a b c) = e" "ev_dirty (newMemEvent p e n s a b c) = False"
  by (simp_all add: newMemEvent_def)

lemma setPayload_sel [simp]:
  "payload (setPayload d ev) = d" "cmd (setPayload d ev) = cmd ev"
  "baseAddr (setPayload d ev) = baseAddr ev" "ev_flags (setPayload d ev) = ev_flags ev"
  "ev_dst (setPayload d ev) = ev_dst ev" "ev_dirty (setPayload d ev) = ev_dirty ev"
  "eventID (setPayload d ev) = eventID ev" "ev_addr (setPayload d ev) = ev_addr ev"
  by (simp_all add: setPayload_def)

lemma resizePayload_sel [simp]:
  "cmd (resizePayload ev) = cmd ev" "baseAddr (resizePayload ev) = baseAddr ev"
  "ev_flags (resizePayload ev) = ev_flags ev" "ev_dst (resizePayload ev) = ev_dst ev"
  "ev_src (resizePayload ev) = ev_src ev"
  "eventID (resizePayload ev) = eventID ev" "ev_addr (resizePayload ev) = ev_addr ev"
  "evPtr (resizePayload ev) = evPtr ev" "queryFlag f (resizePayload ev) = queryFlag f ev"
  by (simp_all add: resizePayload_def queryFlag_def)

lemma getPayload_setPayload [simp]:
  "length d < 2 ^ 32 \<Longrightarrow> getPayload (setPayload d ev) = d"
  by (simp add: getPayload_def resizePayload_def setPayload_def unat_of_nat)

lemma getPayload_full: "unat (ev_size ev) \<le> length (payload ev) \<Longrightarrow> getPayload ev = payload ev"
  by (simp add: getPayload_def resizePayload_def)

lemma length_getPayload: "length (getPayload ev) = max (length (payload ev)) (unat (ev_size ev))"
  by (simp add: getPayload_def resizePayload_def)

text \<open>
  \<open>setSuccess\<close> and \<open>success\<close> agree, and marking an event failed or successful leaves every
  other flag (locked, noncacheable, LL/SC, no-response) as it was.
\<close>

theorem setSuccess_success:
  "success (setSuccess b ev) = b \<and>
   queryFlag F_LOCKED (setSuccess b ev) = queryFlag F_LOCKED ev \<and>
   queryFlag F_NONCACHEABLE (setSuccess b ev) = queryFlag F_NONCACHEABLE ev \<and>
   queryFlag F_LLSC (setSuccess b ev) = queryFlag F_LLSC ev \<and>
   queryFlag F_NORESPONSE (setSuccess b ev) = queryFlag F_NORESPONSE ev"
  by (auto simp: success_def setSuccess_def setFlag_def clearFlag_def queryFlag_def
      flag_defs bit.conj_disj_distrib2 and.assoc)

text \<open>A concrete event, for the evaluations in the theories that follow.\<close>

definition demo_event :: "nat \<Rightarrow> Addr \<Rightarrow> Command \<Rightarrow> MemEvent" where
  "demo_event p adr c = (newMemEvent p (of_nat p, 0) (0, -1) ''cpu'' adr adr c)
     \<lparr>ev_dst := ''l1'', rqstr := ''cpu''\<rparr>"

lemma demo_event_sel [simp]:
  "cmd (demo_event p a c) = c" "baseAddr (demo_event p a c) = a" "evPtr (demo_event p a c) = p"
  "ev_addr (demo_event p a c) = a" "ev_flags (demo_event p a c) = 0" "prefetch (demo_event p a c) = False"
  "eventID (demo_event p a c) = (of_nat p, 0)" "ev_size (demo_event p a c) = 0"
  "ev_src (demo_event p a c) = ''cpu''" "ev_dst (demo_event p a c) = ''l1''"
  "payload (demo_event p a c) = []" "rqstr (demo_event p a c) = ''cpu''"
  by (simp_all add: demo_event_def newMemEvent_def)

end
