(* ===== verification/MemH_Mshr.thy ===== *)
theory MemH_Mshr
  imports MemH_Event
begin

text \<open>
  \<^verbatim>\<open>memHierarchy/mshr.h\<close> and \<^verbatim>\<open>memHierarchy/mshr.cc\<close>: the miss status
  holding registers, a \<open>std::map\<close> from line addresses to registers, each with the queue of
  entries waiting for that line. Every operation of the class is a definition here; an
  operation that can end the simulation returns a \<open>res\<close>. \<open>now\<close> is
  \<open>getCurrentSimCycle()\<close>. Debug output, the owner's name and the unused
  \<open>prefetchCount_\<close> are left out. \<open>size_\<close> and \<open>maxSize_\<close> are integers: \<open>maxSize_ < 0\<close>
  means an unlimited buffer.
\<close>

section \<open>Data\<close>

datatype MSHREntryType = METEvent | METEvict | METWriteback

record MSHREntry =
  me_type :: MSHREntryType
  evictPtrs :: "Addr list option"
  me_event :: "MemEvent option"
  me_time :: u64
  needEvict :: bool
  inProgress :: bool
  profiled :: bool
  downgrade :: bool

definition eventEntry :: "MemEvent \<Rightarrow> bool \<Rightarrow> u64 \<Rightarrow> MSHREntry" where
  "eventEntry ev stallEvict now = \<lparr>me_type = METEvent, evictPtrs = None, me_event = Some ev,
     me_time = now, needEvict = stallEvict, inProgress = False, profiled = False, downgrade = False\<rparr>"

definition writebackEntry :: "bool \<Rightarrow> u64 \<Rightarrow> MSHREntry" where
  "writebackEntry downgr now = \<lparr>me_type = METWriteback, evictPtrs = None, me_event = None,
     me_time = now, needEvict = False, inProgress = False, profiled = False, downgrade = downgr\<rparr>"

definition evictEntry :: "Addr \<Rightarrow> u64 \<Rightarrow> MSHREntry" where
  "evictEntry adr now = \<lparr>me_type = METEvict, evictPtrs = Some [adr], me_event = None,
     me_time = now, needEvict = False, inProgress = False, profiled = False, downgrade = False\<rparr>"

definition swapEvent :: "MemEvent \<Rightarrow> u64 \<Rightarrow> MSHREntry \<Rightarrow> MSHREntry \<times> MemEvent option" where
  "swapEvent newEvent now e =
     (if me_type e \<noteq> METEvent then (e, None)
      else (e\<lparr>me_time := now, me_event := Some newEvent\<rparr>, me_event e))"

record MSHRRegister =
  entries :: "MSHREntry list"
  acksNeeded :: u32
  dataBuffer :: "u8 list"
  dataDirty :: bool
  pendingRetries :: u32

definition newRegister :: MSHRRegister where
  "newRegister = \<lparr>entries = [], acksNeeded = 0, dataBuffer = [], dataDirty = False, pendingRetries = 0\<rparr>"

record MSHR =
  mshr_map :: "(Addr, MSHRRegister) stdmap"
  m_size :: int
  maxSize :: int

definition newMSHR :: "int \<Rightarrow> MSHR" where
  "newMSHR maxsz = \<lparr>mshr_map = [], m_size = 0, maxSize = maxsz\<rparr>"

section \<open>Access to registers\<close>

text \<open>
  \<open>mshr_.find(addr)->second\<close>, with the fault the method raises when the address is absent,
  and the assignment through that reference.
\<close>

definition find_reg :: "fault \<Rightarrow> MSHR \<Rightarrow> Addr \<Rightarrow> MSHRRegister res" where
  "find_reg flt m adr = (case map_find (mshr_map m) adr of None \<Rightarrow> Inl flt | Some r \<Rightarrow> Inr r)"

definition front_of :: "fault \<Rightarrow> MSHRRegister \<Rightarrow> MSHREntry res" where
  "front_of flt r = (case entries r of [] \<Rightarrow> Inl flt | e # _ \<Rightarrow> Inr e)"

definition put_reg :: "Addr \<Rightarrow> MSHRRegister \<Rightarrow> MSHR \<Rightarrow> MSHR" where
  "put_reg adr r m = m\<lparr>mshr_map := map_set adr r (mshr_map m)\<rparr>"

definition set_front :: "(MSHREntry \<Rightarrow> MSHREntry) \<Rightarrow> MSHRRegister \<Rightarrow> MSHRRegister" where
  "set_front f r = r\<lparr>entries := (case entries r of [] \<Rightarrow> [] | e # es \<Rightarrow> f e # es)\<rparr>"

definition getSize :: "MSHR \<Rightarrow> int" where
  "getSize m = m_size m"

definition getMaxSize :: "MSHR \<Rightarrow> int" where
  "getMaxSize m = maxSize m"

definition getSizeAt :: "MSHR \<Rightarrow> Addr \<Rightarrow> nat" where
  "getSizeAt m adr = (case map_find (mshr_map m) adr of None \<Rightarrow> 0 | Some r \<Rightarrow> length (entries r))"

definition mshr_exists :: "MSHR \<Rightarrow> Addr \<Rightarrow> bool" where
  "mshr_exists m adr \<longleftrightarrow> map_find (mshr_map m) adr \<noteq> None"

definition getEntry :: "MSHR \<Rightarrow> Addr \<Rightarrow> nat \<Rightarrow> MSHREntry res" where
  "getEntry m adr index = bindE (find_reg (Fatal ''getEntry'') m adr) (\<lambda>r.
     if length (entries r) \<le> index then Inl (Fatal ''getEntry'') else Inr (entries r ! index))"

definition getFront :: "MSHR \<Rightarrow> Addr \<Rightarrow> MSHREntry res" where
  "getFront m adr = bindE (find_reg (Fatal ''getFront'') m adr) (front_of (Fatal ''getFront''))"

text \<open>Erasing entry \<open>index\<close>; the register goes with its last entry.\<close>

definition removeEntry :: "Addr \<Rightarrow> nat \<Rightarrow> MSHR \<Rightarrow> MSHR res" where
  "removeEntry adr index m = bindE (find_reg (Fatal ''removeEntry'') m adr) (\<lambda>r.
     if length (entries r) \<le> index then Inl (Fatal ''removeEntry'')
     else let m1 = (if me_type (entries r ! index) = METEvent then m\<lparr>m_size := m_size m - 1\<rparr> else m);
              es = erase_at index (entries r)
          in if es = [] then Inr (m1\<lparr>mshr_map := map_erase adr (mshr_map m1)\<rparr>)
             else Inr (put_reg adr (r\<lparr>entries := es\<rparr>) m1))"

definition getEntryType :: "MSHR \<Rightarrow> Addr \<Rightarrow> nat \<Rightarrow> MSHREntryType res" where
  "getEntryType m adr index = bindE (find_reg (Fatal ''getEntryType'') m adr) (\<lambda>r.
     if length (entries r) \<le> index then Inl (Fatal ''getEntryType'')
     else Inr (me_type (entries r ! index)))"

definition getFrontType :: "MSHR \<Rightarrow> Addr \<Rightarrow> MSHREntryType res" where
  "getFrontType m adr = bindE (find_reg (Fatal ''getFrontType'') m adr) (\<lambda>r.
     bindE (front_of (Fatal ''getFrontType'') r) (\<lambda>e. Inr (me_type e)))"

definition removeFront :: "Addr \<Rightarrow> MSHR \<Rightarrow> MSHR res" where
  "removeFront adr m = bindE (find_reg (Fatal ''removeFront'') m adr) (\<lambda>r.
     if entries r = [] then Inl (Fatal ''removeFront'')
     else bindE (getFrontType m adr) (\<lambda>t.
       let m1 = (if t = METEvent then m\<lparr>m_size := m_size m - 1\<rparr> else m);
           es = tl (entries r)
       in if es = [] then Inr (m1\<lparr>mshr_map := map_erase adr (mshr_map m1)\<rparr>)
          else Inr (put_reg adr (r\<lparr>entries := es\<rparr>) m1)))"

definition getEntryEvent :: "MSHR \<Rightarrow> Addr \<Rightarrow> nat \<Rightarrow> MemEvent option" where
  "getEntryEvent m adr index = (case map_find (mshr_map m) adr of None \<Rightarrow> None
     | Some r \<Rightarrow> if length (entries r) \<le> index then None
                 else if me_type (entries r ! index) \<noteq> METEvent then None
                 else me_event (entries r ! index))"

definition getFrontEvent :: "MSHR \<Rightarrow> Addr \<Rightarrow> MemEvent option res" where
  "getFrontEvent m adr = bindE (getFrontType m adr) (\<lambda>t.
     if t \<noteq> METEvent then Inr None
     else bindE (getFront m adr) (\<lambda>e. Inr (me_event e)))"

fun first_event_cmd :: "Command \<Rightarrow> MSHREntry list \<Rightarrow> MemEvent option res" where
  "first_event_cmd c [] = Inr None"
| "first_event_cmd c (e # es) =
     (if me_type e = METEvent
      then (case me_event e of None \<Rightarrow> Inl NullDeref
            | Some ev \<Rightarrow> if cmd ev = c then Inr (Some ev) else first_event_cmd c es)
      else first_event_cmd c es)"

definition getFirstEventEntry :: "MSHR \<Rightarrow> Addr \<Rightarrow> Command \<Rightarrow> MemEvent option res" where
  "getFirstEventEntry m adr c = (case map_find (mshr_map m) adr of None \<Rightarrow> Inr None
     | Some r \<Rightarrow> first_event_cmd c (entries r))"

section \<open>Evictions and writebacks\<close>

definition pointers_of :: "MSHREntry \<Rightarrow> Addr list res" where
  "pointers_of e = (case evictPtrs e of None \<Rightarrow> Inl NullDeref | Some ps \<Rightarrow> Inr ps)"

definition getEvictPointers :: "MSHR \<Rightarrow> Addr \<Rightarrow> Addr list res" where
  "getEvictPointers m adr = bindE (getFrontType m adr) (\<lambda>t.
     if t \<noteq> METEvict then Inl (Fatal ''getEvictPointers'')
     else bindE (getFront m adr) pointers_of)"

text \<open>The result tells whether the next event of the address should be retried.\<close>

definition removeEvictPointer :: "Addr \<Rightarrow> Addr \<Rightarrow> MSHR \<Rightarrow> (MSHR \<times> bool) res" where
  "removeEvictPointer adr addrPtr m = bindE (getFrontType m adr) (\<lambda>t.
     if t = METEvent then Inl (Fatal ''removeEvictPointer'')
     else bindE (find_reg OutOfRange m adr) (\<lambda>r.
       let k = (if t = METEvict then 0 else 1) in
       if length (entries r) \<le> k then Inl OutOfRange
       else if me_type (entries r ! k) \<noteq> METEvict then Inl (Fatal ''removeEvictPointer'')
       else bindE (pointers_of (entries r ! k)) (\<lambda>ps.
         let ps' = filter (\<lambda>a. a \<noteq> addrPtr) ps;
             m1 = put_reg adr (r\<lparr>entries := (entries r)[k := (entries r ! k)\<lparr>evictPtrs := Some ps'\<rparr>]\<rparr>) m
         in if ps' = [] then
              (if k = 0 then bindE (removeFront adr m1) (\<lambda>m2. Inr (m2, True))
               else bindE (removeEntry adr 1 m1) (\<lambda>m2. Inr (m2, False)))
            else Inr (m1, False))))"

definition pendingWriteback :: "MSHR \<Rightarrow> Addr \<Rightarrow> bool res" where
  "pendingWriteback m adr =
     (if mshr_exists m adr then bindE (getFrontType m adr) (\<lambda>t. Inr (t = METWriteback)) else Inr False)"

definition pendingWritebackIsDowngrade :: "MSHR \<Rightarrow> Addr \<Rightarrow> bool res" where
  "pendingWritebackIsDowngrade m adr = bindE (pendingWriteback m adr) (\<lambda>b.
     if b then bindE (getFront m adr) (\<lambda>e. Inr (downgrade e)) else Inr False)"

section \<open>Insertion\<close>

text \<open>
  \<open>pos > entries.size()\<close> compares an \<open>int\<close> with a \<open>size_t\<close>, so every negative \<open>pos\<close>
  appends. The result is the position, or \<open>-1\<close> when the buffer is full; the last free
  entry is kept for forwarded requests.
\<close>

definition insertEvent :: "u64 \<Rightarrow> Addr \<Rightarrow> MemEvent \<Rightarrow> int \<Rightarrow> bool \<Rightarrow> bool \<Rightarrow> MSHR \<Rightarrow> MSHR \<times> int" where
  "insertEvent now adr ev pos fwdRequest stallEvict m =
     (if m_size m = maxSize m \<or> (\<not> fwdRequest \<and> m_size m = maxSize m - 1) then (m, - 1)
      else let m1 = m\<lparr>m_size := m_size m + 1\<rparr>; e = eventEntry ev stallEvict now
           in case map_find (mshr_map m) adr of
                None \<Rightarrow> (put_reg adr (newRegister\<lparr>entries := [e]\<rparr>) m1, 0)
              | Some r \<Rightarrow>
                  if pos < 0 \<or> nat pos > length (entries r)
                  then (put_reg adr (r\<lparr>entries := entries r @ [e]\<rparr>) m1, int (length (entries r)))
                  else (put_reg adr (r\<lparr>entries := insert_at (nat pos) e (entries r)\<rparr>) m1, pos))"

definition swapFrontEvent :: "u64 \<Rightarrow> Addr \<Rightarrow> MemEvent \<Rightarrow> MSHR \<Rightarrow> (MSHR \<times> MemEvent option) res" where
  "swapFrontEvent now adr ev m = bindE (find_reg OutOfRange m adr) (\<lambda>r.
     case entries r of [] \<Rightarrow> Inr (m, None)
     | e # es \<Rightarrow> let (e', old) = swapEvent ev now e
                in Inr (put_reg adr (r\<lparr>entries := e' # es\<rparr>) m, old))"

definition moveEntryToFront :: "Addr \<Rightarrow> nat \<Rightarrow> MSHR \<Rightarrow> MSHR res" where
  "moveEntryToFront adr index m = bindE (find_reg (Fatal ''moveEntryToFront'') m adr) (\<lambda>r.
     if length (entries r) \<le> index then Inl (Fatal ''moveEntryToFront'')
     else Inr (put_reg adr (r\<lparr>entries := (entries r ! index) # erase_at index (entries r)\<rparr>) m))"

definition insertWriteback :: "u64 \<Rightarrow> Addr \<Rightarrow> bool \<Rightarrow> MSHR \<Rightarrow> MSHR" where
  "insertWriteback now adr downgr m = (case map_find (mshr_map m) adr of
     None \<Rightarrow> put_reg adr (newRegister\<lparr>entries := [writebackEntry downgr now]\<rparr>) m
   | Some r \<Rightarrow> put_reg adr (r\<lparr>entries := writebackEntry downgr now # entries r\<rparr>) m)"

definition insertEviction :: "u64 \<Rightarrow> Addr \<Rightarrow> Addr \<Rightarrow> MSHR \<Rightarrow> MSHR res" where
  "insertEviction now oldAddr newAddr m = (case map_find (mshr_map m) oldAddr of
     None \<Rightarrow> Inr (put_reg oldAddr (newRegister\<lparr>entries := [evictEntry newAddr now]\<rparr>) m)
   | Some r \<Rightarrow>
       if entries r \<noteq> [] \<and> me_type (last (entries r)) = METEvict
       then bindE (pointers_of (last (entries r))) (\<lambda>ps.
              Inr (put_reg oldAddr (r\<lparr>entries := butlast (entries r)
                     @ [(last (entries r))\<lparr>evictPtrs := Some (ps @ [newAddr])\<rparr>]\<rparr>) m))
       else Inr (put_reg oldAddr (r\<lparr>entries := entries r @ [evictEntry newAddr now]\<rparr>) m))"

section \<open>Retries, progress and profiling marks\<close>

definition addPendingRetry :: "Addr \<Rightarrow> MSHR \<Rightarrow> MSHR res" where
  "addPendingRetry adr m = bindE (find_reg (Fatal ''addPendingRetry'') m adr) (\<lambda>r.
     Inr (put_reg adr (r\<lparr>pendingRetries := pendingRetries r + 1\<rparr>) m))"

definition removePendingRetry :: "Addr \<Rightarrow> MSHR \<Rightarrow> MSHR res" where
  "removePendingRetry adr m = bindE (find_reg (Fatal ''removePendingRetry'') m adr) (\<lambda>r.
     Inr (put_reg adr (r\<lparr>pendingRetries := pendingRetries r - 1\<rparr>) m))"

definition getPendingRetries :: "MSHR \<Rightarrow> Addr \<Rightarrow> u32" where
  "getPendingRetries m adr =
     (case map_find (mshr_map m) adr of None \<Rightarrow> 0 | Some r \<Rightarrow> pendingRetries r)"

text \<open>The marks of the front entry: a setter that faults, a getter that may not.\<close>

definition upd_front :: "string \<Rightarrow> (MSHREntry \<Rightarrow> MSHREntry) \<Rightarrow> Addr \<Rightarrow> MSHR \<Rightarrow> MSHR res" where
  "upd_front tag f adr m = bindE (find_reg (Fatal tag) m adr) (\<lambda>r.
     if entries r = [] then Inl (Fatal tag) else Inr (put_reg adr (set_front f r) m))"

definition front_flag :: "(MSHREntry \<Rightarrow> bool) \<Rightarrow> MSHR \<Rightarrow> Addr \<Rightarrow> bool" where
  "front_flag f m adr = (case map_find (mshr_map m) adr of None \<Rightarrow> False
     | Some r \<Rightarrow> (case entries r of [] \<Rightarrow> False | e # _ \<Rightarrow> f e))"

definition setInProgress :: "Addr \<Rightarrow> bool \<Rightarrow> MSHR \<Rightarrow> MSHR res" where
  "setInProgress adr b m = upd_front ''setInProgress'' (inProgress_update (\<lambda>_. b)) adr m"

definition getInProgress :: "MSHR \<Rightarrow> Addr \<Rightarrow> bool" where
  "getInProgress m adr = front_flag inProgress m adr"

definition setStalledForEvict :: "Addr \<Rightarrow> bool \<Rightarrow> MSHR \<Rightarrow> MSHR res" where
  "setStalledForEvict adr b m = upd_front ''setStalledForEvict'' (needEvict_update (\<lambda>_. b)) adr m"

definition getStalledForEvict :: "MSHR \<Rightarrow> Addr \<Rightarrow> bool" where
  "getStalledForEvict m adr = front_flag needEvict m adr"

definition setProfiled :: "Addr \<Rightarrow> MSHR \<Rightarrow> MSHR res" where
  "setProfiled adr m = upd_front ''setProfiled'' (profiled_update (\<lambda>_. True)) adr m"

definition getProfiled :: "MSHR \<Rightarrow> Addr \<Rightarrow> bool res" where
  "getProfiled m adr = bindE (find_reg (Fatal ''getProfiled'') m adr) (\<lambda>r.
     bindE (front_of (Fatal ''getProfiled'') r) (\<lambda>e. Inr (profiled e)))"

definition entry_has_id :: "id_type \<Rightarrow> MSHREntry \<Rightarrow> bool" where
  "entry_has_id i e \<longleftrightarrow> me_type e = METEvent \<and> (\<exists>ev \<in> set_option (me_event e). eventID ev = i)"

fun profile_id :: "id_type \<Rightarrow> MSHREntry list \<Rightarrow> MSHREntry list" where
  "profile_id i [] = []"
| "profile_id i (e # es) =
     (if entry_has_id i e then e\<lparr>profiled := True\<rparr> # es else e # profile_id i es)"

definition getProfiledId :: "MSHR \<Rightarrow> Addr \<Rightarrow> id_type \<Rightarrow> bool res" where
  "getProfiledId m adr i = bindE (find_reg (Fatal ''getProfiled'') m adr) (\<lambda>r.
     if entries r = [] then Inl (Fatal ''getProfiled'')
     else Inr (case find (entry_has_id i) (entries r) of None \<Rightarrow> True | Some e \<Rightarrow> profiled e))"

definition setProfiledId :: "Addr \<Rightarrow> id_type \<Rightarrow> MSHR \<Rightarrow> MSHR res" where
  "setProfiledId adr i m = bindE (find_reg (Fatal ''setProfiled'') m adr) (\<lambda>r.
     if entries r = [] then Inl (Fatal ''setProfiled'')
     else Inr (put_reg adr (r\<lparr>entries := profile_id i (entries r)\<rparr>) m))"

section \<open>The oldest entry\<close>

text \<open>
  The double loop over registers and entries; \<open>first\<close>, \<open>entry\<close> and \<open>time\<close> are its
  variables. \<open>time\<close> is unset before the first assignment and read only when \<open>first\<close> is true.
\<close>

fun oldest_scan :: "bool \<Rightarrow> MSHREntry list \<Rightarrow> MSHREntry option \<Rightarrow> u64 \<Rightarrow> MSHREntry option \<times> u64" where
  "oldest_scan first [] entry t = (entry, t)"
| "oldest_scan first (j # js) entry t =
     (if me_type j = METEvent
      then if \<not> first then oldest_scan first js (Some j) (me_time j)
           else if me_time j < t then oldest_scan first js (Some j) (me_time j)
           else oldest_scan first js entry t
      else oldest_scan first js entry t)"

definition getOldestEntry :: "MSHR \<Rightarrow> MSHREntry option" where
  "getOldestEntry m =
     fst (foldl (\<lambda>(e, t) r. oldest_scan False (entries (snd r)) e t) (None, 0) (mshr_map m))"

section \<open>Acknowledgement counts and the data buffer\<close>

definition incrementAcksNeeded :: "Addr \<Rightarrow> MSHR \<Rightarrow> MSHR" where
  "incrementAcksNeeded adr m =
     (let r = (case map_find (mshr_map m) adr of None \<Rightarrow> newRegister | Some r \<Rightarrow> r)
      in put_reg adr (r\<lparr>acksNeeded := acksNeeded r + 1\<rparr>) m)"

definition decrementAcksNeeded :: "Addr \<Rightarrow> MSHR \<Rightarrow> (MSHR \<times> bool) res" where
  "decrementAcksNeeded adr m = bindE (find_reg (Fatal ''decrementAcksNeeded'') m adr) (\<lambda>r.
     if acksNeeded r = 0 then Inl (Fatal ''decrementAcksNeeded'')
     else Inr (put_reg adr (r\<lparr>acksNeeded := acksNeeded r - 1\<rparr>) m, acksNeeded r - 1 = 0))"

definition getAcksNeeded :: "MSHR \<Rightarrow> Addr \<Rightarrow> u32" where
  "getAcksNeeded m adr = (case map_find (mshr_map m) adr of None \<Rightarrow> 0 | Some r \<Rightarrow> acksNeeded r)"

definition setDataBuf :: "Addr \<Rightarrow> u8 list \<Rightarrow> bool \<Rightarrow> MSHR \<Rightarrow> MSHR res" where
  "setDataBuf adr d isDirty m = bindE (find_reg (Fatal ''setData'') m adr) (\<lambda>r.
     Inr (put_reg adr (r\<lparr>dataBuffer := d, dataDirty := isDirty\<rparr>) m))"

definition clearDataBuf :: "Addr \<Rightarrow> MSHR \<Rightarrow> MSHR res" where
  "clearDataBuf adr m = bindE (find_reg OutOfRange m adr) (\<lambda>r.
     Inr (put_reg adr (r\<lparr>dataBuffer := [], dataDirty := False\<rparr>) m))"

definition getDataBuf :: "MSHR \<Rightarrow> Addr \<Rightarrow> u8 list res" where
  "getDataBuf m adr = bindE (find_reg (Fatal ''getData'') m adr) (\<lambda>r. Inr (dataBuffer r))"

definition hasData :: "MSHR \<Rightarrow> Addr \<Rightarrow> bool" where
  "hasData m adr = (case map_find (mshr_map m) adr of None \<Rightarrow> False | Some r \<Rightarrow> dataBuffer r \<noteq> [])"

definition getDataDirty :: "MSHR \<Rightarrow> Addr \<Rightarrow> bool res" where
  "getDataDirty m adr = bindE (find_reg (Fatal ''getDataDirty'') m adr) (\<lambda>r. Inr (dataDirty r))"

definition setDataDirty :: "Addr \<Rightarrow> bool \<Rightarrow> MSHR \<Rightarrow> MSHR res" where
  "setDataDirty adr isDirty m = bindE (find_reg (Fatal ''setDataDirty'') m adr) (\<lambda>r.
     Inr (put_reg adr (r\<lparr>dataDirty := isDirty\<rparr>) m))"


section \<open>Invariant\<close>

abbreviation is_event :: "MSHREntry \<Rightarrow> bool" where
  "is_event e \<equiv> me_type e = METEvent"

definition reg_events :: "MSHRRegister \<Rightarrow> nat" where
  "reg_events r = length (filter is_event (entries r))"

definition total_events :: "(Addr, MSHRRegister) stdmap \<Rightarrow> nat" where
  "total_events m = sum_list (map (\<lambda>p. reg_events (snd p)) m)"

text \<open>Which pointers of an entry are set is decided by its type.\<close>

definition entry_ok :: "MSHREntry \<Rightarrow> bool" where
  "entry_ok e \<longleftrightarrow> (me_event e \<noteq> None) = is_event e \<and> (evictPtrs e \<noteq> None) = (me_type e = METEvict)"

definition reg_ok :: "MSHRRegister \<Rightarrow> bool" where
  "reg_ok r \<longleftrightarrow> list_all entry_ok (entries r)"

text \<open>
  \<open>size_\<close> counts the event entries of all registers and never exceeds a non-negative
  \<open>maxSize_\<close>.
\<close>

definition mshr_ok :: "MSHR \<Rightarrow> bool" where
  "mshr_ok m \<longleftrightarrow> key_sorted (mshr_map m) \<and> m_size m = int (total_events (mshr_map m))
     \<and> (0 \<le> maxSize m \<longrightarrow> m_size m \<le> maxSize m)
     \<and> (\<forall>a r. map_find (mshr_map m) a = Some r \<longrightarrow> reg_ok r)"

definition events_at :: "(Addr, MSHRRegister) stdmap \<Rightarrow> Addr \<Rightarrow> nat" where
  "events_at m a = (case map_find m a of None \<Rightarrow> 0 | Some r \<Rightarrow> reg_events r)"

lemma total_map_set:
  "key_sorted m \<Longrightarrow> total_events (map_set a r m) + events_at m a = total_events m + reg_events r"
proof (induction a r m rule: map_set.induct)
  case (1 a r)
  then show ?case by (simp add: total_events_def events_at_def)
next
  case (2 a r b q ps)
  have "a < b \<Longrightarrow> map_find ((b, q) # ps) a = None"
    using 2(2) by (auto simp: map_of_eq_None_iff)
  with 2 show ?case by (auto simp: total_events_def events_at_def)
qed

lemma total_map_erase:
  "key_sorted m \<Longrightarrow> total_events (map_erase a m) + events_at m a = total_events m"
proof (induction a m rule: map_erase.induct)
  case (1 a)
  then show ?case by (simp add: total_events_def events_at_def)
next
  case (2 a b q ps)
  then show ?case by (auto simp: total_events_def events_at_def)
qed

lemmas mshr_res_simps = bindE_eq_Inr_iff find_reg_def Let_def

text \<open>Replacing one register: the rule behind every preservation proof below.\<close>

lemma mshr_ok_put:
  assumes "mshr_ok m" and "reg_ok r"
    and "m_size m' + int (events_at (mshr_map m) a) = m_size m + int (reg_events r)"
    and "mshr_map m' = map_set a r (mshr_map m)" and "maxSize m' = maxSize m"
    and "0 \<le> maxSize m \<Longrightarrow> m_size m' \<le> maxSize m"
  shows "mshr_ok m'"
  using assms total_map_set [of "mshr_map m" a r]
  by (auto simp: mshr_ok_def key_sorted_map_set split: if_splits)

lemma mshr_ok_erase:
  assumes "mshr_ok m" and "m_size m' + int (events_at (mshr_map m) a) = m_size m"
    and "mshr_map m' = map_erase a (mshr_map m)" and "maxSize m' = maxSize m"
  shows "mshr_ok m'"
  using assms total_map_erase [of "mshr_map m" a]
  by (auto simp: mshr_ok_def key_sorted_map_erase map_find_erase split: if_splits)

text \<open>The same rule when the number of event entries of the register does not change.\<close>

lemma mshr_ok_put_same:
  assumes "mshr_ok m" and "map_find (mshr_map m) a = Some r"
    and "reg_ok r \<Longrightarrow> reg_ok r'" and "reg_events r' = reg_events r"
  shows "mshr_ok (put_reg a r' m)"
proof (rule mshr_ok_put)
  show "mshr_ok m" by fact
  show "reg_ok r'" using assms by (auto simp: mshr_ok_def)
qed (use assms in \<open>auto simp: put_reg_def events_at_def mshr_ok_def\<close>)

lemma reg_events_erase:
  "n < length (entries r) \<Longrightarrow>
   reg_events (r\<lparr>entries := erase_at n (entries r)\<rparr>) + (if is_event (entries r ! n) then 1 else 0)
     = reg_events r"
  using filter_erase_at [of n "entries r" is_event] by (simp add: reg_events_def)

lemma set_erase_at: "set (erase_at n xs) \<subseteq> set xs"
  using set_take_subset [of n xs] set_drop_subset [of "Suc n" xs] by (auto simp: erase_at_def)

lemma filter_update_same:
  "k < length xs \<Longrightarrow> P y = P (xs ! k) \<Longrightarrow> length (filter P (xs[k := y])) = length (filter P xs)"
  by (induction xs arbitrary: k) (auto split: nat.splits)

lemma set_insert_at: "set (insert_at n x xs) = insert x (set xs)"
  by (simp add: insert_at_def) (metis append_take_drop_id set_append)

lemma mshr_ok_new: "mshr_ok (newMSHR n)"
  by (simp add: mshr_ok_def newMSHR_def total_events_def)

lemma mshr_ok_removeEntry:
  assumes "mshr_ok m" and "removeEntry a n m = Inr m'"
  shows "mshr_ok m'"
proof -
  from assms(2) obtain r where r: "map_find (mshr_map m) a = Some r" "n < length (entries r)"
    by (auto simp: removeEntry_def mshr_res_simps split: option.splits if_splits)
  define d where "d = (if is_event (entries r ! n) then 1 else 0 :: int)"
  have cnt: "int (reg_events (r\<lparr>entries := erase_at n (entries r)\<rparr>)) + d = int (reg_events r)"
    using reg_events_erase [OF r(2)] by (auto simp: d_def)
  have ok: "reg_ok (r\<lparr>entries := erase_at n (entries r)\<rparr>)"
    using assms(1) r set_erase_at [of n "entries r"] by (auto simp: mshr_ok_def reg_ok_def list_all_iff)
  have m': "m' = (if erase_at n (entries r) = [] then m\<lparr>m_size := m_size m - d, mshr_map := map_erase a (mshr_map m)\<rparr>
       else put_reg a (r\<lparr>entries := erase_at n (entries r)\<rparr>) (m\<lparr>m_size := m_size m - d\<rparr>))"
    using assms(2) r by (auto simp: removeEntry_def mshr_res_simps d_def put_reg_def split: if_splits)
  show ?thesis
  proof (cases "erase_at n (entries r) = []")
    case True
    then have "int (reg_events r) = d" using cnt by (simp add: reg_events_def)
    with True show ?thesis
      using m' r by (intro mshr_ok_erase [OF assms(1), of _ a]) (auto simp: events_at_def)
  next
    case False
    then show ?thesis using m' r ok cnt assms(1)
      by (intro mshr_ok_put [OF assms(1) ok, of _ a]) (auto simp: events_at_def put_reg_def mshr_ok_def d_def)
  qed
qed

lemma removeFront_Cons:
  "map_find (mshr_map m) a = Some r \<Longrightarrow> entries r = e # es \<Longrightarrow> removeFront a m = removeEntry a 0 m"
  by (simp add: removeFront_def removeEntry_def find_reg_def getFrontType_def front_of_def Let_def)

lemma removeFront_eq:
  assumes "removeFront a m = Inr m'"
  shows "removeEntry a 0 m = Inr m'"
proof -
  from assms obtain r e es where "map_find (mshr_map m) a = Some r" "entries r = e # es"
    by (auto simp: removeFront_def mshr_res_simps neq_Nil_conv split: option.splits if_splits)
  from removeFront_Cons [OF this] assms show ?thesis by simp
qed

lemma mshr_ok_removeFront: "mshr_ok m \<Longrightarrow> removeFront a m = Inr m' \<Longrightarrow> mshr_ok m'"
  by (rule mshr_ok_removeEntry [OF _ removeFront_eq])

text \<open>What an accepted insertion does: one entry, at the position that is returned.\<close>

definition reg_at :: "MSHR \<Rightarrow> Addr \<Rightarrow> MSHRRegister" where
  "reg_at m a = (case map_find (mshr_map m) a of None \<Rightarrow> newRegister | Some r \<Rightarrow> r)"

definition mshr_full :: "bool \<Rightarrow> MSHR \<Rightarrow> bool" where
  "mshr_full fwd m \<longleftrightarrow> m_size m = maxSize m \<or> (\<not> fwd \<and> m_size m = maxSize m - 1)"

definition ins_pos :: "int \<Rightarrow> MSHRRegister \<Rightarrow> nat" where
  "ins_pos pos r = (if pos < 0 \<or> nat pos > length (entries r) then length (entries r) else nat pos)"

lemma insertEvent_accepted:
  assumes "\<not> mshr_full fwd m"
  shows "insertEvent now a ev pos fwd st m =
     (put_reg a ((reg_at m a)\<lparr>entries := insert_at (ins_pos pos (reg_at m a)) (eventEntry ev st now)
          (entries (reg_at m a))\<rparr>) (m\<lparr>m_size := m_size m + 1\<rparr>), int (ins_pos pos (reg_at m a)))"
  using assms by (auto simp: insertEvent_def Let_def insert_at_def newRegister_def reg_at_def
      ins_pos_def mshr_full_def split: option.splits)

lemma reg_ok_at: "mshr_ok m \<Longrightarrow> reg_ok (reg_at m a)"
  by (auto simp: reg_at_def mshr_ok_def reg_ok_def newRegister_def split: option.splits)

lemma events_at_reg: "events_at (mshr_map m) a = reg_events (reg_at m a)"
  by (simp add: events_at_def reg_at_def reg_events_def newRegister_def split: option.splits)

lemma mshr_ok_insertEvent:
  assumes "mshr_ok m" and "insertEvent now a ev pos fwd st m = (m', p)"
  shows "mshr_ok m'"
proof (cases "mshr_full fwd m")
  case True
  with assms show ?thesis by (auto simp: insertEvent_def mshr_full_def)
next
  case False
  let ?e = "eventEntry ev st now"
  define r where "r = reg_at m a"
  define r' where "r' = r\<lparr>entries := insert_at (ins_pos pos r) ?e (entries r)\<rparr>"
  have m': "m' = put_reg a r' (m\<lparr>m_size := m_size m + 1\<rparr>)"
    using assms(2) insertEvent_accepted [OF False, of now a ev pos st] by (simp add: r_def r'_def)
  have e: "entry_ok ?e" "is_event ?e" by (simp_all add: eventEntry_def entry_ok_def)
  have "reg_ok r'"
    using e reg_ok_at [OF assms(1), of a] by (auto simp: r'_def r_def reg_ok_def list_all_iff set_insert_at)
  moreover have "reg_events r' = events_at (mshr_map m) a + 1"
    using filter_insert_at [of is_event _ ?e "entries r"] e
    by (simp add: r'_def reg_events_def events_at_reg r_def)
  ultimately show ?thesis
    using False assms(1) by (intro mshr_ok_put [OF assms(1), of r' _ a])
      (auto simp: m' put_reg_def mshr_ok_def mshr_full_def)
qed

text \<open>Replacing the register of an address by one with as many event entries.\<close>

lemma mshr_ok_put_at:
  assumes "mshr_ok m" and "reg_ok r'" and "reg_events r' = reg_events (reg_at m a)"
  shows "mshr_ok (put_reg a r' m)"
  using assms by (intro mshr_ok_put [OF assms(1,2), of _ a]) (auto simp: put_reg_def events_at_reg mshr_ok_def)

lemma reg_at_Some: "map_find (mshr_map m) a = Some r \<Longrightarrow> reg_at m a = r"
  by (simp add: reg_at_def)

lemma mshr_ok_insertWriteback: 
  assumes "mshr_ok m" shows "mshr_ok (insertWriteback now a d m)"
proof -
  have "insertWriteback now a d m =
      put_reg a ((reg_at m a)\<lparr>entries := writebackEntry d now # entries (reg_at m a)\<rparr>) m"
    by (simp add: insertWriteback_def reg_at_def newRegister_def split: option.splits)
  then show ?thesis using reg_ok_at [OF assms, of a]
    by (auto intro!: mshr_ok_put_at [OF assms] simp: reg_ok_def reg_events_def writebackEntry_def entry_ok_def)
qed

lemma mshr_ok_insertEviction:
  assumes "mshr_ok m" and "insertEviction now a b m = Inr m'"
  shows "mshr_ok m'"
proof -
  let ?r = "reg_at m a"
  have ok: "reg_ok ?r" by (rule reg_ok_at [OF assms(1)])
  consider (app) "m' = put_reg a (?r\<lparr>entries := entries ?r @ [evictEntry b now]\<rparr>) m"
    | (ptr) ps where "m' = put_reg a (?r\<lparr>entries := butlast (entries ?r)
         @ [(last (entries ?r))\<lparr>evictPtrs := Some ps\<rparr>]\<rparr>) m" "entries ?r \<noteq> []"
         "me_type (last (entries ?r)) = METEvict"
    using assms(2) by (auto simp: insertEviction_def reg_at_def newRegister_def bindE_eq_Inr_iff
        split: option.splits if_splits)
  then show ?thesis
  proof cases
    case app
    with ok show ?thesis by (auto intro!: mshr_ok_put_at [OF assms(1)]
          simp: reg_ok_def reg_events_def evictEntry_def entry_ok_def)
  next
    case (ptr ps)
    define es where "es = butlast (entries ?r)"
    define l where "l = last (entries ?r)"
    have en: "entries ?r = es @ [l]" using ptr(2) by (simp add: es_def l_def)
    from ptr ok show ?thesis unfolding ptr(1) es_def [symmetric] l_def [symmetric]
      by (auto intro!: mshr_ok_put_at [OF assms(1)] simp: reg_ok_def reg_events_def entry_ok_def en)
  qed
qed

text \<open>Operations that leave the entries of the register alone, or only mark one of them.\<close>

lemma mshr_ok_put_entries:
  assumes "mshr_ok m" and "map_find (mshr_map m) a = Some r" and "entries r' = entries r"
  shows "mshr_ok (put_reg a r' m)"
  using assms reg_ok_at [OF assms(1), of a]
  by (intro mshr_ok_put_at) (auto simp: reg_at_def reg_ok_def reg_events_def)

lemma mshr_ok_addPendingRetry: "mshr_ok m \<Longrightarrow> addPendingRetry a m = Inr m' \<Longrightarrow> mshr_ok m'"
  by (auto simp: addPendingRetry_def mshr_res_simps split: option.splits intro!: mshr_ok_put_entries)

lemma mshr_ok_removePendingRetry: "mshr_ok m \<Longrightarrow> removePendingRetry a m = Inr m' \<Longrightarrow> mshr_ok m'"
  by (auto simp: removePendingRetry_def mshr_res_simps split: option.splits intro!: mshr_ok_put_entries)

lemma mshr_ok_setDataBuf: "mshr_ok m \<Longrightarrow> setDataBuf a d b m = Inr m' \<Longrightarrow> mshr_ok m'"
  by (auto simp: setDataBuf_def mshr_res_simps split: option.splits intro!: mshr_ok_put_entries)

lemma mshr_ok_clearDataBuf: "mshr_ok m \<Longrightarrow> clearDataBuf a m = Inr m' \<Longrightarrow> mshr_ok m'"
  by (auto simp: clearDataBuf_def mshr_res_simps split: option.splits intro!: mshr_ok_put_entries)

lemma mshr_ok_setDataDirty: "mshr_ok m \<Longrightarrow> setDataDirty a b m = Inr m' \<Longrightarrow> mshr_ok m'"
  by (auto simp: setDataDirty_def mshr_res_simps split: option.splits intro!: mshr_ok_put_entries)

lemma mshr_ok_decrementAcksNeeded: "mshr_ok m \<Longrightarrow> decrementAcksNeeded a m = Inr (m', b) \<Longrightarrow> mshr_ok m'"
  by (auto simp: decrementAcksNeeded_def mshr_res_simps split: option.splits if_splits
      intro!: mshr_ok_put_entries)

lemma mshr_ok_incrementAcksNeeded: "mshr_ok m \<Longrightarrow> mshr_ok (incrementAcksNeeded a m)"
  using reg_ok_at [of m a]
  by (auto simp: incrementAcksNeeded_def Let_def reg_ok_def reg_events_def reg_at_def
      intro!: mshr_ok_put_at split: option.splits)

lemma mshr_ok_upd_front:
  assumes "mshr_ok m" and "upd_front tag f a m = Inr m'"
    and "\<And>e. entry_ok e \<Longrightarrow> entry_ok (f e)" and "\<And>e. me_type (f e) = me_type e"
  shows "mshr_ok m'"
proof -
  from assms(2) obtain r where "map_find (mshr_map m) a = Some r" "m' = put_reg a (set_front f r) m"
    by (auto simp: upd_front_def mshr_res_simps split: option.splits if_splits)
  then show ?thesis using assms
    by (auto intro!: mshr_ok_put_same [of m a r]
        simp: set_front_def reg_ok_def reg_events_def split: list.splits)
qed

lemma mshr_ok_setInProgress: "mshr_ok m \<Longrightarrow> setInProgress a b m = Inr m' \<Longrightarrow> mshr_ok m'"
  by (auto simp: setInProgress_def entry_ok_def elim!: mshr_ok_upd_front)

lemma mshr_ok_setStalledForEvict: "mshr_ok m \<Longrightarrow> setStalledForEvict a b m = Inr m' \<Longrightarrow> mshr_ok m'"
  by (auto simp: setStalledForEvict_def entry_ok_def elim!: mshr_ok_upd_front)

lemma mshr_ok_setProfiled: "mshr_ok m \<Longrightarrow> setProfiled a m = Inr m' \<Longrightarrow> mshr_ok m'"
  by (auto simp: setProfiled_def entry_ok_def elim!: mshr_ok_upd_front)

lemma profile_id_same:
  "list_all entry_ok (profile_id i es) = list_all entry_ok es"
  "filter is_event (profile_id i es) = [] \<longleftrightarrow> filter is_event es = []"
  "length (filter is_event (profile_id i es)) = length (filter is_event es)"
  by (induction es) (auto simp: entry_ok_def)

lemma mshr_ok_setProfiledId: "mshr_ok m \<Longrightarrow> setProfiledId a i m = Inr m' \<Longrightarrow> mshr_ok m'"
  by (auto simp: setProfiledId_def mshr_res_simps reg_ok_def reg_events_def profile_id_same
      split: option.splits if_splits intro!: mshr_ok_put_same)

lemma mshr_ok_swapFrontEvent:
  "mshr_ok m \<Longrightarrow> swapFrontEvent now a ev m = Inr (m', old) \<Longrightarrow> mshr_ok m'"
  by (auto simp: swapFrontEvent_def mshr_res_simps swapEvent_def reg_ok_def reg_events_def entry_ok_def
      split: option.splits if_splits list.splits intro!: mshr_ok_put_same)

lemma mshr_ok_moveEntryToFront:
  assumes "mshr_ok m" and "moveEntryToFront a n m = Inr m'"
  shows "mshr_ok m'"
proof -
  from assms(2) obtain r where r: "map_find (mshr_map m) a = Some r" "n < length (entries r)"
    and m': "m' = put_reg a (r\<lparr>entries := (entries r ! n) # erase_at n (entries r)\<rparr>) m"
    by (auto simp: moveEntryToFront_def mshr_res_simps split: option.splits if_splits)
  show ?thesis unfolding m'
  proof (rule mshr_ok_put_same [OF assms(1) r(1)])
    show "reg_ok r \<Longrightarrow> reg_ok (r\<lparr>entries := (entries r ! n) # erase_at n (entries r)\<rparr>)"
      using r(2) set_erase_at [of n "entries r"] by (auto simp: reg_ok_def list_all_iff)
    show "reg_events (r\<lparr>entries := (entries r ! n) # erase_at n (entries r)\<rparr>) = reg_events r"
      using reg_events_erase [OF r(2)] by (auto simp: reg_events_def split: if_splits)
  qed
qed

lemma mshr_ok_removeEvictPointer:
  assumes "mshr_ok m" and "removeEvictPointer a b m = Inr (m', f)"
  shows "mshr_ok m'"
proof -
  from assms(2) obtain r k ps where r: "map_find (mshr_map m) a = Some r" "k < length (entries r)"
      "me_type (entries r ! k) = METEvict"
    and m': "m' = put_reg a (r\<lparr>entries := (entries r)[k := (entries r ! k)\<lparr>evictPtrs := Some ps\<rparr>]\<rparr>) m
      \<or> removeFront a (put_reg a (r\<lparr>entries := (entries r)[k := (entries r ! k)\<lparr>evictPtrs := Some ps\<rparr>]\<rparr>) m) = Inr m'
      \<or> removeEntry a 1 (put_reg a (r\<lparr>entries := (entries r)[k := (entries r ! k)\<lparr>evictPtrs := Some ps\<rparr>]\<rparr>) m) = Inr m'"
    by (fastforce simp: removeEvictPointer_def mshr_res_simps not_le split: option.splits if_splits)
  let ?r' = "r\<lparr>entries := (entries r)[k := (entries r ! k)\<lparr>evictPtrs := Some ps\<rparr>]\<rparr>"
  have "mshr_ok (put_reg a ?r' m)"
  proof (rule mshr_ok_put_same [OF assms(1) r(1)])
    have "reg_ok r \<Longrightarrow> entry_ok ((entries r ! k)\<lparr>evictPtrs := Some ps\<rparr>)"
      using r(2,3) nth_mem [OF r(2)] by (auto simp: reg_ok_def list_all_iff entry_ok_def)
    then show "reg_ok r \<Longrightarrow> reg_ok ?r'"
      using set_update_subset_insert [of "entries r" k] by (fastforce simp: reg_ok_def list_all_iff)
    show "reg_events ?r' = reg_events r"
      using r(2,3) by (simp add: reg_events_def filter_update_same)
  qed
  then show ?thesis using m' mshr_ok_removeFront mshr_ok_removeEntry by blast
qed

section \<open>Reachable buffers\<close>

text \<open>Every way the buffer can change: one rule per operation that changes it.\<close>

inductive mshr_step :: "MSHR \<Rightarrow> MSHR \<Rightarrow> bool" where
  step_removeEntry: "removeEntry a n m = Inr m' \<Longrightarrow> mshr_step m m'"
| step_removeFront: "removeFront a m = Inr m' \<Longrightarrow> mshr_step m m'"
| step_removeEvictPointer: "removeEvictPointer a b m = Inr (m', f) \<Longrightarrow> mshr_step m m'"
| step_insertEvent: "insertEvent now a ev pos fwd st m = (m', p) \<Longrightarrow> mshr_step m m'"
| step_swapFrontEvent: "swapFrontEvent now a ev m = Inr (m', old) \<Longrightarrow> mshr_step m m'"
| step_moveEntryToFront: "moveEntryToFront a n m = Inr m' \<Longrightarrow> mshr_step m m'"
| step_insertWriteback: "mshr_step m (insertWriteback now a d m)"
| step_insertEviction: "insertEviction now a b m = Inr m' \<Longrightarrow> mshr_step m m'"
| step_addPendingRetry: "addPendingRetry a m = Inr m' \<Longrightarrow> mshr_step m m'"
| step_removePendingRetry: "removePendingRetry a m = Inr m' \<Longrightarrow> mshr_step m m'"
| step_setInProgress: "setInProgress a v m = Inr m' \<Longrightarrow> mshr_step m m'"
| step_setStalledForEvict: "setStalledForEvict a v m = Inr m' \<Longrightarrow> mshr_step m m'"
| step_setProfiled: "setProfiled a m = Inr m' \<Longrightarrow> mshr_step m m'"
| step_setProfiledId: "setProfiledId a i m = Inr m' \<Longrightarrow> mshr_step m m'"
| step_incrementAcksNeeded: "mshr_step m (incrementAcksNeeded a m)"
| step_decrementAcksNeeded: "decrementAcksNeeded a m = Inr (m', f) \<Longrightarrow> mshr_step m m'"
| step_setDataBuf: "setDataBuf a d v m = Inr m' \<Longrightarrow> mshr_step m m'"
| step_clearDataBuf: "clearDataBuf a m = Inr m' \<Longrightarrow> mshr_step m m'"
| step_setDataDirty: "setDataDirty a v m = Inr m' \<Longrightarrow> mshr_step m m'"

lemmas mshr_ok_ops = mshr_ok_removeEntry mshr_ok_removeFront mshr_ok_removeEvictPointer
  mshr_ok_insertEvent mshr_ok_swapFrontEvent mshr_ok_moveEntryToFront mshr_ok_insertWriteback
  mshr_ok_insertEviction mshr_ok_addPendingRetry mshr_ok_removePendingRetry mshr_ok_setInProgress
  mshr_ok_setStalledForEvict mshr_ok_setProfiled mshr_ok_setProfiledId
  mshr_ok_incrementAcksNeeded mshr_ok_decrementAcksNeeded mshr_ok_setDataBuf
  mshr_ok_clearDataBuf mshr_ok_setDataDirty

lemma mshr_ok_step: "mshr_step m m' \<Longrightarrow> mshr_ok m \<Longrightarrow> mshr_ok m'"
  by (induction rule: mshr_step.induct) (blast intro: mshr_ok_ops)+

lemma mshr_ok_steps: "mshr_step\<^sup>*\<^sup>* m m' \<Longrightarrow> mshr_ok m \<Longrightarrow> mshr_ok m'"
  by (induction rule: rtranclp_induct) (blast intro: mshr_ok_step)+

lemma maxSize_step: "mshr_step m m' \<Longrightarrow> maxSize m' = maxSize m"
  by (erule mshr_step.cases)
    (auto simp: removeEntry_def removeFront_def removeEvictPointer_def insertEvent_def swapFrontEvent_def
      moveEntryToFront_def insertWriteback_def insertEviction_def addPendingRetry_def
      removePendingRetry_def setInProgress_def setStalledForEvict_def setProfiled_def upd_front_def
      setProfiledId_def incrementAcksNeeded_def decrementAcksNeeded_def setDataBuf_def clearDataBuf_def
      setDataDirty_def mshr_res_simps put_reg_def split: option.splits if_splits list.splits prod.splits)

lemma maxSize_steps: "mshr_step\<^sup>*\<^sup>* m m' \<Longrightarrow> maxSize m' = maxSize m"
  by (induction rule: rtranclp_induct) (auto dest: maxSize_step)

section \<open>The queues of the buffer\<close>

text \<open>
  What the clients rely on: per line address, a queue that grows at the back and is served
  at the front, without touching the queues of other addresses.
\<close>

definition mshr_view :: "MSHR \<Rightarrow> Addr \<Rightarrow> MSHREntry list" where
  "mshr_view m a = entries (reg_at m a)"

locale addr_queues =
  fixes view :: "'m \<Rightarrow> 'a \<Rightarrow> 'e list"
    and good :: "'m \<Rightarrow> bool"
    and entry :: "'x \<Rightarrow> 'e"
    and push :: "'a \<Rightarrow> 'x \<Rightarrow> 'm \<Rightarrow> 'm option"
    and pop :: "'a \<Rightarrow> 'm \<Rightarrow> 'm res"
  assumes view_push: "good m \<Longrightarrow> push a x m = Some m' \<Longrightarrow> view m' = (view m)(a := view m a @ [entry x])"
    and good_push: "good m \<Longrightarrow> push a x m = Some m' \<Longrightarrow> good m'"
    and pop_total: "good m \<Longrightarrow> view m a \<noteq> [] \<Longrightarrow> \<exists>m'. pop a m = Inr m'"
    and view_pop: "good m \<Longrightarrow> pop a m = Inr m' \<Longrightarrow> view m' = (view m)(a := tl (view m a))"
    and good_pop: "good m \<Longrightarrow> pop a m = Inr m' \<Longrightarrow> good m'"
begin

lemma pops:
  assumes "good m" and "n \<le> length (view m a)"
  shows "\<exists>m'. iter_res n (pop a) m = Inr m' \<and> good m' \<and> view m' = (view m)(a := drop n (view m a))"
  using assms
proof (induction n arbitrary: m)
  case 0
  then show ?case by simp
next
  case (Suc n)
  then have "view m a \<noteq> []" by auto
  with Suc.prems obtain m1 where m1: "pop a m = Inr m1" using pop_total by blast
  then have v: "view m1 = (view m)(a := tl (view m a))" "good m1"
    using Suc.prems view_pop good_pop by blast+
  with Suc.prems have "n \<le> length (view m1 a)" by auto
  from Suc.IH [OF v(2) this] m1 v(1) show ?case by (auto simp: drop_Suc tl_drop fun_eq_iff)
qed

text \<open>First in, first out: an entry pushed now is at the front after all earlier ones are served.\<close>

lemma fifo:
  assumes "good m" and "push a x m = Some m1"
  shows "\<exists>m'. iter_res (length (view m a)) (pop a) m1 = Inr m' \<and> good m' \<and> view m' = (view m)(a := [entry x])"
  using pops [OF good_push [OF assms], of "length (view m a)" a] assms
  by (simp add: view_push [OF assms] fun_upd_twist)

end

lemma reg_at_put: "reg_at (put_reg a r m) b = (if b = a then r else reg_at m b)"
  by (simp add: reg_at_def put_reg_def)

lemma reg_at_size [simp]: "reg_at (m\<lparr>m_size := n\<rparr>) b = reg_at m b"
  by (simp add: reg_at_def)

lemma mshr_view_put: "mshr_view (put_reg a r m) = (mshr_view m)(a := entries r)"
  by (auto simp: mshr_view_def reg_at_put fun_eq_iff)

lemma mshr_view_erase:
  assumes "key_sorted (mshr_map m)"
  shows "mshr_view (m\<lparr>m_size := n, mshr_map := map_erase a (mshr_map m)\<rparr>) = (mshr_view m)(a := [])"
    and "mshr_view (m\<lparr>mshr_map := map_erase a (mshr_map m)\<rparr>) = (mshr_view m)(a := [])"
  using assms by (auto simp: mshr_view_def reg_at_def fun_eq_iff map_find_erase newRegister_def)

lemma mshr_view_size [simp]: "mshr_view (m\<lparr>m_size := n\<rparr>) = mshr_view m"
  by (simp add: mshr_view_def fun_eq_iff)

lemma mshr_view_nonempty: "mshr_view m a \<noteq> [] \<Longrightarrow> \<exists>r. map_find (mshr_map m) a = Some r \<and> entries r = mshr_view m a"
  by (auto simp: mshr_view_def reg_at_def newRegister_def split: option.splits)

lemma removeEntry_view:
  assumes "mshr_ok m" and "n < length (mshr_view m a)"
  shows "\<exists>m'. removeEntry a n m = Inr m' \<and> mshr_view m' = (mshr_view m)(a := erase_at n (mshr_view m a))
     \<and> m_size m' = m_size m - (if is_event (mshr_view m a ! n) then 1 else 0)"
proof -
  have ks: "key_sorted (mshr_map m)" using assms(1) by (simp add: mshr_ok_def)
  obtain r where r: "map_find (mshr_map m) a = Some r" "entries r = mshr_view m a"
    using mshr_view_nonempty [of m a] assms(2) by (metis length_greater_0_conv less_nat_zero_code not_gr_zero)
  with assms(2) have n: "\<not> length (entries r) \<le> n" by simp
  show ?thesis
    using n by (simp add: removeEntry_def find_reg_def r Let_def mshr_view_put mshr_view_erase [OF ks])
      (auto simp: put_reg_def)
qed

lemma removeFront_view:
  assumes "mshr_ok m" and "mshr_view m a \<noteq> []"
  shows "\<exists>m'. removeFront a m = Inr m' \<and> mshr_view m' = (mshr_view m)(a := tl (mshr_view m a))
     \<and> m_size m' = m_size m - (if is_event (hd (mshr_view m a)) then 1 else 0)"
proof -
  obtain r e es where "map_find (mshr_map m) a = Some r" "entries r = e # es"
    using mshr_view_nonempty [OF assms(2)] assms(2) by (metis neq_Nil_conv)
  then show ?thesis
    using removeEntry_view [OF assms(1), of 0 a] removeFront_Cons [of m a r e es] assms(2)
    by (simp add: hd_conv_nth)
qed

lemma insertEvent_view:
  assumes "\<not> mshr_full fwd m"
  shows "mshr_view (fst (insertEvent now a ev pos fwd st m)) =
      (mshr_view m)(a := insert_at (ins_pos pos (reg_at m a)) (eventEntry ev st now) (mshr_view m a))"
    and "m_size (fst (insertEvent now a ev pos fwd st m)) = m_size m + 1"
    and "snd (insertEvent now a ev pos fwd st m) = int (ins_pos pos (reg_at m a))"
    and "maxSize (fst (insertEvent now a ev pos fwd st m)) = maxSize m"
  using assms by (simp_all add: insertEvent_accepted mshr_view_put) (simp_all add: mshr_view_def put_reg_def)

lemma insertEvent_full: "mshr_full fwd m \<Longrightarrow> insertEvent now a ev pos fwd st m = (m, -1)"
  by (simp add: insertEvent_def mshr_full_def)

lemma insertEvent_accept_iff: "snd (insertEvent now a ev pos fwd st m) = -1 \<longleftrightarrow> mshr_full fwd m"
  by (cases "mshr_full fwd m") (simp_all add: insertEvent_full insertEvent_view(3))

text \<open>The buffer provides the contract, with \<open>insertEvent\<close> at the back as \<open>push\<close>.\<close>

definition entry_of :: "MemEvent \<times> bool \<times> bool \<times> u64 \<Rightarrow> MSHREntry" where
  "entry_of = (\<lambda>(ev, fwd, st, now). eventEntry ev st now)"

definition pushEvent :: "Addr \<Rightarrow> MemEvent \<times> bool \<times> bool \<times> u64 \<Rightarrow> MSHR \<Rightarrow> MSHR option" where
  "pushEvent a = (\<lambda>(ev, fwd, st, now) m. let (m', p) = insertEvent now a ev (-1) fwd st m
     in if p = -1 then None else Some m')"

lemma pushEvent_Some:
  "pushEvent a (ev, fwd, st, now) m = Some m' \<longleftrightarrow>
     \<not> mshr_full fwd m \<and> fst (insertEvent now a ev (-1) fwd st m) = m'"
  using insertEvent_accept_iff [of now a ev "-1" fwd st m]
  by (auto simp: pushEvent_def Let_def split: prod.splits if_splits)

interpretation mq: addr_queues mshr_view mshr_ok entry_of pushEvent removeFront
proof
  fix m a x m'
  assume ok: "mshr_ok m" and "pushEvent a x m = Some m'"
  moreover obtain ev fwd st now where x: "x = (ev, fwd, st, now)" by (metis prod_cases4)
  ultimately have p: "\<not> mshr_full fwd m" "m' = fst (insertEvent now a ev (-1) fwd st m)"
    by (auto simp: pushEvent_Some)
  show "mshr_view m' = (mshr_view m)(a := mshr_view m a @ [entry_of x])"
    by (simp add: p(2) insertEvent_view(1) [OF p(1)] entry_of_def x ins_pos_def insert_at_def mshr_view_def)
  show "mshr_ok m'" using mshr_ok_insertEvent [OF ok] p(2) by (metis prod.collapse)
next
  show "mshr_ok m \<Longrightarrow> mshr_view m a \<noteq> [] \<Longrightarrow> \<exists>m'. removeFront a m = Inr m'" for m a
    using removeFront_view by blast
next
  fix m a m'
  assume ok: "mshr_ok m" and rf: "removeFront a m = Inr m'"
  have "mshr_view m a \<noteq> []"
    using rf by (auto simp: removeFront_def mshr_res_simps mshr_view_def reg_at_def split: option.splits if_splits)
  with removeFront_view [OF ok this] rf
  show "mshr_view m' = (mshr_view m)(a := tl (mshr_view m a))" by simp
  show "mshr_ok m'" using ok rf by (rule mshr_ok_removeFront)
qed

section \<open>Properties\<close>

text \<open>
  C33 However the buffer is used, its size counter is the number of event entries it holds and
  stays within the configured limit: the invariant is established by the constructor and
  kept by each of the nineteen operations that change the buffer.
\<close>

theorem mshr_size_bound:
  assumes "mshr_step\<^sup>*\<^sup>* (newMSHR n) m"
  shows "m_size m = int (total_events (mshr_map m)) \<and> (0 \<le> n \<longrightarrow> m_size m \<le> n) \<and> key_sorted (mshr_map m)"
  using mshr_ok_steps [OF assms mshr_ok_new] maxSize_steps [OF assms]
  by (auto simp: mshr_ok_def newMSHR_def)

text \<open>
  The queue of a line is first in, first out: an event accepted at the back gets the
  position returned, and once the entries before it have been removed it is the front
  event; the queues of other lines are untouched.
\<close>

theorem insertEvent_fifo:
  assumes "mshr_ok m" and "insertEvent now a ev (-1) fwd st m = (m1, p)" and "p \<noteq> -1"
  shows "p = int (getSizeAt m a) \<and> (\<exists>m'. iter_res (nat p) (removeFront a) m1 = Inr m' \<and>
     getFrontEvent m' a = Inr (Some ev) \<and> getSizeAt m' a = 1 \<and> (\<forall>b. b = a \<or> mshr_view m' b = mshr_view m b))"
proof -
  have nf: "\<not> mshr_full fwd m" using assms(2,3) insertEvent_full [of fwd m now a ev "-1" st] by auto
  have p: "p = int (length (mshr_view m a))"
    using insertEvent_view(3) [OF nf, of now a ev "-1" st] assms(2) by (simp add: ins_pos_def mshr_view_def)
  have sz: "getSizeAt m a = length (mshr_view m a)" for m
    by (simp add: getSizeAt_def mshr_view_def reg_at_def newRegister_def split: option.splits)
  have "pushEvent a (ev, fwd, st, now) m = Some m1" using assms(2) nf by (simp add: pushEvent_Some)
  from mq.fifo [OF assms(1) this] obtain m' where m': "iter_res (nat p) (removeFront a) m1 = Inr m'"
    and v: "mshr_view m' = (mshr_view m)(a := [entry_of (ev, fwd, st, now)])" by (auto simp: p)
  then obtain r where "map_find (mshr_map m') a = Some r" "entries r = [eventEntry ev st now]"
    using mshr_view_nonempty [of m' a] by (auto simp: entry_of_def)
  then have "getFrontEvent m' a = Inr (Some ev)"
    by (simp add: getFrontEvent_def getFrontType_def getFront_def find_reg_def front_of_def eventEntry_def)
  with m' v show ?thesis by (auto simp: p sz)
qed

text \<open>
  An event is refused exactly when the buffer is full for its kind, and then nothing
  changes; an accepted event can be taken out again at the position returned, which
  restores every queue and the size.
\<close>

theorem insertEvent_roundtrip:
  assumes "mshr_ok m" and "insertEvent now a ev pos fwd st m = (m1, p)"
  shows "(p = -1 \<longleftrightarrow> mshr_full fwd m) \<and> (p = -1 \<longrightarrow> m1 = m) \<and>
    (p \<noteq> -1 \<longrightarrow> (\<exists>m'. removeEntry a (nat p) m1 = Inr m' \<and> mshr_view m' = mshr_view m \<and> m_size m' = m_size m))"
proof (cases "mshr_full fwd m")
  case True
  with assms(2) show ?thesis by (simp add: insertEvent_full)
next
  case False
  note iv = insertEvent_view [OF False, of now a ev pos st, unfolded assms(2) fst_conv snd_conv]
  have le: "nat p \<le> length (mshr_view m a)" by (simp add: iv(3) ins_pos_def mshr_view_def)
  have "mshr_view m1 a ! nat p = eventEntry ev st now" "nat p < length (mshr_view m1 a)"
    using le iv(1,3) by (simp_all add: insert_at_nth)
  moreover have "erase_at (nat p) (mshr_view m1 a) = mshr_view m a" using le iv(1,3) by simp
  ultimately show ?thesis
    using removeEntry_view [of m1 "nat p" a] mshr_ok_insertEvent [OF assms] iv False
    by (auto simp: eventEntry_def)
qed

text \<open>
  The last free entry is kept for forwarded requests: right after an ordinary request is
  accepted, a forwarded request is still accepted, at any address.
\<close>

theorem insertEvent_reserves_last:
  assumes "insertEvent now a ev pos False st m = (m1, p)" and "p \<noteq> -1"
  shows "snd (insertEvent now' a' ev' pos' True st' m1) \<noteq> -1"
proof -
  have nf: "\<not> mshr_full False m" using assms insertEvent_full [of False m now a ev pos st] by auto
  show ?thesis
    using insertEvent_view(2,4) [OF nf, of now a ev pos st] nf assms(1)
    by (simp add: insertEvent_accept_iff mshr_full_def)
qed

text \<open>
  Acknowledgement counting: after one more acknowledgement is requested, receiving one
  brings the count back, reports completion exactly when none was outstanding before, and
  leaves the queue of the line alone (the counter must not be at its 32-bit maximum).
\<close>

theorem acks_roundtrip:
  assumes "getAcksNeeded m a \<noteq> -1"
  shows "\<exists>m'. decrementAcksNeeded a (incrementAcksNeeded a m) = Inr (m', getAcksNeeded m a = 0) \<and>
     getAcksNeeded m' a = getAcksNeeded m a \<and> mshr_view m' = mshr_view m \<and>
     (\<forall>b. b = a \<or> getAcksNeeded m' b = getAcksNeeded m b)"
proof -
  have ra: "getAcksNeeded m b = acksNeeded (reg_at m b)" for m b
    by (simp add: getAcksNeeded_def reg_at_def newRegister_def split: option.splits)
  define r where "r = reg_at m a"
  have nz: "acksNeeded r + 1 \<noteq> 0" using assms by (simp add: ra r_def eq_neg_iff_add_eq_0)
  have inc: "incrementAcksNeeded a m = put_reg a (r\<lparr>acksNeeded := acksNeeded r + 1\<rparr>) m"
    by (simp add: incrementAcksNeeded_def Let_def r_def reg_at_def)
  have "map_find (mshr_map (incrementAcksNeeded a m)) a = Some (r\<lparr>acksNeeded := acksNeeded r + 1\<rparr>)"
    by (simp add: inc put_reg_def)
  then have "decrementAcksNeeded a (incrementAcksNeeded a m) =
      Inr (put_reg a (r\<lparr>acksNeeded := acksNeeded r\<rparr>) (incrementAcksNeeded a m), acksNeeded r = 0)"
    using nz by (simp add: decrementAcksNeeded_def find_reg_def)
  then show ?thesis
    by (auto simp: ra reg_at_put inc mshr_view_put r_def mshr_view_def fun_eq_iff)
qed

lemma oldest_scan_False:
  "fst (oldest_scan False es e t) =
     (if filter is_event es = [] then e else Some (last (filter is_event es)))"
  by (induction es arbitrary: e t) auto

lemma oldest_fold:
  "fst (foldl (\<lambda>(e, t) r. oldest_scan False (entries (snd r)) e t) (e0, t0) ps) =
     (let es = filter is_event (concat (map (\<lambda>p. entries (snd p)) ps))
      in if es = [] then e0 else Some (last es))"
proof (induction ps arbitrary: e0 t0)
  case Nil
  then show ?case by simp
next
  case (Cons p ps)
  obtain e1 t1 where s: "oldest_scan False (entries (snd p)) e0 t0 = (e1, t1)" by force
  then have "e1 = (if filter is_event (entries (snd p)) = [] then e0
      else Some (last (filter is_event (entries (snd p)))))"
    using oldest_scan_False [of "entries (snd p)" e0 t0] by simp
  with Cons.IH [of e1 t1] s show ?case by (simp add: Let_def)
qed

text \<open>
  \<open>getOldestEntry\<close> does not compare times: its flag \<open>first\<close> is never set, so it returns
  the last event entry in the order of iteration, whatever its age.
\<close>

theorem getOldestEntry_is_last:
  "getOldestEntry m =
     (let es = filter is_event (concat (map (\<lambda>p. entries (snd p)) (mshr_map m)))
      in if es = [] then None else Some (last es))"
  by (simp only: getOldestEntry_def oldest_fold)

section \<open>Concrete buffers\<close>

definition mshr_demo :: MSHR where
  "mshr_demo = fst (insertEvent 5 64 (demo_event 1 64 GetS) (-1) False False (newMSHR 3))"

lemma mshr_demo_ok: "mshr_ok mshr_demo"
  unfolding mshr_demo_def by (rule mshr_ok_insertEvent [OF mshr_ok_new surjective_pairing])

lemmas mshr_demo_simps = mshr_demo_def insertEvent_def newMSHR_def put_reg_def newRegister_def Let_def

theorem mshr_size_bound_witness:
  "m_size mshr_demo = int (total_events (mshr_map mshr_demo)) \<and> m_size mshr_demo \<le> 3"
proof -
  have "mshr_step (newMSHR 3) mshr_demo"
    unfolding mshr_demo_def by (rule step_insertEvent [OF surjective_pairing])
  then show ?thesis using mshr_size_bound [of 3 mshr_demo] by auto
qed

theorem insertEvent_fifo_witness:
  "\<exists>m1 m'. insertEvent 9 64 (demo_event 2 64 GetX) (-1) False False mshr_demo = (m1, 1) \<and>
     iter_res 1 (removeFront 64) m1 = Inr m' \<and> getFrontEvent m' 64 = Inr (Some (demo_event 2 64 GetX))"
proof -
  obtain m1 where m1: "insertEvent 9 64 (demo_event 2 64 GetX) (-1) False False mshr_demo = (m1, 1)"
    by (simp add: mshr_demo_simps)
  from insertEvent_fifo [OF mshr_demo_ok m1] show ?thesis using m1 by auto
qed

theorem insertEvent_roundtrip_witness:
  "\<exists>m1 m'. insertEvent 9 64 (demo_event 2 64 GetX) 0 False False mshr_demo = (m1, 0) \<and>
     removeEntry 64 0 m1 = Inr m' \<and> mshr_view m' = mshr_view mshr_demo \<and> m_size m' = 1"
proof -
  obtain m1 where m1: "insertEvent 9 64 (demo_event 2 64 GetX) 0 False False mshr_demo = (m1, 0)"
    by (simp add: mshr_demo_simps)
  have "m_size mshr_demo = 1" by (simp add: mshr_demo_simps)
  with insertEvent_roundtrip [OF mshr_demo_ok m1] show ?thesis using m1 by auto
qed

theorem insertEvent_reserves_last_witness:
  "\<exists>m1 p. insertEvent 9 64 (demo_event 2 64 GetX) 0 False False mshr_demo = (m1, p) \<and>
     snd (insertEvent 10 128 (demo_event 3 128 Inv) 0 True False m1) \<noteq> -1"
proof -
  obtain m1 where m1: "insertEvent 9 64 (demo_event 2 64 GetX) 0 False False mshr_demo = (m1, 0)"
    by (simp add: mshr_demo_simps)
  from insertEvent_reserves_last [OF m1] show ?thesis using m1 by auto
qed

theorem acks_roundtrip_witness:
  "\<exists>m'. decrementAcksNeeded 64 (incrementAcksNeeded 64 mshr_demo) = Inr (m', True) \<and>
     getAcksNeeded m' 64 = 0"
proof -
  have "getAcksNeeded mshr_demo 64 = 0" by (simp add: mshr_demo_simps getAcksNeeded_def)
  with acks_roundtrip [of mshr_demo 64] show ?thesis by auto
qed

end
