(* ===== verification/MemH_Replacement.thy ===== *)
theory MemH_Replacement
  imports MemH_Types "HOL-Library.Product_Lexorder"
begin

text \<open>
  \<^verbatim>\<open>memHierarchy/replacementManager.h\<close>: the eight replacement policies behind the
  virtual interface \<open>ReplacementPolicy\<close> (\<open>update\<close>, \<open>replaced\<close>, \<open>findBestCandidate\<close>,
  \<open>getBestCandidate\<close>, \<open>checkCompatibility\<close>). A policy is a record of its members; the
  virtual call is a case distinction on \<open>ReplacementPolicy\<close>. The random generator is code of
  the simulator core: a policy that draws numbers holds the sequence \<open>gen\<close> it will draw
  and how many it has drawn.
\<close>

section \<open>Information about a line\<close>

text \<open>\<open>ri_coh\<close> is \<open>None\<close> for a plain \<open>ReplacementInfo\<close>, and the members of the subclass
  \<open>CoherenceReplacementInfo\<close> otherwise.\<close>

record CohInfo =
  ri_shared :: bool
  ri_owned :: bool

record ReplacementInfo =
  ri_index :: u32
  ri_state :: State
  ri_coh :: "CohInfo option"

definition ri_idx :: "ReplacementInfo \<Rightarrow> u64" where
  "ri_idx i = ucast (ri_index i)"

definition cast_coh :: "ReplacementInfo \<Rightarrow> CohInfo res" where
  "cast_coh i = (case ri_coh i of None \<Rightarrow> Inl BadCast | Some c \<Rightarrow> Inr c)"

text \<open>\<open>v[i]\<close> and \<open>v[i] = x\<close> of a vector.\<close>

definition vec_get :: "'a list \<Rightarrow> u64 \<Rightarrow> 'a res" where
  "vec_get xs i = (if unat i < length xs then Inr (xs ! unat i) else Inl OutOfRange)"

definition vec_set :: "'a list \<Rightarrow> u64 \<Rightarrow> 'a \<Rightarrow> 'a list res" where
  "vec_set xs i v = (if unat i < length xs then Inr (xs[unat i := v]) else Inl OutOfRange)"

text \<open>
  The search all six ordered policies run: the first candidate is the first way; an invalid
  way ends the search; a way that \<open>beats\<close> the best so far takes its place.
\<close>

fun scan_ways :: "(ReplacementInfo \<Rightarrow> 'r res) \<Rightarrow> ('r \<Rightarrow> 'r \<Rightarrow> bool) \<Rightarrow> ReplacementInfo list
    \<Rightarrow> ReplacementInfo \<Rightarrow> 'r \<Rightarrow> ReplacementInfo res" where
  "scan_ways rank beats [] best bestRank = Inr best"
| "scan_ways rank beats (i # is) best bestRank =
     (if ri_state i = stI then Inr i
      else bindE (rank i) (\<lambda>candRank.
        if beats candRank bestRank then scan_ways rank beats is i candRank
        else scan_ways rank beats is best bestRank))"

definition scan_set :: "(ReplacementInfo \<Rightarrow> 'r res) \<Rightarrow> ('r \<Rightarrow> 'r \<Rightarrow> bool) \<Rightarrow> ReplacementInfo list
    \<Rightarrow> ReplacementInfo res" where
  "scan_set rank beats infos = (case infos of [] \<Rightarrow> Inl OutOfRange
     | i # is \<Rightarrow> bindE (rank i) (\<lambda>bestRank.
         if ri_state i = stI then Inr i else scan_ways rank beats is i bestRank))"

section \<open>LRU and MRU\<close>

record TSPolicy =
  ts_timestamp :: u64
  ts_bestCandidate :: u64
  ts_ways :: u64
  ts_array :: "u64 list"

definition ts_new :: "nat \<Rightarrow> u64 \<Rightarrow> TSPolicy" where
  "ts_new lines assoc = \<lparr>ts_timestamp = 1, ts_bestCandidate = 0, ts_ways = assoc,
     ts_array = replicate lines 0\<rparr>"

definition ts_update :: "u64 \<Rightarrow> TSPolicy \<Rightarrow> TSPolicy res" where
  "ts_update i p = bindE (vec_set (ts_array p) i (ts_timestamp p)) (\<lambda>a.
     Inr (p\<lparr>ts_array := a, ts_timestamp := ts_timestamp p + 1\<rparr>))"

definition ts_replaced :: "u64 \<Rightarrow> TSPolicy \<Rightarrow> TSPolicy res" where
  "ts_replaced i p = bindE (vec_set (ts_array p) i 0) (\<lambda>a. Inr (p\<lparr>ts_array := a\<rparr>))"

definition ts_choose :: "(u32 \<Rightarrow> u64) \<Rightarrow> ReplacementInfo res \<Rightarrow> TSPolicy \<Rightarrow> (TSPolicy \<times> u64) res" where
  "ts_choose conv r p = bindE r (\<lambda>i.
     Inr (p\<lparr>ts_bestCandidate := conv (ri_index i)\<rparr>, conv (ri_index i)))"

definition LRU_findBestCandidate :: "ReplacementInfo list \<Rightarrow> TSPolicy \<Rightarrow> (TSPolicy \<times> u64) res" where
  "LRU_findBestCandidate infos p =
     ts_choose ucast (scan_set (\<lambda>i. vec_get (ts_array p) (ri_idx i)) (\<lambda>c b. c < b) infos) p"

text \<open>\<open>Rank\<close> of the policies that look at the coherence state.\<close>

record Rank =
  rk_timestamp :: u64
  rk_shared :: bool
  rk_owned :: bool
  rk_state :: State

definition coh_rank :: "TSPolicy \<Rightarrow> ReplacementInfo \<Rightarrow> Rank res" where
  "coh_rank p i = bindE (vec_get (ts_array p) (ri_idx i)) (\<lambda>t. bindE (cast_coh i) (\<lambda>c.
     Inr \<lparr>rk_timestamp = t, rk_shared = ri_shared c, rk_owned = ri_owned c, rk_state = ri_state i\<rparr>))"

definition LRUOpt_lessThan :: "Rank \<Rightarrow> Rank \<Rightarrow> bool" where
  "LRUOpt_lessThan r other =
     (if \<not> rk_shared r \<and> rk_shared other then True
      else if rk_shared r \<and> \<not> rk_shared other then False
      else if \<not> rk_owned r \<and> rk_owned other then True
      else if rk_owned r \<and> \<not> rk_owned other then False
      else rk_timestamp r < rk_timestamp other)"

definition LRUOpt_findBestCandidate :: "ReplacementInfo list \<Rightarrow> TSPolicy \<Rightarrow> (TSPolicy \<times> u64) res" where
  "LRUOpt_findBestCandidate infos p = ts_choose ucast (scan_set (coh_rank p) LRUOpt_lessThan infos) p"

text \<open>\<open>MRU\<close> and \<open>MRUOpt\<close> keep the candidate in an \<open>int32_t\<close>, which is sign-extended on return.\<close>

definition MRU_biggerThan :: "u64 \<times> State \<Rightarrow> u64 \<times> State \<Rightarrow> bool" where
  "MRU_biggerThan r other = (if snd r = stI then True else fst r > fst other)"

definition MRU_findBestCandidate :: "ReplacementInfo list \<Rightarrow> TSPolicy \<Rightarrow> (TSPolicy \<times> u64) res" where
  "MRU_findBestCandidate infos p = ts_choose scast
     (scan_set (\<lambda>i. bindE (vec_get (ts_array p) (ri_idx i)) (\<lambda>t. Inr (t, ri_state i)))
        MRU_biggerThan infos) p"

definition MRUOpt_biggerThan :: "Rank \<Rightarrow> Rank \<Rightarrow> bool" where
  "MRUOpt_biggerThan r other =
     (if rk_state r = stI then True
      else if \<not> rk_shared r \<and> rk_shared other then True
      else if rk_shared r \<and> \<not> rk_shared other then False
      else if rk_owned r \<and> \<not> rk_owned other then False
      else if \<not> rk_owned r \<and> rk_owned other then True
      else rk_timestamp r > rk_timestamp other)"

definition MRUOpt_findBestCandidate :: "ReplacementInfo list \<Rightarrow> TSPolicy \<Rightarrow> (TSPolicy \<times> u64) res" where
  "MRUOpt_findBestCandidate infos p = ts_choose scast (scan_set (coh_rank p) MRUOpt_biggerThan infos) p"

section \<open>LFU\<close>

record LFUInfo =
  lfu_ts :: u64
  lfu_acc :: u64

record LFUPolicy =
  lfu_timestamp :: u64
  lfu_bestCandidate :: u64
  lfu_ways :: u64
  lfu_array :: "LFUInfo list"

definition lfu_new :: "nat \<Rightarrow> u64 \<Rightarrow> LFUPolicy" where
  "lfu_new lines assoc = \<lparr>lfu_timestamp = 1, lfu_bestCandidate = 0, lfu_ways = assoc,
     lfu_array = replicate lines \<lparr>lfu_ts = 0, lfu_acc = 0\<rparr>\<rparr>"

definition lfu_update :: "u64 \<Rightarrow> LFUPolicy \<Rightarrow> LFUPolicy res" where
  "lfu_update i p = bindE (vec_get (lfu_array p) i) (\<lambda>e.
     if lfu_acc e + 1 = 0 then Inl DivByZero
     else bindE (vec_set (lfu_array p) i
            \<lparr>lfu_ts = (lfu_acc e * lfu_ts e + lfu_timestamp p) div (lfu_acc e + 1), lfu_acc = lfu_acc e + 1\<rparr>)
          (\<lambda>a. Inr (p\<lparr>lfu_array := a, lfu_timestamp := lfu_timestamp p + 1000\<rparr>)))"

definition lfu_replaced :: "u64 \<Rightarrow> LFUPolicy \<Rightarrow> LFUPolicy res" where
  "lfu_replaced i p = bindE (vec_get (lfu_array p) i) (\<lambda>e.
     bindE (vec_set (lfu_array p) i (e\<lparr>lfu_acc := 0\<rparr>)) (\<lambda>a. Inr (p\<lparr>lfu_array := a\<rparr>)))"

definition LFU_lessThan :: "u64 \<Rightarrow> LFUInfo \<Rightarrow> LFUInfo \<Rightarrow> bool" where
  "LFU_lessThan curTs e other =
     (if lfu_acc e = 0 then True
      else if lfu_acc other = 0 then False
      else (curTs - lfu_ts e) div lfu_acc e > (curTs - lfu_ts other) div lfu_acc other)"

definition lfu_choose :: "ReplacementInfo res \<Rightarrow> LFUPolicy \<Rightarrow> (LFUPolicy \<times> u64) res" where
  "lfu_choose r p = bindE r (\<lambda>i. Inr (p\<lparr>lfu_bestCandidate := ri_idx i\<rparr>, ri_idx i))"

definition LFU_findBestCandidate :: "ReplacementInfo list \<Rightarrow> LFUPolicy \<Rightarrow> (LFUPolicy \<times> u64) res" where
  "LFU_findBestCandidate infos p =
     lfu_choose (scan_set (\<lambda>i. vec_get (lfu_array p) (ri_idx i)) (LFU_lessThan (lfu_timestamp p)) infos) p"

record LFURank =
  lr_info :: LFUInfo
  lr_shared :: bool
  lr_owned :: bool
  lr_state :: State

definition lfu_rank :: "LFUPolicy \<Rightarrow> ReplacementInfo \<Rightarrow> LFURank res" where
  "lfu_rank p i = bindE (vec_get (lfu_array p) (ri_idx i)) (\<lambda>e. bindE (cast_coh i) (\<lambda>c.
     Inr \<lparr>lr_info = e, lr_shared = ri_shared c, lr_owned = ri_owned c, lr_state = ri_state i\<rparr>))"

definition LFUOpt_lessThan :: "u64 \<Rightarrow> LFURank \<Rightarrow> LFURank \<Rightarrow> bool" where
  "LFUOpt_lessThan curTs r other =
     (if lr_state r = stI then True
      else if \<not> lr_shared r \<and> lr_shared other then True
      else if lr_shared r \<and> \<not> lr_shared other then False
      else if \<not> lr_owned r \<and> lr_owned other then True
      else if lr_owned r \<and> \<not> lr_owned other then False
      else LFU_lessThan curTs (lr_info r) (lr_info other))"

definition LFUOpt_findBestCandidate :: "ReplacementInfo list \<Rightarrow> LFUPolicy \<Rightarrow> (LFUPolicy \<times> u64) res" where
  "LFUOpt_findBestCandidate infos p =
     lfu_choose (scan_set (lfu_rank p) (LFUOpt_lessThan (lfu_timestamp p)) infos) p"

section \<open>Random and NMRU\<close>

record RndPolicy =
  rnd_bestCandidate :: u64
  rnd_ways :: u64
  rnd_array :: "u64 list"
  gen :: "nat \<Rightarrow> u64"
  drawn :: nat

definition rnd_new :: "(nat \<Rightarrow> u64) \<Rightarrow> u64 \<Rightarrow> RndPolicy" where
  "rnd_new g assoc = \<lparr>rnd_bestCandidate = 0, rnd_ways = assoc, rnd_array = [], gen = g, drawn = 0\<rparr>"

text \<open>\<open>lines/associativity\<close> divides by zero for associativity zero.\<close>

definition nmru_new :: "(nat \<Rightarrow> u64) \<Rightarrow> u64 \<Rightarrow> u64 \<Rightarrow> RndPolicy res" where
  "nmru_new g lines assoc =
     (if assoc = 0 then Inl DivByZero
      else Inr \<lparr>rnd_bestCandidate = 0, rnd_ways = assoc, rnd_array = replicate (unat (lines div assoc)) 0,
        gen = g, drawn = 0\<rparr>)"

definition rnd_pick :: "u64 \<Rightarrow> RndPolicy \<Rightarrow> (RndPolicy \<times> u64) res" where
  "rnd_pick c p = Inr (p\<lparr>rnd_bestCandidate := c\<rparr>, c)"

definition Random_findBestCandidate :: "ReplacementInfo list \<Rightarrow> RndPolicy \<Rightarrow> (RndPolicy \<times> u64) res" where
  "Random_findBestCandidate infos p =
     (case find (\<lambda>i. ri_state i = stI) infos of
        Some i \<Rightarrow> rnd_pick (ri_idx i) p
      | None \<Rightarrow> if rnd_ways p = 0 then Inl DivByZero
                else bindE (vec_get infos (gen p (drawn p) mod rnd_ways p)) (\<lambda>i.
                       rnd_pick (ri_idx i) (p\<lparr>drawn := Suc (drawn p)\<rparr>)))"

definition nmru_update :: "u64 \<Rightarrow> RndPolicy \<Rightarrow> RndPolicy res" where
  "nmru_update i p =
     (if rnd_ways p = 0 then Inl DivByZero
      else bindE (vec_set (rnd_array p) (i div rnd_ways p) (i mod rnd_ways p)) (\<lambda>a.
             Inr (p\<lparr>rnd_array := a\<rparr>)))"

definition NMRU_findBestCandidate :: "ReplacementInfo list \<Rightarrow> RndPolicy \<Rightarrow> (RndPolicy \<times> u64) res" where
  "NMRU_findBestCandidate infos p =
     (case find (\<lambda>i. ri_state i = stI) (take (unat (rnd_ways p)) infos) of
        Some i \<Rightarrow> rnd_pick (ri_idx i) p
      | None \<Rightarrow>
          if length infos < unat (rnd_ways p) \<or> infos = [] then Inl OutOfRange
          else if rnd_ways p - 1 = 0 \<or> rnd_ways p = 0 then Inl DivByZero
          else let setBegin = ri_idx (hd infos);
                   index = gen p (drawn p) mod (rnd_ways p - 1)
               in bindE (vec_get (rnd_array p) (setBegin div rnd_ways p)) (\<lambda>mru.
                    rnd_pick (if index < mru then setBegin + index else setBegin + index + 1)
                      (p\<lparr>drawn := Suc (drawn p)\<rparr>)))"

section \<open>The interface\<close>

datatype ReplacementPolicy =
    LRU TSPolicy | LRUOpt TSPolicy | LFU LFUPolicy | LFUOpt LFUPolicy | MRU TSPolicy
  | MRUOpt TSPolicy | Random RndPolicy | NMRU RndPolicy

definition lift_pol :: "('p \<Rightarrow> ReplacementPolicy) \<Rightarrow> ('p \<times> u64) res \<Rightarrow> (ReplacementPolicy \<times> u64) res" where
  "lift_pol C r = bindE r (\<lambda>(p, c). Inr (C p, c))"

primrec checkCompatibility :: "ReplacementPolicy \<Rightarrow> ReplacementInfo \<Rightarrow> bool" where
  "checkCompatibility (LRU p) i = True"
| "checkCompatibility (LRUOpt p) i = (ri_coh i \<noteq> None)"
| "checkCompatibility (LFU p) i = True"
| "checkCompatibility (LFUOpt p) i = (ri_coh i \<noteq> None)"
| "checkCompatibility (MRU p) i = True"
| "checkCompatibility (MRUOpt p) i = (ri_coh i \<noteq> None)"
| "checkCompatibility (Random p) i = True"
| "checkCompatibility (NMRU p) i = True"

primrec pol_update :: "u64 \<Rightarrow> ReplacementPolicy \<Rightarrow> ReplacementPolicy res" where
  "pol_update i (LRU p) = bindE (ts_update i p) (\<lambda>q. Inr (LRU q))"
| "pol_update i (LRUOpt p) = bindE (ts_update i p) (\<lambda>q. Inr (LRUOpt q))"
| "pol_update i (LFU p) = bindE (lfu_update i p) (\<lambda>q. Inr (LFU q))"
| "pol_update i (LFUOpt p) = bindE (lfu_update i p) (\<lambda>q. Inr (LFUOpt q))"
| "pol_update i (MRU p) = bindE (ts_update i p) (\<lambda>q. Inr (MRU q))"
| "pol_update i (MRUOpt p) = bindE (ts_update i p) (\<lambda>q. Inr (MRUOpt q))"
| "pol_update i (Random p) = Inr (Random p)"
| "pol_update i (NMRU p) = bindE (nmru_update i p) (\<lambda>q. Inr (NMRU q))"

primrec pol_replaced :: "u64 \<Rightarrow> ReplacementPolicy \<Rightarrow> ReplacementPolicy res" where
  "pol_replaced i (LRU p) = bindE (ts_replaced i p) (\<lambda>q. Inr (LRU q))"
| "pol_replaced i (LRUOpt p) = bindE (ts_replaced i p) (\<lambda>q. Inr (LRUOpt q))"
| "pol_replaced i (LFU p) = bindE (lfu_replaced i p) (\<lambda>q. Inr (LFU q))"
| "pol_replaced i (LFUOpt p) = bindE (lfu_replaced i p) (\<lambda>q. Inr (LFUOpt q))"
| "pol_replaced i (MRU p) = bindE (ts_replaced i p) (\<lambda>q. Inr (MRU q))"
| "pol_replaced i (MRUOpt p) = bindE (ts_replaced i p) (\<lambda>q. Inr (MRUOpt q))"
| "pol_replaced i (Random p) = Inr (Random p)"
| "pol_replaced i (NMRU p) = Inr (NMRU p)"

primrec findBestCandidate ::
  "ReplacementPolicy \<Rightarrow> ReplacementInfo list \<Rightarrow> (ReplacementPolicy \<times> u64) res" where
  "findBestCandidate (LRU p) infos = lift_pol LRU (LRU_findBestCandidate infos p)"
| "findBestCandidate (LRUOpt p) infos = lift_pol LRUOpt (LRUOpt_findBestCandidate infos p)"
| "findBestCandidate (LFU p) infos = lift_pol LFU (LFU_findBestCandidate infos p)"
| "findBestCandidate (LFUOpt p) infos = lift_pol LFUOpt (LFUOpt_findBestCandidate infos p)"
| "findBestCandidate (MRU p) infos = lift_pol MRU (MRU_findBestCandidate infos p)"
| "findBestCandidate (MRUOpt p) infos = lift_pol MRUOpt (MRUOpt_findBestCandidate infos p)"
| "findBestCandidate (Random p) infos = lift_pol Random (Random_findBestCandidate infos p)"
| "findBestCandidate (NMRU p) infos = lift_pol NMRU (NMRU_findBestCandidate infos p)"

primrec getBestCandidate :: "ReplacementPolicy \<Rightarrow> u64" where
  "getBestCandidate (LRU p) = ts_bestCandidate p"
| "getBestCandidate (LRUOpt p) = ts_bestCandidate p"
| "getBestCandidate (LFU p) = lfu_bestCandidate p"
| "getBestCandidate (LFUOpt p) = lfu_bestCandidate p"
| "getBestCandidate (MRU p) = ts_bestCandidate p"
| "getBestCandidate (MRUOpt p) = ts_bestCandidate p"
| "getBestCandidate (Random p) = rnd_bestCandidate p"
| "getBestCandidate (NMRU p) = rnd_bestCandidate p"

section \<open>The search\<close>

lemma scan_ways_in: "scan_ways rank beats is best br = Inr i \<Longrightarrow> i = best \<or> i \<in> set is"
  by (induction rank beats "is" best br rule: scan_ways.induct)
    (auto simp: bindE_eq_Inr_iff split: if_splits)

lemma scan_ways_invalid:
  "scan_ways rank beats is best br = Inr i \<Longrightarrow> find (\<lambda>i. ri_state i = stI) is = Some j \<Longrightarrow> i = j"
  by (induction rank beats "is" best br rule: scan_ways.induct)
    (auto simp: bindE_eq_Inr_iff split: if_splits)

lemma scan_ways_total:
  "\<forall>i\<in>set is. \<exists>r. rank i = Inr r \<Longrightarrow> \<exists>i. scan_ways rank beats is best br = Inr i"
  by (induction "is" arbitrary: best br) auto

lemma scan_set_in: "scan_set rank beats infos = Inr i \<Longrightarrow> i \<in> set infos"
  by (auto simp: scan_set_def bindE_eq_Inr_iff split: list.splits if_splits dest: scan_ways_in)

lemma scan_set_invalid:
  "scan_set rank beats infos = Inr i \<Longrightarrow> find (\<lambda>i. ri_state i = stI) infos = Some j \<Longrightarrow> i = j"
  by (auto simp: scan_set_def bindE_eq_Inr_iff split: list.splits if_splits dest: scan_ways_invalid)

lemma scan_set_total:
  "infos \<noteq> [] \<Longrightarrow> \<forall>i\<in>set infos. \<exists>r. rank i = Inr r \<Longrightarrow> \<exists>i. scan_set rank beats infos = Inr i"
  by (fastforce simp: scan_set_def neq_Nil_conv intro: scan_ways_total)

text \<open>
  When all ways are valid and \<open>beats\<close> compares a key, the search finds the first way with the
  least key.
\<close>

lemma scan_ways_least:
  fixes key :: "ReplacementInfo \<Rightarrow> 'k::linorder"
  assumes "\<forall>i\<in>set is. ri_state i \<noteq> stI" and "\<forall>i\<in>insert best (set is). rank i = Inr (rk i)"
    and "\<forall>i\<in>insert best (set is). \<forall>j\<in>insert best (set is). beats (rk i) (rk j) \<longleftrightarrow> key i < key j"
  shows "\<exists>i. scan_ways rank beats is best (rk best) = Inr i \<and> (\<forall>j\<in>insert best (set is). key i \<le> key j)"
  using assms
proof (induction "is" arbitrary: best)
  case Nil
  then show ?case by simp
next
  case (Cons x xs)
  define b where "b = (if key x < key best then x else best)"
  have "scan_ways rank beats (x # xs) best (rk best) = scan_ways rank beats xs b (rk b)"
    using Cons.prems by (simp add: b_def)
  moreover have "\<exists>i. scan_ways rank beats xs b (rk b) = Inr i \<and> (\<forall>j\<in>insert b (set xs). key i \<le> key j)"
    by (rule Cons.IH) (use Cons.prems in \<open>auto simp: b_def\<close>)
  moreover have "key b \<le> key x" "key b \<le> key best" by (auto simp: b_def)
  ultimately show ?case by (metis insert_iff list.simps(15) order.trans)
qed

lemma scan_set_least:
  fixes key :: "ReplacementInfo \<Rightarrow> 'k::linorder"
  assumes "infos \<noteq> []" and "\<forall>i\<in>set infos. ri_state i \<noteq> stI" and "\<forall>i\<in>set infos. rank i = Inr (rk i)"
    and "\<forall>i\<in>set infos. \<forall>j\<in>set infos. beats (rk i) (rk j) \<longleftrightarrow> key i < key j"
  shows "\<exists>i\<in>set infos. scan_set rank beats infos = Inr i \<and> (\<forall>j\<in>set infos. key i \<le> key j)"
proof -
  obtain x xs where x: "infos = x # xs" using assms(1) by (metis neq_Nil_conv)
  have eq: "scan_set rank beats infos = scan_ways rank beats xs x (rk x)"
    using assms x by (simp add: scan_set_def)
  from assms x have "\<exists>i. scan_ways rank beats xs x (rk x) = Inr i \<and> (\<forall>j\<in>insert x (set xs). key i \<le> key j)"
    by (intro scan_ways_least) auto
  then show ?thesis using eq scan_set_in [of rank beats infos] x by fastforce
qed

section \<open>The contract of a policy\<close>

text \<open>
  A set as \<open>CacheArray\<close> hands it to a policy: \<open>ways\<close> consecutive lines from a multiple of
  \<open>ways\<close>, all below \<open>lines\<close> (at most \<open>2^31\<close>, which the \<open>int32_t\<close> of \<open>MRU\<close> needs).
\<close>

definition set_wf :: "nat \<Rightarrow> nat \<Rightarrow> ReplacementInfo list \<Rightarrow> bool" where
  "set_wf lines ways infos \<longleftrightarrow> 0 < ways \<and> length infos = ways \<and> lines \<le> 2147483648 \<and>
     (let base = unat (ri_index (hd infos)) in base mod ways = 0 \<and> base + ways \<le> lines \<and>
        list_all (\<lambda>k. unat (ri_index (infos ! k)) = base + k) [0..<ways])"

primrec pol_ok :: "nat \<Rightarrow> nat \<Rightarrow> ReplacementPolicy \<Rightarrow> bool" where
  "pol_ok lines ways (LRU p) \<longleftrightarrow> length (ts_array p) = lines"
| "pol_ok lines ways (LRUOpt p) \<longleftrightarrow> length (ts_array p) = lines"
| "pol_ok lines ways (LFU p) \<longleftrightarrow> length (lfu_array p) = lines"
| "pol_ok lines ways (LFUOpt p) \<longleftrightarrow> length (lfu_array p) = lines"
| "pol_ok lines ways (MRU p) \<longleftrightarrow> length (ts_array p) = lines"
| "pol_ok lines ways (MRUOpt p) \<longleftrightarrow> length (ts_array p) = lines"
| "pol_ok lines ways (Random p) \<longleftrightarrow> unat (rnd_ways p) = ways"
| "pol_ok lines ways (NMRU p) \<longleftrightarrow> unat (rnd_ways p) = ways \<and> 2 \<le> ways \<and> length (rnd_array p) = lines div ways"

locale replacement_policy =
  fixes ok :: "nat \<Rightarrow> nat \<Rightarrow> 'p \<Rightarrow> bool"
    and compat :: "'p \<Rightarrow> ReplacementInfo \<Rightarrow> bool"
    and upd :: "u64 \<Rightarrow> 'p \<Rightarrow> 'p res"
    and repl :: "u64 \<Rightarrow> 'p \<Rightarrow> 'p res"
    and pick :: "'p \<Rightarrow> ReplacementInfo list \<Rightarrow> ('p \<times> u64) res"
  assumes pick_total: "ok l w p \<Longrightarrow> set_wf l w infos \<Longrightarrow> \<forall>i\<in>set infos. compat p i \<Longrightarrow>
      \<exists>p' i. pick p infos = Inr (p', ri_idx i) \<and> i \<in> set infos"
    and pick_ok: "ok l w p \<Longrightarrow> pick p infos = Inr (p', c) \<Longrightarrow> ok l w p' \<and> compat p' = compat p"
    and pick_invalid: "ok l w p \<Longrightarrow> set_wf l w infos \<Longrightarrow> pick p infos = Inr (p', c) \<Longrightarrow>
      find (\<lambda>i. ri_state i = stI) infos = Some j \<Longrightarrow> c = ri_idx j"
    and upd_ok: "ok l w p \<Longrightarrow> upd i p = Inr p' \<Longrightarrow> ok l w p' \<and> compat p' = compat p"
    and repl_ok: "ok l w p \<Longrightarrow> repl i p = Inr p' \<Longrightarrow> ok l w p' \<and> compat p' = compat p"
begin

text \<open>A valid line is only evicted from a set without invalid lines.\<close>

lemma evicts_only_when_full:
  assumes "ok l w p" and "set_wf l w infos" and "pick p infos = Inr (p', ri_idx i)"
    and "i \<in> set infos" and "ri_state i \<noteq> stI" and "\<forall>j\<in>set infos. ri_idx j = ri_idx i \<longrightarrow> j = i"
  shows "\<forall>j\<in>set infos. ri_state j \<noteq> stI"
proof (rule ccontr)
  assume "\<not> ?thesis"
  then obtain j where j: "find (\<lambda>i. ri_state i = stI) infos = Some j"
    by (metis (mono_tags, lifting) find_None_iff2 not_None_eq)
  then have "j \<in> set infos" "ri_state j = stI" by (auto simp: find_Some_iff)
  with pick_invalid [OF assms(1-3) j] assms(5,6) show False by metis
qed

text \<open>Choosing twice in a row, with a replacement in between, stays inside the set.\<close>

lemma pick_after_repl:
  assumes "ok l w p" and "set_wf l w infos" and "\<forall>i\<in>set infos. compat p i"
    and "pick p infos = Inr (p1, c)" and "repl c p1 = Inr p2" and "set_wf l w infos'"
    and "\<forall>i\<in>set infos'. compat p i"
  shows "\<exists>p3 i. pick p2 infos' = Inr (p3, ri_idx i) \<and> i \<in> set infos'"
proof -
  have 1: "ok l w p1" "compat p1 = compat p" using pick_ok [OF assms(1,4)] by auto
  have 2: "ok l w p2" "compat p2 = compat p" using repl_ok [OF 1(1) assms(5)] 1(2) by auto
  show ?thesis using pick_total [OF 2(1) assms(6)] assms(7) 2(2) by simp
qed

end

lemma set_wf_facts:
  assumes "set_wf lines ways infos"
  shows "infos \<noteq> []" and "i \<in> set infos \<Longrightarrow> unat (ri_idx i) < lines"
    and "i \<in> set infos \<Longrightarrow> (scast (ri_index i) :: u64) = ri_idx i"
    and "k < ways \<Longrightarrow> unat (ri_idx (infos ! k)) = unat (ri_idx (hd infos)) + k"
    and "i \<in> set infos \<Longrightarrow> j \<in> set infos \<Longrightarrow> ri_idx i = ri_idx j \<Longrightarrow> i = j"
    and "unat (ri_idx (hd infos)) mod ways = 0" and "unat (ri_idx (hd infos)) + ways \<le> lines"
proof -
  let ?b = "unat (ri_index (hd infos))"
  have u: "unat (ri_idx i) = unat (ri_index i)" for i by (simp add: ri_idx_def unat_ucast_u32)
  have w: "0 < ways" "length infos = ways" "lines \<le> 2147483648" "?b mod ways = 0" "?b + ways \<le> lines"
    and k: "k < ways \<Longrightarrow> unat (ri_index (infos ! k)) = ?b + k" for k
    using assms by (auto simp: set_wf_def Let_def list_all_iff)
  show "infos \<noteq> []" using w by auto
  have lt: "i \<in> set infos \<Longrightarrow> unat (ri_index i) < lines" for i
    using w k by (fastforce simp: in_set_conv_nth)
  then show "i \<in> set infos \<Longrightarrow> unat (ri_idx i) < lines" by (simp add: u)
  show "k < ways \<Longrightarrow> unat (ri_idx (infos ! k)) = unat (ri_idx (hd infos)) + k" using k by (simp add: u)
  show "i \<in> set infos \<Longrightarrow> j \<in> set infos \<Longrightarrow> ri_idx i = ri_idx j \<Longrightarrow> i = j"
  proof -
    assume "i \<in> set infos" "j \<in> set infos" "ri_idx i = ri_idx j"
    moreover from this(3) have "unat (ri_index i) = unat (ri_index j)" by (metis u)
    ultimately show "i = j" using k w(2) by (auto simp: in_set_conv_nth)
  qed
  show "unat (ri_idx (hd infos)) mod ways = 0" "unat (ri_idx (hd infos)) + ways \<le> lines"
    using w by (simp_all add: u)
  show "i \<in> set infos \<Longrightarrow> (scast (ri_index i) :: u64) = ri_idx i"
  proof -
    assume "i \<in> set infos"
    then have "unat (ri_index i) < 2147483648" using lt w(3) by fastforce
    then show ?thesis by (simp add: ri_idx_def scast_u32_small)
  qed
qed

text \<open>What every search of the interface returns, policy by policy.\<close>

lemma ts_choose_Inr:
  "ts_choose conv r p = Inr (p', c) \<longleftrightarrow>
     (\<exists>i. r = Inr i \<and> c = conv (ri_index i) \<and> p' = p\<lparr>ts_bestCandidate := c\<rparr>)"
  by (auto simp: ts_choose_def bindE_eq_Inr_iff)

lemma lfu_choose_Inr:
  "lfu_choose r p = Inr (p', c) \<longleftrightarrow> (\<exists>i. r = Inr i \<and> c = ri_idx i \<and> p' = p\<lparr>lfu_bestCandidate := c\<rparr>)"
  by (auto simp: lfu_choose_def bindE_eq_Inr_iff)

lemma lift_pol_Inr: "lift_pol C r = Inr (q, c) \<longleftrightarrow> (\<exists>p. r = Inr (p, c) \<and> q = C p)"
  by (auto simp: lift_pol_def bindE_eq_Inr_iff)

lemmas choose_defs = LRU_findBestCandidate_def LRUOpt_findBestCandidate_def MRU_findBestCandidate_def
  MRUOpt_findBestCandidate_def LFU_findBestCandidate_def LFUOpt_findBestCandidate_def
lemmas choose_Inr = lift_pol_Inr ts_choose_Inr lfu_choose_Inr

lemma rank_total:
  "unat (ri_idx i) < length (ts_array p) \<Longrightarrow> \<exists>r. vec_get (ts_array p) (ri_idx i) = Inr r"
  "unat (ri_idx i) < length (lfu_array q) \<Longrightarrow> \<exists>r. vec_get (lfu_array q) (ri_idx i) = Inr r"
  "unat (ri_idx i) < length (ts_array p) \<Longrightarrow>
     \<exists>r. bindE (vec_get (ts_array p) (ri_idx i)) (\<lambda>t. Inr (t, ri_state i)) = Inr r"
  "unat (ri_idx i) < length (ts_array p) \<Longrightarrow> ri_coh i \<noteq> None \<Longrightarrow> \<exists>r. coh_rank p i = Inr r"
  "unat (ri_idx i) < length (lfu_array q) \<Longrightarrow> ri_coh i \<noteq> None \<Longrightarrow> \<exists>r. lfu_rank q i = Inr r"
  by (auto simp: vec_get_def coh_rank_def lfu_rank_def cast_coh_def)

lemma rnd_find_total:
  assumes "unat (rnd_ways p) = w" and "set_wf l w infos"
  shows "\<exists>p' i. Random_findBestCandidate infos p = Inr (p', ri_idx i) \<and> i \<in> set infos"
proof (cases "find (\<lambda>i. ri_state i = stI) infos")
  case None
  have w: "0 < w" "length infos = w" using assms(2) by (auto simp: set_wf_def)
  then have "unat (gen p (drawn p) mod rnd_ways p) < length infos" using assms(1) by (simp add: unat_mod)
  with None w assms(1) show ?thesis
    by (auto simp: Random_findBestCandidate_def vec_get_def rnd_pick_def)
next
  case (Some i)
  moreover from Some have "i \<in> set infos" by (auto simp: find_Some_iff)
  ultimately show ?thesis by (auto simp: Random_findBestCandidate_def rnd_pick_def)
qed

text \<open>\<open>NMRU\<close> picks a way by skipping over the most recently used one.\<close>

lemma nmru_pick:
  assumes "unat (rnd_ways p) = w" "2 \<le> w" "length (rnd_array p) = l div w" and "set_wf l w infos"
    and none: "find (\<lambda>i. ri_state i = stI) infos = None"
  shows "\<exists>k < w. NMRU_findBestCandidate infos p =
      Inr (p\<lparr>drawn := Suc (drawn p), rnd_bestCandidate := ri_idx (infos ! k)\<rparr>, ri_idx (infos ! k)) \<and>
      k \<noteq> unat (rnd_array p ! (unat (ri_idx (hd infos)) div w))"
proof -
  let ?b = "ri_idx (hd infos)"
  have len: "length infos = w" and nz: "rnd_ways p \<noteq> 0" using assms by (auto simp: set_wf_def)
  have bw: "unat ?b + w \<le> l" and bm: "unat ?b mod w = 0" using set_wf_facts(6,7) [OF assms(4)] by auto
  have "unat ?b div w < l div w"
    using bw bm assms(2) by (metis Suc_le_eq add.commute add_leD1 div_add_self1 div_le_mono mod_0_imp_dvd numeral_2_eq_2 not_less_eq_eq not_numeral_le_zero plus_1_eq_Suc)
  then have mru: "vec_get (rnd_array p) (?b div rnd_ways p) = Inr (rnd_array p ! (unat ?b div w))"
    using assms(1,3) by (simp add: vec_get_def unat_div)
  define m where "m = rnd_array p ! (unat ?b div w)"
  define x where "x = gen p (drawn p) mod (rnd_ways p - 1)"
  have w1: "unat (rnd_ways p - 1) = w - 1" using assms(1,2) by (subst unat_diff_u64) (auto simp: word_le_nat_alt)
  then have x: "unat x < w - 1" using assms(2) by (simp add: x_def unat_mod)
  define k where "k = (if x < m then unat x else unat x + 1)"
  have k: "k < w" "k \<noteq> unat m" using x by (auto simp: k_def word_less_nat_alt)
  have "set infos \<noteq> {}" using len assms(2) by auto
  have small: "l \<le> 2147483648" using assms(4) by (simp add: set_wf_def)
  have "unat (if x < m then ?b + x else ?b + x + 1) = unat ?b + k"
    using k(1) bw small x by (auto simp: k_def unat_add_u64)
  also have "\<dots> = unat (ri_idx (infos ! k))" using set_wf_facts(4) [OF assms(4) k(1)] by simp
  finally have "(if x < m then ?b + x else ?b + x + 1) = ri_idx (infos ! k)" by (simp add: word_unat_eq_iff)
  moreover have "rnd_ways p - 1 \<noteq> 0" using w1 assms(2) by force
  ultimately have "NMRU_findBestCandidate infos p = rnd_pick (ri_idx (infos ! k)) (p\<lparr>drawn := Suc (drawn p)\<rparr>)"
    using none len assms(1,2) nz mru by (auto simp: NMRU_findBestCandidate_def Let_def x_def m_def)
  then show ?thesis using k by (auto simp: rnd_pick_def m_def)
qed

lemma rnd_pick_Inr: "rnd_pick c p = Inr (p', c') \<longleftrightarrow> c' = c \<and> p' = p\<lparr>rnd_bestCandidate := c\<rparr>"
  by (auto simp: rnd_pick_def)

lemma Random_choose_ok:
  "Random_findBestCandidate infos p = Inr (p', c) \<Longrightarrow> rnd_ways p' = rnd_ways p"
  by (cases "find (\<lambda>i. ri_state i = stI) infos")
    (clarsimp simp: Random_findBestCandidate_def rnd_pick_Inr bindE_eq_Inr_iff split: if_splits)+

lemma NMRU_choose_okE:
  "okE (\<lambda>(p', c). rnd_ways p' = rnd_ways p \<and> rnd_array p' = rnd_array p) (NMRU_findBestCandidate infos p)"
  by (auto simp: NMRU_findBestCandidate_def Let_def rnd_pick_def vec_get_def
      split: option.split intro!: okE_if)

lemmas NMRU_choose_ok = NMRU_choose_okE [THEN okE_D, unfolded split_conv]

text \<open>A search whose rank is defined on every way of the set finds a way of the set.\<close>

lemma scan_in_set:
  assumes "set_wf l w infos" and "\<And>i. i \<in> set infos \<Longrightarrow> \<exists>r. rank i = Inr r"
  shows "\<exists>i. scan_set rank beats infos = Inr i \<and> i \<in> set infos"
  using scan_set_total [OF set_wf_facts(1) [OF assms(1)]] assms(2) scan_set_in by blast

lemma ts_choose_total:
  assumes "set_wf l w infos" and "\<exists>i. r = Inr i \<and> i \<in> set infos"
  shows "\<exists>p' i. ts_choose ucast r p = Inr (p', ri_idx i) \<and> i \<in> set infos"
    and "\<exists>p' i. ts_choose scast r p = Inr (p', ri_idx i) \<and> i \<in> set infos"
  using assms set_wf_facts(3) [OF assms(1)] by (auto simp: ts_choose_def ri_idx_def)

lemma lfu_choose_total:
  "\<exists>i. r = Inr i \<and> i \<in> set infos \<Longrightarrow> \<exists>p' i. lfu_choose r p = Inr (p', ri_idx i) \<and> i \<in> set infos"
  by (auto simp: lfu_choose_def)

lemma lift_pol_total:
  "\<exists>p' i. r = Inr (p', ri_idx i) \<and> i \<in> S \<Longrightarrow> \<exists>q i. lift_pol C r = Inr (q, ri_idx i) \<and> i \<in> S"
  by (auto simp: lift_pol_def)

lemma pol_find_total:
  assumes ok: "pol_ok l w p" and wf: "set_wf l w infos" and co: "\<forall>i\<in>set infos. checkCompatibility p i"
  shows "\<exists>p' i. findBestCandidate p infos = Inr (p', ri_idx i) \<and> i \<in> set infos"
proof (cases p)
  case (Random x)
  with rnd_find_total [of x w l infos] ok wf show ?thesis
    by (auto intro!: lift_pol_total)
next
  case (NMRU x)
  note facts = ok [unfolded NMRU, simplified]
  show ?thesis
  proof (cases "find (\<lambda>i. ri_state i = stI) infos")
    case None
    have "length infos = w" using wf by (simp add: set_wf_def)
    with nmru_pick [OF _ _ _ wf None, of x] facts NMRU show ?thesis
      by (fastforce intro!: lift_pol_total)
  next
    case (Some i)
    then have i: "i \<in> set infos" by (auto simp: find_Some_iff)
    have "length infos = w" using wf by (simp add: set_wf_def)
    with Some facts have "NMRU_findBestCandidate infos x = rnd_pick (ri_idx i) x"
      by (simp add: NMRU_findBestCandidate_def)
    with NMRU i show ?thesis by (auto intro!: lift_pol_total simp: rnd_pick_def)
  qed
qed (use assms set_wf_facts(2) [OF wf] in \<open>auto simp: choose_defs intro!: lift_pol_total
        ts_choose_total [OF wf] lfu_choose_total scan_in_set [OF wf] rank_total\<close>)

text \<open>Every policy provides the contract.\<close>

lemma pol_find_ok:
  assumes "pol_ok l w p" and "findBestCandidate p infos = Inr (p', c)"
  shows "pol_ok l w p' \<and> checkCompatibility p' = checkCompatibility p"
proof (cases p)
  case (Random x)
  with assms show ?thesis by (auto simp: lift_pol_Inr dest: Random_choose_ok)
next
  case (NMRU x)
  with assms show ?thesis by (auto simp: lift_pol_Inr dest: NMRU_choose_ok)
qed (use assms in \<open>auto simp: choose_defs choose_Inr\<close>)

lemma pol_find_invalid:
  assumes "pol_ok l w p" and wf: "set_wf l w infos" and "findBestCandidate p infos = Inr (p', c)"
    and j: "find (\<lambda>i. ri_state i = stI) infos = Some j"
  shows "c = ri_idx j"
proof -
  have "j \<in> set infos" using j by (auto simp: find_Some_iff)
  then have sc: "scast (ri_index j) = ri_idx j" using set_wf_facts(3) [OF wf] by blast
  have len: "length infos = w" using wf by (simp add: set_wf_def)
  show ?thesis
  proof (cases p)
    case (Random x)
    with assms(3) j show ?thesis by (auto simp: lift_pol_Inr Random_findBestCandidate_def rnd_pick_Inr)
  next
    case (NMRU x)
    with assms j len show ?thesis by (auto simp: lift_pol_Inr NMRU_findBestCandidate_def rnd_pick_Inr)
  qed (use assms(3) sc scan_set_invalid [OF _ j] in \<open>auto simp: choose_defs choose_Inr ri_idx_def\<close>)
qed

lemma pol_update_ok: "pol_ok l w p \<Longrightarrow> pol_update i p = Inr p' \<Longrightarrow> pol_ok l w p' \<and> checkCompatibility p' = checkCompatibility p"
  by (cases p) (auto simp: bindE_eq_Inr_iff ts_update_def lfu_update_def nmru_update_def vec_set_def
      split: if_splits)

lemma pol_replaced_ok: "pol_ok l w p \<Longrightarrow> pol_replaced i p = Inr p' \<Longrightarrow> pol_ok l w p' \<and> checkCompatibility p' = checkCompatibility p"
  by (cases p) (auto simp: bindE_eq_Inr_iff ts_replaced_def lfu_replaced_def vec_set_def split: if_splits)

interpretation rp: replacement_policy pol_ok checkCompatibility pol_update pol_replaced findBestCandidate
  by unfold_locales (blast intro: pol_find_total pol_find_invalid dest: pol_find_ok pol_update_ok pol_replaced_ok)+

section \<open>Properties\<close>

text \<open>
  Whatever the policy, a search over a set of the cache returns a line of that set, and an
  invalid line whenever the set has one; the policy stays well formed.
\<close>

theorem candidate_of_set:
  assumes "pol_ok l w p" and "set_wf l w infos" and "\<forall>i\<in>set infos. checkCompatibility p i"
  shows "\<exists>p' i. findBestCandidate p infos = Inr (p', ri_idx i) \<and> i \<in> set infos \<and> pol_ok l w p' \<and>
     (ri_state i = stI \<or> (\<forall>j\<in>set infos. ri_state j \<noteq> stI))"
proof -
  obtain p' i where r: "findBestCandidate p infos = Inr (p', ri_idx i)" "i \<in> set infos"
    using rp.pick_total [OF assms] by blast
  have "pol_ok l w p'" using rp.pick_ok [OF assms(1) r(1)] by blast
  moreover have "ri_state i = stI \<or> (\<forall>j\<in>set infos. ri_state j \<noteq> stI)"
    using rp.evicts_only_when_full [OF assms(1,2) r] set_wf_facts(5) [OF assms(2)] r(2) by metis
  ultimately show ?thesis using r by blast
qed

text \<open>The abstract account of LRU: the step at which each line was last used, zero for never.\<close>

datatype pol_op = Upd u64 | Repl u64

fun run_lru :: "pol_op list \<Rightarrow> TSPolicy \<Rightarrow> TSPolicy res" where
  "run_lru [] p = Inr p"
| "run_lru (Upd i # ops) p = bindE (ts_update i p) (run_lru ops)"
| "run_lru (Repl i # ops) p = bindE (ts_replaced i p) (run_lru ops)"

fun last_use :: "pol_op list \<Rightarrow> nat \<Rightarrow> (nat \<Rightarrow> nat) \<Rightarrow> nat \<Rightarrow> nat" where
  "last_use [] n f = f"
| "last_use (Upd i # ops) n f = last_use ops (Suc n) (f(unat i := n))"
| "last_use (Repl i # ops) n f = last_use ops n (f(unat i := 0))"

definition ts_abs :: "nat \<Rightarrow> (nat \<Rightarrow> nat) \<Rightarrow> TSPolicy \<Rightarrow> bool" where
  "ts_abs n f p \<longleftrightarrow> unat (ts_timestamp p) = n \<and> (\<forall>x < length (ts_array p). unat (ts_array p ! x) = f x)"

lemma ts_abs_update:
  assumes "ts_abs n f p" and "n < 18446744073709551615" and "ts_update i p = Inr p'"
  shows "ts_abs (Suc n) (f(unat i := n)) p' \<and> length (ts_array p') = length (ts_array p)"
proof -
  have "unat (ts_timestamp p + 1) = Suc n"
    using assms(1,2) by (simp add: ts_abs_def unat_add_u64)
  with assms show ?thesis
    by (auto simp: ts_abs_def ts_update_def vec_set_def bindE_eq_Inr_iff nth_list_update split: if_splits)
qed

lemma ts_abs_replaced:
  "ts_abs n f p \<Longrightarrow> ts_replaced i p = Inr p' \<Longrightarrow>
     ts_abs n (f(unat i := 0)) p' \<and> length (ts_array p') = length (ts_array p)"
  by (auto simp: ts_abs_def ts_replaced_def vec_set_def bindE_eq_Inr_iff nth_list_update split: if_splits)

lemma run_lru_abs:
  assumes "ts_abs n f p" and "n + length ops < 18446744073709551616" and "run_lru ops p = Inr p'"
  shows "(\<forall>x < length (ts_array p). unat (ts_array p' ! x) = last_use ops n f x)
     \<and> length (ts_array p') = length (ts_array p)"
  using assms
proof (induction ops arbitrary: n f p rule: list.induct)
  case Nil
  then show ?case by (simp add: ts_abs_def)
next
  case (Cons x ops)
  show ?case
  proof (cases x)
    case (Upd i)
    with Cons.prems obtain q where q: "ts_update i p = Inr q" "run_lru ops q = Inr p'"
      by (auto simp: bindE_eq_Inr_iff)
    have "n < 18446744073709551615" using Cons.prems(2) by simp
    from ts_abs_update [OF Cons.prems(1) this q(1)] Cons.IH [of "Suc n" "f(unat i := n)" q] q Cons.prems(2) Upd
    show ?thesis by (simp del: fun_upd_apply)
  next
    case (Repl i)
    with Cons.prems obtain q where q: "ts_replaced i p = Inr q" "run_lru ops q = Inr p'"
      by (auto simp: bindE_eq_Inr_iff)
    from ts_abs_replaced [OF Cons.prems(1) q(1)] Cons.IH [of n "f(unat i := 0)" q] q Cons.prems(2) Repl
    show ?thesis by (simp del: fun_upd_apply)
  qed
qed

lemma LRU_least:
  assumes "length (ts_array p) = l" and wf: "set_wf l w infos" and "\<forall>i\<in>set infos. ri_state i \<noteq> stI"
  shows "\<exists>p' i. LRU_findBestCandidate infos p = Inr (p', ri_idx i) \<and> i \<in> set infos \<and>
     (\<forall>j\<in>set infos. ts_array p ! unat (ri_idx i) \<le> ts_array p ! unat (ri_idx j))"
proof -
  let ?rk = "\<lambda>i. ts_array p ! unat (ri_idx i)"
  have "\<exists>i\<in>set infos. scan_set (\<lambda>i. vec_get (ts_array p) (ri_idx i)) (\<lambda>c b. c < b) infos = Inr i \<and>
      (\<forall>j\<in>set infos. ?rk i \<le> ?rk j)"
    using assms set_wf_facts(1,2) [OF wf]
    by (intro scan_set_least [where rk = ?rk]) (auto simp: vec_get_def)
  then show ?thesis by (auto simp: LRU_findBestCandidate_def ts_choose_def ri_idx_def)
qed

text \<open>
  C35 LRU as the code has it looks at two things. After any sequence of uses and replacements of a
  fresh policy (fewer than \<open>2^64\<close>), the candidate from a set is an invalid line when the set has
  one; otherwise it is a line whose last use lies furthest back, a line never used since its
  replacement counting as the oldest. Whether a line is owned or shared makes no difference, contrary
  to the comment on \<open>findBestCandidate\<close>, which says that such lines are kept.
\<close>

theorem LRU_evicts_least_recent:
  assumes "run_lru ops (ts_new l assoc) = Inr p" and "length ops < 18446744073709551615" and "set_wf l w infos"
  shows "\<exists>p' i. findBestCandidate (LRU p) infos = Inr (p', ri_idx i) \<and> i \<in> set infos \<and>
     (if \<exists>j\<in>set infos. ri_state j = stI then ri_state i = stI
      else \<forall>j\<in>set infos. last_use ops 1 (\<lambda>_. 0) (unat (ri_idx i)) \<le> last_use ops 1 (\<lambda>_. 0) (unat (ri_idx j)))"
proof -
  have "ts_abs 1 (\<lambda>_. 0) (ts_new l assoc)" by (simp add: ts_abs_def ts_new_def)
  note abs = run_lru_abs [OF this _ assms(1)]
  have len: "length (ts_array p) = l" using abs assms(2) by (simp add: ts_new_def)
  have a: "unat (ts_array p ! x) = last_use ops 1 (\<lambda>_. 0) x" if "x < l" for x
    using abs assms(2) that by (simp add: ts_new_def)
  show ?thesis
  proof (cases "\<exists>j\<in>set infos. ri_state j = stI")
    case True
    have ok: "pol_ok l w (LRU p)" using len by simp
    moreover have "\<forall>i\<in>set infos. checkCompatibility (LRU p) i" by simp
    ultimately obtain p' i where r: "findBestCandidate (LRU p) infos = Inr (p', ri_idx i)" "i \<in> set infos"
      using rp.pick_total [OF _ assms(3)] by blast
    then have "ri_state i = stI"
      using rp.evicts_only_when_full [OF ok assms(3) r] set_wf_facts(5) [OF assms(3)] True by metis
    then show ?thesis using r True by auto
  next
    case False
    then obtain p' i where r: "LRU_findBestCandidate infos p = Inr (p', ri_idx i)" "i \<in> set infos"
      and le: "\<forall>j\<in>set infos. ts_array p ! unat (ri_idx i) \<le> ts_array p ! unat (ri_idx j)" using LRU_least [OF len assms(3)] by blast
    then show ?thesis
      using set_wf_facts(2) [OF assms(3)] a False by (auto simp: lift_pol_def word_le_nat_alt)
  qed
qed

definition opt_key :: "TSPolicy \<Rightarrow> ReplacementInfo \<Rightarrow> bool \<times> bool \<times> u64" where
  "opt_key p i = (case ri_coh i of None \<Rightarrow> (False, False, 0)
     | Some c \<Rightarrow> (ri_shared c, ri_owned c, ts_array p ! unat (ri_idx i)))"

definition opt_rank :: "TSPolicy \<Rightarrow> ReplacementInfo \<Rightarrow> Rank" where
  "opt_rank p i = \<lparr>rk_timestamp = ts_array p ! unat (ri_idx i), rk_shared = ri_shared (the (ri_coh i)),
     rk_owned = ri_owned (the (ri_coh i)), rk_state = ri_state i\<rparr>"

lemma coh_rank_opt:
  "unat (ri_idx i) < length (ts_array p) \<Longrightarrow> ri_coh i \<noteq> None \<Longrightarrow> coh_rank p i = Inr (opt_rank p i)"
  by (auto simp: coh_rank_def vec_get_def cast_coh_def opt_rank_def)

lemma opt_rank_key:
  assumes "ri_coh i \<noteq> None" and "ri_coh j \<noteq> None"
  shows "LRUOpt_lessThan (opt_rank p i) (opt_rank p j) \<longleftrightarrow> opt_key p i < opt_key p j"
  using assms by (auto simp: LRUOpt_lessThan_def opt_rank_def opt_key_def)

text \<open>
  LRUOpt keeps shared lines first, then owned ones, then recently used ones: among valid
  lines its candidate is least in the lexicographic order of shared, owned and timestamp.
\<close>

theorem LRUOpt_lexicographic:
  assumes "pol_ok l w (LRUOpt p)" and wf: "set_wf l w infos"
    and "\<forall>i\<in>set infos. ri_state i \<noteq> stI \<and> checkCompatibility (LRUOpt p) i"
  shows "\<exists>p' i. findBestCandidate (LRUOpt p) infos = Inr (p', ri_idx i) \<and> i \<in> set infos \<and>
     (\<forall>j\<in>set infos. opt_key p i \<le> opt_key p j)"
proof -
  have "\<exists>i\<in>set infos. scan_set (coh_rank p) LRUOpt_lessThan infos = Inr i \<and>
      (\<forall>j\<in>set infos. opt_key p i \<le> opt_key p j)"
    using assms set_wf_facts(1,2) [OF wf]
    by (intro scan_set_least [where rk = "opt_rank p"])
      (auto simp: opt_rank_key coh_rank_opt)
  then show ?thesis by (auto simp: LRUOpt_findBestCandidate_def ts_choose_def ri_idx_def lift_pol_def)
qed

text \<open>
  NMRU never evicts the most recently used line: right after a line of a full set is used,
  the candidate from that set is another line of the set, whatever number is drawn.
\<close>

theorem NMRU_keeps_most_recent:
  assumes "pol_ok l w (NMRU p)" and wf: "set_wf l w infos" and "\<forall>i\<in>set infos. ri_state i \<noteq> stI"
    and "j \<in> set infos"
  shows "\<exists>p1 p2 i. pol_update (ri_idx j) (NMRU p) = Inr p1 \<and>
     findBestCandidate p1 infos = Inr (p2, ri_idx i) \<and> i \<in> set infos \<and> i \<noteq> j"
proof -
  let ?b = "unat (ri_idx (hd infos))"
  have ok: "unat (rnd_ways p) = w" "2 \<le> w" "length (rnd_array p) = l div w" using assms(1) by auto
  have len: "length infos = w" using wf by (simp add: set_wf_def)
  obtain n where n: "n < w" "j = infos ! n" using assms(4) len by (auto simp: in_set_conv_nth)
  have jn: "unat (ri_idx j) = ?b + n" using set_wf_facts(4) [OF wf n(1)] n(2) by simp
  have bm: "?b mod w = 0" and bw: "?b + w \<le> l" using set_wf_facts(6,7) [OF wf] by auto
  have jw: "unat (ri_idx j) div w = ?b div w" "unat (ri_idx j) mod w = n"
    using jn n(1) bm by (auto simp: div_plus_div_distrib_dvd_left mod_0_imp_dvd mod_add_left_eq [symmetric])
  have lt: "?b div w < l div w"
    using bw bm ok(2) by (metis div_add_self2 div_le_mono le_imp_less_Suc Suc_eq_plus1 less_le_trans lessI not_numeral_le_zero)
  define p1 where "p1 = p\<lparr>rnd_array := (rnd_array p)[?b div w := ri_idx j mod rnd_ways p]\<rparr>"
  have up: "pol_update (ri_idx j) (NMRU p) = Inr (NMRU p1)"
    using ok lt jw by (auto simp: nmru_update_def vec_set_def unat_div p1_def)
  have ok1: "unat (rnd_ways p1) = w" "length (rnd_array p1) = l div w" using ok by (auto simp: p1_def)
  have none: "find (\<lambda>i. ri_state i = stI) infos = None" using assms(3) by (auto simp: find_None_iff)
  from nmru_pick [OF ok1(1) ok(2) ok1(2) wf none] obtain k where k: "k < w"
    "NMRU_findBestCandidate infos p1 = Inr (p1\<lparr>drawn := Suc (drawn p1), rnd_bestCandidate := ri_idx (infos ! k)\<rparr>,
       ri_idx (infos ! k))" "k \<noteq> unat (rnd_array p1 ! (?b div w))" by blast
  have "unat (rnd_array p1 ! (?b div w)) = n"
    using ok lt jw by (simp add: p1_def unat_mod)
  with k n len set_wf_facts(4) [OF wf k(1)] jn have "infos ! k \<noteq> j" by auto
  with k len up show ?thesis by (auto simp: lift_pol_def)
qed

section \<open>Concrete sets\<close>

definition demo_info :: "u32 \<Rightarrow> State \<Rightarrow> bool \<Rightarrow> ReplacementInfo" where
  "demo_info n st sh = \<lparr>ri_index = n, ri_state = st, ri_coh = Some \<lparr>ri_shared = sh, ri_owned = False\<rparr>\<rparr>"

definition demo_set :: "ReplacementInfo list" where
  "demo_set = [demo_info 2 stE True, demo_info 3 stM False]"

definition demo_nmru :: RndPolicy where
  "demo_nmru = \<lparr>rnd_bestCandidate = 0, rnd_ways = 2, rnd_array = [0, 0], gen = (\<lambda>n. of_nat n), drawn = 0\<rparr>"

lemma demo_set_wf: "set_wf 4 2 demo_set"
  by (simp add: set_wf_def demo_set_def demo_info_def Let_def upt_rec)

lemma demo_set_valid: "\<forall>i\<in>set demo_set. ri_state i \<noteq> stI" "\<forall>i\<in>set demo_set. ri_coh i \<noteq> None"
  by (simp_all add: demo_set_def demo_info_def)

lemma demo_lru_ok: "pol_ok 4 2 (LRUOpt (ts_new 4 2))" "pol_ok 4 2 (NMRU demo_nmru)"
  by (simp_all add: ts_new_def demo_nmru_def)

theorem candidate_of_set_witness:
  "\<exists>p' i. findBestCandidate (LRUOpt (ts_new 4 2)) demo_set = Inr (p', ri_idx i) \<and> i \<in> set demo_set"
  using candidate_of_set [OF demo_lru_ok(1) demo_set_wf] demo_set_valid(2) by auto

theorem LRU_evicts_least_recent_witness:
  "\<exists>p p' i. run_lru [Upd 2, Upd 3, Upd 2] (ts_new 4 2) = Inr p \<and>
     findBestCandidate (LRU p) demo_set = Inr (p', ri_idx i) \<and> i \<in> set demo_set \<and>
     (\<forall>j\<in>set demo_set. last_use [Upd 2, Upd 3, Upd 2] 1 (\<lambda>_. 0) (unat (ri_idx i))
        \<le> last_use [Upd 2, Upd 3, Upd 2] 1 (\<lambda>_. 0) (unat (ri_idx j)))"
proof -
  obtain p where p: "run_lru [Upd 2, Upd 3, Upd 2] (ts_new 4 2) = Inr p"
    by (simp add: ts_new_def ts_update_def vec_set_def)
  have "\<not> (\<exists>j\<in>set demo_set. ri_state j = stI)" using demo_set_valid(1) by blast
  with LRU_evicts_least_recent [OF p _ demo_set_wf] p show ?thesis by auto
qed

theorem LRUOpt_lexicographic_witness:
  "\<exists>p' i. findBestCandidate (LRUOpt (ts_new 4 2)) demo_set = Inr (p', ri_idx i) \<and> i \<in> set demo_set \<and>
     (\<forall>j\<in>set demo_set. opt_key (ts_new 4 2) i \<le> opt_key (ts_new 4 2) j)"
  using LRUOpt_lexicographic [OF demo_lru_ok(1) demo_set_wf] demo_set_valid by auto

theorem NMRU_keeps_most_recent_witness:
  "\<exists>p1 p2 i. pol_update (ri_idx (hd demo_set)) (NMRU demo_nmru) = Inr p1 \<and>
     findBestCandidate p1 demo_set = Inr (p2, ri_idx i) \<and> i \<in> set demo_set \<and> i \<noteq> hd demo_set"
proof -
  have "hd demo_set \<in> set demo_set" by (simp add: demo_set_def)
  from NMRU_keeps_most_recent [OF demo_lru_ok(2) demo_set_wf demo_set_valid(1) this] show ?thesis .
qed

end
