(* ===== verification/MemH_Lines.thy ===== *)
theory MemH_Lines
  imports MemH_Replacement
begin

unbundle bit_operations_syntax

text \<open>
  \<^verbatim>\<open>memHierarchy/lineTypes.h\<close>, \<^verbatim>\<open>memHierarchy/hash.h\<close> and the arithmetic of
  \<^verbatim>\<open>memHierarchy/util.h\<close>: the line types of the caches and directories and the hash
  functions that spread lines over sets. A line that owns a \<open>ReplacementInfo\<close> holds it as a
  field; the policies read exactly that object.
\<close>

section \<open>Bit arithmetic\<close>

text \<open>
  \<open>while (temp >>= 1) result++\<close>, for a non-negative \<open>int\<close> (the loop does not end on a
  negative one, so a line size must be below \<open>2^31\<close>).
\<close>

fun log2Of :: "nat \<Rightarrow> nat" where
  "log2Of x = (if x div 2 = 0 then 0 else Suc (log2Of (x div 2)))"

declare log2Of.simps [simp del]

definition isPowerOfTwo :: "u32 \<Rightarrow> bool" where
  "isPowerOfTwo x \<longleftrightarrow> x AND (x - 1) = 0"

section \<open>Hash functions\<close>

definition NoHash :: "u32 \<Rightarrow> u64 \<Rightarrow> u64" where
  "NoHash ident v = v"

definition LinearHash :: "u32 \<Rightarrow> u64 \<Rightarrow> u64" where
  "LinearHash ident x = 1103515245 * x + 12345"

section \<open>Lines with data\<close>

record CacheLine =
  cl_index :: u32
  cl_addr :: Addr
  cl_state :: State
  cl_data :: "u8 list"
  lastSendTimestamp :: u64
  wasPrefetch :: bool
  cl_info :: ReplacementInfo

definition CacheLine_new :: "nat \<Rightarrow> u32 \<Rightarrow> CohInfo option \<Rightarrow> CacheLine" where
  "CacheLine_new sz ix coh = \<lparr>cl_index = ix, cl_addr = 0, cl_state = stI, cl_data = replicate sz 0,
     lastSendTimestamp = 0, wasPrefetch = False,
     cl_info = \<lparr>ri_index = ix, ri_state = stI, ri_coh = coh\<rparr>\<rparr>"

text \<open>\<open>reset\<close> assigns the state directly, without \<open>updateReplacement\<close>.\<close>

definition CacheLine_reset :: "('a CacheLine_scheme) \<Rightarrow> ('a CacheLine_scheme)" where
  "CacheLine_reset l = l\<lparr>cl_state := stI, lastSendTimestamp := 0, wasPrefetch := False\<rparr>"

definition setState :: "State \<Rightarrow> ('a CacheLine_scheme) \<Rightarrow> ('a CacheLine_scheme)" where
  "setState st l = l\<lparr>cl_state := st, cl_info := (cl_info l)\<lparr>ri_state := st\<rparr>\<rparr>"

definition setData :: "u8 list \<Rightarrow> u64 \<Rightarrow> ('a CacheLine_scheme) \<Rightarrow> ('a CacheLine_scheme) res" where
  "setData inp off l = bindE (vec_copy inp (unat (ucast off :: u32)) (cl_data l)) (\<lambda>d. Inr (l\<lparr>cl_data := d\<rparr>))"

definition setTimestamp :: "u64 \<Rightarrow> ('a CacheLine_scheme) \<Rightarrow> ('a CacheLine_scheme)" where
  "setTimestamp t l = l\<lparr>lastSendTimestamp := t\<rparr>"

definition setPrefetch :: "bool \<Rightarrow> ('a CacheLine_scheme) \<Rightarrow> ('a CacheLine_scheme)" where
  "setPrefetch b l = l\<lparr>wasPrefetch := b\<rparr>"

definition setAddr :: "Addr \<Rightarrow> ('a CacheLine_scheme) \<Rightarrow> ('a CacheLine_scheme)" where
  "setAddr a l = l\<lparr>cl_addr := a\<rparr>"

section \<open>L1 lines\<close>

record L1CacheLine = CacheLine +
  userLock :: u32
  LLSCAtomic :: bool
  LLSCAtomicTime :: u64
  eventsWaitingForLock :: bool

definition L1CacheLine_new :: "nat \<Rightarrow> u32 \<Rightarrow> L1CacheLine" where
  "L1CacheLine_new sz ix = CacheLine.extend (CacheLine_new sz ix None)
     (L1CacheLine.fields 0 False 0 False)"

definition L1_reset :: "L1CacheLine \<Rightarrow> L1CacheLine" where
  "L1_reset l = (CacheLine_reset l)\<lparr>userLock := 0, LLSCAtomic := False, LLSCAtomicTime := 0,
     eventsWaitingForLock := False\<rparr>"

definition atomicStart :: "u64 \<Rightarrow> L1CacheLine \<Rightarrow> L1CacheLine" where
  "atomicStart t l = l\<lparr>LLSCAtomic := True, LLSCAtomicTime := t\<rparr>"

definition atomicEnd :: "L1CacheLine \<Rightarrow> L1CacheLine" where
  "atomicEnd l = l\<lparr>LLSCAtomic := False, LLSCAtomicTime := 0\<rparr>"

definition isAtomic :: "L1CacheLine \<Rightarrow> bool" where
  "isAtomic l = LLSCAtomic l"

definition isLocked :: "u64 \<Rightarrow> L1CacheLine \<Rightarrow> bool" where
  "isLocked currentTime l = (if userLock l > 0 then True
     else (if LLSCAtomic l \<and> currentTime < LLSCAtomicTime l then True else False))"

definition incLock :: "L1CacheLine \<Rightarrow> L1CacheLine" where
  "incLock l = l\<lparr>userLock := userLock l + 1\<rparr>"

definition decLock :: "L1CacheLine \<Rightarrow> L1CacheLine" where
  "decLock l = l\<lparr>userLock := userLock l - 1\<rparr>"

section \<open>Lines of shared and private caches\<close>

record SharedCacheLine = CacheLine +
  sc_sharers :: "string list"
  sc_owner :: string

definition coh_upd :: "(CohInfo \<Rightarrow> CohInfo) \<Rightarrow> ('a CacheLine_scheme) \<Rightarrow> ('a CacheLine_scheme)" where
  "coh_upd f l = l\<lparr>cl_info := (cl_info l)\<lparr>ri_coh := map_option f (ri_coh (cl_info l))\<rparr>\<rparr>"

definition coh_init :: "CohInfo option" where
  "coh_init = Some \<lparr>ri_shared = False, ri_owned = False\<rparr>"

definition SharedCacheLine_new :: "nat \<Rightarrow> u32 \<Rightarrow> SharedCacheLine" where
  "SharedCacheLine_new sz ix = CacheLine.extend (CacheLine_new sz ix coh_init) (SharedCacheLine.fields [] '''')"

definition Shared_reset :: "SharedCacheLine \<Rightarrow> SharedCacheLine" where
  "Shared_reset l = (CacheLine_reset l)\<lparr>sc_sharers := [], sc_owner := ''''\<rparr>"

text \<open>\<open>std::set\<close> of names: a list without duplicates.\<close>

definition sc_addSharer :: "string \<Rightarrow> SharedCacheLine \<Rightarrow> SharedCacheLine" where
  "sc_addSharer s l = coh_upd (\<lambda>c. c\<lparr>ri_shared := True\<rparr>) (l\<lparr>sc_sharers := List.insert s (sc_sharers l)\<rparr>)"

definition sc_removeSharer :: "string \<Rightarrow> SharedCacheLine \<Rightarrow> SharedCacheLine" where
  "sc_removeSharer s l = (let l1 = l\<lparr>sc_sharers := removeAll s (sc_sharers l)\<rparr>
     in coh_upd (\<lambda>c. c\<lparr>ri_shared := sc_sharers l1 \<noteq> []\<rparr>) l1)"

definition sc_isSharer :: "string \<Rightarrow> SharedCacheLine \<Rightarrow> bool" where
  "sc_isSharer s l \<longleftrightarrow> s \<in> set (sc_sharers l)"

definition sc_hasSharers :: "SharedCacheLine \<Rightarrow> bool" where
  "sc_hasSharers l \<longleftrightarrow> sc_sharers l \<noteq> []"

definition sc_hasOtherSharers :: "string \<Rightarrow> SharedCacheLine \<Rightarrow> bool" where
  "sc_hasOtherSharers s l \<longleftrightarrow>
     \<not> (sc_sharers l = [] \<or> (length (sc_sharers l) = 1 \<and> s \<in> set (sc_sharers l)))"

definition sc_hasOwner :: "SharedCacheLine \<Rightarrow> bool" where
  "sc_hasOwner l \<longleftrightarrow> sc_owner l \<noteq> ''''"

definition sc_setOwner :: "string \<Rightarrow> SharedCacheLine \<Rightarrow> SharedCacheLine" where
  "sc_setOwner s l = coh_upd (\<lambda>c. c\<lparr>ri_owned := True\<rparr>) (l\<lparr>sc_owner := s\<rparr>)"

definition sc_removeOwner :: "SharedCacheLine \<Rightarrow> SharedCacheLine" where
  "sc_removeOwner l = coh_upd (\<lambda>c. c\<lparr>ri_owned := False\<rparr>) (l\<lparr>sc_owner := ''''\<rparr>)"

record PrivateCacheLine = CacheLine +
  pc_shared :: bool
  pc_owned :: bool

definition PrivateCacheLine_new :: "nat \<Rightarrow> u32 \<Rightarrow> PrivateCacheLine" where
  "PrivateCacheLine_new sz ix = CacheLine.extend (CacheLine_new sz ix coh_init) (PrivateCacheLine.fields False False)"

definition Private_reset :: "PrivateCacheLine \<Rightarrow> PrivateCacheLine" where
  "Private_reset l = (CacheLine_reset l)\<lparr>pc_shared := False, pc_owned := False\<rparr>"

definition pc_setShared :: "bool \<Rightarrow> PrivateCacheLine \<Rightarrow> PrivateCacheLine" where
  "pc_setShared b l = coh_upd (\<lambda>c. c\<lparr>ri_shared := b\<rparr>) (l\<lparr>pc_shared := b\<rparr>)"

definition pc_setOwned :: "bool \<Rightarrow> PrivateCacheLine \<Rightarrow> PrivateCacheLine" where
  "pc_setOwned b l = coh_upd (\<lambda>c. c\<lparr>ri_owned := b\<rparr>) (l\<lparr>pc_owned := b\<rparr>)"

section \<open>Directory lines\<close>

record DirectoryLine =
  dl_index :: u32
  dl_addr :: Addr
  dl_state :: State
  dl_sharers :: "string list"
  dl_owner :: string
  dl_timestamp :: u64
  dl_prefetch :: bool
  dl_info :: ReplacementInfo

definition DirectoryLine_new :: "u32 \<Rightarrow> DirectoryLine" where
  "DirectoryLine_new ix = \<lparr>dl_index = ix, dl_addr = 0, dl_state = stI, dl_sharers = [], dl_owner = '''',
     dl_timestamp = 0, dl_prefetch = False, dl_info = \<lparr>ri_index = ix, ri_state = stI, ri_coh = coh_init\<rparr>\<rparr>"

definition dl_reset :: "DirectoryLine \<Rightarrow> DirectoryLine" where
  "dl_reset l = l\<lparr>dl_state := stI, dl_sharers := [], dl_owner := '''', dl_timestamp := 0, dl_prefetch := False\<rparr>"

definition dl_setState :: "State \<Rightarrow> DirectoryLine \<Rightarrow> DirectoryLine" where
  "dl_setState st l = l\<lparr>dl_state := st\<rparr>"

definition dl_coh :: "(CohInfo \<Rightarrow> CohInfo) \<Rightarrow> DirectoryLine \<Rightarrow> DirectoryLine" where
  "dl_coh f l = l\<lparr>dl_info := (dl_info l)\<lparr>ri_coh := map_option f (ri_coh (dl_info l))\<rparr>\<rparr>"

definition dl_addSharer :: "string \<Rightarrow> DirectoryLine \<Rightarrow> DirectoryLine" where
  "dl_addSharer s l = dl_coh (\<lambda>c. c\<lparr>ri_shared := True\<rparr>) (l\<lparr>dl_sharers := List.insert s (dl_sharers l)\<rparr>)"

definition dl_removeSharer :: "string \<Rightarrow> DirectoryLine \<Rightarrow> DirectoryLine" where
  "dl_removeSharer s l = (let l1 = l\<lparr>dl_sharers := removeAll s (dl_sharers l)\<rparr>
     in dl_coh (\<lambda>c. c\<lparr>ri_shared := dl_sharers l1 \<noteq> []\<rparr>) l1)"

definition dl_setOwner :: "string \<Rightarrow> DirectoryLine \<Rightarrow> DirectoryLine" where
  "dl_setOwner s l = dl_coh (\<lambda>c. c\<lparr>ri_owned := True\<rparr>) (l\<lparr>dl_owner := s\<rparr>)"

definition dl_removeOwner :: "DirectoryLine \<Rightarrow> DirectoryLine" where
  "dl_removeOwner l = dl_coh (\<lambda>c. c\<lparr>ri_owned := False\<rparr>) (l\<lparr>dl_owner := ''''\<rparr>)"

definition dl_setTimestamp :: "u64 \<Rightarrow> DirectoryLine \<Rightarrow> DirectoryLine" where
  "dl_setTimestamp t l = l\<lparr>dl_timestamp := t\<rparr>"

definition dl_setPrefetch :: "bool \<Rightarrow> DirectoryLine \<Rightarrow> DirectoryLine" where
  "dl_setPrefetch b l = l\<lparr>dl_prefetch := b\<rparr>"

definition dl_setAddr :: "Addr \<Rightarrow> DirectoryLine \<Rightarrow> DirectoryLine" where
  "dl_setAddr a l = l\<lparr>dl_addr := a\<rparr>"

section \<open>Properties\<close>

lemma log2Of_bounds: "0 < x \<Longrightarrow> 2 ^ log2Of x \<le> x \<and> x < 2 ^ Suc (log2Of x)"
proof (induction x rule: log2Of.induct)
  case (1 x)
  show ?case
  proof (cases "x div 2 = 0")
    case True
    with 1(2) show ?thesis by (simp add: log2Of.simps [of x])
  next
    case False
    with 1(1) [OF False] show ?thesis by (simp add: log2Of.simps [of x]) linarith
  qed
qed

lemma log2Of_pow2: "log2Of (2 ^ n) = n"
  by (induction n) (simp_all add: log2Of.simps [of "2 * _"] log2Of.simps [of 1] log2Of.simps [of "Suc 0"])

text \<open>
  The linear hash is injective on 64-bit values, as its comment asks (the multiplier is odd,
  so it has an inverse modulo \<open>2^64\<close>): two different line addresses never collide before the
  reduction to a set number.
\<close>

theorem LinearHash_injective: "LinearHash i x = LinearHash i y \<longleftrightarrow> x = y"
proof
  assume "LinearHash i x = LinearHash i y"
  then have "(1103515245 :: u64) * x = 1103515245 * y" by (simp add: LinearHash_def)
  then have "17850689345304521573 * 1103515245 * x = 17850689345304521573 * 1103515245 * y"
    by (simp only: mult.assoc)
  moreover have "17850689345304521573 * 1103515245 = (1 :: u64)" by simp
  ultimately show "x = y" by (simp only: mult_1)
qed simp

text \<open>Reading a line: what a write left there, and the lock counter.\<close>

lemma setData_read:
  "setData d off l = Inr l' \<Longrightarrow> vec_slice (cl_data l') (unat (ucast off :: u32)) (length d) = Inr d"
  by (auto simp: setData_def bindE_eq_Inr_iff intro: vec_slice_copy)

lemma setData_keeps:
  "setData d off l = Inr l' \<Longrightarrow> cl_addr l' = cl_addr l \<and> cl_state l' = cl_state l \<and>
     cl_info l' = cl_info l \<and> cl_index l' = cl_index l \<and> length (cl_data l') = length (cl_data l)"
  by (auto simp: setData_def bindE_eq_Inr_iff dest: vec_copy_length)

lemma lock_unlock [simp]: "decLock (incLock l) = l"
  by (simp add: incLock_def decLock_def)

lemma line_state_simps [simp]:
  "cl_state (setState st l) = st" "cl_addr (setState st l) = cl_addr l"
  "cl_data (setState st l) = cl_data l" "cl_index (setState st l) = cl_index l"
  "ri_state (cl_info (setState st l)) = st" "ri_index (cl_info (setState st l)) = ri_index (cl_info l)"
  "ri_coh (cl_info (setState st l)) = ri_coh (cl_info l)"
  by (simp_all add: setState_def)

lemma line_other_simps [simp]:
  "cl_state (setTimestamp t l) = cl_state l" "cl_addr (setTimestamp t l) = cl_addr l"
  "cl_data (setTimestamp t l) = cl_data l" "cl_index (setTimestamp t l) = cl_index l" "cl_info (setTimestamp t l) = cl_info l"
  "cl_state (setPrefetch b l) = cl_state l" "cl_addr (setPrefetch b l) = cl_addr l"
  "cl_data (setPrefetch b l) = cl_data l" "cl_index (setPrefetch b l) = cl_index l" "cl_info (setPrefetch b l) = cl_info l"
  "cl_state (atomicStart t m) = cl_state m" "cl_addr (atomicStart t m) = cl_addr m"
  "cl_data (atomicStart t m) = cl_data m" "cl_index (atomicStart t m) = cl_index m" "cl_info (atomicStart t m) = cl_info m"
  "cl_state (atomicEnd m) = cl_state m" "cl_addr (atomicEnd m) = cl_addr m"
  "cl_data (atomicEnd m) = cl_data m" "cl_index (atomicEnd m) = cl_index m" "cl_info (atomicEnd m) = cl_info m"
  "cl_state (incLock m) = cl_state m" "cl_addr (incLock m) = cl_addr m"
  "cl_data (incLock m) = cl_data m" "cl_index (incLock m) = cl_index m" "cl_info (incLock m) = cl_info m"
  "cl_state (decLock m) = cl_state m" "cl_addr (decLock m) = cl_addr m"
  "cl_data (decLock m) = cl_data m" "cl_index (decLock m) = cl_index m" "cl_info (decLock m) = cl_info m"
  by (simp_all add: setTimestamp_def setPrefetch_def atomicStart_def atomicEnd_def incLock_def decLock_def)

text \<open>Every operation of a directory line, as one step.\<close>

inductive dl_step :: "DirectoryLine \<Rightarrow> DirectoryLine \<Rightarrow> bool" where
  "dl_step l (dl_reset l)"
| "dl_step l (dl_setState st l)"
| "dl_step l (dl_addSharer s l)"
| "dl_step l (dl_removeSharer s l)"
| "dl_step l (dl_setOwner s l)"
| "dl_step l (dl_removeOwner l)"
| "dl_step l (dl_setTimestamp t l)"
| "dl_step l (dl_setPrefetch b l)"
| "dl_step l (dl_setAddr a l)"

lemma dl_step_info: "dl_step l l' \<Longrightarrow> ri_state (dl_info l') = ri_state (dl_info l)"
  by (erule dl_step.cases) (simp_all add: dl_reset_def dl_setState_def dl_addSharer_def dl_removeSharer_def
      dl_setOwner_def dl_removeOwner_def dl_coh_def dl_setTimestamp_def dl_setPrefetch_def dl_setAddr_def Let_def)

lemma dl_steps_info: "dl_step\<^sup>*\<^sup>* l l' \<Longrightarrow> ri_state (dl_info l') = ri_state (dl_info l)"
  by (induction rule: rtranclp_induct) (auto dest: dl_step_info)

text \<open>
  A directory line never tells the replacement policy its state: whatever happens to the
  lines of a set after construction, every policy sees them all invalid and returns the
  first way of the set as its candidate, so the configured policy is without effect.
\<close>

theorem directory_always_evicts_first:
  assumes "dl_step\<^sup>*\<^sup>* (DirectoryLine_new (ri_index (dl_info d))) d" and "pol_ok l w p"
    and "set_wf l w (map dl_info (d # ds))" and "findBestCandidate p (map dl_info (d # ds)) = Inr (p', c)"
  shows "c = ri_idx (dl_info d)"
proof -
  have "ri_state (dl_info d) = stI"
    using dl_steps_info [OF assms(1)] by (simp add: DirectoryLine_new_def)
  then show ?thesis using rp.pick_invalid [OF assms(2-4)] by simp
qed

text \<open>The flags a shared line hands to the policies, and what keeps them right.\<close>

definition sc_ok :: "SharedCacheLine \<Rightarrow> bool" where
  "sc_ok l \<longleftrightarrow> ri_coh (cl_info l) = Some \<lparr>ri_shared = sc_hasSharers l, ri_owned = sc_hasOwner l\<rparr>
     \<and> ri_state (cl_info l) = cl_state l"

text \<open>
  The sharer, owner and state operations of a shared line keep the flags the replacement
  policies read equal to the line's own state; \<open>reset\<close> does not, unless the line already was
  invalid with no sharer and no owner.
\<close>

theorem shared_line_flags:
  "(sc_ok l \<longrightarrow> sc_ok (sc_addSharer s l) \<and> sc_ok (sc_removeSharer s l) \<and> sc_ok (sc_removeOwner l) \<and>
      sc_ok (setState st l) \<and> (s \<noteq> [] \<longrightarrow> sc_ok (sc_setOwner s l)) \<and>
      (sc_ok (Shared_reset l) \<longleftrightarrow> cl_state l = stI \<and> \<not> sc_hasSharers l \<and> \<not> sc_hasOwner l))
   \<and> sc_ok (SharedCacheLine_new n i)"
  by (auto simp: sc_ok_def sc_addSharer_def sc_removeSharer_def sc_removeOwner_def sc_setOwner_def setState_def
      coh_upd_def sc_hasSharers_def sc_hasOwner_def Let_def Shared_reset_def CacheLine_reset_def
      SharedCacheLine_new_def CacheLine_new_def coh_init_def CacheLine.defs SharedCacheLine.defs
      List.insert_def)

section \<open>Concrete lines\<close>

definition demo_dir :: "u32 \<Rightarrow> DirectoryLine" where
  "demo_dir n = dl_setState stM (DirectoryLine_new n)"

theorem directory_always_evicts_first_witness:
  "dl_state (demo_dir 2) = stM \<and> dl_state (demo_dir 3) = stM \<and>
   (\<exists>p'. findBestCandidate (LRU (ts_new 4 2)) (map dl_info [demo_dir 2, demo_dir 3]) = Inr (p', 2))"
proof -
  have wf: "set_wf 4 2 (map dl_info [demo_dir 2, demo_dir 3])"
    by (simp add: set_wf_def demo_dir_def dl_setState_def DirectoryLine_new_def Let_def upt_rec)
  have ok: "pol_ok 4 2 (LRU (ts_new 4 2))" by (simp add: ts_new_def)
  obtain p' c where r: "findBestCandidate (LRU (ts_new 4 2)) (map dl_info [demo_dir 2, demo_dir 3]) = Inr (p', c)"
    using rp.pick_total [OF ok wf] by auto
  have "dl_step\<^sup>*\<^sup>* (DirectoryLine_new (ri_index (dl_info (demo_dir 2)))) (demo_dir 2)"
    by (auto simp: demo_dir_def dl_setState_def DirectoryLine_new_def intro!: r_into_rtranclp
        dl_step.intros(2) [of "DirectoryLine_new 2" stM, unfolded dl_setState_def DirectoryLine_new_def, simplified])
  from directory_always_evicts_first [OF this ok wf r] r
  show ?thesis by (simp add: demo_dir_def dl_setState_def DirectoryLine_new_def ri_idx_def)
qed

theorem shared_line_flags_witness:
  "sc_ok (sc_addSharer ''l1'' (SharedCacheLine_new 64 0))"
  using shared_line_flags [of "SharedCacheLine_new 64 0" "''l1''" stS 64 0] by blast

end
