(* ===== verification/MemH_CacheArray.thy ===== *)
theory MemH_CacheArray
  imports MemH_Lines
begin

text \<open>
  \<^verbatim>\<open>memHierarchy/cacheArray.h\<close>: the set-associative array of lines, for the line type
  of the L1 cache. A line pointer is the line's position in \<open>lines_\<close>; the pointers of
  \<open>rInfo\<close> are read through the lines they belong to. The hash function is a field, as the
  subcomponent is a member. Positions are \<open>int\<close> in the source: at most \<open>2^31\<close> lines.
\<close>

section \<open>The array\<close>

record CacheArray =
  numSets :: u32
  numLines :: u32
  associativity :: u32
  lineOffset :: nat
  lineSize :: u32
  replacementMgr :: ReplacementPolicy
  hash_fn :: "u32 \<Rightarrow> u64 \<Rightarrow> u64"
  sliceSize :: Addr
  sliceStep :: Addr
  banks :: u32
  ca_lines :: "L1CacheLine list"

definition CacheArray_new ::
  "u32 \<Rightarrow> u32 \<Rightarrow> u32 \<Rightarrow> ReplacementPolicy \<Rightarrow> (u32 \<Rightarrow> u64 \<Rightarrow> u64) \<Rightarrow> CacheArray res" where
  "CacheArray_new nLines assoc lSize mgr hsh =
     (if nLines = 0 then Inl (Fatal ''CacheArray'')
      else if assoc = 0 then Inl (Fatal ''CacheArray'')
      else let nSets = nLines div assoc in
        if nSets = 0 then Inl (Fatal ''CacheArray'')
        else if nSets * assoc \<noteq> nLines then Inl (Fatal ''CacheArray'')
        else let ls = map (\<lambda>i. L1CacheLine_new (unat lSize) (of_nat i)) [0..<unat nLines] in
          if \<not> checkCompatibility mgr (cl_info (hd ls)) then Inl (Fatal ''CacheArray'')
          else Inr \<lparr>numSets = nSets, numLines = nLines, associativity = assoc,
                lineOffset = log2Of (unat lSize), lineSize = lSize, replacementMgr = mgr, hash_fn = hsh,
                sliceSize = 1, sliceStep = 1, banks = 1, ca_lines = ls\<rparr>)"

definition toLineAddr :: "CacheArray \<Rightarrow> Addr \<Rightarrow> Addr" where
  "toLineAddr c adr =
     (let shift = drop_bit (lineOffset c) adr;
          stepv = shift div sliceStep c;
          offset = shift mod sliceSize c
      in stepv * sliceSize c + offset)"

definition getBankArr :: "CacheArray \<Rightarrow> Addr \<Rightarrow> Addr res" where
  "getBankArr c adr = (if banks c = 0 then Inl DivByZero else Inr (toLineAddr c adr mod ucast (banks c)))"

text \<open>The set an address belongs to, and the first position of the set.\<close>

definition set_of_addr :: "CacheArray \<Rightarrow> Addr \<Rightarrow> nat" where
  "set_of_addr c adr = unat (hash_fn c 0 (toLineAddr c adr) mod ucast (numSets c))"

definition setBegin :: "CacheArray \<Rightarrow> Addr \<Rightarrow> nat" where
  "setBegin c adr = set_of_addr c adr * unat (associativity c)"

fun find_line :: "L1CacheLine list \<Rightarrow> Addr \<Rightarrow> nat \<Rightarrow> nat \<Rightarrow> nat option res" where
  "find_line ls adr i 0 = Inr None"
| "find_line ls adr i (Suc n) =
     (if length ls \<le> i then Inl OutOfRange
      else if cl_addr (ls ! i) = adr then Inr (Some i)
      else find_line ls adr (Suc i) n)"

definition lookup :: "Addr \<Rightarrow> bool \<Rightarrow> CacheArray \<Rightarrow> (CacheArray \<times> nat option) res" where
  "lookup adr updateReplacement c =
     bindE (find_line (ca_lines c) adr (setBegin c adr) (unat (associativity c))) (\<lambda>r.
       case r of None \<Rightarrow> Inr (c, None)
       | Some i \<Rightarrow> if updateReplacement
            then bindE (pol_update (of_nat i) (replacementMgr c)) (\<lambda>mgr.
                   Inr (c\<lparr>replacementMgr := mgr\<rparr>, Some i))
            else Inr (c, Some i))"

definition set_infos :: "CacheArray \<Rightarrow> nat \<Rightarrow> ReplacementInfo list" where
  "set_infos c s = map (\<lambda>j. cl_info (ca_lines c ! (s * unat (associativity c) + j)))
     [0..<unat (associativity c)]"

definition findReplacementCandidate :: "Addr \<Rightarrow> CacheArray \<Rightarrow> (CacheArray \<times> nat) res" where
  "findReplacementCandidate adr c =
     bindE (findBestCandidate (replacementMgr c) (set_infos c (set_of_addr c adr))) (\<lambda>(mgr, ident).
       let i = unat (ucast ident :: u32)
       in if i < length (ca_lines c) then Inr (c\<lparr>replacementMgr := mgr\<rparr>, i) else Inl OutOfRange)"

definition upd_line :: "nat \<Rightarrow> (L1CacheLine \<Rightarrow> L1CacheLine) \<Rightarrow> CacheArray \<Rightarrow> CacheArray" where
  "upd_line i f c = c\<lparr>ca_lines := (ca_lines c)[i := f (ca_lines c ! i)]\<rparr>"

definition line_at :: "CacheArray \<Rightarrow> nat \<Rightarrow> L1CacheLine" where
  "line_at c i = ca_lines c ! i"

definition replace :: "Addr \<Rightarrow> nat \<Rightarrow> CacheArray \<Rightarrow> CacheArray res" where
  "replace adr i c =
     (let index = cl_index (line_at c i) in
      bindE (pol_replaced (ucast index) (replacementMgr c)) (\<lambda>mgr.
      let c1 = upd_line i (\<lambda>l. setAddr adr (L1_reset l)) (c\<lparr>replacementMgr := mgr\<rparr>) in
      bindE (pol_update (ucast index) (replacementMgr c1)) (\<lambda>mgr'.
      Inr (c1\<lparr>replacementMgr := mgr'\<rparr>))))"

definition deallocate :: "nat \<Rightarrow> CacheArray \<Rightarrow> CacheArray res" where
  "deallocate i c =
     bindE (pol_replaced (ucast (cl_index (line_at c i))) (replacementMgr c)) (\<lambda>mgr.
       Inr (upd_line i L1_reset (c\<lparr>replacementMgr := mgr\<rparr>)))"

definition setSliceAwareArr :: "Addr \<Rightarrow> Addr \<Rightarrow> CacheArray \<Rightarrow> CacheArray" where
  "setSliceAwareArr sz stepv c =
     (let ss = drop_bit (lineOffset c) sz; st = drop_bit (lineOffset c) stepv
      in c\<lparr>sliceSize := (if ss = 0 then 1 else ss), sliceStep := (if st = 0 then 1 else st)\<rparr>)"

definition setBanked :: "u32 \<Rightarrow> CacheArray \<Rightarrow> CacheArray" where
  "setBanked n c = c\<lparr>banks := n\<rparr>"

section \<open>Well-formed arrays\<close>

text \<open>
  What the constructor establishes and every operation keeps: the geometry, each line at the
  position its index names, and a policy that fits.
\<close>

definition line_ok :: "u32 \<Rightarrow> nat \<Rightarrow> L1CacheLine \<Rightarrow> bool" where
  "line_ok lsz i l \<longleftrightarrow> unat (cl_index l) = i \<and> ri_index (cl_info l) = cl_index l \<and> ri_coh (cl_info l) = None
     \<and> length (cl_data l) = unat lsz"

definition arr_ok :: "CacheArray \<Rightarrow> bool" where
  "arr_ok c \<longleftrightarrow> 0 < unat (associativity c) \<and> 0 < unat (numSets c) \<and>
     length (ca_lines c) = unat (numSets c) * unat (associativity c) \<and> length (ca_lines c) \<le> 2147483648 \<and>
     (\<forall>i < length (ca_lines c). line_ok (lineSize c) i (ca_lines c ! i)) \<and>
     pol_ok (length (ca_lines c)) (unat (associativity c)) (replacementMgr c) \<and>
     (\<forall>i. ri_coh i = None \<longrightarrow> checkCompatibility (replacementMgr c) i)"

lemma unat_ucast_u64_le: "unat (x mod ucast (n :: u32) :: u64) < unat n" if "n \<noteq> 0"
  using that by (simp add: unat_mod unat_ucast_u32 unat_gt_0)

lemma set_of_addr_lt: "arr_ok c \<Longrightarrow> set_of_addr c a < unat (numSets c)"
  by (auto simp: arr_ok_def set_of_addr_def unat_ucast_u64_le unat_gt_0)

lemma set_bound:
  assumes "arr_ok c" and "s < unat (numSets c)" and "k < unat (associativity c)"
  shows "s * unat (associativity c) + k < length (ca_lines c)"
proof -
  have "s * unat (associativity c) + k < Suc s * unat (associativity c)" using assms(3) by simp
  also have "\<dots> \<le> unat (numSets c) * unat (associativity c)" using assms(2) by (intro mult_le_mono1) simp
  finally show ?thesis using assms(1) by (simp add: arr_ok_def)
qed

lemma find_line_total:
  "i + n \<le> length ls \<Longrightarrow> \<exists>r. find_line ls a i n = Inr r"
  by (induction ls a i n rule: find_line.induct) auto

lemma find_line_None:
  "find_line ls a i n = Inr None \<Longrightarrow> i \<le> j \<Longrightarrow> j < i + n \<Longrightarrow> cl_addr (ls ! j) \<noteq> a"
proof (induction ls a i n rule: find_line.induct)
  case (1 ls a i)
  then show ?case by simp
next
  case (2 ls a i n)
  then show ?case by (cases "j = i") (auto split: if_splits)
qed

lemma find_line_Some:
  "find_line ls a i n = Inr (Some j) \<Longrightarrow>
     i \<le> j \<and> j < i + n \<and> j < length ls \<and> cl_addr (ls ! j) = a \<and> (\<forall>k. i \<le> k \<longrightarrow> k < j \<longrightarrow> cl_addr (ls ! k) \<noteq> a)"
proof (induction ls a i n rule: find_line.induct)
  case (1 ls a i)
  then show ?case by simp
next
  case (2 ls a i n)
  show ?case
  proof (cases "cl_addr (ls ! i) = a")
    case True
    with "2.prems" show ?thesis by (auto split: if_splits)
  next
    case False
    with "2.prems" "2.IH" have "Suc i \<le> j \<and> j < Suc i + n \<and> j < length ls \<and> cl_addr (ls ! j) = a \<and>
        (\<forall>k. Suc i \<le> k \<longrightarrow> k < j \<longrightarrow> cl_addr (ls ! k) \<noteq> a)" by (auto split: if_splits)
    moreover from this False have "cl_addr (ls ! k) \<noteq> a" if "i \<le> k" "k < j" for k
      using that by (cases "k = i") auto
    ultimately show ?thesis by auto
  qed
qed

lemma find_line_intro:
  "j < length ls \<Longrightarrow> i \<le> j \<Longrightarrow> j < i + n \<Longrightarrow> i + n \<le> length ls \<Longrightarrow> cl_addr (ls ! j) = a \<Longrightarrow>
     (\<forall>k. i \<le> k \<longrightarrow> k < j \<longrightarrow> cl_addr (ls ! k) \<noteq> a) \<Longrightarrow> find_line ls a i n = Inr (Some j)"
proof (induction ls a i n rule: find_line.induct)
  case (1 ls a i)
  then show ?case by simp
next
  case (2 ls a i n)
  then show ?case by (cases "j = i") auto
qed

lemma set_infos_wf:
  assumes "arr_ok c" and "s < unat (numSets c)"
  shows "set_wf (length (ca_lines c)) (unat (associativity c)) (set_infos c s)"
    and "\<forall>i\<in>set (set_infos c s). checkCompatibility (replacementMgr c) i"
    and "k < unat (associativity c) \<Longrightarrow> unat (ri_idx (set_infos c s ! k)) = s * unat (associativity c) + k"
proof -
  let ?w = "unat (associativity c)"
  have w: "0 < ?w" "length (ca_lines c) \<le> 2147483648" using assms(1) by (auto simp: arr_ok_def)
  have ln: "line_ok (lineSize c) (s * ?w + k) (ca_lines c ! (s * ?w + k))" if "k < ?w" for k
    using set_bound [OF assms that] assms(1) by (simp add: arr_ok_def)
  have ix: "unat (ri_index (set_infos c s ! k)) = s * ?w + k" if "k < ?w" for k
    using ln [OF that] that by (simp add: set_infos_def line_ok_def)
  have "set_infos c s \<noteq> []" using w by (simp add: set_infos_def)
  then have hd: "unat (ri_index (hd (set_infos c s))) = s * ?w" using ix [of 0] w by (simp add: hd_conv_nth)
  have "s * ?w + (?w - 1) < length (ca_lines c)" using set_bound [OF assms, of "?w - 1"] w by simp
  then have "s * ?w + ?w \<le> length (ca_lines c)" using w(1) by linarith
  then show "set_wf (length (ca_lines c)) ?w (set_infos c s)"
    using w hd ix by (auto simp: set_wf_def Let_def list_all_iff set_infos_def)
  show "\<forall>i\<in>set (set_infos c s). checkCompatibility (replacementMgr c) i"
    using ln assms(1) by (auto simp: set_infos_def arr_ok_def line_ok_def)
  show "k < ?w \<Longrightarrow> unat (ri_idx (set_infos c s ! k)) = s * ?w + k" using ix by (simp add: ri_idx_def unat_ucast_u32)
qed

lemma setBegin_bound:
  assumes "arr_ok c"
  shows "setBegin c a + unat (associativity c) \<le> length (ca_lines c)"
proof -
  have "setBegin c a + (unat (associativity c) - 1) < length (ca_lines c)"
    using set_bound [OF assms set_of_addr_lt [OF assms], of "unat (associativity c) - 1" a] assms
    by (simp add: setBegin_def arr_ok_def)
  moreover have "0 < unat (associativity c)" using assms by (simp add: arr_ok_def)
  ultimately show ?thesis by linarith
qed

lemma lookup_False:
  assumes "arr_ok c"
  shows "\<exists>r. lookup a False c = Inr (c, r) \<and> find_line (ca_lines c) a (setBegin c a) (unat (associativity c)) = Inr r"
  using find_line_total [OF setBegin_bound [OF assms], of a a] by (auto simp: lookup_def split: option.splits)

lemma lookup_Some:
  assumes "lookup a u c = Inr (c', Some i)"
  shows "setBegin c a \<le> i \<and> i < setBegin c a + unat (associativity c) \<and> i < length (ca_lines c) \<and>
     cl_addr (line_at c i) = a \<and> ca_lines c' = ca_lines c"
  using assms by (auto simp: lookup_def bindE_eq_Inr_iff line_at_def split: option.splits if_splits dest!: find_line_Some)

text \<open>Changing lines and policy keeps the array well formed.\<close>

lemma arr_ok_upd_line:
  assumes "arr_ok c" and "\<And>l. line_ok (lineSize c) i l \<Longrightarrow> line_ok (lineSize c) i (f l)"
  shows "arr_ok (upd_line i f c)"
  using assms by (cases "i < length (ca_lines c)") (auto simp: arr_ok_def upd_line_def nth_list_update)

lemma arr_ok_policy:
  assumes "arr_ok c" and "pol_ok (length (ca_lines c)) (unat (associativity c)) mgr"
    and "checkCompatibility mgr = checkCompatibility (replacementMgr c)"
  shows "arr_ok (c\<lparr>replacementMgr := mgr\<rparr>)"
  using assms by (auto simp: arr_ok_def)

lemma arr_pol_ok: "arr_ok c \<Longrightarrow> pol_ok (length (ca_lines c)) (unat (associativity c)) (replacementMgr c)"
  unfolding arr_ok_def by blast

lemma arr_ok_lookup:
  assumes "arr_ok c" and "lookup a u c = Inr (c', r)"
  shows "arr_ok c'"
proof -
  consider "c' = c" | i mgr where "pol_update i (replacementMgr c) = Inr mgr" "c' = c\<lparr>replacementMgr := mgr\<rparr>"
    using assms(2) by (auto simp: lookup_def bindE_eq_Inr_iff split: option.splits if_splits)
  then show ?thesis
    using assms(1) rp.upd_ok [OF arr_pol_ok [OF assms(1)]] arr_ok_policy [OF assms(1)] by cases auto
qed

lemma arr_ok_findReplacementCandidate:
  assumes "arr_ok c" and "findReplacementCandidate a c = Inr (c', i)"
  shows "arr_ok c'"
proof -
  obtain mgr n where "findBestCandidate (replacementMgr c) (set_infos c (set_of_addr c a)) = Inr (mgr, n)"
      "c' = c\<lparr>replacementMgr := mgr\<rparr>"
    using assms(2) by (auto simp: findReplacementCandidate_def bindE_eq_Inr_iff Let_def split: if_splits)
  then show ?thesis
    using rp.pick_ok [OF arr_pol_ok [OF assms(1)]] arr_ok_policy [OF assms(1)] by auto
qed

lemma line_ok_reset: "line_ok z i l \<Longrightarrow> line_ok z i (L1_reset l)" "line_ok z i l \<Longrightarrow> line_ok z i (setAddr a l)"
  by (simp_all add: line_ok_def L1_reset_def CacheLine_reset_def setAddr_def)

lemma pol_refresh:
  assumes "pol_ok l w p" and "unat i < l" and "l mod w = 0" and "0 < w"
  shows "\<exists>p1 p2. pol_replaced i p = Inr p1 \<and> pol_update i p1 = Inr p2"
proof -
  have "unat i div w < l div w" using assms(2-4) by (simp add: div_less_iff_less_mult mod_0_imp_dvd)
  then show ?thesis using assms
    by (cases p) (auto simp: ts_replaced_def ts_update_def lfu_replaced_def lfu_update_def nmru_update_def
        vec_set_def vec_get_def unat_div)
qed

lemma arr_ok_replace:
  assumes "arr_ok c" and "replace a i c = Inr c'"
  shows "arr_ok c'"
proof -
  let ?n = "ucast (cl_index (line_at c i)) :: u64"
  obtain m1 m2 where m: "pol_replaced ?n (replacementMgr c) = Inr m1" "pol_update ?n m1 = Inr m2"
    and c': "c' = (upd_line i (\<lambda>l. setAddr a (L1_reset l)) (c\<lparr>replacementMgr := m1\<rparr>))\<lparr>replacementMgr := m2\<rparr>"
    using assms(2) by (auto simp: replace_def bindE_eq_Inr_iff Let_def upd_line_def)
  have 1: "arr_ok (c\<lparr>replacementMgr := m1\<rparr>)"
    using rp.repl_ok [OF arr_pol_ok [OF assms(1)] m(1)] arr_ok_policy [OF assms(1)] by auto
  have 2: "arr_ok (upd_line i (\<lambda>l. setAddr a (L1_reset l)) (c\<lparr>replacementMgr := m1\<rparr>))"
    by (rule arr_ok_upd_line [OF 1]) (simp add: line_ok_reset)
  show ?thesis
    unfolding c' using rp.upd_ok [OF arr_pol_ok [OF 2], of ?n m2] m(2)
    by (intro arr_ok_policy [OF 2]) (auto simp: upd_line_def)
qed

lemma arr_ok_deallocate:
  assumes "arr_ok c" and "deallocate i c = Inr c'"
  shows "arr_ok c'"
proof -
  obtain m1 where m: "pol_replaced (ucast (cl_index (line_at c i))) (replacementMgr c) = Inr m1"
    and c': "c' = upd_line i L1_reset (c\<lparr>replacementMgr := m1\<rparr>)"
    using assms(2) by (auto simp: deallocate_def bindE_eq_Inr_iff)
  have "arr_ok (c\<lparr>replacementMgr := m1\<rparr>)"
    using rp.repl_ok [OF arr_pol_ok [OF assms(1)] m] arr_ok_policy [OF assms(1)] by auto
  then show ?thesis unfolding c' by (rule arr_ok_upd_line) (simp add: line_ok_reset)
qed

text \<open>The candidate for an address lies in the set of that address, and invalid lines come first.\<close>

lemma candidate_in_set:
  assumes "arr_ok c"
  shows "\<exists>mgr k. findReplacementCandidate a c = Inr (c\<lparr>replacementMgr := mgr\<rparr>, setBegin c a + k) \<and>
     k < unat (associativity c)"
proof -
  let ?s = "set_of_addr c a" and ?w = "unat (associativity c)"
  note wf = set_infos_wf [OF assms set_of_addr_lt [OF assms, of a]]
  obtain mgr i where r: "findBestCandidate (replacementMgr c) (set_infos c ?s) = Inr (mgr, ri_idx i)"
      "i \<in> set (set_infos c ?s)"
    using rp.pick_total [OF arr_pol_ok [OF assms] wf(1,2)] by blast
  then obtain k where k: "k < ?w" "i = set_infos c ?s ! k" by (auto simp: in_set_conv_nth set_infos_def)
  have "unat (ri_idx i) = setBegin c a + k" using wf(3) k by (simp add: setBegin_def)
  then have "unat (ucast (ri_idx i) :: u32) = setBegin c a + k" by (simp add: ri_idx_def unat_ucast_u32 ucast_down_up)
  moreover have "setBegin c a + k < length (ca_lines c)" using setBegin_bound [OF assms, of a] k(1) by simp
  ultimately show ?thesis using r(1) k(1) by (auto simp: findReplacementCandidate_def)
qed

lemma replace_total:
  assumes "arr_ok c" and "i < length (ca_lines c)"
  shows "\<exists>mgr. replace a i c = Inr (upd_line i (\<lambda>l. setAddr a (L1_reset l)) c\<lparr>replacementMgr := mgr\<rparr>)"
proof -
  have l: "line_ok (lineSize c) i (line_at c i)" and w: "length (ca_lines c) mod unat (associativity c) = 0"
      "0 < unat (associativity c)"
    using assms by (auto simp: arr_ok_def line_at_def)
  then have "unat (ucast (cl_index (line_at c i)) :: u64) < length (ca_lines c)"
    using assms(2) by (simp add: unat_ucast_u32 line_ok_def)
  from pol_refresh [OF arr_pol_ok [OF assms(1)] this w] show ?thesis
    by (auto simp: replace_def Let_def upd_line_def)
qed

lemma find_line_other:
  assumes "cl_addr (ls ! j) \<noteq> b" and "cl_addr l \<noteq> b"
  shows "find_line (ls[j := l]) b i n = find_line ls b i n"
proof -
  have "cl_addr (ls[j := l] ! i) = b \<longleftrightarrow> cl_addr (ls ! i) = b" for i
    using assms by (cases "i = j"; cases "j < length ls"; simp add: not_less list_update_beyond)
  then show ?thesis by (induction n arbitrary: i) auto
qed

section \<open>Properties\<close>

text \<open>
  Filling a line: for an address that misses in a well-formed array, the candidate lies in
  the set of the address and replacing it succeeds; afterwards the array is well formed and
  the address hits exactly that line, which is invalid, unlocked and not atomic, while every
  address other than the new and the evicted one is found where it was before.
\<close>

theorem fill_then_hit:
  assumes "arr_ok c" and "lookup a False c = Inr (c, None)"
  shows "\<exists>c1 i c2. findReplacementCandidate a c = Inr (c1, i) \<and> replace a i c1 = Inr c2 \<and> arr_ok c2 \<and>
     lookup a False c2 = Inr (c2, Some i) \<and> cl_state (line_at c2 i) = stI \<and>
     userLock (line_at c2 i) = 0 \<and> \<not> isAtomic (line_at c2 i) \<and>
     (\<forall>b. b = a \<or> b = cl_addr (line_at c i) \<or> (\<exists>r. lookup b False c = Inr (c, r) \<and> lookup b False c2 = Inr (c2, r)))"
proof -
  let ?w = "unat (associativity c)"
  obtain mgr k where c1: "findReplacementCandidate a c = Inr (c\<lparr>replacementMgr := mgr\<rparr>, setBegin c a + k)"
    and k: "k < ?w" using candidate_in_set [OF assms(1)] by blast
  define i where "i = setBegin c a + k"
  define c1 where "c1 = c\<lparr>replacementMgr := mgr\<rparr>"
  have ok1: "arr_ok c1" using arr_ok_findReplacementCandidate [OF assms(1) c1] by (simp add: c1_def)
  have i: "i < length (ca_lines c)" using setBegin_bound [OF assms(1), of a] k by (simp add: i_def)
  obtain m2 where c2: "replace a i c1 = Inr (upd_line i (\<lambda>l. setAddr a (L1_reset l)) c1\<lparr>replacementMgr := m2\<rparr>)"
    using replace_total [OF ok1, of i a] i by (auto simp: c1_def)
  define c2 where "c2 = upd_line i (\<lambda>l. setAddr a (L1_reset l)) c1\<lparr>replacementMgr := m2\<rparr>"
  define l where "l = setAddr a (L1_reset (ca_lines c ! i))"
  have ok2: "arr_ok c2" using arr_ok_replace [OF ok1 c2] by (simp add: c2_def)
  have ls: "ca_lines c2 = (ca_lines c)[i := l]" and geo: "setBegin c2 b = setBegin c b" "associativity c2 = associativity c" for b
    by (simp_all add: c2_def c1_def upd_line_def l_def setBegin_def set_of_addr_def toLineAddr_def)
  have la: "cl_addr l = a" "cl_state l = stI" "userLock l = 0" "\<not> isAtomic l"
    by (simp_all add: l_def setAddr_def L1_reset_def CacheLine_reset_def isAtomic_def)
  have nomatch: "find_line (ca_lines c) a (setBegin c a) ?w = Inr None"
    using lookup_False [OF assms(1), of a] assms(2) by auto
  have "find_line (ca_lines c2) a (setBegin c a) ?w = Inr (Some i)"
    using i k setBegin_bound [OF assms(1), of a] find_line_None [OF nomatch] la(1)
    by (intro find_line_intro) (auto simp: ls i_def)
  then have hit: "lookup a False c2 = Inr (c2, Some i)" by (simp add: lookup_def geo)
  have "\<exists>r. lookup b False c = Inr (c, r) \<and> lookup b False c2 = Inr (c2, r)"
    if "b \<noteq> a" "b \<noteq> cl_addr (line_at c i)" for b
  proof -
    from lookup_False [OF assms(1), of b] obtain r where r: "lookup b False c = Inr (c, r)"
      "find_line (ca_lines c) b (setBegin c b) ?w = Inr r" by blast
    moreover have "find_line (ca_lines c2) b (setBegin c b) ?w = Inr r"
      using that la(1) r(2) by (simp add: ls line_at_def find_line_other)
    ultimately show ?thesis using lookup_False [OF ok2, of b] by (auto simp: geo)
  qed
  moreover have "line_at c2 i = l" using i by (simp add: line_at_def ls)
  ultimately show ?thesis using c1 c2 hit ok2 la unfolding i_def [symmetric] c1_def [symmetric] c2_def [symmetric]
    by blast
qed

text \<open>Line numbers within one slice of a sliced cache.\<close>

definition in_slice :: "CacheArray \<Rightarrow> nat \<Rightarrow> Addr \<Rightarrow> bool" where
  "in_slice c b a \<longleftrightarrow> (let x = unat (drop_bit (lineOffset c) a) mod unat (sliceStep c)
     in b \<le> x \<and> x < b + unat (sliceSize c))"

lemma slice_le:
  fixes s t n :: nat
  assumes "s \<le> t"
  shows "n div t * s + n mod s \<le> n"
proof -
  have le: "n div t * s \<le> n" using assms by (meson div_times_less_eq_dividend le_trans mult_le_mono2)
  then obtain r where r: "n = n div t * s + r" using le_Suc_ex by blast
  then have "n mod s = r mod s" by (metis mod_mult_self3)
  also have "\<dots> \<le> r" by simp
  finally show ?thesis using r by linarith
qed

lemma window_mod:
  fixes A b s u v :: nat
  assumes eq: "(A + u) mod s = (A + v) mod s" and "b \<le> u" "u < b + s" "b \<le> v" "v < b + s"
  shows "u = v"
proof (rule ccontr)
  assume ne: "u \<noteq> v"
  define d where "d = (if u < v then v - u else u - v)"
  have "s dvd d"
    using eq mod_eq_dvd_iff_nat [of "A + u" "A + v" s] mod_eq_dvd_iff_nat [of "A + v" "A + u" s]
    by (simp add: d_def)
  moreover have "0 < d" "d < s" using ne assms(2-5) by (auto simp: d_def)
  ultimately show False by (auto dest: dvd_imp_le)
qed

lemma slice_number:
  fixes s t b x :: nat
  assumes "0 < s" "b + s \<le> t" "b \<le> x mod t" "x mod t < b + s" "b \<le> y mod t" "y mod t < b + s"
    and "x div t * s + x mod s = y div t * s + y mod s"
  shows "x = y"
proof -
  have q: "x div t = y div t"
    using arg_cong [OF assms(7), of "\<lambda>n. n div s"] assms(1) by simp
  then have e1: "x mod s = y mod s" using assms(7) by simp
  have e2: "x mod s = (x div t * t + x mod t) mod s"
    by (rule arg_cong [where f = "\<lambda>z. z mod s"], simp only: div_mult_mod_eq)
  have e3: "y mod s = (x div t * t + y mod t) mod s"
    by (subst q, rule arg_cong [where f = "\<lambda>z. z mod s"], rule div_mult_mod_eq [symmetric])
  have eq: "(x div t * t + x mod t) mod s = (x div t * t + y mod t) mod s"
    by (rule e2 [symmetric, THEN trans, OF trans [OF e1 e3]])
  have "x mod t = y mod t" by (rule window_mod [OF eq assms(3-6)])
  with q show ?thesis by (metis div_mult_mod_eq)
qed

text \<open>
  The lines of one slice get distinct line numbers: two addresses of a slice (the lines
  whose number modulo the step falls in a window of the slice's size) with the same
  \<open>toLineAddr\<close> are in the same line.
\<close>

theorem slice_lines_distinct:
  assumes "0 < sliceSize c" and "b + unat (sliceSize c) \<le> unat (sliceStep c)"
    and "in_slice c b x" and "in_slice c b y" and "toLineAddr c x = toLineAddr c y"
  shows "drop_bit (lineOffset c) x = drop_bit (lineOffset c) y"
proof -
  let ?s = "unat (sliceSize c)" and ?t = "unat (sliceStep c)"
  have num: "unat (toLineAddr c a) = unat (drop_bit (lineOffset c) a) div ?t * ?s + unat (drop_bit (lineOffset c) a) mod ?s"
    if "in_slice c b a" for a
  proof -
    let ?n = "unat (drop_bit (lineOffset c) a)"
    have "?n div ?t * ?s + ?n mod ?s \<le> ?n" using assms(2) by (intro slice_le) simp
    then have bd: "?n div ?t * ?s + ?n mod ?s < 18446744073709551616"
      using unat_u64_lt [of "drop_bit (lineOffset c) a"] by simp
    then show ?thesis
      by (simp add: toLineAddr_def Let_def unat_add_u64 unat_mult_u64 unat_div unat_mod)
  qed
  have eq: "unat (drop_bit (lineOffset c) x) div ?t * ?s + unat (drop_bit (lineOffset c) x) mod ?s =
      unat (drop_bit (lineOffset c) y) div ?t * ?s + unat (drop_bit (lineOffset c) y) mod ?s"
    using num [OF assms(3)] num [OF assms(4)] assms(5) by simp
  have "0 < ?s" using assms(1) by (simp add: word_less_nat_alt)
  then have "unat (drop_bit (lineOffset c) x) = unat (drop_bit (lineOffset c) y)"
    using slice_number [OF _ assms(2) _ _ _ _ eq] assms(3,4) by (simp add: in_slice_def Let_def)
  then show ?thesis by (simp add: word_unat_eq_iff)
qed

section \<open>A concrete array\<close>

definition demo_array :: CacheArray where
  "demo_array = \<lparr>numSets = 2, numLines = 4, associativity = 2, lineOffset = 6, lineSize = 64,
     replacementMgr = LRU (ts_new 4 2), hash_fn = NoHash, sliceSize = 1, sliceStep = 1, banks = 1,
     ca_lines = map (\<lambda>i. L1CacheLine_new 64 (of_nat i)) [0..<4]\<rparr>"

lemma demo_array_new: "CacheArray_new 4 2 64 (LRU (ts_new 4 2)) NoHash = Inr demo_array"
  by (simp add: CacheArray_new_def demo_array_def Let_def log2Of.simps)

lemma demo_array_ok: "arr_ok demo_array"
proof -
  have "line_ok 64 i (L1CacheLine_new 64 (of_nat i))" if "i < 4" for i
    using that by (simp add: line_ok_def L1CacheLine_new_def CacheLine_new_def CacheLine.defs L1CacheLine.defs unat_of_nat)
  then show ?thesis by (simp add: arr_ok_def demo_array_def ts_new_def)
qed

theorem fill_then_hit_witness:
  "lookup 192 False demo_array = Inr (demo_array, None) \<and>
   (\<exists>c1 i c2. findReplacementCandidate 192 demo_array = Inr (c1, i) \<and> replace 192 i c1 = Inr c2 \<and>
      lookup 192 False c2 = Inr (c2, Some i))"
proof -
  have miss: "lookup 192 False demo_array = Inr (demo_array, None)"
  proof -
    obtain r where r: "lookup 192 False demo_array = Inr (demo_array, r)"
        "find_line (ca_lines demo_array) 192 (setBegin demo_array 192) (unat (associativity demo_array)) = Inr r"
      using lookup_False [OF demo_array_ok] by blast
    have "cl_addr (ca_lines demo_array ! j) = 0" if "j < length (ca_lines demo_array)" for j
      using that by (simp add: demo_array_def L1CacheLine_new_def CacheLine_new_def CacheLine.defs L1CacheLine.defs)
    with r show ?thesis by (cases r) (auto dest!: find_line_Some)
  qed
  with fill_then_hit [OF demo_array_ok miss] show ?thesis by blast
qed

theorem slice_lines_distinct_witness:
  "let c = setSliceAwareArr 128 256 demo_array in
   toLineAddr c 64 \<noteq> toLineAddr c 256 \<and> in_slice c 0 64 \<and> in_slice c 0 256"
proof -
  let ?c = "setSliceAwareArr 128 256 demo_array"
  have f: "0 < sliceSize ?c" "0 + unat (sliceSize ?c) \<le> unat (sliceStep ?c)" "in_slice ?c 0 64" "in_slice ?c 0 256"
    "drop_bit (lineOffset ?c) (64 :: Addr) \<noteq> drop_bit (lineOffset ?c) 256"
    by (simp_all add: setSliceAwareArr_def demo_array_def Let_def in_slice_def)
  from slice_lines_distinct [OF f(1-4)] f show ?thesis by (auto simp: Let_def)
qed

end
