(* ===== verification/MemH_Coherence.thy ===== *)
theory MemH_Coherence
  imports MemH_Mshr MemH_CacheArray "HOL-Library.Multiset"
begin

unbundle bit_operations_syntax

text \<open>
  \<^verbatim>\<open>memHierarchy/coherencemgr/coherenceController.h\<close> and
  \<^verbatim>\<open>coherenceController.cc\<close>: the base class of the coherence managers, that is the two
  outgoing event queues with their bandwidth limits, routing to the links, NACKs and their
  back-off, allocation of miss registers, the retry buffer and the request records.
  \<open>Env\<close> holds what does not change during a call: parameters, the answers of the two links
  (\<open>findTargetDestination\<close>, \<open>isReachable\<close>), the simulator core's \<open>generateUniqueId\<close>,
  \<open>NO_ID\<close> and \<open>getCurrentSimCycle\<close>. \<open>Ctl\<close> is the state; it includes the miss registers
  and the cache array the manager owns, and the sequences of events handed to
  \<open>linkUp_->send\<close> and \<open>linkDown_->send\<close>. Statistics, listeners and debug output are left out.
\<close>

section \<open>Data\<close>

record Env =
  cachename :: string
  accessLatency :: u64
  tagLatency :: u64
  mshrLatency :: u64
  lineSizeC :: u64
  maxBytesUp :: u64
  maxBytesDown :: u64
  packetHeaderBytes :: u64
  upFind :: "Addr \<Rightarrow> string"
  downFind :: "Addr \<Rightarrow> string"
  upReachable :: "string \<Rightarrow> bool"
  downReachable :: "string \<Rightarrow> bool"
  uniqueId :: "nat \<Rightarrow> id_type"
  NO_ID :: id_type
  simCycle :: u64
  snoopL1Invs :: bool
  llscBlockCycles :: u64
  protocolState :: State

record Response =
  r_event :: MemEvent
  deliveryTime :: u64
  r_size :: u64

record LatencyStat =
  ls_time :: u64
  ls_cmd :: Command
  missType :: int

definition LatHIT :: int where "LatHIT = 0"
definition LatMISS :: int where "LatMISS = 1"
definition LatINV :: int where "LatINV = 2"
definition LatUPGRADE :: int where "LatUPGRADE = 3"

record Ctl =
  c_mshr :: MSHR
  c_array :: CacheArray
  maxOutstandingPrefetch :: u64
  dropPrefetchLevel :: u64
  outstandingPrefetches :: u64
  timestamp :: u64
  lastLevel :: bool
  silentEvictClean :: bool
  writebackCleanBlocks :: bool
  recvWritebackAck :: bool
  sendWritebackAck :: bool
  cpus :: "string list"
  retryBuffer :: "MemEvent list"
  startTimes :: "(id_type, LatencyStat) stdmap"
  queueDown :: "Response list"
  queueUp :: "Response list"
  sentDown :: "MemEvent list"
  sentUp :: "MemEvent list"
  nextObj :: nat

text \<open>A \<open>new\<close> event takes the next object address.\<close>

definition alloc :: "Ctl \<Rightarrow> nat \<times> Ctl" where
  "alloc s = (nextObj s, s\<lparr>nextObj := Suc (nextObj s)\<rparr>)"

definition new_event :: "Env \<Rightarrow> string \<Rightarrow> Addr \<Rightarrow> Addr \<Rightarrow> Command \<Rightarrow> Ctl \<Rightarrow> MemEvent \<times> Ctl" where
  "new_event env source adr bAddr c s =
     (newMemEvent (nextObj s) (uniqueId env (nextObj s)) (NO_ID env) source adr bAddr c,
      s\<lparr>nextObj := Suc (nextObj s)\<rparr>)"

definition on_mshr :: "(MSHR \<Rightarrow> MSHR res) \<Rightarrow> Ctl \<Rightarrow> Ctl res" where
  "on_mshr f s = bindE (f (c_mshr s)) (\<lambda>m. Inr (s\<lparr>c_mshr := m\<rparr>))"

definition push_retry :: "MemEvent \<Rightarrow> Ctl \<Rightarrow> Ctl" where
  "push_retry ev s = s\<lparr>retryBuffer := retryBuffer s @ [ev]\<rparr>"

section \<open>Construction\<close>

text \<open>\<open>createHashFunction\<close> without a user subcomponent; \<open>xorh\<close> is the xor hash.\<close>

definition createHashFunction :: "(u32 \<Rightarrow> u64 \<Rightarrow> u64) \<Rightarrow> int \<Rightarrow> u32 \<Rightarrow> u64 \<Rightarrow> u64" where
  "createHashFunction xorh hashFunc =
     (let ht = (if hashFunc = 1 then Some LinearHash else None);
          ht' = (if hashFunc = 2 then Some xorh else Some NoHash)
      in case ht' of Some h \<Rightarrow> h | None \<Rightarrow> (case ht of Some h \<Rightarrow> h | None \<Rightarrow> NoHash))"

text \<open>\<open>createReplacementPolicy\<close> without a populated slot; \<open>g\<close> is the sequence of random numbers.\<close>

definition createReplacementPolicy ::
  "(nat \<Rightarrow> u64) \<Rightarrow> u64 \<Rightarrow> u64 \<Rightarrow> string \<Rightarrow> bool \<Rightarrow> ReplacementPolicy res" where
  "createReplacementPolicy g lines assoc policy isL1 =
     (if policy = ''lru'' then Inr (if isL1 then LRU (ts_new (unat lines) assoc) else LRUOpt (ts_new (unat lines) assoc))
      else if policy = ''lfu'' then Inr (if isL1 then LFU (lfu_new (unat lines) assoc) else LFUOpt (lfu_new (unat lines) assoc))
      else if policy = ''mru'' then Inr (if isL1 then MRU (ts_new (unat lines) assoc) else MRUOpt (ts_new (unat lines) assoc))
      else if policy = ''random'' then Inr (Random (rnd_new g assoc))
      else if policy = ''nmru'' then bindE (nmru_new g lines assoc) (\<lambda>p. Inr (NMRU p))
      else Inl (Fatal ''createReplacementPolicy''))"

section \<open>Outgoing queues\<close>

text \<open>
  The reverse scan of \<open>addToOutgoingQueue\<close>: pass the events at the back that leave later and
  go to another address.
\<close>

abbreviation routing :: "Response \<Rightarrow> Addr" where
  "routing r \<equiv> baseAddr (r_event r)"

fun insert_back :: "Response \<Rightarrow> Response list \<Rightarrow> Response list" where
  "insert_back r [] = [r]"
| "insert_back r (x # xs) =
     (if deliveryTime r \<ge> deliveryTime x then r # x # xs
      else if routing r = routing x then r # x # xs
      else x # insert_back r xs)"

definition addToOutgoingQueue :: "Response \<Rightarrow> Ctl \<Rightarrow> Ctl" where
  "addToOutgoingQueue r s = s\<lparr>queueDown := rev (insert_back r (rev (queueDown s)))\<rparr>"

definition addToOutgoingQueueUp :: "Response \<Rightarrow> Ctl \<Rightarrow> Ctl" where
  "addToOutgoingQueueUp r s = s\<lparr>queueUp := rev (insert_back r (rev (queueUp s)))\<rparr>"

text \<open>One send loop: the events sent, and the queue left (its front may have lost bytes).\<close>

fun drain :: "u64 \<Rightarrow> u64 \<Rightarrow> u64 \<Rightarrow> Response list \<Rightarrow> MemEvent list \<times> Response list" where
  "drain ts maxBytes bytesLeft [] = ([], [])"
| "drain ts maxBytes bytesLeft (r # q) =
     (if deliveryTime r \<le> ts
      then if maxBytes \<noteq> 0
           then if bytesLeft = 0 then ([], r # q)
                else if bytesLeft \<ge> r_size r
                then (let (out, q') = drain ts maxBytes (bytesLeft - r_size r) q in (r_event r # out, q'))
                else ([], r\<lparr>r_size := r_size r - bytesLeft\<rparr> # q)
           else (let (out, q') = drain ts maxBytes bytesLeft q in (r_event r # out, q'))
      else ([], r # q))"

definition sendOutgoingEvents :: "Env \<Rightarrow> Ctl \<Rightarrow> Ctl \<times> bool" where
  "sendOutgoingEvents env s0 =
     (let s = s0\<lparr>timestamp := timestamp s0 + 1\<rparr>;
          (outD, qD) = drain (timestamp s) (maxBytesDown env) (maxBytesDown env) (queueDown s);
          (outU, qU) = drain (timestamp s) (maxBytesUp env) (maxBytesUp env) (queueUp s);
          st = foldl (\<lambda>m ev. map_erase (responseToID ev) m) (startTimes s) outU
      in (s\<lparr>queueDown := qD, sentDown := sentDown s @ outD, queueUp := qU, sentUp := sentUp s @ outU,
            startTimes := st\<rparr>,
          qD = [] \<and> qU = []))"

definition checkIdle :: "Ctl \<Rightarrow> bool" where
  "checkIdle s \<longleftrightarrow> queueDown s = [] \<and> queueUp s = []"

definition forwardByAddress :: "Env \<Rightarrow> MemEvent \<Rightarrow> u64 \<Rightarrow> Ctl \<Rightarrow> Ctl res" where
  "forwardByAddress env ev ts s =
     (let ev1 = ev\<lparr>ev_src := cachename env\<rparr>; dstD = downFind env (baseAddr ev) in
      if dstD \<noteq> '''' then
        (let ev2 = ev1\<lparr>ev_dst := dstD\<rparr> in
         Inr (addToOutgoingQueue \<lparr>r_event = ev2, deliveryTime = ts,
           r_size = packetHeaderBytes env + of_nat (length (payload ev2))\<rparr> s))
      else (let dstU = upFind env (baseAddr ev) in
        if dstU \<noteq> '''' then
          (let ev2 = ev1\<lparr>ev_dst := dstU\<rparr> in
           Inr (addToOutgoingQueueUp \<lparr>r_event = ev2, deliveryTime = ts,
             r_size = packetHeaderBytes env + of_nat (length (payload ev2))\<rparr> s))
        else Inl (Fatal ''forwardByAddress'')))"

definition forwardByAddress1 :: "Env \<Rightarrow> MemEvent \<Rightarrow> Ctl \<Rightarrow> Ctl res" where
  "forwardByAddress1 env ev s = forwardByAddress env ev (timestamp s + 1) s"

definition forwardByDestination :: "Env \<Rightarrow> MemEvent \<Rightarrow> u64 \<Rightarrow> Ctl \<Rightarrow> Ctl res" where
  "forwardByDestination env ev ts s =
     (let ev1 = ev\<lparr>ev_src := cachename env\<rparr>;
          fwdReq = \<lparr>r_event = ev1, deliveryTime = ts,
            r_size = packetHeaderBytes env + of_nat (length (payload ev1))\<rparr> in
      if upReachable env (ev_dst ev1) then Inr (addToOutgoingQueueUp fwdReq s)
      else if downReachable env (ev_dst ev1) then Inr (addToOutgoingQueue fwdReq s)
      else Inl (Fatal ''forwardByDestination''))"

definition forwardByDestination1 :: "Env \<Rightarrow> MemEvent \<Rightarrow> Ctl \<Rightarrow> Ctl res" where
  "forwardByDestination1 env ev s = forwardByDestination env ev (timestamp s + 1) s"

section \<open>Initialisation events\<close>

datatype Endpoint = EpCPU | EpCache | EpMemory | EpDirectory | EpScratchpad | EpMMIO | EpRoundRobinArbiter

record InitCoherence =
  ic_src :: string
  ic_type :: Endpoint
  ic_inclusive :: bool
  ic_sendWBAck :: bool
  ic_recvWBAck :: bool
  ic_lineSize :: Addr
  ic_tracksPresence :: bool

definition processInitCoherenceEvent :: "InitCoherence \<Rightarrow> bool \<Rightarrow> Ctl \<Rightarrow> Ctl" where
  "processInitCoherenceEvent ev source s =
     (let s1 = (if \<not> source \<and> ic_type ev \<noteq> EpMemory then s\<lparr>lastLevel := False\<rparr> else s);
          s2 = (if \<not> source \<and> (ic_tracksPresence ev \<or> lastLevel s1) then s1\<lparr>silentEvictClean := False\<rparr> else s1);
          s3 = (if \<not> source \<and> \<not> ic_inclusive ev then s2\<lparr>writebackCleanBlocks := True\<rparr> else s2);
          s4 = (if \<not> source \<and> ic_sendWBAck ev then s3\<lparr>recvWritebackAck := True\<rparr> else s3);
          s5 = (if source \<and> ic_recvWBAck ev then s4\<lparr>sendWritebackAck := True\<rparr> else s4)
      in if source \<and> (ic_type ev = EpCPU \<or> ic_type ev = EpMMIO)
         then s5\<lparr>cpus := List.insert (ic_src ev) (cpus s5)\<rparr> else s5)"

section \<open>Messages\<close>

text \<open>
  \<open>forwardMessage\<close>: \<open>LAST_CMD\<close> as \<open>fwdCmd\<close> keeps the event's command, \<open>None\<close> is a null
  \<open>data\<close>. The result includes the delivery time.
\<close>

definition forwardMessage ::
  "Env \<Rightarrow> MemEvent \<Rightarrow> u32 \<Rightarrow> u64 \<Rightarrow> u8 list option \<Rightarrow> Command \<Rightarrow> Ctl \<Rightarrow> (Ctl \<times> u64) res" where
  "forwardMessage env ev requestSize baseTime data fwdCmd s =
     (let (p, s1) = alloc s;
          f0 = copyEvent p ev;
          f1 = (if fwdCmd \<noteq> LAST_CMD then f0\<lparr>cmd := fwdCmd\<rparr> else f0);
          f2 = (if data = None then f1\<lparr>ev_size := 0, payload := []\<rparr> else f1);
          f3 = f2\<lparr>ev_size := requestSize\<rparr>;
          f4 = (case data of None \<Rightarrow> f3 | Some d \<Rightarrow> setPayload d f3);
          bt = (if baseTime < timestamp s1 then timestamp s1 else baseTime);
          (f5, dt) = (if queryFlag F_NONCACHEABLE ev
                      then (setFlag F_NONCACHEABLE f4, timestamp s1 + mshrLatency env)
                      else (f4, bt + tagLatency env))
      in bindE (forwardByAddress env f5 dt s1) (\<lambda>s2. Inr (s2, dt)))"

definition sendNACK :: "Env \<Rightarrow> MemEvent \<Rightarrow> Ctl \<Rightarrow> Ctl res" where
  "sendNACK env ev s =
     (let (p, s1) = alloc s
      in forwardByDestination env (makeNACKResponse p ev ev) (timestamp s1 + tagLatency env) s1)"

definition backoff :: "MemEvent \<Rightarrow> u64" where
  "backoff ev = (let n = (if retries ev > 10 then 10 else retries ev) in push_bit (nat n) 1)"

definition resendEvent :: "Env \<Rightarrow> MemEvent \<Rightarrow> Ctl \<Rightarrow> Ctl res" where
  "resendEvent env ev s =
     forwardByDestination env (ev\<lparr>retries := retries ev + 1\<rparr>)
       (timestamp s + mshrLatency env + backoff ev) s"

definition sendResponseUpCtl ::
  "Env \<Rightarrow> MemEvent \<Rightarrow> Command \<Rightarrow> u8 list option \<Rightarrow> bool \<Rightarrow> bool \<Rightarrow> u64 \<Rightarrow> bool \<Rightarrow> Ctl \<Rightarrow> (Ctl \<times> u64) res" where
  "sendResponseUpCtl env ev c data isDirty replay baseTime succ s =
     (let (p, s1) = alloc s;
          r0 = (makeResponse p ev)\<lparr>cmd := c\<rparr>;
          r1 = r0\<lparr>ev_size := ev_size ev\<rparr>;
          r2 = (case data of None \<Rightarrow> r1 | Some d \<Rightarrow> setPayload d r1);
          r3 = r2\<lparr>ev_dirty := isDirty\<rparr>;
          r4 = (if \<not> succ then setFail r3 else r3);
          bt = (if baseTime < timestamp s1 then timestamp s1 else baseTime);
          dt = bt + (if replay then mshrLatency env else accessLatency env)
      in bindE (forwardByDestination env r4 dt s1) (\<lambda>s2. Inr (s2, dt)))"

text \<open>\<open>dropPrefetchLevel_ <= mshr_->getSize()\<close> compares a \<open>size_t\<close> with an \<open>int\<close>.\<close>

definition allocateMSHR :: "Env \<Rightarrow> MemEvent \<Rightarrow> bool \<Rightarrow> int \<Rightarrow> bool \<Rightarrow> Ctl \<Rightarrow> Ctl \<times> MemEventStatus" where
  "allocateMSHR env ev fwdReq pos stallEvict s =
     (if prefetch ev \<and> rqstr ev = cachename env \<and> dropPrefetchLevel s \<le> of_int (getSize (c_mshr s))
      then (s, Reject)
      else if prefetch ev \<and> rqstr ev = cachename env \<and> maxOutstandingPrefetch s \<le> outstandingPrefetches s
      then (s, Reject)
      else let (m, end_pos) = insertEvent (simCycle env) (baseAddr ev) ev pos fwdReq stallEvict (c_mshr s);
               s1 = s\<lparr>c_mshr := m\<rparr>
           in if end_pos = -1 then (s1, Reject)
              else let s2 = (if prefetch ev then s1\<lparr>outstandingPrefetches := outstandingPrefetches s1 + 1\<rparr> else s1)
                   in if end_pos \<noteq> 0 then (s2, Stall) else (s2, OK))"

section \<open>Request records\<close>

text \<open>\<open>std::map::insert\<close> keeps an existing entry.\<close>

definition recordIncomingRequest :: "MemEvent \<Rightarrow> Ctl \<Rightarrow> Ctl" where
  "recordIncomingRequest ev s =
     (if map_find (startTimes s) (eventID ev) = None
      then s\<lparr>startTimes := map_set (eventID ev)
             \<lparr>ls_time = timestamp s, ls_cmd = cmd ev, missType = -1\<rparr> (startTimes s)\<rparr>
      else s)"

definition removeRequestRecord :: "id_type \<Rightarrow> Ctl \<Rightarrow> Ctl" where
  "removeRequestRecord i s = s\<lparr>startTimes := map_erase i (startTimes s)\<rparr>"

definition recordLatencyType :: "id_type \<Rightarrow> int \<Rightarrow> Ctl \<Rightarrow> Ctl" where
  "recordLatencyType i t s = (case map_find (startTimes s) i of None \<Rightarrow> s
     | Some l \<Rightarrow> s\<lparr>startTimes := map_set i (l\<lparr>missType := t\<rparr>) (startTimes s)\<rparr>)"

definition recordMiss :: "id_type \<Rightarrow> Ctl \<Rightarrow> Ctl" where
  "recordMiss i s = recordLatencyType i LatMISS s"

definition recordPrefetchLatency :: "id_type \<Rightarrow> Ctl \<Rightarrow> Ctl" where
  "recordPrefetchLatency i s = (case map_find (startTimes s) i of None \<Rightarrow> s
     | Some l \<Rightarrow> s\<lparr>startTimes := map_erase i (startTimes s)\<rparr>)"

section \<open>Properties of the queues\<close>

lemma mset_insert_back [simp]: "mset (insert_back r q) = add_mset r (mset q)"
  by (induction q) auto

lemma set_insert_back [simp]: "set (insert_back r q) = insert r (set q)"
  by (induction q) auto

lemma filter_insert_back:
  "filter (\<lambda>x. routing x = a) (insert_back r q) =
     (if routing r = a then r # filter (\<lambda>x. routing x = a) q else filter (\<lambda>x. routing x = a) q)"
  by (induction q) auto

lemma sorted_insert_back:
  assumes "sorted_wrt (\<lambda>x y. deliveryTime y \<le> deliveryTime x) q"
    and "\<forall>x\<in>set q. routing x = routing r \<longrightarrow> deliveryTime x \<le> deliveryTime r"
  shows "sorted_wrt (\<lambda>x y. deliveryTime y \<le> deliveryTime x) (insert_back r q)"
  using assms by (induction q) (auto simp: not_le intro: order.trans order.strict_implies_order)

lemma sorted_wrt_rev_le:
  "sorted_wrt (\<lambda>x y. f x \<le> f y) (rev q) \<longleftrightarrow> sorted_wrt (\<lambda>x y. (f y :: 'k :: linorder) \<le> f x) q"
  by (simp add: sorted_wrt_rev)

text \<open>
  Queueing an event never reorders events to the same address and loses none: for every
  address the events waiting for it are the old ones in their old order, followed by the new
  one if it goes there.
\<close>

theorem outgoing_queue_keeps_order:
  "filter (\<lambda>x. routing x = a) (queueDown (addToOutgoingQueue r s)) =
     filter (\<lambda>x. routing x = a) (queueDown s) @ (if routing r = a then [r] else []) \<and>
   filter (\<lambda>x. routing x = a) (queueUp (addToOutgoingQueueUp r s)) =
     filter (\<lambda>x. routing x = a) (queueUp s) @ (if routing r = a then [r] else []) \<and>
   mset (queueDown (addToOutgoingQueue r s)) = mset (queueDown s) + {#r#} \<and>
   mset (queueUp (addToOutgoingQueueUp r s)) = mset (queueUp s) + {#r#}"
  by (simp add: addToOutgoingQueue_def addToOutgoingQueueUp_def filter_insert_back rev_filter [symmetric])

text \<open>
  The queue stays in order of delivery time as long as no event already waiting for the
  same address leaves later than the new one.
\<close>

theorem outgoing_queue_sorted:
  assumes "sorted_wrt (\<lambda>x y. deliveryTime x \<le> deliveryTime y) (queueDown s)"
    and "\<forall>x\<in>set (queueDown s). routing x = routing r \<longrightarrow> deliveryTime x \<le> deliveryTime r"
  shows "sorted_wrt (\<lambda>x y. deliveryTime x \<le> deliveryTime y) (queueDown (addToOutgoingQueue r s))"
proof -
  have "sorted_wrt (\<lambda>x y. deliveryTime y \<le> deliveryTime x) (rev (queueDown s))"
    using assms(1) by (simp add: sorted_wrt_rev)
  from sorted_insert_back [OF this, of r] assms(2) show ?thesis
    by (simp add: addToOutgoingQueue_def sorted_wrt_rev_le)
qed

lemma drain_split: "drain ts mb bl q = (out, q') \<Longrightarrow> out @ map r_event q' = map r_event q"
  by (induction ts mb bl q arbitrary: out q' rule: drain.induct) (auto split: if_splits prod.splits)

lemma drain_ready:
  "drain ts mb bl q = (out, q') \<Longrightarrow> length out \<le> length (takeWhile (\<lambda>r. deliveryTime r \<le> ts) q)"
  by (induction ts mb bl q arbitrary: out q' rule: drain.induct) (auto split: if_splits prod.splits)

lemma drain_unlimited:
  "drain ts 0 bl q = (map r_event (takeWhile (\<lambda>r. deliveryTime r \<le> ts) q), dropWhile (\<lambda>r. deliveryTime r \<le> ts) q)"
  by (induction q arbitrary: bl) auto

definition queued_bytes :: "Response list \<Rightarrow> nat" where
  "queued_bytes q = sum_list (map (\<lambda>r. unat (r_size r)) q)"

lemma drain_bytes:
  "mb \<noteq> 0 \<Longrightarrow> drain ts mb bl q = (out, q') \<Longrightarrow> queued_bytes q \<le> queued_bytes q' + unat bl"
proof (induction ts mb bl q arbitrary: out q' rule: drain.induct)
  case (1 ts mb bl)
  then show ?case by simp
next
  case (2 ts mb bl r q)
  consider "\<not> deliveryTime r \<le> ts \<or> bl = 0" | "deliveryTime r \<le> ts" "bl \<noteq> 0" "r_size r \<le> bl"
    | "deliveryTime r \<le> ts" "bl \<noteq> 0" "\<not> r_size r \<le> bl" by blast
  then show ?case
  proof cases
    case 1
    with 2 show ?thesis by (auto split: if_splits)
  next
    case c: 2
    obtain o1 q1 where d: "drain ts mb (bl - r_size r) q = (o1, q1)" by force
    from 2(1) [OF c(1) "2.prems"(1) c(2,3) "2.prems"(1) d] c(3) "2.prems" c d show ?thesis
      by (simp add: queued_bytes_def unat_diff_u64 word_le_nat_alt)
  next
    case 3
    then have "unat (r_size r - bl) = unat (r_size r) - unat bl" by (intro unat_diff_u64) simp
    with 3 "2.prems" show ?thesis by (auto simp: queued_bytes_def word_le_nat_alt)
  qed
qed

text \<open>
  Sending: the events handed to a link, followed by those still queued, are the queue as it
  was, so nothing is lost, duplicated or reordered; only events whose delivery time has come
  are sent; without a bandwidth limit all of them up to the first that is not due, and with a
  limit at most that many bytes leave the queue per cycle.
\<close>

theorem sendOutgoingEvents_conserves:
  assumes "sendOutgoingEvents env s = (s', idle)"
  shows "(\<exists>outD outU. sentDown s' = sentDown s @ outD \<and> outD @ map r_event (queueDown s') = map r_event (queueDown s) \<and>
      sentUp s' = sentUp s @ outU \<and> outU @ map r_event (queueUp s') = map r_event (queueUp s) \<and>
      length outD \<le> length (takeWhile (\<lambda>r. deliveryTime r \<le> timestamp s') (queueDown s)) \<and>
      length outU \<le> length (takeWhile (\<lambda>r. deliveryTime r \<le> timestamp s') (queueUp s))) \<and>
    timestamp s' = timestamp s + 1 \<and> idle = checkIdle s' \<and>
    (if maxBytesDown env = 0
     then queueDown s' = dropWhile (\<lambda>r. deliveryTime r \<le> timestamp s') (queueDown s)
     else queued_bytes (queueDown s) \<le> queued_bytes (queueDown s') + unat (maxBytesDown env)) \<and>
    (if maxBytesUp env = 0
     then queueUp s' = dropWhile (\<lambda>r. deliveryTime r \<le> timestamp s') (queueUp s)
     else queued_bytes (queueUp s) \<le> queued_bytes (queueUp s') + unat (maxBytesUp env))"
proof -
  obtain oD qD where D: "drain (timestamp s + 1) (maxBytesDown env) (maxBytesDown env) (queueDown s) = (oD, qD)" by force
  obtain oU qU where U: "drain (timestamp s + 1) (maxBytesUp env) (maxBytesUp env) (queueUp s) = (oU, qU)" by force
  have s': "queueDown s' = qD" "queueUp s' = qU" "sentDown s' = sentDown s @ oD" "sentUp s' = sentUp s @ oU"
      "timestamp s' = timestamp s + 1" "idle = (qD = [] \<and> qU = [])"
    using assms D U by (auto simp: sendOutgoingEvents_def Let_def)
  have "if maxBytesDown env = 0 then qD = dropWhile (\<lambda>r. deliveryTime r \<le> timestamp s + 1) (queueDown s)
     else queued_bytes (queueDown s) \<le> queued_bytes qD + unat (maxBytesDown env)"
    using D drain_bytes [OF _ D] by (auto simp: drain_unlimited)
  moreover have "if maxBytesUp env = 0 then qU = dropWhile (\<lambda>r. deliveryTime r \<le> timestamp s + 1) (queueUp s)
     else queued_bytes (queueUp s) \<le> queued_bytes qU + unat (maxBytesUp env)"
    using U drain_bytes [OF _ U] by (auto simp: drain_unlimited)
  moreover note drain_split [OF D] drain_split [OF U] drain_ready [OF D] drain_ready [OF U]
  ultimately show ?thesis unfolding s' checkIdle_def by blast
qed

text \<open>
  A refused event is sent again after an exponential back-off that doubles with every
  retry and stops at 1024 cycles.
\<close>

theorem backoff_doubles_to_1024:
  assumes "0 \<le> retries ev"
  shows "unat (backoff ev) = 2 ^ min 10 (nat (retries ev))"
proof -
  define n where "n = min 10 (nat (retries ev))"
  have "nat (if retries ev > 10 then 10 else retries ev) = n" using assms by (auto simp: n_def)
  then have "backoff ev = push_bit n 1" by (simp add: backoff_def Let_def)
  then have "backoff ev = of_nat (2 ^ n)" by (simp add: push_bit_eq_mult)
  moreover have "(2 :: nat) ^ n < 2 ^ 64" by (rule power_strict_increasing) (simp_all add: n_def)
  ultimately show ?thesis unfolding n_def [symmetric]
    by (simp only: unat_of_nat) (simp add: mod_less)
qed

lemma createHashFunction_one: "createHashFunction xorh 1 = NoHash"
  by (simp add: createHashFunction_def)

section \<open>Concrete states\<close>

definition demo_env :: Env where
  "demo_env = \<lparr>cachename = ''l1'', accessLatency = 2, tagLatency = 1, mshrLatency = 1, lineSizeC = 64,
     maxBytesUp = 0, maxBytesDown = 16, packetHeaderBytes = 8, upFind = (\<lambda>_. ''''), downFind = (\<lambda>_. ''l2''),
     upReachable = (\<lambda>d. d = ''cpu''), downReachable = (\<lambda>d. d = ''l2''), uniqueId = (\<lambda>n. (of_nat n, 1)),
     NO_ID = (0, -1), simCycle = 0, snoopL1Invs = False, llscBlockCycles = 0, protocolState = stE\<rparr>"

definition demo_ctl :: Ctl where
  "demo_ctl = \<lparr>c_mshr = newMSHR 4, c_array = demo_array, maxOutstandingPrefetch = 2, dropPrefetchLevel = 3,
     outstandingPrefetches = 0, timestamp = 0, lastLevel = False, silentEvictClean = False,
     writebackCleanBlocks = False, recvWritebackAck = False, sendWritebackAck = False, cpus = [''cpu''],
     retryBuffer = [], startTimes = [], queueDown = [], queueUp = [], sentDown = [], sentUp = [], nextObj = 100\<rparr>"

definition demo_resp :: "nat \<Rightarrow> Addr \<Rightarrow> u64 \<Rightarrow> Response" where
  "demo_resp p a t = \<lparr>r_event = demo_event p a GetS, deliveryTime = t, r_size = 12\<rparr>"

theorem outgoing_queue_sorted_witness:
  "sorted_wrt (\<lambda>x y. deliveryTime x \<le> deliveryTime y)
     (queueDown (addToOutgoingQueue (demo_resp 2 128 3) (demo_ctl\<lparr>queueDown := [demo_resp 0 64 1, demo_resp 1 64 5]\<rparr>)))"
  by (rule outgoing_queue_sorted) (auto simp: demo_resp_def demo_ctl_def)

theorem sendOutgoingEvents_conserves_witness:
  "\<exists>s' idle. sendOutgoingEvents demo_env (demo_ctl\<lparr>queueDown := [demo_resp 0 64 1, demo_resp 1 128 1]\<rparr>) = (s', idle) \<and>
     (\<exists>outD. sentDown s' = outD \<and> outD @ map r_event (queueDown s') = [demo_event 0 64 GetS, demo_event 1 128 GetS]) \<and>
     queued_bytes [demo_resp 0 64 1, demo_resp 1 128 1] \<le> queued_bytes (queueDown s') + 16"
proof -
  let ?s = "demo_ctl\<lparr>queueDown := [demo_resp 0 64 1, demo_resp 1 128 1]\<rparr>"
  obtain s' idle where r: "sendOutgoingEvents demo_env ?s = (s', idle)" by force
  from sendOutgoingEvents_conserves [OF r] r show ?thesis
    by (auto simp: demo_ctl_def demo_env_def demo_resp_def)
qed

theorem backoff_doubles_to_1024_witness:
  "unat (backoff (demo_event 0 64 GetS\<lparr>retries := 25\<rparr>)) = 1024"
  using backoff_doubles_to_1024 [of "demo_event 0 64 GetS\<lparr>retries := 25\<rparr>"] by simp

end
