(* ===== verification/MemH_MesiL1.thy ===== *)
theory MemH_MesiL1
  imports MemH_Coherence
begin

text \<open>
  \<^verbatim>\<open>memHierarchy/coherencemgr/MESI_L1.cc\<close>: the MESI/MSI coherence manager of the L1
  cache, every event handler with its helpers. A handler takes the event and whether it is
  retried from a miss register, and returns the new state with the acceptance flag, or the
  fault the code runs into. A line pointer is a position or \<open>None\<close> for null. Statistics,
  listeners and debug records are left out; marking an entry as profiled is kept, since later
  branches read it. A null event put into the retry buffer is a fault at once (the cache
  dereferences it in the next cycle without a test).
\<close>

section \<open>Lines through pointers\<close>

definition the_line :: "Ctl \<Rightarrow> nat \<Rightarrow> L1CacheLine" where
  "the_line s i = line_at (c_array s) i"

definition on_line :: "nat \<Rightarrow> (L1CacheLine \<Rightarrow> L1CacheLine) \<Rightarrow> Ctl \<Rightarrow> Ctl" where
  "on_line i f s = s\<lparr>c_array := upd_line i f (c_array s)\<rparr>"

definition with_line :: "nat option \<Rightarrow> (nat \<Rightarrow> 'a res) \<Rightarrow> 'a res" where
  "with_line l k = (case l of None \<Rightarrow> Inl NullDeref | Some i \<Rightarrow> k i)"

definition state_of :: "Ctl \<Rightarrow> nat option \<Rightarrow> State" where
  "state_of s l = (case l of None \<Rightarrow> stI | Some i \<Rightarrow> cl_state (the_line s i))"

definition lookupL :: "Addr \<Rightarrow> bool \<Rightarrow> Ctl \<Rightarrow> (Ctl \<times> nat option) res" where
  "lookupL adr u s = bindE (lookup adr u (c_array s)) (\<lambda>(c, l). Inr (s\<lparr>c_array := c\<rparr>, l))"

definition write_line :: "nat \<Rightarrow> u8 list \<Rightarrow> u64 \<Rightarrow> Ctl \<Rightarrow> Ctl res" where
  "write_line i d off s = bindE (setData d off (the_line s i)) (\<lambda>l. Inr (on_line i (\<lambda>_. l) s))"

definition recordPrefetchResult :: "nat \<Rightarrow> Ctl \<Rightarrow> Ctl" where
  "recordPrefetchResult i s = (if wasPrefetch (the_line s i) then on_line i (setPrefetch False) s else s)"

section \<open>Sending\<close>

definition sendResponseUp ::
  "Env \<Rightarrow> MemEvent \<Rightarrow> u8 list option \<Rightarrow> bool \<Rightarrow> u64 \<Rightarrow> bool \<Rightarrow> Ctl \<Rightarrow> (Ctl \<times> u64) res" where
  "sendResponseUp env ev data inMSHR time succ s =
     (let (p, s1) = alloc s;
          r0 = makeResponse p ev;
          r1 = (case data of None \<Rightarrow> r0 | Some d \<Rightarrow> (setPayload d r0)\<lparr>ev_size := of_nat (length d)\<rparr>);
          latency = (if data \<noteq> None then accessLatency env else if inMSHR then mshrLatency env else tagLatency env);
          r2 = (if \<not> succ then setFail r1 else r1);
          dt = latency + (if time < timestamp s1 then timestamp s1 else time)
      in bindE (forwardByDestination env r2 dt s1) (\<lambda>s2. Inr (s2, dt)))"

definition sendResponseDown :: "Env \<Rightarrow> MemEvent \<Rightarrow> nat option \<Rightarrow> bool \<Rightarrow> Ctl \<Rightarrow> Ctl res" where
  "sendResponseDown env ev line data s =
     (let (p, s1) = alloc s; r0 = makeResponse p ev in
      bindE (if data then with_line line (\<lambda>i.
               let r1 = setPayload (cl_data (the_line s1 i)) r0
               in Inr (if cl_state (the_line s1 i) = stM then r1\<lparr>ev_dirty := True\<rparr> else r1))
             else Inr r0) (\<lambda>r.
      forwardByDestination env (r\<lparr>ev_size := ucast (lineSizeC env)\<rparr>)
        (timestamp s1 + (if data then accessLatency env else tagLatency env)) s1))"

definition forwardFlush :: "Env \<Rightarrow> MemEvent \<Rightarrow> nat option \<Rightarrow> bool \<Rightarrow> Ctl \<Rightarrow> Ctl res" where
  "forwardFlush env ev line evict s =
     (let (p, s1) = alloc s; f0 = copyEvent p ev in
      bindE (if evict then with_line line (\<lambda>i.
               Inr ((setPayload (cl_data (the_line s1 i)) (f0\<lparr>isEvict := True\<rparr>))
                      \<lparr>ev_dirty := (cl_state (the_line s1 i) = stM)\<rparr>))
             else Inr (f0\<lparr>ev_size := 0, payload := []\<rparr>)) (\<lambda>flush.
      let latency = (if evict then accessLatency env else tagLatency env);
          baseTime = (case line of None \<Rightarrow> timestamp s1
            | Some i \<Rightarrow> if lastSendTimestamp (the_line s1 i) > timestamp s1
                        then lastSendTimestamp (the_line s1 i) else timestamp s1);
          dt = baseTime + latency in
      bindE (forwardByAddress env flush dt s1) (\<lambda>s2.
      Inr (case line of None \<Rightarrow> s2 | Some i \<Rightarrow> on_line i (setTimestamp (dt - 1)) s2))))"

definition sendWriteback :: "Env \<Rightarrow> Command \<Rightarrow> nat \<Rightarrow> bool \<Rightarrow> Ctl \<Rightarrow> Ctl res" where
  "sendWriteback env c i isDirty s =
     (let l = the_line s i;
          (w0, s1) = new_event env (cachename env) (cl_addr l) (cl_addr l) c s;
          w1 = w0\<lparr>ev_size := ucast (lineSizeC env)\<rparr>;
          withData = (isDirty \<or> writebackCleanBlocks s1);
          w2 = (if withData then (setPayload (cl_data l) w1)\<lparr>ev_dirty := isDirty\<rparr> else w1);
          latency = (if withData then accessLatency env else tagLatency env);
          w3 = w2\<lparr>rqstr := cachename env\<rparr>;
          baseTime = (if timestamp s1 > lastSendTimestamp l then timestamp s1 else lastSendTimestamp l);
          dt = baseTime + latency
      in bindE (forwardByAddress env w3 dt s1) (\<lambda>s2. Inr (on_line i (setTimestamp (dt - 1)) s2)))"

primrec snoop_cpus :: "Env \<Rightarrow> MemEvent \<Rightarrow> nat \<Rightarrow> string list \<Rightarrow> Ctl \<Rightarrow> Ctl res" where
  "snoop_cpus env ev i [] s = Inr s"
| "snoop_cpus env ev i (c # cs) s =
     (let (sn, s1) = new_event env (cachename env) (ev_addr ev) (baseAddr ev) Inv s;
          l = the_line s1 i;
          baseTime = (if timestamp s1 > lastSendTimestamp l then timestamp s1 else lastSendTimestamp l)
      in bindE (forwardByDestination env (sn\<lparr>ev_dst := c\<rparr>) (baseTime + tagLatency env) s1)
           (snoop_cpus env ev i cs))"

definition snoopInvalidation :: "Env \<Rightarrow> MemEvent \<Rightarrow> nat option \<Rightarrow> Ctl \<Rightarrow> Ctl res" where
  "snoopInvalidation env ev line s =
     (case line of None \<Rightarrow> Inr s
      | Some i \<Rightarrow> if snoopL1Invs env then snoop_cpus env ev i (cpus s) s else Inr s)"

section \<open>Retries and clean-up\<close>

text \<open>\<open>retryBuffer_.push_back(mshr_->getFrontEvent(addr)); mshr_->addPendingRetry(addr)\<close>\<close>

definition retry_front :: "Addr \<Rightarrow> Ctl \<Rightarrow> Ctl res" where
  "retry_front adr s = bindE (getFrontEvent (c_mshr s) adr) (\<lambda>e.
     case e of None \<Rightarrow> Inl NullDeref
     | Some ev \<Rightarrow> on_mshr (addPendingRetry adr) (push_retry ev s))"

text \<open>One internal eviction event per address waiting for the line at \<open>adr\<close>.\<close>

primrec retry_evictions :: "Env \<Rightarrow> Addr \<Rightarrow> Addr list \<Rightarrow> Ctl \<Rightarrow> Ctl" where
  "retry_evictions env adr [] s = s"
| "retry_evictions env adr (a # as) s =
     (let (ev, s1) = new_event env (cachename env) adr a NULLCMD s
      in retry_evictions env adr as (push_retry ev s1))"

definition cleanUpAfterRequest :: "Env \<Rightarrow> MemEvent \<Rightarrow> bool \<Rightarrow> Ctl \<Rightarrow> Ctl res" where
  "cleanUpAfterRequest env ev inMSHR s =
     (let adr = baseAddr ev in
      bindE (if inMSHR then on_mshr (removeFront adr) s else Inr s) (\<lambda>s.
      if mshr_exists (c_mshr s) adr
      then bindE (getFrontType (c_mshr s) adr) (\<lambda>t.
        if t = METEvent
        then (if \<not> getInProgress (c_mshr s) adr then retry_front adr s else Inr s)
        else if t = METEvict
        then bindE (getEvictPointers (c_mshr s) adr) (\<lambda>ps. Inr (retry_evictions env adr ps s))
        else Inr s)
      else Inr s))"

definition cleanUpAfterResponse :: "Env \<Rightarrow> MemEvent \<Rightarrow> bool \<Rightarrow> Ctl \<Rightarrow> Ctl res" where
  "cleanUpAfterResponse env ev inMSHR s =
     (let adr = baseAddr ev in
      bindE (getFrontType (c_mshr s) adr) (\<lambda>_.
      bindE (on_mshr (removeFront adr) s) (\<lambda>s.
      if mshr_exists (c_mshr s) adr
      then bindE (getFrontType (c_mshr s) adr) (\<lambda>t.
        if t = METEvent
        then (if \<not> getInProgress (c_mshr s) adr then retry_front adr s else Inr s)
        else bindE (getEvictPointers (c_mshr s) adr) (\<lambda>ps. Inr (retry_evictions env adr ps s)))
      else Inr s)))"

definition retry :: "Env \<Rightarrow> Addr \<Rightarrow> Ctl \<Rightarrow> Ctl res" where
  "retry env adr s =
     (if mshr_exists (c_mshr s) adr
      then bindE (getFrontType (c_mshr s) adr) (\<lambda>t.
        if t = METEvent then retry_front adr s
        else bindE (pendingWriteback (c_mshr s) adr) (\<lambda>wb.
          if \<not> wb then bindE (getEvictPointers (c_mshr s) adr) (\<lambda>ps. Inr (retry_evictions env adr ps s))
          else Inr s))
      else Inr s)"

section \<open>Eviction and allocation\<close>

text \<open>
  The cases \<open>S\<close>, \<open>E\<close> and \<open>M\<close> of \<open>handleEviction\<close>; each falls through to the next when
  retries are pending, and the last to the refusal.
\<close>

definition evict_clean :: "Env \<Rightarrow> Command \<Rightarrow> nat \<Rightarrow> Ctl \<Rightarrow> Ctl res" where
  "evict_clean env c i s =
     bindE (if \<not> silentEvictClean s
            then bindE (sendWriteback env c i False s) (\<lambda>s.
                   Inr (if recvWritebackAck s
                        then s\<lparr>c_mshr := insertWriteback (simCycle env) (cl_addr (the_line s i)) False (c_mshr s)\<rparr>
                        else s))
            else Inr s) (\<lambda>s. Inr (on_line i (setState stI) s))"

definition evict_dirty :: "Env \<Rightarrow> nat \<Rightarrow> Ctl \<Rightarrow> Ctl res" where
  "evict_dirty env i s =
     bindE (sendWriteback env PutM i True s) (\<lambda>s.
       let s1 = (if recvWritebackAck s
                 then s\<lparr>c_mshr := insertWriteback (simCycle env) (cl_addr (the_line s i)) False (c_mshr s)\<rparr>
                 else s)
       in Inr (on_line i (setState stI) s1))"

definition handleEviction :: "Env \<Rightarrow> Addr \<Rightarrow> nat option \<Rightarrow> Ctl \<Rightarrow> (Ctl \<times> nat \<times> bool) res" where
  "handleEviction env adr line s =
     bindE (case line of Some i \<Rightarrow> Inr (s, i)
            | None \<Rightarrow> bindE (findReplacementCandidate adr (c_array s)) (\<lambda>(c, i). Inr (s\<lparr>c_array := c\<rparr>, i))) (\<lambda>(s, i).
     let state = cl_state (the_line s i);
         pend = getPendingRetries (c_mshr s) (cl_addr (the_line s i));
         fin = (\<lambda>s. Inr (recordPrefetchResult i (on_line i atomicEnd s), i, True)) in
     if isLocked (timestamp s) (the_line s i) then Inr (s, i, False)
     else if state = stI then Inr (s, i, True)
     else if state = stS \<and> pend = 0 then bindE (evict_clean env PutS i s) fin
     else if (state = stS \<or> state = stE) \<and> pend = 0 then bindE (evict_clean env PutE i s) fin
     else if (state = stS \<or> state = stE \<or> state = stM) \<and> pend = 0 then bindE (evict_dirty env i s) fin
     else Inr (s, i, False))"

definition allocateLine :: "Env \<Rightarrow> MemEvent \<Rightarrow> nat option \<Rightarrow> Ctl \<Rightarrow> (Ctl \<times> nat option) res" where
  "allocateLine env ev line s =
     bindE (handleEviction env (baseAddr ev) line s) (\<lambda>(s, i, evicted).
     if evicted
     then bindE (replace (baseAddr ev) i (c_array s)) (\<lambda>c. Inr (s\<lparr>c_array := c\<rparr>, Some i))
     else bindE (on_mshr (insertEviction (simCycle env) (cl_addr (the_line s i)) (baseAddr ev)) s) (\<lambda>s.
            Inr (s, None)))"

definition processCacheMiss :: "Env \<Rightarrow> MemEvent \<Rightarrow> nat option \<Rightarrow> bool \<Rightarrow> Ctl \<Rightarrow> (Ctl \<times> MemEventStatus) res" where
  "processCacheMiss env ev line inMSHR s =
     bindE (if inMSHR
            then bindE (getFrontEvent (c_mshr s) (baseAddr ev)) (\<lambda>f.
                   Inr (s, case f of None \<Rightarrow> Stall | Some front \<Rightarrow> if evPtr front = evPtr ev then OK else Stall))
            else Inr (allocateMSHR env ev False (-1) False s)) (\<lambda>(s, status).
     if status = OK \<and> line = None
     then bindE (allocateLine env ev line s) (\<lambda>(s, l). Inr (s, if l = None then Stall else OK))
     else Inr (s, status))"

section \<open>Requests\<close>

text \<open>The two guards around the statistics: a miss marks the entry, a hit only tests it.\<close>

definition profile_miss :: "MemEvent \<Rightarrow> int \<Rightarrow> Ctl \<Rightarrow> Ctl res" where
  "profile_miss ev lat s = bindE (getProfiled (c_mshr s) (baseAddr ev)) (\<lambda>p.
     if \<not> p then on_mshr (setProfiled (baseAddr ev)) (recordLatencyType (eventID ev) lat s) else Inr s)"

definition profile_hit :: "MemEvent \<Rightarrow> bool \<Rightarrow> int \<Rightarrow> Ctl \<Rightarrow> Ctl res" where
  "profile_hit ev inMSHR lat s =
     bindE (if \<not> inMSHR then Inr False else getProfiled (c_mshr s) (baseAddr ev)) (\<lambda>p.
     Inr (if \<not> p then recordLatencyType (eventID ev) lat s else s))"

definition begin_retry :: "Addr \<Rightarrow> bool \<Rightarrow> Ctl \<Rightarrow> Ctl res" where
  "begin_retry adr inMSHR s = (if inMSHR then on_mshr (removePendingRetry adr) s else Inr s)"

text \<open>After a miss is allocated: forward the request and put the line in a transient state.\<close>

definition issue_miss :: "Env \<Rightarrow> MemEvent \<Rightarrow> Command \<Rightarrow> nat option \<Rightarrow> State \<Rightarrow> Ctl \<Rightarrow> Ctl res" where
  "issue_miss env ev fwdCmd line st s =
     bindE (forwardMessage env ev (ucast (lineSizeC env)) 0 None fwdCmd s) (\<lambda>(s, sendTime).
     with_line line (\<lambda>i.
     on_mshr (setInProgress (baseAddr ev) True) (on_line i (\<lambda>l. setTimestamp sendTime (setState st l)) s)))"

definition accepted :: "MemEventStatus \<Rightarrow> bool" where
  "accepted st \<longleftrightarrow> st \<noteq> Reject"

definition stall_default :: "Env \<Rightarrow> MemEvent \<Rightarrow> bool \<Rightarrow> Ctl \<Rightarrow> (Ctl \<times> bool) res" where
  "stall_default env ev inMSHR s =
     (if \<not> inMSHR then (let (s1, st) = allocateMSHR env ev False (-1) False s in Inr (s1, accepted st))
      else Inr (s, True))"

definition handleGetS :: "Env \<Rightarrow> MemEvent \<Rightarrow> bool \<Rightarrow> Ctl \<Rightarrow> (Ctl \<times> bool) res" where
  "handleGetS env ev inMSHR s =
     (let adr = baseAddr ev; localPrefetch = (prefetch ev \<and> rqstr ev = cachename env) in
      bindE (lookupL adr True s) (\<lambda>(s, line).
      let state = state_of s line in
      bindE (begin_retry adr inMSHR s) (\<lambda>s.
      if state = stI then
        bindE (processCacheMiss env ev line inMSHR s) (\<lambda>(s, status).
        if status = OK then
          bindE (lookupL adr False s) (\<lambda>(s, line).
          bindE (profile_miss ev LatMISS s) (\<lambda>s.
          bindE (issue_miss env ev LAST_CMD line stIS s) (\<lambda>s. Inr (s, True))))
        else Inr (recordMiss (eventID ev) s, accepted status))
      else if state = stS \<or> state = stE \<or> state = stM then
        with_line line (\<lambda>i.
        bindE (profile_hit ev inMSHR LatHIT s) (\<lambda>s.
        if localPrefetch then
          bindE (cleanUpAfterRequest env ev inMSHR (recordPrefetchLatency (eventID ev) s)) (\<lambda>s. Inr (s, True))
        else
          (let s = recordPrefetchResult i s;
               s = (if isLoadLink ev then on_line i (atomicStart (timestamp s + llscBlockCycles env)) s else s) in
           bindE (vec_slice (cl_data (the_line s i)) (unat (ev_addr ev - baseAddr ev)) (unat (ev_size ev))) (\<lambda>d.
           bindE (sendResponseUp env ev (Some d) inMSHR (lastSendTimestamp (the_line s i)) True s) (\<lambda>(s, t).
           bindE (cleanUpAfterRequest env ev inMSHR (on_line i (setTimestamp (t - 1)) s)) (\<lambda>s.
           Inr (s, True)))))))
      else stall_default env ev inMSHR s)))"

text \<open>The last level may upgrade a shared line by itself.\<close>

definition upgrade_last :: "nat option \<Rightarrow> Ctl \<Rightarrow> (Ctl \<times> State) res" where
  "upgrade_last line s =
     (if state_of s line = stS \<and> lastLevel s
      then with_line line (\<lambda>i. Inr (on_line i (setState stM) s, stM))
      else Inr (s, state_of s line))"

text \<open>
  A write into line \<open>i\<close> unless it is a store-conditional without reservation. Any write ends
  the reservation. The result has the event (whose payload \<open>getPayload\<close> may have lengthened)
  and whether the write happened.
\<close>

definition store_bytes :: "MemEvent \<Rightarrow> Addr \<Rightarrow> nat \<Rightarrow> Ctl \<Rightarrow> (MemEvent \<times> bool \<times> Ctl) res" where
  "store_bytes ev adr i s =
     (if \<not> isStoreConditional ev \<or> isAtomic (the_line s i)
      then bindE (write_line i (getPayload ev) (ev_addr ev - adr) s) (\<lambda>s.
             Inr (resizePayload ev, True, on_line i atomicEnd s))
      else Inr (ev, False, s))"

definition handleGetX :: "Env \<Rightarrow> MemEvent \<Rightarrow> bool \<Rightarrow> Ctl \<Rightarrow> (Ctl \<times> bool) res" where
  "handleGetX env ev inMSHR s =
     (let adr = baseAddr ev in
      bindE (lookupL adr True s) (\<lambda>(s, line).
      bindE (begin_retry adr inMSHR s) (\<lambda>s.
      bindE (upgrade_last line s) (\<lambda>(s, state).
      if state = stI then
        bindE (processCacheMiss env ev line inMSHR s) (\<lambda>(s, status).
        if status = OK then
          bindE (lookupL adr False s) (\<lambda>(s, line).
          bindE (profile_miss ev LatMISS s) (\<lambda>s.
          bindE (issue_miss env ev GetX line stIM s) (\<lambda>s. Inr (s, True))))
        else Inr (recordMiss (eventID ev) s, accepted status))
      else if state = stS then
        bindE (processCacheMiss env ev line inMSHR s) (\<lambda>(s, status).
        if status = OK then
          bindE (profile_miss ev LatUPGRADE s) (\<lambda>s.
          with_line line (\<lambda>i.
          bindE (issue_miss env ev GetX line stSM (recordPrefetchResult i s)) (\<lambda>s. Inr (s, True))))
        else Inr (s, accepted status))
      else if state = stE \<or> state = stM then
        with_line line (\<lambda>i.
        let s = (if state = stE then on_line i (setState stM) s else s);
            s = recordPrefetchResult i s in
        bindE (profile_hit ev inMSHR LatHIT s) (\<lambda>s.
        bindE (store_bytes ev (baseAddr ev) i s) (\<lambda>(ev, succ, s).
        let s = (if queryFlag F_LOCKED ev then on_line i decLock s else s) in
        bindE (sendResponseUp env ev None inMSHR (lastSendTimestamp (the_line s i)) succ s) (\<lambda>(s, t).
        bindE (cleanUpAfterRequest env ev inMSHR (on_line i (setTimestamp (t - 1)) s)) (\<lambda>s.
        Inr (s, True))))))
      else stall_default env ev inMSHR s))))"

definition handleWrite :: "Env \<Rightarrow> MemEvent \<Rightarrow> bool \<Rightarrow> Ctl \<Rightarrow> (Ctl \<times> bool) res" where
  "handleWrite env ev inMSHR s = handleGetX env ev inMSHR s"

text \<open>
  In the miss case the line is not looked up again, and in the hit case the bytes are copied
  to the start of an empty vector.
\<close>

definition handleGetSX :: "Env \<Rightarrow> MemEvent \<Rightarrow> bool \<Rightarrow> Ctl \<Rightarrow> (Ctl \<times> bool) res" where
  "handleGetSX env ev inMSHR s =
     (let adr = baseAddr ev in
      bindE (lookupL adr True s) (\<lambda>(s, line).
      bindE (begin_retry adr inMSHR s) (\<lambda>s.
      bindE (upgrade_last line s) (\<lambda>(s, state).
      if state = stI then
        bindE (processCacheMiss env ev line inMSHR s) (\<lambda>(s, status).
        if status = OK then
          bindE (profile_miss ev LatMISS s) (\<lambda>s.
          bindE (issue_miss env ev LAST_CMD line stIM s) (\<lambda>s. Inr (s, True)))
        else Inr (recordMiss (eventID ev) s, accepted status))
      else if state = stS then
        bindE (processCacheMiss env ev line inMSHR s) (\<lambda>(s, status).
        if status = OK then
          bindE (profile_miss ev LatUPGRADE s) (\<lambda>s.
          with_line line (\<lambda>i.
          bindE (issue_miss env ev LAST_CMD line stSM (recordPrefetchResult i s)) (\<lambda>s. Inr (s, True))))
        else Inr (s, accepted status))
      else if state = stE \<or> state = stM then
        with_line line (\<lambda>i.
        let s = (if state = stE then on_line i (setState stM) s else s);
            s = recordPrefetchResult i s in
        bindE (profile_hit ev inMSHR LatHIT s) (\<lambda>s.
        let s = on_line i incLock s in
        bindE (vec_slice (cl_data (the_line s i)) (unat (ev_addr ev - baseAddr ev)) (unat (ev_size ev))) (\<lambda>d.
        bindE (vec_copy d 0 []) (\<lambda>d'.
        bindE (sendResponseUp env ev (Some d') inMSHR (lastSendTimestamp (the_line s i)) True s) (\<lambda>(s, t).
        bindE (cleanUpAfterRequest env ev inMSHR (on_line i (setTimestamp (t - 1)) s)) (\<lambda>s.
        Inr (s, True)))))))
      else stall_default env ev inMSHR s))))"

section \<open>Flushes\<close>

definition line_locked :: "nat option \<Rightarrow> Ctl \<Rightarrow> bool" where
  "line_locked line s = (case line of None \<Rightarrow> False | Some i \<Rightarrow> isLocked (timestamp s) (the_line s i))"

definition flush_fails :: "Env \<Rightarrow> MemEvent \<Rightarrow> bool \<Rightarrow> nat \<Rightarrow> Ctl \<Rightarrow> (Ctl \<times> bool) res" where
  "flush_fails env ev inMSHR i s =
     bindE (profile_hit ev inMSHR LatMISS s) (\<lambda>s.
     bindE (sendResponseUp env ev None inMSHR (lastSendTimestamp (the_line s i)) False s) (\<lambda>(s, _).
     bindE (cleanUpAfterRequest env ev inMSHR s) (\<lambda>s. Inr (s, True))))"

definition handleFlushLine :: "Env \<Rightarrow> MemEvent \<Rightarrow> bool \<Rightarrow> Ctl \<Rightarrow> (Ctl \<times> bool) res" where
  "handleFlushLine env ev inMSHR s =
     (let adr = baseAddr ev in
      bindE (lookupL adr False s) (\<lambda>(s, line).
      let state = state_of s line in
      if \<not> inMSHR \<and> mshr_exists (c_mshr s) adr
      then (let (s1, st) = allocateMSHR env ev False (-1) False s in Inr (s1, accepted st))
      else
      bindE (begin_retry adr inMSHR s) (\<lambda>s.
      if state \<noteq> stI \<and> line_locked line s
      then with_line line (\<lambda>i. flush_fails env ev inMSHR i s)
      else
      let (s, st) = (if inMSHR then (s, OK) else allocateMSHR env ev False (-1) False s) in
      if st = Reject then Inr (s, False)
      else
      bindE (profile_miss ev LatHIT s) (\<lambda>s.
      bindE (on_mshr (setInProgress adr True) s) (\<lambda>s.
      bindE (forwardFlush env ev line (state = stE \<or> state = stM) s) (\<lambda>s.
      Inr (case line of None \<Rightarrow> s | Some i \<Rightarrow> if state \<noteq> stI then on_line i (setState stS_B) s else s, True)))))))"

definition record_line_prefetch :: "nat option \<Rightarrow> Ctl \<Rightarrow> Ctl" where
  "record_line_prefetch line s = (case line of None \<Rightarrow> s | Some i \<Rightarrow> recordPrefetchResult i s)"

definition profile_flush :: "Addr \<Rightarrow> nat option \<Rightarrow> Ctl \<Rightarrow> Ctl res" where
  "profile_flush adr line s = bindE (getProfiled (c_mshr s) adr) (\<lambda>p.
     if \<not> p then on_mshr (setProfiled adr) (record_line_prefetch line s) else Inr s)"

definition handleFlushLineInv :: "Env \<Rightarrow> MemEvent \<Rightarrow> bool \<Rightarrow> Ctl \<Rightarrow> (Ctl \<times> bool) res" where
  "handleFlushLineInv env ev inMSHR s =
     (let adr = baseAddr ev in
      bindE (lookupL adr False s) (\<lambda>(s, line).
      let state = state_of s line in
      if \<not> inMSHR \<and> mshr_exists (c_mshr s) adr
      then (let (s1, st) = allocateMSHR env ev False (-1) False s in Inr (s1, accepted st))
      else
      bindE (begin_retry adr inMSHR s) (\<lambda>s.
      bindE (if inMSHR then getFrontEvent (c_mshr s) adr else Inr None) (\<lambda>f.
      if inMSHR \<and> map_option evPtr f \<noteq> Some (evPtr ev) then Inr (s, True)
      else if state \<noteq> stI \<and> line_locked line s
      then with_line line (\<lambda>i. flush_fails env ev inMSHR i s)
      else
      let (s, st) = (if inMSHR then (s, OK) else allocateMSHR env ev False (-1) False s) in
      if st = Reject then Inr (s, False)
      else
      bindE (on_mshr (setInProgress adr True) s) (\<lambda>s.
      bindE (profile_flush adr line s) (\<lambda>s.
      bindE (forwardFlush env ev line (state \<noteq> stI) s) (\<lambda>s.
      let s = (case line of None \<Rightarrow> s | Some i \<Rightarrow> if state \<noteq> stI then on_line i (setState stI_B) s else s) in
      Inr (recordLatencyType (eventID ev) LatHIT s, True))))))))"

section \<open>Invalidations and fetches from below\<close>

text \<open>
  A forwarded request that meets a locked line waits at the front of its register; the
  result is false only when no register is free.
\<close>

definition stall_locked :: "Env \<Rightarrow> MemEvent \<Rightarrow> bool \<Rightarrow> Ctl \<Rightarrow> (Ctl \<times> bool) res" where
  "stall_locked env ev inMSHR s =
     (if \<not> inMSHR
      then (let (s1, st) = allocateMSHR env ev True 0 False s in Inr (s1, accepted st))
      else Inr (s, True))"

text \<open>\<open>line->atomicEnd(); sendResponseDown(event, line, data); line->setState(st)\<close>\<close>

definition surrender :: "Env \<Rightarrow> MemEvent \<Rightarrow> nat option \<Rightarrow> bool \<Rightarrow> State \<Rightarrow> Ctl \<Rightarrow> Ctl res" where
  "surrender env ev line data st s =
     with_line line (\<lambda>i.
     bindE (sendResponseDown env ev line data (on_line i atomicEnd s)) (\<lambda>s.
     Inr (on_line i (setState st) s)))"

definition set_line_state :: "nat option \<Rightarrow> State \<Rightarrow> Ctl \<Rightarrow> Ctl res" where
  "set_line_state line st s = with_line line (\<lambda>i. Inr (on_line i (setState st) s))"

definition handleFetch :: "Env \<Rightarrow> MemEvent \<Rightarrow> bool \<Rightarrow> Ctl \<Rightarrow> (Ctl \<times> bool) res" where
  "handleFetch env ev inMSHR s =
     (let adr = baseAddr ev in
      bindE (lookupL adr False s) (\<lambda>(s, line).
      let state = state_of s line in
      bindE (snoopInvalidation env ev line s) (\<lambda>s.
      bindE (begin_retry adr inMSHR s) (\<lambda>s.
      bindE (if state \<in> {stS, stSM, stS_B} then sendResponseDown env ev line True s
             else if state \<in> {stI, stIS, stIM, stI_B} then Inr s
             else Inl (Fatal ''handleFetch'')) (\<lambda>s.
      Inr (s, True))))))"

definition handleInv :: "Env \<Rightarrow> MemEvent \<Rightarrow> bool \<Rightarrow> Ctl \<Rightarrow> (Ctl \<times> bool) res" where
  "handleInv env ev inMSHR s =
     (let adr = baseAddr ev in
      bindE (lookupL adr False s) (\<lambda>(s, line).
      let state = state_of s line in
      bindE (begin_retry adr inMSHR s) (\<lambda>s.
      bindE (snoopInvalidation env ev line s) (\<lambda>s.
      let s = record_line_prefetch line s in
      bindE (if state \<in> {stS, stS_B} then surrender env ev line False stI s
             else if state = stSM then surrender env ev line False stIM s
             else if state = stI_B then set_line_state line stI s
             else if state \<in> {stIS, stIM, stI} then Inr s
             else Inl (Fatal ''handleInv'')) (\<lambda>s.
      Inr (s, True))))))"

definition handleForceInv :: "Env \<Rightarrow> MemEvent \<Rightarrow> bool \<Rightarrow> Ctl \<Rightarrow> (Ctl \<times> bool) res" where
  "handleForceInv env ev inMSHR s =
     (let adr = baseAddr ev in
      bindE (lookupL adr False s) (\<lambda>(s, line).
      let state = state_of s line in
      bindE (begin_retry adr inMSHR s) (\<lambda>s.
      bindE (snoopInvalidation env ev line s) (\<lambda>s.
      if state \<in> {stS, stE, stM, stS_B} \<and> line_locked line s then stall_locked env ev inMSHR s
      else
      bindE (if state \<in> {stS, stE, stM, stS_B} then surrender env ev line False stI s
             else if state = stI_B then set_line_state line stI s
             else if state \<in> {stI, stIS, stIM} then Inr s
             else if state = stSM then surrender env ev line False stIM s
             else Inl (Fatal ''handleForceInv'')) (\<lambda>s.
      Inr (record_line_prefetch line s, True))))))"

definition handleFetchInv :: "Env \<Rightarrow> MemEvent \<Rightarrow> bool \<Rightarrow> Ctl \<Rightarrow> (Ctl \<times> bool) res" where
  "handleFetchInv env ev inMSHR s =
     (let adr = baseAddr ev in
      bindE (lookupL adr False s) (\<lambda>(s, line).
      let state = state_of s line in
      bindE (begin_retry adr inMSHR s) (\<lambda>s.
      bindE (snoopInvalidation env ev line s) (\<lambda>s.
      if state \<in> {stI, stIS, stIM} then Inr (s, True)
      else if state = stM \<and> line_locked line s then stall_locked env ev inMSHR s
      else
      bindE (if state \<in> {stM, stS, stE, stS_B} then surrender env ev line True stI s
             else if state = stI_B then set_line_state line stI s
             else if state = stSM then surrender env ev line True stIM s
             else Inl (Fatal ''handleFetchInv'')) (\<lambda>s.
      Inr (record_line_prefetch line s, True))))))"

definition handleFetchInvX :: "Env \<Rightarrow> MemEvent \<Rightarrow> bool \<Rightarrow> Ctl \<Rightarrow> (Ctl \<times> bool) res" where
  "handleFetchInvX env ev inMSHR s =
     (let adr = baseAddr ev in
      bindE (lookupL adr False s) (\<lambda>(s, line).
      let state = state_of s line in
      bindE (begin_retry adr inMSHR s) (\<lambda>s.
      bindE (snoopInvalidation env ev line s) (\<lambda>s.
      if state \<in> {stE, stM} \<and> line_locked line s then stall_locked env ev inMSHR s
      else
      bindE (if state \<in> {stE, stM} then surrender env ev line True stS s
             else if state \<in> {stI, stIS, stIM, stI_B, stS_B} then Inr s
             else Inl (Fatal ''handleFetchInvX'')) (\<lambda>s.
      bindE (if inMSHR then cleanUpAfterRequest env ev inMSHR s else Inr s) (\<lambda>s.
      Inr (s, True)))))))"

section \<open>Responses\<close>

definition front_request :: "Addr \<Rightarrow> Ctl \<Rightarrow> MemEvent res" where
  "front_request adr s = bindE (getFrontEvent (c_mshr s) adr) (\<lambda>f.
     case f of None \<Rightarrow> Inl NullDeref | Some req \<Rightarrow> Inr req)"

text \<open>Answer the request with its bytes of line \<open>i\<close> and advance the line's timestamp.\<close>

definition respond_bytes :: "Env \<Rightarrow> MemEvent \<Rightarrow> Addr \<Rightarrow> nat \<Rightarrow> bool \<Rightarrow> Ctl \<Rightarrow> Ctl res" where
  "respond_bytes env req adr i succ s =
     bindE (vec_slice (cl_data (the_line s i)) (unat (ev_addr req - adr)) (unat (ev_size req))) (\<lambda>d.
     bindE (sendResponseUp env req (Some d) True (lastSendTimestamp (the_line s i)) succ s) (\<lambda>(s, t).
     Inr (on_line i (setTimestamp (t - 1)) s)))"

text \<open>The end of a read: a load-link starts the reservation, a prefetch marks the line.\<close>

definition finish_read :: "Env \<Rightarrow> MemEvent \<Rightarrow> Addr \<Rightarrow> nat \<Rightarrow> Ctl \<Rightarrow> Ctl res" where
  "finish_read env req adr i s =
     (let s = (if isLoadLink req then on_line i (atomicStart (timestamp s + llscBlockCycles env)) s else s) in
      if prefetch req \<and> rqstr req = cachename env
      then Inr (recordPrefetchLatency (eventID req) (on_line i (setPrefetch True) s))
      else respond_bytes env req adr i True s)"

definition handleGetSResp :: "Env \<Rightarrow> MemEvent \<Rightarrow> bool \<Rightarrow> Ctl \<Rightarrow> (Ctl \<times> bool) res" where
  "handleGetSResp env ev inMSHR s =
     (let adr = baseAddr ev in
      bindE (lookupL adr False s) (\<lambda>(s, line).
      bindE (front_request adr s) (\<lambda>req0.
      let req = req0\<lparr>memFlags := memFlags ev\<rparr> in
      with_line line (\<lambda>i.
      bindE (write_line i (getPayload ev) 0 s) (\<lambda>s.
      bindE (finish_read env req adr i (on_line i (setState stS) s)) (\<lambda>s.
      bindE (cleanUpAfterResponse env ev inMSHR s) (\<lambda>s.
      Inr (s, True))))))))"

text \<open>The end of a write or of a locking read, on the line in state \<open>M\<close>.\<close>

definition finish_write :: "Env \<Rightarrow> MemEvent \<Rightarrow> Addr \<Rightarrow> nat \<Rightarrow> Ctl \<Rightarrow> Ctl res" where
  "finish_write env req adr i s =
     bindE (if cmd req = Write \<or> cmd req = GetX
            then bindE (store_bytes req adr i s) (\<lambda>(req, succ, s).
                   Inr (req, succ, if queryFlag F_LOCKED req then on_line i decLock s else s))
            else Inr (req, True, on_line i incLock s)) (\<lambda>(req, succ, s).
     respond_bytes env req adr i succ s)"

definition handleGetXResp :: "Env \<Rightarrow> MemEvent \<Rightarrow> bool \<Rightarrow> Ctl \<Rightarrow> (Ctl \<times> bool) res" where
  "handleGetXResp env ev inMSHR s =
     (let adr = baseAddr ev in
      bindE (lookupL adr False s) (\<lambda>(s, line).
      let state = state_of s line in
      bindE (front_request adr s) (\<lambda>req0.
      let req = req0\<lparr>memFlags := memFlags ev\<rparr> in
      bindE (if state = stIS then
               with_line line (\<lambda>i.
               bindE (write_line i (getPayload ev) 0 s) (\<lambda>s.
               finish_read env req adr i
                 (on_line i (setState (if ev_dirty ev then stM else protocolState env)) s)))
             else if state = stIM \<or> state = stSM then
               with_line line (\<lambda>i.
               bindE (if state = stIM then write_line i (getPayload ev) 0 s else Inr s) (\<lambda>s.
               finish_write env req adr i (on_line i (setState stM) s)))
             else Inl (Fatal ''handleGetXResp'')) (\<lambda>s.
      bindE (cleanUpAfterResponse env ev inMSHR s) (\<lambda>s.
      Inr (s, True))))))"

text \<open>
  \<open>sendResponseUp(req, nullptr, timestamp_, event->success())\<close>: the two last arguments land
  in \<open>inMSHR\<close> and \<open>time\<close>, and the response is always a success.
\<close>

definition handleFlushLineResp :: "Env \<Rightarrow> MemEvent \<Rightarrow> bool \<Rightarrow> Ctl \<Rightarrow> (Ctl \<times> bool) res" where
  "handleFlushLineResp env ev inMSHR s =
     (let adr = baseAddr ev in
      bindE (lookupL adr False s) (\<lambda>(s, line).
      let state = state_of s line in
      bindE (getFrontEvent (c_mshr s) adr) (\<lambda>f.
      bindE (if state = stI then Inr s
             else if state = stI_B then with_line line (\<lambda>i. Inr (on_line i (\<lambda>l. atomicEnd (setState stI l)) s))
             else if state = stS_B then set_line_state line stS s
             else Inl (Fatal ''handleFlushLineResp'')) (\<lambda>s.
      case f of None \<Rightarrow> Inl NullDeref
      | Some req \<Rightarrow>
        bindE (sendResponseUp env req None (timestamp s \<noteq> 0) (if success ev then 1 else 0) True s) (\<lambda>(s, _).
        bindE (cleanUpAfterResponse env ev inMSHR s) (\<lambda>s.
        Inr (s, True)))))))"

definition handleAckPut :: "Env \<Rightarrow> MemEvent \<Rightarrow> bool \<Rightarrow> Ctl \<Rightarrow> (Ctl \<times> bool) res" where
  "handleAckPut env ev inMSHR s =
     bindE (lookupL (baseAddr ev) False s) (\<lambda>(s, _).
     bindE (cleanUpAfterResponse env ev inMSHR s) (\<lambda>s. Inr (s, True)))"

section \<open>Internal evictions and refused events\<close>

text \<open>\<open>if (mshr_->removeEvictPointer(oldAddr, newAddr)) retry(oldAddr)\<close>\<close>

definition drop_evict_pointer :: "Env \<Rightarrow> Addr \<Rightarrow> Addr \<Rightarrow> Ctl \<Rightarrow> Ctl res" where
  "drop_evict_pointer env oldAddr newAddr s =
     bindE (removeEvictPointer oldAddr newAddr (c_mshr s)) (\<lambda>(m, again).
     let s = s\<lparr>c_mshr := m\<rparr> in if again then retry env oldAddr s else Inr s)"

definition handleNULLCMD :: "Env \<Rightarrow> MemEvent \<Rightarrow> bool \<Rightarrow> Ctl \<Rightarrow> (Ctl \<times> bool) res" where
  "handleNULLCMD env ev inMSHR s =
     (let oldAddr = ev_addr ev; newAddr = baseAddr ev in
      bindE (lookupL oldAddr False s) (\<lambda>(s, line).
      bindE (handleEviction env newAddr line s) (\<lambda>(s, i, evicted).
      if evicted then
        bindE (deallocate i (c_array s)) (\<lambda>c.
        bindE (retry_front newAddr (s\<lparr>c_array := c\<rparr>)) (\<lambda>s.
        bindE (drop_evict_pointer env oldAddr newAddr s) (\<lambda>s.
        Inr (s, True))))
      else if oldAddr \<noteq> cl_addr (the_line s i) then
        bindE (on_mshr (insertEviction (simCycle env) (cl_addr (the_line s i)) newAddr) s) (\<lambda>s.
        bindE (drop_evict_pointer env oldAddr newAddr s) (\<lambda>s.
        Inr (s, True)))
      else Inr (s, True))))"

definition handleNACK :: "Env \<Rightarrow> MemEvent \<Rightarrow> bool \<Rightarrow> Ctl \<Rightarrow> (Ctl \<times> bool) res" where
  "handleNACK env ev inMSHR s =
     bindE (lookupL (baseAddr ev) False s) (\<lambda>(s, _).
     case getNACKedEvent ev of None \<Rightarrow> Inl NullDeref
     | Some nacked \<Rightarrow> bindE (resendEvent env nacked s) (\<lambda>s. Inr (s, True)))"

section \<open>Configuration\<close>

definition getInitCoherenceEvent :: "Env \<Rightarrow> InitCoherence" where
  "getInitCoherenceEvent env = \<lparr>ic_src = cachename env, ic_type = EpCache, ic_inclusive = True,
     ic_sendWBAck = False, ic_recvWBAck = False, ic_lineSize = lineSizeC env, ic_tracksPresence = True\<rparr>"

definition getValidReceiveEvents :: "Command list" where
  "getValidReceiveEvents = [GetS, GetX, Write, GetSX, FlushLine, FlushLineInv, Inv, ForceInv, Fetch,
     FetchInv, FetchInvX, NULLCMD, GetSResp, GetXResp, FlushLineResp, AckPut, NACK]"

definition setSliceAware :: "u64 \<Rightarrow> u64 \<Rightarrow> Ctl \<Rightarrow> Ctl" where
  "setSliceAware sz stp s =
     s\<lparr>c_array := setSliceAwareArr sz stp (c_array s)\<rparr>"

definition getBank :: "Ctl \<Rightarrow> Addr \<Rightarrow> Addr res" where
  "getBank s adr = getBankArr (c_array s) adr"

text \<open>The parameters the constructor turns into state; \<open>lines\<close> and \<open>assoc\<close> are narrowed to 32 bits.\<close>

definition protocol_state :: "bool \<Rightarrow> State" where
  "protocol_state mesi = (if mesi then stE else stS)"

definition MESIL1_array ::
  "(nat \<Rightarrow> u64) \<Rightarrow> (u32 \<Rightarrow> u64 \<Rightarrow> u64) \<Rightarrow> u64 \<Rightarrow> u64 \<Rightarrow> u64 \<Rightarrow> string \<Rightarrow> int \<Rightarrow> u64 \<Rightarrow> CacheArray res" where
  "MESIL1_array g xorh lines assoc lsz policy hashFunc nbanks =
     bindE (createReplacementPolicy g lines assoc policy True) (\<lambda>mgr.
     bindE (CacheArray_new (ucast lines) (ucast assoc) (ucast lsz) mgr (createHashFunction xorh hashFunc)) (\<lambda>c.
     Inr (setBanked (ucast nbanks) c)))"


section \<open>Dispatch\<close>

text \<open>
  The switch of \<open>Cache::processEvent\<close> on this manager. The handlers it inherits from
  \<open>CoherenceController\<close> (puts, write and fetch responses, invalidation acknowledgements) are
  fatal, as is a command without a handler.
\<close>

definition dispatch :: "Env \<Rightarrow> MemEvent \<Rightarrow> bool \<Rightarrow> Ctl \<Rightarrow> (Ctl \<times> bool) res" where
  "dispatch env ev inMSHR s = (case cmd ev of
     GetS \<Rightarrow> handleGetS env ev inMSHR s
   | GetX \<Rightarrow> handleGetX env ev inMSHR s
   | Write \<Rightarrow> handleWrite env ev inMSHR s
   | GetSX \<Rightarrow> handleGetSX env ev inMSHR s
   | FlushLine \<Rightarrow> handleFlushLine env ev inMSHR s
   | FlushLineInv \<Rightarrow> handleFlushLineInv env ev inMSHR s
   | GetSResp \<Rightarrow> handleGetSResp env ev inMSHR s
   | GetXResp \<Rightarrow> handleGetXResp env ev inMSHR s
   | FlushLineResp \<Rightarrow> handleFlushLineResp env ev inMSHR s
   | FetchInv \<Rightarrow> handleFetchInv env ev inMSHR s
   | FetchInvX \<Rightarrow> handleFetchInvX env ev inMSHR s
   | ForceInv \<Rightarrow> handleForceInv env ev inMSHR s
   | Inv \<Rightarrow> handleInv env ev inMSHR s
   | Fetch \<Rightarrow> handleFetch env ev inMSHR s
   | AckPut \<Rightarrow> handleAckPut env ev inMSHR s
   | NACK \<Rightarrow> handleNACK env ev inMSHR s
   | NULLCMD \<Rightarrow> handleNULLCMD env ev inMSHR s
   | _ \<Rightarrow> Inl (Fatal ''processEvent''))"

section \<open>What the helpers leave alone\<close>

text \<open>Sending, clean-up and bookkeeping touch neither the lines nor the clock.\<close>

definition frame :: "Ctl \<Rightarrow> Ctl \<Rightarrow> bool" where
  "frame s s' \<longleftrightarrow> c_array s' = c_array s \<and> timestamp s' = timestamp s \<and>
     (mshr_ok (c_mshr s) \<longrightarrow> mshr_ok (c_mshr s'))"

named_theorems frames \<open>frame facts of the helper operations\<close>

lemma frame_refl [simp]: "frame s s"
  by (simp add: frame_def)

lemma frame_trans: "frame s t \<Longrightarrow> frame t u \<Longrightarrow> frame s u"
  by (simp add: frame_def)

lemma frame_on_mshr:
  "on_mshr f s = Inr s' \<Longrightarrow> (\<And>m m'. mshr_ok m \<Longrightarrow> f m = Inr m' \<Longrightarrow> mshr_ok m') \<Longrightarrow> frame s s'"
  by (auto simp: on_mshr_def bindE_eq_Inr_iff frame_def)

lemma frame_forwardByDestination [frames]: "forwardByDestination env ev t s = Inr s' \<Longrightarrow> frame s s'"
  by (auto simp: forwardByDestination_def Let_def addToOutgoingQueue_def addToOutgoingQueueUp_def frame_def
      split: if_splits)

lemma frame_forwardByAddress [frames]: "forwardByAddress env ev t s = Inr s' \<Longrightarrow> frame s s'"
  by (auto simp: forwardByAddress_def Let_def addToOutgoingQueue_def addToOutgoingQueueUp_def frame_def
      split: if_splits)

lemma frame_forwardMessage [frames]: "forwardMessage env ev n t d c s = Inr (s', t') \<Longrightarrow> frame s s'"
  by (auto simp: forwardMessage_def Let_def alloc_def bindE_eq_Inr_iff frame_def
      dest!: frame_forwardByAddress split: if_splits)

lemma frame_sendResponseUp [frames]: "sendResponseUp env ev d b t u s = Inr (s', t') \<Longrightarrow> frame s s'"
  by (auto simp: sendResponseUp_def Let_def alloc_def bindE_eq_Inr_iff frame_def dest!: frame_forwardByDestination)

lemma frame_sendResponseDown [frames]: "sendResponseDown env ev l d s = Inr s' \<Longrightarrow> frame s s'"
  by (auto simp: sendResponseDown_def Let_def alloc_def bindE_eq_Inr_iff frame_def dest!: frame_forwardByDestination)

lemma frame_resendEvent [frames]: "resendEvent env ev s = Inr s' \<Longrightarrow> frame s s'"
  by (auto simp: resendEvent_def dest: frame_forwardByDestination)

lemma frame_snoop_cpus: "snoop_cpus env ev i cs s = Inr s' \<Longrightarrow> frame s s'"
proof (induction cs arbitrary: s)
  case (Cons c cs)
  then show ?case
    by (fastforce simp: Let_def new_event_def bindE_eq_Inr_iff frame_def dest!: frame_forwardByDestination)
qed simp

lemma frame_snoopInvalidation [frames]: "snoopInvalidation env ev l s = Inr s' \<Longrightarrow> frame s s'"
  by (auto simp: snoopInvalidation_def split: option.splits if_splits dest: frame_snoop_cpus)

lemma frame_push_retry [simp]: "frame s (push_retry ev s)"
  by (simp add: push_retry_def frame_def)

lemma frame_retry_front [frames]: "retry_front a s = Inr s' \<Longrightarrow> frame s s'"
  by (auto simp: retry_front_def bindE_eq_Inr_iff split: option.splits
      dest!: frame_on_mshr [OF _ mshr_ok_addPendingRetry] intro: frame_trans [OF frame_push_retry])

lemma frame_retry_evictions [simp]: "frame s (retry_evictions env a as s)"
proof (induction as arbitrary: s)
  case (Cons b as)
  have "frame s (push_retry (fst (new_event env (cachename env) a b NULLCMD s)) (snd (new_event env (cachename env) a b NULLCMD s)))"
    by (simp add: push_retry_def new_event_def frame_def)
  with Cons show ?case by (auto simp: Let_def split: prod.splits intro: frame_trans)
qed simp

lemma frame_cleanUpAfterRequest [frames]: "cleanUpAfterRequest env ev b s = Inr s' \<Longrightarrow> frame s s'"
  by (auto simp: cleanUpAfterRequest_def Let_def bindE_eq_Inr_iff split: if_splits
      dest!: frame_retry_front frame_on_mshr [OF _ mshr_ok_removeFront] intro: frame_trans)

lemma frame_cleanUpAfterResponse [frames]: "cleanUpAfterResponse env ev b s = Inr s' \<Longrightarrow> frame s s'"
  by (auto simp: cleanUpAfterResponse_def Let_def bindE_eq_Inr_iff split: if_splits
      dest!: frame_retry_front frame_on_mshr [OF _ mshr_ok_removeFront] intro: frame_trans)

lemma frame_retry [frames]: "retry env a s = Inr s' \<Longrightarrow> frame s s'"
  by (auto simp: retry_def Let_def bindE_eq_Inr_iff split: if_splits dest!: frame_retry_front)

lemma frame_begin_retry [frames]: "begin_retry a b s = Inr s' \<Longrightarrow> frame s s'"
  by (auto simp: begin_retry_def split: if_splits dest: frame_on_mshr [OF _ mshr_ok_removePendingRetry])

lemma frame_recordLatencyType [simp]: "frame s (recordLatencyType i t s)"
  by (auto simp: recordLatencyType_def frame_def split: option.splits)

lemma frame_recordMiss [simp]: "frame s (recordMiss i s)"
  by (simp add: recordMiss_def)

lemma frame_recordPrefetchLatency [simp]: "frame s (recordPrefetchLatency i s)"
  by (auto simp: recordPrefetchLatency_def frame_def split: option.splits)

lemma frame_profile_miss [frames]: "profile_miss ev t s = Inr s' \<Longrightarrow> frame s s'"
  by (auto simp: profile_miss_def bindE_eq_Inr_iff split: if_splits
      dest!: frame_on_mshr [OF _ mshr_ok_setProfiled] intro: frame_trans [OF frame_recordLatencyType])

lemma frame_profile_hit [frames]: "profile_hit ev b t s = Inr s' \<Longrightarrow> frame s s'"
  by (auto simp: profile_hit_def bindE_eq_Inr_iff split: if_splits)

lemma frame_allocateMSHR: "allocateMSHR env ev f p e s = (s', st) \<Longrightarrow> frame s s'"
  by (auto simp: allocateMSHR_def Let_def frame_def split: if_splits prod.splits
      dest: mshr_ok_insertEvent)

lemma frame_stall_default [frames]: "stall_default env ev b s = Inr (s', r) \<Longrightarrow> frame s s'"
  by (auto simp: stall_default_def Let_def split: if_splits prod.splits dest: frame_allocateMSHR)

lemma frame_stall_locked [frames]: "stall_locked env ev b s = Inr (s', r) \<Longrightarrow> frame s s'"
  by (auto simp: stall_locked_def Let_def split: if_splits prod.splits dest: frame_allocateMSHR)

lemma frame_drop_evict_pointer [frames]: "drop_evict_pointer env a b s = Inr s' \<Longrightarrow> frame s s'"
  by (auto simp: drop_evict_pointer_def bindE_eq_Inr_iff Let_def frame_def split: if_splits
      dest!: frame_retry dest: mshr_ok_removeEvictPointer)

lemma frame_insertEviction [frames]: "on_mshr (insertEviction t a b) s = Inr s' \<Longrightarrow> frame s s'"
  by (erule frame_on_mshr) (rule mshr_ok_insertEviction)

lemma frame_setInProgress [frames]: "on_mshr (setInProgress a b) s = Inr s' \<Longrightarrow> frame s s'"
  by (erule frame_on_mshr) (rule mshr_ok_setInProgress)

lemma frame_setProfiled [frames]: "on_mshr (setProfiled a) s = Inr s' \<Longrightarrow> frame s s'"
  by (erule frame_on_mshr) (rule mshr_ok_setProfiled)


section \<open>What happens to lines\<close>

text \<open>
  The states of an L1 line; the replacement information follows the state; a user lock is
  held only on a modified line.
\<close>

definition l1_states :: "State set" where
  "l1_states = {stI, stS, stE, stM, stIS, stIM, stSM, stS_B, stI_B}"

definition line_inv :: "L1CacheLine \<Rightarrow> bool" where
  "line_inv l \<longleftrightarrow> cl_state l \<in> l1_states \<and> ri_state (cl_info l) = cl_state l \<and>
     (userLock l \<noteq> 0 \<longrightarrow> cl_state l = stM)"

definition line_key :: "L1CacheLine \<Rightarrow> Addr \<times> State \<times> u8 list \<times> u32" where
  "line_key l = (cl_addr l, cl_state l, cl_data l, userLock l)"

definition held :: "L1CacheLine \<Rightarrow> bool" where
  "held l \<longleftrightarrow> userLock l \<noteq> 0 \<and> cl_state l = stM"

text \<open>
  One change of a line that keeps its invariant and, unless its address is in \<open>A\<close>, does not
  touch it while a user lock is held.
\<close>

definition line_step :: "Addr set \<Rightarrow> L1CacheLine \<Rightarrow> L1CacheLine \<Rightarrow> bool" where
  "line_step A l l' \<longleftrightarrow> (line_inv l \<longrightarrow> line_inv l' \<and> (held l \<longrightarrow> cl_addr l \<notin> A \<longrightarrow> line_key l' = line_key l))"

definition same_sets :: "CacheArray \<Rightarrow> CacheArray \<Rightarrow> bool" where
  "same_sets c c' \<longleftrightarrow> setBegin c' = setBegin c \<and> associativity c' = associativity c"

definition arr_step :: "Addr set \<Rightarrow> CacheArray \<Rightarrow> CacheArray \<Rightarrow> bool" where
  "arr_step A c c' \<longleftrightarrow> (arr_ok c \<longrightarrow> arr_ok c') \<and> length (ca_lines c') = length (ca_lines c) \<and> same_sets c c' \<and>
     (\<forall>i < length (ca_lines c). line_step A (line_at c i) (line_at c' i))"

lemma line_step_refl [simp]: "line_step A l l"
  by (simp add: line_step_def)

lemma line_step_trans: "line_step A l m \<Longrightarrow> line_step A m n \<Longrightarrow> line_step A l n"
  by (auto simp: line_step_def held_def line_key_def)

lemma same_setsI:
  "numSets c' = numSets c \<Longrightarrow> associativity c' = associativity c \<Longrightarrow> lineOffset c' = lineOffset c \<Longrightarrow>
   hash_fn c' = hash_fn c \<Longrightarrow> sliceSize c' = sliceSize c \<Longrightarrow> sliceStep c' = sliceStep c \<Longrightarrow> same_sets c c'"
  by (simp add: same_sets_def setBegin_def set_of_addr_def toLineAddr_def fun_eq_iff)

lemma same_sets_upd [simp]:
  "same_sets c c" "same_sets c (upd_line i f d) = same_sets c d" "same_sets c (d\<lparr>replacementMgr := m\<rparr>) = same_sets c d"
  by (simp_all add: same_sets_def setBegin_def set_of_addr_def toLineAddr_def fun_eq_iff upd_line_def)

lemma arr_step_refl [simp]: "arr_step A c c"
  by (simp add: arr_step_def)

lemma arr_step_trans: "arr_step A c d \<Longrightarrow> arr_step A d e \<Longrightarrow> arr_step A c e"
  by (auto simp: arr_step_def same_sets_def intro: line_step_trans)

lemma line_step_mono: "line_step A l m \<Longrightarrow> A \<subseteq> B \<Longrightarrow> line_step B l m"
  by (auto simp: line_step_def)

lemma line_at_upd: "line_at (upd_line i f c) j =
    (if i = j \<and> i < length (ca_lines c) then f (line_at c i) else line_at c j)"
  by (cases "i = j"; cases "i < length (ca_lines c)")
    (simp_all add: line_at_def upd_line_def list_update_beyond)

lemma line_at_policy [simp]: "line_at (c\<lparr>replacementMgr := m\<rparr>) j = line_at c j"
  by (simp add: line_at_def)

lemma length_upd_line [simp]: "length (ca_lines (upd_line i f c)) = length (ca_lines c)"
  by (simp add: upd_line_def)

lemma lineSize_upd_line [simp]: "lineSize (upd_line i f c) = lineSize c"
  by (simp add: upd_line_def)

definition geom_keep :: "(L1CacheLine \<Rightarrow> L1CacheLine) \<Rightarrow> bool" where
  "geom_keep f \<longleftrightarrow> (\<forall>z i l. line_ok z i l \<longrightarrow> line_ok z i (f l))"

lemma geom_keep_ops [simp]:
  "geom_keep (setState st)" "geom_keep (setTimestamp t)" "geom_keep (setPrefetch b)"
  "geom_keep (atomicStart t)" "geom_keep atomicEnd" "geom_keep incLock" "geom_keep decLock"
  by (auto simp: geom_keep_def line_ok_def setState_def setTimestamp_def setPrefetch_def atomicStart_def
      atomicEnd_def incLock_def decLock_def)

lemma arr_step_upd:
  assumes "arr_step A c d" and "geom_keep f"
    and "i < length (ca_lines d) \<Longrightarrow> line_step A (line_at d i) (f (line_at d i))"
  shows "arr_step A c (upd_line i f d)"
  using assms by (auto simp: arr_step_def line_at_upd geom_keep_def intro!: arr_ok_upd_line intro: line_step_trans)

lemma arr_step_policy:
  "arr_step A c d \<Longrightarrow> (arr_ok d \<longrightarrow> arr_ok (d\<lparr>replacementMgr := m\<rparr>)) \<Longrightarrow> arr_step A c (d\<lparr>replacementMgr := m\<rparr>)"
  by (auto simp: arr_step_def)

text \<open>The changes of single lines.\<close>

lemmas line_op_defs = setState_def setTimestamp_def setPrefetch_def atomicStart_def atomicEnd_def
  incLock_def decLock_def setAddr_def L1_reset_def CacheLine_reset_def

lemma line_step_benign [simp]:
  "line_step A l (setTimestamp t l)" "line_step A l (setPrefetch b l)"
  "line_step A l (atomicStart t l)" "line_step A l (atomicEnd l)"
  by (simp_all add: line_step_def line_inv_def held_def line_key_def line_op_defs)

lemma line_step_setState:
  "st \<in> l1_states \<Longrightarrow> cl_state l \<noteq> stM \<or> userLock l = 0 \<Longrightarrow> line_step A l (setState st l)"
  by (auto simp: line_step_def line_inv_def held_def line_key_def line_op_defs)

lemma line_step_setM: "line_step A l (setState stM l)"
  by (auto simp: line_step_def line_inv_def held_def line_key_def line_op_defs l1_states_def)

lemma line_step_data: "\<not> held l \<or> cl_addr l \<in> A \<Longrightarrow> line_step A l (l\<lparr>cl_data := d\<rparr>)"
  by (auto simp: line_step_def line_inv_def held_def line_key_def line_op_defs)

lemma line_step_lock:
  "cl_state l = stM \<Longrightarrow> cl_addr l \<in> A \<Longrightarrow> line_step A l (incLock l)"
  "cl_state l = stM \<Longrightarrow> cl_addr l \<in> A \<Longrightarrow> line_step A l (decLock l)"
  by (auto simp: line_step_def line_inv_def held_def line_key_def line_op_defs)

lemma line_step_reset: "cl_state l = stI \<Longrightarrow> line_step A l (L1_reset l)"
  "cl_state l = stI \<Longrightarrow> line_step A l (setAddr a (L1_reset l))"
  by (auto simp: line_step_def line_inv_def held_def line_key_def line_op_defs l1_states_def)

lemma arr_step_replace:
  assumes "replace a i c = Inr c'" and "cl_state (line_at c i) = stI"
  shows "arr_step A c c'"
proof -
  have "line_at c' j = (if i = j \<and> i < length (ca_lines c) then setAddr a (L1_reset (line_at c i)) else line_at c j)"
    and "length (ca_lines c') = length (ca_lines c)" "same_sets c c'" for j
    using assms(1) by (auto simp: replace_def Let_def bindE_eq_Inr_iff line_at_upd)
  then show ?thesis using assms line_step_reset(2) by (auto simp: arr_step_def intro: arr_ok_replace)
qed

lemma arr_step_deallocate:
  assumes "deallocate i c = Inr c'" and "cl_state (line_at c i) = stI"
  shows "arr_step A c c'"
proof -
  have "line_at c' j = (if i = j \<and> i < length (ca_lines c) then L1_reset (line_at c i) else line_at c j)"
    and "length (ca_lines c') = length (ca_lines c)" "same_sets c c'" for j
    using assms(1) by (auto simp: deallocate_def Let_def bindE_eq_Inr_iff line_at_upd)
  then show ?thesis using assms line_step_reset(1) by (auto simp: arr_step_def intro: arr_ok_deallocate)
qed

lemma arr_step_same_lines:
  "ca_lines c' = ca_lines c \<Longrightarrow> same_sets c c' \<Longrightarrow> (arr_ok c \<Longrightarrow> arr_ok c') \<Longrightarrow> arr_step A c c'"
  by (simp add: arr_step_def line_at_def)

lemma lookup_step:
  assumes "lookup a u c = Inr (c', l)"
  shows "arr_step A c c'" and "ca_lines c' = ca_lines c"
proof -
  consider "c' = c" | i mgr where "pol_update i (replacementMgr c) = Inr mgr" "c' = c\<lparr>replacementMgr := mgr\<rparr>"
    using assms by (auto simp: lookup_def bindE_eq_Inr_iff split: option.splits if_splits)
  then have ls: "ca_lines c' = ca_lines c" "same_sets c c'" by (cases; simp)+
  show "arr_step A c c'" by (rule arr_step_same_lines [OF ls]) (rule arr_ok_lookup [OF _ assms])
  show "ca_lines c' = ca_lines c" by (rule ls)
qed

lemma candidate_step:
  assumes "findReplacementCandidate a c = Inr (c', i)"
  shows "arr_step A c c'" and "ca_lines c' = ca_lines c" and "i < length (ca_lines c)"
proof -
  show ls: "ca_lines c' = ca_lines c" and "i < length (ca_lines c)"
    using assms by (auto simp: findReplacementCandidate_def bindE_eq_Inr_iff Let_def split: if_splits)
  have "same_sets c c'"
    using assms by (auto simp: findReplacementCandidate_def bindE_eq_Inr_iff Let_def split: if_splits)
  then show "arr_step A c c'" by (rule arr_step_same_lines [OF ls]) (rule arr_ok_findReplacementCandidate [OF _ assms])
qed


text \<open>
  The steps of the whole controller: the array changes line by line as above and the miss
  registers stay well formed. The rules below run a handler symbolically: each consumes one
  operation of the body and passes on that the state so far is a step from the start.
\<close>

definition ctl_step :: "Addr set \<Rightarrow> Ctl \<Rightarrow> Ctl \<Rightarrow> bool" where
  "ctl_step A s s' \<longleftrightarrow> arr_step A (c_array s) (c_array s') \<and> (mshr_ok (c_mshr s) \<longrightarrow> mshr_ok (c_mshr s'))"

definition same_lines :: "Ctl \<Rightarrow> Ctl \<Rightarrow> bool" where
  "same_lines s s' \<longleftrightarrow> the_line s' = the_line s \<and> timestamp s' = timestamp s \<and>
     length (ca_lines (c_array s')) = length (ca_lines (c_array s))"

abbreviation nlines :: "Ctl \<Rightarrow> nat" where
  "nlines s \<equiv> length (ca_lines (c_array s))"

lemma ctl_step_refl [simp]: "ctl_step A s s"
  by (simp add: ctl_step_def)

lemma ctl_step_trans: "ctl_step A s t \<Longrightarrow> ctl_step A t u \<Longrightarrow> ctl_step A s u"
  by (auto simp: ctl_step_def intro: arr_step_trans)

lemma ctl_step_frame: "ctl_step A s0 s \<Longrightarrow> frame s s' \<Longrightarrow> ctl_step A s0 s'"
  by (simp add: ctl_step_def frame_def)

lemma frame_same_lines: "frame s s' \<Longrightarrow> same_lines s s'"
  by (simp add: frame_def same_lines_def the_line_def fun_eq_iff)

lemma the_line_on_line:
  "the_line (on_line i f s) j = (if i = j \<and> i < nlines s then f (the_line s i) else the_line s j)"
  by (simp add: the_line_def on_line_def line_at_upd)

lemma on_line_sel [simp]:
  "nlines (on_line i f s) = nlines s" "timestamp (on_line i f s) = timestamp s" "c_mshr (on_line i f s) = c_mshr s"
  by (simp_all add: on_line_def)

lemma ctl_step_on_line:
  "ctl_step A s0 s \<Longrightarrow> geom_keep f \<Longrightarrow> (i < nlines s \<Longrightarrow> line_step A (the_line s i) (f (the_line s i))) \<Longrightarrow>
     ctl_step A s0 (on_line i f s)"
  by (auto simp: ctl_step_def on_line_def the_line_def intro: arr_step_upd)

lemma ctl_step_benign [simp]:
  "ctl_step A s0 s \<Longrightarrow> ctl_step A s0 (on_line i (setTimestamp t) s)"
  "ctl_step A s0 s \<Longrightarrow> ctl_step A s0 (on_line i (setPrefetch b) s)"
  "ctl_step A s0 s \<Longrightarrow> ctl_step A s0 (on_line i (atomicStart t) s)"
  "ctl_step A s0 s \<Longrightarrow> ctl_step A s0 (on_line i atomicEnd s)"
  "ctl_step A s0 s \<Longrightarrow> ctl_step A s0 (on_line i (setState stM) s)"
  by (simp_all add: ctl_step_on_line line_step_setM)

lemma ctl_step_setState:
  "ctl_step A s0 s \<Longrightarrow> st \<in> l1_states \<Longrightarrow> cl_state (the_line s i) \<noteq> stM \<or> userLock (the_line s i) = 0 \<Longrightarrow>
     ctl_step A s0 (on_line i (setState st) s)"
  by (simp add: ctl_step_on_line line_step_setState)

lemma ctl_step_records [simp]:
  "ctl_step A s0 s \<Longrightarrow> ctl_step A s0 (recordLatencyType n t s)"
  "ctl_step A s0 s \<Longrightarrow> ctl_step A s0 (recordMiss n s)"
  "ctl_step A s0 s \<Longrightarrow> ctl_step A s0 (recordPrefetchLatency n s)"
  by (auto intro: ctl_step_frame)

lemma ctl_step_prefetch [simp]:
  "ctl_step A s0 s \<Longrightarrow> ctl_step A s0 (recordPrefetchResult i s)"
  "ctl_step A s0 s \<Longrightarrow> ctl_step A s0 (record_line_prefetch l s)"
  by (simp_all add: recordPrefetchResult_def record_line_prefetch_def split: option.splits)

lemma record_prefetch_sel [simp]:
  "nlines (recordPrefetchResult i s) = nlines s" "timestamp (recordPrefetchResult i s) = timestamp s"
  "cl_state (the_line (recordPrefetchResult i s) j) = cl_state (the_line s j)"
  "cl_addr (the_line (recordPrefetchResult i s) j) = cl_addr (the_line s j)"
  "userLock (the_line (recordPrefetchResult i s) j) = userLock (the_line s j)"
  "cl_data (the_line (recordPrefetchResult i s) j) = cl_data (the_line s j)"
  "isAtomic (the_line (recordPrefetchResult i s) j) = isAtomic (the_line s j)"
  by (simp_all add: recordPrefetchResult_def the_line_on_line isAtomic_def setPrefetch_def)

lemma record_line_prefetch_sel [simp]:
  "nlines (record_line_prefetch l s) = nlines s" "timestamp (record_line_prefetch l s) = timestamp s"
  "cl_state (the_line (record_line_prefetch l s) j) = cl_state (the_line s j)"
  "cl_addr (the_line (record_line_prefetch l s) j) = cl_addr (the_line s j)"
  "userLock (the_line (record_line_prefetch l s) j) = userLock (the_line s j)"
  by (simp_all add: record_line_prefetch_def split: option.splits)

lemma l1_states_mem [simp]: "stI \<in> l1_states" "stS \<in> l1_states" "stE \<in> l1_states" "stM \<in> l1_states"
  "stIS \<in> l1_states" "stIM \<in> l1_states" "stSM \<in> l1_states" "stS_B \<in> l1_states" "stI_B \<in> l1_states"
  by (simp_all add: l1_states_def)

lemma line_sel_ops [simp]:
  "cl_state (atomicEnd l) = cl_state l" "userLock (atomicEnd l) = userLock l" "cl_addr (atomicEnd l) = cl_addr l"
  "cl_state (setPrefetch b l) = cl_state l" "userLock (setPrefetch b l) = userLock l" "cl_addr (setPrefetch b l) = cl_addr l"
  "cl_state (setTimestamp t l) = cl_state l" "userLock (setTimestamp t l) = userLock l" "cl_addr (setTimestamp t l) = cl_addr l"
  "cl_state (atomicStart t l) = cl_state l" "userLock (atomicStart t l) = userLock l" "cl_addr (atomicStart t l) = cl_addr l"
  "cl_state (setState st l) = st" "userLock (setState st l) = userLock l" "cl_addr (setState st l) = cl_addr l"
  "cl_state (incLock l) = cl_state l" "cl_addr (incLock l) = cl_addr l"
  "cl_state (decLock l) = cl_state l" "cl_addr (decLock l) = cl_addr l"
  "cl_data (setState st l) = cl_data l" "cl_data (setTimestamp t l) = cl_data l" "cl_data (setPrefetch b l) = cl_data l"
  "cl_data (atomicEnd l) = cl_data l" "cl_data (atomicStart t l) = cl_data l" "cl_data (incLock l) = cl_data l" "cl_data (decLock l) = cl_data l"
  by (simp_all add: line_op_defs)

lemma isLocked_userLock: "\<not> isLocked t l \<Longrightarrow> userLock l = 0"
  by (auto simp: isLocked_def word_gt_0 split: if_splits)

lemma state_of_simps [simp]: "state_of s (Some i) = cl_state (the_line s i)" "state_of s None = stI"
  by (simp_all add: state_of_def)

lemma line_locked_simps [simp]: "line_locked (Some i) s = isLocked (timestamp s) (the_line s i)" "line_locked None s = False"
  by (simp_all add: line_locked_def)

lemma state_of_same: "same_lines s s' \<Longrightarrow> state_of s' l = state_of s l"
  by (cases l) (auto simp: same_lines_def)

lemma line_locked_same: "same_lines s s' \<Longrightarrow> line_locked l s' = line_locked l s"
  by (cases l) (auto simp: same_lines_def)

subsection \<open>Rules for running a handler\<close>

definition okP :: "Addr set \<Rightarrow> Ctl \<Rightarrow> ('a \<Rightarrow> Ctl) \<Rightarrow> 'a res \<Rightarrow> bool" where
  "okP A s0 pr m \<longleftrightarrow> okE (\<lambda>x. ctl_step A s0 (pr x)) m"

lemma okP_Inr [simp]: "okP A s0 pr (Inr x) = ctl_step A s0 (pr x)" "okP A s0 pr (Inl e)"
  by (simp_all add: okP_def)

lemma okP_InrI: "ctl_step A s0 (pr x) \<Longrightarrow> okP A s0 pr (Inr x)"
  by simp

lemma okP_if: "(b \<Longrightarrow> okP A s0 pr m) \<Longrightarrow> (\<not> b \<Longrightarrow> okP A s0 pr n) \<Longrightarrow> okP A s0 pr (if b then m else n)"
  by simp

lemma ok_with_line: "(\<And>i. l = Some i \<Longrightarrow> okP A s0 pr (f i)) \<Longrightarrow> okP A s0 pr (with_line l f)"
  by (auto simp: with_line_def split: option.splits)

lemma ok_bind_if:
  "(b \<Longrightarrow> okP A s0 id m) \<Longrightarrow> (\<not> b \<Longrightarrow> okP A s0 id n) \<Longrightarrow> (\<And>s'. ctl_step A s0 s' \<Longrightarrow> okP A s0 pr (f s')) \<Longrightarrow>
     okP A s0 pr (bindE (if b then m else n) f)"
  by (cases "if b then m else n") (auto simp: okP_def split: if_splits)

lemma ok_bind: "okP A s0 id m \<Longrightarrow> (\<And>s'. ctl_step A s0 s' \<Longrightarrow> okP A s0 pr (f s')) \<Longrightarrow> okP A s0 pr (bindE m f)"
  by (cases m) (auto simp: okP_def)

lemma ok_step:
  assumes "okE (\<lambda>s'. frame s s') m" and "ctl_step A s0 s"
    and "\<And>s'. same_lines s s' \<Longrightarrow> ctl_step A s0 s' \<Longrightarrow> okP A s0 pr (f s')"
  shows "okP A s0 pr (bindE m f)"
  using assms(2,3) unfolding okP_def by (intro okE_bind [OF assms(1)]) (auto intro: ctl_step_frame frame_same_lines)

lemma ok_step2:
  assumes "okE (\<lambda>(s', t). frame s s') m" and "ctl_step A s0 s"
    and "\<And>s' t. same_lines s s' \<Longrightarrow> ctl_step A s0 s' \<Longrightarrow> okP A s0 pr (f s' t)"
  shows "okP A s0 pr (bindE m (\<lambda>(s, t). f s t))"
  using assms(2,3) unfolding okP_def by (intro okE_bind [OF assms(1)]) (auto intro: ctl_step_frame frame_same_lines)

lemma ok_last: "okE (\<lambda>(s', t). frame s s') m \<Longrightarrow> ctl_step A s0 s \<Longrightarrow> okP A s0 fst m"
  by (auto simp: okP_def elim!: okE_mono intro: ctl_step_frame)

lemma ok_last1: "okE (\<lambda>s'. frame s s') m \<Longrightarrow> ctl_step A s0 s \<Longrightarrow> okP A s0 id m"
  by (auto simp: okP_def elim!: okE_mono intro: ctl_step_frame)

text \<open>Position \<open>i\<close> belongs to the set of address \<open>a\<close>.\<close>

definition in_set :: "Ctl \<Rightarrow> Addr \<Rightarrow> nat \<Rightarrow> bool" where
  "in_set s a i \<longleftrightarrow> setBegin (c_array s) a \<le> i \<and> i < setBegin (c_array s) a + unat (associativity (c_array s))"

lemma in_set_step: "ctl_step A s s' \<Longrightarrow> in_set s' a i = in_set s a i"
  by (simp add: ctl_step_def arr_step_def same_sets_def in_set_def)

lemma lookup_None:
  "lookup a u c = Inr (c', None) \<Longrightarrow> find_line (ca_lines c) a (setBegin c a) (unat (associativity c)) = Inr None"
  by (auto simp: lookup_def bindE_eq_Inr_iff split: option.splits if_splits) (metis option.exhaust)

text \<open>The result of a lookup: the first line of the set with the address.\<close>

definition hit :: "Ctl \<Rightarrow> Ctl \<Rightarrow> Addr \<Rightarrow> nat option \<Rightarrow> bool" where
  "hit s0 s a l \<longleftrightarrow> (case l of None \<Rightarrow> \<forall>i. in_set s0 a i \<longrightarrow> cl_addr (the_line s i) \<noteq> a
     | Some i \<Rightarrow> in_set s0 a i \<and> i < nlines s \<and> cl_addr (the_line s i) = a \<and>
         (\<forall>k. in_set s0 a k \<longrightarrow> k < i \<longrightarrow> cl_addr (the_line s k) \<noteq> a))"

lemma hit_unique: "hit s0 s a l \<Longrightarrow> hit s0 s' a l' \<Longrightarrow> the_line s' = the_line s \<Longrightarrow> l' = l"
  by (auto simp: hit_def split: option.splits) (metis linorder_neqE_nat)

lemma hit_Some: "hit s0 s a (Some i) \<Longrightarrow> cl_addr (the_line s i) = a \<and> i < nlines s \<and> in_set s0 a i"
  by (simp add: hit_def)

lemma hit_None: "hit s0 s a None \<Longrightarrow> in_set s0 a i \<Longrightarrow> cl_addr (the_line s i) \<noteq> a"
  by (simp add: hit_def)

lemma hit_same: "same_lines s s' \<Longrightarrow> hit s0 s' a l = hit s0 s a l"
  by (cases l) (auto simp: hit_def same_lines_def)

lemma lookupL_hit:
  assumes "lookupL a u s = Inr (s', l)"
  shows "ctl_step A s s'" and "same_lines s s'" and "hit s s' a l" and "c_mshr s' = c_mshr s"
proof -
  obtain c where c: "lookup a u (c_array s) = Inr (c, l)" "s' = s\<lparr>c_array := c\<rparr>"
    using assms by (auto simp: lookupL_def bindE_eq_Inr_iff)
  note st = lookup_step [OF c(1)]
  show "ctl_step A s s'" and "c_mshr s' = c_mshr s" using c(2) st(1) by (simp_all add: ctl_step_def)
  show "same_lines s s'" using st(2) c(2) by (simp add: same_lines_def the_line_def line_at_def fun_eq_iff)
  have f: "find_line (ca_lines (c_array s)) a (setBegin (c_array s) a) (unat (associativity (c_array s))) = Inr l"
  proof (cases l)
    case None
    with c show ?thesis using lookup_None by blast
  next
    case (Some i)
    with c(1) show ?thesis by (auto simp: lookup_def bindE_eq_Inr_iff split: option.splits if_splits)
  qed
  show "hit s s' a l"
  proof (cases l)
    case None
    with f st(2) c(2) show ?thesis by (auto simp: hit_def in_set_def the_line_def line_at_def dest: find_line_None)
  next
    case (Some i)
    with f st(2) c(2) show ?thesis by (auto simp: hit_def in_set_def the_line_def line_at_def dest!: find_line_Some)
  qed
qed

lemma ok_lookupL:
  assumes "ctl_step A s0 s"
    and "\<And>s' l. ctl_step A s0 s' \<Longrightarrow> same_lines s s' \<Longrightarrow> hit s0 s' a l \<Longrightarrow> okP A s0 pr (f s' l)"
  shows "okP A s0 pr (bindE (lookupL a u s) (\<lambda>(s, l). f s l))"
proof (cases "lookupL a u s")
  case (Inr p)
  obtain s' l where p: "p = (s', l)" by force
  note h = lookupL_hit [OF Inr [unfolded p]]
  have "hit s0 s' a l" using h(3) in_set_step [OF assms(1)] by (cases l) (simp_all add: hit_def)
  then show ?thesis using assms(2) ctl_step_trans [OF assms(1) h(1)] h(2) by (simp add: Inr p)
qed simp

lemma okf1:
  "okE (frame s) (snoopInvalidation env ev l s)" "okE (frame s) (begin_retry a b s)" "okE (frame s) (cleanUpAfterRequest env ev b s)"
  "okE (frame s) (cleanUpAfterResponse env ev b s)" "okE (frame s) (sendResponseDown env ev l d s)"
  "okE (frame s) (profile_miss ev z s)" "okE (frame s) (profile_hit ev b z s)" "okE (frame s) (drop_evict_pointer env a a' s)"
  "okE (frame s) (on_mshr (insertEviction t a a') s)" "okE (frame s) (on_mshr (setInProgress a b) s)"
  "okE (frame s) (on_mshr (setProfiled a) s)" "okE (frame s) (retry_front a s)" "okE (frame s) (resendEvent env ev s)"
  "okE (frame s) (forwardByAddress env ev t s)" "okE (frame s) (Inr s)"
  by (auto simp: okE_iff dest: frames)

lemma okf2:
  "okE (\<lambda>(s', x). frame s s') (sendResponseUp env ev d b t u s)" "okE (\<lambda>(s', x). frame s s') (forwardMessage env ev n t d c s)"
  "okE (\<lambda>(s', x). frame s s') (stall_default env ev b s)" "okE (\<lambda>(s', x). frame s s') (stall_locked env ev b s)"
  by (auto simp: okE_iff dest: frames)

lemma okf_if: "okE (frame s) m \<Longrightarrow> okE (frame s) (if b then m else Inr s)"
  by simp

lemmas ok_run1 = okf1 [THEN ok_step]
lemmas ok_run2 = okf2 [THEN ok_step2]
lemmas ok_end = okf2 [THEN ok_last] okf1 [THEN ok_last1]
lemmas ok_run = ok_with_line ok_lookupL ok_run1 ok_run2 ok_end ok_bind_if okP_if

lemma ok_surrender:
  assumes "ctl_step A s0 s" and "st \<in> l1_states"
    and "\<And>i. l = Some i \<Longrightarrow> cl_state (the_line s i) \<noteq> stM \<or> userLock (the_line s i) = 0"
  shows "okP A s0 id (surrender env ev l d st s)"
  unfolding surrender_def using assms
  by (intro ok_run) (auto simp: same_lines_def the_line_on_line intro!: ctl_step_setState split: if_splits)

lemma ok_set_line_state:
  assumes "ctl_step A s0 s" and "st \<in> l1_states" and "\<And>i. l = Some i \<Longrightarrow> cl_state (the_line s i) \<noteq> stM"
  shows "okP A s0 id (set_line_state l st s)"
  unfolding set_line_state_def using assms by (intro ok_run) (auto intro!: ctl_step_setState)

lemmas ok_inval = ok_run ok_surrender ok_set_line_state

lemma handleFetch_step: "okP A s fst (handleFetch env ev b s)"
  unfolding handleFetch_def Let_def by (intro ok_inval) auto

lemma handleInv_step: "okP A s fst (handleInv env ev b s)"
  unfolding handleInv_def Let_def by (intro ok_inval) (auto simp: same_lines_def)

lemma handleForceInv_step: "okP A s fst (handleForceInv env ev b s)"
  unfolding handleForceInv_def Let_def by (intro ok_inval) (auto simp: same_lines_def dest: isLocked_userLock)

lemma handleFetchInv_step: "okP A s fst (handleFetchInv env ev b s)"
  unfolding handleFetchInv_def Let_def by (intro ok_inval) (auto simp: same_lines_def dest: isLocked_userLock)

lemma handleFetchInvX_step: "okP A s fst (handleFetchInvX env ev b s)"
  unfolding handleFetchInvX_def Let_def by (intro ok_inval) (auto simp: same_lines_def dest: isLocked_userLock)

lemma handleAckPut_step: "okP A s fst (handleAckPut env ev b s)"
  unfolding handleAckPut_def by (intro ok_run) auto

lemma handleNACK_step: "okP A s fst (handleNACK env ev b s)"
  unfolding handleNACK_def by (auto intro!: ok_run split: option.splits)


subsection \<open>Evictions\<close>

text \<open>Sending that also moves the line's timestamp.\<close>

definition soft :: "Ctl \<Rightarrow> Ctl \<Rightarrow> bool" where
  "soft s s' \<longleftrightarrow> nlines s' = nlines s \<and> timestamp s' = timestamp s \<and>
     (\<forall>j. line_key (the_line s' j) = line_key (the_line s j))"

lemma soft_refl [simp]: "soft s s"
  by (simp add: soft_def)

lemma soft_trans: "soft s t \<Longrightarrow> soft t u \<Longrightarrow> soft s u"
  by (simp add: soft_def)

lemma same_lines_soft: "same_lines s s' \<Longrightarrow> soft s s'"
  by (simp add: same_lines_def soft_def)

lemma soft_D: "soft s s' \<Longrightarrow> cl_state (the_line s' j) = cl_state (the_line s j) \<and> userLock (the_line s' j) = userLock (the_line s j)
    \<and> cl_addr (the_line s' j) = cl_addr (the_line s j) \<and> cl_data (the_line s' j) = cl_data (the_line s j) \<and> nlines s' = nlines s \<and>
    timestamp s' = timestamp s"
  by (simp add: soft_def line_key_def)

lemma soft_timestamp [simp]: "soft s (on_line i (setTimestamp t) s')" if "soft s s'"
  using that by (auto simp: soft_def the_line_on_line line_key_def split: if_splits)

lemma frame_soft: "frame s s' \<Longrightarrow> soft s s'"
  by (simp add: frame_same_lines same_lines_soft)

lemma ok_soft:
  assumes "okE (\<lambda>s'. ctl_step A s s' \<and> soft s s') m" and "ctl_step A s0 s"
    and "\<And>s'. soft s s' \<Longrightarrow> ctl_step A s0 s' \<Longrightarrow> okP A s0 pr (f s')"
  shows "okP A s0 pr (bindE m f)"
  using assms(2,3) unfolding okP_def by (intro okE_bind [OF assms(1)]) (auto intro: ctl_step_trans)

lemma frame_newevent: "new_event env src a b c s = (e, s') \<Longrightarrow> frame s s'"
  by (auto simp: new_event_def frame_def)

lemma sendWriteback_soft: "okE (\<lambda>s'. ctl_step A s s' \<and> soft s s') (sendWriteback env c i d s)"
proof (cases "sendWriteback env c i d s")
  case (Inr s')
  obtain s1 s2 e t e' src a b c' where r: "new_event env src a b c' s = (e, s1)" "forwardByAddress env e' t s1 = Inr s2"
      "s' = on_line i (setTimestamp (t - 1)) s2"
    using Inr by (auto simp: sendWriteback_def Let_def bindE_eq_Inr_iff split: prod.splits)
  have f: "frame s s2" using frame_newevent [OF r(1)] frame_forwardByAddress [OF r(2)] by (rule frame_trans)
  then have "ctl_step A s s2" by (rule ctl_step_frame [OF ctl_step_refl])
  then show ?thesis using Inr r(3) frame_soft [OF f] by simp
qed simp

lemma forwardFlush_soft: "okE (\<lambda>s'. ctl_step A s s' \<and> soft s s') (forwardFlush env ev l d s)"
proof (cases "forwardFlush env ev l d s")
  case (Inr s')
  obtain s2 e t where r: "forwardByAddress env e t (snd (alloc s)) = Inr s2"
      "s' = (case l of None \<Rightarrow> s2 | Some i \<Rightarrow> on_line i (setTimestamp (t - 1)) s2)"
    using Inr by (auto simp: forwardFlush_def Let_def bindE_eq_Inr_iff split: prod.splits)
  have f: "frame s s2" using frame_forwardByAddress [OF r(1)] by (simp add: frame_def alloc_def)
  then have "ctl_step A s s2" by (rule ctl_step_frame [OF ctl_step_refl])
  then show ?thesis using Inr r(2) frame_soft [OF f] by (auto split: option.splits)
qed simp

lemmas ok_softs = sendWriteback_soft [THEN ok_soft] forwardFlush_soft [THEN ok_soft]

lemma frame_insertWriteback: "frame s (s\<lparr>c_mshr := insertWriteback t a d (c_mshr s)\<rparr>)"
  by (simp add: frame_def mshr_ok_insertWriteback)

definition same_tags :: "Ctl \<Rightarrow> Ctl \<Rightarrow> bool" where
  "same_tags s s' \<longleftrightarrow> nlines s' = nlines s \<and> (\<forall>j. cl_addr (the_line s' j) = cl_addr (the_line s j))"

lemma same_tags_trans: "same_tags s t \<Longrightarrow> same_tags t u \<Longrightarrow> same_tags s u"
  by (simp add: same_tags_def)

lemma same_tags_ops [simp]:
  "same_tags s s" "same_tags s (recordPrefetchResult i t) = same_tags s t" "same_tags s (on_line i atomicEnd t) = same_tags s t"
  by (auto simp: same_tags_def the_line_on_line)

lemma evict_to_I:
  assumes "ctl_step A s s1" and "soft s s1" and "i < nlines s" and "userLock (the_line s i) = 0"
  shows "ctl_step A s (on_line i (setState stI) s1) \<and> same_tags s (on_line i (setState stI) s1) \<and>
     cl_state (the_line (on_line i (setState stI) s1) i) = stI"
  using assms soft_D [OF assms(2)] by (auto intro!: ctl_step_setState simp: the_line_on_line same_tags_def)

lemma frame_ack: "frame s (if recvWritebackAck s
    then s\<lparr>c_mshr := insertWriteback t a d (c_mshr s)\<rparr> else s)"
  by (simp add: frame_insertWriteback)

lemma soft_ack:
  assumes "ctl_step A s u \<and> soft s u"
  shows "ctl_step A s (if recvWritebackAck u then u\<lparr>c_mshr := insertWriteback t a d (c_mshr u)\<rparr> else u) \<and>
     soft s (if recvWritebackAck u then u\<lparr>c_mshr := insertWriteback t a d (c_mshr u)\<rparr> else u)"
  using assms ctl_step_frame [OF _ frame_ack] soft_trans [OF _ frame_soft [OF frame_ack]] by blast

lemma evict_clean_step:
  assumes "i < nlines s" and "userLock (the_line s i) = 0"
  shows "okE (\<lambda>s'. ctl_step A s s' \<and> same_tags s s' \<and> cl_state (the_line s' i) = stI) (evict_clean env c i s)"
  unfolding evict_clean_def
proof (rule okE_bind [where P = "\<lambda>s'. ctl_step A s s' \<and> soft s s'"], goal_cases)
  case 1
  show ?case
  proof (rule okE_if, rule okE_bind [OF sendWriteback_soft [of A]])
    fix t assume "ctl_step A s t \<and> soft s t"
    from soft_ack [OF this] show "okE (\<lambda>s'. ctl_step A s s' \<and> soft s s') (Inr (if recvWritebackAck t
      then t\<lparr>c_mshr := insertWriteback (simCycle env) (cl_addr (the_line t i)) False (c_mshr t)\<rparr> else t))"
      by (simp only: okE_Inr)
  qed simp
next
  case (2 t)
  then show ?case using evict_to_I [of A s t i] assms by simp
qed

lemma evict_dirty_step:
  assumes "i < nlines s" and "userLock (the_line s i) = 0"
  shows "okE (\<lambda>s'. ctl_step A s s' \<and> same_tags s s' \<and> cl_state (the_line s' i) = stI) (evict_dirty env i s)"
  unfolding evict_dirty_def Let_def
proof (rule okE_bind [OF sendWriteback_soft [of A]], goal_cases)
  case (1 t)
  note a = soft_ack [OF 1(2), of "simCycle env" "cl_addr (the_line t i)" False]
  show ?case unfolding okE_Inr by (rule evict_to_I [OF conjunct1 [OF a] conjunct2 [OF a] assms])
qed

lemma handleEviction_step:
  assumes "\<And>i. line = Some i \<Longrightarrow> i < nlines s"
  shows "okE (\<lambda>(s', i, e). ctl_step A s s' \<and> i < nlines s' \<and> same_tags s s' \<and> (e \<longrightarrow> cl_state (the_line s' i) = stI))
     (handleEviction env a line s)"
  unfolding handleEviction_def Let_def
proof (rule okE_bind [where P = "\<lambda>(s', i). ctl_step A s s' \<and> i < nlines s' \<and> same_tags s s'"], goal_cases)
  case 1
  then show ?case using assms
    by (auto split: option.splits simp: okE_iff bindE_eq_Inr_iff ctl_step_def candidate_step same_tags_def the_line_def line_at_def)
next
  case (2 p)
  obtain t i where p: "p = (t, i)" by force
  have t: "ctl_step A s t" "i < nlines t" "same_tags s t" using 2 p by auto
  define Q where "Q = (\<lambda>(s', i, e). ctl_step A s s' \<and> i < nlines s' \<and> same_tags s s' \<and> (e \<longrightarrow> cl_state (the_line s' i) = stI))"
  have fin: "okE Q (bindE m (\<lambda>u. Inr (recordPrefetchResult i (on_line i atomicEnd u), i, True)))"
    if "okE (\<lambda>s'. ctl_step A t s' \<and> same_tags t s' \<and> cl_state (the_line s' i) = stI) m" for m
    using t by (auto intro!: okE_bind [OF that] ctl_step_trans [OF t(1)] simp: Q_def the_line_on_line)
      (auto simp: same_tags_def)
  show ?case
    unfolding p prod.case Q_def [symmetric]
  proof (intro okE_if fin evict_clean_step evict_dirty_step)
  qed (use t in \<open>auto simp: Q_def dest: isLocked_userLock\<close>)
qed

subsection \<open>Misses\<close>

text \<open>After a line is allocated for \<open>a\<close>, every line of its set with that address is invalid.\<close>

definition fresh :: "Ctl \<Rightarrow> Ctl \<Rightarrow> Addr \<Rightarrow> bool" where
  "fresh s0 s a \<longleftrightarrow> (\<forall>i. in_set s0 a i \<longrightarrow> cl_addr (the_line s i) = a \<longrightarrow> cl_state (the_line s i) = stI)"

lemma allocateLine_step:
  assumes "\<And>i. in_set s (baseAddr ev) i \<Longrightarrow> cl_addr (the_line s i) \<noteq> baseAddr ev"
  shows "okE (\<lambda>(s', l). ctl_step A s s' \<and> (l \<noteq> None \<longrightarrow> fresh s' s' (baseAddr ev))) (allocateLine env ev None s)"
  unfolding allocateLine_def
proof (rule okE_bind [OF handleEviction_step [of None s A]], goal_cases)
  case (2 p)
  obtain t i e where p: "p = (t, i, e)" by (cases p) auto
  have t: "ctl_step A s t" "i < nlines t" "same_tags s t" "e \<Longrightarrow> cl_state (the_line t i) = stI" using 2 p by auto
  have fr: "in_set t (baseAddr ev) j \<Longrightarrow> cl_addr (the_line t j) \<noteq> baseAddr ev" for j
    using assms t(3) in_set_step [OF t(1)] by (simp add: same_tags_def)
  have "okE (\<lambda>(s', l). ctl_step A s s' \<and> (l \<noteq> None \<longrightarrow> fresh s' s' (baseAddr ev)))
     (bindE (replace (baseAddr ev) i (c_array t)) (\<lambda>c. Inr (t\<lparr>c_array := c\<rparr>, Some i)))" if e
  proof (cases "replace (baseAddr ev) i (c_array t)")
    case (Inr c)
    have st: "ctl_step A t (t\<lparr>c_array := c\<rparr>)"
      using arr_step_replace [OF Inr, of A] t(4) that by (simp add: ctl_step_def the_line_def)
    have ln: "line_at c j = (if i = j \<and> i < nlines t then setAddr (baseAddr ev) (L1_reset (the_line t i)) else the_line t j)" for j
      using Inr by (auto simp: replace_def Let_def bindE_eq_Inr_iff line_at_upd the_line_def)
    have "fresh (t\<lparr>c_array := c\<rparr>) (t\<lparr>c_array := c\<rparr>) (baseAddr ev)"
      using fr in_set_step [OF st] by (auto simp: fresh_def the_line_def ln line_op_defs)
    then show ?thesis using ctl_step_trans [OF t(1) st] by (simp add: Inr)
  qed simp
  moreover have "okE (\<lambda>(s', l). ctl_step A s s' \<and> (l \<noteq> None \<longrightarrow> fresh s' s' (baseAddr ev)))
     (bindE (on_mshr (insertEviction (simCycle env) (cl_addr (the_line t i)) (baseAddr ev)) t) (\<lambda>s. Inr (s, None :: nat option)))"
    using t(1) by (auto intro!: okE_bind [OF okf1(9)] intro: ctl_step_frame)
  ultimately show ?case by (simp add: p)
qed simp

lemma ok_processCacheMiss:
  assumes "ctl_step A s0 s"
    and "l = None \<Longrightarrow> hit s0 s (baseAddr ev) l"
    and "\<And>s' st. ctl_step A s0 s' \<Longrightarrow> (l \<noteq> None \<longrightarrow> same_lines s s') \<Longrightarrow>
      (l = None \<longrightarrow> st = OK \<longrightarrow> fresh s0 s' (baseAddr ev)) \<Longrightarrow> okP A s0 pr (f s' st)"
  shows "okP A s0 pr (bindE (processCacheMiss env ev l b s) (\<lambda>(s, st). f s st))"
proof -
  let ?Q = "\<lambda>(s', st). ctl_step A s0 s' \<and> (l \<noteq> None \<longrightarrow> same_lines s s') \<and> (l = None \<longrightarrow> st = OK \<longrightarrow> fresh s0 s' (baseAddr ev))"
  have "okE ?Q (processCacheMiss env ev l b s)"
    unfolding processCacheMiss_def
  proof (rule okE_bind [where P = "\<lambda>(s', st). frame s s'"], goal_cases)
    case 1
    show ?case by (auto simp: okE_iff bindE_eq_Inr_iff dest: frame_allocateMSHR split: if_splits)
  next
    case (2 p)
    obtain t st where p: "p = (t, st)" by force
    have f: "frame s t" using 2 p by simp
    have t: "ctl_step A s0 t" "same_lines s t" using ctl_step_frame [OF assms(1) f] frame_same_lines [OF f] by auto
    show ?case
    proof (cases "st = OK \<and> l = None")
      case True
      have "\<And>i. in_set t (baseAddr ev) i \<Longrightarrow> cl_addr (the_line t i) \<noteq> baseAddr ev"
        using assms(2) True hit_None t(2) in_set_step [OF t(1)] by (auto simp: same_lines_def)
      from allocateLine_step [OF this, where A = A] have
        "okE ?Q (bindE (allocateLine env ev None t) (\<lambda>(s, l). Inr (s, if l = None then Stall else OK)))"
        using True ctl_step_trans [OF t(1)] in_set_step [OF ctl_step_trans [OF t(1)]]
        by (fastforce intro!: okE_bind simp: fresh_def)
      with True show ?thesis by (simp add: p)
    next
      case False
      then show ?thesis using t by (auto simp: p)
    qed
  qed
  then show ?thesis using assms(3) unfolding okP_def by (auto intro!: okE_bind)
qed

lemma on_line_comp: "on_line i (\<lambda>l. g (f l)) s = on_line i g (on_line i f s)"
  by (cases "i < nlines s") (simp_all add: on_line_def upd_line_def list_update_beyond)

lemma ok_issue_miss:
  assumes "ctl_step A s0 s" and "st \<in> l1_states" and "\<And>i. l = Some i \<Longrightarrow> cl_state (the_line s i) \<noteq> stM"
    and "\<And>s'. ctl_step A s0 s' \<Longrightarrow> okP A s0 pr (f s')"
  shows "okP A s0 pr (bindE (issue_miss env ev c l st s) f)"
proof (rule ok_bind)
  show "okP A s0 id (issue_miss env ev c l st s)"
    unfolding issue_miss_def
  proof (intro ok_run, goal_cases)
    case (2 t u i)
    have "ctl_step A s0 (on_line i (setState st) t)"
      using 2 assms(2,3) by (auto intro!: ctl_step_setState simp: same_lines_def)
    then show ?case by (simp add: on_line_comp)
  qed (use assms(1) in auto)
qed (rule assms(4))


subsection \<open>Requests\<close>

text \<open>Operations that only read.\<close>

lemma ok_bind_pure: "(\<And>x. m = Inr x \<Longrightarrow> okP A s0 pr (f x)) \<Longrightarrow> okP A s0 pr (bindE m f)"
  by (cases m) auto

lemma ok_pure:
  "(\<And>x. okP A s0 pr (f x)) \<Longrightarrow> okP A s0 pr (bindE (vec_slice d n k) f)"
  "(\<And>x. okP A s0 pr (f2 x)) \<Longrightarrow> okP A s0 pr (bindE (vec_copy d n d') f2)"
  "(\<And>x. okP A s0 pr (f3 x)) \<Longrightarrow> okP A s0 pr (bindE (getProfiled m a) f3)"
  "(\<And>x. okP A s0 pr (f4 x)) \<Longrightarrow> okP A s0 pr (bindE (front_request a s) f4)"
  "(\<And>x. okP A s0 pr (f5 x)) \<Longrightarrow> okP A s0 pr (bindE (getFrontEvent m a) f5)"
  "(\<And>x. okP A s0 pr (f5 x)) \<Longrightarrow> okP A s0 pr (bindE (if b then getFrontEvent m a else Inr z) f5)"
  by (rule ok_bind_pure, assumption)+

definition hard :: "nat \<Rightarrow> Ctl \<Rightarrow> Ctl \<Rightarrow> bool" where
  "hard i s s' \<longleftrightarrow> nlines s' = nlines s \<and> timestamp s' = timestamp s \<and> c_mshr s' = c_mshr s \<and>
     cl_state (the_line s' i) = cl_state (the_line s i) \<and> cl_addr (the_line s' i) = cl_addr (the_line s i)"

lemma geom_keep_data: "length d = length (cl_data l) \<Longrightarrow> line_ok z i l \<Longrightarrow> line_ok z i (l\<lparr>cl_data := d\<rparr>)"
  by (simp add: line_ok_def)

lemma write_line_step:
  assumes "i < nlines s \<Longrightarrow> \<not> held (the_line s i) \<or> cl_addr (the_line s i) \<in> A"
  shows "okE (\<lambda>s'. ctl_step A s s' \<and> hard i s s') (write_line i d off s)"
proof (cases "write_line i d off s")
  case (Inr s')
  obtain v where v: "vec_copy d (unat (ucast off :: u32)) (cl_data (the_line s i)) = Inr v"
      "s' = on_line i (\<lambda>_. (the_line s i)\<lparr>cl_data := v\<rparr>) s"
    using Inr by (auto simp: write_line_def setData_def bindE_eq_Inr_iff)
  have len: "length v = length (cl_data (the_line s i))" using vec_copy_length [OF v(1)] .
  have "arr_ok (upd_line i (\<lambda>_. (line_at (c_array s) i)\<lparr>cl_data := v\<rparr>) (c_array s))" if "arr_ok (c_array s)"
    using that len by (cases "i < nlines s")
      (auto simp: arr_ok_def upd_line_def nth_list_update list_update_beyond line_at_def the_line_def geom_keep_data)
  then have "ctl_step A s s'" using assms line_step_data [of "the_line s i" A v]
    by (auto simp: ctl_step_def arr_step_def v(2) on_line_def line_at_upd the_line_def)
  moreover have "hard i s s'" by (simp add: v(2) hard_def the_line_on_line)
  ultimately show ?thesis by (simp add: Inr)
qed simp

lemma ok_write_line:
  assumes "ctl_step A s0 s" and "i < nlines s \<Longrightarrow> \<not> held (the_line s i) \<or> cl_addr (the_line s i) \<in> A"
    and "\<And>s'. hard i s s' \<Longrightarrow> ctl_step A s0 s' \<Longrightarrow> okP A s0 pr (f s')"
  shows "okP A s0 pr (bindE (write_line i d off s) f)"
  using assms(1,3) unfolding okP_def
  by (intro okE_bind [OF write_line_step [OF assms(2)]]) (auto intro: ctl_step_trans)

lemmas ok_request = ok_run ok_processCacheMiss ok_issue_miss ok_pure


lemma fresh_not_M: "fresh s0 s a \<Longrightarrow> hit s0 s a (Some i) \<Longrightarrow> cl_state (the_line s i) = stI"
  by (simp add: fresh_def hit_def)

text \<open>The second lookup of a miss finds an invalid line: the same one, or the one just allocated.\<close>

lemma miss_line:
  assumes "hit s0 s1 a l" and "same_lines s1 s2" and "state_of s1 l = stI"
    and "l \<noteq> None \<longrightarrow> same_lines s2 s3" and "l = None \<longrightarrow> st = OK \<longrightarrow> fresh s0 s3 a" and "st = OK"
    and "same_lines s3 s4" and "hit s0 s4 a l'" and "same_lines s4 s5" and "l' = Some i"
  shows "cl_state (the_line s5 i) \<noteq> stM"
proof (cases l)
  case None
  then have "cl_state (the_line s3 i) = stI" using assms(5-10) fresh_not_M hit_same [OF assms(7)] by simp
  then show ?thesis using assms(7,9) by (simp add: same_lines_def)
next
  case (Some j)
  then have e: "the_line s4 = the_line s1" using assms(2,4,7) by (simp add: same_lines_def)
  then have "l' = l" by (rule hit_unique [OF assms(1,8)])
  then show ?thesis using assms(3,9,10) e by (auto simp: same_lines_def)
qed

lemma handleGetS_step: "okP A s fst (handleGetS env ev b s)"
  unfolding handleGetS_def Let_def
  by (intro ok_request; (((rule miss_line, assumption+); fail) | auto simp: hit_same))


lemma ok_upgrade_last:
  assumes "ctl_step A s0 s" and "hit s0 s a l"
    and "\<And>s' st. ctl_step A s0 s' \<Longrightarrow> hit s0 s' a l \<Longrightarrow> st = state_of s' l \<Longrightarrow> (st \<noteq> stM \<longrightarrow> same_lines s s') \<Longrightarrow>
      okP A s0 pr (f s' st)"
  shows "okP A s0 pr (bindE (upgrade_last l s) (\<lambda>(s, st). f s st))"
proof (cases "state_of s l = stS \<and> lastLevel s")
  case True
  then obtain i where i: "l = Some i" by (cases l) auto
  have "hit s0 (on_line i (setState stM) s) a l"
    using assms(2) by (auto simp: hit_def i the_line_on_line)
  then have "okP A s0 pr (f (on_line i (setState stM) s) stM)"
    using i assms(1,2) hit_Some [of s0 s a i] by (intro assms(3)) (simp_all add: the_line_on_line)
  then show ?thesis using True i by (simp add: upgrade_last_def with_line_def)
next
  case False
  then show ?thesis using assms by (auto simp: upgrade_last_def same_lines_def)
qed

lemma store_bytes_step:
  assumes "i < nlines s \<Longrightarrow> \<not> held (the_line s i) \<or> cl_addr (the_line s i) \<in> A"
  shows "okE (\<lambda>(e, u, s'). ctl_step A s s' \<and> hard i s s') (store_bytes ev a i s)"
  unfolding store_bytes_def
  by (auto intro!: okE_bind [OF write_line_step [OF assms]] simp: hard_def the_line_on_line)

lemma ok_store_bytes:
  assumes "ctl_step A s0 s" and "i < nlines s \<Longrightarrow> \<not> held (the_line s i) \<or> cl_addr (the_line s i) \<in> A"
    and "\<And>e u s'. ctl_step A s0 s' \<Longrightarrow> hard i s s' \<Longrightarrow> okP A s0 pr (f e u s')"
  shows "okP A s0 pr (bindE (store_bytes ev a i s) (\<lambda>(e, u, s). f e u s))"
  using assms(1,3) unfolding okP_def
  by (intro okE_bind [OF store_bytes_step [OF assms(2)]]) (auto intro: ctl_step_trans)

lemma ctl_step_lock:
  assumes "ctl_step A s0 s" and "i < nlines s \<Longrightarrow> cl_state (the_line s i) = stM \<and> cl_addr (the_line s i) \<in> A"
  shows "ctl_step A s0 (on_line i incLock s)" and "ctl_step A s0 (on_line i decLock s)"
  using assms by (auto intro!: ctl_step_on_line line_step_lock)

lemmas ok_write = ok_request ok_upgrade_last ok_store_bytes ok_write_line

lemma miss_line_upgrade:
  assumes "hit s0 s1 a l" and "st0 = state_of s1 l" and "st0 = stI"
    and "l \<noteq> None \<longrightarrow> same_lines s1 s3" and "l = None \<longrightarrow> st = OK \<longrightarrow> fresh s0 s3 a" and "st = OK"
    and "same_lines s3 s4" and "hit s0 s4 a l'" and "same_lines s4 s5" and "l' = Some i"
  shows "cl_state (the_line s5 i) \<noteq> stM"
  using assms by (intro miss_line [OF assms(1) _ _ assms(4-10)]) (simp_all add: same_lines_def)

lemma handleGetX_step: "okP {baseAddr ev} s fst (handleGetX env ev b s)"
  unfolding handleGetX_def Let_def
  by (intro ok_write; (((rule miss_line_upgrade, assumption+); fail) | (auto simp: hit_same; fail) |
      auto simp: same_lines_def hard_def the_line_on_line dest!: hit_Some intro!: ctl_step_lock split: if_splits))

lemma handleGetSX_step: "okP {baseAddr ev} s fst (handleGetSX env ev b s)"
  unfolding handleGetSX_def Let_def
  by (intro ok_write; (((rule miss_line_upgrade, assumption+); fail) | (auto simp: hit_same; fail) |
      auto simp: same_lines_def hard_def the_line_on_line dest!: hit_Some intro!: ctl_step_lock split: if_splits))


subsection \<open>Flushes, responses and internal evictions\<close>

lemma ok_alloc:
  assumes "ctl_step A s0 s" and "\<And>s' st. same_lines s s' \<Longrightarrow> ctl_step A s0 s' \<Longrightarrow> okP A s0 pr (f s' st)"
  shows "okP A s0 pr (case allocateMSHR env ev w n e s of (s, st) \<Rightarrow> f s st)"
    and "okP A s0 pr (case (if b then (s, OK) else allocateMSHR env ev w n e s) of (s, st) \<Rightarrow> f s st)"
proof -
  obtain t st where t: "allocateMSHR env ev w n e s = (t, st)" by force
  note f = frame_allocateMSHR [OF t]
  from assms(2) [OF frame_same_lines [OF f] ctl_step_frame [OF assms(1) f]] assms(2) [of s OK] assms(1)
  show "okP A s0 pr (case allocateMSHR env ev w n e s of (s, st) \<Rightarrow> f s st)"
    and "okP A s0 pr (case (if b then (s, OK) else allocateMSHR env ev w n e s) of (s, st) \<Rightarrow> f s st)"
    by (simp_all add: t same_lines_def)
qed

lemma ok_flush_fails: "ctl_step A s0 s \<Longrightarrow> okP A s0 fst (flush_fails env ev b i s)"
  unfolding flush_fails_def by (intro ok_run) simp_all

lemma profile_flush_soft: "okE (\<lambda>s'. ctl_step A s s' \<and> soft s s') (profile_flush a l s)"
proof -
  have r: "soft s (record_line_prefetch l s)" "ctl_step A s (record_line_prefetch l s)"
    by (auto simp: soft_def record_line_prefetch_def line_key_def split: option.splits)
  have "okE (\<lambda>s'. ctl_step A s s' \<and> soft s s') (on_mshr (setProfiled a) (record_line_prefetch l s))"
    by (rule okE_mono [OF okf1(11)]) (blast intro: ctl_step_frame [OF r(2)] soft_trans [OF r(1) frame_soft])
  then show ?thesis unfolding profile_flush_def by (intro okE_bind [OF okE_True]) simp
qed

lemmas ok_flush = ok_alloc ok_flush_fails ok_request ok_softs profile_flush_soft [THEN ok_soft]

lemma handleFlushLine_step: "okP A s fst (handleFlushLine env ev b s)"
  unfolding handleFlushLine_def Let_def
  by (intro ok_flush; auto simp: same_lines_def soft_def line_key_def dest: isLocked_userLock intro!: ctl_step_setState ctl_step_records split: option.splits)

lemma handleFlushLineInv_step: "okP A s fst (handleFlushLineInv env ev b s)"
  unfolding handleFlushLineInv_def Let_def
  by (intro ok_flush; auto simp: same_lines_def soft_def line_key_def dest: isLocked_userLock intro!: ctl_step_setState ctl_step_records split: option.splits)


lemma ok_respond_bytes: "ctl_step A s0 s \<Longrightarrow> okP A s0 id (respond_bytes env req a i u s)"
  unfolding respond_bytes_def by (intro ok_pure ok_run) simp_all

lemma ok_finish_read: "ctl_step A s0 s \<Longrightarrow> okP A s0 id (finish_read env req a i s)"
  unfolding finish_read_def Let_def by (intro ok_run ok_respond_bytes) simp_all

lemma ok_finish_write:
  assumes "ctl_step A s0 s" and "i < nlines s" and "cl_state (the_line s i) = stM" and "cl_addr (the_line s i) \<in> A"
  shows "okP A s0 id (finish_write env req a i s)"
proof (cases "cmd req = Write \<or> cmd req = GetX")
  case True
  show ?thesis unfolding finish_write_def if_P [OF True] bindE_assoc split_beta bindE_Inr fst_conv snd_conv
    using assms
    by (intro ok_store_bytes [unfolded split_beta] ok_respond_bytes; auto simp: hard_def intro!: ctl_step_lock)
next
  case False
  then show ?thesis using assms unfolding finish_write_def
    by (auto intro!: ok_respond_bytes ctl_step_lock)
qed

lemma ok_lookupL_eq:
  assumes "ctl_step A s0 s"
    and "\<And>s' l. lookupL a u s = Inr (s', l) \<Longrightarrow> ctl_step A s0 s' \<Longrightarrow> same_lines s s' \<Longrightarrow> hit s0 s' a l \<Longrightarrow> okP A s0 pr (f s' l)"
  shows "okP A s0 pr (bindE (lookupL a u s) (\<lambda>(s, l). f s l))"
proof (cases "lookupL a u s")
  case (Inr p)
  obtain s' l where p: "p = (s', l)" by force
  note h = lookupL_hit [OF Inr [unfolded p]]
  have "hit s0 s' a l" using h(3) in_set_step [OF assms(1)] by (cases l) (simp_all add: hit_def)
  then show ?thesis using assms(2) ctl_step_trans [OF assms(1) h(1)] h(2) Inr by (simp add: p)
qed simp

lemma ok_write_if:
  assumes "ctl_step A s0 s" and "i < nlines s \<Longrightarrow> \<not> held (the_line s i) \<or> cl_addr (the_line s i) \<in> A"
    and "\<And>s'. hard i s s' \<Longrightarrow> ctl_step A s0 s' \<Longrightarrow> okP A s0 pr (f s')"
  shows "okP A s0 pr (bindE (if b then write_line i d off s else Inr s) f)"
  using ok_write_line [OF assms] assms(3) [of s] assms(1) by (simp add: hard_def)

lemmas ok_finish = ok_finish_read [THEN ok_bind] ok_finish_write [THEN ok_bind]

lemma handleGetSResp_step:
  assumes "\<And>s' i. lookupL (baseAddr ev) False s = Inr (s', Some i) \<Longrightarrow> cl_state (the_line s i) = stIS"
  shows "okP A s fst (handleGetSResp env ev b s)"
  unfolding handleGetSResp_def Let_def
  by (rule ok_lookupL_eq; (intro ok_write ok_finish)?;
      auto simp: same_lines_def hard_def held_def intro!: ctl_step_setState dest: assms)

lemma handleGetXResp_step:
  assumes "protocolState env \<in> {stE, stS}"
  shows "okP {baseAddr ev} s fst (handleGetXResp env ev b s)"
  unfolding handleGetXResp_def Let_def
  using assms
  by (intro ok_write_if ok_write ok_finish_read ok_finish_write;
      auto simp: same_lines_def hard_def held_def the_line_on_line dest!: hit_Some intro!: ctl_step_setState)

lemma handleFlushLineResp_step: "okP A s fst (handleFlushLineResp env ev b s)"
  unfolding handleFlushLineResp_def Let_def
  by (intro ok_flush ok_set_line_state; auto simp: on_line_comp same_lines_def intro!: ok_flush ctl_step_benign(4) ctl_step_setState split: option.splits)

lemma handleNULLCMD_step: "okP A s fst (handleNULLCMD env ev b s)"
  unfolding handleNULLCMD_def Let_def
proof (rule ok_lookupL)
  fix t l assume t: "ctl_step A s t" "same_lines s t" "hit s t (ev_addr ev) l"
  have "okE (\<lambda>(s', i, e). ctl_step A t s' \<and> i < nlines s' \<and> same_tags t s' \<and> (e \<longrightarrow> cl_state (the_line s' i) = stI))
     (handleEviction env (baseAddr ev) l t)"
    using hit_Some t(3) by (intro handleEviction_step) blast
  then show "okP A s fst (bindE (handleEviction env (baseAddr ev) l t) (\<lambda>(s, i, evicted).
      if evicted then bindE (deallocate i (c_array s)) (\<lambda>c.
          bindE (retry_front (baseAddr ev) (s\<lparr>c_array := c\<rparr>)) (\<lambda>s.
          bindE (drop_evict_pointer env (ev_addr ev) (baseAddr ev) s) (\<lambda>s. Inr (s, True))))
      else if ev_addr ev \<noteq> cl_addr (the_line s i) then
          bindE (on_mshr (insertEviction (simCycle env) (cl_addr (the_line s i)) (baseAddr ev)) s) (\<lambda>s.
          bindE (drop_evict_pointer env (ev_addr ev) (baseAddr ev) s) (\<lambda>s. Inr (s, True)))
      else Inr (s, True)))"
    unfolding okP_def
  proof (rule okE_bind, goal_cases)
    case (1 p)
    obtain u i e where p: "p = (u, i, e)" by (cases p) auto
    have u: "ctl_step A s u" "e \<Longrightarrow> cl_state (the_line u i) = stI" using 1 p ctl_step_trans [OF t(1)] by auto
    have "ctl_step A s (u\<lparr>c_array := c\<rparr>)" if "deallocate i (c_array u) = Inr c" e for c
    proof -
      have "arr_step A (c_array u) c" using arr_step_deallocate [OF that(1)] u(2) that(2) by (simp add: the_line_def)
      with u(1) show ?thesis by (auto simp: ctl_step_def intro: arr_step_trans)
    qed
    with u(1) show ?case
      unfolding p prod.case okP_def [symmetric]
      by (intro ok_bind_pure ok_run; auto)
  qed
qed simp

subsection \<open>All handlers\<close>

text \<open>
  What the level below guarantees: a data response to a read comes while the line waits for
  it. The addresses whose locked lines an event may change: those of the writes, locking
  reads and their responses.
\<close>

definition expected :: "MemEvent \<Rightarrow> Ctl \<Rightarrow> bool" where
  "expected ev s \<longleftrightarrow> (cmd ev = GetSResp \<longrightarrow> (case lookupL (baseAddr ev) False s of Inr (s', Some i) \<Rightarrow> cl_state (the_line s i) = stIS | _ \<Rightarrow> True))"

definition writes :: "MemEvent \<Rightarrow> Addr set" where
  "writes ev = (if cmd ev \<in> {GetX, Write, GetSX, GetXResp} then {baseAddr ev} else {})"

lemma dispatch_step:
  assumes "protocolState env \<in> {stE, stS}" and "expected ev s"
  shows "okP (writes ev) s fst (dispatch env ev b s)"
proof (cases "cmd ev = GetSResp")
  case True
  have "okP (writes ev) s fst (handleGetSResp env ev b s)"
    using assms(2) True by (intro handleGetSResp_step) (auto simp: expected_def)
  with True show ?thesis by (simp add: dispatch_def)
next
  case False
  then show ?thesis
    by (cases "cmd ev") (simp_all add: dispatch_def writes_def handleWrite_def handleGetS_step handleGetX_step handleGetSX_step
      handleFlushLine_step handleFlushLineInv_step handleGetXResp_step [OF assms(1)] handleFlushLineResp_step
      handleFetchInv_step handleFetchInvX_step handleForceInv_step handleInv_step handleFetch_step handleAckPut_step
      handleNACK_step handleNULLCMD_step)
qed

text \<open>The invariant of the controller.\<close>

definition ctl_ok :: "Ctl \<Rightarrow> bool" where
  "ctl_ok s \<longleftrightarrow> arr_ok (c_array s) \<and> mshr_ok (c_mshr s) \<and> (\<forall>l \<in> set (ca_lines (c_array s)). line_inv l)"

lemma ctl_ok_step: "ctl_step A s s' \<Longrightarrow> ctl_ok s \<Longrightarrow> ctl_ok s'"
  by (auto simp: ctl_ok_def ctl_step_def arr_step_def line_step_def all_set_conv_all_nth line_at_def)

text \<open>
  C3 Every event handler of the L1 controller keeps the controller's invariant: the cache
  array and the miss registers are well formed, every line is in one of the nine states of
  the protocol with the replacement policy's copy of the state in agreement, and a user lock
  is held only on a modified line. It holds for every command, retried or not, on every path
  that does not end the simulation, provided a \<open>GetSResp\<close> arrives for a line waiting for it.
\<close>

theorem l1_invariant:
  assumes "protocolState env \<in> {stE, stS}" and "expected ev s" and "ctl_ok s"
    and "dispatch env ev inMSHR s = Inr (s', acc)"
  shows "ctl_ok s'"
proof -
  have "ctl_step (writes ev) s s'" using dispatch_step [OF assms(1,2), of inMSHR] assms(4) by (simp add: okP_def)
  then show ?thesis using assms(3) by (rule ctl_ok_step)
qed

text \<open>
  C7 A line under a user lock cannot be taken away: whatever event is handled, unless it is a
  write, a locking read or an exclusive response for that very line, the locked line keeps
  its address, its modified state, its bytes and its lock count. Invalidations, fetches,
  flushes and evictions included.
\<close>

theorem locked_line_stays:
  assumes "protocolState env \<in> {stE, stS}" and "expected ev s" and "ctl_ok s"
    and "dispatch env ev inMSHR s = Inr (s', acc)" and "i < nlines s" and "userLock (the_line s i) \<noteq> 0"
    and "cmd ev \<in> {GetX, Write, GetSX, GetXResp} \<longrightarrow> cl_addr (the_line s i) \<noteq> baseAddr ev"
  shows "line_key (the_line s' i) = line_key (the_line s i)"
proof -
  have st: "ctl_step (writes ev) s s'" using dispatch_step [OF assms(1,2), of inMSHR] assms(4) by (simp add: okP_def)
  have "line_inv (the_line s i)" using assms(3,5) by (simp add: ctl_ok_def the_line_def line_at_def)
  moreover from this assms(6) have "held (the_line s i)" by (simp add: held_def line_inv_def)
  ultimately show ?thesis using st assms(5,7)
    by (auto simp: ctl_step_def arr_step_def line_step_def the_line_def writes_def split: if_splits)
qed


section \<open>Concrete states\<close>

definition demo_load :: MemEvent where
  "demo_load = demo_event 1 192 GetS\<lparr>ev_size := 8\<rparr>"

text \<open>Line 2 holds address 64, modified; in \<open>demo_locked\<close> it is under a user lock.\<close>

definition demo_modified :: Ctl where
  "demo_modified = on_line 2 (\<lambda>l. setState stM (setAddr 64 l)) demo_ctl"

definition demo_locked :: Ctl where
  "demo_locked = on_line 2 incLock demo_modified"

lemma demo_ctl_ok: "ctl_ok demo_ctl"
  using demo_array_ok
  by (auto simp: ctl_ok_def demo_ctl_def mshr_ok_new demo_array_def line_inv_def L1CacheLine_new_def CacheLine_new_def
      CacheLine.defs L1CacheLine.defs)

lemma ctl_ok_on_line:
  assumes "ctl_ok s" and "geom_keep f" and "i < nlines s" and "line_inv (f (the_line s i))"
  shows "ctl_ok (on_line i f s)"
  using assms by (auto simp: ctl_ok_def on_line_def geom_keep_def all_set_conv_all_nth upd_line_def nth_list_update
      the_line_def line_at_def intro!: arr_ok_upd_line [unfolded upd_line_def])

lemma demo_nlines [simp]: "nlines demo_ctl = 4" "nlines demo_modified = 4" "nlines demo_locked = 4"
  by (simp_all add: demo_ctl_def demo_array_def demo_modified_def demo_locked_def)

lemma demo_modified_ok: "ctl_ok demo_modified"
  unfolding demo_modified_def
  by (rule ctl_ok_on_line [OF demo_ctl_ok])
    (auto simp: geom_keep_def line_ok_def line_op_defs line_inv_def the_line_def line_at_def demo_ctl_def demo_array_def
      L1CacheLine_new_def CacheLine_new_def CacheLine.defs L1CacheLine.defs)

lemma demo_modified_line: "the_line demo_modified 2 = (L1CacheLine_new 64 2)\<lparr>cl_addr := 64, cl_state := stM,
    cl_info := \<lparr>ri_index = 2, ri_state = stM, ri_coh = None\<rparr>\<rparr>"
  by (simp add: demo_modified_def on_line_def upd_line_def the_line_def line_at_def demo_ctl_def demo_array_def line_op_defs
      L1CacheLine_new_def CacheLine_new_def CacheLine.defs L1CacheLine.defs)

lemma demo_locked_ok: "ctl_ok demo_locked"
  unfolding demo_locked_def
  by (rule ctl_ok_on_line [OF demo_modified_ok])
    (simp_all add: demo_modified_line line_op_defs line_inv_def)

theorem l1_invariant_witness:
  "\<exists>s' acc. dispatch demo_env demo_load False demo_ctl = Inr (s', acc) \<and> ctl_ok s'"
proof -
  have "\<not> isl (dispatch demo_env demo_load False demo_ctl)" by code_simp
  then obtain s' acc where r: "dispatch demo_env demo_load False demo_ctl = Inr (s', acc)"
    by (cases "dispatch demo_env demo_load False demo_ctl") auto
  have "ctl_ok s'"
    by (rule l1_invariant [OF _ _ demo_ctl_ok r]) (simp_all add: demo_env_def expected_def demo_load_def)
  with r show ?thesis by blast
qed

theorem locked_line_stays_witness:
  "\<exists>s' acc. dispatch demo_env (demo_event 1 64 FetchInv) False demo_locked = Inr (s', acc) \<and>
     cl_state (the_line s' 2) = stM \<and> userLock (the_line s' 2) = 1"
proof -
  let ?r = "dispatch demo_env (demo_event 1 64 FetchInv) False demo_locked"
  have "\<not> isl ?r" by code_simp
  then obtain s' acc where r: "?r = Inr (s', acc)" by (cases ?r) auto
  have l: "cl_state (the_line demo_locked 2) = stM" "userLock (the_line demo_locked 2) = 1"
    by (simp_all add: demo_locked_def the_line_on_line demo_modified_line incLock_def L1CacheLine_new_def
      CacheLine_new_def CacheLine.defs L1CacheLine.defs)
  have "line_key (the_line s' 2) = line_key (the_line demo_locked 2)"
    by (rule locked_line_stays [OF _ _ demo_locked_ok r]) (simp_all add: demo_env_def expected_def l)
  with r l show ?thesis by (auto simp: line_key_def)
qed

end
