(* ===== verification/MemH_L1Behaviour.thy ===== *)
theory MemH_L1Behaviour
  imports MemH_MesiL1
begin

text \<open>
  What the handlers of \<^verbatim>\<open>MESI_L1.cc\<close> compute: loads, stores, load-link and
  store-conditional on lines that hit, invalidations and fetches from below, and write-backs.
  The statements say that the handler returns (it does not run into a fault) and which
  response leaves with which bytes. They rest on the invariant of the controller, on the
  destination being reachable and on no request waiting for the same line.
\<close>

section \<open>Single operations\<close>

text \<open>
  The LFU policies divide by a use count that can wrap around to zero; the others never fault
  on an access.
\<close>

definition plain_policy :: "ReplacementPolicy \<Rightarrow> bool" where
  "plain_policy p = (case p of LFU _ \<Rightarrow> False | LFUOpt _ \<Rightarrow> False | _ \<Rightarrow> True)"

lemma pol_update_total:
  assumes "pol_ok l w p" and "plain_policy p" and "unat i < l" and "l mod w = 0" and "0 < w"
  shows "\<exists>p1. pol_update i p = Inr p1 \<and> plain_policy p1"
proof -
  have "unat i div w < l div w" using assms(3-5) by (simp add: div_less_iff_less_mult mod_0_imp_dvd)
  then show ?thesis using assms
    by (cases p) (auto simp: plain_policy_def ts_update_def lfu_update_def nmru_update_def vec_set_def vec_get_def unat_div)
qed

lemma lookupL_total:
  assumes "ctl_ok s" and "plain_policy (replacementMgr (c_array s))" and "hit s s a (Some i)"
  shows "\<exists>m. lookupL a u s = Inr (s\<lparr>c_array := (c_array s)\<lparr>replacementMgr := m\<rparr>\<rparr>, Some i) \<and> plain_policy m"
proof -
  let ?c = "c_array s"
  have ok: "arr_ok ?c" using assms(1) by (simp add: ctl_ok_def)
  have f: "find_line (ca_lines ?c) a (setBegin ?c a) (unat (associativity ?c)) = Inr (Some i)"
    using assms(3) setBegin_bound [OF ok, of a]
    by (intro find_line_intro) (auto simp: hit_def in_set_def the_line_def line_at_def)
  have i: "i < length (ca_lines ?c)" using assms(3) by (simp add: hit_def)
  have w: "length (ca_lines ?c) mod unat (associativity ?c) = 0" "0 < unat (associativity ?c)"
    using ok by (auto simp: arr_ok_def)
  have "unat (of_nat i :: u64) < length (ca_lines ?c)" using i ok by (simp add: unat_of_nat arr_ok_def)
  from pol_update_total [OF arr_pol_ok [OF ok] assms(2) this w]
  obtain m where m: "pol_update (of_nat i) (replacementMgr ?c) = Inr m" "plain_policy m" by blast
  let ?m = "if u then m else replacementMgr ?c"
  have "lookup a u ?c = Inr (?c\<lparr>replacementMgr := ?m\<rparr>, Some i)" using m by (simp add: lookup_def f)
  then show ?thesis using m(2) assms(2) by (intro exI [of _ ?m]) (auto simp: lookupL_def)
qed

lemma policy_frame [simp]:
  "the_line (s\<lparr>c_array := (c_array s)\<lparr>replacementMgr := m\<rparr>\<rparr>) = the_line s"
  by (simp add: the_line_def fun_eq_iff)

text \<open>The answer to an event.\<close>

definition answers :: "MemEvent \<Rightarrow> MemEvent \<Rightarrow> bool" where
  "answers r ev \<longleftrightarrow> responseToID r = eventID ev \<and> cmd r = CommandResponse (cmd ev) \<and> ev_dst r = ev_src ev \<and>
     baseAddr r = baseAddr ev"

definition grows :: "Response list \<Rightarrow> MemEvent \<Rightarrow> Response list \<Rightarrow> bool" where
  "grows q r q' \<longleftrightarrow> (\<exists>x. r_event x = r \<and> mset q' = add_mset x (mset q))"

lemma setFlag_success: "success (setFail ev) = False"
  by (simp add: success_def setFail_def setFlag_def queryFlag_def F_FAIL_def bit.conj_disj_distrib2)

lemma sendResponseUp_total:
  assumes "upReachable env (ev_src ev)"
  shows "\<exists>s' t r. sendResponseUp env ev data b tm succ s = Inr (s', t) \<and> c_array s' = c_array s \<and> c_mshr s' = c_mshr s \<and>
     timestamp s' = timestamp s \<and> queueDown s' = queueDown s \<and> grows (queueUp s) r (queueUp s') \<and> answers r ev \<and>
     (\<forall>d. data = Some d \<longrightarrow> payload r = d) \<and> success r = (succ \<and> success ev)"
  using assms
  by (auto simp: sendResponseUp_def alloc_def setPayload_def Let_def forwardByDestination_def addToOutgoingQueueUp_def grows_def
      answers_def setFlag_success success_def queryFlag_def setFail_def setFlag_def F_FAIL_def split: option.splits)


section \<open>Loads\<close>

text \<open>A line that can answer at once, and the bytes of it an event asks for.\<close>

definition quiet_hit :: "Env \<Rightarrow> MemEvent \<Rightarrow> nat \<Rightarrow> Ctl \<Rightarrow> bool" where
  "quiet_hit env ev i s \<longleftrightarrow> ctl_ok s \<and> plain_policy (replacementMgr (c_array s)) \<and> hit s s (baseAddr ev) (Some i) \<and>
     \<not> mshr_exists (c_mshr s) (baseAddr ev) \<and> upReachable env (ev_src ev)"

definition offset_of :: "MemEvent \<Rightarrow> nat" where
  "offset_of ev = unat (ev_addr ev - baseAddr ev)"

definition line_bytes :: "MemEvent \<Rightarrow> L1CacheLine \<Rightarrow> u8 list" where
  "line_bytes ev l = take (unat (ev_size ev)) (drop (offset_of ev) (cl_data l))"

lemma on_line_array [simp]: "replacementMgr (c_array (on_line i f s)) = replacementMgr (c_array s)"
  by (simp add: on_line_def upd_line_def)

lemma queue_on_line [simp]: "queueUp (on_line i f s) = queueUp s" "queueDown (on_line i f s) = queueDown s"
  by (simp_all add: on_line_def)

lemma recordPrefetchResult_more [simp]:
  "c_mshr (recordPrefetchResult i s) = c_mshr s" "queueUp (recordPrefetchResult i s) = queueUp s"
  "queueDown (recordPrefetchResult i s) = queueDown s"
  "replacementMgr (c_array (recordPrefetchResult i s)) = replacementMgr (c_array s)"
  by (simp_all add: recordPrefetchResult_def)

lemma recordLatencyType_more [simp]:
  "c_array (recordLatencyType n t s) = c_array s" "c_mshr (recordLatencyType n t s) = c_mshr s"
  "queueUp (recordLatencyType n t s) = queueUp s" "queueDown (recordLatencyType n t s) = queueDown s"
  "timestamp (recordLatencyType n t s) = timestamp s" "the_line (recordLatencyType n t s) = the_line s"
  by (auto simp: recordLatencyType_def the_line_def fun_eq_iff split: option.splits)

lemma load_hit:
  assumes "quiet_hit env ev i s" and "cl_state (the_line s i) \<in> {stS, stE, stM}"
    and "\<not> (prefetch ev \<and> rqstr ev = cachename env)"
    and "offset_of ev + unat (ev_size ev) \<le> length (cl_data (the_line s i))"
  shows "\<exists>s' r. handleGetS env ev False s = Inr (s', True) \<and> grows (queueUp s) r (queueUp s') \<and> answers r ev \<and>
     payload r = line_bytes ev (the_line s i) \<and> success r = success ev \<and> c_mshr s' = c_mshr s \<and>
     (\<forall>j. line_key (the_line s' j) = line_key (the_line s j)) \<and> (isLoadLink ev \<longrightarrow> isAtomic (the_line s' i))"
proof -
  have h: "ctl_ok s" "plain_policy (replacementMgr (c_array s))" "hit s s (baseAddr ev) (Some i)"
      "\<not> mshr_exists (c_mshr s) (baseAddr ev)" "upReachable env (ev_src ev)" "i < nlines s"
    using assms(1) by (auto simp: quiet_hit_def hit_def)
  obtain m where lk: "lookupL (baseAddr ev) True s = Inr (s\<lparr>c_array := (c_array s)\<lparr>replacementMgr := m\<rparr>\<rparr>, Some i)"
    using lookupL_total [OF h(1-3)] by blast
  define s1 where "s1 = s\<lparr>c_array := (c_array s)\<lparr>replacementMgr := m\<rparr>\<rparr>"
  define s2 where "s2 = recordPrefetchResult i (recordLatencyType (eventID ev) LatHIT s1)"
  define s3 where "s3 = (if isLoadLink ev then on_line i (atomicStart (timestamp s2 + llscBlockCycles env)) s2 else s2)"
  have l1: "the_line s1 = the_line s" "nlines s1 = nlines s" by (simp_all add: s1_def)
  have l3: "cl_data (the_line s3 i) = cl_data (the_line s i)" "line_key (the_line s3 j) = line_key (the_line s j)"
      "queueUp s3 = queueUp s" "c_mshr s3 = c_mshr s" "nlines s3 = nlines s"
      "isLoadLink ev \<longrightarrow> isAtomic (the_line s3 i)" for j
    using h(6) by (auto simp: s3_def s2_def line_key_def the_line_on_line l1 isAtomic_def atomicStart_def s1_def)
  from sendResponseUp_total [OF h(5), of "Some (line_bytes ev (the_line s i))" False "lastSendTimestamp (the_line s3 i)" True s3]
  obtain s4 t r where r: "sendResponseUp env ev (Some (line_bytes ev (the_line s i))) False (lastSendTimestamp (the_line s3 i)) True s3 = Inr (s4, t)"
      "c_array s4 = c_array s3" "c_mshr s4 = c_mshr s3" "grows (queueUp s3) r (queueUp s4)" "answers r ev"
      "payload r = line_bytes ev (the_line s i)" "success r = success ev" by auto
  have "handleGetS env ev False s = Inr (on_line i (setTimestamp (t - 1)) s4, True)"
    using assms(2,3) h(4) r(1,3) l3(1) assms(4) lk [folded s1_def]
    by (auto simp: handleGetS_def Let_def begin_retry_def l1 with_line_def profile_hit_def s2_def [symmetric] s3_def [symmetric]
        vec_slice_def offset_of_def line_bytes_def cleanUpAfterRequest_def l3)
  moreover have l4: "the_line s4 = the_line s3" using r(2) by (simp add: the_line_def fun_eq_iff)
  moreover have "line_key (the_line (on_line i (setTimestamp (t - 1)) s4) j) = line_key (the_line s j)" for j
    using l3(2) [of j] l4 by (auto simp: the_line_on_line line_key_def)
  moreover have "isLoadLink ev \<longrightarrow> isAtomic (the_line (on_line i (setTimestamp (t - 1)) s4) i)"
    using l3(6) l4 by (auto simp: the_line_on_line isAtomic_def setTimestamp_def)
  ultimately show ?thesis using r l3 by auto
qed


section \<open>Stores\<close>

text \<open>The bytes of a line after a store of \<open>d\<close> at \<open>off\<close>.\<close>

definition overwrite :: "u8 list \<Rightarrow> nat \<Rightarrow> u8 list \<Rightarrow> u8 list" where
  "overwrite d off old = take off old @ d @ drop (off + length d) old"

definition stores :: "MemEvent \<Rightarrow> L1CacheLine \<Rightarrow> bool" where
  "stores ev l \<longleftrightarrow> \<not> isStoreConditional ev \<or> isAtomic l"

lemma unat_ucast_down: "unat x < 4294967296 \<Longrightarrow> unat (ucast (x :: u64) :: u32) = unat x"
  by (simp add: unsigned_ucast_eq take_bit_nat_eq_self)

lemma write_line_total:
  assumes "unat off + length d \<le> length (cl_data (the_line s i))" and "length (cl_data (the_line s i)) < 4294967296"
  shows "write_line i d off s = Inr (on_line i (\<lambda>_. (the_line s i)\<lparr>cl_data := overwrite d (unat off) (cl_data (the_line s i))\<rparr>) s)"
  using assms by (simp add: write_line_def setData_def vec_copy_def overwrite_def unat_ucast_down)

lemma isStoreConditional_resize [simp]: "answers r (resizePayload ev) = answers r ev" "success (resizePayload ev) = success ev"
  by (simp_all add: answers_def success_def)

lemma line_data_length: "ctl_ok s \<Longrightarrow> i < nlines s \<Longrightarrow> length (cl_data (the_line s i)) < 4294967296"
  using unsigned_less [of "lineSize (c_array s)", where ?'a = nat]
  by (simp add: ctl_ok_def arr_ok_def line_ok_def the_line_def line_at_def)

lemma store_bytes_total:
  assumes "offset_of ev + length (getPayload ev) \<le> length (cl_data (the_line s i))"
    and "length (cl_data (the_line s i)) < 4294967296" and "i < nlines s"
  shows "\<exists>ev' s'. store_bytes ev (baseAddr ev) i s = Inr (ev', stores ev (the_line s i), s') \<and> ev' \<in> {ev, resizePayload ev} \<and>
     (\<forall>j. j \<noteq> i \<longrightarrow> the_line s' j = the_line s j) \<and> nlines s' = nlines s \<and> queueUp s' = queueUp s \<and> c_mshr s' = c_mshr s \<and>
     replacementMgr (c_array s') = replacementMgr (c_array s) \<and>
     cl_state (the_line s' i) = cl_state (the_line s i) \<and> cl_addr (the_line s' i) = cl_addr (the_line s i) \<and>
     cl_data (the_line s' i) = (if stores ev (the_line s i) then overwrite (getPayload ev) (offset_of ev) (cl_data (the_line s i))
        else cl_data (the_line s i)) \<and> \<not> (isAtomic (the_line s' i) \<and> stores ev (the_line s i))"
proof (cases "stores ev (the_line s i)")
  case True
  have "write_line i (getPayload ev) (ev_addr ev - baseAddr ev) s = Inr (on_line i (\<lambda>_. (the_line s i)
      \<lparr>cl_data := overwrite (getPayload ev) (offset_of ev) (cl_data (the_line s i))\<rparr>) s)"
    using write_line_total [of "ev_addr ev - baseAddr ev" "getPayload ev" s i] assms by (simp add: offset_of_def)
  with True assms(3) show ?thesis
    by (auto simp: store_bytes_def stores_def the_line_on_line isAtomic_def atomicEnd_def)
next
  case False
  then show ?thesis by (simp add: store_bytes_def stores_def)
qed


lemma hit_tags: "(\<And>j. cl_addr (the_line s' j) = cl_addr (the_line s j)) \<Longrightarrow> nlines s' = nlines s \<Longrightarrow> hit s0 s' a l = hit s0 s a l"
  by (cases l) (simp_all add: hit_def)

lemma hit_base: "ctl_step A s s' \<Longrightarrow> hit s' t a l = hit s t a l"
  by (cases l) (simp_all add: hit_def in_set_step)

lemma store_hit:
  assumes "quiet_hit env ev i s" and "cl_state (the_line s i) \<in> {stE, stM}"
    and "offset_of ev + length (getPayload ev) \<le> length (cl_data (the_line s i))"
  shows "\<exists>s' r. handleGetX env ev False s = Inr (s', True) \<and> grows (queueUp s) r (queueUp s') \<and> answers r ev \<and>
     success r = (stores ev (the_line s i) \<and> success ev) \<and> c_mshr s' = c_mshr s \<and>
     plain_policy (replacementMgr (c_array s')) \<and> (\<forall>j. j \<noteq> i \<longrightarrow> the_line s' j = the_line s j) \<and>
     nlines s' = nlines s \<and> cl_state (the_line s' i) = stM \<and> cl_addr (the_line s' i) = cl_addr (the_line s i) \<and>
     cl_data (the_line s' i) = (if stores ev (the_line s i) then overwrite (getPayload ev) (offset_of ev) (cl_data (the_line s i))
        else cl_data (the_line s i)) \<and> \<not> (isAtomic (the_line s' i) \<and> stores ev (the_line s i))"
proof -
  have h: "ctl_ok s" "plain_policy (replacementMgr (c_array s))" "hit s s (baseAddr ev) (Some i)"
      "\<not> mshr_exists (c_mshr s) (baseAddr ev)" "upReachable env (ev_src ev)" "i < nlines s"
    using assms(1) by (auto simp: quiet_hit_def hit_def)
  obtain m where lk: "lookupL (baseAddr ev) True s = Inr (s\<lparr>c_array := (c_array s)\<lparr>replacementMgr := m\<rparr>\<rparr>, Some i)"
    and m: "plain_policy m" using lookupL_total [OF h(1-3)] by blast
  define s1 where "s1 = s\<lparr>c_array := (c_array s)\<lparr>replacementMgr := m\<rparr>\<rparr>"
  have l1: "the_line s1 = the_line s" "nlines s1 = nlines s" by (simp_all add: s1_def)
  define s2 where "s2 = (if cl_state (the_line s i) = stE then on_line i (setState stM) s1 else s1)"
  define s3 where "s3 = recordLatencyType (eventID ev) LatHIT (recordPrefetchResult i s2)"
  have l3: "cl_data (the_line s3 i) = cl_data (the_line s i)" "cl_state (the_line s3 i) = stM" "cl_addr (the_line s3 i) = cl_addr (the_line s i)"
      "isAtomic (the_line s3 i) = isAtomic (the_line s i)" "queueUp s3 = queueUp s" "c_mshr s3 = c_mshr s" "nlines s3 = nlines s"
      "plain_policy (replacementMgr (c_array s3))" "j \<noteq> i \<Longrightarrow> the_line s3 j = the_line s j" for j
    using h(6) assms(2) m by (auto simp: s3_def s2_def the_line_on_line l1 isAtomic_def setState_def setPrefetch_def s1_def recordPrefetchResult_def)
  have st: "stores ev (the_line s3 i) = stores ev (the_line s i)" by (simp add: stores_def l3(4))
  obtain ev' s4 where sb: "store_bytes ev (baseAddr ev) i s3 = Inr (ev', stores ev (the_line s i), s4)" "ev' \<in> {ev, resizePayload ev}"
      "\<And>j. j \<noteq> i \<Longrightarrow> the_line s4 j = the_line s3 j" "nlines s4 = nlines s3" "queueUp s4 = queueUp s3" "c_mshr s4 = c_mshr s3"
      "replacementMgr (c_array s4) = replacementMgr (c_array s3)"
      "cl_state (the_line s4 i) = stM" "cl_addr (the_line s4 i) = cl_addr (the_line s i)"
      "cl_data (the_line s4 i) = (if stores ev (the_line s i) then overwrite (getPayload ev) (offset_of ev) (cl_data (the_line s i))
        else cl_data (the_line s i))" "\<not> (isAtomic (the_line s4 i) \<and> stores ev (the_line s i))"
    using store_bytes_total [of ev s3 i] assms(3) line_data_length [OF h(1,6)] h(6) l3 unfolding st by auto
  define s5 where "s5 = (if queryFlag F_LOCKED ev' then on_line i decLock s4 else s4)"
  have l5: "cl_state (the_line s5 i) = stM" "cl_addr (the_line s5 i) = cl_addr (the_line s i)" "cl_data (the_line s5 i) = cl_data (the_line s4 i)"
      "isAtomic (the_line s5 i) = isAtomic (the_line s4 i)" "queueUp s5 = queueUp s" "c_mshr s5 = c_mshr s" "nlines s5 = nlines s"
      "plain_policy (replacementMgr (c_array s5))" "j \<noteq> i \<Longrightarrow> the_line s5 j = the_line s j" for j
    using sb l3 by (auto simp: s5_def the_line_on_line isAtomic_def decLock_def)
  have ev': "ev_src ev' = ev_src ev" "baseAddr ev' = baseAddr ev" "answers r ev' = answers r ev" "success ev' = success ev" for r
    using sb(2) by auto
  from sendResponseUp_total [of env ev' None False "lastSendTimestamp (the_line s5 i)" "stores ev (the_line s i)" s5] h(5) ev'
  obtain s6 t r where r: "sendResponseUp env ev' None False (lastSendTimestamp (the_line s5 i)) (stores ev (the_line s i)) s5 = Inr (s6, t)"
      "c_array s6 = c_array s5" "c_mshr s6 = c_mshr s5" "grows (queueUp s5) r (queueUp s6)" "answers r ev"
      "success r = (stores ev (the_line s i) \<and> success ev)" by auto
  have l6: "the_line s6 = the_line s5" "nlines s6 = nlines s5" using r(2) by (simp_all add: the_line_def fun_eq_iff)
  have run: "handleGetX env ev False s = Inr (on_line i (setTimestamp (t - 1)) s6, True)"
    using assms(2) h(4) r(1,3) l5 sb(1) ev' lk [folded s1_def]
    by (auto simp: handleGetX_def Let_def begin_retry_def upgrade_last_def l1 with_line_def profile_hit_def s2_def s3_def s5_def
        cleanUpAfterRequest_def split: if_splits)
  have "cl_data (the_line s5 i) = (if stores ev (the_line s i) then overwrite (getPayload ev) (offset_of ev) (cl_data (the_line s i))
        else cl_data (the_line s i))" "\<not> (isAtomic (the_line s5 i) \<and> stores ev (the_line s i))" using l5 sb by simp_all
  then show ?thesis unfolding run using r l5 l6
    by (intro exI [of _ "on_line i (setTimestamp (t - 1)) s6"] exI [of _ r])
      (auto simp: the_line_on_line isAtomic_def setTimestamp_def)
qed


lemma store_keeps_quiet:
  assumes "quiet_hit env ev i s" and "handleGetX env ev False s = Inr (s', acc)" and "c_mshr s' = c_mshr s"
    and "plain_policy (replacementMgr (c_array s'))" and "\<And>j. cl_addr (the_line s' j) = cl_addr (the_line s j)"
    and "nlines s' = nlines s" and "baseAddr ev' = baseAddr ev" and "upReachable env (ev_src ev')"
  shows "quiet_hit env ev' i s'"
proof -
  have st: "ctl_step {baseAddr ev} s s'" using handleGetX_step [of ev s env False] assms(2) by (simp add: okP_def)
  have "ctl_ok s'" using assms(1) ctl_ok_step [OF st] by (simp add: quiet_hit_def)
  moreover have "hit s' s' (baseAddr ev) (Some i)"
    using assms(1) hit_tags [OF assms(5,6)] hit_base [OF st] by (simp add: quiet_hit_def)
  ultimately show ?thesis using assms by (simp add: quiet_hit_def)
qed

lemma dispatch_store: "cmd ev \<in> {GetX, Write} \<Longrightarrow> dispatch env ev b s = handleGetX env ev b s"
  by (auto simp: dispatch_def handleWrite_def)

lemma dispatch_load: "cmd ev = GetS \<Longrightarrow> dispatch env ev b s = handleGetS env ev b s"
  by (simp add: dispatch_def)

text \<open>
  C8 A store followed by a load of the same line returns what was stored: both requests are
  answered (the handlers do not fault), and the response to the load carries the requested
  bytes of the line as it was before the store, overwritten with the stored bytes.
\<close>

theorem store_then_load:
  assumes "quiet_hit env w i s" and "cl_state (the_line s i) \<in> {stE, stM}" and "cmd w \<in> {GetX, Write}"
    and "\<not> isStoreConditional w" and "offset_of w + length (getPayload w) \<le> length (cl_data (the_line s i))"
    and "cmd r = GetS" and "baseAddr r = baseAddr w" and "upReachable env (ev_src r)" and "rqstr r \<noteq> cachename env"
    and "offset_of r + unat (ev_size r) \<le> length (cl_data (the_line s i))"
  shows "\<exists>s1 s2 rsp. dispatch env w False s = Inr (s1, True) \<and> dispatch env r False s1 = Inr (s2, True) \<and>
     grows (queueUp s1) rsp (queueUp s2) \<and> answers rsp r \<and>
     payload rsp = take (unat (ev_size r)) (drop (offset_of r)
       (overwrite (getPayload w) (offset_of w) (cl_data (the_line s i))))"
proof -
  have st: "stores w (the_line s i)" using assms(4) by (simp add: stores_def)
  obtain s1 where s1: "handleGetX env w False s = Inr (s1, True)" "c_mshr s1 = c_mshr s"
      "plain_policy (replacementMgr (c_array s1))" "\<And>j. j \<noteq> i \<Longrightarrow> the_line s1 j = the_line s j" "nlines s1 = nlines s"
      "cl_state (the_line s1 i) = stM" "cl_addr (the_line s1 i) = cl_addr (the_line s i)"
      "cl_data (the_line s1 i) = overwrite (getPayload w) (offset_of w) (cl_data (the_line s i))"
    using store_hit [OF assms(1,2,5)] st by auto
  have tags: "cl_addr (the_line s1 j) = cl_addr (the_line s j)" for j using s1(4,7) by (cases "j = i") auto
  note q = store_keeps_quiet [OF assms(1) s1(1,2,3) tags s1(5) assms(7,8)]
  have len: "length (cl_data (the_line s1 i)) = length (cl_data (the_line s i))" using assms(5) by (simp add: s1(8) overwrite_def)
  have "\<exists>s2 rsp. handleGetS env r False s1 = Inr (s2, True) \<and> grows (queueUp s1) rsp (queueUp s2) \<and> answers rsp r \<and>
      payload rsp = line_bytes r (the_line s1 i)"
    using load_hit [OF q] s1(6) assms(9,10) len by auto
  then show ?thesis using s1(1,8) assms(3,6) by (auto simp: dispatch_store dispatch_load line_bytes_def)
qed

text \<open>
  C30 A store-conditional succeeds exactly when the line still carries the reservation: the
  response says so, the bytes are written if and only if it succeeds, and a successful one
  ends the reservation.
\<close>

theorem store_conditional_iff_reserved:
  assumes "quiet_hit env ev i s" and "cl_state (the_line s i) \<in> {stE, stM}" and "isStoreConditional ev" and "success ev"
    and "offset_of ev + length (getPayload ev) \<le> length (cl_data (the_line s i))"
  shows "\<exists>s' r. dispatch env ev False s = Inr (s', True) \<and> grows (queueUp s) r (queueUp s') \<and> answers r ev \<and>
     success r = isAtomic (the_line s i) \<and>
     cl_data (the_line s' i) = (if isAtomic (the_line s i)
       then overwrite (getPayload ev) (offset_of ev) (cl_data (the_line s i)) else cl_data (the_line s i)) \<and>
     \<not> (isAtomic (the_line s i) \<and> isAtomic (the_line s' i))"
proof -
  have "cmd ev \<in> {GetX, Write}" and "stores ev (the_line s i) = isAtomic (the_line s i)"
    using assms(3) by (auto simp: isStoreConditional_def stores_def)
  then show ?thesis using store_hit [OF assms(1,2,5)] assms(4) by (auto simp: dispatch_store)
qed

text \<open>
  A reservation does not survive a store: after any ordinary store to the line, a
  store-conditional to it is answered as failed and leaves the stored bytes in place.
\<close>

theorem store_breaks_reservation:
  assumes "quiet_hit env w i s" and "cl_state (the_line s i) \<in> {stE, stM}" and "cmd w \<in> {GetX, Write}"
    and "\<not> isStoreConditional w" and "offset_of w + length (getPayload w) \<le> length (cl_data (the_line s i))"
    and "isStoreConditional sc" and "baseAddr sc = baseAddr w" and "upReachable env (ev_src sc)"
    and "offset_of sc + length (getPayload sc) \<le> length (cl_data (the_line s i))"
  shows "\<exists>s1 s2 rsp. dispatch env w False s = Inr (s1, True) \<and> dispatch env sc False s1 = Inr (s2, True) \<and>
     grows (queueUp s1) rsp (queueUp s2) \<and> answers rsp sc \<and> \<not> success rsp \<and>
     cl_data (the_line s2 i) = overwrite (getPayload w) (offset_of w) (cl_data (the_line s i))"
proof -
  have st: "stores w (the_line s i)" using assms(4) by (simp add: stores_def)
  obtain s1 where s1: "handleGetX env w False s = Inr (s1, True)" "c_mshr s1 = c_mshr s"
      "plain_policy (replacementMgr (c_array s1))" "\<And>j. j \<noteq> i \<Longrightarrow> the_line s1 j = the_line s j" "nlines s1 = nlines s"
      "cl_state (the_line s1 i) = stM" "cl_addr (the_line s1 i) = cl_addr (the_line s i)"
      "cl_data (the_line s1 i) = overwrite (getPayload w) (offset_of w) (cl_data (the_line s i))" "\<not> isAtomic (the_line s1 i)"
    using store_hit [OF assms(1,2,5)] st by auto
  have tags: "cl_addr (the_line s1 j) = cl_addr (the_line s j)" for j using s1(4,7) by (cases "j = i") auto
  note q = store_keeps_quiet [OF assms(1) s1(1,2,3) tags s1(5) assms(7,8)]
  have len: "length (cl_data (the_line s1 i)) = length (cl_data (the_line s i))" using assms(5) by (simp add: s1(8) overwrite_def)
  have "\<not> stores sc (the_line s1 i)" using assms(6) s1(9) by (simp add: stores_def)
  moreover have "cmd sc \<in> {GetX, Write}" using assms(6) by (auto simp: isStoreConditional_def)
  ultimately show ?thesis using store_hit [OF q] s1(1,6,8) len assms(3,9) by (auto simp: dispatch_store)
qed


section \<open>Requests from below\<close>

lemma lookupL_False:
  assumes "ctl_ok s" and "hit s s a (Some i)"
  shows "lookupL a False s = Inr (s, Some i)"
proof -
  let ?c = "c_array s"
  have ok: "arr_ok ?c" using assms(1) by (simp add: ctl_ok_def)
  have "find_line (ca_lines ?c) a (setBegin ?c a) (unat (associativity ?c)) = Inr (Some i)"
    using assms(2) setBegin_bound [OF ok, of a]
    by (intro find_line_intro) (auto simp: hit_def in_set_def the_line_def line_at_def)
  then show ?thesis by (simp add: lookupL_def lookup_def)
qed

lemma sendResponseDown_total:
  assumes "\<not> upReachable env (ev_src ev)" and "downReachable env (ev_src ev)"
  shows "\<exists>s' r. sendResponseDown env ev (Some i) d s = Inr s' \<and> c_array s' = c_array s \<and> grows (queueDown s) r (queueDown s') \<and>
     answers r ev \<and> (d \<longrightarrow> payload r = cl_data (the_line s i) \<and> (cl_state (the_line s i) = stM \<longrightarrow> ev_dirty r))"
  using assms
  by (auto simp: sendResponseDown_def alloc_def Let_def with_line_def forwardByDestination_def addToOutgoingQueue_def
      grows_def answers_def setPayload_def the_line_def)

lemma surrender_total:
  assumes "\<not> upReachable env (ev_src ev)" and "downReachable env (ev_src ev)" and "i < nlines s"
  shows "\<exists>s' r. surrender env ev (Some i) d st s = Inr s' \<and> grows (queueDown s) r (queueDown s') \<and> answers r ev \<and>
     (d \<longrightarrow> payload r = cl_data (the_line s i) \<and> (cl_state (the_line s i) = stM \<longrightarrow> ev_dirty r)) \<and>
     cl_state (the_line s' i) = st \<and> \<not> isAtomic (the_line s' i) \<and> (\<forall>j. j \<noteq> i \<longrightarrow> the_line s' j = the_line s j)"
proof -
  let ?s = "on_line i atomicEnd s"
  obtain s1 r where r: "sendResponseDown env ev (Some i) d ?s = Inr s1" "c_array s1 = c_array ?s"
      "grows (queueDown s) r (queueDown s1)" "answers r ev"
      "d \<longrightarrow> payload r = cl_data (the_line ?s i) \<and> (cl_state (the_line ?s i) = stM \<longrightarrow> ev_dirty r)"
    using sendResponseDown_total [OF assms(1,2), of i d ?s] by auto
  have l: "the_line s1 = the_line ?s" "nlines s1 = nlines s"
    using r(2) on_line_sel(1) [of i atomicEnd s] by (simp_all add: the_line_def fun_eq_iff)
  show ?thesis using r l assms(3)
    by (intro exI [of _ "on_line i (setState st) s1"] exI [of _ r])
      (auto simp: surrender_def with_line_def the_line_on_line isAtomic_def setState_def atomicEnd_def)
qed

text \<open>A request from below that meets a line it can take at once.\<close>

definition takes :: "MemEvent \<Rightarrow> L1CacheLine \<Rightarrow> bool" where
  "takes ev l \<longleftrightarrow> (cmd ev = Inv \<and> cl_state l = stS) \<or> (cmd ev \<in> {ForceInv, FetchInv} \<and> cl_state l \<in> {stS, stE, stM})"

lemma record_line_prefetch_more [simp]: "queueDown (record_line_prefetch l s) = queueDown s"
  "isAtomic (the_line (record_line_prefetch l s) j) = isAtomic (the_line s j)"
  "cl_data (the_line (record_line_prefetch l s) j) = cl_data (the_line s j)"
  by (simp_all add: record_line_prefetch_def split: option.splits)

lemma record_line_prefetch_other: "j \<noteq> i \<Longrightarrow> the_line (record_line_prefetch (Some i) s) j = the_line s j"
  by (simp add: record_line_prefetch_def recordPrefetchResult_def the_line_on_line)

text \<open>
  C29 Taking a line away: an invalidation of a shared line, and a forced or fetching
  invalidation of a shared, exclusive or modified line that is not locked, is acknowledged to
  its sender; afterwards the line is invalid and carries no reservation (no load can hit it
  and no store-conditional can succeed on it), every other line is untouched, and a fetching
  invalidation carries the line's bytes, marked dirty when the line was modified.
\<close>

theorem invalidation_takes_line:
  assumes "ctl_ok s" and "hit s s (baseAddr ev) (Some i)" and "takes ev (the_line s i)"
    and "\<not> isLocked (timestamp s) (the_line s i)" and "\<not> snoopL1Invs env"
    and "\<not> upReachable env (ev_src ev)" and "downReachable env (ev_src ev)"
  shows "\<exists>s' r. dispatch env ev False s = Inr (s', True) \<and> grows (queueDown s) r (queueDown s') \<and> answers r ev \<and>
     cl_state (the_line s' i) = stI \<and> \<not> isAtomic (the_line s' i) \<and> (\<forall>j. j \<noteq> i \<longrightarrow> the_line s' j = the_line s j) \<and>
     (cmd ev = FetchInv \<longrightarrow> payload r = cl_data (the_line s i) \<and> (cl_state (the_line s i) = stM \<longrightarrow> ev_dirty r))"
proof -
  note lk = lookupL_False [OF assms(1,2)]
  have sn: "snoopInvalidation env ev (Some i) s = Inr s" using assms(5) by (simp add: snoopInvalidation_def)
  have i: "i < nlines s" using assms(2) by (simp add: hit_def)
  note sur = surrender_total [OF assms(6,7)]
  show ?thesis
  proof (cases "cmd ev = Inv")
    case True
    then have "cl_state (the_line s i) = stS" using assms(3) by (auto simp: takes_def)
    with True sur [of i "record_line_prefetch (Some i) s" False stI] i show ?thesis
      by (auto simp: dispatch_def handleInv_def lk begin_retry_def sn Let_def record_line_prefetch_other)
  next
    case False
    then have c: "cmd ev \<in> {ForceInv, FetchInv}" "cl_state (the_line s i) \<in> {stS, stE, stM}"
      using assms(3) by (auto simp: takes_def)
    obtain s1 r where s1: "surrender env ev (Some i) (cmd ev = FetchInv) stI s = Inr s1" "grows (queueDown s) r (queueDown s1)"
        "answers r ev" "cmd ev = FetchInv \<longrightarrow> payload r = cl_data (the_line s i) \<and> (cl_state (the_line s i) = stM \<longrightarrow> ev_dirty r)"
        "cl_state (the_line s1 i) = stI" "\<not> isAtomic (the_line s1 i)" "\<forall>j. j \<noteq> i \<longrightarrow> the_line s1 j = the_line s j"
      using sur [OF i, of "cmd ev = FetchInv" stI] by auto
    have "dispatch env ev False s = Inr (record_line_prefetch (Some i) s1, True)"
      using c assms(4) s1(1) by (auto simp: dispatch_def handleForceInv_def handleFetchInv_def lk begin_retry_def sn Let_def)
    with s1 show ?thesis by (auto simp: record_line_prefetch_other)
  qed
qed


section \<open>Write-backs\<close>

lemma forwardByAddress_total:
  assumes "downFind env (baseAddr ev) \<noteq> ''''"
  shows "\<exists>s'. forwardByAddress env ev t s = Inr s' \<and> c_array s' = c_array s \<and> c_mshr s' = c_mshr s \<and>
     recvWritebackAck s' = recvWritebackAck s \<and>
     grows (queueDown s) (ev\<lparr>ev_src := cachename env, ev_dst := downFind env (baseAddr ev)\<rparr>) (queueDown s')"
  using assms by (auto simp: forwardByAddress_def Let_def addToOutgoingQueue_def grows_def)

text \<open>The write-back of a modified line: the event that leaves and the state left.\<close>

lemma writeback_total:
  assumes "downFind env (cl_addr (the_line s i)) \<noteq> ''''"
  shows "\<exists>s' r. sendWriteback env PutM i True s = Inr s' \<and> grows (queueDown s) r (queueDown s') \<and>
     cmd r = PutM \<and> baseAddr r = cl_addr (the_line s i) \<and> payload r = cl_data (the_line s i) \<and> ev_dirty r \<and>
     ev_size r = of_nat (length (cl_data (the_line s i))) \<and> ev_flags r = 0 \<and> addrGlobal r \<and>
     c_mshr s' = c_mshr s \<and> recvWritebackAck s' = recvWritebackAck s \<and> soft s s'"
proof -
  let ?l = "the_line s i"
  define s1 where "s1 = s\<lparr>nextObj := Suc (nextObj s)\<rparr>"
  define w where "w = newMemEvent (nextObj s) (uniqueId env (nextObj s)) (NO_ID env) (cachename env) (cl_addr ?l) (cl_addr ?l) PutM"
  define w3 where "w3 = ((setPayload (cl_data ?l) (w\<lparr>ev_size := ucast (lineSizeC env)\<rparr>))\<lparr>ev_dirty := True\<rparr>)\<lparr>rqstr := cachename env\<rparr>"
  define t where "t = (if timestamp s1 > lastSendTimestamp ?l then timestamp s1 else lastSendTimestamp ?l) + accessLatency env"
  obtain s2 where s2: "forwardByAddress env w3 t s1 = Inr s2" "c_mshr s2 = c_mshr s" "recvWritebackAck s2 = recvWritebackAck s"
      "grows (queueDown s) (w3\<lparr>ev_src := cachename env, ev_dst := downFind env (cl_addr ?l)\<rparr>) (queueDown s2)"
    using forwardByAddress_total [of env w3 t s1] assms by (auto simp: w3_def w_def s1_def)
  have wb: "sendWriteback env PutM i True s = Inr (on_line i (setTimestamp (t - 1)) s2)"
    using s2(1) by (auto simp: sendWriteback_def new_event_def w3_def w_def s1_def t_def Let_def)
  have "soft s (on_line i (setTimestamp (t - 1)) s2)" using sendWriteback_soft [of "{}" s env PutM i True] by (simp add: wb)
  moreover have "recvWritebackAck (on_line i (setTimestamp (t - 1)) s2) = recvWritebackAck s" using s2(3) by (simp add: on_line_def)
  ultimately show ?thesis using s2(2,4)
    by (intro exI [of _ "on_line i (setTimestamp (t - 1)) s2"]
        exI [of _ "w3\<lparr>ev_src := cachename env, ev_dst := downFind env (cl_addr ?l)\<rparr>"])
      (simp add: wb w3_def w_def setPayload_def newMemEvent_def)
qed

lemma evict_modified:
  assumes "i < nlines s" and "cl_state (the_line s i) = stM" and "\<not> isLocked (timestamp s) (the_line s i)"
    and "getPendingRetries (c_mshr s) (cl_addr (the_line s i)) = 0"
    and "downFind env (cl_addr (the_line s i)) \<noteq> ''''"
  shows "\<exists>s' r. handleEviction env a (Some i) s = Inr (s', i, True) \<and> grows (queueDown s) r (queueDown s') \<and>
     cmd r = PutM \<and> baseAddr r = cl_addr (the_line s i) \<and> payload r = cl_data (the_line s i) \<and> ev_dirty r \<and>
     ev_size r = of_nat (length (cl_data (the_line s i))) \<and> ev_flags r = 0 \<and> addrGlobal r \<and>
     cl_state (the_line s' i) = stI \<and>
     (recvWritebackAck s \<longrightarrow> mshr_view (c_mshr s') (cl_addr (the_line s i)) =
        writebackEntry False (simCycle env) # mshr_view (c_mshr s) (cl_addr (the_line s i)))"
proof -
  let ?a = "cl_addr (the_line s i)"
  obtain s3 r where wb: "sendWriteback env PutM i True s = Inr s3" "grows (queueDown s) r (queueDown s3)"
      "cmd r = PutM" "baseAddr r = ?a" "payload r = cl_data (the_line s i)" "ev_dirty r"
      "ev_size r = of_nat (length (cl_data (the_line s i)))" "ev_flags r = 0" "addrGlobal r"
      "c_mshr s3 = c_mshr s" "recvWritebackAck s3 = recvWritebackAck s" "soft s s3"
    using writeback_total [OF assms(5)] by blast
  note so = soft_D [OF wb(12), of i]
  define s4 where "s4 = (if recvWritebackAck s then s3\<lparr>c_mshr := insertWriteback (simCycle env) ?a False (c_mshr s)\<rparr> else s3)"
  have ed: "evict_dirty env i s = Inr (on_line i (setState stI) s4)"
    using so by (simp add: evict_dirty_def wb(1,10,11) s4_def Let_def)
  have q4: "queueDown s4 = queueDown s3" "nlines s4 = nlines s" using so by (simp_all add: s4_def)
  have m4: "recvWritebackAck s \<longrightarrow> mshr_view (c_mshr s4) ?a =
      writebackEntry False (simCycle env) # mshr_view (c_mshr s) ?a"
    by (auto simp: s4_def insertWriteback_def mshr_view_put split: option.splits)
      (auto simp: mshr_view_def reg_at_def newRegister_def)
  have "handleEviction env a (Some i) s = Inr (recordPrefetchResult i (on_line i atomicEnd (on_line i (setState stI) s4)), i, True)"
    using assms(2-4) by (simp add: handleEviction_def Let_def ed)
  then show ?thesis using wb(2-9) q4 m4 assms(1) by (auto simp: the_line_on_line)
qed

text \<open>
  C28 Evicting a modified line never loses its bytes: the eviction succeeds when the line is
  neither locked nor about to be retried, and a \<open>PutM\<close> for the line's address with its bytes,
  marked dirty, is queued towards memory before the line becomes invalid; when write-backs
  are acknowledged, the miss registers hold a write-back entry in front of everything else
  waiting for that address.
\<close>

theorem dirty_eviction_writes_back:
  assumes "i < nlines s" and "cl_state (the_line s i) = stM" and "\<not> isLocked (timestamp s) (the_line s i)"
    and "getPendingRetries (c_mshr s) (cl_addr (the_line s i)) = 0"
    and "downFind env (cl_addr (the_line s i)) \<noteq> ''''"
  shows "\<exists>s' r. handleEviction env a (Some i) s = Inr (s', i, True) \<and> grows (queueDown s) r (queueDown s') \<and>
     cmd r = PutM \<and> baseAddr r = cl_addr (the_line s i) \<and> payload r = cl_data (the_line s i) \<and> ev_dirty r \<and>
     cl_state (the_line s' i) = stI \<and>
     (recvWritebackAck s \<longrightarrow> mshr_view (c_mshr s') (cl_addr (the_line s i)) =
        writebackEntry False (simCycle env) # mshr_view (c_mshr s) (cl_addr (the_line s i)))"
  using evict_modified [OF assms, of a] by blast

section \<open>Responses from below\<close>

lemma removeFront_last:
  assumes "mshr_ok m" and "mshr_view m a = [e]"
  shows "\<exists>m'. removeFront a m = Inr m' \<and> \<not> mshr_exists m' a"
proof -
  obtain r where r: "map_find (mshr_map m) a = Some r" "entries r = [e]"
    using mshr_view_nonempty [of m a] assms(2) by auto
  have "key_sorted (mshr_map m)" using assms(1) by (simp add: mshr_ok_def)
  then show ?thesis using r
    by (simp add: removeFront_def find_reg_def getFrontType_def front_of_def Let_def mshr_exists_def map_find_erase)
qed

lemma front_of_view:
  assumes "mshr_view m a = e # es" and "me_type e = METEvent" and "me_event e = Some req"
  shows "getFrontEvent m a = Inr (Some req)" and "getFrontType m a = Inr METEvent"
proof -
  obtain r where r: "map_find (mshr_map m) a = Some r" "entries r = e # es"
    using mshr_view_nonempty [of m a] assms(1) by auto
  then show "getFrontEvent m a = Inr (Some req)" and "getFrontType m a = Inr METEvent"
    using assms(2,3) by (simp_all add: getFrontEvent_def getFrontType_def getFront_def find_reg_def front_of_def)
qed

lemma cleanUp_last:
  assumes "mshr_ok (c_mshr s)" and "mshr_view (c_mshr s) (baseAddr ev) = [e]" and "me_type e = METEvent" and "me_event e = Some req"
  shows "\<exists>s'. cleanUpAfterResponse env ev b s = Inr s' \<and> \<not> mshr_exists (c_mshr s') (baseAddr ev) \<and> c_array s' = c_array s \<and>
     queueUp s' = queueUp s"
  using removeFront_last [OF assms(1,2)] front_of_view [OF assms(2-4)]
  by (auto simp: cleanUpAfterResponse_def Let_def on_mshr_def)


lemma respond_bytes_total:
  assumes "upReachable env (ev_src req)" and "unat (ev_addr req - a) + unat (ev_size req) \<le> length (cl_data (the_line s i))"
  shows "\<exists>s' r. respond_bytes env req a i succ s = Inr s' \<and> grows (queueUp s) r (queueUp s') \<and> answers r req \<and>
     payload r = take (unat (ev_size req)) (drop (unat (ev_addr req - a)) (cl_data (the_line s i))) \<and>
     success r = (succ \<and> success req) \<and> c_mshr s' = c_mshr s \<and> soft s s'"
proof -
  let ?d = "take (unat (ev_size req)) (drop (unat (ev_addr req - a)) (cl_data (the_line s i)))"
  obtain s1 t r where r: "sendResponseUp env req (Some ?d) True (lastSendTimestamp (the_line s i)) succ s = Inr (s1, t)"
      "c_array s1 = c_array s" "c_mshr s1 = c_mshr s" "timestamp s1 = timestamp s" "grows (queueUp s) r (queueUp s1)" "answers r req"
      "payload r = ?d" "success r = (succ \<and> success req)"
    using sendResponseUp_total [OF assms(1), of "Some ?d" True "lastSendTimestamp (the_line s i)" succ s] by auto
  have "soft s s1" using r(2,4) by (simp add: soft_def the_line_def)
  then show ?thesis using r assms(2)
    by (intro exI [of _ "on_line i (setTimestamp (t - 1)) s1"] exI [of _ r]) (simp add: respond_bytes_def vec_slice_def)
qed

text \<open>The request a response belongs to: alone at the front of its register.\<close>

definition awaited :: "MemEvent \<Rightarrow> MemEvent \<Rightarrow> Ctl \<Rightarrow> bool" where
  "awaited resp req s \<longleftrightarrow> (\<exists>e. mshr_view (c_mshr s) (baseAddr resp) = [e] \<and> me_type e = METEvent \<and> me_event e = Some req) \<and>
     baseAddr req = baseAddr resp"

lemma fill_read:
  assumes "ctl_ok s" and "hit s s (baseAddr resp) (Some i)" and "cl_state (the_line s i) = stIS"
    and "cmd resp = GetXResp" and "awaited resp req s" and "upReachable env (ev_src req)"
    and "rqstr req \<noteq> cachename env" and "length (getPayload resp) = length (cl_data (the_line s i))"
    and "offset_of req + unat (ev_size req) \<le> length (cl_data (the_line s i))"
  shows "\<exists>s' r. dispatch env resp inMSHR s = Inr (s', True) \<and> grows (queueUp s) r (queueUp s') \<and> answers r req \<and>
     payload r = take (unat (ev_size req)) (drop (offset_of req) (getPayload resp)) \<and>
     cl_data (the_line s' i) = getPayload resp \<and>
     cl_state (the_line s' i) = (if ev_dirty resp then stM else protocolState env) \<and>
     \<not> mshr_exists (c_mshr s') (baseAddr resp)"
proof -
  let ?a = "baseAddr resp" and ?st = "if ev_dirty resp then stM else protocolState env"
  obtain e where e: "mshr_view (c_mshr s) ?a = [e]" "me_type e = METEvent" "me_event e = Some req" "baseAddr req = ?a"
    using assms(5) by (auto simp: awaited_def)
  have i: "i < nlines s" using assms(2) by (simp add: hit_def)
  define req' where "req' = req\<lparr>memFlags := memFlags resp\<rparr>"
  have req': "ev_src req' = ev_src req" "ev_addr req' = ev_addr req" "ev_size req' = ev_size req" "rqstr req' = rqstr req"
      "answers r req' = answers r req" for r
    by (simp_all add: req'_def answers_def)
  define s1 where "s1 = on_line i (\<lambda>_. (the_line s i)\<lparr>cl_data := getPayload resp\<rparr>) s"
  have wr: "write_line i (getPayload resp) 0 s = Inr s1"
    using write_line_total [of 0 "getPayload resp" s i] line_data_length [OF assms(1) i] assms(8) by (simp add: s1_def overwrite_def)
  define s2 where "s2 = on_line i (setState ?st) s1"
  define s3 where "s3 = (if isLoadLink req' then on_line i (atomicStart (timestamp s2 + llscBlockCycles env)) s2 else s2)"
  have l3: "cl_data (the_line s3 i) = getPayload resp" "cl_state (the_line s3 i) = ?st" "queueUp s3 = queueUp s" "c_mshr s3 = c_mshr s"
    using i by (auto simp: s3_def s2_def s1_def the_line_on_line)
  obtain s4 r where r: "respond_bytes env req' ?a i True s3 = Inr s4" "grows (queueUp s) r (queueUp s4)" "answers r req"
      "payload r = take (unat (ev_size req)) (drop (offset_of req) (getPayload resp))" "c_mshr s4 = c_mshr s" "soft s3 s4"
    using respond_bytes_total [of env req' ?a s3 i True] assms(6,8,9) l3 req' e(4) by (auto simp: offset_of_def)
  have "mshr_ok (c_mshr s4)" "mshr_view (c_mshr s4) ?a = [e]" using assms(1) e(1) r(5) by (simp_all add: ctl_ok_def)
  then obtain s5 where s5: "cleanUpAfterResponse env resp inMSHR s4 = Inr s5" "\<not> mshr_exists (c_mshr s5) ?a"
      "c_array s5 = c_array s4" "queueUp s5 = queueUp s4" using cleanUp_last [OF _ _ e(2,3)] by blast
  have "the_line s5 = the_line s4" using s5(3) by (simp add: the_line_def fun_eq_iff)
  then have l5: "cl_data (the_line s5 i) = getPayload resp" "cl_state (the_line s5 i) = ?st" using soft_D [OF r(6), of i] l3 by simp_all
  have "finish_read env req' ?a i s2 = Inr s4" using r(1) assms(7) req' by (simp add: finish_read_def s3_def Let_def)
  then have "dispatch env resp inMSHR s = Inr (s5, True)"
    using front_of_view [OF e(1-3)] wr s5(1) assms(3,4)
    by (simp add: dispatch_def handleGetXResp_def lookupL_False [OF assms(1,2)] Let_def front_request_def with_line_def
        req'_def s2_def)
  then show ?thesis using r s5 l5 by auto
qed

text \<open>
  C9 A fill answers the waiting read: when the exclusive response to a read arrives for a line
  in transit, the response is accepted; the line then holds exactly the bytes that arrived,
  in state \<open>M\<close> if they are dirty and otherwise in the protocol's clean state; the waiting
  request is answered with the bytes it asked for, and its register is freed.
\<close>

theorem fill_answers_read:
  assumes "ctl_ok s" and "hit s s (baseAddr resp) (Some i)" and "cl_state (the_line s i) = stIS"
    and "cmd resp = GetXResp" and "awaited resp req s" and "upReachable env (ev_src req)"
    and "rqstr req \<noteq> cachename env" and "length (getPayload resp) = length (cl_data (the_line s i))"
    and "offset_of req + unat (ev_size req) \<le> length (cl_data (the_line s i))"
  shows "\<exists>s' r. dispatch env resp inMSHR s = Inr (s', True) \<and> grows (queueUp s) r (queueUp s') \<and> answers r req \<and>
     payload r = take (unat (ev_size req)) (drop (offset_of req) (getPayload resp)) \<and>
     cl_data (the_line s' i) = getPayload resp \<and>
     cl_state (the_line s' i) = (if ev_dirty resp then stM else protocolState env) \<and>
     \<not> mshr_exists (c_mshr s') (baseAddr resp)"
  by (rule fill_read [OF assms])

text \<open>
  The response to a flush is forwarded as a success whatever the level below reported: the
  answer to the waiting flush never carries the failure flag of the response, only the one
  the request itself already had.
\<close>

theorem flush_result_is_dropped:
  assumes "ctl_ok s" and "hit s s (baseAddr resp) (Some i)" and "cl_state (the_line s i) \<in> {stS_B, stI_B}"
    and "cmd resp = FlushLineResp" and "awaited resp req s" and "upReachable env (ev_src req)"
  shows "\<exists>s' r. dispatch env resp inMSHR s = Inr (s', True) \<and> grows (queueUp s) r (queueUp s') \<and> answers r req \<and>
     success r = success req \<and> cl_state (the_line s' i) = (if cl_state (the_line s i) = stS_B then stS else stI) \<and>
     \<not> mshr_exists (c_mshr s') (baseAddr resp)"
proof -
  let ?a = "baseAddr resp"
  obtain e where e: "mshr_view (c_mshr s) ?a = [e]" "me_type e = METEvent" "me_event e = Some req" using assms(5) by (auto simp: awaited_def)
  have i: "i < nlines s" using assms(2) by (simp add: hit_def)
  define s1 where "s1 = (if cl_state (the_line s i) = stS_B then on_line i (setState stS) s else on_line i (\<lambda>l. atomicEnd (setState stI l)) s)"
  have l1: "cl_state (the_line s1 i) = (if cl_state (the_line s i) = stS_B then stS else stI)" "queueUp s1 = queueUp s" "c_mshr s1 = c_mshr s"
    using i by (auto simp: s1_def the_line_on_line)
  obtain s2 t r where r: "sendResponseUp env req None (timestamp s1 \<noteq> 0) (if success resp then 1 else 0) True s1 = Inr (s2, t)"
      "c_array s2 = c_array s1" "c_mshr s2 = c_mshr s1" "grows (queueUp s1) r (queueUp s2)" "answers r req" "success r = success req"
    using sendResponseUp_total [OF assms(6), of None "timestamp s1 \<noteq> 0" "if success resp then 1 else 0" True s1] by auto
  have "mshr_ok (c_mshr s2)" "mshr_view (c_mshr s2) ?a = [e]" using assms(1) e(1) r(3) l1(3) by (simp_all add: ctl_ok_def)
  then obtain s3 where s3: "cleanUpAfterResponse env resp inMSHR s2 = Inr s3" "\<not> mshr_exists (c_mshr s3) ?a"
      "c_array s3 = c_array s2" "queueUp s3 = queueUp s2" using cleanUp_last [OF _ _ e(2,3)] by blast
  have "the_line s3 = the_line s1" using s3(3) r(2) by (simp add: the_line_def fun_eq_iff)
  moreover have "dispatch env resp inMSHR s = Inr (s3, True)"
    using front_of_view [OF e] r(1) s3(1) assms(3,4)
    by (auto simp: dispatch_def handleFlushLineResp_def lookupL_False [OF assms(1,2)] Let_def with_line_def set_line_state_def s1_def)
  ultimately show ?thesis using r(4-6) s3(2,4) l1 by auto
qed

text \<open>
  A locking read that hits runs out of its buffer: the handler copies the requested bytes
  into an empty vector, so a \<open>GetSX\<close> of at least one byte on an exclusive or modified line
  ends in an out-of-range access instead of a response.
\<close>

theorem getsx_hit_faults:
  assumes "quiet_hit env ev i s" and "cl_state (the_line s i) \<in> {stE, stM}" and "cmd ev = GetSX"
    and "0 < unat (ev_size ev)" and "offset_of ev + unat (ev_size ev) \<le> length (cl_data (the_line s i))"
  shows "dispatch env ev False s = Inl OutOfRange"
proof -
  have h: "ctl_ok s" "plain_policy (replacementMgr (c_array s))" "hit s s (baseAddr ev) (Some i)" "i < nlines s"
    using assms(1) by (auto simp: quiet_hit_def hit_def)
  obtain m where lk: "lookupL (baseAddr ev) True s = Inr (s\<lparr>c_array := (c_array s)\<lparr>replacementMgr := m\<rparr>\<rparr>, Some i)"
    using lookupL_total [OF h(1-3)] by blast
  then show ?thesis using assms(2-5) h(4)
    by (auto simp: dispatch_def handleGetSX_def Let_def begin_retry_def upgrade_last_def with_line_def profile_hit_def
        vec_slice_def vec_copy_def offset_of_def the_line_on_line)
qed

section \<open>Concrete runs\<close>

definition demo_store :: "u32 \<Rightarrow> MemEvent" where
  "demo_store f = demo_event 1 64 Write\<lparr>ev_size := 2, payload := [7, 9], ev_flags := f\<rparr>"

lemma demo_hit: "hit demo_modified demo_modified 64 (Some 2)"
  by (simp add: hit_def in_set_def setBegin_def set_of_addr_def toLineAddr_def demo_modified_line)
    (simp add: demo_modified_def on_line_def upd_line_def demo_ctl_def demo_array_def NoHash_def L1CacheLine_new_def
      CacheLine_new_def CacheLine.defs L1CacheLine.defs)

lemma demo_quiet: "ev_src ev = ''cpu'' \<Longrightarrow> baseAddr ev = 64 \<Longrightarrow> quiet_hit demo_env ev 2 demo_modified"
  using demo_hit demo_modified_ok
  by (simp add: quiet_hit_def demo_env_def) (simp add: demo_modified_def on_line_def upd_line_def demo_ctl_def demo_array_def
      plain_policy_def mshr_exists_def newMSHR_def)

lemma demo_line [simp]: "cl_state (the_line demo_modified 2) = stM" "cl_addr (the_line demo_modified 2) = 64"
  "cl_data (the_line demo_modified 2) = replicate 64 0" "\<not> isAtomic (the_line demo_modified 2)"
  by (simp_all add: demo_modified_line L1CacheLine_new_def CacheLine_new_def CacheLine.defs L1CacheLine.defs isAtomic_def)

theorem store_then_load_witness:
  "\<exists>s1 s2 rsp. dispatch demo_env (demo_store 0) False demo_modified = Inr (s1, True) \<and>
     dispatch demo_env (demo_event 2 64 GetS\<lparr>ev_size := 2\<rparr>) False s1 = Inr (s2, True) \<and>
     grows (queueUp s1) rsp (queueUp s2) \<and> payload rsp = [7, 9]"
proof -
  have "\<exists>s1 s2 rsp. dispatch demo_env (demo_store 0) False demo_modified = Inr (s1, True) \<and>
     dispatch demo_env (demo_event 2 64 GetS\<lparr>ev_size := 2\<rparr>) False s1 = Inr (s2, True) \<and>
     grows (queueUp s1) rsp (queueUp s2) \<and> answers rsp (demo_event 2 64 GetS\<lparr>ev_size := 2\<rparr>) \<and>
     payload rsp = take (unat (2 :: u32)) (drop 0 (overwrite [7, 9] 0 (replicate 64 0)))"
    using store_then_load [OF demo_quiet, of "demo_store 0" "demo_event 2 64 GetS\<lparr>ev_size := 2\<rparr>"]
    by (simp add: demo_store_def isStoreConditional_def queryFlag_def offset_of_def getPayload_def resizePayload_def
        demo_env_def)
  then show ?thesis by (auto simp: overwrite_def)
qed

theorem store_conditional_iff_reserved_witness:
  "\<exists>s' r. dispatch demo_env (demo_store F_LLSC) False demo_modified = Inr (s', True) \<and>
     grows (queueUp demo_modified) r (queueUp s') \<and> \<not> success r \<and> cl_data (the_line s' 2) = replicate 64 0"
proof -
  have ev: "isStoreConditional (demo_store F_LLSC)" "success (demo_store F_LLSC)" "ev_src (demo_store F_LLSC) = ''cpu''"
      "baseAddr (demo_store F_LLSC) = 64" "offset_of (demo_store F_LLSC) + length (getPayload (demo_store F_LLSC)) \<le> 64"
    by (simp_all add: demo_store_def isStoreConditional_def success_def queryFlag_def flag_defs offset_of_def getPayload_def
        resizePayload_def)
  from store_conditional_iff_reserved [OF demo_quiet [OF ev(3,4)] _ ev(1,2)] ev(5) show ?thesis by auto
qed

theorem store_breaks_reservation_witness:
  "\<exists>s1 s2 rsp. dispatch demo_env (demo_store 0) False demo_modified = Inr (s1, True) \<and>
     dispatch demo_env (demo_store F_LLSC) False s1 = Inr (s2, True) \<and>
     grows (queueUp s1) rsp (queueUp s2) \<and> \<not> success rsp"
proof -
  have ev: "isStoreConditional (demo_store F_LLSC)" "ev_src (demo_store f) = ''cpu''" "baseAddr (demo_store f) = 64"
      "offset_of (demo_store f) + length (getPayload (demo_store f)) \<le> 64" "\<not> isStoreConditional (demo_store 0)"
      "cmd (demo_store f) = Write" for f
    by (simp_all add: demo_store_def isStoreConditional_def queryFlag_def flag_defs offset_of_def getPayload_def resizePayload_def)
  from store_breaks_reservation [OF demo_quiet [OF ev(2,3)] _ _ ev(5) _ ev(1)] show ?thesis
    using ev by (force simp: demo_env_def)
qed

theorem invalidation_takes_line_witness:
  "\<exists>s' r. dispatch demo_env (demo_event 1 64 FetchInv\<lparr>ev_src := ''l2''\<rparr>) False demo_modified = Inr (s', True) \<and>
     grows (queueDown demo_modified) r (queueDown s') \<and> cl_state (the_line s' 2) = stI \<and> ev_dirty r"
proof -
  let ?ev = "demo_event 1 64 FetchInv\<lparr>ev_src := ''l2''\<rparr>"
  have "takes ?ev (the_line demo_modified 2)" "hit demo_modified demo_modified (baseAddr ?ev) (Some 2)"
    using demo_hit by (simp_all add: takes_def)
  moreover have "\<not> isLocked (timestamp demo_modified) (the_line demo_modified 2)"
    by (simp add: isLocked_def demo_modified_line L1CacheLine_new_def CacheLine_new_def CacheLine.defs L1CacheLine.defs)
  ultimately show ?thesis
    using invalidation_takes_line [OF demo_modified_ok, of ?ev 2 demo_env] by (auto simp: demo_env_def)
qed

theorem dirty_eviction_writes_back_witness:
  "\<exists>s' r. handleEviction demo_env 192 (Some 2) demo_modified = Inr (s', 2, True) \<and>
     grows (queueDown demo_modified) r (queueDown s') \<and> cmd r = PutM \<and> payload r = replicate 64 0"
proof -
  have "\<not> isLocked (timestamp demo_modified) (the_line demo_modified 2)"
    by (simp add: isLocked_def demo_modified_line L1CacheLine_new_def CacheLine_new_def CacheLine.defs L1CacheLine.defs)
  moreover have "getPendingRetries (c_mshr demo_modified) 64 = 0"
    by (simp add: demo_modified_def demo_ctl_def on_line_def newMSHR_def getPendingRetries_def)
  ultimately show ?thesis
    using dirty_eviction_writes_back [of 2 demo_modified demo_env 192] by (auto simp: demo_env_def)
qed

text \<open>A line in transit for address 64 with one request waiting.\<close>

definition demo_wait :: "State \<Rightarrow> MemEvent \<Rightarrow> Ctl" where
  "demo_wait st req = on_line 2 (\<lambda>l. setState st (setAddr 64 l))
     (demo_ctl\<lparr>c_mshr := fst (insertEvent 0 64 req (-1) False False (newMSHR 4))\<rparr>)"

lemma demo_wait_line: "the_line (demo_wait st req) 2 = (L1CacheLine_new 64 2)\<lparr>cl_addr := 64, cl_state := st,
    cl_info := \<lparr>ri_index = 2, ri_state = st, ri_coh = None\<rparr>\<rparr>"
  by (simp add: demo_wait_def on_line_def upd_line_def the_line_def line_at_def demo_ctl_def demo_array_def line_op_defs
      L1CacheLine_new_def CacheLine_new_def CacheLine.defs L1CacheLine.defs)

lemma demo_wait_sel: "cl_state (the_line (demo_wait st req) 2) = st" "length (cl_data (the_line (demo_wait st req) 2)) = 64"
  by (simp_all add: demo_wait_line L1CacheLine_new_def CacheLine_new_def CacheLine.defs L1CacheLine.defs)

lemma demo_wait_ok:
  assumes "st \<in> l1_states" and "st \<noteq> stM"
  shows "ctl_ok (demo_wait st req)"
proof -
  let ?s = "demo_ctl\<lparr>c_mshr := fst (insertEvent 0 64 req (-1) False False (newMSHR 4))\<rparr>"
  have "mshr_ok (fst (insertEvent 0 64 req (-1) False False (newMSHR 4)))"
    by (metis surjective_pairing mshr_ok_insertEvent mshr_ok_new)
  then have ok: "ctl_ok ?s" using demo_ctl_ok by (simp add: ctl_ok_def)
  show ?thesis unfolding demo_wait_def
    by (rule ctl_ok_on_line [OF ok]) (use assms in \<open>auto simp: geom_keep_def line_ok_def line_op_defs line_inv_def the_line_def line_at_def demo_ctl_def demo_array_def
      L1CacheLine_new_def CacheLine_new_def CacheLine.defs L1CacheLine.defs\<close>)
qed

lemma demo_wait_hit: "hit (demo_wait st req) (demo_wait st req) 64 (Some 2)"
  by (simp add: hit_def in_set_def setBegin_def set_of_addr_def toLineAddr_def demo_wait_line)
    (simp add: demo_wait_def on_line_def upd_line_def demo_ctl_def demo_array_def NoHash_def L1CacheLine_new_def
      CacheLine_new_def CacheLine.defs L1CacheLine.defs)

lemma demo_awaited: "baseAddr resp = 64 \<Longrightarrow> baseAddr req = 64 \<Longrightarrow> awaited resp req (demo_wait st req)"
  by (simp add: awaited_def demo_wait_def mshr_demo_simps mshr_view_def reg_at_def eventEntry_def)

lemma demo_env_sel: "upReachable demo_env ''cpu''" "cachename demo_env = ''l1''" "protocolState demo_env = stE"
  by (simp_all add: demo_env_def)

theorem fill_answers_read_witness:
  "\<exists>s' r. dispatch demo_env (demo_event 2 64 GetXResp\<lparr>ev_size := 64, payload := replicate 64 5\<rparr>) False
      (demo_wait stIS (demo_event 1 64 GetS\<lparr>ev_size := 2\<rparr>)) = Inr (s', True) \<and>
     grows (queueUp (demo_wait stIS (demo_event 1 64 GetS\<lparr>ev_size := 2\<rparr>))) r (queueUp s') \<and>
     payload r = [5, 5] \<and> cl_state (the_line s' 2) = stE"
proof -
  let ?req = "demo_event 1 64 GetS\<lparr>ev_size := 2\<rparr>"
  let ?resp = "demo_event 2 64 GetXResp\<lparr>ev_size := 64, payload := replicate 64 5\<rparr>"
  have ok: "ctl_ok (demo_wait stIS ?req)" by (rule demo_wait_ok) simp_all
  have aw: "awaited ?resp ?req (demo_wait stIS ?req)" by (rule demo_awaited) simp_all
  have h: "hit (demo_wait stIS ?req) (demo_wait stIS ?req) (baseAddr ?resp) (Some 2)" using demo_wait_hit by simp
  have p: "getPayload ?resp = replicate 64 5" "ev_dirty ?resp = False" "offset_of (demo_event (Suc 0) 64 GetS\<lparr>ev_size := 2\<rparr>) = 0"
    by (simp_all add: getPayload_def resizePayload_def demo_event_def offset_of_def)
  have b: "take 2 (replicate 64 (5 :: u8)) = [5, 5]" by (simp add: numeral_eq_Suc)
  obtain s' r where "dispatch demo_env ?resp False (demo_wait stIS ?req) = Inr (s', True)"
      "grows (queueUp (demo_wait stIS ?req)) r (queueUp s')"
      "payload r = take (unat (ev_size ?req)) (drop (offset_of ?req) (getPayload ?resp))"
      "cl_state (the_line s' 2) = (if ev_dirty ?resp then stM else protocolState demo_env)"
    using fill_answers_read [OF ok h demo_wait_sel(1) _ aw, of demo_env False] p by (auto simp: demo_wait_sel demo_env_sel)
  then show ?thesis using b by (auto simp: p demo_env_sel simp del: take_replicate)
qed

theorem flush_result_is_dropped_witness:
  "\<exists>s' r. dispatch demo_env (demo_event 2 64 FlushLineResp\<lparr>ev_flags := F_FAIL\<rparr>) False
      (demo_wait stS_B (demo_event 1 64 FlushLine)) = Inr (s', True) \<and>
     grows (queueUp (demo_wait stS_B (demo_event 1 64 FlushLine))) r (queueUp s') \<and> success r"
proof -
  let ?req = "demo_event 1 64 FlushLine" and ?resp = "demo_event 2 64 FlushLineResp\<lparr>ev_flags := F_FAIL\<rparr>"
  have ok: "ctl_ok (demo_wait stS_B ?req)" by (rule demo_wait_ok) simp_all
  have aw: "awaited ?resp ?req (demo_wait stS_B ?req)" by (rule demo_awaited) simp_all
  have "hit (demo_wait stS_B ?req) (demo_wait stS_B ?req) (baseAddr ?resp) (Some 2)" using demo_wait_hit by simp
  from flush_result_is_dropped [OF ok this _ _ aw, of demo_env False] show ?thesis
    by (auto simp: demo_wait_sel demo_env_def success_def queryFlag_def)
qed

theorem getsx_hit_faults_witness:
  "dispatch demo_env (demo_event 1 64 GetSX\<lparr>ev_size := 4\<rparr>) False demo_modified = Inl OutOfRange"
  by (rule getsx_hit_faults [OF demo_quiet]) (simp_all add: offset_of_def)

end
