(* ===== verification/MemH_Cache.thy ===== *)
theory MemH_Cache
  imports MemH_L1Behaviour "HOL-Library.Sublist"
begin

unbundle bit_operations_syntax

text \<open>
  \<^verbatim>\<open>memHierarchy/cacheController.cc\<close>: the cache component around the coherence manager,
  for the L1 manager: arrival of events, the clock handler with its three buffers, dispatch,
  arbitration for lines and banks, noncacheable traffic, the clock switch and the timeout
  check. What the simulator core and the links answer is an argument: the cycle
  \<open>reregisterClock\<close> returns, whether the clocked links are idle, the current time and the
  conversion to nanoseconds. All events are \<open>MemEvent\<close>s. Statistics and debug output are left
  out. \<open>accepted\<close> counts below \<open>2^31\<close>.
\<close>

section \<open>State\<close>

record Cache =
  coherenceMgr :: Ctl
  c_timestamp :: u64
  clockIsOn :: bool
  lastActiveClockCycle :: u64
  allNoncacheableRequests :: bool
  maxRequestsPerCycle :: int
  banked :: bool
  bankStatus :: "bool list"
  addrsThisCycle :: "Addr list"
  retryBuf :: "MemEvent list"
  eventBuffer :: "MemEvent list"
  prefetchBuffer :: "MemEvent list"
  noncacheableResponseDst :: "(id_type, string) stdmap"

definition on_mgr :: "(Ctl \<Rightarrow> Ctl) \<Rightarrow> Cache \<Rightarrow> Cache" where
  "on_mgr f c = c\<lparr>coherenceMgr := f (coherenceMgr c)\<rparr>"

definition toBaseAddr :: "u64 \<Rightarrow> Addr \<Rightarrow> Addr" where
  "toBaseAddr lsz adr = adr AND NOT (lsz - 1)"

section \<open>The clock switch\<close>

definition turnClockOn :: "u64 \<Rightarrow> Cache \<Rightarrow> Cache" where
  "turnClockOn time c = on_mgr (\<lambda>s. s\<lparr>timestamp := time - 1\<rparr>) (c\<lparr>c_timestamp := time - 1, clockIsOn := True\<rparr>)"

definition turnClockOff :: "Cache \<Rightarrow> Cache" where
  "turnClockOff c = c\<lparr>clockIsOn := False, lastActiveClockCycle := c_timestamp c\<rparr>"

section \<open>Arrival\<close>

definition handleEvent :: "u64 \<Rightarrow> MemEvent \<Rightarrow> Cache \<Rightarrow> Cache" where
  "handleEvent time ev c0 =
     (let c1 = (if \<not> clockIsOn c0 then turnClockOn time c0 else c0);
          c2 = (if CommandClassArr (cmd ev) = CC_Request \<and> \<not> CommandWriteback (cmd ev)
                then on_mgr (recordIncomingRequest ev) c1 else c1)
      in c2\<lparr>eventBuffer := eventBuffer c2 @ [ev]\<rparr>)"

definition processPrefetchEvent :: "Env \<Rightarrow> u64 \<Rightarrow> MemEvent \<Rightarrow> Cache \<Rightarrow> Cache" where
  "processPrefetchEvent env time ev0 c0 =
     (let ev = ev0\<lparr>baseAddr := toBaseAddr (lineSizeC env) (ev_addr ev0), rqstr := cachename env, ev_src := cachename env\<rparr>;
          c1 = (if \<not> clockIsOn c0 then turnClockOn time c0 else c0);
          c2 = on_mgr (recordIncomingRequest ev) c1
      in c2\<lparr>prefetchBuffer := prefetchBuffer c2 @ [ev]\<rparr>)"

section \<open>Processing one event\<close>

definition arbitrateAccess :: "Addr \<Rightarrow> Cache \<Rightarrow> bool res" where
  "arbitrateAccess adr c =
     (if \<not> banked c then Inr (adr \<notin> set (addrsThisCycle c))
      else bindE (getBank (coherenceMgr c) adr) (\<lambda>bank.
             if length (bankStatus c) \<le> unat bank then Inl OutOfRange
             else Inr (\<not> bankStatus c ! unat bank)))"

definition updateAccessStatus :: "Addr \<Rightarrow> Cache \<Rightarrow> Cache res" where
  "updateAccessStatus adr c0 =
     (let c = c0\<lparr>addrsThisCycle := List.insert adr (addrsThisCycle c0)\<rparr> in
      if banked c
      then bindE (getBank (coherenceMgr c) adr) (\<lambda>bank.
             if length (bankStatus c) \<le> unat bank then Inl OutOfRange
             else Inr (c\<lparr>bankStatus := (bankStatus c)[unat bank := True]\<rparr>))
      else Inr c)"

definition lift_mgr :: "(Ctl \<Rightarrow> Ctl res) \<Rightarrow> Cache \<Rightarrow> Cache res" where
  "lift_mgr f c = bindE (f (coherenceMgr c)) (\<lambda>s. Inr (c\<lparr>coherenceMgr := s\<rparr>))"

text \<open>\<open>std::map::insert\<close> keeps an existing entry.\<close>

definition processNoncacheable :: "Env \<Rightarrow> MemEvent \<Rightarrow> Cache \<Rightarrow> Cache res" where
  "processNoncacheable env ev c =
     (if CommandRouteByAddress (cmd ev)
      then (let c1 = (if \<not> queryFlag F_NORESPONSE ev \<and> map_find (noncacheableResponseDst c) (eventID ev) = None
                      then c\<lparr>noncacheableResponseDst := map_set (eventID ev) (ev_src ev) (noncacheableResponseDst c)\<rparr>
                      else c)
            in lift_mgr (forwardByAddress1 env ev) c1)
      else (case map_find (noncacheableResponseDst c) (responseToID ev) of
              None \<Rightarrow> Inl (Fatal ''processNoncacheable'')
            | Some dst \<Rightarrow> bindE (lift_mgr (forwardByDestination1 env (ev\<lparr>ev_dst := dst\<rparr>)) c) (\<lambda>c1.
                Inr (c1\<lparr>noncacheableResponseDst := map_erase (responseToID ev) (noncacheableResponseDst c1)\<rparr>))))"

definition noncacheable :: "MemEvent \<Rightarrow> bool" where
  "noncacheable ev \<longleftrightarrow> MemEventTypeArr (cmd ev) \<noteq> MT_Cache \<or> queryFlag F_NONCACHEABLE ev"

definition processEvent :: "Env \<Rightarrow> MemEvent \<Rightarrow> bool \<Rightarrow> Cache \<Rightarrow> (Cache \<times> bool) res" where
  "processEvent env ev0 inMSHR c =
     (let ev = (if allNoncacheableRequests c then setFlag F_NONCACHEABLE ev0 else ev0) in
      if noncacheable ev then bindE (processNoncacheable env ev c) (\<lambda>c. Inr (c, True))
      else bindE (arbitrateAccess (baseAddr ev) c) (\<lambda>free.
        if \<not> free then Inr (c, False)
        else bindE (dispatch env ev inMSHR (coherenceMgr c)) (\<lambda>(s, acc).
          let c1 = c\<lparr>coherenceMgr := s\<rparr> in
          if acc then bindE (updateAccessStatus (baseAddr ev) c1) (\<lambda>c2. Inr (c2, True))
          else Inr (c1, False))))"

section \<open>The clock handler\<close>

text \<open>
  One pass over a buffer: an accepted event is erased, a refused one stays, and the pass ends
  at the limit. The result has the events that stay, in their order.
\<close>

fun run_buffer :: "Env \<Rightarrow> bool \<Rightarrow> int \<Rightarrow> MemEvent list \<Rightarrow> Cache \<Rightarrow> (Cache \<times> int \<times> MemEvent list) res" where
  "run_buffer env inMSHR acc [] c = Inr (c, acc, [])"
| "run_buffer env inMSHR acc (ev # evs) c =
     (if acc = maxRequestsPerCycle c then Inr (c, acc, ev # evs)
      else bindE (processEvent env ev inMSHR c) (\<lambda>(c, ok).
        if ok then run_buffer env inMSHR (acc + 1) evs c
        else bindE (run_buffer env inMSHR acc evs c) (\<lambda>(c, acc, rest). Inr (c, acc, ev # rest))))"

fun run_prefetches :: "Env \<Rightarrow> int \<Rightarrow> MemEvent list \<Rightarrow> Cache \<Rightarrow> (Cache \<times> int) res" where
  "run_prefetches env acc [] c = Inr (c, acc)"
| "run_prefetches env acc (ev # evs) c =
     bindE (if acc \<noteq> maxRequestsPerCycle c then processEvent env ev False c else Inr (c, False)) (\<lambda>(c, ok).
       if ok then run_prefetches env (acc + 1) evs c
       else run_prefetches env acc evs (on_mgr (removeRequestRecord (eventID ev)) c))"

definition clockTick :: "Env \<Rightarrow> bool \<Rightarrow> bool \<Rightarrow> Cache \<Rightarrow> (Cache \<times> bool) res" where
  "clockTick env upIdle downIdle c0 =
     (let (s, idle) = sendOutgoingEvents env (coherenceMgr c0);
          c = c0\<lparr>c_timestamp := c_timestamp c0 + 1, coherenceMgr := s,
                 bankStatus := map (\<lambda>_. False) (bankStatus c0), addrsThisCycle := []\<rparr>;
          idle = (idle \<and> upIdle \<and> downIdle) in
      bindE (run_buffer env True 0 (retryBuf c) c) (\<lambda>(c, acc, restR).
      bindE (run_buffer env False acc (eventBuffer c) c) (\<lambda>(c, acc, restE).
      bindE (run_prefetches env acc (prefetchBuffer c) c) (\<lambda>(c, acc).
      let c = c\<lparr>retryBuf := restR @ retryBuffer (coherenceMgr c), eventBuffer := restE, prefetchBuffer := [],
                coherenceMgr := (coherenceMgr c)\<lparr>retryBuffer := []\<rparr>\<rparr>;
          idle = (idle \<and> checkIdle (coherenceMgr c)) in
      if eventBuffer c = [] \<and> retryBuf c = [] \<and> idle then Inr (turnClockOff c, True) else Inr (c, False)))))"

section \<open>Timeouts\<close>

definition checkTimeout :: "(u64 \<Rightarrow> u64) \<Rightarrow> u64 \<Rightarrow> u64 \<Rightarrow> Cache \<Rightarrow> unit res" where
  "checkTimeout toNs curTime timeout c = (case getOldestEntry (c_mshr (coherenceMgr c)) of
     None \<Rightarrow> Inr ()
   | Some e \<Rightarrow> if curTime - toNs (me_time e) > timeout then Inl (Fatal ''checkTimeout'') else Inr ())"

section \<open>What one event changes\<close>

definition keeps :: "Cache \<Rightarrow> Cache \<Rightarrow> bool" where
  "keeps c c' \<longleftrightarrow> maxRequestsPerCycle c' = maxRequestsPerCycle c \<and> allNoncacheableRequests c' = allNoncacheableRequests c \<and>
     banked c' = banked c \<and> retryBuf c' = retryBuf c \<and> eventBuffer c' = eventBuffer c \<and> prefetchBuffer c' = prefetchBuffer c"

lemma keeps_refl [simp]: "keeps c c"
  by (simp add: keeps_def)

lemma keeps_trans: "keeps c d \<Longrightarrow> keeps d e \<Longrightarrow> keeps c e"
  by (simp add: keeps_def)

lemma processNoncacheable_keeps:
  "processNoncacheable env ev c = Inr c' \<Longrightarrow> keeps c c' \<and> addrsThisCycle c' = addrsThisCycle c"
  by (auto simp: processNoncacheable_def lift_mgr_def bindE_eq_Inr_iff Let_def keeps_def split: if_splits option.splits)

lemma updateAccessStatus_keeps:
  "updateAccessStatus a c = Inr c' \<Longrightarrow> keeps c c' \<and> set (addrsThisCycle c') = insert a (set (addrsThisCycle c))"
  by (auto simp: updateAccessStatus_def bindE_eq_Inr_iff Let_def keeps_def split: if_splits)

lemma processEvent_cases:
  assumes "processEvent env ev0 b c = Inr (c', ok)"
  obtains (nc) ev where "ok" "processNoncacheable env ev c = Inr c'" "allNoncacheableRequests c \<or> noncacheable ev0"
  | (stall) "\<not> ok" "c' = c"
  | (refused) s where "\<not> ok" "c' = c\<lparr>coherenceMgr := s\<rparr>"
  | (taken) s where "ok" "\<not> noncacheable ev0 \<or> allNoncacheableRequests c" "arbitrateAccess (baseAddr ev0) c = Inr True"
      "updateAccessStatus (baseAddr ev0) (c\<lparr>coherenceMgr := s\<rparr>) = Inr c'"
proof -
  define ev where "ev = (if allNoncacheableRequests c then setFlag F_NONCACHEABLE ev0 else ev0)"
  have ba: "baseAddr ev = baseAddr ev0" by (simp add: ev_def setFlag_def)
  have r: "(if noncacheable ev then bindE (processNoncacheable env ev c) (\<lambda>c. Inr (c, True))
      else bindE (arbitrateAccess (baseAddr ev0) c) (\<lambda>free.
        if \<not> free then Inr (c, False)
        else bindE (dispatch env ev b (coherenceMgr c)) (\<lambda>(s, acc).
          if acc then bindE (updateAccessStatus (baseAddr ev0) (c\<lparr>coherenceMgr := s\<rparr>)) (\<lambda>c2. Inr (c2, True))
          else Inr (c\<lparr>coherenceMgr := s\<rparr>, False)))) = Inr (c', ok)"
    using assms unfolding processEvent_def Let_def ev_def [symmetric] ba .
  show thesis
  proof (cases "noncacheable ev")
    case True
    with r have "processNoncacheable env ev c = Inr c'" "ok" by (auto simp: bindE_eq_Inr_iff)
    with True show thesis by (intro nc) (auto simp: ev_def split: if_splits)
  next
    case False
    with r obtain free where f: "arbitrateAccess (baseAddr ev0) c = Inr free" by (auto simp: bindE_eq_Inr_iff)
    show thesis
    proof (cases free)
      case True
      with r False f obtain s acc where "dispatch env ev b (coherenceMgr c) = Inr (s, acc)"
        and d: "(if acc then bindE (updateAccessStatus (baseAddr ev0) (c\<lparr>coherenceMgr := s\<rparr>)) (\<lambda>c2. Inr (c2, True))
          else Inr (c\<lparr>coherenceMgr := s\<rparr>, False)) = Inr (c', ok)" by (auto simp: bindE_eq_Inr_iff)
      then show thesis using taken [of s] refused [of s] False f True
        by (cases acc) (auto simp: bindE_eq_Inr_iff ev_def split: if_splits)
    next
      case no: False
      with r False f show thesis by (intro stall) auto
    qed
  qed
qed

lemma processEvent_keeps:
  assumes "processEvent env ev b c = Inr (c', ok)"
  shows "keeps c c'"
  using assms
proof (cases rule: processEvent_cases)
  case (nc ev)
  then show ?thesis using processNoncacheable_keeps by blast
next
  case (taken s)
  from updateAccessStatus_keeps [OF taken(4)] show ?thesis by (simp add: keeps_def)
qed (simp_all add: keeps_def)

text \<open>The lines used in this cycle, without banks: acceptance needs a free line and takes it.\<close>

definition busy :: "Addr \<Rightarrow> Cache \<Rightarrow> nat" where
  "busy a c = (if a \<in> set (addrsThisCycle c) then 1 else 0)"

definition cacheable_at :: "Addr \<Rightarrow> MemEvent \<Rightarrow> bool" where
  "cacheable_at a ev \<longleftrightarrow> \<not> noncacheable ev \<and> baseAddr ev = a"

lemma processEvent_busy:
  assumes "processEvent env ev b c = Inr (c', ok)" and "\<not> banked c" and "\<not> allNoncacheableRequests c"
  shows "busy a c + (if cacheable_at a ev then 1 else 0) \<le> busy a c' + (if ok then 0 else if cacheable_at a ev then 1 else 0)"
  using assms(1)
proof (cases rule: processEvent_cases)
  case (nc ev')
  then show ?thesis using processNoncacheable_keeps [OF nc(2)] assms(3) by (simp add: busy_def cacheable_at_def)
next
  case (taken s)
  then show ?thesis using updateAccessStatus_keeps [OF taken(4)] assms(2)
    by (auto simp: busy_def cacheable_at_def arbitrateAccess_def)
qed (simp_all add: busy_def)

lemma run_buffer_spec:
  assumes "run_buffer env b acc es c = Inr (c', acc', rest)"
  shows "keeps c c' \<and> subseq rest es \<and> acc' = acc + int (length es) - int (length rest) \<and>
     (acc \<le> maxRequestsPerCycle c \<longrightarrow> acc' \<le> maxRequestsPerCycle c)"
  using assms
proof (induction es arbitrary: acc c c' acc' rest)
  case Nil
  then show ?case by simp
next
  case (Cons ev evs)
  show ?case
  proof (cases "acc = maxRequestsPerCycle c")
    case True
    with Cons.prems show ?thesis by auto
  next
    case False
    with Cons.prems obtain c1 ok where p: "processEvent env ev b c = Inr (c1, ok)" by (auto simp: bindE_eq_Inr_iff)
    note k = processEvent_keeps [OF p]
    show ?thesis
    proof (cases ok)
      case True
      with Cons.prems False p have "run_buffer env b (acc + 1) evs c1 = Inr (c', acc', rest)" by simp
      from Cons.IH [OF this] k False show ?thesis
        by (auto simp: keeps_def)
    next
      case no: False
      with Cons.prems False p obtain c2 a2 r2 where r: "run_buffer env b acc evs c1 = Inr (c2, a2, r2)"
          "c' = c2" "acc' = a2" "rest = ev # r2" by (auto simp: bindE_eq_Inr_iff)
      from Cons.IH [OF r(1)] k r show ?thesis by (auto simp: keeps_def)
    qed
  qed
qed

lemma run_buffer_busy:
  assumes "run_buffer env b acc es c = Inr (c', acc', rest)" and "\<not> banked c" and "\<not> allNoncacheableRequests c"
  shows "busy a c + length (filter (cacheable_at a) es) \<le> busy a c' + length (filter (cacheable_at a) rest)"
  using assms
proof (induction es arbitrary: acc c c' acc' rest)
  case Nil
  then show ?case by simp
next
  case (Cons ev evs)
  show ?case
  proof (cases "acc = maxRequestsPerCycle c")
    case True
    with Cons.prems show ?thesis by auto
  next
    case False
    with Cons.prems obtain c1 ok where p: "processEvent env ev b c = Inr (c1, ok)" by (auto simp: bindE_eq_Inr_iff)
    have k: "\<not> banked c1" "\<not> allNoncacheableRequests c1" using processEvent_keeps [OF p] Cons.prems by (auto simp: keeps_def)
    note bz = processEvent_busy [OF p Cons.prems(2,3), of a]
    show ?thesis
    proof (cases ok)
      case True
      with Cons.prems False p have "run_buffer env b (acc + 1) evs c1 = Inr (c', acc', rest)" by simp
      from Cons.IH [OF this k] bz True show ?thesis by auto
    next
      case no: False
      with Cons.prems False p obtain c2 a2 r2 where r: "run_buffer env b acc evs c1 = Inr (c2, a2, r2)"
          "c' = c2" "acc' = a2" "rest = ev # r2" by (auto simp: bindE_eq_Inr_iff)
      from Cons.IH [OF r(1) k] no bz r show ?thesis by auto
    qed
  qed
qed

text \<open>
  A sequence of calls of \<open>processEvent\<close>, each on the cache the one before left: the events in the
  order they are offered, from which buffer (retries come from the registers), and the answers.
\<close>

inductive offered :: "Env \<Rightarrow> Cache \<Rightarrow> (bool \<times> MemEvent \<times> bool) list \<Rightarrow> Cache \<Rightarrow> bool" for env where
  offered_none: "offered env c [] c"
| offered_one: "processEvent env ev b c = Inr (c1, ok) \<Longrightarrow> offered env c1 tr c2 \<Longrightarrow> offered env c ((b, ev, ok) # tr) c2"

lemma offered_append: "offered env c tr c1 \<Longrightarrow> offered env c1 tr' c2 \<Longrightarrow> offered env c (tr @ tr') c2"
  by (induction rule: offered.induct) (auto intro: offered.intros)

text \<open>Of the events offered from a buffer with their answers: how many are accepted, and which stay.\<close>

definition n_accepted :: "(MemEvent \<times> bool) list \<Rightarrow> int" where
  "n_accepted tr = int (length (filter snd tr))"

definition stays :: "(MemEvent \<times> bool) list \<Rightarrow> MemEvent list" where
  "stays tr = map fst (filter (\<lambda>x. \<not> snd x) tr)"

lemma offers_simps [simp]:
  "n_accepted [] = 0" "n_accepted ((ev, ok) # tr) = (if ok then 1 else 0) + n_accepted tr" "n_accepted (tr @ tr') = n_accepted tr + n_accepted tr'"
  "stays [] = []" "stays ((ev, ok) # tr) = (if ok then stays tr else ev # stays tr)"
  by (simp_all add: n_accepted_def stays_def)

lemma run_buffer_split:
  assumes "run_buffer env b acc es c = Inr (c', acc', rest)"
  shows "\<exists>tr wait. offered env c (map (Pair b) tr) c' \<and> es = map fst tr @ wait \<and> rest = stays tr @ wait \<and>
     acc' = acc + n_accepted tr \<and> (wait \<noteq> [] \<longrightarrow> acc' = maxRequestsPerCycle c)"
  using assms
proof (induction es arbitrary: acc c c' acc' rest)
  case Nil
  then show ?case by (intro exI [of _ "[]"]) (simp add: offered_none)
next
  case (Cons ev evs)
  show ?case
  proof (cases "acc = maxRequestsPerCycle c")
    case True
    with Cons.prems show ?thesis by (intro exI [of _ "[]"] exI [of _ "ev # evs"]) (auto simp: offered_none)
  next
    case False
    with Cons.prems obtain c1 ok where p: "processEvent env ev b c = Inr (c1, ok)" by (auto simp: bindE_eq_Inr_iff)
    have k: "maxRequestsPerCycle c1 = maxRequestsPerCycle c" using processEvent_keeps [OF p] by (simp add: keeps_def)
    obtain r where r: "run_buffer env b (acc + (if ok then 1 else 0)) evs c1 = Inr (c', acc', r)" "rest = (if ok then r else ev # r)"
      using Cons.prems False p by (auto simp: bindE_eq_Inr_iff split: if_splits)
    obtain tr wait where t: "offered env c1 (map (Pair b) tr) c'" "evs = map fst tr @ wait" "r = stays tr @ wait"
        "acc' = acc + (if ok then 1 else 0) + n_accepted tr" "wait \<noteq> [] \<longrightarrow> acc' = maxRequestsPerCycle c1"
      using Cons.IH [OF r(1)] by blast
    have "offered env c (map (Pair b) ((ev, ok) # tr)) c'" using offered_one [OF p t(1)] by simp
    then show ?thesis using t(2-5) r(2) k by (intro exI [of _ "(ev, ok) # tr"] exI [of _ wait]) auto
  qed
qed

lemma run_prefetches_keeps: "run_prefetches env acc es c = Inr (c', acc') \<Longrightarrow> keeps c c'"
proof (induction es arbitrary: acc c)
  case Nil
  then show ?case by simp
next
  case (Cons ev evs)
  obtain c1 ok where p: "(if acc \<noteq> maxRequestsPerCycle c then processEvent env ev False c else Inr (c, False)) = Inr (c1, ok)"
    and r: "(if ok then run_prefetches env (acc + 1) evs c1
       else run_prefetches env acc evs (on_mgr (removeRequestRecord (eventID ev)) c1)) = Inr (c', acc')"
    using Cons.prems by (auto simp: bindE_eq_Inr_iff)
  have k: "keeps c c1" using p processEvent_keeps by (auto split: if_splits)
  show ?case
  proof (cases ok)
    case True
    with Cons.IH r k show ?thesis by (auto intro: keeps_trans)
  next
    case False
    with Cons.IH r have "keeps (on_mgr (removeRequestRecord (eventID ev)) c1) c'" by simp
    with k show ?thesis by (simp add: keeps_def on_mgr_def)
  qed
qed

text \<open>A whole tick, taken apart.\<close>

lemma clockTick_parts:
  assumes "clockTick env u d c = Inr (c', off)"
  obtains c0 c1 c2 c3 a1 a2 a3 restR restE where
    "keeps c c0" "addrsThisCycle c0 = []" "run_buffer env True 0 (retryBuf c) c0 = Inr (c1, a1, restR)"
    "run_buffer env False a1 (eventBuffer c) c1 = Inr (c2, a2, restE)"
    "run_prefetches env a2 (prefetchBuffer c) c2 = Inr (c3, a3)"
    "retryBuf c' = restR @ retryBuffer (coherenceMgr c3)" "eventBuffer c' = restE" "prefetchBuffer c' = []"
    "off \<longrightarrow> eventBuffer c' = [] \<and> retryBuf c' = [] \<and> checkIdle (coherenceMgr c') \<and> \<not> clockIsOn c'"
    "c0 = c\<lparr>c_timestamp := c_timestamp c + 1, coherenceMgr := fst (sendOutgoingEvents env (coherenceMgr c)),
       bankStatus := map (\<lambda>_. False) (bankStatus c), addrsThisCycle := []\<rparr>"
proof -
  obtain s idle where so: "sendOutgoingEvents env (coherenceMgr c) = (s, idle)" by force
  define c0 where "c0 = c\<lparr>c_timestamp := c_timestamp c + 1, coherenceMgr := s, bankStatus := map (\<lambda>_. False) (bankStatus c),
      addrsThisCycle := []\<rparr>"
  have k0: "keeps c c0" "addrsThisCycle c0 = []" by (simp_all add: c0_def keeps_def)
  obtain c1 a1 restR where r1: "run_buffer env True 0 (retryBuf c0) c0 = Inr (c1, a1, restR)"
    using assms so by (auto simp: clockTick_def bindE_eq_Inr_iff Let_def c0_def)
  obtain c2 a2 restE where r2: "run_buffer env False a1 (eventBuffer c1) c1 = Inr (c2, a2, restE)"
    using assms so r1 by (auto simp: clockTick_def bindE_eq_Inr_iff Let_def c0_def)
  obtain c3 a3 where r3: "run_prefetches env a2 (prefetchBuffer c2) c2 = Inr (c3, a3)"
    using assms so r1 r2 by (auto simp: clockTick_def bindE_eq_Inr_iff Let_def c0_def)
  have b: "retryBuf c0 = retryBuf c" "eventBuffer c1 = eventBuffer c" "prefetchBuffer c2 = prefetchBuffer c"
    using k0 run_buffer_spec [OF r1] run_buffer_spec [OF r2] by (auto simp: keeps_def)
  have "retryBuf c' = restR @ retryBuffer (coherenceMgr c3)" "eventBuffer c' = restE" "prefetchBuffer c' = []"
      "off \<longrightarrow> eventBuffer c' = [] \<and> retryBuf c' = [] \<and> checkIdle (coherenceMgr c') \<and> \<not> clockIsOn c'"
    using assms so r1 r2 r3
    by (auto simp: clockTick_def Let_def c0_def turnClockOff_def checkIdle_def split: if_splits)
  with that k0 r1 r2 r3 b c0_def so show thesis by simp
qed

section \<open>Properties\<close>

text \<open>
  C31 One clock tick loses no event and respects the port limit. After the cycle's sends and
  resets, the tick offers the events of the retry buffer and then those of the event buffer to
  \<open>processEvent\<close>, in order, each on the cache the call before left; exactly the events that call
  accepted leave their buffer, the others stay in their order. With a limit of \<open>n\<close> requests per
  cycle at most \<open>n\<close> are accepted, and an event is not offered only when the limit is reached. The
  retry buffer then receives the events the handlers asked to retry, no prefetch is left over.
\<close>

theorem clockTick_conserves:
  assumes "clockTick env upIdle downIdle c = Inr (c', off)"
  shows "\<exists>trR trE waitR waitE c2 c3 n.
     offered env (c\<lparr>c_timestamp := c_timestamp c + 1, coherenceMgr := fst (sendOutgoingEvents env (coherenceMgr c)),
                    bankStatus := map (\<lambda>_. False) (bankStatus c), addrsThisCycle := []\<rparr>)
       (map (Pair True) trR @ map (Pair False) trE) c2 \<and>
     run_prefetches env (n_accepted (trR @ trE)) (prefetchBuffer c) c2 = Inr (c3, n) \<and>
     retryBuf c = map fst trR @ waitR \<and> retryBuf c' = stays trR @ waitR @ retryBuffer (coherenceMgr c3) \<and>
     eventBuffer c = map fst trE @ waitE \<and> eventBuffer c' = stays trE @ waitE \<and> prefetchBuffer c' = [] \<and>
     (0 \<le> maxRequestsPerCycle c \<longrightarrow> n_accepted (trR @ trE) \<le> maxRequestsPerCycle c) \<and>
     (waitR \<noteq> [] \<longrightarrow> n_accepted trR = maxRequestsPerCycle c) \<and> (waitE \<noteq> [] \<longrightarrow> n_accepted (trR @ trE) = maxRequestsPerCycle c)"
  using assms
proof (rule clockTick_parts)
  fix c0 c1 c2 c3 a1 a2 a3 restR restE
  assume p: "keeps c c0" "run_buffer env True 0 (retryBuf c) c0 = Inr (c1, a1, restR)"
    "run_buffer env False a1 (eventBuffer c) c1 = Inr (c2, a2, restE)" "run_prefetches env a2 (prefetchBuffer c) c2 = Inr (c3, a3)"
    "retryBuf c' = restR @ retryBuffer (coherenceMgr c3)" "eventBuffer c' = restE" "prefetchBuffer c' = []"
    "c0 = c\<lparr>c_timestamp := c_timestamp c + 1, coherenceMgr := fst (sendOutgoingEvents env (coherenceMgr c)),
       bankStatus := map (\<lambda>_. False) (bankStatus c), addrsThisCycle := []\<rparr>"
  note r = run_buffer_spec [OF p(2)] run_buffer_spec [OF p(3)]
  have m: "maxRequestsPerCycle c0 = maxRequestsPerCycle c" "maxRequestsPerCycle c1 = maxRequestsPerCycle c"
    using p(1) r by (auto simp: keeps_def)
  obtain trR waitR where R: "offered env c0 (map (Pair True) trR) c1" "retryBuf c = map fst trR @ waitR" "restR = stays trR @ waitR"
      "a1 = n_accepted trR" "waitR \<noteq> [] \<longrightarrow> a1 = maxRequestsPerCycle c"
    using run_buffer_split [OF p(2)] m by auto
  obtain trE waitE where E: "offered env c1 (map (Pair False) trE) c2" "eventBuffer c = map fst trE @ waitE" "restE = stays trE @ waitE"
      "a2 = a1 + n_accepted trE" "waitE \<noteq> [] \<longrightarrow> a2 = maxRequestsPerCycle c"
    using run_buffer_split [OF p(3)] m by auto
  have "0 \<le> maxRequestsPerCycle c \<longrightarrow> a2 \<le> maxRequestsPerCycle c" using r m by auto
  then show ?thesis using offered_append [OF R(1) E(1)] R(2-5) E(2-5) p(4-7) unfolding p(8)
    by (intro exI [of _ trR] exI [of _ trE] exI [of _ waitR] exI [of _ waitE] exI [of _ c2] exI [of _ c3] exI [of _ a3]) simp
qed

text \<open>
  In a cache without banks, at most one cacheable event per line is accepted in a cycle,
  over the retry buffer and the event buffer together: all others for the line stay.
\<close>

theorem one_access_per_line:
  assumes "clockTick env upIdle downIdle c = Inr (c', off)" and "\<not> banked c" and "\<not> allNoncacheableRequests c"
  shows "\<exists>restR new. retryBuf c' = restR @ new \<and> subseq restR (retryBuf c) \<and>
     length (filter (cacheable_at a) (retryBuf c)) + length (filter (cacheable_at a) (eventBuffer c)) \<le>
     length (filter (cacheable_at a) restR) + length (filter (cacheable_at a) (eventBuffer c')) + 1"
  using assms(1)
proof (rule clockTick_parts)
  fix c0 c1 c2 c3 a1 a2 a3 restR restE
  assume p: "keeps c c0" "addrsThisCycle c0 = []" "run_buffer env True 0 (retryBuf c) c0 = Inr (c1, a1, restR)"
    "run_buffer env False a1 (eventBuffer c) c1 = Inr (c2, a2, restE)"
    "retryBuf c' = restR @ retryBuffer (coherenceMgr c3)" "eventBuffer c' = restE"
  have b0: "\<not> banked c0" "\<not> allNoncacheableRequests c0" using p(1) assms by (auto simp: keeps_def)
  have b1: "\<not> banked c1" "\<not> allNoncacheableRequests c1" using run_buffer_spec [OF p(3)] b0 by (auto simp: keeps_def)
  have "busy a c2 \<le> 1" by (simp add: busy_def)
  with run_buffer_busy [OF p(3) b0, of a] run_buffer_busy [OF p(4) b1, of a] run_buffer_spec [OF p(3)] p(5,6)
  show ?thesis by auto
qed

text \<open>
  C32 The clock stops only when there is nothing left to do, and the next arrival starts it
  again: when a tick switches the clock off, both buffers and both outgoing queues are empty,
  and an event that arrives then is buffered with the clock running and the manager's time
  set to one cycle before the clock's next edge.
\<close>

theorem clock_stops_only_when_idle:
  assumes "clockTick env upIdle downIdle c = Inr (c', True)"
  shows "eventBuffer c' = [] \<and> retryBuf c' = [] \<and> prefetchBuffer c' = [] \<and> queueUp (coherenceMgr c') = [] \<and>
     queueDown (coherenceMgr c') = [] \<and> \<not> clockIsOn c' \<and>
     clockIsOn (handleEvent t ev c') \<and> eventBuffer (handleEvent t ev c') = [ev] \<and>
     timestamp (coherenceMgr (handleEvent t ev c')) = t - 1 \<and> c_timestamp (handleEvent t ev c') = t - 1"
  using assms
proof (rule clockTick_parts)
  assume p: "prefetchBuffer c' = []"
    "True \<longrightarrow> eventBuffer c' = [] \<and> retryBuf c' = [] \<and> checkIdle (coherenceMgr c') \<and> \<not> clockIsOn c'"
  have "timestamp (recordIncomingRequest ev s) = timestamp s" for s by (simp add: recordIncomingRequest_def)
  with p show ?thesis by (auto simp: checkIdle_def handleEvent_def Let_def turnClockOn_def on_mgr_def)
qed

text \<open>
  A noncacheable response finds its way back: after a noncacheable request has passed
  through, the response to it is sent to the component the request came from, whatever
  destination the response carried, and the cache forgets the request, so that its table is
  as before.
\<close>

theorem noncacheable_response_returns:
  assumes "noncacheable rq" and "CommandRouteByAddress (cmd rq)" and "\<not> queryFlag F_NORESPONSE rq"
    and "key_sorted (noncacheableResponseDst c)" and "map_find (noncacheableResponseDst c) (eventID rq) = None"
    and "downFind env (baseAddr rq) \<noteq> ''''" and "\<not> allNoncacheableRequests c"
    and "noncacheable rsp" and "\<not> CommandRouteByAddress (cmd rsp)" and "responseToID rsp = eventID rq"
    and "upReachable env (ev_src rq)"
  shows "\<exists>c1 c2 r. processEvent env rq b c = Inr (c1, True) \<and> processEvent env rsp b' c1 = Inr (c2, True) \<and>
     grows (queueUp (coherenceMgr c1)) r (queueUp (coherenceMgr c2)) \<and> ev_dst r = ev_src rq \<and>
     payload r = payload rsp \<and> cmd r = cmd rsp \<and>
     map_find (noncacheableResponseDst c2) = map_find (noncacheableResponseDst c)"
proof -
  let ?m = "noncacheableResponseDst c"
  obtain s1 where s1: "forwardByAddress1 env rq (coherenceMgr c) = Inr s1"
    using forwardByAddress_total [OF assms(6), of "timestamp (coherenceMgr c) + 1" "coherenceMgr c"]
    by (auto simp: forwardByAddress1_def)
  define c1 where "c1 = c\<lparr>noncacheableResponseDst := map_set (eventID rq) (ev_src rq) ?m, coherenceMgr := s1\<rparr>"
  have p1: "processEvent env rq b c = Inr (c1, True)"
    using assms(1-3,5,7) s1 by (simp add: processEvent_def processNoncacheable_def lift_mgr_def c1_def)
  define r where "r = rsp\<lparr>ev_dst := ev_src rq, ev_src := cachename env\<rparr>"
  obtain s2 where s2: "forwardByDestination1 env (rsp\<lparr>ev_dst := ev_src rq\<rparr>) s1 = Inr s2" "grows (queueUp s1) r (queueUp s2)"
    using assms(11) by (auto simp: forwardByDestination1_def forwardByDestination_def addToOutgoingQueueUp_def grows_def r_def)
  define c2 where "c2 = c1\<lparr>coherenceMgr := s2, noncacheableResponseDst := map_erase (eventID rq) (map_set (eventID rq) (ev_src rq) ?m)\<rparr>"
  have p2: "processEvent env rsp b' c1 = Inr (c2, True)"
    using assms(7-10) s2(1) by (simp add: processEvent_def processNoncacheable_def lift_mgr_def c1_def c2_def)
  have "map_find (noncacheableResponseDst c2) = map_find ?m"
    using sm.find_erase_set [OF assms(4,5)] by (simp add: c2_def)
  with p1 p2 s2(2) show ?thesis by (auto simp: r_def c1_def c2_def)
qed

text \<open>
  \<open>toBaseAddr\<close> rounds an address down to its line: for a line size that is a power of two
  the base is a multiple of it and the address lies within the line.
\<close>

theorem toBaseAddr_aligns:
  assumes "k < 64" and "lsz = (2 :: u64) ^ k"
  shows "unat (toBaseAddr lsz a) = unat a div 2 ^ k * 2 ^ k"
proof -
  have m: "(2 :: u64) ^ k - 1 = mask k" by (simp add: mask_eq_exp_minus_1)
  have "toBaseAddr lsz a = push_bit k (drop_bit k a)"
    by (rule bit_word_eqI) (auto simp: toBaseAddr_def assms(2) m bit_and_iff bit_not_iff bit_mask_iff bit_push_bit_iff bit_drop_bit_eq)
  then have e: "toBaseAddr lsz a = drop_bit k a * 2 ^ k" by (simp add: push_bit_eq_mult)
  have p: "unat ((2 :: u64) ^ k) = 2 ^ k"
  proof -
    have "(2 :: nat) ^ k < 2 ^ 64" using assms(1) by (intro power_strict_increasing) simp_all
    then show ?thesis using unat_of_nat [of "2 ^ k", where ?'a = 64] by (simp add: mod_less)
  qed
  have d: "unat (drop_bit k a) = unat a div 2 ^ k" by (simp only: drop_bit_eq_div unat_div p)
  have "unat a div 2 ^ k * 2 ^ k \<le> unat a" by simp
  then have "unat a div 2 ^ k * 2 ^ k < 18446744073709551616" using unat_u64_lt [of a] by linarith
  then show ?thesis unfolding e by (subst unat_mult_u64) (simp_all only: d p)
qed


section \<open>A concrete cache\<close>

definition demo_cache :: "MemEvent list \<Rightarrow> Cache" where
  "demo_cache evs = \<lparr>coherenceMgr = demo_ctl, c_timestamp = 0, clockIsOn = True, lastActiveClockCycle = 0,
     allNoncacheableRequests = False, maxRequestsPerCycle = 2, banked = False, bankStatus = [], addrsThisCycle = [],
     retryBuf = [], eventBuffer = evs, prefetchBuffer = [], noncacheableResponseDst = []\<rparr>"

definition demo_loads :: "MemEvent list" where
  "demo_loads = [demo_load, demo_event 2 192 GetS\<lparr>ev_size := 4\<rparr>, demo_event 3 64 GetS\<lparr>ev_size := 4\<rparr>]"

lemma demo_tick: "\<exists>c' off. clockTick demo_env True True (demo_cache demo_loads) = Inr (c', off)"
proof -
  have "\<not> isl (clockTick demo_env True True (demo_cache demo_loads))" by code_simp
  then show ?thesis by (cases "clockTick demo_env True True (demo_cache demo_loads)") auto
qed

theorem clockTick_conserves_witness:
  "\<exists>c' off tr wait. clockTick demo_env True True (demo_cache demo_loads) = Inr (c', off) \<and>
     demo_loads = map fst tr @ wait \<and> eventBuffer c' = stays tr @ wait \<and> n_accepted tr \<le> 2 \<and> (wait \<noteq> [] \<longrightarrow> n_accepted tr = 2)"
proof -
  obtain c' off where t: "clockTick demo_env True True (demo_cache demo_loads) = Inr (c', off)" using demo_tick by blast
  from clockTick_conserves [OF t] obtain trR trE waitR waitE where
    "retryBuf (demo_cache demo_loads) = map fst trR @ waitR" "eventBuffer (demo_cache demo_loads) = map fst trE @ waitE"
    "eventBuffer c' = stays trE @ waitE" "n_accepted (trR @ trE) \<le> 2" "waitE \<noteq> [] \<longrightarrow> n_accepted (trR @ trE) = 2"
    by (simp add: demo_cache_def) blast
  with t show ?thesis by (auto simp: demo_cache_def)
qed

theorem one_access_per_line_witness:
  "\<exists>c' off. clockTick demo_env True True (demo_cache demo_loads) = Inr (c', off) \<and>
     1 \<le> length (filter (cacheable_at 192) (eventBuffer c')) + length (filter (cacheable_at 192) (retryBuf c'))"
proof -
  obtain c' off where t: "clockTick demo_env True True (demo_cache demo_loads) = Inr (c', off)" using demo_tick by blast
  have n: "length (filter (cacheable_at 192) demo_loads) = 2"
    by (simp add: demo_loads_def demo_load_def cacheable_at_def noncacheable_def command_arrays queryFlag_def)
  obtain restR new where "retryBuf c' = restR @ new"
      "length (filter (cacheable_at 192) []) + length (filter (cacheable_at 192) demo_loads) \<le>
       length (filter (cacheable_at 192) restR) + length (filter (cacheable_at 192) (eventBuffer c')) + 1"
    using one_access_per_line [OF t, of 192] by (auto simp: demo_cache_def)
  then show ?thesis using t n by auto
qed

theorem clock_stops_only_when_idle_witness:
  "\<exists>c'. clockTick demo_env True True (demo_cache []) = Inr (c', True) \<and> \<not> clockIsOn c' \<and>
     clockIsOn (handleEvent 7 demo_load c') \<and> timestamp (coherenceMgr (handleEvent 7 demo_load c')) = 6"
proof -
  have "case clockTick demo_env True True (demo_cache []) of Inr (c', off) \<Rightarrow> off | Inl _ \<Rightarrow> False" by code_simp
  then obtain c' where t: "clockTick demo_env True True (demo_cache []) = Inr (c', True)"
    by (auto split: sum.splits)
  from clock_stops_only_when_idle [OF t, of 7 demo_load] t show ?thesis by simp
qed

theorem noncacheable_response_returns_witness:
  "\<exists>c1 c2 r. processEvent demo_env (demo_event 1 192 GetS\<lparr>ev_flags := F_NONCACHEABLE\<rparr>) False (demo_cache []) = Inr (c1, True) \<and>
     processEvent demo_env (demo_event 2 192 GetSResp\<lparr>ev_flags := F_NONCACHEABLE, responseToID := (1, 0)\<rparr>) False c1 = Inr (c2, True) \<and>
     grows (queueUp (coherenceMgr c1)) r (queueUp (coherenceMgr c2)) \<and> ev_dst r = ''cpu''"
  using noncacheable_response_returns [of "demo_event 1 192 GetS\<lparr>ev_flags := F_NONCACHEABLE\<rparr>" "demo_cache []" demo_env
      "demo_event 2 192 GetSResp\<lparr>ev_flags := F_NONCACHEABLE, responseToID := (1, 0)\<rparr>" False False]
  by (auto simp: noncacheable_def queryFlag_def flag_defs demo_cache_def demo_env_def command_arrays)

theorem toBaseAddr_aligns_witness: "unat (toBaseAddr 64 0x12345) = 0x12340"
  using toBaseAddr_aligns [of 6 64 "0x12345"] by simp

end
