(* ===== verification/MemH_Convertor.thy ===== *)
theory MemH_Convertor
  imports MemH_Event "HOL-Library.Multiset" "HOL-Library.Product_Lexorder"
begin

unbundle bit_operations_syntax

text \<open>
  \<^verbatim>\<open>memHierarchy/membackend/memBackendConvertor.h\<close>, \<^verbatim>\<open>memBackendConvertor.cc\<close> and
  \<^verbatim>\<open>simpleMemBackendConvertor.cc\<close>: the queue between a memory controller and its back end. An
  event becomes a request, which is issued in pieces of the back end's width; when all pieces
  have been issued and answered, the event is answered. A flush waits for the queued requests
  to its line.

  Requests are heap objects that the queue and the table of pending requests share, so the
  model has a heap: \<open>cv_queue\<close> and \<open>cv_pending\<close> hold object numbers. A back end is a record of
  its virtual functions (\<^verbatim>\<open>memBackend.h\<close>) over a state of its own; it answers pieces from its
  clock or from an event of its self link. The callbacks into the controller are returned as a
  list of event ids and flags, in the order of the calls. Statistics, delivery times (read
  only by statistics) and debug output are left out. The number of requests issued in a cycle
  is below \<open>2^31\<close>.
\<close>

section \<open>Requests\<close>

type_synonym ReqId = u64

record MemReq =
  mr_reqId :: u32
  mr_event :: MemEvent
  mr_offset :: u32
  mr_numReq :: u32

record CustomReq =
  cr_reqId :: u32
  cr_info :: nat
  cr_evId :: id_type
  cr_rqstr :: string

datatype BaseReq = MemR MemReq | CustomR CustomReq

definition getBaseId :: "ReqId \<Rightarrow> u32" where
  "getBaseId i = ucast (drop_bit 32 i)"

primrec req_id :: "BaseReq \<Rightarrow> ReqId" where
  "req_id (MemR r) = push_bit 32 (ucast (mr_reqId r)) OR ucast (mr_offset r)"
| "req_id (CustomR r) = push_bit 32 (ucast (cr_reqId r))"

definition mr_addr :: "MemReq \<Rightarrow> Addr" where
  "mr_addr r = baseAddr (mr_event r) + ucast (mr_offset r)"

definition mr_isWrite :: "MemReq \<Rightarrow> bool" where
  "mr_isWrite r \<longleftrightarrow> cmd (mr_event r) = PutM \<or> cmd (mr_event r) = Write"

primrec getRqstr :: "BaseReq \<Rightarrow> string" where
  "getRqstr (MemR r) = rqstr (mr_event r)"
| "getRqstr (CustomR r) = cr_rqstr r"

primrec increment :: "u32 \<Rightarrow> BaseReq \<Rightarrow> BaseReq" where
  "increment bytes (MemR r) = MemR (r\<lparr>mr_offset := mr_offset r + bytes, mr_numReq := mr_numReq r + 1\<rparr>)"
| "increment bytes (CustomR r) = CustomR r"

primrec decrement :: "BaseReq \<Rightarrow> BaseReq" where
  "decrement (MemR r) = MemR (r\<lparr>mr_numReq := mr_numReq r - 1\<rparr>)"
| "decrement (CustomR r) = CustomR r"

primrec issueDone :: "BaseReq \<Rightarrow> bool" where
  "issueDone (MemR r) \<longleftrightarrow> ev_size (mr_event r) \<le> mr_offset r"
| "issueDone (CustomR r) \<longleftrightarrow> True"

primrec isDone :: "BaseReq \<Rightarrow> bool" where
  "isDone (MemR r) \<longleftrightarrow> ev_size (mr_event r) \<le> mr_offset r \<and> mr_numReq r = 0"
| "isDone (CustomR r) \<longleftrightarrow> True"

section \<open>Back ends\<close>

text \<open>
  The virtual functions the convertor calls. \<open>be_self n\<close> delivers the \<open>n\<close>th event waiting on
  the self link; \<open>be_clock\<close> and \<open>be_self\<close> return the pieces answered on the way.
\<close>

record 'b Backend =
  be_issueRequest :: "ReqId \<Rightarrow> Addr \<Rightarrow> bool \<Rightarrow> u32 \<Rightarrow> 'b \<Rightarrow> ('b \<times> bool) res"
  be_issueCustom :: "ReqId \<Rightarrow> nat \<Rightarrow> 'b \<Rightarrow> ('b \<times> bool) res"
  be_clock :: "'b \<Rightarrow> ('b \<times> ReqId list \<times> bool) res"
  be_self :: "nat \<Rightarrow> 'b \<Rightarrow> ('b \<times> ReqId list) res"
  be_maxReqPerCycle :: int
  be_reqWidth :: u32
  be_isClocked :: bool
  be_memSize :: u64

text \<open>\<open>MemBackend::issueCustomRequest\<close>, for back ends that do not override it.\<close>

definition noCustom :: "ReqId \<Rightarrow> nat \<Rightarrow> 'b \<Rightarrow> ('b \<times> bool) res" where
  "noCustom i info b = Inl (Fatal ''issueCustomRequest'')"

section \<open>The convertor\<close>

record Conv =
  cv_heap :: "(nat, BaseReq) stdmap"
  cv_nextObj :: nat
  cv_queue :: "nat list"
  cv_pending :: "(u32, nat) stdmap"
  cv_reqId :: u32
  cv_width :: u32
  cv_waiting :: "(nat, id_type list) stdmap"
  cv_dependent :: "(id_type, MemEvent list) stdmap"
  cv_cycle :: u64
  cv_clockOn :: bool

definition Conv_new :: "'b Backend \<Rightarrow> u32 \<Rightarrow> Conv" where
  "Conv_new B requestWidth =
     \<lparr>cv_heap = [], cv_nextObj = 0, cv_queue = [], cv_pending = [], cv_reqId = 0,
      cv_width = (if be_reqWidth B > requestWidth then requestWidth else be_reqWidth B),
      cv_waiting = [], cv_dependent = [], cv_cycle = 0, cv_clockOn = True\<rparr>"

definition getRequestor :: "ReqId \<Rightarrow> Conv \<Rightarrow> string res" where
  "getRequestor i cv = (case map_find (cv_pending cv) (getBaseId i) of None \<Rightarrow> Inl (Fatal ''getRequestor'')
   | Some p \<Rightarrow> (case map_find (cv_heap cv) p of None \<Rightarrow> Inl NullDeref | Some r \<Rightarrow> Inr (getRqstr r)))"

text \<open>\<open>new MemReq\<close> or \<open>new CustomReq\<close>, at the back of the queue and in the pending table.\<close>

definition enqueue :: "(u32 \<Rightarrow> BaseReq) \<Rightarrow> Conv \<Rightarrow> Conv" where
  "enqueue mk cv =
     (let i = cv_reqId cv + 1; p = cv_nextObj cv
      in cv\<lparr>cv_reqId := i, cv_nextObj := Suc p, cv_heap := map_set p (mk i) (cv_heap cv),
            cv_queue := cv_queue cv @ [p], cv_pending := map_set i p (cv_pending cv)\<rparr>)"

text \<open>\<open>std::set<MemEvent*, memEventCmp>::insert\<close>: by event id, an equal id stays.\<close>

fun flush_insert :: "MemEvent \<Rightarrow> MemEvent list \<Rightarrow> MemEvent list" where
  "flush_insert ev [] = [ev]"
| "flush_insert ev (f # fs) =
     (if eventID ev < eventID f then ev # f # fs else if eventID ev = eventID f then f # fs else f # flush_insert ev fs)"

text \<open>The loop over the queue in \<open>setupMemReq\<close>: the events a flush depends on, and the reverse map.\<close>

fun flush_depends ::
  "MemEvent \<Rightarrow> nat list \<Rightarrow> Conv \<Rightarrow> id_type list \<Rightarrow> (Conv \<times> id_type list) res" where
  "flush_depends ev [] cv deps = Inr (cv, deps)"
| "flush_depends ev (p # ps) cv deps = (case map_find (cv_heap cv) p of
     None \<Rightarrow> Inl NullDeref
   | Some (CustomR r) \<Rightarrow> flush_depends ev ps cv deps
   | Some (MemR r) \<Rightarrow>
       if baseAddr (mr_event r) = baseAddr ev
       then (let i = eventID (mr_event r);
                 old = (case map_find (cv_dependent cv) i of None \<Rightarrow> [] | Some fs \<Rightarrow> fs)
             in flush_depends ev ps (cv\<lparr>cv_dependent := map_set i (flush_insert ev old) (cv_dependent cv)\<rparr>) (List.insert i deps))
       else flush_depends ev ps cv deps)"

definition setupMemReq :: "MemEvent \<Rightarrow> Conv \<Rightarrow> (Conv \<times> bool) res" where
  "setupMemReq ev cv =
     (if cmd ev = FlushLine \<or> cmd ev = FlushLineInv
      then bindE (flush_depends ev (cv_queue cv) cv []) (\<lambda>(cv, deps).
             if deps = [] then Inr (cv, False)
             else Inr (if map_find (cv_waiting cv) (evPtr ev) = None
                       then cv\<lparr>cv_waiting := map_set (evPtr ev) deps (cv_waiting cv)\<rparr> else cv, True))
      else Inr (enqueue (\<lambda>i. MemR \<lparr>mr_reqId = i, mr_event = ev, mr_offset = 0, mr_numReq = 0\<rparr>) cv, True))"

definition handleMemEvent :: "MemEvent \<Rightarrow> Conv \<Rightarrow> (Conv \<times> (id_type \<times> u32) list) res" where
  "handleMemEvent ev cv = bindE (setupMemReq ev cv) (\<lambda>(cv, ok).
     Inr (cv, if ok then [] else [(eventID ev, ev_flags ev)]))"

definition handleCustomEvent :: "nat \<Rightarrow> id_type \<Rightarrow> string \<Rightarrow> Conv \<Rightarrow> Conv" where
  "handleCustomEvent info evId rq cv =
     enqueue (\<lambda>i. CustomR \<lparr>cr_reqId = i, cr_info = info, cr_evId = evId, cr_rqstr = rq\<rparr>) cv"

section \<open>The clock\<close>

definition issue :: "'b Backend \<Rightarrow> u32 \<Rightarrow> BaseReq \<Rightarrow> 'b \<Rightarrow> ('b \<times> bool) res" where
  "issue B w r b = (case r of
     MemR m \<Rightarrow> be_issueRequest B (req_id r) (mr_addr m) (mr_isWrite m) w b
   | CustomR c \<Rightarrow> be_issueCustom B (req_id r) (cr_info c) b)"

text \<open>What one accepted issue changes: the request's counters, and the queue once it is complete.\<close>

definition issued :: "nat \<Rightarrow> BaseReq \<Rightarrow> Conv \<Rightarrow> Conv" where
  "issued p r cv =
     (let r' = increment (cv_width cv) r
      in cv\<lparr>cv_heap := map_set p r' (cv_heap cv), cv_queue := (if issueDone r' then tl (cv_queue cv) else cv_queue cv)\<rparr>)"

text \<open>The loop may not end (a back end without limit and width zero), so it is partial.\<close>

partial_function (option) issue_loop :: "'b Backend \<Rightarrow> int \<Rightarrow> Conv \<Rightarrow> 'b \<Rightarrow> (Conv \<times> 'b) res option" where
  "issue_loop B n cv b = (case cv_queue cv of
     [] \<Rightarrow> Some (Inr (cv, b))
   | p # ps \<Rightarrow>
     if n = be_maxReqPerCycle B then Some (Inr (cv, b))
     else (case map_find (cv_heap cv) p of
        None \<Rightarrow> Some (Inl NullDeref)
      | Some r \<Rightarrow> (case issue B (cv_width cv) r b of
          Inl e \<Rightarrow> Some (Inl e)
        | Inr (b', ok) \<Rightarrow> if ok then issue_loop B (n + 1) (issued p r cv) b' else Some (Inr (cv, b')))))"

text \<open>The flushes that waited for the event with id \<open>i\<close>.\<close>

fun finish_flushes :: "id_type \<Rightarrow> MemEvent list \<Rightarrow> Conv \<Rightarrow> (Conv \<times> (id_type \<times> u32) list) res" where
  "finish_flushes i [] cv = Inr (cv, [])"
| "finish_flushes i (f # fs) cv = (case map_find (cv_waiting cv) (evPtr f) of
     None \<Rightarrow> Inl NullDeref
   | Some deps \<Rightarrow>
       (let deps' = removeAll i deps in
        if deps' = []
        then bindE (finish_flushes i fs (cv\<lparr>cv_waiting := map_erase (evPtr f) (cv_waiting cv)\<rparr>)) (\<lambda>(cv, rs).
               Inr (cv, (eventID f, ev_flags f) # rs))
        else finish_flushes i fs (cv\<lparr>cv_waiting := map_set (evPtr f) deps' (cv_waiting cv)\<rparr>)))"

definition conv_turnClockOn :: "u64 \<Rightarrow> Conv \<Rightarrow> Conv" where
  "conv_turnClockOn cycle cv = cv\<lparr>cv_cycle := cycle, cv_clockOn := True\<rparr>"

definition conv_turnClockOff :: "Conv \<Rightarrow> Conv" where
  "conv_turnClockOff cv = cv\<lparr>cv_clockOn := False\<rparr>"

text \<open>\<open>doResponse\<close>; \<open>cycle\<close> is what the controller's clock callback returns.\<close>

definition doResponse :: "u64 \<Rightarrow> ReqId \<Rightarrow> u32 \<Rightarrow> Conv \<Rightarrow> (Conv \<times> (id_type \<times> u32) list) res" where
  "doResponse cycle reqId flags cv0 =
     (let cv = (if cv_clockOn cv0 then cv0 else conv_turnClockOn cycle cv0); i = getBaseId reqId in
      case map_find (cv_pending cv) i of
        None \<Rightarrow> Inl (Fatal ''doResponse'')
      | Some p \<Rightarrow> (case map_find (cv_heap cv) p of
          None \<Rightarrow> Inl NullDeref
        | Some r0 \<Rightarrow>
          (let r = decrement r0 in
           if \<not> isDone r then Inr (cv\<lparr>cv_heap := map_set p r (cv_heap cv)\<rparr>, [])
           else (let cv = cv\<lparr>cv_heap := map_erase p (cv_heap cv), cv_pending := map_erase i (cv_pending cv)\<rparr> in
                 case r of
                   CustomR c \<Rightarrow> Inr (cv, [(cr_evId c, flags)])
                 | MemR m \<Rightarrow>
                     (let ev = mr_event m; evID = eventID ev; fl = (if flags = 0 then ev_flags ev else flags) in
                      case map_find (cv_dependent cv) evID of
                        None \<Rightarrow> Inr (cv, [(evID, fl)])
                      | Some fs \<Rightarrow> bindE (finish_flushes evID fs cv) (\<lambda>(cv, rs).
                          Inr (cv\<lparr>cv_dependent := map_erase evID (cv_dependent cv)\<rparr>, (evID, fl) # rs)))))))"

fun doResponses :: "u64 \<Rightarrow> ReqId list \<Rightarrow> Conv \<Rightarrow> (Conv \<times> (id_type \<times> u32) list) res" where
  "doResponses cycle [] cv = Inr (cv, [])"
| "doResponses cycle (i # is) cv = bindE (doResponse cycle i 0 cv) (\<lambda>(cv, rs).
     bindE (doResponses cycle is cv) (\<lambda>(cv, rs'). Inr (cv, rs @ rs')))"

text \<open>\<open>clock\<close>: issue, then clock the back end. The result says whether the clock may stop.\<close>

definition conv_clock ::
  "'b Backend \<Rightarrow> u64 \<Rightarrow> Conv \<Rightarrow> 'b \<Rightarrow> (Conv \<times> 'b \<times> (id_type \<times> u32) list \<times> bool) res option" where
  "conv_clock B cycle cv b =
     (case issue_loop B 0 (cv\<lparr>cv_cycle := cv_cycle cv + 1\<rparr>) b of
        None \<Rightarrow> None
      | Some r \<Rightarrow> Some (bindE r (\<lambda>(cv, b).
          if be_isClocked B
          then bindE (be_clock B b) (\<lambda>(b, is, unclock).
                 bindE (doResponses cycle is cv) (\<lambda>(cv, rs). Inr (cv, b, rs, unclock \<and> cv_queue cv = [])))
          else Inr (cv, b, [], cv_queue cv = []))))"

text \<open>An event of the back end's self link.\<close>

definition conv_self ::
  "'b Backend \<Rightarrow> u64 \<Rightarrow> nat \<Rightarrow> Conv \<Rightarrow> 'b \<Rightarrow> (Conv \<times> 'b \<times> (id_type \<times> u32) list) res" where
  "conv_self B cycle n cv b =
     bindE (be_self B n b) (\<lambda>(b, is). bindE (doResponses cycle is cv) (\<lambda>(cv, rs). Inr (cv, b, rs)))"

end
