(* ===== verification/MemH_ConvertorOk.thy ===== *)
theory MemH_ConvertorOk
  imports MemH_Convertor
begin

text \<open>
  Correctness of the back-end convertor (\<^verbatim>\<open>membackend/memBackendConvertor.cc\<close>). The invariant
  \<open>conv_ok\<close> ties the queue, the pending table, the counters of each request and the flush
  bookkeeping to the multiset of pieces the back end holds. Under it no piece that comes back
  faults, the issue loop ends, and every event taken in is answered exactly once. The contract
  of a back end is the locale \<open>mem_backend\<close>.
\<close>

section \<open>What the convertor has outstanding\<close>

declare split_paired_All [simp del] split_paired_Ex [simp del]

primrec reqNo :: "BaseReq \<Rightarrow> u32" where
  "reqNo (MemR r) = mr_reqId r"
| "reqNo (CustomR r) = cr_reqId r"

primrec req_event :: "BaseReq \<Rightarrow> id_type" where
  "req_event (MemR r) = eventID (mr_event r)"
| "req_event (CustomR r) = cr_evId r"

primrec is_mem :: "BaseReq \<Rightarrow> bool" where
  "is_mem (MemR r) \<longleftrightarrow> True"
| "is_mem (CustomR r) \<longleftrightarrow> False"

definition pend :: "Conv \<Rightarrow> u32 \<Rightarrow> BaseReq option" where
  "pend cv i = Option.bind (map_find (cv_pending cv) i) (map_find (cv_heap cv))"

definition waits :: "Conv \<Rightarrow> MemEvent \<Rightarrow> id_type \<Rightarrow> bool" where
  "waits cv f i \<longleftrightarrow> (\<exists>fs. map_find (cv_dependent cv) i = Some fs \<and> f \<in> set fs)"

definition pend_ids :: "Conv \<Rightarrow> id_type set" where
  "pend_ids cv = {e. \<exists>i r. pend cv i = Some r \<and> req_event r = e}"

definition flush_ids :: "Conv \<Rightarrow> id_type set" where
  "flush_ids cv = {e. \<exists>f i. waits cv f i \<and> eventID f = e}"

definition outstanding :: "Conv \<Rightarrow> id_type set" where
  "outstanding cv = pend_ids cv \<union> flush_ids cv"

definition pieces :: "u32 \<Rightarrow> ReqId multiset \<Rightarrow> nat" where
  "pieces i fl = size (filter_mset (\<lambda>x. getBaseId x = i) fl)"

text \<open>
  A request that is queued (\<open>q\<close>) and has \<open>n\<close> pieces in the back end: the counters are exact and
  do not wrap; a request that left the queue is issued completely and has a piece outstanding.
\<close>

primrec req_ok :: "u32 \<Rightarrow> bool \<Rightarrow> nat \<Rightarrow> BaseReq \<Rightarrow> bool" where
  "req_ok w q n (MemR r) \<longleftrightarrow>
     unat (ev_size (mr_event r)) + unat w < 2 ^ 32 \<and> unat (mr_numReq r) = n \<and> n \<le> unat (mr_offset r) \<and>
     (if q then mr_offset r = 0 \<or> mr_offset r < ev_size (mr_event r)
      else ev_size (mr_event r) \<le> mr_offset r \<and> 0 < n)"
| "req_ok w q n (CustomR r) \<longleftrightarrow> n = (if q then 0 else 1)"

definition conv_maps :: "Conv \<Rightarrow> bool" where
  "conv_maps cv \<longleftrightarrow> key_sorted (cv_heap cv) \<and> key_sorted (cv_pending cv) \<and> key_sorted (cv_waiting cv) \<and>
     key_sorted (cv_dependent cv) \<and> (\<forall>p \<in> dom (map_find (cv_heap cv)). p < cv_nextObj cv) \<and>
     (\<forall>p \<in> ran (map_find (cv_pending cv)). p < cv_nextObj cv)"

definition conv_reqs :: "Conv \<Rightarrow> ReqId multiset \<Rightarrow> bool" where
  "conv_reqs cv fl \<longleftrightarrow> 0 < cv_width cv \<and> distinct (cv_queue cv) \<and>
     (\<forall>i p. map_find (cv_pending cv) i = Some p \<longrightarrow>
        (\<exists>r. map_find (cv_heap cv) p = Some r \<and> reqNo r = i \<and>
             req_ok (cv_width cv) (p \<in> set (cv_queue cv)) (pieces i fl) r)) \<and>
     (\<forall>p \<in> set (cv_queue cv). \<exists>i. map_find (cv_pending cv) i = Some p) \<and>
     (\<forall>x \<in># fl. getBaseId x \<in> dom (map_find (cv_pending cv))) \<and>
     (\<forall>i j r s. pend cv i = Some r \<longrightarrow> pend cv j = Some s \<longrightarrow> req_event r = req_event s \<longrightarrow> i = j)"

definition conv_flush :: "Conv \<Rightarrow> bool" where
  "conv_flush cv \<longleftrightarrow>
     (\<forall>f i. waits cv f i \<longrightarrow> (\<exists>deps. map_find (cv_waiting cv) (evPtr f) = Some deps \<and> i \<in> set deps) \<and>
        (\<exists>j r. pend cv j = Some r \<and> is_mem r \<and> req_event r = i)) \<and>
     (\<forall>p deps. map_find (cv_waiting cv) p = Some deps \<longrightarrow>
        deps \<noteq> [] \<and> (\<exists>f. evPtr f = p \<and> (\<forall>i \<in> set deps. waits cv f i))) \<and>
     (\<forall>f g i j. waits cv f i \<longrightarrow> waits cv g j \<longrightarrow> evPtr f = evPtr g \<or> eventID f = eventID g \<longrightarrow> f = g) \<and>
     (\<forall>i fs. map_find (cv_dependent cv) i = Some fs \<longrightarrow> fs \<noteq> [] \<and> sorted_wrt (<) (map eventID fs)) \<and>
     pend_ids cv \<inter> flush_ids cv = {}"

definition conv_ok :: "Conv \<Rightarrow> ReqId multiset \<Rightarrow> bool" where
  "conv_ok cv fl \<longleftrightarrow> conv_maps cv \<and> conv_reqs cv fl \<and> conv_flush cv"

lemma getBaseId_req_id: "getBaseId (req_id r) = reqNo r"
proof (cases r)
  case (MemR m)
  have "bit (getBaseId (req_id r)) n = bit (reqNo r) n" if "n < 32" for n
    using that bit_imp_le_length [of "mr_offset m" "32 + n"] unfolding MemR
    by (auto simp: getBaseId_def bit_simps)
  then show ?thesis by (intro bit_word_eqI) simp
next
  case (CustomR c)
  have "bit (getBaseId (req_id r)) n = bit (reqNo r) n" if "n < 32" for n
    using that unfolding CustomR
    by (simp add: getBaseId_def bit_simps)
  then show ?thesis by (intro bit_word_eqI) simp
qed

lemma pieces_add [simp]: "pieces i (add_mset x fl) = (if getBaseId x = i then Suc (pieces i fl) else pieces i fl)"
  by (simp add: pieces_def)

lemma pieces_empty [simp]: "pieces i {#} = 0"
  by (simp add: pieces_def)

lemma pieces_0: "(\<And>x. x \<in># fl \<Longrightarrow> getBaseId x \<noteq> i) \<Longrightarrow> pieces i fl = 0"
  by (auto simp: pieces_def size_eq_0_iff_empty filter_mset_eq_conv)

lemma conv_reqsD:
  assumes "conv_reqs cv fl" "map_find (cv_pending cv) i = Some p"
  obtains r where "map_find (cv_heap cv) p = Some r" "reqNo r = i"
    "req_ok (cv_width cv) (p \<in> set (cv_queue cv)) (pieces i fl) r" "pend cv i = Some r"
  using assms by (auto simp: conv_reqs_def pend_def)

text \<open>Two numbers never share an object.\<close>

lemma pending_inj:
  assumes "conv_reqs cv fl" "map_find (cv_pending cv) i = Some p" "map_find (cv_pending cv) j = Some p"
  shows "i = j"
  by (rule conv_reqsD [OF assms(1,2)], rule conv_reqsD [OF assms(1,3)]) simp

lemma event_inj:
  "conv_reqs cv fl \<Longrightarrow> pend cv i = Some r \<Longrightarrow> pend cv j = Some s \<Longrightarrow> req_event r = req_event s \<Longrightarrow> i = j"
  by (simp add: conv_reqs_def)

text \<open>The size of an event and the width of a piece, without wrap-around.\<close>

lemma unat_add_u32: "unat (a :: u32) + unat b < 4294967296 \<Longrightarrow> unat (a + b) = unat a + unat b"
  using unat_add_lem [of a b] by simp

lemma req_ok_increment:
  assumes "req_ok w True n r" and "0 < w"
  shows "req_ok w (\<not> issueDone (increment w r)) (Suc n) (increment w r)"
proof (cases r)
  case (MemR m)
  have w: "0 < unat w" using assms(2) by (simp add: word_less_nat_alt)
  have s: "unat (mr_offset m) \<le> unat (ev_size (mr_event m))" using assms(1) MemR by (auto simp: word_less_nat_alt)
  have o: "unat (mr_offset m + w) = unat (mr_offset m) + unat w"
    using assms(1) MemR s by (intro unat_add_u32) simp
  have n: "unat (mr_numReq m + 1) = Suc n"
    using assms(1) MemR s w unat_add_u32 [of "mr_numReq m" 1] by simp
  show ?thesis using assms(1) MemR o n w
    by (auto simp: word_le_nat_alt word_less_nat_alt)
qed (use assms in simp)

lemma req_ok_decrement:
  assumes "req_ok w q n r" and "0 < n" and "\<not> isDone (decrement r)"
  shows "req_ok w q (n - 1) (decrement r)"
proof (cases r)
  case (MemR m)
  have n: "unat (mr_numReq m - 1) = n - 1"
  proof -
    have "1 \<le> mr_numReq m" using assms(1,2) MemR by (simp add: word_le_nat_alt)
    then show ?thesis using unat_sub [of 1 "mr_numReq m"] assms(1) MemR by simp
  qed
  have "n - 1 \<noteq> 0" if le: "ev_size (mr_event m) \<le> mr_offset m"
  proof -
    have "mr_numReq m - 1 \<noteq> 0" using assms(3) le MemR by simp
    then show ?thesis using n by (simp only: unat_eq_0 [symmetric]) simp
  qed
  then show ?thesis using assms(1,2) MemR n by auto
qed (use assms in simp)

lemma conv_clock_fields [simp]:
  "conv_ok (cv\<lparr>cv_cycle := c\<rparr>) fl = conv_ok cv fl" "conv_ok (cv\<lparr>cv_clockOn := k\<rparr>) fl = conv_ok cv fl"
  "outstanding (cv\<lparr>cv_cycle := c\<rparr>) = outstanding cv" "outstanding (cv\<lparr>cv_clockOn := k\<rparr>) = outstanding cv"
  by (simp_all add: conv_ok_def conv_maps_def conv_reqs_def conv_flush_def pend_def waits_def outstanding_def
      pend_ids_def flush_ids_def)

text \<open>The flush bookkeeping sees of a request only its event and whether it is a memory request.\<close>

definition req_view :: "BaseReq \<Rightarrow> id_type \<times> bool" where
  "req_view r = (req_event r, is_mem r)"

lemma pend_view:
  assumes "\<And>i. map_option req_view (pend cv' i) = map_option req_view (pend cv i)"
  shows "(\<exists>j r. pend cv' j = Some r \<and> P (req_event r) (is_mem r)) \<longleftrightarrow> (\<exists>j r. pend cv j = Some r \<and> P (req_event r) (is_mem r))"
proof -
  have "(\<exists>r. pend c j = Some r \<and> P (req_event r) (is_mem r)) \<longleftrightarrow>
        (\<exists>v. map_option req_view (pend c j) = Some v \<and> P (fst v) (snd v))" for c j
    by (cases "pend c j") (simp_all add: req_view_def)
  then show ?thesis using assms by metis
qed

lemma view_ids:
  assumes "\<And>i. map_option req_view (pend cv' i) = map_option req_view (pend cv i)"
    and "cv_dependent cv' = cv_dependent cv"
  shows "pend_ids cv' = pend_ids cv" and "flush_ids cv' = flush_ids cv" and "outstanding cv' = outstanding cv"
proof -
  show p: "pend_ids cv' = pend_ids cv"
    by (simp only: pend_ids_def pend_view [OF assms(1), where P = "\<lambda>e m. e = x" for x])
  show f: "flush_ids cv' = flush_ids cv" by (simp add: flush_ids_def waits_def assms(2))
  show "outstanding cv' = outstanding cv" by (simp add: outstanding_def p f)
qed

lemma conv_flush_view:
  assumes "\<And>i. map_option req_view (pend cv' i) = map_option req_view (pend cv i)"
    and "cv_dependent cv' = cv_dependent cv" and "cv_waiting cv' = cv_waiting cv" and "conv_flush cv"
  shows "conv_flush cv'"
proof -
  have "waits cv' = waits cv" by (auto simp: waits_def fun_eq_iff assms(2))
  moreover have "(\<exists>j r. pend cv' j = Some r \<and> is_mem r \<and> req_event r = i) \<longleftrightarrow>
      (\<exists>j r. pend cv j = Some r \<and> is_mem r \<and> req_event r = i)" for i
    using pend_view [OF assms(1), where P = "\<lambda>e m. m \<and> e = i"] by blast
  ultimately show ?thesis using assms(4) view_ids(1,2) [OF assms(1,2)]
    by (simp add: conv_flush_def assms(2,3))
qed

text \<open>One request changes its counters, and perhaps leaves the queue.\<close>

lemma conv_ok_update:
  assumes ok: "conv_ok cv fl" and i: "map_find (cv_pending cv) i = Some p" "map_find (cv_heap cv) p = Some r"
    and r': "reqNo r' = i" "req_view r' = req_view r"
    and q': "distinct q'" "set q' \<subseteq> set (cv_queue cv)" "\<And>x. x \<in> set (cv_queue cv) \<Longrightarrow> x \<noteq> p \<Longrightarrow> x \<in> set q'"
    and n: "req_ok (cv_width cv) (p \<in> set q') (pieces i fl') r'" "\<And>j. j \<noteq> i \<Longrightarrow> pieces j fl' = pieces j fl"
    and d: "\<And>x. x \<in># fl' \<Longrightarrow> getBaseId x \<in> dom (map_find (cv_pending cv))"
  defines "cv' \<equiv> cv\<lparr>cv_heap := map_set p r' (cv_heap cv), cv_queue := q'\<rparr>"
  shows "conv_ok cv' fl' \<and> outstanding cv' = outstanding cv"
proof -
  have reqs: "conv_reqs cv fl" and maps: "conv_maps cv" and flush: "conv_flush cv"
    using ok by (auto simp: conv_ok_def)
  have other: "pend cv' j = pend cv j" if "j \<noteq> i" for j
    using pending_inj [OF reqs i(1)] that by (auto simp: pend_def cv'_def bind_eq_Some_conv split: bind_splits)
  have this_one: "pend cv i = Some r" "pend cv' i = Some r'"
    using i by (auto simp: pend_def cv'_def)
  have view: "map_option req_view (pend cv' j) = map_option req_view (pend cv j)" for j
    using other this_one r'(2) by (cases "j = i") auto
  have out: "outstanding cv' = outstanding cv" by (rule view_ids(3) [OF view]) (simp add: cv'_def)
  have f: "conv_flush cv'" by (rule conv_flush_view [OF view _ _ flush]) (simp_all add: cv'_def)
  have m: "conv_maps cv'"
    using maps i by (auto simp: conv_maps_def cv'_def key_sorted_map_set intro: ranI)
  have a: "\<exists>s. map_find (cv_heap cv') x = Some s \<and> reqNo s = j \<and>
      req_ok (cv_width cv') (x \<in> set (cv_queue cv')) (pieces j fl') s"
    if j: "map_find (cv_pending cv') j = Some x" for j x
  proof (cases "j = i")
    case True
    then show ?thesis using j i n r' by (simp add: cv'_def)
  next
    case False
    have "x \<noteq> p" using pending_inj [OF reqs i(1)] j False by (auto simp: cv'_def)
    then have "x \<in> set q' \<longleftrightarrow> x \<in> set (cv_queue cv)" using q' by auto
    moreover obtain s where "map_find (cv_heap cv) x = Some s" "reqNo s = j"
      "req_ok (cv_width cv) (x \<in> set (cv_queue cv)) (pieces j fl) s"
      using conv_reqsD [OF reqs, of j x] j by (auto simp: cv'_def)
    ultimately show ?thesis using \<open>x \<noteq> p\<close> n(2) [OF False] by (simp add: cv'_def)
  qed
  have e: "j = k" if jk: "pend cv' j = Some s" "pend cv' k = Some t" "req_event s = req_event t" for j k s t
  proof -
    obtain s0 t0 where "pend cv j = Some s0" "pend cv k = Some t0" "req_event s0 = req_event s" "req_event t0 = req_event t"
      using view [of j, symmetric] view [of k, symmetric] jk(1,2) by (auto simp: req_view_def)
    then show ?thesis using event_inj [OF reqs] jk(3) by simp
  qed
  have "conv_reqs cv' fl'"
    using a e q' d reqs unfolding conv_reqs_def by (auto simp: cv'_def)
  with f m out show ?thesis by (simp add: conv_ok_def)
qed

lemma req_view_simps [simp]:
  "reqNo (increment w r) = reqNo r" "req_view (increment w r) = req_view r"
  "reqNo (decrement r) = reqNo r" "req_view (decrement r) = req_view r"
  by (cases r; simp add: req_view_def)+

lemma queue_head:
  assumes "conv_ok cv fl" and "cv_queue cv = p # ps"
  obtains r where "map_find (cv_heap cv) p = Some r" "map_find (cv_pending cv) (reqNo r) = Some p"
    "req_ok (cv_width cv) True (pieces (reqNo r) fl) r" "0 < cv_width cv" "p \<notin> set ps" "distinct ps"
proof -
  have reqs: "conv_reqs cv fl" using assms(1) by (simp add: conv_ok_def)
  then obtain i where i: "map_find (cv_pending cv) i = Some p" using assms(2) by (auto simp: conv_reqs_def)
  obtain r where r: "map_find (cv_heap cv) p = Some r" "reqNo r = i"
    "req_ok (cv_width cv) (p \<in> set (cv_queue cv)) (pieces i fl) r"
    by (rule conv_reqsD [OF reqs i])
  show thesis using i r reqs assms(2) by (intro that [of r]) (auto simp: conv_reqs_def)
qed

text \<open>An accepted piece is one more in the back end.\<close>

lemma issued_ok:
  assumes "conv_ok cv fl" and q: "cv_queue cv = p # ps" and r: "map_find (cv_heap cv) p = Some r"
  shows "conv_ok (issued p r cv) (add_mset (req_id r) fl) \<and> outstanding (issued p r cv) = outstanding cv"
proof -
  obtain r0 where r0: "map_find (cv_heap cv) p = Some r0" "map_find (cv_pending cv) (reqNo r0) = Some p"
    "req_ok (cv_width cv) True (pieces (reqNo r0) fl) r0" "0 < cv_width cv" "p \<notin> set ps" "distinct ps"
    by (rule queue_head [OF assms(1,2)])
  have [simp]: "r0 = r" using r r0 by simp
  have d: "getBaseId x \<in> dom (map_find (cv_pending cv))" if "x \<in># add_mset (req_id r) fl" for x
    using that assms(1) r0(2) by (auto simp: conv_ok_def conv_reqs_def getBaseId_req_id)
  have n: "req_ok (cv_width cv) (\<not> issueDone (increment (cv_width cv) r)) (Suc (pieces (reqNo r) fl)) (increment (cv_width cv) r)"
    using req_ok_increment r0 by simp
  define q' where "q' = (if issueDone (increment (cv_width cv) r) then ps else p # ps)"
  have e: "issued p r cv = cv\<lparr>cv_heap := map_set p (increment (cv_width cv) r) (cv_heap cv), cv_queue := q'\<rparr>"
    by (simp add: issued_def Let_def q'_def q)
  show ?thesis unfolding e
    by (rule conv_ok_update [OF assms(1) r0(2,1)]) (use d n q r0 in \<open>auto simp: q'_def getBaseId_req_id\<close>)
qed

section \<open>Answering\<close>

definition cv_answers :: "Conv \<Rightarrow> (id_type \<times> u32) list \<Rightarrow> Conv \<Rightarrow> bool" where
  "cv_answers cv rs cv' \<longleftrightarrow> distinct (map fst rs) \<and> fst ` set rs \<subseteq> outstanding cv \<and>
     outstanding cv' = outstanding cv - fst ` set rs"

lemma cv_answers_Nil [simp]: "cv_answers cv [] cv' \<longleftrightarrow> outstanding cv' = outstanding cv"
  by (simp add: cv_answers_def)

lemma cv_answers_append: "cv_answers cv rs cv1 \<Longrightarrow> cv_answers cv1 rs' cv2 \<Longrightarrow> cv_answers cv (rs @ rs') cv2"
  by (auto simp: cv_answers_def)

lemma conv_flushI:
  assumes "\<And>f i. waits cv f i \<Longrightarrow> \<exists>deps. map_find (cv_waiting cv) (evPtr f) = Some deps \<and> i \<in> set deps"
    and "\<And>f i. waits cv f i \<Longrightarrow> \<exists>j r. pend cv j = Some r \<and> is_mem r \<and> req_event r = i"
    and "\<And>p deps. map_find (cv_waiting cv) p = Some deps \<Longrightarrow> deps \<noteq> []"
    and "\<And>p deps. map_find (cv_waiting cv) p = Some deps \<Longrightarrow> \<exists>f. evPtr f = p \<and> (\<forall>i \<in> set deps. waits cv f i)"
    and "\<And>f g i j. waits cv f i \<Longrightarrow> waits cv g j \<Longrightarrow> evPtr f = evPtr g \<or> eventID f = eventID g \<Longrightarrow> f = g"
    and "\<And>i fs. map_find (cv_dependent cv) i = Some fs \<Longrightarrow> fs \<noteq> []"
    and "\<And>i fs. map_find (cv_dependent cv) i = Some fs \<Longrightarrow> sorted_wrt (<) (map eventID fs)"
    and "pend_ids cv \<inter> flush_ids cv = {}"
  shows "conv_flush cv"
  unfolding conv_flush_def by (intro conjI allI impI) ((rule assms(1-7), assumption+)+, rule assms(8))

lemma conv_flush_waiting:
  "conv_flush cv \<Longrightarrow> waits cv f i \<Longrightarrow> \<exists>deps. map_find (cv_waiting cv) (evPtr f) = Some deps \<and> i \<in> set deps"
  "conv_flush cv \<Longrightarrow> waits cv f i \<Longrightarrow> \<exists>j r. pend cv j = Some r \<and> is_mem r \<and> req_event r = i"
  by (simp_all add: conv_flush_def del: split_paired_All split_paired_Ex)

lemma conv_flush_deps:
  "conv_flush cv \<Longrightarrow> map_find (cv_waiting cv) p = Some deps \<Longrightarrow>
     deps \<noteq> [] \<and> (\<exists>f. evPtr f = p \<and> (\<forall>i \<in> set deps. waits cv f i))"
  by (simp add: conv_flush_def del: split_paired_All split_paired_Ex)

lemma conv_flush_inj:
  "conv_flush cv \<Longrightarrow> waits cv f i \<Longrightarrow> waits cv g j \<Longrightarrow> evPtr f = evPtr g \<or> eventID f = eventID g \<Longrightarrow> f = g"
  unfolding conv_flush_def by blast

lemma conv_flush_apart: "conv_flush cv \<Longrightarrow> e \<in> pend_ids cv \<Longrightarrow> e \<in> flush_ids cv \<Longrightarrow> False"
  by (auto simp: conv_flush_def)

lemma waiting_deps:
  assumes "conv_flush cv" and "waits cv f i"
  obtains deps where "map_find (cv_waiting cv) (evPtr f) = Some deps" "set deps = {j. waits cv f j}"
proof -
  obtain deps where d: "map_find (cv_waiting cv) (evPtr f) = Some deps"
    using conv_flush_waiting(1) [OF assms] by auto
  obtain g where g: "deps \<noteq> []" "evPtr g = evPtr f" "\<forall>j \<in> set deps. waits cv g j"
    using conv_flush_deps [OF assms(1) d] by auto
  then have "waits cv g (hd deps)" by simp
  then have "g = f" using conv_flush_inj [OF assms(1) _ assms(2)] g(2) by simp
  moreover have "j \<in> set deps" if "waits cv f j" for j
    using conv_flush_waiting(1) [OF assms(1) that] d by simp
  ultimately have "set deps = {j. waits cv f j}" using g(3) by auto
  with d show thesis by (rule that)
qed

definition forget :: "id_type \<Rightarrow> id_type list \<Rightarrow> id_type list option" where
  "forget i deps = (if removeAll i deps = [] then None else Some (removeAll i deps))"

lemma forget_simps:
  "forget i deps = None \<longleftrightarrow> set deps \<subseteq> {i}"
  "forget i deps = Some ds \<longleftrightarrow> ds = removeAll i deps \<and> \<not> set deps \<subseteq> {i}"
  by (auto simp: forget_def removeAll_filter_not_eq filter_empty_conv)

lemma finish_flushes_spec:
  assumes "distinct (map evPtr fs)" and "\<And>f. f \<in> set fs \<Longrightarrow> map_find (cv_waiting cv) (evPtr f) \<noteq> None"
    and "key_sorted (cv_waiting cv)"
  shows "\<exists>w. finish_flushes i fs cv = Inr (cv\<lparr>cv_waiting := w\<rparr>,
      map (\<lambda>f. (eventID f, ev_flags f)) (filter (\<lambda>f. set (the (map_find (cv_waiting cv) (evPtr f))) \<subseteq> {i}) fs)) \<and>
    key_sorted w \<and> map_find w = (\<lambda>p. if p \<in> evPtr ` set fs then forget i (the (map_find (cv_waiting cv) p))
      else map_find (cv_waiting cv) p)"
  using assms
proof (induction fs arbitrary: cv)
  case (Cons f fs)
  obtain deps where d: "map_find (cv_waiting cv) (evPtr f) = Some deps" using Cons.prems(2) [of f] by auto
  define w1 where "w1 = (if removeAll i deps = [] then map_erase (evPtr f) (cv_waiting cv)
      else map_set (evPtr f) (removeAll i deps) (cv_waiting cv))"
  have w1: "map_find w1 = (map_find (cv_waiting cv))(evPtr f := forget i deps)" "key_sorted w1"
    using Cons.prems(3) by (auto simp: w1_def forget_def map_find_erase key_sorted_map_set key_sorted_map_erase)
  have old: "map_find w1 (evPtr g) = map_find (cv_waiting cv) (evPtr g)" if "g \<in> set fs" for g
    using Cons.prems(1) that by (cases "evPtr g = evPtr f") (auto simp: w1(1) image_iff)
  obtain w where w: "finish_flushes i fs (cv\<lparr>cv_waiting := w1\<rparr>) = Inr (cv\<lparr>cv_waiting := w\<rparr>,
      map (\<lambda>f. (eventID f, ev_flags f)) (filter (\<lambda>f. set (the (map_find w1 (evPtr f))) \<subseteq> {i}) fs))"
    "key_sorted w" "map_find w = (\<lambda>p. if p \<in> evPtr ` set fs then forget i (the (map_find w1 p)) else map_find w1 p)"
  proof -
    have "distinct (map evPtr fs)" "\<And>g. g \<in> set fs \<Longrightarrow> map_find w1 (evPtr g) \<noteq> None"
      using Cons.prems(1,2) old by auto
    then show ?thesis using Cons.IH [of "cv\<lparr>cv_waiting := w1\<rparr>"] w1(2) that by (auto cong: if_cong)
  qed
  have "filter (\<lambda>f. set (the (map_find w1 (evPtr f))) \<subseteq> {i}) fs =
      filter (\<lambda>f. set (the (map_find (cv_waiting cv) (evPtr f))) \<subseteq> {i}) fs"
    using old by (intro filter_cong) auto
  moreover have "removeAll i deps = [] \<longleftrightarrow> set deps \<subseteq> {i}"
    by (auto simp: removeAll_filter_not_eq filter_empty_conv)
  ultimately have "finish_flushes i (f # fs) cv = Inr (cv\<lparr>cv_waiting := w\<rparr>, map (\<lambda>f. (eventID f, ev_flags f))
      (filter (\<lambda>f. set (the (map_find (cv_waiting cv) (evPtr f))) \<subseteq> {i}) (f # fs)))"
    using w(1) d by (cases "removeAll i deps = []") (simp_all add: w1_def Let_def)
  moreover have "map_find w = (\<lambda>p. if p \<in> evPtr ` set (f # fs) then forget i (the (map_find (cv_waiting cv) p))
      else map_find (cv_waiting cv) p)"
    using w(3) d Cons.prems(1) by (auto simp: w1 fun_eq_iff)
  ultimately show ?case using w(2) by blast
next
  case Nil
  then show ?case by (intro exI [of _ "cv_waiting cv"]) simp
qed

lemma req_ok_last: "req_ok w q n r \<Longrightarrow> 0 < n \<Longrightarrow> isDone (decrement r) \<Longrightarrow> \<not> q \<and> n = 1"
proof (cases r)
  case (MemR m)
  assume ok: "req_ok w q n r" and n: "0 < n" and d: "isDone (decrement r)"
  have "mr_numReq m = 1" using d MemR by simp
  then show ?thesis using ok n d MemR by (auto split: if_splits)
qed (auto split: if_splits)

text \<open>
  The last piece of a request is answered: request \<open>i\<close> goes, and with it the flushes among
  \<open>fs\<close> that waited only for its event.
\<close>

definition drop_req :: "u32 \<Rightarrow> nat \<Rightarrow> (nat, id_type list) stdmap \<Rightarrow> (id_type, MemEvent list) stdmap \<Rightarrow> Conv \<Rightarrow> Conv" where
  "drop_req i p w d cv = cv\<lparr>cv_heap := map_erase p (cv_heap cv), cv_pending := map_erase i (cv_pending cv),
     cv_waiting := w, cv_dependent := d\<rparr>"

definition last_piece ::
  "Conv \<Rightarrow> ReqId multiset \<Rightarrow> u32 \<Rightarrow> nat \<Rightarrow> BaseReq \<Rightarrow> MemEvent list \<Rightarrow> (nat, id_type list) stdmap \<Rightarrow>
   (id_type, MemEvent list) stdmap \<Rightarrow> bool" where
  "last_piece cv fl i p r fs w d \<longleftrightarrow> conv_ok cv fl \<and>
     map_find (cv_pending cv) i = Some p \<and> map_find (cv_heap cv) p = Some r \<and> p \<notin> set (cv_queue cv) \<and>
     set fs = {f. waits cv f (req_event r)} \<and> key_sorted w \<and> key_sorted d \<and>
     map_find w = (\<lambda>p. if p \<in> evPtr ` set fs then forget (req_event r) (the (map_find (cv_waiting cv) p))
                       else map_find (cv_waiting cv) p) \<and>
     map_find d = (map_find (cv_dependent cv))(req_event r := None)"

lemma last_pieceD:
  assumes "last_piece cv fl i p r fs w d"
  shows "conv_maps cv" "conv_reqs cv fl" "conv_flush cv" "map_find (cv_pending cv) i = Some p"
    "map_find (cv_heap cv) p = Some r" "p \<notin> set (cv_queue cv)" "f \<in> set fs \<longleftrightarrow> waits cv f (req_event r)"
    "pend cv i = Some r" "key_sorted (cv_heap cv)" "key_sorted (cv_pending cv)"
  using assms by (auto simp: last_piece_def conv_ok_def conv_maps_def pend_def)

lemma drop_views:
  assumes l: "last_piece cv fl i p r fs w d"
  shows "pend (drop_req i p w d cv) = (pend cv)(i := None)"
    and "waits (drop_req i p w d cv) f j \<longleftrightarrow> waits cv f j \<and> j \<noteq> req_event r"
    and "pend_ids (drop_req i p w d cv) = pend_ids cv - {req_event r}"
proof -
  note L = last_pieceD [OF l]
  show p: "pend (drop_req i p w d cv) = (pend cv)(i := None)"
  proof
    fix j show "pend (drop_req i p w d cv) j = ((pend cv)(i := None)) j"
      using pending_inj [OF L(2,4), of j] L(9,10)
      by (cases "map_find (cv_pending cv) j") (auto simp: pend_def drop_req_def map_find_erase)
  qed
  show "waits (drop_req i p w d cv) f j \<longleftrightarrow> waits cv f j \<and> j \<noteq> req_event r"
    using l by (auto simp: waits_def drop_req_def last_piece_def)
  show "pend_ids (drop_req i p w d cv) = pend_ids cv - {req_event r}"
  proof -
    have "(\<exists>j s. ((pend cv)(i := None)) j = Some s \<and> req_event s = e) \<longleftrightarrow>
        (\<exists>j s. pend cv j = Some s \<and> req_event s = e) \<and> e \<noteq> req_event r" for e
      using event_inj [OF L(2) L(8)] L(8) by (metis fun_upd_apply option.distinct(1) option.inject)
    then show ?thesis by (auto simp: pend_ids_def p)
  qed
qed

lemma drop_maps: "last_piece cv fl i p r fs w d \<Longrightarrow> conv_maps (drop_req i p w d cv)"
  unfolding last_piece_def conv_ok_def conv_maps_def drop_req_def
  by (simp add: key_sorted_map_erase map_find_erase ran_def) blast

lemma drop_reqs:
  assumes l: "last_piece cv fl i p r fs w d"
    and n: "\<And>j. j \<noteq> i \<Longrightarrow> pieces j fl' = pieces j fl" "\<And>x. x \<in># fl' \<Longrightarrow> x \<in># fl \<and> getBaseId x \<noteq> i"
  shows "conv_reqs (drop_req i p w d cv) fl'"
proof -
  note L = last_pieceD [OF l]
  have pnd: "map_find (cv_pending (drop_req i p w d cv)) = (map_find (cv_pending cv))(i := None)"
    using L(10) by (simp add: drop_req_def map_find_erase)
  have hp: "map_find (cv_heap (drop_req i p w d cv)) = (map_find (cv_heap cv))(p := None)"
    using L(9) by (simp add: drop_req_def map_find_erase)
  have sel: "cv_width (drop_req i p w d cv) = cv_width cv" "cv_queue (drop_req i p w d cv) = cv_queue cv"
    by (simp_all add: drop_req_def)
  have a: "\<exists>s. ((map_find (cv_heap cv))(p := None)) x = Some s \<and> reqNo s = j \<and>
      req_ok (cv_width cv) (x \<in> set (cv_queue cv)) (pieces j fl') s"
    if j: "((map_find (cv_pending cv))(i := None)) j = Some x" for j x
  proof -
    have jx: "map_find (cv_pending cv) j = Some x" "j \<noteq> i" using j by (auto split: if_splits)
    then have "x \<noteq> p" using pending_inj [OF L(2,4)] by auto
    with conv_reqsD [OF L(2) jx(1)] n(1) [OF jx(2)] show ?thesis by (metis fun_upd_other)
  qed
  have c: "\<exists>j. ((map_find (cv_pending cv))(i := None)) j = Some x" if x: "x \<in> set (cv_queue cv)" for x
  proof -
    obtain j where "map_find (cv_pending cv) j = Some x" using x L(2) by (auto simp: conv_reqs_def)
    then show ?thesis using L(4,6) x by (intro exI [of _ j]) auto
  qed
  have e: "getBaseId x \<in> dom ((map_find (cv_pending cv))(i := None))" if "x \<in># fl'" for x
    using n(2) [OF that] L(2) by (auto simp: conv_reqs_def)
  have v: "j = k" if "((pend cv)(i := None)) j = Some s" "((pend cv)(i := None)) k = Some t" "req_event s = req_event t" for j k s t
    using that event_inj [OF L(2)] by (auto split: if_splits)
  have "0 < cv_width cv" "distinct (cv_queue cv)" using L(2) by (auto simp: conv_reqs_def)
  with a c e v show ?thesis
    unfolding conv_reqs_def pnd hp sel drop_views(1) [OF l] by blast
qed

lemma drop_waiting:
  assumes l: "last_piece cv fl i p r fs w d" and "waits cv f j" and "j \<noteq> req_event r"
  shows "\<exists>deps. map_find w (evPtr f) = Some deps \<and> j \<in> set deps"
proof -
  note L = last_pieceD [OF l]
  obtain deps where d: "map_find (cv_waiting cv) (evPtr f) = Some deps" "set deps = {j. waits cv f j}"
    by (rule waiting_deps [OF L(3) assms(2)])
  then show ?thesis using assms by (auto simp: last_piece_def forget_simps)
qed

lemma drop_deps:
  assumes l: "last_piece cv fl i p r fs w d" and wp: "map_find w x = Some deps"
  shows "deps \<noteq> [] \<and> (\<exists>f. evPtr f = x \<and> (\<forall>j \<in> set deps. waits cv f j \<and> j \<noteq> req_event r))"
proof -
  note L = last_pieceD [OF l]
  obtain old where o: "map_find (cv_waiting cv) x = Some old"
  proof (cases "x \<in> evPtr ` set fs")
    case True
    then obtain f where "waits cv f (req_event r)" "x = evPtr f" using L(7) by auto
    then show thesis using conv_flush_waiting(1) [OF L(3)] that by blast
  next
    case False
    then show thesis using wp l that by (auto simp: last_piece_def)
  qed
  obtain f where f: "old \<noteq> []" "evPtr f = x" "\<forall>j \<in> set old. waits cv f j"
    using conv_flush_deps [OF L(3) o] by auto
  show ?thesis
  proof (cases "x \<in> evPtr ` set fs")
    case True
    then have "deps = removeAll (req_event r) old" "deps \<noteq> []"
      using wp l o by (auto simp: last_piece_def forget_def split: if_splits)
    then show ?thesis using f by auto
  next
    case False
    then have "deps = old" using wp l o by (auto simp: last_piece_def)
    moreover have "req_event r \<notin> set old" using f(2,3) L(7) [of f] False by auto
    ultimately show ?thesis using f by auto
  qed
qed

lemma drop_flush:
  assumes l: "last_piece cv fl i p r fs w d"
  shows "conv_flush (drop_req i p w d cv)"
proof -
  note L = last_pieceD [OF l] and V = drop_views [OF l]
  have pnd: "\<exists>k s. ((pend cv)(i := None)) k = Some s \<and> is_mem s \<and> req_event s = j"
    if "waits cv f j" "j \<noteq> req_event r" for f j
    using conv_flush_waiting(2) [OF L(3) that(1)] that(2) L(8) by (metis fun_upd_other option.inject)
  have wt: "cv_waiting (drop_req i p w d cv) = w" by (simp add: drop_req_def)
  have dist: "gs \<noteq> [] \<and> sorted_wrt (<) (map eventID gs)" if "map_find (cv_dependent (drop_req i p w d cv)) k = Some gs" for k gs
    using that l L(3) by (auto simp: drop_req_def last_piece_def conv_flush_def split: if_splits)
  have apart: "(pend_ids cv - {req_event r}) \<inter> flush_ids (drop_req i p w d cv) = {}"
    using conv_flush_apart [OF L(3)] by (auto simp: flush_ids_def V(2))
  show ?thesis unfolding conv_flush_def V wt
    using pnd drop_waiting [OF l] drop_deps [OF l] conv_flush_inj [OF L(3)] dist apart by blast
qed

lemma drop_outstanding:
  assumes l: "last_piece cv fl i p r fs w d"
  defines "gone \<equiv> {f \<in> set fs. set (the (map_find (cv_waiting cv) (evPtr f))) \<subseteq> {req_event r}}"
  shows "outstanding (drop_req i p w d cv) = outstanding cv - {req_event r} - eventID ` gone"
    and "req_event r \<in> pend_ids cv" and "eventID ` gone \<subseteq> flush_ids cv"
proof -
  note L = last_pieceD [OF l] and V = drop_views [OF l]
  show r: "req_event r \<in> pend_ids cv" using L(8) by (auto simp: pend_ids_def)
  show d: "eventID ` gone \<subseteq> flush_ids cv" using L(7) by (auto simp: gone_def flush_ids_def)
  have iff: "f \<in> gone \<longleftrightarrow> (\<forall>j. waits cv f j \<longrightarrow> j = req_event r)" if wf: "waits cv f k" for f k
  proof -
    obtain deps where "map_find (cv_waiting cv) (evPtr f) = Some deps" "set deps = {j. waits cv f j}"
      by (rule waiting_deps [OF L(3) wf])
    then show ?thesis using wf L(7) [of f] by (auto simp: gone_def)
  qed
  have sub: "waits cv f (req_event r)" if "f \<in> gone" for f using that L(7) by (simp add: gone_def)
  have "flush_ids (drop_req i p w d cv) = flush_ids cv - eventID ` gone"
  proof (intro equalityI subsetI)
    fix e assume "e \<in> flush_ids (drop_req i p w d cv)"
    then obtain f j where f: "waits cv f j" "j \<noteq> req_event r" "eventID f = e" by (auto simp: flush_ids_def V(2))
    have "g \<notin> gone" if "eventID g = e" for g
      using conv_flush_inj [OF L(3) f(1) sub, of g] that f iff [OF f(1)] by auto
    then show "e \<in> flush_ids cv - eventID ` gone" using f by (auto simp: flush_ids_def)
  next
    fix e assume e: "e \<in> flush_ids cv - eventID ` gone"
    then obtain f j where f: "waits cv f j" "eventID f = e" by (auto simp: flush_ids_def)
    then have "f \<notin> gone" using e by blast
    then show "e \<in> flush_ids (drop_req i p w d cv)"
      using f iff [OF f(1)] by (auto simp: flush_ids_def V(2))
  qed
  moreover have "req_event r \<notin> flush_ids cv" using conv_flush_apart [OF L(3) r] by blast
  moreover have "pend_ids cv \<inter> eventID ` gone = {}" using conv_flush_apart [OF L(3)] d by blast
  ultimately show "outstanding (drop_req i p w d cv) = outstanding cv - {req_event r} - eventID ` gone"
    by (auto simp: outstanding_def V(3))
qed

text \<open>The flushes of one event have different pointers, so \<open>finish_flushes\<close> meets each waiting entry once.\<close>

lemma dependents:
  assumes "conv_ok cv fl" and "map_find (cv_dependent cv) e = Some fs"
  shows "distinct (map evPtr fs)" and "distinct (map eventID fs)"
    and "\<And>f. f \<in> set fs \<Longrightarrow> map_find (cv_waiting cv) (evPtr f) \<noteq> None"
    and "set fs = {f. waits cv f e}"
proof -
  have flush: "conv_flush cv" using assms(1) by (simp add: conv_ok_def)
  show s: "set fs = {f. waits cv f e}" using assms(2) by (auto simp: waits_def)
  have "sorted_wrt (<) (map eventID fs)" using flush assms(2) by (simp add: conv_flush_def)
  then have "distinct fs" by (simp add: strict_sorted_iff distinct_map)
  moreover have "f = g" if "f \<in> set fs" "g \<in> set fs" "evPtr f = evPtr g \<or> eventID f = eventID g" for f g
    using conv_flush_inj [OF flush, of f e g e] that s by simp
  ultimately show "distinct (map evPtr fs)" "distinct (map eventID fs)" by (auto simp: distinct_map inj_on_def)
  show "map_find (cv_waiting cv) (evPtr f) \<noteq> None" if "f \<in> set fs" for f
    using conv_flush_waiting(1) [OF flush, of f e] that s by auto
qed

lemma pieces_minus:
  assumes "pieces i (add_mset x fl) = 1" and "getBaseId x = i"
  shows "\<And>j. j \<noteq> i \<Longrightarrow> pieces j fl = pieces j (add_mset x fl)"
    and "\<And>y. y \<in># fl \<Longrightarrow> y \<in># add_mset x fl \<and> getBaseId y \<noteq> i"
proof -
  show "pieces j fl = pieces j (add_mset x fl)" if "j \<noteq> i" for j using that assms(2) by simp
  have "filter_mset (\<lambda>x. getBaseId x = i) fl = {#}" using assms by (simp add: pieces_def)
  then show "y \<in># add_mset x fl \<and> getBaseId y \<noteq> i" if "y \<in># fl" for y
    using that by (auto simp: filter_mset_eq_conv)
qed

lemma drop_answers:
  assumes l: "last_piece cv (add_mset x fl) i p r fs w d"
    and n: "pieces i (add_mset x fl) = 1" "getBaseId x = i" and fs: "distinct (map eventID fs)"
  defines "rs \<equiv> map (\<lambda>f. (eventID f, ev_flags f))
      (filter (\<lambda>f. set (the (map_find (cv_waiting cv) (evPtr f))) \<subseteq> {req_event r}) fs)"
  shows "conv_ok (drop_req i p w d cv) fl \<and> cv_answers cv ((req_event r, flags) # rs) (drop_req i p w d cv) \<and>
    cv_queue (drop_req i p w d cv) = cv_queue cv"
proof -
  have ok: "conv_ok (drop_req i p w d cv) fl"
    using drop_maps [OF l] drop_flush [OF l] drop_reqs [OF l pieces_minus [OF n]] by (simp add: conv_ok_def)
  define gone where "gone = {f \<in> set fs. set (the (map_find (cv_waiting cv) (evPtr f))) \<subseteq> {req_event r}}"
  note D = drop_outstanding [OF l, folded gone_def]
  have rs: "fst ` set rs = eventID ` gone" by (auto simp: rs_def gone_def image_iff)
  have "distinct (map fst rs)" using fs by (auto simp: rs_def comp_def distinct_map inj_on_def)
  moreover have "req_event r \<notin> eventID ` gone" using D(2,3) conv_flush_apart last_pieceD(3) [OF l] by blast
  ultimately have "cv_answers cv ((req_event r, flags) # rs) (drop_req i p w d cv)"
    using D rs by (auto simp: cv_answers_def outstanding_def)
  with ok show ?thesis by (simp add: drop_req_def)
qed

lemma last_piece_none:
  assumes "conv_ok cv fl" "map_find (cv_pending cv) i = Some p" "map_find (cv_heap cv) p = Some r"
    "p \<notin> set (cv_queue cv)" "map_find (cv_dependent cv) (req_event r) = None"
  shows "last_piece cv fl i p r [] (cv_waiting cv) (cv_dependent cv)"
  using assms by (auto simp: last_piece_def conv_ok_def conv_maps_def waits_def fun_upd_idem)

lemma custom_no_dependents:
  assumes "conv_ok cv fl" "pend cv i = Some r" "\<not> is_mem r"
  shows "map_find (cv_dependent cv) (req_event r) = None"
proof (rule ccontr)
  have flush: "conv_flush cv" and reqs: "conv_reqs cv fl" using assms(1) by (auto simp: conv_ok_def)
  assume "map_find (cv_dependent cv) (req_event r) \<noteq> None"
  then obtain fs where fs: "map_find (cv_dependent cv) (req_event r) = Some fs" by auto
  then have "fs \<noteq> []" using flush by (simp add: conv_flush_def)
  then have "waits cv (hd fs) (req_event r)" using fs by (auto simp: waits_def)
  then obtain j s where "pend cv j = Some s" "is_mem s" "req_event s = req_event r"
    using conv_flush_waiting(2) [OF flush] by blast
  then show False using event_inj [OF reqs _ assms(2), of j s] assms(2,3) by auto
qed

text \<open>What the code does once a request is done.\<close>

lemma doResponse_last:
  assumes ok: "conv_ok cv (add_mset x fl)" and on: "cv_clockOn cv"
    and i: "map_find (cv_pending cv) (getBaseId x) = Some p" "map_find (cv_heap cv) p = Some r"
    and q: "p \<notin> set (cv_queue cv)" and last: "isDone (decrement r)"
  shows "\<exists>fs w d fl'. last_piece cv (add_mset x fl) (getBaseId x) p r fs w d \<and> distinct (map eventID fs) \<and>
    doResponse c x flags cv = Inr (drop_req (getBaseId x) p w d cv, (req_event r, fl') #
      map (\<lambda>f. (eventID f, ev_flags f))
        (filter (\<lambda>f. set (the (map_find (cv_waiting cv) (evPtr f))) \<subseteq> {req_event r}) fs))"
proof (cases "map_find (cv_dependent cv) (req_event r)")
  case None
  then obtain fl' where "doResponse c x flags cv =
      Inr (drop_req (getBaseId x) p (cv_waiting cv) (cv_dependent cv) cv, [(req_event r, fl')])"
    using on i last None by (cases r) (simp_all add: doResponse_def drop_req_def Let_def)
  then show ?thesis using last_piece_none [OF ok i q None]
    by (intro exI [of _ "[]"] exI [of _ "cv_waiting cv"] exI [of _ "cv_dependent cv"] exI [of _ fl']) simp
next
  case (Some fs)
  have "is_mem r" using custom_no_dependents [OF ok, of "getBaseId x" r] Some i by (auto simp: pend_def)
  then obtain m where m: "r = MemR m" by (cases r) auto
  note D = dependents [OF ok Some]
  define cv2 where "cv2 = cv\<lparr>cv_heap := map_erase p (cv_heap cv), cv_pending := map_erase (getBaseId x) (cv_pending cv)\<rparr>"
  have srt: "key_sorted (cv_waiting cv)" "key_sorted (cv_dependent cv)" using ok by (auto simp: conv_ok_def conv_maps_def)
  have same: "cv_waiting cv2 = cv_waiting cv" by (simp add: cv2_def)
  obtain w where w: "finish_flushes (req_event r) fs cv2 = Inr (cv2\<lparr>cv_waiting := w\<rparr>,
      map (\<lambda>f. (eventID f, ev_flags f)) (filter (\<lambda>f. set (the (map_find (cv_waiting cv) (evPtr f))) \<subseteq> {req_event r}) fs))"
    "key_sorted w" "map_find w = (\<lambda>p. if p \<in> evPtr ` set fs then forget (req_event r) (the (map_find (cv_waiting cv) p))
      else map_find (cv_waiting cv) p)"
    using finish_flushes_spec [of fs cv2 "req_event r", unfolded same] D(1,3) srt(1) by auto
  let ?d = "map_erase (req_event r) (cv_dependent cv)"
  have "last_piece cv (add_mset x fl) (getBaseId x) p r fs w ?d"
    using ok i q D(4) w(2,3) srt(2) by (simp add: last_piece_def key_sorted_map_erase map_find_erase)
  moreover have "\<exists>fl'. doResponse c x flags cv = Inr (drop_req (getBaseId x) p w ?d cv, (req_event r, fl') #
      map (\<lambda>f. (eventID f, ev_flags f))
        (filter (\<lambda>f. set (the (map_find (cv_waiting cv) (evPtr f))) \<subseteq> {req_event r}) fs))"
    using on i last Some m w(1) by (simp add: doResponse_def drop_req_def cv2_def Let_def)
  ultimately show ?thesis using D(2) by blast
qed

text \<open>Answering a piece that is in flight never faults.\<close>

lemma doResponse_turnOn:
  "doResponse c x flags cv = doResponse c x flags (if cv_clockOn cv then cv else conv_turnClockOn c cv)"
  by (simp add: doResponse_def conv_turnClockOn_def)

lemma doResponse_on:
  assumes ok: "conv_ok cv (add_mset x fl)" and on: "cv_clockOn cv"
  shows "\<exists>cv' rs. doResponse c x flags cv = Inr (cv', rs) \<and> conv_ok cv' fl \<and> cv_answers cv rs cv' \<and>
    cv_queue cv' = cv_queue cv"
proof -
  let ?i = "getBaseId x"
  have reqs: "conv_reqs cv (add_mset x fl)" using ok by (simp add: conv_ok_def)
  then obtain p where p: "map_find (cv_pending cv) ?i = Some p" by (auto simp: conv_reqs_def)
  obtain r where r: "map_find (cv_heap cv) p = Some r" "reqNo r = ?i"
    "req_ok (cv_width cv) (p \<in> set (cv_queue cv)) (pieces ?i (add_mset x fl)) r"
    by (rule conv_reqsD [OF reqs p])
  show ?thesis
  proof (cases "isDone (decrement r)")
    case True
    then have q: "p \<notin> set (cv_queue cv)" and n: "pieces ?i (add_mset x fl) = 1" using req_ok_last [OF r(3)] by auto
    obtain fs w d fl' where l: "last_piece cv (add_mset x fl) ?i p r fs w d" "distinct (map eventID fs)"
      "doResponse c x flags cv = Inr (drop_req ?i p w d cv, (req_event r, fl') # map (\<lambda>f. (eventID f, ev_flags f))
        (filter (\<lambda>f. set (the (map_find (cv_waiting cv) (evPtr f))) \<subseteq> {req_event r}) fs))"
      using doResponse_last [OF ok on p r(1) q True] by blast
    then show ?thesis using drop_answers [OF l(1) n refl l(2)] by blast
  next
    case False
    let ?cv' = "cv\<lparr>cv_heap := map_set p (decrement r) (cv_heap cv), cv_queue := cv_queue cv\<rparr>"
    have "doResponse c x flags cv = Inr (?cv', [])" using False on p r(1) by (simp add: doResponse_def)
    moreover have "conv_ok ?cv' fl \<and> outstanding ?cv' = outstanding cv"
      by (rule conv_ok_update [OF ok p r(1)]) (use r reqs req_ok_decrement [OF r(3) _ False] in \<open>auto simp: conv_reqs_def\<close>)
    ultimately show ?thesis by simp
  qed
qed

lemma doResponse_ok:
  assumes "conv_ok cv (add_mset x fl)"
  shows "\<exists>cv' rs. doResponse c x flags cv = Inr (cv', rs) \<and> conv_ok cv' fl \<and> cv_answers cv rs cv' \<and>
    cv_queue cv' = cv_queue cv"
proof (cases "cv_clockOn cv")
  case False
  have "conv_ok (conv_turnClockOn c cv) (add_mset x fl)" "cv_clockOn (conv_turnClockOn c cv)"
    "outstanding (conv_turnClockOn c cv) = outstanding cv" "cv_queue (conv_turnClockOn c cv) = cv_queue cv"
    using assms by (simp_all add: conv_turnClockOn_def)
  then show ?thesis using doResponse_on [of "conv_turnClockOn c cv" x fl c flags] False
    by (simp add: doResponse_turnOn [of c x flags cv] cv_answers_def)
qed (rule doResponse_on [OF assms])

lemma doResponses_ok:
  assumes "conv_ok cv (mset xs + fl)"
  shows "\<exists>cv' rs. doResponses c xs cv = Inr (cv', rs) \<and> conv_ok cv' fl \<and> cv_answers cv rs cv' \<and>
    cv_queue cv' = cv_queue cv"
  using assms
proof (induction xs arbitrary: cv)
  case (Cons x xs)
  then obtain cv1 rs where 1: "doResponse c x 0 cv = Inr (cv1, rs)" "conv_ok cv1 (mset xs + fl)" "cv_answers cv rs cv1"
    "cv_queue cv1 = cv_queue cv"
    using doResponse_ok [of cv x "mset xs + fl" c 0] by auto
  obtain cv2 rs' where 2: "doResponses c xs cv1 = Inr (cv2, rs')" "conv_ok cv2 fl" "cv_answers cv1 rs' cv2"
    "cv_queue cv2 = cv_queue cv1"
    using Cons.IH [OF 1(2)] by blast
  show ?case using 1 2 cv_answers_append [OF 1(3) 2(3)] by simp
qed simp

section \<open>Taking events in\<close>

text \<open>The request number has no pending request: fewer than \<open>2^32\<close> are outstanding and the counter has not come round to one.\<close>

definition fresh_req :: "Conv \<Rightarrow> bool" where
  "fresh_req cv \<longleftrightarrow> map_find (cv_pending cv) (cv_reqId cv + 1) = None"

definition enqueued :: "Conv \<Rightarrow> id_type \<Rightarrow> Conv \<Rightarrow> bool" where
  "enqueued cv e cv' \<longleftrightarrow> outstanding cv' = insert e (outstanding cv)"

lemma enqueue_views:
  assumes m: "conv_maps cv" and f: "fresh_req cv"
  shows "pend (enqueue mk cv) = (pend cv)(cv_reqId cv + 1 \<mapsto> mk (cv_reqId cv + 1))"
    and "waits (enqueue mk cv) = waits cv"
    and "pend_ids (enqueue mk cv) = insert (req_event (mk (cv_reqId cv + 1))) (pend_ids cv)"
proof -
  show p: "pend (enqueue mk cv) = (pend cv)(cv_reqId cv + 1 \<mapsto> mk (cv_reqId cv + 1))"
  proof
    fix j show "pend (enqueue mk cv) j = ((pend cv)(cv_reqId cv + 1 \<mapsto> mk (cv_reqId cv + 1))) j"
      using m by (cases "map_find (cv_pending cv) j") (auto simp: pend_def enqueue_def Let_def conv_maps_def ran_def)
  qed
  show "waits (enqueue mk cv) = waits cv" by (auto simp: fun_eq_iff waits_def enqueue_def Let_def)
  have "pend cv (cv_reqId cv + 1) = None" using f by (simp add: fresh_req_def pend_def)
  then show "pend_ids (enqueue mk cv) = insert (req_event (mk (cv_reqId cv + 1))) (pend_ids cv)"
    unfolding pend_ids_def p by (auto intro: exI [of _ "cv_reqId cv + 1"]) (metis option.distinct(1))
qed

lemma enqueue_reqs:
  assumes m: "conv_maps cv" and reqs: "conv_reqs cv fl" and f: "fresh_req cv"
    and mk: "\<And>i. reqNo (mk i) = i" "\<And>i. req_ok (cv_width cv) True 0 (mk i)"
    and new: "req_event (mk (cv_reqId cv + 1)) \<notin> pend_ids cv"
  shows "conv_reqs (enqueue mk cv) fl"
proof -
  let ?i = "cv_reqId cv + 1" and ?p = "cv_nextObj cv"
  have pnd: "map_find (cv_pending (enqueue mk cv)) = (map_find (cv_pending cv))(?i \<mapsto> ?p)"
    and hp: "map_find (cv_heap (enqueue mk cv)) = (map_find (cv_heap cv))(?p \<mapsto> mk ?i)"
    and sel: "cv_width (enqueue mk cv) = cv_width cv" "cv_queue (enqueue mk cv) = cv_queue cv @ [?p]"
    by (simp_all add: enqueue_def Let_def)
  have old: "x \<noteq> ?p" if "map_find (cv_pending cv) j = Some x" for j x
    using that m by (auto simp: conv_maps_def ran_def)
  have notin: "?p \<notin> set (cv_queue cv)" using reqs old unfolding conv_reqs_def by blast
  have none: "pieces ?i fl = 0"
    using reqs f by (intro pieces_0) (auto simp: conv_reqs_def fresh_req_def)
  have a: "\<exists>s. ((map_find (cv_heap cv))(?p \<mapsto> mk ?i)) x = Some s \<and> reqNo s = j \<and>
      req_ok (cv_width cv) (x \<in> set (cv_queue cv @ [?p])) (pieces j fl) s"
    if j: "((map_find (cv_pending cv))(?i \<mapsto> ?p)) j = Some x" for j x
  proof (cases "j = ?i")
    case True
    then show ?thesis using j mk none by simp
  next
    case False
    then have jx: "map_find (cv_pending cv) j = Some x" using j by simp
    obtain s where "map_find (cv_heap cv) x = Some s" "reqNo s = j"
      "req_ok (cv_width cv) (x \<in> set (cv_queue cv)) (pieces j fl) s" by (rule conv_reqsD [OF reqs jx])
    then show ?thesis using old [OF jx] by simp
  qed
  have c: "\<exists>j. ((map_find (cv_pending cv))(?i \<mapsto> ?p)) j = Some x" if x: "x \<in> set (cv_queue cv @ [?p])" for x
  proof (cases "x = ?p")
    case False
    then obtain j where "map_find (cv_pending cv) j = Some x" using x reqs by (auto simp: conv_reqs_def)
    then show ?thesis using f by (intro exI [of _ j]) (auto simp: fresh_req_def)
  qed auto
  have v: "j = k" if "((pend cv)(?i \<mapsto> mk ?i)) j = Some s" "((pend cv)(?i \<mapsto> mk ?i)) k = Some t"
      "req_event s = req_event t" for j k s t
  proof -
    have "pend cv l = Some s' \<Longrightarrow> req_event s' \<noteq> req_event (mk ?i)" for l s' using new by (auto simp: pend_ids_def)
    then show ?thesis using that event_inj [OF reqs, of j s k t] by (auto split: if_splits)
  qed
  have "0 < cv_width cv" "distinct (cv_queue cv @ [?p])"
    "\<forall>x \<in># fl. getBaseId x \<in> dom ((map_find (cv_pending cv))(?i \<mapsto> ?p))"
    using reqs notin by (auto simp: conv_reqs_def)
  with a c v show ?thesis unfolding conv_reqs_def pnd hp sel enqueue_views(1) [OF m f] by blast
qed

lemma enqueue_ok:
  assumes ok: "conv_ok cv fl" and f: "fresh_req cv"
    and mk: "\<And>i. reqNo (mk i) = i" "\<And>i. req_ok (cv_width cv) True 0 (mk i)" "\<And>i. req_event (mk i) = e"
    and new: "e \<notin> outstanding cv"
  shows "conv_ok (enqueue mk cv) fl \<and> outstanding (enqueue mk cv) = insert e (outstanding cv)"
proof -
  have reqs: "conv_reqs cv fl" and m: "conv_maps cv" and flush: "conv_flush cv"
    using ok by (auto simp: conv_ok_def)
  note V = enqueue_views [OF m f, of mk]
  have ids: "flush_ids (enqueue mk cv) = flush_ids cv" by (simp add: flush_ids_def V)
  have r: "conv_reqs (enqueue mk cv) fl"
    using enqueue_reqs [OF m reqs f mk(1,2)] new mk(3) by (simp add: outstanding_def)
  have none: "pend cv (cv_reqId cv + 1) = None" using f by (simp add: fresh_req_def pend_def)
  have pnd: "\<exists>k s. ((pend cv)(cv_reqId cv + 1 \<mapsto> mk (cv_reqId cv + 1))) k = Some s \<and> is_mem s \<and> req_event s = j"
    if "waits cv g j" for g j
    using conv_flush_waiting(2) [OF flush that] none by (metis fun_upd_other option.distinct(1))
  have sel: "cv_waiting (enqueue mk cv) = cv_waiting cv" "cv_dependent (enqueue mk cv) = cv_dependent cv"
    by (simp_all add: enqueue_def Let_def)
  have apart: "pend_ids (enqueue mk cv) \<inter> flush_ids cv = {}"
    using conv_flush_apart [OF flush] new by (auto simp: V mk(3) outstanding_def)
  have "conv_flush (enqueue mk cv)" unfolding conv_flush_def V(1,2) sel ids
    using flush pnd apart by (auto simp: conv_flush_def)
  moreover have "conv_maps (enqueue mk cv)"
    using m by (auto simp: conv_maps_def enqueue_def Let_def key_sorted_map_set less_Suc_eq ran_def split: if_splits)
  ultimately show ?thesis using r by (auto simp: conv_ok_def outstanding_def ids V mk(3))
qed

text \<open>The queued requests to the line of \<open>ev\<close>.\<close>

definition line_ids :: "Conv \<Rightarrow> MemEvent \<Rightarrow> nat list \<Rightarrow> id_type set" where
  "line_ids cv ev ps = {i. \<exists>p \<in> set ps. \<exists>r. map_find (cv_heap cv) p = Some (MemR r) \<and>
     baseAddr (mr_event r) = baseAddr ev \<and> eventID (mr_event r) = i}"

lemma line_ids_Cons:
  "line_ids cv ev (p # ps) = line_ids cv ev ps \<union> (case map_find (cv_heap cv) p of
     Some (MemR r) \<Rightarrow> if baseAddr (mr_event r) = baseAddr ev then {eventID (mr_event r)} else {} | _ \<Rightarrow> {})"
  by (auto simp: line_ids_def split: option.splits BaseReq.splits)

lemma flush_insert_set:
  "(\<And>f. f \<in> set fs \<Longrightarrow> eventID f = eventID ev \<Longrightarrow> f = ev) \<Longrightarrow> set (flush_insert ev fs) = insert ev (set fs)"
proof (induction ev fs rule: flush_insert.induct)
  case (2 ev f fs)
  show ?case
  proof (cases "eventID ev = eventID f")
    case True
    then have "f = ev" using "2.prems" [of f] by simp
    then show ?thesis by simp
  qed (use 2 in auto)
qed simp

lemma flush_insert_keys: "eventID ` set (flush_insert ev fs) = insert (eventID ev) (eventID ` set fs)"
  by (induction ev fs rule: flush_insert.induct) auto

lemma flush_insert_sorted:
  "sorted_wrt (<) (map eventID fs) \<Longrightarrow> sorted_wrt (<) (map eventID (flush_insert ev fs))"
proof (induction ev fs rule: flush_insert.induct)
  case (2 ev f fs)
  have "eventID f < e" if "e \<in> eventID ` set (flush_insert ev fs)" "\<not> eventID ev < eventID f" "eventID ev \<noteq> eventID f" for e
    using that "2.prems" unfolding flush_insert_keys by auto
  then show ?case using 2 by (auto simp: image_iff)
qed simp

definition flush_sets :: "MemEvent \<Rightarrow> (id_type, MemEvent list) stdmap \<Rightarrow> bool" where
  "flush_sets ev d \<longleftrightarrow> (\<forall>i fs. map_find d i = Some fs \<longrightarrow>
     fs \<noteq> [] \<and> sorted_wrt (<) (map eventID fs) \<and> (\<forall>f \<in> set fs. eventID f = eventID ev \<longrightarrow> f = ev))"

lemma flush_sets_insert:
  fixes i :: id_type
  assumes "flush_sets ev d"
  defines "fs \<equiv> flush_insert ev (case map_find d i of None \<Rightarrow> [] | Some fs \<Rightarrow> fs)"
  shows "flush_sets ev (map_set i fs d)"
    and "set fs = insert ev (case map_find d i of None \<Rightarrow> {} | Some fs \<Rightarrow> set fs)"
proof -
  let ?old = "case map_find d i of None \<Rightarrow> [] | Some fs \<Rightarrow> fs"
  have old: "sorted_wrt (<) (map eventID ?old)" "\<And>f. f \<in> set ?old \<Longrightarrow> eventID f = eventID ev \<Longrightarrow> f = ev"
    using assms(1) by (cases "map_find d i"; simp add: flush_sets_def)+
  have s: "set fs = insert ev (set ?old)" unfolding fs_def by (rule flush_insert_set) (rule old(2))
  then show "set fs = insert ev (case map_find d i of None \<Rightarrow> {} | Some fs \<Rightarrow> set fs)"
    by (simp split: option.splits)
  have "fs \<noteq> []" using s by auto
  moreover have "sorted_wrt (<) (map eventID fs)" unfolding fs_def by (rule flush_insert_sorted) (rule old(1))
  moreover have "\<forall>f \<in> set fs. eventID f = eventID ev \<longrightarrow> f = ev" using s old(2) by auto
  ultimately show "flush_sets ev (map_set i fs d)" using assms(1) by (auto simp: flush_sets_def)
qed

lemma flush_depends_spec:
  assumes "\<And>p. p \<in> set ps \<Longrightarrow> map_find (cv_heap cv) p \<noteq> None"
    and "key_sorted (cv_dependent cv)" and "flush_sets ev (cv_dependent cv)"
  shows "\<exists>d deps'. flush_depends ev ps cv deps = Inr (cv\<lparr>cv_dependent := d\<rparr>, deps') \<and> key_sorted d \<and> flush_sets ev d \<and>
    set deps' = set deps \<union> line_ids cv ev ps \<and>
    (\<forall>f i. waits (cv\<lparr>cv_dependent := d\<rparr>) f i \<longleftrightarrow> waits cv f i \<or> f = ev \<and> i \<in> line_ids cv ev ps)"
  using assms
proof (induction ps arbitrary: cv deps)
  case Nil
  then show ?case by (intro exI [of _ "cv_dependent cv"] exI [of _ deps]) (simp add: line_ids_def)
next
  case (Cons p ps)
  obtain r where r: "map_find (cv_heap cv) p = Some r" using Cons.prems(1) [of p] by auto
  show ?case
  proof (cases "\<exists>m. r = MemR m \<and> baseAddr (mr_event m) = baseAddr ev")
    case False
    then have "flush_depends ev (p # ps) cv deps = flush_depends ev ps cv deps" "line_ids cv ev (p # ps) = line_ids cv ev ps"
      using r by (cases r; simp add: line_ids_Cons)+
    then show ?thesis using Cons.IH [of cv deps] Cons.prems by simp
  next
    case True
    then obtain m where m: "r = MemR m" "baseAddr (mr_event m) = baseAddr ev" by blast
    define i where "i = eventID (mr_event m)"
    define fs where "fs = flush_insert ev (case map_find (cv_dependent cv) i of None \<Rightarrow> [] | Some fs \<Rightarrow> fs)"
    define cv1 where "cv1 = cv\<lparr>cv_dependent := map_set i fs (cv_dependent cv)\<rparr>"
    note ins = flush_sets_insert [OF Cons.prems(3), where i = i, folded fs_def]
    have hp: "cv_heap cv1 = cv_heap cv" "line_ids cv1 ev ps = line_ids cv ev ps" by (simp_all add: cv1_def line_ids_def)
    have un: "flush_depends ev (p # ps) cv deps = flush_depends ev ps cv1 (List.insert i deps)"
      using r m by (simp add: cv1_def fs_def i_def Let_def)
    have w: "waits cv1 f j \<longleftrightarrow> waits cv f j \<or> f = ev \<and> j = i" for f j
      using ins(2) by (auto simp: waits_def cv1_def split: option.splits)
    have upd: "cv1\<lparr>cv_dependent := d\<rparr> = cv\<lparr>cv_dependent := d\<rparr>" for d by (simp add: cv1_def)
    have "key_sorted (cv_dependent cv1)" "flush_sets ev (cv_dependent cv1)"
      using Cons.prems(2) ins(1) by (simp_all add: cv1_def key_sorted_map_set)
    then obtain d deps' where "flush_depends ev ps cv1 (List.insert i deps) = Inr (cv\<lparr>cv_dependent := d\<rparr>, deps')"
      "key_sorted d" "flush_sets ev d" "set deps' = insert i (set deps) \<union> line_ids cv ev ps"
      "\<forall>f j. waits (cv\<lparr>cv_dependent := d\<rparr>) f j \<longleftrightarrow> waits cv1 f j \<or> f = ev \<and> j \<in> line_ids cv ev ps"
      using Cons.IH [of cv1 "List.insert i deps"] Cons.prems(1) unfolding hp upd by auto
    moreover have "line_ids cv ev (p # ps) = insert i (line_ids cv ev ps)"
      using r m by (simp add: line_ids_Cons i_def)
    ultimately show ?thesis unfolding un w by (intro exI [of _ d] exI [of _ deps']) auto
  qed
qed

text \<open>A flush joins the requests of its line that are still queued.\<close>

lemma flush_views:
  assumes "cv' = cv\<lparr>cv_waiting := w, cv_dependent := d\<rparr>"
  shows "pend cv' = pend cv" "pend_ids cv' = pend_ids cv" "conv_reqs cv' fl = conv_reqs cv fl"
    "conv_maps cv \<Longrightarrow> key_sorted w \<Longrightarrow> key_sorted d \<Longrightarrow> conv_maps cv'"
  by (simp_all add: assms pend_def [abs_def] pend_ids_def conv_reqs_def conv_maps_def)

lemma queue_heap:
  assumes "conv_reqs cv fl" and "p \<in> set (cv_queue cv)"
  shows "map_find (cv_heap cv) p \<noteq> None"
proof -
  obtain j where "map_find (cv_pending cv) j = Some p" using assms unfolding conv_reqs_def by blast
  then obtain r where "map_find (cv_heap cv) p = Some r" by (rule conv_reqsD [OF assms(1)])
  then show ?thesis by simp
qed

lemma line_ids_pending:
  assumes "conv_reqs cv fl" and "i \<in> line_ids cv ev (cv_queue cv)"
  shows "\<exists>j r. pend cv j = Some r \<and> is_mem r \<and> req_event r = i"
proof -
  obtain p r where "p \<in> set (cv_queue cv)" "map_find (cv_heap cv) p = Some (MemR r)" "eventID (mr_event r) = i"
    using assms(2) by (auto simp: line_ids_def)
  moreover obtain j where "map_find (cv_pending cv) j = Some p"
    using assms(1) calculation(1) unfolding conv_reqs_def by blast
  ultimately have "pend cv j = Some (MemR r)" by (simp add: pend_def)
  then show ?thesis using \<open>eventID (mr_event r) = i\<close> by (intro exI [of _ j] exI [of _ "MemR r"]) simp
qed

lemma flush_joins:
  assumes ok: "conv_ok cv fl" and new: "eventID ev \<notin> outstanding cv" "map_find (cv_waiting cv) (evPtr ev) = None"
    and d: "key_sorted d" "flush_sets ev d" and w: "key_sorted w"
      "map_find w = (if D = {} then map_find (cv_waiting cv) else (map_find (cv_waiting cv))(evPtr ev \<mapsto> deps))"
      "set deps = D" "D \<subseteq> line_ids cv ev (cv_queue cv)"
    and cv': "cv' = cv\<lparr>cv_waiting := w, cv_dependent := d\<rparr>"
      "\<And>f i. waits cv' f i \<longleftrightarrow> waits cv f i \<or> f = ev \<and> i \<in> D"
  shows "conv_ok cv' fl" and "outstanding cv' = (if D = {} then outstanding cv else insert (eventID ev) (outstanding cv))"
proof -
  have reqs: "conv_reqs cv fl" and m: "conv_maps cv" and flush: "conv_flush cv" using ok by (auto simp: conv_ok_def)
  note V = flush_views [OF cv'(1)]
  have other: "evPtr f \<noteq> evPtr ev" "eventID f \<noteq> eventID ev" if "waits cv f i" for f i
    using conv_flush_waiting(1) [OF flush that] new that by (auto simp: outstanding_def flush_ids_def)
  have ids: "flush_ids cv' = (if D = {} then flush_ids cv else insert (eventID ev) (flush_ids cv))"
    by (auto simp: flush_ids_def cv'(2))
  show "outstanding cv' = (if D = {} then outstanding cv else insert (eventID ev) (outstanding cv))"
    by (simp add: outstanding_def ids V(2))
  have sel: "cv_waiting cv' = w" "cv_dependent cv' = d" by (simp_all add: cv'(1))
  have 1: "(\<exists>deps. map_find w (evPtr f) = Some deps \<and> i \<in> set deps) \<and>
      (\<exists>j r. pend cv j = Some r \<and> is_mem r \<and> req_event r = i)" if wt: "waits cv f i \<or> f = ev \<and> i \<in> D" for f i
  proof (cases "waits cv f i")
    case True
    then show ?thesis using conv_flush_waiting [OF flush True] other [OF True] by (simp add: w(2))
  next
    case False
    then show ?thesis using wt w line_ids_pending [OF reqs, of i ev] by auto
  qed
  have 2: "ds \<noteq> [] \<and> (\<exists>f. evPtr f = p \<and> (\<forall>i \<in> set ds. waits cv f i \<or> f = ev \<and> i \<in> D))"
    if p: "map_find w p = Some ds" for p ds
  proof (cases "map_find (cv_waiting cv) p = Some ds")
    case True
    then show ?thesis using conv_flush_deps [OF flush True] by blast
  next
    case False
    then have "p = evPtr ev" "ds = deps" "D \<noteq> {}" using p by (auto simp: w(2) split: if_splits)
    then show ?thesis using w(3) by auto
  qed
  have 3: "f = g" if "waits cv f i \<or> f = ev \<and> i \<in> D" "waits cv g j \<or> g = ev \<and> j \<in> D"
      "evPtr f = evPtr g \<or> eventID f = eventID g" for f g i j
    using that other conv_flush_inj [OF flush, of f i g j] by metis
  have "pend_ids cv \<inter> flush_ids cv' = {}"
    using conv_flush_apart [OF flush] new(1) by (auto simp: ids outstanding_def)
  then have "conv_flush cv'"
    using 1 2 3 d(2) by (intro conv_flushI) (simp_all add: V(1,2) sel cv'(2) flush_sets_def)
  then show "conv_ok cv' fl" using reqs m V(3,4) w(1) d(1) by (simp add: conv_ok_def)
qed

lemma handleMemEvent_flush:
  assumes ok: "conv_ok cv fl" and new: "eventID ev \<notin> outstanding cv" "map_find (cv_waiting cv) (evPtr ev) = None"
    and fl: "cmd ev = FlushLine \<or> cmd ev = FlushLineInv"
  shows "\<exists>cv'. handleMemEvent ev cv =
      Inr (cv', if line_ids cv ev (cv_queue cv) = {} then [(eventID ev, ev_flags ev)] else []) \<and> conv_ok cv' fl \<and>
    outstanding cv' = outstanding cv \<union> (if line_ids cv ev (cv_queue cv) = {} then {} else {eventID ev})"
proof -
  let ?D = "line_ids cv ev (cv_queue cv)"
  have reqs: "conv_reqs cv fl" and m: "conv_maps cv" and flush: "conv_flush cv" using ok by (auto simp: conv_ok_def)
  have "map_find (cv_heap cv) p \<noteq> None" if "p \<in> set (cv_queue cv)" for p
    by (rule queue_heap [OF reqs that])
  moreover have "flush_sets ev (cv_dependent cv)"
    unfolding flush_sets_def
  proof (intro allI impI conjI ballI)
    fix i fs assume i: "map_find (cv_dependent cv) i = Some fs"
    then show "fs \<noteq> []" "sorted_wrt (<) (map eventID fs)" using flush by (auto simp: conv_flush_def)
    show "f = ev" if "f \<in> set fs" "eventID f = eventID ev" for f
    proof -
      have "waits cv f i" using that(1) i by (simp add: waits_def)
      then have "eventID f \<in> flush_ids cv" unfolding flush_ids_def by blast
      then show ?thesis using that(2) new(1) by (simp add: outstanding_def)
    qed
  qed
  ultimately obtain d deps where d: "flush_depends ev (cv_queue cv) cv [] = Inr (cv\<lparr>cv_dependent := d\<rparr>, deps)"
    "key_sorted d" "flush_sets ev d" "set deps = ?D"
    "\<And>f i. waits (cv\<lparr>cv_dependent := d\<rparr>) f i \<longleftrightarrow> waits cv f i \<or> f = ev \<and> i \<in> ?D"
    using flush_depends_spec [of "cv_queue cv" cv ev "[]"] m by (auto simp: conv_maps_def)
  define w where "w = (if deps = [] then cv_waiting cv else map_set (evPtr ev) deps (cv_waiting cv))"
  have w: "key_sorted w" "map_find w = (if ?D = {} then map_find (cv_waiting cv) else (map_find (cv_waiting cv))(evPtr ev \<mapsto> deps))"
    using m d(4) by (auto simp: w_def conv_maps_def key_sorted_map_set)
  let ?cv' = "cv\<lparr>cv_waiting := w, cv_dependent := d\<rparr>"
  have "waits ?cv' f i \<longleftrightarrow> waits cv f i \<or> f = ev \<and> i \<in> ?D" for f i using d(5) by (simp add: waits_def)
  note J = flush_joins [OF ok new d(2,3) w d(4) subset_refl refl this]
  have "handleMemEvent ev cv = Inr (?cv', if ?D = {} then [(eventID ev, ev_flags ev)] else [])"
    using fl d(1,4) new(2) by (cases "deps = []") (auto simp: handleMemEvent_def setupMemReq_def w_def)
  then show ?thesis using J by auto
qed

lemma handleMemEvent_request:
  assumes ok: "conv_ok cv fl" and new: "eventID ev \<notin> outstanding cv" and f: "fresh_req cv"
    and c: "cmd ev \<noteq> FlushLine" "cmd ev \<noteq> FlushLineInv" and s: "unat (ev_size ev) + unat (cv_width cv) < 2 ^ 32"
  shows "\<exists>cv'. handleMemEvent ev cv = Inr (cv', []) \<and> conv_ok cv' fl \<and> outstanding cv' = insert (eventID ev) (outstanding cv)"
  using enqueue_ok [OF ok f, of "\<lambda>i. MemR \<lparr>mr_reqId = i, mr_event = ev, mr_offset = 0, mr_numReq = 0\<rparr>" "eventID ev"] new c s
  by (auto simp: handleMemEvent_def setupMemReq_def)

lemma handleCustomEvent_ok:
  assumes "conv_ok cv fl" "evId \<notin> outstanding cv" "fresh_req cv"
  shows "conv_ok (handleCustomEvent info evId rq cv) fl \<and>
    outstanding (handleCustomEvent info evId rq cv) = insert evId (outstanding cv)"
  using enqueue_ok [OF assms(1,3), of "\<lambda>i. CustomR \<lparr>cr_reqId = i, cr_info = info, cr_evId = evId, cr_rqstr = rq\<rparr>" evId] assms(2)
  by (simp add: handleCustomEvent_def)

section \<open>The issue loop\<close>

text \<open>An invariant of the loop holds when it returns.\<close>

lemma issue_loop_rule:
  assumes "issue_loop B n cv b = Some (Inr (cv', b'))" and "I cv b"
    and acc: "\<And>p ps r cv b b'. I cv b \<Longrightarrow> cv_queue cv = p # ps \<Longrightarrow> map_find (cv_heap cv) p = Some r \<Longrightarrow>
      issue B (cv_width cv) r b = Inr (b', True) \<Longrightarrow> I (issued p r cv) b'"
    and rej: "\<And>r cv b b'. I cv b \<Longrightarrow> issue B (cv_width cv) r b = Inr (b', False) \<Longrightarrow> I cv b'"
  shows "I cv' b'"
proof -
  have "issue_loop B' n cv b = Some y \<Longrightarrow> B' = B \<longrightarrow> I cv b \<longrightarrow> y = Inr (cv', b') \<longrightarrow> I cv' b'" for B' y
  proof (induction B' n cv b y rule: issue_loop.raw_induct [rotated, consumes 1, case_names step])
    case (step loop B' n cv b y)
    show ?case
    proof (intro impI)
      assume a: "B' = B" "I cv b" "y = Inr (cv', b')"
      consider "cv' = cv" "b' = b" | p ps r b1 ok where "cv_queue cv = p # ps" "map_find (cv_heap cv) p = Some r"
        "issue B (cv_width cv) r b = Inr (b1, ok)" "if ok then loop B (n + 1) (issued p r cv) b1 = Some y else cv' = cv \<and> b' = b1"
        using step(2) a(1,3) by (auto split: list.splits if_splits option.splits sum.splits)
      then show "I cv' b'"
      proof cases
        case 2
        then show ?thesis using step(1) [of B "n + 1" "issued p r cv" b1 y] acc [OF a(2)] rej [OF a(2)] a
          by (cases ok) auto
      qed (use a in simp)
    qed
  qed
  with assms(1,2) show ?thesis by blast
qed

text \<open>The pieces still to be issued: the measure of the loop.\<close>

primrec remaining :: "BaseReq \<Rightarrow> nat" where
  "remaining (MemR r) = Suc (unat (ev_size (mr_event r)) - unat (mr_offset r))"
| "remaining (CustomR r) = 1"

definition to_issue :: "Conv \<Rightarrow> nat" where
  "to_issue cv = sum_list (map (\<lambda>p. case map_find (cv_heap cv) p of None \<Rightarrow> 0 | Some r \<Rightarrow> remaining r) (cv_queue cv))"

lemma remaining_decreases:
  assumes "req_ok w True n r" and "0 < w" and "\<not> issueDone (increment w r)"
  shows "remaining (increment w r) < remaining r"
proof (cases r)
  case (MemR m)
  have w: "0 < unat w" using assms(2) by (simp add: word_less_nat_alt)
  have s: "unat (mr_offset m) \<le> unat (ev_size (mr_event m))" using assms(1) MemR by (auto simp: word_less_nat_alt)
  have "unat (mr_offset m + w) = unat (mr_offset m) + unat w"
    using assms(1) MemR s by (intro unat_add_u32) simp
  then show ?thesis using assms(3) MemR w by (auto simp: word_le_nat_alt)
qed (use assms in simp)

lemma issued_decreases:
  assumes ok: "conv_ok cv fl" and q: "cv_queue cv = p # ps" and r: "map_find (cv_heap cv) p = Some r"
  shows "to_issue (issued p r cv) < to_issue cv"
proof -
  obtain r0 where r0: "map_find (cv_heap cv) p = Some r0" "req_ok (cv_width cv) True (pieces (reqNo r0) fl) r0"
    "0 < cv_width cv" "p \<notin> set ps"
    by (rule queue_head [OF ok q])
  let ?r' = "increment (cv_width cv) r"
  let ?m = "\<lambda>h x. case map_find h x of None \<Rightarrow> 0 | Some r \<Rightarrow> remaining r"
  have "map (?m (map_set p ?r' (cv_heap cv))) ps = map (?m (cv_heap cv)) ps" using r0(4) by auto
  moreover have "0 < remaining r" by (cases r) auto
  moreover have "\<not> issueDone ?r' \<Longrightarrow> remaining ?r' < remaining r" using remaining_decreases r0 r by simp
  ultimately show ?thesis using q r by (simp add: to_issue_def issued_def Let_def del: map_eq_conv)
qed

section \<open>The contract of a back end\<close>

text \<open>
  \<open>inflight\<close> is what a back end has accepted and not answered. \<open>binv\<close> is an invariant of its own.
\<close>

locale mem_backend =
  fixes B :: "'b Backend" and binv :: "'b \<Rightarrow> bool" and inflight :: "'b \<Rightarrow> ReqId multiset"
  assumes issue_law: "binv b \<Longrightarrow> be_issueRequest B i a wr n b = Inr (b', ok) \<Longrightarrow>
      binv b' \<and> inflight b' = (if ok then add_mset i (inflight b) else inflight b)"
    and custom_law: "binv b \<Longrightarrow> be_issueCustom B i info b = Inr (b', ok) \<Longrightarrow>
      binv b' \<and> inflight b' = (if ok then add_mset i (inflight b) else inflight b)"
    and clock_law: "binv b \<Longrightarrow> be_clock B b = Inr (b', xs, u) \<Longrightarrow> binv b' \<and> inflight b = mset xs + inflight b'"
    and self_law: "binv b \<Longrightarrow> be_self B k b = Inr (b', xs) \<Longrightarrow> binv b' \<and> inflight b = mset xs + inflight b'"
begin

lemma issue_step:
  "binv b \<Longrightarrow> issue B w r b = Inr (b', ok) \<Longrightarrow>
     binv b' \<and> inflight b' = (if ok then add_mset (req_id r) (inflight b) else inflight b)"
  by (cases r) (auto simp: issue_def dest: issue_law custom_law simp del: req_id.simps)

text \<open>Whatever the loop issues, the convertor and the back end agree on what is in flight.\<close>

definition agree :: "id_type set \<Rightarrow> Conv \<Rightarrow> 'b \<Rightarrow> bool" where
  "agree ids cv b \<longleftrightarrow> binv b \<and> conv_ok cv (inflight b) \<and> outstanding cv = ids"

lemma agree_issued:
  assumes "agree ids cv b" "cv_queue cv = p # ps" "map_find (cv_heap cv) p = Some r"
    "issue B (cv_width cv) r b = Inr (b', True)"
  shows "agree ids (issued p r cv) b'"
  using assms issued_ok [of cv "inflight b" p ps r] issue_step by (fastforce simp: agree_def)

lemma agree_rejected:
  "agree ids cv b \<Longrightarrow> issue B (cv_width cv) r b = Inr (b', False) \<Longrightarrow> agree ids cv b'"
  using issue_step by (fastforce simp: agree_def)

lemma issue_loop_agrees:
  "issue_loop B n cv b = Some (Inr (cv', b')) \<Longrightarrow> agree ids cv b \<Longrightarrow> agree ids cv' b'"
  by (erule issue_loop_rule) (blast intro: agree_issued agree_rejected)+

text \<open>The loop ends, and faults only when the back end does.\<close>

lemma issue_loop_total:
  assumes "agree ids cv b"
  shows "\<exists>r. issue_loop B n cv b = Some r \<and>
    (\<forall>e. r = Inl e \<longrightarrow> (\<exists>w q b. binv b \<and> issue B w q b = Inl e))"
  using assms
proof (induction "to_issue cv" arbitrary: n cv b rule: less_induct)
  case less
  show ?case
  proof (cases "cv_queue cv = [] \<or> n = be_maxReqPerCycle B")
    case True
    then show ?thesis by (subst issue_loop.simps) (auto split: list.splits)
  next
    case False
    then obtain p ps where q: "cv_queue cv = p # ps" by (cases "cv_queue cv") auto
    obtain r where r: "map_find (cv_heap cv) p = Some r"
      using less.prems queue_head [of cv "inflight b"] q by (auto simp: agree_def)
    have un: "issue_loop B n cv b = (case issue B (cv_width cv) r b of Inl e \<Rightarrow> Some (Inl e)
        | Inr (b', ok) \<Rightarrow> if ok then issue_loop B (n + 1) (issued p r cv) b' else Some (Inr (cv, b')))"
      using q r False by (subst issue_loop.simps) simp
    show ?thesis
    proof (cases "issue B (cv_width cv) r b")
      case (Inl e)
      then show ?thesis using un less.prems by (auto simp: agree_def)
    next
      case (Inr x)
      obtain b' ok where x: "x = (b', ok)" by (cases x)
      show ?thesis
      proof (cases ok)
        case True
        have "to_issue (issued p r cv) < to_issue cv"
          using issued_decreases less.prems q r by (auto simp: agree_def)
        then show ?thesis using less.hyps agree_issued [OF less.prems q r] Inr x True un by auto
      qed (use un Inr x in simp)
    qed
  qed
qed

text \<open>A cycle, and an event of the self link: every answer is to an event that was outstanding and is not any more.\<close>

lemma responses_agree:
  assumes "binv b'" "conv_ok cv (mset xs + inflight b')"
  shows "\<exists>cv' rs. doResponses c xs cv = Inr (cv', rs) \<and> binv b' \<and> conv_ok cv' (inflight b') \<and> cv_answers cv rs cv' \<and>
    cv_queue cv' = cv_queue cv"
  using doResponses_ok [OF assms(2), of c] assms(1) by auto

lemma clock_answers:
  assumes "binv b" and ok: "conv_ok cv (inflight b)"
  shows "\<exists>r. conv_clock B c cv b = Some r \<and> (case r of
      Inl e \<Rightarrow> (\<exists>w q b. binv b \<and> issue B w q b = Inl e) \<or> (\<exists>b. binv b \<and> be_clock B b = Inl e)
    | Inr (cv', b', rs, off) \<Rightarrow> binv b' \<and> conv_ok cv' (inflight b') \<and> cv_answers cv rs cv' \<and> (off \<longrightarrow> cv_queue cv' = []))"
proof -
  let ?cv = "cv\<lparr>cv_cycle := cv_cycle cv + 1\<rparr>"
  have a: "agree (outstanding cv) ?cv b" using assms by (simp add: agree_def)
  obtain r where r: "issue_loop B 0 ?cv b = Some r" "\<forall>e. r = Inl e \<longrightarrow> (\<exists>w q b. binv b \<and> issue B w q b = Inl e)"
    using issue_loop_total [OF a] by blast
  show ?thesis
  proof (cases r)
    case (Inl e)
    then show ?thesis using r by (simp add: conv_clock_def)
  next
    case (Inr x)
    obtain cv1 b1 where x: "x = (cv1, b1)" by (cases x)
    have a1: "agree (outstanding cv) cv1 b1" using issue_loop_agrees [OF _ a] r(1) Inr x by blast
    show ?thesis
    proof (cases "be_isClocked B")
      case False
      then show ?thesis using r(1) Inr x a1 by (simp add: conv_clock_def agree_def)
    next
      case True
      show ?thesis
      proof (cases "be_clock B b1")
        case (Inl e)
        then show ?thesis using True r(1) Inr x a1 by (auto simp: conv_clock_def agree_def)
      next
        case c: (Inr y)
        obtain b2 xs u where y: "y = (b2, xs, u)" by (cases y)
        have b2: "binv b2" "conv_ok cv1 (mset xs + inflight b2)"
          using clock_law [of b1 b2 xs u] c y a1 by (auto simp: agree_def)
        obtain cv2 rs where "doResponses c xs cv1 = Inr (cv2, rs)" "conv_ok cv2 (inflight b2)" "cv_answers cv1 rs cv2"
          using responses_agree [OF b2] by blast
        then show ?thesis using True r(1) Inr x c y a1 b2(1) by (simp add: conv_clock_def agree_def cv_answers_def)
      qed
    qed
  qed
qed

lemma self_answers:
  assumes "binv b" and ok: "conv_ok cv (inflight b)"
  shows "case conv_self B c k cv b of Inl e \<Rightarrow> be_self B k b = Inl e
    | Inr (cv', b', rs) \<Rightarrow> binv b' \<and> conv_ok cv' (inflight b') \<and> cv_answers cv rs cv'"
proof (cases "be_self B k b")
  case (Inr y)
  obtain b' xs where y: "y = (b', xs)" by (cases y)
  have b': "binv b'" "conv_ok cv (mset xs + inflight b')" using self_law [OF assms(1)] Inr y ok by auto
  obtain cv' rs where "doResponses c xs cv = Inr (cv', rs)" "conv_ok cv' (inflight b')" "cv_answers cv rs cv'"
    using responses_agree [OF b'] by blast
  then show ?thesis using Inr y b'(1) by (simp add: conv_self_def)
qed (simp add: conv_self_def)

end

end
