(* ===== verification/MemH_Backends.thy ===== *)
theory MemH_Backends
  imports MemH_ConvertorOk MemH_Lines "HOL-Library.Sublist"
begin

unbundle bit_operations_syntax

text \<open>
  The back ends of \<^verbatim>\<open>memHierarchy/membackend\<close> that are written in this repository:
  \<^verbatim>\<open>simpleMemBackend.cc\<close>, \<^verbatim>\<open>simpleDRAMBackend.cc\<close>, \<^verbatim>\<open>delayBuffer.cc\<close>,
  \<^verbatim>\<open>requestReorderSimple.cc\<close> and \<^verbatim>\<open>requestReorderByRow.cc\<close>. Each is a state and a \<open>Backend\<close>
  record of its operations; the last three sit in front of another back end, whose record is an
  argument. The events a back end has sent itself are a list of delays and events;
  \<open>be_self k\<close> delivers one of them, in any order, and there is nothing to deliver out of range.
  Statistics and parameter parsing are left out: the constructors take the parsed values. A
  number of banks is below \<open>2^31\<close>.
\<close>

section \<open>MemBackend and SimpleMemory\<close>

definition MemBackend_maxReq :: "int \<Rightarrow> int" where
  "MemBackend_maxReq p = (if p = 0 then -1 else p)"

definition MemBackend_clock :: "'b \<Rightarrow> ('b \<times> ReqId list \<times> bool) res" where
  "MemBackend_clock b = Inr (b, [], True)"

definition sm_issueRequest :: "ReqId \<Rightarrow> Addr \<Rightarrow> bool \<Rightarrow> u32 \<Rightarrow> ReqId list \<Rightarrow> (ReqId list \<times> bool) res" where
  "sm_issueRequest i addr isWrite numBytes link = Inr (link @ [i], True)"

definition sm_handleSelfEvent :: "nat \<Rightarrow> ReqId list \<Rightarrow> (ReqId list \<times> ReqId list) res" where
  "sm_handleSelfEvent k link = (if k < length link then Inr (erase_at k link, [link ! k]) else Inl OutOfRange)"

text \<open>The constructor reads \<open>max_requests_per_cycle\<close> again, over what \<open>MemBackend\<close> made of it.\<close>

definition SimpleMemory :: "int \<Rightarrow> u32 \<Rightarrow> u64 \<Rightarrow> ReqId list Backend" where
  "SimpleMemory mx width memSize =
     \<lparr>be_issueRequest = sm_issueRequest, be_issueCustom = noCustom, be_clock = MemBackend_clock,
      be_self = sm_handleSelfEvent, be_maxReqPerCycle = mx, be_reqWidth = width, be_isClocked = False,
      be_memSize = memSize\<rparr>"

section \<open>SimpleDRAM\<close>

datatype MemCtrlEvent = BankDone nat ReqId | BankClose nat

record SDRAM =
  sd_tCAS :: u64
  sd_tRCD :: u64
  sd_tRP :: u64
  sd_lineOffset :: nat
  sd_rowOffset :: nat
  sd_bankMask :: u64
  sd_closed :: bool
  sd_busy :: "bool list"
  sd_openRow :: "u32 list"
  sd_link :: "(u64 \<times> MemCtrlEvent) list"

definition SimpleDRAM_new ::
  "u64 \<Rightarrow> u64 \<Rightarrow> u64 \<Rightarrow> u64 \<Rightarrow> u64 \<Rightarrow> u64 \<Rightarrow> string \<Rightarrow> SDRAM res" where
  "SimpleDRAM_new tCAS tRCD tRP banks lineSz rowSz policyStr =
     (if policyStr \<noteq> ''closed'' \<and> policyStr \<noteq> ''open'' then Inl (Fatal ''SimpleDRAM'')
      else if \<not> isPowerOfTwo (ucast banks) then Inl (Fatal ''SimpleDRAM'')
      else if \<not> isPowerOfTwo (ucast lineSz) then Inl (Fatal ''SimpleDRAM'')
      else if \<not> isPowerOfTwo (ucast rowSz) then Inl (Fatal ''SimpleDRAM'')
      else Inr \<lparr>sd_tCAS = tCAS, sd_tRCD = tRCD, sd_tRP = tRP, sd_lineOffset = log2Of (unat (ucast lineSz :: u32)),
                sd_rowOffset = log2Of (unat (ucast rowSz :: u32)), sd_bankMask = banks - 1,
                sd_closed = (policyStr = ''closed''), sd_busy = replicate (unat banks) False,
                sd_openRow = replicate (unat banks) (-1), sd_link = []\<rparr>)"

definition sd_bank :: "SDRAM \<Rightarrow> Addr \<Rightarrow> nat" where
  "sd_bank d addr = unat (drop_bit (sd_lineOffset d) addr AND sd_bankMask d)"

definition sd_row :: "SDRAM \<Rightarrow> Addr \<Rightarrow> u32" where
  "sd_row d addr = ucast (drop_bit (sd_rowOffset d) addr)"

definition sd_issueRequest :: "ReqId \<Rightarrow> Addr \<Rightarrow> bool \<Rightarrow> u32 \<Rightarrow> SDRAM \<Rightarrow> (SDRAM \<times> bool) res" where
  "sd_issueRequest i addr isWrite numBytes d =
     (let bank = sd_bank d addr; row = sd_row d addr in
      if \<not> (bank < length (sd_busy d) \<and> bank < length (sd_openRow d)) then Inl OutOfRange
      else if sd_busy d ! bank then Inr (d, False)
      else (let open = sd_openRow d ! bank;
                latency = (ucast (sd_tCAS d) :: u32);
                latency = (if open \<noteq> row then latency + ucast (sd_tRCD d) else latency);
                latency = (if open \<noteq> row \<and> open \<noteq> -1 then latency + ucast (sd_tRP d) else latency);
                d = (if open \<noteq> row then d\<lparr>sd_openRow := (sd_openRow d)[bank := row]\<rparr> else d)
            in Inr (d\<lparr>sd_busy := (sd_busy d)[bank := True],
                      sd_link := sd_link d @ [(scast latency, BankDone bank i)]\<rparr>, True)))"

fun sd_handleSelfEvent :: "MemCtrlEvent \<Rightarrow> SDRAM \<Rightarrow> (SDRAM \<times> ReqId list) res" where
  "sd_handleSelfEvent (BankDone bank i) d =
     (if sd_closed d then Inr (d\<lparr>sd_link := sd_link d @ [(sd_tRP d, BankClose bank)]\<rparr>, [i])
      else if bank < length (sd_busy d) then Inr (d\<lparr>sd_busy := (sd_busy d)[bank := False]\<rparr>, [i])
      else Inl OutOfRange)"
| "sd_handleSelfEvent (BankClose bank) d =
     (if bank < length (sd_openRow d) \<and> bank < length (sd_busy d)
      then Inr (d\<lparr>sd_openRow := (sd_openRow d)[bank := -1], sd_busy := (sd_busy d)[bank := False]\<rparr>, [])
      else Inl OutOfRange)"

definition sd_self :: "nat \<Rightarrow> SDRAM \<Rightarrow> (SDRAM \<times> ReqId list) res" where
  "sd_self k d = (if k < length (sd_link d)
     then sd_handleSelfEvent (snd (sd_link d ! k)) (d\<lparr>sd_link := erase_at k (sd_link d)\<rparr>) else Inl OutOfRange)"

definition SimpleDRAM :: "int \<Rightarrow> u32 \<Rightarrow> u64 \<Rightarrow> SDRAM Backend" where
  "SimpleDRAM mx width memSize =
     \<lparr>be_issueRequest = sd_issueRequest, be_issueCustom = noCustom, be_clock = MemBackend_clock,
      be_self = sd_self, be_maxReqPerCycle = MemBackend_maxReq mx, be_reqWidth = width, be_isClocked = False,
      be_memSize = memSize\<rparr>"

section \<open>DelayBuffer\<close>

record SReq =
  sr_id :: ReqId
  sr_addr :: Addr
  sr_isWrite :: bool
  sr_numBytes :: u32

definition issue_to :: "'b Backend \<Rightarrow> SReq \<Rightarrow> 'b \<Rightarrow> ('b \<times> bool) res" where
  "issue_to B q b = be_issueRequest B (sr_id q) (sr_addr q) (sr_isWrite q) (sr_numBytes q) b"

text \<open>\<open>db_wakeups\<close> counts the empty events on the delay link; without delay there is no link.\<close>

record 'b Delay =
  db_backend :: 'b
  db_buffer :: "SReq list"
  db_link :: bool
  db_wakeups :: nat

definition db_handleNextRequest :: "'b Backend \<Rightarrow> 'b Delay \<Rightarrow> ('b Delay) res" where
  "db_handleNextRequest B s = (case db_buffer s of
     [] \<Rightarrow> Inl NullDeref
   | q # qs \<Rightarrow> bindE (issue_to B q (db_backend s)) (\<lambda>(b, ok).
       if \<not> ok then Inr (s\<lparr>db_backend := b, db_wakeups := db_wakeups s + 1\<rparr>)
       else Inr (s\<lparr>db_backend := b, db_buffer := qs\<rparr>)))"

definition db_issueRequest :: "'b Backend \<Rightarrow> ReqId \<Rightarrow> Addr \<Rightarrow> bool \<Rightarrow> u32 \<Rightarrow> 'b Delay \<Rightarrow> ('b Delay \<times> bool) res" where
  "db_issueRequest B i addr isWrite numBytes s =
     (let q = \<lparr>sr_id = i, sr_addr = addr, sr_isWrite = isWrite, sr_numBytes = numBytes\<rparr> in
      if db_link s then Inr (s\<lparr>db_buffer := db_buffer s @ [q], db_wakeups := db_wakeups s + 1\<rparr>, True)
      else bindE (issue_to B q (db_backend s)) (\<lambda>(b, ok). Inr (s\<lparr>db_backend := b\<rparr>, ok)))"

definition db_clock :: "'b Backend \<Rightarrow> 'b Delay \<Rightarrow> ('b Delay \<times> ReqId list \<times> bool) res" where
  "db_clock B s = bindE (be_clock B (db_backend s)) (\<lambda>(b, xs, u). Inr (s\<lparr>db_backend := b\<rparr>, xs, u))"

text \<open>Event 0 is a wake-up; the others are those of the back end behind it.\<close>

primrec db_self :: "'b Backend \<Rightarrow> nat \<Rightarrow> 'b Delay \<Rightarrow> ('b Delay \<times> ReqId list) res" where
  "db_self B 0 s = (if db_wakeups s = 0 then Inl OutOfRange
     else bindE (db_handleNextRequest B (s\<lparr>db_wakeups := db_wakeups s - 1\<rparr>)) (\<lambda>s. Inr (s, [])))"
| "db_self B (Suc k) s = bindE (be_self B k (db_backend s)) (\<lambda>(b, xs). Inr (s\<lparr>db_backend := b\<rparr>, xs))"

definition DelayBuffer :: "'b Backend \<Rightarrow> int \<Rightarrow> u32 \<Rightarrow> 'b Delay Backend" where
  "DelayBuffer B mx width =
     \<lparr>be_issueRequest = db_issueRequest B, be_issueCustom = noCustom, be_clock = db_clock B,
      be_self = db_self B, be_maxReqPerCycle = MemBackend_maxReq mx, be_reqWidth = width,
      be_isClocked = be_isClocked B, be_memSize = be_memSize B\<rparr>"

section \<open>RequestReorderSimple\<close>

record 'b Reorder =
  rs_backend :: 'b
  rs_queue :: "SReq list"
  rs_perCycle :: int
  rs_window :: int

definition rs_issueRequest :: "ReqId \<Rightarrow> Addr \<Rightarrow> bool \<Rightarrow> u32 \<Rightarrow> 'b Reorder \<Rightarrow> ('b Reorder \<times> bool) res" where
  "rs_issueRequest i addr isWrite numBytes s =
     Inr (s\<lparr>rs_queue := rs_queue s @ [\<lparr>sr_id = i, sr_addr = addr, sr_isWrite = isWrite, sr_numBytes = numBytes\<rparr>]\<rparr>, True)"

text \<open>The loop of \<open>clock\<close>: what stays of the queue, and the back end.\<close>

fun rs_scan :: "'b Backend \<Rightarrow> int \<Rightarrow> int \<Rightarrow> int \<Rightarrow> int \<Rightarrow> SReq list \<Rightarrow> 'b \<Rightarrow> (SReq list \<times> 'b) res" where
  "rs_scan B perCycle window nIssued searched [] b = Inr ([], b)"
| "rs_scan B perCycle window nIssued searched (q # qs) b = bindE (issue_to B q b) (\<lambda>(b, ok).
     if ok then (if nIssued + 1 = perCycle then Inr (qs, b)
                 else if searched + 1 = window then Inr (qs, b)
                 else rs_scan B perCycle window (nIssued + 1) (searched + 1) qs b)
     else (if searched + 1 = window then Inr (q # qs, b)
           else bindE (rs_scan B perCycle window nIssued (searched + 1) qs b) (\<lambda>(qs, b). Inr (q # qs, b))))"

definition rs_clock :: "'b Backend \<Rightarrow> 'b Reorder \<Rightarrow> ('b Reorder \<times> ReqId list \<times> bool) res" where
  "rs_clock B s = bindE (rs_scan B (rs_perCycle s) (rs_window s) 0 0 (rs_queue s) (rs_backend s)) (\<lambda>(qs, b).
     bindE (be_clock B b) (\<lambda>(b, xs, u). Inr (s\<lparr>rs_queue := qs, rs_backend := b\<rparr>, xs, False)))"

definition rs_self :: "'b Backend \<Rightarrow> nat \<Rightarrow> 'b Reorder \<Rightarrow> ('b Reorder \<times> ReqId list) res" where
  "rs_self B k s = bindE (be_self B k (rs_backend s)) (\<lambda>(b, xs). Inr (s\<lparr>rs_backend := b\<rparr>, xs))"

definition RequestReorderSimple :: "'b Backend \<Rightarrow> int \<Rightarrow> u32 \<Rightarrow> 'b Reorder Backend" where
  "RequestReorderSimple B mx width =
     \<lparr>be_issueRequest = rs_issueRequest, be_issueCustom = noCustom, be_clock = rs_clock B,
      be_self = rs_self B, be_maxReqPerCycle = MemBackend_maxReq mx, be_reqWidth = width,
      be_isClocked = True, be_memSize = be_memSize B\<rparr>"

section \<open>RequestReorderRow\<close>

record 'b ReorderRow =
  rw_backend :: 'b
  rw_maxReqsPerRow :: u32
  rw_banks :: u32
  rw_nextBank :: u32
  rw_bankMask :: u32
  rw_rowOffset :: nat
  rw_lineOffset :: nat
  rw_perCycle :: int
  rw_queue :: "SReq list list"
  rw_reorderCount :: "u32 list"
  rw_lastRow :: "u32 list"

definition RequestReorderRow_new ::
  "'b \<Rightarrow> int \<Rightarrow> u32 \<Rightarrow> u64 \<Rightarrow> u32 \<Rightarrow> u64 \<Rightarrow> ('b ReorderRow) res" where
  "RequestReorderRow_new b perCycle banks rowSz limit reqSz =
     (if banks = 0 then Inl (Fatal ''RequestReorderRow'')
      else if \<not> isPowerOfTwo (ucast rowSz) then Inl (Fatal ''RequestReorderRow'')
      else (let limit = (if limit = 0 then 1 else limit) in
        if \<not> isPowerOfTwo (ucast reqSz) then Inl (Fatal ''RequestReorderRow'')
        else Inr \<lparr>rw_backend = b, rw_maxReqsPerRow = limit, rw_banks = banks, rw_nextBank = 0, rw_bankMask = banks - 1,
                  rw_rowOffset = log2Of (unat (ucast rowSz :: u32)), rw_lineOffset = log2Of (unat (ucast reqSz :: u32)),
                  rw_perCycle = perCycle, rw_queue = replicate (unat banks) [],
                  rw_reorderCount = replicate (unat banks) limit, rw_lastRow = replicate (unat banks) (-1)\<rparr>))"

definition rw_issueRequest :: "ReqId \<Rightarrow> Addr \<Rightarrow> bool \<Rightarrow> u32 \<Rightarrow> 'b ReorderRow \<Rightarrow> ('b ReorderRow \<times> bool) res" where
  "rw_issueRequest i addr isWrite numBytes s =
     (let bank = unat (drop_bit (rw_lineOffset s) addr AND ucast (rw_bankMask s));
          q = \<lparr>sr_id = i, sr_addr = addr, sr_isWrite = isWrite, sr_numBytes = numBytes\<rparr> in
      if bank < length (rw_queue s)
      then Inr (s\<lparr>rw_queue := (rw_queue s)[bank := rw_queue s ! bank @ [q]]\<rparr>, True) else Inl OutOfRange)"

definition rw_row :: "'b ReorderRow \<Rightarrow> SReq \<Rightarrow> u32" where
  "rw_row s q = ucast (drop_bit (rw_rowOffset s) (sr_addr q))"

text \<open>The inner loop looks for the first request to the last row.\<close>

fun find_first :: "('a \<Rightarrow> bool) \<Rightarrow> 'a list \<Rightarrow> nat option" where
  "find_first P [] = None"
| "find_first P (x # xs) = (if P x then Some 0 else map_option Suc (find_first P xs))"

definition rw_next :: "'b ReorderRow \<Rightarrow> u32 \<Rightarrow> u32" where
  "rw_next s bank = (bank + 1) mod rw_banks s"

text \<open>The attempt to reorder, and the attempt to issue the oldest request; both say whether something was issued.\<close>

definition rw_reorder :: "'b Backend \<Rightarrow> u32 \<Rightarrow> 'b ReorderRow \<Rightarrow> nat \<Rightarrow> ('b ReorderRow \<times> bool) res" where
  "rw_reorder B bank s k =
     (let n = unat bank; q = rw_queue s ! n ! k in
      bindE (issue_to B q (rw_backend s)) (\<lambda>(b, ok).
        if ok then Inr (s\<lparr>rw_backend := b, rw_nextBank := rw_next s bank,
                         rw_reorderCount := (rw_reorderCount s)[n := rw_reorderCount s ! n + 1],
                         rw_queue := (rw_queue s)[n := erase_at k (rw_queue s ! n)]\<rparr>, True)
        else Inr (s\<lparr>rw_backend := b\<rparr>, False)))"

definition rw_oldest :: "'b Backend \<Rightarrow> u32 \<Rightarrow> 'b ReorderRow \<Rightarrow> ('b ReorderRow \<times> bool) res" where
  "rw_oldest B bank s =
     (let n = unat bank; q = hd (rw_queue s ! n) in
      bindE (issue_to B q (rw_backend s)) (\<lambda>(b, ok).
        if ok then Inr (s\<lparr>rw_backend := b, rw_nextBank := rw_next s bank,
                         rw_reorderCount := (rw_reorderCount s)[n := 1],
                         rw_lastRow := (rw_lastRow s)[n := rw_row s q],
                         rw_queue := (rw_queue s)[n := erase_at 0 (rw_queue s ! n)]\<rparr>, True)
        else Inr (s\<lparr>rw_backend := b\<rparr>, False)))"

definition rw_bank :: "'b Backend \<Rightarrow> u32 \<Rightarrow> 'b ReorderRow \<Rightarrow> ('b ReorderRow \<times> bool) res" where
  "rw_bank B bank s =
     (let n = unat bank;
          hit = (if rw_reorderCount s ! n \<noteq> rw_maxReqsPerRow s
                 then find_first (\<lambda>q. rw_row s q = rw_lastRow s ! n) (rw_queue s ! n) else None)
      in case hit of Some k \<Rightarrow> rw_reorder B bank s k | None \<Rightarrow> rw_oldest B bank s)"

primrec rw_loop :: "'b Backend \<Rightarrow> nat \<Rightarrow> u32 \<Rightarrow> int \<Rightarrow> 'b ReorderRow \<Rightarrow> ('b ReorderRow) res" where
  "rw_loop B 0 bank nIssued s = Inr s"
| "rw_loop B (Suc m) bank nIssued s =
     (if \<not> (unat bank < length (rw_queue s) \<and> unat bank < length (rw_reorderCount s) \<and> unat bank < length (rw_lastRow s))
      then Inl OutOfRange
      else if rw_queue s ! unat bank = [] then rw_loop B m (rw_next s bank) nIssued s
      else bindE (rw_bank B bank s) (\<lambda>(s, ok).
        let nIssued = (if ok then nIssued + 1 else nIssued) in
        if nIssued = rw_perCycle s then Inr s else rw_loop B m (rw_next s bank) nIssued s))"

definition rw_clock :: "'b Backend \<Rightarrow> 'b ReorderRow \<Rightarrow> ('b ReorderRow \<times> ReqId list \<times> bool) res" where
  "rw_clock B s =
     bindE (if rw_queue s \<noteq> [] then rw_loop B (unat (rw_banks s)) (rw_nextBank s) 0 s else Inr s) (\<lambda>s.
       bindE (be_clock B (rw_backend s)) (\<lambda>(b, xs, u). Inr (s\<lparr>rw_backend := b\<rparr>, xs, False)))"

definition rw_self :: "'b Backend \<Rightarrow> nat \<Rightarrow> 'b ReorderRow \<Rightarrow> ('b ReorderRow \<times> ReqId list) res" where
  "rw_self B k s = bindE (be_self B k (rw_backend s)) (\<lambda>(b, xs). Inr (s\<lparr>rw_backend := b\<rparr>, xs))"

definition RequestReorderRow :: "'b Backend \<Rightarrow> int \<Rightarrow> u32 \<Rightarrow> 'b ReorderRow Backend" where
  "RequestReorderRow B mx width =
     \<lparr>be_issueRequest = rw_issueRequest, be_issueCustom = noCustom, be_clock = rw_clock B,
      be_self = rw_self B, be_maxReqPerCycle = MemBackend_maxReq mx, be_reqWidth = width,
      be_isClocked = True, be_memSize = be_memSize B\<rparr>"

section \<open>Back ends that never fault\<close>

text \<open>No custom request is pending; back ends refuse them unless they override \<open>issueCustomRequest\<close>.\<close>

definition no_custom :: "Conv \<Rightarrow> bool" where
  "no_custom cv \<longleftrightarrow> (\<forall>i r. pend cv i = Some r \<longrightarrow> is_mem r)"

lemma is_mem_simps [simp]: "is_mem (increment w r) = is_mem r" "is_mem (decrement r) = is_mem r"
  by (cases r; simp)+

lemma no_custom_upd:
  assumes "no_custom cv" "\<And>i p. map_find (cv_pending cv') i = Some p \<Longrightarrow> map_find (cv_pending cv) i = Some p"
    "\<And>p r'. map_find (cv_heap cv') p = Some r' \<Longrightarrow> \<exists>r. map_find (cv_heap cv) p = Some r \<and> is_mem r' = is_mem r"
  shows "no_custom cv'"
  unfolding no_custom_def
proof (intro allI impI)
  fix i r' assume "pend cv' i = Some r'"
  then obtain p where p: "map_find (cv_pending cv') i = Some p" "map_find (cv_heap cv') p = Some r'"
    by (auto simp: pend_def bind_eq_Some_conv)
  then obtain r where "map_find (cv_heap cv) p = Some r" "is_mem r' = is_mem r" using assms(3) by blast
  then have "pend cv i = Some r" using assms(2) [OF p(1)] by (simp add: pend_def)
  then show "is_mem r'" using assms(1) \<open>is_mem r' = is_mem r\<close> by (simp add: no_custom_def)
qed

lemma no_custom_issued:
  "no_custom cv \<Longrightarrow> map_find (cv_heap cv) p = Some r \<Longrightarrow> no_custom (issued p r cv)"
  by (erule no_custom_upd) (auto simp: issued_def Let_def split: if_splits)

lemma finish_flushes_frame:
  "finish_flushes i fs cv = Inr (cv', rs) \<Longrightarrow> cv_heap cv' = cv_heap cv \<and> cv_pending cv' = cv_pending cv"
proof (induction fs arbitrary: cv rs)
  case (Cons f fs)
  from Cons.prems obtain deps where "map_find (cv_waiting cv) (evPtr f) = Some deps" by (auto split: option.splits)
  then obtain w rs' where "finish_flushes i fs (cv\<lparr>cv_waiting := w\<rparr>) = Inr (cv', rs')"
    using Cons.prems by (cases "removeAll i deps = []") (auto simp: Let_def bindE_eq_Inr_iff)
  from Cons.IH [OF this] show ?case by simp
qed simp

lemma doResponse_no_custom:
  assumes nc: "no_custom cv" and m: "conv_maps cv" and d: "doResponse c x flags cv = Inr (cv', rs)"
  shows "no_custom cv'"
proof -
  define cv1 where "cv1 = (if cv_clockOn cv then cv else conv_turnClockOn c cv)"
  have c1: "cv_heap cv1 = cv_heap cv" "cv_pending cv1 = cv_pending cv" "cv_dependent cv1 = cv_dependent cv"
    by (simp_all add: cv1_def conv_turnClockOn_def)
  obtain p r where p: "map_find (cv_pending cv) (getBaseId x) = Some p" "map_find (cv_heap cv) p = Some r"
    using d c1 by (auto simp: doResponse_def cv1_def [symmetric] Let_def split: option.splits)
  have srt: "key_sorted (cv_heap cv)" "key_sorted (cv_pending cv)" using m by (auto simp: conv_maps_def)
  have "cv_heap cv' = map_set p (decrement r) (cv_heap cv) \<and> cv_pending cv' = cv_pending cv \<or>
      cv_heap cv' = map_erase p (cv_heap cv) \<and> cv_pending cv' = map_erase (getBaseId x) (cv_pending cv)"
    using d p c1 by (auto simp: doResponse_def cv1_def [symmetric] Let_def bindE_eq_Inr_iff dest!: finish_flushes_frame
        split: if_splits BaseReq.splits option.splits)
  then show ?thesis using srt p by (intro no_custom_upd [OF nc]) (auto simp: map_find_erase split: if_splits)
qed

lemma doResponses_no_custom:
  "no_custom cv \<Longrightarrow> conv_ok cv (mset xs + fl) \<Longrightarrow> doResponses c xs cv = Inr (cv', rs) \<Longrightarrow> no_custom cv'"
proof (induction xs arbitrary: cv rs)
  case (Cons x xs)
  obtain cv1 rs1 where 1: "doResponse c x 0 cv = Inr (cv1, rs1)" "conv_ok cv1 (mset xs + fl)"
    using doResponse_ok [of cv x "mset xs + fl" c 0] Cons.prems(2) by auto
  have "no_custom cv1" using doResponse_no_custom [OF Cons.prems(1) _ 1(1)] Cons.prems(2) by (simp add: conv_ok_def)
  then show ?case using Cons.IH [OF _ 1(2)] Cons.prems(3) 1(1) by (auto simp: bindE_eq_Inr_iff)
qed simp

locale total_backend = mem_backend +
  assumes issue_total: "binv b \<Longrightarrow> \<exists>b' ok. be_issueRequest B i a wr n b = Inr (b', ok)"
    and clock_total: "binv b \<Longrightarrow> \<exists>b' xs u. be_clock B b = Inr (b', xs, u)"
begin

lemma issue_loop_no_fault:
  assumes "agree ids cv b" and "no_custom cv"
  shows "\<exists>cv' b'. issue_loop B n cv b = Some (Inr (cv', b'))"
  using assms
proof (induction "to_issue cv" arbitrary: n cv b rule: less_induct)
  case less
  show ?case
  proof (cases "cv_queue cv = [] \<or> n = be_maxReqPerCycle B")
    case True
    then show ?thesis by (subst issue_loop.simps) (auto split: list.splits)
  next
    case False
    then obtain p ps where q: "cv_queue cv = p # ps" by (cases "cv_queue cv") auto
    obtain r where r: "map_find (cv_heap cv) p = Some r"
      using less.prems(1) queue_head [of cv "inflight b"] q by (auto simp: agree_def)
    have ok: "conv_ok cv (inflight b)" using less.prems(1) by (simp add: agree_def)
    obtain r0 where "map_find (cv_heap cv) p = Some r0" "map_find (cv_pending cv) (reqNo r0) = Some p" by (rule queue_head [OF ok q])
    then have "pend cv (reqNo r) = Some r" using r by (simp add: pend_def)
    then have "is_mem r" using less.prems(2) by (simp add: no_custom_def)
    then obtain m where m: "r = MemR m" by (cases r) auto
    obtain b' ok where i: "issue B (cv_width cv) r b = Inr (b', ok)"
      using issue_total [of b "req_id r" "mr_addr m" "mr_isWrite m" "cv_width cv"] less.prems(1) m
      by (auto simp: issue_def agree_def)
    have un: "issue_loop B n cv b = (if ok then issue_loop B (n + 1) (issued p r cv) b' else Some (Inr (cv, b')))"
      using q r i False by (subst issue_loop.simps) simp
    show ?thesis
    proof (cases ok)
      case True
      have "to_issue (issued p r cv) < to_issue cv"
        using issued_decreases less.prems(1) q r by (auto simp: agree_def)
      then show ?thesis
        using less.hyps agree_issued [OF less.prems(1) q r] no_custom_issued [OF less.prems(2) r] i un True by auto
    qed (use un in simp)
  qed
qed

lemma issue_loop_no_custom:
  assumes "issue_loop B n cv b = Some (Inr (cv', b'))" "no_custom cv"
  shows "no_custom cv'"
  by (rule issue_loop_rule [OF assms(1), where I = "\<lambda>cv b. no_custom cv"]) (auto intro: assms(2) no_custom_issued)

lemma clock_never_faults:
  assumes "binv b" and "conv_ok cv (inflight b)" and "no_custom cv"
  shows "\<exists>cv' b' rs off. conv_clock B c cv b = Some (Inr (cv', b', rs, off)) \<and> no_custom cv'"
proof -
  let ?cv = "cv\<lparr>cv_cycle := cv_cycle cv + 1\<rparr>"
  have a: "agree (outstanding cv) ?cv b" "no_custom ?cv" using assms by (simp_all add: agree_def no_custom_def pend_def)
  obtain cv1 b1 where l: "issue_loop B 0 ?cv b = Some (Inr (cv1, b1))" using issue_loop_no_fault [OF a] by blast
  then have a1: "agree (outstanding cv) cv1 b1" using issue_loop_agrees a(1) by blast
  have nc: "no_custom cv1" using issue_loop_no_custom [OF l a(2)] .
  obtain b2 xs u where c: "be_clock B b1 = Inr (b2, xs, u)" using clock_total [of b1] a1 by (auto simp: agree_def)
  have ok: "conv_ok cv1 (mset xs + inflight b2)" using clock_law [OF _ c] a1 by (auto simp: agree_def)
  obtain cv2 rs where d: "doResponses c xs cv1 = Inr (cv2, rs)" using doResponses_ok [OF ok, of c] by blast
  have "no_custom cv2" by (rule doResponses_no_custom [OF nc ok d])
  then show ?thesis using l c d nc by (cases "be_isClocked B") (simp_all add: conv_clock_def)
qed

lemma self_no_custom:
  assumes "binv b" and "conv_ok cv (inflight b)" and "no_custom cv" and "conv_self B c k cv b = Inr (cv', b', rs)"
  shows "no_custom cv'"
proof -
  obtain xs where s: "be_self B k b = Inr (b', xs)" "doResponses c xs cv = Inr (cv', rs)"
    using assms(4) by (auto simp: conv_self_def bindE_eq_Inr_iff)
  have "conv_ok cv (mset xs + inflight b')" using self_law [OF assms(1) s(1)] assms(2) by simp
  then show ?thesis using doResponses_no_custom [OF assms(3) _ s(2)] by blast
qed

end

section \<open>SimpleMemory\<close>

lemma merase_at_subset: "k < length xs \<Longrightarrow> add_mset (xs ! k) (mset (erase_at k xs)) = mset xs"
  by (metis append.assoc append_Cons erase_at_def id_take_nth_drop mset.simps(2) mset_append union_mset_add_mset_right)

interpretation smb: mem_backend "SimpleMemory mx w ms" "\<lambda>b. True" "mset :: ReqId list \<Rightarrow> _" for mx w ms
  by unfold_locales
    (auto simp: SimpleMemory_def sm_issueRequest_def noCustom_def MemBackend_clock_def sm_handleSelfEvent_def merase_at_subset
      split: if_splits)

interpretation smem: total_backend "SimpleMemory mx w ms" "\<lambda>b. True" "mset :: ReqId list \<Rightarrow> _" for mx w ms
  by unfold_locales (auto simp: SimpleMemory_def sm_issueRequest_def MemBackend_clock_def)

section \<open>SimpleDRAM\<close>

primrec ctrl_bank :: "MemCtrlEvent \<Rightarrow> nat" where
  "ctrl_bank (BankDone b i) = b"
| "ctrl_bank (BankClose b) = b"

primrec ctrl_req :: "MemCtrlEvent \<Rightarrow> ReqId list" where
  "ctrl_req (BankDone b i) = [i]"
| "ctrl_req (BankClose b) = []"

definition sd_inflight :: "SDRAM \<Rightarrow> ReqId multiset" where
  "sd_inflight d = mset (concat (map (ctrl_req \<circ> snd) (sd_link d)))"

definition on_bank :: "nat \<Rightarrow> (u64 \<times> MemCtrlEvent) list \<Rightarrow> nat" where
  "on_bank n es = length (filter (\<lambda>e. ctrl_bank (snd e) = n) es)"

text \<open>A bank is busy exactly while one event for it is on the way.\<close>

definition sd_ok :: "SDRAM \<Rightarrow> bool" where
  "sd_ok d \<longleftrightarrow> length (sd_busy d) = length (sd_openRow d) \<and> unat (sd_bankMask d) < length (sd_busy d) \<and>
     (\<forall>e \<in> set (sd_link d). ctrl_bank (snd e) < length (sd_busy d)) \<and>
     (\<forall>n < length (sd_busy d). on_bank n (sd_link d) = (if sd_busy d ! n then 1 else 0))"

lemma on_bank_simps [simp]:
  "on_bank n [] = 0" "on_bank n (es @ fs) = on_bank n es + on_bank n fs"
  "on_bank n (e # es) = (if ctrl_bank (snd e) = n then Suc (on_bank n es) else on_bank n es)"
  by (simp_all add: on_bank_def)

lemma on_bank_erase:
  "k < length es \<Longrightarrow> on_bank n (erase_at k es) = on_bank n es - (if ctrl_bank (snd (es ! k)) = n then 1 else 0)"
  using filter_erase_at [of k es "\<lambda>e. ctrl_bank (snd e) = n"] by (simp add: on_bank_def split: if_splits)

lemma erase_at_subset: "set (erase_at k xs) \<subseteq> set xs"
  by (auto simp: erase_at_def dest: in_set_takeD in_set_dropD)

lemma sd_bank_bound: "sd_ok d \<Longrightarrow> sd_bank d a < length (sd_busy d)"
proof -
  assume "sd_ok d"
  moreover have "drop_bit (sd_lineOffset d) a AND sd_bankMask d \<le> sd_bankMask d" by (rule word_and_le1)
  ultimately show ?thesis by (simp add: sd_ok_def sd_bank_def word_le_nat_alt)
qed

lemma sd_issue_ok:
  assumes "sd_ok d"
  shows "\<exists>d' ok. sd_issueRequest i a wr n d = Inr (d', ok) \<and> sd_ok d' \<and> ok = (\<not> sd_busy d ! sd_bank d a) \<and>
    sd_inflight d' = (if ok then add_mset i (sd_inflight d) else sd_inflight d)"
proof -
  have b: "sd_bank d a < length (sd_busy d)" "sd_bank d a < length (sd_openRow d)"
    using sd_bank_bound [OF assms] assms by (auto simp: sd_ok_def)
  show ?thesis using assms b
    by (auto simp: sd_issueRequest_def Let_def sd_ok_def sd_inflight_def nth_list_update)
qed

lemma sd_inflight_erase:
  assumes "k < length (sd_link d)"
  shows "sd_inflight d = mset (ctrl_req (snd (sd_link d ! k))) + sd_inflight (d\<lparr>sd_link := erase_at k (sd_link d)\<rparr>)"
proof -
  have "mset (concat (map f xs)) = mset (f (xs ! k)) + mset (concat (map f (erase_at k xs)))" if "k < length xs"
    for f :: "'a \<Rightarrow> 'c list" and xs
    by (subst id_take_nth_drop [OF that]) (simp add: erase_at_def)
  from this [OF assms, of "ctrl_req \<circ> snd"] show ?thesis by (simp add: sd_inflight_def)
qed

lemma sd_self_ok:
  assumes ok: "sd_ok d" and k: "k < length (sd_link d)"
  shows "\<exists>d'. sd_self k d = Inr (d', ctrl_req (snd (sd_link d ! k))) \<and> sd_ok d' \<and>
    sd_inflight d = mset (ctrl_req (snd (sd_link d ! k))) + sd_inflight d'"
proof -
  define e where "e = snd (sd_link d ! k)"
  define d1 where "d1 = d\<lparr>sd_link := erase_at k (sd_link d)\<rparr>"
  have e: "ctrl_bank e < length (sd_busy d)" using ok k by (auto simp: sd_ok_def e_def)
  have "0 < on_bank (ctrl_bank e) (sd_link d)" using k by (auto simp: on_bank_def e_def filter_empty_conv)
  then have busy: "sd_busy d ! ctrl_bank e" using ok e by (auto simp: sd_ok_def split: if_splits)
  have fl: "sd_inflight d = mset (ctrl_req e) + sd_inflight d1"
    using sd_inflight_erase [OF k] by (simp add: e_def d1_def)
  have sub: "\<forall>e \<in> set (sd_link d1). ctrl_bank (snd e) < length (sd_busy d)"
  proof
    fix e assume "e \<in> set (sd_link d1)"
    then have "e \<in> set (sd_link d)" using erase_at_subset [of k "sd_link d"] by (auto simp: d1_def)
    then show "ctrl_bank (snd e) < length (sd_busy d)" using ok unfolding sd_ok_def by blast
  qed
  have cnt: "on_bank n (sd_link d1) = on_bank n (sd_link d) - (if ctrl_bank e = n then 1 else 0)" for n
    using on_bank_erase [OF k] by (simp add: d1_def e_def)
  have un: "sd_self k d = sd_handleSelfEvent e d1" using k by (simp add: sd_self_def e_def d1_def)
  have sel: "sd_busy d1 = sd_busy d" "sd_openRow d1 = sd_openRow d" "sd_bankMask d1 = sd_bankMask d" "sd_closed d1 = sd_closed d"
    by (simp_all add: d1_def)
  have "\<exists>d'. sd_handleSelfEvent e d1 = Inr (d', ctrl_req e) \<and> sd_ok d' \<and> sd_inflight d' = sd_inflight d1"
    using ok e busy sub cnt sel
    by (cases e) (auto simp: sd_ok_def sd_inflight_def nth_list_update)
  then show ?thesis using un fl by (auto simp: e_def)
qed

interpretation sdram: total_backend "SimpleDRAM mx w ms" sd_ok sd_inflight for mx w ms
proof
  fix b i a wr n b' ok info xs u k
  assume b: "sd_ok b"
  show "\<exists>b' ok. be_issueRequest (SimpleDRAM mx w ms) i a wr n b = Inr (b', ok)"
    using sd_issue_ok [OF b, of i a wr n] by (auto simp: SimpleDRAM_def)
  show "be_issueRequest (SimpleDRAM mx w ms) i a wr n b = Inr (b', ok) \<Longrightarrow>
      sd_ok b' \<and> sd_inflight b' = (if ok then add_mset i (sd_inflight b) else sd_inflight b)"
    using sd_issue_ok [OF b, of i a wr n] by (auto simp: SimpleDRAM_def)
  show "be_self (SimpleDRAM mx w ms) k b = Inr (b', xs) \<Longrightarrow> sd_ok b' \<and> sd_inflight b = mset xs + sd_inflight b'"
    using sd_self_ok [OF b, of k] by (cases "k < length (sd_link b)") (auto simp: SimpleDRAM_def sd_self_def)
qed (auto simp: SimpleDRAM_def noCustom_def MemBackend_clock_def)

section \<open>DelayBuffer\<close>

definition db_ok :: "('b \<Rightarrow> bool) \<Rightarrow> 'b Delay \<Rightarrow> bool" where
  "db_ok binv s \<longleftrightarrow> binv (db_backend s) \<and> db_wakeups s = length (db_buffer s)"

definition db_inflight :: "('b \<Rightarrow> ReqId multiset) \<Rightarrow> 'b Delay \<Rightarrow> ReqId multiset" where
  "db_inflight fl s = fl (db_backend s) + mset (map sr_id (db_buffer s))"

lemmas wrapper_simps = noCustom_def bindE_eq_Inr_iff Let_def

context total_backend
begin

lemma issue_to_total: "binv b \<Longrightarrow> \<exists>b' ok. issue_to B q b = Inr (b', ok)"
  by (simp add: issue_to_def issue_total)

lemma issue_to_law:
  "binv b \<Longrightarrow> issue_to B q b = Inr (b', ok) \<Longrightarrow>
     binv b' \<and> inflight b' = (if ok then add_mset (sr_id q) (inflight b) else inflight b)"
  unfolding issue_to_def by (rule issue_law)

lemma db_next_law:
  assumes "binv (db_backend s)" "db_handleNextRequest B s = Inr s'"
  shows "binv (db_backend s') \<and> db_inflight inflight s' = db_inflight inflight s \<and>
    db_wakeups s' + length (db_buffer s) = db_wakeups s + 1 + length (db_buffer s')"
proof (cases "db_buffer s")
  case (Cons q qs)
  obtain b ok where b: "issue_to B q (db_backend s) = Inr (b, ok)" using issue_to_total [OF assms(1)] by blast
  show ?thesis using issue_to_law [OF assms(1) b] assms(2) Cons b
    by (cases ok) (auto simp: db_handleNextRequest_def db_inflight_def)
qed (use assms in \<open>simp add: db_handleNextRequest_def\<close>)

lemma delay_buffer: "total_backend (DelayBuffer B mx w) (db_ok binv) (db_inflight inflight)"
proof
  fix b b' i a wr n ok info xs u k
  assume b: "db_ok binv b"
  then have bi: "binv (db_backend b)" by (simp add: db_ok_def)
  let ?q = "\<lparr>sr_id = i, sr_addr = a, sr_isWrite = wr, sr_numBytes = n\<rparr>"
  show "\<exists>b' ok. be_issueRequest (DelayBuffer B mx w) i a wr n b = Inr (b', ok)"
    using issue_to_total [OF bi, of ?q] by (auto simp: DelayBuffer_def db_issueRequest_def Let_def)
  show "be_issueRequest (DelayBuffer B mx w) i a wr n b = Inr (b', ok) \<Longrightarrow>
      db_ok binv b' \<and> db_inflight inflight b' = (if ok then add_mset i (db_inflight inflight b) else db_inflight inflight b)"
    using b issue_to_law [OF bi, of ?q]
    by (auto simp: DelayBuffer_def db_issueRequest_def db_ok_def db_inflight_def wrapper_simps split: if_splits)
  show "be_issueCustom (DelayBuffer B mx w) i info b = Inr (b', ok) \<Longrightarrow>
      db_ok binv b' \<and> db_inflight inflight b' = (if ok then add_mset i (db_inflight inflight b) else db_inflight inflight b)"
    by (simp add: DelayBuffer_def noCustom_def)
  show "\<exists>b' xs u. be_clock (DelayBuffer B mx w) b = Inr (b', xs, u)"
    using clock_total [OF bi] by (auto simp: DelayBuffer_def db_clock_def)
  show "be_clock (DelayBuffer B mx w) b = Inr (b', xs, u) \<Longrightarrow>
      db_ok binv b' \<and> db_inflight inflight b = mset xs + db_inflight inflight b'"
    using b clock_law [OF bi] by (auto simp: DelayBuffer_def db_clock_def db_ok_def db_inflight_def wrapper_simps)
  show "be_self (DelayBuffer B mx w) k b = Inr (b', xs) \<Longrightarrow>
      db_ok binv b' \<and> db_inflight inflight b = mset xs + db_inflight inflight b'"
  proof (cases k)
    case 0
    let ?s = "b\<lparr>db_wakeups := db_wakeups b - 1\<rparr>"
    assume "be_self (DelayBuffer B mx w) k b = Inr (b', xs)"
    then have "db_wakeups b \<noteq> 0" "db_handleNextRequest B ?s = Inr b'" "xs = []"
      using 0 by (auto simp: DelayBuffer_def wrapper_simps split: if_splits)
    then show ?thesis using db_next_law [of ?s b'] b by (auto simp: db_ok_def db_inflight_def)
  next
    case (Suc j)
    assume "be_self (DelayBuffer B mx w) k b = Inr (b', xs)"
    then show ?thesis using b self_law [OF bi, of j] Suc
      by (auto simp: DelayBuffer_def db_ok_def db_inflight_def wrapper_simps)
  qed
qed

text \<open>A wake-up never finds the buffer empty.\<close>

lemma db_wakeup_total:
  assumes "db_ok binv s" "db_wakeups s \<noteq> 0"
  shows "\<exists>s'. db_self B 0 s = Inr (s', [])"
proof -
  obtain q qs where q: "db_buffer s = q # qs" using assms by (cases "db_buffer s") (auto simp: db_ok_def)
  obtain b ok where "issue_to B q (db_backend s) = Inr (b, ok)"
    using issue_to_total [of "db_backend s" q] assms(1) by (auto simp: db_ok_def)
  then show ?thesis using assms q by (cases ok) (auto simp: db_handleNextRequest_def)
qed

end

section \<open>RequestReorderSimple\<close>

definition rs_ok :: "('b \<Rightarrow> bool) \<Rightarrow> 'b Reorder \<Rightarrow> bool" where
  "rs_ok binv s \<longleftrightarrow> binv (rs_backend s)"

definition rs_inflight :: "('b \<Rightarrow> ReqId multiset) \<Rightarrow> 'b Reorder \<Rightarrow> ReqId multiset" where
  "rs_inflight fl s = fl (rs_backend s) + mset (map sr_id (rs_queue s))"

context total_backend
begin

text \<open>The scan takes out of the queue what the back end accepts, and keeps the rest in order.\<close>

lemma rs_scan_law:
  assumes "binv b"
  shows "\<exists>qs' b'. rs_scan B per win n k qs b = Inr (qs', b') \<and> binv b' \<and> subseq qs' qs \<and>
    inflight b' + mset (map sr_id qs') = inflight b + mset (map sr_id qs)"
  using assms
proof (induction qs arbitrary: n k b)
  case (Cons q qs)
  obtain b1 ok where i: "issue_to B q b = Inr (b1, ok)" using issue_to_total [OF Cons.prems] by blast
  have b1: "binv b1" "inflight b1 = (if ok then add_mset (sr_id q) (inflight b) else inflight b)"
    using issue_to_law [OF Cons.prems i] by auto
  show ?case
  proof (cases ok)
    case True
    obtain qs' b' where "rs_scan B per win (n + 1) (k + 1) qs b1 = Inr (qs', b')" "binv b'" "subseq qs' qs"
      "inflight b' + mset (map sr_id qs') = inflight b1 + mset (map sr_id qs)"
      using Cons.IH [OF b1(1)] by blast
    then show ?thesis using i b1 True by (auto simp: list_emb_Cons)
  next
    case False
    obtain qs' b' where "rs_scan B per win n (k + 1) qs b1 = Inr (qs', b')" "binv b'" "subseq qs' qs"
      "inflight b' + mset (map sr_id qs') = inflight b1 + mset (map sr_id qs)"
      using Cons.IH [OF b1(1)] by blast
    then show ?thesis using i b1 False by auto
  qed
qed simp

lemma reorder_simple: "total_backend (RequestReorderSimple B mx w) (rs_ok binv) (rs_inflight inflight)"
proof
  fix b b' i a wr n ok info xs u k
  assume b: "rs_ok binv b"
  then have bi: "binv (rs_backend b)" by (simp add: rs_ok_def)
  show "\<exists>b' ok. be_issueRequest (RequestReorderSimple B mx w) i a wr n b = Inr (b', ok)"
    by (auto simp: RequestReorderSimple_def rs_issueRequest_def)
  show "be_issueRequest (RequestReorderSimple B mx w) i a wr n b = Inr (b', ok) \<Longrightarrow>
      rs_ok binv b' \<and> rs_inflight inflight b' = (if ok then add_mset i (rs_inflight inflight b) else rs_inflight inflight b)"
    using bi by (auto simp: rs_ok_def RequestReorderSimple_def rs_issueRequest_def rs_inflight_def)
  show "be_issueCustom (RequestReorderSimple B mx w) i info b = Inr (b', ok) \<Longrightarrow>
      rs_ok binv b' \<and> rs_inflight inflight b' = (if ok then add_mset i (rs_inflight inflight b) else rs_inflight inflight b)"
    by (simp add: RequestReorderSimple_def noCustom_def)
  show "be_self (RequestReorderSimple B mx w) k b = Inr (b', xs) \<Longrightarrow>
      rs_ok binv b' \<and> rs_inflight inflight b = mset xs + rs_inflight inflight b'"
    using self_law [OF bi, of k] by (auto simp: RequestReorderSimple_def rs_ok_def rs_self_def rs_inflight_def wrapper_simps)
  obtain qs' b1 where s: "rs_scan B (rs_perCycle b) (rs_window b) 0 0 (rs_queue b) (rs_backend b) = Inr (qs', b1)" "binv b1"
    "inflight b1 + mset (map sr_id qs') = rs_inflight inflight b"
    using rs_scan_law [OF bi] unfolding rs_inflight_def by metis
  show "\<exists>b' xs u. be_clock (RequestReorderSimple B mx w) b = Inr (b', xs, u)"
    using clock_total [OF s(2)] s(1) by (auto simp: RequestReorderSimple_def rs_clock_def)
  show "be_clock (RequestReorderSimple B mx w) b = Inr (b', xs, u) \<Longrightarrow>
      rs_ok binv b' \<and> rs_inflight inflight b = mset xs + rs_inflight inflight b'"
    using clock_law [OF s(2)] s(1) s(3) [symmetric]
    by (auto simp: RequestReorderSimple_def rs_ok_def rs_clock_def rs_inflight_def wrapper_simps)
qed

end

section \<open>RequestReorderRow\<close>

definition rw_ok :: "('b \<Rightarrow> bool) \<Rightarrow> 'b ReorderRow \<Rightarrow> bool" where
  "rw_ok binv s \<longleftrightarrow> binv (rw_backend s) \<and> 0 < rw_banks s \<and> rw_nextBank s < rw_banks s \<and> rw_bankMask s = rw_banks s - 1 \<and>
     length (rw_queue s) = unat (rw_banks s) \<and> length (rw_reorderCount s) = unat (rw_banks s) \<and>
     length (rw_lastRow s) = unat (rw_banks s)"

definition rw_inflight :: "('b \<Rightarrow> ReqId multiset) \<Rightarrow> 'b ReorderRow \<Rightarrow> ReqId multiset" where
  "rw_inflight fl s = fl (rw_backend s) + image_mset sr_id (mset (concat (rw_queue s)))"

lemma mset_concat_update:
  assumes "n < length xs"
  shows "mset (concat (xs[n := ys])) + mset (xs ! n) = mset (concat xs) + mset ys"
proof -
  have "mset (concat xs) = mset (concat (take n xs @ xs ! n # drop (Suc n) xs))"
    using assms by (simp add: id_take_nth_drop [symmetric])
  then show ?thesis using assms by (simp add: upd_conv_take_nth_drop)
qed

lemma image_concat_update:
  assumes "n < length xs"
  shows "image_mset f (mset (concat (xs[n := ys]))) + image_mset f (mset (xs ! n)) =
    image_mset f (mset (concat xs)) + image_mset f (mset ys)"
  using arg_cong [OF mset_concat_update [OF assms, of ys], of "image_mset f"] by simp

text \<open>Taking one request out of a bank's queue.\<close>

lemma image_concat_erase:
  assumes "n < length xs" and "k < length (xs ! n)"
  shows "add_mset (f (xs ! n ! k)) (image_mset f (mset (concat (xs[n := erase_at k (xs ! n)])))) = image_mset f (mset (concat xs))"
proof -
  have "image_mset f (mset (xs ! n)) = add_mset (f (xs ! n ! k)) (image_mset f (mset (erase_at k (xs ! n))))"
    using arg_cong [OF merase_at_subset [OF assms(2)], of "image_mset f"] by simp
  then show ?thesis using image_concat_update [OF assms(1), of f "erase_at k (xs ! n)"] by simp
qed

lemma image_concat_append:
  assumes "n < length xs"
  shows "image_mset f (mset (concat (xs[n := xs ! n @ [q]]))) = add_mset (f q) (image_mset f (mset (concat xs)))"
  using image_concat_update [OF assms, of f "xs ! n @ [q]"] by simp

lemma find_first_Some: "find_first P xs = Some k \<Longrightarrow> k < length xs \<and> P (xs ! k)"
  by (induction xs arbitrary: k) (auto split: if_splits)

lemma rw_next_less: "0 < rw_banks s \<Longrightarrow> rw_next s bank < rw_banks s"
  by (simp add: rw_next_def word_mod_less_divisor)

context total_backend
begin

lemma rw_bank_law:
  assumes ok: "rw_ok binv s" and bank: "bank < rw_banks s" and ne: "rw_queue s ! unat bank \<noteq> []"
  shows "\<exists>s' acc. rw_bank B bank s = Inr (s', acc) \<and> rw_ok binv s' \<and> rw_banks s' = rw_banks s \<and>
    rw_inflight inflight s' = rw_inflight inflight s"
proof -
  let ?n = "unat bank"
  have bi: "binv (rw_backend s)" and n: "?n < length (rw_queue s)" and z: "0 < rw_banks s"
    using ok bank by (auto simp: rw_ok_def word_less_nat_alt)
  have nx: "rw_next s bank < rw_banks s" by (rule rw_next_less [OF z])
  have take: "\<exists>s' acc. bindE (issue_to B (rw_queue s ! ?n ! k) (rw_backend s)) (\<lambda>(b, ok).
        if ok then Inr (g b, True) else Inr (s\<lparr>rw_backend := b\<rparr>, False)) = Inr (s', acc) \<and>
      rw_ok binv s' \<and> rw_banks s' = rw_banks s \<and> rw_inflight inflight s' = rw_inflight inflight s"
    if k: "k < length (rw_queue s ! ?n)" and g: "\<And>b. rw_backend (g b) = b" "\<And>b. rw_banks (g b) = rw_banks s"
      "\<And>b. rw_nextBank (g b) = rw_next s bank" "\<And>b. rw_bankMask (g b) = rw_bankMask s"
      "\<And>b. rw_queue (g b) = (rw_queue s)[?n := erase_at k (rw_queue s ! ?n)]"
      "\<And>b. length (rw_reorderCount (g b)) = length (rw_reorderCount s)"
      "\<And>b. length (rw_lastRow (g b)) = length (rw_lastRow s)" for k g
  proof -
    obtain b acc where i: "issue_to B (rw_queue s ! ?n ! k) (rw_backend s) = Inr (b, acc)" using issue_to_total [OF bi] by blast
    note law = issue_to_law [OF bi i]
    show ?thesis using law ok nx i g image_concat_erase [OF n k, of sr_id]
      by (cases acc) (auto simp: rw_ok_def rw_inflight_def)
  qed
  show ?thesis
  proof (cases "if rw_reorderCount s ! ?n \<noteq> rw_maxReqsPerRow s
      then find_first (\<lambda>q. rw_row s q = rw_lastRow s ! ?n) (rw_queue s ! ?n) else None")
    case None
    have "rw_bank B bank s = rw_oldest B bank s" using None by (simp add: rw_bank_def Let_def)
    then show ?thesis unfolding rw_oldest_def Let_def hd_conv_nth [OF ne] using ne
      by (simp only:) (rule take; simp)
  next
    case (Some k)
    then have "rw_bank B bank s = rw_reorder B bank s k" by (simp add: rw_bank_def Let_def)
    moreover have "k < length (rw_queue s ! ?n)" using Some find_first_Some by (auto split: if_splits)
    ultimately show ?thesis unfolding rw_reorder_def Let_def
      by (simp only:) (rule take; simp)
  qed
qed

lemma rw_loop_law:
  assumes "rw_ok binv s" and "bank < rw_banks s"
  shows "\<exists>s'. rw_loop B m bank k s = Inr s' \<and> rw_ok binv s' \<and> rw_inflight inflight s' = rw_inflight inflight s"
  using assms
proof (induction m arbitrary: bank k s)
  case (Suc m)
  have n: "unat bank < length (rw_queue s)" "unat bank < length (rw_reorderCount s)" "unat bank < length (rw_lastRow s)"
    using Suc.prems by (auto simp: rw_ok_def word_less_nat_alt)
  have z: "0 < rw_banks s" using Suc.prems(1) by (simp add: rw_ok_def)
  show ?case
  proof (cases "rw_queue s ! unat bank = []")
    case True
    then show ?thesis using n Suc.IH [OF Suc.prems(1) rw_next_less [OF z]] by simp
  next
    case False
    obtain s' acc where s': "rw_bank B bank s = Inr (s', acc)" "rw_ok binv s'" "rw_banks s' = rw_banks s"
      "rw_inflight inflight s' = rw_inflight inflight s"
      using rw_bank_law [OF Suc.prems False] by blast
    have "rw_next s' bank < rw_banks s'" using rw_next_less z s'(3) by metis
    from Suc.IH [OF s'(2) this] show ?thesis using n False s' by (simp add: Let_def)
  qed
qed simp

lemma rw_issue_law:
  assumes "rw_ok binv s"
  shows "\<exists>s'. rw_issueRequest i a wr n s = Inr (s', True) \<and> rw_ok binv s' \<and>
    rw_inflight inflight s' = add_mset i (rw_inflight inflight s)"
proof -
  have "drop_bit (rw_lineOffset s) a AND ucast (rw_bankMask s) \<le> (ucast (rw_bankMask s) :: u64)" by (rule word_and_le1)
  then have "unat (drop_bit (rw_lineOffset s) a AND ucast (rw_bankMask s)) \<le> unat (rw_banks s - 1)"
    using assms by (simp add: word_le_nat_alt unat_ucast_u32 rw_ok_def)
  also have "\<dots> < unat (rw_banks s)"
  proof -
    have "rw_banks s \<noteq> 0" using assms by (auto simp: rw_ok_def)
    then show ?thesis using unat_minus_one [of "rw_banks s"] unat_gt_0 [of "rw_banks s"] by simp
  qed
  finally have "unat (drop_bit (rw_lineOffset s) a AND ucast (rw_bankMask s)) < length (rw_queue s)"
    using assms by (simp add: rw_ok_def)
  then show ?thesis
    using assms by (simp add: rw_issueRequest_def Let_def rw_ok_def rw_inflight_def image_concat_append)
qed

lemma reorder_row: "total_backend (RequestReorderRow B mx w) (rw_ok binv) (rw_inflight inflight)"
proof
  fix b b' i a wr n ok info xs u k
  assume b: "rw_ok binv b"
  then have bi: "binv (rw_backend b)" by (simp add: rw_ok_def)
  show "\<exists>b' ok. be_issueRequest (RequestReorderRow B mx w) i a wr n b = Inr (b', ok)"
    using rw_issue_law [OF b, of i a wr n] by (auto simp: RequestReorderRow_def)
  show "be_issueRequest (RequestReorderRow B mx w) i a wr n b = Inr (b', ok) \<Longrightarrow>
      rw_ok binv b' \<and> rw_inflight inflight b' = (if ok then add_mset i (rw_inflight inflight b) else rw_inflight inflight b)"
    using rw_issue_law [OF b, of i a wr n] by (auto simp: RequestReorderRow_def)
  show "be_issueCustom (RequestReorderRow B mx w) i info b = Inr (b', ok) \<Longrightarrow>
      rw_ok binv b' \<and> rw_inflight inflight b' = (if ok then add_mset i (rw_inflight inflight b) else rw_inflight inflight b)"
    by (simp add: RequestReorderRow_def noCustom_def)
  show "be_self (RequestReorderRow B mx w) k b = Inr (b', xs) \<Longrightarrow>
      rw_ok binv b' \<and> rw_inflight inflight b = mset xs + rw_inflight inflight b'"
    using b self_law [OF bi, of k] by (auto simp: RequestReorderRow_def rw_ok_def rw_self_def rw_inflight_def wrapper_simps)
  obtain s where s: "(if rw_queue b \<noteq> [] then rw_loop B (unat (rw_banks b)) (rw_nextBank b) 0 b else Inr b) = Inr s"
    "rw_ok binv s" "rw_inflight inflight s = rw_inflight inflight b"
    using rw_loop_law [OF b, of "rw_nextBank b" "unat (rw_banks b)" 0] b
    by (cases "rw_queue b = []") (auto simp: rw_ok_def)
  have si: "binv (rw_backend s)" using s(2) by (simp add: rw_ok_def)
  show "\<exists>b' xs u. be_clock (RequestReorderRow B mx w) b = Inr (b', xs, u)"
    using clock_total [OF si] s(1) by (auto simp: RequestReorderRow_def rw_clock_def simp del: rw_loop.simps)
  show "be_clock (RequestReorderRow B mx w) b = Inr (b', xs, u) \<Longrightarrow>
      rw_ok binv b' \<and> rw_inflight inflight b = mset xs + rw_inflight inflight b'"
    using clock_law [OF si] s(1,2) s(3) [symmetric]
    by (auto simp: RequestReorderRow_def rw_ok_def rw_clock_def rw_inflight_def wrapper_simps simp del: rw_loop.simps)
qed

end

text \<open>The stacks the examples of the repository use: a reorderer or a delay in front of the DRAM model.\<close>

interpretation rrs: total_backend "RequestReorderSimple (SimpleDRAM mx w ms) mx' w'" "rs_ok sd_ok" "rs_inflight sd_inflight"
  for mx w ms mx' w' by (rule sdram.reorder_simple)

interpretation rrw: total_backend "RequestReorderRow (SimpleDRAM mx w ms) mx' w'" "rw_ok sd_ok" "rw_inflight sd_inflight"
  for mx w ms mx' w' by (rule sdram.reorder_row)

interpretation dly: total_backend "DelayBuffer (SimpleDRAM mx w ms) mx' w'" "db_ok sd_ok" "db_inflight sd_inflight"
  for mx w ms mx' w' by (rule sdram.delay_buffer)

section \<open>Properties\<close>

text \<open>
  A cycle of the convertor over any back end that keeps its contract ends, faults only where a
  call of the back end faults, keeps the bookkeeping of convertor and back end in agreement, and
  answers each outstanding event at most once and nothing else: what was outstanding is what was
  answered and what still is. The clock is reported idle only with an empty queue.
\<close>
theorem convertor_answers_once:
  assumes "mem_backend B binv fl" and "binv b" and "conv_ok cv (fl b)"
  shows "\<exists>r. conv_clock B c cv b = Some r \<and> (case r of
      Inl e \<Rightarrow> (\<exists>w q b. binv b \<and> issue B w q b = Inl e) \<or> (\<exists>b. binv b \<and> be_clock B b = Inl e)
    | Inr (cv', b', rs, off) \<Rightarrow> binv b' \<and> conv_ok cv' (fl b') \<and> (off \<longrightarrow> cv_queue cv' = []) \<and>
        distinct (map fst rs) \<and> outstanding cv = fst ` set rs \<union> outstanding cv' \<and>
        fst ` set rs \<inter> outstanding cv' = {})"
proof -
  obtain r where r: "conv_clock B c cv b = Some r" "case r of
      Inl e \<Rightarrow> (\<exists>w q b. binv b \<and> issue B w q b = Inl e) \<or> (\<exists>b. binv b \<and> be_clock B b = Inl e)
    | Inr (cv', b', rs, off) \<Rightarrow> binv b' \<and> conv_ok cv' (fl b') \<and> cv_answers cv rs cv' \<and> (off \<longrightarrow> cv_queue cv' = [])"
    using mem_backend.clock_answers [OF assms] by blast
  then show ?thesis by (intro exI [of _ r]) (auto simp: cv_answers_def split: sum.splits)
qed

text \<open>
  The convertor over the row reorderer over the DRAM model: as long as no custom request is
  pending, a cycle never faults, and every event is answered at most once.
\<close>
theorem dram_stack_never_faults:
  assumes "rw_ok sd_ok b" and "conv_ok cv (rw_inflight sd_inflight b)" and "no_custom cv"
  shows "\<exists>cv' b' rs off. conv_clock (RequestReorderRow (SimpleDRAM mx w ms) mx' w') c cv b = Some (Inr (cv', b', rs, off)) \<and>
    rw_ok sd_ok b' \<and> conv_ok cv' (rw_inflight sd_inflight b') \<and> no_custom cv' \<and> distinct (map fst rs) \<and>
    outstanding cv' = outstanding cv - fst ` set rs"
  using rrw.clock_never_faults [OF assms, of mx w ms mx' w' c] rrw.clock_answers [OF assms(1,2), of mx w ms mx' w' c]
  by (auto simp: cv_answers_def)

text \<open>
  An event of the DRAM's self link frees or closes a bank, answers the piece it carries
  exactly once and never faults: \<open>doResponse\<close> always finds the pending request.
\<close>
theorem dram_response_never_faults:
  assumes "sd_ok d" and "conv_ok cv (sd_inflight d)" and "k < length (sd_link d)"
  shows "\<exists>cv' d' rs. conv_self (SimpleDRAM mx w ms) c k cv d = Inr (cv', d', rs) \<and> sd_ok d' \<and>
    conv_ok cv' (sd_inflight d') \<and> distinct (map fst rs) \<and> fst ` set rs \<subseteq> outstanding cv \<and>
    outstanding cv' = outstanding cv - fst ` set rs"
proof -
  obtain d' where "be_self (SimpleDRAM mx w ms) k d = Inr (d', ctrl_req (snd (sd_link d ! k)))"
    using sd_self_ok [OF assms(1,3)] by (auto simp: SimpleDRAM_def)
  then show ?thesis using sdram.self_answers [OF assms(1,2), of mx w ms k c]
    by (cases "conv_self (SimpleDRAM mx w ms) c k cv d") (auto simp: cv_answers_def)
qed

text \<open>
  \<open>SimpleDRAM::issueRequest\<close> accepts a request exactly when its bank is idle. It then takes
  \<open>tCAS\<close> if the row is open, \<open>tRCD\<close> more if none is, and \<open>tRP\<close> more again if another row is;
  the row is open and the bank busy afterwards, the other banks are as before.
\<close>
theorem dram_bank_timing:
  fixes d :: SDRAM and a :: Addr
  assumes "sd_ok d" and "unat (sd_tCAS d) + unat (sd_tRCD d) + unat (sd_tRP d) < 2 ^ 31"
  defines "n \<equiv> sd_bank d a"
  defines "lat \<equiv> unat (sd_tCAS d) + (if sd_openRow d ! n = sd_row d a then 0
      else if sd_openRow d ! n = -1 then unat (sd_tRCD d) else unat (sd_tRCD d) + unat (sd_tRP d))"
  shows "if sd_busy d ! n then sd_issueRequest i a wr sz d = Inr (d, False)
    else \<exists>d'. sd_issueRequest i a wr sz d = Inr (d', True) \<and> sd_openRow d' ! n = sd_row d a \<and> sd_busy d' ! n \<and>
      (\<forall>m. m \<noteq> n \<longrightarrow> sd_busy d' ! m = sd_busy d ! m \<and> sd_openRow d' ! m = sd_openRow d ! m) \<and>
      sd_link d' = sd_link d @ [(of_nat lat, BankDone n i)]"
proof -
  have n: "n < length (sd_busy d)" "n < length (sd_openRow d)"
    using sd_bank_bound [OF assms(1)] assms(1) by (auto simp: sd_ok_def n_def)
  have small: "(scast (of_nat k :: u32) :: u64) = of_nat k" if "k < 2 ^ 31" for k
    using that scast_u32_small [of "of_nat k"] by (simp add: unsigned_of_nat take_bit_nat_eq_self)
  have down: "(ucast x :: u32) = of_nat (unat x)" for x :: u64 by (simp add: of_nat_unat)
  have s: "(scast (ucast (sd_tCAS d) :: u32) :: u64) = of_nat (unat (sd_tCAS d))"
    "(scast (ucast (sd_tCAS d) + ucast (sd_tRCD d) :: u32) :: u64) = of_nat (unat (sd_tCAS d) + unat (sd_tRCD d))"
    "(scast (ucast (sd_tCAS d) + ucast (sd_tRCD d) + ucast (sd_tRP d) :: u32) :: u64) =
       of_nat (unat (sd_tCAS d) + (unat (sd_tRCD d) + unat (sd_tRP d)))"
    using assms(2) small [of "unat (sd_tCAS d)"] small [of "unat (sd_tCAS d) + unat (sd_tRCD d)"]
      small [of "unat (sd_tCAS d) + unat (sd_tRCD d) + unat (sd_tRP d)"]
    unfolding down by (simp_all add: add.assoc)
  show ?thesis using n s unfolding sd_issueRequest_def Let_def n_def [symmetric] lat_def by auto
qed

text \<open>
  The documentation of \<open>max_requests_per_cycle\<close> says that 0 means no limit. The back end
  \<open>SimpleMemory\<close> overwrites what \<open>MemBackend\<close> made of the parameter, and with 0 the convertor never issues:
  a cycle leaves the queue and the memory as they are.
\<close>
theorem zero_requests_per_cycle_stops:
  "\<exists>cv'. conv_clock (SimpleMemory 0 w ms) c cv b = Some (Inr (cv', b, [], cv_queue cv = [])) \<and>
     cv_queue cv' = cv_queue cv \<and> outstanding cv' = outstanding cv"
proof -
  let ?cv = "cv\<lparr>cv_cycle := cv_cycle cv + 1\<rparr>"
  have "issue_loop (SimpleMemory 0 w ms) 0 ?cv b = Some (Inr (?cv, b))"
    by (subst issue_loop.simps) (simp add: SimpleMemory_def split: list.splits)
  then show ?thesis by (simp add: conv_clock_def SimpleMemory_def)
qed

section \<open>Concrete instances\<close>

lemma Conv_new_ok: "0 < be_reqWidth B \<Longrightarrow> 0 < w \<Longrightarrow> conv_ok (Conv_new B w) {#}"
  by (simp add: conv_ok_def conv_maps_def conv_reqs_def conv_flush_def Conv_new_def pend_def waits_def pend_ids_def flush_ids_def)

lemma Conv_new_outstanding: "outstanding (Conv_new B w) = {}"
  by (simp add: outstanding_def pend_ids_def flush_ids_def waits_def pend_def Conv_new_def)

definition demo_rd :: MemEvent where
  "demo_rd = (demo_event 0 64 GetS)\<lparr>ev_size := 64\<rparr>"

lemma demo_rd_sel [simp]: "eventID demo_rd = (0, 0)" "ev_size demo_rd = 64"
  by (simp_all add: demo_rd_def demo_event_def newMemEvent_def)

definition demo_req :: "u32 \<Rightarrow> BaseReq" where
  "demo_req i = MemR \<lparr>mr_reqId = i, mr_event = demo_rd, mr_offset = 0, mr_numReq = 0\<rparr>"

text \<open>A convertor of width 64 that has taken one load in.\<close>

definition demo_conv :: Conv where
  "demo_conv = enqueue demo_req (Conv_new (SimpleMemory 1 64 1024) 64)"

lemma demo_conv_ok: "conv_ok demo_conv {#}" "outstanding demo_conv = {(0, 0)}"
proof -
  let ?cv = "Conv_new (SimpleMemory 1 64 1024) 64"
  have "conv_ok ?cv {#}" by (rule Conv_new_ok) (simp_all add: SimpleMemory_def)
  moreover have "fresh_req ?cv" by (simp add: fresh_req_def Conv_new_def)
  moreover have "req_ok (cv_width ?cv) True 0 (demo_req i)" for i
    by (simp add: demo_req_def Conv_new_def SimpleMemory_def)
  ultimately show "conv_ok demo_conv {#}" "outstanding demo_conv = {(0, 0)}"
    using enqueue_ok [of ?cv "{#}" demo_req "(0, 0)"]
    by (simp_all add: demo_conv_def Conv_new_outstanding demo_req_def)
qed

lemma demo_conv_view: "cv_queue demo_conv = [0]" "map_find (cv_heap demo_conv) 0 = Some (demo_req 1)" "no_custom demo_conv"
  by (simp_all add: demo_conv_def enqueue_def Let_def Conv_new_def no_custom_def demo_req_def pend_def)

definition demo_dram :: SDRAM where
  "demo_dram = \<lparr>sd_tCAS = 9, sd_tRCD = 9, sd_tRP = 9, sd_lineOffset = 6, sd_rowOffset = 13, sd_bankMask = 7, sd_closed = True,
     sd_busy = replicate 8 False, sd_openRow = replicate 8 (-1), sd_link = []\<rparr>"

lemma demo_dram_new: "SimpleDRAM_new 9 9 9 8 64 8192 ''closed'' = Inr demo_dram"
  by (simp add: SimpleDRAM_new_def isPowerOfTwo_def log2Of.simps demo_dram_def)

lemma demo_dram_ok: "sd_ok demo_dram" "sd_inflight demo_dram = {#}"
  by (simp_all add: sd_ok_def demo_dram_def sd_inflight_def)

definition demo_row :: "SDRAM ReorderRow" where
  "demo_row = \<lparr>rw_backend = demo_dram, rw_maxReqsPerRow = 1, rw_banks = 2, rw_nextBank = 0, rw_bankMask = 1, rw_rowOffset = 13,
     rw_lineOffset = 6, rw_perCycle = -1, rw_queue = [[], []], rw_reorderCount = [1, 1], rw_lastRow = [-1, -1]\<rparr>"

lemma demo_row_ok: "rw_ok sd_ok demo_row" "rw_inflight sd_inflight demo_row = {#}"
  by (simp_all add: rw_ok_def rw_inflight_def demo_row_def demo_dram_ok)

text \<open>The load has gone to the DRAM, which is busy with it.\<close>

definition demo_busy :: SDRAM where
  "demo_busy = demo_dram\<lparr>sd_busy := True # replicate 7 False, sd_openRow := 0 # replicate 7 (-1),
     sd_link := [(18, BankDone 0 (req_id (demo_req 1)))]\<rparr>"

lemma demo_busy_ok: "sd_ok demo_busy" "sd_inflight demo_busy = {#req_id (demo_req 1)#}"
  by (auto simp: sd_ok_def demo_busy_def demo_dram_def sd_inflight_def nth_Cons split: nat.splits)

text \<open>Witness for \<open>convertor_answers_once\<close>: a load, with the constant-latency memory behind it.\<close>

theorem convertor_answers_once_witness:
  "\<exists>r. conv_clock (SimpleMemory 1 64 1024) 1 demo_conv [] = Some r \<and> (case r of
      Inl e \<Rightarrow> (\<exists>w q b. True \<and> issue (SimpleMemory 1 64 1024) w q b = Inl e) \<or> (\<exists>b. True \<and> be_clock (SimpleMemory 1 64 1024) b = Inl e)
    | Inr (cv', b', rs, off) \<Rightarrow> True \<and> conv_ok cv' (mset b') \<and> (off \<longrightarrow> cv_queue cv' = []) \<and>
        distinct (map fst rs) \<and> outstanding demo_conv = fst ` set rs \<union> outstanding cv' \<and>
        fst ` set rs \<inter> outstanding cv' = {})"
  by (rule convertor_answers_once [OF smb.mem_backend_axioms]) (simp_all add: demo_conv_ok)

text \<open>Witness for \<open>dram_stack_never_faults\<close>.\<close>

theorem dram_stack_never_faults_witness:
  "\<exists>cv' b' rs off. conv_clock (RequestReorderRow (SimpleDRAM 1 64 1024) 1 64) 1 demo_conv demo_row = Some (Inr (cv', b', rs, off)) \<and>
    rw_ok sd_ok b' \<and> conv_ok cv' (rw_inflight sd_inflight b') \<and> no_custom cv' \<and> distinct (map fst rs) \<and>
    outstanding cv' = outstanding demo_conv - fst ` set rs"
  by (rule dram_stack_never_faults) (simp_all add: demo_row_ok demo_conv_ok demo_conv_view)

text \<open>Witness for \<open>dram_response_never_faults\<close>: the load comes back.\<close>

theorem dram_response_never_faults_witness:
  "\<exists>cv' d' rs. conv_self (SimpleDRAM 1 64 1024) 1 0 (issued 0 (demo_req 1) demo_conv) demo_busy = Inr (cv', d', rs) \<and> sd_ok d' \<and>
    conv_ok cv' (sd_inflight d') \<and> distinct (map fst rs) \<and>
    fst ` set rs \<subseteq> outstanding (issued 0 (demo_req 1) demo_conv) \<and>
    outstanding cv' = outstanding (issued 0 (demo_req 1) demo_conv) - fst ` set rs"
proof (rule dram_response_never_faults)
  show "conv_ok (issued 0 (demo_req 1) demo_conv) (sd_inflight demo_busy)"
    using issued_ok [OF demo_conv_ok(1), of 0 "[]" "demo_req 1"] by (simp add: demo_conv_view demo_busy_ok)
  show "sd_ok demo_busy" by (rule demo_busy_ok)
  show "0 < length (sd_link demo_busy)" by (simp add: demo_busy_def)
qed

text \<open>Witness for \<open>dram_bank_timing\<close>: a closed row, 18 cycles.\<close>

theorem dram_bank_timing_witness:
  "sd_ok demo_dram \<and> (\<exists>d'. sd_issueRequest 5 64 False 64 demo_dram = Inr (d', True) \<and>
     sd_link d' = [(18, BankDone 1 5)] \<and> sd_openRow d' ! 1 = 0)"
proof
  have "sd_bank demo_dram 64 = 1" "sd_row demo_dram 64 = 0" by (simp_all add: demo_dram_def sd_bank_def sd_row_def)
  then show "\<exists>d'. sd_issueRequest 5 64 False 64 demo_dram = Inr (d', True) \<and>
     sd_link d' = [(18, BankDone 1 5)] \<and> sd_openRow d' ! 1 = 0"
    using dram_bank_timing [OF demo_dram_ok(1), of 64 5 False 64] by (auto simp: demo_dram_def)
qed (rule demo_dram_ok)

end
