(* ===== verification/MemH_Backing.thy ===== *)
theory MemH_Backing
  imports MemH_Lines
begin

unbundle bit_operations_syntax

text \<open>
  \<^verbatim>\<open>memHierarchy/membackend/backing.h\<close>: the two stores that hold the bytes of the simulated
  memory, a mapped buffer and blocks allocated on demand, behind one interface. An access
  outside the mapped buffer or a block is a fault. What \<open>malloc\<close> leaves in a new block is an
  argument of the block store. Sizes of the block store are below \<open>2^31\<close> (see \<open>log2Of\<close>).
\<close>

section \<open>A mapped buffer\<close>

record BackingMMAP =
  mm_buffer :: "u8 list"
  mm_offset :: u64

definition mm_put :: "u64 \<Rightarrow> u8 \<Rightarrow> BackingMMAP \<Rightarrow> BackingMMAP res" where
  "mm_put i v m = (if unat i < length (mm_buffer m) then Inr (m\<lparr>mm_buffer := (mm_buffer m)[unat i := v]\<rparr>) else Inl OutOfRange)"

definition mm_at :: "u64 \<Rightarrow> BackingMMAP \<Rightarrow> u8 res" where
  "mm_at i m = (if unat i < length (mm_buffer m) then Inr (mm_buffer m ! unat i) else Inl OutOfRange)"

definition mm_set1 :: "Addr \<Rightarrow> u8 \<Rightarrow> BackingMMAP \<Rightarrow> BackingMMAP res" where
  "mm_set1 adr v m = mm_put (adr - mm_offset m) v m"

definition mm_get1 :: "Addr \<Rightarrow> BackingMMAP \<Rightarrow> u8 res" where
  "mm_get1 adr m = mm_at (adr - mm_offset m) m"

text \<open>The two loops do not subtract the offset.\<close>

fun mm_set_loop :: "Addr \<Rightarrow> u8 list \<Rightarrow> BackingMMAP \<Rightarrow> BackingMMAP res" where
  "mm_set_loop adr [] m = Inr m"
| "mm_set_loop adr (d # ds) m = bindE (mm_put adr d m) (mm_set_loop (adr + 1) ds)"

fun mm_get_loop :: "Addr \<Rightarrow> nat \<Rightarrow> BackingMMAP \<Rightarrow> u8 list res" where
  "mm_get_loop adr 0 m = Inr []"
| "mm_get_loop adr (Suc n) m = bindE (mm_at adr m) (\<lambda>d. bindE (mm_get_loop (adr + 1) n m) (\<lambda>ds. Inr (d # ds)))"

section \<open>Blocks on demand\<close>

record BackingMalloc =
  ml_buffer :: "(u64, u8 list) stdmap"
  allocUnit :: u32
  ml_shift :: nat
  ml_init :: bool
  ml_fresh :: "Addr \<Rightarrow> nat \<Rightarrow> u8"

definition Malloc_new :: "(Addr \<Rightarrow> nat \<Rightarrow> u8) \<Rightarrow> u64 \<Rightarrow> bool \<Rightarrow> BackingMalloc res" where
  "Malloc_new fresh sz init =
     (let unit = ucast sz :: u32 in
      if \<not> isPowerOfTwo unit then Inl (Fatal ''BackingMalloc'')
      else Inr \<lparr>ml_buffer = [], allocUnit = unit, ml_shift = log2Of (unat unit), ml_init = init, ml_fresh = fresh\<rparr>)"

definition new_block :: "BackingMalloc \<Rightarrow> Addr \<Rightarrow> u8 list" where
  "new_block m b = map (\<lambda>i. if ml_init m then 0 else ml_fresh m b i) [0..<unat (allocUnit m)]"

definition allocIfNeeded :: "Addr \<Rightarrow> BackingMalloc \<Rightarrow> BackingMalloc" where
  "allocIfNeeded b m = (case map_find (ml_buffer m) b of
     None \<Rightarrow> m\<lparr>ml_buffer := map_set b (new_block m b) (ml_buffer m)\<rparr> | Some _ \<Rightarrow> m)"

definition block_put :: "Addr \<Rightarrow> u64 \<Rightarrow> u8 \<Rightarrow> BackingMalloc \<Rightarrow> BackingMalloc res" where
  "block_put b off v m = (case map_find (ml_buffer m) b of
     None \<Rightarrow> Inl NullDeref
   | Some blk \<Rightarrow> if unat off < length blk
                 then Inr (m\<lparr>ml_buffer := map_set b (blk[unat off := v]) (ml_buffer m)\<rparr>) else Inl OutOfRange)"

definition block_at :: "Addr \<Rightarrow> u64 \<Rightarrow> BackingMalloc \<Rightarrow> u8 res" where
  "block_at b off m = (case map_find (ml_buffer m) b of
     None \<Rightarrow> Inl NullDeref | Some blk \<Rightarrow> if unat off < length blk then Inr (blk ! unat off) else Inl OutOfRange)"

definition ml_block :: "BackingMalloc \<Rightarrow> Addr \<Rightarrow> Addr" where
  "ml_block m adr = drop_bit (ml_shift m) adr"

definition ml_off :: "BackingMalloc \<Rightarrow> Addr \<Rightarrow> u64" where
  "ml_off m adr = adr - push_bit (ml_shift m) (ml_block m adr)"

definition ml_set1 :: "Addr \<Rightarrow> u8 \<Rightarrow> BackingMalloc \<Rightarrow> BackingMalloc res" where
  "ml_set1 adr v m = block_put (ml_block m adr) (ml_off m adr) v (allocIfNeeded (ml_block m adr) m)"

definition ml_get1 :: "Addr \<Rightarrow> BackingMalloc \<Rightarrow> (BackingMalloc \<times> u8) res" where
  "ml_get1 adr m = (let m1 = allocIfNeeded (ml_block m adr) m in
     bindE (block_at (ml_block m adr) (ml_off m adr) m1) (\<lambda>v. Inr (m1, v)))"

fun ml_set_loop :: "Addr \<Rightarrow> u64 \<Rightarrow> u8 list \<Rightarrow> BackingMalloc \<Rightarrow> BackingMalloc res" where
  "ml_set_loop b off [] m = Inr m"
| "ml_set_loop b off (d # ds) m = bindE (block_put b off d m) (\<lambda>m.
     if off + 1 = ucast (allocUnit m) then ml_set_loop (b + 1) 0 ds (allocIfNeeded (b + 1) m)
     else ml_set_loop b (off + 1) ds m)"

fun ml_get_loop :: "Addr \<Rightarrow> u64 \<Rightarrow> nat \<Rightarrow> BackingMalloc \<Rightarrow> (BackingMalloc \<times> u8 list) res" where
  "ml_get_loop b off 0 m = Inr (m, [])"
| "ml_get_loop b off (Suc n) m = bindE (block_at b off m) (\<lambda>d.
     bindE (if off + 1 = ucast (allocUnit m) then ml_get_loop (b + 1) 0 n (allocIfNeeded (b + 1) m)
            else ml_get_loop b (off + 1) n m) (\<lambda>(m, ds). Inr (m, d # ds)))"

section \<open>The interface of the two\<close>

text \<open>
  The virtual calls. \<open>set\<close> takes the first \<open>size\<close> bytes of a vector, \<open>get\<close> overwrites the
  first \<open>size\<close> bytes of one; both leave the vector when it is shorter.
\<close>

datatype Backing = MMAP BackingMMAP | Malloc BackingMalloc

primrec bk_set1 :: "Addr \<Rightarrow> u8 \<Rightarrow> Backing \<Rightarrow> Backing res" where
  "bk_set1 adr v (MMAP m) = bindE (mm_set1 adr v m) (\<lambda>m. Inr (MMAP m))"
| "bk_set1 adr v (Malloc m) = bindE (ml_set1 adr v m) (\<lambda>m. Inr (Malloc m))"

primrec bk_get1 :: "Addr \<Rightarrow> Backing \<Rightarrow> (Backing \<times> u8) res" where
  "bk_get1 adr (MMAP m) = bindE (mm_get1 adr m) (\<lambda>v. Inr (MMAP m, v))"
| "bk_get1 adr (Malloc m) = bindE (ml_get1 adr m) (\<lambda>(m, v). Inr (Malloc m, v))"

primrec bk_store :: "Addr \<Rightarrow> u8 list \<Rightarrow> Backing \<Rightarrow> Backing res" where
  "bk_store adr ds (MMAP m) = bindE (mm_set_loop adr ds m) (\<lambda>m. Inr (MMAP m))"
| "bk_store adr ds (Malloc m) =
     bindE (ml_set_loop (ml_block m adr) (ml_off m adr) ds (allocIfNeeded (ml_block m adr) m)) (\<lambda>m. Inr (Malloc m))"

primrec bk_load :: "Addr \<Rightarrow> nat \<Rightarrow> Backing \<Rightarrow> (Backing \<times> u8 list) res" where
  "bk_load adr n (MMAP m) = bindE (mm_get_loop adr n m) (\<lambda>ds. Inr (MMAP m, ds))"
| "bk_load adr n (Malloc m) =
     bindE (ml_get_loop (ml_block m adr) (ml_off m adr) n (allocIfNeeded (ml_block m adr) m)) (\<lambda>(m, ds). Inr (Malloc m, ds))"

definition bk_set :: "Addr \<Rightarrow> nat \<Rightarrow> u8 list \<Rightarrow> Backing \<Rightarrow> Backing res" where
  "bk_set adr sz data b = bindE (vec_slice data 0 sz) (\<lambda>ds. bk_store adr ds b)"

definition bk_get :: "Addr \<Rightarrow> nat \<Rightarrow> u8 list \<Rightarrow> Backing \<Rightarrow> (Backing \<times> u8 list) res" where
  "bk_get adr sz data b = (if length data < sz then Inl OutOfRange
     else bindE (bk_load adr sz b) (\<lambda>(b, ds). Inr (b, ds @ drop sz data)))"

section \<open>What a client relies on\<close>

text \<open>
  \<open>held b x\<close>: address \<open>x\<close> is backed. \<open>contents b x\<close>: the byte a read of it gives. Writes of a
  range that does not run past the end of the address space change exactly the range.
\<close>

definition patch :: "nat \<Rightarrow> u8 list \<Rightarrow> (nat \<Rightarrow> u8) \<Rightarrow> nat \<Rightarrow> u8" where
  "patch a ds f x = (if a \<le> x \<and> x < a + length ds then ds ! (x - a) else f x)"

lemma patch_Nil [simp]: "patch a [] f = f"
  by (rule ext) (auto simp: patch_def)

lemma patch_Cons: "patch a (d # ds) f = patch (Suc a) ds (f(a := d))"
  by (rule ext) (auto simp: patch_def nth_Cons' not_less_eq_eq Suc_diff_le le_Suc_eq)

lemma patch_hit: "map (patch a ds f) [a..<a + length ds] = ds"
  by (rule nth_equalityI) (simp_all add: patch_def)

lemma patch_miss: "y + n \<le> a \<or> a + length ds \<le> y \<Longrightarrow> map (patch a ds f) [y..<y + n] = map f [y..<y + n]"
  by (auto simp: patch_def)

locale backing_store =
  fixes store :: "Addr \<Rightarrow> u8 list \<Rightarrow> 'b \<Rightarrow> 'b res"
    and load :: "Addr \<Rightarrow> nat \<Rightarrow> 'b \<Rightarrow> ('b \<times> u8 list) res"
    and inv :: "'b \<Rightarrow> bool"
    and held :: "'b \<Rightarrow> nat \<Rightarrow> bool"
    and contents :: "'b \<Rightarrow> nat \<Rightarrow> u8"
  assumes store_ok: "inv b \<Longrightarrow> \<forall>x. unat a \<le> x \<and> x < unat a + length ds \<longrightarrow> held b x \<Longrightarrow> unat a + length ds \<le> 2 ^ 64 \<Longrightarrow>
      \<exists>b'. store a ds b = Inr b' \<and> inv b' \<and> held b' = held b \<and> contents b' = patch (unat a) ds (contents b)"
    and load_ok: "inv b \<Longrightarrow> \<forall>x. unat a \<le> x \<and> x < unat a + n \<longrightarrow> held b x \<Longrightarrow> unat a + n \<le> 2 ^ 64 \<Longrightarrow>
      \<exists>b'. load a n b = Inr (b', map (contents b) [unat a..<unat a + n]) \<and> inv b' \<and> held b' = held b \<and> contents b' = contents b"
begin

text \<open>What is written is read back, and a disjoint range is undisturbed.\<close>

lemma load_store:
  assumes "inv b" and "\<forall>x. unat a \<le> x \<and> x < unat a + length ds \<longrightarrow> held b x" and "unat a + length ds \<le> 2 ^ 64"
  shows "\<exists>b' b''. store a ds b = Inr b' \<and> load a (length ds) b' = Inr (b'', ds)"
proof -
  from store_ok [OF assms] obtain b' where b': "store a ds b = Inr b'" "inv b'" "held b' = held b"
    "contents b' = patch (unat a) ds (contents b)" by blast
  with load_ok [OF b'(2), of a "length ds"] assms show ?thesis by (auto simp: patch_hit)
qed

lemma load_store_other:
  assumes "inv b" and "\<forall>x. unat a \<le> x \<and> x < unat a + length ds \<longrightarrow> held b x" and "unat a + length ds \<le> 2 ^ 64"
    and "\<forall>x. unat c \<le> x \<and> x < unat c + n \<longrightarrow> held b x" and "unat c + n \<le> 2 ^ 64"
    and "unat c + n \<le> unat a \<or> unat a + length ds \<le> unat c"
  shows "\<exists>b' b'' b3 old. store a ds b = Inr b' \<and> load c n b = Inr (b3, old) \<and> load c n b' = Inr (b'', old)"
proof -
  from store_ok [OF assms(1-3)] obtain b' where b': "store a ds b = Inr b'" "inv b'" "held b' = held b"
    "contents b' = patch (unat a) ds (contents b)" by blast
  from load_ok [OF assms(1,4,5)] load_ok [OF b'(2), of c n] assms(4-6) b' show ?thesis
    by (auto simp: patch_miss)
qed

end

section \<open>The mapped buffer implements it\<close>

lemma unat_plus_one: "unat (a :: u64) + 1 < 2 ^ 64 \<Longrightarrow> unat (a + 1) = unat a + 1"
  using unat_add_u64 [of a 1] by simp

lemma mm_set_loop_ok:
  "unat a + length ds \<le> length (mm_buffer m) \<Longrightarrow> unat a + length ds \<le> 2 ^ 64 \<Longrightarrow>
   \<exists>m'. mm_set_loop a ds m = Inr m' \<and> length (mm_buffer m') = length (mm_buffer m) \<and> mm_offset m' = mm_offset m \<and>
     (\<lambda>x. mm_buffer m' ! x) = patch (unat a) ds (\<lambda>x. mm_buffer m ! x)"
proof (induction ds arbitrary: a m)
  case Nil
  then show ?case by simp
next
  case (Cons d ds)
  define m1 where "m1 = m\<lparr>mm_buffer := (mm_buffer m)[unat a := d]\<rparr>"
  have put: "mm_put a d m = Inr m1" using Cons.prems by (simp add: mm_put_def m1_def)
  have nth: "(\<lambda>x. mm_buffer m1 ! x) = (\<lambda>x. mm_buffer m ! x)(unat a := d)"
    using Cons.prems by (auto simp: m1_def fun_eq_iff nth_list_update)
  show ?case
  proof (cases ds)
    case Nil
    then show ?thesis using put nth by (simp add: patch_Cons m1_def fun_upd_def)
  next
    case (Cons e es)
    then have s: "unat (a + 1) = Suc (unat a)" using Cons.prems(2) unat_plus_one [of a] by simp
    from Cons.IH [of "a + 1" m1] Cons.prems obtain m' where "mm_set_loop (a + 1) ds m1 = Inr m'"
      "length (mm_buffer m') = length (mm_buffer m)" "mm_offset m' = mm_offset m"
      "(\<lambda>x. mm_buffer m' ! x) = patch (unat (a + 1)) ds (\<lambda>x. mm_buffer m1 ! x)" by (auto simp: s m1_def)
    then show ?thesis using put nth by (simp add: patch_Cons s fun_upd_def)
  qed
qed

lemma mm_get_loop_ok:
  "unat a + n \<le> length (mm_buffer m) \<Longrightarrow> unat a + n \<le> 2 ^ 64 \<Longrightarrow>
   mm_get_loop a n m = Inr (map (\<lambda>x. mm_buffer m ! x) [unat a..<unat a + n])"
proof (induction n arbitrary: a)
  case 0
  then show ?case by simp
next
  case (Suc n)
  show ?case
  proof (cases n)
    case 0
    then show ?thesis using Suc.prems by (simp add: mm_at_def)
  next
    case (Suc k)
    then have s: "unat (a + 1) = Suc (unat a)" using Suc.prems(2) unat_plus_one [of a] by simp
    then show ?thesis using Suc.IH [of "a + 1"] Suc.prems by (simp add: mm_at_def upt_conv_Cons del: upt_Suc)
  qed
qed

section \<open>The block store implements it\<close>

definition ml_ok :: "BackingMalloc \<Rightarrow> bool" where
  "ml_ok m \<longleftrightarrow> ml_shift m < 32 \<and> unat (allocUnit m) = 2 ^ ml_shift m \<and>
     (\<forall>b blk. map_find (ml_buffer m) b = Some blk \<longrightarrow> length blk = 2 ^ ml_shift m)"

definition ml_blk :: "BackingMalloc \<Rightarrow> Addr \<Rightarrow> u8 list" where
  "ml_blk m b = (case map_find (ml_buffer m) b of None \<Rightarrow> new_block m b | Some blk \<Rightarrow> blk)"

definition ml_contents :: "BackingMalloc \<Rightarrow> nat \<Rightarrow> u8" where
  "ml_contents m x = (if x < 2 ^ 64 then ml_blk m (of_nat (x div 2 ^ ml_shift m)) ! (x mod 2 ^ ml_shift m) else 0)"

lemma Malloc_new_ok: "Malloc_new fresh (2 ^ k) init = Inr m \<Longrightarrow> k < 31 \<Longrightarrow> ml_ok m"
proof -
  assume a: "Malloc_new fresh (2 ^ k) init = Inr m" "k < 31"
  have "(2 :: nat) ^ k < 2 ^ 32" using a(2) by (intro power_strict_increasing) auto
  moreover have "unat (2 ^ k :: u64) = 2 ^ k"
  proof -
    have "(2 :: nat) ^ k < 2 ^ 64" using a(2) by (intro power_strict_increasing) auto
    then have "unat (of_nat (2 ^ k) :: u64) = 2 ^ k" by (simp only: unat_of_nat) simp
    then show ?thesis by simp
  qed
  ultimately have "unat (ucast (2 ^ k :: u64) :: u32) = 2 ^ k"
    using a(2) by (simp add: unsigned_ucast_eq take_bit_nat_eq_self)
  with a show ?thesis by (auto simp: Malloc_new_def Let_def ml_ok_def log2Of_pow2 split: if_splits)
qed

lemma alloc_keeps [simp]:
  "ml_shift (allocIfNeeded b m) = ml_shift m" "allocUnit (allocIfNeeded b m) = allocUnit m"
  "ml_init (allocIfNeeded b m) = ml_init m" "ml_fresh (allocIfNeeded b m) = ml_fresh m"
  by (simp_all add: allocIfNeeded_def split: option.splits)

lemma alloc_blk [simp]: "ml_blk (allocIfNeeded b m) c = ml_blk m c"
  by (auto simp: ml_blk_def allocIfNeeded_def new_block_def split: option.splits)

lemma alloc_contents [simp]: "ml_contents (allocIfNeeded b m) = ml_contents m"
  by (rule ext) (simp add: ml_contents_def)

lemma alloc_ok: "ml_ok m \<Longrightarrow> ml_ok (allocIfNeeded b m)"
  by (auto simp: ml_ok_def allocIfNeeded_def new_block_def split: option.splits if_splits)

lemma alloc_find: "map_find (ml_buffer (allocIfNeeded b m)) b = Some (ml_blk m b)"
  by (auto simp: allocIfNeeded_def ml_blk_def split: option.splits)

lemma alloc_find_other: "map_find (ml_buffer m) c \<noteq> None \<Longrightarrow> map_find (ml_buffer (allocIfNeeded b m)) c \<noteq> None"
  by (auto simp: allocIfNeeded_def split: option.splits)

lemma of_nat_div_inj:
  assumes "x < 2 ^ 64" and "of_nat (x div 2 ^ k) = (b :: u64)" and "unat b * 2 ^ k + o' < 2 ^ 64" and "o' < 2 ^ k" and "x mod 2 ^ k = o'"
  shows "x = unat b * 2 ^ k + o'"
proof -
  have "x div 2 ^ k \<le> x" by simp
  then have "x div 2 ^ k < 2 ^ 64" using assms(1) by (rule le_less_trans)
  then have "unat (of_nat (x div 2 ^ k) :: u64) = x div 2 ^ k" by (simp add: unat_of_nat)
  then have "unat b = x div 2 ^ k" using assms(2) by simp
  then show ?thesis using assms(5) div_mult_mod_eq [of x "2 ^ k"] by (simp add: mult.commute)
qed

lemma block_put_ok:
  assumes "ml_ok m" and "map_find (ml_buffer m) b = Some blk" and "unat off < 2 ^ ml_shift m"
    and "unat b * 2 ^ ml_shift m + unat off < 2 ^ 64"
  shows "\<exists>m'. block_put b off v m = Inr m' \<and> ml_ok m' \<and> map_find (ml_buffer m') b \<noteq> None \<and> ml_shift m' = ml_shift m \<and>
     allocUnit m' = allocUnit m \<and> ml_contents m' = (ml_contents m)(unat b * 2 ^ ml_shift m + unat off := v)"
proof -
  define m' where "m' = m\<lparr>ml_buffer := map_set b (blk[unat off := v]) (ml_buffer m)\<rparr>"
  have len: "length blk = 2 ^ ml_shift m" using assms(1,2) by (auto simp: ml_ok_def)
  have put: "block_put b off v m = Inr m'" using assms(2,3) len by (simp add: block_put_def m'_def)
  let ?k = "ml_shift m" and ?p = "unat b * 2 ^ ml_shift m + unat off"
  have blk': "ml_blk m' c = (if c = b then blk[unat off := v] else ml_blk m c)" for c
    using assms(2) by (auto simp: ml_blk_def m'_def new_block_def split: option.splits)
  have sh: "ml_shift m' = ?k" by (simp add: m'_def)
  have div: "?p div 2 ^ ?k = unat b" and md: "?p mod 2 ^ ?k = unat off" using assms(3) by simp_all
  have "ml_contents m' x = ((ml_contents m)(?p := v)) x" for x
  proof (cases "x = ?p")
    case True
    then show ?thesis using assms(3,4) len unfolding ml_contents_def sh blk' True
      by (simp add: div md del: div_mult_self1 div_mult_self2 mod_mult_self1 mod_mult_self2)
  next
    case False
    show ?thesis
    proof (cases "x < 2 ^ 64 \<and> of_nat (x div 2 ^ ?k) = b")
      case True
      with False of_nat_div_inj [OF _ _ assms(4,3), of x] have "x mod 2 ^ ?k \<noteq> unat off" by auto
      with True False len assms(2) show ?thesis
        unfolding ml_contents_def sh blk' by (simp add: ml_blk_def nth_list_update)
    next
      case no: False
      with False show ?thesis unfolding ml_contents_def sh blk' by auto
    qed
  qed
  moreover have "ml_ok m'" using assms(1) len by (auto simp: ml_ok_def m'_def split: if_splits)
  ultimately show ?thesis using put by (auto simp: m'_def fun_eq_iff)
qed


lemma block_at_ok:
  assumes "ml_ok m" and "map_find (ml_buffer m) b \<noteq> None" and "unat off < 2 ^ ml_shift m"
    and "unat b * 2 ^ ml_shift m + unat off < 2 ^ 64"
  shows "block_at b off m = Inr (ml_contents m (unat b * 2 ^ ml_shift m + unat off))"
proof -
  obtain blk where b: "map_find (ml_buffer m) b = Some blk" using assms(2) by auto
  then have "length blk = 2 ^ ml_shift m" using assms(1) by (auto simp: ml_ok_def)
  then show ?thesis using assms(3,4) b by (simp add: block_at_def ml_contents_def ml_blk_def)
qed

text \<open>One step of either loop moves to the next address.\<close>

lemma next_in_block:
  assumes "ml_ok m" and "unat (off :: u64) < 2 ^ ml_shift m"
  shows "off + 1 = ucast (allocUnit m) \<longleftrightarrow> Suc (unat off) = 2 ^ ml_shift m"
    and "off + 1 \<noteq> ucast (allocUnit m) \<Longrightarrow> unat (off + 1) = Suc (unat off) \<and> Suc (unat off) < 2 ^ ml_shift m"
proof -
  have "(2 :: nat) ^ ml_shift m \<le> 2 ^ 32" using assms(1) by (intro power_increasing) (auto simp: ml_ok_def)
  then have s: "unat (off + 1) = Suc (unat off)" using assms(2) unat_plus_one [of off] by simp
  have u: "unat (ucast (allocUnit m) :: u64) = 2 ^ ml_shift m" using assms(1) by (simp add: unat_ucast_u32 ml_ok_def)
  show e: "off + 1 = ucast (allocUnit m) \<longleftrightarrow> Suc (unat off) = 2 ^ ml_shift m"
    using s u by (simp add: word_eq_iff_unsigned [where ?'a = nat])
  show "off + 1 \<noteq> ucast (allocUnit m) \<Longrightarrow> unat (off + 1) = Suc (unat off) \<and> Suc (unat off) < 2 ^ ml_shift m"
    using s e assms(2) by auto
qed

lemma next_block:
  assumes "unat (b :: u64) * 2 ^ k + unat (off :: u64) + 1 < 2 ^ 64" and "Suc (unat off) = 2 ^ k"
  shows "unat (b + 1) * 2 ^ k = unat b * 2 ^ k + unat off + 1"
proof -
  have "unat b * 1 \<le> unat b * 2 ^ k" by (intro mult_le_mono2) simp
  then have "unat (b + 1) = unat b + 1" using assms(1) by (intro unat_plus_one) linarith
  then show ?thesis using assms(2) by simp
qed

lemma ml_set_loop_ok:
  "ml_ok m \<Longrightarrow> map_find (ml_buffer m) b \<noteq> None \<Longrightarrow> unat off < 2 ^ ml_shift m \<Longrightarrow>
   unat b * 2 ^ ml_shift m + unat off + length ds \<le> 2 ^ 64 \<Longrightarrow>
   \<exists>m'. ml_set_loop b off ds m = Inr m' \<and> ml_ok m' \<and>
     ml_contents m' = patch (unat b * 2 ^ ml_shift m + unat off) ds (ml_contents m)"
proof (induction ds arbitrary: b off m)
  case Nil
  then show ?case by simp
next
  case (Cons d ds)
  let ?p = "unat b * 2 ^ ml_shift m + unat off"
  obtain blk where "map_find (ml_buffer m) b = Some blk" using Cons.prems(2) by auto
  then obtain m1 where m1: "block_put b off d m = Inr m1" "ml_ok m1" "map_find (ml_buffer m1) b \<noteq> None" "ml_shift m1 = ml_shift m"
      "allocUnit m1 = allocUnit m" "ml_contents m1 = (ml_contents m)(?p := d)"
    using block_put_ok [OF Cons.prems(1), of b blk off d] Cons.prems(3,4) by auto
  note nx = next_in_block [OF m1(2), of off, unfolded m1(4), OF Cons.prems(3)]
  show ?case
  proof (cases "off + 1 = ucast (allocUnit m1)")
    case True
    define m2 where "m2 = allocIfNeeded (b + 1) m1"
    have m2: "ml_ok m2" "map_find (ml_buffer m2) (b + 1) \<noteq> None" "ml_shift m2 = ml_shift m" "ml_contents m2 = (ml_contents m)(?p := d)"
      using m1 by (simp_all add: m2_def alloc_ok alloc_find)
    show ?thesis
    proof (cases ds)
      case Nil
      then show ?thesis using True m1(1) m2 by (simp add: m2_def patch_Cons fun_upd_def)
    next
      case (Cons e es)
      have nb: "unat (b + 1) * 2 ^ ml_shift m = Suc ?p"
        using next_block [of b "ml_shift m" off] nx(1) True Cons.prems(4) Cons by simp
      have "0 < (2 :: nat) ^ ml_shift m" by simp
      then obtain m' where "ml_set_loop (b + 1) 0 ds m2 = Inr m'" "ml_ok m'"
          "ml_contents m' = patch (unat (b + 1) * 2 ^ ml_shift m2 + unat (0 :: u64)) ds (ml_contents m2)"
        using Cons.IH [OF m2(1,2), of 0] Cons.prems(4) nb m2(3) by auto
      then show ?thesis using True m1(1) m2 nb by (simp add: m2_def patch_Cons fun_upd_def)
    qed
  next
    case False
    with nx(2) have "unat (off + 1) = Suc (unat off)" "Suc (unat off) < 2 ^ ml_shift m" by auto
    then obtain m' where "ml_set_loop b (off + 1) ds m1 = Inr m'" "ml_ok m'"
        "ml_contents m' = patch (Suc ?p) ds (ml_contents m1)"
      using Cons.IH [OF m1(2,3), of "off + 1"] Cons.prems(4) m1(4) by auto
    then show ?thesis using False m1 by (simp add: patch_Cons fun_upd_def)
  qed
qed

lemma ml_get_loop_ok:
  "ml_ok m \<Longrightarrow> map_find (ml_buffer m) b \<noteq> None \<Longrightarrow> unat off < 2 ^ ml_shift m \<Longrightarrow>
   unat b * 2 ^ ml_shift m + unat off + n \<le> 2 ^ 64 \<Longrightarrow> p = unat b * 2 ^ ml_shift m + unat off \<Longrightarrow>
   \<exists>m'. ml_get_loop b off n m = Inr (m', map (ml_contents m) [p..<p + n]) \<and> ml_ok m' \<and> ml_contents m' = ml_contents m"
proof (induction n arbitrary: b off m p)
  case 0
  then show ?case by simp
next
  case (Suc n)
  have d: "block_at b off m = Inr (ml_contents m p)" using block_at_ok [OF Suc.prems(1-3)] Suc.prems(4,5) by simp
  have up: "[p..<p + Suc n] = p # [Suc p..<Suc p + n]" by (simp add: upt_conv_Cons del: upt_Suc)
  note nx = next_in_block [OF Suc.prems(1,3)]
  show ?case
  proof (cases "off + 1 = ucast (allocUnit m)")
    case True
    define m2 where "m2 = allocIfNeeded (b + 1) m"
    have m2: "ml_ok m2" "map_find (ml_buffer m2) (b + 1) \<noteq> None" "ml_shift m2 = ml_shift m" "ml_contents m2 = ml_contents m"
      using Suc.prems by (simp_all add: m2_def alloc_ok alloc_find)
    show ?thesis
    proof (cases n)
      case 0
      then show ?thesis using True d m2 up by (simp add: m2_def)
    next
      case (Suc k)
      have nb: "unat (b + 1) * 2 ^ ml_shift m = Suc p"
        using next_block [of b "ml_shift m" off] nx(1) True Suc.prems(4,5) Suc by simp
      then obtain m' where "ml_get_loop (b + 1) 0 n m2 = Inr (m', map (ml_contents m2) [Suc p..<Suc p + n])" "ml_ok m'"
          "ml_contents m' = ml_contents m2"
        using Suc.IH [OF m2(1,2), of 0 "Suc p"] Suc.prems(4,5) m2(3) by auto
      then show ?thesis using True d m2 up by (simp add: m2_def)
    qed
  next
    case False
    with nx(2) have "unat (off + 1) = Suc (unat off)" "Suc (unat off) < 2 ^ ml_shift m" by auto
    then obtain m' where "ml_get_loop b (off + 1) n m = Inr (m', map (ml_contents m) [Suc p..<Suc p + n])" "ml_ok m'"
        "ml_contents m' = ml_contents m"
      using Suc.IH [OF Suc.prems(1,2), of "off + 1" "Suc p"] Suc.prems(4,5) by auto
    then show ?thesis using False d up by simp
  qed
qed

lemma ml_split: "unat (ml_block m a) * 2 ^ ml_shift m + unat (ml_off m a) = unat a \<and> unat (ml_off m a) < 2 ^ ml_shift m"
proof -
  have "ml_off m a = take_bit (ml_shift m) a"
    using bits_ident [of "ml_shift m" a] by (simp add: ml_off_def ml_block_def algebra_simps)
  then have "unat (ml_off m a) = unat a mod 2 ^ ml_shift m" by (simp add: unsigned_take_bit_eq take_bit_eq_mod [of _ "unat a"])
  moreover have "unat (ml_block m a) = unat a div 2 ^ ml_shift m" by (simp add: ml_block_def unat_drop_bit_eq drop_bit_eq_div [of _ "unat a"])
  ultimately show ?thesis by (simp add: mult.commute)
qed

section \<open>The interpretation\<close>

primrec bk_inv :: "Backing \<Rightarrow> bool" where
  "bk_inv (MMAP m) \<longleftrightarrow> True"
| "bk_inv (Malloc m) \<longleftrightarrow> ml_ok m"

primrec bk_held :: "Backing \<Rightarrow> nat \<Rightarrow> bool" where
  "bk_held (MMAP m) x \<longleftrightarrow> x < length (mm_buffer m)"
| "bk_held (Malloc m) x \<longleftrightarrow> True"

primrec bk_contents :: "Backing \<Rightarrow> nat \<Rightarrow> u8" where
  "bk_contents (MMAP m) x = mm_buffer m ! x"
| "bk_contents (Malloc m) x = ml_contents m x"

lemma bk_fun [simp]: "bk_contents (MMAP m) = (\<lambda>x. mm_buffer m ! x)" "bk_contents (Malloc l) = ml_contents l"
  "bk_held (MMAP m) = (\<lambda>x. x < length (mm_buffer m))" "bk_held (Malloc l) = (\<lambda>x. True)"
  by (simp_all add: fun_eq_iff)

declare bk_contents.simps [simp del] bk_held.simps [simp del]

interpretation bk: backing_store bk_store bk_load bk_inv bk_held bk_contents
proof unfold_locales
  fix b and a :: Addr and ds :: "u8 list"
  assume b: "bk_inv b" "\<forall>x. unat a \<le> x \<and> x < unat a + length ds \<longrightarrow> bk_held b x" "unat a + length ds \<le> 2 ^ 64"
  show "\<exists>b'. bk_store a ds b = Inr b' \<and> bk_inv b' \<and> bk_held b' = bk_held b \<and> bk_contents b' = patch (unat a) ds (bk_contents b)"
  proof (cases b)
    case (MMAP m)
    have "ds = [] \<or> unat a + length ds \<le> length (mm_buffer m)"
      using spec [OF b(2), of "unat a + length ds - 1"] MMAP by (cases ds) auto
    then show ?thesis using mm_set_loop_ok [of a ds m] b(3) MMAP by auto
  next
    case (Malloc m)
    let ?m = "allocIfNeeded (ml_block m a) m"
    obtain m' where "ml_set_loop (ml_block m a) (ml_off m a) ds ?m = Inr m'" "ml_ok m'" "ml_contents m' = patch (unat a) ds (ml_contents m)"
      using ml_set_loop_ok [of ?m "ml_block m a" "ml_off m a" ds] ml_split [of m a] b Malloc
      by (auto simp: alloc_ok alloc_find)
    then show ?thesis using Malloc by auto
  qed
next
  fix b and a :: Addr and n
  assume b: "bk_inv b" "\<forall>x. unat a \<le> x \<and> x < unat a + n \<longrightarrow> bk_held b x" "unat a + n \<le> 2 ^ 64"
  show "\<exists>b'. bk_load a n b = Inr (b', map (bk_contents b) [unat a..<unat a + n]) \<and> bk_inv b' \<and> bk_held b' = bk_held b \<and> bk_contents b' = bk_contents b"
  proof (cases b)
    case (MMAP m)
    have "n = 0 \<or> unat a + n \<le> length (mm_buffer m)"
      using spec [OF b(2), of "unat a + n - 1"] MMAP by (cases n) auto
    then show ?thesis using mm_get_loop_ok [of a n m] b(3) unfolding MMAP by auto
  next
    case (Malloc m)
    let ?m = "allocIfNeeded (ml_block m a) m"
    have "ml_ok ?m" "map_find (ml_buffer ?m) (ml_block m a) \<noteq> None" using b(1) Malloc by (simp_all add: alloc_ok alloc_find)
    then have "\<exists>m'. ml_get_loop (ml_block m a) (ml_off m a) n ?m = Inr (m', map (ml_contents ?m) [unat a..<unat a + n]) \<and>
        ml_ok m' \<and> ml_contents m' = ml_contents ?m"
      by (rule ml_get_loop_ok) (use ml_split [of m a] b(3) in simp_all)
    then obtain m' where "ml_get_loop (ml_block m a) (ml_off m a) n ?m = Inr (m', map (ml_contents m) [unat a..<unat a + n])"
        "ml_ok m'" "ml_contents m' = ml_contents m" unfolding alloc_contents by blast
    then show ?thesis unfolding Malloc by (simp add: Malloc)
  qed
qed


section \<open>Properties\<close>

text \<open>
  The memory returns what was last written: after \<open>set\<close> of a vector of bytes, \<open>get\<close> of the
  same range returns these bytes, and \<open>get\<close> of any range that does not meet it returns what it
  returned before, in the mapped buffer and in the block store, whatever block boundaries the
  ranges cross.
\<close>

theorem backing_read_after_write:
  assumes "bk_inv b" and "\<forall>x. unat a \<le> x \<and> x < unat a + length ds \<longrightarrow> bk_held b x" and "unat a + length ds \<le> 2 ^ 64"
    and "\<forall>x. unat c \<le> x \<and> x < unat c + length old \<longrightarrow> bk_held b x" and "unat c + length old \<le> 2 ^ 64"
    and "unat c + length old \<le> unat a \<or> unat a + length ds \<le> unat c"
  shows "\<exists>b'. bk_set a (length ds) ds b = Inr b' \<and>
     (\<exists>b1. bk_get a (length ds) (replicate (length ds) 0) b' = Inr (b1, ds)) \<and>
     (\<exists>b2 b3 v. bk_get c (length old) old b = Inr (b2, v) \<and> bk_get c (length old) old b' = Inr (b3, v))"
  using bk.load_store [OF assms(1-3)] bk.load_store_other [OF assms]
  by (auto simp: bk_set_def bk_get_def vec_slice_def)

definition demo_malloc :: Backing where
  "demo_malloc = Malloc \<lparr>ml_buffer = [], allocUnit = 4, ml_shift = 2, ml_init = True, ml_fresh = \<lambda>_ _. 0\<rparr>"

theorem backing_read_after_write_witness:
  "\<exists>b'. bk_set 6 4 [1, 2, 3, 4] demo_malloc = Inr b' \<and> (\<exists>b1. bk_get 6 4 [0, 0, 0, 0] b' = Inr (b1, [1, 2, 3, 4])) \<and>
     (\<exists>b2 b3 v. bk_get 10 2 [0, 0] demo_malloc = Inr (b2, v) \<and> bk_get 10 2 [0, 0] b' = Inr (b3, v))"
proof -
  have "length [1, 2, 3, 4 :: u8] = 4" "length [0, 0 :: u8] = 2" "replicate 4 (0 :: u8) = [0, 0, 0, 0]" by (simp_all add: numeral_eq_Suc)
  with backing_read_after_write [of demo_malloc 6 "[1, 2, 3, 4]" 10 "[0, 0]"] show ?thesis
    by (simp only:) (simp add: demo_malloc_def ml_ok_def)
qed

end
