(* ===== verification/MemH_MemController.thy ===== *)
theory MemH_MemController
  imports MemH_Backends MemH_Backing
begin

unbundle bit_operations_syntax

text \<open>
  \<^verbatim>\<open>memHierarchy/memoryController.cc\<close> with \<^verbatim>\<open>customcmd/defCustomCmdHandler.cc\<close>: the memory
  controller. It translates addresses between the interleaved region it serves and the back end,
  keeps the events it has handed to the convertor, and moves data in and out of the backing store
  when the back end answers. What it sends up is a list. The cycle the simulator returns when a
  clock is registered, fresh object addresses and event ids, and whether the link is idle are
  arguments; listeners, statistics, debug output and the checks compiled only for debugging are
  left out. Object addresses of responses are not distinguished.
\<close>

section \<open>State\<close>

record CustomHandler =
  ch_ready :: "MemEvent \<Rightarrow> nat"
  ch_finish :: "MemEvent \<Rightarrow> u32 \<Rightarrow> MemEvent option"

text \<open>\<open>DefCustomCmdMemHandler\<close>; \<open>data\<close> is the \<open>CustomData\<close> an event carries.\<close>

definition DefCustomCmdMemHandler :: "(MemEvent \<Rightarrow> nat) \<Rightarrow> nat \<Rightarrow> CustomHandler" where
  "DefCustomCmdMemHandler data p = \<lparr>ch_ready = data,
     ch_finish = (\<lambda>ev flags. if queryFlag F_NORESPONSE ev \<or> flags AND F_NORESPONSE > 0 then None else Some (makeResponse p ev))\<rparr>"

record 'b MemController =
  mc_name :: string
  mc_convertor :: Conv
  mc_backend :: 'b
  mc_backing :: "Backing option"
  mc_outstanding :: "(id_type, MemEvent) stdmap"
  mc_clockOn :: bool
  mc_region :: MemRegion
  mc_linkRegion :: MemRegion
  mc_privateMemOffset :: Addr
  mc_memSize :: u64
  mc_custom :: "CustomHandler option"
  mc_sent :: "MemEvent list"

record McEnv =
  me_cycle :: u64
  me_ptr :: nat
  me_putId :: id_type
  me_noId :: id_type

definition mc_send :: "MemEvent \<Rightarrow> 'b MemController \<Rightarrow> 'b MemController" where
  "mc_send ev mc = mc\<lparr>mc_sent := mc_sent mc @ [ev]\<rparr>"

section \<open>Addresses\<close>

definition translateToLocal :: "'b MemController \<Rightarrow> Addr \<Rightarrow> Addr res" where
  "translateToLocal mc addr =
     (let r = mc_region mc in
      if interleaveSize r = 0 then Inr (addr - mr_start r + mc_privateMemOffset mc)
      else if interleaveStep r = 0 then Inl DivByZero
      else (let shift = addr - mr_start r; step = shift div interleaveStep r; offset = shift mod interleaveStep r
            in Inr (step * interleaveSize r + offset + mc_privateMemOffset mc)))"

definition translateToGlobal :: "'b MemController \<Rightarrow> Addr \<Rightarrow> Addr" where
  "translateToGlobal mc addr =
     (let r = mc_region mc; rAddr = addr - mc_privateMemOffset mc in
      if interleaveSize r = 0 then rAddr + mr_start r
      else (let offset = rAddr mod interleaveSize r
            in (rAddr - offset) div interleaveSize r * interleaveStep r + offset + mr_start r))"

definition adjustRegionToMemSize :: "'b MemController \<Rightarrow> ('b MemController) res" where
  "adjustRegionToMemSize mc =
     (let r = mc_region mc; regSize = mr_end r - mr_start r;
          regSize = (if regSize \<noteq> REGION_MAX then regSize + 1 else regSize) in
      bindE (if interleaveStep r \<noteq> 0
             then (if regSize div interleaveStep r * interleaveSize r > mc_memSize mc
                   then (if interleaveSize r = 0 then Inl DivByZero
                         else Inr (r\<lparr>mr_end := mr_start r + mc_memSize mc div interleaveSize r * interleaveStep r - 1\<rparr>))
                   else Inr r)
             else if regSize > mc_memSize mc then Inr (r\<lparr>mr_end := mr_start r + mc_memSize mc - 1\<rparr>)
             else Inr r)
        (\<lambda>r. Inr (mc\<lparr>mc_region := r, mc_linkRegion := r\<rparr>)))"

section \<open>Data\<close>

definition with_backing :: "(Backing \<Rightarrow> (Backing \<times> 'c) res) \<Rightarrow> 'c \<Rightarrow> 'b MemController \<Rightarrow> ('b MemController \<times> 'c) res" where
  "with_backing f dflt mc = (case mc_backing mc of
     None \<Rightarrow> Inr (mc, dflt) | Some bk \<Rightarrow> bindE (f bk) (\<lambda>(bk, x). Inr (mc\<lparr>mc_backing := Some bk\<rparr>, x)))"

definition data_addr :: "MemEvent \<Rightarrow> Addr" where
  "data_addr ev = (if queryFlag F_NONCACHEABLE ev then ev_addr ev else baseAddr ev)"

definition writeData :: "MemEvent \<Rightarrow> 'b MemController \<Rightarrow> ('b MemController) res" where
  "writeData ev mc =
     (let addr = (if cmd ev = PutM then data_addr ev else ev_addr ev) in
      if cmd ev = PutM \<or> cmd ev = Write
      then (case mc_backing mc of None \<Rightarrow> Inl NullDeref
            | Some bk \<Rightarrow> bindE (bk_set addr (unat (ev_size ev)) (getPayload ev) bk) (\<lambda>bk. Inr (mc\<lparr>mc_backing := Some bk\<rparr>)))
      else Inr mc)"

definition readData :: "MemEvent \<Rightarrow> 'b MemController \<Rightarrow> ('b MemController \<times> MemEvent) res" where
  "readData ev mc = bindE (with_backing (bk_get (data_addr ev) (unat (ev_size ev)) (replicate (unat (ev_size ev)) 0))
       (replicate (unat (ev_size ev)) 0) mc) (\<lambda>(mc, d). Inr (mc, setPayload d ev))"

text \<open>The overloads for custom commands.\<close>

fun writeBytes :: "Addr \<Rightarrow> u8 list \<Rightarrow> Backing \<Rightarrow> Backing res" where
  "writeBytes addr [] bk = Inr bk"
| "writeBytes addr (d # ds) bk = bindE (bk_set1 addr d bk) (writeBytes (addr + 1) ds)"

fun readBytes :: "Addr \<Rightarrow> nat \<Rightarrow> Backing \<Rightarrow> (Backing \<times> u8 list) res" where
  "readBytes addr 0 bk = Inr (bk, [])"
| "readBytes addr (Suc n) bk = bindE (bk_get1 addr bk) (\<lambda>(bk, d). bindE (readBytes (addr + 1) n bk) (\<lambda>(bk, ds). Inr (bk, d # ds)))"

definition writeDataCustom :: "Addr \<Rightarrow> u8 list \<Rightarrow> 'b MemController \<Rightarrow> ('b MemController) res" where
  "writeDataCustom addr data mc =
     bindE (with_backing (\<lambda>bk. bindE (writeBytes addr data bk) (\<lambda>bk. Inr (bk, ()))) () mc) (\<lambda>(mc, _). Inr mc)"

definition readDataCustom :: "Addr \<Rightarrow> nat \<Rightarrow> 'b MemController \<Rightarrow> ('b MemController \<times> u8 list) res" where
  "readDataCustom addr bytes mc = with_backing (readBytes addr bytes) (replicate bytes 0) mc"

definition processInitEvent :: "MemEvent \<Rightarrow> 'b MemController \<Rightarrow> ('b MemController) res" where
  "processInitEvent me mc =
     (if cmd me = Write
      then bindE (translateToLocal mc (ev_addr me)) (\<lambda>addr.
           bindE (contains (mc_region mc) addr) (\<lambda>valid.
             if valid
             then bindE (with_backing (\<lambda>bk. bindE (bk_set addr (length (payload me)) (payload me) bk) (\<lambda>bk. Inr (bk, ()))) () mc)
                    (\<lambda>(mc, _). Inr mc)
             else Inr mc))
      else Inr mc)"

section \<open>Events and responses\<close>

definition mc_insert :: "MemEvent \<Rightarrow> 'b MemController \<Rightarrow> 'b MemController" where
  "mc_insert ev mc = (case map_find (mc_outstanding mc) (eventID ev) of
     None \<Rightarrow> mc\<lparr>mc_outstanding := map_set (eventID ev) ev (mc_outstanding mc)\<rparr> | Some _ \<Rightarrow> mc)"

definition respond :: "McEnv \<Rightarrow> u32 \<Rightarrow> MemEvent \<Rightarrow> 'b MemController \<Rightarrow> ('b MemController) res" where
  "respond E flags ev mc =
     (let resp = makeResponse (me_ptr E) ev in
      bindE (if cmd resp = GetSResp \<or> cmd resp = GetXResp
             then bindE (readData resp mc) (\<lambda>(mc, resp).
                    Inr (mc, if queryFlag F_NONCACHEABLE resp then resp else resp\<lparr>cmd := GetXResp\<rparr>))
             else Inr (mc, resp)) (\<lambda>(mc, resp).
        let resp = resp\<lparr>ev_flags := flags\<rparr>;
            resp = (if addrGlobal ev then resp\<lparr>baseAddr := translateToGlobal mc (baseAddr ev), ev_addr := translateToGlobal mc (ev_addr ev)\<rparr>
                    else resp)
        in Inr (mc_send resp mc)))"

definition handleMemResponse :: "McEnv \<Rightarrow> id_type \<Rightarrow> u32 \<Rightarrow> 'b MemController \<Rightarrow> ('b MemController) res" where
  "handleMemResponse E i flags mc = (case map_find (mc_outstanding mc) i of
     None \<Rightarrow> Inl (Fatal ''handleMemResponse'')
   | Some ev \<Rightarrow>
     (let mc = mc\<lparr>mc_outstanding := map_erase i (mc_outstanding mc)\<rparr> in
      if cmd ev = CustomReq
      then (case mc_custom mc of None \<Rightarrow> Inl NullDeref
            | Some h \<Rightarrow> Inr (case ch_finish h ev flags of None \<Rightarrow> mc | Some resp \<Rightarrow> mc_send resp mc))
      else bindE (if mc_backing mc \<noteq> None \<and> (cmd ev = PutM \<or> cmd ev = Write) then writeData ev mc else Inr mc) (\<lambda>mc.
             if queryFlag F_NORESPONSE ev then Inr mc else respond E flags ev mc)))"

fun handleMemResponses :: "McEnv \<Rightarrow> (id_type \<times> u32) list \<Rightarrow> 'b MemController \<Rightarrow> ('b MemController) res" where
  "handleMemResponses E [] mc = Inr mc"
| "handleMemResponses E ((i, flags) # rs) mc = bindE (handleMemResponse E i flags mc) (handleMemResponses E rs)"

definition mc_turnClockOn :: "McEnv \<Rightarrow> 'b MemController \<Rightarrow> 'b MemController" where
  "mc_turnClockOn E mc = mc\<lparr>mc_clockOn := True, mc_convertor := conv_turnClockOn (me_cycle E - 1) (mc_convertor mc)\<rparr>"

text \<open>\<open>outstandingEvents_.insert\<close> and \<open>memBackendConvertor_->handleMemEvent\<close>, with the answer a flush may get at once.\<close>

definition to_backend :: "McEnv \<Rightarrow> MemEvent \<Rightarrow> 'b MemController \<Rightarrow> ('b MemController) res" where
  "to_backend E ev mc =
     (let mc = mc_insert ev mc in
      bindE (handleMemEvent ev (mc_convertor mc)) (\<lambda>(cv, rs). handleMemResponses E rs (mc\<lparr>mc_convertor := cv\<rparr>)))"

definition mc_handleCustomEvent :: "MemEvent \<Rightarrow> 'b MemController \<Rightarrow> ('b MemController) res" where
  "mc_handleCustomEvent ev mc = (case mc_custom mc of
     None \<Rightarrow> Inl (Fatal ''handleCustomEvent'')
   | Some h \<Rightarrow>
     (let mc' = mc_insert ev mc
      in Inr (mc'\<lparr>mc_convertor := handleCustomEvent (ch_ready h ev) (eventID ev) (rqstr ev) (mc_convertor mc')\<rparr>)))"

definition localize :: "'b MemController \<Rightarrow> MemEvent \<Rightarrow> MemEvent res" where
  "localize mc ev =
     (if addrGlobal ev
      then bindE (translateToLocal mc (baseAddr ev)) (\<lambda>b. bindE (translateToLocal mc (ev_addr ev)) (\<lambda>a.
             Inr (ev\<lparr>baseAddr := b, ev_addr := a\<rparr>)))
      else Inr ev)"

text \<open>The write-back a flush with data stands for.\<close>

definition flush_put :: "McEnv \<Rightarrow> 'b MemController \<Rightarrow> MemEvent \<Rightarrow> MemEvent" where
  "flush_put E mc ev = setFlag F_NORESPONSE (setPayload (getPayload ev)
     (newMemEvent (me_ptr E) (me_putId E) (me_noId E) (mc_name mc) (baseAddr ev) (baseAddr ev) PutM))"

definition mc_handleEvent :: "McEnv \<Rightarrow> MemEvent \<Rightarrow> 'b MemController \<Rightarrow> ('b MemController) res" where
  "mc_handleEvent E ev mc0 =
     (let mc = (if mc_clockOn mc0 then mc0 else mc_turnClockOn E mc0) in
      if cmd ev = CustomReq then mc_handleCustomEvent ev mc
      else bindE (localize mc ev) (\<lambda>ev.
        if cmd ev = PutM then to_backend E (setFlag F_NORESPONSE ev) mc
        else if cmd ev = GetS \<or> cmd ev = GetX \<or> cmd ev = GetSX \<or> cmd ev = Write then to_backend E ev mc
        else if cmd ev = FlushLine \<or> cmd ev = FlushLineInv
        then bindE (if payload ev \<noteq> [] then to_backend E (flush_put E mc ev) mc else Inr mc) (\<lambda>mc.
               to_backend E (ev\<lparr>cmd := FlushLine\<rparr>) mc)
        else if cmd ev = PutS \<or> cmd ev = PutE then Inr mc
        else Inl (Fatal ''handleEvent'')))"

text \<open>\<open>unclockLink\<close> is what the link's \<open>clock\<close> returned, or true for a link without clock.\<close>

definition mc_clock :: "'b Backend \<Rightarrow> McEnv \<Rightarrow> u64 \<Rightarrow> bool \<Rightarrow> 'b MemController \<Rightarrow> ('b MemController \<times> bool) res option" where
  "mc_clock B E cycle unclockLink mc =
     (case conv_clock B cycle (mc_convertor mc) (mc_backend mc) of None \<Rightarrow> None
      | Some r \<Rightarrow> Some (bindE r (\<lambda>(cv, b, rs, unclockBack).
          bindE (handleMemResponses E rs (mc\<lparr>mc_convertor := cv, mc_backend := b\<rparr>)) (\<lambda>mc.
            if unclockLink \<and> unclockBack
            then Inr (mc\<lparr>mc_convertor := conv_turnClockOff (mc_convertor mc), mc_clockOn := False\<rparr>, True)
            else Inr (mc, False)))))"

text \<open>An event of the back end's self link; the convertor turns the clock on when it answers.\<close>

definition mc_self :: "'b Backend \<Rightarrow> McEnv \<Rightarrow> nat \<Rightarrow> 'b MemController \<Rightarrow> ('b MemController) res" where
  "mc_self B E k mc =
     bindE (conv_self B (me_cycle E - 1) k (mc_convertor mc) (mc_backend mc)) (\<lambda>(cv, b, rs).
       handleMemResponses E rs (mc\<lparr>mc_convertor := cv, mc_backend := b,
         mc_clockOn := (mc_clockOn mc \<or> \<not> cv_clockOn (mc_convertor mc) \<and> cv_clockOn cv)\<rparr>))"

section \<open>Address translation\<close>

text \<open>The local address of an interleaved one, without wrap-around.\<close>

lemma local_unat:
  fixes sh :: u64
  assumes "0 < z" and "z \<le> s" and "sh mod s < z"
  shows "unat (sh div s * z + sh mod s) = unat sh div unat s * unat z + unat sh mod unat s"
    and "unat sh div unat s * unat z + unat sh mod unat s \<le> unat sh"
proof -
  have zs: "unat z \<le> unat s" using assms(2) by (simp add: word_le_nat_alt)
  then have "unat sh div unat s * unat z \<le> unat sh div unat s * unat s" by simp
  then show le: "unat sh div unat s * unat z + unat sh mod unat s \<le> unat sh"
    using div_mult_mod_eq [of "unat sh" "unat s"] by linarith
  then have small: "unat sh div unat s * unat z + unat sh mod unat s < 18446744073709551616"
    using unat_u64_lt [of sh] by linarith
  then have m: "unat (sh div s * z) = unat sh div unat s * unat z"
    using unat_mult_u64 [of "sh div s" z] by (simp add: unat_div_distrib)
  then show "unat (sh div s * z + sh mod s) = unat sh div unat s * unat z + unat sh mod unat s"
    using unat_add_u64 [of "sh div s * z" "sh mod s"] small by (simp add: unat_mod_distrib)
qed

lemma global_of_local:
  fixes sh :: u64
  assumes "0 < z" and "z \<le> s" and "sh mod s < z"
  defines "l \<equiv> sh div s * z + sh mod s"
  shows "(l - l mod z) div z * s + l mod z = sh"
proof -
  have l: "unat l = unat sh div unat s * unat z + unat sh mod unat s"
    using local_unat [OF assms(1-3)] by (simp add: l_def)
  have r: "unat sh mod unat s < unat z" using assms(3) by (simp add: word_less_nat_alt unat_mod_distrib)
  have lm: "l mod z = sh mod s"
    by (rule unsigned_word_eqI [where ?'a = nat]) (use r l in \<open>simp add: unat_mod_distrib\<close>)
  then have "l - l mod z = sh div s * z" by (simp add: l_def)
  moreover have "sh div s * z div z = sh div s"
  proof (rule unsigned_word_eqI [where ?'a = nat])
    have "unat (sh div s * z) = unat sh div unat s * unat z"
      using local_unat(2) [OF assms(1-3)] unat_u64_lt [of sh] unat_mult_u64 [of "sh div s" z]
      by (simp add: unat_div_distrib)
    then show "unat (sh div s * z div z) = unat (sh div s)"
      using assms(1) by (simp add: unat_div_distrib word_less_nat_alt)
  qed
  ultimately show ?thesis using lm by (simp add: word_mod_div_equality)
qed

text \<open>
  C26 The two translations of the memory controller are inverse on the region it serves: every
  address of the region, interleaved or not, has a local address, and a response built from that
  carries the address the request had.
\<close>
theorem translate_round_trip:
  assumes "contains (mc_region mc) addr = Inr True" and "interleaveSize (mc_region mc) \<le> interleaveStep (mc_region mc)"
  shows "\<exists>l. translateToLocal mc addr = Inr l \<and> translateToGlobal mc l = addr"
proof (cases "interleaveSize (mc_region mc) = 0")
  case True
  then show ?thesis by (simp add: translateToLocal_def translateToGlobal_def Let_def)
next
  case False
  let ?r = "mc_region mc"
  have z: "0 < interleaveSize ?r" using False by (simp add: word_gt_0)
  have s: "interleaveStep ?r \<noteq> 0" "(addr - mr_start ?r) mod interleaveStep ?r < interleaveSize ?r"
    using assms(1) False by (auto simp: contains_def split: if_splits)
  from global_of_local [OF z assms(2) s(2)] False s(1) show ?thesis
    by (simp add: translateToLocal_def translateToGlobal_def Let_def)
qed

text \<open>A region of \<open>k\<close> whole steps, of which the memory holds \<open>k\<close> chunks.\<close>

lemma chunk_bound:
  fixes sh s z k m :: nat
  assumes "sh < k * s" and "sh mod s < z" and "k * z \<le> m"
  shows "sh div s * z + sh mod s < m"
proof -
  have "sh div s < k" using assms(1) by (simp add: less_mult_imp_div_less)
  then have "Suc (sh div s) * z \<le> k * z" by (intro mult_le_mono1) simp
  then show ?thesis using assms(2,3) by simp
qed

lemma local_below:
  assumes r: "mc_region mc = r" and off: "mc_privateMemOffset mc = 0" and z: "0 < interleaveSize r" "interleaveSize r \<le> interleaveStep r"
    and span: "unat (mr_end r) + 1 = unat (mr_start r) + k * unat (interleaveStep r)" and fit: "k * unat (interleaveSize r) \<le> unat m"
    and c: "contains r addr = Inr True"
  shows "\<exists>l. translateToLocal mc addr = Inr l \<and> l < m"
proof -
  let ?sh = "addr - mr_start r"
  have nz: "interleaveSize r \<noteq> 0" "interleaveStep r \<noteq> 0" using z by auto
  have a: "mr_start r \<le> addr" "addr \<le> mr_end r" "?sh mod interleaveStep r < interleaveSize r"
    using c nz by (auto simp: contains_def split: if_splits)
  have sh: "unat ?sh = unat addr - unat (mr_start r)" by (rule unat_diff_u64) (rule a)
  have "unat ?sh < k * unat (interleaveStep r)" using a span sh by (simp add: word_le_nat_alt)
  moreover have "unat ?sh mod unat (interleaveStep r) < unat (interleaveSize r)"
    using a(3) by (simp add: word_less_nat_alt unat_mod_distrib)
  ultimately have "unat ?sh div unat (interleaveStep r) * unat (interleaveSize r) + unat ?sh mod unat (interleaveStep r) < unat m"
    using chunk_bound fit by blast
  then have "?sh div interleaveStep r * interleaveSize r + ?sh mod interleaveStep r < m"
    using local_unat(1) [OF z a(3)] by (simp add: word_less_nat_alt)
  then show ?thesis using r off nz by (simp add: translateToLocal_def Let_def)
qed

lemma unat_REGION_MAX: "unat REGION_MAX = 18446744073709551615"
  by (simp add: REGION_MAX_def unsigned_minus_1_eq_mask mask_eq_exp_minus_1)

text \<open>The sizes \<open>adjustRegionToMemSize\<close> computes, as naturals.\<close>

definition region_len :: "u64 \<Rightarrow> u64 \<Rightarrow> u64" where
  "region_len st en = (if en - st \<noteq> REGION_MAX then en - st + 1 else en - st)"

lemma region_len_unat:
  assumes "st \<le> en"
  shows "unat st + unat (region_len st en) \<le> unat en + 1"
    and "en - st \<noteq> REGION_MAX \<Longrightarrow> unat (region_len st en) = unat en - unat st + 1"
proof -
  have len: "unat (en - st) = unat en - unat st" by (rule unat_diff_u64) (rule assms)
  show *: "unat (region_len st en) = unat en - unat st + 1" if "en - st \<noteq> REGION_MAX"
    using that len unat_add_u64 [of "en - st" 1] unat_u64_lt [of "en - st"] word_eq_iff_unsigned [of "en - st" REGION_MAX, where ?'a = nat]
    by (cases "unat (en - st) = 18446744073709551615") (auto simp: unat_REGION_MAX region_len_def)
  show "unat st + unat (region_len st en) \<le> unat en + 1"
  proof (cases "en - st = REGION_MAX")
    case True
    then have "unat (region_len st en) = unat en - unat st" using len by (simp add: region_len_def)
    then show ?thesis using assms by (simp add: word_le_nat_alt)
  next
    case False
    then show ?thesis using * assms by (simp add: word_le_nat_alt)
  qed
qed

lemma adjusted_span:
  fixes st en s z m :: u64
  defines "rsz \<equiv> region_len st en"
  assumes le: "st \<le> en" and z: "0 < z" "z \<le> s" "z \<le> m" and big: "rsz div s * z > m"
  shows "unat (st + m div z * s - 1) + 1 = unat st + unat m div unat z * unat s"
proof -
  have sz: "unat st + unat rsz \<le> unat en + 1" "unat rsz \<le> 18446744073709551615"
    using region_len_unat(1) [OF le] unat_u64_lt [of rsz] by (simp_all add: rsz_def)
  have zs: "unat z \<le> unat s" "0 < unat z" using z by (auto simp: word_le_nat_alt word_less_nat_alt)
  have "unat rsz div unat s * unat z \<le> unat rsz div unat s * unat s" using zs by simp
  also have "\<dots> \<le> unat rsz" by simp
  finally have nz: "unat rsz div unat s * unat z \<le> unat rsz" .
  then have "unat (rsz div s * z) = unat rsz div unat s * unat z"
    using unat_mult_u64 [of "rsz div s" z] unat_u64_lt [of rsz] by (simp add: unat_div_distrib)
  then have "unat m < unat rsz div unat s * unat z" using big by (simp add: word_less_nat_alt)
  then have k: "unat m div unat z < unat rsz div unat s" by (simp add: less_mult_imp_div_less)
  have "unat m div unat z * unat s < unat rsz div unat s * unat s" using k zs by simp
  then have ks: "unat m div unat z * unat s < unat rsz" using div_times_less_eq_dividend [of "unat rsz" "unat s"] by linarith
  then have mul: "unat (m div z * s) = unat m div unat z * unat s"
    using unat_mult_u64 [of "m div z" s] sz(2) by (simp add: unat_div_distrib)
  have pos: "0 < unat m div unat z * unat s"
    using z(3) zs by (simp add: div_greater_zero_iff word_le_nat_alt)
  have "unat (st + m div z * s) = unat st + unat m div unat z * unat s"
    using unat_add_u64 [of st "m div z * s"] mul ks sz(1) unat_u64_lt [of en] by simp
  then show ?thesis using pos unat_minus_one [of "st + m div z * s"] by (auto simp: unat_eq_0 [symmetric])
qed

definition region_fits :: "MemRegion \<Rightarrow> u64 \<Rightarrow> bool" where
  "region_fits r m \<longleftrightarrow> mr_start r \<le> mr_end r \<and> 0 < m \<and> m < REGION_MAX \<and>
     (if interleaveStep r = 0 then interleaveSize r = 0
      else 0 < interleaveSize r \<and> interleaveSize r \<le> interleaveStep r \<and> interleaveSize r \<le> m \<and>
        unat (interleaveStep r) dvd unat (mr_end r) - unat (mr_start r) + 1 \<and>
        (mr_end r - mr_start r = REGION_MAX \<longrightarrow> m < REGION_MAX div interleaveStep r * interleaveSize r))"

lemma adjust_eq:
  "adjustRegionToMemSize mc =
     (let r = mc_region mc; n = region_len (mr_start r) (mr_end r) in
      bindE (if interleaveStep r \<noteq> 0
             then (if n div interleaveStep r * interleaveSize r > mc_memSize mc
                   then (if interleaveSize r = 0 then Inl DivByZero
                         else Inr (r\<lparr>mr_end := mr_start r + mc_memSize mc div interleaveSize r * interleaveStep r - 1\<rparr>))
                   else Inr r)
             else if n > mc_memSize mc then Inr (r\<lparr>mr_end := mr_start r + mc_memSize mc - 1\<rparr>)
             else Inr r)
        (\<lambda>r. Inr (mc\<lparr>mc_region := r, mc_linkRegion := r\<rparr>)))"
  by (simp add: adjustRegionToMemSize_def region_len_def Let_def)

lemma plain_below:
  assumes fits: "region_fits r m" and step: "interleaveStep r = 0" and off: "mc_privateMemOffset mc = 0"
    and r': "r' = (if region_len (mr_start r) (mr_end r) > m then r\<lparr>mr_end := mr_start r + m - 1\<rparr> else r)" "mc_region mc = r'"
    and c: "contains r' addr = Inr True"
  shows "\<exists>l. translateToLocal mc addr = Inr l \<and> l < m"
proof -
  let ?n = "region_len (mr_start r) (mr_end r)"
  have r: "mr_start r \<le> mr_end r" "0 < m" "m < REGION_MAX" "interleaveSize r = 0" using fits step by (auto simp: region_fits_def)
  have a: "mr_start r \<le> addr" "addr \<le> mr_end r'" using c r(4) r'(1) by (auto simp: contains_def split: if_splits)
  have sh: "unat (addr - mr_start r) = unat addr - unat (mr_start r)" by (rule unat_diff_u64) (rule a)
  have "addr - mr_start r < m"
  proof (cases "?n > m")
    case True
    have "unat (mr_start r) + unat m < 18446744073709551616"
      using True region_len_unat(1) [OF r(1)] unat_u64_lt [of "mr_end r"] by (simp add: word_less_nat_alt)
    then have s: "unat (mr_start r + m) = unat (mr_start r) + unat m" using unat_add_u64 [of "mr_start r" m] by simp
    have m: "0 < unat m" using r(2) by (simp add: word_less_nat_alt)
    then have "mr_start r + m \<noteq> 0" using s by (auto simp: unat_eq_0 [symmetric])
    then have "unat (mr_start r + m - 1) = unat (mr_start r) + unat m - 1"
      using unat_minus_one [of "mr_start r + m"] s by (simp only: not_False_eq_True simp_thms)
    then have "unat addr \<le> unat (mr_start r) + unat m - 1" using a(2) True r'(1) by (simp add: word_le_nat_alt)
    then show ?thesis using sh a(1) m by (simp add: word_less_nat_alt word_le_nat_alt)
  next
    case False
    then have "mr_end r - mr_start r \<noteq> REGION_MAX" using r(3) by (auto simp: region_len_def)
    then have "unat ?n = unat (mr_end r) - unat (mr_start r) + 1" by (rule region_len_unat(2) [OF r(1)])
    then show ?thesis using False a sh r'(1) by (simp add: word_less_nat_alt word_le_nat_alt not_less)
  qed
  then show ?thesis using r' r(4) off by (simp add: translateToLocal_def Let_def)
qed

lemma interleaved_below:
  assumes fits: "region_fits r m" and step: "interleaveStep r \<noteq> 0" and off: "mc_privateMemOffset mc = 0"
    and r': "r' = (if region_len (mr_start r) (mr_end r) div interleaveStep r * interleaveSize r > m
      then r\<lparr>mr_end := mr_start r + m div interleaveSize r * interleaveStep r - 1\<rparr> else r)" "mc_region mc = r'"
    and c: "contains r' addr = Inr True"
  shows "\<exists>l. translateToLocal mc addr = Inr l \<and> l < m"
proof -
  let ?n = "region_len (mr_start r) (mr_end r)" and ?s = "interleaveStep r" and ?z = "interleaveSize r"
  have r: "mr_start r \<le> mr_end r" "0 < ?z" "?z \<le> ?s" "?z \<le> m"
    and whole: "unat ?s dvd unat (mr_end r) - unat (mr_start r) + 1"
    and full: "mr_end r - mr_start r = REGION_MAX \<longrightarrow> m < REGION_MAX div ?s * ?z"
    using fits step by (auto simp: region_fits_def)
  have sel: "interleaveSize r' = ?z" "interleaveStep r' = ?s" "mr_start r' = mr_start r" using r'(1) by auto
  have "\<exists>k. unat (mr_end r') + 1 = unat (mr_start r) + k * unat ?s \<and> k * unat ?z \<le> unat m"
  proof (cases "?n div ?s * ?z > m")
    case True
    then show ?thesis using adjusted_span [OF r(1) r(2-4) True] r'(1) by (intro exI [of _ "unat m div unat ?z"]) simp
  next
    case False
    then have "mr_end r - mr_start r \<noteq> REGION_MAX" using full by (auto simp: region_len_def)
    then have n: "unat ?n = unat (mr_end r) - unat (mr_start r) + 1" by (rule region_len_unat(2) [OF r(1)])
    have "unat ?n div unat ?s * unat ?z \<le> unat ?n div unat ?s * unat ?s" using r(3) by (simp add: word_le_nat_alt)
    also have "\<dots> \<le> unat ?n" by simp
    finally have "unat (?n div ?s * ?z) = unat ?n div unat ?s * unat ?z"
      using unat_mult_u64 [of "?n div ?s" ?z] unat_u64_lt [of ?n] by (simp add: unat_div_distrib)
    then have "unat ?n div unat ?s * unat ?z \<le> unat m" using False by (simp add: word_less_nat_alt)
    moreover have "unat ?n div unat ?s * unat ?s = unat ?n" using whole n by simp
    ultimately show ?thesis using n False r(1) r'(1)
      by (intro exI [of _ "unat ?n div unat ?s"]) (simp add: word_le_nat_alt)
  qed
  then obtain k where k: "unat (mr_end r') + 1 = unat (mr_start r') + k * unat (interleaveStep r')" "k * unat (interleaveSize r') \<le> unat m"
    using sel by auto
  show ?thesis by (rule local_below [OF r'(2) off _ _ k c]) (use r sel in simp_all)
qed

text \<open>
  After \<open>adjustRegionToMemSize\<close>, every address of the controller's region translates to a
  local address below the size of the memory, provided the region is made of whole interleaving
  steps and the memory holds at least one chunk.
\<close>
theorem adjusted_region_in_memory:
  assumes fits: "region_fits (mc_region mc) (mc_memSize mc)" and off: "mc_privateMemOffset mc = 0"
  shows "\<exists>mc'. adjustRegionToMemSize mc = Inr mc' \<and> mc_linkRegion mc' = mc_region mc' \<and> mc_memSize mc' = mc_memSize mc \<and>
    (\<forall>addr. contains (mc_region mc') addr = Inr True \<longrightarrow> (\<exists>l. translateToLocal mc' addr = Inr l \<and> l < mc_memSize mc'))"
proof (cases "interleaveStep (mc_region mc) = 0")
  case True
  let ?r' = "if region_len (mr_start (mc_region mc)) (mr_end (mc_region mc)) > mc_memSize mc
    then (mc_region mc)\<lparr>mr_end := mr_start (mc_region mc) + mc_memSize mc - 1\<rparr> else mc_region mc"
  have "adjustRegionToMemSize mc = Inr (mc\<lparr>mc_region := ?r', mc_linkRegion := ?r'\<rparr>)"
    using True by (simp add: adjust_eq Let_def)
  then show ?thesis using plain_below [OF fits True, of "mc\<lparr>mc_region := ?r', mc_linkRegion := ?r'\<rparr>" ?r'] off by simp
next
  case False
  let ?r' = "if region_len (mr_start (mc_region mc)) (mr_end (mc_region mc)) div interleaveStep (mc_region mc) * interleaveSize (mc_region mc) > mc_memSize mc
    then (mc_region mc)\<lparr>mr_end := mr_start (mc_region mc) + mc_memSize mc div interleaveSize (mc_region mc) * interleaveStep (mc_region mc) - 1\<rparr>
    else mc_region mc"
  have "interleaveSize (mc_region mc) \<noteq> 0" using fits False by (auto simp: region_fits_def)
  then have "adjustRegionToMemSize mc = Inr (mc\<lparr>mc_region := ?r', mc_linkRegion := ?r'\<rparr>)"
    using False by (simp add: adjust_eq Let_def)
  then show ?thesis using interleaved_below [OF fits False, of "mc\<lparr>mc_region := ?r', mc_linkRegion := ?r'\<rparr>" ?r'] off by simp
qed

text \<open>
  A partial step at the end of the region is not counted: with a region of one and a half steps
  and a memory of one chunk, the region stays as it is and its last chunk lies beyond the memory.
\<close>
theorem partial_step_leaves_memory:
  "\<exists>mc' l. adjustRegionToMemSize (mc\<lparr>mc_region := \<lparr>mr_start = 0, mr_end = 191, interleaveSize = 64, interleaveStep = 128\<rparr>,
        mc_memSize := 64, mc_privateMemOffset := 0\<rparr>) = Inr mc' \<and>
     contains (mc_region mc') 128 = Inr True \<and> translateToLocal mc' 128 = Inr l \<and> mc_memSize mc' \<le> l"
  by (simp add: adjustRegionToMemSize_def Let_def contains_def translateToLocal_def REGION_MAX_def)

section \<open>The memory as an array of bytes\<close>

text \<open>
  \<open>mc_mem\<close> is the content of the backing store by local address; without a backing store the
  controller only models time, and reads give zeros.
\<close>

definition mc_mem :: "'b MemController \<Rightarrow> nat \<Rightarrow> u8" where
  "mc_mem mc = (case mc_backing mc of None \<Rightarrow> (\<lambda>_. 0) | Some bk \<Rightarrow> bk_contents bk)"

definition bk_good :: "'b MemController \<Rightarrow> bool" where
  "bk_good mc \<longleftrightarrow> (\<forall>bk. mc_backing mc = Some bk \<longrightarrow> bk_inv bk)"

definition ev_at :: "MemEvent \<Rightarrow> Addr" where
  "ev_at ev = (if cmd ev = Write then ev_addr ev else data_addr ev)"

definition in_store :: "'b MemController \<Rightarrow> MemEvent \<Rightarrow> bool" where
  "in_store mc ev \<longleftrightarrow> unat (ev_at ev) + unat (ev_size ev) \<le> 2 ^ 64 \<and>
     (\<forall>bk. mc_backing mc = Some bk \<longrightarrow> (\<forall>x. unat (ev_at ev) \<le> x \<and> x < unat (ev_at ev) + unat (ev_size ev) \<longrightarrow> bk_held bk x))"

text \<open>The same controller up to the content of the backing store.\<close>

definition mc_frame :: "'b MemController \<Rightarrow> 'b MemController \<Rightarrow> bool" where
  "mc_frame mc mc' \<longleftrightarrow> map_option bk_held (mc_backing mc') = map_option bk_held (mc_backing mc) \<and> bk_good mc' \<and>
     mc_convertor mc' = mc_convertor mc \<and> mc_backend mc' = mc_backend mc \<and> mc_region mc' = mc_region mc \<and>
     mc_privateMemOffset mc' = mc_privateMemOffset mc \<and> mc_custom mc' = mc_custom mc \<and> mc_clockOn mc' = mc_clockOn mc \<and>
     mc_name mc' = mc_name mc"

lemma mc_frame_refl: "bk_good mc \<Longrightarrow> mc_frame mc mc"
  by (simp add: mc_frame_def)

lemma mc_frame_trans: "mc_frame a b \<Longrightarrow> mc_frame b c \<Longrightarrow> mc_frame a c"
  by (simp add: mc_frame_def)

lemma mc_frame_good: "mc_frame a b \<Longrightarrow> bk_good b"
  by (simp add: mc_frame_def)

lemma in_store_frame:
  assumes "map_option bk_held (mc_backing mc') = map_option bk_held (mc_backing mc)"
  shows "in_store mc' ev = in_store mc ev"
  using assms by (cases "mc_backing mc"; cases "mc_backing mc'") (simp_all add: in_store_def)

text \<open>What an answered write leaves, and what an answered read returns.\<close>

definition is_store :: "MemEvent \<Rightarrow> bool" where
  "is_store ev \<longleftrightarrow> cmd ev = PutM \<or> cmd ev = Write"

definition is_read :: "MemEvent \<Rightarrow> bool" where
  "is_read ev \<longleftrightarrow> CommandResponse (cmd ev) = GetSResp \<or> CommandResponse (cmd ev) = GetXResp"

definition stored :: "MemEvent \<Rightarrow> (nat \<Rightarrow> u8) \<Rightarrow> nat \<Rightarrow> u8" where
  "stored ev f = (if is_store ev then patch (unat (ev_at ev)) (take (unat (ev_size ev)) (getPayload ev)) f else f)"

definition loaded :: "MemEvent \<Rightarrow> (nat \<Rightarrow> u8) \<Rightarrow> u8 list" where
  "loaded ev f = map f [unat (ev_at ev)..<unat (ev_at ev) + unat (ev_size ev)]"

lemma getPayload_length: "unat (ev_size ev) \<le> length (getPayload ev)"
  by (simp add: getPayload_def resizePayload_def)

lemma writeData_ok:
  assumes "bk_good mc" "in_store mc ev" "mc_backing mc \<noteq> None" "is_store ev"
  shows "\<exists>bk. writeData ev mc = Inr (mc\<lparr>mc_backing := Some bk\<rparr>) \<and> mc_frame mc (mc\<lparr>mc_backing := Some bk\<rparr>) \<and>
    mc_mem (mc\<lparr>mc_backing := Some bk\<rparr>) = stored ev (mc_mem mc)"
proof -
  obtain bk where bk: "mc_backing mc = Some bk" "bk_inv bk" using assms(1,3) by (auto simp: bk_good_def)
  let ?d = "take (unat (ev_size ev)) (getPayload ev)"
  have len: "length ?d = unat (ev_size ev)" using getPayload_length [of ev] by simp
  have at: "(if cmd ev = PutM then data_addr ev else ev_addr ev) = ev_at ev" using assms(4) by (auto simp: is_store_def ev_at_def)
  obtain bk' where "bk_store (ev_at ev) ?d bk = Inr bk'" "bk_inv bk'" "bk_held bk' = bk_held bk"
    "bk_contents bk' = patch (unat (ev_at ev)) ?d (bk_contents bk)"
    using bk.store_ok [OF bk(2), of "ev_at ev" ?d] assms(2) bk(1) len by (auto simp: in_store_def)
  then show ?thesis using bk assms(4) getPayload_length [of ev] at
    by (intro exI [of _ bk']) (auto simp: writeData_def Let_def bk_set_def vec_slice_def mc_frame_def bk_good_def mc_mem_def stored_def is_store_def)
qed

lemma readData_ok:
  assumes "bk_good mc" "in_store mc ev" "cmd ev \<noteq> Write"
  shows "\<exists>mc'. readData ev mc = Inr (mc', setPayload (loaded ev (mc_mem mc)) ev) \<and> mc_frame mc mc' \<and> mc_mem mc' = mc_mem mc \<and>
    mc_outstanding mc' = mc_outstanding mc \<and> mc_sent mc' = mc_sent mc"
proof (cases "mc_backing mc")
  case None
  then show ?thesis using assms(1)
    by (simp add: readData_def with_backing_def mc_frame_refl loaded_def mc_mem_def map_replicate_const)
next
  case (Some bk)
  then have bk: "bk_inv bk" using assms(1) by (simp add: bk_good_def)
  have at: "data_addr ev = ev_at ev" using assms(3) by (simp add: ev_at_def)
  obtain bk' where b: "bk_load (ev_at ev) (unat (ev_size ev)) bk = Inr (bk', loaded ev (bk_contents bk))" "bk_inv bk'"
    "bk_held bk' = bk_held bk" "bk_contents bk' = bk_contents bk"
    using bk.load_ok [OF bk, of "ev_at ev" "unat (ev_size ev)"] assms(2) Some by (auto simp: in_store_def loaded_def)
  show ?thesis using Some b at
    by (intro exI [of _ "mc\<lparr>mc_backing := Some bk'\<rparr>"])
      (simp add: readData_def with_backing_def bk_get_def mc_frame_def bk_good_def mc_mem_def)
qed

text \<open>The response, from the memory as it is when the back end answers.\<close>

definition answer_of :: "McEnv \<Rightarrow> u32 \<Rightarrow> 'b MemController \<Rightarrow> MemEvent \<Rightarrow> MemEvent" where
  "answer_of E flags mc ev =
     (let r = makeResponse (me_ptr E) ev;
          r = (if is_read ev then setPayload (loaded ev (mc_mem mc)) r else r);
          r = (if is_read ev \<and> \<not> queryFlag F_NONCACHEABLE ev then r\<lparr>cmd := GetXResp\<rparr> else r);
          r = r\<lparr>ev_flags := flags\<rparr>
      in if addrGlobal ev then r\<lparr>baseAddr := translateToGlobal mc (baseAddr ev), ev_addr := translateToGlobal mc (ev_addr ev)\<rparr> else r)"

lemma resp_sel:
  "cmd (makeResponse p ev) = CommandResponse (cmd ev)" "ev_size (makeResponse p ev) = ev_size ev"
  "data_addr (makeResponse p ev) = data_addr ev" "queryFlag f (makeResponse p ev) = queryFlag f ev"
  "responseToID (makeResponse p ev) = eventID ev"
  by (simp_all add: makeResponse_simps data_addr_def queryFlag_def)

lemma answer_of_id [simp]: "responseToID (answer_of E flags mc ev) = eventID ev"
  by (simp add: answer_of_def Let_def resp_sel setPayload_def)

lemma translate_frame: "mc_frame mc mc' \<Longrightarrow> translateToGlobal mc' = translateToGlobal mc"
  by (simp add: fun_eq_iff translateToGlobal_def mc_frame_def)

lemma respond_ok:
  assumes "bk_good mc" "in_store mc ev"
  shows "\<exists>mc'. respond E flags ev mc = Inr (mc_send (answer_of E flags mc ev) mc') \<and> mc_frame mc mc' \<and> mc_mem mc' = mc_mem mc \<and>
    mc_outstanding mc' = mc_outstanding mc \<and> mc_sent mc' = mc_sent mc"
proof (cases "is_read ev")
  case True
  let ?r = "makeResponse (me_ptr E) ev"
  have nw: "cmd ?r \<noteq> Write" "cmd ev \<noteq> Write" using True by (auto simp: resp_sel is_read_def CommandResponse_def)
  then have at: "ev_at ?r = ev_at ev" by (simp add: ev_at_def resp_sel)
  then have "in_store mc ?r" using assms(2) by (simp add: in_store_def resp_sel)
  then obtain mc' where m: "readData ?r mc = Inr (mc', setPayload (loaded ?r (mc_mem mc)) ?r)" "mc_frame mc mc'"
    "mc_mem mc' = mc_mem mc" "mc_outstanding mc' = mc_outstanding mc" "mc_sent mc' = mc_sent mc"
    using readData_ok [OF assms(1) _ nw(1)] by blast
  have "loaded ?r (mc_mem mc) = loaded ev (mc_mem mc)" by (simp add: loaded_def at resp_sel)
  then have "respond E flags ev mc = Inr (mc_send (answer_of E flags mc ev) mc')"
    using m True translate_frame [OF m(2)]
    by (simp add: respond_def Let_def answer_of_def is_read_def resp_sel setPayload_def queryFlag_def)
  then show ?thesis using m by blast
next
  case False
  then have "respond E flags ev mc = Inr (mc_send (answer_of E flags mc ev) mc)"
    by (simp add: respond_def Let_def answer_of_def is_read_def resp_sel)
  then show ?thesis using mc_frame_refl [OF assms(1)] by blast
qed

lemma send_frame: "mc_frame a b \<Longrightarrow> mc_frame a (mc_send ev b)"
  by (simp add: mc_frame_def mc_send_def bk_good_def)

lemma send_sel [simp]:
  "mc_mem (mc_send ev mc) = mc_mem mc" "mc_outstanding (mc_send ev mc) = mc_outstanding mc"
  "mc_sent (mc_send ev mc) = mc_sent mc @ [ev]"
  by (simp_all add: mc_send_def mc_mem_def)

text \<open>The abstract effect of an answer: the event is gone, the bytes are written, the response is sent.\<close>

lemma handleMemResponse_ok:
  assumes good: "bk_good mc" and ev: "map_find (mc_outstanding mc) i = Some ev" "cmd ev \<noteq> CustomReq" "in_store mc ev"
  defines "mem \<equiv> (if mc_backing mc = None then mc_mem mc else stored ev (mc_mem mc))"
  shows "\<exists>mc' r. handleMemResponse E i flags mc = Inr mc' \<and> mc_frame mc mc' \<and>
    mc_outstanding mc' = map_erase i (mc_outstanding mc) \<and> mc_mem mc' = mem \<and>
    mc_sent mc' = mc_sent mc @ (if queryFlag F_NORESPONSE ev then [] else [r]) \<and> responseToID r = eventID ev \<and>
    (is_read ev \<longrightarrow> payload r = loaded ev mem \<and> getPayload r = loaded ev mem \<and>
       (\<not> queryFlag F_NONCACHEABLE ev \<longrightarrow> cmd r = GetXResp) \<and>
       (addrGlobal ev \<longrightarrow> baseAddr r = translateToGlobal mc (baseAddr ev)))"
proof -
  define mc1 where "mc1 = mc\<lparr>mc_outstanding := map_erase i (mc_outstanding mc)\<rparr>"
  have g1: "bk_good mc1" "in_store mc1 ev" "mc_frame mc mc1" "mc_mem mc1 = mc_mem mc"
    using good ev(3) by (simp_all add: mc1_def bk_good_def in_store_def mc_frame_def mc_mem_def)
  have b1: "mc_backing mc1 = mc_backing mc" by (simp add: mc1_def)
  obtain mc2 where w: "(if mc_backing mc1 \<noteq> None \<and> (cmd ev = PutM \<or> cmd ev = Write) then writeData ev mc1 else Inr mc1) = Inr mc2"
    "mc_frame mc1 mc2" "mc_mem mc2 = mem" "mc_outstanding mc2 = mc_outstanding mc1" "mc_sent mc2 = mc_sent mc1"
  proof (cases "mc_backing mc1 \<noteq> None \<and> is_store ev")
    case True
    then obtain bk where "writeData ev mc1 = Inr (mc1\<lparr>mc_backing := Some bk\<rparr>)" "mc_frame mc1 (mc1\<lparr>mc_backing := Some bk\<rparr>)"
      "mc_mem (mc1\<lparr>mc_backing := Some bk\<rparr>) = stored ev (mc_mem mc1)"
      using writeData_ok [OF g1(1,2)] by blast
    then show thesis using True that [of "mc1\<lparr>mc_backing := Some bk\<rparr>"] g1(4) b1 by (auto simp: is_store_def mem_def)
  next
    case False
    then show thesis using that [of mc1] g1(1,4) b1 by (auto simp: is_store_def mem_def stored_def mc_frame_refl)
  qed
  have f: "mc_frame mc mc2" by (rule mc_frame_trans [OF g1(3) w(2)])
  have un: "handleMemResponse E i flags mc = (if queryFlag F_NORESPONSE ev then Inr mc2 else respond E flags ev mc2)"
    by (simp only: handleMemResponse_def ev(1,2) option.case Let_def mc1_def [symmetric] if_False w(1) bindE_Inr)
  have "in_store mc2 ev" using ev(3) f in_store_frame [of mc2 mc ev] by (simp add: mc_frame_def)
  then obtain mc3 where r: "respond E flags ev mc2 = Inr (mc_send (answer_of E flags mc2 ev) mc3)" "mc_frame mc2 mc3"
    "mc_mem mc3 = mem" "mc_outstanding mc3 = mc_outstanding mc2" "mc_sent mc3 = mc_sent mc2"
    using respond_ok [OF mc_frame_good [OF w(2)]] w(3) by metis
  have c: "is_read ev \<longrightarrow> payload (answer_of E flags mc2 ev) = loaded ev mem \<and> getPayload (answer_of E flags mc2 ev) = loaded ev mem \<and>
      (\<not> queryFlag F_NONCACHEABLE ev \<longrightarrow> cmd (answer_of E flags mc2 ev) = GetXResp) \<and>
      (addrGlobal ev \<longrightarrow> baseAddr (answer_of E flags mc2 ev) = translateToGlobal mc (baseAddr ev))"
    using w(3) translate_frame [OF f]
    by (simp add: answer_of_def Let_def setPayload_def getPayload_def resizePayload_def loaded_def)
  have "mc_sent mc2 = mc_sent mc" "mc_outstanding mc2 = map_erase i (mc_outstanding mc)" using w by (simp_all add: mc1_def)
  then show ?thesis using un r c f w(3) send_frame [OF mc_frame_trans [OF f r(2)]]
    by (cases "queryFlag F_NORESPONSE ev") (auto intro!: exI [of _ "answer_of E flags mc2 ev"])
qed

section \<open>The invariant of the controller\<close>

definition ev_fine :: "'b MemController \<Rightarrow> id_type \<Rightarrow> MemEvent \<Rightarrow> bool" where
  "ev_fine mc i ev \<longleftrightarrow> eventID ev = i \<and> cmd ev \<noteq> CustomReq \<and> in_store mc ev"

lemma ev_fine_frame: "mc_frame mc mc' \<Longrightarrow> ev_fine mc' i ev = ev_fine mc i ev"
  using in_store_frame [of mc' mc ev] by (simp add: ev_fine_def mc_frame_def)

text \<open>The events of \<open>is\<close> that want a response.\<close>

definition wanted :: "'b MemController \<Rightarrow> id_type list \<Rightarrow> id_type list" where
  "wanted mc is = filter (\<lambda>i. \<not> queryFlag F_NORESPONSE (the (map_find (mc_outstanding mc) i))) is"

lemma handleMemResponses_ok:
  assumes "bk_good mc" "key_sorted (mc_outstanding mc)" "distinct (map fst rs)"
    "\<And>i. i \<in> fst ` set rs \<Longrightarrow> \<exists>ev. map_find (mc_outstanding mc) i = Some ev \<and> ev_fine mc i ev"
  shows "\<exists>mc' resps. handleMemResponses E rs mc = Inr mc' \<and> mc_frame mc mc' \<and> key_sorted (mc_outstanding mc') \<and>
    map_find (mc_outstanding mc') = (\<lambda>i. if i \<in> fst ` set rs then None else map_find (mc_outstanding mc) i) \<and>
    mc_sent mc' = mc_sent mc @ resps \<and> map responseToID resps = wanted mc (map fst rs)"
  using assms
proof (induction rs arbitrary: mc)
  case Nil
  then show ?case by (auto simp: mc_frame_refl wanted_def)
next
  case (Cons x rs)
  obtain i flags where x: "x = (i, flags)" by (cases x)
  obtain ev where ev: "map_find (mc_outstanding mc) i = Some ev" "ev_fine mc i ev" using Cons.prems(4) [of i] x by auto
  obtain mc1 r where m1: "handleMemResponse E i flags mc = Inr mc1" "mc_frame mc mc1"
    "mc_outstanding mc1 = map_erase i (mc_outstanding mc)" "responseToID r = eventID ev"
    "mc_sent mc1 = mc_sent mc @ (if queryFlag F_NORESPONSE ev then [] else [r])"
    using handleMemResponse_ok [OF Cons.prems(1) ev(1), of E flags] ev(2) unfolding ev_fine_def by blast
  have find: "map_find (mc_outstanding mc1) = (map_find (mc_outstanding mc))(i := None)" "key_sorted (mc_outstanding mc1)"
    using m1(3) Cons.prems(2) by (simp_all add: map_find_erase key_sorted_map_erase)
  have i: "i \<notin> fst ` set rs" using Cons.prems(3) x by auto
  have rest: "\<exists>ev. map_find (mc_outstanding mc1) j = Some ev \<and> ev_fine mc1 j ev" if "j \<in> fst ` set rs" for j
    using Cons.prems(4) [of j] that i find(1) ev_fine_frame [OF m1(2)] by auto
  obtain mc' resps where m': "handleMemResponses E rs mc1 = Inr mc'" "mc_frame mc1 mc'" "key_sorted (mc_outstanding mc')"
    "map_find (mc_outstanding mc') = (\<lambda>i. if i \<in> fst ` set rs then None else map_find (mc_outstanding mc1) i)"
    "mc_sent mc' = mc_sent mc1 @ resps" "map responseToID resps = wanted mc1 (map fst rs)"
    using Cons.IH [OF mc_frame_good [OF m1(2)] find(2) _ rest] Cons.prems(3) by auto
  have w: "wanted mc1 (map fst rs) = wanted mc (map fst rs)"
    unfolding wanted_def by (rule filter_cong) (use i find(1) in auto)
  have "map_find (mc_outstanding mc') = (\<lambda>j. if j \<in> fst ` set (x # rs) then None else map_find (mc_outstanding mc) j)"
    unfolding m'(4) find(1) by (intro ext) (simp add: x)
  moreover have "map responseToID ((if queryFlag F_NORESPONSE ev then [] else [r]) @ resps) = wanted mc (map fst (x # rs))"
    using m'(6) w m1(4) x ev by (simp add: wanted_def ev_fine_def)
  moreover have "handleMemResponses E (x # rs) mc = Inr mc'" using m1(1) m'(1) x by simp
  moreover have "mc_sent mc' = mc_sent mc @ (if queryFlag F_NORESPONSE ev then [] else [r]) @ resps" using m1(5) m'(5) by simp
  ultimately show ?case using mc_frame_trans [OF m1(2) m'(2)] m'(3) by blast
qed

text \<open>
  The outstanding events are exactly those the convertor has, each within the backing store; no
  custom request is pending.
\<close>

definition mc_ok :: "('b \<Rightarrow> bool) \<Rightarrow> ('b \<Rightarrow> ReqId multiset) \<Rightarrow> 'b MemController \<Rightarrow> bool" where
  "mc_ok binv fl mc \<longleftrightarrow> binv (mc_backend mc) \<and> conv_ok (mc_convertor mc) (fl (mc_backend mc)) \<and> no_custom (mc_convertor mc) \<and>
     bk_good mc \<and> key_sorted (mc_outstanding mc) \<and> dom (map_find (mc_outstanding mc)) = outstanding (mc_convertor mc) \<and>
     (\<forall>i ev. map_find (mc_outstanding mc) i = Some ev \<longrightarrow> ev_fine mc i ev)"

text \<open>The convertor has moved on and reports \<open>rs\<close>.\<close>

lemma mc_answers:
  assumes ok: "mc_ok binv fl mc" and b: "binv b'" "conv_ok cv' (fl b')" "no_custom cv'" and a: "cv_answers (mc_convertor mc) rs cv'"
  shows "\<exists>mc' resps. handleMemResponses E rs (mc\<lparr>mc_convertor := cv', mc_backend := b', mc_clockOn := k\<rparr>) = Inr mc' \<and> mc_ok binv fl mc' \<and>
    mc_convertor mc' = cv' \<and> mc_backend mc' = b' \<and>
    mc_sent mc' = mc_sent mc @ resps \<and> distinct (map responseToID resps) \<and>
    set (map responseToID resps) = {i. \<exists>ev. map_find (mc_outstanding mc) i = Some ev \<and>
      map_find (mc_outstanding mc') i = None \<and> \<not> queryFlag F_NORESPONSE ev}"
proof -
  let ?mc = "mc\<lparr>mc_convertor := cv', mc_backend := b', mc_clockOn := k\<rparr>"
  have o: "dom (map_find (mc_outstanding mc)) = outstanding (mc_convertor mc)"
    and fine: "\<And>i ev. map_find (mc_outstanding mc) i = Some ev \<Longrightarrow> ev_fine mc i ev"
    and g: "bk_good mc" "key_sorted (mc_outstanding mc)" using ok by (auto simp: mc_ok_def)
  have fm: "ev_fine ?mc i ev = ev_fine mc i ev" for i ev by (simp add: ev_fine_def in_store_def)
  have d: "distinct (map fst rs)" "fst ` set rs \<subseteq> outstanding (mc_convertor mc)"
    and out': "outstanding cv' = outstanding (mc_convertor mc) - fst ` set rs" using a by (auto simp: cv_answers_def)
  have "\<exists>ev. map_find (mc_outstanding ?mc) i = Some ev \<and> ev_fine ?mc i ev" if "i \<in> fst ` set rs" for i
  proof -
    have "i \<in> dom (map_find (mc_outstanding mc))" using that d(2) o by blast
    then show ?thesis using fine [of i] fm [of i] by auto
  qed
  then obtain mc' resps where m': "handleMemResponses E rs ?mc = Inr mc'" "mc_frame ?mc mc'" "key_sorted (mc_outstanding mc')"
    "map_find (mc_outstanding mc') = (\<lambda>i. if i \<in> fst ` set rs then None else map_find (mc_outstanding ?mc) i)"
    "mc_sent mc' = mc_sent ?mc @ resps" "map responseToID resps = wanted ?mc (map fst rs)"
    using handleMemResponses_ok [of ?mc rs E] g d(1) by (auto simp: bk_good_def)
  have find: "map_find (mc_outstanding mc') = (\<lambda>i. if i \<in> fst ` set rs then None else map_find (mc_outstanding mc) i)"
    using m'(4) by (simp cong: if_cong)
  have sel: "mc_backend mc' = b'" "mc_convertor mc' = cv'" "bk_good mc'" using m'(2) by (auto simp: mc_frame_def)
  have dm: "dom (map_find (mc_outstanding mc')) = outstanding cv'" unfolding out' o [symmetric] find by (auto simp: dom_def)
  have fine': "ev_fine mc' i ev" if "map_find (mc_outstanding mc') i = Some ev" for i ev
    using that fine ev_fine_frame [OF m'(2)] fm unfolding find by (auto split: if_splits)
  have "mc_ok binv fl mc'" using b sel dm fine' m'(3) by (simp add: mc_ok_def)
  moreover have "distinct (map responseToID resps)" using m'(6) d(1) by (simp add: wanted_def)
  moreover have "set (map responseToID resps) = {i. \<exists>ev. map_find (mc_outstanding mc) i = Some ev \<and>
      map_find (mc_outstanding mc') i = None \<and> \<not> queryFlag F_NORESPONSE ev}"
  proof -
    have "i \<in> fst ` set rs \<longleftrightarrow> i \<in> dom (map_find (mc_outstanding mc)) \<and> map_find (mc_outstanding mc') i = None" for i
      using d(2) o unfolding find by (auto simp: dom_def)
    then show ?thesis unfolding m'(6) wanted_def by (auto simp: dom_def)
  qed
  ultimately show ?thesis using m'(1,5) sel by (intro exI [of _ mc'] exI [of _ resps]) simp
qed

lemma conv_turnClockOff_ok: "mc_ok binv fl (mc\<lparr>mc_convertor := conv_turnClockOff (mc_convertor mc), mc_clockOn := k\<rparr>) = mc_ok binv fl mc"
  by (simp add: mc_ok_def conv_turnClockOff_def bk_good_def ev_fine_def in_store_def no_custom_def pend_def)

section \<open>Taking an event in\<close>

lemma flush_depends_frame:
  "flush_depends ev ps cv deps = Inr (cv', ds) \<Longrightarrow> cv_heap cv' = cv_heap cv \<and> cv_pending cv' = cv_pending cv"
proof (induction ps arbitrary: cv deps)
  case (Cons p ps)
  obtain r where r: "map_find (cv_heap cv) p = Some r" using Cons.prems by (auto split: option.splits)
  show ?case
  proof (cases "\<exists>m. r = MemR m \<and> baseAddr (mr_event m) = baseAddr ev")
    case True
    then obtain m where "r = MemR m" "baseAddr (mr_event m) = baseAddr ev" by blast
    then have "\<exists>d ds0. flush_depends ev ps (cv\<lparr>cv_dependent := d\<rparr>) ds0 = Inr (cv', ds)"
      using Cons.prems r by (simp add: Let_def) blast
    then obtain d ds0 where "flush_depends ev ps (cv\<lparr>cv_dependent := d\<rparr>) ds0 = Inr (cv', ds)" by blast
    from Cons.IH [OF this] show ?thesis by simp
  next
    case False
    then have "flush_depends ev (p # ps) cv deps = flush_depends ev ps cv deps" using r by (cases r) auto
    then have "flush_depends ev ps cv deps = Inr (cv', ds)" using Cons.prems by (simp only:)
    then show ?thesis by (rule Cons.IH)
  qed
qed simp

lemma no_custom_flush:
  assumes "no_custom cv" "cmd ev = FlushLine \<or> cmd ev = FlushLineInv" "handleMemEvent ev cv = Inr (cv', rs)"
  shows "no_custom cv'"
proof -
  have un: "handleMemEvent ev cv = bindE (flush_depends ev (cv_queue cv) cv []) (\<lambda>(cv, deps).
      if deps = [] then Inr (cv, [(eventID ev, ev_flags ev)])
      else Inr (if map_find (cv_waiting cv) (evPtr ev) = None
                then cv\<lparr>cv_waiting := map_set (evPtr ev) deps (cv_waiting cv)\<rparr> else cv, []))"
    using assms(2) by (cases "flush_depends ev (cv_queue cv) cv []") (auto simp: handleMemEvent_def setupMemReq_def)
  then obtain cv1 deps where f: "flush_depends ev (cv_queue cv) cv [] = Inr (cv1, deps)"
    using assms(3) by (cases "flush_depends ev (cv_queue cv) cv []") auto
  then have "cv_heap cv' = cv_heap cv1 \<and> cv_pending cv' = cv_pending cv1" using assms(3) un by (auto split: if_splits)
  then have "cv_heap cv' = cv_heap cv \<and> cv_pending cv' = cv_pending cv" using flush_depends_frame [OF f] by simp
  then show ?thesis using assms(1) by (simp add: no_custom_def pend_def)
qed

lemma no_custom_request:
  assumes "no_custom cv" "conv_maps cv" "fresh_req cv" "cmd ev \<noteq> FlushLine" "cmd ev \<noteq> FlushLineInv"
    "handleMemEvent ev cv = Inr (cv', rs)"
  shows "no_custom cv'"
  using assms enqueue_views(1) [OF assms(2,3)]
  by (auto simp: handleMemEvent_def setupMemReq_def no_custom_def split: if_splits)

text \<open>
  What the controller relies on when it takes an event in: the id and the pointer are new, a
  request number is free, the counters of the request do not wrap, the bytes are in the store.
\<close>

definition acceptable :: "'b MemController \<Rightarrow> MemEvent \<Rightarrow> bool" where
  "acceptable mc ev \<longleftrightarrow> map_find (mc_outstanding mc) (eventID ev) = None \<and> cmd ev \<noteq> CustomReq \<and> in_store mc ev \<and>
     (if cmd ev = FlushLine \<or> cmd ev = FlushLineInv then map_find (cv_waiting (mc_convertor mc)) (evPtr ev) = None
      else fresh_req (mc_convertor mc) \<and> unat (ev_size ev) + unat (cv_width (mc_convertor mc)) < 2 ^ 32)"

lemma to_backend_queues:
  assumes ok: "mc_ok binv fl mc" and acc: "acceptable mc ev"
    and cv: "handleMemEvent ev (mc_convertor mc) = Inr (cv', [])" "conv_ok cv' (fl (mc_backend mc))" "no_custom cv'"
      "outstanding cv' = insert (eventID ev) (outstanding (mc_convertor mc))"
  shows "\<exists>mc'. to_backend E ev mc = Inr mc' \<and> mc_ok binv fl mc' \<and> mc_sent mc' = mc_sent mc \<and>
    map_find (mc_outstanding mc') = (map_find (mc_outstanding mc))(eventID ev \<mapsto> ev) \<and> mc_mem mc' = mc_mem mc"
proof -
  let ?mc = "mc\<lparr>mc_outstanding := map_set (eventID ev) ev (mc_outstanding mc), mc_convertor := cv'\<rparr>"
  have "to_backend E ev mc = Inr ?mc" using acc cv(1) by (simp add: to_backend_def Let_def mc_insert_def acceptable_def)
  moreover have "mc_ok binv fl ?mc"
    using ok cv(2-4) acc by (auto simp: mc_ok_def bk_good_def ev_fine_def in_store_def acceptable_def key_sorted_map_set)
  ultimately show ?thesis by (simp add: mc_mem_def)
qed

lemma to_backend_request:
  assumes ok: "mc_ok binv fl mc" and acc: "acceptable mc ev" and c: "cmd ev \<noteq> FlushLine" "cmd ev \<noteq> FlushLineInv"
  shows "\<exists>mc'. to_backend E ev mc = Inr mc' \<and> mc_ok binv fl mc' \<and> mc_sent mc' = mc_sent mc \<and>
    map_find (mc_outstanding mc') = (map_find (mc_outstanding mc))(eventID ev \<mapsto> ev) \<and> mc_mem mc' = mc_mem mc"
proof -
  have m: "conv_ok (mc_convertor mc) (fl (mc_backend mc))" "no_custom (mc_convertor mc)"
    and new: "eventID ev \<notin> outstanding (mc_convertor mc)" using ok acc by (auto simp: mc_ok_def acceptable_def)
  have f: "fresh_req (mc_convertor mc)" "unat (ev_size ev) + unat (cv_width (mc_convertor mc)) < 2 ^ 32"
    using acc c by (auto simp: acceptable_def)
  obtain cv' where cv: "handleMemEvent ev (mc_convertor mc) = Inr (cv', [])" "conv_ok cv' (fl (mc_backend mc))"
    "outstanding cv' = insert (eventID ev) (outstanding (mc_convertor mc))"
    using handleMemEvent_request [OF m(1) new f(1) c f(2)] by blast
  have "no_custom cv'" using no_custom_request [OF m(2) _ f(1) c cv(1)] m(1) by (simp add: conv_ok_def)
  then show ?thesis using to_backend_queues [OF ok acc cv(1,2) _ cv(3)] by blast
qed

text \<open>A flush is answered at once, or waits for the queued requests to its line.\<close>

lemma to_backend_flush:
  assumes ok: "mc_ok binv fl mc" and acc: "acceptable mc ev" and c: "cmd ev = FlushLine \<or> cmd ev = FlushLineInv"
  shows "\<exists>mc'. to_backend E ev mc = Inr mc' \<and> mc_ok binv fl mc' \<and>
    (if line_ids (mc_convertor mc) ev (cv_queue (mc_convertor mc)) = {} then map_find (mc_outstanding mc') = map_find (mc_outstanding mc)
     else mc_sent mc' = mc_sent mc \<and> map_find (mc_outstanding mc') = (map_find (mc_outstanding mc))(eventID ev \<mapsto> ev))"
proof -
  let ?cv = "mc_convertor mc"
  have m: "conv_ok ?cv (fl (mc_backend mc))" "no_custom ?cv" and new: "eventID ev \<notin> outstanding ?cv"
    using ok acc by (auto simp: mc_ok_def acceptable_def)
  have p: "map_find (cv_waiting ?cv) (evPtr ev) = None" using acc c by (auto simp: acceptable_def)
  let ?D = "line_ids ?cv ev (cv_queue ?cv)"
  obtain cv' where cv: "handleMemEvent ev ?cv = Inr (cv', if ?D = {} then [(eventID ev, ev_flags ev)] else [])"
    "conv_ok cv' (fl (mc_backend mc))" "outstanding cv' = outstanding ?cv \<union> (if ?D = {} then {} else {eventID ev})"
    using handleMemEvent_flush [OF m(1) new p c] by blast
  have nc: "no_custom cv'" by (rule no_custom_flush [OF m(2) c cv(1)])
  show ?thesis
  proof (cases "?D = {}")
    case False
    then show ?thesis using to_backend_queues [OF ok acc, of cv'] cv nc by auto
  next
    case True
    let ?mc = "mc\<lparr>mc_outstanding := map_set (eventID ev) ev (mc_outstanding mc), mc_convertor := cv'\<rparr>"
    have good: "bk_good ?mc" "ev_fine ?mc (eventID ev) ev" "key_sorted (mc_outstanding mc)"
      using ok acc by (auto simp: mc_ok_def bk_good_def acceptable_def ev_fine_def in_store_def)
    obtain mc' where m': "handleMemResponse E (eventID ev) (ev_flags ev) ?mc = Inr mc'" "mc_frame ?mc mc'"
      "mc_outstanding mc' = map_erase (eventID ev) (mc_outstanding ?mc)"
      using handleMemResponse_ok [OF good(1), of "eventID ev" ev E "ev_flags ev"] good(2) by (auto simp: ev_fine_def)
    have find: "map_find (mc_outstanding mc') = map_find (mc_outstanding mc)"
      using m'(3) acc good(3) by (simp add: map_find_erase key_sorted_map_set acceptable_def fun_upd_idem)
    have "to_backend E ev mc = Inr mc'"
      using acc cv(1) True m'(1) by (simp add: to_backend_def Let_def mc_insert_def acceptable_def)
    moreover have "mc_ok binv fl mc'"
    proof -
      have "mc_backend mc' = mc_backend mc" "mc_convertor mc' = cv'" "bk_good mc'" using m'(2) by (auto simp: mc_frame_def)
      moreover have "key_sorted (mc_outstanding mc')" using m'(3) good(3) by (simp add: key_sorted_map_set key_sorted_map_erase)
      moreover have "ev_fine mc' i e = ev_fine mc i e" for i e
        using ev_fine_frame [OF m'(2), of i e] by (simp add: ev_fine_def in_store_def)
      ultimately show ?thesis using ok cv(2,3) True nc find by (simp add: mc_ok_def)
    qed
    ultimately show ?thesis using True find by auto
  qed
qed

section \<open>Properties\<close>

lemma turnClockOn_ok [simp]:
  "mc_ok binv fl (mc_turnClockOn E mc) = mc_ok binv fl mc" "acceptable (mc_turnClockOn E mc) ev = acceptable mc ev"
  "localize (mc_turnClockOn E mc) ev = localize mc ev" "mc_mem (mc_turnClockOn E mc) = mc_mem mc"
  "mc_outstanding (mc_turnClockOn E mc) = mc_outstanding mc" "mc_sent (mc_turnClockOn E mc) = mc_sent mc"
  by (simp_all add: mc_turnClockOn_def conv_turnClockOn_def mc_ok_def acceptable_def bk_good_def ev_fine_def in_store_def
      no_custom_def pend_def fresh_req_def localize_def translateToLocal_def mc_mem_def Let_def cong: if_cong)

text \<open>
  The memory controller takes a read or a write in: it becomes outstanding with its local
  addresses (a \<open>PutM\<close> also with the flag that it wants no response), nothing is sent and nothing
  written yet, and the invariant that ties the outstanding events to the convertor's requests
  holds, also when the clock had been off.
\<close>
theorem memory_takes_request:
  assumes ok: "mc_ok binv fl mc" and loc: "localize mc ev = Inr lev" and acc: "acceptable mc lev"
    and c: "cmd ev = GetS \<or> cmd ev = GetX \<or> cmd ev = GetSX \<or> cmd ev = Write \<or> cmd ev = PutM"
  defines "sev \<equiv> (if cmd ev = PutM then setFlag F_NORESPONSE lev else lev)"
  shows "\<exists>mc'. mc_handleEvent E ev mc = Inr mc' \<and> mc_ok binv fl mc' \<and> mc_sent mc' = mc_sent mc \<and> mc_mem mc' = mc_mem mc \<and>
    map_find (mc_outstanding mc') = (map_find (mc_outstanding mc))(eventID ev \<mapsto> sev)"
proof -
  define mc1 where "mc1 = (if mc_clockOn mc then mc else mc_turnClockOn E mc)"
  have m1: "mc_ok binv fl mc1" "localize mc1 ev = Inr lev" "acceptable mc1 lev" "mc_sent mc1 = mc_sent mc" "mc_mem mc1 = mc_mem mc"
    "mc_outstanding mc1 = mc_outstanding mc" using ok loc acc by (simp_all add: mc1_def)
  have lev: "cmd lev = cmd ev" "eventID lev = eventID ev" using loc by (auto simp: localize_def bindE_eq_Inr_iff split: if_splits)
  have "unat (ev_at sev) + unat (ev_size sev) = unat (ev_at lev) + unat (ev_size lev)" "ev_at sev = ev_at lev" "ev_size sev = ev_size lev"
    "cmd sev = cmd lev" "eventID sev = eventID lev" "evPtr sev = evPtr lev"
    by (auto simp: sev_def setFlag_def ev_at_def data_addr_def queryFlag_def flag_defs bit.conj_disj_distrib2)
  then have acc': "acceptable mc1 sev" using m1(3) by (auto simp: acceptable_def in_store_def)
  have un: "mc_handleEvent E ev mc = to_backend E sev mc1"
    using c lev m1(2) by (auto simp: mc_handleEvent_def mc1_def [symmetric] sev_def Let_def)
  show ?thesis using to_backend_request [OF m1(1) acc', of E] c lev m1 un \<open>cmd sev = cmd lev\<close> \<open>eventID sev = eventID lev\<close> by auto
qed

text \<open>
  C10 The clock of the memory controller, over any back end that keeps its contract and does not
  fault: a cycle never faults (no answer of the back end is unrecognized, no access leaves the
  backing store), keeps the invariant, and sends exactly one response for each event that
  completed and wants one, and no other.
\<close>
theorem memory_cycle_responds_once:
  assumes B: "total_backend B binv fl" and ok: "mc_ok binv fl mc"
  shows "\<exists>mc' off resps. mc_clock B E cycle unclockLink mc = Some (Inr (mc', off)) \<and> mc_ok binv fl mc' \<and>
    mc_sent mc' = mc_sent mc @ resps \<and> distinct (map responseToID resps) \<and>
    set (map responseToID resps) = {i. \<exists>ev. map_find (mc_outstanding mc) i = Some ev \<and>
      map_find (mc_outstanding mc') i = None \<and> \<not> queryFlag F_NORESPONSE ev}"
proof -
  have MB: "mem_backend B binv fl" using B by (simp add: total_backend_def)
  have m: "binv (mc_backend mc)" "conv_ok (mc_convertor mc) (fl (mc_backend mc))" "no_custom (mc_convertor mc)"
    using ok by (auto simp: mc_ok_def)
  obtain cv b rs off where c: "conv_clock B cycle (mc_convertor mc) (mc_backend mc) = Some (Inr (cv, b, rs, off))" "no_custom cv"
    using total_backend.clock_never_faults [OF B m] by blast
  have a: "binv b" "conv_ok cv (fl b)" "cv_answers (mc_convertor mc) rs cv"
    using mem_backend.clock_answers [OF MB m(1,2), of cycle] c(1) by auto
  obtain mc1 resps where m1: "handleMemResponses E rs (mc\<lparr>mc_convertor := cv, mc_backend := b\<rparr>) = Inr mc1" "mc_ok binv fl mc1"
    "mc_sent mc1 = mc_sent mc @ resps" "distinct (map responseToID resps)"
    "set (map responseToID resps) = {i. \<exists>ev. map_find (mc_outstanding mc) i = Some ev \<and>
      map_find (mc_outstanding mc1) i = None \<and> \<not> queryFlag F_NORESPONSE ev}"
    using mc_answers [OF ok a(1,2) c(2) a(3), of E "mc_clockOn mc"] by auto
  show ?thesis
    using m1 c(1) conv_turnClockOff_ok [where mc = mc1 and k = False and binv = binv and fl = fl]
    by (cases "unclockLink \<and> off") (auto simp: mc_clock_def)
qed

text \<open>
  An event of the back end's self link at the memory controller faults only if the back end
  itself does; otherwise the invariant holds and each completed event that wants a response gets
  exactly one.
\<close>
theorem memory_self_event_responds_once:
  assumes B: "total_backend B binv fl" and ok: "mc_ok binv fl mc"
  shows "(\<exists>e. be_self B k (mc_backend mc) = Inl e \<and> mc_self B E k mc = Inl e) \<or>
    (\<exists>mc' resps. mc_self B E k mc = Inr mc' \<and> mc_ok binv fl mc' \<and>
      mc_sent mc' = mc_sent mc @ resps \<and> distinct (map responseToID resps) \<and>
      set (map responseToID resps) = {i. \<exists>ev. map_find (mc_outstanding mc) i = Some ev \<and>
        map_find (mc_outstanding mc') i = None \<and> \<not> queryFlag F_NORESPONSE ev})"
proof -
  have MB: "mem_backend B binv fl" using B by (simp add: total_backend_def)
  have m: "binv (mc_backend mc)" "conv_ok (mc_convertor mc) (fl (mc_backend mc))" "no_custom (mc_convertor mc)"
    using ok by (auto simp: mc_ok_def)
  let ?c = "me_cycle E - 1"
  show ?thesis
  proof (cases "conv_self B ?c k (mc_convertor mc) (mc_backend mc)")
    case (Inl e)
    then show ?thesis using mem_backend.self_answers [OF MB m(1,2), of k ?c] by (auto simp: mc_self_def)
  next
    case (Inr x)
    obtain cv b rs where x: "x = (cv, b, rs)" by (cases x)
    have a: "binv b" "conv_ok cv (fl b)" "cv_answers (mc_convertor mc) rs cv"
      using mem_backend.self_answers [OF MB m(1,2), of k ?c] Inr x by auto
    have nc: "no_custom cv" using total_backend.self_no_custom [OF B m] Inr x by blast
    let ?k = "mc_clockOn mc \<or> \<not> cv_clockOn (mc_convertor mc) \<and> cv_clockOn cv"
    have "mc_self B E k mc = handleMemResponses E rs (mc\<lparr>mc_convertor := cv, mc_backend := b, mc_clockOn := ?k\<rparr>)"
      using Inr x by (simp add: mc_self_def)
    then show ?thesis using mc_answers [OF ok a(1,2) nc a(3), of E ?k] by auto
  qed
qed

lemma read_after_write:
  assumes good: "bk_good mc" "key_sorted (mc_outstanding mc)" "mc_backing mc \<noteq> None" and ij: "i \<noteq> j"
    and st: "map_find (mc_outstanding mc) i = Some st" "ev_fine mc i st" "cmd st = PutM \<or> cmd st = Write"
    and rd: "map_find (mc_outstanding mc) j = Some rd" "ev_fine mc j rd" "cmd rd = GetS \<or> cmd rd = GetX \<or> cmd rd = GetSX"
      "\<not> queryFlag F_NORESPONSE rd"
  shows "\<exists>mc1 mc2 r. handleMemResponse E i f1 mc = Inr mc1 \<and> handleMemResponse E j f2 mc1 = Inr mc2 \<and>
    mc_sent mc2 = mc_sent mc1 @ [r] \<and> responseToID r = j \<and>
    (addrGlobal rd \<longrightarrow> baseAddr r = translateToGlobal mc (baseAddr rd)) \<and>
    getPayload r = payload r \<and> (\<not> queryFlag F_NONCACHEABLE rd \<longrightarrow> cmd r = GetXResp) \<and>
    (ev_at rd = ev_at st \<and> ev_size rd = ev_size st \<longrightarrow> payload r = take (unat (ev_size st)) (getPayload st)) \<and>
    (unat (ev_at rd) + unat (ev_size rd) \<le> unat (ev_at st) \<or> unat (ev_at st) + unat (ev_size st) \<le> unat (ev_at rd) \<longrightarrow>
       payload r = loaded rd (mc_mem mc))"
proof -
  have "cmd st \<noteq> CustomReq" "in_store mc st" using st(2) by (auto simp: ev_fine_def)
  then obtain mc1 where m1: "handleMemResponse E i f1 mc = Inr mc1" "mc_frame mc mc1"
    "mc_outstanding mc1 = map_erase i (mc_outstanding mc)" "mc_mem mc1 = stored st (mc_mem mc)"
    using handleMemResponse_ok [OF good(1) st(1), of E f1] good(3) by auto
  have rd1: "map_find (mc_outstanding mc1) j = Some rd" using m1(3) rd(1) good(2) ij by (simp add: map_find_erase)
  have b1: "mc_backing mc1 \<noteq> None" using m1(2) good(3) by (cases "mc_backing mc"; cases "mc_backing mc1") (simp_all add: mc_frame_def)
  have "cmd rd \<noteq> CustomReq" "in_store mc1 rd" using rd(2) ev_fine_frame [OF m1(2), of j rd] by (auto simp: ev_fine_def)
  moreover have read: "is_read rd" "\<not> is_store rd" using rd(3) by (auto simp: is_read_def is_store_def CommandResponse_def)
  ultimately obtain mc2 r where m2: "handleMemResponse E j f2 mc1 = Inr mc2" "mc_sent mc2 = mc_sent mc1 @ [r]" "responseToID r = eventID rd"
    "payload r = loaded rd (mc_mem mc1)" "getPayload r = loaded rd (mc_mem mc1)" "\<not> queryFlag F_NONCACHEABLE rd \<longrightarrow> cmd r = GetXResp"
    "addrGlobal rd \<longrightarrow> baseAddr r = translateToGlobal mc1 (baseAddr rd)"
    using handleMemResponse_ok [OF mc_frame_good [OF m1(2)] rd1, of E f2] rd(4) b1 by (auto simp: stored_def)
  have len: "length (take (unat (ev_size st)) (getPayload st)) = unat (ev_size st)" using getPayload_length [of st] by simp
  have s: "is_store st" using st(3) by (simp add: is_store_def)
  have "payload r = take (unat (ev_size st)) (getPayload st)" if "ev_at rd = ev_at st" "ev_size rd = ev_size st"
    using m2(4) m1(4) s that patch_hit [of "unat (ev_at st)" "take (unat (ev_size st)) (getPayload st)" "mc_mem mc"] len
    by (simp add: loaded_def stored_def)
  moreover have "payload r = loaded rd (mc_mem mc)"
    if "unat (ev_at rd) + unat (ev_size rd) \<le> unat (ev_at st) \<or> unat (ev_at st) + unat (ev_size st) \<le> unat (ev_at rd)"
    using m2(4) m1(4) s that len patch_miss [of "unat (ev_at rd)" "unat (ev_size rd)" "unat (ev_at st)"]
    by (simp add: loaded_def stored_def)
  ultimately show ?thesis using m1(1) m2 translate_frame [OF m1(2)] rd(2) by (auto simp: ev_fine_def)
qed

text \<open>
  C11 The memory returns what was last written. When the back end answers a write and later a read
  of the same bytes, the response carries the bytes written, at the address the read was for; a
  read of other bytes gets what was there before the write.
\<close>
theorem memory_read_after_write:
  assumes good: "bk_good mc" "key_sorted (mc_outstanding mc)" "mc_backing mc \<noteq> None" and ij: "i \<noteq> j"
    and st: "map_find (mc_outstanding mc) i = Some st" "ev_fine mc i st" "cmd st = PutM \<or> cmd st = Write"
    and rd: "map_find (mc_outstanding mc) j = Some rd" "ev_fine mc j rd" "cmd rd = GetS \<or> cmd rd = GetX \<or> cmd rd = GetSX"
      "\<not> queryFlag F_NORESPONSE rd"
  shows "\<exists>mc1 mc2 r. handleMemResponse E i f1 mc = Inr mc1 \<and> handleMemResponse E j f2 mc1 = Inr mc2 \<and>
    mc_sent mc2 = mc_sent mc1 @ [r] \<and> responseToID r = j \<and>
    (addrGlobal rd \<longrightarrow> baseAddr r = translateToGlobal mc (baseAddr rd)) \<and>
    (ev_at rd = ev_at st \<and> ev_size rd = ev_size st \<longrightarrow> payload r = take (unat (ev_size st)) (getPayload st)) \<and>
    (unat (ev_at rd) + unat (ev_size rd) \<le> unat (ev_at st) \<or> unat (ev_at st) + unat (ev_size st) \<le> unat (ev_at rd) \<longrightarrow>
       payload r = loaded rd (mc_mem mc))"
  using read_after_write [OF assms, of E f1 f2] by blast

section \<open>Concrete instances\<close>

definition demo_mcenv :: McEnv where
  "demo_mcenv = \<lparr>me_cycle = 1, me_ptr = 0, me_putId = (9, 0), me_noId = (0, -1)\<rparr>"

definition demo_region :: MemRegion where
  "demo_region = \<lparr>mr_start = 0, mr_end = 1023, interleaveSize = 64, interleaveStep = 128\<rparr>"

text \<open>A controller over the reordering DRAM stack that has taken one load in.\<close>

definition demo_mc :: "SDRAM ReorderRow MemController" where
  "demo_mc = \<lparr>mc_name = ''mem'', mc_convertor = demo_conv, mc_backend = demo_row, mc_backing = Some demo_malloc,
     mc_outstanding = [((0, 0), demo_rd)], mc_clockOn = True, mc_region = demo_region, mc_linkRegion = demo_region,
     mc_privateMemOffset = 0, mc_memSize = 256, mc_custom = None, mc_sent = []\<rparr>"

lemma demo_rd_at: "ev_at demo_rd = 64" "cmd demo_rd = GetS" "ev_flags demo_rd = 0" "addrGlobal demo_rd"
  by (simp_all add: ev_at_def data_addr_def demo_rd_def queryFlag_def demo_event_def newMemEvent_def)

lemma demo_malloc_ok: "bk_inv demo_malloc" "bk_held demo_malloc x"
  by (simp_all add: demo_malloc_def ml_ok_def)

lemma demo_mc_ok: "mc_ok (rw_ok sd_ok) (rw_inflight sd_inflight) demo_mc"
  by (simp add: mc_ok_def demo_mc_def demo_row_ok demo_conv_ok demo_conv_view bk_good_def demo_malloc_ok ev_fine_def in_store_def
      demo_rd_at)

text \<open>Witness for \<open>translate_round_trip\<close>: the second chunk of a region that has every other one.\<close>

theorem translate_round_trip_witness:
  "contains (mc_region demo_mc) 130 = Inr True \<and> (\<exists>l. translateToLocal demo_mc 130 = Inr l \<and> translateToGlobal demo_mc l = 130)"
proof
  show c: "contains (mc_region demo_mc) 130 = Inr True" by (simp add: contains_def demo_mc_def demo_region_def)
  show "\<exists>l. translateToLocal demo_mc 130 = Inr l \<and> translateToGlobal demo_mc l = 130"
    by (rule translate_round_trip [OF c]) (simp add: demo_mc_def demo_region_def)
qed

text \<open>Witness for \<open>adjusted_region_in_memory\<close>: 512 bytes of region in 256 bytes of memory.\<close>

theorem adjusted_region_in_memory_witness:
  "\<exists>mc'. adjustRegionToMemSize demo_mc = Inr mc' \<and> mc_linkRegion mc' = mc_region mc' \<and> mc_memSize mc' = mc_memSize demo_mc \<and>
    (\<forall>addr. contains (mc_region mc') addr = Inr True \<longrightarrow> (\<exists>l. translateToLocal mc' addr = Inr l \<and> l < mc_memSize mc'))"
  by (rule adjusted_region_in_memory) (simp_all add: demo_mc_def demo_region_def region_fits_def REGION_MAX_def)

text \<open>Witness for \<open>memory_takes_request\<close>: a second load.\<close>

definition demo_rd2 :: MemEvent where
  "demo_rd2 = demo_rd\<lparr>eventID := (1, 0), evPtr := 1\<rparr>"

theorem memory_takes_request_witness:
  "\<exists>mc'. mc_handleEvent demo_mcenv demo_rd2 demo_mc = Inr mc' \<and> mc_ok (rw_ok sd_ok) (rw_inflight sd_inflight) mc' \<and>
    mc_sent mc' = mc_sent demo_mc \<and> mc_mem mc' = mc_mem demo_mc \<and>
    map_find (mc_outstanding mc') = (map_find (mc_outstanding demo_mc))(eventID demo_rd2 \<mapsto> demo_rd2)"
proof -
  have l: "localize demo_mc demo_rd2 = Inr demo_rd2"
    by (simp add: localize_def translateToLocal_def demo_mc_def demo_region_def demo_rd2_def demo_rd_def demo_event_def newMemEvent_def Let_def)
  have "ev_at demo_rd2 = 64" "ev_size demo_rd2 = 64" "cmd demo_rd2 = GetS" "eventID demo_rd2 = (1, 0)"
    by (simp_all add: demo_rd2_def ev_at_def data_addr_def demo_rd_def queryFlag_def demo_event_def newMemEvent_def)
  then have a: "acceptable demo_mc demo_rd2"
    by (simp add: acceptable_def in_store_def demo_mc_def demo_malloc_ok fresh_req_def demo_conv_def enqueue_def Conv_new_def SimpleMemory_def Let_def)
  show ?thesis using memory_takes_request [OF demo_mc_ok l a, of demo_mcenv] \<open>cmd demo_rd2 = GetS\<close> by simp
qed

text \<open>Witness for \<open>memory_cycle_responds_once\<close>.\<close>

theorem memory_cycle_responds_once_witness:
  "\<exists>mc' off resps. mc_clock (RequestReorderRow (SimpleDRAM 1 64 1024) 1 64) demo_mcenv 1 True demo_mc = Some (Inr (mc', off)) \<and>
    mc_ok (rw_ok sd_ok) (rw_inflight sd_inflight) mc' \<and>
    mc_sent mc' = mc_sent demo_mc @ resps \<and> distinct (map responseToID resps) \<and>
    set (map responseToID resps) = {i. \<exists>ev. map_find (mc_outstanding demo_mc) i = Some ev \<and>
      map_find (mc_outstanding mc') i = None \<and> \<not> queryFlag F_NORESPONSE ev}"
  by (rule memory_cycle_responds_once [OF rrw.total_backend_axioms demo_mc_ok])

text \<open>Witness for \<open>memory_self_event_responds_once\<close>: the load comes back from the DRAM.\<close>

definition demo_mc_busy :: "SDRAM MemController" where
  "demo_mc_busy = \<lparr>mc_name = ''mem'', mc_convertor = issued 0 (demo_req 1) demo_conv, mc_backend = demo_busy, mc_backing = Some demo_malloc,
     mc_outstanding = [((0, 0), demo_rd)], mc_clockOn = True, mc_region = demo_region, mc_linkRegion = demo_region,
     mc_privateMemOffset = 0, mc_memSize = 256, mc_custom = None, mc_sent = []\<rparr>"

lemma demo_mc_busy_ok: "mc_ok sd_ok sd_inflight demo_mc_busy"
  using issued_ok [OF demo_conv_ok(1), of 0 "[]" "demo_req 1"] no_custom_issued [OF demo_conv_view(3,2)]
  by (simp add: mc_ok_def demo_mc_busy_def demo_busy_ok demo_conv_ok demo_conv_view bk_good_def demo_malloc_ok ev_fine_def in_store_def
      demo_rd_at)

theorem memory_self_event_responds_once_witness:
  "\<exists>mc' resps. mc_self (SimpleDRAM 1 64 1024) demo_mcenv 0 demo_mc_busy = Inr mc' \<and> mc_ok sd_ok sd_inflight mc' \<and>
      mc_sent mc' = mc_sent demo_mc_busy @ resps \<and> distinct (map responseToID resps) \<and>
      set (map responseToID resps) = {i. \<exists>ev. map_find (mc_outstanding demo_mc_busy) i = Some ev \<and>
        map_find (mc_outstanding mc') i = None \<and> \<not> queryFlag F_NORESPONSE ev}"
proof -
  have "\<exists>x. be_self (SimpleDRAM 1 64 1024) 0 (mc_backend demo_mc_busy) = Inr x"
    using sd_self_ok [OF demo_busy_ok(1), of 0] by (auto simp: SimpleDRAM_def demo_mc_busy_def demo_busy_def)
  then show ?thesis
    using memory_self_event_responds_once [OF sdram.total_backend_axioms demo_mc_busy_ok, of 1 64 1024 0 demo_mcenv] by auto
qed

text \<open>Witness for \<open>memory_read_after_write\<close>: two bytes written back, then loaded.\<close>

definition demo_put :: MemEvent where
  "demo_put = (demo_event 2 64 PutM)\<lparr>ev_size := 2, payload := [7, 8]\<rparr>"

definition demo_get :: MemEvent where
  "demo_get = (demo_event 3 64 GetS)\<lparr>ev_size := 2\<rparr>"

definition demo_mc_rw :: "SDRAM ReorderRow MemController" where
  "demo_mc_rw = demo_mc\<lparr>mc_outstanding := [((2, 0), demo_put), ((3, 0), demo_get)]\<rparr>"

theorem memory_read_after_write_witness:
  "\<exists>mc1 mc2 r. handleMemResponse demo_mcenv (2, 0) 0 demo_mc_rw = Inr mc1 \<and> handleMemResponse demo_mcenv (3, 0) 0 mc1 = Inr mc2 \<and>
    mc_sent mc2 = mc_sent mc1 @ [r] \<and> responseToID r = (3, 0) \<and> payload r = [7, 8]"
proof -
  have sel: "ev_at demo_put = 64" "ev_at demo_get = 64" "ev_size demo_put = 2" "ev_size demo_get = 2" "getPayload demo_put = [7, 8]"
    "eventID demo_put = (2, 0)" "eventID demo_get = (3, 0)" "cmd demo_put = PutM" "cmd demo_get = GetS" "\<not> queryFlag F_NORESPONSE demo_get"
    by (simp_all add: ev_at_def data_addr_def demo_put_def demo_get_def queryFlag_def demo_event_def newMemEvent_def getPayload_def resizePayload_def)
  have "bk_good demo_mc_rw" "key_sorted (mc_outstanding demo_mc_rw)" "mc_backing demo_mc_rw \<noteq> None"
    by (simp_all add: demo_mc_rw_def demo_mc_def bk_good_def demo_malloc_ok)
  moreover have "map_find (mc_outstanding demo_mc_rw) (2, 0) = Some demo_put" "map_find (mc_outstanding demo_mc_rw) (3, 0) = Some demo_get"
    by (simp_all add: demo_mc_rw_def)
  moreover have "ev_fine demo_mc_rw (2, 0) demo_put" "ev_fine demo_mc_rw (3, 0) demo_get"
    by (simp_all add: ev_fine_def in_store_def sel demo_mc_rw_def demo_mc_def demo_malloc_ok)
  ultimately show ?thesis
    using memory_read_after_write [of demo_mc_rw "(2, 0)" "(3, 0)" demo_put demo_get demo_mcenv 0 0] by (auto simp: sel)
qed

end
