(* ===== verification/MemH_AddrMapper.thy ===== *)
theory MemH_AddrMapper
  imports MemH_Lines
begin

unbundle bit_operations_syntax

text \<open>
  \<^verbatim>\<open>memHierarchy/membackend/timingAddrMapper.h\<close>: the three ways the timing DRAM maps an address
  to a channel, a rank, a bank and a row. The sizes are set by the constructors of the parts of
  the DRAM, one setter call each. Coordinates are \<open>int\<close>s of the code and so 32-bit words.
  Numbers of channels, ranks and banks are below \<open>2^31\<close> (see \<open>log2Of\<close>), and shifts below 64.
\<close>

section \<open>Mappers\<close>

record AddrMapper =
  am_channels :: u32
  am_ranks :: u32
  am_banks :: u32

text \<open>\<open>RoundRobin\<close> carries \<open>m_baseShift\<close>, \<open>m_rankDivider\<close> and \<open>m_rowDivider\<close>.\<close>

datatype Mapper =
    SimpleMapper AddrMapper
  | RoundRobin AddrMapper nat u32 u32
  | SandyBridge AddrMapper

definition AddrMapper_new :: AddrMapper where
  "AddrMapper_new = \<lparr>am_channels = 1, am_ranks = 1, am_banks = 8\<rparr>"

definition RoundRobinAddrMapper_new :: "u64 \<Rightarrow> u64 \<Rightarrow> Mapper res" where
  "RoundRobinAddrMapper_new ilSize rowSize =
     (if \<not> isPowerOfTwo (ucast ilSize) then Inl (Fatal ''RoundRobinAddrMapper'')
      else if \<not> isPowerOfTwo (ucast rowSize) then Inl (Fatal ''RoundRobinAddrMapper'')
      else if ilSize = 0 then Inl DivByZero
      else Inr (RoundRobin AddrMapper_new (log2Of (unat (ucast ilSize :: u32)))
        (am_channels AddrMapper_new * am_banks AddrMapper_new)
        (am_channels AddrMapper_new * am_ranks AddrMapper_new * am_banks AddrMapper_new * ucast (rowSize div ilSize))))"

definition div32 :: "u32 \<Rightarrow> u32 \<Rightarrow> u32 res" where
  "div32 a b = (if b = 0 then Inl DivByZero else Inr (a div b))"

fun setNumChannels :: "u32 \<Rightarrow> Mapper \<Rightarrow> Mapper res" where
  "setNumChannels num (SimpleMapper m) =
     (if isPowerOfTwo num then Inr (SimpleMapper (m\<lparr>am_channels := num\<rparr>)) else Inl (Fatal ''SimpleAddrMapper''))"
| "setNumChannels num (RoundRobin m base rankD rowD) =
     bindE (div32 (rowD * num) (am_channels m)) (\<lambda>rowD. Inr (RoundRobin (m\<lparr>am_channels := num\<rparr>) base (num * am_banks m) rowD))"
| "setNumChannels num (SandyBridge m) =
     (if num \<noteq> 1 then Inl (Fatal ''SandyBridgeAddrMapper'') else Inr (SandyBridge (m\<lparr>am_channels := num\<rparr>)))"

fun setNumRanks :: "u32 \<Rightarrow> Mapper \<Rightarrow> Mapper res" where
  "setNumRanks num (SimpleMapper m) =
     (if isPowerOfTwo num then Inr (SimpleMapper (m\<lparr>am_ranks := num\<rparr>)) else Inl (Fatal ''SimpleAddrMapper''))"
| "setNumRanks num (RoundRobin m base rankD rowD) =
     bindE (div32 (rowD * num) (am_ranks m)) (\<lambda>rowD. Inr (RoundRobin (m\<lparr>am_ranks := num\<rparr>) base rankD rowD))"
| "setNumRanks num (SandyBridge m) = Inr (SandyBridge (m\<lparr>am_ranks := num\<rparr>))"

fun setNumBanks :: "u32 \<Rightarrow> Mapper \<Rightarrow> Mapper res" where
  "setNumBanks num (SimpleMapper m) =
     (if isPowerOfTwo num then Inr (SimpleMapper (m\<lparr>am_banks := num\<rparr>)) else Inl (Fatal ''SimpleAddrMapper''))"
| "setNumBanks num (RoundRobin m base rankD rowD) =
     bindE (div32 (rowD * num) (am_banks m)) (\<lambda>rowD. Inr (RoundRobin (m\<lparr>am_banks := num\<rparr>) base (am_channels m * num) rowD))"
| "setNumBanks num (SandyBridge m) = Inr (SandyBridge (m\<lparr>am_banks := num\<rparr>))"

text \<open>The shifts and masks of \<open>SimpleAddrMapper\<close>; its base shift is 6 and its column shift 8.\<close>

definition channelShift :: nat where
  "channelShift = 6"

definition rankShift :: "AddrMapper \<Rightarrow> nat" where
  "rankShift m = 8 + channelShift + log2Of (unat (am_channels m))"

definition bankShift :: "AddrMapper \<Rightarrow> nat" where
  "bankShift m = rankShift m + log2Of (unat (am_ranks m))"

definition rowShift :: "AddrMapper \<Rightarrow> nat" where
  "rowShift m = bankShift m + log2Of (unat (am_banks m))"

definition field :: "nat \<Rightarrow> u32 \<Rightarrow> Addr \<Rightarrow> u32" where
  "field shift n addr = ucast (drop_bit shift addr AND scast (n - 1))"

definition div64 :: "u64 \<Rightarrow> u32 \<Rightarrow> u64 res" where
  "div64 a b = (if b = 0 then Inl DivByZero else Inr (a div ucast b))"

definition mod64 :: "u64 \<Rightarrow> u32 \<Rightarrow> u32 res" where
  "mod64 a b = (if b = 0 then Inl DivByZero else Inr (ucast (a mod ucast b)))"

fun getChannel :: "Mapper \<Rightarrow> Addr \<Rightarrow> u32 res" where
  "getChannel (SimpleMapper m) addr = Inr (field channelShift (am_channels m) addr)"
| "getChannel (RoundRobin m base rankD rowD) addr = mod64 (drop_bit base addr) (am_channels m)"
| "getChannel (SandyBridge m) addr = Inr 0"

fun getRank :: "Mapper \<Rightarrow> Addr \<Rightarrow> u32 res" where
  "getRank (SimpleMapper m) addr = Inr (field (rankShift m) (am_ranks m) addr)"
| "getRank (RoundRobin m base rankD rowD) addr = bindE (div64 (drop_bit base addr) rankD) (\<lambda>x. mod64 x (am_ranks m))"
| "getRank (SandyBridge m) addr = Inr (if am_ranks m = 1 then 0 else ucast (drop_bit 17 addr AND 1))"

fun getRow :: "Mapper \<Rightarrow> Addr \<Rightarrow> u32 res" where
  "getRow (SimpleMapper m) addr = Inr (ucast (drop_bit (rowShift m) addr))"
| "getRow (RoundRobin m base rankD rowD) addr = bindE (div64 (drop_bit base addr) rowD) (\<lambda>x. Inr (ucast x))"
| "getRow (SandyBridge m) addr = Inr (ucast (drop_bit (if am_ranks m = 1 then 17 else 18) addr AND (push_bit 15 1 - 1)))"

fun am_getBank :: "Mapper \<Rightarrow> Addr \<Rightarrow> u32 res" where
  "am_getBank (SimpleMapper m) addr = Inr (field (bankShift m) (am_banks m) addr)"
| "am_getBank (RoundRobin m base rankD rowD) addr = bindE (div64 (drop_bit base addr) (am_channels m)) (\<lambda>x. mod64 x (am_banks m))"
| "am_getBank (SandyBridge m) addr =
     bindE (getRow (SandyBridge m) addr) (\<lambda>row. Inr (ucast (drop_bit 14 addr AND 7) XOR (row AND 7)))"

section \<open>Coordinates in range\<close>

definition mapper_fits :: "Mapper \<Rightarrow> nat \<Rightarrow> nat \<Rightarrow> nat \<Rightarrow> bool" where
  "mapper_fits m C R K \<longleftrightarrow> (\<forall>addr. \<exists>c r k w. getChannel m addr = Inr c \<and> unat c < C \<and> getRank m addr = Inr r \<and> unat r < R \<and>
     am_getBank m addr = Inr k \<and> unat k < K \<and> getRow m addr = Inr w)"

lemma ucast_le32: "x \<le> (ucast (y :: u32) :: u64) \<Longrightarrow> unat (ucast x :: u32) \<le> unat y"
proof -
  assume "x \<le> ucast y"
  then have a: "unat x \<le> unat y" by (simp add: word_le_nat_alt unat_ucast_u32)
  moreover have "unat y < 2 ^ 32" using unsigned_less [of y, where ?'a = nat] by simp
  ultimately show ?thesis by (simp add: unsigned_ucast_eq take_bit_nat_eq_self)
qed

lemma ucast_less32: "x < (ucast (y :: u32) :: u64) \<Longrightarrow> unat (ucast x :: u32) = unat x \<and> unat x < unat y"
proof -
  assume "x < ucast y"
  then have a: "unat x < unat y" by (simp add: word_less_nat_alt unat_ucast_u32)
  moreover have "unat y < 2 ^ 32" using unsigned_less [of y, where ?'a = nat] by simp
  ultimately show ?thesis by (simp add: unsigned_ucast_eq take_bit_nat_eq_self)
qed

definition small :: "u32 \<Rightarrow> bool" where
  "small n \<longleftrightarrow> 0 < n \<and> unat n \<le> 2147483648"

lemma small_minus_1: "small n \<Longrightarrow> unat (n - 1) = unat n - 1 \<and> unat (n - 1) < 2147483648"
proof -
  assume a: "small n"
  then have "unat (n - 1) = unat n - 1" by (simp add: small_def unat_minus_one word_greater_zero_iff)
  then show ?thesis using a by (auto simp: small_def word_less_nat_alt)
qed

lemma field_less: "small n \<Longrightarrow> unat (field s n addr) < unat n"
proof -
  assume n: "small n"
  have "drop_bit s addr AND scast (n - 1) \<le> (scast (n - 1) :: u64)" by (rule word_and_le1)
  then have "unat (field s n addr) \<le> unat (n - 1)"
    using small_minus_1 [OF n] ucast_le32 [of "drop_bit s addr AND scast (n - 1)" "n - 1"] by (simp add: field_def scast_u32_small)
  then show ?thesis using small_minus_1 [OF n] n by (auto simp: small_def word_less_nat_alt)
qed

lemma mod64_less: "n \<noteq> 0 \<Longrightarrow> \<exists>c. mod64 x n = Inr c \<and> unat c < unat n \<and> unat c = unat x mod unat n"
proof -
  assume n: "n \<noteq> 0"
  then have "(0 :: u64) < ucast n" by (simp add: word_less_nat_alt unat_ucast_u32 unat_gt_0)
  then have "x mod ucast n < ucast n" by (rule word_mod_less_divisor)
  from ucast_less32 [OF this] n show ?thesis by (auto simp: mod64_def unat_mod_distrib unat_ucast_u32)
qed

text \<open>The sizes the setters leave, when the row divider does not overflow.\<close>

definition rr_ok :: "nat \<Rightarrow> Mapper \<Rightarrow> bool" where
  "rr_ok k m \<longleftrightarrow> (case m of RoundRobin a base rankD rowD \<Rightarrow>
      am_channels a \<noteq> 0 \<and> am_ranks a \<noteq> 0 \<and> am_banks a \<noteq> 0 \<and> 0 < k \<and>
      unat rankD = unat (am_channels a) * unat (am_banks a) \<and>
      unat rowD = unat (am_channels a) * unat (am_ranks a) * unat (am_banks a) * k
    | _ \<Rightarrow> False)"

definition configure :: "u32 \<Rightarrow> u32 \<Rightarrow> u32 \<Rightarrow> Mapper \<Rightarrow> Mapper res" where
  "configure C R K m = bindE (setNumChannels C m) (\<lambda>m. bindE (setNumRanks R m) (setNumBanks K))"

lemma div32_exact:
  assumes "unat d = unat a * n" and "a \<noteq> 0" and "unat d * unat b < 4294967296"
  shows "\<exists>q. div32 (d * b) a = Inr q \<and> unat q = unat b * n"
proof -
  have a: "0 < unat a" using assms(2) by (simp add: unat_gt_0)
  have "unat (d * b) = unat d * unat b" using assms(3) by (simp add: unat_mult_lem [THEN iffD1])
  then have "unat (d * b div a) = unat b * n"
    using assms(1) a by (simp add: unat_div_distrib ac_simps)
  then show ?thesis using assms(2) by (simp add: div32_def)
qed

lemma radix: "(x :: nat) div (n * b) * b + x div n mod b = x div n"
  by (simp only: div_mult2_eq div_mult_mod_eq)

lemma unat_drop: "unat (drop_bit s (a :: u64)) = unat a div 2 ^ s"
  by (simp only: unat_drop_bit_eq) (simp only: drop_bit_eq_div)

lemma pow2_of:
  assumes "isPowerOfTwo n" and "0 < n"
  shows "unat n = 2 ^ log2Of (unat n)"
proof (rule ccontr)
  let ?w = "log2Of (unat n)"
  assume ne: "unat n \<noteq> 2 ^ ?w"
  have b: "2 ^ ?w \<le> unat n" "unat n < 2 ^ Suc ?w" using log2Of_bounds [of "unat n"] assms(2) by (auto simp: unat_gt_0)
  have m: "unat (n - 1) = unat n - 1" using assms(2) by (simp add: unat_minus_one word_greater_zero_iff)
  have hi: "bit x ?w" if "2 ^ ?w \<le> unat x" "unat x < 2 ^ Suc ?w" for x :: u32
  proof -
    have "unat x div 2 ^ ?w = 1" using that by (simp add: div_nat_eqI)
    then have "bit (unat x) ?w" by (simp add: bit_iff_odd)
    then show ?thesis by (simp add: bit_unsigned_iff)
  qed
  have "bit (n AND (n - 1)) ?w" using hi [OF b] hi [of "n - 1"] b ne m by (auto simp: bit_and_iff)
  then show False using assms(1) by (simp add: isPowerOfTwo_def)
qed

lemma field_value:
  assumes "isPowerOfTwo n" and "small n"
  shows "unat (field s n addr) = unat addr div 2 ^ s mod 2 ^ log2Of (unat n)"
proof -
  let ?w = "log2Of (unat n)"
  have n: "unat n = 2 ^ ?w" using assms pow2_of by (simp add: small_def)
  have "(2 :: nat) ^ ?w \<le> 2 ^ 31" using assms(2) n by (simp add: small_def)
  then have w: "?w \<le> 31" by (rule power_le_imp_le_exp [rotated]) simp
  have "unat (n - 1) = 2 ^ ?w - 1" using small_minus_1 [OF assms(2)] n by simp
  then have "unat (scast (n - 1) :: u64) = 2 ^ ?w - 1"
    using small_minus_1 [OF assms(2)] by (simp add: scast_u32_small unat_ucast_u32)
  then have "unat (drop_bit s addr AND scast (n - 1)) = unat addr div 2 ^ s mod 2 ^ ?w"
    by (simp only: unsigned_and_eq unat_drop mask_eq_exp_minus_1 [symmetric] take_bit_eq_mask [symmetric] take_bit_eq_mod)
  moreover have "unat addr div 2 ^ s mod 2 ^ ?w < 2 ^ 32"
    using w by (intro less_le_trans [OF mod_less_divisor power_increasing]) auto
  ultimately show ?thesis by (simp add: field_def unsigned_ucast_eq take_bit_nat_eq_self)
qed

text \<open>
  The fields of the simple mapper partition the address: with power-of-two sizes, the low six
  bits, channel, eight column bits, rank, bank and row give the address back, so two addresses
  share a row of a bank exactly when they differ only in column and offset (as long as the row
  number fits the \<open>int\<close> that carries it).
\<close>
theorem simple_mapper_decodes:
  assumes "isPowerOfTwo (am_channels m)" and "isPowerOfTwo (am_ranks m)" and "isPowerOfTwo (am_banks m)"
    and "small (am_channels m)" and "small (am_ranks m)" and "small (am_banks m)" and "unat addr div 2 ^ rowShift m < 2 ^ 32"
  shows "\<exists>c r k w col off. getChannel (SimpleMapper m) addr = Inr c \<and> getRank (SimpleMapper m) addr = Inr r \<and>
     am_getBank (SimpleMapper m) addr = Inr k \<and> getRow (SimpleMapper m) addr = Inr w \<and>
     unat c < unat (am_channels m) \<and> unat r < unat (am_ranks m) \<and> unat k < unat (am_banks m) \<and> col < 2 ^ 8 \<and> off < 2 ^ 6 \<and>
     unat addr = ((((unat w * unat (am_banks m) + unat k) * unat (am_ranks m) + unat r) * 2 ^ 8 + col) * unat (am_channels m) + unat c) * 2 ^ 6 + off"
proof -
  let ?a = "unat addr"
  define cw rw kw where l: "cw = log2Of (unat (am_channels m))" "rw = log2Of (unat (am_ranks m))" "kw = log2Of (unat (am_banks m))"
  have p: "unat (am_channels m) = 2 ^ cw" "unat (am_ranks m) = 2 ^ rw" "unat (am_banks m) = 2 ^ kw"
    using assms pow2_of by (simp_all add: small_def l)
  have v: "unat (field channelShift (am_channels m) addr) = ?a div 2 ^ 6 mod 2 ^ cw"
    "unat (field (rankShift m) (am_ranks m) addr) = ?a div 2 ^ rankShift m mod 2 ^ rw"
    "unat (field (bankShift m) (am_banks m) addr) = ?a div 2 ^ bankShift m mod 2 ^ kw"
    using assms by (simp_all add: field_value channelShift_def l)
  have w: "unat (ucast (drop_bit (rowShift m) addr) :: u32) = ?a div 2 ^ rowShift m"
    using assms(7) by (simp add: unsigned_ucast_eq unat_drop take_bit_nat_eq_self)
  have "?a = ((((?a div 2 ^ rowShift m * 2 ^ kw + ?a div 2 ^ bankShift m mod 2 ^ kw) * 2 ^ rw + ?a div 2 ^ rankShift m mod 2 ^ rw) * 2 ^ 8 +
      ?a div 2 ^ (6 + cw) mod 2 ^ 8) * 2 ^ cw + ?a div 2 ^ 6 mod 2 ^ cw) * 2 ^ 6 + ?a mod 2 ^ 6"
  proof -
    have "?a div 2 ^ rowShift m * 2 ^ kw + ?a div 2 ^ bankShift m mod 2 ^ kw = ?a div 2 ^ bankShift m"
      by (simp only: rowShift_def power_add radix l)
    moreover have "?a div 2 ^ bankShift m * 2 ^ rw + ?a div 2 ^ rankShift m mod 2 ^ rw = ?a div 2 ^ rankShift m"
      by (simp only: bankShift_def power_add radix l)
    moreover have "?a div 2 ^ rankShift m * 2 ^ 8 + ?a div 2 ^ (6 + cw) mod 2 ^ 8 = ?a div 2 ^ (6 + cw)"
      using radix [of ?a "2 ^ (6 + cw)" "2 ^ 8"] by (simp add: rankShift_def channelShift_def power_add ac_simps l)
    moreover have "?a div 2 ^ (6 + cw) * 2 ^ cw + ?a div 2 ^ 6 mod 2 ^ cw = ?a div 2 ^ 6"
      by (simp only: power_add radix)
    ultimately show ?thesis by (simp only: div_mult_mod_eq)
  qed
  then have "?a = ((((unat (ucast (drop_bit (rowShift m) addr) :: u32) * unat (am_banks m) + unat (field (bankShift m) (am_banks m) addr)) *
      unat (am_ranks m) + unat (field (rankShift m) (am_ranks m) addr)) * 2 ^ 8 + ?a div 2 ^ (6 + cw) mod 2 ^ 8) * unat (am_channels m) +
      unat (field channelShift (am_channels m) addr)) * 2 ^ 6 + ?a mod 2 ^ 6"
    unfolding v w p by simp
  moreover have "?a div 2 ^ (6 + cw) mod 2 ^ 8 < 2 ^ 8" "?a mod 2 ^ 6 < 2 ^ 6" by (intro mod_less_divisor, simp)+
  ultimately show ?thesis using field_less assms(4-6)
    by (intro exI [of _ "field channelShift (am_channels m) addr"] exI [of _ "field (rankShift m) (am_ranks m) addr"]
        exI [of _ "field (bankShift m) (am_banks m) addr"] exI [of _ "ucast (drop_bit (rowShift m) addr) :: u32"]
        exI [of _ "?a div 2 ^ (6 + cw) mod 2 ^ 8"] exI [of _ "?a mod 2 ^ 6"]) simp
qed

lemma rr_coordinates:
  fixes addr :: Addr
  assumes m: "m = RoundRobin a base rankD rowD" "rr_ok k m"
  defines "n \<equiv> unat addr div 2 ^ base" and "C \<equiv> unat (am_channels a)" and "R \<equiv> unat (am_ranks a)" and "K \<equiv> unat (am_banks a)"
  obtains c r b where "getChannel m addr = Inr c" "getRank m addr = Inr r" "am_getBank m addr = Inr b"
    "getRow m addr = Inr (ucast (drop_bit base addr div ucast rowD))" "unat (drop_bit base addr div ucast rowD) = n div unat rowD"
    "unat c < C" "unat r < R" "unat b < K" "unat c = n mod C" "unat b = n div C mod K" "unat r = n div (C * K) mod R"
    "unat rowD = C * K * R * k" "0 < k"
proof -
  have z: "am_channels a \<noteq> 0" "am_ranks a \<noteq> 0" "am_banks a \<noteq> 0" "0 < k" "unat rankD = C * K" "unat rowD = C * R * K * k"
    using m by (simp_all add: rr_ok_def C_def R_def K_def)
  then have "0 < unat rankD" "0 < unat rowD" by (simp_all add: C_def K_def R_def unat_gt_0)
  then have nz: "rankD \<noteq> 0" "rowD \<noteq> 0" by auto
  have x: "unat (drop_bit base addr div ucast d) = n div unat d" for d :: u32
    by (simp add: unat_div_distrib unat_drop unat_ucast_u32 n_def)
  obtain c where c: "getChannel m addr = Inr c" "unat c < C" "unat c = n mod C"
    using mod64_less [OF z(1), of "drop_bit base addr"] m(1) by (auto simp: unat_drop n_def C_def)
  obtain b where b: "am_getBank m addr = Inr b" "unat b < K" "unat b = n div C mod K"
    using mod64_less [OF z(3), of "drop_bit base addr div ucast (am_channels a)"] m(1) z(1)
    by (auto simp: div64_def x C_def K_def)
  obtain r where r: "getRank m addr = Inr r" "unat r < R" "unat r = n div (C * K) mod R"
    using mod64_less [OF z(2), of "drop_bit base addr div ucast rankD"] m(1) nz z(5)
    by (auto simp: div64_def x R_def)
  have "getRow m addr = Inr (ucast (drop_bit base addr div ucast rowD))" using m(1) nz by (simp add: div64_def)
  then show thesis using that c b r x [of rowD] z(4,6) by (simp add: ac_simps)
qed

text \<open>
  The round-robin mapper deals blocks out to channels first, then to banks, then to ranks, and
  packs them into rows: with consistent dividers, channel, bank, rank, column and row are the
  digits of the block number, so two blocks never share all of them.
\<close>
theorem round_robin_decodes:
  assumes m: "m = RoundRobin a base rankD rowD" "rr_ok k m" and small: "unat addr div 2 ^ base div unat rowD < 2 ^ 32"
  shows "\<exists>c r b w col. getChannel m addr = Inr c \<and> getRank m addr = Inr r \<and> am_getBank m addr = Inr b \<and> getRow m addr = Inr w \<and>
     unat c < unat (am_channels a) \<and> unat r < unat (am_ranks a) \<and> unat b < unat (am_banks a) \<and> col < k \<and>
     unat addr div 2 ^ base = (((unat w * k + col) * unat (am_ranks a) + unat r) * unat (am_banks a) + unat b) * unat (am_channels a) + unat c"
proof -
  let ?n = "unat addr div 2 ^ base" and ?C = "unat (am_channels a)" and ?R = "unat (am_ranks a)" and ?K = "unat (am_banks a)"
  obtain c r b where x: "getChannel m addr = Inr c" "getRank m addr = Inr r" "am_getBank m addr = Inr b"
    "getRow m addr = Inr (ucast (drop_bit base addr div ucast rowD))" "unat (drop_bit base addr div ucast rowD) = ?n div unat rowD"
    "unat c < ?C" "unat r < ?R" "unat b < ?K" "unat c = ?n mod ?C" "unat b = ?n div ?C mod ?K" "unat r = ?n div (?C * ?K) mod ?R"
    "unat rowD = ?C * ?K * ?R * k" "0 < k" by (rule rr_coordinates [OF m, of addr])
  have w: "unat (ucast (drop_bit base addr div ucast rowD) :: u32) = ?n div (?C * ?K * ?R * k)"
    using small x(5,12) by (simp add: unsigned_ucast_eq take_bit_nat_eq_self)
  have "?n = (((?n div (?C * ?K * ?R * k) * k + ?n div (?C * ?K * ?R) mod k) * ?R + ?n div (?C * ?K) mod ?R) * ?K + ?n div ?C mod ?K) * ?C + ?n mod ?C"
    by (simp only: radix div_mult_mod_eq)
  moreover have "?n div (?C * ?K * ?R) mod k < k" using x(13) by simp
  ultimately show ?thesis using x w by metis
qed

lemma rr_fits: "m = RoundRobin a base rankD rowD \<Longrightarrow> rr_ok k m \<Longrightarrow>
  mapper_fits m (unat (am_channels a)) (unat (am_ranks a)) (unat (am_banks a))"
  by (unfold mapper_fits_def, intro allI, elim rr_coordinates) blast+

lemma simple_fits: "small (am_channels m) \<Longrightarrow> small (am_ranks m) \<Longrightarrow> small (am_banks m) \<Longrightarrow>
  mapper_fits (SimpleMapper m) (unat (am_channels m)) (unat (am_ranks m)) (unat (am_banks m))"
  by (simp add: mapper_fits_def field_less)

section \<open>Configuration\<close>

text \<open>
  The setters swap one factor of the row divider for another. The product is formed before the
  division, so it must fit 32 bits.
\<close>

lemma rr_setNumChannels:
  assumes "rr_ok k (RoundRobin a base rankD rowD)" and "num \<noteq> 0" and "unat rowD * unat num < 4294967296"
  shows "\<exists>rankD' rowD'. setNumChannels num (RoundRobin a base rankD rowD) = Inr (RoundRobin (a\<lparr>am_channels := num\<rparr>) base rankD' rowD') \<and>
    rr_ok k (RoundRobin (a\<lparr>am_channels := num\<rparr>) base rankD' rowD')"
proof -
  have z: "am_channels a \<noteq> 0" "am_ranks a \<noteq> 0" "am_banks a \<noteq> 0" "0 < k"
    "unat rowD = unat (am_channels a) * (unat (am_ranks a) * unat (am_banks a) * k)"
    using assms(1) by (simp_all add: rr_ok_def ac_simps)
  obtain q where q: "div32 (rowD * num) (am_channels a) = Inr q" "unat q = unat num * (unat (am_ranks a) * unat (am_banks a) * k)"
    using div32_exact [OF z(5) z(1) assms(3)] by blast
  have "unat num * unat (am_banks a) \<le> unat q"
    using z unat_gt_0 [of "am_ranks a"] by (simp add: q(2) Suc_le_eq)
  also have "\<dots> < 4294967296" using unsigned_less [of q, where ?'a = nat] by simp
  finally have "unat (num * am_banks a) = unat num * unat (am_banks a)" using unat_mult_lem [of num "am_banks a"] by simp
  then show ?thesis using q z assms(2) by (simp add: rr_ok_def ac_simps)
qed

lemma rr_setNumRanks:
  assumes "rr_ok k (RoundRobin a base rankD rowD)" and "num \<noteq> 0" and "unat rowD * unat num < 4294967296"
  shows "\<exists>rowD'. setNumRanks num (RoundRobin a base rankD rowD) = Inr (RoundRobin (a\<lparr>am_ranks := num\<rparr>) base rankD rowD') \<and>
    rr_ok k (RoundRobin (a\<lparr>am_ranks := num\<rparr>) base rankD rowD')"
proof -
  have z: "am_channels a \<noteq> 0" "am_ranks a \<noteq> 0" "am_banks a \<noteq> 0" "0 < k" "unat rankD = unat (am_channels a) * unat (am_banks a)"
    "unat rowD = unat (am_ranks a) * (unat (am_channels a) * unat (am_banks a) * k)"
    using assms(1) by (simp_all add: rr_ok_def ac_simps)
  obtain q where "div32 (rowD * num) (am_ranks a) = Inr q" "unat q = unat num * (unat (am_channels a) * unat (am_banks a) * k)"
    using div32_exact [OF z(6) z(2) assms(3)] by blast
  then show ?thesis using z assms(2) by (simp add: rr_ok_def ac_simps)
qed

lemma rr_setNumBanks:
  assumes "rr_ok k (RoundRobin a base rankD rowD)" and "num \<noteq> 0" and "unat rowD * unat num < 4294967296"
  shows "\<exists>rankD' rowD'. setNumBanks num (RoundRobin a base rankD rowD) = Inr (RoundRobin (a\<lparr>am_banks := num\<rparr>) base rankD' rowD') \<and>
    rr_ok k (RoundRobin (a\<lparr>am_banks := num\<rparr>) base rankD' rowD')"
proof -
  have z: "am_channels a \<noteq> 0" "am_ranks a \<noteq> 0" "am_banks a \<noteq> 0" "0 < k"
    "unat rowD = unat (am_banks a) * (unat (am_channels a) * unat (am_ranks a) * k)"
    using assms(1) by (simp_all add: rr_ok_def ac_simps)
  obtain q where q: "div32 (rowD * num) (am_banks a) = Inr q" "unat q = unat num * (unat (am_channels a) * unat (am_ranks a) * k)"
    using div32_exact [OF z(5) z(3) assms(3)] by blast
  have "unat (am_channels a) * unat num \<le> unat q"
    using z unat_gt_0 [of "am_ranks a"] by (simp add: q(2) Suc_le_eq ac_simps)
  also have "\<dots> < 4294967296" using unsigned_less [of q, where ?'a = nat] by simp
  finally have "unat (am_channels a * num) = unat (am_channels a) * unat num" using unat_mult_lem [of "am_channels a" num] by simp
  then show ?thesis using q z assms(2) by (simp add: rr_ok_def ac_simps)
qed

text \<open>Setting a size again changes nothing.\<close>

lemma rr_again:
  assumes "rr_ok k m" and "m = RoundRobin a base rankD rowD" and "unat rowD * unat (am_ranks a) < 4294967296"
    and "unat rowD * unat (am_banks a) < 4294967296"
  shows "setNumRanks (am_ranks a) m = Inr m" and "setNumBanks (am_banks a) m = Inr m"
proof -
  have z: "rr_ok k (RoundRobin a base rankD rowD)" "am_ranks a \<noteq> 0" "am_banks a \<noteq> 0" using assms(1,2) by (simp_all add: rr_ok_def)
  have same: "rowD' = rowD" if "rr_ok k (RoundRobin a base rankD' rowD')" for rankD' rowD'
    using that z(1) by (intro unsigned_word_eqI [where ?'a = nat]) (simp add: rr_ok_def)
  have same2: "rankD' = rankD" if "rr_ok k (RoundRobin a base rankD' rowD')" for rankD' rowD'
    using that z(1) by (intro unsigned_word_eqI [where ?'a = nat]) (simp add: rr_ok_def)
  show "setNumRanks (am_ranks a) m = Inr m" using rr_setNumRanks [OF z(1,2) assms(3)] same assms(2) by auto
  show "setNumBanks (am_banks a) m = Inr m" using rr_setNumBanks [OF z(1,3) assms(4)] same same2 assms(2) by auto
qed

lemma configured_rr:
  assumes "RoundRobinAddrMapper_new il row = Inr m" and "il \<le> row" and "unat (row div il) * 8 * unat C * unat R * unat K < 2 ^ 32"
    and "C \<noteq> 0" and "R \<noteq> 0" and "K \<noteq> 0"
  shows "\<exists>rankD rowD. configure C R K m = Inr (RoundRobin \<lparr>am_channels = C, am_ranks = R, am_banks = K\<rparr> (log2Of (unat (ucast il :: u32))) rankD rowD) \<and>
    rr_ok (unat (row div il)) (RoundRobin \<lparr>am_channels = C, am_ranks = R, am_banks = K\<rparr> (log2Of (unat (ucast il :: u32))) rankD rowD)"
proof -
  let ?k = "unat (row div il)" and ?b = "log2Of (unat (ucast il :: u32))"
  have il: "il \<noteq> 0" "m = RoundRobin AddrMapper_new ?b 8 (8 * ucast (row div il))"
    using assms(1) by (auto simp: RoundRobinAddrMapper_new_def AddrMapper_new_def split: if_splits)
  have pos: "0 < unat C" "0 < unat R" "0 < unat K" using assms(4-6) by (simp_all add: unat_gt_0)
  have k: "0 < ?k" using assms(2) il(1) by (simp add: unat_div_distrib div_greater_zero_iff word_le_nat_alt unat_gt_0)
  have big: "8 * ?k * unat C * unat R * unat K < 4294967296" using assms(3) by (simp add: ac_simps)
  have le: "x < 4294967296" if "x * y < 4294967296" "0 < y" for x y :: nat
    using that by (cases y) auto
  have big2: "8 * ?k * unat C * unat R < 4294967296" by (rule le [OF big pos(3)])
  have big1: "8 * ?k * unat C < 4294967296" by (rule le [OF big2 pos(2)])
  have big0: "8 * ?k < 4294967296" by (rule le [OF big1 pos(1)])
  then have "unat (8 * ucast (row div il) :: u32) = 8 * ?k"
    using unat_mult_lem [of "8 :: u32" "ucast (row div il)"] by (simp add: unsigned_ucast_eq take_bit_nat_eq_self)
  then have r0: "rr_ok ?k (RoundRobin AddrMapper_new ?b 8 (8 * ucast (row div il)))" "unat (8 * ucast (row div il) :: u32) = 8 * ?k"
    using k by (simp_all add: rr_ok_def AddrMapper_new_def)
  obtain d1 w1 where 1: "setNumChannels C m = Inr (RoundRobin (AddrMapper_new\<lparr>am_channels := C\<rparr>) ?b d1 w1)"
      "rr_ok ?k (RoundRobin (AddrMapper_new\<lparr>am_channels := C\<rparr>) ?b d1 w1)"
    using rr_setNumChannels [OF r0(1) assms(4)] r0(2) big1 il(2) by auto
  have w1: "unat w1 = 8 * ?k * unat C" using 1(2) by (simp add: rr_ok_def AddrMapper_new_def mult_ac)
  obtain w2 where 2: "setNumRanks R (RoundRobin (AddrMapper_new\<lparr>am_channels := C\<rparr>) ?b d1 w1) =
        Inr (RoundRobin (AddrMapper_new\<lparr>am_channels := C, am_ranks := R\<rparr>) ?b d1 w2)"
      "rr_ok ?k (RoundRobin (AddrMapper_new\<lparr>am_channels := C, am_ranks := R\<rparr>) ?b d1 w2)"
    using rr_setNumRanks [OF 1(2) assms(5)] w1 big2 by auto
  have w2: "unat w2 = 8 * ?k * unat C * unat R" using 2(2) by (simp add: rr_ok_def AddrMapper_new_def mult_ac)
  show ?thesis using rr_setNumBanks [OF 2(2) assms(6)] w2 big 1(1) 2(1) by (auto simp: configure_def AddrMapper_new_def)
qed

text \<open>
  The dividers of the round-robin mapper, built for one channel, one rank and eight banks and
  then adjusted by one setter call after the other, are those of the configured shape: a rank
  holds channels times banks blocks, a row is channels times ranks times banks times the blocks
  of a row apart, as long as the products the setters form fit 32 bits.
\<close>
theorem round_robin_setters:
  assumes "RoundRobinAddrMapper_new il row = Inr m" and "il \<le> row" and "unat (row div il) * 8 * unat C * unat R * unat K < 2 ^ 32"
    and "C \<noteq> 0" and "R \<noteq> 0" and "K \<noteq> 0"
  shows "\<exists>rankD rowD. configure C R K m = Inr (RoundRobin \<lparr>am_channels = C, am_ranks = R, am_banks = K\<rparr> (log2Of (unat (ucast il :: u32))) rankD rowD) \<and>
    rr_ok (unat (row div il)) (RoundRobin \<lparr>am_channels = C, am_ranks = R, am_banks = K\<rparr> (log2Of (unat (ucast il :: u32))) rankD rowD)"
  using configured_rr [OF assms] .

theorem round_robin_setters_witness:
  "\<exists>rankD rowD. configure 3 2 4 (RoundRobin AddrMapper_new 6 8 128) =
     Inr (RoundRobin \<lparr>am_channels = 3, am_ranks = 2, am_banks = 4\<rparr> 6 rankD rowD) \<and>
     rr_ok 16 (RoundRobin \<lparr>am_channels = 3, am_ranks = 2, am_banks = 4\<rparr> 6 rankD rowD)"
proof -
  have "RoundRobinAddrMapper_new 64 1024 = Inr (RoundRobin AddrMapper_new 6 8 128)"
    by (simp add: RoundRobinAddrMapper_new_def isPowerOfTwo_def log2Of.simps AddrMapper_new_def)
  moreover have "log2Of 64 = 6" using log2Of_pow2 [of 6] by simp
  ultimately show ?thesis using round_robin_setters [of 64 1024 _ 3 2 4] by simp
qed

text \<open>
  The constructors of the parts of the DRAM call the setters; a size that is set again does not
  change. \<open>shape\<close> is what the DRAM is built with.
\<close>

fun am_base :: "Mapper \<Rightarrow> AddrMapper" where
  "am_base (SimpleMapper a) = a"
| "am_base (RoundRobin a base rankD rowD) = a"
| "am_base (SandyBridge a) = a"

definition settled :: "Mapper \<Rightarrow> bool" where
  "settled m \<longleftrightarrow> setNumRanks (am_ranks (am_base m)) m = Inr m \<and> setNumBanks (am_banks (am_base m)) m = Inr m"

lemma settled_simple: "isPowerOfTwo (am_ranks a) \<Longrightarrow> isPowerOfTwo (am_banks a) \<Longrightarrow> settled (SimpleMapper a)"
  by (simp add: settled_def)

lemma settled_sandy: "settled (SandyBridge a)"
  by (simp add: settled_def)

lemma settled_rr:
  "rr_ok k (RoundRobin a base rankD rowD) \<Longrightarrow> unat rowD * unat (am_ranks a) < 4294967296 \<Longrightarrow>
     unat rowD * unat (am_banks a) < 4294967296 \<Longrightarrow> settled (RoundRobin a base rankD rowD)"
  using rr_again by (simp add: settled_def)

section \<open>The hash of the Sandy Bridge mapper\<close>

lemma sandy_bank_bits:
  "am_getBank (SandyBridge m) addr = Inr b \<Longrightarrow> getRow (SandyBridge m) addr = Inr w \<Longrightarrow>
     b = ucast (drop_bit 14 addr AND 7) XOR (w AND 7)"
  by simp

lemma sandy_fits: "mapper_fits (SandyBridge m) 1 (if am_ranks m = 1 then 1 else 2) 8"
proof -
  have 1: "unat (ucast (x AND 1 :: u64) :: u32) < 2" for x
    using ucast_le32 [of "x AND 1" 1] word_and_le1 [of x 1] by simp
  have 7: "x AND 7 \<le> (7 :: u32)" for x by (rule word_and_le1)
  have "ucast (x AND 7 :: u64) AND 7 = (ucast (x AND 7) :: u32)" for x
    by (rule bit_eqI) (simp add: bit_simps bit_numeral_rec)
  then have "unat (ucast (x AND 7 :: u64) XOR (y AND 7 :: u32)) < 8" for x y
  proof -
    have "ucast (x AND 7 :: u64) XOR (y AND 7 :: u32) = (ucast (x AND 7) XOR y) AND 7"
      by (rule bit_eqI) (auto simp: bit_simps)
    then show ?thesis using 7 [of "ucast (x AND 7) XOR y"] by (simp add: word_le_nat_alt)
  qed
  then show ?thesis using 1 by (simp add: mapper_fits_def)
qed

lemma ucast_field_eq:
  "k \<le> 32 \<Longrightarrow> (ucast (take_bit k x :: u64) :: u32) = ucast (take_bit k y) \<Longrightarrow> n < k \<Longrightarrow> bit x n = bit y n"
proof -
  assume a: "k \<le> 32" "(ucast (take_bit k x) :: u32) = ucast (take_bit k y)" "n < k"
  have "bit (ucast (take_bit k x) :: u32) n = bit (ucast (take_bit k y) :: u32) n" using a(2) by simp
  then show ?thesis using a(1,3) by (simp add: bit_simps)
qed

lemma and_masks: "x AND 32767 = take_bit 15 (x :: u64)" "x AND 7 = take_bit 3 (x :: u64)" "x AND 1 = take_bit 1 (x :: u64)"
  by (simp_all add: take_bit_eq_mask mask_eq_exp_minus_1)

lemma word_xor_cancel: "x XOR z = y XOR z \<longleftrightarrow> x = (y :: 'a :: len word)"
  by (metis xor.assoc xor_self_eq xor.right_neutral)

text \<open>
  The bank hash of the Sandy Bridge mapper loses nothing: two addresses below the size the
  fields cover that share rank, row, hashed bank and the low fourteen bits are the same address.
\<close>
theorem sandy_bridge_injective:
  assumes "getRank (SandyBridge m) a = getRank (SandyBridge m) b" and "getRow (SandyBridge m) a = getRow (SandyBridge m) b"
    and "am_getBank (SandyBridge m) a = am_getBank (SandyBridge m) b" and "take_bit 14 a = take_bit 14 b"
    and "drop_bit (if am_ranks m = 1 then 32 else 33) a = drop_bit (if am_ranks m = 1 then 32 else 33) b"
  shows "a = b"
proof (rule bit_word_eqI)
  let ?s = "if am_ranks m = 1 then 17 else 18 :: nat"
  fix n assume "n < LENGTH(64)"
  have row: "(ucast (take_bit 15 (drop_bit ?s a)) :: u32) = ucast (take_bit 15 (drop_bit ?s b))" using assms(2) by (simp add: and_masks)
  then have "(ucast (take_bit 3 (drop_bit 14 a)) :: u32) = ucast (take_bit 3 (drop_bit 14 b))"
    using assms(3) by (simp add: and_masks word_xor_cancel)
  note bank = ucast_field_eq [OF _ this, of "n - 14"]
  have rank: "(ucast (take_bit 1 (drop_bit 17 a)) :: u32) = ucast (take_bit 1 (drop_bit 17 b))" if "am_ranks m \<noteq> 1"
    using assms(1) that by (simp add: and_masks)
  consider "n < 14" | "14 \<le> n" "n < 17" | "n = 17" "am_ranks m \<noteq> 1" | "?s \<le> n" "n < ?s + 15" | "?s + 15 \<le> n"
    by (cases "am_ranks m = 1"; cases "n < 17"; cases "n = 17"; cases "n < 33") force+
  then show "bit a n = bit b n"
  proof cases
    case 1
    then show ?thesis using arg_cong [OF assms(4), of "\<lambda>x. bit x n"] by (simp add: bit_take_bit_iff)
  next
    case 2
    then show ?thesis using bank by (simp add: bit_simps)
  next
    case 3
    then show ?thesis using ucast_field_eq [OF _ rank, of 0] by (simp add: bit_simps)
  next
    case 4
    then show ?thesis using ucast_field_eq [OF _ row, of "n - ?s"] by (simp add: bit_simps split: if_splits)
  next
    case 5
    then show ?thesis using arg_cong [OF assms(5), of "\<lambda>x. bit x (n - (?s + 15))"] by (simp add: bit_simps split: if_splits)
  qed
qed

section \<open>Concrete instances\<close>

theorem simple_mapper_decodes_witness:
  "\<exists>c r k w col off. getChannel (SimpleMapper \<lparr>am_channels = 2, am_ranks = 4, am_banks = 8\<rparr>) 0x12345678 = Inr c \<and>
     getRank (SimpleMapper \<lparr>am_channels = 2, am_ranks = 4, am_banks = 8\<rparr>) 0x12345678 = Inr r \<and>
     am_getBank (SimpleMapper \<lparr>am_channels = 2, am_ranks = 4, am_banks = 8\<rparr>) 0x12345678 = Inr k \<and>
     getRow (SimpleMapper \<lparr>am_channels = 2, am_ranks = 4, am_banks = 8\<rparr>) 0x12345678 = Inr w \<and>
     unat c < 2 \<and> unat r < 4 \<and> unat k < 8 \<and> col < 2 ^ 8 \<and> off < 2 ^ 6 \<and>
     (0x12345678 :: nat) = ((((unat w * 8 + unat k) * 4 + unat r) * 2 ^ 8 + col) * 2 + unat c) * 2 ^ 6 + off"
proof -
  let ?m = "\<lparr>am_channels = 2, am_ranks = 4, am_banks = 8\<rparr>"
  have "unat (0x12345678 :: u64) div 2 ^ rowShift ?m < 2 ^ 32" by (rule le_less_trans [OF div_le_dividend]) simp
  moreover have "isPowerOfTwo (am_channels ?m)" "isPowerOfTwo (am_ranks ?m)" "isPowerOfTwo (am_banks ?m)"
    "small (am_channels ?m)" "small (am_ranks ?m)" "small (am_banks ?m)" by (simp_all add: isPowerOfTwo_def small_def)
  ultimately have "\<exists>c r k w col off. getChannel (SimpleMapper ?m) 0x12345678 = Inr c \<and> getRank (SimpleMapper ?m) 0x12345678 = Inr r \<and>
     am_getBank (SimpleMapper ?m) 0x12345678 = Inr k \<and> getRow (SimpleMapper ?m) 0x12345678 = Inr w \<and>
     unat c < unat (am_channels ?m) \<and> unat r < unat (am_ranks ?m) \<and> unat k < unat (am_banks ?m) \<and> col < 2 ^ 8 \<and> off < 2 ^ 6 \<and>
     unat (0x12345678 :: u64) = ((((unat w * unat (am_banks ?m) + unat k) * unat (am_ranks ?m) + unat r) * 2 ^ 8 + col) * unat (am_channels ?m) + unat c) * 2 ^ 6 + off"
    by (intro simple_mapper_decodes)
  then show ?thesis by simp
qed

theorem round_robin_decodes_witness:
  "\<exists>c r b w col. getChannel (RoundRobin \<lparr>am_channels = 3, am_ranks = 2, am_banks = 4\<rparr> 6 12 384) 0x12345 = Inr c \<and>
     getRank (RoundRobin \<lparr>am_channels = 3, am_ranks = 2, am_banks = 4\<rparr> 6 12 384) 0x12345 = Inr r \<and>
     am_getBank (RoundRobin \<lparr>am_channels = 3, am_ranks = 2, am_banks = 4\<rparr> 6 12 384) 0x12345 = Inr b \<and>
     getRow (RoundRobin \<lparr>am_channels = 3, am_ranks = 2, am_banks = 4\<rparr> 6 12 384) 0x12345 = Inr w \<and>
     unat c < 3 \<and> unat r < 2 \<and> unat b < 4 \<and> col < 16 \<and>
     (0x12345 :: nat) div 2 ^ 6 = (((unat w * 16 + col) * 2 + unat r) * 4 + unat b) * 3 + unat c"
  using round_robin_decodes [OF refl, of 16 "\<lparr>am_channels = 3, am_ranks = 2, am_banks = 4\<rparr>" 6 12 384 "0x12345"]
  by (simp add: rr_ok_def)

theorem sandy_bridge_injective_witness: "(0x1234567 :: u64) = 0x1234567"
  using sandy_bridge_injective [of "\<lparr>am_channels = 1, am_ranks = 1, am_banks = 8\<rparr>" "0x1234567" "0x1234567"] by simp
end
