(* ===== verification/MemH_TimingDRAM.thy ===== *)
theory MemH_TimingDRAM
  imports MemH_Backends MemH_AddrMapper
begin

unbundle bit_operations_syntax

text \<open>
  \<^verbatim>\<open>memHierarchy/membackend/timingDRAMBackend.cc\<close> and \<^verbatim>\<open>.h\<close> with \<^verbatim>\<open>timingTransaction.h\<close> and
  \<^verbatim>\<open>timingPagePolicy.h\<close>: the timing DRAM, a tree of channels, ranks and banks. A bank turns its
  transactions into precharge, activate and column commands; a rank and a channel pick the next
  command round robin; a channel keeps what is issued until it is done and answers one
  transaction a cycle. A command refers to its bank by the numbers of rank and bank, and the bank
  keeps a copy of the last command issued to it: a command is not written after it is issued, and
  deleting any command of a bank clears the copy, as the destructor does. The times of a command
  are 0 until \<open>canIssue\<close> sets them; nothing reads them before. Debug output is left out.
\<close>

section \<open>Transactions and page policies\<close>

record Transaction =
  tr_createTime :: u64
  tr_id :: ReqId
  tr_addr :: Addr
  tr_isWrite :: bool
  tr_numBytes :: u32
  tr_bank :: u32
  tr_row :: u32

text \<open>A window makes the queue a \<open>ReorderTransactionQ\<close>.\<close>

record TransactionQ =
  tq_window :: "u32 option"
  tq_list :: "Transaction list"

definition tq_push :: "Transaction \<Rightarrow> TransactionQ \<Rightarrow> TransactionQ" where
  "tq_push t q = q\<lparr>tq_list := tq_list q @ [t]\<rparr>"

definition tq_empty :: "TransactionQ \<Rightarrow> bool" where
  "tq_empty q \<longleftrightarrow> tq_list q = []"

fun reorder_pop :: "u32 \<Rightarrow> u32 \<Rightarrow> Transaction list \<Rightarrow> (Transaction \<times> Transaction list) option" where
  "reorder_pop window row [] = None"
| "reorder_pop window row [one] = Some (one, [])"
| "reorder_pop window row (one # two # rest) =
     (if tr_row one = row then Some (one, two # rest)
      else if tr_row two = row \<and> tr_createTime one + ucast window > tr_createTime two then Some (two, one # rest)
      else Some (one, two # rest))"

definition tq_pop :: "u32 \<Rightarrow> TransactionQ \<Rightarrow> (Transaction \<times> TransactionQ) option" where
  "tq_pop row q = (case tq_window q of
     None \<Rightarrow> (case tq_list q of [] \<Rightarrow> None | t # ts \<Rightarrow> Some (t, q\<lparr>tq_list := ts\<rparr>))
   | Some w \<Rightarrow> (case reorder_pop w row (tq_list q) of None \<Rightarrow> None | Some (t, ts) \<Rightarrow> Some (t, q\<lparr>tq_list := ts\<rparr>)))"

record TimeoutPagePolicy =
  tp_lastCycle :: u64
  tp_cycles :: u64
  tp_numCyclesLeft :: u64

datatype PagePolicy = SimplePage bool | TimeoutPage TimeoutPagePolicy

definition TimeoutPagePolicy_new :: "u64 \<Rightarrow> PagePolicy" where
  "TimeoutPagePolicy_new cycles = TimeoutPage \<lparr>tp_lastCycle = -2, tp_cycles = cycles, tp_numCyclesLeft = 0\<rparr>"

fun shouldClose :: "u64 \<Rightarrow> PagePolicy \<Rightarrow> PagePolicy \<times> bool" where
  "shouldClose current (SimplePage close) = (SimplePage close, close)"
| "shouldClose current (TimeoutPage p) =
     (let left = (if tp_numCyclesLeft p = 0 \<and> current \<noteq> tp_lastCycle p + 1 then tp_cycles p + 1 else tp_numCyclesLeft p);
          left = left - 1
      in (TimeoutPage (p\<lparr>tp_numCyclesLeft := left, tp_lastCycle := current\<rparr>), left = 0))"

fun canClose :: "PagePolicy \<Rightarrow> bool" where
  "canClose (SimplePage close) = close"
| "canClose (TimeoutPage p) = True"

section \<open>Commands and banks\<close>

datatype Op = PRE | ACT | COL

record DCmd =
  dc_rank :: nat
  dc_bank :: nat
  dc_op :: Op
  dc_cycles :: u32
  dc_row :: u32
  dc_dataCycles :: u32
  dc_trans :: "Transaction option"
  dc_issueTime :: u64
  dc_finiTime :: u64
  dc_dataBusAvailCycle :: u64

record Bank =
  bn_rank :: nat
  bn_bank :: nat
  bn_col_rd_lat :: u32
  bn_col_wr_lat :: u32
  bn_rcd_lat :: u32
  bn_trp_lat :: u32
  bn_data_lat :: u32
  bn_lastCmd :: "DCmd option"
  bn_row :: u32
  bn_cmdQ :: "DCmd list"
  bn_transQ :: TransactionQ
  bn_pagePolicy :: PagePolicy

text \<open>The parameters of a bank, shared by all.\<close>

record BankParams =
  bp_CL :: u32
  bp_CL_WR :: u32
  bp_RCD :: u32
  bp_TRP :: u32
  bp_dataCycles :: u32
  bp_transactionQ :: TransactionQ
  bp_pagePolicy :: PagePolicy

definition Bank_new :: "BankParams \<Rightarrow> nat \<Rightarrow> nat \<Rightarrow> Bank" where
  "Bank_new p rank myNum = \<lparr>bn_rank = rank, bn_bank = myNum, bn_col_rd_lat = bp_CL p, bn_col_wr_lat = bp_CL_WR p,
     bn_rcd_lat = bp_RCD p, bn_trp_lat = bp_TRP p, bn_data_lat = bp_dataCycles p, bn_lastCmd = None, bn_row = -1,
     bn_cmdQ = [], bn_transQ = bp_transactionQ p, bn_pagePolicy = bp_pagePolicy p\<rparr>"

definition Cmd_new :: "Bank \<Rightarrow> Op \<Rightarrow> u32 \<Rightarrow> u32 \<Rightarrow> u32 \<Rightarrow> Transaction option \<Rightarrow> DCmd" where
  "Cmd_new b oper cycles row dataCycles tran = \<lparr>dc_rank = bn_rank b, dc_bank = bn_bank b, dc_op = oper, dc_cycles = cycles,
     dc_row = row, dc_dataCycles = dataCycles, dc_trans = tran, dc_issueTime = 0, dc_finiTime = 0, dc_dataBusAvailCycle = 0\<rparr>"

definition canIssue :: "DCmd option \<Rightarrow> u64 \<Rightarrow> u64 \<Rightarrow> DCmd \<Rightarrow> DCmd \<times> bool" where
  "canIssue lastCmd currentCycle dataBusAvailCycle c =
     (if (case lastCmd of None \<Rightarrow> False
          | Some l \<Rightarrow> \<not> (dc_op c = COL \<and> dc_op l = COL) \<or> dc_issueTime l + ucast (dc_dataCycles c) > currentCycle)
      then (c, False)
      else (let fini = currentCycle + ucast (dc_cycles c);
                c = c\<lparr>dc_issueTime := currentCycle, dc_finiTime := fini, dc_dataBusAvailCycle := dataBusAvailCycle\<rparr>
            in if fini \<ge> dataBusAvailCycle
               then (c\<lparr>dc_finiTime := fini + ucast (dc_dataCycles c), dc_dataBusAvailCycle := fini + ucast (dc_dataCycles c)\<rparr>, True)
               else (c, False)))"

definition cmd_isDone :: "u64 \<Rightarrow> DCmd \<Rightarrow> bool" where
  "cmd_isDone now c \<longleftrightarrow> now \<ge> dc_finiTime c"

definition bank_isIdle :: "Bank \<Rightarrow> bool" where
  "bank_isIdle b \<longleftrightarrow> (bn_row b = -1 \<or> \<not> canClose (bn_pagePolicy b)) \<and> bn_cmdQ b = [] \<and> tq_empty (bn_transQ b)"

text \<open>The commands one transaction becomes, given the row that is open.\<close>

definition open_cmds :: "Bank \<Rightarrow> Transaction \<Rightarrow> DCmd list" where
  "open_cmds b t =
     (if tr_row t \<noteq> bn_row b
      then (if bn_row b \<noteq> -1 then [Cmd_new b PRE (bn_trp_lat b) (-1) 0 None] else []) @
           [Cmd_new b ACT (bn_rcd_lat b) (tr_row t) 0 None]
      else [])"

definition update :: "u64 \<Rightarrow> Bank \<Rightarrow> Bank" where
  "update current b =
     (let (pp, close) = (if bn_lastCmd b = None \<and> bn_row b \<noteq> -1 then shouldClose current (bn_pagePolicy b)
                         else (bn_pagePolicy b, False));
          b = b\<lparr>bn_pagePolicy := pp\<rparr>
      in if close then b\<lparr>bn_cmdQ := bn_cmdQ b @ [Cmd_new b PRE (bn_trp_lat b) (-1) 0 None], bn_row := -1\<rparr>
         else (case tq_pop (bn_row b) (bn_transQ b) of
             None \<Rightarrow> b
           | Some (t, q) \<Rightarrow>
             (let val = (if tr_isWrite t then bn_col_wr_lat b else bn_col_rd_lat b);
                  cmds = open_cmds b t @ [Cmd_new b COL val (tr_row t) (bn_data_lat b) (Some t)]
              in b\<lparr>bn_transQ := q, bn_row := tr_row t, bn_cmdQ := bn_cmdQ b @ cmds\<rparr>)))"

definition bank_popCmd :: "u64 \<Rightarrow> u64 \<Rightarrow> Bank \<Rightarrow> Bank \<times> DCmd option" where
  "bank_popCmd cycle dataBusAvailCycle b0 =
     (let b = update cycle b0 in
      case bn_cmdQ b of [] \<Rightarrow> (b, None)
      | c # cs \<Rightarrow> (case canIssue (bn_lastCmd b) cycle dataBusAvailCycle c of
          (c', True) \<Rightarrow> (b\<lparr>bn_cmdQ := cs\<rparr>, Some c')
        | (c', False) \<Rightarrow> (b\<lparr>bn_cmdQ := c' # cs\<rparr>, None)))"

section \<open>Ranks\<close>

record DRank =
  rk_nextBankUp :: nat
  rk_banks :: "Bank list"
  rk_banksActive :: "nat set"

definition rank_pushTrans :: "Mapper \<Rightarrow> Transaction \<Rightarrow> DRank \<Rightarrow> DRank res" where
  "rank_pushTrans m t r =
     bindE (am_getBank m (tr_addr t)) (\<lambda>bank.
       let k = unat bank in
       if k < length (rk_banks r)
       then Inr (r\<lparr>rk_banks := (rk_banks r)[k := (rk_banks r ! k)\<lparr>bn_transQ := tq_push t (bn_transQ (rk_banks r ! k))\<rparr>],
                   rk_banksActive := insert k (rk_banksActive r)\<rparr>)
       else Inl OutOfRange)"

definition hasActiveBanks :: "DRank \<Rightarrow> bool" where
  "hasActiveBanks r \<longleftrightarrow> rk_banksActive r \<noteq> {}"

text \<open>One turn of the loop over the banks, at bank \<open>k\<close>; \<open>n\<close> turns are left.\<close>

definition rank_try :: "u64 \<Rightarrow> u64 \<Rightarrow> nat \<Rightarrow> DRank \<Rightarrow> (DRank \<times> DCmd option) res" where
  "rank_try cycle bus k r =
     (if k \<notin> rk_banksActive r then Inr (r, None)
      else if \<not> k < length (rk_banks r) then Inl OutOfRange
      else (let (b, c) = bank_popCmd cycle bus (rk_banks r ! k);
                r = r\<lparr>rk_banks := (rk_banks r)[k := b]\<rparr>;
                r = (if bank_isIdle b then r\<lparr>rk_banksActive := rk_banksActive r - {k}\<rparr> else r);
                r = (if c \<noteq> None \<and> k = rk_nextBankUp r then r\<lparr>rk_nextBankUp := (rk_nextBankUp r + 1) mod length (rk_banks r)\<rparr> else r)
            in Inr (r, c)))"

primrec rank_loop :: "u64 \<Rightarrow> u64 \<Rightarrow> nat \<Rightarrow> nat \<Rightarrow> DRank \<Rightarrow> (DRank \<times> DCmd option) res" where
  "rank_loop cycle bus 0 current r = Inr (r, None)"
| "rank_loop cycle bus (Suc n) current r = bindE (rank_try cycle bus current r) (\<lambda>(r, c).
     if c \<noteq> None then Inr (r, c) else rank_loop cycle bus n ((current + 1) mod length (rk_banks r)) r)"

definition rank_popCmd :: "u64 \<Rightarrow> u64 \<Rightarrow> DRank \<Rightarrow> (DRank \<times> DCmd option) res" where
  "rank_popCmd cycle bus r = rank_loop cycle bus (length (rk_banks r)) (rk_nextBankUp r) r"

definition Rank_new :: "BankParams \<Rightarrow> u32 \<Rightarrow> nat \<Rightarrow> Mapper \<Rightarrow> (Mapper \<times> DRank) res" where
  "Rank_new p banks myNum m = bindE (setNumBanks banks m) (\<lambda>m.
     Inr (m, \<lparr>rk_nextBankUp = 0, rk_banks = map (Bank_new p myNum) [0..<unat banks], rk_banksActive = {}\<rparr>))"

section \<open>Channels\<close>

record Channel =
  ch_nextRankUp :: nat
  ch_ranks :: "DRank list"
  ch_dataBusAvailCycle :: u32
  ch_maxPendingTrans :: u32
  ch_pendingCount :: u32
  ch_issuedCmds :: "DCmd list"
  ch_retiredTrans :: "Transaction list"

definition channel_issue :: "Mapper \<Rightarrow> u64 \<Rightarrow> ReqId \<Rightarrow> Addr \<Rightarrow> bool \<Rightarrow> u32 \<Rightarrow> Channel \<Rightarrow> (Channel \<times> bool) res" where
  "channel_issue m createTime i addr isWrite numBytes ch =
     (if ch_maxPendingTrans ch = ch_pendingCount ch then Inr (ch, False)
      else bindE (getRank m addr) (\<lambda>rank. bindE (am_getBank m addr) (\<lambda>bank. bindE (getRow m addr) (\<lambda>row.
        let t = \<lparr>tr_createTime = createTime, tr_id = i, tr_addr = addr, tr_isWrite = isWrite, tr_numBytes = numBytes,
                 tr_bank = bank, tr_row = row\<rparr>; k = unat rank
        in if k < length (ch_ranks ch)
           then bindE (rank_pushTrans m t (ch_ranks ch ! k)) (\<lambda>r.
                  Inr (ch\<lparr>ch_pendingCount := ch_pendingCount ch + 1, ch_ranks := (ch_ranks ch)[k := r]\<rparr>, True))
           else Inl OutOfRange))))"

text \<open>\<open>setLastCmd\<close> and \<open>clearLastCmd\<close> on the bank of a command.\<close>

definition set_last :: "DCmd \<Rightarrow> DCmd option \<Rightarrow> Channel \<Rightarrow> Channel" where
  "set_last c l ch =
     (let r = ch_ranks ch ! dc_rank c; b = rk_banks r ! dc_bank c
      in ch\<lparr>ch_ranks := (ch_ranks ch)[dc_rank c := r\<lparr>rk_banks := (rk_banks r)[dc_bank c := b\<lparr>bn_lastCmd := l\<rparr>]\<rparr>]\<rparr>)"

text \<open>The commands that are done: their transactions retire and the commands are deleted.\<close>

fun retire :: "u64 \<Rightarrow> DCmd list \<Rightarrow> Channel \<Rightarrow> Channel" where
  "retire cycle [] ch = ch"
| "retire cycle (c # cs) ch =
     (if cmd_isDone cycle c
      then retire cycle cs (set_last c None (ch\<lparr>ch_retiredTrans := ch_retiredTrans ch @ (case dc_trans c of None \<Rightarrow> [] | Some t \<Rightarrow> [t])\<rparr>))
      else retire cycle cs (ch\<lparr>ch_issuedCmds := ch_issuedCmds ch @ [c]\<rparr>))"

definition channel_respond :: "Channel \<Rightarrow> Channel \<times> ReqId list" where
  "channel_respond ch = (case ch_retiredTrans ch of
     [] \<Rightarrow> (ch, [])
   | t # ts \<Rightarrow> (ch\<lparr>ch_retiredTrans := ts, ch_pendingCount := ch_pendingCount ch - 1\<rparr>, [tr_id t]))"

definition channel_try :: "u64 \<Rightarrow> nat \<Rightarrow> Channel \<Rightarrow> (Channel \<times> DCmd option) res" where
  "channel_try cycle k ch =
     (if \<not> k < length (ch_ranks ch) then Inl OutOfRange
      else if \<not> hasActiveBanks (ch_ranks ch ! k) then Inr (ch, None)
      else bindE (rank_popCmd cycle (ucast (ch_dataBusAvailCycle ch)) (ch_ranks ch ! k)) (\<lambda>(r, c).
        let ch = ch\<lparr>ch_ranks := (ch_ranks ch)[k := r]\<rparr>
        in Inr (if c \<noteq> None \<and> k = ch_nextRankUp ch then ch\<lparr>ch_nextRankUp := (ch_nextRankUp ch + 1) mod length (ch_ranks ch)\<rparr> else ch, c)))"

primrec channel_loop :: "u64 \<Rightarrow> nat \<Rightarrow> nat \<Rightarrow> Channel \<Rightarrow> (Channel \<times> DCmd option) res" where
  "channel_loop cycle 0 current ch = Inr (ch, None)"
| "channel_loop cycle (Suc n) current ch = bindE (channel_try cycle current ch) (\<lambda>(ch, c).
     if c \<noteq> None then Inr (ch, c) else channel_loop cycle n ((current + 1) mod length (ch_ranks ch)) ch)"

definition channel_popCmd :: "u64 \<Rightarrow> Channel \<Rightarrow> (Channel \<times> DCmd option) res" where
  "channel_popCmd cycle ch = channel_loop cycle (length (ch_ranks ch)) (ch_nextRankUp ch) ch"

definition channel_clock :: "u64 \<Rightarrow> Channel \<Rightarrow> (Channel \<times> ReqId list) res" where
  "channel_clock cycle ch0 =
     (let ch = retire cycle (ch_issuedCmds ch0) (ch0\<lparr>ch_issuedCmds := []\<rparr>);
          (ch, ids) = channel_respond ch
      in bindE (channel_popCmd cycle ch) (\<lambda>(ch, cmd). case cmd of
           None \<Rightarrow> Inr (ch, ids)
         | Some c \<Rightarrow> (let ch = set_last c (Some c) (ch\<lparr>ch_dataBusAvailCycle := ucast (dc_dataBusAvailCycle c)\<rparr>)
             in Inr (ch\<lparr>ch_issuedCmds := ch_issuedCmds ch @ [c]\<rparr>, ids))))"

fun new_ranks :: "BankParams \<Rightarrow> u32 \<Rightarrow> nat list \<Rightarrow> Mapper \<Rightarrow> (Mapper \<times> DRank list) res" where
  "new_ranks p banks [] m = Inr (m, [])"
| "new_ranks p banks (i # is) m = bindE (Rank_new p banks i m) (\<lambda>(m, r). bindE (new_ranks p banks is m) (\<lambda>(m, rs). Inr (m, r # rs)))"

definition Channel_new :: "BankParams \<Rightarrow> u32 \<Rightarrow> u32 \<Rightarrow> u32 \<Rightarrow> Mapper \<Rightarrow> (Mapper \<times> Channel) res" where
  "Channel_new p ranks banks maxPending m = bindE (setNumRanks ranks m) (\<lambda>m. bindE (new_ranks p banks [0..<unat ranks] m) (\<lambda>(m, rs).
     Inr (m, \<lparr>ch_nextRankUp = 0, ch_ranks = rs, ch_dataBusAvailCycle = 0, ch_maxPendingTrans = maxPending, ch_pendingCount = 0,
              ch_issuedCmds = [], ch_retiredTrans = []\<rparr>)))"

section \<open>The DRAM\<close>

record TDRAM =
  td_channels :: "Channel list"
  td_mapper :: Mapper
  td_cycle :: u64

definition td_issueRequest :: "ReqId \<Rightarrow> Addr \<Rightarrow> bool \<Rightarrow> u32 \<Rightarrow> TDRAM \<Rightarrow> (TDRAM \<times> bool) res" where
  "td_issueRequest i addr isWrite numBytes d = bindE (getChannel (td_mapper d) addr) (\<lambda>chan.
     let k = unat chan in
     if k < length (td_channels d)
     then bindE (channel_issue (td_mapper d) (td_cycle d) i addr isWrite numBytes (td_channels d ! k)) (\<lambda>(ch, ok).
            Inr (d\<lparr>td_channels := (td_channels d)[k := ch]\<rparr>, ok))
     else Inl OutOfRange)"

fun clock_channels :: "u64 \<Rightarrow> Channel list \<Rightarrow> (Channel list \<times> ReqId list) res" where
  "clock_channels cycle [] = Inr ([], [])"
| "clock_channels cycle (ch # chs) = bindE (channel_clock cycle ch) (\<lambda>(ch, ids).
     bindE (clock_channels cycle chs) (\<lambda>(chs, ids'). Inr (ch # chs, ids @ ids')))"

definition td_clock :: "TDRAM \<Rightarrow> (TDRAM \<times> ReqId list \<times> bool) res" where
  "td_clock d = bindE (clock_channels (td_cycle d) (td_channels d)) (\<lambda>(chs, ids).
     Inr (d\<lparr>td_channels := chs, td_cycle := td_cycle d + 1\<rparr>, ids, False))"

fun new_channels :: "BankParams \<Rightarrow> u32 \<Rightarrow> u32 \<Rightarrow> u32 \<Rightarrow> nat \<Rightarrow> Mapper \<Rightarrow> (Mapper \<times> Channel list) res" where
  "new_channels p ranks banks mx 0 m = Inr (m, [])"
| "new_channels p ranks banks mx (Suc n) m = bindE (Channel_new p ranks banks mx m) (\<lambda>(m, ch).
     bindE (new_channels p ranks banks mx n m) (\<lambda>(m, chs). Inr (m, ch # chs)))"

definition TimingDRAM_new :: "BankParams \<Rightarrow> u32 \<Rightarrow> u32 \<Rightarrow> u32 \<Rightarrow> u32 \<Rightarrow> Mapper \<Rightarrow> TDRAM res" where
  "TimingDRAM_new p channels ranks banks mx m = bindE (setNumChannels channels m) (\<lambda>m.
     bindE (new_channels p ranks banks mx (unat channels) m) (\<lambda>(m, chs).
       Inr \<lparr>td_channels = chs, td_mapper = m, td_cycle = 0\<rparr>))"

text \<open>There is no self link, so nothing to deliver.\<close>

definition TimingDRAM :: "int \<Rightarrow> u32 \<Rightarrow> u64 \<Rightarrow> TDRAM Backend" where
  "TimingDRAM mx width memSize =
     \<lparr>be_issueRequest = td_issueRequest, be_issueCustom = noCustom, be_clock = td_clock,
      be_self = (\<lambda>k d. Inl OutOfRange), be_maxReqPerCycle = MemBackend_maxReq mx, be_reqWidth = width, be_isClocked = True,
      be_memSize = memSize\<rparr>"

section \<open>What is in flight\<close>

definition cmd_ids :: "DCmd \<Rightarrow> ReqId list" where
  "cmd_ids c = (case dc_trans c of None \<Rightarrow> [] | Some t \<Rightarrow> [tr_id t])"

definition ids_of :: "DCmd list \<Rightarrow> ReqId multiset" where
  "ids_of cs = mset (concat (map cmd_ids cs))"

definition bank_inflight :: "Bank \<Rightarrow> ReqId multiset" where
  "bank_inflight b = image_mset tr_id (mset (tq_list (bn_transQ b))) + ids_of (bn_cmdQ b)"

definition rank_inflight :: "DRank \<Rightarrow> ReqId multiset" where
  "rank_inflight r = sum_list (map bank_inflight (rk_banks r))"

definition ranks_inflight :: "Channel \<Rightarrow> ReqId multiset" where
  "ranks_inflight ch = sum_list (map rank_inflight (ch_ranks ch))"

definition channel_inflight :: "Channel \<Rightarrow> ReqId multiset" where
  "channel_inflight ch = ranks_inflight ch + ids_of (ch_issuedCmds ch) + image_mset tr_id (mset (ch_retiredTrans ch))"

definition td_inflight :: "TDRAM \<Rightarrow> ReqId multiset" where
  "td_inflight d = sum_list (map channel_inflight (td_channels d))"

text \<open>Where a command belongs, and that exactly column commands carry a transaction.\<close>

definition cmd_at :: "nat \<Rightarrow> nat \<Rightarrow> DCmd \<Rightarrow> bool" where
  "cmd_at i j c \<longleftrightarrow> dc_rank c = i \<and> dc_bank c = j \<and> (dc_op c = COL \<longleftrightarrow> dc_trans c \<noteq> None)"

definition bank_wf :: "nat \<Rightarrow> nat \<Rightarrow> Bank \<Rightarrow> bool" where
  "bank_wf i j b \<longleftrightarrow> bn_rank b = i \<and> bn_bank b = j \<and> (\<forall>c \<in> set (bn_cmdQ b). cmd_at i j c)"

definition rank_wf :: "nat \<Rightarrow> nat \<Rightarrow> DRank \<Rightarrow> bool" where
  "rank_wf K i r \<longleftrightarrow> length (rk_banks r) = K \<and> (0 < K \<longrightarrow> rk_nextBankUp r < K) \<and> rk_banksActive r \<subseteq> {..<K} \<and>
     (\<forall>j<K. bank_wf i j (rk_banks r ! j))"

definition channel_wf :: "nat \<Rightarrow> nat \<Rightarrow> Channel \<Rightarrow> bool" where
  "channel_wf R K ch \<longleftrightarrow> length (ch_ranks ch) = R \<and> (0 < R \<longrightarrow> ch_nextRankUp ch < R) \<and> (\<forall>i<R. rank_wf K i (ch_ranks ch ! i)) \<and>
     (\<forall>c \<in> set (ch_issuedCmds ch). dc_rank c < R \<and> dc_bank c < K)"

definition channel_ok :: "nat \<Rightarrow> nat \<Rightarrow> Channel \<Rightarrow> bool" where
  "channel_ok R K ch \<longleftrightarrow> channel_wf R K ch \<and> unat (ch_pendingCount ch) = size (channel_inflight ch) \<and>
     ch_pendingCount ch \<le> ch_maxPendingTrans ch"

definition td_ok :: "nat \<Rightarrow> nat \<Rightarrow> TDRAM \<Rightarrow> bool" where
  "td_ok R K d \<longleftrightarrow> mapper_fits (td_mapper d) (length (td_channels d)) R K \<and> (\<forall>ch \<in> set (td_channels d). channel_ok R K ch)"

section \<open>Nothing is lost\<close>

lemma sum_list_map_update:
  fixes f :: "'a \<Rightarrow> 'b :: comm_monoid_add"
  assumes "i < length xs"
  shows "sum_list (map f (xs[i := y])) + f (xs ! i) = sum_list (map f xs) + f y"
proof -
  have "sum_list (map f xs) = sum_list (map f (take i xs @ xs ! i # drop (Suc i) xs))"
    using assms by (simp add: id_take_nth_drop [symmetric])
  then show ?thesis using assms by (simp add: upd_conv_take_nth_drop ac_simps)
qed

lemma sum_list_map_same:
  fixes f :: "'a \<Rightarrow> 'b :: cancel_comm_monoid_add"
  assumes "i < length xs" and "f y = f (xs ! i)"
  shows "sum_list (map f (xs[i := y])) = sum_list (map f xs)"
  using sum_list_map_update [OF assms(1), of f y] assms(2) by simp

lemma ids_of_simps [simp]: "ids_of [] = {#}" "ids_of (c # cs) = mset (cmd_ids c) + ids_of cs" "ids_of (xs @ ys) = ids_of xs + ids_of ys"
  by (simp_all add: ids_of_def)

lemma Cmd_new_facts [simp]:
  "cmd_ids (Cmd_new b oper n row k None) = []" "cmd_ids (Cmd_new b oper n row k (Some t)) = [tr_id t]"
  "dc_rank (Cmd_new b oper n row k tr) = bn_rank b" "dc_bank (Cmd_new b oper n row k tr) = bn_bank b"
  "dc_op (Cmd_new b oper n row k tr) = oper" "dc_trans (Cmd_new b oper n row k tr) = tr"
  by (simp_all add: Cmd_new_def cmd_ids_def)

lemma reorder_pop_mset: "reorder_pop w row ts = Some (t, ts') \<Longrightarrow> mset ts = add_mset t (mset ts')"
  by (induction w row ts rule: reorder_pop.induct) (auto split: if_splits)

lemma tq_pop_mset: "tq_pop row q = Some (t, q') \<Longrightarrow> mset (tq_list q) = add_mset t (mset (tq_list q'))"
  by (auto simp: tq_pop_def dest: reorder_pop_mset split: option.splits list.splits)

lemma open_cmds_facts: "ids_of (open_cmds b t) = {#}" "\<forall>c \<in> set (open_cmds b t). cmd_at (bn_rank b) (bn_bank b) c"
  by (auto simp: open_cmds_def cmd_at_def)

lemma update_law:
  assumes "bank_wf i j b"
  shows "bank_wf i j (update c b) \<and> bank_inflight (update c b) = bank_inflight b \<and> bn_lastCmd (update c b) = bn_lastCmd b"
proof -
  obtain pp cl where p: "(if bn_lastCmd b = None \<and> bn_row b \<noteq> -1 then shouldClose c (bn_pagePolicy b) else (bn_pagePolicy b, False)) = (pp, cl)"
    by (metis surj_pair)
  show ?thesis
  proof (cases cl)
    case True
    then show ?thesis using assms by (auto simp: update_def p bank_wf_def bank_inflight_def cmd_at_def Let_def)
  next
    case False
    show ?thesis
    proof (cases "tq_pop (bn_row b) (bn_transQ b)")
      case None
      then show ?thesis using assms False by (simp add: update_def p bank_wf_def bank_inflight_def Let_def)
    next
      case (Some tq)
      obtain t q where tq: "tq = (t, q)" by (cases tq)
      have "mset (tq_list (bn_transQ b)) = add_mset t (mset (tq_list q))" using tq_pop_mset Some tq by blast
      moreover have "open_cmds (b\<lparr>bn_pagePolicy := pp\<rparr>) t = open_cmds b t" by (simp add: open_cmds_def Cmd_new_def)
      ultimately show ?thesis using assms False Some tq open_cmds_facts [of b t]
        by (auto simp: update_def p bank_wf_def bank_inflight_def Let_def cmd_at_def)
    qed
  qed
qed

lemma canIssue_keeps:
  "canIssue l now bus c = (c', ok) \<Longrightarrow> dc_rank c' = dc_rank c \<and> dc_bank c' = dc_bank c \<and> dc_op c' = dc_op c \<and> dc_trans c' = dc_trans c \<and>
     dc_row c' = dc_row c \<and> dc_cycles c' = dc_cycles c \<and> dc_dataCycles c' = dc_dataCycles c"
  by (auto simp: canIssue_def Let_def split: if_splits)

lemma bank_popCmd_law:
  assumes "bank_wf i j b" and "bank_popCmd cyc bus b = (b', co)"
  shows "bank_wf i j b' \<and> (case co of None \<Rightarrow> bank_inflight b' = bank_inflight b
    | Some c \<Rightarrow> dc_rank c = i \<and> dc_bank c = j \<and> bank_inflight b = mset (cmd_ids c) + bank_inflight b')"
proof -
  let ?b = "update cyc b"
  have u: "bank_wf i j ?b" "bank_inflight ?b = bank_inflight b" using update_law [OF assms(1), of cyc] by auto
  show ?thesis
  proof (cases "bn_cmdQ ?b")
    case Nil
    then show ?thesis using assms(2) u by (auto simp: bank_popCmd_def Let_def)
  next
    case (Cons c cs)
    obtain c' ok where ci: "canIssue (bn_lastCmd ?b) cyc bus c = (c', ok)" by (metis surj_pair)
    note k = canIssue_keeps [OF ci]
    then have ids: "cmd_ids c' = cmd_ids c" by (simp add: cmd_ids_def)
    have wf: "cmd_at i j c" "\<forall>x \<in> set cs. cmd_at i j x" "bn_rank ?b = i" "bn_bank ?b = j" using u(1) Cons by (auto simp: bank_wf_def)
    have fl: "bank_inflight b = image_mset tr_id (mset (tq_list (bn_transQ ?b))) + (mset (cmd_ids c) + ids_of cs)"
      using Cons unfolding u(2) [symmetric] by (subst bank_inflight_def) simp
    have q: "bank_inflight (?b\<lparr>bn_cmdQ := xs\<rparr>) = image_mset tr_id (mset (tq_list (bn_transQ ?b))) + ids_of xs" for xs
      by (simp add: bank_inflight_def)
    show ?thesis
    proof (cases ok)
      case True
      then have "b' = ?b\<lparr>bn_cmdQ := cs\<rparr>" "co = Some c'" using assms(2) Cons ci by (auto simp: bank_popCmd_def Let_def)
      then show ?thesis using fl q [of cs] ids wf k by (simp add: bank_wf_def cmd_at_def ac_simps)
    next
      case False
      then have "b' = ?b\<lparr>bn_cmdQ := c' # cs\<rparr>" "co = None" using assms(2) Cons ci by (auto simp: bank_popCmd_def Let_def)
      then show ?thesis using fl q [of "c' # cs"] ids wf k by (simp add: bank_wf_def cmd_at_def ac_simps)
    qed
  qed
qed

lemma rank_try_law:
  assumes ok: "rank_wf K i r" and k: "k < K"
  shows "\<exists>r' co. rank_try cyc bus k r = Inr (r', co) \<and> rank_wf K i r' \<and> (case co of None \<Rightarrow> rank_inflight r' = rank_inflight r
    | Some c \<Rightarrow> dc_rank c = i \<and> dc_bank c < K \<and> rank_inflight r = mset (cmd_ids c) + rank_inflight r')"
proof (cases "k \<in> rk_banksActive r")
  case True
  obtain b co where p: "bank_popCmd cyc bus (rk_banks r ! k) = (b, co)" by (metis surj_pair)
  have kl: "k < length (rk_banks r)" using ok k by (simp add: rank_wf_def)
  have bk: "bank_wf i k b" "case co of None \<Rightarrow> bank_inflight b = bank_inflight (rk_banks r ! k)
      | Some c \<Rightarrow> dc_rank c = i \<and> dc_bank c = k \<and> bank_inflight (rk_banks r ! k) = mset (cmd_ids c) + bank_inflight b"
    using bank_popCmd_law [OF _ p] ok k by (simp_all add: rank_wf_def)
  have fl: "case co of None \<Rightarrow> sum_list (map bank_inflight ((rk_banks r)[k := b])) = rank_inflight r
      | Some c \<Rightarrow> rank_inflight r = mset (cmd_ids c) + sum_list (map bank_inflight ((rk_banks r)[k := b]))"
    using sum_list_map_update [OF kl, of bank_inflight b] bk(2)
    by (auto simp: rank_inflight_def ac_simps split: option.splits)
  show ?thesis using True kl p ok k bk fl
    by (auto simp: rank_try_def Let_def rank_wf_def rank_inflight_def nth_list_update split: option.splits)
next
  case False
  then show ?thesis using ok by (simp add: rank_try_def)
qed

lemma rank_loop_law:
  assumes "rank_wf K i r" and "k < K"
  shows "\<exists>r' co. rank_loop cyc bus n k r = Inr (r', co) \<and> rank_wf K i r' \<and> (case co of None \<Rightarrow> rank_inflight r' = rank_inflight r
    | Some c \<Rightarrow> dc_rank c = i \<and> dc_bank c < K \<and> rank_inflight r = mset (cmd_ids c) + rank_inflight r')"
  using assms
proof (induction n arbitrary: k r)
  case (Suc n)
  obtain r1 co where 1: "rank_try cyc bus k r = Inr (r1, co)" "rank_wf K i r1" "case co of None \<Rightarrow> rank_inflight r1 = rank_inflight r
    | Some c \<Rightarrow> dc_rank c = i \<and> dc_bank c < K \<and> rank_inflight r = mset (cmd_ids c) + rank_inflight r1"
    using rank_try_law [OF Suc.prems] by blast
  have "length (rk_banks r1) = K" using 1(2) by (simp add: rank_wf_def)
  then have "(k + 1) mod length (rk_banks r1) < K" using Suc.prems(2) by simp
  then obtain r2 co2 where "rank_loop cyc bus n ((k + 1) mod length (rk_banks r1)) r1 = Inr (r2, co2)" "rank_wf K i r2"
    "case co2 of None \<Rightarrow> rank_inflight r2 = rank_inflight r1
    | Some c \<Rightarrow> dc_rank c = i \<and> dc_bank c < K \<and> rank_inflight r1 = mset (cmd_ids c) + rank_inflight r2"
    using Suc.IH [OF 1(2)] by blast
  then show ?case using 1 by (cases co) (simp_all cong: option.case_cong)
qed simp

lemma rank_popCmd_law:
  assumes "rank_wf K i r"
  shows "\<exists>r' co. rank_popCmd cyc bus r = Inr (r', co) \<and> rank_wf K i r' \<and> (case co of None \<Rightarrow> rank_inflight r' = rank_inflight r
    | Some c \<Rightarrow> dc_rank c = i \<and> dc_bank c < K \<and> rank_inflight r = mset (cmd_ids c) + rank_inflight r')"
proof (cases "K = 0")
  case True
  then show ?thesis using assms by (simp add: rank_popCmd_def rank_wf_def)
next
  case False
  then show ?thesis using rank_loop_law [OF assms, of "rk_nextBankUp r"] assms by (auto simp: rank_popCmd_def rank_wf_def)
qed

lemma rank_pushTrans_law:
  assumes "rank_wf K i r" and "am_getBank m (tr_addr t) = Inr k" and "unat k < K"
  shows "\<exists>r'. rank_pushTrans m t r = Inr r' \<and> rank_wf K i r' \<and> rank_inflight r' = add_mset (tr_id t) (rank_inflight r)"
proof -
  have kl: "unat k < length (rk_banks r)" using assms by (simp add: rank_wf_def)
  let ?b = "rk_banks r ! unat k" and ?b' = "(rk_banks r ! unat k)\<lparr>bn_transQ := tq_push t (bn_transQ (rk_banks r ! unat k))\<rparr>"
  have "bank_inflight ?b' = add_mset (tr_id t) (bank_inflight ?b)" by (simp add: bank_inflight_def tq_push_def)
  then have "sum_list (map bank_inflight ((rk_banks r)[unat k := ?b'])) = add_mset (tr_id t) (rank_inflight r)"
    using sum_list_map_update [OF kl, of bank_inflight ?b'] by (simp add: rank_inflight_def)
  then show ?thesis using assms kl
    by (auto simp: rank_pushTrans_def Let_def rank_wf_def rank_inflight_def nth_list_update bank_wf_def)
qed

section \<open>Channels keep their books\<close>

lemma set_last_law:
  assumes "channel_wf R K ch" and "dc_rank c < R" and "dc_bank c < K"
  shows "channel_wf R K (set_last c l ch) \<and> ranks_inflight (set_last c l ch) = ranks_inflight ch \<and>
    ch_issuedCmds (set_last c l ch) = ch_issuedCmds ch \<and> ch_retiredTrans (set_last c l ch) = ch_retiredTrans ch \<and>
    ch_pendingCount (set_last c l ch) = ch_pendingCount ch \<and> ch_maxPendingTrans (set_last c l ch) = ch_maxPendingTrans ch"
proof -
  let ?r = "ch_ranks ch ! dc_rank c" let ?b = "rk_banks ?r ! dc_bank c"
  let ?r' = "?r\<lparr>rk_banks := (rk_banks ?r)[dc_bank c := ?b\<lparr>bn_lastCmd := l\<rparr>]\<rparr>"
  have il: "dc_rank c < length (ch_ranks ch)" and rwf: "rank_wf K (dc_rank c) ?r" using assms by (auto simp: channel_wf_def)
  then have jl: "dc_bank c < length (rk_banks ?r)" using assms(3) by (simp add: rank_wf_def)
  have "rank_inflight ?r' = rank_inflight ?r"
    using sum_list_map_same [OF jl, of bank_inflight "?b\<lparr>bn_lastCmd := l\<rparr>"] by (simp add: rank_inflight_def bank_inflight_def)
  then have "sum_list (map rank_inflight ((ch_ranks ch)[dc_rank c := ?r'])) = ranks_inflight ch"
    using sum_list_map_same [OF il, of rank_inflight ?r'] by (simp add: ranks_inflight_def)
  moreover have "rank_wf K (dc_rank c) ?r'" using rwf assms(3) by (auto simp: rank_wf_def nth_list_update bank_wf_def)
  ultimately show ?thesis using assms(1) il
    by (auto simp: set_last_def Let_def channel_wf_def ranks_inflight_def nth_list_update)
qed

lemma retire_law:
  assumes "channel_wf R K ch" and "\<forall>c \<in> set cs. dc_rank c < R \<and> dc_bank c < K"
  shows "channel_wf R K (retire cyc cs ch) \<and> channel_inflight (retire cyc cs ch) = channel_inflight ch + ids_of cs \<and>
    ch_pendingCount (retire cyc cs ch) = ch_pendingCount ch \<and> ch_maxPendingTrans (retire cyc cs ch) = ch_maxPendingTrans ch"
  using assms
proof (induction cs arbitrary: ch)
  case (Cons c cs)
  show ?case
  proof (cases "cmd_isDone cyc c")
    case True
    let ?ch = "ch\<lparr>ch_retiredTrans := ch_retiredTrans ch @ (case dc_trans c of None \<Rightarrow> [] | Some t \<Rightarrow> [t])\<rparr>"
    have wf: "channel_wf R K ?ch" using Cons.prems(1) by (simp add: channel_wf_def)
    note s = set_last_law [OF wf, of c None]
    have "ranks_inflight ?ch = ranks_inflight ch" by (simp add: ranks_inflight_def)
    moreover have "image_mset tr_id (mset (case dc_trans c of None \<Rightarrow> [] | Some t \<Rightarrow> [t])) = mset (cmd_ids c)"
      by (simp add: cmd_ids_def split: option.splits)
    ultimately have "channel_inflight (set_last c None ?ch) = channel_inflight ch + mset (cmd_ids c)"
      using s Cons.prems(2) by (simp add: channel_inflight_def ac_simps)
    then show ?thesis using Cons.IH [of "set_last c None ?ch"] s Cons.prems(2) True by (simp add: ac_simps)
  next
    case False
    let ?ch = "ch\<lparr>ch_issuedCmds := ch_issuedCmds ch @ [c]\<rparr>"
    have "channel_wf R K ?ch" using Cons.prems by (auto simp: channel_wf_def)
    moreover have "channel_inflight ?ch = channel_inflight ch + mset (cmd_ids c)"
      by (simp add: channel_inflight_def ranks_inflight_def ac_simps)
    ultimately show ?thesis using Cons.IH [of ?ch] Cons.prems(2) False by (simp add: ac_simps)
  qed
qed simp

text \<open>What picking a command leaves alone.\<close>

definition same_books :: "Channel \<Rightarrow> Channel \<Rightarrow> bool" where
  "same_books ch ch' \<longleftrightarrow> ch_issuedCmds ch' = ch_issuedCmds ch \<and> ch_retiredTrans ch' = ch_retiredTrans ch \<and>
     ch_pendingCount ch' = ch_pendingCount ch \<and> ch_maxPendingTrans ch' = ch_maxPendingTrans ch"

definition picks :: "nat \<Rightarrow> nat \<Rightarrow> Channel \<Rightarrow> DCmd option \<Rightarrow> Channel \<Rightarrow> bool" where
  "picks R K ch co ch' \<longleftrightarrow> channel_wf R K ch' \<and> same_books ch ch' \<and> (case co of None \<Rightarrow> ranks_inflight ch' = ranks_inflight ch
     | Some c \<Rightarrow> dc_rank c < R \<and> dc_bank c < K \<and> ranks_inflight ch = mset (cmd_ids c) + ranks_inflight ch')"

lemma picks_trans: "picks R K ch None ch1 \<Longrightarrow> picks R K ch1 co ch2 \<Longrightarrow> picks R K ch co ch2"
  by (auto simp: picks_def same_books_def split: option.splits)

lemma channel_try_law:
  assumes ok: "channel_wf R K ch" and k: "k < R"
  shows "\<exists>ch' co. channel_try cyc k ch = Inr (ch', co) \<and> picks R K ch co ch'"
proof (cases "hasActiveBanks (ch_ranks ch ! k)")
  case True
  let ?r = "ch_ranks ch ! k"
  have kl: "k < length (ch_ranks ch)" and rwf: "rank_wf K k ?r" using ok k by (auto simp: channel_wf_def)
  obtain r co where p: "rank_popCmd cyc (ucast (ch_dataBusAvailCycle ch)) ?r = Inr (r, co)" "rank_wf K k r"
    "case co of None \<Rightarrow> rank_inflight r = rank_inflight ?r
    | Some c \<Rightarrow> dc_rank c = k \<and> dc_bank c < K \<and> rank_inflight ?r = mset (cmd_ids c) + rank_inflight r"
    using rank_popCmd_law [OF rwf] by blast
  have "case co of None \<Rightarrow> sum_list (map rank_inflight ((ch_ranks ch)[k := r])) = ranks_inflight ch
    | Some c \<Rightarrow> ranks_inflight ch = mset (cmd_ids c) + sum_list (map rank_inflight ((ch_ranks ch)[k := r]))"
    using sum_list_map_update [OF kl, of rank_inflight r] p(3) by (auto simp: ranks_inflight_def ac_simps split: option.splits)
  then show ?thesis using True kl p ok k
    by (auto simp: channel_try_def Let_def picks_def same_books_def channel_wf_def ranks_inflight_def nth_list_update split: option.splits)
next
  case False
  then show ?thesis using ok k by (auto simp: channel_try_def picks_def same_books_def channel_wf_def)
qed

lemma channel_loop_law:
  "channel_wf R K ch \<Longrightarrow> k < R \<Longrightarrow> \<exists>ch' co. channel_loop cyc n k ch = Inr (ch', co) \<and> picks R K ch co ch'"
proof (induction n arbitrary: k ch)
  case 0
  then show ?case by (simp add: picks_def same_books_def)
next
  case (Suc n)
  obtain ch1 co where 1: "channel_try cyc k ch = Inr (ch1, co)" "picks R K ch co ch1" using channel_try_law [OF Suc.prems] by blast
  then have wf: "channel_wf R K ch1" "(k + 1) mod length (ch_ranks ch1) < R" using Suc.prems(2) by (auto simp: picks_def channel_wf_def)
  obtain ch2 co2 where "channel_loop cyc n ((k + 1) mod length (ch_ranks ch1)) ch1 = Inr (ch2, co2)" "picks R K ch1 co2 ch2"
    using Suc.IH [OF wf] by blast
  then show ?case using 1 picks_trans by (cases co) auto
qed

lemma channel_popCmd_law:
  "channel_wf R K ch \<Longrightarrow> \<exists>ch' co. channel_popCmd cyc ch = Inr (ch', co) \<and> picks R K ch co ch'"
  using channel_loop_law [of R K ch "ch_nextRankUp ch" cyc "length (ch_ranks ch)"]
  by (cases "R = 0") (auto simp: channel_popCmd_def channel_wf_def picks_def same_books_def)

text \<open>A cycle of a channel: what leaves is what is answered, one transaction at most.\<close>

lemma channel_respond_law:
  assumes "channel_wf R K ch" and "channel_respond ch = (ch', ids)"
  shows "channel_wf R K ch' \<and> channel_inflight ch = mset ids + channel_inflight ch' \<and> length ids \<le> 1 \<and>
    ch_maxPendingTrans ch' = ch_maxPendingTrans ch \<and> ch_pendingCount ch' = ch_pendingCount ch - of_nat (length ids)"
  using assms by (auto simp: channel_respond_def channel_wf_def channel_inflight_def ranks_inflight_def split: list.splits)

lemma channel_clock_law:
  assumes ok: "channel_ok R K ch"
  shows "\<exists>ch' ids. channel_clock cyc ch = Inr (ch', ids) \<and> channel_ok R K ch' \<and> channel_inflight ch = mset ids + channel_inflight ch' \<and>
    length ids \<le> 1 \<and> ch_maxPendingTrans ch' = ch_maxPendingTrans ch"
proof -
  have wf0: "channel_wf R K (ch\<lparr>ch_issuedCmds := []\<rparr>)" "\<forall>c \<in> set (ch_issuedCmds ch). dc_rank c < R \<and> dc_bank c < K"
    using ok by (auto simp: channel_ok_def channel_wf_def)
  define ch1 where "ch1 = retire cyc (ch_issuedCmds ch) (ch\<lparr>ch_issuedCmds := []\<rparr>)"
  have 1: "channel_wf R K ch1" "channel_inflight ch1 = channel_inflight ch" "ch_pendingCount ch1 = ch_pendingCount ch"
    "ch_maxPendingTrans ch1 = ch_maxPendingTrans ch"
    using retire_law [OF wf0, of cyc] by (auto simp: ch1_def channel_inflight_def ranks_inflight_def)
  obtain ch2 ids where 2: "channel_respond ch1 = (ch2, ids)" by (metis surj_pair)
  note r = channel_respond_law [OF 1(1) 2]
  obtain ch3 co where 3: "channel_popCmd cyc ch2 = Inr (ch3, co)" "picks R K ch2 co ch3" using channel_popCmd_law r by blast
  have size: "size (channel_inflight ch) = length ids + size (channel_inflight ch2)" using r 1(2) by simp
  have pend: "unat (ch_pendingCount ch2) = size (channel_inflight ch2)" "ch_pendingCount ch2 \<le> ch_maxPendingTrans ch2"
  proof -
    have n: "unat (ch_pendingCount ch1) = length ids + size (channel_inflight ch2)" "ch_pendingCount ch1 \<le> ch_maxPendingTrans ch1"
      using ok 1 size by (auto simp: channel_ok_def)
    moreover have l: "unat (of_nat (length ids) :: u32) = length ids" using r by (cases ids) auto
    ultimately have le: "of_nat (length ids) \<le> ch_pendingCount ch1" by (simp add: word_le_nat_alt)
    show u: "unat (ch_pendingCount ch2) = size (channel_inflight ch2)" using r unat_sub [OF le] n l by simp
    have "ch_pendingCount ch2 \<le> ch_pendingCount ch1" using u n by (simp add: word_le_nat_alt)
    then show "ch_pendingCount ch2 \<le> ch_maxPendingTrans ch2" using n r by auto
  qed
  have books: "channel_wf R K ch3" "same_books ch2 ch3" using 3(2) by (auto simp: picks_def)
  show ?thesis
  proof (cases co)
    case None
    then have "channel_inflight ch3 = channel_inflight ch2" using 3(2) by (simp add: picks_def channel_inflight_def same_books_def)
    then show ?thesis using None 1 2 3 r pend books
      by (simp add: channel_clock_def ch1_def [symmetric] channel_ok_def same_books_def)
  next
    case (Some c)
    then have c: "dc_rank c < R" "dc_bank c < K" "ranks_inflight ch2 = mset (cmd_ids c) + ranks_inflight ch3"
      using 3(2) by (auto simp: picks_def)
    let ?ch = "ch3\<lparr>ch_dataBusAvailCycle := ucast (dc_dataBusAvailCycle c)\<rparr>"
    let ?new = "set_last c (Some c) ?ch\<lparr>ch_issuedCmds := ch_issuedCmds (set_last c (Some c) ?ch) @ [c]\<rparr>"
    have "channel_wf R K ?ch" using books(1) by (simp add: channel_wf_def)
    note s = set_last_law [OF this c(1,2), of "Some c"]
    have fl: "channel_inflight ?new = channel_inflight ch2"
      using s books(2) c(3) by (auto simp: channel_inflight_def ranks_inflight_def same_books_def)
    have wf: "channel_wf R K ?new" using s c by (auto simp: channel_wf_def)
    have "channel_clock cyc ch = Inr (?new, ids)"
      using 2 3 Some by (simp add: channel_clock_def ch1_def [symmetric] Let_def)
    then show ?thesis using fl wf s books(2) pend r 1 by (auto simp: channel_ok_def same_books_def)
  qed
qed

lemma channel_issue_law:
  assumes ok: "channel_ok R K ch" and m: "mapper_fits m C R K"
  shows "\<exists>ch' acc. channel_issue m now i addr wr n ch = Inr (ch', acc) \<and> channel_ok R K ch' \<and> acc = (ch_pendingCount ch < ch_maxPendingTrans ch) \<and>
    channel_inflight ch' = (if acc then add_mset i (channel_inflight ch) else channel_inflight ch) \<and>
    ch_maxPendingTrans ch' = ch_maxPendingTrans ch"
proof (cases "ch_maxPendingTrans ch = ch_pendingCount ch")
  case True
  then show ?thesis using ok by (auto simp: channel_issue_def)
next
  case False
  then have lt: "ch_pendingCount ch < ch_maxPendingTrans ch" using ok by (auto simp: channel_ok_def)
  obtain r k w where x: "getRank m addr = Inr r" "unat r < R" "am_getBank m addr = Inr k" "unat k < K" "getRow m addr = Inr w"
    using m unfolding mapper_fits_def by blast
  let ?t = "\<lparr>tr_createTime = now, tr_id = i, tr_addr = addr, tr_isWrite = wr, tr_numBytes = n, tr_bank = k, tr_row = w\<rparr>"
  let ?r = "ch_ranks ch ! unat r"
  have rl: "unat r < length (ch_ranks ch)" and rwf: "rank_wf K (unat r) ?r" using ok x(2) by (auto simp: channel_ok_def channel_wf_def)
  obtain r' where p: "rank_pushTrans m ?t ?r = Inr r'" "rank_wf K (unat r) r'" "rank_inflight r' = add_mset i (rank_inflight ?r)"
    using rank_pushTrans_law [OF rwf, of m ?t k] x by auto
  let ?ch = "ch\<lparr>ch_pendingCount := ch_pendingCount ch + 1, ch_ranks := (ch_ranks ch)[unat r := r']\<rparr>"
  have "channel_issue m now i addr wr n ch = Inr (?ch, True)" using False x rl p by (simp add: channel_issue_def Let_def)
  moreover have fl: "channel_inflight ?ch = add_mset i (channel_inflight ch)"
    using sum_list_map_update [OF rl, of rank_inflight r'] p(3) by (simp add: channel_inflight_def ranks_inflight_def)
  moreover have "unat (ch_pendingCount ch + 1) = unat (ch_pendingCount ch) + 1"
    using lt unsigned_less [of "ch_maxPendingTrans ch", where ?'a = nat] unat_add_lem [of "ch_pendingCount ch" 1] by (simp add: word_less_nat_alt)
  moreover have "ch_pendingCount ch + 1 \<le> ch_maxPendingTrans ch" using lt by (rule inc_le)
  moreover have "channel_wf R K ?ch" using ok p(2) rl by (auto simp: channel_ok_def channel_wf_def nth_list_update)
  ultimately show ?thesis using ok lt by (auto simp: channel_ok_def)
qed

section \<open>The DRAM keeps the contract of a back end\<close>

lemma td_issue_law:
  assumes "td_ok R K d"
  shows "\<exists>d' acc. td_issueRequest i addr wr n d = Inr (d', acc) \<and> td_ok R K d' \<and>
    td_inflight d' = (if acc then add_mset i (td_inflight d) else td_inflight d)"
proof -
  have m: "mapper_fits (td_mapper d) (length (td_channels d)) R K" using assms by (simp add: td_ok_def)
  then obtain c where c: "getChannel (td_mapper d) addr = Inr c" "unat c < length (td_channels d)"
    unfolding mapper_fits_def by blast
  let ?ch = "td_channels d ! unat c"
  have ok: "channel_ok R K ?ch" using assms c(2) by (auto simp: td_ok_def)
  obtain ch acc where p: "channel_issue (td_mapper d) (td_cycle d) i addr wr n ?ch = Inr (ch, acc)" "channel_ok R K ch"
    "channel_inflight ch = (if acc then add_mset i (channel_inflight ?ch) else channel_inflight ?ch)"
    using channel_issue_law [OF ok m, of "td_cycle d" i addr wr n] by blast
  let ?d = "d\<lparr>td_channels := (td_channels d)[unat c := ch]\<rparr>"
  have "td_issueRequest i addr wr n d = Inr (?d, acc)" using c p(1) by (simp add: td_issueRequest_def Let_def)
  moreover have "td_ok R K ?d" using assms p(2) by (auto simp: td_ok_def dest: set_update_subset_insert [THEN subsetD])
  moreover have "td_inflight ?d = (if acc then add_mset i (td_inflight d) else td_inflight d)"
    using sum_list_map_update [OF c(2), of channel_inflight ch] p(3) by (auto simp: td_inflight_def split: if_splits)
  ultimately show ?thesis by blast
qed

lemma clock_channels_law:
  "\<forall>ch \<in> set chs. channel_ok R K ch \<Longrightarrow> \<exists>chs' ids. clock_channels cyc chs = Inr (chs', ids) \<and> (\<forall>ch \<in> set chs'. channel_ok R K ch) \<and>
     length chs' = length chs \<and> length ids \<le> length chs \<and>
     sum_list (map channel_inflight chs) = mset ids + sum_list (map channel_inflight chs')"
proof (induction chs)
  case (Cons ch chs)
  obtain ch' ids where 1: "channel_clock cyc ch = Inr (ch', ids)" "channel_ok R K ch'" "channel_inflight ch = mset ids + channel_inflight ch'" "length ids \<le> 1"
    using channel_clock_law [of R K ch cyc] Cons.prems by auto
  obtain chs' ids' where 2: "clock_channels cyc chs = Inr (chs', ids')" "\<forall>ch \<in> set chs'. channel_ok R K ch" "length chs' = length chs"
      "length ids' \<le> length chs" "sum_list (map channel_inflight chs) = mset ids' + sum_list (map channel_inflight chs')"
    using Cons by auto
  show ?case using 1 2 by (simp add: ac_simps)
qed simp

lemma td_clock_law:
  assumes "td_ok R K d"
  shows "\<exists>d' ids. td_clock d = Inr (d', ids, False) \<and> td_ok R K d' \<and> td_inflight d = mset ids + td_inflight d' \<and>
    length ids \<le> length (td_channels d)"
proof -
  obtain chs ids where "clock_channels (td_cycle d) (td_channels d) = Inr (chs, ids)" "\<forall>ch \<in> set chs. channel_ok R K ch"
      "length chs = length (td_channels d)" "length ids \<le> length (td_channels d)"
      "sum_list (map channel_inflight (td_channels d)) = mset ids + sum_list (map channel_inflight chs)"
    using clock_channels_law [of "td_channels d" R K "td_cycle d"] assms by (auto simp: td_ok_def)
  then show ?thesis using assms by (simp add: td_clock_def td_ok_def td_inflight_def)
qed

interpretation tdram: total_backend "TimingDRAM mx w ms" "td_ok R K" td_inflight for mx w ms R K
proof
  fix b i a wr n b' ok info xs u k
  assume b: "td_ok R K b"
  show "\<exists>b' ok. be_issueRequest (TimingDRAM mx w ms) i a wr n b = Inr (b', ok)"
    using td_issue_law [OF b, of i a wr n] by (auto simp: TimingDRAM_def)
  show "be_issueRequest (TimingDRAM mx w ms) i a wr n b = Inr (b', ok) \<Longrightarrow>
      td_ok R K b' \<and> td_inflight b' = (if ok then add_mset i (td_inflight b) else td_inflight b)"
    using td_issue_law [OF b, of i a wr n] by (auto simp: TimingDRAM_def)
  show "\<exists>b' xs u. be_clock (TimingDRAM mx w ms) b = Inr (b', xs, u)" using td_clock_law [OF b] by (auto simp: TimingDRAM_def)
  show "be_clock (TimingDRAM mx w ms) b = Inr (b', xs, u) \<Longrightarrow> td_ok R K b' \<and> td_inflight b = mset xs + td_inflight b'"
    using td_clock_law [OF b] by (auto simp: TimingDRAM_def)
qed (auto simp: TimingDRAM_def noCustom_def)

section \<open>Construction\<close>

lemma Bank_new_facts [simp]:
  "bank_inflight (Bank_new p i j) = image_mset tr_id (mset (tq_list (bp_transactionQ p)))" "bank_wf i j (Bank_new p i j)"
  by (simp_all add: Bank_new_def bank_inflight_def bank_wf_def)

lemma sum_list_empty: "(\<forall>x \<in> set xs. f x = ({#} :: 'a multiset)) \<Longrightarrow> sum_list (map f xs) = {#}"
  by (induction xs) auto

text \<open>The queues of the parameters are empty.\<close>

definition new_rank :: "BankParams \<Rightarrow> nat \<Rightarrow> nat \<Rightarrow> DRank" where
  "new_rank p K i = \<lparr>rk_nextBankUp = 0, rk_banks = map (Bank_new p i) [0..<K], rk_banksActive = {}\<rparr>"

lemma new_rank_ok: "tq_list (bp_transactionQ p) = [] \<Longrightarrow> rank_wf K i (new_rank p K i) \<and> rank_inflight (new_rank p K i) = {#}"
  by (auto simp: new_rank_def rank_wf_def rank_inflight_def intro!: sum_list_empty)

lemma new_ranks_settled:
  "settled m \<Longrightarrow> am_banks (am_base m) = K \<Longrightarrow> new_ranks p K is m = Inr (m, map (new_rank p (unat K)) is)"
  by (induction "is") (simp_all add: Rank_new_def settled_def new_rank_def)

definition new_channel :: "BankParams \<Rightarrow> nat \<Rightarrow> nat \<Rightarrow> u32 \<Rightarrow> Channel" where
  "new_channel p R K mx = \<lparr>ch_nextRankUp = 0, ch_ranks = map (new_rank p K) [0..<R], ch_dataBusAvailCycle = 0, ch_maxPendingTrans = mx,
     ch_pendingCount = 0, ch_issuedCmds = [], ch_retiredTrans = []\<rparr>"

lemma new_channel_ok: "tq_list (bp_transactionQ p) = [] \<Longrightarrow> channel_ok R K (new_channel p R K mx) \<and> channel_inflight (new_channel p R K mx) = {#}"
  using new_rank_ok [of p K]
  by (auto simp: new_channel_def channel_ok_def channel_wf_def channel_inflight_def ranks_inflight_def sum_list_empty)

lemma new_channels_settled:
  assumes "settled m" and "am_ranks (am_base m) = R" and "am_banks (am_base m) = K"
  shows "new_channels p R K mx n m = Inr (m, replicate n (new_channel p (unat R) (unat K) mx))"
proof -
  have "Channel_new p R K mx m = Inr (m, new_channel p (unat R) (unat K) mx)"
    using new_ranks_settled [OF assms(1,3), of p "[0..<unat R]"] assms by (auto simp: Channel_new_def settled_def new_channel_def)
  then show ?thesis by (induction n) simp_all
qed

text \<open>
  The constructor with a mapper whose sizes, once set, are those of the DRAM: the first calls of
  the setters configure the mapper and the later ones leave it.
\<close>

lemma TimingDRAM_new_ok:
  assumes conf: "setNumChannels C m0 = Inr m1" "setNumRanks R m1 = Inr m2" "setNumBanks K m2 = Inr m"
    and m: "settled m" "am_ranks (am_base m) = R" "am_banks (am_base m) = K" "mapper_fits m (unat C) (unat R) (unat K)"
    and q: "tq_list (bp_transactionQ p) = []" and nz: "0 < C" "0 < R"
  shows "\<exists>d. TimingDRAM_new p C R K mx m0 = Inr d \<and> td_ok (unat R) (unat K) d \<and> td_inflight d = {#} \<and> td_mapper d = m \<and>
    td_channels d = replicate (unat C) (new_channel p (unat R) (unat K) mx)"
proof -
  obtain c where c: "unat C = Suc c" using nz(1) by (metis gr0_conv_Suc unat_gt_0 word_neq_0_conv)
  have rs: "unat R = Suc (unat R - 1)" using nz(2) by (metis Suc_diff_1 unat_gt_0 word_neq_0_conv)
  have "new_ranks p K [0..<unat R] m2 = Inr (m, map (new_rank p (unat K)) [0..<unat R])"
    using new_ranks_settled [OF m(1,3), of p "[1..<unat R]"] conf(3) rs
    by (subst (1 2) upt_conv_Cons) (auto simp: Rank_new_def new_rank_def)
  then have "Channel_new p R K mx m1 = Inr (m, new_channel p (unat R) (unat K) mx)"
    using conf(2) by (simp add: Channel_new_def new_channel_def)
  then have "TimingDRAM_new p C R K mx m0 =
      Inr \<lparr>td_channels = replicate (unat C) (new_channel p (unat R) (unat K) mx), td_mapper = m, td_cycle = 0\<rparr>"
    using conf(1) new_channels_settled [OF m(1-3), of p mx c] c by (simp add: TimingDRAM_new_def)
  moreover have "sum_list (map channel_inflight (replicate (unat C) (new_channel p (unat R) (unat K) mx))) = {#}"
    using new_channel_ok [OF q] by (intro sum_list_empty) auto
  ultimately show ?thesis using m(4) new_channel_ok [OF q, of "unat R" "unat K" mx] by (simp add: td_ok_def td_inflight_def)
qed

section \<open>The commands a bank receives\<close>

text \<open>
  The row of a DRAM bank as the device sees it: a precharge closes the open row, an activation
  opens a row of a closed bank, a column access needs its row open. The result is the row open
  afterwards, \<open>-1\<close> for none, or nothing for a sequence the device does not allow.
\<close>

fun device :: "u32 \<Rightarrow> DCmd list \<Rightarrow> u32 option" where
  "device row [] = Some row"
| "device row (c # cs) = (case dc_op c of
     PRE \<Rightarrow> if row \<noteq> -1 then device (-1) cs else None
   | ACT \<Rightarrow> if row = -1 \<and> dc_row c \<noteq> -1 then device (dc_row c) cs else None
   | COL \<Rightarrow> if row \<noteq> -1 \<and> dc_row c = row then device row cs else None)"

lemma device_append: "device row (xs @ ys) = (case device row xs of None \<Rightarrow> None | Some r \<Rightarrow> device r ys)"
  by (induction row xs rule: device.induct) (simp_all split: Op.splits)

lemma device_Cons: "device row (c # cs) = (case device row [c] of None \<Rightarrow> None | Some r \<Rightarrow> device r cs)"
  by (simp split: Op.splits)

lemma device_cong: "dc_op c' = dc_op c \<Longrightarrow> dc_row c' = dc_row c \<Longrightarrow> device row (c' # cs) = device row (c # cs)"
  by (simp split: Op.splits)

text \<open>The bank's own row is the one the queued commands lead to.\<close>

definition bank_sync :: "u32 \<Rightarrow> Bank \<Rightarrow> bool" where
  "bank_sync row b \<longleftrightarrow> device row (bn_cmdQ b) = Some (bn_row b) \<and> (\<forall>t \<in> set (tq_list (bn_transQ b)). tr_row t \<noteq> -1)"

lemma device_open_cmds:
  "tr_row t \<noteq> -1 \<Longrightarrow> device (bn_row b) (open_cmds b t @ [Cmd_new b COL n (tr_row t) k tr]) = Some (tr_row t)"
  by (auto simp: open_cmds_def Cmd_new_def)

lemma update_sync:
  assumes "bank_sync row b"
  shows "bank_sync row (update c b)"
proof -
  obtain pp cl where p: "(if bn_lastCmd b = None \<and> bn_row b \<noteq> -1 then shouldClose c (bn_pagePolicy b) else (bn_pagePolicy b, False)) = (pp, cl)"
    by (metis surj_pair)
  show ?thesis
  proof (cases cl)
    case True
    then have "bn_row b \<noteq> -1" using p by (auto split: if_splits)
    then show ?thesis using True assms unfolding update_def p Let_def by (simp add: bank_sync_def device_append Cmd_new_def)
  next
    case False
    show ?thesis
    proof (cases "tq_pop (bn_row b) (bn_transQ b)")
      case None
      then show ?thesis using assms False unfolding update_def p Let_def by (simp add: bank_sync_def)
    next
      case (Some tq)
      obtain t q where tq: "tq = (t, q)" by (cases tq)
      have "set (tq_list (bn_transQ b)) = insert t (set (tq_list q))"
        using arg_cong [OF tq_pop_mset, of "bn_row b" "bn_transQ b" t q set_mset] Some tq by simp
      then have t: "tr_row t \<noteq> -1" "\<forall>t \<in> set (tq_list q). tr_row t \<noteq> -1" using assms by (auto simp: bank_sync_def)
      then show ?thesis using assms False Some tq device_open_cmds [OF t(1), of "b\<lparr>bn_pagePolicy := pp\<rparr>"]
        unfolding update_def p Let_def by (simp add: bank_sync_def device_append [of row "bn_cmdQ b"])
    qed
  qed
qed

lemma bank_popCmd_sync:
  assumes "bank_sync row b" and "bank_popCmd cyc bus b = (b', co)"
  shows "case co of None \<Rightarrow> bank_sync row b' | Some c \<Rightarrow> (\<exists>row'. device row [c] = Some row' \<and> bank_sync row' b')"
proof -
  let ?b = "update cyc b"
  have u: "bank_sync row ?b" by (rule update_sync [OF assms(1)])
  show ?thesis
  proof (cases "bn_cmdQ ?b")
    case Nil
    then show ?thesis using assms(2) u by (auto simp: bank_popCmd_def Let_def)
  next
    case (Cons c cs)
    obtain c' ok where ci: "canIssue (bn_lastCmd ?b) cyc bus c = (c', ok)" by (metis surj_pair)
    have d: "device row (c' # cs) = Some (bn_row ?b)" using u Cons canIssue_keeps [OF ci] device_cong [of c' c] by (simp add: bank_sync_def)
    show ?thesis
    proof (cases ok)
      case True
      then have "b' = ?b\<lparr>bn_cmdQ := cs\<rparr>" "co = Some c'" using assms(2) Cons ci by (auto simp: bank_popCmd_def Let_def)
      moreover obtain row' where "device row [c'] = Some row'" "device row' cs = Some (bn_row ?b)"
        using d device_Cons [of row c' cs] by (cases "device row [c']") (simp_all del: device.simps)
      ultimately show ?thesis using u by (simp add: bank_sync_def del: device.simps)
    next
      case False
      then have "b' = ?b\<lparr>bn_cmdQ := c' # cs\<rparr>" "co = None" using assms(2) Cons ci by (auto simp: bank_popCmd_def Let_def)
      then show ?thesis using d u by (simp add: bank_sync_def del: device.simps)
    qed
  qed
qed

text \<open>
  The life of a bank: transactions arrive, commands are asked for at any cycle and issued, the
  last command is remembered or forgotten. The list holds the commands issued so far.
\<close>

inductive bank_run :: "Bank \<Rightarrow> Transaction list \<Rightarrow> DCmd list \<Rightarrow> Bank \<Rightarrow> bool" where
  start: "bank_run b [] [] b"
| arrive: "bank_run b0 ts cs b \<Longrightarrow> bank_run b0 (ts @ [t]) cs (b\<lparr>bn_transQ := tq_push t (bn_transQ b)\<rparr>)"
| wait: "bank_run b0 ts cs b \<Longrightarrow> bank_popCmd cycle bus b = (b', None) \<Longrightarrow> bank_run b0 ts cs b'"
| issue_cmd: "bank_run b0 ts cs b \<Longrightarrow> bank_popCmd cycle bus b = (b', Some c) \<Longrightarrow> bank_run b0 ts (cs @ [c]) b'"
| last_cmd: "bank_run b0 ts cs b \<Longrightarrow> bank_run b0 ts cs (b\<lparr>bn_lastCmd := l\<rparr>)"

lemma bank_run_sync:
  "bank_run b0 ts cs b \<Longrightarrow> \<forall>t \<in> set ts. tr_row t \<noteq> -1 \<Longrightarrow> bank_sync row b0 \<Longrightarrow>
     \<exists>row'. device row cs = Some row' \<and> bank_sync row' b"
proof (induction rule: bank_run.induct)
  case (arrive b0 ts cs b t)
  then show ?case by (auto simp: bank_sync_def tq_push_def)
next
  case (wait b0 ts cs b cycle bus b')
  then show ?case using bank_popCmd_sync [of _ b cycle bus b' None] by auto
next
  case (issue_cmd b0 ts cs b cycle bus b' c)
  then show ?case using bank_popCmd_sync [of _ b cycle bus b' "Some c"] by (auto simp: device_append)
next
  case (last_cmd b0 ts cs b l)
  then show ?case by (auto simp: bank_sync_def)
qed simp

text \<open>
  A closed bank is marked by row \<open>-1\<close>, which is also the row of some addresses: a transaction of
  that row finds the closed bank open and its column goes out without an activation. The rows of
  addresses below \<open>2 ^ 32 - 1\<close> are never that one, whatever the mapper.
\<close>

lemma closed_row_skips_activation:
  assumes "bn_row b = -1" and "bn_cmdQ b = []" and "tq_pop (-1) (bn_transQ b) = Some (t, q)" and "tr_row t = -1"
    and "bank_popCmd now bus b = (b', Some c)"
  shows "dc_op c = COL \<and> dc_trans c = Some t \<and> device (-1) [c] = None"
  using assms by (auto simp: bank_popCmd_def update_def open_cmds_def Let_def dest!: canIssue_keeps split: prod.splits bool.splits)

lemma getRow_small:
  assumes "getRow m addr = Inr w" and "unat addr < 2 ^ 32 - 1"
  shows "w \<noteq> -1"
proof -
  have le: "unat x \<le> unat addr \<Longrightarrow> (ucast (x :: u64) :: u32) \<noteq> -1" for x
  proof
    assume x: "unat x \<le> unat addr" and "(ucast x :: u32) = -1"
    then have "unat (ucast x :: u32) = unat (-1 :: u32)" by simp
    moreover have "unat (-1 :: u32) = 2 ^ 32 - 1" by (simp add: unsigned_minus_1_eq_mask mask_eq_exp_minus_1)
    ultimately show False using x assms(2) by (simp add: unsigned_ucast_eq take_bit_nat_eq_self)
  qed
  have d: "unat (drop_bit n addr) \<le> unat addr" for n by (simp add: unat_drop)
  show ?thesis
  proof (cases m)
    case (SimpleMapper a)
    then show ?thesis using assms(1) le [OF d] by auto
  next
    case (RoundRobin a base rankD rowD)
    have "unat (drop_bit base addr div ucast rowD) \<le> unat addr" 
      by (rule le_trans [OF _ d [of base]]) (simp add: unat_div_distrib)
    then show ?thesis using RoundRobin assms(1) le by (auto simp: div64_def split: if_splits)
  next
    case (SandyBridge a)
    have "unat (drop_bit n addr AND y) \<le> unat addr" for n y
      using d [of n] word_and_le2 [of "drop_bit n addr" y] by (simp add: word_le_nat_alt le_trans)
    then show ?thesis using SandyBridge assms(1) le by auto
  qed
qed

text \<open>
  C15 The timing DRAM speaks the protocol of the device: as long as none of the transactions that
  arrive is for row \<open>0xFFFFFFFF\<close>, the code's mark of a closed bank, and whenever the scheduler asks,
  the commands a bank issues never precharge a closed bank, never activate an open one and
  access columns of the open row only, under both queues and both page policies.
\<close>
theorem bank_commands_legal:
  assumes "bank_run (Bank_new p i j) ts cs b" and "\<forall>t \<in> set ts. tr_row t \<noteq> -1" and "tq_list (bp_transactionQ p) = []"
  shows "\<exists>row. device (-1) cs = Some row"
  using bank_run_sync [OF assms(1,2), of "-1"] assms(3) by (auto simp: bank_sync_def Bank_new_def)

section \<open>The data bus\<close>

text \<open>A command as \<open>canIssue\<close> lets it go at cycle \<open>now\<close> with the bus taken until \<open>bus\<close>.\<close>

definition on_bus :: "u64 \<Rightarrow> u64 \<Rightarrow> DCmd \<Rightarrow> bool" where
  "on_bus now bus c \<longleftrightarrow> dc_issueTime c = now \<and> bus \<le> now + ucast (dc_cycles c) \<and>
     dc_finiTime c = now + ucast (dc_cycles c) + ucast (dc_dataCycles c) \<and> dc_dataBusAvailCycle c = dc_finiTime c"

lemma bank_popCmd_bus: "bank_popCmd now bus b = (b', Some c) \<Longrightarrow> on_bus now bus c"
  by (auto simp: bank_popCmd_def Let_def canIssue_def on_bus_def split: list.splits if_splits)

lemma rank_loop_bus: "rank_loop now bus n k r = Inr (r', Some c) \<Longrightarrow> on_bus now bus c"
proof (induction n arbitrary: k r)
  case (Suc n)
  then show ?case
    by (auto simp: bindE_eq_Inr_iff rank_try_def Let_def split: if_splits prod.splits dest!: bank_popCmd_bus)
qed simp

lemma channel_loop_bus:
  "channel_loop now n k ch = Inr (ch', co) \<Longrightarrow> ch_dataBusAvailCycle ch' = ch_dataBusAvailCycle ch \<and>
     ch_issuedCmds ch' = ch_issuedCmds ch \<and> (\<forall>c. co = Some c \<longrightarrow> on_bus now (ucast (ch_dataBusAvailCycle ch)) c)"
proof (induction n arbitrary: k ch)
  case (Suc n)
  obtain ch1 co1 where 1: "channel_try now k ch = Inr (ch1, co1)"
      "(if co1 \<noteq> None then Inr (ch1, co1) else channel_loop now n ((k + 1) mod length (ch_ranks ch1)) ch1) = Inr (ch', co)"
    using Suc.prems by (auto simp: bindE_eq_Inr_iff)
  have "ch_dataBusAvailCycle ch1 = ch_dataBusAvailCycle ch \<and> ch_issuedCmds ch1 = ch_issuedCmds ch \<and>
      (\<forall>c. co1 = Some c \<longrightarrow> on_bus now (ucast (ch_dataBusAvailCycle ch)) c)"
    using 1(1) by (auto simp: channel_try_def bindE_eq_Inr_iff Let_def rank_popCmd_def dest: rank_loop_bus split: if_splits)
  then show ?case using 1(2) Suc.IH [of "(k + 1) mod length (ch_ranks ch1)" ch1] by (auto split: if_splits)
qed simp

lemma retire_issued:
  "ch_issuedCmds (retire now cs ch) = ch_issuedCmds ch @ filter (\<lambda>c. \<not> cmd_isDone now c) cs \<and>
   ch_dataBusAvailCycle (retire now cs ch) = ch_dataBusAvailCycle ch"
  by (induction cs arbitrary: ch) (simp_all add: set_last_def Let_def)

lemma channel_respond_frame:
  "channel_respond ch = (ch', ids) \<Longrightarrow> ch_issuedCmds ch' = ch_issuedCmds ch \<and> ch_dataBusAvailCycle ch' = ch_dataBusAvailCycle ch"
  by (auto simp: channel_respond_def split: list.splits)

text \<open>
  The data bus of a channel carries one transfer at a time: a cycle drops the commands that
  are done and issues at most one more; the transfer of that one, the last \<open>dataCycles\<close> before it
  finishes, starts no earlier than the bus is free, and the bus is taken until it ends.
\<close>
theorem data_bus_exclusive:
  assumes "channel_clock now ch = Inr (ch', ids)"
  defines "busy \<equiv> filter (\<lambda>c. \<not> cmd_isDone now c) (ch_issuedCmds ch)"
  shows "(ch_issuedCmds ch' = busy \<and> ch_dataBusAvailCycle ch' = ch_dataBusAvailCycle ch) \<or>
    (\<exists>c. ch_issuedCmds ch' = busy @ [c] \<and> dc_issueTime c = now \<and> ucast (ch_dataBusAvailCycle ch) \<le> now + ucast (dc_cycles c) \<and>
       dc_finiTime c = now + ucast (dc_cycles c) + ucast (dc_dataCycles c) \<and> ch_dataBusAvailCycle ch' = ucast (dc_finiTime c))"
proof -
  define ch1 where "ch1 = retire now (ch_issuedCmds ch) (ch\<lparr>ch_issuedCmds := []\<rparr>)"
  have 1: "ch_issuedCmds ch1 = busy" "ch_dataBusAvailCycle ch1 = ch_dataBusAvailCycle ch"
    using retire_issued [of now "ch_issuedCmds ch" "ch\<lparr>ch_issuedCmds := []\<rparr>"] by (simp_all add: ch1_def busy_def)
  obtain ch2 ids2 where 2: "channel_respond ch1 = (ch2, ids2)" by (metis surj_pair)
  obtain ch3 co where 3: "channel_popCmd now ch2 = Inr (ch3, co)"
      "(case co of None \<Rightarrow> Inr (ch3, ids2) | Some c \<Rightarrow> (let ch = set_last c (Some c) (ch3\<lparr>ch_dataBusAvailCycle := ucast (dc_dataBusAvailCycle c)\<rparr>)
         in Inr (ch\<lparr>ch_issuedCmds := ch_issuedCmds ch @ [c]\<rparr>, ids2))) = (Inr (ch', ids) :: (Channel \<times> ReqId list) res)"
    using assms(1) 2 by (auto simp: channel_clock_def ch1_def [symmetric] bindE_eq_Inr_iff)
  have b: "ch_dataBusAvailCycle ch3 = ch_dataBusAvailCycle ch" "ch_issuedCmds ch3 = busy"
    "\<forall>c. co = Some c \<longrightarrow> on_bus now (ucast (ch_dataBusAvailCycle ch)) c"
    using channel_loop_bus [OF 3(1) [unfolded channel_popCmd_def]] channel_respond_frame [OF 2] 1 by auto
  then show ?thesis using 3(2) by (cases co) (auto simp: on_bus_def set_last_def Let_def)
qed

section \<open>Properties of the back end\<close>

text \<open>
  C16 The convertor over the timing DRAM: with a mapper that sends every address to a channel, a
  rank and a bank that exist (\<open>mapper_fits\<close>: not the SandyBridge mapper over fewer than eight
  banks, nor a round-robin mapper whose products overflow), whatever the queues and policies, a
  cycle returns without a fault, the mapper still fits and the channels keep their books, the
  books of convertor and DRAM agree afterwards, and each event is answered at most once.
\<close>
theorem timing_dram_never_faults:
  assumes "mapper_fits (td_mapper d) (length (td_channels d)) R K" and "\<forall>ch \<in> set (td_channels d). channel_ok R K ch"
    and "conv_ok cv (td_inflight d)" and "no_custom cv"
  shows "\<exists>cv' d' rs off. conv_clock (TimingDRAM mx w ms) c cv d = Some (Inr (cv', d', rs, off)) \<and>
    mapper_fits (td_mapper d') (length (td_channels d')) R K \<and> (\<forall>ch \<in> set (td_channels d'). channel_ok R K ch) \<and>
    conv_ok cv' (td_inflight d') \<and> no_custom cv' \<and> distinct (map fst rs) \<and> outstanding cv' = outstanding cv - fst ` set rs"
proof -
  have "td_ok R K d" using assms(1,2) by (simp add: td_ok_def)
  then show ?thesis
    using tdram.clock_never_faults [OF _ assms(3,4), of R K mx w ms c] tdram.clock_answers [OF _ assms(3), of R K mx w ms c]
    by (auto simp: cv_answers_def td_ok_def)
qed

text \<open>
  C23 The transaction queue of a channel is bounded: a request is accepted exactly while fewer
  than \<open>transaction_Q_size\<close> are in the channel, wherever they are between arrival and response,
  and the requests in the channel never exceed that size.
\<close>
theorem channel_queue_bound:
  assumes "channel_ok R K ch" and "mapper_fits m C R K"
  shows "\<exists>ch' acc. channel_issue m now i addr wr n ch = Inr (ch', acc) \<and> channel_ok R K ch' \<and>
    acc = (size (channel_inflight ch) < unat (ch_maxPendingTrans ch)) \<and>
    channel_inflight ch' = (if acc then add_mset i (channel_inflight ch) else channel_inflight ch) \<and>
    size (channel_inflight ch') \<le> unat (ch_maxPendingTrans ch)"
  using channel_issue_law [OF assms, of now i addr wr n] assms(1) by (fastforce simp: channel_ok_def word_less_nat_alt word_le_nat_alt)

text \<open>The bank of a command, and what it remembers once a command of it is deleted.\<close>

definition bank_of :: "DCmd \<Rightarrow> Channel \<Rightarrow> Bank" where
  "bank_of c ch = rk_banks (ch_ranks ch ! dc_rank c) ! dc_bank c"

lemma bank_of_set_last:
  assumes "channel_wf R K ch" and "dc_rank c < R" and "dc_bank c < K"
  shows "bn_lastCmd (bank_of d (set_last c l ch)) =
    (if dc_rank d = dc_rank c \<and> dc_bank d = dc_bank c then l else bn_lastCmd (bank_of d ch))"
  using assms by (auto simp: bank_of_def set_last_def Let_def nth_list_update channel_wf_def rank_wf_def)

lemma retire_forgets:
  assumes "channel_wf R K ch" and "\<forall>c \<in> set cs. dc_rank c < R \<and> dc_bank c < K"
    and "bn_lastCmd (bank_of d ch) = None \<or> (\<exists>c \<in> set cs. cmd_isDone now c \<and> dc_rank c = dc_rank d \<and> dc_bank c = dc_bank d)"
  shows "bn_lastCmd (bank_of d (retire now cs ch)) = None"
  using assms
proof (induction cs arbitrary: ch)
  case (Cons c cs)
  show ?case
  proof (cases "cmd_isDone now c")
    case True
    let ?ch = "ch\<lparr>ch_retiredTrans := ch_retiredTrans ch @ (case dc_trans c of None \<Rightarrow> [] | Some t \<Rightarrow> [t])\<rparr>"
    have wf: "channel_wf R K ?ch" using Cons.prems(1) by (simp add: channel_wf_def)
    have "bank_of d ?ch = bank_of d ch" by (simp add: bank_of_def)
    then show ?thesis
      using True Cons.IH [of "set_last c None ?ch"] Cons.prems set_last_law [OF wf, of c None] bank_of_set_last [OF wf, of c d None] by auto
  next
    case False
    have "channel_wf R K (ch\<lparr>ch_issuedCmds := ch_issuedCmds ch @ [c]\<rparr>)" using Cons.prems by (auto simp: channel_wf_def)
    moreover have "bank_of d (ch\<lparr>ch_issuedCmds := ch_issuedCmds ch @ [c]\<rparr>) = bank_of d ch" by (simp add: bank_of_def)
    ultimately show ?thesis using False Cons.IH Cons.prems by auto
  qed
qed simp

text \<open>
  C24 The destructor of a command forgets the last command of its bank even when that is a later
  one. In any well-formed channel with two issued commands of one bank of which one is done and
  the other is not: after the done one is deleted the bank remembers no command although the other
  is still under way, and if a precharge is next in the bank and the bus allows it, the bank
  issues it now, before the other command finishes, where \<open>canIssue\<close> would have refused it had the
  other command been remembered.
\<close>
theorem precharge_overlaps_column:
  assumes "channel_wf R K ch" and "c1 \<in> set (ch_issuedCmds ch)" and "c2 \<in> set (ch_issuedCmds ch)"
    and "dc_rank c1 = dc_rank c2" and "dc_bank c1 = dc_bank c2" and "cmd_isDone now c1" and "\<not> cmd_isDone now c2"
  defines "ch1 \<equiv> retire now (ch_issuedCmds ch) (ch\<lparr>ch_issuedCmds := []\<rparr>)"
  defines "b \<equiv> rk_banks (ch_ranks ch1 ! dc_rank c2) ! dc_bank c2"
  shows "c2 \<in> set (ch_issuedCmds ch1) \<and> bn_lastCmd b = None \<and>
    (\<forall>c cs bus. bn_cmdQ (update now b) = c # cs \<and> dc_op c = PRE \<and> bus \<le> now + ucast (dc_cycles c) \<longrightarrow>
       \<not> snd (canIssue (Some c2) now bus c) \<and>
       (\<exists>c'. bank_popCmd now bus b = ((update now b)\<lparr>bn_cmdQ := cs\<rparr>, Some c') \<and> dc_op c' = PRE \<and> dc_rank c' = dc_rank c2 \<and>
          dc_bank c' = dc_bank c2 \<and> dc_issueTime c' = now \<and> dc_issueTime c' < dc_finiTime c2))"
proof -
  have wf: "channel_wf R K (ch\<lparr>ch_issuedCmds := []\<rparr>)" "\<forall>c \<in> set (ch_issuedCmds ch). dc_rank c < R \<and> dc_bank c < K"
    using assms(1) by (auto simp: channel_wf_def)
  have none: "bn_lastCmd b = None"
    using retire_forgets [OF wf, of c2 now] assms(2,4-6) by (auto simp: b_def ch1_def bank_of_def)
  have "channel_wf R K ch1" using retire_law [OF wf] by (simp add: ch1_def)
  then have b: "bank_wf (dc_rank c2) (dc_bank c2) b" using wf(2) assms(3) by (auto simp: b_def channel_wf_def rank_wf_def)
  then have u: "bank_wf (dc_rank c2) (dc_bank c2) (update now b)" "bn_lastCmd (update now b) = None"
    using update_law [OF b, of now] none by auto
  have "\<not> snd (canIssue (Some c2) now bus c)" if "dc_op c = PRE" for c bus using that by (simp add: canIssue_def)
  moreover have "\<exists>c'. bank_popCmd now bus b = ((update now b)\<lparr>bn_cmdQ := cs\<rparr>, Some c') \<and> dc_op c' = PRE \<and> dc_rank c' = dc_rank c2 \<and>
      dc_bank c' = dc_bank c2 \<and> dc_issueTime c' = now \<and> dc_issueTime c' < dc_finiTime c2"
    if "bn_cmdQ (update now b) = c # cs" "dc_op c = PRE" "bus \<le> now + ucast (dc_cycles c)" for c cs bus
    using that u assms(7) by (simp add: bank_popCmd_def canIssue_def Let_def bank_wf_def cmd_at_def cmd_isDone_def)
  moreover have "c2 \<in> set (ch_issuedCmds ch1)" using retire_issued [of now "ch_issuedCmds ch"] assms(3,7) by (simp add: ch1_def)
  ultimately show ?thesis using none by blast
qed

lemma simple_dram_ok:
  assumes "isPowerOfTwo C" "isPowerOfTwo R" "isPowerOfTwo K" "small C" "small R" "small K" "tq_list (bp_transactionQ p) = []"
  shows "\<exists>d. TimingDRAM_new p C R K mx (SimpleMapper AddrMapper_new) = Inr d \<and> td_ok (unat R) (unat K) d \<and> td_inflight d = {#}"
proof -
  let ?a = "\<lparr>am_channels = C, am_ranks = R, am_banks = K\<rparr>"
  have "settled (SimpleMapper ?a)" using assms by (simp add: settled_def)
  moreover have "mapper_fits (SimpleMapper ?a) (unat C) (unat R) (unat K)" using simple_fits [of ?a] assms by simp
  ultimately show ?thesis
    using TimingDRAM_new_ok [of C "SimpleMapper AddrMapper_new" "SimpleMapper (AddrMapper_new\<lparr>am_channels := C\<rparr>)" R
        "SimpleMapper (AddrMapper_new\<lparr>am_channels := C, am_ranks := R\<rparr>)" K "SimpleMapper ?a" p mx] assms
    by (auto simp: AddrMapper_new_def small_def)
qed

lemma round_robin_dram_ok:
  assumes "RoundRobinAddrMapper_new il row = Inr m" and "il \<le> row" and "0 < C" "0 < R" "0 < K" "tq_list (bp_transactionQ p) = []"
    and big: "unat (row div il) * 8 * unat C * unat R * unat K * unat R < 2 ^ 32" "unat (row div il) * 8 * unat C * unat R * unat K * unat K < 2 ^ 32"
  shows "\<exists>d. TimingDRAM_new p C R K mx m = Inr d \<and> td_ok (unat R) (unat K) d \<and> td_inflight d = {#}"
proof -
  let ?k = "unat (row div il)" and ?b = "log2Of (unat (ucast il :: u32))" and ?a = "\<lparr>am_channels = C, am_ranks = R, am_banks = K\<rparr>"
  have pos: "0 < unat R" "0 < unat K" using assms(4,5) by (simp_all add: unat_gt_0)
  have "?k * 8 * unat C * unat R * unat K < 2 ^ 32" using big(1) pos by (cases "unat R") auto
  then obtain rankD rowD where c: "configure C R K m = Inr (RoundRobin ?a ?b rankD rowD)" "rr_ok ?k (RoundRobin ?a ?b rankD rowD)"
    using configured_rr [OF assms(1,2)] assms(3-5) by blast
  have rowD: "unat rowD = unat C * unat R * unat K * ?k" using c(2) by (simp add: rr_ok_def)
  have "unat rowD * unat R * 8 < 4294967296" "unat rowD * unat K * 8 < 4294967296" using big by (simp_all add: rowD mult_ac)
  then have "settled (RoundRobin ?a ?b rankD rowD)" by (intro settled_rr [OF c(2)]) (simp_all add: mult.commute)
  moreover have "mapper_fits (RoundRobin ?a ?b rankD rowD) (unat C) (unat R) (unat K)" using rr_fits [OF refl c(2)] by simp
  moreover obtain m1 m2 where "setNumChannels C m = Inr m1" "setNumRanks R m1 = Inr m2" "setNumBanks K m2 = Inr (RoundRobin ?a ?b rankD rowD)"
    using c(1) by (auto simp: configure_def bindE_eq_Inr_iff)
  ultimately show ?thesis using TimingDRAM_new_ok [of C m m1 R m2 K "RoundRobin ?a ?b rankD rowD" p mx] assms(3,4,6) by auto
qed

text \<open>
  A timing DRAM starts well formed and empty: with the simple mapper for all power-of-two
  numbers of channels, ranks and banks, and with the round-robin mapper for any numbers whose
  products fit 32 bits, the constructor succeeds, every address maps to a bank that exists, and
  nothing is in flight.
\<close>
theorem timing_dram_starts:
  assumes "tq_list (bp_transactionQ p) = []" and "small C" and "small R" and "small K"
  shows "(isPowerOfTwo C \<and> isPowerOfTwo R \<and> isPowerOfTwo K \<longrightarrow>
      (\<exists>d. TimingDRAM_new p C R K mx (SimpleMapper AddrMapper_new) = Inr d \<and> td_ok (unat R) (unat K) d \<and> td_inflight d = {#})) \<and>
    (RoundRobinAddrMapper_new il row = Inr m \<and> il \<le> row \<and> unat (row div il) * 8 * unat C * unat R * unat K * unat R < 2 ^ 32 \<and>
      unat (row div il) * 8 * unat C * unat R * unat K * unat K < 2 ^ 32 \<longrightarrow>
      (\<exists>d. TimingDRAM_new p C R K mx m = Inr d \<and> td_ok (unat R) (unat K) d \<and> td_inflight d = {#}))"
  using simple_dram_ok [of C R K p mx] round_robin_dram_ok [of il row m C R K p mx] assms by (auto simp: small_def)

section \<open>Concrete instances\<close>

definition demo_bank :: BankParams where
  "demo_bank = \<lparr>bp_CL = 2, bp_CL_WR = 2, bp_RCD = 2, bp_TRP = 1, bp_dataCycles = 1,
     bp_transactionQ = \<lparr>tq_window = None, tq_list = []\<rparr>, bp_pagePolicy = SimplePage True\<rparr>"

definition demo_map :: Mapper where
  "demo_map = SimpleMapper \<lparr>am_channels = 1, am_ranks = 1, am_banks = 2\<rparr>"

fun clocks :: "nat \<Rightarrow> Channel \<Rightarrow> Channel res" where
  "clocks 0 ch = Inr ch"
| "clocks (Suc n) ch = bindE (clocks n ch) (\<lambda>ch. bindE (channel_clock (of_nat n) ch) (\<lambda>(ch, ids). Inr ch))"

definition demo_two :: "Channel res" where
  "demo_two = bindE (channel_issue demo_map 0 1 0 False 64 (new_channel demo_bank 1 2 32)) (\<lambda>(ch, ok).
     bindE (channel_issue demo_map 0 2 64 False 64 ch) (\<lambda>(ch, ok). Inr ch))"

lemma clocks_ok: "channel_ok R K ch \<Longrightarrow> \<exists>ch'. clocks n ch = Inr ch' \<and> channel_ok R K ch'"
proof (induction n)
  case (Suc n)
  then obtain ch1 where "clocks n ch = Inr ch1" "channel_ok R K ch1" by blast
  then show ?case using channel_clock_law [of R K ch1 "of_nat n"] by auto
qed simp

definition demo_late :: Channel where
  "demo_late = (case bindE demo_two (clocks 5) of Inr ch \<Rightarrow> ch | Inl _ \<Rightarrow> new_channel demo_bank 1 2 32)"

lemma demo_late_wf: "channel_wf 1 2 demo_late"
proof -
  have m: "mapper_fits demo_map 1 1 2" using simple_fits [of "\<lparr>am_channels = 1, am_ranks = 1, am_banks = 2\<rparr>"] by (simp add: demo_map_def small_def)
  have new: "channel_ok 1 2 (new_channel demo_bank 1 2 32)" using new_channel_ok [of demo_bank 1 2 32] by (simp add: demo_bank_def)
  obtain ch1 ok1 where 1: "channel_issue demo_map 0 1 0 False 64 (new_channel demo_bank 1 2 32) = Inr (ch1, ok1)" "channel_ok 1 2 ch1"
    using channel_issue_law [OF new m, of 0 1 0 False 64] by auto
  obtain ch2 ok2 where 2: "channel_issue demo_map 0 2 64 False 64 ch1 = Inr (ch2, ok2)" "channel_ok 1 2 ch2"
    using channel_issue_law [OF 1(2) m, of 0 2 64 False 64] by auto
  obtain ch where "clocks 5 ch2 = Inr ch" "channel_ok 1 2 ch" using clocks_ok [OF 2(2)] by blast
  then show ?thesis using 1 2 by (simp add: demo_late_def demo_two_def channel_ok_def del: clocks.simps)
qed

theorem precharge_overlaps_column_witness:
  "\<exists>c1 c2 c'. ch_issuedCmds demo_late = [c1, c2] \<and> dc_op c2 = COL \<and>
     snd (bank_popCmd 5 0 (rk_banks (ch_ranks (retire 5 [c1, c2] (demo_late\<lparr>ch_issuedCmds := []\<rparr>)) ! 0) ! 0)) = Some c' \<and>
     dc_op c' = PRE \<and> dc_issueTime c' < dc_finiTime c2"
proof -
  have "case ch_issuedCmds demo_late of [c1, c2] \<Rightarrow> dc_op c2 = COL \<and> dc_rank c1 = 0 \<and> dc_bank c1 = 0 \<and> dc_rank c2 = 0 \<and> dc_bank c2 = 0 \<and>
        cmd_isDone 5 c1 \<and> \<not> cmd_isDone 5 c2 \<and>
        (case bn_cmdQ (update 5 (rk_banks (ch_ranks (retire 5 [c1, c2] (demo_late\<lparr>ch_issuedCmds := []\<rparr>)) ! 0) ! 0)) of
           c # cs \<Rightarrow> dc_op c = PRE | [] \<Rightarrow> False) | _ \<Rightarrow> False"
    by code_simp
  then obtain c1 c2 c cs where d: "ch_issuedCmds demo_late = [c1, c2]" "dc_op c2 = COL" "dc_rank c1 = 0" "dc_bank c1 = 0" "dc_rank c2 = 0"
      "dc_bank c2 = 0" "cmd_isDone 5 c1" "\<not> cmd_isDone 5 c2" "dc_op c = PRE"
      "bn_cmdQ (update 5 (rk_banks (ch_ranks (retire 5 [c1, c2] (demo_late\<lparr>ch_issuedCmds := []\<rparr>)) ! 0) ! 0)) = c # cs"
    by (auto split: list.splits)
  define b where "b = rk_banks (ch_ranks (retire 5 [c1, c2] (demo_late\<lparr>ch_issuedCmds := []\<rparr>)) ! 0) ! 0"
  have "\<forall>bus\<le>5 + ucast (dc_cycles c). \<exists>c'. bank_popCmd 5 bus b = ((update 5 b)\<lparr>bn_cmdQ := cs\<rparr>, Some c') \<and> dc_op c' = PRE \<and>
      dc_issueTime c' < dc_finiTime c2"
    using precharge_overlaps_column [OF demo_late_wf, of c1 c2 5] unfolding d(1,3-6) b_def [symmetric]
    using d(7,8) d(9,10) [folded b_def] by simp blast
  then obtain c' where "bank_popCmd 5 0 b = ((update 5 b)\<lparr>bn_cmdQ := cs\<rparr>, Some c')" "dc_op c' = PRE" "dc_issueTime c' < dc_finiTime c2"
    using word_zero_le by blast
  then have "\<exists>c'. snd (bank_popCmd 5 0 b) = Some c' \<and> dc_op c' = PRE \<and> dc_issueTime c' < dc_finiTime c2" by simp
  then show ?thesis using d(1,2) by (auto simp: b_def simp del: retire.simps)
qed

definition demo_trans :: Transaction where
  "demo_trans = \<lparr>tr_createTime = 0, tr_id = 1, tr_addr = 0, tr_isWrite = False, tr_numBytes = 64, tr_bank = 0, tr_row = 5\<rparr>"

definition demo_popped :: "Bank \<times> DCmd option" where
  "demo_popped = bank_popCmd 0 0 ((Bank_new demo_bank 0 0)\<lparr>bn_transQ := tq_push demo_trans (bn_transQ (Bank_new demo_bank 0 0))\<rparr>)"

theorem bank_commands_legal_witness: "\<exists>row. device (-1) [the (snd demo_popped)] = Some row"
proof (rule bank_commands_legal)
  have "snd demo_popped \<noteq> None" by code_simp
  then have "demo_popped = (fst demo_popped, Some (the (snd demo_popped)))" by (simp add: prod_eq_iff)
  then show "bank_run (Bank_new demo_bank 0 0) [demo_trans] [the (snd demo_popped)] (fst demo_popped)"
    using issue_cmd [OF arrive [OF start, of "Bank_new demo_bank 0 0" demo_trans], of 0 0] by (simp add: demo_popped_def)
qed (simp_all add: demo_bank_def demo_trans_def)

definition demo_chan :: Channel where
  "demo_chan = (case demo_two of Inr ch \<Rightarrow> ch | Inl _ \<Rightarrow> new_channel demo_bank 1 2 32)"

theorem data_bus_exclusive_witness:
  "\<exists>ch' ids c. channel_clock 0 demo_chan = Inr (ch', ids) \<and> ch_issuedCmds ch' = [c] \<and> dc_issueTime c = 0 \<and>
     ch_dataBusAvailCycle ch' = ucast (dc_finiTime c)"
proof -
  have "case channel_clock 0 demo_chan of Inl _ \<Rightarrow> False | Inr (ch, ids) \<Rightarrow> ch_issuedCmds ch \<noteq> []" by code_simp
  then obtain ch' ids where c: "channel_clock 0 demo_chan = Inr (ch', ids)" "ch_issuedCmds ch' \<noteq> []" by (auto split: sum.splits)
  moreover have "ch_issuedCmds demo_chan = []" by code_simp
  ultimately show ?thesis using data_bus_exclusive [OF c(1)] by auto
qed

lemma demo_start: "\<exists>d. TimingDRAM_new demo_bank 1 1 2 32 (SimpleMapper AddrMapper_new) = Inr d \<and> td_ok 1 2 d \<and> td_inflight d = {#}"
  using simple_dram_ok [of 1 1 2 demo_bank 32] by (simp add: isPowerOfTwo_def small_def demo_bank_def)

theorem timing_dram_starts_witness:
  "\<exists>d. TimingDRAM_new demo_bank 2 1 8 32 (SimpleMapper AddrMapper_new) = Inr d \<and> td_ok 1 8 d \<and> td_inflight d = {#}"
  using timing_dram_starts [of demo_bank 2 1 8 32] by (simp add: isPowerOfTwo_def small_def demo_bank_def)

theorem timing_dram_never_faults_witness:
  "\<exists>d cv' d' rs off. TimingDRAM_new demo_bank 1 1 2 32 (SimpleMapper AddrMapper_new) = Inr d \<and>
     conv_clock (TimingDRAM (-1) 64 1024) 1 demo_conv d = Some (Inr (cv', d', rs, off)) \<and> td_ok 1 2 d' \<and> conv_ok cv' (td_inflight d')"
proof -
  obtain d where d: "TimingDRAM_new demo_bank 1 1 2 32 (SimpleMapper AddrMapper_new) = Inr d" "td_ok 1 2 d" "td_inflight d = {#}"
    using demo_start by blast
  have "conv_ok demo_conv (td_inflight d)" using d(3) demo_conv_ok by simp
  from timing_dram_never_faults [OF _ _ this demo_conv_view(3), of 1 2 "-1" 64 1024 1] d(1,2) show ?thesis
    by (auto simp: td_ok_def)
qed

theorem channel_queue_bound_witness:
  "\<exists>ch' acc. channel_issue demo_map 0 7 64 False 64 (new_channel demo_bank 1 2 1) = Inr (ch', acc) \<and> acc \<and> size (channel_inflight ch') \<le> 1"
proof -
  have m: "mapper_fits demo_map 1 1 2" using simple_fits [of "\<lparr>am_channels = 1, am_ranks = 1, am_banks = 2\<rparr>"] by (simp add: demo_map_def small_def)
  have ch: "channel_ok 1 2 (new_channel demo_bank 1 2 1)" "channel_inflight (new_channel demo_bank 1 2 1) = {#}"
    using new_channel_ok [of demo_bank 1 2 1] by (simp_all add: demo_bank_def)
  have "ch_maxPendingTrans (new_channel demo_bank 1 2 1) = 1" by (simp add: new_channel_def)
  then show ?thesis using channel_queue_bound [OF ch(1) m, of 0 7 64 False 64] ch(2) by auto
qed
end
