(* ===== verification/Merlin_Router.thy ===== *)
theory Merlin_Router
  imports MemH_Prelude "HOL-Library.Signed_Division"
begin

text \<open>
  What the parts of a merlin router share (\<^verbatim>\<open>merlin/router.h\<close>): packets inside the network, port
  states, and checked access to the arrays that are indexed by a virtual channel or a port. C++
  \<open>int\<close> is \<open>int\<close>.
\<close>

text \<open>
  \<open>internal_router_event\<close> with what routing and flow control read of the event it wraps:
  destination, source, virtual network, size in flits and bits. Topologies extend it.
\<close>

record RtrPacket =
  ge_dest :: int
  ge_vn :: int
  ge_vc :: int
  ge_next_port :: int
  ge_src :: int
  ge_flits :: int
  ge_bits :: int
  ge_credit_vc :: int

datatype PortState = R2R | R2N | UNCONNECTED | FAILED

definition UNTIMED_BROADCAST_ADDR :: int where
  "UNTIMED_BROADCAST_ADDR = -1"

section \<open>Arrays\<close>

definition at :: "'a list \<Rightarrow> int \<Rightarrow> 'a res" where
  "at xs i = (if 0 \<le> i \<and> i < int (length xs) then Inr (xs ! nat i) else Inl OutOfRange)"

definition put :: "'a list \<Rightarrow> int \<Rightarrow> 'a \<Rightarrow> 'a list res" where
  "put xs i v = (if 0 \<le> i \<and> i < int (length xs) then Inr (xs[nat i := v]) else Inl OutOfRange)"

lemma at_nat [simp]: "i < length xs \<Longrightarrow> at xs (int i) = Inr (xs ! i)"
  by (simp add: at_def)

lemma put_nat [simp]: "i < length xs \<Longrightarrow> put xs (int i) v = Inr (xs[i := v])"
  by (simp add: put_def)

lemma at_Inr: "at xs i = Inr x \<longleftrightarrow> 0 \<le> i \<and> i < int (length xs) \<and> x = xs ! nat i"
  by (auto simp: at_def)

lemma put_Inr: "put xs i v = Inr ys \<longleftrightarrow> 0 \<le> i \<and> i < int (length xs) \<and> ys = xs[nat i := v]"
  by (auto simp: put_def)

text \<open>Division of C++ on numbers that are not negative.\<close>

lemma sdiv_nonneg: "0 \<le> (a :: int) \<Longrightarrow> 0 < b \<Longrightarrow> a sdiv b = a div b"
  by (cases "a = 0") (simp_all add: signed_divide_int_def)

lemma smod_nonneg: "0 \<le> (a :: int) \<Longrightarrow> 0 < b \<Longrightarrow> a smod b = a mod b"
  by (cases "a = 0") (simp_all add: signed_modulo_int_def)

end
