(* ===== verification/Merlin_Grid.thy ===== *)
theory Merlin_Grid
  imports Merlin_Router "HOL-Library.Signed_Division"
begin

unbundle bit_operations_syntax

text \<open>
  The grid topologies of \<^verbatim>\<open>merlin/topology\<close>: \<open>topo_mesh\<close> and \<open>topo_torus\<close>. The two classes share
  their fields, constructor, addressing and port layout, which are modelled once, and differ in
  the direction a packet takes, in broadcasts, port states and virtual channels. A router sees
  only its own place; \<open>wire_port\<close> is the wiring of \<^verbatim>\<open>pymerlin-topo-mesh.py\<close>. C++ \<open>int\<close> is \<open>int\<close>.
\<close>

section \<open>Parsing of a shape\<close>

text \<open>\<open>strtol\<close> with base 0: white space, a sign, a prefix that selects the base, digits.\<close>

definition is_space :: "char \<Rightarrow> bool" where
  "is_space c \<longleftrightarrow> (let v = (of_char c :: int) in v = 32 \<or> 9 \<le> v \<and> v \<le> 13)"

definition digit_value :: "char \<Rightarrow> int" where
  "digit_value c = (let v = (of_char c :: int) in
     if 48 \<le> v \<and> v \<le> 57 then v - 48 else if 97 \<le> v \<and> v \<le> 122 then v - 87
     else if 65 \<le> v \<and> v \<le> 90 then v - 55 else 36)"

fun digits_value :: "int \<Rightarrow> int \<Rightarrow> string \<Rightarrow> int" where
  "digits_value b acc [] = acc"
| "digits_value b acc (c # cs) = (if digit_value c < b then digits_value b (acc * b + digit_value c) cs else acc)"

fun unsigned_value :: "string \<Rightarrow> int" where
  "unsigned_value (z # x # d # cs) =
     (if z = CHR ''0'' \<and> (x = CHR ''x'' \<or> x = CHR ''X'') \<and> digit_value d < 16 then digits_value 16 0 (d # cs)
      else if z = CHR ''0'' then digits_value 8 0 (z # x # d # cs) else digits_value 10 0 (z # x # d # cs))"
| "unsigned_value cs = (if cs \<noteq> [] \<and> hd cs = CHR ''0'' then digits_value 8 0 cs else digits_value 10 0 cs)"

definition strtol0 :: "string \<Rightarrow> int" where
  "strtol0 s = (let s = dropWhile is_space s;
      v = (case s of c # cs \<Rightarrow> if c = CHR ''-'' then - unsigned_value cs else if c = CHR ''+'' then unsigned_value cs else unsigned_value s
           | [] \<Rightarrow> 0)
    in max (- (2 ^ 63)) (min (2 ^ 63 - 1) v))"

text \<open>
  The numbers of a string separated by \<open>x\<close>, as \<open>int\<close>. After the last separator \<open>find\<close> returns
  \<open>npos\<close>, and \<open>npos + 1\<close> is 0: a string with too few numbers is read again from its start.
\<close>

fun parseDimString :: "nat \<Rightarrow> nat \<Rightarrow> string \<Rightarrow> int list" where
  "parseDimString 0 start s = []"
| "parseDimString (Suc n) start s =
     (let rest = drop start s; sub = takeWhile (\<lambda>c. c \<noteq> CHR ''x'') rest in
      signed_take_bit 31 (strtol0 sub) #
      parseDimString n (if CHR ''x'' \<in> set rest then start + length sub + 1 else 0) s)"

section \<open>Routers\<close>

record Grid =
  router_id :: int
  id_loc :: "int list"
  dim_size :: "int list"
  dim_width :: "int list"
  port_start :: "(int \<times> int) list"
  num_local_ports :: int
  local_port_start :: int
  num_vns :: int

abbreviation dimensions :: "Grid \<Rightarrow> nat" where
  "dimensions t \<equiv> length (dim_size t)"

text \<open>\<open>topo_torus_event\<close> and \<open>topo_mesh_init_event\<close>: what routing adds to a packet.\<close>

record GridEvent = RtrPacket +
  routing_dim :: nat
  dest_loc :: "int list"
  ge_phase :: int

text \<open>The loop over the dimensions, from dimension \<open>i\<close> down.\<close>

fun location_loop :: "int list \<Rightarrow> nat \<Rightarrow> int \<Rightarrow> int list res" where
  "location_loop sizes 0 run_id = Inr [run_id]"
| "location_loop sizes (Suc i) run_id =
     (let d = prod_list (take (Suc i) sizes) in
      if d = 0 then Inl DivByZero
      else let value = run_id sdiv d in
        bindE (location_loop sizes i (run_id - value * d)) (\<lambda>ls. Inr (ls @ [value])))"

definition idToLocation :: "Grid \<Rightarrow> int \<Rightarrow> int list res" where
  "idToLocation t run_id = location_loop (dim_size t) (dimensions t - 1) run_id"

fun port_starts :: "int \<Rightarrow> int list \<Rightarrow> (int \<times> int) list" where
  "port_starts next_port [] = []"
| "port_starts next_port (w # ws) = (next_port, next_port + w) # port_starts (next_port + w + w) ws"

definition topo_grid_new :: "string \<Rightarrow> string \<Rightarrow> int \<Rightarrow> int \<Rightarrow> int \<Rightarrow> int \<Rightarrow> Grid res" where
  "topo_grid_new shape width local_ports num_ports rtr_id vns =
     (let dims = count_list shape (CHR ''x'') + 1;
          sizes = parseDimString dims 0 shape;
          widths = (if width = [] then replicate dims 1 else parseDimString dims 0 width);
          needed_ports = sum_list (map (\<lambda>w. 2 * w) widths);
          t = \<lparr>router_id = rtr_id, id_loc = [], dim_size = sizes, dim_width = widths, port_start = port_starts 0 widths,
               num_local_ports = local_ports, local_port_start = needed_ports, num_vns = vns\<rparr>
      in if num_ports < needed_ports + local_ports then Inl (Fatal ''topo_torus'')
         else bindE (idToLocation t rtr_id) (\<lambda>loc. Inr (t\<lparr>id_loc := loc\<rparr>)))"

definition get_dest_router :: "Grid \<Rightarrow> int \<Rightarrow> int res" where
  "get_dest_router t dest_id = (if num_local_ports t = 0 then Inl DivByZero else Inr (dest_id sdiv num_local_ports t))"

definition get_dest_local_port :: "Grid \<Rightarrow> int \<Rightarrow> int res" where
  "get_dest_local_port t dest_id =
     (if num_local_ports t = 0 then Inl DivByZero else Inr (local_port_start t + (dest_id smod num_local_ports t)))"

definition choose_multipath :: "int \<Rightarrow> int \<Rightarrow> int \<Rightarrow> int" where
  "choose_multipath start_port num_ports dest_dist =
     (if num_ports = 1 then start_port else start_port + (dest_dist smod num_ports))"

section \<open>Routing\<close>

text \<open>The direction and the distance that remains in a dimension of \<open>sz\<close> routers, from \<open>x\<close> to \<open>y\<close>.\<close>

definition mesh_direction :: "int \<Rightarrow> int \<Rightarrow> int \<Rightarrow> bool \<times> int" where
  "mesh_direction sz x y = (x < y, \<bar>x - y\<bar>)"

definition torus_direction :: "int \<Rightarrow> int \<Rightarrow> int \<Rightarrow> bool \<times> int" where
  "torus_direction sz x y =
     (let dist_neg = x - y; dist_neg = (if dist_neg < 0 then dist_neg + sz else dist_neg);
          dist_pos = y - x; dist_pos = (if dist_pos < 0 then dist_pos + sz else dist_pos);
          go_pos = (dist_pos \<le> dist_neg)
      in (go_pos, if go_pos then dist_pos else dist_neg))"

type_synonym direction = "int \<Rightarrow> int \<Rightarrow> int \<Rightarrow> bool \<times> int"

text \<open>The loop over the dimensions, from \<open>routing_dim\<close>; both classes have it, with their direction.\<close>

function route_loop :: "direction \<Rightarrow> Grid \<Rightarrow> int \<Rightarrow> int \<Rightarrow> nat \<Rightarrow> GridEvent \<Rightarrow> GridEvent" where
  "route_loop direct t port vc dim ev =
     (if dimensions t \<le> dim then ev
      else if dest_loc ev ! dim \<noteq> id_loc t ! dim then
        (let (go_pos, dist) = direct (dim_size t ! dim) (id_loc t ! dim) (dest_loc ev ! dim);
             p = choose_multipath ((if go_pos then fst else snd) (port_start t ! dim)) (dim_width t ! dim) dist;
             ev = ev\<lparr>ge_next_port := p\<rparr>
         in if id_loc t ! dim = 0 \<and> port < local_port_start t then ev\<lparr>ge_vc := vc XOR 1\<rparr> else ev)
      else route_loop direct t port vc (Suc dim) (ev\<lparr>routing_dim := Suc (routing_dim ev), ge_vc := vc AND NOT 1\<rparr>))"
  by pat_completeness auto
termination by (relation "measure (\<lambda>(_, t, _, _, dim, _). dimensions t - dim)") auto

declare route_loop.simps [simp del]

definition grid_route :: "direction \<Rightarrow> Grid \<Rightarrow> int \<Rightarrow> int \<Rightarrow> GridEvent \<Rightarrow> GridEvent res" where
  "grid_route direct t port vc ev =
     bindE (get_dest_router t (ge_dest ev)) (\<lambda>dest_router.
       if dest_router = router_id t
       then bindE (get_dest_local_port t (ge_dest ev)) (\<lambda>p. Inr (ev\<lparr>ge_next_port := p\<rparr>))
       else Inr (route_loop direct t port vc (routing_dim ev) ev))"

definition mesh_route_packet :: "Grid \<Rightarrow> int \<Rightarrow> int \<Rightarrow> GridEvent \<Rightarrow> GridEvent res" where
  "mesh_route_packet = grid_route mesh_direction"

definition torus_route_packet :: "Grid \<Rightarrow> int \<Rightarrow> int \<Rightarrow> GridEvent \<Rightarrow> GridEvent res" where
  "torus_route_packet = grid_route torus_direction"

text \<open>A packet from an endpoint; fields the constructor leaves unset hold \<open>garbage\<close>.\<close>

definition new_grid_event :: "GridEvent \<Rightarrow> int \<Rightarrow> int \<Rightarrow> GridEvent" where
  "new_grid_event garbage dest vn = garbage\<lparr>ge_dest := dest, ge_vn := vn, routing_dim := 0\<rparr>"

definition process_input :: "Grid \<Rightarrow> GridEvent \<Rightarrow> int \<Rightarrow> int \<Rightarrow> GridEvent res" where
  "process_input t garbage dest vn =
     (let ev = (new_grid_event garbage dest vn)\<lparr>ge_vc := vn * 2\<rparr> in
      bindE (get_dest_router t (ge_dest ev)) (\<lambda>run_id.
      bindE (idToLocation t run_id) (\<lambda>loc. Inr (ev\<lparr>dest_loc := loc\<rparr>))))"

definition mesh_getVCsPerVN :: "Grid \<Rightarrow> int list" where
  "mesh_getVCsPerVN t = replicate (nat (num_vns t)) 1"

definition torus_getVCsPerVN :: "Grid \<Rightarrow> int list" where
  "torus_getVCsPerVN t = replicate (nat (num_vns t)) 2"

section \<open>Ports\<close>

text \<open>The loop over the dimensions in \<open>topo_mesh::getPortState\<close>.\<close>

fun mesh_port_loop :: "int \<Rightarrow> int list \<Rightarrow> int list \<Rightarrow> int list \<Rightarrow> (int \<times> int) list \<Rightarrow> PortState" where
  "mesh_port_loop port (x # xs) (s # ss) (w # ws) ((p, n) # ps) =
     (if p \<le> port \<and> port < p + w then (if x = s - 1 then UNCONNECTED else R2R)
      else if n \<le> port \<and> port < n + w then (if x = 0 then UNCONNECTED else R2R)
      else mesh_port_loop port xs ss ws ps)"
| "mesh_port_loop port _ _ _ _ = R2R"

definition mesh_getPortState :: "Grid \<Rightarrow> int \<Rightarrow> PortState" where
  "mesh_getPortState t port =
     (if local_port_start t \<le> port then (if port < local_port_start t + num_local_ports t then R2N else UNCONNECTED)
      else mesh_port_loop port (id_loc t) (dim_size t) (dim_width t) (port_start t))"

definition torus_getPortState :: "Grid \<Rightarrow> int \<Rightarrow> PortState" where
  "torus_getPortState t port =
     (if local_port_start t \<le> port then (if port < local_port_start t + num_local_ports t then R2N else UNCONNECTED) else R2R)"

definition getEndpointID :: "(Grid \<Rightarrow> int \<Rightarrow> PortState) \<Rightarrow> Grid \<Rightarrow> int \<Rightarrow> int" where
  "getEndpointID getPortState t port =
     (if getPortState t port \<noteq> R2N then -1 else router_id t * num_local_ports t + (port - local_port_start t))"

section \<open>Data before and after the run\<close>

text \<open>The dimension a broadcast came in on, \<open>dimensions\<close> when it came from an endpoint.\<close>

definition inc_dim :: "Grid \<Rightarrow> int \<Rightarrow> nat" where
  "inc_dim t port = length (takeWhile (\<lambda>ps. port \<noteq> snd ps) (port_start t))"

definition host_ports :: "Grid \<Rightarrow> int \<Rightarrow> int list" where
  "host_ports t port = filter (\<lambda>p. p \<noteq> port) (map (\<lambda>p. local_port_start t + int p) [0..<nat (num_local_ports t)])"

definition torus_routeUntimedData :: "Grid \<Rightarrow> int \<Rightarrow> GridEvent \<Rightarrow> (GridEvent \<times> int list) res" where
  "torus_routeUntimedData t port ev =
     (if ge_dest ev = UNTIMED_BROADCAST_ADDR
      then let i = inc_dim t port; i = (if dimensions t \<le> i then 0 else i) in
        if \<exists>dim \<in> set [i..<dimensions t]. dim_size t ! dim = 0 then Inl DivByZero
        else Inr (ev, map (\<lambda>dim. fst (port_start t ! dim))
               (filter (\<lambda>dim. (id_loc t ! dim + 1) smod dim_size t ! dim \<noteq> dest_loc ev ! dim) [i..<dimensions t]) @ host_ports t port)
      else bindE (torus_route_packet t port 0 ev) (\<lambda>ev. Inr (ev, [ge_next_port ev])))"

definition torus_process_UntimedData_input :: "Grid \<Rightarrow> GridEvent \<Rightarrow> int \<Rightarrow> int \<Rightarrow> GridEvent res" where
  "torus_process_UntimedData_input t garbage dest vn =
     (let ev = new_grid_event garbage dest vn in
      if ge_dest ev = UNTIMED_BROADCAST_ADDR then Inr (ev\<lparr>dest_loc := id_loc t\<rparr>)
      else bindE (get_dest_router t (ge_dest ev)) (\<lambda>rtr_id.
           bindE (idToLocation t rtr_id) (\<lambda>loc. Inr (ev\<lparr>dest_loc := loc\<rparr>))))"

definition mesh_broadcast :: "Grid \<Rightarrow> int \<Rightarrow> GridEvent \<Rightarrow> GridEvent \<times> int list" where
  "mesh_broadcast t port ev =
     (let i = (if ge_phase ev = 2 then inc_dim t port else 0) in
      (ev\<lparr>ge_phase := 2\<rparr>,
       map (\<lambda>dim. fst (port_start t ! dim)) (filter (\<lambda>dim. id_loc t ! dim + 1 < dim_size t ! dim) [i..<dimensions t]) @ host_ports t port))"

definition mesh_routeUntimedData :: "Grid \<Rightarrow> int \<Rightarrow> GridEvent \<Rightarrow> (GridEvent \<times> int list) res" where
  "mesh_routeUntimedData t port ev =
     (if ge_phase ev = 0
      then (if 0 = router_id t \<and> ge_dest ev = UNTIMED_BROADCAST_ADDR then Inr (mesh_broadcast t port (ev\<lparr>ge_phase := 1\<rparr>))
            else bindE (mesh_route_packet t port 0 ev) (\<lambda>ev. Inr (ev, [ge_next_port ev])))
      else Inr (mesh_broadcast t port ev))"

definition mesh_process_UntimedData_input :: "Grid \<Rightarrow> GridEvent \<Rightarrow> int \<Rightarrow> int \<Rightarrow> GridEvent res" where
  "mesh_process_UntimedData_input t garbage dest vn =
     (let ev = (new_grid_event garbage dest vn)\<lparr>ge_phase := 0\<rparr> in
      if ge_dest ev = UNTIMED_BROADCAST_ADDR then bindE (idToLocation t 0) (\<lambda>loc. Inr (ev\<lparr>dest_loc := loc\<rparr>))
      else bindE (get_dest_router t (ge_dest ev)) (\<lambda>rtr_id.
           bindE (idToLocation t rtr_id) (\<lambda>loc. Inr (ev\<lparr>dest_loc := loc\<rparr>))))"

section \<open>The network\<close>

text \<open>
  The links of a router, in the order the configuration script adds them: dimension by dimension
  the positive ports, then the negative ones. Link \<open>num\<close> of the positive side of a router is link
  \<open>num\<close> of the negative side of the next one. \<open>port_dim\<close> finds dimension, direction and number
  of a port, \<open>wire_port\<close> where the link leads and the port it arrives on.
\<close>

fun port_dim :: "int \<Rightarrow> nat \<Rightarrow> int list \<Rightarrow> int \<Rightarrow> (nat \<times> bool \<times> int) option" where
  "port_dim start d [] p = None"
| "port_dim start d (w # ws) p =
     (if start \<le> p \<and> p < start + w then Some (d, True, p - start)
      else if start + w \<le> p \<and> p < start + w + w then Some (d, False, p - (start + w))
      else port_dim (start + w + w) (Suc d) ws p)"

definition move :: "int \<Rightarrow> bool \<Rightarrow> int \<Rightarrow> int" where
  "move sz pos x = (if pos then (x + 1) mod sz else ((x - 1) + sz) mod sz)"

fun locToId :: "int list \<Rightarrow> int list \<Rightarrow> int" where
  "locToId (s # ss) (x # xs) = x + s * locToId ss xs"
| "locToId _ _ = 0"

text \<open>The router of the network of \<open>t\<close> at location \<open>loc\<close>.\<close>

definition router_at :: "Grid \<Rightarrow> int list \<Rightarrow> Grid" where
  "router_at t loc = t\<lparr>router_id := locToId (dim_size t) loc, id_loc := loc\<rparr>"

definition wire_port :: "bool \<Rightarrow> Grid \<Rightarrow> int \<Rightarrow> (Grid \<times> int) option" where
  "wire_port wrap t p = (case port_dim 0 0 (dim_width t) p of None \<Rightarrow> None | Some (d, pos, num) \<Rightarrow>
     (if wrap \<or> (if pos then id_loc t ! d + 1 < dim_size t ! d else 0 < id_loc t ! d)
      then Some (router_at t ((id_loc t)[d := move (dim_size t ! d) pos (id_loc t ! d)]),
                 (if pos then snd else fst) (port_start t ! d) + num)
      else None))"

text \<open>
  The way of a packet: each router routes it, and unless it goes to an endpoint it is sent on.
  The result lists the channels taken: router, port and virtual channel.
\<close>

type_synonym channel = "int \<times> int \<times> int"

partial_function (option) travel ::
  "(Grid \<Rightarrow> int \<Rightarrow> int \<Rightarrow> GridEvent \<Rightarrow> GridEvent res) \<Rightarrow> bool \<Rightarrow> Grid \<Rightarrow> int \<Rightarrow> GridEvent \<Rightarrow> (channel list \<times> int \<times> GridEvent) res option" where
  "travel route wrap t port ev =
     (case route t port (ge_vc ev) ev of Inl e \<Rightarrow> Some (Inl e) | Inr ev' \<Rightarrow>
        if local_port_start t \<le> ge_next_port ev' then Some (Inr ([], router_id t, ev'))
        else (case wire_port wrap t (ge_next_port ev') of None \<Rightarrow> Some (Inl NullDeref) | Some (t', port') \<Rightarrow>
          Option.bind (travel route wrap t' port' ev') (\<lambda>r. case r of Inl e \<Rightarrow> Some (Inl e) | Inr (cs, x) \<Rightarrow>
            Some (Inr ((router_id t, ge_next_port ev', ge_vc ev') # cs, x)))))"

section \<open>Locations\<close>

text \<open>The digits of a number in the mixed radix of the sizes: the reference for \<open>idToLocation\<close>.\<close>

fun digits :: "int list \<Rightarrow> int \<Rightarrow> int list" where
  "digits [] r = []"
| "digits (s # ss) r = r mod s # digits ss (r div s)"

definition in_range :: "int list \<Rightarrow> int list \<Rightarrow> bool" where
  "in_range ss xs \<longleftrightarrow> list_all2 (\<lambda>s x. 0 \<le> x \<and> x < s) ss xs"

lemma in_range_nth: "in_range ss xs \<Longrightarrow> i < length ss \<Longrightarrow> 0 \<le> xs ! i \<and> xs ! i < ss ! i"
  by (simp add: in_range_def list_all2_conv_all_nth)

lemma in_range_length: "in_range ss xs \<Longrightarrow> length xs = length ss"
  by (simp add: in_range_def list_all2_lengthD)

lemma in_range_update: "in_range ss xs \<Longrightarrow> i < length ss \<Longrightarrow> 0 \<le> v \<Longrightarrow> v < ss ! i \<Longrightarrow> in_range ss (xs[i := v])"
  by (auto simp: in_range_def list_all2_conv_all_nth nth_list_update)

lemma locToId_snoc: "length xs = length ss \<Longrightarrow> locToId (ss @ [s]) (xs @ [x]) = locToId ss xs + prod_list ss * x"
  by (induction xs ss rule: list_induct2) (auto simp: algebra_simps)

lemma locToId_bounds: "in_range ss xs \<Longrightarrow> 0 \<le> locToId ss xs \<and> locToId ss xs < prod_list ss"
  unfolding in_range_def
proof (induction rule: list_all2_induct)
  case (Cons s ss x xs)
  have "s * locToId ss xs \<le> s * (prod_list ss - 1)" using Cons by (intro mult_left_mono) auto
  then show ?case using Cons by (auto simp: algebra_simps)
qed simp

lemma digits_locToId: "in_range ss xs \<Longrightarrow> digits ss (locToId ss xs) = xs"
  unfolding in_range_def by (induction rule: list_all2_induct) (auto simp: div_pos_pos_trivial)

lemma digits_in_range: "(\<forall>s \<in> set ss. 0 < s) \<Longrightarrow> in_range ss (digits ss r)"
  by (induction ss arbitrary: r) (auto simp: in_range_def)

lemma locToId_digits: "(\<forall>s \<in> set ss. 0 < s) \<Longrightarrow> 0 \<le> r \<Longrightarrow> r < prod_list ss \<Longrightarrow> locToId ss (digits ss r) = r"
proof (induction ss arbitrary: r)
  case (Cons s ss)
  have "r div s < prod_list ss"
  proof (rule ccontr)
    assume "\<not> r div s < prod_list ss"
    then have "s * prod_list ss \<le> s * (r div s)" using Cons.prems(1) by (intro mult_left_mono) auto
    moreover have "s * (r div s) \<le> r" using Cons.prems(1) pos_mod_sign [of s r] by (simp add: minus_mod_eq_mult_div [symmetric])
    ultimately show False using Cons.prems(3) by simp
  qed
  moreover have "0 \<le> r div s" using Cons.prems by (simp add: pos_imp_zdiv_nonneg_iff)
  ultimately show ?case using Cons by simp
qed simp

lemma location_loop_locToId:
  "i < length ss \<Longrightarrow> in_range (take (Suc i) ss) xs \<Longrightarrow> location_loop ss i (locToId (take (Suc i) ss) xs) = Inr xs"
proof (induction i arbitrary: xs)
  case 0
  then obtain x where "xs = [x]" using in_range_length [OF 0(2)] by (cases ss; cases xs) auto
  then show ?case using 0 by (cases ss) auto
next
  case (Suc i)
  have len: "length xs = Suc (Suc i)" using in_range_length [OF Suc.prems(2)] Suc.prems(1) by simp
  then obtain ys x where xs: "xs = ys @ [x]" "length ys = Suc i" by (metis append_butlast_last_id length_append_singleton length_greater_0_conv nat.inject zero_less_Suc)
  let ?p = "take (Suc i) ss"
  have tk: "take (Suc (Suc i)) ss = ?p @ [ss ! Suc i]" using Suc.prems(1) by (simp add: take_Suc_conv_app_nth)
  have lp: "length ys = length ?p" using xs(2) Suc.prems(1) by simp
  have r: "in_range ?p ys" "0 \<le> x" using Suc.prems(2) lp unfolding tk xs(1) in_range_def by (simp_all add: list_all2_append)
  note b = locToId_bounds [OF r(1)]
  have "(locToId ?p ys + prod_list ?p * x) sdiv prod_list ?p = x" using b r(2) by (simp add: sdiv_nonneg div_pos_pos_trivial)
  then show ?case using Suc.IH [OF _ r(1)] Suc.prems(1) b unfolding tk xs(1) locToId_snoc [OF lp]
    by (simp add: algebra_simps Let_def)
qed

lemma idToLocation_locToId:
  "in_range (dim_size t) xs \<Longrightarrow> dim_size t \<noteq> [] \<Longrightarrow> idToLocation t (locToId (dim_size t) xs) = Inr xs"
  using location_loop_locToId [of "dimensions t - 1" "dim_size t" xs] by (simp add: idToLocation_def)

section \<open>Ports of a dimension\<close>

lemma port_starts_length [simp]: "length (port_starts n ws) = length ws"
  by (induction ws arbitrary: n) auto

lemma port_starts_bounds:
  "(\<forall>w \<in> set ws. 0 < w) \<Longrightarrow> d < length ws \<Longrightarrow>
   n \<le> fst (port_starts n ws ! d) \<and> snd (port_starts n ws ! d) = fst (port_starts n ws ! d) + ws ! d \<and>
   snd (port_starts n ws ! d) + ws ! d \<le> n + sum_list (map (\<lambda>w. 2 * w) ws)"
proof (induction ws arbitrary: n d)
  case (Cons w ws)
  show ?case
  proof (cases d)
    case 0
    have "0 \<le> sum_list (map (\<lambda>w. 2 * w) ws)" using Cons.prems(1) by (intro sum_list_nonneg) auto
    then show ?thesis using 0 by simp
  next
    case (Suc d')
    then show ?thesis using Cons.IH [of d' "n + w + w"] Cons.prems by auto
  qed
qed simp

lemma port_dim_starts:
  "(\<forall>w \<in> set ws. 0 < w) \<Longrightarrow> d < length ws \<Longrightarrow> 0 \<le> k \<Longrightarrow> k < ws ! d \<Longrightarrow>
   port_dim n d0 ws (fst (port_starts n ws ! d) + k) = Some (d0 + d, True, k) \<and>
   port_dim n d0 ws (snd (port_starts n ws ! d) + k) = Some (d0 + d, False, k)"
proof (induction ws arbitrary: n d d0)
  case (Cons w ws)
  show ?case
  proof (cases d)
    case (Suc d')
    have "n + w + w \<le> fst (port_starts (n + w + w) ws ! d')" "fst (port_starts (n + w + w) ws ! d') \<le> snd (port_starts (n + w + w) ws ! d')"
      using port_starts_bounds [of ws d' "n + w + w"] Cons.prems Suc by auto
    then show ?thesis using Cons.IH [of d' "n + w + w" "Suc d0"] Cons.prems Suc by auto
  qed (use Cons.prems in simp)
qed simp

lemma choose_multipath_range:
  assumes "0 < w" "0 \<le> dist" shows "\<exists>k. choose_multipath start w dist = start + k \<and> 0 \<le> k \<and> k < w"
  using assms by (auto simp: choose_multipath_def smod_nonneg)

end
