(* ===== verification/Merlin_GridRoute.thy ===== *)
theory Merlin_GridRoute
  imports Merlin_Grid "HOL-Library.Product_Lexorder"
begin

unbundle bit_operations_syntax

text \<open>
  Packets in a grid: the interface \<open>dim_routing\<close> of a direction function, under which a packet
  takes a shortest way, arrives, and climbs in the order of the channels; its interpretations for
  torus and mesh; freedom from deadlock; broadcasts.
\<close>

section \<open>Virtual channels\<close>

lemma vc_toggle: "(v XOR 1) div 2 = (v :: int) div 2" "(v XOR 1) mod 2 = 1 - v mod 2"
  by (auto simp: xor_one_eq mod2_eq_if elim!: evenE oddE)

lemma vc_reset: "(v AND NOT 1) div 2 = (v :: int) div 2" "(v AND NOT 1) mod 2 = 0"
proof -
  have "v AND NOT 1 = 2 * (v div 2)"
    by (rule bit_eqI) (auto simp: bit_simps bit_Suc [symmetric])
  then show "(v AND NOT 1) div 2 = v div 2" "(v AND NOT 1) mod 2 = 0" by simp_all
qed

section \<open>Well-formed routers\<close>

definition grid_ok :: "Grid \<Rightarrow> bool" where
  "grid_ok t \<longleftrightarrow> dim_size t \<noteq> [] \<and> (\<forall>s \<in> set (dim_size t). 0 < s) \<and> length (dim_width t) = dimensions t \<and>
     (\<forall>w \<in> set (dim_width t). 0 < w) \<and> 0 < num_local_ports t \<and> port_start t = port_starts 0 (dim_width t) \<and>
     local_port_start t = sum_list (map (\<lambda>w. 2 * w) (dim_width t)) \<and>
     in_range (dim_size t) (id_loc t) \<and> router_id t = locToId (dim_size t) (id_loc t)"

lemma router_at_simps [simp]:
  "dim_size (router_at t l) = dim_size t" "dim_width (router_at t l) = dim_width t" "id_loc (router_at t l) = l"
  "port_start (router_at t l) = port_start t" "num_local_ports (router_at t l) = num_local_ports t"
  "local_port_start (router_at t l) = local_port_start t" "num_vns (router_at t l) = num_vns t"
  "router_id (router_at t l) = locToId (dim_size t) l"
  by (simp_all add: router_at_def)

lemma grid_ok_router_at: "grid_ok t \<Longrightarrow> in_range (dim_size t) l \<Longrightarrow> grid_ok (router_at t l)"
  by (simp add: grid_ok_def)

lemma locToId_inj: "in_range ss xs \<Longrightarrow> in_range ss ys \<Longrightarrow> locToId ss xs = locToId ss ys \<longleftrightarrow> xs = ys"
  by (metis digits_locToId)

section \<open>The routing loop\<close>

lemma route_loop_turn:
  assumes "dim \<le> d" "d < dimensions t" "\<forall>i. dim \<le> i \<and> i < d \<longrightarrow> dest_loc ev ! i = id_loc t ! i"
    "dest_loc ev ! d \<noteq> id_loc t ! d" "routing_dim ev = dim"
  shows "route_loop direct t port vc dim ev = ev\<lparr>routing_dim := d,
    ge_next_port := (let (go_pos, dist) = direct (dim_size t ! d) (id_loc t ! d) (dest_loc ev ! d)
       in choose_multipath ((if go_pos then fst else snd) (port_start t ! d)) (dim_width t ! d) dist),
    ge_vc := (if id_loc t ! d = 0 \<and> port < local_port_start t then vc XOR 1 else if d = dim then ge_vc ev else vc AND NOT 1)\<rparr>"
  using assms
proof (induction "d - dim" arbitrary: dim ev)
  case 0
  then have "d = dim" by simp
  then show ?case using 0 by (subst route_loop.simps) (simp add: Let_def split: prod.split)
next
  case (Suc k)
  let ?ev = "ev\<lparr>routing_dim := Suc (routing_dim ev), ge_vc := vc AND NOT 1\<rparr>"
  have "route_loop direct t port vc dim ev = route_loop direct t port vc (Suc dim) ?ev"
    using Suc.hyps(2) Suc.prems by (subst route_loop.simps) simp
  then show ?case using Suc.hyps(1) [of "Suc dim" ?ev] Suc.hyps(2) Suc.prems by (simp add: Let_def split: prod.split)
qed

section \<open>The order of channels\<close>

text \<open>
  The place of a channel: dimensions in the order they are routed, in a dimension the channels
  before the dateline below those behind it, and along the direction of travel.
\<close>

definition along :: "int \<Rightarrow> bool \<Rightarrow> int \<Rightarrow> int" where
  "along s pos x = (if pos then x else (s - x) mod s)"

definition chan_rank :: "Grid \<Rightarrow> channel \<Rightarrow> int \<times> int \<times> int" where
  "chan_rank t c = (case c of (r, p, v) \<Rightarrow> (case port_dim 0 0 (dim_width t) p of
     Some (d, pos, num) \<Rightarrow> (int d, v mod 2, along (dim_size t ! d) pos (digits (dim_size t) r ! d))
   | None \<Rightarrow> (-1, 0, 0)))"

lemma along_bounds: "0 \<le> x \<Longrightarrow> x < s \<Longrightarrow> 0 \<le> along s pos x \<and> along s pos x < s"
  by (simp add: along_def)

lemma along_zero: "0 \<le> x \<Longrightarrow> x < s \<Longrightarrow> along s pos x = 0 \<longleftrightarrow> x = 0"
  using zdvd_imp_le [of s x] by (cases "x = 0") (auto simp: along_def mod_pos_pos_trivial)

lemma move_bounds: "0 \<le> x \<Longrightarrow> x < s \<Longrightarrow> 0 \<le> move s pos x \<and> move s pos x < s"
  by (simp add: move_def)

lemma along_move: "0 \<le> x \<Longrightarrow> x < s \<Longrightarrow> along s pos (move s pos x) = (along s pos x + 1) mod s"
proof -
  have "(1 - x - s) mod s = (1 - x) mod s" by (rule minus_mod_self2)
  then show ?thesis by (auto simp: along_def move_def mod_simps algebra_simps)
qed

definition dist_left :: "direction \<Rightarrow> int \<Rightarrow> int \<Rightarrow> int \<Rightarrow> int" where
  "dist_left direct s x y = (if x = y then 0 else snd (direct s x y))"

definition route_length :: "direction \<Rightarrow> int list \<Rightarrow> int list \<Rightarrow> int list \<Rightarrow> int" where
  "route_length direct ss xs ys = (\<Sum>i < length ss. dist_left direct (ss ! i) (xs ! i) (ys ! i))"

lemma route_length_move:
  assumes "d < length ss" "length xs = length ss"
  shows "route_length direct ss (xs[d := v]) ys =
    route_length direct ss xs ys - dist_left direct (ss ! d) (xs ! d) (ys ! d) + dist_left direct (ss ! d) v (ys ! d)"
proof -
  have "(\<Sum>i \<in> {..<length ss} - {d}. dist_left direct (ss ! i) (xs[d := v] ! i) (ys ! i)) =
        (\<Sum>i \<in> {..<length ss} - {d}. dist_left direct (ss ! i) (xs ! i) (ys ! i))"
    by (rule sum.cong) auto
  then show ?thesis using assms by (simp add: route_length_def sum.remove [where x = d])
qed

text \<open>
  A packet on its way: the dimensions before \<open>routing_dim\<close> are done. It comes from an endpoint on
  an even channel, or over a channel of rank \<open>prev\<close> in its dimension, and once it is behind the
  dateline it will not cross it again.
\<close>

definition on_way :: "direction \<Rightarrow> Grid \<Rightarrow> int \<Rightarrow> GridEvent \<Rightarrow> int \<times> int \<times> int \<Rightarrow> bool" where
  "on_way direct t port ev prev \<longleftrightarrow> (let d = routing_dim ev; s = dim_size t ! d; x = id_loc t ! d; y = dest_loc ev ! d in
     d < dimensions t \<and> (\<forall>i < d. id_loc t ! i = dest_loc ev ! i) \<and>
     (if local_port_start t \<le> port then even (ge_vc ev) \<and> prev = (-1, 0, 0)
      else (\<exists>k. prev = (int d, ge_vc ev mod 2, k) \<and> 0 \<le> k \<and> k < s \<and>
        (x \<noteq> y \<longrightarrow> along s (fst (direct s x y)) x = (k + 1) mod s \<and> (odd (ge_vc ev) \<longrightarrow> k + 1 + dist_left direct s x y < s)))))"

text \<open>The first dimension in which two locations differ.\<close>

lemma first_difference:
  assumes "length xs = length ys" "xs \<noteq> ys" "\<forall>i < d0. xs ! i = ys ! i"
  obtains d where "d0 \<le> d" "d < length ys" "\<forall>i. d0 \<le> i \<and> i < d \<longrightarrow> ys ! i = xs ! i" "ys ! d \<noteq> xs ! d"
proof -
  define P where "P i \<longleftrightarrow> i < length ys \<and> ys ! i \<noteq> xs ! i" for i
  define m where "m = (LEAST i. P i)"
  have "\<exists>i. P i" using assms(1,2) unfolding P_def by (metis nth_equalityI)
  then have P: "P m" unfolding m_def by (rule LeastI_ex)
  have "\<not> P i" if "i < m" for i using not_less_Least that unfolding m_def .
  then have below: "\<forall>i < m. ys ! i = xs ! i" using P by (auto simp: P_def)
  have "d0 \<le> m" using P assms(3) unfolding P_def by (metis not_less)
  then show thesis using that [of m] P below by (simp add: P_def)
qed

text \<open>The port a packet leaves on, and where the link of that port leads.\<close>

lemma leaves_on:
  assumes "grid_ok t" "d < dimensions t" "0 \<le> dist" "wrap \<or> (if pos then id_loc t ! d + 1 < dim_size t ! d else 0 < id_loc t ! d)"
  defines "p \<equiv> choose_multipath ((if pos then fst else snd) (port_start t ! d)) (dim_width t ! d) dist"
  obtains k port1 where "p < local_port_start t" "port_dim 0 0 (dim_width t) p = Some (d, pos, k)" "port1 < local_port_start t"
    "wire_port wrap t p = Some (router_at t ((id_loc t)[d := move (dim_size t ! d) pos (id_loc t ! d)]), port1)"
proof -
  have w: "0 < dim_width t ! d" "d < length (dim_width t)" "\<forall>w \<in> set (dim_width t). 0 < w"
    and ps: "port_start t = port_starts 0 (dim_width t)" "local_port_start t = sum_list (map (\<lambda>w. 2 * w) (dim_width t))"
    using assms(1,2) by (auto simp: grid_ok_def)
  obtain k where k: "p = (if pos then fst else snd) (port_start t ! d) + k" "0 \<le> k" "k < dim_width t ! d"
    using choose_multipath_range [OF w(1) assms(3)] unfolding p_def by blast
  note pb = port_starts_bounds [OF w(3,2), of 0]
  have pd: "port_dim 0 0 (dim_width t) p = Some (d, pos, k)"
    using port_dim_starts [OF w(3,2) k(2,3), of 0 0] unfolding k(1) ps by (cases pos) simp_all
  show thesis
  proof (rule that)
    show "p < local_port_start t" "(if pos then snd else fst) (port_start t ! d) + k < local_port_start t"
      using pb k(2,3) w(1) unfolding k(1) ps by (cases pos; simp)+
    show "wire_port wrap t p = Some (router_at t ((id_loc t)[d := move (dim_size t ! d) pos (id_loc t ! d)]),
        (if pos then snd else fst) (port_start t ! d) + k)"
      using assms(4) by (simp add: wire_port_def pd)
  qed (rule pd)
qed

text \<open>
  The dateline: with the toggle at the router of coordinate 0, the channel a packet takes next is
  above the one it comes from, and behind the dateline there is room for the rest of the way.
\<close>

lemma dateline:
  fixes v d0 d s x dist :: int
  assumes came: "if host then even v \<and> prev = (-1, 0, 0) else (\<exists>k. prev = (d0, v mod 2, k) \<and> 0 \<le> k \<and> k < s0 \<and>
      (d = d0 \<longrightarrow> s0 = s \<and> along s pos x = (k + 1) mod s \<and> (odd v \<longrightarrow> k + 1 + dist < s)))"
    and d: "0 \<le> d0" "d0 \<le> d" and x: "0 \<le> x" "x < s" and dist: "0 < dist" "dist < s"
    and v1: "v1 = (if x = 0 \<and> \<not> host then v XOR 1 else if d = d0 then v else v AND NOT 1)"
  shows "prev < (d, v1 mod 2, along s pos x)" and "odd v1 \<longrightarrow> along s pos x + dist < s"
proof -
  note az = along_zero [OF x, of pos]
  have "prev < (d, v1 mod 2, along s pos x) \<and> (odd v1 \<longrightarrow> along s pos x + dist < s)"
  proof (cases host)
    case True
    then have "even v1" using came v1 vc_reset(2) [of v] by (auto simp: even_iff_mod_2_eq_zero)
    then show ?thesis using True came d by auto
  next
    case False
    then obtain k where k: "prev = (d0, v mod 2, k)" "0 \<le> k" "k < s0"
      "d = d0 \<longrightarrow> s0 = s \<and> along s pos x = (k + 1) mod s \<and> (odd v \<longrightarrow> k + 1 + dist < s)" using came by auto
    show ?thesis
    proof (cases "d = d0")
      case new: False
      have "odd v1 \<longrightarrow> x = 0" using v1 new vc_reset(2) [of v] by (auto simp: even_iff_mod_2_eq_zero)
      then show ?thesis using az d new k(1) dist by auto
    next
      case same: True
      then have a: "along s pos x = (k + 1) mod s" "odd v \<longrightarrow> k + 1 + dist < s" "k < s" using k by auto
      show ?thesis
      proof (cases "x = 0")
        case True
        then have "k + 1 = s" using az a(1,3) k(2) by (cases "k + 1 = s") (auto simp: mod_pos_pos_trivial)
        then have "even v" using a(2) dist by auto
        then show ?thesis using True False same az v1 k(1) dist vc_toggle(2) [of v] by auto
      next
        case nz: False
        then have "k + 1 < s" using az a(1,3) k(2) by (cases "k + 1 = s") auto
        then show ?thesis using nz same a v1 k(1,2) by (auto simp: mod_pos_pos_trivial)
      qed
    qed
  qed
  then show "prev < (d, v1 mod 2, along s pos x)" and "odd v1 \<longrightarrow> along s pos x + dist < s" by auto
qed

locale dim_routing =
  fixes direct :: direction and wrap :: bool
  assumes distance: "0 \<le> x \<Longrightarrow> x < s \<Longrightarrow> 0 \<le> y \<Longrightarrow> y < s \<Longrightarrow> x \<noteq> y \<Longrightarrow> 0 < snd (direct s x y) \<and> snd (direct s x y) < s"
    and closer: "0 \<le> x \<Longrightarrow> x < s \<Longrightarrow> 0 \<le> y \<Longrightarrow> y < s \<Longrightarrow> x \<noteq> y \<Longrightarrow>
      dist_left direct s (move s (fst (direct s x y)) x) y = dist_left direct s x y - 1"
    and straight: "0 \<le> x \<Longrightarrow> x < s \<Longrightarrow> 0 \<le> y \<Longrightarrow> y < s \<Longrightarrow> x \<noteq> y \<Longrightarrow> move s (fst (direct s x y)) x \<noteq> y \<Longrightarrow>
      fst (direct s (move s (fst (direct s x y)) x) y) = fst (direct s x y)"
    and linked: "0 \<le> x \<Longrightarrow> x < s \<Longrightarrow> 0 \<le> y \<Longrightarrow> y < s \<Longrightarrow> x \<noteq> y \<Longrightarrow>
      wrap \<or> (if fst (direct s x y) then x + 1 < s else 0 < x)"
begin

lemma dist_left_bounds: "0 \<le> x \<Longrightarrow> x < s \<Longrightarrow> 0 \<le> y \<Longrightarrow> y < s \<Longrightarrow> 0 \<le> dist_left direct s x y \<and> dist_left direct s x y < s"
  using distance [of x s y] by (auto simp: dist_left_def)

lemma route_length_nonneg: "in_range ss xs \<Longrightarrow> in_range ss ys \<Longrightarrow> 0 \<le> route_length direct ss xs ys"
  unfolding route_length_def by (intro sum_nonneg) (auto dest: in_range_nth dist_left_bounds)

text \<open>One hop: the packet is not yet at its router.\<close>

lemma hop:
  assumes ok: "grid_ok t" and way: "on_way direct t port ev prev" and rg: "in_range (dim_size t) (dest_loc ev)"
    and ne: "id_loc t \<noteq> dest_loc ev"
  obtains ev1 l port1 where "route_loop direct t port (ge_vc ev) (routing_dim ev) ev = ev1"
    "ge_next_port ev1 < local_port_start t" "wire_port wrap t (ge_next_port ev1) = Some (router_at t l, port1)"
    "in_range (dim_size t) l" "on_way direct (router_at t l) port1 ev1 (chan_rank t (router_id t, ge_next_port ev1, ge_vc ev1))"
    "prev < chan_rank t (router_id t, ge_next_port ev1, ge_vc ev1)"
    "dest_loc ev1 = dest_loc ev" "ge_dest ev1 = ge_dest ev" "ge_vc ev1 div 2 = ge_vc ev div 2"
    "route_length direct (dim_size t) l (dest_loc ev) = route_length direct (dim_size t) (id_loc t) (dest_loc ev) - 1"
proof -
  let ?n = "dimensions t" and ?d0 = "routing_dim ev"
  have lens: "length (id_loc t) = ?n" "length (dest_loc ev) = ?n" "in_range (dim_size t) (id_loc t)"
    using ok rg by (auto simp: grid_ok_def dest: in_range_length)
  have d0: "\<forall>i < ?d0. id_loc t ! i = dest_loc ev ! i" using way by (auto simp: on_way_def Let_def)
  obtain d where d: "?d0 \<le> d" "d < ?n" "\<forall>i. ?d0 \<le> i \<and> i < d \<longrightarrow> dest_loc ev ! i = id_loc t ! i" "dest_loc ev ! d \<noteq> id_loc t ! d"
    using first_difference [OF _ ne d0] lens by metis
  let ?s = "dim_size t ! d" and ?x = "id_loc t ! d" and ?y = "dest_loc ev ! d"
  have b: "0 \<le> ?x" "?x < ?s" "0 \<le> ?y" "?y < ?s" using in_range_nth [OF lens(3) d(2)] in_range_nth [OF rg d(2)] by auto
  have xy: "?x \<noteq> ?y" using d(4) by simp
  obtain pos dist where dir: "direct ?s ?x ?y = (pos, dist)" by (cases "direct ?s ?x ?y")
  have dist: "0 < dist" "dist < ?s" and link: "wrap \<or> (if pos then ?x + 1 < ?s else 0 < ?x)"
    using distance [OF b xy] linked [OF b xy] dir by auto
  let ?x1 = "move ?s pos ?x"
  define p where "p = choose_multipath ((if pos then fst else snd) (port_start t ! d)) (dim_width t ! d) dist"
  obtain k port1 where p: "p < local_port_start t" "port_dim 0 0 (dim_width t) p = Some (d, pos, k)"
      "port1 < local_port_start t" "wire_port wrap t p = Some (router_at t ((id_loc t)[d := ?x1]), port1)"
    using leaves_on [OF ok d(2) less_imp_le [OF dist(1)] link] unfolding p_def by blast
  define vc1 where "vc1 = (if ?x = 0 \<and> port < local_port_start t then ge_vc ev XOR 1 else if d = ?d0 then ge_vc ev else ge_vc ev AND NOT 1)"
  define ev1 where "ev1 = ev\<lparr>routing_dim := d, ge_next_port := p, ge_vc := vc1\<rparr>"
  have rank: "chan_rank t (router_id t, ge_next_port ev1, ge_vc ev1) = (int d, vc1 mod 2, along ?s pos ?x)"
    using ok digits_locToId [OF lens(3)] by (simp add: chan_rank_def ev1_def p(2) grid_ok_def)
  have rem: "dist_left direct ?s ?x ?y = dist" "dist_left direct ?s ?x1 ?y = dist - 1"
    and st: "?x1 \<noteq> ?y \<longrightarrow> fst (direct ?s ?x1 ?y) = pos"
    using closer [OF b xy] straight [OF b xy] xy dir by (auto simp: dist_left_def)
  have "if local_port_start t \<le> port then even (ge_vc ev) \<and> prev = (-1, 0, 0) else (\<exists>k. prev = (int ?d0, ge_vc ev mod 2, k) \<and> 0 \<le> k \<and> k < dim_size t ! ?d0 \<and>
      (int d = int ?d0 \<longrightarrow> dim_size t ! ?d0 = ?s \<and> along ?s pos ?x = (k + 1) mod ?s \<and> (odd (ge_vc ev) \<longrightarrow> k + 1 + dist < ?s)))"
    using way xy rem dir by (auto simp: on_way_def Let_def split: if_splits)
  note dl = dateline [OF this _ _ b(1,2) dist, of vc1]
  have less: "prev < (int d, vc1 mod 2, along ?s pos ?x)" and room: "odd vc1 \<longrightarrow> along ?s pos ?x + dist < ?s"
    using dl d(1) by (auto simp: vc1_def)
  have below: "\<forall>i < d. id_loc t ! i = dest_loc ev ! i" using d(3) d0 by (metis not_less)
  show thesis
  proof (rule that [OF _ _ _ _ _ _ _ _ _ _, of ev1 "(id_loc t)[d := ?x1]" port1])
    show "route_loop direct t port (ge_vc ev) ?d0 ev = ev1"
      using route_loop_turn [OF d refl, of direct port "ge_vc ev"] dir by (simp add: ev1_def vc1_def p_def)
    show "ge_next_port ev1 < local_port_start t" "wire_port wrap t (ge_next_port ev1) = Some (router_at t ((id_loc t)[d := ?x1]), port1)"
      using p by (simp_all add: ev1_def)
    show "in_range (dim_size t) ((id_loc t)[d := ?x1])" using in_range_update [OF lens(3) d(2)] move_bounds [OF b(1,2), of pos] by simp
    show "prev < chan_rank t (router_id t, ge_next_port ev1, ge_vc ev1)" using less rank by simp
    show "on_way direct (router_at t ((id_loc t)[d := ?x1])) port1 ev1 (chan_rank t (router_id t, ge_next_port ev1, ge_vc ev1))"
    proof -
      have "?x1 \<noteq> ?y \<longrightarrow> along ?s (fst (direct ?s ?x1 ?y)) ?x1 = (along ?s pos ?x + 1) mod ?s \<and>
          (odd vc1 \<longrightarrow> along ?s pos ?x + 1 + dist_left direct ?s ?x1 ?y < ?s)"
        using along_move [OF b(1,2), of pos] st rem(2) room by simp
      then show ?thesis
        unfolding rank using d(2) below p(3) lens(1) along_bounds [OF b(1,2), of pos] by (simp add: on_way_def Let_def ev1_def)
    qed
    show "ge_vc ev1 div 2 = ge_vc ev div 2" by (simp add: ev1_def vc1_def vc_toggle vc_reset [simplified])
    show "route_length direct (dim_size t) ((id_loc t)[d := ?x1]) (dest_loc ev) = route_length direct (dim_size t) (id_loc t) (dest_loc ev) - 1"
      using route_length_move [OF d(2) lens(1)] rem by simp
  qed (simp_all add: ev1_def)
qed

text \<open>The whole way.\<close>

lemma travel_arrives:
  assumes "grid_ok t" "on_way direct t port ev prev" "in_range (dim_size t) (dest_loc ev)"
    "0 \<le> ge_dest ev" "ge_dest ev div num_local_ports t = locToId (dim_size t) (dest_loc ev)"
  shows "\<exists>cs ev'. travel (grid_route direct) wrap t port ev = Some (Inr (cs, locToId (dim_size t) (dest_loc ev), ev')) \<and>
    ge_next_port ev' = local_port_start t + ge_dest ev mod num_local_ports t \<and>
    int (length cs) = route_length direct (dim_size t) (id_loc t) (dest_loc ev) \<and>
    sorted_wrt (<) (prev # map (chan_rank t) cs) \<and> (\<forall>(r, p, v) \<in> set cs. v div 2 = ge_vc ev div 2)"
  using assms
proof (induction "nat (route_length direct (dim_size t) (id_loc t) (dest_loc ev))" arbitrary: t port ev prev rule: less_induct)
  case less
  note ok = less.prems(1) and rg = less.prems(3)
  have n: "num_local_ports t > 0" "in_range (dim_size t) (id_loc t)" "router_id t = locToId (dim_size t) (id_loc t)"
    using ok by (auto simp: grid_ok_def)
  have dr: "get_dest_router t (ge_dest ev) = Inr (locToId (dim_size t) (dest_loc ev))"
    using n(1) less.prems(4,5) by (simp add: get_dest_router_def sdiv_nonneg)
  show ?case
  proof (cases "id_loc t = dest_loc ev")
    case True
    have "grid_route direct t port (ge_vc ev) ev = Inr (ev\<lparr>ge_next_port := local_port_start t + ge_dest ev mod num_local_ports t\<rparr>)"
      using dr n True less.prems(4) by (simp add: grid_route_def get_dest_local_port_def smod_nonneg)
    moreover have "route_length direct (dim_size t) (id_loc t) (dest_loc ev) = 0" using True by (simp add: route_length_def dist_left_def)
    ultimately show ?thesis using n(1,3) True by (subst travel.simps) simp
  next
    case False
    obtain ev1 l port1 where h: "route_loop direct t port (ge_vc ev) (routing_dim ev) ev = ev1"
      "ge_next_port ev1 < local_port_start t" "wire_port wrap t (ge_next_port ev1) = Some (router_at t l, port1)"
      "in_range (dim_size t) l" "on_way direct (router_at t l) port1 ev1 (chan_rank t (router_id t, ge_next_port ev1, ge_vc ev1))"
      "prev < chan_rank t (router_id t, ge_next_port ev1, ge_vc ev1)"
      "dest_loc ev1 = dest_loc ev" "ge_dest ev1 = ge_dest ev" "ge_vc ev1 div 2 = ge_vc ev div 2"
      "route_length direct (dim_size t) l (dest_loc ev) = route_length direct (dim_size t) (id_loc t) (dest_loc ev) - 1"
      by (rule hop [OF ok less.prems(2) rg False])
    have "router_id t \<noteq> locToId (dim_size t) (dest_loc ev)" using n(2,3) rg False locToId_inj by metis
    then have g: "grid_route direct t port (ge_vc ev) ev = Inr ev1" using dr h(1) by (simp add: grid_route_def)
    have pos: "0 \<le> route_length direct (dim_size t) l (dest_loc ev)" using route_length_nonneg [OF h(4) rg] .
    have cr: "chan_rank (router_at t l) = chan_rank t" by (auto simp: chan_rank_def split: prod.splits option.splits)
    obtain cs ev' where ih: "travel (grid_route direct) wrap (router_at t l) port1 ev1 = Some (Inr (cs, locToId (dim_size t) (dest_loc ev), ev'))"
      "ge_next_port ev' = local_port_start t + ge_dest ev mod num_local_ports t"
      "int (length cs) = route_length direct (dim_size t) l (dest_loc ev)"
      "sorted_wrt (<) (chan_rank t (router_id t, ge_next_port ev1, ge_vc ev1) # map (chan_rank t) cs)"
      "\<forall>(r, p, v) \<in> set cs. v div 2 = ge_vc ev div 2"
      using less.hyps [OF _ grid_ok_router_at [OF ok h(4)] h(5)] pos h(7-10) rg less.prems(4,5) cr by auto
    have "travel (grid_route direct) wrap t port ev =
        Some (Inr ((router_id t, ge_next_port ev1, ge_vc ev1) # cs, locToId (dim_size t) (dest_loc ev), ev'))"
      using g h(2,3) ih(1) by (subst travel.simps) simp
    then show ?thesis using ih(2-5) h(6,9,10) by auto
  qed
qed

end

section \<open>Torus and mesh\<close>

lemma move_cases:
  assumes "0 \<le> x" "x < s"
  shows "move s True x = (if x + 1 = s then 0 else x + 1)" "move s False x = (if x = 0 then s - 1 else x - 1)"
proof -
  have "(x - 1 + s) mod s = x - 1" if "x \<noteq> 0" using that assms by (simp add: mod_pos_pos_trivial)
  then show "move s True x = (if x + 1 = s then 0 else x + 1)" "move s False x = (if x = 0 then s - 1 else x - 1)"
    using assms zmod_minus1 [of s] by (auto simp: move_def mod_pos_pos_trivial)
qed

lemma mod_difference:
  fixes x y s :: int assumes "0 \<le> x" "x < s" "0 \<le> y" "y < s" shows "(y - x) mod s = (if y < x then y - x + s else y - x)"
proof (cases "y < x")
  case True
  have "(y - x + s) mod s = y - x + s" by (rule mod_pos_pos_trivial) (use assms True in auto)
  then show ?thesis using True by simp
qed (use assms in \<open>simp add: mod_pos_pos_trivial\<close>)

lemma dist_left_torus:
  "0 \<le> x \<Longrightarrow> x < s \<Longrightarrow> 0 \<le> y \<Longrightarrow> y < s \<Longrightarrow> dist_left torus_direction s x y = min ((y - x) mod s) ((x - y) mod s)"
  by (auto simp: dist_left_def torus_direction_def Let_def mod_difference)

lemma dist_left_mesh: "dist_left mesh_direction s x y = \<bar>x - y\<bar>"
  by (simp add: dist_left_def mesh_direction_def)

interpretation torus: dim_routing torus_direction True
proof
  fix x s y :: int
  assume b: "0 \<le> x" "x < s" "0 \<le> y" "y < s" "x \<noteq> y"
  show "0 < snd (torus_direction s x y) \<and> snd (torus_direction s x y) < s" using b by (auto simp: torus_direction_def Let_def)
  let ?x1 = "move s (fst (torus_direction s x y)) x"
  have x1: "?x1 = (if fst (torus_direction s x y) then (if x + 1 = s then 0 else x + 1) else (if x = 0 then s - 1 else x - 1))"
    using move_cases [OF b(1,2)] by (cases "fst (torus_direction s x y)") simp_all
  show "dist_left torus_direction s ?x1 y = dist_left torus_direction s x y - 1"
    unfolding x1 using b by (auto simp: dist_left_def torus_direction_def Let_def)
  show "?x1 \<noteq> y \<Longrightarrow> fst (torus_direction s ?x1 y) = fst (torus_direction s x y)"
    using b x1 by (cases "fst (torus_direction s x y)"; cases "x + 1 = s"; cases "x = 0") (auto simp: torus_direction_def Let_def split: if_splits)
qed simp

interpretation mesh: dim_routing mesh_direction False
proof
  fix x s y :: int
  assume b: "0 \<le> x" "x < s" "0 \<le> y" "y < s" "x \<noteq> y"
  have x1: "move s (fst (mesh_direction s x y)) x = (if x < y then x + 1 else x - 1)"
    using b move_cases [OF b(1,2)] by (auto simp: mesh_direction_def)
  show "0 < snd (mesh_direction s x y) \<and> snd (mesh_direction s x y) < s" using b by (auto simp: mesh_direction_def)
  show "dist_left mesh_direction s (move s (fst (mesh_direction s x y)) x) y = dist_left mesh_direction s x y - 1"
    unfolding x1 using b by (auto simp: dist_left_mesh)
  show "move s (fst (mesh_direction s x y)) x \<noteq> y \<Longrightarrow>
      fst (mesh_direction s (move s (fst (mesh_direction s x y)) x) y) = fst (mesh_direction s x y)"
    unfolding x1 using b by (auto simp: mesh_direction_def)
  show "False \<or> (if fst (mesh_direction s x y) then x + 1 < s else 0 < x)" using b by (auto simp: mesh_direction_def)
qed

section \<open>Properties of routing\<close>

definition endpoint :: "Grid \<Rightarrow> int \<Rightarrow> bool" where
  "endpoint t e \<longleftrightarrow> 0 \<le> e \<and> e < prod_list (dim_size t) * num_local_ports t"

lemma endpoint_router:
  assumes "grid_ok t" "endpoint t e"
  shows "0 \<le> e div num_local_ports t" "e div num_local_ports t < prod_list (dim_size t)"
proof -
  have L: "0 < num_local_ports t" using assms(1) by (simp add: grid_ok_def)
  show "0 \<le> e div num_local_ports t" using L assms(2) by (simp add: endpoint_def pos_imp_zdiv_nonneg_iff)
  have "e div num_local_ports t * num_local_ports t \<le> e" using L pos_mod_sign [OF L, of e] by (simp add: minus_mod_eq_div_mult [symmetric])
  also have "e < prod_list (dim_size t) * num_local_ports t" using assms(2) by (simp add: endpoint_def)
  finally show "e div num_local_ports t < prod_list (dim_size t)" using L by (simp add: mult_less_cancel_right)
qed

text \<open>The reference for \<open>idToLocation\<close>, and what \<open>process_input\<close> makes of a packet.\<close>

lemma idToLocation_digits:
  assumes "dim_size t \<noteq> []" "\<forall>s \<in> set (dim_size t). 0 < s" "0 \<le> r" "r < prod_list (dim_size t)"
  shows "idToLocation t r = Inr (digits (dim_size t) r)"
  using idToLocation_locToId [OF digits_in_range [OF assms(2), of r] assms(1)] locToId_digits [OF assms(2-4)] by simp

lemma process_input_ok:
  assumes "grid_ok t" "endpoint t e" "local_port_start t \<le> port"
  obtains ev where "process_input t g e vn = Inr ev" "on_way direct t port ev (-1, 0, 0)" "ge_vc ev = 2 * vn" "ge_dest ev = e"
    "dest_loc ev = digits (dim_size t) (e div num_local_ports t)"
proof -
  let ?y = "digits (dim_size t) (e div num_local_ports t)"
  have L: "0 < num_local_ports t" "dim_size t \<noteq> []" "\<forall>s \<in> set (dim_size t). 0 < s" using assms(1) by (simp_all add: grid_ok_def)
  have "process_input t g e vn = Inr ((new_grid_event g e vn)\<lparr>ge_vc := vn * 2, dest_loc := ?y\<rparr>)"
    using idToLocation_digits [OF L(2,3) endpoint_router [OF assms(1,2)]] L(1) assms(2)
    by (simp add: process_input_def get_dest_router_def new_grid_event_def sdiv_nonneg endpoint_def)
  then show thesis using that L(2) assms(3) by (simp add: on_way_def new_grid_event_def)
qed

context dim_routing
begin

lemma delivers:
  assumes "grid_ok t" "endpoint t e" "local_port_start t \<le> port"
  defines "y \<equiv> digits (dim_size t) (e div num_local_ports t)"
  shows "\<exists>ev cs ev'. process_input t g e vn = Inr ev \<and> travel (grid_route direct) wrap t port ev = Some (Inr (cs, e div num_local_ports t, ev')) \<and>
    ge_next_port ev' = local_port_start t + e mod num_local_ports t \<and>
    int (length cs) = route_length direct (dim_size t) (id_loc t) y \<and> sorted_wrt (<) (map (chan_rank t) cs) \<and>
    (\<forall>(r, p, v) \<in> set cs. v div 2 = vn)"
proof -
  have s: "\<forall>s \<in> set (dim_size t). 0 < s" using assms(1) by (simp add: grid_ok_def)
  note r = endpoint_router [OF assms(1,2)]
  obtain ev where ev: "process_input t g e vn = Inr ev" "on_way direct t port ev (-1, 0, 0)" "ge_vc ev = 2 * vn" "ge_dest ev = e" "dest_loc ev = y"
    using process_input_ok [OF assms(1-3)] unfolding y_def by blast
  have y: "in_range (dim_size t) y" "locToId (dim_size t) y = e div num_local_ports t"
    unfolding y_def using digits_in_range [OF s] locToId_digits [OF s r] by simp_all
  show ?thesis
    using travel_arrives [OF assms(1) ev(2)] ev(1,3-5) y assms(2) by (auto simp: endpoint_def)
qed

end

lemma port_of_endpoint:
  assumes "grid_ok t" "endpoint t e"
  shows "getEndpointID torus_getPortState (router_at t (digits (dim_size t) (e div num_local_ports t)))
      (local_port_start t + e mod num_local_ports t) = e"
    and "getEndpointID mesh_getPortState (router_at t (digits (dim_size t) (e div num_local_ports t)))
      (local_port_start t + e mod num_local_ports t) = e"
proof -
  have L: "0 < num_local_ports t" "\<forall>s \<in> set (dim_size t). 0 < s" using assms(1) by (simp_all add: grid_ok_def)
  have m: "0 \<le> e mod num_local_ports t" "e mod num_local_ports t < num_local_ports t" using L(1) by simp_all
  show "getEndpointID torus_getPortState (router_at t (digits (dim_size t) (e div num_local_ports t)))
      (local_port_start t + e mod num_local_ports t) = e"
    "getEndpointID mesh_getPortState (router_at t (digits (dim_size t) (e div num_local_ports t)))
      (local_port_start t + e mod num_local_ports t) = e"
    using m locToId_digits [OF L(2) endpoint_router [OF assms]]
    by (simp_all add: getEndpointID_def torus_getPortState_def mesh_getPortState_def)
qed

text \<open>
  C5 Every packet in a torus arrives, over a shortest way: from any port of any router the hops of
  a packet to an endpoint end after exactly the sum of the distances around the rings, the
  shorter way around each, at the router and port of that endpoint.
\<close>
theorem torus_delivers:
  assumes "grid_ok t" and "endpoint t e" and "local_port_start t \<le> port"
  defines "y \<equiv> digits (dim_size t) (e div num_local_ports t)"
  shows "\<exists>ev cs ev'. process_input t g e vn = Inr ev \<and>
    travel torus_route_packet True t port ev = Some (Inr (cs, e div num_local_ports t, ev')) \<and>
    getEndpointID torus_getPortState (router_at t y) (ge_next_port ev') = e \<and>
    int (length cs) = (\<Sum>i < dimensions t. min ((y ! i - id_loc t ! i) mod dim_size t ! i) ((id_loc t ! i - y ! i) mod dim_size t ! i))"
proof -
  have r: "in_range (dim_size t) y" "in_range (dim_size t) (id_loc t)"
    using assms(1) digits_in_range [of "dim_size t"] by (auto simp: grid_ok_def y_def)
  have "route_length torus_direction (dim_size t) (id_loc t) y =
      (\<Sum>i < dimensions t. min ((y ! i - id_loc t ! i) mod dim_size t ! i) ((id_loc t ! i - y ! i) mod dim_size t ! i))"
    unfolding route_length_def using in_range_nth [OF r(1)] in_range_nth [OF r(2)] by (intro sum.cong) (simp_all add: dist_left_torus)
  then show ?thesis
    using torus.delivers [OF assms(1-3), of g vn] port_of_endpoint(1) [OF assms(1,2)] by (auto simp: y_def torus_route_packet_def)
qed

text \<open>
  Every packet in a mesh arrives, over a shortest way: after as many hops as the coordinates of
  source and destination differ, at the router and port of its endpoint, without ever leaving on
  a port at the rim that has no link.
\<close>
theorem mesh_delivers:
  assumes "grid_ok t" and "endpoint t e" and "local_port_start t \<le> port"
  defines "y \<equiv> digits (dim_size t) (e div num_local_ports t)"
  shows "\<exists>ev cs ev'. process_input t g e vn = Inr ev \<and>
    travel mesh_route_packet False t port ev = Some (Inr (cs, e div num_local_ports t, ev')) \<and>
    getEndpointID mesh_getPortState (router_at t y) (ge_next_port ev') = e \<and>
    int (length cs) = (\<Sum>i < dimensions t. \<bar>id_loc t ! i - y ! i\<bar>)"
  using mesh.delivers [OF assms(1-3), of g vn] port_of_endpoint(2) [OF assms(1,2)]
  by (auto simp: y_def mesh_route_packet_def route_length_def dist_left_mesh)

text \<open>
  The channels of the network depend on each other: a packet of some router and endpoint that
  holds \<open>c\<close> may wait for \<open>c'\<close>, the next channel of its way.
\<close>

definition channel_deps :: "(Grid \<Rightarrow> int \<Rightarrow> int \<Rightarrow> GridEvent \<Rightarrow> GridEvent res) \<Rightarrow> bool \<Rightarrow> Grid \<Rightarrow> (channel \<times> channel) set" where
  "channel_deps route wrap t = {(c, c'). \<exists>l port g e vn ev cs r ev' i. in_range (dim_size t) l \<and> endpoint t e \<and> local_port_start t \<le> port \<and>
     process_input (router_at t l) g e vn = Inr ev \<and> travel route wrap (router_at t l) port ev = Some (Inr (cs, r, ev')) \<and>
     Suc i < length cs \<and> c = cs ! i \<and> c' = cs ! Suc i}"

context dim_routing
begin

lemma deps_climb: "grid_ok t \<Longrightarrow> (c, c') \<in> channel_deps (grid_route direct) wrap t \<Longrightarrow> chan_rank t c < chan_rank t c'"
proof -
  assume ok: "grid_ok t" and "(c, c') \<in> channel_deps (grid_route direct) wrap t"
  then obtain l port g e vn ev cs r ev' i where d: "in_range (dim_size t) l" "endpoint t e" "local_port_start t \<le> port"
    "process_input (router_at t l) g e vn = Inr ev" "travel (grid_route direct) wrap (router_at t l) port ev = Some (Inr (cs, r, ev'))"
    "Suc i < length cs" "c = cs ! i" "c' = cs ! Suc i" by (auto simp: channel_deps_def)
  have "chan_rank (router_at t l) = chan_rank t" by (auto simp: chan_rank_def split: prod.splits option.splits)
  then have "sorted_wrt (<) (map (chan_rank t) cs)"
    using delivers [OF grid_ok_router_at [OF ok d(1)], of e port g vn] d(2-5) by (auto simp: endpoint_def)
  then show ?thesis using d(6-8) by (auto simp: sorted_wrt_iff_nth_less)
qed

lemma deps_acyclic: "grid_ok t \<Longrightarrow> acyclic (channel_deps (grid_route direct) wrap t)"
  using deps_climb [of t] acyclicI_order [of "(channel_deps (grid_route direct) wrap t)\<inverse>" "chan_rank t"] by auto

end

text \<open>
  C4 A torus cannot deadlock: no cycle of channels waits for one another, whatever packets are
  under way. The dateline does it: a packet that passes the router of coordinate 0 of a ring
  changes to the other virtual channel of its network, and never passes that router twice.
\<close>
theorem torus_deadlock_free:
  assumes "grid_ok t" shows "acyclic (channel_deps torus_route_packet True t)"
  unfolding torus_route_packet_def using assms by (rule torus.deps_acyclic)

text \<open>
  A packet in a torus uses only the two virtual channels of its own virtual network, and these
  exist: the channel number lies below the total that \<open>getVCsPerVN\<close> reports.
\<close>
theorem torus_vc_in_range:
  assumes "grid_ok t" and "endpoint t e" and "local_port_start t \<le> port" and "0 \<le> vn" and "vn < num_vns t"
  shows "\<exists>ev cs r ev'. process_input t g e vn = Inr ev \<and> travel torus_route_packet True t port ev = Some (Inr (cs, r, ev')) \<and>
    ge_vc ev div 2 = vn \<and> ge_vc ev < sum_list (torus_getVCsPerVN t) \<and>
    (\<forall>(r, p, v) \<in> set cs. v div 2 = vn \<and> 0 \<le> v \<and> v < sum_list (torus_getVCsPerVN t))"
proof -
  have n: "sum_list (torus_getVCsPerVN t) = 2 * num_vns t" using assms(4,5) by (simp add: torus_getVCsPerVN_def sum_list_replicate)
  have v: "v div 2 = vn \<Longrightarrow> 0 \<le> v \<and> v < 2 * num_vns t" for v using assms(4,5) by linarith
  obtain ev where ev: "process_input t g e vn = Inr ev" "ge_vc ev = 2 * vn" using process_input_ok [OF assms(1-3), of g vn torus_direction] .
  obtain cs r ev' where tr: "travel torus_route_packet True t port ev = Some (Inr (cs, r, ev'))" "\<forall>(r, p, v) \<in> set cs. v div 2 = vn"
    using torus.delivers [OF assms(1-3), of g vn] ev(1) by (auto simp: torus_route_packet_def)
  have "\<forall>(r, p, w) \<in> set cs. w div 2 = vn \<and> 0 \<le> w \<and> w < sum_list (torus_getVCsPerVN t)"
    unfolding n using tr(2) v by blast
  then show ?thesis using ev tr(1) n assms(5) by simp
qed

text \<open>One hop through a mesh, with the channel it takes.\<close>

lemma mesh_hop:
  assumes ok: "grid_ok t" and rg: "in_range (dim_size t) (dest_loc ev)" and ne: "id_loc t \<noteq> dest_loc ev"
    and below: "\<forall>i < routing_dim ev. id_loc t ! i = dest_loc ev ! i"
    and dest: "0 \<le> ge_dest ev" "ge_dest ev div num_local_ports t = locToId (dim_size t) (dest_loc ev)"
  obtains d ev1 port1 where "routing_dim ev \<le> d" "d < dimensions t" "\<forall>i < d. id_loc t ! i = dest_loc ev ! i" "id_loc t ! d \<noteq> dest_loc ev ! d"
    "mesh_route_packet t port (ge_vc ev) ev = Inr ev1" "ge_next_port ev1 < local_port_start t" "port1 < local_port_start t"
    "wire_port False t (ge_next_port ev1) =
       Some (router_at t ((id_loc t)[d := if id_loc t ! d < dest_loc ev ! d then id_loc t ! d + 1 else id_loc t ! d - 1]), port1)"
    "ge_vc ev1 = (if id_loc t ! d = 0 \<and> port < local_port_start t then ge_vc ev XOR 1 else if d = routing_dim ev then ge_vc ev else ge_vc ev AND NOT 1)"
    "routing_dim ev1 = d" "dest_loc ev1 = dest_loc ev" "ge_dest ev1 = ge_dest ev"
proof -
  have lens: "length (id_loc t) = dimensions t" "length (dest_loc ev) = dimensions t" "in_range (dim_size t) (id_loc t)"
    using ok rg by (auto simp: grid_ok_def dest: in_range_length)
  obtain d where d: "routing_dim ev \<le> d" "d < dimensions t" "\<forall>i. routing_dim ev \<le> i \<and> i < d \<longrightarrow> dest_loc ev ! i = id_loc t ! i"
      "dest_loc ev ! d \<noteq> id_loc t ! d"
    using first_difference [OF _ ne below] lens by metis
  let ?x = "id_loc t ! d" and ?y = "dest_loc ev ! d" and ?s = "dim_size t ! d"
  have b: "0 \<le> ?x" "?x < ?s" "0 \<le> ?y" "?y < ?s" using in_range_nth [OF lens(3) d(2)] in_range_nth [OF rg d(2)] by auto
  have mv: "move ?s (?x < ?y) ?x = (if ?x < ?y then ?x + 1 else ?x - 1)" using move_cases [OF b(1,2)] b d(4) by auto
  have link: "False \<or> (if ?x < ?y then ?x + 1 < ?s else 0 < ?x)" using b d(4) by auto
  obtain k port1 where p: "choose_multipath ((if ?x < ?y then fst else snd) (port_start t ! d)) (dim_width t ! d) \<bar>?x - ?y\<bar> < local_port_start t"
      "port1 < local_port_start t"
      "wire_port False t (choose_multipath ((if ?x < ?y then fst else snd) (port_start t ! d)) (dim_width t ! d) \<bar>?x - ?y\<bar>) =
         Some (router_at t ((id_loc t)[d := if ?x < ?y then ?x + 1 else ?x - 1]), port1)"
    using leaves_on [OF ok d(2) abs_ge_zero link, of "?x - ?y"] unfolding mv by blast
  have "router_id t \<noteq> locToId (dim_size t) (dest_loc ev)" using ok ne rg locToId_inj by (metis grid_ok_def)
  moreover have "get_dest_router t (ge_dest ev) = Inr (locToId (dim_size t) (dest_loc ev))"
    using ok dest by (simp add: get_dest_router_def sdiv_nonneg grid_ok_def)
  ultimately have "mesh_route_packet t port (ge_vc ev) ev = Inr (route_loop mesh_direction t port (ge_vc ev) (routing_dim ev) ev)"
    by (simp add: mesh_route_packet_def grid_route_def)
  moreover have "\<forall>i < d. id_loc t ! i = dest_loc ev ! i" using d(3) below by (metis not_less)
  ultimately show thesis
    using that [OF d(1,2) _ d(4) [symmetric], of _ port1] p route_loop_turn [OF d refl, of mesh_direction port "ge_vc ev"]
    by (simp add: mesh_direction_def Let_def)
qed

text \<open>
  The odd channels on a way through a mesh: the toggle, meant for a dateline, happens where the
  packet turns into a dimension at coordinate 0.
\<close>

lemma mesh_odd_channels:
  assumes "travel mesh_route_packet False t port ev = Some (Inr (cs, r, ev'))" and "grid_ok t" and "in_range (dim_size t) (dest_loc ev)"
    and "\<forall>i < routing_dim ev. id_loc t ! i = dest_loc ev ! i" and "even (ge_vc ev)"
    and "0 \<le> ge_dest ev" and "ge_dest ev div num_local_ports t = locToId (dim_size t) (dest_loc ev)"
    and "port < local_port_start t \<and> id_loc t ! routing_dim ev = 0 \<longrightarrow> dest_loc ev ! routing_dim ev = 0"
  shows "(\<exists>(r, p, v) \<in> set cs. odd v) \<longleftrightarrow>
    (\<exists>d < dimensions t. id_loc t ! d = 0 \<and> dest_loc ev ! d \<noteq> 0 \<and> (port < local_port_start t \<or> (\<exists>i < d. id_loc t ! i \<noteq> dest_loc ev ! i)))"
  using assms
proof (induction cs arbitrary: t port ev)
  case Nil
  have "id_loc t = dest_loc ev"
  proof (rule ccontr)
    assume "id_loc t \<noteq> dest_loc ev"
    then obtain ev1 t1 port1 where h: "mesh_route_packet t port (ge_vc ev) ev = Inr ev1" "ge_next_port ev1 < local_port_start t"
        "wire_port False t (ge_next_port ev1) = Some (t1, port1)"
      using mesh_hop [OF Nil.prems(2,3) _ Nil.prems(4,6,7), of port] by metis
    have "(case z of Inl e \<Rightarrow> Some (Inl e) | Inr (cs, x) \<Rightarrow> Some (Inr ((router_id t, ge_next_port ev1, ge_vc ev1) # cs, x))) \<noteq> Some (Inr ([], r, ev'))" for z
      by (auto split: sum.splits)
    then show False using Nil.prems(1) h by (subst (asm) travel.simps) (auto simp: bind_eq_Some_conv)
  qed
  then show ?case by auto
next
  case (Cons c cs)
  note trav = Cons.prems(1)
  let ?x = "\<lambda>i. id_loc t ! i" and ?y = "\<lambda>i. dest_loc ev ! i"
  have ne: "id_loc t \<noteq> dest_loc ev"
  proof
    assume e: "id_loc t = dest_loc ev"
    have "grid_route mesh_direction t port (ge_vc ev) ev = Inr (ev\<lparr>ge_next_port := local_port_start t + ge_dest ev mod num_local_ports t\<rparr>)"
      using Cons.prems(2,6,7) e by (simp add: grid_ok_def grid_route_def get_dest_router_def get_dest_local_port_def sdiv_nonneg smod_nonneg)
    then show False using trav Cons.prems(2) by (subst (asm) travel.simps) (simp add: mesh_route_packet_def grid_ok_def)
  qed
  obtain d ev1 port1 where h: "routing_dim ev \<le> d" "d < dimensions t" "\<forall>i < d. ?x i = ?y i" "?x d \<noteq> ?y d"
    "mesh_route_packet t port (ge_vc ev) ev = Inr ev1" "ge_next_port ev1 < local_port_start t" "port1 < local_port_start t"
    "wire_port False t (ge_next_port ev1) = Some (router_at t ((id_loc t)[d := if ?x d < ?y d then ?x d + 1 else ?x d - 1]), port1)"
    "ge_vc ev1 = (if ?x d = 0 \<and> port < local_port_start t then ge_vc ev XOR 1 else if d = routing_dim ev then ge_vc ev else ge_vc ev AND NOT 1)"
    "routing_dim ev1 = d" "dest_loc ev1 = dest_loc ev" "ge_dest ev1 = ge_dest ev"
    using mesh_hop [OF Cons.prems(2,3) ne Cons.prems(4,6,7), of port] by blast
  define x1 where "x1 = (if ?x d < ?y d then ?x d + 1 else ?x d - 1)"
  let ?t = "router_at t ((id_loc t)[d := x1])"
  obtain z where z: "travel mesh_route_packet False ?t port1 ev1 = Some z" "(case z of Inl e \<Rightarrow> Some (Inl e) | Inr (cs, x) \<Rightarrow>
      Some (Inr ((router_id t, ge_next_port ev1, ge_vc ev1) # cs, x))) = Some (Inr (c # cs, r, ev'))"
    using trav h(5,6,8) unfolding x1_def [symmetric] by (subst (asm) travel.simps) (simp add: bind_eq_Some_conv, blast)
  then have c: "c = (router_id t, ge_next_port ev1, ge_vc ev1)" and rest: "travel mesh_route_packet False ?t port1 ev1 = Some (Inr (cs, r, ev'))"
    by (cases z; auto)+
  have len: "length (id_loc t) = dimensions t" "in_range (dim_size t) (id_loc t)" using Cons.prems(2) by (auto simp: grid_ok_def dest: in_range_length)
  have b: "0 \<le> ?x d" "?x d < dim_size t ! d" "0 \<le> ?y d" "?y d < dim_size t ! d"
    using in_range_nth [OF len(2) h(2)] in_range_nth [OF Cons.prems(3) h(2)] by auto
  show ?case
  proof (cases "?x d = 0 \<and> port < local_port_start t")
    case True
    then have "odd (ge_vc ev1)" using h(9) Cons.prems(5) vc_toggle(2) [of "ge_vc ev"] by (simp add: odd_iff_mod_2_eq_one even_iff_mod_2_eq_zero)
    then show ?thesis using True h(2,4) c by (auto intro!: exI [of _ d])
  next
    case False
    then have ev1: "even (ge_vc ev1)" using h(9) Cons.prems(5) vc_reset(2) [of "ge_vc ev"] by (auto simp: even_iff_mod_2_eq_zero)
    have x1: "x1 = 0 \<longrightarrow> ?y d = 0" and rg: "in_range (dim_size t) ((id_loc t)[d := x1])"
      using b h(4) in_range_update [OF len(2) h(2), of x1] by (auto simp: x1_def split: if_splits)
    have x: "(id_loc t)[d := x1] ! i = (if i = d then x1 else ?x i)" if "i < dimensions t" for i using that len by (simp add: nth_list_update)
    have "(\<exists>(r, p, v) \<in> set cs. odd v) \<longleftrightarrow> (\<exists>i < dimensions t. (id_loc t)[d := x1] ! i = 0 \<and> ?y i \<noteq> 0)"
      using Cons.IH [OF rest grid_ok_router_at [OF Cons.prems(2) rg]] Cons.prems(3,6,7) h(2,3,7,10-12) ev1 x1 len by auto
    also have "\<dots> \<longleftrightarrow> (\<exists>i < dimensions t. ?x i = 0 \<and> ?y i \<noteq> 0 \<and> (port < local_port_start t \<or> (\<exists>j < i. ?x j \<noteq> ?y j)))"
      using x x1 h(2-4) False by (metis linorder_neqE_nat)
    finally show ?thesis using ev1 c by auto
  qed
qed

text \<open>
  C39 A mesh uses virtual channels that do not exist. \<open>getVCsPerVN\<close> reports one channel per virtual
  network, but \<open>process_input\<close> numbers two per network and \<open>route_packet\<close> toggles at coordinate 0 as
  if there were a dateline. Exactly: a packet of network \<open>vn\<close> is sent on a channel beyond the last
  one if and only if it leaves its router and \<open>2 * vn\<close> is not below the number of networks, or it
  is of the middle network of an odd number and its way turns, at coordinate 0, into a dimension
  after its first. With two networks the second is affected and the first is not.
\<close>
theorem mesh_vc_out_of_range:
  assumes "grid_ok t" and "endpoint t e" and "local_port_start t \<le> port" and "0 \<le> vn" and "vn < num_vns t"
  defines "y \<equiv> digits (dim_size t) (e div num_local_ports t)"
  shows "\<exists>ev cs ev'. process_input t g e vn = Inr ev \<and>
    travel mesh_route_packet False t port ev = Some (Inr (cs, e div num_local_ports t, ev')) \<and>
    ((\<exists>(r, p, v) \<in> set cs. sum_list (mesh_getVCsPerVN t) \<le> v) \<longleftrightarrow>
       num_vns t \<le> 2 * vn \<and> id_loc t \<noteq> y \<or>
       num_vns t = 2 * vn + 1 \<and> (\<exists>d < dimensions t. id_loc t ! d = 0 \<and> y ! d \<noteq> 0 \<and> (\<exists>i < d. id_loc t ! i \<noteq> y ! i)))"
proof -
  have s: "\<forall>s \<in> set (dim_size t). 0 < s" "dim_size t \<noteq> []" using assms(1) by (simp_all add: grid_ok_def)
  obtain ev where ev: "process_input t g e vn = Inr ev" "on_way mesh_direction t port ev (-1, 0, 0)" "ge_vc ev = 2 * vn" "ge_dest ev = e" "dest_loc ev = y"
    using process_input_ok [OF assms(1-3)] unfolding y_def by blast
  obtain cs ev' where tr: "travel mesh_route_packet False t port ev = Some (Inr (cs, e div num_local_ports t, ev'))"
      "int (length cs) = (\<Sum>i < dimensions t. \<bar>id_loc t ! i - y ! i\<bar>)" "\<forall>(r, p, v) \<in> set cs. v div 2 = vn"
    using mesh.delivers [OF assms(1-3), of g vn] ev(1) by (auto simp: mesh_route_packet_def route_length_def dist_left_mesh y_def)
  have y: "in_range (dim_size t) y" "locToId (dim_size t) y = e div num_local_ports t"
    unfolding y_def using digits_in_range [OF s(1)] locToId_digits [OF s(1) endpoint_router [OF assms(1,2)]] by simp_all
  have len: "length (id_loc t) = dimensions t" "length y = dimensions t" using assms(1) y(1) by (auto simp: grid_ok_def dest: in_range_length)
  have n: "sum_list (mesh_getVCsPerVN t) = num_vns t" using assms(4,5) by (simp add: mesh_getVCsPerVN_def sum_list_replicate)
  have odd: "(\<exists>(r, p, v) \<in> set cs. odd v) \<longleftrightarrow> (\<exists>d < dimensions t. id_loc t ! d = 0 \<and> y ! d \<noteq> 0 \<and> (\<exists>i < d. id_loc t ! i \<noteq> y ! i))"
    using mesh_odd_channels [OF tr(1) assms(1)] ev(2-5) y assms(2,3) by (auto simp: on_way_def Let_def endpoint_def)
  have ne: "cs \<noteq> [] \<longleftrightarrow> id_loc t \<noteq> y"
  proof -
    have "cs = [] \<longleftrightarrow> (\<forall>i < dimensions t. id_loc t ! i = y ! i)"
      using tr(2) sum_nonneg_eq_0_iff [of "{..<dimensions t}" "\<lambda>i. \<bar>id_loc t ! i - y ! i\<bar>"] by (cases cs) auto
    then show ?thesis using len by (metis nth_equalityI)
  qed
  have v: "v = 2 * vn \<or> v = 2 * vn + 1" if "(r, p, v) \<in> set cs" for r p v using tr(3) that by fastforce
  consider "num_vns t \<le> 2 * vn" | "num_vns t = 2 * vn + 1" | "2 * vn + 1 < num_vns t" by linarith
  then have "(\<exists>(r, p, v) \<in> set cs. num_vns t \<le> v) \<longleftrightarrow> num_vns t \<le> 2 * vn \<and> cs \<noteq> [] \<or> num_vns t = 2 * vn + 1 \<and> (\<exists>(r, p, v) \<in> set cs. odd v)"
  proof cases
    case 1
    then show ?thesis using v by (cases cs) force+
  next
    case 2
    then show ?thesis using v by fastforce
  next
    case 3
    then show ?thesis using v by fastforce
  qed
  then show ?thesis using ev(1) tr(1) unfolding n odd ne by blast
qed

section \<open>Concrete instances\<close>

definition demo_torus :: Grid where
  "demo_torus = \<lparr>router_id = 5, id_loc = [2, 1], dim_size = [3, 4], dim_width = [1, 2], port_start = [(0, 1), (2, 4)],
     num_local_ports = 2, local_port_start = 6, num_vns = 2\<rparr>"

lemma demo_torus_ok: "grid_ok demo_torus" "endpoint demo_torus 19"
  by code_simp+

definition demo_packet :: GridEvent where
  "demo_packet = \<lparr>ge_dest = 0, ge_vn = 0, ge_vc = 0, ge_next_port = 0, ge_src = 0, ge_flits = 1, ge_bits = 64, ge_credit_vc = 0,
     routing_dim = 0, dest_loc = [], ge_phase = 0\<rparr>"

theorem torus_delivers_witness:
  "\<exists>ev cs ev'. process_input demo_torus demo_packet 19 1 = Inr ev \<and> travel torus_route_packet True demo_torus 6 ev = Some (Inr (cs, 9, ev')) \<and>
     length cs = 3"
proof -
  have "local_port_start demo_torus \<le> 6" by (simp add: demo_torus_def)
  from torus_delivers [OF demo_torus_ok this, of demo_packet 1] show ?thesis
    by (force simp: demo_torus_def numeral_2_eq_2 lessThan_Suc)
qed

theorem mesh_delivers_witness:
  "\<exists>ev cs ev'. process_input demo_torus demo_packet 19 1 = Inr ev \<and> travel mesh_route_packet False demo_torus 6 ev = Some (Inr (cs, 9, ev')) \<and>
     length cs = 4"
proof -
  have "local_port_start demo_torus \<le> 6" by (simp add: demo_torus_def)
  from mesh_delivers [OF demo_torus_ok this, of demo_packet 1] show ?thesis
    by (force simp: demo_torus_def numeral_2_eq_2 lessThan_Suc)
qed

theorem torus_deadlock_free_witness: "acyclic (channel_deps torus_route_packet True demo_torus)"
  using torus_deadlock_free [OF demo_torus_ok(1)] .

theorem torus_vc_in_range_witness:
  "\<exists>ev cs r ev'. process_input demo_torus demo_packet 19 1 = Inr ev \<and> travel torus_route_packet True demo_torus 6 ev = Some (Inr (cs, r, ev')) \<and>
    (\<forall>(r, p, v) \<in> set cs. v div 2 = 1 \<and> 0 \<le> v \<and> v < 4)"
proof -
  have "local_port_start demo_torus \<le> 6" "1 < num_vns demo_torus" "sum_list (torus_getVCsPerVN demo_torus) = 4"
    by (simp_all add: demo_torus_def torus_getVCsPerVN_def sum_list_replicate)
  with torus_vc_in_range [OF demo_torus_ok, of 6 1 demo_packet] show ?thesis by fastforce
qed

text \<open>
  A 2 by 2 mesh with one network: a packet from the router at \<open>[1, 0]\<close> to that at \<open>[0, 1]\<close> turns at
  coordinate 0; with two networks every packet of the second one is affected.
\<close>

definition demo_mesh :: "int \<Rightarrow> Grid" where
  "demo_mesh vns = \<lparr>router_id = 1, id_loc = [1, 0], dim_size = [2, 2], dim_width = [1, 1], port_start = [(0, 1), (2, 3)],
     num_local_ports = 1, local_port_start = 4, num_vns = vns\<rparr>"

theorem mesh_vc_out_of_range_witness:
  "\<exists>ev cs ev' ev1 cs1 ev1'. process_input (demo_mesh 1) demo_packet 2 0 = Inr ev \<and>
     travel mesh_route_packet False (demo_mesh 1) 4 ev = Some (Inr (cs, 2, ev')) \<and> (\<exists>(r, p, v) \<in> set cs. 1 \<le> v) \<and>
     process_input (demo_mesh 2) demo_packet 2 0 = Inr ev1 \<and>
     travel mesh_route_packet False (demo_mesh 2) 4 ev1 = Some (Inr (cs1, 2, ev1')) \<and> \<not> (\<exists>(r, p, v) \<in> set cs1. 2 \<le> v)"
proof -
  have ok: "grid_ok (demo_mesh v)" "endpoint (demo_mesh v) 2" "local_port_start (demo_mesh v) \<le> 4" for v
    by (simp_all add: demo_mesh_def grid_ok_def endpoint_def in_range_def less_2_cases_iff numeral_2_eq_2)
  have y: "digits (dim_size (demo_mesh v)) 2 = [0, 1]" for v by (simp add: demo_mesh_def)
  have n: "num_vns (demo_mesh v) = v" "sum_list (mesh_getVCsPerVN (demo_mesh 1)) = 1" "sum_list (mesh_getVCsPerVN (demo_mesh 2)) = 2" for v
    by (simp_all add: demo_mesh_def mesh_getVCsPerVN_def sum_list_replicate)
  have r: "2 div num_local_ports (demo_mesh v) = 2" for v by (simp add: demo_mesh_def)
  have turn: "\<exists>d < dimensions (demo_mesh 1). id_loc (demo_mesh 1) ! d = 0 \<and> [0, 1 :: int] ! d \<noteq> 0 \<and> (\<exists>i < d. id_loc (demo_mesh 1) ! i \<noteq> [0, 1] ! i)"
    by (intro exI [of _ 1] conjI exI [of _ 0]) (simp_all add: demo_mesh_def)
  have 1: "\<exists>ev cs ev'. process_input (demo_mesh 1) demo_packet 2 0 = Inr ev \<and>
      travel mesh_route_packet False (demo_mesh 1) 4 ev = Some (Inr (cs, 2, ev')) \<and> (\<exists>(r, p, v) \<in> set cs. 1 \<le> v)"
    using mesh_vc_out_of_range [OF ok, of 0 1 demo_packet] turn unfolding r y n by simp
  have 2: "\<exists>ev cs ev'. process_input (demo_mesh 2) demo_packet 2 0 = Inr ev \<and>
      travel mesh_route_packet False (demo_mesh 2) 4 ev = Some (Inr (cs, 2, ev')) \<and> \<not> (\<exists>(r, p, v) \<in> set cs. 2 \<le> v)"
    using mesh_vc_out_of_range [OF ok, of 0 2 demo_packet] unfolding r y n by simp
  show ?thesis using 1 2 by blast
qed

end
