(* ===== verification/Merlin_GridNet.thy ===== *)
theory Merlin_GridNet
  imports Merlin_GridRoute
begin

text \<open>
  The grid as a whole: what the constructor builds from the strings of the configuration, and the
  broadcasts of the untimed phases, which reach every router and endpoint exactly once.
\<close>

section \<open>Copies of a broadcast\<close>

text \<open>
  A broadcast starts at a port of a router and spreads along the output ports. A copy is known by
  the ports it took: \<open>copy \<dots> ps t port ev\<close> holds when the copy that took \<open>ps\<close> arrives as \<open>ev\<close> at
  router \<open>t\<close> on \<open>port\<close>.
\<close>

inductive copy :: "(Grid \<Rightarrow> int \<Rightarrow> GridEvent \<Rightarrow> (GridEvent \<times> int list) res) \<Rightarrow> bool \<Rightarrow> Grid \<Rightarrow> int \<Rightarrow> GridEvent \<Rightarrow>
    int list \<Rightarrow> Grid \<Rightarrow> int \<Rightarrow> GridEvent \<Rightarrow> bool" for route wrap t0 port0 ev0 where
  start: "copy route wrap t0 port0 ev0 [] t0 port0 ev0"
| onward: "copy route wrap t0 port0 ev0 ps t port ev \<Longrightarrow> route t port ev = Inr (ev', outs) \<Longrightarrow> p \<in> set outs \<Longrightarrow>
    p < local_port_start t \<Longrightarrow> wire_port wrap t p = Some (t', port') \<Longrightarrow> copy route wrap t0 port0 ev0 (ps @ [p]) t' port' ev'"

text \<open>
  The way to the router \<open>ks\<close> steps from the source: all steps of the first dimension first, then
  those of the second, and so on.
\<close>

definition flood_path :: "Grid \<Rightarrow> int list \<Rightarrow> int list" where
  "flood_path t ks = concat (map (\<lambda>d. replicate (nat (ks ! d)) (fst (port_start t ! d))) [0..<dimensions t])"

definition shift :: "int list \<Rightarrow> int list \<Rightarrow> int list \<Rightarrow> int list" where
  "shift ss src ks = map (\<lambda>i. (src ! i + ks ! i) mod ss ! i) [0..<length ss]"

lemma shift_nth [simp]: "i < length ss \<Longrightarrow> shift ss src ks ! i = (src ! i + ks ! i) mod ss ! i" and shift_length [simp]: "length (shift ss src ks) = length ss"
  by (simp_all add: shift_def)

lemma shift_in_range: "\<forall>s \<in> set ss. 0 < s \<Longrightarrow> in_range ss (shift ss src ks)"
  by (simp add: in_range_def list_all2_conv_all_nth)

lemma shift_inj:
  assumes "in_range ss ks" "in_range ss ks'" "shift ss src ks = shift ss src ks'" shows "ks = ks'"
proof (rule nth_equalityI)
  show len: "length ks = length ks'" using assms in_range_length by metis
  fix i assume "i < length ks"
  then have i: "i < length ss" using assms(1) in_range_length by metis
  then have "(src ! i + ks ! i) mod ss ! i = (src ! i + ks' ! i) mod ss ! i" using arg_cong [OF assms(3), of "\<lambda>l. l ! i"] by simp
  then have "(ks ! i) mod ss ! i = (ks' ! i) mod ss ! i" by (metis add_diff_cancel_left' mod_diff_left_eq)
  then show "ks ! i = ks' ! i" using in_range_nth [OF assms(1) i] in_range_nth [OF assms(2) i] by (simp add: mod_pos_pos_trivial)
qed

lemma shift_onto:
  assumes "in_range ss l" obtains ks where "in_range ss ks" "shift ss src ks = l"
proof (rule that [of "map (\<lambda>i. (l ! i - src ! i) mod ss ! i) [0..<length ss]"])
  have s: "0 \<le> l ! i" "l ! i < ss ! i" if "i < length ss" for i using in_range_nth [OF assms that] by auto
  then have "0 < ss ! i" if "i < length ss" for i using that by fastforce
  then show "in_range ss (map (\<lambda>i. (l ! i - src ! i) mod ss ! i) [0..<length ss])" by (simp add: in_range_def list_all2_conv_all_nth)
  show "shift ss src (map (\<lambda>i. (l ! i - src ! i) mod ss ! i) [0..<length ss]) = l"
    using s in_range_length [OF assms] by (intro nth_equalityI) (simp_all add: mod_simps mod_pos_pos_trivial)
qed

lemma shift_move:
  assumes "d < length ss" "length ks = length ss"
  shows "shift ss src (ks[d := ks ! d + 1]) = (shift ss src ks)[d := move (ss ! d) True (shift ss src ks ! d)]"
  using assms by (intro nth_equalityI) (auto simp: nth_list_update move_def mod_simps algebra_simps)

lemma flood_path_snoc:
  assumes "d < dimensions t" "length ks = dimensions t" "0 \<le> ks ! d" "\<forall>i. d < i \<and> i < dimensions t \<longrightarrow> ks ! i = 0"
  shows "flood_path t (ks[d := ks ! d + 1]) = flood_path t ks @ [fst (port_start t ! d)]"
proof -
  define f where "f ks d = replicate (nat (ks ! d)) (fst (port_start t ! d))" for ks d
  let ?ks = "ks[d := ks ! d + 1]"
  have split: "[0..<dimensions t] = [0..<d] @ d # [Suc d..<dimensions t]"
    using assms(1) upt_add_eq_append [of 0 d "dimensions t - d"] by (simp add: upt_conv_Cons)
  have "concat (map (f ks) [Suc d..<dimensions t]) = []" "concat (map (f ?ks) [Suc d..<dimensions t]) = []"
    using assms(4) by (auto simp: f_def)
  moreover have "map (f ?ks) [0..<d] = map (f ks) [0..<d]" by (simp add: f_def)
  moreover have "f ?ks d = f ks d @ [fst (port_start t ! d)]"
    using assms(1-3) by (simp add: f_def nat_add_distrib replicate_append_same)
  ultimately show ?thesis unfolding flood_path_def f_def [symmetric] split by (simp del: concat_eq_Nil_conv map_eq_conv)
qed

lemma flood_path_nonempty: "d < dimensions t \<Longrightarrow> 0 < ks ! d \<Longrightarrow> flood_path t ks \<noteq> []"
  by (force simp: flood_path_def)

lemma flood_path_zero: "\<forall>i < dimensions t. ks ! i = 0 \<Longrightarrow> flood_path t ks = []"
  by (simp add: flood_path_def)

text \<open>Where a copy that has gone \<open>ks\<close> steps is: the last dimension it moved in is that of its port.\<close>

definition flooded :: "Grid \<Rightarrow> int list \<Rightarrow> int \<Rightarrow> int list \<Rightarrow> Grid \<Rightarrow> int \<Rightarrow> bool" where
  "flooded t0 src port0 ks t port \<longleftrightarrow> in_range (dim_size t0) ks \<and> t = router_at t0 (shift (dim_size t0) src ks) \<and>
     ((\<forall>i < dimensions t0. ks ! i = 0) \<and> port = port0 \<or>
      (\<exists>d < dimensions t0. 0 < ks ! d \<and> (\<forall>i. d < i \<and> i < dimensions t0 \<longrightarrow> ks ! i = 0) \<and> port = snd (port_start t0 ! d)))"

text \<open>The dimensions a copy is sent on in: those from its last one on that are not at their end.\<close>

definition sends_on :: "Grid \<Rightarrow> int list \<Rightarrow> nat \<Rightarrow> bool" where
  "sends_on t0 ks d \<longleftrightarrow> d < dimensions t0 \<and> (\<forall>i. d < i \<and> i < dimensions t0 \<longrightarrow> ks ! i = 0) \<and> ks ! d + 1 < dim_size t0 ! d"

definition spreads :: "(Grid \<Rightarrow> int \<Rightarrow> GridEvent \<Rightarrow> (GridEvent \<times> int list) res) \<Rightarrow> Grid \<Rightarrow> int list \<Rightarrow> int \<Rightarrow>
    (int list \<Rightarrow> GridEvent \<Rightarrow> bool) \<Rightarrow> bool" where
  "spreads route t0 src port0 good \<longleftrightarrow> (\<forall>ks t port ev. flooded t0 src port0 ks t port \<and> good ks ev \<longrightarrow>
     (\<exists>ev' outs. route t port ev = Inr (ev', outs) \<and> (\<forall>d. sends_on t0 ks d \<longrightarrow> good (ks[d := ks ! d + 1]) ev') \<and>
       (\<forall>p. p \<in> set outs \<and> p < local_port_start t0 \<longleftrightarrow> (\<exists>d. sends_on t0 ks d \<and> p = fst (port_start t0 ! d))) \<and>
       (\<forall>q. local_port_start t0 \<le> q \<longrightarrow> q \<in> set outs \<longleftrightarrow> q < local_port_start t0 + num_local_ports t0 \<and> q \<noteq> port)))"

lemma first_link:
  assumes "grid_ok t" "d < dimensions t"
  shows "port_dim 0 0 (dim_width t) (fst (port_start t ! d)) = Some (d, True, 0)"
    and "fst (port_start t ! d) < local_port_start t" "snd (port_start t ! d) < local_port_start t"
proof -
  have w: "\<forall>w \<in> set (dim_width t). 0 < w" "d < length (dim_width t)" "0 < dim_width t ! d"
    and ps: "port_start t = port_starts 0 (dim_width t)" "local_port_start t = sum_list (map (\<lambda>w. 2 * w) (dim_width t))"
    using assms by (auto simp: grid_ok_def)
  show "port_dim 0 0 (dim_width t) (fst (port_start t ! d)) = Some (d, True, 0)"
    using port_dim_starts [OF w(1,2), of 0 0 0] w(3) by (simp add: ps)
  show "fst (port_start t ! d) < local_port_start t" "snd (port_start t ! d) < local_port_start t"
    using port_starts_bounds [OF w(1,2), of 0] w(3) unfolding ps by linarith+
qed

lemma flooded_onward:
  assumes "grid_ok t0" "flooded t0 src port0 ks t port" "sends_on t0 ks d" "wrap \<or> (\<forall>i < dimensions t0. src ! i = 0)"
  shows "\<exists>t' port'. wire_port wrap t (fst (port_start t0 ! d)) = Some (t', port') \<and> flooded t0 src port0 (ks[d := ks ! d + 1]) t' port'"
    and "flood_path t0 (ks[d := ks ! d + 1]) = flood_path t0 ks @ [fst (port_start t0 ! d)]"
proof -
  have d: "d < dimensions t0" "\<forall>i. d < i \<and> i < dimensions t0 \<longrightarrow> ks ! i = 0" "ks ! d + 1 < dim_size t0 ! d"
    using assms(3) by (simp_all add: sends_on_def)
  have ks: "in_range (dim_size t0) ks" "length ks = dimensions t0" "t = router_at t0 (shift (dim_size t0) src ks)"
    using assms(2) in_range_length by (auto simp: flooded_def)
  have k: "0 \<le> ks ! d" "ks ! d < dim_size t0 ! d" using in_range_nth [OF ks(1) d(1)] by auto
  show "flood_path t0 (ks[d := ks ! d + 1]) = flood_path t0 ks @ [fst (port_start t0 ! d)]"
    using flood_path_snoc [OF d(1) ks(2) k(1) d(2)] .
  have "\<not> wrap \<Longrightarrow> shift (dim_size t0) src ks ! d = ks ! d" using assms(4) d(1) k by (simp add: mod_pos_pos_trivial)
  then have "wire_port wrap t (fst (port_start t0 ! d)) =
      Some (router_at t0 (shift (dim_size t0) src (ks[d := ks ! d + 1])), snd (port_start t0 ! d))"
    using first_link(1) [OF assms(1) d(1)] d(3) shift_move [OF d(1) ks(2), of src]
    by (cases wrap) (simp_all add: wire_port_def ks(3) router_at_def del: shift_nth)
  moreover have "flooded t0 src port0 (ks[d := ks ! d + 1]) (router_at t0 (shift (dim_size t0) src (ks[d := ks ! d + 1]))) (snd (port_start t0 ! d))"
    using in_range_update [OF ks(1) d(1)] k d ks(2) by (auto simp: flooded_def)
  ultimately show "\<exists>t' port'. wire_port wrap t (fst (port_start t0 ! d)) = Some (t', port') \<and> flooded t0 src port0 (ks[d := ks ! d + 1]) t' port'"
    by blast
qed

lemma copies_flood:
  assumes "grid_ok t0" "spreads route t0 src port0 good" "wrap \<or> (\<forall>i < dimensions t0. src ! i = 0)"
    and "flooded t0 src port0 z t0 port0" "good z ev0" "\<forall>i < dimensions t0. z ! i = 0"
    and "copy route wrap t0 port0 ev0 ps t port ev"
  shows "\<exists>ks. flooded t0 src port0 ks t port \<and> good ks ev \<and> ps = flood_path t0 ks"
  using assms(7)
proof (induction rule: copy.induct)
  case start
  then show ?case using assms(4-6) flood_path_zero by metis
next
  case (onward ps t port ev ev' outs p t' port')
  then obtain ks where ks: "flooded t0 src port0 ks t port" "good ks ev" "ps = flood_path t0 ks" by blast
  have "local_port_start t = local_port_start t0" using ks(1) by (auto simp: flooded_def)
  then obtain d where d: "sends_on t0 ks d" "p = fst (port_start t0 ! d)" "good (ks[d := ks ! d + 1]) ev'"
    using assms(2) [unfolded spreads_def, rule_format, OF conjI, OF ks(1,2)] onward.hyps(2-4) by (auto dest: spec [of _ p])
  show ?case using flooded_onward [OF assms(1) ks(1) d(1) assms(3)] onward.hyps(5) d ks(3) by auto
qed

lemma last_nonzero:
  assumes "\<not> (\<forall>i < n. ks ! i = (0 :: int))"
  obtains d where "d < n" "ks ! d \<noteq> 0" "\<forall>i. d < i \<and> i < n \<longrightarrow> ks ! i = 0"
proof -
  let ?D = "{i. i < n \<and> ks ! i \<noteq> 0}"
  have "finite ?D" "?D \<noteq> {}" using assms by auto
  then have "Max ?D \<in> ?D" "\<forall>i \<in> ?D. i \<le> Max ?D" using Max_in [of ?D] Max_ge [of ?D] by blast+
  then show thesis using that [of "Max ?D"] by (metis (mono_tags, lifting) leD mem_Collect_eq)
qed

lemma sum_list_pos: "\<forall>i < length ks. 0 \<le> ks ! i \<Longrightarrow> d < length ks \<Longrightarrow> 0 < ks ! d \<Longrightarrow> 0 < sum_list (ks :: int list)"
  by (metis in_set_conv_nth member_le_sum_list order_less_le_trans)

lemma sum_list_int_update: "k < length xs \<Longrightarrow> sum_list (xs[k := x]) = sum_list xs + x - (xs ! k :: int)"
  by (induction xs arbitrary: k) (auto split: nat.splits)

lemma flood_reaches:
  assumes "grid_ok t0" "spreads route t0 src port0 good" "wrap \<or> (\<forall>i < dimensions t0. src ! i = 0)"
    and "flooded t0 src port0 z t0 port0" "good z ev0" "\<forall>i < dimensions t0. z ! i = 0" and "in_range (dim_size t0) ks"
  shows "\<exists>t port ev. copy route wrap t0 port0 ev0 (flood_path t0 ks) t port ev \<and> flooded t0 src port0 ks t port \<and> good ks ev"
  using assms(7)
proof (induction "nat (sum_list ks)" arbitrary: ks rule: less_induct)
  case less
  have len: "length ks = dimensions t0" using less.prems in_range_length by metis
  show ?case
  proof (cases "\<forall>i < dimensions t0. ks ! i = 0")
    case True
    have "length z = dimensions t0" using assms(4) in_range_length by (auto simp: flooded_def)
    then have "ks = z" using True assms(6) len by (intro nth_equalityI) auto
    moreover have "copy route wrap t0 port0 ev0 [] t0 port0 ev0" by (rule copy.start)
    ultimately show ?thesis using assms(4,5) flood_path_zero [OF True] by metis
  next
    case False
    then obtain d where d: "d < dimensions t0" "ks ! d \<noteq> 0" "\<forall>i. d < i \<and> i < dimensions t0 \<longrightarrow> ks ! i = 0"
      by (rule last_nonzero)
    let ?ks = "ks[d := ks ! d - 1]"
    have k: "0 < ks ! d" "ks ! d < dim_size t0 ! d" using in_range_nth [OF less.prems d(1)] d(2) by auto
    have s: "in_range (dim_size t0) ?ks" "sends_on t0 ?ks d" "?ks[d := ?ks ! d + 1] = ks"
      using in_range_update [OF less.prems d(1)] k d len by (auto simp: sends_on_def)
    have "sum_list ?ks = sum_list ks - 1" using d(1) len sum_list_int_update [of d ks "ks ! d - 1"] by simp
    moreover have "0 < sum_list ks" using less.prems d(1,2) len k(1) in_range_nth [OF less.prems]
      by (intro sum_list_pos) auto
    ultimately have "nat (sum_list ?ks) < nat (sum_list ks)" by simp
    then obtain t port ev where c: "copy route wrap t0 port0 ev0 (flood_path t0 ?ks) t port ev" "flooded t0 src port0 ?ks t port" "good ?ks ev"
      using less.hyps s(1) by blast
    obtain ev' outs where r: "route t port ev = Inr (ev', outs)" "good ks ev'" "fst (port_start t0 ! d) \<in> set outs"
      using assms(2) c(2,3) s(2,3) unfolding spreads_def by metis
    obtain t' port' where w: "wire_port wrap t (fst (port_start t0 ! d)) = Some (t', port')" "flooded t0 src port0 ks t' port'"
      using flooded_onward(1) [OF assms(1) c(2) s(2) assms(3)] s(3) by auto
    have "local_port_start t = local_port_start t0" using c(2) by (auto simp: flooded_def)
    then have "copy route wrap t0 port0 ev0 (flood_path t0 ?ks @ [fst (port_start t0 ! d)]) t' port' ev'"
      using copy.onward [OF c(1) r(1,3) _ w(1)] first_link(2) [OF assms(1) d(1)] by simp
    then show ?thesis using flooded_onward(2) [OF assms(1) c(2) s(2) assms(3)] s(3) w(2) r(2) by auto
  qed
qed

section \<open>Torus and mesh broadcasts\<close>

lemma inc_dim_neg:
  assumes "grid_ok t" "d < dimensions t" shows "inc_dim t (snd (port_start t ! d)) = d"
proof -
  have w: "\<forall>w \<in> set (dim_width t). 0 < w" "length (dim_width t) = dimensions t" and ps: "port_start t = port_starts 0 (dim_width t)"
    using assms(1) by (simp_all add: grid_ok_def)
  have "port_dim 0 0 (dim_width t) (snd (port_start t ! i)) = Some (i, False, 0)" if "i < dimensions t" for i
    using port_dim_starts [OF w(1), of i 0 0 0] w that by (simp add: ps)
  then have "snd (port_start t ! d) \<noteq> snd (port_start t ! i)" if "i < d" for i using assms(2) that
    by (metis Pair_inject less_not_refl2 less_trans option.inject)
  then have "takeWhile (\<lambda>ps. snd (port_start t ! d) \<noteq> snd ps) (port_start t) = take d (port_start t)"
    by (intro takeWhile_eq_take_P_nth) auto
  then show ?thesis using assms(2) w(2) by (simp add: inc_dim_def ps)
qed

lemma inc_dim_host:
  assumes "grid_ok t" "local_port_start t \<le> port" shows "inc_dim t port = dimensions t"
proof -
  have l: "length (port_start t) = dimensions t" using assms(1) by (simp add: grid_ok_def)
  have "port \<noteq> snd (port_start t ! i)" if "i < dimensions t" for i using first_link(3) [OF assms(1) that] assms(2) by simp
  then have "\<forall>ps \<in> set (port_start t). port \<noteq> snd ps" unfolding all_set_conv_all_nth using l by simp
  then have "takeWhile (\<lambda>ps. port \<noteq> snd ps) (port_start t) = port_start t" by (simp only: takeWhile_eq_all_conv)
  then show ?thesis using l unfolding inc_dim_def by (simp only:)
qed

text \<open>The ports a copy leaves on, from the dimension \<open>i\<close> it came in on.\<close>

lemma out_ports:
  assumes "grid_ok t0" "flooded t0 src port0 ks t port"
    and i: "if \<forall>j < dimensions t0. ks ! j = 0 then i = 0 else i = inc_dim t port"
    and c: "\<forall>d < dimensions t0. c d \<longleftrightarrow> ks ! d + 1 < dim_size t0 ! d"
  defines "outs \<equiv> map (\<lambda>d. fst (port_start t ! d)) (filter c [i..<dimensions t]) @ host_ports t port"
  shows "(\<forall>p. p \<in> set outs \<and> p < local_port_start t0 \<longleftrightarrow> (\<exists>d. sends_on t0 ks d \<and> p = fst (port_start t0 ! d))) \<and>
    (\<forall>q. local_port_start t0 \<le> q \<longrightarrow> q \<in> set outs \<longleftrightarrow> q < local_port_start t0 + num_local_ports t0 \<and> q \<noteq> port)"
proof -
  have t: "port_start t = port_start t0" "dim_size t = dim_size t0" "local_port_start t = local_port_start t0" "num_local_ports t = num_local_ports t0"
    using assms(2) by (auto simp: flooded_def)
  have ok: "grid_ok t" using assms(1,2) shift_in_range grid_ok_router_at by (auto simp: flooded_def grid_ok_def)
  have from_i: "(\<forall>j. d < j \<and> j < dimensions t0 \<longrightarrow> ks ! j = 0) \<longleftrightarrow> i \<le> d" if "d < dimensions t0" for d
  proof (cases "\<forall>j < dimensions t0. ks ! j = 0")
    case False
    then obtain d0 where d0: "d0 < dimensions t0" "0 < ks ! d0" "\<forall>i. d0 < i \<and> i < dimensions t0 \<longrightarrow> ks ! i = 0" "port = snd (port_start t0 ! d0)"
      using assms(2) by (auto simp: flooded_def)
    then have "i = d0" using i False inc_dim_neg [OF ok, of d0] t by auto
    then show ?thesis using d0(1-3) by (metis less_le_not_le linorder_not_le order_le_less_trans)
  qed (use i in auto)
  have h: "q \<in> set (host_ports t port) \<longleftrightarrow> local_port_start t0 \<le> q \<and> q < local_port_start t0 + num_local_ports t0 \<and> q \<noteq> port" for q
  proof -
    have "q \<in> set (host_ports t port) \<longleftrightarrow> q \<noteq> port \<and> (\<exists>k < nat (num_local_ports t0). q = local_port_start t0 + int k)"
      by (auto simp: host_ports_def t)
    also have "\<dots> \<longleftrightarrow> q \<noteq> port \<and> local_port_start t0 \<le> q \<and> q < local_port_start t0 + num_local_ports t0"
      by (auto intro: exI [of _ "nat (q - local_port_start t0)"])
    finally show ?thesis by auto
  qed
  have o: "p \<in> set outs \<longleftrightarrow> (\<exists>d. sends_on t0 ks d \<and> p = fst (port_start t0 ! d)) \<or> p \<in> set (host_ports t port)" for p
    using c from_i by (auto simp: outs_def t sends_on_def)
  have "sends_on t0 ks d \<Longrightarrow> fst (port_start t0 ! d) < local_port_start t0" for d
    using first_link(2) [OF assms(1)] by (simp add: sends_on_def)
  note below = this
  show ?thesis
  proof (intro conjI allI impI)
    fix p show "p \<in> set outs \<and> p < local_port_start t0 \<longleftrightarrow> (\<exists>d. sends_on t0 ks d \<and> p = fst (port_start t0 ! d))"
      using o [of p] h [of p] below by auto
    fix q assume "local_port_start t0 \<le> q"
    then show "q \<in> set outs \<longleftrightarrow> q < local_port_start t0 + num_local_ports t0 \<and> q \<noteq> port"
      using o [of q] h [of q] below by fastforce
  qed
qed

lemma inc_dim_flooded:
  assumes "grid_ok t0" "flooded t0 src port0 ks t port" "local_port_start t0 \<le> port0"
  shows "if \<forall>j < dimensions t0. ks ! j = 0 then inc_dim t port = dimensions t else inc_dim t port < dimensions t"
proof -
  have t: "port_start t = port_start t0" "dim_size t = dim_size t0" "local_port_start t = local_port_start t0"
    using assms(2) by (auto simp: flooded_def)
  have ok: "grid_ok t" using assms(1,2) shift_in_range grid_ok_router_at by (auto simp: flooded_def grid_ok_def)
  from assms(2) consider "\<forall>j < dimensions t0. ks ! j = 0" "port = port0"
    | d where "d < dimensions t0" "0 < ks ! d" "port = snd (port_start t ! d)" by (auto simp: flooded_def)
  then show ?thesis
  proof cases
    case 1
    then show ?thesis using inc_dim_host [OF ok, of port] assms(3) t by simp
  next
    case 2
    then show ?thesis using inc_dim_neg [OF ok, of d] t by auto
  qed
qed

lemma ring_back:
  fixes x k s :: int assumes "0 \<le> x" "x < s" "0 \<le> k" "k < s" shows "((x + k) mod s + 1) smod s = x \<longleftrightarrow> k + 1 = s"
proof -
  have s: "0 < s" "0 \<le> (x + k) mod s + 1" using assms by (auto intro: add_nonneg_nonneg)
  have e: "((x + k) mod s + 1) smod s = (x + (k + 1)) mod s" using s by (simp add: smod_nonneg mod_simps add.assoc)
  have "(x + (k + 1)) mod s = (if x + (k + 1) < s then x + (k + 1) else x + (k + 1) - s)"
    using assms minus_mod_self2 [of "x + (k + 1)" s, symmetric] by (auto simp: mod_pos_pos_trivial simp del: minus_mod_self2)
  then show ?thesis using assms unfolding e by auto
qed

lemma torus_spreads:
  assumes "grid_ok t0" "local_port_start t0 \<le> port0"
  shows "spreads torus_routeUntimedData t0 (id_loc t0) port0 (\<lambda>ks ev. ge_dest ev = UNTIMED_BROADCAST_ADDR \<and> dest_loc ev = id_loc t0)"
  unfolding spreads_def
proof (intro allI impI)
  fix ks t port and ev :: GridEvent
  assume f: "flooded t0 (id_loc t0) port0 ks t port \<and> ge_dest ev = UNTIMED_BROADCAST_ADDR \<and> dest_loc ev = id_loc t0"
  have t: "dim_size t = dim_size t0" "id_loc t = shift (dim_size t0) (id_loc t0) ks" "in_range (dim_size t0) ks" "in_range (dim_size t0) (id_loc t0)"
    using f assms(1) by (auto simp: flooded_def grid_ok_def)
  have ok: "grid_ok t" using assms(1) f shift_in_range grid_ok_router_at by (auto simp: flooded_def grid_ok_def)
  define i where "i = (if dimensions t \<le> inc_dim t port then 0 else inc_dim t port)"
  define c where "c d \<longleftrightarrow> (id_loc t ! d + 1) smod dim_size t ! d \<noteq> dest_loc ev ! d" for d
  have nz: "\<forall>d < dimensions t. dim_size t ! d \<noteq> 0" using ok nth_mem by (fastforce simp: grid_ok_def)
  have r: "torus_routeUntimedData t port ev = Inr (ev, map (\<lambda>d. fst (port_start t ! d)) (filter c [i..<dimensions t]) @ host_ports t port)"
    using f nz by (auto simp: torus_routeUntimedData_def i_def c_def [abs_def] Let_def)
  have i: "if \<forall>j < dimensions t0. ks ! j = 0 then i = 0 else i = inc_dim t port"
    using inc_dim_flooded [OF assms(1) conjunct1 [OF f] assms(2)] by (auto simp: i_def split: if_splits)
  have c: "\<forall>d < dimensions t0. c d \<longleftrightarrow> ks ! d + 1 < dim_size t0 ! d"
  proof (intro allI impI)
    fix d assume d: "d < dimensions t0"
    note k = in_range_nth [OF t(3) d] and x = in_range_nth [OF t(4) d]
    show "c d \<longleftrightarrow> ks ! d + 1 < dim_size t0 ! d" using ring_back [of "id_loc t0 ! d" "dim_size t0 ! d" "ks ! d"] k x f d by (auto simp: c_def t)
  qed
  show "\<exists>ev' outs. torus_routeUntimedData t port ev = Inr (ev', outs) \<and>
      (\<forall>d. sends_on t0 ks d \<longrightarrow> ge_dest ev' = UNTIMED_BROADCAST_ADDR \<and> dest_loc ev' = id_loc t0) \<and>
      (\<forall>p. p \<in> set outs \<and> p < local_port_start t0 \<longleftrightarrow> (\<exists>d. sends_on t0 ks d \<and> p = fst (port_start t0 ! d))) \<and>
      (\<forall>q. local_port_start t0 \<le> q \<longrightarrow> q \<in> set outs \<longleftrightarrow> q < local_port_start t0 + num_local_ports t0 \<and> q \<noteq> port)"
    using r f out_ports [OF assms(1) conjunct1 [OF f] i c] by auto
qed

lemma locToId_zero: "locToId ss (replicate n 0) = 0"
proof (induction ss arbitrary: n)
  case (Cons s ss)
  then show ?case by (cases n) simp_all
qed simp

lemma mesh_spreads:
  assumes "grid_ok t0" "\<forall>i < dimensions t0. id_loc t0 ! i = 0"
  shows "spreads mesh_routeUntimedData t0 (id_loc t0) port0 (\<lambda>ks ev. ge_dest ev = UNTIMED_BROADCAST_ADDR \<and>
      (if \<forall>i < dimensions t0. ks ! i = 0 then ge_phase ev \<in> {0, 1} else ge_phase ev = 2))"
  unfolding spreads_def
proof (intro allI impI)
  fix ks t port and ev :: GridEvent
  assume f: "flooded t0 (id_loc t0) port0 ks t port \<and> ge_dest ev = UNTIMED_BROADCAST_ADDR \<and>
    (if \<forall>i < dimensions t0. ks ! i = 0 then ge_phase ev \<in> {0, 1} else ge_phase ev = 2)"
  have t: "dim_size t = dim_size t0" "id_loc t = shift (dim_size t0) (id_loc t0) ks" "in_range (dim_size t0) ks" using f by (auto simp: flooded_def)
  define i where "i = (if ge_phase ev = 2 then inc_dim t port else 0)"
  define c where "c d \<longleftrightarrow> id_loc t ! d + 1 < dim_size t ! d" for d
  have home: "router_id t = 0" if "\<forall>i < dimensions t0. ks ! i = 0"
  proof -
    have "shift (dim_size t0) (id_loc t0) ks = replicate (dimensions t0) 0" using that assms(2) by (intro nth_equalityI) simp_all
    then show ?thesis using f by (auto simp: flooded_def locToId_zero)
  qed
  have r: "mesh_routeUntimedData t port ev =
      Inr (ev\<lparr>ge_phase := 2\<rparr>, map (\<lambda>d. fst (port_start t ! d)) (filter c [i..<dimensions t]) @ host_ports t port)"
    using f home by (auto simp: mesh_routeUntimedData_def mesh_broadcast_def i_def c_def [abs_def] Let_def split: if_splits)
  have i: "if \<forall>j < dimensions t0. ks ! j = 0 then i = 0 else i = inc_dim t port" using f by (auto simp: i_def)
  have c: "\<forall>d < dimensions t0. c d \<longleftrightarrow> ks ! d + 1 < dim_size t0 ! d"
    using in_range_nth [OF t(3)] assms(2) by (simp add: c_def t mod_pos_pos_trivial)
  have "0 \<le> ks ! d \<Longrightarrow> d < dimensions t0 \<Longrightarrow> \<not> (\<forall>i < dimensions t0. ks[d := ks ! d + 1] ! i = 0)" for d
    using in_range_length [OF t(3)] by auto
  then have g: "\<forall>d. sends_on t0 ks d \<longrightarrow> \<not> (\<forall>i < dimensions t0. ks[d := ks ! d + 1] ! i = 0)"
    using in_range_nth [OF t(3)] by (auto simp: sends_on_def)
  show "\<exists>ev' outs. mesh_routeUntimedData t port ev = Inr (ev', outs) \<and>
      (\<forall>d. sends_on t0 ks d \<longrightarrow> ge_dest ev' = UNTIMED_BROADCAST_ADDR \<and>
        (if \<forall>i < dimensions t0. ks[d := ks ! d + 1] ! i = 0 then ge_phase ev' \<in> {0, 1} else ge_phase ev' = 2)) \<and>
      (\<forall>p. p \<in> set outs \<and> p < local_port_start t0 \<longleftrightarrow> (\<exists>d. sends_on t0 ks d \<and> p = fst (port_start t0 ! d))) \<and>
      (\<forall>q. local_port_start t0 \<le> q \<longrightarrow> q \<in> set outs \<longleftrightarrow> q < local_port_start t0 + num_local_ports t0 \<and> q \<noteq> port)"
    using r g conjunct1 [OF conjunct2 [OF f]] out_ports [OF assms(1) conjunct1 [OF f] i c] by auto
qed

text \<open>A broadcast that spreads reaches every router over exactly one way, and every endpoint but the sender.\<close>

lemma exactly_once:
  assumes "grid_ok t0" "spreads route t0 (id_loc t0) port0 good"
    "wrap \<or> (\<forall>i < dimensions t0. id_loc t0 ! i = 0)" "good (replicate (dimensions t0) 0) ev0"
  shows "in_range (dim_size t0) l \<Longrightarrow> \<exists>!ps. \<exists>port ev. copy route wrap t0 port0 ev0 ps (router_at t0 l) port ev"
    and "copy route wrap t0 port0 ev0 ps t port ev \<Longrightarrow> \<exists>ev' outs. route t port ev = Inr (ev', outs) \<and>
      (\<forall>q. local_port_start t0 \<le> q \<and> q < local_port_start t0 + num_local_ports t0 \<longrightarrow> q \<in> set outs \<longleftrightarrow> \<not> (ps = [] \<and> q = port0))"
proof -
  let ?z = "replicate (dimensions t0) (0 :: int)"
  have ok: "in_range (dim_size t0) (id_loc t0)" "router_id t0 = locToId (dim_size t0) (id_loc t0)" "\<forall>s \<in> set (dim_size t0). 0 < s"
    using assms(1) by (simp_all add: grid_ok_def)
  have "shift (dim_size t0) (id_loc t0) ?z = id_loc t0"
    using in_range_nth [OF ok(1)] in_range_length [OF ok(1)] by (intro nth_equalityI) (simp_all add: mod_pos_pos_trivial)
  then have z: "flooded t0 (id_loc t0) port0 ?z t0 port0"
    using ok by (simp add: flooded_def router_at_def in_range_def list_all2_conv_all_nth)
  have z0: "\<forall>i < dimensions t0. ?z ! i = 0" by simp
  note sound = copies_flood [OF assms(1-3) z assms(4) z0] and complete = flood_reaches [OF assms(1-3) z assms(4) z0]
  show "\<exists>!ps. \<exists>port ev. copy route wrap t0 port0 ev0 ps (router_at t0 l) port ev" if l: "in_range (dim_size t0) l"
  proof -
    obtain ks where ks: "in_range (dim_size t0) ks" "shift (dim_size t0) (id_loc t0) ks = l" using shift_onto [OF l] by metis
    show ?thesis
    proof (rule ex1I [of _ "flood_path t0 ks"])
      show "\<exists>port ev. copy route wrap t0 port0 ev0 (flood_path t0 ks) (router_at t0 l) port ev"
        using complete [OF ks(1)] ks(2) by (auto simp: flooded_def)
      fix ps assume "\<exists>port ev. copy route wrap t0 port0 ev0 ps (router_at t0 l) port ev"
      then obtain port ev ks' where "flooded t0 (id_loc t0) port0 ks' (router_at t0 l) port" "ps = flood_path t0 ks'" using sound by blast
      moreover from this(1) have "in_range (dim_size t0) ks'" "shift (dim_size t0) (id_loc t0) ks' = l"
        by (auto simp: flooded_def dest: arg_cong [of _ _ id_loc])
      ultimately show "ps = flood_path t0 ks" using shift_inj [OF _ ks(1)] ks(2) by metis
    qed
  qed
  show "\<exists>ev' outs. route t port ev = Inr (ev', outs) \<and>
      (\<forall>q. local_port_start t0 \<le> q \<and> q < local_port_start t0 + num_local_ports t0 \<longrightarrow> q \<in> set outs \<longleftrightarrow> \<not> (ps = [] \<and> q = port0))"
    if c: "copy route wrap t0 port0 ev0 ps t port ev"
  proof -
    obtain ks where ks: "flooded t0 (id_loc t0) port0 ks t port" "good ks ev" "ps = flood_path t0 ks" using sound [OF c] by blast
    have "ps = [] \<and> port = port0 \<or> ps \<noteq> [] \<and> port < local_port_start t0"
      using ks(1,3) flood_path_zero [of t0 ks] flood_path_nonempty [of _ t0 ks] first_link(3) [OF assms(1)] by (auto simp: flooded_def)
    then show ?thesis using assms(2) [unfolded spreads_def, rule_format, OF conjI, OF ks(1,2)] by fastforce
  qed
qed

text \<open>
  C37 A broadcast in a torus reaches every router over exactly one way and is handed to every
  endpoint exactly once, the sender excepted, which does not get its own.
\<close>
theorem torus_broadcast_once:
  assumes "grid_ok t" and "local_port_start t \<le> port" and "torus_process_UntimedData_input t g UNTIMED_BROADCAST_ADDR vn = Inr ev"
  shows "(\<forall>l. in_range (dim_size t) l \<longrightarrow> (\<exists>!ps. \<exists>p ev1. copy torus_routeUntimedData True t port ev ps (router_at t l) p ev1)) \<and>
    (\<forall>ps t1 p ev1. copy torus_routeUntimedData True t port ev ps t1 p ev1 \<longrightarrow> (\<exists>ev2 outs. torus_routeUntimedData t1 p ev1 = Inr (ev2, outs) \<and>
      (\<forall>q. local_port_start t \<le> q \<and> q < local_port_start t + num_local_ports t \<longrightarrow> q \<in> set outs \<longleftrightarrow> \<not> (ps = [] \<and> q = port))))"
proof -
  have "ge_dest ev = UNTIMED_BROADCAST_ADDR \<and> dest_loc ev = id_loc t"
    using assms(3) by (auto simp: torus_process_UntimedData_input_def new_grid_event_def)
  note once = exactly_once [OF assms(1) torus_spreads [OF assms(1,2)] _ this, of True]
  then show ?thesis by blast
qed

text \<open>
  A broadcast in a mesh that has arrived at router 0 reaches from there every router over
  exactly one way and is handed to every endpoint exactly once; only the port it arrived on at
  router 0 is left out.
\<close>
theorem mesh_broadcast_once:
  assumes "grid_ok t" and "router_id t = 0" and "ge_dest ev = UNTIMED_BROADCAST_ADDR" and "ge_phase ev = 0"
  shows "(\<forall>l. in_range (dim_size t) l \<longrightarrow> (\<exists>!ps. \<exists>p ev1. copy mesh_routeUntimedData False t port ev ps (router_at t l) p ev1)) \<and>
    (\<forall>ps t1 p ev1. copy mesh_routeUntimedData False t port ev ps t1 p ev1 \<longrightarrow> (\<exists>ev2 outs. mesh_routeUntimedData t1 p ev1 = Inr (ev2, outs) \<and>
      (\<forall>q. local_port_start t \<le> q \<and> q < local_port_start t + num_local_ports t \<longrightarrow> q \<in> set outs \<longleftrightarrow> \<not> (ps = [] \<and> q = port))))"
proof -
  have ok: "in_range (dim_size t) (id_loc t)" "locToId (dim_size t) (id_loc t) = 0" "\<forall>s \<in> set (dim_size t). 0 < s" using assms(1,2) by (simp_all add: grid_ok_def)
  have "in_range (dim_size t) (replicate (dimensions t) 0)" using ok(3) by (simp add: in_range_def list_all2_conv_all_nth)
  then have "id_loc t = replicate (dimensions t) 0" using locToId_inj [OF ok(1)] ok(2) locToId_zero by metis
  then have home: "\<forall>i < dimensions t. id_loc t ! i = 0" by (metis nth_replicate)
  note once = exactly_once [OF assms(1) mesh_spreads [OF assms(1) home, of port], of False ev]
  have "ge_dest ev = UNTIMED_BROADCAST_ADDR \<and> (if \<forall>i < dimensions t. replicate (dimensions t) (0::int) ! i = 0 then ge_phase ev \<in> {0, 1} else ge_phase ev = 2)"
    using assms(3,4) by simp
  then show ?thesis using once home by blast
qed

section \<open>Construction\<close>

text \<open>How the configuration script writes a shape: decimal numbers joined by \<open>x\<close>.\<close>

definition digit :: "nat \<Rightarrow> char" where
  "digit k = char_of (48 + k)"

fun decimal :: "nat \<Rightarrow> string" where
  "decimal n = (if n < 10 then [digit n] else decimal (n div 10) @ [digit (n mod 10)])"

declare decimal.simps [simp del]

fun formatShape :: "int list \<Rightarrow> string" where
  "formatShape [] = []"
| "formatShape [d] = decimal (nat d)"
| "formatShape (d # ds) = decimal (nat d) @ CHR ''x'' # formatShape ds"

lemma decimal_small: "n < 10 \<Longrightarrow> decimal n = [digit n]" and decimal_large: "\<not> n < 10 \<Longrightarrow> decimal n = decimal (n div 10) @ [digit (n mod 10)]"
  by (subst decimal.simps, simp)+

lemma of_char_digit: "k < 10 \<Longrightarrow> (of_char (digit k) :: int) = 48 + int k"
  using of_nat_of_char [of "digit k", where ?'a = int] by (simp add: digit_def del: of_nat_of_char)

lemma digit_value_digit [simp]: "k < 10 \<Longrightarrow> digit_value (digit k) = int k"
  by (simp add: digit_value_def of_char_digit)

lemma digit_other: "k < 10 \<Longrightarrow> c \<noteq> digit k" if "(of_char c :: int) < 48 \<or> 57 < (of_char c :: int)"
  using that of_char_digit [of k] by auto

lemma decimal_digits: "\<forall>c \<in> set (decimal n). \<exists>k < 10. c = digit k"
proof (induction n rule: decimal.induct)
  case (1 n)
  then show ?case by (cases "n < 10") (auto simp: decimal_small decimal_large intro: exI [of _ "n mod 10"])
qed

lemma decimal_head: "0 < n \<Longrightarrow> \<exists>k cs. 0 < k \<and> k < 10 \<and> decimal n = digit k # cs"
proof (induction n rule: decimal.induct)
  case (1 n)
  show ?case
  proof (cases "n < 10")
    case False
    then have "0 < n div 10" by auto
    then show ?thesis using 1(1) [OF False] by (auto simp: decimal_large [OF False])
  qed (use 1 in \<open>auto simp: decimal_small\<close>)
qed

lemma digits_value_append:
  "\<forall>c \<in> set xs. digit_value c < b \<Longrightarrow> digits_value b acc (xs @ ys) = digits_value b (digits_value b acc xs) ys"
  by (induction xs arbitrary: acc) auto

lemma digits_value_decimal: "digits_value 10 0 (decimal n) = int n"
proof (induction n rule: decimal.induct)
  case (1 n)
  have "\<forall>c \<in> set (decimal (n div 10)). digit_value c < 10" using decimal_digits [of "n div 10"] by auto
  moreover have "int n = int (n div 10) * 10 + int (n mod 10)" by (metis div_mult_mod_eq of_nat_add of_nat_mult of_nat_numeral)
  ultimately show ?case using 1 by (cases "n < 10") (auto simp: decimal_small decimal_large digits_value_append)
qed

lemma strtol0_decimal:
  assumes "0 < n" "n < 2 ^ 31" shows "strtol0 (decimal n) = int n"
proof -
  obtain k cs where d: "0 < k" "k < 10" "decimal n = digit k # cs" using decimal_head [OF assms(1)] by blast
  have "digit k \<noteq> CHR ''0''" using of_char_digit [OF d(2)] d(1) by auto
  then have "unsigned_value (digit k # cs) = digits_value 10 0 (digit k # cs)"
    by (cases "digit k # cs" rule: unsigned_value.cases) auto
  moreover have "\<not> is_space (digit k)" using of_char_digit [OF d(2)] by (simp add: is_space_def)
  moreover have "digit k \<noteq> CHR ''-''" "digit k \<noteq> CHR ''+''" using of_char_digit [OF d(2)] by auto
  ultimately show ?thesis using digits_value_decimal [of n] assms(2) unfolding d(3) by (simp add: strtol0_def)
qed

lemma strtol0_int: "0 < d \<Longrightarrow> d < 2 ^ 31 \<Longrightarrow> signed_take_bit 31 (strtol0 (decimal (nat d))) = d"
  using strtol0_decimal [of "nat d"] by (simp add: nat_less_iff signed_take_bit_int_eq_self)

lemma decimal_no_x: "CHR ''x'' \<notin> set (decimal n)"
  using decimal_digits [of n] digit_other [of "CHR ''x''"] by auto

lemma takeWhile_decimal [simp]:
  "takeWhile (\<lambda>c. c \<noteq> CHR ''x'') (decimal n) = decimal n" "takeWhile (\<lambda>c. c \<noteq> CHR ''x'') (decimal n @ CHR ''x'' # r) = decimal n"
proof -
  have d: "\<forall>c \<in> set (decimal n). c \<noteq> CHR ''x''" using decimal_no_x [of n] by auto
  then show "takeWhile (\<lambda>c. c \<noteq> CHR ''x'') (decimal n) = decimal n" by (simp only: takeWhile_eq_all_conv)
  show "takeWhile (\<lambda>c. c \<noteq> CHR ''x'') (decimal n @ CHR ''x'' # r) = decimal n" using d by (subst takeWhile_append2) auto
qed

lemma parse_formatShape:
  "ds \<noteq> [] \<Longrightarrow> \<forall>d \<in> set ds. 0 < d \<and> d < 2 ^ 31 \<Longrightarrow> parseDimString (length ds) (length pre) (pre @ formatShape ds) = ds"
proof (induction ds arbitrary: pre rule: formatShape.induct)
  case (2 d)
  then show ?case using strtol0_int [of d] by simp
next
  case (3 d e ds)
  define n where "n = length (e # ds)"
  have "parseDimString n (length (pre @ decimal (nat d) @ [CHR ''x''])) ((pre @ decimal (nat d) @ [CHR ''x'']) @ formatShape (e # ds)) = e # ds"
    unfolding n_def using 3 by (intro 3(1)) auto
  moreover have "length (d # e # ds) = Suc n" by (simp add: n_def)
  ultimately show ?case using 3(3) strtol0_int [of d] by (simp add: Let_def del: length_Cons)
qed simp

lemma count_formatShape: "ds \<noteq> [] \<Longrightarrow> count_list (formatShape ds) (CHR ''x'') + 1 = length ds"
  using decimal_no_x by (induction ds rule: formatShape.induct) (auto simp: count_list_0_iff)

lemma formatShape_nonempty: "ds \<noteq> [] \<Longrightarrow> \<forall>d \<in> set ds. 0 < d \<and> d < 2 ^ 31 \<Longrightarrow> formatShape ds \<noteq> []"
  using decimal_head [of "nat (hd ds)"] by (cases ds rule: formatShape.cases) auto

text \<open>
  C38 Construction from strings: for sizes and widths written the way the configuration writes
  them, the constructor reads the numbers back and builds a well-formed router at the location of
  its number, provided the router has the ports; otherwise it ends the simulation.
\<close>
theorem grid_from_shape:
  assumes "ss \<noteq> []" and "\<forall>s \<in> set ss. 0 < s \<and> s < 2 ^ 31" and "length ws = length ss" and "\<forall>w \<in> set ws. 0 < w \<and> w < 2 ^ 31"
    and "0 < lp" and "0 \<le> r" and "r < prod_list ss"
  shows "if np < 2 * sum_list ws + lp then topo_grid_new (formatShape ss) (formatShape ws) lp np r vns = Inl (Fatal ''topo_torus'')
    else \<exists>t. topo_grid_new (formatShape ss) (formatShape ws) lp np r vns = Inr t \<and> grid_ok t \<and> dim_size t = ss \<and> dim_width t = ws \<and>
      router_id t = r \<and> id_loc t = digits ss r \<and> num_local_ports t = lp \<and> num_vns t = vns"
proof -
  have ws: "ws \<noteq> []" using assms(1,3) by auto
  then have fw: "formatShape ws \<noteq> []" using assms(4) formatShape_nonempty by blast
  have p: "parseDimString (length ss) 0 (formatShape ss) = ss" "parseDimString (length ss) 0 (formatShape ws) = ws"
    using parse_formatShape [of ss "[]"] parse_formatShape [of ws "[]"] assms(1-4) ws by auto
  have s: "\<forall>s \<in> set ss. 0 < s" using assms(2) by auto
  have sum: "sum_list (map (\<lambda>w. 2 * w) ws) = 2 * sum_list ws" by (simp add: sum_list_const_mult)
  define t where "t = \<lparr>router_id = r, id_loc = [], dim_size = ss, dim_width = ws, port_start = port_starts 0 ws,
      num_local_ports = lp, local_port_start = 2 * sum_list ws, num_vns = vns\<rparr>"
  have new: "topo_grid_new (formatShape ss) (formatShape ws) lp np r vns =
      (if np < 2 * sum_list ws + lp then Inl (Fatal ''topo_torus'') else bindE (idToLocation t r) (\<lambda>loc. Inr (t\<lparr>id_loc := loc\<rparr>)))"
    using p fw count_formatShape [OF assms(1)] sum by (simp add: topo_grid_new_def t_def Let_def)
  have "idToLocation t r = Inr (digits ss r)" using idToLocation_digits [of t r] assms(1,6,7) s by (simp add: t_def)
  moreover have "grid_ok (t\<lparr>id_loc := digits ss r\<rparr>)"
    using assms digits_in_range [OF s, of r] locToId_digits [OF s assms(6,7)] by (simp add: grid_ok_def t_def sum)
  ultimately show ?thesis unfolding new by (simp add: t_def)
qed

section \<open>Concrete instances\<close>

theorem grid_from_shape_witness: "\<exists>t. topo_grid_new ''3x4'' ''1x2'' 2 8 5 2 = Inr t \<and> grid_ok t \<and> id_loc t = [2, 1]"
proof -
  have "formatShape [3, 4] = ''3x4''" "formatShape [1, 2] = ''1x2''" by code_simp+
  then show ?thesis using grid_from_shape [of "[3, 4]" "[1, 2]" 2 5 8 2] by auto
qed

theorem torus_broadcast_once_witness:
  "\<exists>ev. torus_process_UntimedData_input demo_torus demo_packet UNTIMED_BROADCAST_ADDR 0 = Inr ev \<and>
     (\<exists>!ps. \<exists>p ev1. copy torus_routeUntimedData True demo_torus 7 ev ps (router_at demo_torus [0, 3]) p ev1)"
proof -
  obtain ev where ev: "torus_process_UntimedData_input demo_torus demo_packet UNTIMED_BROADCAST_ADDR 0 = Inr ev"
    by (simp add: torus_process_UntimedData_input_def new_grid_event_def)
  have d: "local_port_start demo_torus \<le> 7" "in_range (dim_size demo_torus) [0, 3]" by code_simp+
  from torus_broadcast_once [OF demo_torus_ok(1) d(1) ev, THEN conjunct1] d(2)
  have "\<exists>!ps. \<exists>p ev1. copy torus_routeUntimedData True demo_torus 7 ev ps (router_at demo_torus [0, 3]) p ev1" by (elim allE impE)
  with ev show ?thesis by metis
qed

theorem mesh_broadcast_once_witness:
  "\<exists>!ps. \<exists>p ev1. copy mesh_routeUntimedData False (router_at demo_torus [0, 0]) 6 (demo_packet\<lparr>ge_dest := UNTIMED_BROADCAST_ADDR\<rparr>) ps
     (router_at (router_at demo_torus [0, 0]) [2, 3]) p ev1"
proof -
  have "grid_ok (router_at demo_torus [0, 0])" "in_range (dim_size (router_at demo_torus [0, 0])) [2, 3]" "router_id (router_at demo_torus [0, 0]) = 0"
    by code_simp+
  then show ?thesis using mesh_broadcast_once [of "router_at demo_torus [0, 0]" "demo_packet\<lparr>ge_dest := UNTIMED_BROADCAST_ADDR\<rparr>" 6]
    by (simp add: demo_packet_def)
qed

end
