(* ===== verification/Merlin_Fattree.thy ===== *)
theory Merlin_Fattree
  imports Merlin_GridNet
begin

text \<open>
  The fat tree (\<^verbatim>\<open>merlin/topology/fattree.cc\<close>) and the single router (\<^verbatim>\<open>singlerouter.cc\<close>): parsing of
  the shape, the place of a router in the tree, deterministic and adaptive routing, broadcasts. The
  links between the routers are those of \<^verbatim>\<open>pymerlin-topo-fattree.py\<close>. C++ \<open>int\<close> is \<open>int\<close>.
\<close>

section \<open>Construction\<close>

text \<open>
  The levels of a shape are separated by \<open>:\<close>, each has its number of down links and, after a comma,
  of up links. The loop runs once per level, from position \<open>start\<close>.
\<close>

fun parseShape :: "nat \<Rightarrow> nat \<Rightarrow> string \<Rightarrow> (int \<times> int) list" where
  "parseShape 0 start shape = []"
| "parseShape (Suc n) start shape =
     (let rest = drop start shape; sub = takeWhile (\<lambda>c. c \<noteq> CHR '':'') rest;
          down = takeWhile (\<lambda>c. c \<noteq> CHR '','') sub;
          up = (if CHR '','' \<in> set sub then drop (length down + 1) sub else ''0'') in
      (signed_take_bit 31 (strtol0 down), signed_take_bit 31 (strtol0 up)) #
      parseShape n (if CHR '':'' \<in> set rest then start + length sub + 1 else 0) shape)"

record vn_info =
  vi_start_vc :: int
  vi_num_vcs :: int
  allow_adaptive :: bool

text \<open>\<open>ft_num_vcs\<close> and \<open>thresholds\<close> are set by \<open>setOutputBufferCreditArray\<close>; the credits are those of the ports.\<close>

record Fattree =
  ft_id :: int
  rtr_level :: nat
  level_id :: int
  level_group :: int
  low_host :: int
  high_host :: int
  down_route_factor :: int
  up_ports :: int
  down_ports :: int
  ft_num_ports :: int
  ft_vns :: "vn_info list"
  ft_num_vcs :: int
  thresholds :: "int list"

text \<open>The loop over the virtual networks, from channel \<open>curr_vc\<close>.\<close>

fun vn_infos :: "int \<Rightarrow> string list \<Rightarrow> vn_info list res" where
  "vn_infos curr_vc [] = Inr []"
| "vn_infos curr_vc (a # as) =
     (if a = ''adaptive'' \<or> a = ''deterministic''
      then bindE (vn_infos (curr_vc + 1) as) (\<lambda>vs. Inr (\<lparr>vi_start_vc = curr_vc, vi_num_vcs = 1, allow_adaptive = (a = ''adaptive'')\<rparr> # vs))
      else Inl (Fatal ''topo_fattree''))"

text \<open>\<open>routing_alg\<close> is one name for all networks (\<open>Inl\<close>) or a list of names.\<close>

definition routing_algs :: "string + string list \<Rightarrow> int \<Rightarrow> string list res" where
  "routing_algs alg vns = (case alg of
     Inl a \<Rightarrow> Inr (replicate (nat vns) a)
   | Inr as \<Rightarrow> if int (length as) \<noteq> vns then Inl (Fatal ''topo_fattree'') else Inr as)"

text \<open>Routers of the levels above one with \<open>r\<close> routers and \<open>u\<close> up links each.\<close>

fun routers_above :: "int \<Rightarrow> int \<Rightarrow> (int \<times> int) list \<Rightarrow> int list res" where
  "routers_above r u [] = Inr []"
| "routers_above r u ((d, u') # ls) =
     (if d = 0 then Inl DivByZero else let r' = (r * u) sdiv d in bindE (routers_above r' u' ls) (\<lambda>rs. Inr (r' # rs)))"

definition routers_per_level :: "(int \<times> int) list \<Rightarrow> int list res" where
  "routers_per_level ls = (case ls of [] \<Rightarrow> Inr [] | (d, u) # rest \<Rightarrow>
     if d = 0 then Inl DivByZero
     else let r = prod_list (map fst ls) sdiv d in bindE (routers_above r u rest) (\<lambda>rs. Inr (r # rs)))"

text \<open>
  The loop that finds level, number in the level and group of a router; a router behind the last
  level keeps \<open>rtr_level = -1\<close>, which is used as an index.
\<close>

fun find_level :: "int \<Rightarrow> int list \<Rightarrow> int list \<Rightarrow> int \<Rightarrow> int \<Rightarrow> nat \<Rightarrow> (nat \<times> int \<times> int) res" where
  "find_level i (r # rs) (u # us) count per_group level =
     (let lid = i - count; count = count + r in
      if i < count then (if per_group = 0 then Inl DivByZero else Inr (level, lid, lid sdiv per_group))
      else find_level i rs us count (per_group * u) (Suc level))"
| "find_level i _ _ count per_group level = Inl OutOfRange"

definition topo_fattree_new :: "string \<Rightarrow> string + string list \<Rightarrow> int \<Rightarrow> int \<Rightarrow> int \<Rightarrow> Fattree res" where
  "topo_fattree_new shape alg num_ports rtr_id vns =
     bindE (routing_algs alg vns) (\<lambda>algs. bindE (vn_infos 0 algs) (\<lambda>infos.
     (let ls = parseShape (count_list shape (CHR '':'') + 1) 0 shape; downs = map fst ls; ups = map snd ls in
      bindE (routers_per_level ls) (\<lambda>rs.
      bindE (find_level rtr_id rs ups 0 1 0) (\<lambda>(level, lid, group).
        let rid = prod_list (take (Suc level) downs) in
        Inr \<lparr>ft_id = rtr_id, rtr_level = level, level_id = lid, level_group = group,
             low_host = group * rid, high_host = group * rid + rid - 1, down_route_factor = rid sdiv downs ! level,
             up_ports = ups ! level, down_ports = downs ! level, ft_num_ports = num_ports, ft_vns = infos,
             ft_num_vcs = -1, thresholds = []\<rparr>)))))"

text \<open>\<open>scale\<close> is the product with \<open>adaptive_threshold\<close>, a floating-point number, cut to an integer.\<close>

definition ft_setOutputBufferCreditArray :: "(int \<Rightarrow> int) \<Rightarrow> int list \<Rightarrow> int \<Rightarrow> Fattree \<Rightarrow> Fattree res" where
  "ft_setOutputBufferCreditArray scale credits vcs t =
     (if vcs * ft_num_ports t \<le> int (length credits)
      then Inr (t\<lparr>ft_num_vcs := vcs, thresholds := map scale (take (nat (vcs * ft_num_ports t)) credits)\<rparr>) else Inl OutOfRange)"

definition ft_getVCsPerVN :: "Fattree \<Rightarrow> int list" where
  "ft_getVCsPerVN t = map vi_num_vcs (ft_vns t)"

section \<open>Routing\<close>

definition reaches_down :: "Fattree \<Rightarrow> int \<Rightarrow> bool" where
  "reaches_down t dest \<longleftrightarrow> low_host t \<le> dest \<and> dest \<le> high_host t"

definition route_deterministic :: "Fattree \<Rightarrow> 'e RtrPacket_scheme \<Rightarrow> 'e RtrPacket_scheme res" where
  "route_deterministic t ev =
     (let dest = ge_dest ev in
      if down_route_factor t = 0 then Inl DivByZero
      else if reaches_down t dest then Inr (ev\<lparr>ge_next_port := (dest - low_host t) sdiv down_route_factor t\<rparr>)
      else if up_ports t = 0 then Inl DivByZero
      else Inr (ev\<lparr>ge_next_port := down_ports t + (dest sdiv down_route_factor t) smod up_ports t\<rparr>))"

text \<open>
  The search for the least loaded port of the channel, from index \<open>i\<close> in steps of \<open>n\<close> channels.
  Without a positive step the index leaves the array.
\<close>

function least_loaded :: "int list \<Rightarrow> int \<Rightarrow> int \<Rightarrow> int \<Rightarrow> int \<Rightarrow> int \<Rightarrow> int res" where
  "least_loaded credits n limit i best port =
     (if i < limit then
        (if n \<le> 0 then Inl OutOfRange
         else bindE (at credits i) (\<lambda>c. if c > best then least_loaded credits n limit (i + n) c (i sdiv n)
                                     else least_loaded credits n limit (i + n) best port))
      else Inr port)"
  by pat_completeness auto
termination by (relation "measure (\<lambda>(_, n, limit, i, _, _). nat (limit - i))") auto

declare least_loaded.simps [simp del]

definition ft_route_packet :: "Fattree \<Rightarrow> int list \<Rightarrow> 'e RtrPacket_scheme \<Rightarrow> 'e RtrPacket_scheme res" where
  "ft_route_packet t outputCredits ev =
     bindE (route_deterministic t ev) (\<lambda>ev.
       if reaches_down t (ge_dest ev) then Inr ev
       else bindE (at (ft_vns t) (ge_vn ev)) (\<lambda>vn.
         if \<not> allow_adaptive vn then Inr ev
         else (let next_port = ge_next_port ev; index = next_port * ft_num_vcs t + ge_vc ev in
           bindE (at outputCredits index) (\<lambda>c. bindE (at (thresholds t) index) (\<lambda>th.
             if c \<ge> th then Inr ev
             else bindE (least_loaded outputCredits (ft_num_vcs t) (ft_num_ports t * ft_num_vcs t) (down_ports t * ft_num_vcs t + ge_vc ev) c next_port)
                    (\<lambda>port. Inr (ev\<lparr>ge_next_port := port\<rparr>)))))))"

definition ft_process_input :: "'e RtrPacket_scheme \<Rightarrow> 'e RtrPacket_scheme" where
  "ft_process_input ev = ev\<lparr>ge_vc := ge_vn ev\<rparr>"

definition ft_routeUntimedData :: "Fattree \<Rightarrow> int \<Rightarrow> 'e RtrPacket_scheme \<Rightarrow> ('e RtrPacket_scheme \<times> int list) res" where
  "ft_routeUntimedData t inPort ev =
     (if ge_dest ev = UNTIMED_BROADCAST_ADDR
      then Inr (ev, filter (\<lambda>i. i \<noteq> inPort) (map int [0..<nat (down_ports t)]) @
             (if up_ports t \<noteq> 0 \<and> inPort < down_ports t then [down_ports t + inPort smod up_ports t] else []))
      else bindE (route_deterministic t ev) (\<lambda>ev. Inr (ev, [ge_next_port ev])))"

definition ft_getEndpointID :: "Fattree \<Rightarrow> int \<Rightarrow> int" where
  "ft_getEndpointID t port = low_host t + port"

definition ft_getPortState :: "Fattree \<Rightarrow> int \<Rightarrow> PortState" where
  "ft_getPortState t port = (if rtr_level t = 0 then (if port < down_ports t then R2N else if port \<ge> down_ports t then R2R else UNCONNECTED) else R2R)"

section \<open>The single router\<close>

definition single_route_packet :: "'e RtrPacket_scheme \<Rightarrow> 'e RtrPacket_scheme" where
  "single_route_packet ev = ev\<lparr>ge_next_port := ge_dest ev\<rparr>"

definition single_routeUntimedData :: "int \<Rightarrow> int \<Rightarrow> 'e RtrPacket_scheme \<Rightarrow> 'e RtrPacket_scheme \<times> int list" where
  "single_routeUntimedData num_ports port ev =
     (if ge_dest ev = UNTIMED_BROADCAST_ADDR then (ev, filter (\<lambda>i. i \<noteq> port) (map int [0..<nat num_ports]))
      else let ev = single_route_packet ev in (ev, [ge_next_port ev]))"

definition single_process_input :: "'e RtrPacket_scheme \<Rightarrow> 'e RtrPacket_scheme" where
  "single_process_input ev = ev\<lparr>ge_vc := ge_vn ev\<rparr>"

definition single_getPortState :: "int \<Rightarrow> int \<Rightarrow> PortState" where
  "single_getPortState num_ports port = (if port < num_ports then R2N else UNCONNECTED)"

definition single_getEndpointID :: "int \<Rightarrow> int" where
  "single_getEndpointID port = port"

definition single_getVCsPerVN :: "int \<Rightarrow> int list" where
  "single_getVCsPerVN vns = replicate (nat vns) 1"

section \<open>The tree\<close>

text \<open>
  A shape is good when all levels have down links and all but the last one up links. Level \<open>l\<close> has
  the groups of \<open>hosts_below (l + 1)\<close> endpoints each, and \<open>group_routers l\<close> routers per group.
\<close>

definition shape_good :: "int list \<Rightarrow> int list \<Rightarrow> bool" where
  "shape_good downs ups \<longleftrightarrow> downs \<noteq> [] \<and> length ups = length downs \<and> (\<forall>d \<in> set downs. 0 < d) \<and>
     (\<forall>u \<in> set (butlast ups). 0 < u) \<and> last ups = 0"

definition hosts_below :: "int list \<Rightarrow> nat \<Rightarrow> int" where
  "hosts_below downs l = prod_list (take l downs)"

definition group_routers :: "int list \<Rightarrow> nat \<Rightarrow> int" where
  "group_routers ups l = prod_list (take l ups)"

definition groups :: "int list \<Rightarrow> nat \<Rightarrow> int" where
  "groups downs l = prod_list (drop (Suc l) downs)"

text \<open>
  The links the configuration script makes: down port \<open>j\<close> of router \<open>r\<close> of a group leads to the
  \<open>j\<close>-th group below, where the links of the group above are dealt round to the routers.
\<close>

definition tree_wire :: "int list \<Rightarrow> int list \<Rightarrow> nat \<Rightarrow> int \<Rightarrow> int \<Rightarrow> (nat \<times> int \<times> int) option" where
  "tree_wire downs ups l i p =
     (let u = group_routers ups l; g = i div u; r = i mod u in
      if p < 0 then None
      else if p < downs ! l then (case l of 0 \<Rightarrow> None | Suc k \<Rightarrow>
        (let u' = group_routers ups k in Some (k, (g * downs ! l + p) * u' + r mod u', downs ! k + r div u')))
      else if p < downs ! l + ups ! l \<and> Suc l < length downs then
        Some (Suc l, (g div downs ! Suc l) * group_routers ups (Suc l) + ((p - downs ! l) * u + r), g mod downs ! Suc l)
      else None)"

text \<open>The routers the constructor makes, with the thresholds \<open>thr\<close> of their ports.\<close>

definition level_routers :: "int list \<Rightarrow> int list \<Rightarrow> nat \<Rightarrow> int" where
  "level_routers downs ups l = group_routers ups l * groups downs l"

definition tree_router :: "int list \<Rightarrow> int list \<Rightarrow> vn_info list \<Rightarrow> nat \<Rightarrow> int \<Rightarrow> Fattree" where
  "tree_router downs ups infos l i =
     (let g = i div group_routers ups l; rid = hosts_below downs (Suc l) in
      \<lparr>ft_id = (\<Sum>k < l. level_routers downs ups k) + i, rtr_level = l, level_id = i, level_group = g,
       low_host = g * rid, high_host = g * rid + rid - 1, down_route_factor = hosts_below downs l,
       up_ports = ups ! l, down_ports = downs ! l, ft_num_ports = downs ! l + ups ! l, ft_vns = infos, ft_num_vcs = -1, thresholds = []\<rparr>)"

definition tree_at :: "int list \<Rightarrow> int list \<Rightarrow> vn_info list \<Rightarrow> (nat \<Rightarrow> int \<Rightarrow> int list) \<Rightarrow> nat \<Rightarrow> int \<Rightarrow> Fattree" where
  "tree_at downs ups infos thr l i = (tree_router downs ups infos l i)\<lparr>ft_num_vcs := int (length infos), thresholds := thr l i\<rparr>"

definition in_level :: "int list \<Rightarrow> int list \<Rightarrow> nat \<Rightarrow> int \<Rightarrow> bool" where
  "in_level downs ups l i \<longleftrightarrow> l < length downs \<and> 0 \<le> i \<and> i < level_routers downs ups l"

text \<open>One entry per port and channel.\<close>

definition per_channel :: "int list \<Rightarrow> int list \<Rightarrow> nat \<Rightarrow> (nat \<Rightarrow> int \<Rightarrow> int list) \<Rightarrow> bool" where
  "per_channel downs ups n a \<longleftrightarrow> (\<forall>l < length downs. \<forall>i. int (length (a l i)) = (downs ! l + ups ! l) * int n)"

text \<open>
  The way of a packet; \<open>credits k\<close> are the credits in the network when it makes its \<open>k\<close>-th hop. The
  result lists the channels taken: level, router, port and virtual channel.
\<close>

type_synonym tree_channel = "nat \<times> int \<times> int \<times> int"

partial_function (option) ft_travel :: "int list \<Rightarrow> int list \<Rightarrow> (nat \<Rightarrow> int \<Rightarrow> Fattree) \<Rightarrow> (nat \<Rightarrow> nat \<Rightarrow> int \<Rightarrow> int list) \<Rightarrow> nat \<Rightarrow> nat \<Rightarrow> int \<Rightarrow>
    'e RtrPacket_scheme \<Rightarrow> (tree_channel list \<times> int \<times> 'e RtrPacket_scheme) res option" where
  "ft_travel downs ups rtr credits k l i ev =
     (case ft_route_packet (rtr l i) (credits k l i) ev of Inl e \<Rightarrow> Some (Inl e) | Inr ev' \<Rightarrow>
        if ft_getPortState (rtr l i) (ge_next_port ev') = R2N then Some (Inr ([], ft_id (rtr l i), ev'))
        else (case tree_wire downs ups l i (ge_next_port ev') of None \<Rightarrow> Some (Inl NullDeref) | Some (l', i', port) \<Rightarrow>
          Option.bind (ft_travel downs ups rtr credits (Suc k) l' i' ev') (\<lambda>r. case r of Inl e \<Rightarrow> Some (Inl e) | Inr (cs, x) \<Rightarrow>
            Some (Inr ((l, i, ge_next_port ev', ge_vc ev') # cs, x)))))"

text \<open>How many levels above those of \<open>a\<close> and \<open>b\<close> their ways to the top meet.\<close>

fun meet :: "int list \<Rightarrow> int \<Rightarrow> int \<Rightarrow> nat" where
  "meet [] a b = 0"
| "meet (d # ds) a b = (if a = b then 0 else Suc (meet ds (a div d) (b div d)))"

section \<open>Arithmetic of the levels\<close>

lemma hosts_below_Suc: "l < length downs \<Longrightarrow> hosts_below downs (Suc l) = hosts_below downs l * downs ! l"
  by (simp add: hosts_below_def take_Suc_conv_app_nth)

lemma hosts_below_0 [simp]: "hosts_below downs 0 = 1"
  by (simp add: hosts_below_def)

lemma group_routers_Suc: "l < length ups \<Longrightarrow> group_routers ups (Suc l) = group_routers ups l * ups ! l"
  by (simp add: group_routers_def take_Suc_conv_app_nth)

lemma group_routers_0 [simp]: "group_routers ups 0 = 1"
  by (simp add: group_routers_def)

lemma groups_Suc: "Suc l < length downs \<Longrightarrow> groups downs l = downs ! Suc l * groups downs (Suc l)"
  by (simp add: groups_def Cons_nth_drop_Suc [symmetric])

lemma div_below: "0 < b \<Longrightarrow> a < b * c \<Longrightarrow> a div b < (c :: int)"
  by (smt (verit) div_mult_mod_eq mult.commute mult_left_mono pos_mod_sign)

lemma prod_list_pos: "\<forall>x \<in> set xs. 0 < x \<Longrightarrow> 0 < prod_list (xs :: int list)"
  by (induction xs) auto

lemma levels:
  assumes "shape_good downs ups"
  shows "length ups = length downs" "0 < length downs" "l < length downs \<Longrightarrow> 0 < downs ! l" "Suc l < length downs \<Longrightarrow> 0 < ups ! l"
    "Suc l = length downs \<Longrightarrow> ups ! l = 0"
proof -
  show len: "length ups = length downs" "0 < length downs" and "l < length downs \<Longrightarrow> 0 < downs ! l" using assms by (auto simp: shape_good_def)
  show "0 < ups ! l" if "Suc l < length downs"
  proof -
    have "butlast ups ! l \<in> set (butlast ups)" using that len by (intro nth_mem) simp
    then show ?thesis using that len assms by (auto simp: shape_good_def nth_butlast)
  qed
  show "ups ! l = 0" if "Suc l = length downs"
  proof -
    have "ups ! (length downs - 1) = 0" using len assms last_conv_nth [of ups] by (fastforce simp: shape_good_def)
    then show ?thesis using that by (metis diff_Suc_1)
  qed
qed

lemma hosts_below_pos: "shape_good downs ups \<Longrightarrow> 0 < hosts_below downs l"
  unfolding hosts_below_def by (rule prod_list_pos) (auto simp: shape_good_def dest: in_set_takeD)

lemma groups_pos: "shape_good downs ups \<Longrightarrow> 0 < groups downs l"
  unfolding groups_def by (rule prod_list_pos) (auto simp: shape_good_def dest: in_set_dropD)

lemma group_routers_pos:
  assumes "shape_good downs ups" "l < length downs" shows "0 < group_routers ups l"
  using assms(2)
proof (induction l)
  case (Suc l)
  then show ?case using levels(1) [OF assms(1)] levels(4) [OF assms(1), of l] by (simp add: group_routers_Suc)
qed simp

lemma groups_top: "Suc l = length downs \<Longrightarrow> groups downs l = 1"
  by (simp add: groups_def)

text \<open>Groups of a level: those of \<open>hosts_below\<close> consecutive endpoints.\<close>

lemma host_group:
  assumes "shape_good downs ups" "l < length downs" "0 \<le> e" "e < prod_list downs"
  shows "0 \<le> e div hosts_below downs (Suc l)" "e div hosts_below downs (Suc l) < groups downs l"
    "e div hosts_below downs (Suc l) = e div hosts_below downs l div downs ! l"
proof -
  have "prod_list downs = hosts_below downs (Suc l) * groups downs l"
    unfolding hosts_below_def groups_def by (metis append_take_drop_id prod_list.append)
  then show "e div hosts_below downs (Suc l) < groups downs l"
    using assms(4) hosts_below_pos [OF assms(1), of "Suc l"] by (intro div_below) auto
  show "0 \<le> e div hosts_below downs (Suc l)" using assms(3) hosts_below_pos [OF assms(1), of "Suc l"] by (simp add: pos_imp_zdiv_nonneg_iff)
  show "e div hosts_below downs (Suc l) = e div hosts_below downs l div downs ! l"
    using levels(3) [OF assms(1,2)] by (simp add: hosts_below_Suc [OF assms(2)] zdiv_zmult2_eq)
qed

lemma router_group:
  assumes "shape_good downs ups" "in_level downs ups l i"
  shows "0 \<le> i div group_routers ups l" "i div group_routers ups l < groups downs l"
    "0 \<le> i mod group_routers ups l" "i mod group_routers ups l < group_routers ups l"
proof -
  have u: "0 < group_routers ups l" using assms group_routers_pos by (auto simp: in_level_def)
  show "0 \<le> i div group_routers ups l" using u assms(2) by (simp add: in_level_def pos_imp_zdiv_nonneg_iff)
  show "i div group_routers ups l < groups downs l" using u assms(2) by (intro div_below) (auto simp: in_level_def level_routers_def)
  show "0 \<le> i mod group_routers ups l" "i mod group_routers ups l < group_routers ups l" using u by simp_all
qed

lemma in_group:
  assumes "shape_good downs ups" "l < length downs" "0 \<le> g" "g < groups downs l" "0 \<le> r" "r < group_routers ups l"
  shows "in_level downs ups l (g * group_routers ups l + r)" "(g * group_routers ups l + r) div group_routers ups l = g"
    "(g * group_routers ups l + r) mod group_routers ups l = r"
proof -
  have "g * group_routers ups l + r < (g + 1) * group_routers ups l" using assms(6) by (simp add: algebra_simps)
  also have "\<dots> \<le> groups downs l * group_routers ups l" using assms(4-6) by (intro mult_right_mono) auto
  finally show "in_level downs ups l (g * group_routers ups l + r)"
    using assms by (simp add: in_level_def level_routers_def mult.commute)
  show "(g * group_routers ups l + r) div group_routers ups l = g" "(g * group_routers ups l + r) mod group_routers ups l = r"
    using assms(5,6) by (simp_all add: div_pos_pos_trivial mod_pos_pos_trivial)
qed

section \<open>Links\<close>

lemma wire_down:
  assumes "shape_good downs ups" "in_level downs ups (Suc l) i" "0 \<le> p" "p < downs ! Suc l"
  defines "g \<equiv> i div group_routers ups (Suc l) * downs ! Suc l + p"
  shows "\<exists>i' port. tree_wire downs ups (Suc l) i p = Some (l, i', port) \<and> in_level downs ups l i' \<and>
    i' div group_routers ups l = g \<and> downs ! l \<le> port \<and> port < downs ! l + ups ! l"
proof -
  let ?r = "i mod group_routers ups (Suc l)" and ?u = "group_routers ups l"
  have l: "Suc l < length downs" "Suc l < length ups" using assms(2) levels(1) [OF assms(1)] by (auto simp: in_level_def)
  have u: "0 < ?u" "group_routers ups (Suc l) = ?u * ups ! l" using group_routers_pos [OF assms(1)] l group_routers_Suc by auto
  note r = router_group [OF assms(1,2)]
  have g: "0 \<le> g" using assms(3) levels(3) [OF assms(1) l(1)] r(1) by (simp add: g_def)
  have "i div group_routers ups (Suc l) * downs ! Suc l + p < (i div group_routers ups (Suc l) + 1) * downs ! Suc l" using assms(4) by (simp add: algebra_simps)
  also have "\<dots> \<le> groups downs (Suc l) * downs ! Suc l" using r(2) levels(3) [OF assms(1) l(1)] by (intro mult_right_mono) auto
  finally have g': "g < groups downs l" using groups_Suc [OF l(1)] by (simp add: g_def mult.commute)
  have m: "0 \<le> ?r mod ?u" "?r mod ?u < ?u" using u(1) by simp_all
  have "?r div ?u < ups ! l" "0 \<le> ?r div ?u" using r(3,4) u by (auto intro: div_below simp: pos_imp_zdiv_nonneg_iff)
  then show ?thesis using in_group [OF assms(1) _ g g' m] l assms(3,4) by (simp add: tree_wire_def Let_def g_def)
qed

lemma wire_up:
  assumes "shape_good downs ups" "in_level downs ups l i" "Suc l < length downs" "0 \<le> u" "u < ups ! l"
  shows "\<exists>i' port. tree_wire downs ups l i (downs ! l + u) = Some (Suc l, i', port) \<and> in_level downs ups (Suc l) i' \<and>
    i' div group_routers ups (Suc l) = i div group_routers ups l div downs ! Suc l \<and> port = i div group_routers ups l mod downs ! Suc l"
proof -
  let ?g = "i div group_routers ups l" and ?r = "i mod group_routers ups l"
  note r = router_group [OF assms(1,2)]
  have d: "0 < downs ! Suc l" "0 < downs ! l" using levels(3) [OF assms(1)] assms(3) by auto
  have g: "0 \<le> ?g div downs ! Suc l" "?g div downs ! Suc l < groups downs (Suc l)"
    using r(1,2) d groups_Suc [OF assms(3)] by (auto intro: div_below simp: pos_imp_zdiv_nonneg_iff)
  have "u * group_routers ups l + ?r < (u + 1) * group_routers ups l" using r(4) by (simp add: algebra_simps)
  also have "\<dots> \<le> ups ! l * group_routers ups l" using assms(5) r(3,4) by (intro mult_right_mono) auto
  finally have k: "u * group_routers ups l + ?r < group_routers ups (Suc l)"
    using group_routers_Suc [of l ups] assms(3) levels(1) [OF assms(1)] by (simp add: mult.commute)
  have "0 \<le> u * group_routers ups l + ?r" using assms(4) r(3,4) by simp
  then show ?thesis using in_group [OF assms(1,3) g _ k] assms(3-5) d(2) by (simp add: tree_wire_def Let_def)
qed

section \<open>Routing at a router\<close>

lemma tree_at_simps [simp]:
  "ft_id (tree_at downs ups infos thr l i) = (\<Sum>k < l. level_routers downs ups k) + i"
  "rtr_level (tree_at downs ups infos thr l i) = l" "up_ports (tree_at downs ups infos thr l i) = ups ! l"
  "down_ports (tree_at downs ups infos thr l i) = downs ! l" "ft_num_ports (tree_at downs ups infos thr l i) = downs ! l + ups ! l"
  "down_route_factor (tree_at downs ups infos thr l i) = hosts_below downs l" "ft_vns (tree_at downs ups infos thr l i) = infos"
  "low_host (tree_at downs ups infos thr l i) = i div group_routers ups l * hosts_below downs (Suc l)"
  "high_host (tree_at downs ups infos thr l i) = i div group_routers ups l * hosts_below downs (Suc l) + hosts_below downs (Suc l) - 1"
  "ft_num_vcs (tree_at downs ups infos thr l i) = int (length infos)" "thresholds (tree_at downs ups infos thr l i) = thr l i"
  by (simp_all add: tree_at_def tree_router_def Let_def)

lemma in_block: "a * b \<le> e \<and> e \<le> a * b + b - 1 \<longleftrightarrow> a = e div b" if "0 < (b :: int)"
proof
  assume "a * b \<le> e \<and> e \<le> a * b + b - 1"
  then show "a = e div b" using int_div_pos_eq [of e b a "e - a * b"] by simp
next
  assume a: "a = e div b"
  show "a * b \<le> e \<and> e \<le> a * b + b - 1" using that minus_mod_eq_div_mult [of e b] pos_mod_bound [of b e] pos_mod_sign [of b e] unfolding a by linarith
qed

lemma reaches_down_iff:
  "shape_good downs ups \<Longrightarrow> reaches_down (tree_at downs ups infos thr l i) e \<longleftrightarrow> i div group_routers ups l = e div hosts_below downs (Suc l)"
  using hosts_below_pos [of downs ups "Suc l"] in_block [of "hosts_below downs (Suc l)"] by (simp add: reaches_down_def)

lemma down_port:
  assumes "shape_good downs ups" "l < length downs"
  shows "(e - e div hosts_below downs (Suc l) * hosts_below downs (Suc l)) div hosts_below downs l = e div hosts_below downs l mod downs ! l"
proof -
  have d: "0 < downs ! l" "0 < hosts_below downs l" using levels(3) [OF assms] hosts_below_pos [OF assms(1)] by auto
  have "e - e div hosts_below downs (Suc l) * hosts_below downs (Suc l) = e mod hosts_below downs (Suc l)" by (rule minus_div_mult_eq_mod)
  also have "\<dots> = hosts_below downs l * (e div hosts_below downs l mod downs ! l) + e mod hosts_below downs l"
    unfolding hosts_below_Suc [OF assms(2)] using d by (simp add: zmod_zmult2_eq)
  finally show ?thesis using d(2) by (simp add: div_pos_pos_trivial)
qed

text \<open>The search ends at the natural port or at a port with more credits than any before.\<close>

lemma least_loaded_ok:
  assumes "0 \<le> vc" "vc < n" "0 \<le> p" "int (length credits) = np * n"
  shows "\<exists>q. least_loaded credits n (np * n) (p * n + vc) c port = Inr q \<and>
    (q = port \<and> (\<forall>p'. p \<le> p' \<and> p' < np \<longrightarrow> credits ! nat (p' * n + vc) \<le> c) \<or>
     p \<le> q \<and> q < np \<and> c < credits ! nat (q * n + vc) \<and> (\<forall>p'. p \<le> p' \<and> p' < np \<longrightarrow> credits ! nat (p' * n + vc) \<le> credits ! nat (q * n + vc)))"
  using assms(3)
proof (induction "nat (np - p)" arbitrary: p c port)
  case 0
  then have "np * n \<le> p * n" using assms(1,2) by (intro mult_right_mono) auto
  then have "\<not> p * n + vc < np * n" using assms(1) by linarith
  then show ?case using 0 by (subst least_loaded.simps) auto
next
  case (Suc k)
  then have "(p + 1) * n \<le> np * n" using assms(1,2) by (intro mult_right_mono) auto
  then have i: "p * n + vc < np * n" "p * n + vc + n = (p + 1) * n + vc" using assms(2) by (simp_all add: algebra_simps)
  have "0 \<le> p * n" using Suc.prems assms(1,2) by simp
  then have "at credits (p * n + vc) = Inr (credits ! nat (p * n + vc))" "(p * n + vc) sdiv n = p"
    using assms i(1) Suc.prems by (auto simp: at_def sdiv_nonneg div_pos_pos_trivial)
  then have step: "least_loaded credits n (np * n) (p * n + vc) c port = (if credits ! nat (p * n + vc) > c
      then least_loaded credits n (np * n) ((p + 1) * n + vc) (credits ! nat (p * n + vc)) p
      else least_loaded credits n (np * n) ((p + 1) * n + vc) c port)"
    unfolding i(2) [symmetric] using i(1) assms(1,2) by (subst least_loaded.simps) simp
  have k: "k = nat (np - (p + 1))" "0 \<le> p + 1" using Suc.hyps(2) Suc.prems by auto
  have all: "p \<le> p' \<longleftrightarrow> p' = p \<or> p + 1 \<le> p'" for p' by auto
  have "p < np" using Suc.hyps(2) by simp
  then show ?case
    unfolding step using Suc.hyps(1) [OF k, of "credits ! nat (p * n + vc)" p] Suc.hyps(1) [OF k, of c port] unfolding all by fastforce
qed

lemma route_down:
  assumes "shape_good downs ups" "in_level downs ups l i" "0 \<le> ge_dest ev" "ge_dest ev < prod_list downs"
    and "i div group_routers ups l = ge_dest ev div hosts_below downs (Suc l)"
  shows "ft_route_packet (tree_at downs ups infos thr l i) cr ev = Inr (ev\<lparr>ge_next_port := ge_dest ev div hosts_below downs l mod downs ! l\<rparr>)"
proof -
  have l: "l < length downs" using assms(2) by (simp add: in_level_def)
  let ?e = "ge_dest ev" and ?D = "hosts_below downs"
  have "0 \<le> ?e - ?e div ?D (Suc l) * ?D (Suc l)" using hosts_below_pos [OF assms(1), of "Suc l"] by (simp add: minus_div_mult_eq_mod)
  then show ?thesis using hosts_below_pos [OF assms(1), of l] down_port [OF assms(1) l, of ?e] assms(5) reaches_down_iff [OF assms(1), of infos thr l i ?e]
    by (simp add: ft_route_packet_def route_deterministic_def Let_def sdiv_nonneg)
qed

text \<open>
  Up, deterministic or adaptive: the natural port is taken unless its credits are below the threshold
  of an adaptive network, and then the up port with the most credits.
\<close>

definition natural_port :: "int list \<Rightarrow> int list \<Rightarrow> nat \<Rightarrow> int \<Rightarrow> int" where
  "natural_port downs ups l e = downs ! l + e div hosts_below downs l mod ups ! l"

lemma route_up:
  assumes "shape_good downs ups" "in_level downs ups l i" "0 \<le> ge_dest ev" "ge_dest ev < prod_list downs"
    and "i div group_routers ups l \<noteq> ge_dest ev div hosts_below downs (Suc l)"
    and "0 \<le> ge_vn ev" "ge_vn ev < int (length infos)" "ge_vc ev = ge_vn ev" "per_channel downs ups (length infos) thr" "int (length cr) = (downs ! l + ups ! l) * int (length infos)"
  defines "load p \<equiv> cr ! nat (p * int (length infos) + ge_vc ev)" and "natural \<equiv> natural_port downs ups l (ge_dest ev)"
  defines "threshold \<equiv> thr l i ! nat (natural * int (length infos) + ge_vc ev)"
  shows "Suc l < length downs" "downs ! l \<le> natural" "natural < downs ! l + ups ! l"
    "\<exists>p. ft_route_packet (tree_at downs ups infos thr l i) cr ev = Inr (ev\<lparr>ge_next_port := p\<rparr>) \<and> downs ! l \<le> p \<and> p < downs ! l + ups ! l \<and>
       (if allow_adaptive (infos ! nat (ge_vn ev)) \<and> load natural < threshold
        then (\<forall>q. downs ! l \<le> q \<and> q < downs ! l + ups ! l \<longrightarrow> load q \<le> load p) else p = natural)"
proof -
  let ?e = "ge_dest ev" and ?n = "int (length infos)" and ?np = "downs ! l + ups ! l" and ?t = "tree_at downs ups infos thr l i"
  have l: "l < length downs" using assms(2) by (simp add: in_level_def)
  show sl: "Suc l < length downs"
  proof (rule ccontr)
    assume "\<not> Suc l < length downs"
    then have "groups downs l = 1" using l by (intro groups_top) simp
    then show False using router_group(1,2) [OF assms(1,2)] host_group(1,2) [OF assms(1) l assms(3,4)] assms(5) by linarith
  qed
  then have u: "0 < ups ! l" "0 < downs ! l" "0 < hosts_below downs l" using levels(4) [OF assms(1)] levels(3) [OF assms(1)] hosts_below_pos [OF assms(1)] by auto
  then show nat: "downs ! l \<le> natural" "natural < ?np" by (simp_all add: natural_def natural_port_def)
  have "0 \<le> ?e div hosts_below downs l" using u(3) assms(3) by (simp add: pos_imp_zdiv_nonneg_iff)
  then have det: "route_deterministic ?t ev = Inr (ev\<lparr>ge_next_port := natural\<rparr>)"
    using u assms(3,5) reaches_down_iff [OF assms(1), of infos thr l i ?e]
    by (simp add: route_deterministic_def Let_def sdiv_nonneg smod_nonneg natural_def natural_port_def)
  have n: "0 < ?n" using assms(6,7) by linarith
  have "0 \<le> natural * ?n" using n nat u by simp
  moreover have "natural * ?n + ?n \<le> ?np * ?n" using mult_right_mono [of "natural + 1" ?np ?n] nat n by (simp add: algebra_simps)
  ultimately have idx: "0 \<le> natural * ?n + ge_vc ev" "natural * ?n + ge_vc ev < ?np * ?n" using assms(6-8) by linarith+
  have arr: "int (length (thr l i)) = ?np * ?n" using assms(9) l by (simp add: per_channel_def)
  obtain q where q: "least_loaded cr ?n (?np * ?n) (downs ! l * ?n + ge_vc ev) (load natural) natural = Inr q"
    "q = natural \<and> (\<forall>p. downs ! l \<le> p \<and> p < ?np \<longrightarrow> load p \<le> load natural) \<or> downs ! l \<le> q \<and> q < ?np \<and> (\<forall>p. downs ! l \<le> p \<and> p < ?np \<longrightarrow> load p \<le> load q)"
    using least_loaded_ok [of "ge_vc ev" ?n "downs ! l" cr ?np "load natural" natural] assms(6-8,10) u(2) unfolding load_def by fastforce
  have vn: "at infos (ge_vn ev) = Inr (infos ! nat (ge_vn ev))" using assms(6,7) by (simp add: at_def)
  have at: "at cr (natural * ?n + ge_vc ev) = Inr (load natural)" "at (thr l i) (natural * ?n + ge_vc ev) = Inr threshold"
    using idx assms(10) arr by (simp_all add: at_def load_def threshold_def)
  have "ft_route_packet ?t cr ev = Inr (ev\<lparr>ge_next_port := if allow_adaptive (infos ! nat (ge_vn ev)) \<and> load natural < threshold then q else natural\<rparr>)"
    using reaches_down_iff [OF assms(1), of infos thr l i ?e] assms(5) q(1)
    by (simp add: ft_route_packet_def det vn at)
  then show "\<exists>p. ft_route_packet ?t cr ev = Inr (ev\<lparr>ge_next_port := p\<rparr>) \<and> downs ! l \<le> p \<and> p < ?np \<and>
      (if allow_adaptive (infos ! nat (ge_vn ev)) \<and> load natural < threshold then (\<forall>q. downs ! l \<le> q \<and> q < ?np \<longrightarrow> load q \<le> load p) else p = natural)"
    using q(2) nat by (cases "allow_adaptive (infos ! nat (ge_vn ev)) \<and> load natural < threshold") auto
qed

section \<open>Ways through the tree\<close>

text \<open>The order of the channels: up by level, then down against it.\<close>

definition tree_rank :: "int list \<Rightarrow> tree_channel \<Rightarrow> nat" where
  "tree_rank downs c = (case c of (l, i, p, v) \<Rightarrow> if p < downs ! l then 2 * length downs - l else l)"

definition tree_packet :: "int list \<Rightarrow> vn_info list \<Rightarrow> 'e RtrPacket_scheme \<Rightarrow> bool" where
  "tree_packet downs infos ev \<longleftrightarrow> 0 \<le> ge_dest ev \<and> ge_dest ev < prod_list downs \<and> 0 \<le> ge_vn ev \<and> ge_vn ev < int (length infos) \<and> ge_vc ev = ge_vn ev"

text \<open>The rest of a way from router \<open>i\<close> of level \<open>l\<close>: \<open>len\<close> channels of at least rank \<open>low\<close>, to the endpoint.\<close>

definition way_ok :: "int list \<Rightarrow> nat \<Rightarrow> nat \<Rightarrow> 'e RtrPacket_scheme \<Rightarrow> (tree_channel list \<times> int \<times> 'e RtrPacket_scheme) res option \<Rightarrow> bool" where
  "way_ok downs len low ev way \<longleftrightarrow> (\<exists>cs. way = Some (Inr (cs, ge_dest ev div downs ! 0, ev\<lparr>ge_next_port := ge_dest ev mod downs ! 0\<rparr>)) \<and>
     length cs = len \<and> sorted_wrt (<) (map (tree_rank downs) cs) \<and> (\<forall>c \<in> set cs. low \<le> tree_rank downs c))"

lemma way_hop:
  assumes "ft_route_packet (rtr l i) (credits k l i) ev = Inr (ev\<lparr>ge_next_port := p\<rparr>)" "ft_getPortState (rtr l i) p \<noteq> R2N"
    and "tree_wire downs ups l i p = Some (l', i', port)" "way_ok downs len low ev (ft_travel downs ups rtr credits (Suc k) l' i' (ev\<lparr>ge_next_port := p\<rparr>))"
    and "tree_rank downs (l, i, p, ge_vc ev) < low"
  shows "way_ok downs (Suc len) (tree_rank downs (l, i, p, ge_vc ev)) ev (ft_travel downs ups rtr credits k l i ev)"
proof -
  obtain cs where cs: "ft_travel downs ups rtr credits (Suc k) l' i' (ev\<lparr>ge_next_port := p\<rparr>) = Some (Inr (cs, ge_dest ev div downs ! 0, ev\<lparr>ge_next_port := ge_dest ev mod downs ! 0\<rparr>))"
    "length cs = len" "sorted_wrt (<) (map (tree_rank downs) cs)" "\<forall>c \<in> set cs. low \<le> tree_rank downs c" using assms(4) by (auto simp: way_ok_def)
  have "ft_travel downs ups rtr credits k l i ev =
      Some (Inr ((l, i, p, ge_vc ev) # cs, ge_dest ev div downs ! 0, ev\<lparr>ge_next_port := ge_dest ev mod downs ! 0\<rparr>))"
    using assms(1-3) cs(1) by (subst ft_travel.simps) simp
  then show ?thesis using cs(2-4) assms(5) by (fastforce simp: way_ok_def)
qed

lemma way_low: "way_ok downs len low ev way \<Longrightarrow> low' \<le> low \<Longrightarrow> way_ok downs len low' ev way"
  by (fastforce simp: way_ok_def)

lemma way_ok_port: "way_ok downs len low (ev\<lparr>ge_next_port := p\<rparr>) way = way_ok downs len low ev way"
  by (simp add: way_ok_def)

lemma tree_packet_port [simp]: "tree_packet downs infos (ev\<lparr>ge_next_port := p\<rparr>) = tree_packet downs infos ev"
  by (simp add: tree_packet_def)

lemma way_down:
  assumes "shape_good downs ups" "tree_packet downs infos ev" "in_level downs ups l i"
    and "i div group_routers ups l = ge_dest ev div hosts_below downs (Suc l)"
  shows "way_ok downs l (2 * length downs - l) ev (ft_travel downs ups (tree_at downs ups infos thr) credits k l i ev)"
  using assms(2-)
proof (induction l arbitrary: i k ev)
  case 0
  let ?e = "ge_dest ev" and ?t = "tree_at downs ups infos thr 0 i"
  have d: "0 < downs ! 0" using levels(2,3) [OF assms(1)] by blast
  have "hosts_below downs (Suc 0) = downs ! 0" using hosts_below_Suc [of 0 downs] levels(2) [OF assms(1)] by simp
  then have i: "i = ?e div downs ! 0" using 0(3) by simp
  have "ft_route_packet ?t (credits k 0 i) ev = Inr (ev\<lparr>ge_next_port := ?e mod downs ! 0\<rparr>)"
    using route_down [OF assms(1) 0(2) _ _ 0(3), of infos thr "credits k 0 i"] 0(1) by (simp add: tree_packet_def)
  then show ?case using d i by (subst ft_travel.simps) (simp add: way_ok_def ft_getPortState_def)
next
  case (Suc l)
  let ?e = "ge_dest ev" and ?t = "tree_at downs ups infos thr (Suc l) i"
  have e: "0 \<le> ?e" "?e < prod_list downs" and l: "Suc l < length downs" using Suc.prems(1,2) by (auto simp: tree_packet_def in_level_def)
  define p where "p = ?e div hosts_below downs (Suc l) mod downs ! Suc l"
  have d: "0 < downs ! Suc l" using levels(3) [OF assms(1) l] .
  then have p: "0 \<le> p" "p < downs ! Suc l" by (simp_all add: p_def)
  obtain i' port where w: "tree_wire downs ups (Suc l) i p = Some (l, i', port)" "in_level downs ups l i'"
    "i' div group_routers ups l = i div group_routers ups (Suc l) * downs ! Suc l + p" using wire_down [OF assms(1) Suc.prems(2) p] by blast
  have "i' div group_routers ups l = ?e div hosts_below downs (Suc l)"
    using w(3) Suc.prems(3) host_group(3) [OF assms(1) l e] by (simp only: p_def div_mult_mod_eq)
  then have "way_ok downs l (2 * length downs - l) ev (ft_travel downs ups (tree_at downs ups infos thr) credits (Suc k) l i' (ev\<lparr>ge_next_port := p\<rparr>))"
    using Suc.IH [of "ev\<lparr>ge_next_port := p\<rparr>" i' "Suc k"] Suc.prems(1) w(2) by (simp add: way_ok_port)
  from way_hop [where rtr = "tree_at downs ups infos thr" and credits = credits and k = k, OF _ _ w(1) this] show ?case
    using route_down [OF assms(1) Suc.prems(2) e Suc.prems(3)] p l by (simp add: p_def tree_rank_def ft_getPortState_def)
qed

lemma way_up:
  assumes "shape_good downs ups" "per_channel downs ups (length infos) thr" "\<forall>k. per_channel downs ups (length infos) (credits k)"
    and "tree_packet downs infos ev" "in_level downs ups l i"
  shows "way_ok downs (l + 2 * meet (drop (Suc l) downs) (i div group_routers ups l) (ge_dest ev div hosts_below downs (Suc l))) l ev
    (ft_travel downs ups (tree_at downs ups infos thr) credits k l i ev)"
  using assms(4-)
proof (induction "length downs - l" arbitrary: l i k ev)
  case (Suc n)
  let ?e = "ge_dest ev" and ?g = "i div group_routers ups l" and ?rtr = "tree_at downs ups infos thr"
  have e: "0 \<le> ?e" "?e < prod_list downs" "0 \<le> ge_vn ev" "ge_vn ev < int (length infos)" "ge_vc ev = ge_vn ev" and l: "l < length downs"
    using Suc.prems(1,2) by (auto simp: tree_packet_def in_level_def)
  show ?case
  proof (cases "?g = ?e div hosts_below downs (Suc l)")
    case True
    then have "meet (drop (Suc l) downs) ?g (?e div hosts_below downs (Suc l)) = 0" by (cases "drop (Suc l) downs") auto
    then show ?thesis using way_low [OF way_down [OF assms(1) Suc.prems True, of thr credits k], of l] l by simp
  next
    case False
    have cr: "int (length (credits k l i)) = (downs ! l + ups ! l) * int (length infos)" using assms(3) l by (simp add: per_channel_def)
    note up = route_up [OF assms(1) Suc.prems(2) e(1,2) False e(3-5) assms(2) cr]
    obtain p where p: "ft_route_packet (?rtr l i) (credits k l i) ev = Inr (ev\<lparr>ge_next_port := p\<rparr>)" "downs ! l \<le> p" "p < downs ! l + ups ! l" using up(4) by blast
    have sl: "Suc l < length downs" "n = length downs - Suc l" using up(1) Suc.hyps(2) by auto
    obtain i' port where w: "tree_wire downs ups l i p = Some (Suc l, i', port)" "in_level downs ups (Suc l) i'" "i' div group_routers ups (Suc l) = ?g div downs ! Suc l"
      using wire_up [OF assms(1) Suc.prems(2) sl(1), of "p - downs ! l"] p(2,3) by auto
    have "meet (drop (Suc l) downs) ?g (?e div hosts_below downs (Suc l)) =
        Suc (meet (drop (Suc (Suc l)) downs) (i' div group_routers ups (Suc l)) (?e div hosts_below downs (Suc (Suc l))))"
      using False sl(1) by (simp add: Cons_nth_drop_Suc [symmetric] w(3) host_group(3) [OF assms(1) sl(1) e(1,2)])
    moreover have "ft_getPortState (?rtr l i) p \<noteq> R2N" using p(2) by (cases l) (simp_all add: ft_getPortState_def)
    note hop = way_hop [where rtr = ?rtr and credits = credits and k = k, OF p(1) this w(1)]
    have rest: "way_ok downs (Suc l + 2 * meet (drop (Suc (Suc l)) downs) (i' div group_routers ups (Suc l)) (?e div hosts_below downs (Suc (Suc l)))) (Suc l) ev
        (ft_travel downs ups ?rtr credits (Suc k) (Suc l) i' (ev\<lparr>ge_next_port := p\<rparr>))"
      using Suc.hyps(1) [OF sl(2) _ w(2), of "ev\<lparr>ge_next_port := p\<rparr>" "Suc k"] Suc.prems(1) by (simp add: way_ok_port)
    ultimately show ?thesis using hop [OF rest] p(2) by (simp add: tree_rank_def)
  qed
qed (simp add: in_level_def)

section \<open>Construction\<close>

text \<open>How a shape is written: the levels from the endpoints to the top, which has no up links.\<close>

fun formatTree :: "(int \<times> int) list \<Rightarrow> string" where
  "formatTree [] = []"
| "formatTree [(d, u)] = decimal (nat d)"
| "formatTree ((d, u) # ls) = decimal (nat d) @ CHR '','' # decimal (nat u) @ CHR '':'' # formatTree ls"

lemma decimal_plain: "CHR '','' \<notin> set (decimal n)" "CHR '':'' \<notin> set (decimal n)"
  using decimal_digits [of n] digit_other [of "CHR '',''"] digit_other [of "CHR '':''"] by auto

lemma takeWhile_plain: "c \<notin> set xs \<Longrightarrow> takeWhile (\<lambda>x. x \<noteq> c) xs = xs" "c \<notin> set xs \<Longrightarrow> takeWhile (\<lambda>x. x \<noteq> c) (xs @ c # ys) = xs"
  by (induction xs) auto

lemma parse_formatTree:
  assumes "ls \<noteq> []" "\<forall>(d, u) \<in> set ls. 0 < d \<and> d < 2 ^ 31 \<and> u < 2 ^ 31" "\<forall>(d, u) \<in> set (butlast ls). 0 < u" "snd (last ls) = 0"
  shows "parseShape (length ls) (length pre) (pre @ formatTree ls) = ls" "count_list (formatTree ls) (CHR '':'') + 1 = length ls"
proof -
  show "parseShape (length ls) (length pre) (pre @ formatTree ls) = ls"
    using assms
  proof (induction ls arbitrary: pre rule: formatTree.induct)
    case (2 d u)
    have "strtol0 ''0'' = 0" by code_simp
    then show ?case using 2 strtol0_int [of d] by (simp add: takeWhile_plain decimal_plain)
  next
    case (3 d u l ls)
    let ?sub = "decimal (nat d) @ CHR '','' # decimal (nat u)"
    define n where "n = length (l # ls)"
    have "parseShape n (length (pre @ ?sub @ [CHR '':''])) ((pre @ ?sub @ [CHR '':'']) @ formatTree (l # ls)) = l # ls"
      unfolding n_def using 3(2-5) by (intro 3(1)) auto
    moreover have "takeWhile (\<lambda>c. c \<noteq> CHR '':'') (?sub @ CHR '':'' # formatTree (l # ls)) = ?sub"
      by (rule takeWhile_plain) (simp add: decimal_plain)
    moreover have "length ((d, u) # l # ls) = Suc n" by (simp add: n_def)
    ultimately show ?case using 3(3,4) strtol0_int [of d] strtol0_int [of u] by (simp add: Let_def takeWhile_plain decimal_plain del: length_Cons)
  qed simp
  show "count_list (formatTree ls) (CHR '':'') + 1 = length ls"
    using assms(1) decimal_plain by (induction ls rule: formatTree.induct) (auto simp: count_list_0_iff)
qed

lemma level_routers_step:
  assumes "shape_good downs ups" "Suc l < length downs"
  shows "level_routers downs ups l * ups ! l = level_routers downs ups (Suc l) * downs ! Suc l"
  using group_routers_Suc [of l ups] groups_Suc [OF assms(2)] assms(2) levels(1) [OF assms(1)] by (simp add: level_routers_def)

lemma level_routers_pos: "shape_good downs ups \<Longrightarrow> l < length downs \<Longrightarrow> 0 < level_routers downs ups l"
  using group_routers_pos groups_pos by (simp add: level_routers_def)

lemma routers_above_ok:
  assumes "shape_good downs ups" "l < length downs"
  shows "routers_above (level_routers downs ups l) (ups ! l) (drop (Suc l) (zip downs ups)) = Inr (map (level_routers downs ups) [Suc l..<length downs])"
  using assms(2)
proof (induction "length downs - Suc l" arbitrary: l)
  case (Suc n)
  then have l: "Suc l < length downs" "n = length downs - Suc (Suc l)" by auto
  note d = levels(3) [OF assms(1) l(1)]
  have "drop (Suc l) (zip downs ups) = (downs ! Suc l, ups ! Suc l) # drop (Suc (Suc l)) (zip downs ups)"
    using l(1) levels(1) [OF assms(1)] by (simp add: Cons_nth_drop_Suc [symmetric])
  moreover have "(level_routers downs ups l * ups ! l) sdiv downs ! Suc l = level_routers downs ups (Suc l)"
    unfolding level_routers_step [OF assms(1) l(1)] using level_routers_pos [OF assms(1) l(1)] d by (simp add: sdiv_nonneg)
  ultimately show ?case using Suc.hyps(1) [OF l(2,1)] d l(1) by (simp add: upt_conv_Cons)
qed simp

lemma routers_per_level_ok:
  assumes "shape_good downs ups" shows "routers_per_level (zip downs ups) = Inr (map (level_routers downs ups) [0..<length downs])"
proof -
  have n: "0 < length downs" "length ups = length downs" "0 < downs ! 0" using levels [OF assms] by blast+
  then have z: "zip downs ups = (downs ! 0, ups ! 0) # drop (Suc 0) (zip downs ups)" by (cases downs; cases ups) auto
  have "prod_list downs = downs ! 0 * level_routers downs ups 0" using n by (cases downs) (simp_all add: level_routers_def groups_def)
  then have "prod_list downs sdiv downs ! 0 = level_routers downs ups 0" using n level_routers_pos [OF assms n(1)] by (simp add: sdiv_nonneg)
  moreover have "map fst (zip downs ups) = downs" using n by simp
  ultimately show ?thesis unfolding routers_per_level_def using routers_above_ok [OF assms n(1)] n(1,3)
    by (subst z) (simp add: upt_conv_Cons del: map_fst_zip)
qed

lemma find_level_ok:
  assumes "shape_good downs ups" "in_level downs ups m i" "l \<le> m"
  shows "find_level ((\<Sum>k < m. level_routers downs ups k) + i) (map (level_routers downs ups) [l..<length downs]) (drop l ups)
    (\<Sum>k < l. level_routers downs ups k) (group_routers ups l) l = Inr (m, i, i div group_routers ups m)"
  using assms(3)
proof (induction "m - l" arbitrary: l)
  case 0
  have l: "l = m" "m < length downs" "0 \<le> i" "i < level_routers downs ups m" "m < length ups" using 0 assms(2) levels(1) [OF assms(1)] by (auto simp: in_level_def)
  have "drop m ups = ups ! m # drop (Suc m) ups" using l(5) by (simp add: Cons_nth_drop_Suc)
  then show ?case using l group_routers_pos [OF assms(1) l(2)] by (simp add: upt_conv_Cons sdiv_nonneg)
next
  case (Suc n)
  let ?R = "level_routers downs ups"
  have l: "n = m - Suc l" "l < m" "l < length downs" "l < length ups" "0 \<le> i" using Suc.hyps(2) assms(2) levels(1) [OF assms(1)] by (auto simp: in_level_def)
  have "sum ?R {..<Suc l} \<le> sum ?R {..<m}"
  proof (rule sum_mono2)
    show "0 \<le> ?R k" if "k \<in> {..<m} - {..<Suc l}" for k using that assms(2) level_routers_pos [OF assms(1), of k] by (simp add: in_level_def)
  qed (use l(2) in auto)
  moreover have "drop l ups = ups ! l # drop (Suc l) ups" using l(4) by (simp add: Cons_nth_drop_Suc)
  ultimately show ?case using Suc.hyps(1) [OF l(1)] l(2-5) by (simp add: upt_conv_Cons group_routers_Suc lessThan_Suc add.commute)
qed

text \<open>
  Construction from the shape: router \<open>i\<close> of level \<open>l\<close>, by its number in the network, finds its level,
  its group and the endpoints below it.
\<close>
theorem fattree_from_shape:
  assumes "shape_good downs ups" and "\<forall>d \<in> set downs \<union> set ups. d < 2 ^ 31" and "in_level downs ups l i"
    and "routing_algs alg vns = Inr algs" and "vn_infos 0 algs = Inr infos"
  shows "topo_fattree_new (formatTree (zip downs ups)) alg (downs ! l + ups ! l) ((\<Sum>k < l. level_routers downs ups k) + i) vns =
    Inr (tree_router downs ups infos l i)"
proof -
  have n: "0 < length downs" "length ups = length downs" and l: "l < length downs" using levels [OF assms(1)] assms(3) by (auto simp: in_level_def)
  let ?ls = "zip downs ups"
  have "ups \<noteq> []" using n by auto
  then have "?ls \<noteq> []" "\<forall>(d, u) \<in> set ?ls. 0 < d \<and> d < 2 ^ 31 \<and> u < 2 ^ 31" "\<forall>(d, u) \<in> set (butlast ?ls). 0 < u" "snd (last ?ls) = 0"
    using n assms(1,2) by (auto simp: shape_good_def butlast_conv_take take_zip last_zip dest: set_zip_leftD set_zip_rightD)
  note p = parse_formatTree [OF this]
  have "hosts_below downs (Suc l) sdiv downs ! l = hosts_below downs l"
    using hosts_below_Suc [OF l] hosts_below_pos [OF assms(1), of l] levels(3) [OF assms(1) l] by (simp add: sdiv_nonneg)
  then show ?thesis
    using p(1) [of "[]"] p(2) n assms(4,5) routers_per_level_ok [OF assms(1)] find_level_ok [OF assms(1,3), of 0]
    by (simp add: topo_fattree_new_def tree_router_def Let_def hosts_below_def)
qed

section \<open>Broadcasts\<close>

text \<open>A copy of a broadcast from port \<open>port0\<close> of edge router \<open>i0\<close>, known by the ports it took.\<close>

inductive tree_copy :: "int list \<Rightarrow> int list \<Rightarrow> (nat \<Rightarrow> int \<Rightarrow> Fattree) \<Rightarrow> int \<Rightarrow> int \<Rightarrow> 'e RtrPacket_scheme \<Rightarrow>
    int list \<Rightarrow> nat \<Rightarrow> int \<Rightarrow> int \<Rightarrow> 'e RtrPacket_scheme \<Rightarrow> bool" for downs ups rtr i0 port0 ev0 where
  start: "tree_copy downs ups rtr i0 port0 ev0 [] 0 i0 port0 ev0"
| onward: "tree_copy downs ups rtr i0 port0 ev0 ps l i port ev \<Longrightarrow> ft_routeUntimedData (rtr l i) port ev = Inr (ev', outs) \<Longrightarrow> p \<in> set outs \<Longrightarrow>
    tree_wire downs ups l i p = Some (l', i', port') \<Longrightarrow> tree_copy downs ups rtr i0 port0 ev0 (ps @ [p]) l' i' port' ev'"

text \<open>
  From endpoint \<open>s\<close>: the port the copy on its way up arrives on, that way, and the way to group \<open>g\<close> of level \<open>l\<close>.
\<close>

definition up_arrival :: "int list \<Rightarrow> int \<Rightarrow> nat \<Rightarrow> int" where
  "up_arrival downs s l = s div hosts_below downs l mod downs ! l"

definition up_way :: "int list \<Rightarrow> int list \<Rightarrow> int \<Rightarrow> nat \<Rightarrow> int list" where
  "up_way downs ups s l = map (\<lambda>k. downs ! k + up_arrival downs s k mod ups ! k) [0..<l]"

function tree_path :: "int list \<Rightarrow> int list \<Rightarrow> int \<Rightarrow> nat \<Rightarrow> int \<Rightarrow> int list" where
  "tree_path downs ups s l g = (if length downs \<le> Suc l \<or> g = s div hosts_below downs (Suc l) then up_way downs ups s l
     else tree_path downs ups s (Suc l) (g div downs ! Suc l) @ [g mod downs ! Suc l])"
  by pat_completeness auto
termination by (relation "measure (\<lambda>(downs, _, _, l, _). length downs - l)") auto

declare tree_path.simps [simp del]

lemma tree_path_on: "g = s div hosts_below downs (Suc l) \<Longrightarrow> tree_path downs ups s l g = up_way downs ups s l"
  by (simp add: tree_path.simps)

lemma tree_path_off: "g \<noteq> s div hosts_below downs (Suc l) \<Longrightarrow> Suc l < length downs \<Longrightarrow>
    tree_path downs ups s l g = tree_path downs ups s (Suc l) (g div downs ! Suc l) @ [g mod downs ! Suc l]"
  by (simp add: tree_path.simps [of _ _ _ l])

definition copy_ok :: "int list \<Rightarrow> int list \<Rightarrow> int \<Rightarrow> int list \<Rightarrow> nat \<Rightarrow> int \<Rightarrow> int \<Rightarrow> bool" where
  "copy_ok downs ups s ps l i port \<longleftrightarrow> in_level downs ups l i \<and> ps = tree_path downs ups s l (i div group_routers ups l) \<and>
     (if i div group_routers ups l = s div hosts_below downs (Suc l) then port = up_arrival downs s l else downs ! l \<le> port)"

lemma broadcast_outs:
  assumes "shape_good downs ups" "copy_ok downs ups s ps l i port" "ge_dest ev = UNTIMED_BROADCAST_ADDR"
  defines "on \<equiv> i div group_routers ups l = s div hosts_below downs (Suc l)"
  shows "\<exists>outs. ft_routeUntimedData (tree_at downs ups infos thr l i) port ev = Inr (ev, outs) \<and>
    (\<forall>p. p \<in> set outs \<longleftrightarrow> 0 \<le> p \<and> p < downs ! l \<and> \<not> (on \<and> p = up_arrival downs s l) \<or>
       on \<and> Suc l < length downs \<and> p = downs ! l + up_arrival downs s l mod ups ! l)"
proof -
  have l: "l < length downs" using assms(2) by (simp add: copy_ok_def in_level_def)
  have d: "0 < downs ! l" using levels(3) [OF assms(1) l] .
  then have q: "0 \<le> up_arrival downs s l" "up_arrival downs s l < downs ! l" by (simp_all add: up_arrival_def)
  have u: "ups ! l \<noteq> 0 \<longleftrightarrow> Suc l < length downs" "Suc l < length downs \<Longrightarrow> 0 < ups ! l"
    using levels(4,5) [OF assms(1), of l] l by (metis Suc_lessI less_irrefl)+
  have set: "set (map int [0..<nat (downs ! l)]) = {p. 0 \<le> p \<and> p < downs ! l}" using d by (auto simp: image_int_atLeastLessThan)
  have port: "if on then port = up_arrival downs s l else downs ! l \<le> port" using assms(2) by (simp add: copy_ok_def on_def)
  then show ?thesis using q u assms(3) set
    by (cases on; cases "Suc l < length downs") (auto simp: ft_routeUntimedData_def smod_nonneg simp del: set_map)
qed

lemma copy_onward:
  assumes "shape_good downs ups" "copy_ok downs ups s ps l i port" "0 \<le> s" "s < prod_list downs"
    and "0 \<le> p \<and> p < downs ! l \<and> \<not> (i div group_routers ups l = s div hosts_below downs (Suc l) \<and> p = up_arrival downs s l)"
    and "tree_wire downs ups l i p = Some (l', i', port')"
  shows "copy_ok downs ups s (ps @ [p]) l' i' port' \<and> l = Suc l' \<and> i' div group_routers ups l' = i div group_routers ups l * downs ! l + p"
proof (cases l)
  case 0
  then show ?thesis using assms(5,6) by (simp add: tree_wire_def Let_def)
next
  case (Suc k)
  let ?g = "i div group_routers ups l"
  have i: "in_level downs ups (Suc k) i" "Suc k < length downs" using assms(2) Suc by (auto simp: copy_ok_def in_level_def)
  have w: "l' = k" "in_level downs ups k i'" "i' div group_routers ups k = ?g * downs ! Suc k + p" "downs ! k \<le> port'"
    using wire_down [OF assms(1) i(1), of p] assms(5,6) unfolding Suc by auto
  have d: "0 < downs ! Suc k" "p < downs ! Suc k" "0 \<le> p" using levels(3) [OF assms(1) i(2)] assms(5) Suc by auto
  then have g: "(?g * downs ! Suc k + p) div downs ! Suc k = ?g" "(?g * downs ! Suc k + p) mod downs ! Suc k = p"
    by (simp_all add: div_pos_pos_trivial mod_pos_pos_trivial)
  have off: "?g * downs ! Suc k + p \<noteq> s div hosts_below downs (Suc k)"
  proof
    assume eq: "?g * downs ! Suc k + p = s div hosts_below downs (Suc k)"
    then have "?g = s div hosts_below downs (Suc l)" "p = up_arrival downs s l"
      using g host_group(3) [OF assms(1) i(2) assms(3,4)] unfolding Suc up_arrival_def by metis+
    then show False using assms(5) by simp
  qed
  have "ps = tree_path downs ups s (Suc k) ?g" using assms(2) Suc by (simp add: copy_ok_def)
  then show ?thesis using w off g tree_path_off [OF off i(2), of ups] Suc by (simp add: copy_ok_def)
qed

lemma copy_up:
  assumes "shape_good downs ups" "copy_ok downs ups s ps l i port" "0 \<le> s" "s < prod_list downs"
    and "i div group_routers ups l = s div hosts_below downs (Suc l)" "Suc l < length downs"
  defines "p \<equiv> downs ! l + up_arrival downs s l mod ups ! l"
  shows "\<exists>i' port'. tree_wire downs ups l i p = Some (Suc l, i', port') \<and> copy_ok downs ups s (ps @ [p]) (Suc l) i' port' \<and>
    i' div group_routers ups (Suc l) = s div hosts_below downs (Suc (Suc l))"
proof -
  have i: "in_level downs ups l i" using assms(2) by (simp add: copy_ok_def)
  have "0 < ups ! l" using levels(4) [OF assms(1,6)] .
  then obtain i' port' where w: "tree_wire downs ups l i p = Some (Suc l, i', port')" "in_level downs ups (Suc l) i'"
    "i' div group_routers ups (Suc l) = i div group_routers ups l div downs ! Suc l" "port' = i div group_routers ups l mod downs ! Suc l"
    using wire_up [OF assms(1) i assms(6), of "up_arrival downs s l mod ups ! l"] by (auto simp: p_def)
  have g: "i' div group_routers ups (Suc l) = s div hosts_below downs (Suc (Suc l))"
    using w(3) assms(5) host_group(3) [OF assms(1,6,3,4)] by simp
  have "ps = up_way downs ups s l" using assms(2,5) by (simp add: copy_ok_def tree_path_on)
  then have "copy_ok downs ups s (ps @ [p]) (Suc l) i' port'"
    using w g assms(5) by (simp add: copy_ok_def tree_path_on up_way_def p_def up_arrival_def)
  then show ?thesis using w g by blast
qed

lemma copies_ok:
  assumes "shape_good downs ups" "0 \<le> s" "s < prod_list downs" "ge_dest ev0 = UNTIMED_BROADCAST_ADDR"
    and "tree_copy downs ups (tree_at downs ups infos thr) (s div downs ! 0) (s mod downs ! 0) ev0 ps l i port ev"
  shows "copy_ok downs ups s ps l i port \<and> ev = ev0"
  using assms(5)
proof (induction rule: tree_copy.induct)
  case start
  have n: "0 < length downs" "hosts_below downs (Suc 0) = downs ! 0" using levels(2) [OF assms(1)] hosts_below_Suc [of 0 downs] by auto
  have "in_level downs ups 0 (s div downs ! 0)" using host_group(1,2) [OF assms(1) n(1) assms(2,3)] n by (simp add: in_level_def level_routers_def)
  then show ?case using n by (simp add: copy_ok_def tree_path_on up_way_def up_arrival_def)
next
  case (onward ps l i port ev ev' outs p l' i' port')
  then have c: "copy_ok downs ups s ps l i port" "ev = ev0" by auto
  let ?on = "i div group_routers ups l = s div hosts_below downs (Suc l)"
  have "ge_dest ev = UNTIMED_BROADCAST_ADDR" using c(2) assms(4) by simp
  from broadcast_outs [OF assms(1) c(1) this, of infos thr] onward.hyps(2,3) have p: "ev' = ev"
    "0 \<le> p \<and> p < downs ! l \<and> \<not> (?on \<and> p = up_arrival downs s l) \<or> ?on \<and> Suc l < length downs \<and> p = downs ! l + up_arrival downs s l mod ups ! l" by auto
  then show ?case using copy_onward [OF assms(1) c(1) assms(2,3) _ onward.hyps(4)] copy_up [OF assms(1) c(1) assms(2,3)] onward.hyps(4) c(2) by fastforce
qed

lemma copy_arrives:
  assumes "shape_good downs ups" "0 \<le> s" "s < prod_list downs" "ge_dest ev = UNTIMED_BROADCAST_ADDR" "l < length downs" "0 \<le> g" "g < groups downs l"
  shows "\<exists>ps i port. tree_copy downs ups (tree_at downs ups infos thr) (s div downs ! 0) (s mod downs ! 0) ev ps l i port ev \<and> i div group_routers ups l = g"
proof -
  let ?copy = "tree_copy downs ups (tree_at downs ups infos thr) (s div downs ! 0) (s mod downs ! 0) ev"
  have up: "\<exists>ps i port. ?copy ps l i port ev \<and> i div group_routers ups l = s div hosts_below downs (Suc l)" if "l < length downs" for l
    using that
  proof (induction l)
    case 0
    then show ?case using tree_copy.start [of downs ups "tree_at downs ups infos thr" "s div downs ! 0" "s mod downs ! 0" ev]
      by (intro exI [of _ "[]"]) (auto simp: hosts_below_Suc)
  next
    case (Suc l)
    then obtain ps i port where c: "?copy ps l i port ev" "i div group_routers ups l = s div hosts_below downs (Suc l)" by auto
    note ok = copies_ok [OF assms(1-4) c(1), THEN conjunct1]
    from copy_up [OF assms(1) ok assms(2,3) c(2) Suc.prems] broadcast_outs [OF assms(1) ok assms(4), of infos thr] c Suc.prems
    show ?case by (blast intro: tree_copy.onward)
  qed
  show ?thesis
    using assms(5-7)
  proof (induction "length downs - l" arbitrary: l g)
    case (Suc n)
    show ?case
    proof (cases "g = s div hosts_below downs (Suc l)")
      case False
      have "Suc l < length downs"
      proof (rule ccontr)
        assume "\<not> Suc l < length downs"
        then have "groups downs l = 1" using Suc.prems(1) by (intro groups_top) simp
        then show False using host_group(1,2) [OF assms(1) Suc.prems(1) assms(2,3)] Suc.prems(2,3) False by linarith
      qed
      then have l: "Suc l < length downs" "n = length downs - Suc l" "0 < downs ! Suc l" using Suc.hyps(2) levels(3) [OF assms(1)] by auto
      have "0 \<le> g div downs ! Suc l" "g div downs ! Suc l < groups downs (Suc l)"
        using Suc.prems groups_Suc [OF l(1)] l(3) by (auto intro: div_below simp: pos_imp_zdiv_nonneg_iff)
      then obtain ps i port where c: "?copy ps (Suc l) i port ev" "i div group_routers ups (Suc l) = g div downs ! Suc l" using Suc.hyps(1) [OF l(2,1)] by blast
      note ok = copies_ok [OF assms(1-4) c(1), THEN conjunct1]
      define p where "p = g mod downs ! Suc l"
      have p: "0 \<le> p" "p < downs ! Suc l" "i div group_routers ups (Suc l) * downs ! Suc l + p = g" using l(3) c(2) by (simp_all add: p_def div_mult_mod_eq)
      have "\<not> (i div group_routers ups (Suc l) = s div hosts_below downs (Suc (Suc l)) \<and> p = up_arrival downs s (Suc l))"
        using False p(3) host_group(3) [OF assms(1) l(1) assms(2,3)] by (auto simp: up_arrival_def div_mult_mod_eq)
      moreover have "in_level downs ups (Suc l) i" using ok by (simp add: copy_ok_def)
      from wire_down [OF assms(1) this p(1,2)] p(3) obtain i' port' where "tree_wire downs ups (Suc l) i p = Some (l, i', port')" "i' div group_routers ups l = g" by auto
      ultimately show ?thesis using broadcast_outs [OF assms(1) ok assms(4), of infos thr] c(1) p(1,2) by (blast intro: tree_copy.onward)
    qed (use up Suc.prems(1) in blast)
  qed simp
qed

section \<open>Properties\<close>

text \<open>
  C36 Every packet in a fat tree arrives, whatever the credits in the network and however they change:
  adaptive or not, it climbs to the lowest level from which its endpoint can be reached, and no
  further, and comes down to the port of its endpoint, on the channel of its network.
\<close>
theorem fattree_delivers:
  assumes "shape_good downs ups" and "per_channel downs ups (length infos) thr" and "\<forall>k. per_channel downs ups (length infos) (credits k)"
    and "0 \<le> s" and "s < prod_list downs" and "0 \<le> ge_dest ev" and "ge_dest ev < prod_list downs" and "0 \<le> ge_vn ev" and "ge_vn ev < int (length infos)"
  shows "\<exists>cs ev'. ft_travel downs ups (tree_at downs ups infos thr) credits 0 0 (s div downs ! 0) (ft_process_input ev) = Some (Inr (cs, ge_dest ev div downs ! 0, ev')) \<and>
    ft_getEndpointID (tree_at downs ups infos thr 0 (ge_dest ev div downs ! 0)) (ge_next_port ev') = ge_dest ev \<and> ge_vc ev' = ge_vn ev \<and>
    length cs = 2 * meet (tl downs) (s div downs ! 0) (ge_dest ev div downs ! 0)"
proof -
  have n: "0 < length downs" "hosts_below downs (Suc 0) = downs ! 0" using levels(2) [OF assms(1)] hosts_below_Suc [of 0 downs] by auto
  have "in_level downs ups 0 (s div downs ! 0)" using host_group(1,2) [OF assms(1) n(1) assms(4,5)] n by (simp add: in_level_def level_routers_def)
  moreover have "tree_packet downs infos (ft_process_input ev)" using assms(6-9) by (simp add: tree_packet_def ft_process_input_def)
  ultimately show ?thesis using way_up [OF assms(1-3), of "ft_process_input ev" 0 "s div downs ! 0" 0] n
    by (auto simp: way_ok_def ft_process_input_def ft_getEndpointID_def drop_Suc div_mult_mod_eq)
qed

text \<open>What may wait for what: two channels that follow one another on the way of some packet.\<close>

definition tree_deps :: "int list \<Rightarrow> int list \<Rightarrow> vn_info list \<Rightarrow> (nat \<Rightarrow> int \<Rightarrow> int list) \<Rightarrow> (tree_channel \<times> tree_channel) set" where
  "tree_deps downs ups infos thr = {(c, c'). \<exists>credits s (ev :: RtrPacket) cs x j. (\<forall>k. per_channel downs ups (length infos) (credits k)) \<and>
     0 \<le> s \<and> s < prod_list downs \<and> 0 \<le> ge_dest ev \<and> ge_dest ev < prod_list downs \<and> 0 \<le> ge_vn ev \<and> ge_vn ev < int (length infos) \<and>
     ft_travel downs ups (tree_at downs ups infos thr) credits 0 0 (s div downs ! 0) (ft_process_input ev) = Some (Inr (cs, x)) \<and>
     Suc j < length cs \<and> c = cs ! j \<and> c' = cs ! Suc j}"

text \<open>
  C27 A fat tree cannot deadlock, with one channel per network and with adaptive routing: no cycle of
  channels waits for one another, whatever packets are under way and whatever the credits are.
\<close>
theorem fattree_deadlock_free:
  assumes "shape_good downs ups" and "per_channel downs ups (length infos) thr"
  shows "acyclic (tree_deps downs ups infos thr)"
proof -
  have n: "0 < length downs" "hosts_below downs (Suc 0) = downs ! 0" using levels(2) [OF assms(1)] hosts_below_Suc [of 0 downs] by auto
  have "tree_rank downs c < tree_rank downs c'" if "(c, c') \<in> tree_deps downs ups infos thr" for c c'
  proof -
    from that obtain credits s and ev :: RtrPacket and cs x j where d: "\<forall>k. per_channel downs ups (length infos) (credits k)"
      "0 \<le> s" "s < prod_list downs" "0 \<le> ge_dest ev" "ge_dest ev < prod_list downs" "0 \<le> ge_vn ev" "ge_vn ev < int (length infos)"
      "ft_travel downs ups (tree_at downs ups infos thr) credits 0 0 (s div downs ! 0) (ft_process_input ev) = Some (Inr (cs, x))"
      "Suc j < length cs" "c = cs ! j" "c' = cs ! Suc j" by (auto simp: tree_deps_def)
    have "in_level downs ups 0 (s div downs ! 0)" using host_group(1,2) [OF assms(1) n(1) d(2,3)] n by (simp add: in_level_def level_routers_def)
    moreover have "tree_packet downs infos (ft_process_input ev)" using d(4-7) by (simp add: tree_packet_def ft_process_input_def)
    ultimately have "sorted_wrt (<) (map (tree_rank downs) cs)" using way_up [OF assms d(1), of "ft_process_input ev" 0 "s div downs ! 0" 0] d(8) by (auto simp: way_ok_def)
    then show ?thesis using d(9-11) by (auto simp: sorted_wrt_iff_nth_less)
  qed
  then show ?thesis using acyclicI_order [of "(tree_deps downs ups infos thr)\<inverse>" "tree_rank downs"] by auto
qed

text \<open>The copy of the broadcast of \<open>s\<close> that took \<open>ps\<close> is handed to endpoint \<open>e\<close>.\<close>

definition handed :: "int list \<Rightarrow> int list \<Rightarrow> (nat \<Rightarrow> int \<Rightarrow> Fattree) \<Rightarrow> 'e RtrPacket_scheme \<Rightarrow> int \<Rightarrow> int \<Rightarrow> int list \<Rightarrow> bool" where
  "handed downs ups rtr ev s e ps \<longleftrightarrow> (\<exists>port ev1 ev2 outs. tree_copy downs ups rtr (s div downs ! 0) (s mod downs ! 0) ev ps 0 (e div downs ! 0) port ev1 \<and>
     ft_routeUntimedData (rtr 0 (e div downs ! 0)) port ev1 = Inr (ev2, outs) \<and> e mod downs ! 0 \<in> set outs)"

text \<open>
  A broadcast from endpoint \<open>s\<close> is handed to every other endpoint exactly once, over one way, and
  never back to \<open>s\<close>.
\<close>
theorem fattree_broadcast_once:
  fixes ev :: "'e RtrPacket_scheme"
  assumes "shape_good downs ups" and "0 \<le> s" and "s < prod_list downs" and "ge_dest ev = UNTIMED_BROADCAST_ADDR" and "0 \<le> e" and "e < prod_list downs"
  shows "if e = s then \<nexists>ps. handed downs ups (tree_at downs ups infos thr) ev s e ps else \<exists>!ps. handed downs ups (tree_at downs ups infos thr) ev s e ps"
proof -
  have n: "0 < length downs" "hosts_below downs (Suc 0) = downs ! 0" "0 < downs ! 0"
    using levels(2,3) [OF assms(1)] hosts_below_Suc [of 0 downs] by auto
  have eq: "e = s \<longleftrightarrow> e div downs ! 0 = s div downs ! 0 \<and> e mod downs ! 0 = s mod downs ! 0" by (metis div_mult_mod_eq)
  have h: "handed downs ups (tree_at downs ups infos thr) ev s e ps \<Longrightarrow> ps = tree_path downs ups s 0 (e div downs ! 0) \<and> e \<noteq> s" for ps
  proof -
    assume "handed downs ups (tree_at downs ups infos thr) ev s e ps"
    then obtain port ev1 ev2 outs where c: "tree_copy downs ups (tree_at downs ups infos thr) (s div downs ! 0) (s mod downs ! 0) ev ps 0 (e div downs ! 0) port ev1"
      "ft_routeUntimedData (tree_at downs ups infos thr 0 (e div downs ! 0)) port ev1 = Inr (ev2, outs)" "e mod downs ! 0 \<in> set outs" by (auto simp: handed_def)
    have ok: "copy_ok downs ups s ps 0 (e div downs ! 0) port" "ev1 = ev" using copies_ok [OF assms(1-4) c(1)] by auto
    have "e mod downs ! 0 < downs ! 0" "Suc 0 < length downs \<Longrightarrow> 0 \<le> up_arrival downs s 0 mod ups ! 0"
      using n(3) levels(4) [OF assms(1), of 0] by simp_all
    moreover have "up_arrival downs s 0 = s mod downs ! 0" by (simp add: up_arrival_def)
    ultimately have "\<not> (e div downs ! 0 = s div downs ! 0 \<and> e mod downs ! 0 = s mod downs ! 0)"
      using broadcast_outs [OF assms(1) ok(1) assms(4), of infos thr] c(2,3) n(2) unfolding ok(2) by (smt (verit) Pair_inject group_routers_0 div_by_1 sum.inject(2))
    then show ?thesis using ok(1) eq by (simp add: copy_ok_def)
  qed
  moreover have "\<exists>ps. handed downs ups (tree_at downs ups infos thr) ev s e ps" if "e \<noteq> s"
  proof -
    have "0 \<le> e div downs ! 0" "e div downs ! 0 < groups downs 0" using host_group(1,2) [OF assms(1) n(1) assms(5,6)] n by auto
    then obtain ps i port where c: "tree_copy downs ups (tree_at downs ups infos thr) (s div downs ! 0) (s mod downs ! 0) ev ps 0 i port ev" "i = e div downs ! 0"
      using copy_arrives [OF assms(1-4) n(1), of "e div downs ! 0" infos thr] by auto
    have "copy_ok downs ups s ps 0 i port" using copies_ok [OF assms(1-4) c(1)] by auto
    from broadcast_outs [OF assms(1) this assms(4), of infos thr] obtain outs
      where o: "ft_routeUntimedData (tree_at downs ups infos thr 0 i) port ev = Inr (ev, outs)"
        "\<And>p. 0 \<le> p \<Longrightarrow> p < downs ! 0 \<Longrightarrow> \<not> (i = s div downs ! 0 \<and> p = s mod downs ! 0) \<Longrightarrow> p \<in> set outs" using n(2) by (auto simp: up_arrival_def)
    have "e mod downs ! 0 \<in> set outs" using o(2) [of "e mod downs ! 0"] that eq n(3) c(2) by simp
    then show ?thesis using o(1) c unfolding handed_def by blast
  qed
  ultimately show ?thesis by metis
qed

section \<open>Examples\<close>

text \<open>The tree \<open>2,2:2,3:2\<close> of 8 endpoints, with credits below the thresholds at every port.\<close>

abbreviation demo_downs :: "int list" where
  "demo_downs \<equiv> [2, 2, 2]"

abbreviation demo_ups :: "int list" where
  "demo_ups \<equiv> [2, 3, 0]"

definition demo_tree_array :: "int \<Rightarrow> nat \<Rightarrow> int \<Rightarrow> int list" where
  "demo_tree_array c l i = replicate (nat (demo_downs ! l + demo_ups ! l)) c"

definition demo_infos :: "vn_info list" where
  "demo_infos = [\<lparr>vi_start_vc = 0, vi_num_vcs = 1, allow_adaptive = True\<rparr>]"

definition demo_tree_event :: RtrPacket where
  "demo_tree_event = \<lparr>ge_dest = 7, ge_vn = 0, ge_vc = 0, ge_next_port = 0, ge_src = 0, ge_flits = 1, ge_bits = 64, ge_credit_vc = 0\<rparr>"

lemma demo_tree: "shape_good demo_downs demo_ups" "per_channel demo_downs demo_ups (length demo_infos) (demo_tree_array c)"
  by (auto simp: shape_good_def per_channel_def demo_infos_def demo_tree_array_def less_Suc_eq)

theorem fattree_delivers_witness:
  "\<exists>cs ev'. ft_travel demo_downs demo_ups (tree_at demo_downs demo_ups demo_infos (demo_tree_array 4)) (\<lambda>k. demo_tree_array (int k)) 0 0 0 (ft_process_input demo_tree_event) =
     Some (Inr (cs, 3, ev')) \<and> length cs = 4"
proof -
  have "\<forall>k. per_channel demo_downs demo_ups (length demo_infos) (demo_tree_array (int k))" using demo_tree(2) by blast
  from fattree_delivers [OF demo_tree(1) demo_tree(2) this, of 0 demo_tree_event 4] show ?thesis by (auto simp: demo_tree_event_def demo_infos_def)
qed

theorem fattree_deadlock_free_witness: "acyclic (tree_deps demo_downs demo_ups demo_infos (demo_tree_array 4))"
  using fattree_deadlock_free [OF demo_tree] .

theorem fattree_broadcast_once_witness:
  "\<exists>!ps. handed demo_downs demo_ups (tree_at demo_downs demo_ups demo_infos (demo_tree_array 4)) (demo_tree_event\<lparr>ge_dest := UNTIMED_BROADCAST_ADDR\<rparr>) 1 6 ps"
  using fattree_broadcast_once [OF demo_tree(1), of 1 "demo_tree_event\<lparr>ge_dest := UNTIMED_BROADCAST_ADDR\<rparr>" 6 demo_infos "demo_tree_array 4"] by simp

theorem fattree_from_shape_witness:
  "topo_fattree_new ''2,2:2,3:2'' (Inl ''adaptive'') 5 6 1 = Inr (tree_router demo_downs demo_ups demo_infos 1 2)"
proof -
  have "formatTree (zip demo_downs demo_ups) = ''2,2:2,3:2''" by code_simp
  moreover have "in_level demo_downs demo_ups 1 2" by (simp add: in_level_def level_routers_def group_routers_def groups_def)
  ultimately show ?thesis using fattree_from_shape [OF demo_tree(1), of 1 2 "Inl ''adaptive''" 1 "[''adaptive'']" demo_infos]
    by (simp add: routing_algs_def demo_infos_def level_routers_def group_routers_def groups_def)
qed

end
