(* ===== verification/Merlin_Arb.thy ===== *)
theory Merlin_Arb
  imports MemH_Prelude
begin

text \<open>
  The single arbiters of \<^verbatim>\<open>merlin/arbitration\<close>: round robin and least recently used. An arbiter
  proposes one index after the other (\<open>next\<close>) until one is served (\<open>satisfied\<close>). The interface
  \<open>single_arbitration\<close> says what the output arbiters rely on: a round of \<open>n\<close> proposals covers every
  index once, and a round may be broken off by serving. Both arbiters are interpretations; the
  linked list in an array of the second is shown to be a queue.
\<close>

section \<open>Round robin\<close>

record RR =
  rr_size :: int
  rr_current :: int

definition rr_new :: "int \<Rightarrow> RR" where
  "rr_new n = \<lparr>rr_size = n, rr_current = -1\<rparr>"

text \<open>The members are \<open>int16_t\<close>.\<close>

definition rr_next :: "RR \<Rightarrow> int \<times> RR" where
  "rr_next s = (let c = signed_take_bit 15 (rr_current s + 1); c = (if c = rr_size s then 0 else c)
     in (c, s\<lparr>rr_current := c\<rparr>))"

definition rr_satisfied :: "RR \<Rightarrow> RR" where
  "rr_satisfied s = s"

section \<open>Least recently used\<close>

record LRU =
  lru_tail :: nat
  lru_current :: nat
  lru_last :: nat
  lru_order :: "nat list"

definition lru_new :: "nat \<Rightarrow> LRU" where
  "lru_new n = \<lparr>lru_tail = n, lru_current = 0, lru_last = n, lru_order = map Suc [0..<n] @ [1]\<rparr>"

definition lru_next :: "LRU \<Rightarrow> int \<times> LRU" where
  "lru_next s = (let c = lru_order s ! lru_current s in (int c - 1, s\<lparr>lru_last := lru_current s, lru_current := c\<rparr>))"

definition lru_satisfied :: "LRU \<Rightarrow> LRU" where
  "lru_satisfied s =
     (let c = lru_current s; ord = lru_order s in
      if c = 0 then s
      else let s = (if c = ord ! 0 then s\<lparr>lru_order := ord[0 := ord ! c], lru_tail := c\<rparr>
                    else if c = lru_tail s then s
                    else let ord = ord[lru_last s := ord ! c]; ord = ord[c := ord ! 0]; ord = ord[lru_tail s := c]
                         in s\<lparr>lru_order := ord, lru_tail := c\<rparr>)
           in s\<lparr>lru_current := 0, lru_last := lru_tail s\<rparr>)"

section \<open>The interface\<close>

definition calls :: "('s \<Rightarrow> int \<times> 's) \<Rightarrow> nat \<Rightarrow> 's \<Rightarrow> 's" where
  "calls nxt j = (snd \<circ> nxt) ^^ j"

lemma calls_0 [simp]: "calls nxt 0 s = s"
  by (simp add: calls_def)

lemma calls_Suc [simp]: "calls nxt (Suc j) s = snd (nxt (calls nxt j s))"
  by (simp add: calls_def)

locale single_arbitration =
  fixes nxt :: "'s \<Rightarrow> int \<times> 's" and satisfied :: "'s \<Rightarrow> 's" and ready :: "nat \<Rightarrow> 's \<Rightarrow> bool"
  assumes round_distinct: "ready n s \<Longrightarrow> distinct (map (\<lambda>j. fst (nxt (calls nxt j s))) [0..<n])"
    and round_range: "ready n s \<Longrightarrow> j < n \<Longrightarrow> 0 \<le> fst (nxt (calls nxt j s)) \<and> fst (nxt (calls nxt j s)) < int n"
    and round_ends: "ready n s \<Longrightarrow> ready n (calls nxt n s)"
    and served: "ready n s \<Longrightarrow> 0 < j \<Longrightarrow> j \<le> n \<Longrightarrow> ready n (satisfied (calls nxt j s))"
begin

text \<open>The order of the coming round.\<close>

definition round :: "nat \<Rightarrow> 's \<Rightarrow> nat list" where
  "round n s = map (\<lambda>j. nat (fst (nxt (calls nxt j s)))) [0..<n]"

lemma round_nth: "ready n s \<Longrightarrow> j < n \<Longrightarrow> fst (nxt (calls nxt j s)) = int (round n s ! j)"
  using round_range [of n s j] by (simp add: round_def)

lemma round_length [simp]: "length (round n s) = n"
  by (simp add: round_def)

lemma round_set:
  assumes "ready n s" shows "set (round n s) = {..<n}"
proof (rule card_subset_eq)
  show "set (round n s) \<subseteq> {..<n}" using round_range [OF assms] by (auto simp: round_def nat_less_iff)
  have "inj_on (\<lambda>j. nat (fst (nxt (calls nxt j s)))) {0..<n}"
    using round_distinct [OF assms] round_range [OF assms]
    by (auto simp: inj_on_def distinct_map eq_nat_nat_iff)
  then have "distinct (round n s)" by (simp add: round_def distinct_map)
  then show "card (set (round n s)) = card {..<n}" by (simp add: distinct_card)
qed simp

end

section \<open>Round robin visits all\<close>

definition rr_ready :: "nat \<Rightarrow> RR \<Rightarrow> bool" where
  "rr_ready n s \<longleftrightarrow> 0 < n \<and> n < 2 ^ 15 \<and> rr_size s = int n \<and> -1 \<le> rr_current s \<and> rr_current s < int n"

lemma rr_next_ready:
  assumes "rr_ready n s" shows "fst (rr_next s) = (rr_current s + 1) mod int n" "rr_current (snd (rr_next s)) = (rr_current s + 1) mod int n"
    "rr_ready n (snd (rr_next s))"
proof -
  have "signed_take_bit 15 (rr_current s + 1) = rr_current s + 1"
    by (rule signed_take_bit_int_eq_self) (use assms in \<open>auto simp: rr_ready_def\<close>)
  moreover have "(rr_current s + 1) mod int n = (if rr_current s + 1 = int n then 0 else rr_current s + 1)"
    using assms by (auto simp: rr_ready_def mod_pos_pos_trivial)
  ultimately show "fst (rr_next s) = (rr_current s + 1) mod int n" "rr_current (snd (rr_next s)) = (rr_current s + 1) mod int n"
    "rr_ready n (snd (rr_next s))"
    using assms by (auto simp: rr_next_def rr_ready_def Let_def)
qed

lemma rr_calls:
  "rr_ready n s \<Longrightarrow> rr_ready n (calls rr_next j s) \<and> fst (rr_next (calls rr_next j s)) = (rr_current s + 1 + int j) mod int n"
proof (induction j)
  case (Suc j)
  then have r: "rr_ready n (calls rr_next j s)" "fst (rr_next (calls rr_next j s)) = (rr_current s + 1 + int j) mod int n" by auto
  note 1 = rr_next_ready [OF r(1)]
  have "rr_current (snd (rr_next (calls rr_next j s))) = (rr_current s + 1 + int j) mod int n" using 1(1,2) r(2) by simp
  then show ?case using 1(3) rr_next_ready(1) [OF 1(3)] by (simp add: mod_simps add_ac)
qed (simp add: rr_next_ready)

interpretation rr: single_arbitration rr_next rr_satisfied rr_ready
proof
  fix n s assume r: "rr_ready n s"
  have n: "0 < int n" using r by (simp add: rr_ready_def)
  have "inj_on (\<lambda>j. (rr_current s + 1 + int j) mod int n) {0..<n}"
  proof (rule inj_onI)
    fix i j assume ij: "i \<in> {0..<n}" "j \<in> {0..<n}" "(rr_current s + 1 + int i) mod int n = (rr_current s + 1 + int j) mod int n"
    then have "int i mod int n = int j mod int n" by (metis add_diff_cancel_left' mod_diff_left_eq)
    then show "i = j" using ij(1,2) by simp
  qed
  then show "distinct (map (\<lambda>j. fst (rr_next (calls rr_next j s))) [0..<n])"
    using rr_calls [OF r] by (simp add: distinct_map)
  show "0 \<le> fst (rr_next (calls rr_next j s)) \<and> fst (rr_next (calls rr_next j s)) < int n" for j using rr_calls [OF r, of j] n by simp
  show "rr_ready n (calls rr_next n s)" using rr_calls [OF r] by simp
  show "rr_ready n (rr_satisfied (calls rr_next j s))" for j using rr_calls [OF r] by (simp add: rr_satisfied_def)
qed

section \<open>The array is a queue\<close>

text \<open>
  The array represents the queue \<open>q\<close>: entry 0 is its head, the entry of an element its successor
  in the circle, all one too large.
\<close>

definition circle :: "nat list \<Rightarrow> nat list \<Rightarrow> bool" where
  "circle ord q \<longleftrightarrow> length ord = Suc (length q) \<and> ord ! 0 = Suc (hd q) \<and> map (\<lambda>v. ord ! Suc v) q = map Suc (rotate1 q)"

definition lru_rep :: "nat list \<Rightarrow> LRU \<Rightarrow> bool" where
  "lru_rep q s \<longleftrightarrow> q \<noteq> [] \<and> distinct q \<and> set q = {..<length q} \<and> circle (lru_order s) q \<and> lru_tail s = Suc (last q)"

lemma circle_head: "circle ord (x # ys) \<Longrightarrow> circle (ord[0 := ord ! Suc x]) (ys @ [x])"
  by (cases ys) (auto simp: circle_def)

lemma circle_middle:
  assumes "circle ord (xs @ x # ys)" "distinct (xs @ x # ys)" "set (xs @ x # ys) = {..<length (xs @ x # ys)}" "xs \<noteq> []" "ys \<noteq> []"
  shows "circle (ord[Suc (last xs) := ord ! Suc x, Suc x := Suc (hd xs), Suc (last ys) := Suc x]) (xs @ ys @ [x])"
proof -
  obtain xs' l where xs: "xs = xs' @ [l]" using assms(4) by (metis append_butlast_last_id)
  obtain ys' t where ys: "ys = ys' @ [t]" using assms(5) by (metis append_butlast_last_id)
  let ?ord = "ord[Suc l := ord ! Suc x, Suc x := Suc (hd xs), Suc t := Suc x]"
  let ?f = "\<lambda>v. ord ! Suc v" and ?g = "\<lambda>v. ?ord ! Suc v"
  have len: "length ord = Suc (length (xs @ x # ys))" "l < length (xs @ x # ys)" "x < length (xs @ x # ys)" "t < length (xs @ x # ys)"
    using assms(1,3) by (auto simp: circle_def xs ys set_eq_iff)
  have d: "l \<noteq> x" "l \<noteq> t" "x \<noteq> t" "\<forall>v \<in> set xs' \<union> set ys'. v \<noteq> l \<and> v \<noteq> x \<and> v \<noteq> t" using assms(2) by (auto simp: xs ys)
  have "map ?f (xs' @ [l, x] @ ys' @ [t]) = map Suc (tl (xs @ x # ys) @ [hd (xs @ x # ys)])"
    using assms(1,4) by (auto simp: circle_def xs ys rotate1_hd_tl)
  then have f: "map ?f xs' @ ?f l # ?f x # map ?f ys' @ [?f t] = map Suc (tl xs @ x # ys @ [hd xs])" using assms(4) by simp
  have lx: "length (tl xs) = length xs'" by (simp add: xs)
  from f lx have 1: "map ?f xs' = map Suc (tl xs)" "?f l = Suc x" "?f x # map ?f ys' @ [?f t] = map Suc (ys @ [hd xs])" by (auto simp: append_eq_append_conv)
  have 2: "?f x = Suc (hd ys)" "map ?f ys' @ [?f t] = map Suc (tl ys @ [hd xs])" using 1(3) assms(5) by (cases ys; simp)+
  have ly: "length (tl ys) = length ys'" by (simp add: ys)
  have 3: "map ?f ys' = map Suc (tl ys)" using 2(2) ly by (auto simp: append_eq_append_conv)
  have g: "?g l = Suc (hd ys)" "?g x = Suc (hd xs)" "?g t = Suc x" "map ?g xs' = map ?f xs'" "map ?g ys' = map ?f ys'"
    using d len 2(1) by (auto simp: nth_list_update)
  have "map ?g (xs @ ys @ [x]) = map Suc (tl xs @ ys @ [x, hd xs])"
  proof -
    have "map ?g (xs @ ys @ [x]) = map ?g xs' @ ?g l # map ?g ys' @ [?g t, ?g x]" by (simp add: xs ys)
    also have "\<dots> = map Suc (tl xs) @ Suc (hd ys) # map Suc (tl ys) @ [Suc x, Suc (hd xs)]" using g 1(1) 3 by simp
    also have "\<dots> = map Suc (tl xs @ (hd ys # tl ys) @ [x, hd xs])" by simp
    finally show ?thesis using assms(5) by simp
  qed
  moreover have "?ord ! 0 = Suc (hd xs)" using assms(1,4) by (simp add: circle_def)
  moreover have "rotate1 (xs @ ys @ [x]) = tl xs @ ys @ [x, hd xs]" "hd (xs @ ys @ [x]) = hd xs" using assms(4) by (simp_all add: rotate1_hd_tl)
  moreover have "last xs = l" "last ys = t" by (simp_all add: xs ys)
  ultimately show ?thesis using len(1) unfolding circle_def by simp
qed

definition lru_ready :: "nat \<Rightarrow> LRU \<Rightarrow> bool" where
  "lru_ready n s \<longleftrightarrow> (\<exists>q. lru_rep q s \<and> length q = n) \<and> (lru_current s = 0 \<or> lru_current s = lru_tail s)"

text \<open>The queue after its element number \<open>j\<close> (from 1) was served.\<close>

definition serve :: "nat \<Rightarrow> 'a list \<Rightarrow> 'a list" where
  "serve j q = take (j - 1) q @ drop j q @ [q ! (j - 1)]"

lemma lru_new_rep: "0 < n \<Longrightarrow> lru_rep [0..<n] (lru_new n) \<and> lru_current (lru_new n) = 0"
proof -
  assume n: "0 < n"
  have "map (\<lambda>v. (map Suc [0..<n] @ [1]) ! Suc v) [0..<n] = map Suc (rotate1 [0..<n])"
  proof (rule nth_equalityI)
    fix i assume "i < length (map (\<lambda>v. (map Suc [0..<n] @ [1]) ! Suc v) [0..<n])"
    then have i: "i < n" by simp
    show "map (\<lambda>v. (map Suc [0..<n] @ [1]) ! Suc v) [0..<n] ! i = map Suc (rotate1 [0..<n]) ! i"
      using i by (cases "Suc i = n") (auto simp: nth_append nth_rotate1)
  qed simp
  moreover have "(map Suc [0..<n] @ [1]) ! 0 = Suc 0" using n by (simp add: nth_append)
  ultimately show ?thesis using n by (auto simp: lru_rep_def lru_new_def circle_def last_upt)
qed

lemma lru_successor:
  assumes "lru_rep q s" "j < length q" shows "lru_order s ! Suc (q ! j) = Suc (q ! (Suc j mod length q))"
proof -
  have "map (\<lambda>v. lru_order s ! Suc v) q ! j = map Suc (rotate1 q) ! j" using assms(1) by (simp only: lru_rep_def circle_def)
  then show ?thesis using assms(2) by (simp add: nth_rotate1)
qed

lemma lru_calls:
  assumes "lru_rep q s" "lru_current s = 0 \<or> lru_current s = lru_tail s" "j \<le> length q"
  shows "lru_order (calls lru_next j s) = lru_order s" "lru_tail (calls lru_next j s) = lru_tail s"
    "0 < j \<Longrightarrow> lru_current (calls lru_next j s) = Suc (q ! (j - 1))"
    "1 < j \<Longrightarrow> lru_last (calls lru_next j s) = Suc (q ! (j - 2))"
    "j < length q \<Longrightarrow> fst (lru_next (calls lru_next j s)) = int (q ! j)"
proof -
  have q: "q \<noteq> []" "lru_order s ! 0 = Suc (q ! 0)" "lru_tail s = Suc (q ! (length q - 1))"
    using assms(1) unfolding lru_rep_def circle_def by (simp_all add: hd_conv_nth last_conv_nth)
  have first: "lru_order s ! lru_current s = Suc (q ! 0)"
    using assms(2) q lru_successor [OF assms(1), of "length q - 1"] by auto
  have *: "lru_order (calls lru_next j s) = lru_order s \<and> lru_tail (calls lru_next j s) = lru_tail s \<and>
      (0 < j \<longrightarrow> lru_current (calls lru_next j s) = Suc (q ! (j - 1))) \<and>
      (1 < j \<longrightarrow> lru_last (calls lru_next j s) = Suc (q ! (j - 2)))" if "j \<le> length q" for j
    using that
  proof (induction j)
    case (Suc j)
    show ?case
    proof (cases "j = 0")
      case False
      then have "lru_order s ! Suc (q ! (j - 1)) = Suc (q ! j)" using lru_successor [OF assms(1), of "j - 1"] Suc.prems by simp
      then show ?thesis using Suc False by (auto simp: lru_next_def Let_def numeral_2_eq_2)
    qed (use first in \<open>simp add: lru_next_def Let_def\<close>)
  qed simp
  show "lru_order (calls lru_next j s) = lru_order s" "lru_tail (calls lru_next j s) = lru_tail s"
    "0 < j \<Longrightarrow> lru_current (calls lru_next j s) = Suc (q ! (j - 1))"
    "1 < j \<Longrightarrow> lru_last (calls lru_next j s) = Suc (q ! (j - 2))" using * [OF assms(3)] by auto
  show "fst (lru_next (calls lru_next j s)) = int (q ! j)" if "j < length q"
    using * [of "Suc j"] * [OF assms(3)] that by (simp add: lru_next_def Let_def)
qed

lemma lru_serve_rep:
  assumes "lru_rep q s" "lru_current s = 0 \<or> lru_current s = lru_tail s" "0 < j" "j \<le> length q"
  defines "s' \<equiv> lru_satisfied (calls lru_next j s)"
  shows "lru_rep (serve j q) s'" "lru_current s' = 0"
proof -
  note c = lru_calls [OF assms(1,2,4)]
  have cur: "lru_current (calls lru_next j s) = Suc (q ! (j - 1))" using c(3) assms(3) by simp
  show "lru_current s' = 0" unfolding s'_def lru_satisfied_def Let_def using cur by simp
  have q: "q \<noteq> []" "distinct q" "set q = {..<length q}" "circle (lru_order s) q" "lru_tail s = Suc (last q)"
    using assms(1) by (auto simp: lru_rep_def)
  define xs x ys where "xs = take (j - 1) q" and "x = q ! (j - 1)" and "ys = drop j q"
  have qs: "q = xs @ x # ys" unfolding xs_def x_def ys_def using assms(3,4) id_take_nth_drop [of "j - 1" q] by simp
  have sv: "serve j q = xs @ ys @ [x]" by (simp add: serve_def xs_def x_def ys_def)
  have d: "x \<notin> set xs" "x \<notin> set ys" "distinct xs" "distinct ys" "set xs \<inter> set ys = {}" using q(2) unfolding qs by auto
  have perm: "distinct (serve j q)" "set (serve j q) = {..<length (serve j q)}" "length (serve j q) = length q"
    using d q(3) qs unfolding sv by auto
  let ?t = "calls lru_next j s"
  have ord: "lru_order ?t = lru_order s" "lru_tail ?t = Suc (last q)" "lru_current ?t = Suc x" using c(1,2) cur q(5) by (simp_all add: x_def)
  have circ: "circle (lru_order s) (xs @ x # ys)" using q(4) qs by simp
  have set: "set (xs @ x # ys) = {..<length (xs @ x # ys)}" using q(3) qs by simp
  show "lru_rep (serve j q) s'"
  proof (cases "xs = []")
    case True
    then have "s' = ?t\<lparr>lru_order := (lru_order s)[0 := lru_order s ! Suc x], lru_tail := Suc x, lru_current := 0, lru_last := Suc x\<rparr>"
      using ord circ by (simp add: s'_def lru_satisfied_def Let_def circle_def)
    then show ?thesis using circle_head [of "lru_order s" x ys] circ perm True by (simp add: lru_rep_def sv)
  next
    case xs: False
    then have head: "lru_order s ! 0 = Suc (hd xs)" "hd xs \<noteq> x" using circ d(1) by (auto simp: circle_def)
    show ?thesis
    proof (cases "ys = []")
      case True
      then have "s' = ?t\<lparr>lru_current := 0, lru_last := lru_tail ?t\<rparr>"
        using ord head qs by (simp add: s'_def lru_satisfied_def Let_def)
      moreover have "serve j q = q" using True qs sv by simp
      ultimately show ?thesis using ord(1,2) q by (simp add: lru_rep_def)
    next
      case False
      have "xs = take (j - 1) q" "1 < j" using xs assms(3) by (auto simp: xs_def)
      then obtain k where "j = Suc (Suc k)" by (metis One_nat_def less_imp_Suc_add add_Suc)
      then have "last xs = q ! (j - 2)" using assms(4) by (simp add: xs_def take_Suc_conv_app_nth)
      then have "lru_last ?t = Suc (last xs)" using c(4) \<open>1 < j\<close> by simp
      moreover have "last q = last ys" "last ys \<noteq> x" using qs False d(2) by auto
      ultimately have "lru_order s' = (lru_order s)[Suc (last xs) := lru_order s ! Suc x, Suc x := Suc (hd xs), Suc (last ys) := Suc x]"
          "lru_tail s' = Suc x"
        using ord head by (simp_all add: s'_def lru_satisfied_def Let_def)
      moreover have "distinct (xs @ x # ys)" using q(2) qs by simp
      ultimately show ?thesis using circle_middle [OF circ _ set xs False] perm unfolding lru_rep_def sv by simp
    qed
  qed
qed

lemma lru_round: "lru_rep q s \<Longrightarrow> lru_current s = 0 \<or> lru_current s = lru_tail s \<Longrightarrow>
   map (\<lambda>j. fst (lru_next (calls lru_next j s))) [0..<length q] = map int q"
  using lru_calls(5) [of q s] by (intro nth_equalityI) simp_all

interpretation lru: single_arbitration lru_next lru_satisfied lru_ready
proof
  fix n s assume "lru_ready n s"
  then obtain q where q: "lru_rep q s" "length q = n" "lru_current s = 0 \<or> lru_current s = lru_tail s" by (auto simp: lru_ready_def)
  have d: "q \<noteq> []" "distinct q" "set q = {..<n}" using q(1,2) by (auto simp: lru_rep_def)
  show "distinct (map (\<lambda>j. fst (lru_next (calls lru_next j s))) [0..<n])"
    using lru_round [OF q(1,3)] q(2) d(2) by (simp add: distinct_map)
  show "0 \<le> fst (lru_next (calls lru_next j s)) \<and> fst (lru_next (calls lru_next j s)) < int n" if "j < n" for j
    using lru_calls(5) [OF q(1,3), of j] that q(2) d(3) nth_mem [of j q] by auto
  have "lru_current (calls lru_next n s) = lru_tail s"
    using lru_calls(3) [OF q(1,3), of n] q(1,2) d(1) by (auto simp: lru_rep_def last_conv_nth)
  then show "lru_ready n (calls lru_next n s)"
    using lru_calls(1,2) [OF q(1,3), of n] q(1,2) by (auto simp: lru_ready_def lru_rep_def)
  show "lru_ready n (lru_satisfied (calls lru_next j s))" if "0 < j" "j \<le> n" for j
    using lru_serve_rep [OF q(1,3) that(1)] that q(2) by (auto simp: lru_ready_def serve_def)
qed

lemma rr_new_ready: "0 < n \<Longrightarrow> n < 2 ^ 15 \<Longrightarrow> rr_ready n (rr_new (int n))"
  by (simp add: rr_ready_def rr_new_def)

lemma lru_new_ready: "0 < n \<Longrightarrow> lru_ready n (lru_new n)"
  using lru_new_rep [of n] by (auto simp: lru_ready_def)

section \<open>Properties\<close>

text \<open>A fresh arbiter, and what happens to it in rounds that serve the candidate number \<open>j\<close>, or none.\<close>

inductive lru_run :: "nat \<Rightarrow> nat list \<Rightarrow> LRU \<Rightarrow> bool" for n where
  fresh: "lru_run n [0..<n] (lru_new n)"
| serves: "lru_run n q s \<Longrightarrow> 0 < j \<Longrightarrow> j \<le> n \<Longrightarrow> lru_run n (serve j q) (lru_satisfied (calls lru_next j s))"
| nobody: "lru_run n q s \<Longrightarrow> lru_run n q (calls lru_next n s)"

text \<open>
  C21 The array of links in the LRU arbiter is a queue: after any history of rounds, each broken
  off by serving some candidate or ended without one, a round proposes the indices in the order of
  the queue in which every served index was moved to the end, least recently served first.
\<close>
theorem lru_is_queue:
  assumes "0 < n" and "lru_run n q s"
  shows "distinct q \<and> set q = {..<n} \<and> map (\<lambda>j. fst (lru_next (calls lru_next j s))) [0..<n] = map int q"
proof -
  from assms(2) have "lru_rep q s \<and> length q = n \<and> (lru_current s = 0 \<or> lru_current s = lru_tail s)"
  proof (induction rule: lru_run.induct)
    case fresh
    then show ?case using lru_new_rep [OF assms(1)] by simp
  next
    case (serves q s j)
    then show ?case using lru_serve_rep [of q s j] by (auto simp: serve_def)
  next
    case (nobody q s)
    then have q: "lru_rep q s" "length q = n" "lru_current s = 0 \<or> lru_current s = lru_tail s" by auto
    have "lru_current (calls lru_next n s) = lru_tail s"
      using lru_calls(3) [OF q(1,3), of n] q(1,2) assms(1) by (auto simp: lru_rep_def last_conv_nth)
    then show ?case using lru_calls(1,2) [OF q(1,3), of n] q(1,2) by (auto simp: lru_rep_def)
  qed
  then have q: "lru_rep q s" "length q = n" "lru_current s = 0 \<or> lru_current s = lru_tail s" by simp_all
  then show ?thesis using lru_round [OF q(1,3)] by (simp add: lru_rep_def del: map_eq_conv)
qed

theorem lru_is_queue_witness:
  "map (\<lambda>j. fst (lru_next (calls lru_next j (lru_satisfied (calls lru_next 2 (lru_new 4)))))) [0..<4] = [0, 2, 3, 1]"
proof -
  have "lru_run 4 (serve 2 [0..<4]) (lru_satisfied (calls lru_next 2 (lru_new 4)))" by (rule lru_run.serves [OF lru_run.fresh]) simp_all
  then have "map (\<lambda>j. fst (lru_next (calls lru_next j (lru_satisfied (calls lru_next 2 (lru_new 4)))))) [0..<4] = map int (serve 2 [0..<4])"
    using lru_is_queue [of 4] by simp
  also have "map int (serve 2 [0..<4]) = [0, 2, 3, 1]" by code_simp
  finally show ?thesis .
qed

end
