(* ===== verification/Merlin_OutputArb.thy ===== *)
theory Merlin_OutputArb
  imports Merlin_Router Merlin_Arb "HOL-Library.Signed_Division"
begin

text \<open>
  The output arbiters of a port (\<^verbatim>\<open>merlin/interfaces/output_arb_basic.h\<close>, \<^verbatim>\<open>output_arb_qos_multi.h\<close>):
  which virtual channel may send next, given the output queues and the credits of the other side.
  The interface \<open>output_arbitration\<close> is what \<open>PortControl\<close> relies on: the choice fits its credits, and
  there is a choice whenever something fits.
\<close>

section \<open>The basic arbiter\<close>

fun basic_loop :: "('s \<Rightarrow> int \<times> 's) \<Rightarrow> ('s \<Rightarrow> 's) \<Rightarrow> 'e RtrPacket_scheme list list \<Rightarrow> int list \<Rightarrow> bool \<Rightarrow> nat \<Rightarrow> bool \<Rightarrow> 's \<Rightarrow>
    (int \<times> bool \<times> 's) res" where
  "basic_loop nxt satisfied out_q credits host 0 have_packets s = Inr (-1, have_packets, s)"
| "basic_loop nxt satisfied out_q credits host (Suc k) have_packets s =
     (let (vc, s) = nxt s in
      bindE (at out_q vc) (\<lambda>q. case q of
        [] \<Rightarrow> basic_loop nxt satisfied out_q credits host k have_packets s
      | ev # _ \<Rightarrow> bindE (at credits (if host then ge_vn ev else vc)) (\<lambda>c.
          if c < ge_flits ev then basic_loop nxt satisfied out_q credits host k True s
          else Inr (vc, True, satisfied s))))"

record 's BasicArb =
  ba_num_vcs :: nat
  ba_arb :: 's

definition basic_setVCs :: "(nat \<Rightarrow> 's) \<Rightarrow> nat list \<Rightarrow> 's BasicArb" where
  "basic_setVCs new_arb vcs_per_vn = (let n = sum_list vcs_per_vn in \<lparr>ba_num_vcs = n, ba_arb = new_arb n\<rparr>)"

definition basic_arbitrate :: "('s \<Rightarrow> int \<times> 's) \<Rightarrow> ('s \<Rightarrow> 's) \<Rightarrow> u64 \<Rightarrow> 'e RtrPacket_scheme list list \<Rightarrow> int list \<Rightarrow> bool \<Rightarrow> 's BasicArb \<Rightarrow>
    (int \<times> bool \<times> 's BasicArb) res" where
  "basic_arbitrate nxt satisfied cycle out_q credits host a =
     bindE (basic_loop nxt satisfied out_q credits host (ba_num_vcs a) False (ba_arb a)) (\<lambda>(vc, have_packets, s).
       Inr (vc, have_packets, a\<lparr>ba_arb := s\<rparr>))"

section \<open>The interface\<close>

text \<open>The packet at the head of queue \<open>v\<close> fits the credits it is checked against.\<close>

definition fits :: "'e RtrPacket_scheme list list \<Rightarrow> int list \<Rightarrow> bool \<Rightarrow> nat \<Rightarrow> bool" where
  "fits out_q credits host v \<longleftrightarrow> out_q ! v \<noteq> [] \<and>
     ge_flits (hd (out_q ! v)) \<le> credits ! (if host then nat (ge_vn (hd (out_q ! v))) else v)"

definition queues_ok :: "nat \<Rightarrow> 'e RtrPacket_scheme list list \<Rightarrow> int list \<Rightarrow> bool \<Rightarrow> bool" where
  "queues_ok n out_q credits host \<longleftrightarrow> length out_q = n \<and> length credits = n \<and>
     (host \<longrightarrow> (\<forall>q \<in> set out_q. \<forall>ev \<in> set q. 0 \<le> ge_vn ev \<and> ge_vn ev < int n))"

definition choice_ok :: "nat \<Rightarrow> 'e RtrPacket_scheme list list \<Rightarrow> int list \<Rightarrow> bool \<Rightarrow> int \<Rightarrow> bool \<Rightarrow> bool" where
  "choice_ok n out_q credits host vc have_packets \<longleftrightarrow>
     (if vc = -1 then \<forall>v < n. \<not> fits out_q credits host v else 0 \<le> vc \<and> vc < int n \<and> fits out_q credits host (nat vc)) \<and>
     have_packets = (\<exists>q \<in> set out_q. q \<noteq> [])"

locale output_arbitration =
  fixes arbitrate :: "u64 \<Rightarrow> 'e RtrPacket_scheme list list \<Rightarrow> int list \<Rightarrow> bool \<Rightarrow> 'a \<Rightarrow> (int \<times> bool \<times> 'a) res" and ok :: "nat \<Rightarrow> 'a \<Rightarrow> bool"
  assumes choice: "ok n a \<Longrightarrow> queues_ok n out_q credits host \<Longrightarrow>
    \<exists>vc h a'. arbitrate cycle out_q credits host a = Inr (vc, h, a') \<and> ok n a' \<and> choice_ok n out_q credits host vc h"

definition basic_ok :: "(nat \<Rightarrow> 's \<Rightarrow> bool) \<Rightarrow> nat \<Rightarrow> 's BasicArb \<Rightarrow> bool" where
  "basic_ok ready n a \<longleftrightarrow> ba_num_vcs a = n \<and> ready n (ba_arb a)"

context single_arbitration
begin

lemma head_access:
  "queues_ok n out_q credits host \<Longrightarrow> v < n \<Longrightarrow> out_q ! v = ev # q \<Longrightarrow>
   at credits (if host then ge_vn ev else int v) = Inr (credits ! (if host then nat (ge_vn ev) else v))"
  using nth_mem [of v out_q] by (cases host) (auto simp: queues_ok_def at_def)

text \<open>The loop when \<open>k\<close> proposals of the round are left.\<close>

lemma basic_loop_rest:
  assumes "ready n s0" "queues_ok n out_q credits host" "k \<le> n"
    "\<forall>j < n - k. \<not> fits out_q credits host (round n s0 ! j)" "h = (\<exists>j < n - k. out_q ! (round n s0 ! j) \<noteq> [])"
  shows "\<exists>vc h' s'. basic_loop nxt satisfied out_q credits host k h (calls nxt (n - k) s0) = Inr (vc, h', s') \<and> ready n s' \<and>
    choice_ok n out_q credits host vc h'"
  using assms(3-5)
proof (induction k arbitrary: h)
  case 0
  have len: "length out_q = n" using assms(2) by (simp add: queues_ok_def)
  have "v < n \<Longrightarrow> \<exists>j < n. round n s0 ! j = v" for v using round_set [OF assms(1)] by (metis in_set_conv_nth lessThan_iff round_length)
  then have "\<forall>v < n. \<not> fits out_q credits host v" "h = (\<exists>v < n. out_q ! v \<noteq> [])"
    using 0 round_set [OF assms(1)] nth_mem [of _ "round n s0"] by (fastforce)+
  moreover have "(\<exists>q \<in> set out_q. q \<noteq> []) = (\<exists>v < n. out_q ! v \<noteq> [])" using len by (metis in_set_conv_nth)
  ultimately show ?case using round_ends [OF assms(1)] by (simp add: choice_ok_def)
next
  case (Suc k)
  let ?j = "n - Suc k"
  let ?v = "round n s0 ! ?j"
  have j: "?j < n" "n - k = Suc ?j" using Suc.prems(1) by auto
  have v: "?v < n" using round_set [OF assms(1)] j(1) by (metis lessThan_iff nth_mem round_length)
  have len: "length out_q = n" using assms(2) by (simp add: queues_ok_def)
  have nx: "nxt (calls nxt ?j s0) = (int ?v, calls nxt (n - k) s0)" using round_nth [OF assms(1) j(1)] j(2) by (simp add: prod_eq_iff)
  show ?case
  proof (cases "fits out_q credits host ?v")
    case True
    then obtain ev q where q: "out_q ! ?v = ev # q" by (auto simp: fits_def neq_Nil_conv)
    have "ready n (satisfied (calls nxt (n - k) s0))" using served [OF assms(1), of "n - k"] j(2) by simp
    moreover have "choice_ok n out_q credits host (int ?v) True" using True v len nth_mem [of ?v out_q] by (auto simp: choice_ok_def fits_def)
    ultimately show ?thesis using True q v len head_access [OF assms(2) v q] by (cases host) (auto simp: nx fits_def)
  next
    case False
    have nf: "\<forall>j < n - k. \<not> fits out_q credits host (round n s0 ! j)" using Suc.prems(2) False j(2) by (auto simp: less_Suc_eq)
    have h: "(h \<or> out_q ! ?v \<noteq> []) = (\<exists>j < n - k. out_q ! (round n s0 ! j) \<noteq> [])" using Suc.prems(3) j(2) by (auto simp: less_Suc_eq)
    have step: "basic_loop nxt satisfied out_q credits host (Suc k) h (calls nxt ?j s0) =
        basic_loop nxt satisfied out_q credits host k (h \<or> out_q ! ?v \<noteq> []) (calls nxt (n - k) s0)"
      using False v len head_access [OF assms(2) v] by (cases "out_q ! ?v") (auto simp: nx fits_def)
    show ?thesis unfolding step using Suc.IH [OF _ nf h] Suc.prems(1) by simp
  qed
qed

end

text \<open>Over any single arbiter the basic arbiter keeps the interface.\<close>

sublocale single_arbitration \<subseteq> basic: output_arbitration "basic_arbitrate nxt satisfied" "basic_ok ready"
proof
  fix n and a :: "'s BasicArb" and out_q :: "'e RtrPacket_scheme list list" and credits host cycle
  assume a: "basic_ok ready n a" "queues_ok n out_q credits host"
  then show "\<exists>vc h a'. basic_arbitrate nxt satisfied cycle out_q credits host a = Inr (vc, h, a') \<and> basic_ok ready n a' \<and> choice_ok n out_q credits host vc h"
    using basic_loop_rest [of n "ba_arb a" out_q credits host n False] by (auto simp: basic_ok_def basic_arbitrate_def)
qed

section \<open>The quality of service arbiter\<close>

text \<open>\<open>'a\<close> is the arbiter over the virtual networks, \<open>'b\<close> the one over the channels of a network.\<close>

record ('a, 'b) QosArb =
  qa_num_vns :: nat
  qa_vcs_per_vn :: "nat list"
  qa_vn_offset :: "nat list"
  qa_arb :: 'a
  qa_vn_arb :: "'b list"
  qa_settings :: "int list"
  qa_counters :: "int list"
  qa_which :: "nat list"
  qa_last_cycle :: u64

abbreviation window :: int where
  "window \<equiv> 100"

text \<open>The loop of the constructor: a counter for each network with a setting, one more for all others.\<close>

fun qos_counters :: "nat \<Rightarrow> nat \<Rightarrow> int \<Rightarrow> int list \<Rightarrow> nat list \<times> int list \<times> int" where
  "qos_counters num_counters count remainder [] = ([], [], remainder)"
| "qos_counters num_counters count remainder (x # xs) =
     (if x = -1
      then let (w, c, r) = qos_counters num_counters count remainder xs in ((num_counters - 1) # w, c, r)
      else let s = signed_take_bit 15 ((window * x) sdiv 100);
               (w, c, r) = qos_counters num_counters (Suc count) (signed_take_bit 15 (remainder - s)) xs
           in (count # w, s # c, r))"

text \<open>
  When exactly one network has no setting, the counter it uses equals the number of networks and
  is left unset in both arrays: they hold \<open>garbage\<close>.
\<close>

definition qos_new :: "int list \<Rightarrow> int \<times> int \<Rightarrow> 'a \<Rightarrow> ('a, 'b) QosArb res" where
  "qos_new settings garbage arb =
     (if settings = [] then Inl (Fatal ''output_arb_qos_multi'')
      else let n = length settings; own = length (filter (\<lambda>x. x \<noteq> -1) settings);
               num_counters = (if own \<noteq> n then Suc own else own);
               (w, c, r) = qos_counters num_counters 0 window settings;
               (settings, counters) = (if own = n then (c, c) else if num_counters \<noteq> n then (c @ [r], c @ [r])
                                       else (c @ [fst garbage], c @ [snd garbage]))
           in Inr \<lparr>qa_num_vns = n, qa_vcs_per_vn = [], qa_vn_offset = [], qa_arb = arb, qa_vn_arb = [],
                qa_settings = settings, qa_counters = counters, qa_which = w, qa_last_cycle = 0\<rparr>)"

definition qos_setVCs :: "(nat \<Rightarrow> 'a) \<Rightarrow> (nat \<Rightarrow> 'b) \<Rightarrow> nat list \<Rightarrow> ('a, 'b) QosArb \<Rightarrow> ('a, 'b) QosArb res" where
  "qos_setVCs new_arb new_vn_arb vcs a =
     (if length vcs \<noteq> qa_num_vns a then Inl (Fatal ''output_arb_qos_multi'')
      else Inr (a\<lparr>qa_vcs_per_vn := vcs, qa_vn_offset := map (\<lambda>i. sum_list (take i vcs)) [0..<length vcs],
                  qa_arb := new_arb (qa_num_vns a), qa_vn_arb := map new_vn_arb vcs\<rparr>))"

text \<open>
  The inner loop, over the channels of one network, whose first channel is \<open>offset\<close>; \<open>barred\<close> when
  the network has used up its share. The result is the channel found or -1.
\<close>

fun qos_vc_loop :: "('b \<Rightarrow> int \<times> 'b) \<Rightarrow> ('b \<Rightarrow> 'b) \<Rightarrow> 'e RtrPacket_scheme list list \<Rightarrow> int list \<Rightarrow> bool \<Rightarrow> nat \<Rightarrow> bool \<Rightarrow> nat \<Rightarrow> bool \<Rightarrow> 'b \<Rightarrow>
    (int \<times> bool \<times> 'b) res" where
  "qos_vc_loop nxt satisfied out_q credits host offset barred 0 have_packets b = Inr (-1, have_packets, b)"
| "qos_vc_loop nxt satisfied out_q credits host offset barred (Suc k) have_packets b =
     (let (vc, b) = nxt b; actual_vc = int offset + vc in
      bindE (at out_q actual_vc) (\<lambda>q. case q of
        [] \<Rightarrow> qos_vc_loop nxt satisfied out_q credits host offset barred k have_packets b
      | ev # _ \<Rightarrow>
          if barred then qos_vc_loop nxt satisfied out_q credits host offset barred k True b
          else bindE (at credits (if host then ge_vn ev else actual_vc)) (\<lambda>c.
            if c < ge_flits ev then qos_vc_loop nxt satisfied out_q credits host offset barred k True b
            else Inr (actual_vc, True, satisfied b))))"

text \<open>One turn of the outer loop, for network \<open>vn\<close>; \<open>limited\<close> in the first pass, which observes and charges the shares.\<close>

definition qos_vn_turn :: "('b \<Rightarrow> int \<times> 'b) \<Rightarrow> ('b \<Rightarrow> 'b) \<Rightarrow> 'e RtrPacket_scheme list list \<Rightarrow> int list \<Rightarrow> bool \<Rightarrow> bool \<Rightarrow> int \<Rightarrow> bool \<Rightarrow> ('a, 'b) QosArb \<Rightarrow>
    (int \<times> bool \<times> ('a, 'b) QosArb) res" where
  "qos_vn_turn nxt satisfied out_q credits host limited vn have_packets a =
     bindE (at (qa_vcs_per_vn a) vn) (\<lambda>k. bindE (at (qa_vn_offset a) vn) (\<lambda>offset. bindE (at (qa_vn_arb a) vn) (\<lambda>b.
     bindE (at (qa_which a) vn) (\<lambda>w. bindE (at (qa_counters a) (int w)) (\<lambda>c.
     bindE (qos_vc_loop nxt satisfied out_q credits host offset (limited \<and> c \<le> 0) k have_packets b) (\<lambda>(found, h, b).
       let a = a\<lparr>qa_vn_arb := (qa_vn_arb a)[nat vn := b]\<rparr> in
       if found \<noteq> -1 \<and> limited
       then bindE (at out_q found) (\<lambda>q.
              Inr (found, h, a\<lparr>qa_counters := (qa_counters a)[w := signed_take_bit 15 (c - ge_flits (hd q))]\<rparr>))
       else Inr (found, h, a)))))))"

fun qos_vn_loop :: "('a \<Rightarrow> int \<times> 'a) \<Rightarrow> ('a \<Rightarrow> 'a) \<Rightarrow> ('b \<Rightarrow> int \<times> 'b) \<Rightarrow> ('b \<Rightarrow> 'b) \<Rightarrow> 'e RtrPacket_scheme list list \<Rightarrow> int list \<Rightarrow> bool \<Rightarrow>
    bool \<Rightarrow> nat \<Rightarrow> int \<Rightarrow> bool \<Rightarrow> ('a, 'b) QosArb \<Rightarrow> (int \<times> bool \<times> ('a, 'b) QosArb) res" where
  "qos_vn_loop nxt1 sat1 nxt2 sat2 out_q credits host limited 0 found have_packets a = Inr (found, have_packets, a)"
| "qos_vn_loop nxt1 sat1 nxt2 sat2 out_q credits host limited (Suc k) found have_packets a =
     (if found \<noteq> -1 then Inr (found, have_packets, a\<lparr>qa_arb := sat1 (qa_arb a)\<rparr>)
      else let (vn, x) = nxt1 (qa_arb a) in
        bindE (qos_vn_turn nxt2 sat2 out_q credits host limited vn have_packets (a\<lparr>qa_arb := x\<rparr>)) (\<lambda>(found, h, a).
          qos_vn_loop nxt1 sat1 nxt2 sat2 out_q credits host limited k found h a))"

definition qos_reset :: "u64 \<Rightarrow> ('a, 'b) QosArb \<Rightarrow> ('a, 'b) QosArb" where
  "qos_reset cycle a =
     (let next_reset = ((qa_last_cycle a + 100) div 100) * 100;
          a = (if next_reset \<le> cycle then a\<lparr>qa_counters := qa_settings a\<rparr> else a)
      in a\<lparr>qa_last_cycle := cycle\<rparr>)"

definition qos_arbitrate :: "('a \<Rightarrow> int \<times> 'a) \<Rightarrow> ('a \<Rightarrow> 'a) \<Rightarrow> ('b \<Rightarrow> int \<times> 'b) \<Rightarrow> ('b \<Rightarrow> 'b) \<Rightarrow> u64 \<Rightarrow> 'e RtrPacket_scheme list list \<Rightarrow>
    int list \<Rightarrow> bool \<Rightarrow> ('a, 'b) QosArb \<Rightarrow> (int \<times> bool \<times> ('a, 'b) QosArb) res" where
  "qos_arbitrate nxt1 sat1 nxt2 sat2 cycle out_q credits host a =
     (let a = qos_reset cycle a; loop = qos_vn_loop nxt1 sat1 nxt2 sat2 out_q credits host in
      bindE (loop True (qa_num_vns a) (-1) False a) (\<lambda>(found, h, a).
        if found \<noteq> -1 then Inr (found, h, a)
        else if \<not> h then Inr (-1, h, a)
        else loop False (qa_num_vns a) (-1) h a))"

section \<open>The quality of service arbiter keeps the interface\<close>

definition eligible :: "'e RtrPacket_scheme list list \<Rightarrow> int list \<Rightarrow> bool \<Rightarrow> bool \<Rightarrow> nat \<Rightarrow> bool" where
  "eligible out_q credits host barred v \<longleftrightarrow> \<not> barred \<and> fits out_q credits host v"

context single_arbitration
begin

lemma qos_vc_rest:
  assumes "ready m b0" "queues_ok n out_q credits host" "off + m \<le> n" "k \<le> m"
    "\<forall>j < m - k. \<not> eligible out_q credits host barred (off + round m b0 ! j)"
    "h = (h0 \<or> (\<exists>j < m - k. out_q ! (off + round m b0 ! j) \<noteq> []))"
  shows "\<exists>found h' b'. qos_vc_loop nxt satisfied out_q credits host off barred k h (calls nxt (m - k) b0) = Inr (found, h', b') \<and> ready m b' \<and>
    (if found = -1 then (\<forall>v < m. \<not> eligible out_q credits host barred (off + v)) \<and> h' = (h0 \<or> (\<exists>v < m. out_q ! (off + v) \<noteq> []))
     else h' \<and> (\<exists>v < m. found = int (off + v) \<and> eligible out_q credits host barred (off + v)))"
  using assms(4-6)
proof (induction k arbitrary: h)
  case 0
  have "v < m \<Longrightarrow> \<exists>j < m. round m b0 ! j = v" for v using round_set [OF assms(1)] by (metis in_set_conv_nth lessThan_iff round_length)
  moreover have "j < m \<Longrightarrow> round m b0 ! j < m" for j using round_set [OF assms(1)] nth_mem [of j "round m b0"] by auto
  ultimately have "(\<forall>v < m. \<not> eligible out_q credits host barred (off + v)) \<and> h = (h0 \<or> (\<exists>v < m. out_q ! (off + v) \<noteq> []))"
    using 0(2,3) by (simp, metis)
  then show ?case using round_ends [OF assms(1)] by simp
next
  case (Suc k)
  let ?j = "m - Suc k"
  let ?v = "round m b0 ! ?j"
  have j: "?j < m" "m - k = Suc ?j" using Suc.prems(1) by auto
  have v: "?v < m" "off + ?v < n" using round_set [OF assms(1)] j(1) assms(3) nth_mem [of ?j "round m b0"] by auto
  have len: "length out_q = n" using assms(2) by (simp add: queues_ok_def)
  have nx: "nxt (calls nxt ?j b0) = (int ?v, calls nxt (m - k) b0)" using round_nth [OF assms(1) j(1)] j(2) by (simp add: prod_eq_iff)
  have acc: "at out_q (int off + int ?v) = Inr (out_q ! (off + ?v))" using v(2) len at_nat [of "off + ?v" out_q] by simp
  have cred: "at credits (if host then ge_vn ev else int off + int ?v) = Inr (credits ! (if host then nat (ge_vn ev) else off + ?v))"
    if "out_q ! (off + ?v) = ev # q" for ev q using head_access [OF assms(2) v(2) that] by (cases host) simp_all
  show ?case
  proof (cases "eligible out_q credits host barred (off + ?v)")
    case True
    then obtain ev q where q: "out_q ! (off + ?v) = ev # q" by (auto simp: eligible_def fits_def neq_Nil_conv)
    have "ready m (satisfied (calls nxt (m - k) b0))" using served [OF assms(1), of "m - k"] j(2) by simp
    moreover have "qos_vc_loop nxt satisfied out_q credits host off barred (Suc k) h (calls nxt ?j b0) =
        Inr (int (off + ?v), True, satisfied (calls nxt (m - k) b0))"
      using True q cred [OF q] acc by (cases host) (auto simp: nx eligible_def fits_def Let_def)
    ultimately show ?thesis using True v(1) by auto
  next
    case False
    have nf: "\<forall>j < m - k. \<not> eligible out_q credits host barred (off + round m b0 ! j)" using Suc.prems(2) False j(2) by (auto simp: less_Suc_eq)
    have h: "(h \<or> out_q ! (off + ?v) \<noteq> []) = (h0 \<or> (\<exists>j < m - k. out_q ! (off + round m b0 ! j) \<noteq> []))"
      using Suc.prems(3) j(2) by (auto simp: less_Suc_eq)
    have "qos_vc_loop nxt satisfied out_q credits host off barred (Suc k) h (calls nxt ?j b0) =
        qos_vc_loop nxt satisfied out_q credits host off barred k (h \<or> out_q ! (off + ?v) \<noteq> []) (calls nxt (m - k) b0)"
      using False acc cred by (cases "out_q ! (off + ?v)"; cases host) (auto simp: nx eligible_def fits_def Let_def)
    then show ?thesis using Suc.IH [OF _ nf h] Suc.prems(1) by simp
  qed
qed

end

text \<open>The networks share the channels out.\<close>

lemma split_index: "v < sum_list (vcs :: nat list) \<Longrightarrow> \<exists>i < length vcs. \<exists>w < vcs ! i. v = sum_list (take i vcs) + w"
proof (induction vcs arbitrary: v)
  case (Cons x vcs)
  show ?case
  proof (cases "v < x")
    case False
    then have "v - x < sum_list vcs" using Cons.prems by simp
    then obtain i w where "i < length vcs" "w < vcs ! i" "v - x = sum_list (take i vcs) + w" using Cons.IH by blast
    then show ?thesis using False by (intro exI [of _ "Suc i"] conjI exI [of _ w]) auto
  qed (auto intro: exI [of _ 0])
qed simp

lemma index_bound: "i < length (vcs :: nat list) \<Longrightarrow> w < vcs ! i \<Longrightarrow> sum_list (take i vcs) + w < sum_list vcs"
proof (induction vcs arbitrary: i)
  case (Cons x vcs)
  then show ?case by (cases i) fastforce+
qed simp

text \<open>\<open>qos_rest\<close> leaves out the arbiter over the networks.\<close>

definition qos_rest :: "(nat \<Rightarrow> 'b \<Rightarrow> bool) \<Rightarrow> nat \<Rightarrow> ('a, 'b) QosArb \<Rightarrow> bool" where
  "qos_rest ready2 n a \<longleftrightarrow> (let vcs = qa_vcs_per_vn a; m = length vcs in
     qa_num_vns a = m \<and> sum_list vcs = n \<and> qa_vn_offset a = map (\<lambda>i. sum_list (take i vcs)) [0..<m] \<and>
     list_all2 ready2 vcs (qa_vn_arb a) \<and> length (qa_which a) = m \<and>
     (\<forall>w \<in> set (qa_which a). w < length (qa_counters a)) \<and> length (qa_settings a) = length (qa_counters a))"

definition qos_ok :: "(nat \<Rightarrow> 'a \<Rightarrow> bool) \<Rightarrow> (nat \<Rightarrow> 'b \<Rightarrow> bool) \<Rightarrow> nat \<Rightarrow> ('a, 'b) QosArb \<Rightarrow> bool" where
  "qos_ok ready1 ready2 n a \<longleftrightarrow> qos_rest ready2 n a \<and> ready1 (qa_num_vns a) (qa_arb a)"

definition vn_eligible :: "'e RtrPacket_scheme list list \<Rightarrow> int list \<Rightarrow> bool \<Rightarrow> bool \<Rightarrow> ('a, 'b) QosArb \<Rightarrow> nat \<Rightarrow> nat \<Rightarrow> bool" where
  "vn_eligible out_q credits host limited a i v \<longleftrightarrow> v < qa_vcs_per_vn a ! i \<and>
     eligible out_q credits host (limited \<and> qa_counters a ! (qa_which a ! i) \<le> 0) (sum_list (take i (qa_vcs_per_vn a)) + v)"

definition same_setup :: "('a, 'b) QosArb \<Rightarrow> ('a, 'b) QosArb \<Rightarrow> bool" where
  "same_setup a b \<longleftrightarrow> qa_num_vns b = qa_num_vns a \<and> qa_vcs_per_vn b = qa_vcs_per_vn a \<and> qa_which b = qa_which a"

text \<open>What a pass over \<open>m\<close> networks reports.\<close>

definition verdict :: "'e RtrPacket_scheme list list \<Rightarrow> int list \<Rightarrow> bool \<Rightarrow> bool \<Rightarrow> ('a, 'b) QosArb \<Rightarrow> nat \<Rightarrow> bool \<Rightarrow> int \<Rightarrow> bool \<Rightarrow> bool" where
  "verdict out_q credits host limited a m h0 found h \<longleftrightarrow>
     (if found = -1 then (\<forall>i < m. \<forall>v. \<not> vn_eligible out_q credits host limited a i v) \<and>
        h = (h0 \<or> (\<exists>i < m. \<exists>v < qa_vcs_per_vn a ! i. out_q ! (sum_list (take i (qa_vcs_per_vn a)) + v) \<noteq> []))
      else h \<and> (\<exists>i < m. \<exists>v. found = int (sum_list (take i (qa_vcs_per_vn a)) + v) \<and> vn_eligible out_q credits host limited a i v))"

locale qos_arbitration = outer: single_arbitration nxt1 sat1 ready1 + inner: single_arbitration nxt2 sat2 ready2
  for nxt1 :: "'a \<Rightarrow> int \<times> 'a" and sat1 ready1 and nxt2 :: "'b \<Rightarrow> int \<times> 'b" and sat2 ready2
begin

lemma turn:
  assumes "qos_rest ready2 n a" "queues_ok n out_q credits host" "i < qa_num_vns a"
  shows "\<exists>found h' a'. qos_vn_turn nxt2 sat2 out_q credits host limited (int i) h a = Inr (found, h', a') \<and> qos_rest ready2 n a' \<and>
    same_setup a a' \<and> qa_arb a' = qa_arb a \<and>
    (if found = -1 then qa_counters a' = qa_counters a \<and> (\<forall>v. \<not> vn_eligible out_q credits host limited a i v) \<and>
       h' = (h \<or> (\<exists>v < qa_vcs_per_vn a ! i. out_q ! (sum_list (take i (qa_vcs_per_vn a)) + v) \<noteq> []))
     else h' \<and> (\<exists>v. found = int (sum_list (take i (qa_vcs_per_vn a)) + v) \<and> vn_eligible out_q credits host limited a i v))"
proof -
  let ?vcs = "qa_vcs_per_vn a" and ?w = "qa_which a ! i"
  let ?off = "sum_list (take i ?vcs)" and ?m = "?vcs ! i" and ?barred = "limited \<and> qa_counters a ! ?w \<le> 0"
  have i: "i < length ?vcs" "i < length (qa_vn_offset a)" "i < length (qa_vn_arb a)" "i < length (qa_which a)" "qa_vn_offset a ! i = ?off"
    "sum_list ?vcs = n" "ready2 ?m (qa_vn_arb a ! i)"
    using assms(1,3) by (auto simp: qos_rest_def Let_def list_all2_conv_all_nth)
  have w: "?w < length (qa_counters a)" using assms(1) i(4) by (auto simp: qos_rest_def Let_def)
  have "sum_list (take (Suc i) ?vcs) + sum_list (drop (Suc i) ?vcs) = n" using i(6) by (metis append_take_drop_id sum_list_append)
  then have om: "?off + ?m \<le> n" using i(1) by (simp add: take_Suc_conv_app_nth)
  obtain found h' b' where l: "qos_vc_loop nxt2 sat2 out_q credits host ?off ?barred ?m h (qa_vn_arb a ! i) = Inr (found, h', b')" "ready2 ?m b'"
    "if found = -1 then (\<forall>v < ?m. \<not> eligible out_q credits host ?barred (?off + v)) \<and> h' = (h \<or> (\<exists>v < ?m. out_q ! (?off + v) \<noteq> []))
     else h' \<and> (\<exists>v < ?m. found = int (?off + v) \<and> eligible out_q credits host ?barred (?off + v))"
    using inner.qos_vc_rest [OF i(7) assms(2) om, of ?m ?barred h h] by auto
  let ?a = "a\<lparr>qa_vn_arb := (qa_vn_arb a)[i := b']\<rparr>"
  have ra: "qos_rest ready2 n ?a" using assms(1) l(2) i by (auto simp: qos_rest_def Let_def list_all2_conv_all_nth nth_list_update)
  have rc: "qos_rest ready2 n (?a\<lparr>qa_counters := (qa_counters a)[?w := c]\<rparr>)" for c using ra by (simp add: qos_rest_def Let_def)
  have q: "found \<noteq> -1 \<Longrightarrow> \<exists>q. at out_q found = Inr q" using l(3) om assms(2) by (auto simp: at_def queues_ok_def)
  have e: "(\<forall>v < ?m. \<not> eligible out_q credits host ?barred (?off + v)) \<longleftrightarrow> (\<forall>v. \<not> vn_eligible out_q credits host limited a i v)"
    by (auto simp: vn_eligible_def)
  show ?thesis
  proof (cases "found \<noteq> -1 \<and> limited")
    case True
    then obtain q where "at out_q found = Inr q" using q by auto
    then show ?thesis using True l i w rc by (auto simp: qos_vn_turn_def same_setup_def vn_eligible_def Let_def)
  next
    case False
    have "qos_vn_turn nxt2 sat2 out_q credits host limited (int i) h a = Inr (found, h', ?a)"
      using False l(1) i w by (auto simp: qos_vn_turn_def Let_def)
    then show ?thesis using l(3) ra e by (auto simp: same_setup_def vn_eligible_def split: if_splits)
  qed
qed

lemma verdict_cong: "same_setup a b \<Longrightarrow> qa_counters b = qa_counters a \<Longrightarrow> verdict out_q credits host limited b = verdict out_q credits host limited a"
  by (intro ext) (simp add: verdict_def vn_eligible_def same_setup_def)

text \<open>The outer loop when \<open>k\<close> networks of the round are left and none has been found.\<close>

lemma vn_loop_rest:
  assumes "ready1 m x0" "queues_ok n out_q credits host" "k \<le> m"
    "qos_rest ready2 n a" "qa_num_vns a = m" "qa_arb a = calls nxt1 (m - k) x0"
    "\<forall>j < m - k. \<forall>v. \<not> vn_eligible out_q credits host limited a (outer.round m x0 ! j) v"
    "h = (h0 \<or> (\<exists>j < m - k. \<exists>v < qa_vcs_per_vn a ! (outer.round m x0 ! j). out_q ! (sum_list (take (outer.round m x0 ! j) (qa_vcs_per_vn a)) + v) \<noteq> []))"
  shows "\<exists>found h' a'. qos_vn_loop nxt1 sat1 nxt2 sat2 out_q credits host limited k (-1) h a = Inr (found, h', a') \<and> qos_ok ready1 ready2 n a' \<and> same_setup a a' \<and>
    (found = -1 \<longrightarrow> qa_counters a' = qa_counters a) \<and> verdict out_q credits host limited a m h0 found h'"
  using assms(3-8)
proof (induction k arbitrary: a h)
  case 0
  have r: "i < m \<Longrightarrow> \<exists>j < m. outer.round m x0 ! j = i" for i
    using outer.round_set [OF assms(1)] by (metis in_set_conv_nth lessThan_iff outer.round_length)
  have r': "j < m \<Longrightarrow> outer.round m x0 ! j < m" for j using outer.round_set [OF assms(1)] nth_mem [of j "outer.round m x0"] by auto
  have 1: "\<forall>i < m. \<forall>v. \<not> vn_eligible out_q credits host limited a i v" using 0(5) r by (metis diff_zero)
  have 2: "h = (h0 \<or> (\<exists>i < m. \<exists>v < qa_vcs_per_vn a ! i. out_q ! (sum_list (take i (qa_vcs_per_vn a)) + v) \<noteq> []))"
    unfolding 0(6) using r r' by (metis diff_zero)
  have "qos_ok ready1 ready2 n a" using 0(2-4) outer.round_ends [OF assms(1)] by (simp add: qos_ok_def)
  then show ?case using 1 2 by (simp add: same_setup_def verdict_def)
next
  case (Suc k)
  let ?j = "m - Suc k"
  let ?i = "outer.round m x0 ! ?j" and ?a = "a\<lparr>qa_arb := calls nxt1 (m - k) x0\<rparr>"
  have j: "?j < m" "m - k = Suc ?j" using Suc.prems(1) by auto
  have i: "?i < m" using outer.round_set [OF assms(1)] j(1) nth_mem [of ?j "outer.round m x0"] by auto
  have nx: "nxt1 (qa_arb a) = (int ?i, calls nxt1 (m - k) x0)" using outer.round_nth [OF assms(1) j(1)] j(2) Suc.prems(4) by (simp add: prod_eq_iff)
  have ra: "qos_rest ready2 n ?a" using Suc.prems(2) by (simp add: qos_rest_def)
  have ve: "vn_eligible out_q credits host limited ?a = vn_eligible out_q credits host limited a" by (intro ext) (simp add: vn_eligible_def)
  have i': "?i < qa_num_vns ?a" using i Suc.prems(3) by simp
  from turn [OF ra assms(2) i', of limited h] obtain found h' a' where
    u: "qos_vn_turn nxt2 sat2 out_q credits host limited (int ?i) h ?a = Inr (found, h', a') \<and> qos_rest ready2 n a' \<and> same_setup ?a a' \<and> qa_arb a' = qa_arb ?a \<and>
    (if found = -1 then qa_counters a' = qa_counters ?a \<and> (\<forall>v. \<not> vn_eligible out_q credits host limited ?a ?i v) \<and>
       h' = (h \<or> (\<exists>v < qa_vcs_per_vn ?a ! ?i. out_q ! (sum_list (take ?i (qa_vcs_per_vn ?a)) + v) \<noteq> []))
     else h' \<and> (\<exists>v. found = int (sum_list (take ?i (qa_vcs_per_vn ?a)) + v) \<and> vn_eligible out_q credits host limited ?a ?i v))"
    by (elim exE)
  have fields: "qa_counters ?a = qa_counters a" "qa_vcs_per_vn ?a = qa_vcs_per_vn a" "qa_arb ?a = calls nxt1 (m - k) x0" by simp_all
  note u' = u [unfolded ve fields]
  note t = conjunct1 [OF u'] conjunct1 [OF conjunct2 [OF u']] conjunct1 [OF conjunct2 [OF conjunct2 [OF u']]]
    conjunct1 [OF conjunct2 [OF conjunct2 [OF conjunct2 [OF u']]]] conjunct2 [OF conjunct2 [OF conjunct2 [OF conjunct2 [OF u']]]]
  have step: "qos_vn_loop nxt1 sat1 nxt2 sat2 out_q credits host limited (Suc k) (-1) h a =
      qos_vn_loop nxt1 sat1 nxt2 sat2 out_q credits host limited k found h' a'" using t(1) by (simp add: nx)
  have s: "same_setup a a'" "qa_num_vns a' = m" "qa_vcs_per_vn a' = qa_vcs_per_vn a" using t(3) Suc.prems(3) by (auto simp: same_setup_def)
  show ?case
  proof (cases "found = -1")
    case True
    then have same: "vn_eligible out_q credits host limited a' = vn_eligible out_q credits host limited a"
      using t(5) s(1) by (intro ext) (simp add: vn_eligible_def same_setup_def)
    have "\<forall>j < m - k. \<forall>v. \<not> vn_eligible out_q credits host limited a' (outer.round m x0 ! j) v"
      using Suc.prems(5) t(5) True j(2) unfolding same by (auto simp: less_Suc_eq)
    moreover have "h' = (h0 \<or> (\<exists>j < m - k. \<exists>v < qa_vcs_per_vn a' ! (outer.round m x0 ! j). out_q ! (sum_list (take (outer.round m x0 ! j) (qa_vcs_per_vn a')) + v) \<noteq> []))"
      using Suc.prems(6) t(5) True j(2) s(3) by (auto simp: less_Suc_eq)
    ultimately obtain found2 h2 a2 where l: "qos_vn_loop nxt1 sat1 nxt2 sat2 out_q credits host limited k (-1) h' a' = Inr (found2, h2, a2)" "qos_ok ready1 ready2 n a2"
      "same_setup a' a2" "found2 = -1 \<longrightarrow> qa_counters a2 = qa_counters a'" "verdict out_q credits host limited a' m h0 found2 h2"
      using Suc.IH [of a' h'] Suc.prems(1) t(2,4) s(2) by auto
    have ca: "qa_counters a' = qa_counters a" using t(5) True by simp
    have "verdict out_q credits host limited a m h0 found2 h2" using l(5) verdict_cong [OF s(1) ca, of out_q credits host limited] by simp
    moreover have "same_setup a a2" using l(3) s(1) by (simp add: same_setup_def)
    ultimately show ?thesis unfolding step using True l(1,2,4) ca by (intro exI conjI) auto
  next
    case False
    have "\<exists>a''. qos_vn_loop nxt1 sat1 nxt2 sat2 out_q credits host limited k found h' a' = Inr (found, h', a'') \<and> qos_ok ready1 ready2 n a'' \<and> same_setup a' a''"
    proof (cases k)
      case 0
      then show ?thesis using t(2,4) s(2) outer.round_ends [OF assms(1)] by (simp add: qos_ok_def same_setup_def)
    next
      case (Suc k')
      have "ready1 m (sat1 (calls nxt1 (m - k) x0))" using outer.served [OF assms(1), of "m - k"] j(2) by simp
      then show ?thesis using False t(2,4) s(2) Suc by (auto simp: qos_ok_def qos_rest_def same_setup_def)
    qed
    moreover have "verdict out_q credits host limited a m h0 found h'" using False t(5) i by (auto simp: verdict_def)
    ultimately show ?thesis unfolding step using False s(1) by (auto simp: same_setup_def)
  qed
qed

lemma verdict_queues:
  assumes "qos_rest ready2 n a" "queues_ok n out_q credits host" "qa_num_vns a = m"
  shows "(\<exists>q \<in> set out_q. q \<noteq> []) = (\<exists>i < m. \<exists>v < qa_vcs_per_vn a ! i. out_q ! (sum_list (take i (qa_vcs_per_vn a)) + v) \<noteq> [])"
proof -
  have "length (qa_vcs_per_vn a) = m" "sum_list (qa_vcs_per_vn a) = n" "length out_q = n" using assms by (auto simp: qos_rest_def queues_ok_def Let_def)
  then show ?thesis using split_index [of _ "qa_vcs_per_vn a"] index_bound [of _ "qa_vcs_per_vn a"] by (metis in_set_conv_nth)
qed

lemma verdict_choice:
  assumes "qos_rest ready2 n a" "queues_ok n out_q credits host" "qa_num_vns a = m" "verdict out_q credits host limited a m h0 found h"
    and "found = -1 \<Longrightarrow> \<not> limited" "h0 \<Longrightarrow> \<exists>q \<in> set out_q. q \<noteq> []"
  shows "choice_ok n out_q credits host found h"
proof -
  let ?vcs = "qa_vcs_per_vn a"
  have m: "length ?vcs = m" "sum_list ?vcs = n" "length out_q = n" using assms(1-3) by (auto simp: qos_rest_def queues_ok_def Let_def)
  have q: "(\<exists>q \<in> set out_q. q \<noteq> []) = (\<exists>i < m. \<exists>v < ?vcs ! i. out_q ! (sum_list (take i ?vcs) + v) \<noteq> [])"
    using verdict_queues [OF assms(1-3)] .
  show ?thesis
  proof (cases "found = -1")
    case True
    then have "\<forall>i < m. \<forall>v < ?vcs ! i. \<not> fits out_q credits host (sum_list (take i ?vcs) + v)"
      using assms(4,5) by (auto simp: verdict_def vn_eligible_def eligible_def)
    then have "\<forall>v < n. \<not> fits out_q credits host v" using split_index [of _ ?vcs] m by metis
    then show ?thesis using True assms(4,6) q by (auto simp: choice_ok_def verdict_def)
  next
    case False
    then obtain i v where v: "i < m" "v < ?vcs ! i" "found = int (sum_list (take i ?vcs) + v)" "fits out_q credits host (sum_list (take i ?vcs) + v)" h
      using assms(4) by (auto simp: verdict_def vn_eligible_def eligible_def)
    then have "out_q ! (sum_list (take i ?vcs) + v) \<noteq> []" by (auto simp: fits_def)
    then have "\<exists>q \<in> set out_q. q \<noteq> []" using q v(1,2) by blast
    then show ?thesis using v index_bound [of i ?vcs v] m by (auto simp: choice_ok_def nat_int_add)
  qed
qed

text \<open>Only when no network within its share can send is a network beyond its share considered.\<close>

lemma qos_choice:
  fixes cycle :: u64
  assumes "qos_ok ready1 ready2 n a" "queues_ok n out_q credits host"
  defines "a0 \<equiv> qos_reset cycle a"
  shows "\<exists>vc h a'. qos_arbitrate nxt1 sat1 nxt2 sat2 cycle out_q credits host a = Inr (vc, h, a') \<and> qos_ok ready1 ready2 n a' \<and>
    choice_ok n out_q credits host vc h \<and>
    ((\<exists>i < qa_num_vns a. \<exists>v. vn_eligible out_q credits host True a0 i v) \<longrightarrow>
     (\<exists>i < qa_num_vns a. \<exists>v. vc = int (sum_list (take i (qa_vcs_per_vn a)) + v) \<and> vn_eligible out_q credits host True a0 i v))"
proof -
  let ?m = "qa_num_vns a"
  have a0: "qos_rest ready2 n a0" "ready1 ?m (qa_arb a0)" "qa_num_vns a0 = ?m" "qa_vcs_per_vn a0 = qa_vcs_per_vn a"
    using assms(1) by (auto simp: a0_def qos_reset_def qos_ok_def qos_rest_def Let_def)
  obtain f1 h1 a1 where 1: "qos_vn_loop nxt1 sat1 nxt2 sat2 out_q credits host True ?m (-1) False a0 = Inr (f1, h1, a1)" "qos_ok ready1 ready2 n a1"
    "same_setup a0 a1" "f1 = -1 \<longrightarrow> qa_counters a1 = qa_counters a0" "verdict out_q credits host True a0 ?m False f1 h1"
    using vn_loop_rest [OF a0(2) assms(2) le_refl a0(1,3), of True False False] by auto
  show ?thesis
  proof (cases "f1 = -1 \<and> h1")
    case False
    have "qos_arbitrate nxt1 sat1 nxt2 sat2 cycle out_q credits host a = Inr (f1, h1, a1)"
      using 1(1) False a0(3) by (auto simp: qos_arbitrate_def a0_def [symmetric] Let_def)
    moreover have "choice_ok n out_q credits host f1 h1"
    proof (cases "f1 = -1")
      case True
      then have "\<not> (\<exists>q \<in> set out_q. q \<noteq> [])" using 1(5) False verdict_queues [OF a0(1) assms(2) a0(3)] by (simp add: verdict_def)
      then show ?thesis using True False assms(2) nth_mem [of _ out_q] by (auto simp: choice_ok_def fits_def queues_ok_def)
    qed (rule verdict_choice [OF a0(1) assms(2) a0(3) 1(5)], auto)
    ultimately show ?thesis using 1(2,5) a0(4) by (auto simp: verdict_def split: if_splits)
  next
    case True
    have r1: "qos_rest ready2 n a1" "ready1 ?m (qa_arb a1)" "qa_num_vns a1 = ?m" using 1(2,3) a0(3) by (auto simp: qos_ok_def same_setup_def)
    obtain f2 h2 a2 where 2: "qos_vn_loop nxt1 sat1 nxt2 sat2 out_q credits host False ?m (-1) True a1 = Inr (f2, h2, a2)" "qos_ok ready1 ready2 n a2"
      "verdict out_q credits host False a1 ?m True f2 h2"
      using vn_loop_rest [OF r1(2) assms(2) le_refl r1(1,3), of False True True] by auto
    have "qos_arbitrate nxt1 sat1 nxt2 sat2 cycle out_q credits host a = Inr (f2, h2, a2)"
      using 1(1) 2(1) True a0(3) r1(3) by (simp add: qos_arbitrate_def a0_def [symmetric] Let_def)
    moreover have "\<exists>q \<in> set out_q. q \<noteq> []" using 1(5) True verdict_queues [OF a0(1) assms(2) a0(3)] by (simp add: verdict_def)
    then have "choice_ok n out_q credits host f2 h2" by (intro verdict_choice [OF r1(1) assms(2) r1(3) 2(3)]) auto
    moreover have "\<not> (\<exists>i < ?m. \<exists>v. vn_eligible out_q credits host True a0 i v)" using 1(5) True by (simp add: verdict_def)
    ultimately show ?thesis using 2(2) by auto
  qed
qed

end

sublocale qos_arbitration \<subseteq> output_arbitration "qos_arbitrate nxt1 sat1 nxt2 sat2" "qos_ok ready1 ready2"
proof
  fix n and a :: "('a, 'b) QosArb" and out_q :: "'e RtrPacket_scheme list list" and credits host cycle
  assume "qos_ok ready1 ready2 n a" "queues_ok n out_q credits host"
  from qos_choice [OF this, of cycle]
  show "\<exists>vc h a'. qos_arbitrate nxt1 sat1 nxt2 sat2 cycle out_q credits host a = Inr (vc, h, a') \<and> qos_ok ready1 ready2 n a' \<and> choice_ok n out_q credits host vc h"
    by blast
qed

text \<open>The arbiters the code uses unless told otherwise: LRU over the networks, round robin over the channels.\<close>

interpretation qos: qos_arbitration lru_next lru_satisfied lru_ready rr_next rr_satisfied rr_ready
  by unfold_locales

lemma qos_counters_props:
  "qos_counters N c r xs = (w, cs, r') \<Longrightarrow> c + length (filter (\<lambda>x. x \<noteq> -1) xs) \<le> N \<Longrightarrow> (-1 \<in> set xs \<longrightarrow> 0 < N) \<Longrightarrow>
   length w = length xs \<and> length cs = length (filter (\<lambda>x. x \<noteq> -1) xs) \<and> (\<forall>i \<in> set w. i < N)"
proof (induction N c r xs arbitrary: w cs r' rule: qos_counters.induct)
  case (2 N c r x xs)
  then show ?case by (cases "x = -1") (auto simp: Let_def split: prod.splits)
qed simp

lemma qos_setup_ok:
  assumes "settings \<noteq> []" "length vcs = length settings" "\<forall>v \<in> set vcs. 0 < v \<and> v < 2 ^ 15"
  shows "\<exists>a0 a. qos_new settings g x = Inr a0 \<and> qos_setVCs lru_new (\<lambda>n. rr_new (int n)) vcs a0 = Inr a \<and>
    qos_ok lru_ready rr_ready (sum_list vcs) a \<and> qa_vcs_per_vn a = vcs"
proof -
  let ?n = "length settings" and ?own = "length (filter (\<lambda>x. x \<noteq> -1) settings)"
  let ?N = "if ?own \<noteq> ?n then Suc ?own else ?own"
  obtain w cs r where c: "qos_counters ?N 0 window settings = (w, cs, r)" by (metis prod_cases3)
  have "0 + ?own \<le> ?N" by simp
  moreover have "-1 \<in> set settings \<Longrightarrow> ?own < ?n" by (rule length_filter_less) auto
  then have "-1 \<in> set settings \<longrightarrow> 0 < ?N" by (cases "?own = ?n") auto
  ultimately have "length w = ?n \<and> length cs = ?own \<and> (\<forall>i \<in> set w. i < ?N)" by (rule qos_counters_props [OF c])
  then have p: "length w = ?n" "length cs = ?own" "\<forall>i \<in> set w. i < ?N" by blast+
  obtain a0 :: "(LRU, RR) QosArb" where a0: "qos_new settings g x = Inr a0" "qa_num_vns a0 = ?n" "qa_which a0 = w" "length (qa_settings a0) = ?N" "length (qa_counters a0) = ?N"
    using assms(1) c p(2) by (cases "?own = ?n"; cases "Suc ?own = ?n") (auto simp: qos_new_def Let_def)
  have "list_all2 rr_ready vcs (map (\<lambda>n. rr_new (int n)) vcs)" using assms(3) rr_new_ready by (auto simp: list_all2_conv_all_nth)
  moreover have "lru_ready ?n (lru_new ?n)" using assms(1) lru_new_ready by simp
  ultimately show ?thesis using a0 p(1,3) assms(2) by - (rule exI [of _ a0], simp add: qos_setVCs_def qos_ok_def qos_rest_def Let_def)
qed

lemma basic_setup_ok: "0 < sum_list vcs \<Longrightarrow> sum_list vcs < 2 ^ 15 \<Longrightarrow>
   basic_ok rr_ready (sum_list vcs) (basic_setVCs (\<lambda>n. rr_new (int n)) vcs)"
  by (simp add: basic_ok_def basic_setVCs_def Let_def rr_new_ready)

section \<open>Properties\<close>

text \<open>
  The default output arbiter of a port chooses a channel exactly when some channel has a packet
  that fits its credits, and then one that does; it reports whether any packet waits.
\<close>
theorem basic_output_choice:
  fixes out_q :: "'e RtrPacket_scheme list list"
  assumes "basic_ok rr_ready n a" and "queues_ok n out_q credits host"
  shows "\<exists>vc h a'. basic_arbitrate rr_next rr_satisfied cycle out_q credits host a = Inr (vc, h, a') \<and> basic_ok rr_ready n a' \<and>
    (vc = -1 \<longleftrightarrow> (\<forall>v < n. \<not> fits out_q credits host v)) \<and> (vc \<noteq> -1 \<longrightarrow> 0 \<le> vc \<and> vc < int n \<and> fits out_q credits host (nat vc)) \<and>
    h = (\<exists>q \<in> set out_q. q \<noteq> [])"
proof -
  obtain vc h a' where c: "basic_arbitrate rr_next rr_satisfied cycle out_q credits host a = Inr (vc, h, a')" "basic_ok rr_ready n a'"
    "choice_ok n out_q credits host vc h" using rr.basic.choice [OF assms, of cycle] by blast
  have "vc = -1 \<longleftrightarrow> (\<forall>v < n. \<not> fits out_q credits host v)" using c(3) by (cases "vc = -1") (auto simp: choice_ok_def intro: exI [of _ "nat vc"])
  then show ?thesis using c by (intro exI [of _ vc] exI [of _ h] exI [of _ a']) (simp add: choice_ok_def)
qed

text \<open>
  C22 The quality of service arbiter keeps the same promise, and lets a virtual network that has used
  up its share of the window send only when no network within its share can.
\<close>
theorem qos_prefers_share:
  fixes out_q :: "'e RtrPacket_scheme list list"
  assumes "qos_ok lru_ready rr_ready n a" and "queues_ok n out_q credits host"
  shows "\<exists>vc h a'. qos_arbitrate lru_next lru_satisfied rr_next rr_satisfied cycle out_q credits host a = Inr (vc, h, a') \<and>
    qos_ok lru_ready rr_ready n a' \<and> choice_ok n out_q credits host vc h \<and>
    ((\<exists>i < qa_num_vns a. \<exists>v. vn_eligible out_q credits host True (qos_reset cycle a) i v) \<longrightarrow>
     (\<exists>i < qa_num_vns a. \<exists>v. vc = int (sum_list (take i (qa_vcs_per_vn a)) + v) \<and> vn_eligible out_q credits host True (qos_reset cycle a) i v))"
  using qos.qos_choice [OF assms] .

text \<open>
  With exactly one virtual network without a setting its share of the window is never set: the
  counter and the value it is reset to keep whatever the memory held.
\<close>
theorem qos_share_unset:
  "\<exists>a. qos_new [50, -1] (g1, g2) x = Inr a \<and> qa_which a ! 1 = 1 \<and> qa_settings a ! 1 = g1 \<and> qa_counters a ! 1 = g2"
  by (simp add: qos_new_def Let_def)

section \<open>Concrete instances\<close>

definition demo_pkt :: RtrPacket where
  "demo_pkt = \<lparr>ge_dest = 0, ge_vn = 0, ge_vc = 0, ge_next_port = 0, ge_src = 0, ge_flits = 2, ge_bits = 64, ge_credit_vc = 0\<rparr>"

lemma ones: "sum_list [1, 1] = (2 :: nat)"
  by simp

theorem basic_output_choice_witness:
  "\<exists>h a'. basic_arbitrate rr_next rr_satisfied 0 [[], [demo_pkt]] [0, 5] False (basic_setVCs (\<lambda>n. rr_new (int n)) [1, 1]) = Inr (1, h, a')"
proof -
  have "basic_ok rr_ready 2 (basic_setVCs (\<lambda>n. rr_new (int n)) [1, 1])" using basic_setup_ok [of "[1, 1]", unfolded ones] by simp
  moreover have "queues_ok 2 [[], [demo_pkt]] [0, 5] False" by (simp add: queues_ok_def)
  ultimately obtain vc h a' where c: "basic_arbitrate rr_next rr_satisfied 0 [[], [demo_pkt]] [0, 5] False (basic_setVCs (\<lambda>n. rr_new (int n)) [1, 1]) = Inr (vc, h, a')"
    "vc = -1 \<longleftrightarrow> (\<forall>v < 2. \<not> fits [[], [demo_pkt]] [0, 5] False v)"
    "vc \<noteq> -1 \<longrightarrow> 0 \<le> vc \<and> vc < int 2 \<and> fits [[], [demo_pkt]] [0, 5] False (nat vc)"
    using basic_output_choice [of 2 _ "[[], [demo_pkt]]" "[0, 5]" False 0] by blast
  have f: "fits [[], [demo_pkt]] [0, 5] False 1" "\<not> fits [[], [demo_pkt]] [0, 5] False 0" by (simp_all add: fits_def demo_pkt_def)
  have "vc \<noteq> -1" using c(2) f(1) by (metis one_less_numeral_iff semiring_norm(76))
  moreover have "vc \<noteq> 0" using c(3) f(2) by (metis nat_0 calculation)
  ultimately have "vc = 1" using c(3) by auto
  with c(1) show ?thesis by blast
qed

theorem qos_prefers_share_witness:
  "\<exists>a vc h a'. qos_ok lru_ready rr_ready 2 a \<and> qos_arbitrate lru_next lru_satisfied rr_next rr_satisfied 0 [[], [demo_pkt]] [0, 5] False a = Inr (vc, h, a') \<and>
     choice_ok 2 [[], [demo_pkt]] [0, 5] False vc h"
proof -
  obtain a where a: "qos_ok lru_ready rr_ready 2 a" using qos_setup_ok [of "[50, 50]" "[1, 1]" "(0, 0)" undefined, unfolded ones] by auto
  have "queues_ok 2 [[], [demo_pkt]] [0, 5] False" by (simp add: queues_ok_def)
  from qos_prefers_share [OF a this, of 0] a show ?thesis by blast
qed

end
