(* ===== verification/Merlin_Port.thy ===== *)
theory Merlin_Port
  imports Merlin_OutputArb
begin

text \<open>
  The port of a router (\<^verbatim>\<open>merlin/interfaces/portControl.cc\<close>): input and output queues per virtual
  channel, credit-based flow control with the other side of the link, output arbitration. The
  topology's routing and the output arbiter are arguments. What a port sends over its link and
  the wake-ups it schedules are appended to the record; \<open>vcs_with_data\<close> is the port's part of the
  counter of the router. Congestion management, statistics and adaptive link widths are left out.
\<close>

section \<open>State\<close>

record CtrlEvent =
  ctrl_flits :: int
  ctrl_id :: nat

datatype 'p msg = Credit int int | Data 'p | Ctrl CtrlEvent

record ('p, 'a) Port =
  port_number :: int
  host_port :: bool
  num_vcs :: nat
  input_buf :: "'p list list"
  output_buf :: "'p list list"
  vc_heads :: "'p option list"
  input_buf_count :: "int list"
  output_buf_count :: "int list"
  output_queue_lengths :: "int list"
  oql_track_port :: bool
  oql_track_remote :: bool
  xbar_in_credits :: "int list"
  port_ret_credits :: "int list"
  port_out_credits :: "int list"
  waiting :: bool
  have_packets :: bool
  sai_port_disabled :: bool
  ctrl_queue :: "CtrlEvent list"
  output_arb :: 'a
  pc_sent :: "'p msg list"
  pc_wakeups :: "int list"
  vcs_with_data :: int

text \<open>
  The constructor's values of the flags and counters; \<open>initVCs\<close> sets the arrays. \<open>num_vcs\<close>, which is -1
  until then, is not read before.
\<close>

definition new_port :: "int \<Rightarrow> bool \<Rightarrow> bool \<Rightarrow> bool \<Rightarrow> 'a \<Rightarrow> ('p, 'a) Port" where
  "new_port number host track_port track_remote arb = \<lparr>port_number = number, host_port = host, num_vcs = 0, input_buf = [], output_buf = [],
     vc_heads = [], input_buf_count = [], output_buf_count = [], output_queue_lengths = [], oql_track_port = track_port,
     oql_track_remote = track_remote, xbar_in_credits = [], port_ret_credits = [], port_out_credits = [], waiting = True,
     have_packets = False, sai_port_disabled = False, ctrl_queue = [], output_arb = arb, pc_sent = [], pc_wakeups = [], vcs_with_data = 0\<rparr>"

text \<open>The buffers hold \<open>ibs\<close> and \<open>obs\<close> flits; nothing is known of the credits of the other side.\<close>

definition initVCs :: "nat \<Rightarrow> int \<Rightarrow> int \<Rightarrow> 'a \<Rightarrow> ('p, 'a) Port \<Rightarrow> ('p, 'a) Port" where
  "initVCs n ibs obs arb p = p\<lparr>num_vcs := n, input_buf := replicate n [], output_buf := replicate n [], vc_heads := replicate n None,
     input_buf_count := replicate n 0, output_buf_count := replicate n 0, port_ret_credits := replicate n ibs,
     xbar_in_credits := replicate n obs, port_out_credits := replicate n 0,
     output_queue_lengths := replicate n 0, output_arb := arb\<rparr>"

text \<open>The first exchange of credits between routers, in \<open>init\<close>.\<close>

definition init_credits :: "('p, 'a) Port \<Rightarrow> ('p, 'a) Port" where
  "init_credits p = p\<lparr>pc_sent := pc_sent p @ map (\<lambda>i. Credit (int i) (port_ret_credits p ! i)) [0..<num_vcs p],
     port_ret_credits := replicate (num_vcs p) 0\<rparr>"

definition upd :: "(int \<Rightarrow> int) \<Rightarrow> int list \<Rightarrow> int \<Rightarrow> int list res" where
  "upd f xs i = bindE (at xs i) (\<lambda>x. put xs i (f x))"

definition oql_change :: "int \<Rightarrow> int \<Rightarrow> ('p, 'a) Port \<Rightarrow> ('p, 'a) Port res" where
  "oql_change d vc p =
     (if oql_track_port p then Inr (p\<lparr>output_queue_lengths := map (\<lambda>x. x + d) (output_queue_lengths p)\<rparr>)
      else bindE (upd (\<lambda>x. x + d) (output_queue_lengths p) vc) (\<lambda>l. Inr (p\<lparr>output_queue_lengths := l\<rparr>)))"

text \<open>When a packet leaves; with \<open>oql_track_remote\<close> its flits count until the credits come back.\<close>

definition oql_release :: "int \<Rightarrow> int \<Rightarrow> ('p, 'a) Port \<Rightarrow> ('p, 'a) Port res" where
  "oql_release d vc p = (if oql_track_remote p then Inr p else oql_change (- d) vc p)"

text \<open>Restarts the output when it was waiting.\<close>

definition wake :: "('p, 'a) Port \<Rightarrow> ('p, 'a) Port" where
  "wake p = (if waiting p then p\<lparr>pc_wakeups := pc_wakeups p @ [1], waiting := False\<rparr> else p)"

definition sendCtrlEvent :: "CtrlEvent \<Rightarrow> ('p, 'a) Port \<Rightarrow> ('p, 'a) Port" where
  "sendCtrlEvent ev p =
     (if ctrl_flits ev = 0 then p\<lparr>pc_sent := pc_sent p @ [Ctrl ev]\<rparr> else wake (p\<lparr>ctrl_queue := ctrl_queue p @ [ev]\<rparr>))"

definition port_send :: "'e RtrPacket_scheme \<Rightarrow> int \<Rightarrow> ('e RtrPacket_scheme, 'a) Port \<Rightarrow> ('e RtrPacket_scheme, 'a) Port res" where
  "port_send ev vc p =
     bindE (upd (\<lambda>x. x - ge_flits ev) (xbar_in_credits p) vc) (\<lambda>c.
     bindE (oql_change (ge_flits ev) vc (p\<lparr>xbar_in_credits := c\<rparr>)) (\<lambda>p.
     bindE (at (output_buf p) vc) (\<lambda>q. bindE (put (output_buf p) vc (q @ [ev\<lparr>ge_vc := vc\<rparr>])) (\<lambda>b.
     Inr (wake (p\<lparr>output_buf := b\<rparr>))))))"

definition spaceToSend :: "int \<Rightarrow> int \<Rightarrow> ('p, 'a) Port \<Rightarrow> bool res" where
  "spaceToSend vc flits p = bindE (at (xbar_in_credits p) vc) (\<lambda>c. Inr (\<not> c < flits))"

text \<open>\<open>route\<close> is the topology's \<open>route_packet\<close>; the front of a queue is routed when it becomes the head.\<close>

type_synonym 'p router = "int \<Rightarrow> int \<Rightarrow> 'p \<Rightarrow> 'p res"

definition port_recv :: "'e RtrPacket_scheme router \<Rightarrow> (int \<Rightarrow> bool) \<Rightarrow> int \<Rightarrow> ('e RtrPacket_scheme, 'a) Port \<Rightarrow>
    ('e RtrPacket_scheme option \<times> ('e RtrPacket_scheme, 'a) Port) res" where
  "port_recv route isHostPort vc p =
     bindE (at (input_buf p) vc) (\<lambda>q. case q of [] \<Rightarrow> Inr (None, p) | event # rest \<Rightarrow>
       bindE (case rest of
           [] \<Rightarrow> Inr (p\<lparr>input_buf := (input_buf p)[nat vc := []], vc_heads := (vc_heads p)[nat vc := None], vcs_with_data := vcs_with_data p - 1\<rparr>)
         | next_event # later \<Rightarrow> bindE (route (port_number p) (ge_vc next_event) next_event) (\<lambda>e.
             Inr (p\<lparr>input_buf := (input_buf p)[nat vc := e # later], vc_heads := (vc_heads p)[nat vc := Some e]\<rparr>))) (\<lambda>p.
       let vc_return = (if isHostPort (port_number p) then ge_credit_vc event else vc) in
       bindE (at (port_ret_credits p) vc_return) (\<lambda>c.
       bindE (put (port_ret_credits p) vc_return 0) (\<lambda>r.
         Inr (Some event, p\<lparr>port_ret_credits := r, pc_sent := pc_sent p @ [Credit vc_return (c + ge_flits event)]\<rparr>)))))"

definition credit_arrives :: "int \<Rightarrow> int \<Rightarrow> ('p, 'a) Port \<Rightarrow> ('p, 'a) Port res" where
  "credit_arrives vc credits p = bindE (upd (\<lambda>x. x + credits) (port_out_credits p) vc) (\<lambda>c. Inr (p\<lparr>port_out_credits := c\<rparr>))"

text \<open>A packet is queued, and routed when there is no head.\<close>

definition data_arrives :: "'e RtrPacket_scheme router \<Rightarrow> 'e RtrPacket_scheme \<Rightarrow> ('e RtrPacket_scheme, 'a) Port \<Rightarrow> ('e RtrPacket_scheme, 'a) Port res" where
  "data_arrives route ev p =
     (let vc = ge_vc ev in
      bindE (at (input_buf p) vc) (\<lambda>q. bindE (upd (\<lambda>x. x + 1) (input_buf_count p) vc) (\<lambda>n.
      bindE (at (vc_heads p) vc) (\<lambda>h. case h of
        None \<Rightarrow> bindE (route (port_number p) vc ev) (\<lambda>e.
          Inr (p\<lparr>input_buf := (input_buf p)[nat vc := q @ [e]], input_buf_count := n, vc_heads := (vc_heads p)[nat vc := Some e],
                 vcs_with_data := vcs_with_data p + 1\<rparr>))
      | Some _ \<Rightarrow> Inr (p\<lparr>input_buf := (input_buf p)[nat vc := q @ [ev]], input_buf_count := n\<rparr>)))))"

definition handle_input_r2r :: "'e RtrPacket_scheme router \<Rightarrow> 'e RtrPacket_scheme msg \<Rightarrow> ('e RtrPacket_scheme, 'a) Port \<Rightarrow> ('e RtrPacket_scheme, 'a) Port res" where
  "handle_input_r2r route m p = (case m of
     Credit vc credits \<Rightarrow> bindE (credit_arrives vc credits p) (\<lambda>p. Inr (wake p))
   | Data ev \<Rightarrow> data_arrives route ev p
   | Ctrl _ \<Rightarrow> Inr p)"

text \<open>From an endpoint: \<open>process_input\<close> of the topology wraps the packet first.\<close>

definition handle_input_n2r :: "'e RtrPacket_scheme router \<Rightarrow> ('e RtrPacket_scheme \<Rightarrow> 'e RtrPacket_scheme res) \<Rightarrow> 'e RtrPacket_scheme msg \<Rightarrow>
    ('e RtrPacket_scheme, 'a) Port \<Rightarrow> ('e RtrPacket_scheme, 'a) Port res" where
  "handle_input_n2r route process m p = (case m of
     Credit vc credits \<Rightarrow>
       bindE (credit_arrives vc credits p) (\<lambda>p.
       bindE (if oql_track_remote p then oql_change (- credits) vc p else Inr p) (\<lambda>p. Inr (wake p)))
   | Data ev \<Rightarrow> bindE (process ev) (\<lambda>e. data_arrives route (e\<lparr>ge_credit_vc := ge_vn ev\<rparr>) p)
   | Ctrl _ \<Rightarrow> Inr p)"

type_synonym ('p, 'a) arbiter = "u64 \<Rightarrow> 'p list list \<Rightarrow> int list \<Rightarrow> bool \<Rightarrow> 'a \<Rightarrow> (int \<times> bool \<times> 'a) res"

definition handle_output :: "('e RtrPacket_scheme, 'a) arbiter \<Rightarrow> u64 \<Rightarrow> ('e RtrPacket_scheme, 'a) Port \<Rightarrow> ('e RtrPacket_scheme, 'a) Port res" where
  "handle_output arbitrate cycle p = (case ctrl_queue p of
     c # cs \<Rightarrow> Inr (p\<lparr>ctrl_queue := cs, pc_wakeups := pc_wakeups p @ [ctrl_flits c], pc_sent := pc_sent p @ [Ctrl c]\<rparr>)
   | [] \<Rightarrow>
       bindE (if sai_port_disabled p then Inr (-1, p)
              else bindE (arbitrate cycle (output_buf p) (port_out_credits p) (host_port p) (output_arb p)) (\<lambda>(vc, h, a).
                Inr (vc, p\<lparr>output_arb := a, have_packets := h\<rparr>))) (\<lambda>(vc, p).
       if vc = -1 then Inr (p\<lparr>waiting := True, pc_wakeups := pc_wakeups p @ (if sai_port_disabled p then [1] else [])\<rparr>)
       else bindE (at (output_buf p) vc) (\<lambda>q. case q of [] \<Rightarrow> Inl OutOfRange | ev # rest \<Rightarrow>
         let size = ge_flits ev in
         bindE (upd (\<lambda>x. x + size) (xbar_in_credits p) vc) (\<lambda>xc.
         bindE (oql_release size vc (p\<lparr>output_buf := (output_buf p)[nat vc := rest], xbar_in_credits := xc\<rparr>)) (\<lambda>p.
         bindE (upd (\<lambda>x. x - size) (port_out_credits p) vc) (\<lambda>oc.
         bindE (upd (\<lambda>x. x + 1) (output_buf_count p) vc) (\<lambda>n.
         Inr (p\<lparr>port_out_credits := oc, output_buf_count := n, pc_wakeups := pc_wakeups p @ [size], pc_sent := pc_sent p @ [Data ev]\<rparr>))))))))"

section \<open>Invariant\<close>

abbreviation flits :: "'e RtrPacket_scheme list \<Rightarrow> int" where
  "flits q \<equiv> sum_list (map ge_flits q)"

fun msg_ok :: "nat \<Rightarrow> 'e RtrPacket_scheme msg \<Rightarrow> bool" where
  "msg_ok n (Credit v c) = (0 \<le> v \<and> v < int n \<and> 0 \<le> c)"
| "msg_ok n (Data ev) = (0 \<le> ge_vc ev \<and> ge_vc ev < int n \<and> 0 \<le> ge_flits ev)"
| "msg_ok n (Ctrl c) = True"

text \<open>One virtual channel: credits and sizes are not negative, the output buffer and its credits make up \<open>obs\<close>, the head is published.\<close>

definition chan_ok :: "int \<Rightarrow> ('e RtrPacket_scheme, 'a) Port \<Rightarrow> nat \<Rightarrow> bool" where
  "chan_ok obs p v \<longleftrightarrow> 0 \<le> port_out_credits p ! v \<and> 0 \<le> port_ret_credits p ! v \<and> 0 \<le> xbar_in_credits p ! v \<and>
     xbar_in_credits p ! v + flits (output_buf p ! v) = obs \<and>
     (\<forall>ev \<in> set (output_buf p ! v). ge_vc ev = int v \<and> 0 \<le> ge_flits ev) \<and> (\<forall>ev \<in> set (input_buf p ! v). 0 \<le> ge_flits ev) \<and>
     vc_heads p ! v = (if input_buf p ! v = [] then None else Some (hd (input_buf p ! v)))"

definition shape_ok :: "nat \<Rightarrow> ('p, 'a) Port \<Rightarrow> bool" where
  "shape_ok n p \<longleftrightarrow> num_vcs p = n \<and> length (input_buf p) = n \<and> length (output_buf p) = n \<and> length (vc_heads p) = n \<and>
     length (input_buf_count p) = n \<and> length (output_buf_count p) = n \<and> length (output_queue_lengths p) = n \<and>
     length (xbar_in_credits p) = n \<and> length (port_ret_credits p) = n \<and> length (port_out_credits p) = n"

text \<open>Nothing that could be sent waits without a wake-up.\<close>

definition wake_ok :: "('e RtrPacket_scheme, 'a) Port \<Rightarrow> bool" where
  "wake_ok p \<longleftrightarrow> (pc_wakeups p = [] \<longrightarrow> waiting p \<and> ctrl_queue p = [] \<and> (\<forall>v < num_vcs p. \<not> fits (output_buf p) (port_out_credits p) (host_port p) v))"

definition port_ok :: "(nat \<Rightarrow> 'a \<Rightarrow> bool) \<Rightarrow> nat \<Rightarrow> int \<Rightarrow> ('e RtrPacket_scheme, 'a) Port \<Rightarrow> bool" where
  "port_ok ok n obs p \<longleftrightarrow> shape_ok n p \<and> \<not> host_port p \<and> ok n (output_arb p) \<and> (\<forall>v < n. chan_ok obs p v) \<and>
     (\<forall>m \<in> set (pc_sent p). msg_ok n m) \<and> vcs_with_data p = int (length (filter (\<lambda>q. q \<noteq> []) (input_buf p))) \<and> wake_ok p"

text \<open>What a port owns of the credits of the link, per virtual channel: as the sender and as the receiver.\<close>

fun data_flits :: "nat \<Rightarrow> 'e RtrPacket_scheme msg \<Rightarrow> int" where
  "data_flits v (Data ev) = (if ge_vc ev = int v then ge_flits ev else 0)"
| "data_flits v m = 0"

fun credit_flits :: "nat \<Rightarrow> 'p msg \<Rightarrow> int" where
  "credit_flits v (Credit w c) = (if w = int v then c else 0)"
| "credit_flits v m = 0"

definition sender_share :: "('e RtrPacket_scheme, 'a) Port \<Rightarrow> nat \<Rightarrow> int" where
  "sender_share p v = port_out_credits p ! v + sum_list (map (data_flits v) (pc_sent p))"

definition receiver_share :: "('e RtrPacket_scheme, 'a) Port \<Rightarrow> nat \<Rightarrow> int" where
  "receiver_share p v = flits (input_buf p ! v) + port_ret_credits p ! v + sum_list (map (credit_flits v) (pc_sent p))"

abbreviation same_shares :: "nat \<Rightarrow> ('e RtrPacket_scheme, 'a) Port \<Rightarrow> ('e RtrPacket_scheme, 'a) Port \<Rightarrow> bool" where
  "same_shares n p p' \<equiv> (\<forall>v < n. sender_share p' v = sender_share p v \<and> receiver_share p' v = receiver_share p v)"

lemma upd_nat [simp]: "i < length xs \<Longrightarrow> upd f xs (int i) = Inr (xs[i := f (xs ! i)])"
  by (simp add: upd_def)

lemma upd_Inr: "upd f xs i = Inr ys \<longleftrightarrow> (\<exists>k. i = int k \<and> k < length xs \<and> ys = xs[k := f (xs ! k)])"
  by (auto simp: upd_def at_def put_def split: if_splits) (metis nat_int int_nat_eq nat_less_iff)

lemma channel_index:
  assumes "0 \<le> vc" "vc < int n" obtains w where "vc = int w" "w < n"
  using assms by (metis nonneg_int_cases of_nat_less_iff)

lemma oql_change_ok:
  assumes "length (output_queue_lengths p) = n" "v < n"
  obtains l where "oql_change d (int v) p = Inr (p\<lparr>output_queue_lengths := l\<rparr>)" "length l = n"
  using assms by (cases "oql_track_port p") (auto simp: oql_change_def)

lemma oql_release_ok:
  assumes "length (output_queue_lengths p) = n" "v < n"
  obtains l where "oql_release d (int v) p = Inr (p\<lparr>output_queue_lengths := l\<rparr>)" "length l = n"
proof (cases "oql_track_remote p")
  case True
  then show ?thesis using that [of "output_queue_lengths p"] assms by (simp add: oql_release_def)
next
  case False
  then show ?thesis using that oql_change_ok [OF assms, of "- d"] by (auto simp: oql_release_def)
qed

lemma count_nonempty:
  "v < length xs \<Longrightarrow> int (length (filter (\<lambda>q. q \<noteq> []) (xs[v := q]))) =
    int (length (filter (\<lambda>q. q \<noteq> []) xs)) - (if xs ! v = [] then 0 else 1) + (if q = [] then 0 else 1)"
proof (induction xs arbitrary: v)
  case (Cons x xs)
  show ?case
  proof (cases v)
    case (Suc k)
    then show ?thesis using Cons.IH [of k] Cons.prems by (cases "x = []"; cases "xs ! k = []"; cases "q = []") simp_all
  qed simp
qed simp

lemma flits_nonneg: "\<forall>ev \<in> set q. 0 \<le> ge_flits ev \<Longrightarrow> 0 \<le> flits q"
  by (induction q) auto

lemma control_fields [simp]:
  "shape_ok n (p\<lparr>ctrl_queue := x0\<rparr>) = shape_ok n p" "chan_ok obs (p\<lparr>ctrl_queue := x0\<rparr>) v = chan_ok obs p v"
  "shape_ok n (p\<lparr>pc_wakeups := x1\<rparr>) = shape_ok n p" "chan_ok obs (p\<lparr>pc_wakeups := x1\<rparr>) v = chan_ok obs p v"
  "shape_ok n (p\<lparr>waiting := x2\<rparr>) = shape_ok n p" "chan_ok obs (p\<lparr>waiting := x2\<rparr>) v = chan_ok obs p v"
  "shape_ok n (p\<lparr>output_arb := x3\<rparr>) = shape_ok n p" "chan_ok obs (p\<lparr>output_arb := x3\<rparr>) v = chan_ok obs p v"
  "shape_ok n (p\<lparr>have_packets := x4\<rparr>) = shape_ok n p" "chan_ok obs (p\<lparr>have_packets := x4\<rparr>) v = chan_ok obs p v"
  "shape_ok n (p\<lparr>pc_sent := x5\<rparr>) = shape_ok n p" "chan_ok obs (p\<lparr>pc_sent := x5\<rparr>) v = chan_ok obs p v"
  "sender_share (p\<lparr>ctrl_queue := x0\<rparr>) v = sender_share p v" "receiver_share (p\<lparr>ctrl_queue := x0\<rparr>) v = receiver_share p v"
  "sender_share (p\<lparr>pc_wakeups := x1\<rparr>) v = sender_share p v" "receiver_share (p\<lparr>pc_wakeups := x1\<rparr>) v = receiver_share p v"
  "sender_share (p\<lparr>waiting := x2\<rparr>) v = sender_share p v" "receiver_share (p\<lparr>waiting := x2\<rparr>) v = receiver_share p v"
  "sender_share (p\<lparr>output_arb := x3\<rparr>) v = sender_share p v" "receiver_share (p\<lparr>output_arb := x3\<rparr>) v = receiver_share p v"
  "sender_share (p\<lparr>have_packets := x4\<rparr>) v = sender_share p v" "receiver_share (p\<lparr>have_packets := x4\<rparr>) v = receiver_share p v"
  by (simp_all add: shape_ok_def chan_ok_def sender_share_def receiver_share_def)

lemma wake_simps [simp]:
  "shape_ok n (wake p) = shape_ok n p" "host_port (wake p) = host_port p" "output_arb (wake p) = output_arb p"
  "chan_ok obs (wake p) v = chan_ok obs p v" "pc_sent (wake p) = pc_sent p" "vcs_with_data (wake p) = vcs_with_data p"
  "input_buf (wake p) = input_buf p" "sender_share (wake p) v = sender_share p v" "receiver_share (wake p) v = receiver_share p v"
  by (auto simp: wake_def shape_ok_def chan_ok_def sender_share_def receiver_share_def fun_eq_iff)

text \<open>Waking the output makes up for anything that became ready to send.\<close>

lemma wake_restores: "pc_wakeups p = [] \<longrightarrow> waiting p \<Longrightarrow> wake_ok (wake p)"
  by (auto simp: wake_ok_def wake_def)

lemma wake_ok_waiting: "wake_ok p \<Longrightarrow> pc_wakeups p = [] \<longrightarrow> waiting p"
  by (simp add: wake_ok_def)

lemmas share_defs = sender_share_def receiver_share_def

text \<open>The crossbar hands over a packet that fits.\<close>

lemma port_send_keeps:
  assumes "port_ok ok n obs p" "v < n" "0 \<le> ge_flits ev" "spaceToSend (int v) (ge_flits ev) p = Inr True"
  shows "\<exists>p'. port_send ev (int v) p = Inr p' \<and> port_ok ok n obs p' \<and> same_shares n p p'"
proof -
  have s: "shape_ok n p" and c: "\<forall>w < n. chan_ok obs p w" and k: "wake_ok p" using assms(1) by (auto simp: port_ok_def)
  let ?p = "p\<lparr>xbar_in_credits := (xbar_in_credits p)[v := xbar_in_credits p ! v - ge_flits ev]\<rparr>"
  have "length (output_queue_lengths ?p) = n" using s by (simp add: shape_ok_def)
  then obtain l where l: "oql_change (ge_flits ev) (int v) ?p = Inr (?p\<lparr>output_queue_lengths := l\<rparr>)" "length l = n" using assms(2) by (rule oql_change_ok)
  let ?p' = "?p\<lparr>output_queue_lengths := l, output_buf := (output_buf p)[v := output_buf p ! v @ [ev\<lparr>ge_vc := int v\<rparr>]]\<rparr>"
  have "ge_flits ev \<le> xbar_in_credits p ! v" using assms(2,4) s by (simp add: spaceToSend_def shape_ok_def)
  then have "\<forall>w < n. chan_ok obs ?p' w" using c s assms(2,3) by (auto simp: chan_ok_def shape_ok_def nth_list_update)
  moreover have "shape_ok n ?p'" using s l(2) by (simp add: shape_ok_def)
  moreover have "wake_ok (wake ?p')" using wake_ok_waiting [OF k] by (intro wake_restores) simp
  moreover have "port_send ev (int v) p = Inr (wake ?p')" using s l(1) assms(2) by (simp add: port_send_def shape_ok_def)
  moreover have "same_shares n p ?p'" by (simp add: share_defs)
  ultimately show ?thesis using assms(1) by (simp add: port_ok_def)
qed

lemma sendCtrlEvent_keeps:
  "port_ok ok n obs p \<Longrightarrow> port_ok ok n obs (sendCtrlEvent ev p) \<and> same_shares n p (sendCtrlEvent ev p)"
proof (cases "ctrl_flits ev = 0")
  case False
  assume p: "port_ok ok n obs p"
  then have "wake_ok (wake (p\<lparr>ctrl_queue := ctrl_queue p @ [ev]\<rparr>))" by (intro wake_restores) (simp add: port_ok_def wake_ok_def)
  then show ?thesis using p False by (simp add: port_ok_def sendCtrlEvent_def)
qed (auto simp: port_ok_def sendCtrlEvent_def share_defs wake_ok_def)

text \<open>A message of the link reaches the other port.\<close>

lemma credit_arrives_keeps:
  assumes "port_ok ok n obs p" "msg_ok n (Credit vc c)"
  shows "\<exists>p'. handle_input_r2r route (Credit vc c) p = Inr p' \<and> port_ok ok n obs p' \<and>
    (\<forall>v < n. sender_share p' v = sender_share p v + credit_flits v (Credit vc c) \<and> receiver_share p' v = receiver_share p v)"
proof -
  obtain w where w: "vc = int w" "w < n" using assms(2) by (auto elim: channel_index)
  have s: "shape_ok n p" and c: "\<forall>v < n. chan_ok obs p v" and k: "wake_ok p" using assms(1) by (auto simp: port_ok_def)
  let ?p = "p\<lparr>port_out_credits := (port_out_credits p)[w := port_out_credits p ! w + c]\<rparr>"
  have "\<forall>v < n. chan_ok obs ?p v" using c s w assms(2) by (auto simp: chan_ok_def shape_ok_def nth_list_update)
  moreover have "shape_ok n ?p" using s by (simp add: shape_ok_def)
  moreover have "wake_ok (wake ?p)" using wake_ok_waiting [OF k] by (intro wake_restores) simp
  moreover have "handle_input_r2r route (Credit vc c) p = Inr (wake ?p)" using s w by (simp add: handle_input_r2r_def credit_arrives_def shape_ok_def)
  moreover have "\<forall>v < n. sender_share ?p v = sender_share p v + credit_flits v (Credit vc c) \<and> receiver_share ?p v = receiver_share p v"
    using w s by (auto simp: share_defs nth_list_update shape_ok_def)
  ultimately show ?thesis using assms(1) by (simp add: port_ok_def)
qed

text \<open>What the port relies on: the arbiter's choices fit, routing does not change the size of a packet.\<close>

locale port_control = output_arbitration arbitrate ok
  for arbitrate :: "('e RtrPacket_scheme, 'a) arbiter" and ok :: "nat \<Rightarrow> 'a \<Rightarrow> bool" +
  fixes route :: "'e RtrPacket_scheme router"
  assumes route_flits: "route pn vc ev = Inr ev' \<Longrightarrow> ge_flits ev' = ge_flits ev"
begin

lemma data_arrives_keeps:
  assumes "port_ok ok n obs p" "msg_ok n (Data ev)" "handle_input_r2r route (Data ev) p = Inr p'"
  shows "port_ok ok n obs p' \<and>
    (\<forall>v < n. sender_share p' v = sender_share p v \<and> receiver_share p' v = receiver_share p v + data_flits v (Data ev))"
proof -
  obtain w where w: "ge_vc ev = int w" "w < n" using assms(2) channel_index [of "ge_vc ev" n] by auto
  have s: "shape_ok n p" and c: "\<forall>v < n. chan_ok obs p v" using assms(1) by (auto simp: port_ok_def)
  let ?q = "input_buf p ! w"
  have h: "vc_heads p ! w = (if ?q = [] then None else Some (hd ?q))" using c w by (auto simp: chan_ok_def)
  obtain e where e: "ge_flits e = ge_flits ev" "p' = p\<lparr>input_buf := (input_buf p)[w := ?q @ [e]], input_buf_count := (input_buf_count p)[w := input_buf_count p ! w + 1],
      vc_heads := (vc_heads p)[w := Some (hd (?q @ [e]))], vcs_with_data := vcs_with_data p + (if ?q = [] then 1 else 0)\<rparr>"
  proof (cases "?q = []")
    case True
    then obtain e where "route (port_number p) (int w) ev = Inr e"
      using assms(3) w s h by (cases "route (port_number p) (int w) ev") (auto simp: handle_input_r2r_def data_arrives_def shape_ok_def)
    then show ?thesis using that [of e] True assms(3) w s h route_flits by (auto simp: handle_input_r2r_def data_arrives_def shape_ok_def)
  next
    case False
    then have "(vc_heads p)[w := Some (hd ?q)] = vc_heads p" using h by (metis list_update_id)
    then show ?thesis using that [of ev] False assms(3) w s h by (auto simp: handle_input_r2r_def data_arrives_def shape_ok_def)
  qed
  have "\<forall>v < n. chan_ok obs p' v" using c s w e assms(2) by (auto simp: chan_ok_def shape_ok_def nth_list_update)
  moreover have "shape_ok n p'" using s e by (simp add: shape_ok_def)
  moreover have "vcs_with_data p' = int (length (filter (\<lambda>q. q \<noteq> []) (input_buf p')))"
    using assms(1) e(2) w s by (simp add: count_nonempty port_ok_def shape_ok_def)
  ultimately show ?thesis using assms(1) w s e by (auto simp: port_ok_def wake_ok_def share_defs nth_list_update shape_ok_def)
qed

lemma port_recv_keeps:
  assumes "port_ok ok n obs p" "port_recv route (\<lambda>_. False) vc p = Inr (r, p')"
  shows "port_ok ok n obs p' \<and> same_shares n p p'"
proof -
  have s: "shape_ok n p" and c: "\<forall>v < n. chan_ok obs p v" using assms(1) by (auto simp: port_ok_def)
  have "0 \<le> vc \<and> vc < int n" using assms(2) s by (auto simp: port_recv_def at_def shape_ok_def split: if_splits)
  then obtain w where w: "vc = int w" "w < n" using channel_index [of vc n] by auto
  show ?thesis
  proof (cases "input_buf p ! w")
    case Nil
    then show ?thesis using assms w s by (simp add: port_recv_def shape_ok_def)
  next
    case (Cons ev rest)
    obtain rest' where r: "flits rest' = flits rest" "\<forall>e \<in> set rest'. 0 \<le> ge_flits e" "rest' = [] \<longleftrightarrow> rest = []"
      "p' = p\<lparr>input_buf := (input_buf p)[w := rest'], vc_heads := (vc_heads p)[w := (if rest' = [] then None else Some (hd rest'))],
         vcs_with_data := vcs_with_data p - (if rest' = [] then 1 else 0), port_ret_credits := (port_ret_credits p)[w := 0],
         pc_sent := pc_sent p @ [Credit vc (port_ret_credits p ! w + ge_flits ev)]\<rparr>"
    proof (cases rest)
      case Nil
      then show ?thesis using that [of "[]"] assms(2) Cons w s by (auto simp: port_recv_def shape_ok_def)
    next
      case later: (Cons x xs)
      then obtain e where e: "route (port_number p) (ge_vc x) x = Inr e"
        using assms(2) Cons w s by (cases "route (port_number p) (ge_vc x) x") (auto simp: port_recv_def shape_ok_def)
      have "\<forall>y \<in> set (x # xs). 0 \<le> ge_flits y" using c w Cons later by (auto simp: chan_ok_def)
      then show ?thesis using that [of "e # xs"] assms(2) Cons later w s e route_flits [OF e] by (auto simp: port_recv_def shape_ok_def)
    qed
    have n: "0 \<le> ge_flits ev" "0 \<le> port_ret_credits p ! w" using c w Cons by (auto simp: chan_ok_def)
    have "\<forall>v < n. chan_ok obs p' v" using c s w r by (auto simp: chan_ok_def shape_ok_def nth_list_update)
    moreover have "shape_ok n p'" using s r(4) by (simp add: shape_ok_def)
    moreover have "vcs_with_data p' = int (length (filter (\<lambda>q. q \<noteq> []) (input_buf p')))"
      using assms(1) r(4) w s Cons by (simp add: count_nonempty port_ok_def shape_ok_def)
    ultimately show ?thesis using assms(1) w s r Cons n by (auto simp: port_ok_def wake_ok_def share_defs nth_list_update shape_ok_def)
  qed
qed

text \<open>A wake-up of the output: the timer is taken from the schedule and the handler runs.\<close>

lemma output_choice:
  assumes "port_ok ok n obs p"
  obtains vc h a where "arbitrate cycle (output_buf p) (port_out_credits p) (host_port p) (output_arb p) = Inr (vc, h, a)" "ok n a"
    "choice_ok n (output_buf p) (port_out_credits p) False vc h"
proof -
  have "queues_ok n (output_buf p) (port_out_credits p) False" "ok n (output_arb p)" "host_port p = False"
    using assms by (auto simp: port_ok_def queues_ok_def shape_ok_def)
  from choice [OF this(2,1), of cycle] this(3) show ?thesis using that by auto
qed

lemma handle_output_keeps:
  assumes "port_ok ok n obs p"
  shows "\<exists>p'. handle_output arbitrate cycle (p\<lparr>pc_wakeups := ts\<rparr>) = Inr p' \<and> port_ok ok n obs p' \<and> same_shares n p p'"
proof -
  have s: "shape_ok n p" and c: "\<forall>v < n. chan_ok obs p v" and h: "\<not> host_port p" using assms by (auto simp: port_ok_def)
  let ?p0 = "p\<lparr>pc_wakeups := ts\<rparr>"
  obtain vc hp a where a: "arbitrate cycle (output_buf p) (port_out_credits p) (host_port p) (output_arb p) = Inr (vc, hp, a)" "ok n a"
    "choice_ok n (output_buf p) (port_out_credits p) False vc hp" using output_choice [OF assms] .
  consider (ctrl) x xs where "ctrl_queue p = x # xs" | (disabled) "ctrl_queue p = []" "sai_port_disabled p"
    | (idle) "ctrl_queue p = []" "\<not> sai_port_disabled p" "vc = -1" | (sends) "ctrl_queue p = []" "\<not> sai_port_disabled p" "vc \<noteq> -1"
    by (cases "ctrl_queue p") auto
  then show ?thesis
  proof cases
    case ctrl
    then show ?thesis using assms by (auto simp: handle_output_def port_ok_def wake_ok_def share_defs)
  next
    case disabled
    then show ?thesis using assms by (simp add: handle_output_def port_ok_def wake_ok_def share_defs)
  next
    case idle
    then have "\<forall>v < n. \<not> fits (output_buf p) (port_out_credits p) False v" using a(3) by (simp add: choice_ok_def)
    then show ?thesis using assms idle a(1,2) h s by (simp add: handle_output_def port_ok_def wake_ok_def share_defs shape_ok_def)
  next
    case sends
    then have "0 \<le> vc" "vc < int n" "fits (output_buf p) (port_out_credits p) False (nat vc)" using a(3) by (auto simp: choice_ok_def)
    then obtain w where w: "vc = int w" "w < n" "fits (output_buf p) (port_out_credits p) False w" by (metis channel_index nat_int)
    then obtain ev rest where q: "output_buf p ! w = ev # rest" by (auto simp: fits_def neq_Nil_conv)
    have e: "0 \<le> ge_flits ev" "ge_vc ev = int w" "ge_flits ev \<le> port_out_credits p ! w" using c w q by (auto simp: chan_ok_def fits_def)
    let ?p1 = "?p0\<lparr>output_arb := a, have_packets := hp, output_buf := (output_buf p)[w := rest],
        xbar_in_credits := (xbar_in_credits p)[w := xbar_in_credits p ! w + ge_flits ev]\<rparr>"
    have "length (output_queue_lengths ?p1) = n" using s by (simp add: shape_ok_def)
    then obtain l where l: "oql_release (ge_flits ev) (int w) ?p1 = Inr (?p1\<lparr>output_queue_lengths := l\<rparr>)" "length l = n" using w(2) by (rule oql_release_ok)
    let ?p2 = "?p1\<lparr>output_queue_lengths := l, port_out_credits := (port_out_credits p)[w := port_out_credits p ! w - ge_flits ev],
        output_buf_count := (output_buf_count p)[w := output_buf_count p ! w + 1], pc_wakeups := ts @ [ge_flits ev], pc_sent := pc_sent p @ [Data ev]\<rparr>"
    have "handle_output arbitrate cycle ?p0 = Inr ?p2" using sends a(1) w(1,2) q s l(1) by (simp add: handle_output_def shape_ok_def Let_def)
    moreover have "shape_ok n ?p2" using s l(2) by (simp add: shape_ok_def)
    moreover have "\<forall>v < n. chan_ok obs ?p2 v" using c s w q e by (auto simp: chan_ok_def shape_ok_def nth_list_update)
    moreover have "same_shares n p ?p2" using s w e by (auto simp: share_defs shape_ok_def nth_list_update)
    moreover have "wake_ok ?p2" by (simp add: wake_ok_def)
    moreover have "msg_ok n (Data ev)" using e w by simp
    ultimately show ?thesis using assms a(2) by (simp add: port_ok_def)
  qed
qed

end

end
