(* ===== verification/Merlin_Crossbar.thy ===== *)
theory Merlin_Crossbar
  imports Merlin_Port
begin

text \<open>
  The crossbar arbiters of a router (\<^verbatim>\<open>merlin/hr_router/xbar_arb_lru.h\<close>, \<^verbatim>\<open>xbar_arb_rr.h\<close>): every cycle
  they match input ports with output ports; a port is busy for as many cycles as the packet has flits.
  The interface \<open>crossbar_arbitration\<close> says what the router relies on: a matching in which every
  transfer fits and nothing that could still move is left. Both arbiters are interpretations.
\<close>

section \<open>The least recently used arbiter\<close>

record XbarLRU =
  xl_ports :: nat
  xl_vcs :: nat
  cur_list :: "(int \<times> int) list"

definition xl_setPorts :: "nat \<Rightarrow> nat \<Rightarrow> XbarLRU" where
  "xl_setPorts num_ports n = \<lparr>xl_ports = num_ports, xl_vcs = n,
     cur_list = concat (map (\<lambda>i. map (\<lambda>j. (take_bit 16 (int i), take_bit 16 (int j))) [0..<n]) [0..<num_ports])\<rparr>"

text \<open>The busy counters of the crossbar's inputs and outputs and the channels to move.\<close>

record Match =
  in_busy :: "int list"
  out_busy :: "int list"
  progress :: "int list"

text \<open>Whether the head \<open>ev\<close> can go to its output: the port is free and has the space.\<close>

definition can_move :: "('e RtrPacket_scheme, 'a) Port list \<Rightarrow> Match \<Rightarrow> 'e RtrPacket_scheme \<Rightarrow> bool res" where
  "can_move ports m ev =
     bindE (at (out_busy m) (ge_next_port ev)) (\<lambda>b.
       if b \<le> 0 then bindE (at ports (ge_next_port ev)) (spaceToSend (ge_vc ev) (ge_flits ev)) else Inr False)"

text \<open>The router is told what to move, input and output become busy.\<close>

definition claim :: "int \<Rightarrow> int \<Rightarrow> 'e RtrPacket_scheme \<Rightarrow> Match \<Rightarrow> Match res" where
  "claim port vc ev m =
     bindE (put (progress m) port vc) (\<lambda>pr. bindE (put (in_busy m) port (ge_flits ev)) (\<lambda>i.
     bindE (put (out_busy m) (ge_next_port ev) (ge_flits ev)) (\<lambda>out. Inr \<lparr>in_busy = i, out_busy = out, progress = pr\<rparr>)))"

fun xl_loop :: "('e RtrPacket_scheme, 'a) Port list \<Rightarrow> (int \<times> int) list \<Rightarrow> (int \<times> int) list \<Rightarrow> (int \<times> int) list \<Rightarrow> Match \<Rightarrow>
    (Match \<times> (int \<times> int) list) res" where
  "xl_loop ports [] unsat sat m = Inr (m, unsat @ sat)"
| "xl_loop ports ((port, vc) # rest) unsat sat m =
     bindE (at ports port) (\<lambda>p. bindE (at (vc_heads p) vc) (\<lambda>src. bindE (at (in_busy m) port) (\<lambda>b.
     case (if b \<le> 0 then src else None) of
       None \<Rightarrow> xl_loop ports rest (unsat @ [(port, vc)]) sat m
     | Some ev \<Rightarrow> bindE (can_move ports m ev) (\<lambda>go.
         if go then bindE (claim port vc ev m) (xl_loop ports rest unsat ((port, vc) # sat))
         else bindE (put (progress m) port (-2)) (\<lambda>pr. xl_loop ports rest (unsat @ [(port, vc)]) sat (m\<lparr>progress := pr\<rparr>))))))"

definition xl_arbitrate :: "('e RtrPacket_scheme, 'a) Port list \<Rightarrow> Match \<Rightarrow> XbarLRU \<Rightarrow> (Match \<times> XbarLRU) res" where
  "xl_arbitrate ports m x =
     bindE (xl_loop ports (cur_list x) [] [] (m\<lparr>progress := replicate (xl_ports x) (-1)\<rparr>)) (\<lambda>(m, l). Inr (m, x\<lparr>cur_list := l\<rparr>))"

definition xl_reportSkippedCycles :: "u64 \<Rightarrow> XbarLRU \<Rightarrow> XbarLRU res" where
  "xl_reportSkippedCycles cycles x = Inr x"

section \<open>The round robin arbiter\<close>

record XbarRR =
  xr_ports :: nat
  xr_vcs :: nat
  rr_vcs :: "int list"
  rr_port :: int

definition xr_setPorts :: "nat \<Rightarrow> nat \<Rightarrow> XbarRR" where
  "xr_setPorts num_ports n = \<lparr>xr_ports = num_ports, xr_vcs = n, rr_vcs = replicate num_ports 0, rr_port = 0\<rparr>"

fun xr_vc_loop :: "('e RtrPacket_scheme, 'a) Port list \<Rightarrow> int \<Rightarrow> int \<Rightarrow> nat \<Rightarrow> int \<Rightarrow> Match \<Rightarrow> Match res" where
  "xr_vc_loop ports n port 0 vc m = Inr m"
| "xr_vc_loop ports n port (Suc k) vc m =
     bindE (at ports port) (\<lambda>p. bindE (at (vc_heads p) vc) (\<lambda>src.
     let later = xr_vc_loop ports n port k (if vc \<noteq> n - 1 then vc + 1 else 0) m in
     case src of None \<Rightarrow> later
     | Some ev \<Rightarrow> bindE (can_move ports m ev) (\<lambda>go. if go then claim port vc ev m else later)))"

fun xr_port_loop :: "('e RtrPacket_scheme, 'a) Port list \<Rightarrow> nat \<Rightarrow> int \<Rightarrow> Match \<Rightarrow> XbarRR \<Rightarrow> (Match \<times> XbarRR) res" where
  "xr_port_loop ports 0 port m x = Inr (m, x)"
| "xr_port_loop ports (Suc k) port m x =
     (let following = (if port \<noteq> int (xr_ports x) - 1 then port + 1 else 0) in
      bindE (put (progress m) port (-1)) (\<lambda>pr. let m = m\<lparr>progress := pr\<rparr> in
      bindE (at (in_busy m) port) (\<lambda>b.
        if 0 < b then xr_port_loop ports k following m x
        else bindE (at (rr_vcs x) port) (\<lambda>v.
          bindE (xr_vc_loop ports (int (xr_vcs x)) port (xr_vcs x) v m) (\<lambda>m.
          if xr_vcs x = 0 then Inl DivByZero
          else xr_port_loop ports k following m (x\<lparr>rr_vcs := (rr_vcs x)[nat port := (v + 1) smod int (xr_vcs x)]\<rparr>))))))"

definition xr_arbitrate :: "('e RtrPacket_scheme, 'a) Port list \<Rightarrow> Match \<Rightarrow> XbarRR \<Rightarrow> (Match \<times> XbarRR) res" where
  "xr_arbitrate ports m x =
     bindE (xr_port_loop ports (xr_ports x) (rr_port x) m x) (\<lambda>(m, x).
       if xr_ports x = 0 then Inl DivByZero else Inr (m, x\<lparr>rr_port := (rr_port x + 1) smod int (xr_ports x)\<rparr>))"

definition xr_reportSkippedCycles :: "u64 \<Rightarrow> XbarRR \<Rightarrow> XbarRR res" where
  "xr_reportSkippedCycles cycles x =
     (if xr_ports x = 0 then Inl DivByZero
      else Inr (x\<lparr>rr_port := uint (word_of_int (rr_port x) + cycles) mod int (xr_ports x)\<rparr>))"

type_synonym ('p, 'a, 'x) xbar_arb = "('p, 'a) Port list \<Rightarrow> Match \<Rightarrow> 'x \<Rightarrow> (Match \<times> 'x) res"

section \<open>Matchings\<close>

abbreviation head :: "('p, 'a) Port list \<Rightarrow> nat \<Rightarrow> nat \<Rightarrow> 'p option" where
  "head ports i v \<equiv> vc_heads (ports ! i) ! v"

abbreviation nx :: "'e RtrPacket_scheme \<Rightarrow> nat" where
  "nx ev \<equiv> nat (ge_next_port ev)"

definition room :: "('e RtrPacket_scheme, 'a) Port list \<Rightarrow> 'e RtrPacket_scheme \<Rightarrow> bool" where
  "room ports ev \<longleftrightarrow> ge_flits ev \<le> xbar_in_credits (ports ! nx ev) ! nat (ge_vc ev)"

definition routed :: "nat \<Rightarrow> nat \<Rightarrow> 'e RtrPacket_scheme \<Rightarrow> bool" where
  "routed np n ev \<longleftrightarrow> 0 \<le> ge_next_port ev \<and> ge_next_port ev < int np \<and> 0 \<le> ge_vc ev \<and> ge_vc ev < int n \<and> 1 \<le> ge_flits ev"

definition heads_ok :: "nat \<Rightarrow> nat \<Rightarrow> ('e RtrPacket_scheme, 'a) Port list \<Rightarrow> bool" where
  "heads_ok np n ports \<longleftrightarrow> length ports = np \<and> (\<forall>p \<in> set ports. length (vc_heads p) = n \<and> length (xbar_in_credits p) = n) \<and>
     (\<forall>i < np. \<forall>v < n. \<forall>ev. head ports i v = Some ev \<longrightarrow> routed np n ev)"

definition sizes :: "nat \<Rightarrow> Match \<Rightarrow> bool" where
  "sizes np m \<longleftrightarrow> length (in_busy m) = np \<and> length (out_busy m) = np \<and> length (progress m) = np"

text \<open>
  A matching between the ports \<open>V\<close> and the outputs: port \<open>i\<close> moves \<open>ev\<close>. Every port moves at most one
  packet, every output gets at most one, which fits and found both free; of the entries \<open>T\<close> none that
  could still move is left.
\<close>

definition moves :: "nat \<Rightarrow> ('e RtrPacket_scheme, 'a) Port list \<Rightarrow> Match \<Rightarrow> nat \<Rightarrow> 'e RtrPacket_scheme \<Rightarrow> bool" where
  "moves n ports m i ev \<longleftrightarrow> 0 \<le> progress m ! i \<and> progress m ! i < int n \<and> head ports i (nat (progress m ! i)) = Some ev"

definition matched :: "nat \<Rightarrow> nat \<Rightarrow> ('e RtrPacket_scheme, 'a) Port list \<Rightarrow> Match \<Rightarrow> nat set \<Rightarrow> (nat \<times> nat) set \<Rightarrow> Match \<Rightarrow> bool" where
  "matched np n ports m0 V T m \<longleftrightarrow> sizes np m \<and>
     (\<forall>i < np. i \<in> V \<and> 0 \<le> progress m ! i \<longrightarrow> (\<exists>ev. moves n ports m i ev)) \<and>
     (\<forall>i < np. \<forall>ev. i \<in> V \<and> moves n ports m i ev \<longrightarrow> in_busy m0 ! i \<le> 0 \<and> out_busy m0 ! nx ev \<le> 0 \<and> room ports ev \<and>
        in_busy m ! i = ge_flits ev \<and> out_busy m ! nx ev = ge_flits ev) \<and>
     (\<forall>i < np. \<not> (i \<in> V \<and> 0 \<le> progress m ! i) \<longrightarrow> in_busy m ! i = in_busy m0 ! i) \<and>
     (\<forall>i < np. \<forall>j < np. \<forall>ev ev'. i \<in> V \<and> j \<in> V \<and> moves n ports m i ev \<and> moves n ports m j ev' \<and> nx ev = nx ev' \<longrightarrow> i = j) \<and>
     (\<forall>out < np. out_busy m ! out = out_busy m0 ! out \<or> (\<exists>i < np. \<exists>ev. i \<in> V \<and> moves n ports m i ev \<and> nx ev = out)) \<and>
     (\<forall>(i, v) \<in> T. \<forall>ev. head ports i v = Some ev \<and> in_busy m0 ! i \<le> 0 \<longrightarrow> i \<in> V \<and> 0 \<le> progress m ! i \<or> 0 < out_busy m ! nx ev \<or> \<not> room ports ev)"

lemma can_move_eq:
  assumes "heads_ok np n ports" "routed np n ev" "sizes np m"
  shows "can_move ports m ev = Inr (out_busy m ! nx ev \<le> 0 \<and> room ports ev)"
proof -
  obtain k where k: "ge_next_port ev = int k" "k < np" using assms(2) channel_index [of "ge_next_port ev" np] by (auto simp: routed_def)
  obtain c where c: "ge_vc ev = int c" "c < n" using assms(2) channel_index [of "ge_vc ev" n] by (auto simp: routed_def)
  have "length (xbar_in_credits (ports ! k)) = n" using assms(1) k by (auto simp: heads_ok_def)
  then show ?thesis using assms k c by (auto simp: can_move_def sizes_def heads_ok_def spaceToSend_def room_def)
qed

lemma claim_eq:
  assumes "routed np n ev" "sizes np m" "i < np"
  shows "claim (int i) vc ev m = Inr \<lparr>in_busy = (in_busy m)[i := ge_flits ev], out_busy = (out_busy m)[nx ev := ge_flits ev], progress = (progress m)[i := vc]\<rparr>"
proof -
  obtain k where "ge_next_port ev = int k" "k < np" using assms(1) channel_index [of "ge_next_port ev" np] by (auto simp: routed_def)
  then show ?thesis using assms by (auto simp: claim_def sizes_def)
qed

lemma moves_routed: "heads_ok np n ports \<Longrightarrow> i < np \<Longrightarrow> moves n ports m i ev \<Longrightarrow> routed np n ev"
  unfolding heads_ok_def moves_def by (metis nat_less_iff)

lemma moves_unique: "moves n ports m i ev \<Longrightarrow> moves n ports m i ev' \<Longrightarrow> ev = ev'"
  by (auto simp: moves_def)

lemma matchedI:
  assumes "sizes np m" "\<And>i. i < np \<Longrightarrow> i \<in> V \<Longrightarrow> 0 \<le> progress m ! i \<Longrightarrow> \<exists>ev. moves n ports m i ev"
    "\<And>i ev. i < np \<Longrightarrow> i \<in> V \<Longrightarrow> moves n ports m i ev \<Longrightarrow> in_busy m0 ! i \<le> 0 \<and> out_busy m0 ! nx ev \<le> 0 \<and> room ports ev \<and>
        in_busy m ! i = ge_flits ev \<and> out_busy m ! nx ev = ge_flits ev"
    "\<And>i. i < np \<Longrightarrow> \<not> (i \<in> V \<and> 0 \<le> progress m ! i) \<Longrightarrow> in_busy m ! i = in_busy m0 ! i"
    "\<And>i j ev ev'. i < np \<Longrightarrow> j < np \<Longrightarrow> i \<in> V \<Longrightarrow> j \<in> V \<Longrightarrow> moves n ports m i ev \<Longrightarrow> moves n ports m j ev' \<Longrightarrow> nx ev = nx ev' \<Longrightarrow> i = j"
    "\<And>out. out < np \<Longrightarrow> out_busy m ! out = out_busy m0 ! out \<or> (\<exists>i < np. \<exists>ev. i \<in> V \<and> moves n ports m i ev \<and> nx ev = out)"
    "\<And>i v ev. (i, v) \<in> T \<Longrightarrow> head ports i v = Some ev \<Longrightarrow> in_busy m0 ! i \<le> 0 \<Longrightarrow> i \<in> V \<and> 0 \<le> progress m ! i \<or> 0 < out_busy m ! nx ev \<or> \<not> room ports ev"
  shows "matched np n ports m0 V T m"
  unfolding matched_def using assms by (intro conjI) blast+

lemma matchedD:
  assumes "matched np n ports m0 V T m"
  shows "sizes np m" "i < np \<Longrightarrow> i \<in> V \<Longrightarrow> 0 \<le> progress m ! i \<Longrightarrow> \<exists>ev. moves n ports m i ev"
    "i < np \<Longrightarrow> i \<in> V \<Longrightarrow> moves n ports m i ev \<Longrightarrow> in_busy m0 ! i \<le> 0 \<and> out_busy m0 ! nx ev \<le> 0 \<and> room ports ev \<and>
        in_busy m ! i = ge_flits ev \<and> out_busy m ! nx ev = ge_flits ev"
    "i < np \<Longrightarrow> \<not> (i \<in> V \<and> 0 \<le> progress m ! i) \<Longrightarrow> in_busy m ! i = in_busy m0 ! i"
    "i < np \<Longrightarrow> j < np \<Longrightarrow> i \<in> V \<Longrightarrow> j \<in> V \<Longrightarrow> moves n ports m i ev \<Longrightarrow> moves n ports m j ev' \<Longrightarrow> nx ev = nx ev' \<Longrightarrow> i = j"
    "out < np \<Longrightarrow> out_busy m ! out = out_busy m0 ! out \<or> (\<exists>i < np. \<exists>ev. i \<in> V \<and> moves n ports m i ev \<and> nx ev = out)"
    "(i, v) \<in> T \<Longrightarrow> head ports i v = Some ev \<Longrightarrow> in_busy m0 ! i \<le> 0 \<Longrightarrow> i \<in> V \<and> 0 \<le> progress m ! i \<or> 0 < out_busy m ! nx ev \<or> \<not> room ports ev"
proof -
  note d = assms [unfolded matched_def]
  show "sizes np m" using d by (rule conjunct1)
  note d = conjunct2 [OF d]
  show "i < np \<Longrightarrow> i \<in> V \<Longrightarrow> 0 \<le> progress m ! i \<Longrightarrow> \<exists>ev. moves n ports m i ev" using conjunct1 [OF d] by blast
  note d = conjunct2 [OF d]
  show "i < np \<Longrightarrow> i \<in> V \<Longrightarrow> moves n ports m i ev \<Longrightarrow> in_busy m0 ! i \<le> 0 \<and> out_busy m0 ! nx ev \<le> 0 \<and> room ports ev \<and>
        in_busy m ! i = ge_flits ev \<and> out_busy m ! nx ev = ge_flits ev" using conjunct1 [OF d] by blast
  note d = conjunct2 [OF d]
  show "i < np \<Longrightarrow> \<not> (i \<in> V \<and> 0 \<le> progress m ! i) \<Longrightarrow> in_busy m ! i = in_busy m0 ! i" using conjunct1 [OF d] by blast
  note d = conjunct2 [OF d]
  show "i < np \<Longrightarrow> j < np \<Longrightarrow> i \<in> V \<Longrightarrow> j \<in> V \<Longrightarrow> moves n ports m i ev \<Longrightarrow> moves n ports m j ev' \<Longrightarrow> nx ev = nx ev' \<Longrightarrow> i = j"
    using conjunct1 [OF d] by blast
  note d = conjunct2 [OF d]
  show "out < np \<Longrightarrow> out_busy m ! out = out_busy m0 ! out \<or> (\<exists>i < np. \<exists>ev. i \<in> V \<and> moves n ports m i ev \<and> nx ev = out)" using conjunct1 [OF d] by blast
  show "(i, v) \<in> T \<Longrightarrow> head ports i v = Some ev \<Longrightarrow> in_busy m0 ! i \<le> 0 \<Longrightarrow> i \<in> V \<and> 0 \<le> progress m ! i \<or> 0 < out_busy m ! nx ev \<or> \<not> room ports ev"
    using conjunct2 [OF d] by blast
qed

text \<open>A port that moves nothing may be marked as stalled.\<close>

lemma matched_stall:
  assumes "matched np n ports m0 V T m" "i < np" "progress m ! i < 0" "x < 0"
  shows "matched np n ports m0 V T (m\<lparr>progress := (progress m)[i := x]\<rparr>)"
proof -
  note d = matchedD [OF assms(1)]
  have p: "(0 \<le> (progress m)[i := x] ! j) = (0 \<le> progress m ! j)" for j using assms(2-4) d(1) by (cases "j = i") (auto simp: sizes_def)
  have mv: "moves n ports (m\<lparr>progress := (progress m)[i := x]\<rparr>) j ev = moves n ports m j ev" for j ev
    using assms(2-4) d(1) by (cases "j = i") (auto simp: moves_def sizes_def)
  show ?thesis by (rule matchedI; (unfold mv)?; (simp add: p)?) (use d in \<open>auto simp: sizes_def\<close>)
qed

lemma matched_skip:
  assumes "matched np n ports m0 V T m" "heads_ok np n ports" "i < np" "v < n"
    and b: "\<And>ev. head ports i v = Some ev \<Longrightarrow> 0 < in_busy m ! i \<or> 0 < out_busy m ! nx ev \<or> \<not> room ports ev"
  shows "matched np n ports m0 V (insert (i, v) T) m"
proof -
  note d = matchedD [OF assms(1)]
  show ?thesis
  proof (rule matchedI)
    fix j w ev assume "(j, w) \<in> insert (i, v) T" "head ports j w = Some ev" "in_busy m0 ! j \<le> 0"
    then show "j \<in> V \<and> 0 \<le> progress m ! j \<or> 0 < out_busy m ! nx ev \<or> \<not> room ports ev" using d(4) [OF assms(3)] d(7) b by fastforce
  qed (use d in blast)+
qed

text \<open>An entry is served.\<close>

lemma matched_claim:
  assumes "matched np n ports m0 V T m" "heads_ok np n ports" "i < np" "v < n" "i \<in> V" "head ports i v = Some ev" "in_busy m ! i \<le> 0"
    "out_busy m ! nx ev \<le> 0" "room ports ev"
  shows "matched np n ports m0 V (insert (i, v) T)
    \<lparr>in_busy = (in_busy m)[i := ge_flits ev], out_busy = (out_busy m)[nx ev := ge_flits ev], progress = (progress m)[i := int v]\<rparr>" (is "matched _ _ _ _ _ _ ?m")
proof -
  note d = matchedD [OF assms(1)]
  have r: "routed np n ev" using assms(2-4,6) by (auto simp: heads_ok_def)
  have k: "nx ev < np" using r by (auto simp: routed_def nat_less_iff)
  have len: "length (in_busy m) = np" "length (out_busy m) = np" "length (progress m) = np" using d(1) by (auto simp: sizes_def)
  have pos: "1 \<le> in_busy m ! j \<and> 1 \<le> out_busy m ! nx e" if "j < np" "j \<in> V" "moves n ports m j e" for j e
    using d(3) [OF that] moves_routed [OF assms(2) that(1,3)] by (auto simp: routed_def)
  have ni: "\<not> moves n ports m i e" for e using pos [OF assms(3,5)] assms(7) by fastforce
  have ni': "progress m ! i < 0" using d(2) [OF assms(3,5)] ni by force
  have mv: "moves n ports ?m j e = (if j = i then e = ev else moves n ports m j e)" for j e
    using assms(3,4,6) len by (auto simp: moves_def)
  have other: "nx e \<noteq> nx ev" if "j < np" "j \<in> V" "moves n ports m j e" for j e using pos [OF that] assms(8) by auto
  have out0: "out_busy m0 ! nx ev \<le> 0" using d(6) [OF k] other assms(8) by metis
  have in0: "in_busy m0 ! i \<le> 0" using d(4) [OF assms(3)] ni' assms(7) by auto
  show ?thesis
  proof (rule matchedI)
    show "sizes np ?m" using len by (simp add: sizes_def)
    fix j assume j: "j < np"
    show "\<not> (j \<in> V \<and> 0 \<le> progress ?m ! j) \<Longrightarrow> in_busy ?m ! j = in_busy m0 ! j" using d(4) [OF j] len assms(3,5) by (cases "j = i") auto
    show "out_busy ?m ! j = out_busy m0 ! j \<or> (\<exists>i < np. \<exists>e. i \<in> V \<and> moves n ports ?m i e \<and> nx e = j)"
      using d(6) [OF j] ni assms(3,5) unfolding mv by (cases "j = nx ev") (simp, metis)+
    show "\<exists>e. moves n ports ?m j e" if "j \<in> V" "0 \<le> progress ?m ! j"
      unfolding mv using d(2) [OF j that(1)] that(2) by (cases "j = i") auto
    fix e assume v: "j \<in> V"
    show "in_busy m0 ! j \<le> 0 \<and> out_busy m0 ! nx e \<le> 0 \<and> room ports e \<and> in_busy ?m ! j = ge_flits e \<and> out_busy ?m ! nx e = ge_flits e"
      if e: "moves n ports ?m j e"
    proof (cases "j = i")
      case True
      then show ?thesis using e in0 out0 assms(3,9) len k unfolding mv by auto
    next
      case False
      then have "moves n ports m j e" using e unfolding mv by simp
      with d(3) [OF j v this] other [OF j v this] False show ?thesis by simp
    qed
    fix j' e' assume j': "j' < np" "j' \<in> V"
    show "moves n ports ?m j e \<Longrightarrow> moves n ports ?m j' e' \<Longrightarrow> nx e = nx e' \<Longrightarrow> j = j'"
      unfolding mv using d(5) [OF j j'(1) v j'(2)] other [OF j v] other [OF j'] by (metis (full_types))
  next
    fix j w e assume t: "(j, w) \<in> insert (i, v) T" "head ports j w = Some e" "in_busy m0 ! j \<le> 0"
    show "j \<in> V \<and> 0 \<le> progress ?m ! j \<or> 0 < out_busy ?m ! nx e \<or> \<not> room ports e"
    proof (cases "j = i \<or> nx e = nx ev")
      case True
      then show ?thesis using assms(3,5) len k r by (auto simp: routed_def)
    next
      case False
      then show ?thesis using t d(7) [of j w e] by auto
    qed
  qed
qed

section \<open>The interface\<close>

abbreviation all_matched :: "nat \<Rightarrow> nat \<Rightarrow> ('e RtrPacket_scheme, 'a) Port list \<Rightarrow> Match \<Rightarrow> Match \<Rightarrow> bool" where
  "all_matched np n ports m0 m \<equiv> matched np n ports m0 {..<np} ({..<np} \<times> {..<n}) m"

locale crossbar_arbitration =
  fixes arbitrate :: "('e RtrPacket_scheme, 'a, 'x) xbar_arb" and xok :: "nat \<Rightarrow> nat \<Rightarrow> 'x \<Rightarrow> bool"
  assumes matching: "xok np n x \<Longrightarrow> heads_ok np n ports \<Longrightarrow> sizes np m0 \<Longrightarrow>
    \<exists>m x'. arbitrate ports m0 x = Inr (m, x') \<and> xok np n x' \<and> all_matched np n ports m0 m"

section \<open>The least recently used arbiter keeps it\<close>

definition entries :: "nat \<Rightarrow> nat \<Rightarrow> (int \<times> int) set" where
  "entries np n = {(int i, int v) |i v. i < np \<and> v < n}"

definition xl_ok :: "nat \<Rightarrow> nat \<Rightarrow> XbarLRU \<Rightarrow> bool" where
  "xl_ok np n x \<longleftrightarrow> xl_ports x = np \<and> xl_vcs x = n \<and> distinct (cur_list x) \<and> set (cur_list x) = entries np n"

definition served :: "Match \<Rightarrow> int \<times> int \<Rightarrow> bool" where
  "served m e \<longleftrightarrow> progress m ! nat (fst e) = snd e"

definition fills :: "nat \<Rightarrow> Match \<Rightarrow> (int \<times> int) list \<Rightarrow> Match \<Rightarrow> bool" where
  "fills np m l m' \<longleftrightarrow> (\<forall>i < np. if 0 \<le> progress m ! i then progress m' ! i = progress m ! i
     else 0 \<le> progress m' ! i \<longrightarrow> (int i, progress m' ! i) \<in> set l)"

text \<open>One entry: either it is served, or it stays among the unsatisfied ones.\<close>

lemma xl_entry:
  assumes "heads_ok np n ports" "matched np n ports m0 {..<np} T m" "i < np" "v < n"
  shows "\<exists>m'. matched np n ports m0 {..<np} (insert (i, v) T) m' \<and> fills np m [(int i, int v)] m' \<and>
    xl_loop ports ((int i, int v) # rest) unsat sat m =
      (if 0 > progress m ! i \<and> served m' (int i, int v) then xl_loop ports rest unsat ((int i, int v) # sat) m'
       else xl_loop ports rest (unsat @ [(int i, int v)]) sat m') \<and>
    (0 > progress m ! i \<longrightarrow> (\<exists>ev. head ports i v = Some ev \<and> in_busy m0 ! i \<le> 0 \<and> out_busy m ! nx ev \<le> 0 \<and> room ports ev) \<longrightarrow> served m' (int i, int v))"
proof -
  note d = matchedD [OF assms(2)]
  have len: "length ports = np" "length (vc_heads (ports ! i)) = n" "length (in_busy m) = np" "length (progress m) = np"
    using assms(1,3) d(1) by (auto simp: heads_ok_def sizes_def)
  have busy: "0 < in_busy m ! i" if mv: "0 \<le> progress m ! i"
  proof -
    obtain ev where e: "moves n ports m i ev" using d(2) [OF assms(3) _ mv] assms(3) by auto
    show ?thesis using d(3) [OF assms(3) _ e] moves_routed [OF assms(1,3) e] assms(3) by (auto simp: routed_def)
  qed
  have idle: "in_busy m ! i = in_busy m0 ! i" if "progress m ! i < 0" using d(4) [OF assms(3)] that by auto
  show ?thesis
  proof (cases "in_busy m ! i \<le> 0 \<and> head ports i v \<noteq> None")
    case False
    have "matched np n ports m0 {..<np} (insert (i, v) T) m" using False by (intro matched_skip [OF assms(2,1,3,4)]) auto
    moreover have "fills np m [(int i, int v)] m" by (simp add: fills_def)
    moreover have "\<not> (0 > progress m ! i \<and> served m (int i, int v))" by (simp add: served_def)
    moreover have "xl_loop ports ((int i, int v) # rest) unsat sat m = xl_loop ports rest (unsat @ [(int i, int v)]) sat m"
      using False len assms(3,4) by (auto split: option.split)
    ultimately show ?thesis using False idle by (intro exI [of _ m]) auto
  next
    case True
    then obtain ev where ev: "head ports i v = Some ev" "in_busy m ! i \<le> 0" by auto
    have neg: "progress m ! i < 0" using busy ev(2) by force
    have r: "routed np n ev" using assms(1,3,4) ev(1) by (auto simp: heads_ok_def)
    note cm = can_move_eq [OF assms(1) r d(1)]
    show ?thesis
    proof (cases "out_busy m ! nx ev \<le> 0 \<and> room ports ev")
      case go: True
      let ?m = "\<lparr>in_busy = (in_busy m)[i := ge_flits ev], out_busy = (out_busy m)[nx ev := ge_flits ev], progress = (progress m)[i := int v]\<rparr>"
      have "matched np n ports m0 {..<np} (insert (i, v) T) ?m" using matched_claim [OF assms(2,1,3,4) _ ev] go assms(3) by auto
      moreover have "fills np m [(int i, int v)] ?m" using neg len assms(3) by (auto simp: fills_def nth_list_update)
      moreover have "served ?m (int i, int v)" using len assms(3) by (simp add: served_def)
      moreover have "xl_loop ports ((int i, int v) # rest) unsat sat m = xl_loop ports rest unsat ((int i, int v) # sat) ?m"
        using ev len assms(3,4) cm go claim_eq [OF r d(1) assms(3)] by simp
      ultimately show ?thesis using neg by (intro exI [of _ ?m]) auto
    next
      case stay: False
      let ?m = "m\<lparr>progress := (progress m)[i := -2]\<rparr>"
      have "matched np n ports m0 {..<np} (insert (i, v) T) ?m"
        using stay ev by (intro matched_stall [OF matched_skip [OF assms(2,1,3,4)] assms(3) neg]) auto
      moreover have "fills np m [(int i, int v)] ?m" using neg len assms(3) by (auto simp: fills_def nth_list_update)
      moreover have "\<not> served ?m (int i, int v)" using len assms(3) by (simp add: served_def)
      moreover have "xl_loop ports ((int i, int v) # rest) unsat sat m = xl_loop ports rest (unsat @ [(int i, int v)]) sat ?m"
        using ev len assms(3,4) cm stay by simp
      ultimately show ?thesis using stay ev by (intro exI [of _ ?m]) auto
    qed
  qed
qed

lemma fills_trans:
  assumes "fills np m l m'" "fills np m' l' m''" shows "fills np m (l @ l') m''"
  unfolding fills_def
proof (intro allI impI)
  fix i assume i: "i < np"
  show "if 0 \<le> progress m ! i then progress m'' ! i = progress m ! i else 0 \<le> progress m'' ! i \<longrightarrow> (int i, progress m'' ! i) \<in> set (l @ l')"
    using assms [unfolded fills_def, rule_format, OF i] by (cases "0 \<le> progress m ! i"; cases "0 \<le> progress m' ! i") auto
qed

lemma fills_served:
  assumes "fills np m l m'" "i < np"
  shows "0 \<le> v \<Longrightarrow> served m (int i, v) \<Longrightarrow> served m' (int i, v)" "(int i, v) \<notin> set l \<Longrightarrow> 0 \<le> v \<Longrightarrow> served m' (int i, v) = served m (int i, v)"
  using assms by (fastforce simp: fills_def served_def split: if_splits)+

text \<open>A prefix of the list: the entries served go behind, the others keep their order.\<close>

lemma xl_prefix:
  assumes "heads_ok np n ports" "matched np n ports m0 {..<np} T m" "set l \<subseteq> entries np n" "distinct l" "\<forall>e \<in> set l. \<not> served m e"
  shows "\<exists>m'. matched np n ports m0 {..<np} (T \<union> {(nat a, nat b) |a b. (a, b) \<in> set l}) m' \<and> fills np m l m' \<and>
    xl_loop ports (l @ rest) unsat sat m = xl_loop ports rest (unsat @ filter (\<lambda>e. \<not> served m' e) l) (rev (filter (served m') l) @ sat) m'"
  using assms(2-5)
proof (induction l arbitrary: T m unsat sat)
  case Nil
  then show ?case by (intro exI [of _ m]) (simp add: fills_def)
next
  case (Cons e l)
  obtain i v where e: "e = (int i, int v)" "i < np" "v < n" using Cons.prems(2) by (auto simp: entries_def)
  obtain m1 where m1: "matched np n ports m0 {..<np} (insert (i, v) T) m1" "fills np m [e] m1"
    "xl_loop ports (e # (l @ rest)) unsat sat m =
      (if 0 > progress m ! i \<and> served m1 e then xl_loop ports (l @ rest) unsat (e # sat) m1 else xl_loop ports (l @ rest) (unsat @ [e]) sat m1)"
    using xl_entry [OF assms(1) Cons.prems(1) e(2,3), of "l @ rest" unsat sat] unfolding e(1) by blast
  have ns: "\<forall>x \<in> set l. \<not> served m1 x"
  proof
    fix x assume x: "x \<in> set l"
    then obtain j w where j: "x = (int j, int w)" "j < np" "w < n" using Cons.prems(2) by (auto simp: entries_def)
    then show "\<not> served m1 x" using fills_served(2) [OF m1(2) j(2), of "int w"] Cons.prems(3,4) x by auto
  qed
  have keep: "served m' e = served m1 e" if "fills np m1 l m'" for m' using fills_served(2) [OF that e(2), of "int v"] Cons.prems(3) e(1) by auto
  have first: "(0 > progress m ! i \<and> served m1 e) = served m1 e"
    using m1(2) Cons.prems(4) e by (auto simp: fills_def served_def split: if_splits)
  let ?u = "if served m1 e then unsat else unsat @ [e]" and ?s = "if served m1 e then e # sat else sat"
  obtain m' where m': "matched np n ports m0 {..<np} (insert (i, v) T \<union> {(nat a, nat b) |a b. (a, b) \<in> set l}) m'" "fills np m1 l m'"
    "xl_loop ports (l @ rest) ?u ?s m1 = xl_loop ports rest (?u @ filter (\<lambda>e. \<not> served m' e) l) (rev (filter (served m') l) @ ?s) m'"
    using Cons.IH [OF m1(1) _ _ ns, of ?u ?s] Cons.prems(2,3) by auto
  have "insert (i, v) T \<union> {(nat a, nat b) |a b. (a, b) \<in> set l} = T \<union> {(nat a, nat b) |a b. (a, b) \<in> set (e # l)}" using e(1) by force
  moreover have "fills np m (e # l) m'" using fills_trans [OF m1(2) m'(2)] by simp
  ultimately show ?case using m' m1(3) keep [OF m'(2)] unfolding first by (intro exI [of _ m']) auto
qed

lemma matched_start:
  "sizes np m \<Longrightarrow> matched np n ports m {..<np} {} (m\<lparr>progress := replicate np (-1)\<rparr>)"
  by (rule matchedI) (auto simp: sizes_def moves_def)

lemma xl_arbitrate_result:
  assumes "xl_ok np n x" "heads_ok np n ports" "sizes np m0"
  shows "\<exists>m. xl_arbitrate ports m0 x = Inr (m, x\<lparr>cur_list := filter (\<lambda>e. \<not> served m e) (cur_list x) @ rev (filter (served m) (cur_list x))\<rparr>) \<and>
    all_matched np n ports m0 m"
proof -
  let ?m0 = "m0\<lparr>progress := replicate np (-1)\<rparr>"
  have x: "xl_ports x = np" "set (cur_list x) = entries np n" "distinct (cur_list x)" using assms(1) by (auto simp: xl_ok_def)
  have ns: "\<forall>e \<in> set (cur_list x). \<not> served ?m0 e" unfolding x(2) by (auto simp: entries_def served_def)
  obtain m where m: "matched np n ports m0 {..<np} ({} \<union> {(nat a, nat b) |a b. (a, b) \<in> set (cur_list x)}) m"
    "xl_loop ports (cur_list x @ []) [] [] ?m0 = xl_loop ports [] ([] @ filter (\<lambda>e. \<not> served m e) (cur_list x)) (rev (filter (served m) (cur_list x)) @ []) m"
    using xl_prefix [OF assms(2) matched_start [OF assms(3)] _ x(3) ns] x(2) by blast
  have "{(nat a, nat b) |a b. (a, b) \<in> set (cur_list x)} = {..<np} \<times> {..<n}" unfolding x(2) by (force simp: entries_def)
  then show ?thesis using m x(1) by (intro exI [of _ m]) (simp add: xl_arbitrate_def)
qed

lemma xl_matching:
  assumes a: "xl_ok np n x" "heads_ok np n ports" "sizes np m0"
  shows "\<exists>m x'. xl_arbitrate ports m0 x = Inr (m, x') \<and> xl_ok np n x' \<and> all_matched np n ports m0 m"
proof -
  obtain m where m: "xl_arbitrate ports m0 x = Inr (m, x\<lparr>cur_list := filter (\<lambda>e. \<not> served m e) (cur_list x) @ rev (filter (served m) (cur_list x))\<rparr>)"
    "all_matched np n ports m0 m" using xl_arbitrate_result [OF a] by blast
  have "xl_ok np n (x\<lparr>cur_list := filter (\<lambda>e. \<not> served m e) (cur_list x) @ rev (filter (served m) (cur_list x))\<rparr>)"
    using a(1) by (auto simp: xl_ok_def)
  then show ?thesis using m by blast
qed

interpretation xl: crossbar_arbitration xl_arbitrate xl_ok
  by unfold_locales (rule xl_matching)

text \<open>The place of an entry in the list is how long it may still have to wait.\<close>

definition place :: "XbarLRU \<Rightarrow> int \<times> int \<Rightarrow> nat" where
  "place x e = length (takeWhile (\<lambda>y. y \<noteq> e) (cur_list x))"

lemma grown_unserved:
  assumes "fills np (m\<lparr>progress := replicate np (-1)\<rparr>) l m'" "set l' \<subseteq> entries np n" "set l \<inter> set l' = {}"
  shows "\<forall>e \<in> set l'. \<not> served m' e"
proof
  fix e assume e: "e \<in> set l'"
  then obtain j w where j: "e = (int j, int w)" "j < np" using assms(2) by (auto simp: entries_def)
  have "\<not> served (m\<lparr>progress := replicate np (-1)\<rparr>) e" using j by (simp add: served_def)
  then show "\<not> served m' e" using fills_served(2) [OF assms(1) j(2), of "int w"] e j(1) assms(3) by auto
qed

lemma place_filter: "e \<notin> set l1 \<Longrightarrow> \<not> P e \<Longrightarrow>
   length (takeWhile (\<lambda>y. y \<noteq> e) (filter (\<lambda>y. \<not> P y) (l1 @ e # l2) @ r)) = length (filter (\<lambda>y. \<not> P y) l1)"
  by (induction l1) auto

text \<open>An entry that could move and is not served finds one ahead of it served.\<close>

lemma loop_overtaken:
  assumes "heads_ok np n ports" "sizes np m0" "i < np" "v < n" "head ports i v = Some ev" "in_busy m0 ! i \<le> 0" "out_busy m0 ! nx ev \<le> 0" "room ports ev"
    and x: "set (l1 @ (int i, int v) # l2) \<subseteq> entries np n" "distinct (l1 @ (int i, int v) # l2)"
    and m: "xl_loop ports (l1 @ (int i, int v) # l2) [] [] (m0\<lparr>progress := replicate np (-1)\<rparr>) = Inr (m, l')"
    and ns: "\<not> served m (int i, int v)"
  shows "\<exists>j < np. \<exists>ev'. (int j, progress m ! j) \<in> set l1 \<and> moves n ports m j ev' \<and> (j = i \<or> nx ev' = nx ev)"
proof -
  let ?m0 = "m0\<lparr>progress := replicate np (-1)\<rparr>" and ?e = "(int i, int v)"
  have sub: "set l1 \<subseteq> entries np n" "set l2 \<subseteq> entries np n" using x(1) by auto
  have dist: "distinct l1" "distinct l2" using x(2) by auto
  have "\<forall>e \<in> set l1. \<not> served ?m0 e" using sub(1) by (auto simp: entries_def served_def)
  then obtain m1 u1 s1 where m1: "matched np n ports m0 {..<np} ({} \<union> {(nat a, nat b) |a b. (a, b) \<in> set l1}) m1" "fills np ?m0 l1 m1"
    "xl_loop ports (l1 @ ?e # l2) [] [] ?m0 = xl_loop ports (?e # l2) u1 s1 m1"
    using xl_prefix [OF assms(1) matched_start [OF assms(2)] sub(1) dist(1), of "?e # l2" "[]" "[]"] by blast
  obtain m2 where m2: "matched np n ports m0 {..<np} (insert (i, v) ({} \<union> {(nat a, nat b) |a b. (a, b) \<in> set l1})) m2" "fills np m1 [?e] m2"
    "xl_loop ports (?e # l2) u1 s1 m1 = (if 0 > progress m1 ! i \<and> served m2 ?e then xl_loop ports l2 u1 (?e # s1) m2 else xl_loop ports l2 (u1 @ [?e]) s1 m2)"
    "0 > progress m1 ! i \<longrightarrow> (\<exists>ev. head ports i v = Some ev \<and> in_busy m0 ! i \<le> 0 \<and> out_busy m1 ! nx ev \<le> 0 \<and> room ports ev) \<longrightarrow> served m2 ?e"
    using xl_entry [OF assms(1) m1(1) assms(3,4), of l2 u1 s1] by blast
  then obtain u2 s2 where m2': "xl_loop ports (?e # l2) u1 s1 m1 = xl_loop ports l2 u2 s2 m2" by metis
  have g2: "fills np ?m0 (l1 @ [?e]) m2" by (rule fills_trans [OF m1(2) m2(2)])
  have "\<forall>e \<in> set l2. \<not> served m2 e" using x(2) by (intro grown_unserved [OF g2 sub(2)]) auto
  then obtain m3 u3 s3 where m3: "fills np m2 l2 m3" "xl_loop ports (l2 @ []) u2 s2 m2 = xl_loop ports [] u3 s3 m3"
    using xl_prefix [OF assms(1) m2(1) sub(2) dist(2), of "[]" u2 s2] by blast
  have "m3 = m" using m m1(3) m2' m3(2) by simp
  then have late: "fills np m1 (?e # l2) m" using fills_trans [OF m2(2) m3(1)] by simp
  have keep: "(int j, progress m ! j) \<in> set l1 \<and> moves n ports m j ev'" if "j < np" "moves n ports m1 j ev'" for j ev'
  proof -
    have "0 \<le> progress m1 ! j" using that(2) by (simp add: moves_def)
    then have "progress m ! j = progress m1 ! j" "(int j, progress m1 ! j) \<in> set l1" using late m1(2) that(1) by (auto simp: fills_def)
    then show ?thesis using that(2) by (simp add: moves_def)
  qed
  have "\<not> served m2 ?e" using fills_served(1) [OF m3(1) assms(3), of "int v"] \<open>m3 = m\<close> ns by auto
  then have "0 \<le> progress m1 ! i \<or> 0 < out_busy m1 ! nx ev" using m2(4) assms(5,6,8) by force
  moreover have "nx ev < np" using assms(1,3-5) by (auto simp: heads_ok_def routed_def nat_less_iff)
  ultimately show ?thesis using matchedD(2) [OF m1(1) assms(3)] matchedD(6) [OF m1(1), of "nx ev"] assms(3,7) keep by (metis lessThan_iff linorder_not_less)
qed

section \<open>The round robin arbiter keeps it\<close>

definition xr_ok :: "nat \<Rightarrow> nat \<Rightarrow> XbarRR \<Rightarrow> bool" where
  "xr_ok np n x \<longleftrightarrow> 0 < np \<and> 0 < n \<and> xr_ports x = np \<and> xr_vcs x = n \<and> length (rr_vcs x) = np \<and>
     (\<forall>v \<in> set (rr_vcs x). 0 \<le> v \<and> v < int n) \<and> 0 \<le> rr_port x \<and> rr_port x < int np"

definition turn :: "nat \<Rightarrow> nat \<Rightarrow> nat \<Rightarrow> nat set" where
  "turn n s k = (\<lambda>j. (s + j) mod n) ` {..<k}"

lemma turn_Suc: "turn n s (Suc k) = insert ((s + k) mod n) (turn n s k)"
  by (auto simp: turn_def lessThan_Suc)

lemma turn_Suc': "s < n \<Longrightarrow> turn n s (Suc k) = insert s (turn n (Suc s mod n) k)"
  unfolding turn_def lessThan_Suc_eq_insert_0 by (auto simp: image_image mod_simps)

lemma turn_inj: "k < n \<Longrightarrow> (s + k) mod n \<notin> turn n s k"
proof
  assume k: "k < n" and "(s + k) mod n \<in> turn n s k"
  then obtain j where j: "j < k" "(s + k) mod n = (s + j) mod n" by (auto simp: turn_def)
  then have "n dvd (s + k) - (s + j)" by (subst mod_eq_dvd_iff_nat [symmetric]) auto
  then show False using j(1) k nat_dvd_not_less [of "k - j" n] by simp
qed

lemma turn_all: "0 < n \<Longrightarrow> turn n s n = {..<n}"
proof -
  assume n: "0 < n"
  have "card (turn n s k) = k" if "k \<le> n" for k using that
  proof (induction k)
    case (Suc k)
    then show ?case using turn_inj [of k n s] by (simp add: turn_Suc) (simp add: turn_def)
  qed (simp add: turn_def)
  moreover have "turn n s n \<subseteq> {..<n}" using n by (auto simp: turn_def)
  ultimately show ?thesis by (simp add: card_subset_eq)
qed

lemma following: "s < n \<Longrightarrow> (if int s \<noteq> int n - 1 then int s + 1 else 0) = int (Suc s mod n)"
  by (auto simp: mod_Suc)

lemma matched_more:
  assumes "matched np n ports m0 V T m" "i \<in> V \<and> 0 \<le> progress m ! i \<or> 0 < in_busy m0 ! i"
  shows "matched np n ports m0 V (T \<union> {i} \<times> S) m"
proof -
  note d = matchedD [OF assms(1)]
  show ?thesis
  proof (rule matchedI)
    fix j w ev assume t: "(j, w) \<in> T \<union> {i} \<times> S" "head ports j w = Some ev" "in_busy m0 ! j \<le> 0"
    then show "j \<in> V \<and> 0 \<le> progress m ! j \<or> 0 < out_busy m ! nx ev \<or> \<not> room ports ev" using d(7) [of j w ev] assms(2) by auto
  qed (use d in blast)+
qed

lemma matched_visit:
  assumes "matched np n ports m0 V T m" "i \<notin> V" "i < np"
  shows "matched np n ports m0 (insert i V) T (m\<lparr>progress := (progress m)[i := -1]\<rparr>)"
proof -
  note d = matchedD [OF assms(1)]
  let ?m = "m\<lparr>progress := (progress m)[i := -1]\<rparr>"
  have p: "(j \<in> insert i V \<and> 0 \<le> progress ?m ! j) = (j \<in> V \<and> 0 \<le> progress m ! j)" for j using assms(2,3) d(1) by (cases "j = i") (auto simp: sizes_def)
  have mv: "j \<in> V \<and> moves n ports m j e" if "j \<in> insert i V" "moves n ports ?m j e" for j e
    using that assms(2,3) d(1) by (cases "j = i") (auto simp: moves_def sizes_def)
  have mv': "moves n ports ?m j e" if "j \<in> V" "moves n ports m j e" for j e using that assms(2) by (cases "j = i") (auto simp: moves_def)
  show ?thesis
  proof (rule matchedI)
    show "sizes np ?m" using d(1) by (simp add: sizes_def)
    fix j assume j: "j < np"
    show "\<exists>ev. moves n ports ?m j ev" if "j \<in> insert i V" "0 \<le> progress ?m ! j"
    proof -
      have "j \<in> V" "0 \<le> progress m ! j" using that p [of j] by blast+
      then show ?thesis using d(2) [OF j] mv' by blast
    qed
    show "\<not> (j \<in> insert i V \<and> 0 \<le> progress ?m ! j) \<Longrightarrow> in_busy ?m ! j = in_busy m0 ! j" unfolding p using d(4) [OF j] by simp
    show "out_busy ?m ! j = out_busy m0 ! j \<or> (\<exists>k < np. \<exists>ev. k \<in> insert i V \<and> moves n ports ?m k ev \<and> nx ev = j)" using d(6) [OF j] mv' by (metis insertI2 Match.select_convs(2) Match.surjective Match.update_convs(3))
    fix ev assume v: "j \<in> insert i V"
    show "moves n ports ?m j ev \<Longrightarrow> in_busy m0 ! j \<le> 0 \<and> out_busy m0 ! nx ev \<le> 0 \<and> room ports ev \<and> in_busy ?m ! j = ge_flits ev \<and> out_busy ?m ! nx ev = ge_flits ev"
      using mv [OF v, of ev] d(3) [OF j, of ev] by auto
    fix j' ev' assume "j' < np" "j' \<in> insert i V"
    then show "moves n ports ?m j ev \<Longrightarrow> moves n ports ?m j' ev' \<Longrightarrow> nx ev = nx ev' \<Longrightarrow> j = j'" using mv [OF v] mv [of j' ev'] d(5) [OF j] by blast
  next
    fix j w ev assume "(j, w) \<in> T" "head ports j w = Some ev" "in_busy m0 ! j \<le> 0"
    then show "j \<in> insert i V \<and> 0 \<le> progress ?m ! j \<or> 0 < out_busy ?m ! nx ev \<or> \<not> room ports ev" unfolding p using d(7) by auto
  qed
qed

lemma xr_vc_loop_ok:
  assumes "heads_ok np n ports" "matched np n ports m0 V T m" "i < np" "i \<in> V" "in_busy m ! i \<le> 0" "s < n"
  shows "\<exists>m'. xr_vc_loop ports (int n) (int i) k (int s) m = Inr m' \<and> matched np n ports m0 V (T \<union> {i} \<times> turn n s k) m'"
  using assms(2,6)
proof (induction k arbitrary: s T)
  case 0
  then show ?case by (simp add: turn_def)
next
  case (Suc k)
  note d = matchedD [OF Suc.prems(1)]
  have len: "length ports = np" "length (vc_heads (ports ! i)) = n" using assms(1,3) by (auto simp: heads_ok_def)
  have s': "Suc s mod n < n" using Suc.prems(2) by simp
  have t: "insert (i, s) T \<union> {i} \<times> turn n (Suc s mod n) k = T \<union> {i} \<times> turn n s (Suc k)" using turn_Suc' [OF Suc.prems(2)] by auto
  show ?case
  proof (cases "\<exists>ev. head ports i s = Some ev \<and> out_busy m ! nx ev \<le> 0 \<and> room ports ev")
    case True
    then obtain ev where ev: "head ports i s = Some ev" "out_busy m ! nx ev \<le> 0" "room ports ev" by blast
    have r: "routed np n ev" using assms(1,3) Suc.prems(2) ev(1) by (auto simp: heads_ok_def)
    let ?m = "\<lparr>in_busy = (in_busy m)[i := ge_flits ev], out_busy = (out_busy m)[nx ev := ge_flits ev], progress = (progress m)[i := int s]\<rparr>"
    have m: "matched np n ports m0 V (insert (i, s) T) ?m" by (rule matched_claim [OF Suc.prems(1) assms(1,3) Suc.prems(2) assms(4) ev(1) assms(5) ev(2,3)])
    have "i \<in> V \<and> 0 \<le> progress ?m ! i" using assms(3,4) d(1) by (simp add: sizes_def)
    then have "matched np n ports m0 V (insert (i, s) T \<union> {i} \<times> turn n (Suc s mod n) k) ?m" using matched_more [OF m] by blast
    then show ?thesis using len assms(3) Suc.prems(2) ev can_move_eq [OF assms(1) r d(1)] claim_eq [OF r d(1) assms(3)] unfolding t by simp
  next
    case False
    have m: "matched np n ports m0 V (insert (i, s) T) m" using False by (intro matched_skip [OF Suc.prems(1) assms(1,3) Suc.prems(2)]) auto
    have "xr_vc_loop ports (int n) (int i) (Suc k) (int s) m = xr_vc_loop ports (int n) (int i) k (int (Suc s mod n)) m"
    proof (cases "head ports i s")
      case None
      then show ?thesis using len assms(3) Suc.prems(2) following [OF Suc.prems(2)] by (simp add: Let_def)
    next
      case (Some ev)
      then have r: "routed np n ev" using assms(1,3) Suc.prems(2) by (auto simp: heads_ok_def)
      then show ?thesis using Some False len assms(3) Suc.prems(2) following [OF Suc.prems(2)] can_move_eq [OF assms(1) r d(1)] by (auto simp: Let_def)
    qed
    then show ?thesis using Suc.IH [OF m s'] unfolding t by simp
  qed
qed

lemma xr_port_turn:
  assumes "heads_ok np n ports" "matched np n ports m0 V T m" "i < np" "i \<notin> V" "xr_ok np n x"
  shows "\<exists>m' x'. xr_port_loop ports (Suc k) (int i) m x = xr_port_loop ports k (int (Suc i mod np)) m' x' \<and>
    matched np n ports m0 (insert i V) (T \<union> {i} \<times> {..<n}) m' \<and> xr_ok np n x'"
proof -
  have x: "0 < np" "0 < n" "xr_ports x = np" "xr_vcs x = n" "length (rr_vcs x) = np" "\<forall>v \<in> set (rr_vcs x). 0 \<le> v \<and> v < int n" using assms(5) by (auto simp: xr_ok_def)
  let ?m = "m\<lparr>progress := (progress m)[i := -1]\<rparr>"
  note d = matchedD [OF assms(2)]
  have len: "length (in_busy m) = np" "length (progress m) = np" using d(1) by (auto simp: sizes_def)
  have m: "matched np n ports m0 (insert i V) T ?m" by (rule matched_visit [OF assms(2,4,3)])
  have b: "in_busy m ! i = in_busy m0 ! i" using d(4) [OF assms(3)] assms(4) by blast
  show ?thesis
  proof (cases "0 < in_busy m ! i")
    case True
    then have "matched np n ports m0 (insert i V) (T \<union> {i} \<times> {..<n}) ?m" using b by (intro matched_more [OF m]) auto
    then show ?thesis using True len assms(3,5) x(3) following [OF assms(3)] by (intro exI [of _ ?m] exI [of _ x]) (simp add: Let_def)
  next
    case False
    have "0 \<le> rr_vcs x ! i" "rr_vcs x ! i < int n" using x(5,6) assms(3) nth_mem [of i "rr_vcs x"] by auto
    then obtain s where s: "rr_vcs x ! i = int s" "s < n" by (rule channel_index)
    obtain m' where m': "xr_vc_loop ports (int n) (int i) n (int s) ?m = Inr m'" "matched np n ports m0 (insert i V) (T \<union> {i} \<times> {..<n}) m'"
      using xr_vc_loop_ok [OF assms(1) m assms(3) insertI1 _ s(2), of n] False turn_all [OF x(2), of s] by auto
    have sm: "(int s + 1) smod int n = (int s + 1) mod int n" using x(2) by (simp add: smod_nonneg)
    let ?x = "x\<lparr>rr_vcs := (rr_vcs x)[i := (int s + 1) smod int n]\<rparr>"
    have "xr_ok np n ?x" using assms(5) x(2) set_update_subset_insert [of "rr_vcs x" i "(int s + 1) mod int n"] unfolding sm by (auto simp: xr_ok_def)
    moreover have "xr_port_loop ports (Suc k) (int i) m x = xr_port_loop ports k (int (Suc i mod np)) m' ?x"
      using False len assms(3) x s(1) m'(1) following [OF assms(3)] by (simp add: Let_def)
    ultimately show ?thesis using m'(2) by blast
  qed
qed

lemma xr_port_loop_ok:
  assumes "heads_ok np n ports" "s < np" "j + k = np" "matched np n ports m0 (turn np s j) (turn np s j \<times> {..<n}) m" "xr_ok np n x"
  shows "\<exists>m' x'. xr_port_loop ports k (int ((s + j) mod np)) m x = Inr (m', x') \<and> all_matched np n ports m0 m' \<and> xr_ok np n x'"
  using assms(3-5)
proof (induction k arbitrary: j m x)
  case 0
  then show ?case using turn_all [of np s] assms(2) by auto
next
  case (Suc k)
  let ?i = "(s + j) mod np"
  have i: "?i < np" "?i \<notin> turn np s j" using assms(2) turn_inj [of j np s] Suc.prems(1) by auto
  obtain m' x' where m': "xr_port_loop ports (Suc k) (int ?i) m x = xr_port_loop ports k (int (Suc ?i mod np)) m' x'"
    "matched np n ports m0 (insert ?i (turn np s j)) (turn np s j \<times> {..<n} \<union> {?i} \<times> {..<n}) m'" "xr_ok np n x'"
    using xr_port_turn [OF assms(1) Suc.prems(2) i Suc.prems(3)] by blast
  have "turn np s j \<times> {..<n} \<union> {?i} \<times> {..<n} = turn np s (Suc j) \<times> {..<n}" "insert ?i (turn np s j) = turn np s (Suc j)" by (auto simp: turn_Suc)
  moreover have "Suc ?i mod np = (s + Suc j) mod np" by (simp add: mod_simps)
  ultimately show ?case using Suc.IH [of "Suc j" m' x'] Suc.prems(1) m' by auto
qed

lemma xr_matching:
  assumes "xr_ok np n x" "heads_ok np n ports" "sizes np m0"
  shows "\<exists>m x'. xr_arbitrate ports m0 x = Inr (m, x') \<and> xr_ok np n x' \<and> all_matched np n ports m0 m"
proof -
  have x: "0 < np" "xr_ports x = np" "0 \<le> rr_port x" "rr_port x < int np" using assms(1) by (auto simp: xr_ok_def)
  obtain s where s: "rr_port x = int s" "s < np" using x(3,4) by (rule channel_index)
  have "matched np n ports m0 (turn np s 0) (turn np s 0 \<times> {..<n}) m0" using assms(3) by (intro matchedI) (auto simp: turn_def)
  from xr_port_loop_ok [OF assms(2) s(2) _ this assms(1), of np]
  obtain m x' where r: "xr_port_loop ports np (int s) m0 x = Inr (m, x')" "all_matched np n ports m0 m" "xr_ok np n x'" using s(2) by auto
  have p: "0 \<le> rr_port x'" "xr_ports x' = np" "0 < np" using r(3) by (auto simp: xr_ok_def)
  then have "xr_ok np n (x'\<lparr>rr_port := (rr_port x' + 1) smod int np\<rparr>)" using r(3) smod_nonneg [of "rr_port x' + 1" "int np"] by (simp add: xr_ok_def)
  then show ?thesis using r(1,2) p x(2) s(1) by (simp add: xr_arbitrate_def)
qed

interpretation xr: crossbar_arbitration xr_arbitrate xr_ok
  by unfold_locales (rule xr_matching)

lemma xl_setPorts_ok:
  assumes "np < 2 ^ 16" "n < 2 ^ 16" shows "xl_ok np n (xl_setPorts np n)"
proof -
  have tb: "take_bit 16 (int k) = int k" if "k < 2 ^ 16" for k using that by (simp add: take_bit_int_eq_self_iff)
  have "cur_list (xl_setPorts np n) = concat (map (\<lambda>i. map (\<lambda>j. (int i, int j)) [0..<n]) [0..<np])"
    using assms by (auto simp: xl_setPorts_def tb intro!: arg_cong [where f = concat] map_cong)
  also have "\<dots> = map (\<lambda>(i, j). (int i, int j)) (List.product [0..<np] [0..<n])"
    by (simp add: product_concat_map map_concat comp_def)
  finally have l: "cur_list (xl_setPorts np n) = map (\<lambda>(i, j). (int i, int j)) (List.product [0..<np] [0..<n])" .
  have "distinct (cur_list (xl_setPorts np n))" unfolding l by (auto simp: distinct_map distinct_product inj_on_def)
  moreover have "set (cur_list (xl_setPorts np n)) = entries np n" unfolding l by (force simp: entries_def)
  ultimately show ?thesis by (simp add: xl_ok_def xl_setPorts_def)
qed

lemma xr_setPorts_ok: "0 < np \<Longrightarrow> 0 < n \<Longrightarrow> xr_ok np n (xr_setPorts np n)"
  by (simp add: xr_ok_def xr_setPorts_def)

section \<open>Properties\<close>

text \<open>
  C19 Every cycle the crossbar's least recently used arbiter finds a matching: an input moves at most
  one packet, an output gets at most one, each was free and has the space; a free input with a waiting
  packet is left out only when the packet's output is taken or full.
\<close>
theorem xbar_lru_matching:
  assumes "xl_ok np n x" and "heads_ok np n ports" and "sizes np m0"
  shows "\<exists>m x'. xl_arbitrate ports m0 x = Inr (m, x') \<and> xl_ok np n x' \<and>
    (\<forall>i < np. 0 \<le> progress m ! i \<longrightarrow> (\<exists>ev. moves n ports m i ev \<and> in_busy m0 ! i \<le> 0 \<and> out_busy m0 ! nx ev \<le> 0 \<and> room ports ev)) \<and>
    (\<forall>i < np. \<forall>j < np. \<forall>ev ev'. moves n ports m i ev \<and> moves n ports m j ev' \<and> nx ev = nx ev' \<longrightarrow> i = j) \<and>
    (\<forall>i < np. \<forall>v < n. \<forall>ev. head ports i v = Some ev \<and> in_busy m0 ! i \<le> 0 \<longrightarrow> 0 \<le> progress m ! i \<or> 0 < out_busy m ! nx ev \<or> \<not> room ports ev)"
proof -
  obtain m x' where m: "xl_arbitrate ports m0 x = Inr (m, x')" "xl_ok np n x'" "all_matched np n ports m0 m" using xl.matching [OF assms] by blast
  note d = matchedD [OF m(3)]
  show ?thesis
    by (intro exI [of _ m] exI [of _ x'] conjI m(1,2) allI impI) (use d(2,3,5,7) in \<open>(blast | auto)\<close>)+
qed

text \<open>
  C20 Waiting at the crossbar is bounded: in a cycle in which the head of a channel could move, it moves
  or its entry comes closer to the front of the arbiter's list, whose length is the number of channels.
\<close>
theorem xbar_lru_bounded_wait:
  assumes "xl_ok np n x" "heads_ok np n ports" "sizes np m0" "i < np" "v < n" "head ports i v = Some ev"
    and "in_busy m0 ! i \<le> 0" "out_busy m0 ! nx ev \<le> 0" "room ports ev"
  shows "\<exists>m x'. xl_arbitrate ports m0 x = Inr (m, x') \<and> place x (int i, int v) < np * n \<and>
    (progress m ! i = int v \<or> place x' (int i, int v) < place x (int i, int v))"
proof -
  let ?e = "(int i, int v)"
  obtain m where m: "xl_arbitrate ports m0 x = Inr (m, x\<lparr>cur_list := filter (\<lambda>e. \<not> served m e) (cur_list x) @ rev (filter (served m) (cur_list x))\<rparr>)"
    using xl_arbitrate_result [OF assms(1-3)] by blast
  have x: "set (cur_list x) = entries np n" "distinct (cur_list x)" "xl_ports x = np" using assms(1) by (auto simp: xl_ok_def)
  have "?e \<in> set (cur_list x)" using x(1) assms(4,5) by (auto simp: entries_def)
  then obtain l1 l2 where l: "cur_list x = l1 @ ?e # l2" "?e \<notin> set l1" by (metis split_list_first)
  have "entries np n = (\<lambda>(i, v). (int i, int v)) ` ({..<np} \<times> {..<n})" by (auto simp: entries_def)
  then have "card (entries np n) = np * n" by (simp add: card_image inj_on_def)
  then have len: "length (cur_list x) = np * n" using x(1,2) distinct_card by metis
  have pl: "place x ?e = length l1" unfolding place_def l(1) using l(2) by (subst takeWhile_append2) auto
  have "place (x\<lparr>cur_list := filter (\<lambda>e. \<not> served m e) (cur_list x) @ rev (filter (served m) (cur_list x))\<rparr>) ?e < place x ?e" if ns: "\<not> served m ?e"
  proof -
    obtain l' where r: "xl_loop ports (l1 @ ?e # l2) [] [] (m0\<lparr>progress := replicate np (-1)\<rparr>) = Inr (m, l')"
      using m x(3) l(1) by (auto simp: xl_arbitrate_def bindE_eq_Inr_iff)
    have "set (l1 @ ?e # l2) \<subseteq> entries np n" "distinct (l1 @ ?e # l2)" using x(1,2) unfolding l(1) by simp_all
    from loop_overtaken [OF assms(2-9) this r ns] obtain y where "y \<in> set l1" "served m y" by (auto simp: served_def)
    then have "length (filter (\<lambda>e. \<not> served m e) l1) < length l1" by (intro length_filter_less) auto
    then show ?thesis unfolding pl using place_filter [where P = "served m", OF l(2) ns] unfolding place_def l(1) by simp
  qed
  moreover have "place x ?e < np * n" using pl len l(1) by simp
  moreover have "served m ?e \<longleftrightarrow> progress m ! i = int v" by (simp add: served_def)
  ultimately show ?thesis using m by metis
qed

text \<open>
  Pausing the clock of a router with the round robin arbiter is not neutral: a cycle without packets
  advances the channel a free port starts from, the cycles reported as skipped do not.
\<close>
theorem xbar_rr_skip_differs:
  "xr_arbitrate [initVCs 2 4 4 () (new_port 0 False False False ()) :: (RtrPacket, unit) Port] \<lparr>in_busy = [0], out_busy = [0], progress = [-1]\<rparr> (xr_setPorts 1 2) =
     Inr (\<lparr>in_busy = [0], out_busy = [0], progress = [-1]\<rparr>, \<lparr>xr_ports = 1, xr_vcs = 2, rr_vcs = [1], rr_port = 0\<rparr>) \<and>
   xr_reportSkippedCycles 1 (xr_setPorts 1 2) = Inr \<lparr>xr_ports = 1, xr_vcs = 2, rr_vcs = [0], rr_port = 0\<rparr>"
  by code_simp

section \<open>Concrete instances\<close>

definition demo_ports :: "(RtrPacket, unit) Port list" where
  "demo_ports = [(initVCs 1 4 4 () (new_port 0 False False False ()))\<lparr>vc_heads := [Some demo_pkt]\<rparr>,
     (initVCs 1 4 4 () (new_port 1 False False False ()))\<lparr>vc_heads := [Some demo_pkt]\<rparr>]"

definition demo_match :: Match where
  "demo_match = \<lparr>in_busy = [0, 0], out_busy = [0, 0], progress = [-1, -1]\<rparr>"

lemma demo_ports_ok: "heads_ok 2 1 demo_ports" "sizes 2 demo_match" "xl_ok 2 1 (xl_setPorts 2 1)"
proof -
  have "routed 2 1 demo_pkt" by (simp add: routed_def demo_pkt_def)
  then show "heads_ok 2 1 demo_ports" by (auto simp: heads_ok_def demo_ports_def initVCs_def less_2_cases_iff)
  show "sizes 2 demo_match" by (simp add: sizes_def demo_match_def)
  show "xl_ok 2 1 (xl_setPorts 2 1)" by (rule xl_setPorts_ok) simp_all
qed

text \<open>Two inputs want the same output: one of them moves, the other comes to the front.\<close>

theorem xbar_lru_matching_witness:
  "\<exists>m x'. xl_arbitrate demo_ports demo_match (xl_setPorts 2 1) = Inr (m, x') \<and> xl_ok 2 1 x' \<and> progress m = [0, -2] \<and> out_busy m = [2, 0]"
proof -
  obtain m x' where m: "xl_arbitrate demo_ports demo_match (xl_setPorts 2 1) = Inr (m, x')" "xl_ok 2 1 x'" using xbar_lru_matching [OF demo_ports_ok(3,1,2)] by blast
  have "fst (projr (xl_arbitrate demo_ports demo_match (xl_setPorts 2 1))) = \<lparr>in_busy = [2, 0], out_busy = [2, 0], progress = [0, -2]\<rparr>" by code_simp
  then show ?thesis using m by simp
qed

theorem xbar_lru_bounded_wait_witness:
  "\<exists>m x'. xl_arbitrate demo_ports demo_match (xl_setPorts 2 1) = Inr (m, x') \<and> (progress m ! 1 = 0 \<or> place x' (1, 0) < place (xl_setPorts 2 1) (1, 0))"
proof -
  have h: "(1 :: nat) < 2" "(0 :: nat) < 1" "head demo_ports 1 0 = Some demo_pkt" "in_busy demo_match ! 1 \<le> 0" "out_busy demo_match ! nx demo_pkt \<le> 0" "room demo_ports demo_pkt"
    by (simp_all add: demo_ports_def demo_match_def demo_pkt_def room_def initVCs_def)
  show ?thesis using xbar_lru_bounded_wait [OF demo_ports_ok(3,1,2) h] by auto
qed

end
