(* ===== verification/Merlin_XbarQueue.thy ===== *)
theory Merlin_XbarQueue
  imports Merlin_Crossbar "HOL-Library.Multiset"
begin

text \<open>
  The crossbar arbiters with a priority queue (\<^verbatim>\<open>merlin/hr_router/xbar_arb_age.h\<close>, \<^verbatim>\<open>xbar_arb_rand.h\<close>): the
  heads of the free inputs are queued with a priority, the injection time or a random number, and
  served in its order. The two classes differ in the priority only, which an argument draws.
\<close>

section \<open>The arbiters\<close>

record 'k XbarEntry =
  xe_port :: int
  xe_vc :: int
  xe_next_port :: int
  xe_next_vc :: int
  xe_pri :: 'k
  xe_flits :: int

text \<open>\<open>xq_rng\<close> is what priorities are drawn from.\<close>

record 's XbarQueue =
  xq_ports :: nat
  xq_vcs :: nat
  xq_rng :: 's

definition xq_setPorts :: "'s \<Rightarrow> nat \<Rightarrow> nat \<Rightarrow> 's XbarQueue" where
  "xq_setPorts rng num_ports n = \<lparr>xq_ports = num_ports, xq_vcs = n, xq_rng = rng\<rparr>"

text \<open>The heads of a port, with numbers kept in 16 bits.\<close>

fun xq_vc_loop :: "('e RtrPacket_scheme \<Rightarrow> 's \<Rightarrow> 'k \<times> 's) \<Rightarrow> ('e RtrPacket_scheme, 'a) Port \<Rightarrow> nat \<Rightarrow> nat list \<Rightarrow> 's \<Rightarrow> ('k XbarEntry list \<times> 's) res" where
  "xq_vc_loop draw p i [] s = Inr ([], s)"
| "xq_vc_loop draw p i (j # js) s =
     bindE (at (vc_heads p) (int j)) (\<lambda>src. case src of None \<Rightarrow> xq_vc_loop draw p i js s
     | Some ev \<Rightarrow> (let (k, s) = draw ev s in bindE (xq_vc_loop draw p i js s) (\<lambda>(es, s).
         Inr (\<lparr>xe_port = take_bit 16 (int i), xe_vc = take_bit 16 (int j), xe_next_port = take_bit 16 (ge_next_port ev),
               xe_next_vc = take_bit 16 (ge_vc ev), xe_pri = k, xe_flits = ge_flits ev\<rparr> # es, s))))"

fun xq_port_loop :: "('e RtrPacket_scheme \<Rightarrow> 's \<Rightarrow> 'k \<times> 's) \<Rightarrow> ('e RtrPacket_scheme, 'a) Port list \<Rightarrow> Match \<Rightarrow> nat \<Rightarrow> nat list \<Rightarrow> 's \<Rightarrow>
    ('k XbarEntry list \<times> 's) res" where
  "xq_port_loop draw ports m n [] s = Inr ([], s)"
| "xq_port_loop draw ports m n (i # is) s =
     bindE (at (in_busy m) (int i)) (\<lambda>b.
       if 0 < b then xq_port_loop draw ports m n is s
       else bindE (at ports (int i)) (\<lambda>p. bindE (xq_vc_loop draw p i [0..<n] s) (\<lambda>(es, s).
            bindE (xq_port_loop draw ports m n is s) (\<lambda>(es', s). Inr (es @ es', s)))))"

text \<open>The queue is emptied.\<close>

fun xq_serve :: "('e RtrPacket_scheme, 'a) Port list \<Rightarrow> 'k XbarEntry list \<Rightarrow> Match \<Rightarrow> Match res" where
  "xq_serve ports [] m = Inr m"
| "xq_serve ports (e # es) m =
     bindE (at (in_busy m) (xe_port e)) (\<lambda>b.
       if b \<le> 0 then
         bindE (at (out_busy m) (xe_next_port e)) (\<lambda>out.
         bindE (if out \<le> 0 then bindE (at ports (xe_next_port e)) (spaceToSend (xe_next_vc e) (xe_flits e)) else Inr False) (\<lambda>go.
           if go then bindE (put (progress m) (xe_port e) (xe_vc e)) (\<lambda>pr. bindE (put (in_busy m) (xe_port e) (xe_flits e)) (\<lambda>i.
             bindE (put (out_busy m) (xe_next_port e) (xe_flits e)) (\<lambda>out. xq_serve ports es \<lparr>in_busy = i, out_busy = out, progress = pr\<rparr>)))
           else bindE (put (progress m) (xe_port e) (-2)) (\<lambda>pr. xq_serve ports es (m\<lparr>progress := pr\<rparr>))))
       else xq_serve ports es m)"

text \<open>
  \<open>pops\<close> is the order in which \<open>std::priority_queue\<close> gives back what was put into it. Of the library
  only the order by priority is used: entries of equal priority may come in any order.
\<close>

definition xq_arbitrate :: "('e RtrPacket_scheme \<Rightarrow> 's \<Rightarrow> 'k \<times> 's) \<Rightarrow> ('k XbarEntry list \<Rightarrow> 'k XbarEntry list) \<Rightarrow>
    ('e RtrPacket_scheme, 'a, 's XbarQueue) xbar_arb" where
  "xq_arbitrate draw pops ports m x =
     (let m = m\<lparr>progress := replicate (xq_ports x) (-1)\<rparr> in
      bindE (xq_port_loop draw ports m (xq_vcs x) [0..<xq_ports x] (xq_rng x)) (\<lambda>(es, s).
      bindE (xq_serve ports (pops es) m) (\<lambda>m. Inr (m, x\<lparr>xq_rng := s\<rparr>))))"

definition xa_arbitrate :: "('e RtrPacket_scheme \<Rightarrow> u64) \<Rightarrow> (u64 XbarEntry list \<Rightarrow> u64 XbarEntry list) \<Rightarrow> ('e RtrPacket_scheme, 'a, unit XbarQueue) xbar_arb" where
  "xa_arbitrate getInjectionTime = xq_arbitrate (\<lambda>ev s. (getInjectionTime ev, s))"

definition xd_arbitrate :: "('s \<Rightarrow> 'k \<times> 's) \<Rightarrow> ('k XbarEntry list \<Rightarrow> 'k XbarEntry list) \<Rightarrow> ('e RtrPacket_scheme, 'a, 's XbarQueue) xbar_arb" where
  "xd_arbitrate nextUniform = xq_arbitrate (\<lambda>ev s. nextUniform s)"

definition xq_reportSkippedCycles :: "u64 \<Rightarrow> 's XbarQueue \<Rightarrow> 's XbarQueue res" where
  "xq_reportSkippedCycles cycles x = Inr x"

definition proper_queue :: "('k :: linorder XbarEntry list \<Rightarrow> 'k XbarEntry list) \<Rightarrow> bool" where
  "proper_queue pops \<longleftrightarrow> (\<forall>es. mset (pops es) = mset es \<and> sorted (map xe_pri (pops es)))"

definition xq_ok :: "('k :: linorder XbarEntry list \<Rightarrow> 'k XbarEntry list) \<Rightarrow> nat \<Rightarrow> nat \<Rightarrow> 's XbarQueue \<Rightarrow> bool" where
  "xq_ok pops np n x \<longleftrightarrow> proper_queue pops \<and> np < 2 ^ 16 \<and> n < 2 ^ 16 \<and> xq_ports x = np \<and> xq_vcs x = n"

section \<open>What is queued\<close>

text \<open>An entry that stands for the head of channel \<open>v\<close> of input \<open>i\<close>.\<close>

abbreviation pv :: "'k XbarEntry \<Rightarrow> int \<times> int" where
  "pv e \<equiv> (xe_port e, xe_vc e)"

definition entry_for :: "('e RtrPacket_scheme, 'a) Port list \<Rightarrow> nat \<Rightarrow> nat \<Rightarrow> 'k XbarEntry \<Rightarrow> 'e RtrPacket_scheme \<Rightarrow> bool" where
  "entry_for ports np n e ev \<longleftrightarrow> pv e \<in> entries np n \<and> head ports (nat (xe_port e)) (nat (xe_vc e)) = Some ev \<and>
     xe_next_port e = ge_next_port ev \<and> xe_next_vc e = ge_vc ev \<and> xe_flits e = ge_flits ev"

text \<open>Serving the queue is running through the list of its entries.\<close>

lemma xq_serve_loop:
  assumes "heads_ok np n ports" "\<forall>e \<in> set es. \<exists>ev. entry_for ports np n e ev"
  shows "xq_serve ports es m = bindE (xl_loop ports (map pv es) unsat sat m) (\<lambda>(m, l). Inr m)"
  using assms(2)
proof (induction es arbitrary: m unsat sat)
  case (Cons e es)
  obtain ev i v where e: "entry_for ports np n e ev" "xe_port e = int i" "xe_vc e = int v" "i < np" "v < n" "head ports i v = Some ev"
    using Cons.prems by (fastforce simp: entry_for_def entries_def)
  have len: "at ports (int i) = Inr (ports ! i)" "at (vc_heads (ports ! i)) (int v) = Inr (Some ev)" using assms(1) e(4-6) by (auto simp: heads_ok_def)
  have IH: "xq_serve ports es m = bindE (xl_loop ports (map pv es) unsat sat m) (\<lambda>(m, l). Inr m)" for m unsat sat using Cons by simp
  have eq: "xe_next_port e = ge_next_port ev" "xe_next_vc e = ge_vc ev" "xe_flits e = ge_flits ev" using e(1) by (auto simp: entry_for_def)
  have step: "xq_serve ports (e # es) m = bindE (at (in_busy m) (int i)) (\<lambda>b. if b \<le> 0 then bindE (can_move ports m ev) (\<lambda>go.
      if go then bindE (claim (int i) (int v) ev m) (xq_serve ports es) else bindE (put (progress m) (int i) (-2)) (\<lambda>pr. xq_serve ports es (m\<lparr>progress := pr\<rparr>)))
    else xq_serve ports es m)"
    unfolding xq_serve.simps e(2,3) eq can_move_def claim_def bindE_assoc bindE_Inr ..
  show ?case
  proof (cases "at (in_busy m) (int i)")
    case (Inr b)
    then show ?thesis unfolding step
      by (cases "can_move ports m ev"; cases "claim (int i) (int v) ev m"; cases "put (progress m) (int i) (-2)") (simp_all add: len e(2,3) IH [symmetric])
  qed (simp add: e(2,3) len step)
qed simp

text \<open>The heads that are queued, in the order in which they are found.\<close>

definition queued_heads :: "('p, 'a) Port list \<Rightarrow> Match \<Rightarrow> nat \<Rightarrow> nat list \<Rightarrow> (nat \<times> nat) list" where
  "queued_heads ports m n is = filter (\<lambda>(i, v). in_busy m ! i \<le> 0 \<and> head ports i v \<noteq> None) (List.product is [0..<n])"

definition queued_entry :: "('e RtrPacket_scheme \<Rightarrow> 's \<Rightarrow> 'k \<times> 's) \<Rightarrow> ('e RtrPacket_scheme, 'a) Port list \<Rightarrow> nat \<Rightarrow> nat \<Rightarrow> 'k XbarEntry \<Rightarrow> bool" where
  "queued_entry draw ports np n e \<longleftrightarrow> (\<exists>ev s. entry_for ports np n e ev \<and> xe_pri e = fst (draw ev s))"

lemma low16: "0 \<le> k \<Longrightarrow> k < int b \<Longrightarrow> b < 2 ^ 16 \<Longrightarrow> take_bit 16 k = k"
  by (simp add: take_bit_int_eq_self_iff)

lemma xq_vc_loop_ok:
  assumes "heads_ok np n ports" "i < np" "np < 2 ^ 16" "n < 2 ^ 16" "set js \<subseteq> {..<n}"
  shows "\<exists>es s'. xq_vc_loop draw (ports ! i) i js s = Inr (es, s') \<and> (\<forall>e \<in> set es. queued_entry draw ports np n e) \<and>
    map pv es = map (\<lambda>v. (int i, int v)) (filter (\<lambda>v. head ports i v \<noteq> None) js)"
  using assms(5)
proof (induction js arbitrary: s)
  case (Cons j js)
  have j: "j < n" "at (vc_heads (ports ! i)) (int j) = Inr (head ports i j)" "int j < int n" "0 \<le> int j" using assms(1,2) Cons.prems by (auto simp: heads_ok_def)
  show ?case
  proof (cases "head ports i j")
    case (Some ev)
    obtain k s1 where d: "draw ev s = (k, s1)" by fastforce
    obtain es s' where es: "xq_vc_loop draw (ports ! i) i js s1 = Inr (es, s')" "\<forall>e \<in> set es. queued_entry draw ports np n e"
      "map pv es = map (\<lambda>v. (int i, int v)) (filter (\<lambda>v. head ports i v \<noteq> None) js)" using Cons.IH [of s1] Cons.prems by auto
    have r: "routed np n ev" using assms(1,2) j(1) Some by (auto simp: heads_ok_def)
    let ?e = "\<lparr>xe_port = int i, xe_vc = int j, xe_next_port = ge_next_port ev, xe_next_vc = ge_vc ev, xe_pri = k, xe_flits = ge_flits ev\<rparr>"
    have "entry_for ports np n ?e ev" "xe_pri ?e = fst (draw ev s)" using Some assms(2) j(1) d by (auto simp: entry_for_def entries_def)
    then have "queued_entry draw ports np n ?e" unfolding queued_entry_def by blast
    moreover have "xq_vc_loop draw (ports ! i) i (j # js) s = Inr (?e # es, s')"
      using j Some d es(1) r assms(2-4) by (simp add: low16 [where b = np] low16 [where b = n] routed_def)
    ultimately show ?thesis using es(2,3) Some by simp
  qed (use Cons j in auto)
qed simp

lemma xq_port_loop_ok:
  assumes "heads_ok np n ports" "sizes np m" "np < 2 ^ 16" "n < 2 ^ 16" "set is \<subseteq> {..<np}"
  shows "\<exists>es s'. xq_port_loop draw ports m n is s = Inr (es, s') \<and> (\<forall>e \<in> set es. queued_entry draw ports np n e) \<and>
    map pv es = map (\<lambda>(i, v). (int i, int v)) (queued_heads ports m n is)"
  using assms(5)
proof (induction "is" arbitrary: s)
  case (Cons i "is")
  have i: "i < np" "at (in_busy m) (int i) = Inr (in_busy m ! i)" "at ports (int i) = Inr (ports ! i)"
    using assms(1,2) Cons.prems by (auto simp: sizes_def heads_ok_def)
  show ?case
  proof (cases "0 < in_busy m ! i")
    case True
    then have "queued_heads ports m n (i # is) = queued_heads ports m n is" by (auto simp: queued_heads_def)
    then show ?thesis using Cons True i by simp
  next
    case False
    obtain es s1 where es: "xq_vc_loop draw (ports ! i) i [0..<n] s = Inr (es, s1)" "\<forall>e \<in> set es. queued_entry draw ports np n e"
      "map pv es = map (\<lambda>v. (int i, int v)) (filter (\<lambda>v. head ports i v \<noteq> None) [0..<n])" using xq_vc_loop_ok [OF assms(1) i(1) assms(3,4), of "[0..<n]" draw s] by (auto simp: atLeast0LessThan)
    obtain es' s2 where es': "xq_port_loop draw ports m n is s1 = Inr (es', s2)" "\<forall>e \<in> set es'. queued_entry draw ports np n e"
      "map pv es' = map (\<lambda>(i, v). (int i, int v)) (queued_heads ports m n is)" using Cons.IH [of s1] Cons.prems by auto
    have "queued_heads ports m n (i # is) = map (Pair i) (filter (\<lambda>v. head ports i v \<noteq> None) [0..<n]) @ queued_heads ports m n is"
      using False by (simp add: queued_heads_def filter_map comp_def)
    then show ?thesis using es es' False i by (auto simp: comp_def)
  qed
qed (simp add: queued_heads_def)

section \<open>The interface is kept\<close>

lemma xq_result:
  assumes "xq_ok pops np n x" "heads_ok np n ports" "sizes np m0"
  shows "\<exists>m l s q. xq_arbitrate draw pops ports m0 x = Inr (m, x\<lparr>xq_rng := s\<rparr>) \<and> (\<forall>e \<in> set q. queued_entry draw ports np n e) \<and> sorted (map xe_pri q) \<and>
    distinct (map pv q) \<and> set (map pv q) = {(int i, int v) |i v. i < np \<and> v < n \<and> in_busy m0 ! i \<le> 0 \<and> head ports i v \<noteq> None} \<and>
    xl_loop ports (map pv q) [] [] (m0\<lparr>progress := replicate np (-1)\<rparr>) = Inr (m, l) \<and> all_matched np n ports m0 m"
proof -
  let ?m0 = "m0\<lparr>progress := replicate np (-1)\<rparr>"
  have x: "proper_queue pops" "np < 2 ^ 16" "n < 2 ^ 16" "xq_ports x = np" "xq_vcs x = n" using assms(1) by (auto simp: xq_ok_def)
  have "sizes np ?m0" using assms(3) by (simp add: sizes_def)
  then obtain es s where es: "xq_port_loop draw ports ?m0 n [0..<np] (xq_rng x) = Inr (es, s)" "\<forall>e \<in> set es. queued_entry draw ports np n e"
    "map pv es = map (\<lambda>(i, v). (int i, int v)) (queued_heads ports ?m0 n [0..<np])" using xq_port_loop_ok [OF assms(2) _ x(2,3), of ?m0 "[0..<np]" draw "xq_rng x"] by (auto simp: atLeast0LessThan)
  define q where "q = pops es"
  have q: "mset q = mset es" "sorted (map xe_pri q)" using x(1) by (auto simp: proper_queue_def q_def)
  have "distinct (map pv es)" unfolding es(3) by (auto simp: distinct_map queued_heads_def distinct_product inj_on_def)
  then have dist: "distinct (map pv q)" using mset_eq_imp_distinct_iff [of "map pv q" "map pv es"] q(1) by simp
  have "set (map pv q) = set (map pv es)" using q(1) by (metis mset_map mset_eq_setD)
  then have set: "set (map pv q) = {(int i, int v) |i v. i < np \<and> v < n \<and> in_busy m0 ! i \<le> 0 \<and> head ports i v \<noteq> None}"
    unfolding es(3) queued_heads_def by force
  have dr: "\<forall>e \<in> set q. queued_entry draw ports np n e" using es(2) q(1) by (metis mset_eq_setD)
  have sub: "set (map pv q) \<subseteq> entries np n" unfolding set by (auto simp: entries_def)
  have ns: "\<forall>e \<in> set (map pv q). \<not> served ?m0 e" using sub by (auto simp: entries_def served_def)
  obtain m where m: "matched np n ports m0 {..<np} ({} \<union> {(nat a, nat b) |a b. (a, b) \<in> set (map pv q)}) m"
    "xl_loop ports (map pv q @ []) [] [] ?m0 = xl_loop ports [] ([] @ filter (\<lambda>e. \<not> served m e) (map pv q)) (rev (filter (served m) (map pv q)) @ []) m"
    using xl_prefix [OF assms(2) matched_start [OF assms(3)] sub dist ns] by blast
  have "all_matched np n ports m0 m"
  proof (rule matchedI)
    fix i v ev assume "(i, v) \<in> {..<np} \<times> {..<n}" and h: "head ports i v = Some ev" "in_busy m0 ! i \<le> 0"
    then have "(int i, int v) \<in> set (map pv q)" unfolding set by auto
    then have "(i, v) \<in> {} \<union> {(nat a, nat b) |a b. (a, b) \<in> set (map pv q)}" by force
    then show "i \<in> {..<np} \<and> 0 \<le> progress m ! i \<or> 0 < out_busy m ! nx ev \<or> \<not> room ports ev" using matchedD(7) [OF m(1)] h by blast
  qed (use matchedD [OF m(1)] in blast)+
  moreover have "xq_serve ports q ?m0 = Inr m"
    using xq_serve_loop [OF assms(2), of q ?m0 "[]" "[]"] dr m(2) unfolding queued_entry_def by auto
  then have "xq_arbitrate draw pops ports m0 x = Inr (m, x\<lparr>xq_rng := s\<rparr>)" using es(1) x(4,5) by (simp add: xq_arbitrate_def q_def)
  ultimately show ?thesis using dr q(2) dist set m(2) by auto
qed

lemma xq_matching:
  assumes "xq_ok pops np n x" "heads_ok np n ports" "sizes np m0"
  shows "\<exists>m x'. xq_arbitrate draw pops ports m0 x = Inr (m, x') \<and> xq_ok pops np n x' \<and> all_matched np n ports m0 m"
  using xq_result [OF assms, of draw] assms(1) by (fastforce simp: xq_ok_def)

interpretation xa: crossbar_arbitration "xa_arbitrate getInjectionTime pops" "xq_ok pops" for getInjectionTime pops
  unfolding xa_arbitrate_def by unfold_locales (rule xq_matching)

interpretation xd: crossbar_arbitration "xd_arbitrate nextUniform pops" "xq_ok pops" for nextUniform pops
  unfolding xd_arbitrate_def by unfold_locales (rule xq_matching)

section \<open>Properties\<close>

text \<open>
  C25 The age arbiter serves the oldest: a head that could move (its input and output are not busy and
  the output has room for it) and does not move is held up by a packet that moves in the same cycle
  from the same input or to the same output and is not younger. \<open>pops\<close> is the order in which
  \<open>std::priority_queue\<close> gives back its entries; only that it is a sorted permutation is used.
\<close>
theorem xbar_age_oldest_first:
  assumes "xq_ok pops np n x" and "heads_ok np n ports" and "sizes np m0" and "i < np" and "v < n" and "head ports i v = Some ev"
    and "in_busy m0 ! i \<le> 0" and "out_busy m0 ! nx ev \<le> 0" and "room ports ev"
  shows "\<exists>m x'. xa_arbitrate getInjectionTime pops ports m0 x = Inr (m, x') \<and>
    (progress m ! i = int v \<or> (\<exists>j < np. \<exists>ev'. moves n ports m j ev' \<and> (j = i \<or> nx ev' = nx ev) \<and> getInjectionTime ev' \<le> getInjectionTime ev))"
proof -
  let ?e = "(int i, int v)" and ?draw = "\<lambda>ev (s :: unit). (getInjectionTime ev, s)"
  obtain m l s q where m: "xa_arbitrate getInjectionTime pops ports m0 x = Inr (m, x\<lparr>xq_rng := s\<rparr>)" "\<forall>e \<in> set q. queued_entry ?draw ports np n e" "sorted (map xe_pri q)"
    "distinct (map pv q)" "set (map pv q) = {(int i, int v) |i v. i < np \<and> v < n \<and> in_busy m0 ! i \<le> 0 \<and> head ports i v \<noteq> None}"
    "xl_loop ports (map pv q) [] [] (m0\<lparr>progress := replicate np (-1)\<rparr>) = Inr (m, l)"
    using xq_result [OF assms(1-3), of ?draw, folded xa_arbitrate_def] by (elim exE conjE) (rule that)
  have key: "xe_pri e = getInjectionTime ev'" if "e \<in> set q" "pv e = (int j, int w)" "head ports j w = Some ev'" for e j w ev'
    using m(2) that by (auto simp: queued_entry_def entry_for_def)
  have "?e \<in> set (map pv q)" unfolding m(5) using assms(4-7) by auto
  then obtain e where e: "e \<in> set q" "pv e = ?e" by force
  then obtain q1 q2 where q: "q = q1 @ e # q2" by (metis split_list)
  have first: "xe_pri e1 \<le> xe_pri e" if "e1 \<in> set q1" for e1 using m(3) that unfolding q by (auto simp: sorted_append)
  have sub: "set (map pv q) \<subseteq> entries np n" unfolding m(5) by (auto simp: entries_def)
  show ?thesis
  proof (cases "served m ?e")
    case False
    have "set (map pv q1 @ ?e # map pv q2) \<subseteq> entries np n" "distinct (map pv q1 @ ?e # map pv q2)" using sub m(4) e(2) unfolding q by auto
    from loop_overtaken [OF assms(2-9) this _ False, of l] obtain j ev'
      where j: "j < np" "(int j, progress m ! j) \<in> set (map pv q1)" "moves n ports m j ev'" "j = i \<or> nx ev' = nx ev"
      using m(6) e(2) unfolding q by auto
    then obtain e1 where e1: "e1 \<in> set q1" "pv e1 = (int j, progress m ! j)" by auto
    have "progress m ! j = int (nat (progress m ! j))" "head ports j (nat (progress m ! j)) = Some ev'" using j(3) by (auto simp: moves_def)
    then have "getInjectionTime ev' \<le> getInjectionTime ev"
      using key [of e1 j "nat (progress m ! j)" ev'] key [OF e assms(6)] first [OF e1(1)] e1 q by auto
    then show ?thesis using m(1) j by blast
  qed (use m(1) in \<open>auto simp: served_def\<close>)
qed

text \<open>A queue that gives back equal entries in the order they were put in.\<close>

definition demo_pops :: "u64 XbarEntry list \<Rightarrow> u64 XbarEntry list" where
  "demo_pops = sort_key xe_pri"

lemma demo_pops_ok: "xq_ok demo_pops 2 1 (xq_setPorts () 2 1)"
  by (simp add: xq_ok_def proper_queue_def demo_pops_def xq_setPorts_def)

text \<open>Two inputs want the same output: the one that does not move waits for a packet that is not younger.\<close>

theorem xbar_age_oldest_first_witness:
  "\<exists>m x'. xa_arbitrate (\<lambda>ev. 7) demo_pops demo_ports demo_match (xq_setPorts () 2 1) = Inr (m, x') \<and>
     (progress m ! 1 = 0 \<or> (\<exists>j < 2. \<exists>ev'. moves 1 demo_ports m j ev' \<and> (j = 1 \<or> nx ev' = nx demo_pkt)))"
proof -
  have h: "(1 :: nat) < 2" "(0 :: nat) < 1" "head demo_ports 1 0 = Some demo_pkt" "in_busy demo_match ! 1 \<le> 0" "out_busy demo_match ! nx demo_pkt \<le> 0" "room demo_ports demo_pkt"
    by (simp_all add: demo_ports_def demo_match_def demo_pkt_def room_def initVCs_def)
  show ?thesis using xbar_age_oldest_first [OF demo_pops_ok demo_ports_ok(1,2) h, of "\<lambda>ev. 7"] by auto
qed

end
