(* ===== verification/Merlin_Link.thy ===== *)
theory Merlin_Link
  imports Merlin_Port Merlin_GridRoute
begin

text \<open>
  Two ports of routers and the link between them. A step is one call into one of the ports: the
  crossbar hands over or fetches a packet, a control packet is sent, the output wakes up, the link
  delivers its oldest message, or the link changes its width. Every order of the calls is allowed.
\<close>

section \<open>The link\<close>

type_synonym ('p, 'a) link = "('p, 'a) Port \<times> ('p, 'a) Port"

text \<open>The end of \<open>init\<close>: the port adds the credits of the other side.\<close>

fun init_receive :: "'p msg list \<Rightarrow> ('p, 'a) Port \<Rightarrow> ('p, 'a) Port res" where
  "init_receive [] p = Inr p"
| "init_receive (Credit vc c # ms) p = bindE (credit_arrives vc c p) (init_receive ms)"
| "init_receive (m # ms) p = init_receive ms p"

definition link_init :: "('p, 'a) Port \<Rightarrow> ('p, 'a) Port \<Rightarrow> ('p, 'a) link res" where
  "link_init p q =
     (let p1 = init_credits p; q1 = init_credits q in
      bindE (init_receive (pc_sent q1) (p1\<lparr>pc_sent := []\<rparr>)) (\<lambda>p2.
      bindE (init_receive (pc_sent p1) (q1\<lparr>pc_sent := []\<rparr>)) (\<lambda>q2. Inr (p2, q2))))"

inductive half_step :: "('e RtrPacket_scheme, 'a) arbiter \<Rightarrow> 'e RtrPacket_scheme router \<Rightarrow> 'e RtrPacket_scheme router \<Rightarrow>
    ('e RtrPacket_scheme, 'a) link \<Rightarrow> ('e RtrPacket_scheme, 'a) link \<Rightarrow> bool"
  for arbitrate route_p route_q where
  accept: "0 \<le> ge_flits ev \<Longrightarrow> spaceToSend vc (ge_flits ev) p = Inr True \<Longrightarrow> port_send ev vc p = Inr p' \<Longrightarrow>
    half_step arbitrate route_p route_q (p, q) (p', q)"
| fetch: "port_recv route_p (\<lambda>_. False) vc p = Inr (r, p') \<Longrightarrow> half_step arbitrate route_p route_q (p, q) (p', q)"
| control: "half_step arbitrate route_p route_q (p, q) (sendCtrlEvent c p, q)"
| timer: "t \<in> set (pc_wakeups p) \<Longrightarrow> handle_output arbitrate cycle (p\<lparr>pc_wakeups := remove1 t (pc_wakeups p)\<rparr>) = Inr p' \<Longrightarrow>
    half_step arbitrate route_p route_q (p, q) (p', q)"
| deliver: "pc_sent p = m # ms \<Longrightarrow> handle_input_r2r route_q m q = Inr q' \<Longrightarrow>
    half_step arbitrate route_p route_q (p, q) (p\<lparr>pc_sent := ms\<rparr>, q')"
| width: "half_step arbitrate route_p route_q (p, q) (p\<lparr>sai_port_disabled := b\<rparr>, q)"

text \<open>Both ports take steps.\<close>

definition link_step :: "('e RtrPacket_scheme, 'a) arbiter \<Rightarrow> 'e RtrPacket_scheme router \<Rightarrow> 'e RtrPacket_scheme router \<Rightarrow>
    ('e RtrPacket_scheme, 'a) link \<Rightarrow> ('e RtrPacket_scheme, 'a) link \<Rightarrow> bool" where
  "link_step arbitrate route_p route_q s s' \<longleftrightarrow> half_step arbitrate route_p route_q s s' \<or>
     half_step arbitrate route_q route_p (prod.swap s) (prod.swap s')"

section \<open>The balance of credits\<close>

definition link_ok :: "(nat \<Rightarrow> 'a \<Rightarrow> bool) \<Rightarrow> nat \<Rightarrow> int \<times> int \<Rightarrow> int \<times> int \<Rightarrow> ('e RtrPacket_scheme, 'a) link \<Rightarrow> bool" where
  "link_ok ok n ibs obs s \<longleftrightarrow> port_ok ok n (fst obs) (fst s) \<and> port_ok ok n (snd obs) (snd s) \<and>
     (\<forall>v < n. sender_share (fst s) v + receiver_share (snd s) v = snd ibs \<and> sender_share (snd s) v + receiver_share (fst s) v = fst ibs)"

lemma link_ok_swap: "link_ok ok n (prod.swap ibs) (prod.swap obs) (prod.swap s) = link_ok ok n ibs obs s"
  by (auto simp: link_ok_def)

lemma sent_pop:
  assumes "port_ok ok n obs p" "pc_sent p = m # ms"
  shows "port_ok ok n obs (p\<lparr>pc_sent := ms\<rparr>)" "msg_ok n m"
    "sender_share p v = sender_share (p\<lparr>pc_sent := ms\<rparr>) v + data_flits v m"
    "receiver_share p v = receiver_share (p\<lparr>pc_sent := ms\<rparr>) v + credit_flits v m"
  using assms by (auto simp: port_ok_def wake_ok_def share_defs)

lemma width_keeps: "port_ok ok n obs p \<Longrightarrow> port_ok ok n obs (p\<lparr>sai_port_disabled := b\<rparr>) \<and> same_shares n p (p\<lparr>sai_port_disabled := b\<rparr>)"
  by (auto simp: port_ok_def wake_ok_def share_defs shape_ok_def chan_ok_def)

lemma send_in_range: "port_ok ok n obs p \<Longrightarrow> spaceToSend vc f p = Inr True \<Longrightarrow> \<exists>v < n. vc = int v"
  by (auto simp: spaceToSend_def at_def port_ok_def shape_ok_def split: if_splits intro: exI [of _ "nat vc"])

lemma oql_release_sent: "oql_release d vc p = Inr p' \<Longrightarrow> pc_sent p' = pc_sent p"
  by (auto simp: oql_release_def oql_change_def bindE_eq_Inr_iff split: if_splits)

locale port_link = p: port_control arbitrate ok route_p + q: port_control arbitrate ok route_q
  for arbitrate :: "('e RtrPacket_scheme, 'a) arbiter" and ok :: "nat \<Rightarrow> 'a \<Rightarrow> bool"
    and route_p :: "'e RtrPacket_scheme router" and route_q :: "'e RtrPacket_scheme router"
begin

lemma arrival_keeps:
  assumes "port_ok ok n obs q" "msg_ok n m" "handle_input_r2r route_q m q = Inr q'"
  shows "port_ok ok n obs q' \<and> (\<forall>v < n. sender_share q' v = sender_share q v + credit_flits v m \<and> receiver_share q' v = receiver_share q v + data_flits v m)"
proof (cases m)
  case (Credit vc c)
  then show ?thesis using credit_arrives_keeps [of ok n obs q vc c route_q] assms by auto
next
  case (Data ev)
  then show ?thesis using q.data_arrives_keeps [of n obs q ev q'] assms by auto
next
  case (Ctrl c)
  then show ?thesis using assms by (simp add: handle_input_r2r_def)
qed

lemma half_step_keeps:
  assumes "half_step arbitrate route_p route_q s s'" "link_ok ok n ibs obs s"
  shows "link_ok ok n ibs obs s'"
  using assms
proof cases
  case (accept ev vc p p' q)
  then obtain v where "v < n" "vc = int v" using assms(2) send_in_range [of ok n "fst obs" p vc "ge_flits ev"] by (auto simp: link_ok_def)
  then show ?thesis using port_send_keeps [of ok n "fst obs" p v ev] accept assms(2) by (auto simp: link_ok_def)
next
  case (fetch vc p r p' q)
  then show ?thesis using p.port_recv_keeps [of n "fst obs" p vc r p'] assms(2) by (auto simp: link_ok_def)
next
  case (control p q c)
  then show ?thesis using sendCtrlEvent_keeps [of ok n "fst obs" p c] assms(2) by (auto simp: link_ok_def)
next
  case (timer t p cycle p' q)
  then show ?thesis using p.handle_output_keeps [of n "fst obs" p cycle "remove1 t (pc_wakeups p)"] assms(2) by (auto simp: link_ok_def)
next
  case (deliver p m ms q q')
  then have p: "port_ok ok n (fst obs) p" and q: "port_ok ok n (snd obs) q" using assms(2) by (auto simp: link_ok_def)
  note pop = sent_pop [OF p deliver(3)]
  show ?thesis using arrival_keeps [OF q pop(2) deliver(4)] pop(1) assms(2) deliver(1,2) pop(3,4) by (auto simp: link_ok_def)
next
  case (width p q b)
  then show ?thesis using width_keeps [of ok n "fst obs" p b] assms(2) by (auto simp: link_ok_def)
qed

lemma handle_output_sends:
  assumes "port_ok ok n obs p" "ctrl_queue p = []" "\<not> sai_port_disabled p" "v < n" "fits (output_buf p) (port_out_credits p) False v"
  shows "\<exists>p' ev. handle_output arbitrate cycle (p\<lparr>pc_wakeups := ts\<rparr>) = Inr p' \<and> pc_sent p' = pc_sent p @ [Data ev]"
proof -
  obtain vc h a where a: "arbitrate cycle (output_buf p) (port_out_credits p) (host_port p) (output_arb p) = Inr (vc, h, a)"
    "choice_ok n (output_buf p) (port_out_credits p) False vc h" using p.output_choice [OF assms(1)] .
  obtain p' where p': "handle_output arbitrate cycle (p\<lparr>pc_wakeups := ts\<rparr>) = Inr p'" using p.handle_output_keeps [OF assms(1)] by blast
  have vc: "vc \<noteq> -1" "0 \<le> vc" "vc < int n" "output_buf p ! nat vc \<noteq> []" using a(2) assms(4,5) by (auto simp: choice_ok_def fits_def split: if_splits)
  then obtain ev rest where "at (output_buf p) vc = Inr (ev # rest)" using assms(1) by (auto simp: at_def port_ok_def shape_ok_def neq_Nil_conv)
  then have "\<exists>ev. pc_sent p' = pc_sent p @ [Data ev]"
    using p' a(1) assms(2,3) vc(1) by (auto simp: handle_output_def bindE_eq_Inr_iff Let_def dest: oql_release_sent)
  then show ?thesis using p' by blast
qed

end

sublocale port_link \<subseteq> peer: port_link arbitrate ok route_q route_p
  by unfold_locales

context port_link
begin

lemma link_step_keeps: "link_step arbitrate route_p route_q s s' \<Longrightarrow> link_ok ok n ibs obs s \<Longrightarrow> link_ok ok n ibs obs s'"
  using half_step_keeps [of s s' n ibs obs] peer.half_step_keeps [of "prod.swap s" "prod.swap s'" n "prod.swap ibs" "prod.swap obs"]
  by (auto simp: link_step_def link_ok_swap)

lemma reachable_ok: "(link_step arbitrate route_p route_q)\<^sup>*\<^sup>* s s' \<Longrightarrow> link_ok ok n ibs obs s \<Longrightarrow> link_ok ok n ibs obs s'"
  by (induction rule: rtranclp_induct) (auto intro: link_step_keeps)

end

lemma in_flight_nonneg:
  assumes "\<forall>m \<in> set ms. msg_ok n m"
  shows "0 \<le> sum_list (map (data_flits v) ms)" "0 \<le> sum_list (map (credit_flits v) ms)"
proof -
  have "0 \<le> data_flits v m \<and> 0 \<le> credit_flits v m" if "m \<in> set ms" for m using bspec [OF assms that] by (cases m) auto
  then show "0 \<le> sum_list (map (data_flits v) ms)" "0 \<le> sum_list (map (credit_flits v) ms)"
    by (auto simp: assms intro!: sum_list_nonneg)
qed

lemma link_ok_bounds:
  assumes "link_ok ok n ibs obs (p, q)" "v < n"
  shows "0 \<le> flits (input_buf q ! v) \<and> flits (input_buf q ! v) \<le> snd ibs \<and> 0 \<le> flits (output_buf p ! v) \<and> flits (output_buf p ! v) \<le> fst obs"
proof -
  have p: "chan_ok (fst obs) p v" "\<forall>m \<in> set (pc_sent p). msg_ok n m" and q: "chan_ok (snd obs) q v" "\<forall>m \<in> set (pc_sent q). msg_ok n m"
    and b: "sender_share p v + receiver_share q v = snd ibs" using assms by (auto simp: link_ok_def port_ok_def)
  have "0 \<le> flits (input_buf q ! v)" "0 \<le> flits (output_buf p ! v)" using p(1) q(1) by (auto simp: chan_ok_def intro: flits_nonneg)
  then show ?thesis using p(1) q(1) b in_flight_nonneg(1) [OF p(2), of v] in_flight_nonneg(2) [OF q(2), of v] by (auto simp: chan_ok_def share_defs)
qed

section \<open>The first exchange of credits\<close>

lemma init_receive_append: "init_receive (xs @ ys) p = bindE (init_receive xs p) (init_receive ys)"
  by (induction xs p rule: init_receive.induct) (auto simp: bindE_def split: sum.splits)

lemma init_receive_credits:
  assumes "length (port_out_credits p) = n" "k \<le> n"
  shows "init_receive (map (\<lambda>i. Credit (int i) c) [0..<k]) p =
    Inr (p\<lparr>port_out_credits := map (\<lambda>i. port_out_credits p ! i + (if i < k then c else 0)) [0..<n]\<rparr>)"
  using assms(2)
proof (induction k)
  case 0
  have "map (\<lambda>i. port_out_credits p ! i) [0..<n] = port_out_credits p" using assms(1) by (metis map_nth)
  then show ?case by simp
next
  case (Suc k)
  have "(map (\<lambda>i. port_out_credits p ! i + (if i < k then c else 0)) [0..<n])[k := port_out_credits p ! k + c] =
      map (\<lambda>i. port_out_credits p ! i + (if i < Suc k then c else 0)) [0..<n]"
    using Suc.prems by (intro nth_equalityI) (auto simp: nth_list_update)
  then show ?case using Suc by (simp add: init_receive_append credit_arrives_def)
qed

definition fresh_port :: "nat \<Rightarrow> int \<Rightarrow> int \<Rightarrow> 'a \<Rightarrow> int \<Rightarrow> bool \<Rightarrow> bool \<Rightarrow> ('p, 'a) Port" where
  "fresh_port n ibs obs arb number track_port track_remote = initVCs n ibs obs arb (new_port number False track_port track_remote arb)"

lemma fresh_simps:
  "pc_sent (init_credits (fresh_port n ibs obs arb i x y)) = map (\<lambda>i. Credit (int i) ibs) [0..<n]"
  "length (port_out_credits (init_credits (fresh_port n ibs obs arb i x y))) = n"
  by (auto simp: fresh_port_def init_credits_def initVCs_def new_port_def)

lemma port_ok_fresh:
  assumes "ok n arb" "0 \<le> obs" "0 \<le> c"
  shows "port_ok ok n obs ((init_credits (fresh_port n ibs obs arb i x y))\<lparr>pc_sent := [], port_out_credits := replicate n c\<rparr>)"
  using assms by (auto simp: port_ok_def wake_ok_def shape_ok_def chan_ok_def fits_def fresh_port_def init_credits_def initVCs_def new_port_def)

lemma link_init_fresh:
  fixes a b :: 'a
  assumes "ok n a" "ok n b" "0 \<le> ia" "0 \<le> ib" "0 \<le> oa" "0 \<le> ob"
  shows "\<exists>s :: ('e RtrPacket_scheme, 'a) link.
    link_init (fresh_port n ia oa a i x y) (fresh_port n ib ob b j x' y') = Inr s \<and> link_ok ok n (ia, ib) (oa, ob) s"
proof -
  let ?p = "fresh_port n ia oa a i x y :: ('e RtrPacket_scheme, 'a) Port" and ?q = "fresh_port n ib ob b j x' y' :: ('e RtrPacket_scheme, 'a) Port"
  have z: "port_out_credits (init_credits ?p) = replicate n 0" "port_out_credits (init_credits ?q) = replicate n 0"
    by (simp_all add: fresh_port_def init_credits_def initVCs_def)
  have m: "map (\<lambda>i. replicate n 0 ! i + (if i < n then c else 0)) [0..<n] = replicate n c" for c :: int
    by (intro nth_equalityI) auto
  let ?s = "((init_credits ?p)\<lparr>pc_sent := [], port_out_credits := replicate n ib\<rparr>, (init_credits ?q)\<lparr>pc_sent := [], port_out_credits := replicate n ia\<rparr>)"
  have "link_init ?p ?q = Inr ?s"
    using init_receive_credits [of "(init_credits ?p)\<lparr>pc_sent := []\<rparr>" n n ib] init_receive_credits [of "(init_credits ?q)\<lparr>pc_sent := []\<rparr>" n n ia]
    by (simp add: link_init_def fresh_simps z m)
  moreover have "link_ok ok n (ia, ib) (oa, ob) ?s"
    using port_ok_fresh [of ok n a oa ib ia i x y] port_ok_fresh [of ok n b ob ia ib j x' y'] assms
    by (auto simp: link_ok_def share_defs) (auto simp: fresh_port_def init_credits_def initVCs_def)
  ultimately show ?thesis by blast
qed

lemma link_init_ok:
  fixes s :: "('e RtrPacket_scheme, 'a) link"
  assumes "ok n a" "ok n b" "0 \<le> ia" "0 \<le> ib" "0 \<le> oa" "0 \<le> ob" "link_init (fresh_port n ia oa a i x y) (fresh_port n ib ob b j x' y') = Inr s"
  shows "link_ok ok n (ia, ib) (oa, ob) s"
proof -
  obtain s' :: "('e RtrPacket_scheme, 'a) link" where s': "link_init (fresh_port n ia oa a i x y) (fresh_port n ib ob b j x' y') = Inr s'" "link_ok ok n (ia, ib) (oa, ob) s'"
    using link_init_fresh [where ok = ok, OF assms(1-6), of i x y j x' y'] by blast
  then show ?thesis using assms(7) by simp
qed

section \<open>Links of a torus\<close>

lemma route_loop_flits: "ge_flits (route_loop d t port vc dim ev) = ge_flits ev"
  by (induction d t port vc dim ev rule: route_loop.induct) (subst route_loop.simps, auto simp: Let_def split: prod.splits)

lemma grid_route_flits: "grid_route d t port vc ev = Inr ev' \<Longrightarrow> ge_flits ev' = ge_flits ev"
  by (auto simp: grid_route_def bindE_eq_Inr_iff route_loop_flits split: if_splits)

interpretation torus_link: port_link "basic_arbitrate rr_next rr_satisfied" "basic_ok rr_ready" "torus_route_packet t" "torus_route_packet t'" for t t'
  by unfold_locales (auto simp: torus_route_packet_def grid_route_flits)

section \<open>Ports to endpoints\<close>

text \<open>The output of a port runs at these cycles, with no other call in between.\<close>

fun outputs :: "('e RtrPacket_scheme, 'a) arbiter \<Rightarrow> u64 list \<Rightarrow> ('e RtrPacket_scheme, 'a) Port \<Rightarrow> ('e RtrPacket_scheme, 'a) Port res" where
  "outputs arbitrate [] p = Inr p"
| "outputs arbitrate (c # cs) p = bindE (handle_output arbitrate c p) (outputs arbitrate cs)"

text \<open>
  A port to an endpoint, ready to send; only channel \<open>w\<close> has packets, and each of them is of network
  \<open>vn\<close> and fits the credits the endpoint has granted to that network.
\<close>

definition host_ready :: "(nat \<Rightarrow> 'a \<Rightarrow> bool) \<Rightarrow> nat \<Rightarrow> nat \<Rightarrow> nat \<Rightarrow> ('e RtrPacket_scheme, 'a) Port \<Rightarrow> bool" where
  "host_ready ok n vn w p \<longleftrightarrow> shape_ok n p \<and> host_port p \<and> ok n (output_arb p) \<and> ctrl_queue p = [] \<and> \<not> sai_port_disabled p \<and>
     vn < n \<and> w < n \<and> (\<forall>u < n. u \<noteq> w \<longrightarrow> output_buf p ! u = []) \<and>
     (\<forall>ev \<in> set (output_buf p ! w). ge_vn ev = int vn \<and> ge_flits ev \<le> port_out_credits p ! vn)"

context output_arbitration
begin

lemma host_output_sends:
  assumes "host_ready ok n vn w p" "w \<noteq> vn" "output_buf p ! w = ev # rest"
  shows "\<exists>p'. handle_output arbitrate cycle p = Inr p' \<and> host_ready ok n vn w p' \<and> output_buf p' ! w = rest \<and> pc_sent p' = pc_sent p @ [Data ev] \<and>
    port_out_credits p' = (port_out_credits p)[w := port_out_credits p ! w - ge_flits ev]"
proof -
  have s: "shape_ok n p" "host_port p" "ok n (output_arb p)" "ctrl_queue p = []" "\<not> sai_port_disabled p" "vn < n" "w < n"
      "\<forall>u < n. u \<noteq> w \<longrightarrow> output_buf p ! u = []" "\<forall>ev \<in> set (output_buf p ! w). ge_vn ev = int vn \<and> ge_flits ev \<le> port_out_credits p ! vn"
    using assms(1) by (auto simp: host_ready_def)
  have "ge_vn x = int vn" if q: "q \<in> set (output_buf p)" "x \<in> set q" for q x
  proof -
    have "length (output_buf p) = n" using s(1) by (simp add: shape_ok_def)
    then obtain u where u: "u < n" "q = output_buf p ! u" using q(1) unfolding in_set_conv_nth by blast
    then show ?thesis using q(2) s(8,9) by (cases "u = w") auto
  qed
  then have "queues_ok n (output_buf p) (port_out_credits p) True" using s(1,6) by (auto simp: queues_ok_def shape_ok_def)
  from choice [OF s(3) this, of cycle] obtain vc h a where
    a: "arbitrate cycle (output_buf p) (port_out_credits p) True (output_arb p) = Inr (vc, h, a)" "ok n a"
      "choice_ok n (output_buf p) (port_out_credits p) True vc h" by blast
  have "fits (output_buf p) (port_out_credits p) True w" using s(9) assms(3) by (simp add: fits_def)
  then have "vc \<noteq> -1" using a(3) s(7) by (auto simp: choice_ok_def)
  then have "0 \<le> vc" "vc < int n" "output_buf p ! nat vc \<noteq> []" using a(3) by (auto simp: choice_ok_def fits_def)
  then have vc: "vc = int w" using s(8) by (metis channel_index nat_int)
  let ?p1 = "p\<lparr>output_arb := a, have_packets := h, output_buf := (output_buf p)[w := rest],
      xbar_in_credits := (xbar_in_credits p)[w := xbar_in_credits p ! w + ge_flits ev]\<rparr>"
  have "length (output_queue_lengths ?p1) = n" using s(1) by (simp add: shape_ok_def)
  then obtain l where l: "oql_release (ge_flits ev) (int w) ?p1 = Inr (?p1\<lparr>output_queue_lengths := l\<rparr>)" "length l = n" using s(7) by (rule oql_release_ok)
  let ?p2 = "?p1\<lparr>output_queue_lengths := l, port_out_credits := (port_out_credits p)[w := port_out_credits p ! w - ge_flits ev],
      output_buf_count := (output_buf_count p)[w := output_buf_count p ! w + 1], pc_wakeups := pc_wakeups p @ [ge_flits ev], pc_sent := pc_sent p @ [Data ev]\<rparr>"
  have "handle_output arbitrate cycle p = Inr ?p2"
    using a(1) s(1,2,4,5,7) vc assms(3) l(1) by (simp add: handle_output_def shape_ok_def Let_def)
  moreover have "host_ready ok n vn w ?p2"
    using s l(2) a(2) assms(2,3) by (auto simp: host_ready_def shape_ok_def)
  ultimately show ?thesis using s(1,7) by (auto simp: shape_ok_def)
qed

lemma host_outputs_send:
  assumes "host_ready ok n vn w p" "w \<noteq> vn" "length cycles = length (output_buf p ! w)"
  shows "\<exists>p'. outputs arbitrate cycles p = Inr p' \<and> pc_sent p' = pc_sent p @ map Data (output_buf p ! w) \<and>
    port_out_credits p' = (port_out_credits p)[w := port_out_credits p ! w - flits (output_buf p ! w)]"
  using assms
proof (induction cycles arbitrary: p)
  case (Cons c cs)
  then obtain ev rest where q: "output_buf p ! w = ev # rest" by (cases "output_buf p ! w") auto
  obtain p1 where p1: "handle_output arbitrate c p = Inr p1" "host_ready ok n vn w p1" "output_buf p1 ! w = rest" "pc_sent p1 = pc_sent p @ [Data ev]"
      "port_out_credits p1 = (port_out_credits p)[w := port_out_credits p ! w - ge_flits ev]"
    using host_output_sends [OF Cons.prems(1,2) q] by blast
  have "w < length (port_out_credits p)" using Cons.prems(1) by (auto simp: host_ready_def shape_ok_def)
  then show ?case using Cons.IH [OF p1(2)] Cons.prems(2,3) p1 q by (auto simp: algebra_simps)
qed simp

end

section \<open>A concrete link\<close>

definition demo_flit :: GridEvent where
  "demo_flit = \<lparr>ge_dest = 1, ge_vn = 0, ge_vc = 1, ge_next_port = 0, ge_src = 0, ge_flits = 2, ge_bits = 64, ge_credit_vc = 0,
     routing_dim = 0, dest_loc = [1], ge_phase = 0\<rparr>"

abbreviation demo_arb :: "RR BasicArb" where
  "demo_arb \<equiv> basic_setVCs (\<lambda>n. rr_new (int n)) [2]"

definition demo_link :: "(GridEvent, RR BasicArb) link" where
  "demo_link = projr (link_init (fresh_port 2 4 4 demo_arb 0 False False) (fresh_port 2 4 4 demo_arb 1 False False))"

section \<open>Properties\<close>

text \<open>
  C6 On a link between two routers, in every order of crossbar transfers, wake-ups, deliveries and
  changes of width, the credits of a channel are conserved: those the sender holds, the flits and
  credits on the way, the flits in the receiver's buffer and the credits it still owes make up its size.
\<close>
theorem link_credits_conserved:
  assumes "basic_ok rr_ready n a" "basic_ok rr_ready n b" "0 \<le> ia" "0 \<le> ib" "0 \<le> oa" "0 \<le> ob"
    and "link_init (fresh_port n ia oa a i x y) (fresh_port n ib ob b j x' y') = Inr s"
    and "(link_step (basic_arbitrate rr_next rr_satisfied) (torus_route_packet t) (torus_route_packet t'))\<^sup>*\<^sup>* s (p, q)" and "v < n"
  shows "port_out_credits p ! v + sum_list (map (data_flits v) (pc_sent p)) + flits (input_buf q ! v) + port_ret_credits q ! v +
    sum_list (map (credit_flits v) (pc_sent q)) = ib"
proof -
  have "link_ok (basic_ok rr_ready) n (ia, ib) (oa, ob) s" by (rule link_init_ok [where ok = "basic_ok rr_ready", OF assms(1-7)])
  from torus_link.reachable_ok [OF assms(8) this] show ?thesis using assms(9) by (simp add: link_ok_def share_defs add.assoc)
qed

text \<open>
  C17 No buffer of the link ever holds more flits than its size: neither the input buffer the other
  side sends into nor the output buffer the crossbar fills.
\<close>
theorem link_buffers_bounded:
  assumes "basic_ok rr_ready n a" "basic_ok rr_ready n b" "0 \<le> ia" "0 \<le> ib" "0 \<le> oa" "0 \<le> ob"
    and "link_init (fresh_port n ia oa a i x y) (fresh_port n ib ob b j x' y') = Inr s"
    and "(link_step (basic_arbitrate rr_next rr_satisfied) (torus_route_packet t) (torus_route_packet t'))\<^sup>*\<^sup>* s (p, q)" and "v < n"
  shows "0 \<le> flits (input_buf q ! v) \<and> flits (input_buf q ! v) \<le> ib \<and> 0 \<le> flits (output_buf p ! v) \<and> flits (output_buf p ! v) \<le> oa"
proof -
  have "link_ok (basic_ok rr_ready) n (ia, ib) (oa, ob) s" by (rule link_init_ok [where ok = "basic_ok rr_ready", OF assms(1-7)])
  from link_ok_bounds [OF torus_link.reachable_ok [OF assms(8) this] assms(9)] show ?thesis by simp
qed

text \<open>
  C18 No wake-up is lost: when a packet at the head of an output queue fits the credits, the output of
  the port has a wake-up scheduled, and when it comes with no control packet waiting and the link
  enabled, a packet is sent.
\<close>
theorem link_no_lost_wakeup:
  assumes "basic_ok rr_ready n a" "basic_ok rr_ready n b" "0 \<le> ia" "0 \<le> ib" "0 \<le> oa" "0 \<le> ob"
    and "link_init (fresh_port n ia oa a i x y) (fresh_port n ib ob b j x' y') = Inr s"
    and "(link_step (basic_arbitrate rr_next rr_satisfied) (torus_route_packet t) (torus_route_packet t'))\<^sup>*\<^sup>* s (p, q)"
    and "v < n" "output_buf p ! v = ev # evs" "ge_flits ev \<le> port_out_credits p ! v"
  shows "pc_wakeups p \<noteq> [] \<and> (ctrl_queue p = [] \<and> \<not> sai_port_disabled p \<longrightarrow>
    (\<exists>p' sent. handle_output (basic_arbitrate rr_next rr_satisfied) cycle (p\<lparr>pc_wakeups := ts\<rparr>) = Inr p' \<and> pc_sent p' = pc_sent p @ [Data sent]))"
proof -
  have s: "link_ok (basic_ok rr_ready) n (ia, ib) (oa, ob) s" by (rule link_init_ok [where ok = "basic_ok rr_ready", OF assms(1-7)])
  have p: "port_ok (basic_ok rr_ready) n oa p" using torus_link.reachable_ok [OF assms(8) s] by (simp add: link_ok_def)
  have f: "fits (output_buf p) (port_out_credits p) False v" using assms(10,11) by (simp add: fits_def)
  then have "pc_wakeups p \<noteq> []" using p assms(9) by (auto simp: port_ok_def wake_ok_def shape_ok_def)
  then show ?thesis using torus_link.handle_output_sends [OF p _ _ assms(9) f] by blast
qed

text \<open>
  C40 On a port to an endpoint the credits fail when a virtual network has more than one channel: the
  arbiter checks the credits of the packet's network, the port charges those of its channel. When
  a channel \<open>w\<close> other than the one numbered \<open>vn\<close> holds packets of network \<open>vn\<close>, each of which alone
  fits the credits of that network, and no other channel has packets, all of them are sent one
  after the other without any credit returned, however many there are, and the credits of the
  network stay as they were while those of the channel fall by all the flits sent.
\<close>
theorem host_port_overruns:
  assumes "shape_ok n p" and "host_port p" and "basic_ok rr_ready n (output_arb p)" and "ctrl_queue p = []" and "\<not> sai_port_disabled p"
    and "vn < n" and "w < n" and "w \<noteq> vn" and "\<forall>u < n. u \<noteq> w \<longrightarrow> output_buf p ! u = []"
    and "\<forall>ev \<in> set (output_buf p ! w). ge_vn ev = int vn \<and> ge_flits ev \<le> port_out_credits p ! vn"
    and "length cycles = length (output_buf p ! w)"
  shows "\<exists>p'. outputs (basic_arbitrate rr_next rr_satisfied) cycles p = Inr p' \<and> pc_sent p' = pc_sent p @ map Data (output_buf p ! w) \<and>
    port_out_credits p' ! vn = port_out_credits p ! vn \<and> port_out_credits p' ! w = port_out_credits p ! w - flits (output_buf p ! w)"
proof -
  have "host_ready (basic_ok rr_ready) n vn w p" using assms(1-7,9,10) by (simp add: host_ready_def)
  from rr.basic.host_outputs_send [OF this assms(8,11)] show ?thesis using assms(1,7,8) by (auto simp: shape_ok_def)
qed

section \<open>Concrete instances\<close>

definition demo_sent :: "(GridEvent, RR BasicArb) link" where
  "demo_sent = (projr (port_send demo_flit 1 (fst demo_link)), snd demo_link)"

lemma demo_arb_ok: "basic_ok rr_ready 2 demo_arb"
  using basic_setup_ok [of "[2]"] by simp

lemma demo_link_start: "link_init (fresh_port 2 4 4 demo_arb 0 False False) (fresh_port 2 4 4 demo_arb 1 False False) = Inr demo_link"
proof -
  obtain s :: "(GridEvent, RR BasicArb) link" where
    "link_init (fresh_port 2 4 4 demo_arb 0 False False) (fresh_port 2 4 4 demo_arb 1 False False) = Inr s"
    using link_init_fresh [where ok = "basic_ok rr_ready", OF demo_arb_ok demo_arb_ok, of 4 4 4 4] by fastforce
  then show ?thesis by (simp add: demo_link_def)
qed

lemma demo_sent_reached:
  "(link_step (basic_arbitrate rr_next rr_satisfied) (torus_route_packet t) (torus_route_packet t'))\<^sup>*\<^sup>* demo_link (fst demo_sent, snd demo_sent)"
proof (rule r_into_rtranclp)
  have "half_step (basic_arbitrate rr_next rr_satisfied) (torus_route_packet t) (torus_route_packet t') (fst demo_link, snd demo_link) (fst demo_sent, snd demo_link)"
    by (rule half_step.accept [of demo_flit 1]) code_simp+
  then show "link_step (basic_arbitrate rr_next rr_satisfied) (torus_route_packet t) (torus_route_packet t') demo_link (fst demo_sent, snd demo_sent)"
    by (simp add: link_step_def demo_sent_def)
qed

lemmas demo_run = demo_arb_ok demo_arb_ok zero_le_numeral zero_le_numeral zero_le_numeral zero_le_numeral demo_link_start demo_sent_reached

theorem link_credits_conserved_witness:
  "port_out_credits (fst demo_sent) ! 1 + sum_list (map (data_flits 1) (pc_sent (fst demo_sent))) + flits (input_buf (snd demo_sent) ! 1) +
     port_ret_credits (snd demo_sent) ! 1 + sum_list (map (credit_flits 1) (pc_sent (snd demo_sent))) = 4"
  by (rule link_credits_conserved [OF demo_run]) simp

theorem link_buffers_bounded_witness:
  "flits (output_buf (fst demo_sent) ! 1) = 2 \<and> flits (output_buf (fst demo_sent) ! 1) \<le> 4"
proof -
  have "flits (output_buf (fst demo_sent) ! 1) = 2" by code_simp
  then show ?thesis using link_buffers_bounded [OF demo_run, of 1] by simp
qed

theorem link_no_lost_wakeup_witness:
  "\<exists>p' sent. handle_output (basic_arbitrate rr_next rr_satisfied) 1 (fst demo_sent) = Inr p' \<and> pc_sent p' = [Data sent]"
proof -
  have o: "output_buf (fst demo_sent) ! 1 = demo_flit # []" "ge_flits demo_flit \<le> port_out_credits (fst demo_sent) ! 1" by code_simp+
  have c: "ctrl_queue (fst demo_sent) = [] \<and> \<not> sai_port_disabled (fst demo_sent)" "pc_sent (fst demo_sent) = []" by code_simp+
  have "(fst demo_sent)\<lparr>pc_wakeups := pc_wakeups (fst demo_sent)\<rparr> = fst demo_sent" by simp
  then show ?thesis using link_no_lost_wakeup [OF demo_run _ o, THEN conjunct2, rule_format, OF _ c(1), of 1 "pc_wakeups (fst demo_sent)"] c(2) by simp
qed

text \<open>An endpoint with room for two flits of network 0 is sent two packets of two flits over channel 1.\<close>

definition demo_host :: "(GridEvent, RR BasicArb) Port" where
  "demo_host = (case bindE (init_receive [Credit 0 2] (initVCs 2 4 4 demo_arb (new_port 0 True True False demo_arb))) (\<lambda>p.
     bindE (port_send demo_flit 1 p) (port_send demo_flit 1)) of Inr p \<Rightarrow> p | Inl _ \<Rightarrow> new_port 0 True True False demo_arb)"

theorem host_port_overruns_witness:
  "\<exists>p'. outputs (basic_arbitrate rr_next rr_satisfied) [1, 3] demo_host = Inr p' \<and> pc_sent p' = [Data demo_flit, Data demo_flit] \<and>
     port_out_credits p' ! 0 = 2 \<and> port_out_credits p' ! 1 = -4"
proof -
  have s: "shape_ok 2 demo_host" by code_simp
  have f: "host_port demo_host" "ctrl_queue demo_host = []" "\<not> sai_port_disabled demo_host" "output_buf demo_host = [[], [demo_flit, demo_flit]]"
    "port_out_credits demo_host = [2, 0]" "pc_sent demo_host = []" "output_arb demo_host = demo_arb" by code_simp+
  show ?thesis
    using host_port_overruns [OF s f(1) _ f(2,3), of 0 1 "[1, 3]"] demo_arb_ok unfolding f(4-7)
    by (simp add: demo_flit_def less_2_cases_iff)
qed

end
