(* ===== verification/Merlin_HrRouter.thy ===== *)
theory Merlin_HrRouter
  imports Merlin_Crossbar Merlin_GridRoute
begin

text \<open>
  The router (\<^verbatim>\<open>merlin/hr_router/hr_router.cc\<close>): the clock handler that arbitrates the crossbar and
  moves the packets between the ports, and the pause of the clock while no packet waits. The ports
  are those of \<open>Merlin_Port\<close>; topology and arbiter are arguments. The construction from parameters,
  \<open>init\<close> and the forwarding of control events are left out.
\<close>

section \<open>The router\<close>

record ('p, 'a, 'x) Router =
  rt_ports :: "('p, 'a) Port list"
  rt_match :: Match
  rt_arb :: 'x
  unclocked_cycle :: u64
  requestNotifyOnEvent :: bool

definition get_vcs_with_data :: "('p, 'a, 'x) Router \<Rightarrow> int" where
  "get_vcs_with_data r = sum_list (map vcs_with_data (rt_ports r))"

definition busy_down :: "int \<Rightarrow> int" where
  "busy_down b = (if b \<noteq> 0 then b - 1 else b)"

text \<open>One turn of the loop that moves the packets.\<close>

definition transfer :: "'e RtrPacket_scheme router \<Rightarrow> (int \<Rightarrow> bool) \<Rightarrow> nat \<Rightarrow> int \<Rightarrow> ('e RtrPacket_scheme, 'a) Port list \<Rightarrow> ('e RtrPacket_scheme, 'a) Port list res" where
  "transfer route isHostPort i vc ports =
     (if vc > -1 then
        bindE (at ports (int i)) (\<lambda>p. bindE (port_recv route isHostPort vc p) (\<lambda>(r, p). case r of None \<Rightarrow> Inl NullDeref | Some ev \<Rightarrow>
        bindE (at (ports[i := p]) (ge_next_port ev)) (\<lambda>q. bindE (port_send ev (ge_vc ev) q) (\<lambda>q.
        Inr (ports[i := p, nat (ge_next_port ev) := q])))))
      else Inr ports)"

fun move_loop :: "'e RtrPacket_scheme router \<Rightarrow> (int \<Rightarrow> bool) \<Rightarrow> nat list \<Rightarrow> ('e RtrPacket_scheme, 'a, 'x) Router \<Rightarrow> ('e RtrPacket_scheme, 'a, 'x) Router res" where
  "move_loop route isHostPort [] r = Inr r"
| "move_loop route isHostPort (i # is) r =
     (let m = rt_match r in
      bindE (at (progress m) (int i)) (\<lambda>vc. bindE (transfer route isHostPort i vc (rt_ports r)) (\<lambda>ports.
      bindE (at (in_busy m) (int i)) (\<lambda>b. bindE (at (out_busy m) (int i)) (\<lambda>b'.
      move_loop route isHostPort is (r\<lparr>rt_ports := ports,
        rt_match := m\<lparr>in_busy := (in_busy m)[i := busy_down b], out_busy := (out_busy m)[i := busy_down b']\<rparr>\<rparr>))))))"

text \<open>The crossbar is arbitrated and the packets are moved.\<close>

definition clock_body :: "('e RtrPacket_scheme, 'a, 'x) xbar_arb \<Rightarrow> 'e RtrPacket_scheme router \<Rightarrow> (int \<Rightarrow> bool) \<Rightarrow>
    ('e RtrPacket_scheme, 'a, 'x) Router \<Rightarrow> ('e RtrPacket_scheme, 'a, 'x) Router res" where
  "clock_body arbitrate route isHostPort r =
     bindE (arbitrate (rt_ports r) (rt_match r) (rt_arb r)) (\<lambda>(m, x).
       move_loop route isHostPort [0..<length (rt_ports r)] (r\<lparr>rt_match := m, rt_arb := x\<rparr>))"

text \<open>The handler returns whether the clock is paused; \<open>okay\<close> is the arbiter's \<open>isOkayToPauseClock\<close>.\<close>

definition clock_handler :: "('e RtrPacket_scheme, 'a, 'x) xbar_arb \<Rightarrow> bool \<Rightarrow> 'e RtrPacket_scheme router \<Rightarrow> (int \<Rightarrow> bool) \<Rightarrow> u64 \<Rightarrow>
    ('e RtrPacket_scheme, 'a, 'x) Router \<Rightarrow> (bool \<times> ('e RtrPacket_scheme, 'a, 'x) Router) res" where
  "clock_handler arbitrate okay route isHostPort cycle r =
     (if get_vcs_with_data r = 0
      then Inr (if okay then (True, r\<lparr>requestNotifyOnEvent := True, unclocked_cycle := cycle\<rparr>) else (False, r))
      else bindE (clock_body arbitrate route isHostPort r) (\<lambda>r. Inr (False, r)))"

text \<open>The clock is started again, at \<open>next_cycle\<close>; the busy counters catch up.\<close>

definition catch_up :: "int \<Rightarrow> int \<Rightarrow> int" where
  "catch_up elapsed b = (let tmp = b - elapsed in if tmp < 0 then 0 else tmp)"

definition notifyEvent :: "(u64 \<Rightarrow> 'x \<Rightarrow> 'x res) \<Rightarrow> u64 \<Rightarrow> ('p, 'a, 'x) Router \<Rightarrow> ('p, 'a, 'x) Router res" where
  "notifyEvent reportSkippedCycles next_cycle r =
     (let elapsed_cycles = next_cycle - unclocked_cycle r; m = rt_match r in
      bindE (reportSkippedCycles elapsed_cycles (rt_arb r)) (\<lambda>x.
      Inr (r\<lparr>requestNotifyOnEvent := False, rt_arb := x,
        rt_match := m\<lparr>in_busy := map (catch_up (sint elapsed_cycles)) (in_busy m), out_busy := map (catch_up (sint elapsed_cycles)) (out_busy m)\<rparr>\<rparr>)))"

section \<open>Invariant\<close>

definition in_flits :: "('e RtrPacket_scheme, 'a) Port \<Rightarrow> int" where
  "in_flits p = sum_list (map flits (input_buf p))"

definition out_flits :: "('e RtrPacket_scheme, 'a) Port \<Rightarrow> int" where
  "out_flits p = sum_list (map flits (output_buf p))"

text \<open>A port of the router, to another router or to an endpoint: \<open>good\<close> packets wait, the heads are routed.\<close>

definition rport_ok :: "('e RtrPacket_scheme \<Rightarrow> bool) \<Rightarrow> nat \<Rightarrow> nat \<Rightarrow> int \<Rightarrow> ('e RtrPacket_scheme, 'a) Port \<Rightarrow> bool" where
  "rport_ok good np n obs p \<longleftrightarrow> shape_ok n p \<and> vcs_with_data p = int (length (filter (\<lambda>q. q \<noteq> []) (input_buf p))) \<and>
     (\<forall>v < n. 0 \<le> xbar_in_credits p ! v \<and> xbar_in_credits p ! v + flits (output_buf p ! v) = obs \<and>
       (\<forall>ev \<in> set (output_buf p ! v). 1 \<le> ge_flits ev) \<and> (\<forall>ev \<in> set (input_buf p ! v). good ev) \<and> (input_buf p ! v \<noteq> [] \<longrightarrow> routed np n (hd (input_buf p ! v))) \<and>
       vc_heads p ! v = (if input_buf p ! v = [] then None else Some (hd (input_buf p ! v))))"

definition router_ok :: "('e RtrPacket_scheme \<Rightarrow> bool) \<Rightarrow> (nat \<Rightarrow> nat \<Rightarrow> 'x \<Rightarrow> bool) \<Rightarrow> nat \<Rightarrow> nat \<Rightarrow> int \<Rightarrow> ('e RtrPacket_scheme, 'a, 'x) Router \<Rightarrow> bool" where
  "router_ok good xok np n obs r \<longleftrightarrow> length (rt_ports r) = np \<and> (\<forall>p \<in> set (rt_ports r). rport_ok good np n obs p) \<and>
     sizes np (rt_match r) \<and> (\<forall>b \<in> set (in_busy (rt_match r)) \<union> set (out_busy (rt_match r)). 0 \<le> b) \<and> xok np n (rt_arb r)"

definition total_flits :: "('e RtrPacket_scheme, 'a) Port list \<Rightarrow> int" where
  "total_flits ports = sum_list (map (\<lambda>p. in_flits p + out_flits p) ports)"

lemma sum_flits_update:
  "i < length xs \<Longrightarrow> sum_list (map f (xs[i := x])) = sum_list (map f xs) + f x - (f (xs ! i) :: int)"
proof (induction xs arbitrary: i)
  case (Cons y ys)
  then show ?case by (cases i) auto
qed simp

locale router_core = crossbar_arbitration arbitrate xok
  for arbitrate :: "('e RtrPacket_scheme, 'a, 'x) xbar_arb" and xok :: "nat \<Rightarrow> nat \<Rightarrow> 'x \<Rightarrow> bool" +
  fixes route :: "'e RtrPacket_scheme router" and good :: "'e RtrPacket_scheme \<Rightarrow> bool" and np n :: nat
  assumes routes: "good ev \<Longrightarrow> \<exists>ev'. route pn (ge_vc ev) ev = Inr ev' \<and> good ev' \<and> routed np n ev' \<and> ge_flits ev' = ge_flits ev"
    and good_credit: "good ev \<Longrightarrow> 0 \<le> ge_credit_vc ev \<and> ge_credit_vc ev < int n"
begin

lemma recv_head:
  assumes "rport_ok good np n obs p" "v < n" "vc_heads p ! v = Some ev"
  shows "\<exists>p'. port_recv route isHostPort (int v) p = Inr (Some ev, p') \<and> rport_ok good np n obs p' \<and>
    xbar_in_credits p' = xbar_in_credits p \<and> output_buf p' = output_buf p \<and> in_flits p' = in_flits p - ge_flits ev"
proof -
  have s: "shape_ok n p" using assms(1) by (simp add: rport_ok_def)
  have len: "length (input_buf p) = n" "length (vc_heads p) = n" "length (port_ret_credits p) = n" using s by (auto simp: shape_ok_def)
  obtain rest where q: "input_buf p ! v = ev # rest" using assms by (cases "input_buf p ! v") (auto simp: rport_ok_def)
  have g: "good ev" "\<forall>e \<in> set rest. good e" using assms(1,2) q by (auto simp: rport_ok_def)
  let ?ret = "if isHostPort (port_number p) then ge_credit_vc ev else int v"
  have "0 \<le> ?ret" "?ret < int n" using good_credit [OF g(1)] assms(2) by auto
  then obtain w where w: "?ret = int w" "w < n" by (rule channel_index)
  obtain rest' where r: "flits rest' = flits rest" "\<forall>e \<in> set rest'. good e" "rest' = [] \<longleftrightarrow> rest = []" "rest' \<noteq> [] \<longrightarrow> routed np n (hd rest')"
    "port_recv route isHostPort (int v) p = Inr (Some ev, p\<lparr>input_buf := (input_buf p)[v := rest'],
       vc_heads := (vc_heads p)[v := (if rest' = [] then None else Some (hd rest'))],
       vcs_with_data := vcs_with_data p - (if rest' = [] then 1 else 0), port_ret_credits := (port_ret_credits p)[w := 0],
       pc_sent := pc_sent p @ [Credit ?ret (port_ret_credits p ! w + ge_flits ev)]\<rparr>)"
  proof (cases rest)
    case Nil
    then show ?thesis using that [of "[]"] q w len assms(2) by (auto simp: port_recv_def Let_def)
  next
    case (Cons x xs)
    obtain e where e: "route (port_number p) (ge_vc x) x = Inr e" "good e" "routed np n e" "ge_flits e = ge_flits x" using routes [of x] g(2) Cons by auto
    then show ?thesis using that [of "e # xs"] q Cons g(2) w len assms(2) by (auto simp: port_recv_def Let_def)
  qed
  let ?p = "p\<lparr>input_buf := (input_buf p)[v := rest'], vc_heads := (vc_heads p)[v := (if rest' = [] then None else Some (hd rest'))],
       vcs_with_data := vcs_with_data p - (if rest' = [] then 1 else 0), port_ret_credits := (port_ret_credits p)[w := 0],
       pc_sent := pc_sent p @ [Credit ?ret (port_ret_credits p ! w + ge_flits ev)]\<rparr>"
  have "rport_ok good np n obs ?p" using assms(1,2) q r(2,4) s by (auto simp: rport_ok_def shape_ok_def count_nonempty nth_list_update)
  moreover have "in_flits ?p = in_flits p - ge_flits ev" using q r(1) len assms(2) by (simp add: in_flits_def sum_flits_update)
  ultimately show ?thesis using r(5) by (intro exI [of _ ?p]) simp
qed

lemma send_room:
  assumes "rport_ok good np n obs q" "w < n" "ge_flits ev \<le> xbar_in_credits q ! w" "1 \<le> ge_flits ev"
  shows "\<exists>q'. port_send ev (int w) q = Inr q' \<and> rport_ok good np n obs q' \<and> vc_heads q' = vc_heads q \<and>
    in_flits q' = in_flits q \<and> out_flits q' = out_flits q + ge_flits ev"
proof -
  have s: "shape_ok n q" using assms(1) by (simp add: rport_ok_def)
  have len: "length (output_buf q) = n" "length (xbar_in_credits q) = n" using s by (auto simp: shape_ok_def)
  let ?p = "q\<lparr>xbar_in_credits := (xbar_in_credits q)[w := xbar_in_credits q ! w - ge_flits ev]\<rparr>"
  have "length (output_queue_lengths ?p) = n" using s by (simp add: shape_ok_def)
  then obtain l where l: "oql_change (ge_flits ev) (int w) ?p = Inr (?p\<lparr>output_queue_lengths := l\<rparr>)" "length l = n" using assms(2) by (rule oql_change_ok)
  let ?q = "?p\<lparr>output_queue_lengths := l, output_buf := (output_buf q)[w := output_buf q ! w @ [ev\<lparr>ge_vc := int w\<rparr>]]\<rparr>"
  have wake: "rport_ok good np n obs (wake ?q) = rport_ok good np n obs ?q" "vc_heads (wake ?q) = vc_heads ?q" "in_flits (wake ?q) = in_flits ?q"
    "out_flits (wake ?q) = out_flits ?q" by (simp_all add: wake_def rport_ok_def shape_ok_def in_flits_def out_flits_def)
  have "port_send ev (int w) q = Inr (wake ?q)" using l(1) len assms(2) by (simp add: port_send_def)
  moreover have "rport_ok good np n obs ?q" using assms s l(2) by (auto simp: rport_ok_def shape_ok_def nth_list_update)
  moreover have "in_flits ?q = in_flits q" "out_flits ?q = out_flits q + ge_flits ev" using len assms(2) by (simp_all add: in_flits_def out_flits_def sum_flits_update)
  ultimately show ?thesis using wake by (intro exI [of _ "wake ?q"]) simp
qed

text \<open>The transfers that are still to be made, from port \<open>k\<close> on.\<close>

definition pending :: "nat \<Rightarrow> ('e RtrPacket_scheme, 'a) Port list \<Rightarrow> Match \<Rightarrow> bool" where
  "pending k ports m \<longleftrightarrow> (\<forall>i < np. k \<le> i \<and> 0 \<le> progress m ! i \<longrightarrow> (\<exists>ev. moves n ports m i ev \<and> room ports ev)) \<and>
     (\<forall>i < np. \<forall>j < np. \<forall>ev ev'. k \<le> i \<and> k \<le> j \<and> moves n ports m i ev \<and> moves n ports m j ev' \<and> nx ev = nx ev' \<longrightarrow> i = j)"

abbreviation ports_ok :: "int \<Rightarrow> ('e RtrPacket_scheme, 'a) Port list \<Rightarrow> bool" where
  "ports_ok obs ports \<equiv> length ports = np \<and> (\<forall>p \<in> set ports. rport_ok good np n obs p)"

abbreviation waiting_flits :: "('e RtrPacket_scheme, 'a) Port list \<Rightarrow> int" where
  "waiting_flits ports \<equiv> sum_list (map in_flits ports)"

lemma heads_routed:
  assumes "ports_ok obs ports" shows "heads_ok np n ports"
proof -
  have p: "rport_ok good np n obs (ports ! i)" if "i < np" for i using assms that by auto
  have "routed np n ev" if "i < np" "v < n" "head ports i v = Some ev" for i v ev
    using p [OF that(1)] that(2,3) by (cases "input_buf (ports ! i) ! v = []") (auto simp: rport_ok_def)
  then show ?thesis using assms by (auto simp: heads_ok_def rport_ok_def shape_ok_def)
qed

text \<open>What one transfer leaves alone: the heads of the other ports, the credits of the other outputs.\<close>

lemma transfer_ok:
  assumes ok: "ports_ok obs ports" and pend: "pending k ports m" and k: "k < np" and mv: "0 \<le> progress m ! k"
  shows "\<exists>ports'. transfer route isHostPort k (progress m ! k) ports = Inr ports' \<and> ports_ok obs ports' \<and> pending (Suc k) ports' m \<and>
    total_flits ports' = total_flits ports \<and> waiting_flits ports' < waiting_flits ports"
proof -
  obtain ev where ev: "moves n ports m k ev" "room ports ev" using pend k mv by (auto simp: pending_def)
  have r: "routed np n ev" by (rule moves_routed [OF heads_routed [OF ok] k ev(1)])
  have "0 \<le> progress m ! k" "progress m ! k < int n" using ev(1) by (auto simp: moves_def)
  then obtain v where v: "progress m ! k = int v" "v < n" by (rule channel_index)
  then have vh: "head ports k v = Some ev" using ev(1) by (simp add: moves_def)
  have "0 \<le> ge_vc ev" "ge_vc ev < int n" using r by (auto simp: routed_def)
  then obtain c where c: "ge_vc ev = int c" "c < n" by (rule channel_index)
  have nx: "nx ev < np" "ge_next_port ev = int (nx ev)" using r by (auto simp: routed_def nat_less_iff)
  have pk: "rport_ok good np n obs (ports ! k)" using ok k by auto
  obtain p where p: "port_recv route isHostPort (int v) (ports ! k) = Inr (Some ev, p)" "rport_ok good np n obs p"
    "xbar_in_credits p = xbar_in_credits (ports ! k)" "output_buf p = output_buf (ports ! k)" "in_flits p = in_flits (ports ! k) - ge_flits ev"
    using recv_head [OF pk v(2) vh] by blast
  let ?ps = "ports[k := p]"
  have ps: "ports_ok obs ?ps" using ok p(2) set_update_subset_insert [of ports k p] by auto
  have cr: "xbar_in_credits (?ps ! j) = xbar_in_credits (ports ! j)" for j using p(3) k ok by (cases "j = k") auto
  have "ge_flits ev \<le> xbar_in_credits (?ps ! nx ev) ! c" using ev(2) c(1) by (simp add: room_def cr)
  then obtain q where q: "port_send ev (int c) (?ps ! nx ev) = Inr q" "rport_ok good np n obs q" "vc_heads q = vc_heads (?ps ! nx ev)"
    "in_flits q = in_flits (?ps ! nx ev)" "out_flits q = out_flits (?ps ! nx ev) + ge_flits ev"
    using send_room [of obs "?ps ! nx ev" c ev] ps nx(1) c(2) r by (auto simp: routed_def)
  let ?qs = "?ps[nx ev := q]"
  have at: "at ?ps (ge_next_port ev) = Inr (?ps ! nx ev)" using nx ps by (metis at_nat)
  have t: "transfer route isHostPort k (progress m ! k) ports = Inr ?qs"
    using p(1) q(1) k ok v(1) c(1) at by (simp add: transfer_def)
  have qs: "ports_ok obs ?qs" using ps q(2) set_update_subset_insert [of ?ps "nx ev" q] by auto
  have hd: "vc_heads (?qs ! i) = vc_heads (ports ! i)" if "i \<noteq> k" for i using that q(3) nx(1) ok k by (cases "i = nx ev") auto
  have mv: "moves n ?qs m i e = moves n ports m i e" if "i \<noteq> k" for i e using hd [OF that] by (simp add: moves_def)
  have rm: "room ?qs e = room ports e" if "nx e \<noteq> nx ev" for e using that cr [of "nx e"] by (simp add: room_def)
  have "pending (Suc k) ?qs m" unfolding pending_def
  proof (intro conjI allI impI)
    fix i assume i: "i < np" "Suc k \<le> i \<and> 0 \<le> progress m ! i"
    then obtain e where e: "moves n ports m i e" "room ports e" using pend by (auto simp: pending_def)
    have "nx e \<noteq> nx ev" using conjunct2 [OF pend [unfolded pending_def], rule_format, of i k e ev] i k e(1) ev(1) by auto
    then show "\<exists>e. moves n ?qs m i e \<and> room ?qs e" using e mv [of i e] rm [of e] i(2) by auto
  next
    fix i j e e' assume "i < np" "j < np" "Suc k \<le> i \<and> Suc k \<le> j \<and> moves n ?qs m i e \<and> moves n ?qs m j e' \<and> nx e = nx e'"
    then show "i = j" using conjunct2 [OF pend [unfolded pending_def], rule_format, of i j e e'] mv [of i e] mv [of j e'] by auto
  qed
  moreover have "total_flits ?qs = total_flits ports" "waiting_flits ?qs < waiting_flits ports"
    using p(4,5) q(4,5) nx(1) k ok r by (auto simp: total_flits_def sum_flits_update out_flits_def routed_def nth_list_update)
  ultimately show ?thesis using t qs by blast
qed

text \<open>The loop from port \<open>k\<close> on.\<close>

lemma move_loop_ok:
  assumes "ports_ok obs (rt_ports r)" "pending k (rt_ports r) (rt_match r)" "sizes np (rt_match r)" "k \<le> np"
  shows "\<exists>ports. move_loop route isHostPort [k..<np] r = Inr (r\<lparr>rt_ports := ports, rt_match := (rt_match r)\<lparr>
      in_busy := take k (in_busy (rt_match r)) @ map busy_down (drop k (in_busy (rt_match r))),
      out_busy := take k (out_busy (rt_match r)) @ map busy_down (drop k (out_busy (rt_match r)))\<rparr>\<rparr>) \<and>
    ports_ok obs ports \<and> total_flits ports = total_flits (rt_ports r) \<and>
    (if \<exists>i < np. k \<le> i \<and> 0 \<le> progress (rt_match r) ! i then waiting_flits ports < waiting_flits (rt_ports r) else ports = rt_ports r)"
  using assms
proof (induction "np - k" arbitrary: k r)
  case 0
  then show ?case by (intro exI [of _ "rt_ports r"]) (auto simp: sizes_def)
next
  case (Suc d)
  let ?m = "rt_match r"
  have k: "k < np" and upt: "[k..<np] = k # [Suc k..<np]" using Suc.hyps(2) by (auto simp: upt_conv_Cons)
  have len: "length (in_busy ?m) = np" "length (out_busy ?m) = np" "length (progress ?m) = np" using Suc.prems(3) by (auto simp: sizes_def)
  obtain ports where t: "transfer route isHostPort k (progress ?m ! k) (rt_ports r) = Inr ports" "ports_ok obs ports" "pending (Suc k) ports ?m"
    "total_flits ports = total_flits (rt_ports r)"
    "if 0 \<le> progress ?m ! k then waiting_flits ports < waiting_flits (rt_ports r) else ports = rt_ports r"
  proof (cases "0 \<le> progress ?m ! k")
    case True
    then show ?thesis using transfer_ok [OF Suc.prems(1,2) k] that by auto
  next
    case False
    have "pending (Suc k) (rt_ports r) ?m" using Suc.prems(2) by (auto simp: pending_def)
    then show ?thesis using that [of "rt_ports r"] False Suc.prems(1) by (simp add: transfer_def)
  qed
  let ?m1 = "?m\<lparr>in_busy := (in_busy ?m)[k := busy_down (in_busy ?m ! k)], out_busy := (out_busy ?m)[k := busy_down (out_busy ?m ! k)]\<rparr>"
  let ?r1 = "r\<lparr>rt_ports := ports, rt_match := ?m1\<rparr>"
  have step: "move_loop route isHostPort [k..<np] r = move_loop route isHostPort [Suc k..<np] ?r1"
    using t(1) k len unfolding upt by (simp add: Let_def)
  have pend: "pending (Suc k) ports ?m1" using t(3) by (simp add: pending_def moves_def)
  have sz: "sizes np ?m1" using Suc.prems(3) by (simp add: sizes_def)
  have busy: "take (Suc k) (bs[k := busy_down (bs ! k)]) @ map busy_down (drop (Suc k) (bs[k := busy_down (bs ! k)])) = take k bs @ map busy_down (drop k bs)"
    if "length bs = np" for bs using that k by (simp add: take_Suc_conv_app_nth Cons_nth_drop_Suc [symmetric])
  have ih: "d = np - Suc k" "ports_ok obs (rt_ports ?r1)" "pending (Suc k) (rt_ports ?r1) (rt_match ?r1)" "sizes np (rt_match ?r1)" "Suc k \<le> np"
    using Suc.hyps(2) t(2) pend sz k by simp_all
  obtain ports' where p': "move_loop route isHostPort [Suc k..<np] ?r1 = Inr (?r1\<lparr>rt_ports := ports', rt_match := (rt_match ?r1)\<lparr>
      in_busy := take (Suc k) (in_busy (rt_match ?r1)) @ map busy_down (drop (Suc k) (in_busy (rt_match ?r1))),
      out_busy := take (Suc k) (out_busy (rt_match ?r1)) @ map busy_down (drop (Suc k) (out_busy (rt_match ?r1)))\<rparr>\<rparr>)"
    "ports_ok obs ports'" "total_flits ports' = total_flits (rt_ports ?r1)"
    "if \<exists>i < np. Suc k \<le> i \<and> 0 \<le> progress (rt_match ?r1) ! i then waiting_flits ports' < waiting_flits (rt_ports ?r1) else ports' = rt_ports ?r1"
    using Suc.hyps(1) [OF ih] by blast
  have b: "take (Suc k) (in_busy (rt_match ?r1)) @ map busy_down (drop (Suc k) (in_busy (rt_match ?r1))) = take k (in_busy ?m) @ map busy_down (drop k (in_busy ?m))"
    "take (Suc k) (out_busy (rt_match ?r1)) @ map busy_down (drop (Suc k) (out_busy (rt_match ?r1))) = take k (out_busy ?m) @ map busy_down (drop k (out_busy ?m))"
    using busy [OF len(1)] busy [OF len(2)] by simp_all
  have ex: "(\<exists>i < np. k \<le> i \<and> 0 \<le> progress ?m ! i) \<longleftrightarrow> 0 \<le> progress ?m ! k \<or> (\<exists>i < np. Suc k \<le> i \<and> 0 \<le> progress ?m ! i)"
    using k le_eq_less_or_eq [of k] by (auto simp: Suc_le_eq)
  have w: "if 0 \<le> progress ?m ! k \<or> (\<exists>i < np. Suc k \<le> i \<and> 0 \<le> progress ?m ! i) then waiting_flits ports' < waiting_flits (rt_ports r) else ports' = rt_ports r"
    using p'(4) t(5) by (auto split: if_splits)
  show ?case unfolding step ex using p'(1,2,3) t(4) w unfolding b by (intro exI [of _ ports']) simp
qed

lemma matched_pending: "all_matched np n ports m0 m \<Longrightarrow> pending 0 ports m"
  using matchedD [of np n ports m0 "{..<np}" "{..<np} \<times> {..<n}" m] by (fastforce simp: pending_def)

lemma busy_down_nonneg: "0 \<le> b \<Longrightarrow> 0 \<le> busy_down b"
  by (simp add: busy_down_def)

text \<open>Something moves when a head could.\<close>

lemma matched_moves:
  assumes "all_matched np n ports m0 m" "i < np" "v < n" "head ports i v = Some ev" "routed np n ev" "in_busy m0 ! i \<le> 0" "out_busy m0 ! nx ev \<le> 0" "room ports ev"
  shows "\<exists>j < np. 0 \<le> progress m ! j"
proof -
  note d = matchedD [OF assms(1)]
  have nx: "nx ev < np" using assms(5) by (auto simp: routed_def nat_less_iff)
  from d(7) [of i v ev] assms consider "0 \<le> progress m ! i" | "0 < out_busy m ! nx ev" by auto
  then show ?thesis
  proof cases
    case 2
    then obtain j e where "j < np" "moves n ports m j e" using d(6) [OF nx] assms(7) by auto
    then show ?thesis by (auto simp: moves_def)
  qed (use assms(2) in blast)
qed

lemma matched_busy:
  assumes "all_matched np n ports m0 m" "heads_ok np n ports" "sizes np m0" "\<forall>b \<in> set (in_busy m0) \<union> set (out_busy m0). 0 \<le> b"
  shows "\<forall>b \<in> set (in_busy m) \<union> set (out_busy m). 0 \<le> b"
proof -
  note d = matchedD [OF assms(1)]
  have len: "length (in_busy m) = np" "length (out_busy m) = np" "length (in_busy m0) = np" "length (out_busy m0) = np" using d(1) assms(3) by (auto simp: sizes_def)
  have pos: "in_busy m ! i = ge_flits ev \<and> out_busy m ! nx ev = ge_flits ev \<and> 1 \<le> ge_flits ev" if "i < np" "moves n ports m i ev" for i ev
    using d(3) [OF that(1) _ that(2)] moves_routed [OF assms(2) that] that(1) by (auto simp: routed_def)
  have "0 \<le> in_busy m ! i \<and> 0 \<le> out_busy m ! i" if i: "i < np" for i
  proof
    have "0 \<le> in_busy m0 ! i" "0 \<le> out_busy m0 ! i" using assms(4) len i by auto
    then show "0 \<le> in_busy m ! i" "0 \<le> out_busy m ! i" using d(2,4) [OF i] d(6) [OF i] pos i by fastforce+
  qed
  then show ?thesis using len by (auto simp: in_set_conv_nth)
qed

lemma clock_body_ok:
  assumes "router_ok good xok np n obs r"
  shows "\<exists>m x ports. arbitrate (rt_ports r) (rt_match r) (rt_arb r) = Inr (m, x) \<and> all_matched np n (rt_ports r) (rt_match r) m \<and>
    clock_body arbitrate route isHostPort r = Inr (r\<lparr>rt_ports := ports, rt_match := m\<lparr>in_busy := map busy_down (in_busy m), out_busy := map busy_down (out_busy m)\<rparr>, rt_arb := x\<rparr>) \<and>
    router_ok good xok np n obs (r\<lparr>rt_ports := ports, rt_match := m\<lparr>in_busy := map busy_down (in_busy m), out_busy := map busy_down (out_busy m)\<rparr>, rt_arb := x\<rparr>) \<and>
    total_flits ports = total_flits (rt_ports r) \<and>
    (if \<exists>i < np. 0 \<le> progress m ! i then waiting_flits ports < waiting_flits (rt_ports r) else ports = rt_ports r)"
proof -
  have ok: "ports_ok obs (rt_ports r)" "sizes np (rt_match r)" "xok np n (rt_arb r)" "\<forall>b \<in> set (in_busy (rt_match r)) \<union> set (out_busy (rt_match r)). 0 \<le> b"
    using assms by (auto simp: router_ok_def)
  note h = heads_routed [OF ok(1)]
  obtain m x where m: "arbitrate (rt_ports r) (rt_match r) (rt_arb r) = Inr (m, x)" "xok np n x" "all_matched np n (rt_ports r) (rt_match r) m"
    using matching [OF ok(3) h ok(2)] by blast
  let ?r = "r\<lparr>rt_match := m, rt_arb := x\<rparr>"
  have s: "sizes np m" by (rule matchedD(1) [OF m(3)])
  have sel: "rt_ports ?r = rt_ports r" "rt_match ?r = m" by simp_all
  obtain ports where p: "move_loop route isHostPort [0..<np] ?r = Inr (?r\<lparr>rt_ports := ports, rt_match := m\<lparr>in_busy := map busy_down (in_busy m), out_busy := map busy_down (out_busy m)\<rparr>\<rparr>)"
    "ports_ok obs ports" "total_flits ports = total_flits (rt_ports r)"
    "if \<exists>i < np. 0 \<le> progress m ! i then waiting_flits ports < waiting_flits (rt_ports r) else ports = rt_ports r"
    using move_loop_ok [of ?r obs 0 isHostPort, unfolded sel take_0 drop_0 append.simps, OF ok(1) matched_pending [OF m(3)] s le0] by auto
  have "\<forall>b \<in> busy_down ` set (in_busy m) \<union> busy_down ` set (out_busy m). 0 \<le> b"
    using matched_busy [OF m(3) h ok(2,4)] by (auto intro: busy_down_nonneg)
  then have "router_ok good xok np n obs (?r\<lparr>rt_ports := ports, rt_match := m\<lparr>in_busy := map busy_down (in_busy m), out_busy := map busy_down (out_busy m)\<rparr>\<rparr>)"
    using p(2) s m(2) by (auto simp: router_ok_def sizes_def)
  moreover have "?r\<lparr>rt_ports := ports, rt_match := m\<lparr>in_busy := map busy_down (in_busy m), out_busy := map busy_down (out_busy m)\<rparr>\<rparr> =
      r\<lparr>rt_ports := ports, rt_match := m\<lparr>in_busy := map busy_down (in_busy m), out_busy := map busy_down (out_busy m)\<rparr>, rt_arb := x\<rparr>" by (cases r) simp
  moreover have "clock_body arbitrate route isHostPort r = move_loop route isHostPort [0..<np] ?r" using m(1) ok(1) by (simp add: clock_body_def)
  ultimately show ?thesis using m(1,3) p(1,3,4) by metis
qed

lemma no_data_no_heads:
  fixes r :: "('e RtrPacket_scheme, 'a, 'x) Router"
  assumes "router_ok good xok np n obs r" "get_vcs_with_data r = 0" "i < np" "v < n"
  shows "head (rt_ports r) i v = None"
proof -
  have ok: "ports_ok obs (rt_ports r)" using assms(1) by (simp add: router_ok_def)
  have nn: "0 \<le> c" if "c \<in> set (map vcs_with_data (rt_ports r))" for c using that ok by (auto simp: rport_ok_def)
  have p: "rport_ok good np n obs (rt_ports r ! i)" using ok assms(3) by auto
  have "vcs_with_data (rt_ports r ! i) = 0"
    using sum_list_nonneg_eq_0_iff [of "map vcs_with_data (rt_ports r)"] nn assms(2,3) ok by (auto simp: get_vcs_with_data_def)
  then have "filter (\<lambda>q. q \<noteq> []) (input_buf (rt_ports r ! i)) = []" using p by (simp add: rport_ok_def)
  then have "input_buf (rt_ports r ! i) ! v = []" using p assms(4) by (auto simp: rport_ok_def shape_ok_def filter_empty_conv)
  then show ?thesis using p assms(4) by (simp add: rport_ok_def)
qed

lemma clock_handler_ok:
  assumes "router_ok good xok np n obs r"
  shows "\<exists>paused r'. clock_handler arbitrate okay route isHostPort cycle r = Inr (paused, r') \<and> router_ok good xok np n obs r' \<and>
    total_flits (rt_ports r') = total_flits (rt_ports r) \<and> (paused \<longrightarrow> (\<forall>i < np. \<forall>v < n. head (rt_ports r) i v = None)) \<and>
    ((\<exists>i < np. \<exists>v < n. \<exists>ev. head (rt_ports r) i v = Some ev \<and> in_busy (rt_match r) ! i = 0 \<and> out_busy (rt_match r) ! nx ev = 0 \<and> room (rt_ports r) ev) \<longrightarrow>
      waiting_flits (rt_ports r') < waiting_flits (rt_ports r))"
proof (cases "get_vcs_with_data r = 0")
  case True
  then show ?thesis using assms no_data_no_heads [OF assms True] by (auto simp: clock_handler_def router_ok_def)
next
  case False
  obtain m x ports where c: "all_matched np n (rt_ports r) (rt_match r) m"
    "clock_body arbitrate route isHostPort r = Inr (r\<lparr>rt_ports := ports, rt_match := m\<lparr>in_busy := map busy_down (in_busy m), out_busy := map busy_down (out_busy m)\<rparr>, rt_arb := x\<rparr>)"
    "router_ok good xok np n obs (r\<lparr>rt_ports := ports, rt_match := m\<lparr>in_busy := map busy_down (in_busy m), out_busy := map busy_down (out_busy m)\<rparr>, rt_arb := x\<rparr>)"
    "total_flits ports = total_flits (rt_ports r)"
    "if \<exists>i < np. 0 \<le> progress m ! i then waiting_flits ports < waiting_flits (rt_ports r) else ports = rt_ports r"
    using clock_body_ok [OF assms, of isHostPort] by blast
  have "routed np n ev" if "i < np" "v < n" "head (rt_ports r) i v = Some ev" for i v ev
    using heads_routed [of "rt_ports r" obs] assms that by (auto simp: router_ok_def heads_ok_def)
  then have "waiting_flits ports < waiting_flits (rt_ports r)"
    if "\<exists>i < np. \<exists>v < n. \<exists>ev. head (rt_ports r) i v = Some ev \<and> in_busy (rt_match r) ! i = 0 \<and> out_busy (rt_match r) ! nx ev = 0 \<and> room (rt_ports r) ev"
    using matched_moves [OF c(1)] that c(5) by (metis order_refl)
  moreover have "clock_handler arbitrate okay route isHostPort cycle r = Inr (False, r\<lparr>rt_ports := ports, rt_match := m\<lparr>in_busy := map busy_down (in_busy m), out_busy := map busy_down (out_busy m)\<rparr>, rt_arb := x\<rparr>)"
    using False c(2) by (simp add: clock_handler_def)
  ultimately show ?thesis using c(3,4) by (intro exI conjI) (assumption | simp)+
qed

end

section \<open>What the ports do between the cycles\<close>

context router_core
begin

lemma arrival_ok:
  assumes "rport_ok good np n obs p" "good ev" "0 \<le> ge_vc ev" "ge_vc ev < int n"
  shows "\<exists>p'. data_arrives route ev p = Inr p' \<and> rport_ok good np n obs p' \<and> in_flits p' = in_flits p + ge_flits ev \<and> out_flits p' = out_flits p"
proof -
  have s: "shape_ok n p" using assms(1) by (simp add: rport_ok_def)
  have len: "length (input_buf p) = n" "length (input_buf_count p) = n" "length (vc_heads p) = n" using s by (auto simp: shape_ok_def)
  obtain w where w: "ge_vc ev = int w" "w < n" using assms(3,4) by (rule channel_index)
  let ?q = "input_buf p ! w"
  have h: "vc_heads p ! w = (if ?q = [] then None else Some (hd ?q))" using assms(1) w by (simp add: rport_ok_def)
  obtain e where e: "good e" "ge_flits e = ge_flits ev" "?q = [] \<longrightarrow> routed np n e"
    "data_arrives route ev p = Inr (p\<lparr>input_buf := (input_buf p)[w := ?q @ [e]], input_buf_count := (input_buf_count p)[w := input_buf_count p ! w + 1],
      vc_heads := (vc_heads p)[w := Some (hd (?q @ [e]))], vcs_with_data := vcs_with_data p + (if ?q = [] then 1 else 0)\<rparr>)"
  proof (cases "?q = []")
    case True
    obtain e where "route (port_number p) (ge_vc ev) ev = Inr e" "good e" "routed np n e" "ge_flits e = ge_flits ev" using routes [OF assms(2)] by blast
    then show ?thesis using that [of e] True w len h by (simp add: data_arrives_def Let_def)
  next
    case False
    then have "(vc_heads p)[w := Some (hd ?q)] = vc_heads p" using h by (metis list_update_id)
    then show ?thesis using that [of ev] False assms(2) w len h by (simp add: data_arrives_def Let_def)
  qed
  let ?p = "p\<lparr>input_buf := (input_buf p)[w := ?q @ [e]], input_buf_count := (input_buf_count p)[w := input_buf_count p ! w + 1],
      vc_heads := (vc_heads p)[w := Some (hd (?q @ [e]))], vcs_with_data := vcs_with_data p + (if ?q = [] then 1 else 0)\<rparr>"
  have "rport_ok good np n obs ?p" using assms(1) s w e by (auto simp: rport_ok_def shape_ok_def count_nonempty nth_list_update)
  moreover have "in_flits ?p = in_flits p + ge_flits ev" "out_flits ?p = out_flits p" using e(2) len w by (simp_all add: in_flits_def out_flits_def sum_flits_update)
  ultimately show ?thesis using e(4) by (intro exI [of _ ?p]) simp
qed

lemma oql_keeps: "oql_change d vc p = Inr p' \<Longrightarrow> rport_ok good np n obs p \<Longrightarrow> rport_ok good np n obs p'"
  by (auto simp: oql_change_def rport_ok_def shape_ok_def bindE_eq_Inr_iff upd_Inr split: if_splits)

lemma wake_keeps: "rport_ok good np n obs (wake p) = rport_ok good np n obs p"
  by (simp add: wake_def rport_ok_def shape_ok_def)

lemma credit_ok: "credit_arrives vc c p = Inr p' \<Longrightarrow> rport_ok good np n obs p \<Longrightarrow> rport_ok good np n obs p'"
  by (auto simp: credit_arrives_def rport_ok_def shape_ok_def bindE_eq_Inr_iff upd_Inr)

text \<open>Whatever the output arbiter answers, a packet that is sent gives its space back.\<close>

lemma output_ok:
  assumes "handle_output arb cycle p = Inr p'" "rport_ok good np n obs p"
  shows "rport_ok good np n obs p'"
proof (cases "ctrl_queue p")
  case (Cons c cs)
  then show ?thesis using assms by (auto simp: handle_output_def rport_ok_def shape_ok_def)
next
  case Nil
  obtain vc a h where p1: "bindE (Inr (vc, p\<lparr>output_arb := a, have_packets := h\<rparr>)) (\<lambda>(vc, p).
       if vc = -1 then Inr (p\<lparr>waiting := True, pc_wakeups := pc_wakeups p @ (if sai_port_disabled p then [1] else [])\<rparr>)
       else bindE (at (output_buf p) vc) (\<lambda>q. case q of [] \<Rightarrow> Inl OutOfRange | ev # rest \<Rightarrow>
         let sz = ge_flits ev in
         bindE (upd (\<lambda>x. x + sz) (xbar_in_credits p) vc) (\<lambda>xc.
         bindE (oql_release sz vc (p\<lparr>output_buf := (output_buf p)[nat vc := rest], xbar_in_credits := xc\<rparr>)) (\<lambda>p.
         bindE (upd (\<lambda>x. x - sz) (port_out_credits p) vc) (\<lambda>oc. bindE (upd (\<lambda>x. x + 1) (output_buf_count p) vc) (\<lambda>n.
         Inr (p\<lparr>port_out_credits := oc, output_buf_count := n, pc_wakeups := pc_wakeups p @ [sz], pc_sent := pc_sent p @ [Data ev]\<rparr>))))))) = Inr p'"
  proof (cases "sai_port_disabled p")
    case True
    then show ?thesis using that [of "-1" "have_packets p" "output_arb p"] assms(1) Nil by (simp add: handle_output_def)
  next
    case False
    then obtain vc h a where "arb cycle (output_buf p) (port_out_credits p) (host_port p) (output_arb p) = Inr (vc, h, a)"
      using assms(1) Nil by (cases "arb cycle (output_buf p) (port_out_credits p) (host_port p) (output_arb p)") (auto simp: handle_output_def)
    then show ?thesis using that [of vc h a] assms(1) Nil False by (simp add: handle_output_def)
  qed
  let ?p = "p\<lparr>output_arb := a, have_packets := h\<rparr>"
  have ok: "rport_ok good np n obs ?p" using assms(2) by (simp add: rport_ok_def shape_ok_def)
  show ?thesis
  proof (cases "vc = -1")
    case True
    then show ?thesis using p1 assms(2) by (auto simp: rport_ok_def shape_ok_def)
  next
    case False
    obtain q where q: "at (output_buf p) vc = Inr q" "q \<noteq> []" using p1 False by (cases "at (output_buf p) vc") (auto split: list.splits)
    then have "0 \<le> vc" "vc < int n" using assms(2) by (auto simp: at_Inr rport_ok_def shape_ok_def)
    then obtain w where w0: "vc = int w" "w < n" by (rule channel_index)
    then obtain ev rest where w: "vc = int w" "w < n" "output_buf p ! w = ev # rest" using q by (auto simp: at_Inr neq_Nil_conv)
    then have at: "at (output_buf p) (int w) = Inr (ev # rest)" using q(1) by (simp add: at_Inr)
    let ?x = "(xbar_in_credits p)[w := xbar_in_credits p ! w + ge_flits ev]"
    have up: "upd (\<lambda>x. x + ge_flits ev) (xbar_in_credits p) (int w) = Inr ?x" using w(2) assms(2) by (simp add: rport_ok_def shape_ok_def)
    let ?p2 = "?p\<lparr>output_buf := (output_buf p)[w := rest], xbar_in_credits := ?x\<rparr>"
    have ok2: "rport_ok good np n obs ?p2" using ok w by (auto simp: rport_ok_def shape_ok_def nth_list_update)
    obtain p3 where p3: "oql_release (ge_flits ev) (int w) ?p2 = Inr p3"
      using p1 False at up w(1) by (cases "oql_release (ge_flits ev) (int w) ?p2") (auto simp: Let_def)
    have ok3: "rport_ok good np n obs p3" using p3 ok2 by (auto simp: oql_release_def split: if_splits dest: oql_keeps)
    then show ?thesis using p1 False at up w(1) p3 by (auto simp: Let_def bindE_eq_Inr_iff upd_Inr rport_ok_def shape_ok_def)
  qed
qed

end

section \<open>Routers of a torus\<close>

text \<open>A packet that is on its way through the torus of \<open>t\<close>, at its router.\<close>

definition grid_good :: "Grid \<Rightarrow> nat \<Rightarrow> nat \<Rightarrow> GridEvent \<Rightarrow> bool" where
  "grid_good t np n ev \<longleftrightarrow> grid_ok t \<and> int np = local_port_start t + num_local_ports t \<and> int n = 2 * num_vns t \<and> endpoint t (ge_dest ev) \<and>
     dest_loc ev = digits (dim_size t) (ge_dest ev div num_local_ports t) \<and> (\<forall>i < routing_dim ev. id_loc t ! i = dest_loc ev ! i) \<and>
     0 \<le> ge_vc ev \<and> ge_vc ev < int n \<and> 1 \<le> ge_flits ev \<and> 0 \<le> ge_credit_vc ev \<and> ge_credit_vc ev < int n"

lemma same_network_channel: "v' div 2 = v div 2 \<Longrightarrow> 0 \<le> v \<Longrightarrow> v < 2 * k \<Longrightarrow> 0 \<le> v' \<and> v' < 2 * (k :: int)"
  by presburger

lemma torus_routes:
  assumes "grid_good t np n ev"
  shows "\<exists>ev'. torus_route_packet t port (ge_vc ev) ev = Inr ev' \<and> grid_good t np n ev' \<and> routed np n ev' \<and> ge_flits ev' = ge_flits ev"
proof -
  note g = assms [unfolded grid_good_def]
  let ?L = "num_local_ports t" and ?y = "dest_loc ev"
  have ok: "grid_ok t" and e: "endpoint t (ge_dest ev)" and np: "int np = local_port_start t + ?L" and n: "int n = 2 * num_vns t" using g by auto
  have L: "0 < ?L" "dim_size t \<noteq> []" "\<forall>s \<in> set (dim_size t). 0 < s" using ok by (auto simp: grid_ok_def)
  have dr: "get_dest_router t (ge_dest ev) = Inr (ge_dest ev div ?L)" using L(1) e by (simp add: get_dest_router_def sdiv_nonneg endpoint_def)
  have "0 \<le> sum_list (map (\<lambda>w. 2 * w) (dim_width t))" using ok by (intro sum_list_nonneg) (auto simp: grid_ok_def dest!: bspec)
  then have lps: "0 \<le> local_port_start t" using ok by (simp add: grid_ok_def)
  show ?thesis
  proof (cases "ge_dest ev div ?L = router_id t")
    case True
    have "get_dest_local_port t (ge_dest ev) = Inr (local_port_start t + ge_dest ev mod ?L)" using L(1) e by (simp add: get_dest_local_port_def smod_nonneg endpoint_def)
    then have "torus_route_packet t port (ge_vc ev) ev = Inr (ev\<lparr>ge_next_port := local_port_start t + ge_dest ev mod ?L\<rparr>)"
      using dr True by (simp add: torus_route_packet_def grid_route_def)
    moreover have "0 \<le> ge_dest ev mod ?L" "ge_dest ev mod ?L < ?L" using L(1) by auto
    ultimately show ?thesis using g lps np by (auto simp: grid_good_def routed_def)
  next
    case False
    have yr: "in_range (dim_size t) ?y" using digits_in_range [OF L(3)] g by simp
    have xr: "in_range (dim_size t) (id_loc t)" using ok by (simp add: grid_ok_def)
    have ne: "id_loc t \<noteq> ?y"
    proof
      assume "id_loc t = ?y"
      then have "router_id t = locToId (dim_size t) (digits (dim_size t) (ge_dest ev div ?L))" using ok g by (simp add: grid_ok_def)
      then show False using locToId_digits [OF L(3) endpoint_router [OF ok e]] False by simp
    qed
    have len: "length (id_loc t) = dimensions t" "length ?y = dimensions t" using in_range_length [OF xr] in_range_length [OF yr] .
    have rd: "\<forall>i < routing_dim ev. id_loc t ! i = ?y ! i" using g by blast
    obtain d where d: "routing_dim ev \<le> d" "d < dimensions t" "\<forall>i. routing_dim ev \<le> i \<and> i < d \<longrightarrow> ?y ! i = id_loc t ! i" "?y ! d \<noteq> id_loc t ! d"
      using first_difference [OF _ ne rd] len by metis
    obtain pos dist where dir: "torus_direction (dim_size t ! d) (id_loc t ! d) (?y ! d) = (pos, dist)" by (cases "torus_direction (dim_size t ! d) (id_loc t ! d) (?y ! d)")
    have dist: "0 \<le> dist" using torus.distance [of "id_loc t ! d" "dim_size t ! d" "?y ! d"] in_range_nth [OF xr d(2)] in_range_nth [OF yr d(2)] d(4) dir by auto
    have w: "0 < dim_width t ! d" "d < length (dim_width t)" "\<forall>w \<in> set (dim_width t). 0 < w" using ok d(2) by (auto simp: grid_ok_def)
    let ?p = "choose_multipath ((if pos then fst else snd) (port_start t ! d)) (dim_width t ! d) dist"
    obtain k where k: "?p = (if pos then fst else snd) (port_start t ! d) + k" "0 \<le> k" "k < dim_width t ! d" using choose_multipath_range [OF w(1) dist] by blast
    have p: "0 \<le> ?p" "?p < local_port_start t" using port_starts_bounds [OF w(3,2), of 0] k w(1) ok by (auto simp: grid_ok_def)
    let ?vc = "if id_loc t ! d = 0 \<and> port < local_port_start t then ge_vc ev XOR 1 else if d = routing_dim ev then ge_vc ev else ge_vc ev AND NOT 1"
    have "?vc div 2 = ge_vc ev div 2" by (simp add: vc_toggle vc_reset [simplified])
    then have vc: "0 \<le> ?vc" "?vc < int n" using same_network_channel [of ?vc "ge_vc ev" "num_vns t"] g n by auto
    have "torus_route_packet t port (ge_vc ev) ev = Inr (ev\<lparr>routing_dim := d, ge_next_port := ?p, ge_vc := ?vc\<rparr>)"
      using dr False route_loop_turn [OF d refl, of torus_direction port "ge_vc ev"] dir by (simp add: torus_route_packet_def grid_route_def)
    moreover have "\<forall>i < d. id_loc t ! i = ?y ! i" using d(3) rd by (metis not_less)
    then have "grid_good t np n (ev\<lparr>routing_dim := d, ge_next_port := ?p, ge_vc := ?vc\<rparr>)" using g vc by (simp add: grid_good_def)
    moreover have "routed np n (ev\<lparr>routing_dim := d, ge_next_port := ?p, ge_vc := ?vc\<rparr>)" using g vc p np L(1) by (simp add: routed_def)
    ultimately show ?thesis by (intro exI [of _ "ev\<lparr>routing_dim := d, ge_next_port := ?p, ge_vc := ?vc\<rparr>"]) simp
  qed
qed

interpretation torus_router: router_core xl_arbitrate xl_ok "torus_route_packet t" "grid_good t np n" np n for t np n
  by unfold_locales (auto simp: torus_routes, auto simp: grid_good_def)

section \<open>Runs of a router\<close>

text \<open>A packet an endpoint may inject: it exists, its network exists, it is not empty.\<close>

definition injectable :: "Grid \<Rightarrow> nat \<Rightarrow> nat \<Rightarrow> GridEvent \<Rightarrow> bool" where
  "injectable t np n ev \<longleftrightarrow> grid_ok t \<and> int np = local_port_start t + num_local_ports t \<and> int n = 2 * num_vns t \<and> endpoint t (ge_dest ev) \<and>
     0 \<le> ge_vn ev \<and> ge_vn ev < num_vns t \<and> 1 \<le> ge_flits ev"

text \<open>
  Between the cycles any port may be called: packets and credits arrive from the link, endpoints
  inject packets, the output of a port wakes up. \<open>arb\<close> is any output arbiter.
\<close>

inductive router_step :: "(GridEvent, 'a) arbiter \<Rightarrow> (int \<Rightarrow> bool) \<Rightarrow> Grid \<Rightarrow> nat \<Rightarrow> nat \<Rightarrow>
    (GridEvent, 'a, XbarLRU) Router \<Rightarrow> (GridEvent, 'a, XbarLRU) Router \<Rightarrow> bool"
  for arb isHostPort t np n where
  cycle: "clock_handler xl_arbitrate okay (torus_route_packet t) isHostPort c r = Inr (paused, r') \<Longrightarrow> router_step arb isHostPort t np n r r'"
| arrive: "i < np \<Longrightarrow> grid_good t np n ev \<Longrightarrow> handle_input_r2r (torus_route_packet t) (Data ev) (rt_ports r ! i) = Inr p \<Longrightarrow>
    router_step arb isHostPort t np n r (r\<lparr>rt_ports := (rt_ports r)[i := p]\<rparr>)"
| credit: "i < np \<Longrightarrow> handle_input_r2r (torus_route_packet t) (Credit vc k) (rt_ports r ! i) = Inr p \<Longrightarrow>
    router_step arb isHostPort t np n r (r\<lparr>rt_ports := (rt_ports r)[i := p]\<rparr>)"
| inject: "i < np \<Longrightarrow> injectable t np n ev \<Longrightarrow>
    handle_input_n2r (torus_route_packet t) (\<lambda>ev. process_input t ev (ge_dest ev) (ge_vn ev)) (Data ev) (rt_ports r ! i) = Inr p \<Longrightarrow>
    router_step arb isHostPort t np n r (r\<lparr>rt_ports := (rt_ports r)[i := p]\<rparr>)"
| return: "i < np \<Longrightarrow> handle_input_n2r (torus_route_packet t) (\<lambda>ev. process_input t ev (ge_dest ev) (ge_vn ev)) (Credit vc k) (rt_ports r ! i) = Inr p \<Longrightarrow>
    router_step arb isHostPort t np n r (r\<lparr>rt_ports := (rt_ports r)[i := p]\<rparr>)"
| wake_up: "i < np \<Longrightarrow> handle_output arb c (rt_ports r ! i) = Inr p \<Longrightarrow>
    router_step arb isHostPort t np n r (r\<lparr>rt_ports := (rt_ports r)[i := p]\<rparr>)"
| notified: "notifyEvent xl_reportSkippedCycles c r = Inr r' \<Longrightarrow> router_step arb isHostPort t np n r r'"

lemma router_ok_port:
  assumes "router_ok good xok np n obs r" "rport_ok good np n obs p"
  shows "router_ok good xok np n obs (r\<lparr>rt_ports := (rt_ports r)[i := p]\<rparr>)"
  using assms set_update_subset_insert [of "rt_ports r" i p] by (auto simp: router_ok_def)

lemma injected_good:
  assumes "injectable t np n ev"
  shows "\<exists>e. process_input t ev (ge_dest ev) (ge_vn ev) = Inr e \<and> grid_good t np n (e\<lparr>ge_credit_vc := ge_vn ev\<rparr>)"
proof -
  have g: "grid_ok t" "endpoint t (ge_dest ev)" using assms by (auto simp: injectable_def)
  have L: "0 < num_local_ports t" "dim_size t \<noteq> []" "\<forall>s \<in> set (dim_size t). 0 < s" using g(1) by (auto simp: grid_ok_def)
  have "process_input t ev (ge_dest ev) (ge_vn ev) = Inr ((new_grid_event ev (ge_dest ev) (ge_vn ev))\<lparr>ge_vc := ge_vn ev * 2,
      dest_loc := digits (dim_size t) (ge_dest ev div num_local_ports t)\<rparr>)"
    using idToLocation_digits [OF L(2,3) endpoint_router [OF g]] L(1) g(2)
    by (simp add: process_input_def get_dest_router_def new_grid_event_def sdiv_nonneg endpoint_def)
  then show ?thesis using assms by (simp add: injectable_def grid_good_def new_grid_event_def)
qed

lemma router_step_keeps:
  assumes "router_step arb isHostPort t np n r r'" "router_ok (grid_good t np n) xl_ok np n obs r"
  shows "router_ok (grid_good t np n) xl_ok np n obs r'"
  using assms
proof cases
  case (cycle okay c paused)
  then show ?thesis using torus_router.clock_handler_ok [OF assms(2), of okay isHostPort c] by auto
next
  case (arrive i ev p)
  have "rport_ok (grid_good t np n) np n obs (rt_ports r ! i)" using assms(2) arrive(2) by (auto simp: router_ok_def)
  moreover have "0 \<le> ge_vc ev" "ge_vc ev < int n" using arrive(3) by (auto simp: grid_good_def)
  ultimately have "rport_ok (grid_good t np n) np n obs p"
    using torus_router.arrival_ok [OF _ arrive(3), of obs "rt_ports r ! i"] arrive(4) by (auto simp: handle_input_r2r_def)
  then show ?thesis using router_ok_port [OF assms(2)] arrive(1) by blast
next
  case (credit i vc k p)
  have "rport_ok (grid_good t np n) np n obs (rt_ports r ! i)" using assms(2) credit(2) by (auto simp: router_ok_def)
  then have "rport_ok (grid_good t np n) np n obs p"
    using credit(3) by (auto simp: handle_input_r2r_def bindE_eq_Inr_iff torus_router.wake_keeps dest: torus_router.credit_ok)
  then show ?thesis using router_ok_port [OF assms(2)] credit(1) by blast
next
  case (inject i ev p)
  have q: "rport_ok (grid_good t np n) np n obs (rt_ports r ! i)" using assms(2) inject(2) by (auto simp: router_ok_def)
  obtain e where e: "process_input t ev (ge_dest ev) (ge_vn ev) = Inr e" "grid_good t np n (e\<lparr>ge_credit_vc := ge_vn ev\<rparr>)" using injected_good [OF inject(3)] by blast
  have v: "0 \<le> ge_vc (e\<lparr>ge_credit_vc := ge_vn ev\<rparr>)" "ge_vc (e\<lparr>ge_credit_vc := ge_vn ev\<rparr>) < int n" using e(2) by (simp_all add: grid_good_def)
  have "rport_ok (grid_good t np n) np n obs p" using torus_router.arrival_ok [OF q e(2) v] inject(4) e(1) by (auto simp: handle_input_n2r_def)
  then show ?thesis using router_ok_port [OF assms(2)] inject(1) by blast
next
  case (return i vc k p)
  have "rport_ok (grid_good t np n) np n obs (rt_ports r ! i)" using assms(2) return(2) by (auto simp: router_ok_def)
  then have "rport_ok (grid_good t np n) np n obs p"
    using return(3) by (auto simp: handle_input_n2r_def bindE_eq_Inr_iff torus_router.wake_keeps split: if_splits dest: torus_router.credit_ok torus_router.oql_keeps)
  then show ?thesis using router_ok_port [OF assms(2)] return(1) by blast
next
  case (wake_up i c p)
  have "rport_ok (grid_good t np n) np n obs (rt_ports r ! i)" using assms(2) wake_up(2) by (auto simp: router_ok_def)
  then show ?thesis using router_ok_port [OF assms(2)] wake_up(1) torus_router.output_ok [OF wake_up(3)] by blast
next
  case (notified c)
  then show ?thesis using assms(2) by (auto simp: notifyEvent_def xl_reportSkippedCycles_def router_ok_def sizes_def catch_up_def Let_def)
qed

lemma router_run_keeps:
  "(router_step arb isHostPort t np n)\<^sup>*\<^sup>* r r' \<Longrightarrow> router_ok (grid_good t np n) xl_ok np n obs r \<Longrightarrow> router_ok (grid_good t np n) xl_ok np n obs r'"
  by (induction rule: rtranclp_induct) (auto intro: router_step_keeps)

text \<open>The end of the construction: \<open>init_vcs\<close>.\<close>

definition init_vcs :: "nat \<Rightarrow> int \<Rightarrow> int \<Rightarrow> 'a \<Rightarrow> (nat \<Rightarrow> nat \<Rightarrow> 'x) \<Rightarrow> ('p, 'a) Port list \<Rightarrow> ('p, 'a, 'x) Router" where
  "init_vcs n ibs obs out_arb setPorts ports = \<lparr>rt_ports = map (initVCs n ibs obs out_arb) ports,
     rt_match = \<lparr>in_busy = replicate (length ports) 0, out_busy = replicate (length ports) 0, progress = replicate (length ports) (-1)\<rparr>,
     rt_arb = setPorts (length ports) n, unclocked_cycle = 0, requestNotifyOnEvent = False\<rparr>"

definition new_ports :: "nat \<Rightarrow> (nat \<Rightarrow> bool) \<Rightarrow> 'a \<Rightarrow> ('p, 'a) Port list" where
  "new_ports np host arb = map (\<lambda>i. new_port (int i) (host i) (host i) False arb) [0..<np]"

lemma init_vcs_ok:
  assumes "np < 2 ^ 16" "n < 2 ^ 16" "0 \<le> obs"
  shows "router_ok good xl_ok np n obs (init_vcs n ibs obs arb xl_setPorts (new_ports np host arb'))"
  using assms by (auto simp: init_vcs_def new_ports_def router_ok_def sizes_def xl_setPorts_ok rport_ok_def shape_ok_def initVCs_def new_port_def)

section \<open>Cycles without packets\<close>

lemma matched_idle:
  assumes "all_matched np n ports m0 m" "sizes np m0" "\<forall>i < np. \<forall>v < n. head ports i v = None"
  shows "in_busy m = in_busy m0" "out_busy m = out_busy m0" "\<forall>i < np. progress m ! i < 0"
proof -
  note d = matchedD [OF assms(1)]
  have nm: "\<not> moves n ports m i ev" if "i < np" for i ev using assms(3) that by (auto simp: moves_def nat_less_iff)
  show p: "\<forall>i < np. progress m ! i < 0" using d(2) nm by force
  show "in_busy m = in_busy m0" "out_busy m = out_busy m0"
    using d(1) assms(2) p d(4) d(6) nm by (auto simp: sizes_def intro!: nth_equalityI) blast
qed

lemma xl_idle:
  assumes "xl_ok np n x" "heads_ok np n ports" "sizes np m0" "\<forall>i < np. \<forall>v < n. head ports i v = None"
  shows "\<exists>m. xl_arbitrate ports m0 x = Inr (m, x) \<and> in_busy m = in_busy m0 \<and> out_busy m = out_busy m0 \<and> all_matched np n ports m0 m"
proof -
  obtain m where m: "xl_arbitrate ports m0 x = Inr (m, x\<lparr>cur_list := filter (\<lambda>e. \<not> served m e) (cur_list x) @ rev (filter (served m) (cur_list x))\<rparr>)"
    "all_matched np n ports m0 m" using xl_arbitrate_result [OF assms(1-3)] by blast
  note i = matched_idle [OF m(2) assms(3,4)]
  have "\<forall>e \<in> set (cur_list x). \<not> served m e" using assms(1) i(3) by (force simp: xl_ok_def entries_def served_def)
  then have "filter (\<lambda>e. \<not> served m e) (cur_list x) @ rev (filter (served m) (cur_list x)) = cur_list x" by simp
  then show ?thesis using m i(1,2) by (intro exI [of _ m]) simp
qed

text \<open>The part of a router that counts: everything but the channels moved last and the pause.\<close>

definition visible :: "('p, 'a, 'x) Router \<Rightarrow> ('p, 'a) Port list \<times> int list \<times> int list \<times> 'x" where
  "visible r = (rt_ports r, in_busy (rt_match r), out_busy (rt_match r), rt_arb r)"

lemma idle_cycles:
  fixes r :: "(GridEvent, 'a, XbarLRU) Router"
  assumes "router_ok (grid_good t np n) xl_ok np n obs r" "get_vcs_with_data r = 0"
  shows "\<exists>r'. iter_res k (clock_body xl_arbitrate (torus_route_packet t) isHostPort) r = Inr r' \<and>
    visible r' = (rt_ports r, map (busy_down ^^ k) (in_busy (rt_match r)), map (busy_down ^^ k) (out_busy (rt_match r)), rt_arb r)"
  using assms
proof (induction k arbitrary: r)
  case 0
  then show ?case by (simp add: visible_def)
next
  case (Suc k)
  have none: "\<forall>i < np. \<forall>v < n. head (rt_ports r) i v = None" using torus_router.no_data_no_heads [OF Suc.prems] by blast
  have h: "heads_ok np n (rt_ports r)" "sizes np (rt_match r)" "xl_ok np n (rt_arb r)" using torus_router.heads_routed [of "rt_ports r" np t n obs] Suc.prems(1) by (auto simp: router_ok_def)
  obtain m where m: "xl_arbitrate (rt_ports r) (rt_match r) (rt_arb r) = Inr (m, rt_arb r)" "in_busy m = in_busy (rt_match r)" "out_busy m = out_busy (rt_match r)"
    "all_matched np n (rt_ports r) (rt_match r) m" using xl_idle [OF h(3,1,2) none] by blast
  have nm: "\<not> (\<exists>i < np. 0 \<le> progress m ! i)" using matched_idle(3) [OF m(4) h(2) none] by force
  let ?r = "r\<lparr>rt_ports := rt_ports r, rt_match := m\<lparr>in_busy := map busy_down (in_busy m), out_busy := map busy_down (out_busy m)\<rparr>, rt_arb := rt_arb r\<rparr>"
  have b: "clock_body xl_arbitrate (torus_route_packet t) isHostPort r = Inr ?r" "router_ok (grid_good t np n) xl_ok np n obs ?r"
    using torus_router.clock_body_ok [OF Suc.prems(1), of isHostPort] m(1) nm by auto
  have "get_vcs_with_data ?r = 0" using Suc.prems(2) by (simp add: get_vcs_with_data_def)
  from Suc.IH [OF b(2) this] b(1) m(2,3) show ?case by (auto simp: visible_def funpow_swap1 comp_def)
qed

lemma busy_catch_up: "0 \<le> b \<Longrightarrow> (busy_down ^^ k) b = catch_up (int k) b"
  by (induction k) (auto simp: busy_down_def catch_up_def Let_def)

section \<open>Properties\<close>

text \<open>
  C12 In every run of a torus router, with packets arriving and injected at any time, the output buffers
  stay within their size, and the heads the crossbar sees are those of the queues, each routed to a
  port and a channel that exist.
\<close>
theorem router_run_safe:
  assumes "np < 2 ^ 16" "n < 2 ^ 16" "0 \<le> obs"
    and "(router_step arb isHostPort t np n)\<^sup>*\<^sup>* (init_vcs n ibs obs out_arb xl_setPorts (new_ports np host out_arb)) r" and "i < np" "v < n"
  shows "flits (output_buf (rt_ports r ! i) ! v) \<le> obs \<and>
    head (rt_ports r) i v = (case input_buf (rt_ports r ! i) ! v of [] \<Rightarrow> None | ev # q \<Rightarrow> Some ev) \<and>
    (\<forall>ev. head (rt_ports r) i v = Some ev \<longrightarrow> routed np n ev)"
proof -
  have "router_ok (grid_good t np n) xl_ok np n obs r" by (rule router_run_keeps [OF assms(4) init_vcs_ok [OF assms(1-3)]])
  then have "rport_ok (grid_good t np n) np n obs (rt_ports r ! i)" using assms(5) by (auto simp: router_ok_def)
  then show ?thesis using assms(6) by (auto simp: rport_ok_def split: list.split)
qed

text \<open>
  C13 In every run a cycle of the router returns without a fault and loses and makes no packet; when a
  head finds its input and its output free and room at the output, packets move. The clock is paused
  only when no packet waits.
\<close>
theorem router_cycle_progress:
  assumes "np < 2 ^ 16" "n < 2 ^ 16" "0 \<le> obs"
    and "(router_step arb isHostPort t np n)\<^sup>*\<^sup>* (init_vcs n ibs obs out_arb xl_setPorts (new_ports np host out_arb)) r"
  shows "\<exists>paused r'. clock_handler xl_arbitrate okay (torus_route_packet t) isHostPort cycle r = Inr (paused, r') \<and>
    total_flits (rt_ports r') = total_flits (rt_ports r) \<and> (paused \<longrightarrow> (\<forall>i < np. \<forall>v < n. head (rt_ports r) i v = None)) \<and>
    ((\<exists>i < np. \<exists>v < n. \<exists>ev. head (rt_ports r) i v = Some ev \<and> in_busy (rt_match r) ! i = 0 \<and> out_busy (rt_match r) ! nx ev = 0 \<and> room (rt_ports r) ev) \<longrightarrow>
      sum_list (map in_flits (rt_ports r')) < sum_list (map in_flits (rt_ports r)))"
proof -
  have "router_ok (grid_good t np n) xl_ok np n obs r" by (rule router_run_keeps [OF assms(4) init_vcs_ok [OF assms(1-3)]])
  from torus_router.clock_handler_ok [OF this] show ?thesis by blast
qed

text \<open>
  C14 With the least recently used arbiter the pause of the clock cannot be seen: a router without
  packets that is paused and started again after \<open>k\<close> cycles has the ports, busy counters and priorities
  of one whose clock ran on.
\<close>
theorem pause_unobservable:
  fixes cycle :: u64
  assumes "router_ok (grid_good t np n) xl_ok np n obs r" and "get_vcs_with_data r = 0" and "k < 2 ^ 63"
  shows "\<exists>r1 r2. iter_res k (clock_body xl_arbitrate (torus_route_packet t) isHostPort) r = Inr r1 \<and>
    bindE (clock_handler xl_arbitrate True (torus_route_packet t) isHostPort cycle r) (\<lambda>(paused, r).
      notifyEvent xl_reportSkippedCycles (cycle + word_of_nat k) r) = Inr r2 \<and> visible r1 = visible r2"
proof -
  obtain r1 where r1: "iter_res k (clock_body xl_arbitrate (torus_route_packet t) isHostPort) r = Inr r1"
    "visible r1 = (rt_ports r, map (busy_down ^^ k) (in_busy (rt_match r)), map (busy_down ^^ k) (out_busy (rt_match r)), rt_arb r)"
    using idle_cycles [OF assms(1,2)] by blast
  have "sint (word_of_nat k :: u64) = int k" using assms(3) by (simp add: signed_of_nat signed_take_bit_int_eq_self_iff)
  moreover have "map (busy_down ^^ k) (in_busy (rt_match r)) = map (catch_up (int k)) (in_busy (rt_match r))"
    "map (busy_down ^^ k) (out_busy (rt_match r)) = map (catch_up (int k)) (out_busy (rt_match r))"
    using assms(1) by (auto simp: router_ok_def busy_catch_up)
  ultimately show ?thesis using r1 assms(2)
    by (simp add: clock_handler_def notifyEvent_def xl_reportSkippedCycles_def visible_def Let_def)
qed

section \<open>Concrete instances\<close>

text \<open>A router of the torus of 3 by 4 routers with two endpoints each, one virtual network.\<close>

definition demo_router :: "(GridEvent, unit, XbarLRU) Router" where
  "demo_router = init_vcs 2 4 4 () xl_setPorts (new_ports 8 (\<lambda>i. 6 \<le> i) ())"

abbreviation demo_grid :: Grid where
  "demo_grid \<equiv> demo_torus\<lparr>num_vns := 1\<rparr>"

abbreviation demo_step :: "(GridEvent, unit, XbarLRU) Router \<Rightarrow> (GridEvent, unit, XbarLRU) Router \<Rightarrow> bool" where
  "demo_step \<equiv> router_step (\<lambda>c q cr h a. Inr (-1, False, a)) (\<lambda>p. 6 \<le> p) demo_grid 8 2"

lemma demo_injectable: "injectable demo_grid 8 2 demo_packet"
  using demo_torus_ok by (auto simp: injectable_def demo_packet_def endpoint_def grid_ok_def demo_torus_def)

text \<open>An endpoint injects a packet at port 6.\<close>

lemma demo_inject: "\<exists>r. demo_step\<^sup>*\<^sup>* demo_router r \<and> head (rt_ports r) 6 0 \<noteq> None"
proof -
  have ok: "router_ok (grid_good demo_grid 8 2) xl_ok 8 2 4 demo_router" unfolding demo_router_def by (rule init_vcs_ok) simp_all
  then have q: "rport_ok (grid_good demo_grid 8 2) 8 2 4 (rt_ports demo_router ! 6)" by (auto simp: router_ok_def)
  obtain e where e: "process_input demo_grid demo_packet (ge_dest demo_packet) (ge_vn demo_packet) = Inr e" "grid_good demo_grid 8 2 (e\<lparr>ge_credit_vc := ge_vn demo_packet\<rparr>)"
    using injected_good [OF demo_injectable] by blast
  let ?e = "e\<lparr>ge_credit_vc := ge_vn demo_packet\<rparr>"
  have v: "0 \<le> ge_vc ?e" "ge_vc ?e < int 2" using e(2) by (simp_all add: grid_good_def)
  obtain p where p: "data_arrives (torus_route_packet demo_grid) ?e (rt_ports demo_router ! 6) = Inr p" using torus_router.arrival_ok [OF q e(2) v] by blast
  have "demo_step demo_router (demo_router\<lparr>rt_ports := (rt_ports demo_router)[6 := p]\<rparr>)"
    by (rule router_step.inject [OF _ demo_injectable]) (simp_all add: handle_input_n2r_def e(1) p)
  moreover have "ge_vc ?e = 0" using e(1) by (auto simp: process_input_def bindE_eq_Inr_iff new_grid_event_def demo_packet_def Let_def)
  then have "vc_heads p ! 0 \<noteq> None" using p
    by (auto simp: data_arrives_def Let_def bindE_eq_Inr_iff demo_router_def init_vcs_def new_ports_def initVCs_def at_def split: option.splits if_splits)
  moreover have "length (rt_ports demo_router) = 8" by (simp add: demo_router_def init_vcs_def new_ports_def)
  ultimately show ?thesis by (intro exI [of _ "demo_router\<lparr>rt_ports := (rt_ports demo_router)[6 := p]\<rparr>"]) auto
qed

theorem router_run_safe_witness:
  "\<exists>r ev. demo_step\<^sup>*\<^sup>* demo_router r \<and> head (rt_ports r) 6 0 = Some ev \<and> routed 8 2 ev"
proof -
  obtain r ev where r: "demo_step\<^sup>*\<^sup>* demo_router r" "head (rt_ports r) 6 0 = Some ev" using demo_inject by auto
  then show ?thesis using router_run_safe [of 8 2 4 _ _ demo_grid 4 "()" "\<lambda>i. 6 \<le> i" r 6 0] unfolding demo_router_def by auto
qed

theorem router_cycle_progress_witness:
  "\<exists>r ev paused r'. demo_step\<^sup>*\<^sup>* demo_router r \<and> head (rt_ports r) 6 0 = Some ev \<and>
     clock_handler xl_arbitrate True (torus_route_packet demo_grid) (\<lambda>p. 6 \<le> p) 1 r = Inr (paused, r') \<and> \<not> paused \<and> total_flits (rt_ports r') = total_flits (rt_ports r)"
proof -
  obtain r ev where r: "demo_step\<^sup>*\<^sup>* demo_router r" "head (rt_ports r) 6 0 = Some ev" using demo_inject by auto
  obtain paused r' where c: "clock_handler xl_arbitrate True (torus_route_packet demo_grid) (\<lambda>p. 6 \<le> p) 1 r = Inr (paused, r')"
    "total_flits (rt_ports r') = total_flits (rt_ports r)" "paused \<longrightarrow> (\<forall>i < 8. \<forall>v < 2. head (rt_ports r) i v = None)"
    using router_cycle_progress [OF _ _ _ r(1) [unfolded demo_router_def], of True 1] by auto
  have "\<not> paused" using c(3) r(2) by force
  then show ?thesis using r c(1,2) by blast
qed

theorem pause_unobservable_witness:
  "\<exists>r1 r2. iter_res 3 (clock_body xl_arbitrate (torus_route_packet demo_grid) (\<lambda>p. 6 \<le> p)) demo_router = Inr r1 \<and>
     bindE (clock_handler xl_arbitrate True (torus_route_packet demo_grid) (\<lambda>p. 6 \<le> p) 10 demo_router) (\<lambda>(paused, r).
       notifyEvent xl_reportSkippedCycles (10 + word_of_nat 3) r) = Inr r2 \<and> visible r1 = visible r2"
proof -
  have ok: "router_ok (grid_good demo_grid 8 2) xl_ok 8 2 4 demo_router" unfolding demo_router_def by (rule init_vcs_ok) simp_all
  have "get_vcs_with_data demo_router = 0" by (simp add: get_vcs_with_data_def demo_router_def init_vcs_def new_ports_def initVCs_def new_port_def comp_def upt_rec)
  from pause_unobservable [OF ok this, of 3 "\<lambda>p. 6 \<le> p" 10] show ?thesis by simp
qed

end
