(* ===== verification/Spec2Isabelle.thy ===== *)
theory Spec2Isabelle
  imports MemH_Cache MemH_MemController MemH_TimingDRAM Merlin_Fattree Merlin_XbarQueue Merlin_Link Merlin_HrRouter
begin

text \<open>
  \<^bold>\<open>A verification library for SST's memHierarchy and merlin.\<close>
  Two elements of the simulator are modelled. The first is \<^verbatim>\<open>src/sst/elements/memHierarchy\<close>, a
  discrete-event model of a memory hierarchy: components exchange events over links, a cache component buffers what arrives and
  hands it, cycle by cycle, to a coherence manager, which keeps a cache array, miss status
  handling registers and two queues of outgoing events. Below the caches a memory controller
  translates addresses, keeps the data in a backing store and drives, through a convertor that
  splits requests, a stack of back ends that model the timing of memory. The second is
  \<^verbatim>\<open>src/sst/elements/merlin\<close>, a model of networks: a router has ports with queues per virtual
  channel, a topology that routes packets, a crossbar that moves them between the ports, and
  arbiters; credits keep the buffers at both ends of a link from overflowing.

  \<^bold>\<open>Parts and theories.\<close>
  \<^item> \<open>MemH_Prelude\<close>: word types, the result type \<open>'a res\<close> (\<open>Inl\<close> a fault: a call of
    \<open>fatal\<close>, a null pointer, an access out of range, a division by zero, a bad cast), vectors,
    \<open>std::map\<close> as ordered association lists with the interface \<open>std_map\<close>.
  \<^item> \<open>MemH_Types\<close> (\<^verbatim>\<open>memTypes.h\<close>): commands and their table, coherence states,
    \<open>MemRegion\<close> with containment and intersection.
  \<^item> \<open>MemH_Event\<close> (\<^verbatim>\<open>memEventBase.h\<close>, \<^verbatim>\<open>memEvent.h\<close>): events, responses, flags, payload.
  \<^item> \<open>MemH_Mshr\<close> (\<^verbatim>\<open>mshr.h\<close>, \<^verbatim>\<open>mshr.cc\<close>): the miss registers, one queue of entries per
    line address; the interface \<open>addr_queues\<close> and its interpretation.
  \<^item> \<open>MemH_Replacement\<close> (\<^verbatim>\<open>replacementManager.h\<close>): the eight policies; the interface
    \<open>replacement_policy\<close> and its interpretation.
  \<^item> \<open>MemH_Lines\<close> (\<^verbatim>\<open>lineTypes.h\<close>, \<^verbatim>\<open>hash.h\<close>, part of \<^verbatim>\<open>util.h\<close>) and \<open>MemH_CacheArray\<close>
    (\<^verbatim>\<open>cacheArray.h\<close>): lines, hashing, lookup, replacement, slices and banks.
  \<^item> \<open>MemH_Coherence\<close> (\<^verbatim>\<open>coherencemgr/coherenceController.cc\<close>): the base class of the
    managers: outgoing queues, routing, NACKs, register allocation. \<open>Env\<close> holds what is fixed
    during a call (parameters and the answers of links and simulator core), \<open>Ctl\<close> the state.
  \<^item> \<open>MemH_MesiL1\<close> (\<^verbatim>\<open>coherencemgr/MESI_L1.cc\<close>): every handler of the MESI/MSI L1 manager and
    its invariant; \<open>MemH_L1Behaviour\<close>: what the handlers do, end to end.
  \<^item> \<open>MemH_Cache\<close> (\<^verbatim>\<open>cacheController.cc\<close>): arrival, clock handler, dispatch, arbitration.
  \<^item> \<open>MemH_Backing\<close> (\<^verbatim>\<open>membackend/backing.h\<close>): the two backing stores; the interface
    \<open>backing_store\<close> and its interpretation.
  \<^item> \<open>MemH_Convertor\<close> (\<^verbatim>\<open>membackend/memBackendConvertor.h\<close> and \<^verbatim>\<open>.cc\<close>): requests, flushes, the
    issue loop and responses; a back end is a record of its operations. \<open>MemH_ConvertorOk\<close>: the
    invariant that ties pending requests to what the back end holds, and the interface
    \<open>mem_backend\<close> of a back end, under which the convertor is proved once.
  \<^item> \<open>MemH_Backends\<close> (\<^verbatim>\<open>membackend/simpleMemBackend.cc\<close>, \<^verbatim>\<open>simpleDRAMBackend.cc\<close>, \<^verbatim>\<open>delayBuffer.cc\<close>,
    \<^verbatim>\<open>requestReorderSimple.cc\<close>, \<^verbatim>\<open>requestReorderByRow.cc\<close>): five back ends, each an instance of the
    interface; three of them stack on any other instance.
  \<^item> \<open>MemH_AddrMapper\<close> (\<^verbatim>\<open>membackend/timingAddrMapper.h\<close>): how an address becomes channel, rank,
    bank and row; \<open>MemH_TimingDRAM\<close> (\<^verbatim>\<open>membackend/timingDRAMBackend.cc\<close>, \<^verbatim>\<open>timingTransaction.h\<close>,
    \<^verbatim>\<open>timingPagePolicy.h\<close>): banks, ranks and channels that turn transactions into DRAM commands, a
    further instance of the interface.
  \<^item> \<open>MemH_MemController\<close> (\<^verbatim>\<open>memoryController.cc\<close>): address translation, events, responses, data.
  \<^item> \<open>Merlin_Router\<close> (\<^verbatim>\<open>merlin/router.h\<close>): packets, and checked access to arrays.
  \<^item> \<open>Merlin_Grid\<close> (\<^verbatim>\<open>merlin/topology/torus.cc\<close>, \<^verbatim>\<open>mesh.cc\<close>): construction, routing, broadcast and the links
    between the routers; \<open>Merlin_GridRoute\<close>: delivery and deadlock freedom, proved once in the interface
    \<open>dim_routing\<close> and instantiated for both topologies; \<open>Merlin_GridNet\<close>: broadcast and construction.
  \<^item> \<open>Merlin_Fattree\<close> (\<^verbatim>\<open>merlin/topology/fattree.cc\<close>, \<^verbatim>\<open>singlerouter.cc\<close>): construction, deterministic and adaptive
    routing, broadcast and the links of the fat tree, with delivery, deadlock freedom and broadcast; the
    single router.
  \<^item> \<open>Merlin_Arb\<close> (\<^verbatim>\<open>merlin/arbitration\<close>): round robin and LRU; the interface \<open>single_arbitration\<close>.
    \<open>Merlin_OutputArb\<close> (\<^verbatim>\<open>merlin/interfaces/output_arb_basic.h\<close>, \<^verbatim>\<open>output_arb_qos_multi.h\<close>): which channel a
    port sends from, over any single arbiter; the interface \<open>output_arbitration\<close>.
  \<^item> \<open>Merlin_Port\<close> (\<^verbatim>\<open>merlin/interfaces/portControl.cc\<close>): queues, credits and wake-ups of a port, over any
    output arbiter and any routing that keeps the size of packets (\<open>port_control\<close>); \<open>Merlin_Link\<close>: two
    ports and the link between them, as a step relation.
  \<^item> \<open>Merlin_Crossbar\<close> (\<^verbatim>\<open>merlin/hr_router/xbar_arb_lru.h\<close>, \<^verbatim>\<open>xbar_arb_rr.h\<close>): the crossbar arbiters; the
    interface \<open>crossbar_arbitration\<close>. \<open>Merlin_XbarQueue\<close> (\<^verbatim>\<open>xbar_arb_age.h\<close>, \<^verbatim>\<open>xbar_arb_rand.h\<close>): two more, with a
    priority queue; by age the oldest is served first. \<open>Merlin_HrRouter\<close> (\<^verbatim>\<open>merlin/hr_router/hr_router.cc\<close>): the clock handler
    over any such arbiter and any routing (\<open>router_core\<close>), and the runs of a router.
  \<^item> This theory: controllers reachable from construction, and a line's way to memory and back.

  \<^bold>\<open>What is shown.\<close> Regions: intersection is exact for two
  plain and for two interleaved regions. Registers: size and entry invariants under
  every operation, FIFO order, round trips. Policies: a candidate lies in its set and an invalid
  line is preferred; LRU evicts the least recently used of valid lines, owned and shared or not. Array: a filled address hits, all
  others are undisturbed. Queues: nothing is lost or reordered, bandwidth is respected. L1
  manager: an invariant over lines, locks, registers and policy holds in every reachable
  controller; loads return stored bytes, LL/SC is exact, invalidations and evictions lose no
  data, fills answer the waiting request, locked lines stay. Cache: a tick loses no event and
  respects ports and lines, the clock stops only when idle. Memory: a backing store returns what
  was last written; over any back end that keeps its contract the convertor's clock returns,
  answers each event once and finds every request the back end names; the stacked DRAM never
  faults and keeps its timing; the mappers lose no address, the timing DRAM issues only commands its
  device may take (no row being \<open>0xFFFFFFFF\<close>), one transfer on the bus at a time, and never faults with
  a mapper whose coordinates exist; the memory controller sends one response per completed event, with
  the bytes last written and the address asked for; translation and its inverse agree and stay in
  the memory. Across components: a modified line evicted by a cache comes back from memory with
  the bytes it had. Networks: in torus and mesh every packet arrives, over a shortest way; a torus
  cannot deadlock; a broadcast reaches everyone once; the same holds in a fat tree, with adaptive
  routing and whatever the credits of the ports are. The credits of a link are conserved in every
  order of events, so no buffer overflows, and no wake-up is lost. The crossbar's choices are
  matchings that leave nothing behind that could move, waiting is bounded, a cycle of a router never
  faults and loses no packet, and pausing its clock cannot be seen. Where the code does not do what it
  means to do, the theorem states what it does.

  \<^bold>\<open>Machine integers.\<close> \<open>uint64_t\<close>, \<open>uint32_t\<close> and \<open>uint8_t\<close> are words that wrap; \<open>int\<close> values
  that stay small are \<open>int\<close>. Vector sizes are naturals. The loops of \<open>MemRegion\<close> terminate by
  a measure; no definition needs fuel. The issue loop of the convertor may run forever (a width
  of 0, no limit), so it is a partial function into \<open>option\<close>; that it returns is part of the
  theorems about it, and so it is with the way of a packet through a network. In merlin counters are
  \<open>int\<close>; the 16-bit numbers of the arbiters are bounded by hypotheses on the number of ports and channels.

  \<^bold>\<open>Not modelled.\<close> Statistics, cache listeners, debug output and printing; parsing of
  parameters and construction of simulator objects (\<^verbatim>\<open>cacheFactory.cc\<close>, \<open>init\<close>, \<open>setup\<close>); the
  simulator core and the links, whose answers are parameters; the other coherence managers, the
  directory and the other memory controllers; the back ends that wrap external simulators. Of merlin:
  congestion management, link widths, the negotiation of bandwidth and virtual networks, untimed data
  at the routers, the other topologies and the arbiter with an infinite crossbar, the endpoints. The other elements of the
  repository.
\<close>

section \<open>Reachable controllers\<close>

text \<open>What happens to the controller of an L1 cache between construction and the end of a run.\<close>

inductive l1_step :: "Ctl \<Rightarrow> Ctl \<Rightarrow> bool" where
  event: "protocolState env \<in> {stE, stS} \<Longrightarrow> expected ev s \<Longrightarrow> dispatch env ev b s = Inr (s', acc) \<Longrightarrow> l1_step s s'"
| send: "sendOutgoingEvents env s = (s', idle) \<Longrightarrow> l1_step s s'"
| wake: "l1_step s (s\<lparr>timestamp := t\<rparr>)"
| arrive: "l1_step s (recordIncomingRequest ev s)"
| drop: "l1_step s (removeRequestRecord n s)"
| collect: "l1_step s (s\<lparr>retryBuffer := []\<rparr>)"
| configure: "l1_step s (processInitCoherenceEvent ic source s)"

inductive_cases l1_stepE: "l1_step s s'"

lemma quiet_steps:
  "ctl_ok (recordIncomingRequest ev s) = ctl_ok s" "ctl_ok (removeRequestRecord n s) = ctl_ok s"
  "ctl_ok (processInitCoherenceEvent ic source s) = ctl_ok s"
  by (simp_all add: ctl_ok_def recordIncomingRequest_def removeRequestRecord_def processInitCoherenceEvent_def Let_def)

lemma ctl_ok_l1_step: "l1_step s s' \<Longrightarrow> ctl_ok s \<Longrightarrow> ctl_ok s'"
proof (induction rule: l1_step.induct)
  case (event env ev s b s' acc)
  then have "ctl_step (writes ev) s s'" using dispatch_step [of env ev s b] by (auto simp: okP_def)
  then show ?case using event.prems by (rule ctl_ok_step)
next
  case (send env s s' idle)
  then show ?case by (auto simp: sendOutgoingEvents_def Let_def ctl_ok_def split: prod.splits)
qed (simp_all add: quiet_steps, simp_all add: ctl_ok_def)

lemma ctl_ok_l1_steps: "l1_step\<^sup>*\<^sup>* s s' \<Longrightarrow> ctl_ok s \<Longrightarrow> ctl_ok s'"
  by (induction rule: rtranclp_induct) (auto intro: ctl_ok_l1_step)

text \<open>The array the constructor builds.\<close>

definition policy_fits :: "u64 \<Rightarrow> u64 \<Rightarrow> string \<Rightarrow> bool" where
  "policy_fits lines assoc policy \<longleftrightarrow> unat lines \<le> 2147483648 \<and> unat assoc \<le> 2147483648 \<and> (policy = ''nmru'' \<longrightarrow> 2 \<le> unat assoc)"

lemma createReplacementPolicy_ok:
  assumes "createReplacementPolicy g lines assoc policy True = Inr p" and "policy_fits lines assoc policy"
  shows "pol_ok (unat lines) (unat assoc) p" and "\<forall>i. ri_coh i = None \<longrightarrow> checkCompatibility p i"
  using assms by (auto simp: createReplacementPolicy_def policy_fits_def ts_new_def lfu_new_def rnd_new_def nmru_new_def
      bindE_eq_Inr_iff unat_div split: if_splits)

lemma new_line_ok: "i < 2147483648 \<Longrightarrow> line_ok lsz i (L1CacheLine_new (unat lsz) (of_nat i)) \<and> line_inv (L1CacheLine_new n (of_nat i))"
  by (simp add: line_ok_def line_inv_def L1CacheLine_new_def CacheLine_new_def CacheLine.defs L1CacheLine.defs unat_of_nat)

lemma MESIL1_array_ok:
  assumes "MESIL1_array g xorh lines assoc lsz policy hashFunc nbanks = Inr c" and "policy_fits lines assoc policy"
  shows "arr_ok c \<and> (\<forall>l \<in> set (ca_lines c). line_inv l)"
proof -
  let ?n = "ucast lines :: u32" and ?w = "ucast assoc :: u32" and ?z = "ucast lsz :: u32"
  obtain p c0 where p: "createReplacementPolicy g lines assoc policy True = Inr p"
      "CacheArray_new ?n ?w ?z p (createHashFunction xorh hashFunc) = Inr c0" "c = setBanked (ucast nbanks) c0"
    using assms(1) by (auto simp: MESIL1_array_def bindE_eq_Inr_iff)
  have u: "unat ?n = unat lines" "unat ?w = unat assoc" using assms(2) by (simp_all add: policy_fits_def unat_ucast_down)
  have c0: "?w \<noteq> 0" "?n div ?w \<noteq> 0" "?n div ?w * ?w = ?n"
      "ca_lines c0 = map (\<lambda>i. L1CacheLine_new (unat ?z) (of_nat i)) [0..<unat ?n]" "lineSize c0 = ?z" "numSets c0 = ?n div ?w"
      "associativity c0 = ?w" "replacementMgr c0 = p"
    using p(2) by (auto simp: CacheArray_new_def Let_def split: if_splits)
  have "unat (?n div ?w * ?w) = unat ?n" using c0(3) by simp
  moreover have "unat (?n div ?w) * unat ?w \<le> unat ?n" by (simp add: unat_div)
  moreover have "unat ?n < 2 ^ 32" using unsigned_less [of ?n, where ?'a = nat] by simp
  ultimately have len: "unat (?n div ?w) * unat ?w = unat ?n"
    using unat_mult_lem [of "?n div ?w" ?w] by simp
  have bound: "unat ?n \<le> 2147483648" using assms(2) u by (simp add: policy_fits_def)
  have pos: "0 < unat ?w" "0 < unat (?n div ?w)" using c0(1,2) by (simp_all add: unat_gt_0)
  have "arr_ok c0"
    unfolding arr_ok_def c0(4-8)
    using pos len bound createReplacementPolicy_ok [OF p(1) assms(2)] u new_line_ok by auto
  moreover have "\<forall>l \<in> set (ca_lines c0). line_inv l" using new_line_ok bound by (auto simp: c0(4))
  ultimately show ?thesis unfolding p(3) setBanked_def by (auto simp: arr_ok_def)
qed

text \<open>
  C1 Every reachable L1 controller is well formed: starting from the array the constructor
  builds for a supported geometry and replacement policy and from empty miss registers, any
  sequence of events, sends, clock changes and configuration messages leads to a controller
  whose array and registers are well formed, whose lines are in states of the protocol known
  to the replacement policy, and whose user locks sit on modified lines.
\<close>

theorem reachable_controller_ok:
  assumes "MESIL1_array g xorh lines assoc lsz policy hashFunc nbanks = Inr c" and "policy_fits lines assoc policy"
    and "c_array s0 = c" and "c_mshr s0 = newMSHR n" and "l1_step\<^sup>*\<^sup>* s0 s"
  shows "ctl_ok s"
proof -
  have "ctl_ok s0" using MESIL1_array_ok [OF assms(1,2)] assms(3,4) by (simp add: ctl_ok_def mshr_ok_new)
  with assms(5) show ?thesis by (rule ctl_ok_l1_steps)
qed

theorem reachable_controller_ok_witness:
  "\<exists>s'. dispatch demo_env demo_load False (fst (sendOutgoingEvents demo_env demo_ctl)) = Inr (s', True) \<and> ctl_ok s'"
proof -
  let ?s = "fst (sendOutgoingEvents demo_env demo_ctl)"
  have "case dispatch demo_env demo_load False ?s of Inr (s', acc) \<Rightarrow> acc | Inl _ \<Rightarrow> False" by code_simp
  then obtain s' where d: "dispatch demo_env demo_load False ?s = Inr (s', True)" by (auto split: sum.splits)
  have "MESIL1_array (\<lambda>_. 0) (\<lambda>_ x. x) 4 2 64 ''lru'' 0 1 = Inr demo_array"
    using demo_array_new by (simp add: MESIL1_array_def createReplacementPolicy_def createHashFunction_def setBanked_def
        demo_array_def)
  moreover have "policy_fits 4 2 ''lru''" by (simp add: policy_fits_def)
  moreover have "c_array demo_ctl = demo_array" "c_mshr demo_ctl = newMSHR 4" by (simp_all add: demo_ctl_def)
  moreover have "l1_step\<^sup>*\<^sup>* demo_ctl s'"
  proof -
    have "l1_step demo_ctl ?s" by (rule l1_step.send [where idle = "snd (sendOutgoingEvents demo_env demo_ctl)"]) simp
    moreover have "l1_step ?s s'" by (rule l1_step.event [OF _ _ d]) (simp_all add: demo_env_def expected_def demo_load_def)
    ultimately show ?thesis by auto
  qed
  ultimately have "ctl_ok s'" by (rule reachable_controller_ok)
  with d show ?thesis by blast
qed

section \<open>A line goes to memory and comes back\<close>

text \<open>
  The write-back \<open>r\<close> of a cache has reached the memory controller, which holds it for its back
  end; so does a read \<open>rd\<close> of the whole line.
\<close>

definition holds_writeback :: "'b MemController \<Rightarrow> id_type \<Rightarrow> MemEvent \<Rightarrow> bool" where
  "holds_writeback mc k r \<longleftrightarrow> (\<exists>lr. localize mc r = Inr lr \<and>
     map_find (mc_outstanding mc) k = Some (setFlag F_NORESPONSE lr) \<and> ev_fine mc k (setFlag F_NORESPONSE lr))"

definition holds_refill :: "'b MemController \<Rightarrow> id_type \<Rightarrow> MemEvent \<Rightarrow> MemEvent \<Rightarrow> bool" where
  "holds_refill mc j r rd \<longleftrightarrow> map_find (mc_outstanding mc) j = Some rd \<and> ev_fine mc j rd \<and>
     (cmd rd = GetS \<or> cmd rd = GetX \<or> cmd rd = GetSX) \<and> \<not> queryFlag F_NORESPONSE rd \<and> \<not> queryFlag F_NONCACHEABLE rd \<and>
     translateToLocal mc (baseAddr r) = Inr (baseAddr rd) \<and> ev_size rd = ev_size r"

text \<open>The cache waits for the line \<open>q\<close> carries.\<close>

definition waits_for :: "Env \<Rightarrow> Ctl \<Rightarrow> nat \<Rightarrow> MemEvent \<Rightarrow> MemEvent \<Rightarrow> bool" where
  "waits_for env t i q req \<longleftrightarrow> ctl_ok t \<and> hit t t (baseAddr q) (Some i) \<and> cl_state (the_line t i) = stIS \<and> awaited q req t \<and>
     upReachable env (ev_src req) \<and> rqstr req \<noteq> cachename env \<and> length (getPayload q) = length (cl_data (the_line t i)) \<and>
     offset_of req + unat (ev_size req) \<le> length (cl_data (the_line t i))"

lemma writeback_bytes:
  assumes "localize mc r = Inr lr" "ev_flags r = 0" "addrGlobal r" "cmd r = PutM" "length (payload r) < 2 ^ 32"
    "ev_size r = of_nat (length (payload r))"
  defines "st \<equiv> setFlag F_NORESPONSE lr"
  shows "cmd st = PutM" "ev_size st = ev_size r" "take (unat (ev_size st)) (getPayload st) = payload r"
    "\<exists>a. translateToLocal mc (baseAddr r) = Inr a \<and> ev_at st = a"
proof -
  obtain b a where l: "translateToLocal mc (baseAddr r) = Inr b" "lr = r\<lparr>baseAddr := b, ev_addr := a\<rparr>"
    using assms(1,3) by (auto simp: localize_def bindE_eq_Inr_iff)
  have n: "unat (ev_size r) = length (payload r)" using assms(5,6) by (simp add: unsigned_of_nat take_bit_nat_eq_self)
  show "cmd st = PutM" "ev_size st = ev_size r" using l(2) assms(4) by (simp_all add: st_def setFlag_def)
  show "take (unat (ev_size st)) (getPayload st) = payload r"
    using l(2) n by (simp add: st_def setFlag_def getPayload_def resizePayload_def)
  have "ev_at st = b" using l(2) assms(2,4) by (simp add: st_def setFlag_def ev_at_def data_addr_def queryFlag_def flag_defs)
  then show "\<exists>a. translateToLocal mc (baseAddr r) = Inr a \<and> ev_at st = a" using l(1) by blast
qed

lemma memory_returns_writeback:
  assumes good: "bk_good mc" "key_sorted (mc_outstanding mc)" "mc_backing mc \<noteq> None" "k \<noteq> j"
    and w: "holds_writeback mc k r" and rd: "holds_refill mc j r rd"
    and r: "ev_flags r = 0" "addrGlobal r" "cmd r = PutM" "length (payload r) < 2 ^ 32" "ev_size r = of_nat (length (payload r))"
  shows "\<exists>mc1 mc2 q. handleMemResponse E k f1 mc = Inr mc1 \<and> handleMemResponse E j f2 mc1 = Inr mc2 \<and>
    mc_sent mc2 = mc_sent mc1 @ [q] \<and> cmd q = GetXResp \<and> getPayload q = payload r \<and>
    (addrGlobal rd \<longrightarrow> baseAddr q = translateToGlobal mc (baseAddr rd))"
proof -
  obtain lr where lr: "localize mc r = Inr lr" "map_find (mc_outstanding mc) k = Some (setFlag F_NORESPONSE lr)"
    "ev_fine mc k (setFlag F_NORESPONSE lr)" using w by (auto simp: holds_writeback_def)
  note W = writeback_bytes [OF lr(1) r]
  have d: "map_find (mc_outstanding mc) j = Some rd" "ev_fine mc j rd" "cmd rd = GetS \<or> cmd rd = GetX \<or> cmd rd = GetSX"
    "\<not> queryFlag F_NORESPONSE rd" "\<not> queryFlag F_NONCACHEABLE rd" "ev_size rd = ev_size r"
    "translateToLocal mc (baseAddr r) = Inr (baseAddr rd)" using rd by (auto simp: holds_refill_def)
  have at: "ev_at rd = ev_at (setFlag F_NORESPONSE lr)" using W(4) d(3,5,7) by (auto simp: ev_at_def data_addr_def)
  show ?thesis
    using read_after_write [OF good lr(2,3) _ d(1-4), of E f1 f2] W(1-3) at d(5,6) by auto
qed

text \<open>
  C2 A modified line that is evicted loses no byte on its way through memory. The eviction queues
  a write-back \<open>r\<close>; once the memory controller holds it and a read of the line, and its back end
  answers first the write and then the read, the response \<open>q\<close> fills the line of any cache that
  waits for it with exactly the bytes that were evicted.
\<close>
theorem evicted_line_comes_back:
  assumes "i < nlines s" and "cl_state (the_line s i) = stM" and "\<not> isLocked (timestamp s) (the_line s i)"
    and "getPendingRetries (c_mshr s) (cl_addr (the_line s i)) = 0"
    and "downFind env (cl_addr (the_line s i)) \<noteq> ''''" and "length (cl_data (the_line s i)) < 2 ^ 32"
  shows "\<exists>s' r. handleEviction env a (Some i) s = Inr (s', i, True) \<and> grows (queueDown s) r (queueDown s') \<and>
    cmd r = PutM \<and> baseAddr r = cl_addr (the_line s i) \<and> addrGlobal r \<and> ev_flags r = 0 \<and>
    payload r = cl_data (the_line s i) \<and> ev_size r = of_nat (length (cl_data (the_line s i))) \<and>
    (\<forall>(mc :: 'b MemController) k j rd E f1 f2. bk_good mc \<and> key_sorted (mc_outstanding mc) \<and> mc_backing mc \<noteq> None \<and> k \<noteq> j \<and>
        holds_writeback mc k r \<and> holds_refill mc j r rd \<longrightarrow>
      (\<exists>mc1 mc2 q. handleMemResponse E k f1 mc = Inr mc1 \<and> handleMemResponse E j f2 mc1 = Inr mc2 \<and> mc_sent mc2 = mc_sent mc1 @ [q] \<and>
        (addrGlobal rd \<longrightarrow> baseAddr q = translateToGlobal mc (baseAddr rd)) \<and> getPayload q = cl_data (the_line s i) \<and>
        (\<forall>env' t i' req b. waits_for env' t i' q req \<longrightarrow>
          (\<exists>t'. dispatch env' q b t = Inr (t', True) \<and> cl_data (the_line t' i') = cl_data (the_line s i)))))"
proof -
  obtain s' r where r: "handleEviction env a (Some i) s = Inr (s', i, True)" "grows (queueDown s) r (queueDown s')"
    "cmd r = PutM" "payload r = cl_data (the_line s i)" "ev_size r = of_nat (length (cl_data (the_line s i)))" "ev_flags r = 0" "addrGlobal r"
    "baseAddr r = cl_addr (the_line s i)"
    using evict_modified [OF assms(1-5), of a] by blast
  have "\<exists>mc1 mc2 q. handleMemResponse E k f1 mc = Inr mc1 \<and> handleMemResponse E j f2 mc1 = Inr mc2 \<and> mc_sent mc2 = mc_sent mc1 @ [q] \<and>
      (addrGlobal rd \<longrightarrow> baseAddr q = translateToGlobal mc (baseAddr rd)) \<and> getPayload q = cl_data (the_line s i) \<and>
      (\<forall>env' t i' req b. waits_for env' t i' q req \<longrightarrow>
        (\<exists>t'. dispatch env' q b t = Inr (t', True) \<and> cl_data (the_line t' i') = cl_data (the_line s i)))"
    if h: "bk_good mc" "key_sorted (mc_outstanding mc)" "mc_backing mc \<noteq> None" "k \<noteq> j" "holds_writeback mc k r" "holds_refill mc j r rd"
    for mc :: "'b MemController" and k j rd E f1 f2
  proof -
    obtain mc1 mc2 q where q: "handleMemResponse E k f1 mc = Inr mc1" "handleMemResponse E j f2 mc1 = Inr mc2"
      "mc_sent mc2 = mc_sent mc1 @ [q]" "cmd q = GetXResp" "getPayload q = cl_data (the_line s i)"
      "addrGlobal rd \<longrightarrow> baseAddr q = translateToGlobal mc (baseAddr rd)"
      using memory_returns_writeback [OF h r(6,7,3), of E f1 f2] r(4,5) assms(6) by auto
    have "\<exists>t'. dispatch env' q b t = Inr (t', True) \<and> cl_data (the_line t' i') = cl_data (the_line s i)"
      if w: "waits_for env' t i' q req" for env' t i' req b
      using fill_read [of t q i' req env' b] w q(4,5) by (auto simp: waits_for_def)
    then show ?thesis using q(1-3,5,6) by blast
  qed
  then show ?thesis using r by blast
qed


text \<open>Witness: line 2 of the concrete cache goes out, comes back from a memory, and fills a cache that waits for it.\<close>

definition demo_refill :: "MemEvent \<Rightarrow> MemEvent" where
  "demo_refill r = (demo_event 5 64 GetS)\<lparr>eventID := (fst (eventID r) + 1, 0), ev_size := 64\<rparr>"

definition demo_back :: "MemEvent \<Rightarrow> SDRAM ReorderRow MemController" where
  "demo_back r = demo_mc\<lparr>mc_region := \<lparr>mr_start = 0, mr_end = 1023, interleaveSize = 0, interleaveStep = 0\<rparr>,
     mc_outstanding := map_set (eventID r) (setFlag F_NORESPONSE (r\<lparr>baseAddr := 64, ev_addr := ev_addr r\<rparr>))
       [((fst (eventID r) + 1, 0), demo_refill r)]\<rparr>"

theorem evicted_line_comes_back_witness:
  "\<exists>s' r mc1 mc2 q t'. handleEviction demo_env 192 (Some 2) demo_modified = Inr (s', 2, True) \<and>
     handleMemResponse demo_mcenv (eventID r) 0 (demo_back r) = Inr mc1 \<and>
     handleMemResponse demo_mcenv (fst (eventID r) + 1, 0) 0 mc1 = Inr mc2 \<and> mc_sent mc2 = mc_sent mc1 @ [q] \<and>
     dispatch demo_env q False (demo_wait stIS ((demo_event 1 64 GetS)\<lparr>ev_size := 2\<rparr>)) = Inr (t', True) \<and>
     cl_data (the_line t' 2) = cl_data (the_line demo_modified 2)"
proof -
  let ?l = "the_line demo_modified 2"
  have l: "cl_addr ?l = 64" "length (cl_data ?l) = 64" "cl_state ?l = stM" "\<not> isLocked (timestamp demo_modified) ?l"
    by (simp_all add: isLocked_def demo_modified_line L1CacheLine_new_def CacheLine_new_def CacheLine.defs L1CacheLine.defs)
  have p: "getPendingRetries (c_mshr demo_modified) 64 = 0"
    by (simp add: demo_modified_def demo_ctl_def on_line_def newMSHR_def getPendingRetries_def)
  obtain s' r where r: "handleEviction demo_env 192 (Some 2) demo_modified = Inr (s', 2, True)" "cmd r = PutM" "baseAddr r = 64" "addrGlobal r"
    "ev_flags r = 0" "payload r = cl_data ?l" "ev_size r = 64"
    and mem: "\<And>(mc :: SDRAM ReorderRow MemController) k j rd E f1 f2. bk_good mc \<and> key_sorted (mc_outstanding mc) \<and> mc_backing mc \<noteq> None \<and> k \<noteq> j \<and>
        holds_writeback mc k r \<and> holds_refill mc j r rd \<Longrightarrow>
      \<exists>mc1 mc2 q. handleMemResponse E k f1 mc = Inr mc1 \<and> handleMemResponse E j f2 mc1 = Inr mc2 \<and> mc_sent mc2 = mc_sent mc1 @ [q] \<and>
        (addrGlobal rd \<longrightarrow> baseAddr q = translateToGlobal mc (baseAddr rd)) \<and> getPayload q = cl_data ?l \<and>
        (\<forall>env' t i' req b. waits_for env' t i' q req \<longrightarrow>
          (\<exists>t'. dispatch env' q b t = Inr (t', True) \<and> cl_data (the_line t' i') = cl_data ?l))"
    using evicted_line_comes_back [of 2 demo_modified demo_env 192, where ?'b = "SDRAM ReorderRow"] l p
    by (auto simp: demo_env_def)
  let ?mc = "demo_back r" and ?rd = "demo_refill r" and ?k = "eventID r" and ?j = "(fst (eventID r) + 1, 0)"
  let ?w = "setFlag F_NORESPONSE (r\<lparr>baseAddr := 64, ev_addr := ev_addr r\<rparr>)"
  have ne: "?k \<noteq> ?j" by (cases "eventID r") auto
  have out: "map_find (mc_outstanding ?mc) ?k = Some ?w" "map_find (mc_outstanding ?mc) ?j = Some ?rd"
    "key_sorted (mc_outstanding ?mc)" using ne by (simp_all add: demo_back_def key_sorted_map_set del: map_set.simps)
  have bk: "mc_backing ?mc = Some demo_malloc" by (simp add: demo_back_def demo_mc_def)
  have loc: "translateToLocal ?mc x = Inr x" "translateToGlobal ?mc x = x" for x
    by (simp_all add: demo_back_def demo_mc_def translateToLocal_def translateToGlobal_def)
  have wat: "ev_at ?w = 64" "ev_size ?w = 64" "eventID ?w = ?k" "cmd ?w = PutM"
    using r(2,5,7) by (simp_all add: setFlag_def ev_at_def data_addr_def queryFlag_def flag_defs)
  have rat: "ev_at ?rd = 64" "ev_size ?rd = 64" "eventID ?rd = ?j" "cmd ?rd = GetS" "addrGlobal ?rd" "baseAddr ?rd = 64" "ev_flags ?rd = 0"
    by (simp_all add: demo_refill_def ev_at_def data_addr_def queryFlag_def demo_event_def newMemEvent_def)
  have "ev_fine ?mc ?k ?w" "ev_fine ?mc ?j ?rd" using wat rat bk by (simp_all add: ev_fine_def in_store_def demo_malloc_ok)
  then have "holds_writeback ?mc ?k r" "holds_refill ?mc ?j r ?rd"
    using out r(3,4,7) loc rat by (auto simp: holds_writeback_def holds_refill_def localize_def queryFlag_def)
  moreover have "bk_good ?mc" "mc_backing ?mc \<noteq> None" using bk by (simp_all add: bk_good_def demo_malloc_ok)
  ultimately obtain mc1 mc2 q where q: "handleMemResponse demo_mcenv ?k 0 ?mc = Inr mc1" "handleMemResponse demo_mcenv ?j 0 mc1 = Inr mc2"
    "mc_sent mc2 = mc_sent mc1 @ [q]" "baseAddr q = 64" "getPayload q = cl_data ?l"
    "\<forall>env' t i' req b. waits_for env' t i' q req \<longrightarrow>
          (\<exists>t'. dispatch env' q b t = Inr (t', True) \<and> cl_data (the_line t' i') = cl_data ?l)"
    using mem [of ?mc ?k ?j ?rd demo_mcenv 0 0] out(3) ne rat(5) unfolding rat(6) loc(2) by blast
  let ?req = "(demo_event 1 64 GetS)\<lparr>ev_size := 2\<rparr>"
  have "waits_for demo_env (demo_wait stIS ?req) 2 q ?req"
    using demo_wait_ok [of stIS ?req] demo_wait_hit [of stIS ?req] demo_awaited [of q ?req stIS] q(4,5) l(2)
    by (simp add: waits_for_def demo_wait_sel demo_env_sel offset_of_def)
  then show ?thesis using q(1-3) q(6) r(1) by blast
qed

end
